(* ===== verification/Prelude.thy ===== *)
theory Prelude
  imports Main "HOL-Library.Word"
begin

unbundle bit_operations_syntax

text \<open>
  What the components of the development share: the names of the machine types, the
  wrap-around of \<open>uint32_t\<close> arithmetic on natural numbers, rounded-up division,
  \<open>std::to_string\<close>, the little-endian layout of integers in memory, and
  slash-separated paths with the lemma that they can be read back.

  Conventions of the whole development. Values whose bits matter (random words, float
  bit patterns, sort keys, indices compared as signed or unsigned) are words of
  \<open>HOL-Library.Word\<close>. Counts, offsets and page numbers of the device programs are
  natural numbers whose \<open>uint32_t\<close> wrap-around is written out with \<open>w32\<close>.
  A byte string is a list of characters, as \<open>std::string\<close> is.
\<close>

section \<open>Machine integers\<close>

type_synonym u8 = "8 word"
type_synonym u16 = "16 word"
type_synonym u32 = "32 word"
type_synonym u64 = "64 word"
type_synonym bytes = string

named_theorems wrap_simps \<open>uint32_t arithmetic that does not wrap\<close>
named_theorems layout_simps \<open>tile and page layout arithmetic\<close>

text \<open>The value of a \<open>uint32_t\<close> expression built from sums and products.\<close>

definition w32 :: "nat \<Rightarrow> nat" where
  "w32 n = n mod 2 ^ 32"

lemma w32_less [wrap_simps, simp]: "w32 n < 4294967296"
  by (simp add: w32_def)

lemma w32_id [wrap_simps]: "n < 4294967296 \<Longrightarrow> w32 n = n"
  by (simp add: w32_def)

lemma w32_le [simp]: "w32 n \<le> n"
  by (simp add: w32_def)

lemma w32_0 [simp]: "w32 0 = 0"
  by (simp add: w32_def)

lemma unat_lt [simp]: "unat (x :: u32) < 4294967296"
  using unsigned_less [of x] by simp

lemma unat_shift: "unat (push_bit n (x :: u32)) = unat x * 2 ^ n mod 2 ^ 32" "unat (drop_bit n x) = unat x div 2 ^ n"
  by (simp_all only: unsigned_push_bit_eq unsigned_drop_bit_eq)
    (simp_all add: push_bit_eq_mult take_bit_eq_mod drop_bit_eq_div mod_less)

text \<open>\<open>(a + b - 1) / b\<close> of the sources, on values that do not wrap.\<close>

definition div_up :: "nat \<Rightarrow> nat \<Rightarrow> nat" where
  "div_up a b = (a + b - 1) div b"

lemma div_up_mult_ge: "0 < b \<Longrightarrow> a \<le> div_up a b * b"
proof -
  assume b: "0 < b"
  have "(a + b - 1) mod b < b"
    using b by simp
  moreover have "(a + b - 1) div b * b + (a + b - 1) mod b = a + b - 1"
    by simp
  ultimately show ?thesis
    using b unfolding div_up_def by linarith
qed

lemma div_up_pred_mult_less: "0 < b \<Longrightarrow> 0 < a \<Longrightarrow> (div_up a b - 1) * b < a"
proof -
  assume b: "0 < b" and a: "0 < a"
  have "(a + b - 1) div b * b \<le> a + b - 1"
    by simp
  then have "div_up a b * b \<le> a + b - 1"
    by (simp add: div_up_def)
  then have "div_up a b * b - b < a"
    using a b by linarith
  then show ?thesis
    by (simp add: diff_mult_distrib)
qed

lemma div_up_pos_iff [simp]: "0 < b \<Longrightarrow> 0 < div_up a b \<longleftrightarrow> 0 < a"
  by (auto simp: div_up_def div_greater_zero_iff)

lemma div_up_0_iff [simp]: "0 < b \<Longrightarrow> div_up a b = 0 \<longleftrightarrow> a = 0"
  using div_up_pos_iff [of b a] by linarith

lemma div_up_le: "0 < b \<Longrightarrow> div_up a b \<le> a"
proof -
  assume b: "0 < b"
  show ?thesis
  proof (cases "a = 0")
    case True
    with b show ?thesis by (simp add: div_up_def)
  next
    case False
    then have "a + b - 1 \<le> a * b"
      using b by (cases a; cases b) auto
    then have "(a + b - 1) div b \<le> a * b div b"
      by (rule div_le_mono)
    with b show ?thesis by (simp add: div_up_def)
  qed
qed

lemma div_up_0 [simp]: "0 < b \<Longrightarrow> div_up 0 b = 0"
  by (simp add: div_up_def)

lemma less_div_up_iff: "0 < b \<Longrightarrow> i < div_up a b \<longleftrightarrow> i * b < a"
proof
  assume b: "0 < b" and "i < div_up a b"
  then have "i * b \<le> (div_up a b - 1) * b" and a: "0 < a"
    by (auto simp: div_up_def intro: gr0I)
  with div_up_pred_mult_less [OF b a] show "i * b < a"
    by linarith
next
  assume b: "0 < b" and "i * b < a"
  with div_up_mult_ge [OF b, of a] have "i * b < div_up a b * b"
    by linarith
  with b show "i < div_up a b"
    by simp
qed

section \<open>Decimal numerals\<close>

text \<open>\<open>std::to_string\<close> of an unsigned and of a signed integer.\<close>

fun show_nat :: "nat \<Rightarrow> string" where
  "show_nat n =
     (if n < 10 then [char_of (48 + n)] else show_nat (n div 10) @ [char_of (48 + n mod 10)])"

declare show_nat.simps [simp del]

definition show_int :: "int \<Rightarrow> string" where
  "show_int z = (if z < 0 then CHR ''-'' # show_nat (nat (- z)) else show_nat (nat z))"

definition is_digit :: "char \<Rightarrow> bool" where
  "is_digit c \<longleftrightarrow> 48 \<le> (of_char c :: nat) \<and> (of_char c :: nat) \<le> 57"

definition read_nat :: "string \<Rightarrow> nat" where
  "read_nat s = foldl (\<lambda>a c. 10 * a + (of_char c - 48)) 0 s"

lemma show_nat_nonempty [simp]: "show_nat n \<noteq> []"
  by (subst show_nat.simps) simp

lemma show_nat_digits: "c \<in> set (show_nat n) \<Longrightarrow> is_digit c"
proof (induction n rule: show_nat.induct)
  case (1 n)
  show ?case
  proof (cases "n < 10")
    case True
    with "1.prems" show ?thesis
      by (subst (asm) show_nat.simps) (simp add: is_digit_def)
  next
    case False
    from "1.prems" have "c \<in> set (show_nat (n div 10)) \<or> c = char_of (48 + n mod 10)"
      by (subst (asm) show_nat.simps) (auto simp: False)
    then show ?thesis
    proof
      assume "c \<in> set (show_nat (n div 10))"
      with False show ?thesis by (rule "1.IH")
    next
      assume "c = char_of (48 + n mod 10)"
      moreover have "n mod 10 < 10" by simp
      ultimately show ?thesis by (simp add: is_digit_def)
    qed
  qed
qed

lemma read_nat_show_nat [simp]: "read_nat (show_nat n) = n"
proof (induction n rule: show_nat.induct)
  case (1 n)
  show ?case
  proof (cases "n < 10")
    case True
    then show ?thesis
      by (subst show_nat.simps) (simp add: read_nat_def)
  next
    case False
    have "n mod 10 < 10" by simp
    then have "read_nat (show_nat n) = 10 * read_nat (show_nat (n div 10)) + n mod 10"
      by (subst show_nat.simps) (simp add: False read_nat_def)
    with "1.IH" False show ?thesis by simp
  qed
qed

lemma show_nat_inject [simp]: "show_nat m = show_nat n \<longleftrightarrow> m = n"
  by (metis read_nat_show_nat)

lemma show_nat_not_minus: "show_nat n \<noteq> CHR ''-'' # s"
proof
  assume "show_nat n = CHR ''-'' # s"
  then have "CHR ''-'' \<in> set (show_nat n)" by simp
  then have "is_digit CHR ''-''" by (rule show_nat_digits)
  then show False by (simp add: is_digit_def)
qed

lemma show_int_inject [simp]: "show_int a = show_int b \<longleftrightarrow> a = b"
  using show_nat_not_minus [of "nat a"] show_nat_not_minus [of "nat b"]
  by (auto simp: show_int_def dest: sym)

lemma show_int_nonneg: "0 \<le> z \<Longrightarrow> show_int z = show_nat (nat z)"
  by (simp add: show_int_def)

section \<open>Paths\<close>

text \<open>Tokens joined with slashes; slash-free tokens can be read back.\<close>

fun path :: "string list \<Rightarrow> string" where
  "path [] = []"
| "path [t] = t"
| "path (t # u # ts) = t @ CHR ''/'' # path (u # ts)"

definition slash_free :: "string \<Rightarrow> bool" where
  "slash_free t \<longleftrightarrow> CHR ''/'' \<notin> set t"

lemma slash_free_show_nat [simp]: "slash_free (show_nat n)"
  unfolding slash_free_def
proof
  assume "CHR ''/'' \<in> set (show_nat n)"
  then have "is_digit CHR ''/''" by (rule show_nat_digits)
  then show False by (simp add: is_digit_def)
qed

lemma slash_free_show_int [simp]: "slash_free (show_int z)"
  using slash_free_show_nat by (auto simp: show_int_def slash_free_def)

lemma path_snoc: "ts \<noteq> [] \<Longrightarrow> path (ts @ [t]) = path ts @ CHR ''/'' # t"
  by (induction ts rule: path.induct) auto

lemma path_append:
  "ts \<noteq> [] \<Longrightarrow> us \<noteq> [] \<Longrightarrow> path (ts @ us) = path ts @ CHR ''/'' # path us"
  by (induction ts rule: path.induct) (cases us; simp)+

lemma append_slash_eq:
  assumes "slash_free t" and "slash_free u"
    and "t @ CHR ''/'' # x = u @ CHR ''/'' # y"
  shows "t = u \<and> x = y"
  using assms
proof (induction t arbitrary: u)
  case Nil
  then show ?case by (cases u) (auto simp: slash_free_def)
next
  case (Cons c t)
  then show ?case by (cases u) (auto simp: slash_free_def)
qed

lemma path_inject:
  assumes "\<forall>t\<in>set ts. slash_free t" and "\<forall>t\<in>set us. slash_free t"
    and "ts \<noteq> []" and "us \<noteq> []" and "path ts = path us"
  shows "ts = us"
  using assms
proof (induction ts arbitrary: us rule: path.induct)
  case 1
  then show ?case by simp
next
  case (2 t)
  then show ?case
    by (cases us rule: path.cases) (auto simp: slash_free_def)
next
  case (3 t u ts)
  show ?case
  proof (cases us rule: path.cases)
    case 1
    with "3.prems" show ?thesis by simp
  next
    case (2 v)
    with "3.prems" show ?thesis by (auto simp: slash_free_def)
  next
    case (3 v w vs)
    from "3.prems" 3 have eq: "t = v \<and> path (u # ts) = path (w # vs)"
      by (intro append_slash_eq) auto
    with "3.IH" [of "w # vs"] "3.prems" 3 show ?thesis by simp
  qed
qed

section \<open>Integers in memory\<close>

text \<open>An unsigned integer of \<open>w\<close> bytes, least significant byte first.\<close>

fun le_bytes :: "nat \<Rightarrow> nat \<Rightarrow> bytes" where
  "le_bytes 0 n = []"
| "le_bytes (Suc w) n = char_of (n mod 256) # le_bytes w (n div 256)"

fun le_value :: "bytes \<Rightarrow> nat" where
  "le_value [] = 0"
| "le_value (c # cs) = of_char c + 256 * le_value cs"

lemma length_le_bytes [simp]: "length (le_bytes w n) = w"
  by (induction w arbitrary: n) auto

lemma le_value_le_bytes: "le_value (le_bytes w n) = n mod 256 ^ w"
proof (induction w arbitrary: n)
  case 0
  then show ?case by simp
next
  case (Suc w)
  have "n mod (256 * 256 ^ w) = 256 * (n div 256 mod 256 ^ w) + n mod 256"
    by (rule mod_mult2_eq)
  with Suc show ?case by simp
qed

text \<open>A 32-bit \<open>int\<close>: two's complement, four bytes.\<close>

definition int_bytes :: "int \<Rightarrow> bytes" where
  "int_bytes z = le_bytes 4 (nat (z mod 2 ^ 32))"

definition bytes_int :: "bytes \<Rightarrow> int" where
  "bytes_int b = (let n = int (le_value b) in if n < 2 ^ 31 then n else n - 2 ^ 32)"

definition is_int32 :: "int \<Rightarrow> bool" where
  "is_int32 z \<longleftrightarrow> - (2 ^ 31) \<le> z \<and> z < 2 ^ 31"

lemma length_int_bytes [simp]: "length (int_bytes z) = 4"
  by (simp add: int_bytes_def)

lemma bytes_int_int_bytes: "is_int32 z \<Longrightarrow> bytes_int (int_bytes z) = z"
proof -
  assume z: "is_int32 z"
  have "nat (z mod 2 ^ 32) < 256 ^ 4"
    by (simp add: nat_less_iff)
  then have v: "int (le_value (int_bytes z)) = z mod 2 ^ 32"
    by (simp add: int_bytes_def le_value_le_bytes)
  show ?thesis
  proof (cases "0 \<le> z")
    case True
    with z v show ?thesis by (simp add: bytes_int_def is_int32_def Let_def)
  next
    case False
    with z have "(z + 2 ^ 32) mod 2 ^ 32 = z + 2 ^ 32"
      by (intro mod_pos_pos_trivial) (auto simp: is_int32_def)
    then have "z mod 2 ^ 32 = z + 2 ^ 32"
      by simp
    with False z v show ?thesis by (simp add: bytes_int_def is_int32_def Let_def)
  qed
qed

section \<open>Lists of blocks\<close>

lemma length_concat_blocks:
  "(\<And>q. q < m \<Longrightarrow> length (f q) = k) \<Longrightarrow> length (concat (map f [0..<m])) = m * k"
  by (induction m) auto

lemma nth_concat_blocks:
  assumes "\<And>q. q < m \<Longrightarrow> length (f q) = k" and "p < m * k"
  shows "concat (map f [0..<m]) ! p = f (p div k) ! (p mod k)"
  using assms
proof (induction m)
  case (Suc m)
  have len: "length (concat (map f [0..<m])) = m * k"
    using Suc.prems by (intro length_concat_blocks) auto
  show ?case
  proof (cases "p < m * k")
    case True
    with Suc len show ?thesis by (simp add: nth_append)
  next
    case False
    then obtain r where r: "p = r + m * k" by (metis le_add_diff_inverse2 not_less)
    with Suc.prems(2) have "r < k" by simp
    with r have "p div k = m" "p mod k = r" by simp_all
    with r len show ?thesis by (simp add: nth_append)
  qed
qed simp

text \<open>Mixed-radix indices.\<close>

lemma index_less_product:
  assumes "a < m" and "b < (n :: nat)"
  shows "a * n + b < m * n"
proof -
  have "a * n + b < Suc a * n" using assms(2) by simp
  also have "\<dots> \<le> m * n" using assms(1) by (intro mult_le_mono1) simp
  finally show ?thesis .
qed

lemma index_div: "x < n \<Longrightarrow> (t * n + x) div n = (t :: nat)"
  and index_mod: "x < n \<Longrightarrow> (t * n + x) mod n = (x :: nat)"
  by simp_all

section \<open>Shapes\<close>

text \<open>\<open>shape[-i]\<close>, and a product of dimensions in \<open>uint32_t\<close>.\<close>

definition dim_back :: "nat list \<Rightarrow> nat \<Rightarrow> nat" where
  "dim_back shape i = shape ! (length shape - i)"

definition product32 :: "nat list \<Rightarrow> nat" where
  "product32 xs = foldl (\<lambda>p x. w32 (p * x)) 1 xs"

lemma product32_exact:
  assumes "0 \<notin> set xs" "prod_list xs < 2 ^ 32"
  shows "product32 xs = prod_list xs"
proof -
  have "foldl (\<lambda>p x. w32 (p * x)) n xs = n * prod_list xs" if "n * prod_list xs < 2 ^ 32" for n
    using that assms(1)
  proof (induction xs arbitrary: n)
    case Nil
    then show ?case by simp
  next
    case (Cons x xs)
    have "0 < prod_list xs" using Cons.prems(2) by (auto simp: prod_list_zero_iff intro: gr0I)
    then have "n * x * 1 \<le> n * x * prod_list xs" by (intro mult_le_mono2) simp
    moreover have "n * x * prod_list xs < 4294967296" using Cons.prems(1) by (simp add: mult.assoc)
    ultimately have "w32 (n * x) = n * x" by (intro w32_id) linarith
    with Cons show ?case by (simp add: mult.assoc)
  qed
  from this [of 1] assms(2) show ?thesis by (simp add: product32_def)
qed

end
