(* ===== verification/Effects.thy ===== *)
theory Effects
  imports Prelude
begin

text \<open>
  Programs that talk to a key-value store shared by several processes: the two calls of
  \<open>libtt::KeyValueStore\<close> (\<open>cpp/key_value_context.h\<close>) as the nodes of a program tree, the
  interleaved runs of such programs over one store, and a rely/guarantee rule. A call
  either succeeds or throws, and a \<open>get\<close> waits until the key is there. Every theorem
  about the coordination context is proved over the interleavings defined here.
\<close>

section \<open>Programs over the store\<close>

text \<open>An exception is its message; \<open>'a res\<close> is a result or a thrown exception.\<close>

type_synonym exn = string
type_synonym 'a res = "exn + 'a"
type_synonym store = "string \<rightharpoonup> bytes"

datatype 'a prog =
    Done 'a
  | Put string bytes "unit res \<Rightarrow> 'a prog"
  | Get string "bytes res \<Rightarrow> 'a prog"

primrec prog_bind :: "'a prog \<Rightarrow> ('a \<Rightarrow> 'b prog) \<Rightarrow> 'b prog" where
  "prog_bind (Done a) h = h a"
| "prog_bind (Put k v f) h = Put k v (\<lambda>r. prog_bind (f r) h)"
| "prog_bind (Get k f) h = Get k (\<lambda>r. prog_bind (f r) h)"

section \<open>Interleaved execution\<close>

text \<open>
  One call of one process. A failing \<open>put\<close> throws whether or not the value reached the
  store; a failing \<open>get\<close> (a timeout or a lost connection) throws at any time.
\<close>

inductive prog_step :: "store \<Rightarrow> 'a prog \<Rightarrow> store \<Rightarrow> 'a prog \<Rightarrow> bool" where
  put_ok: "prog_step st (Put k v f) (st(k \<mapsto> v)) (f (Inr ()))"
| put_lost: "prog_step st (Put k v f) st (f (Inl e))"
| put_late: "prog_step st (Put k v f) (st(k \<mapsto> v)) (f (Inl e))"
| get_ok: "st k = Some v \<Longrightarrow> prog_step st (Get k f) st (f (Inr v))"
| get_fail: "prog_step st (Get k f) st (f (Inl e))"

text \<open>Only the calls that succeed.\<close>

inductive good_step :: "store \<Rightarrow> 'a prog \<Rightarrow> store \<Rightarrow> 'a prog \<Rightarrow> bool" where
  good_put: "good_step st (Put k v f) (st(k \<mapsto> v)) (f (Inr ()))"
| good_get: "st k = Some v \<Longrightarrow> good_step st (Get k f) st (f (Inr v))"

inductive_cases prog_step_PutE: "prog_step st (Put k v f) st' p'"
inductive_cases prog_step_GetE: "prog_step st (Get k f) st' p'"
inductive_simps prog_step_Done [simp]: "prog_step st (Done a) st' p'"
inductive_simps good_step_Done [simp]: "good_step st (Done a) st' p'"
inductive_simps good_step_Put [simp]: "good_step st (Put k v f) st' p'"
inductive_simps good_step_Get [simp]: "good_step st (Get k f) st' p'"

lemma good_step_prog_step: "good_step st p st' p' \<Longrightarrow> prog_step st p st' p'"
  by (induction rule: good_step.induct) (blast intro: prog_step.intros)+

lemma prog_step_putI:
  "p = Put k v f \<Longrightarrow> st' = st(k \<mapsto> v) \<Longrightarrow> p' = f (Inr ()) \<Longrightarrow> prog_step st p st' p'"
  by (simp add: put_ok)

lemma prog_step_getI:
  "p = Get k f \<Longrightarrow> st k = Some v \<Longrightarrow> p' = f (Inr v) \<Longrightarrow> prog_step st p st p'"
  by (simp add: get_ok)

text \<open>A system: the store and one program per process, of which any may move next.\<close>

type_synonym 'a system = "store \<times> (nat \<Rightarrow> 'a prog)"

inductive sys_step :: "'a system \<Rightarrow> 'a system \<Rightarrow> bool" where
  sys_step: "prog_step st (ps i) st' p' \<Longrightarrow> sys_step (st, ps) (st', ps(i := p'))"

inductive sys_good :: "'a system \<Rightarrow> 'a system \<Rightarrow> bool" where
  sys_good: "good_step st (ps i) st' p' \<Longrightarrow> sys_good (st, ps) (st', ps(i := p'))"

inductive_cases sys_stepE: "sys_step (st, ps) s'"
inductive_cases sys_goodE: "sys_good (st, ps) s'"

lemma sys_good_sys_step: "sys_good s s' \<Longrightarrow> sys_step s s'"
  by (induction rule: sys_good.induct) (auto intro: sys_step.intros good_step_prog_step)

lemma sys_goods_sys_steps: "sys_good\<^sup>*\<^sup>* s s' \<Longrightarrow> sys_step\<^sup>*\<^sup>* s s'"
  by (induction rule: rtranclp_induct)
    (auto intro: rtranclp.rtrancl_into_rtrancl sys_good_sys_step)

section \<open>Rely and guarantee\<close>

text \<open>
  \<open>P k v\<close>: the value \<open>v\<close> may be found under \<open>k\<close>. A program keeps \<open>P\<close> if all it puts
  satisfies \<open>P\<close>, as long as all it gets does. \<open>runs P p a\<close>: with such gets, \<open>p\<close> can end
  with \<open>a\<close>.
\<close>

definition store_ok :: "(string \<Rightarrow> bytes \<Rightarrow> bool) \<Rightarrow> store \<Rightarrow> bool" where
  "store_ok P st \<longleftrightarrow> (\<forall>k v. st k = Some v \<longrightarrow> P k v)"

primrec guar :: "(string \<Rightarrow> bytes \<Rightarrow> bool) \<Rightarrow> 'a prog \<Rightarrow> bool" where
  "guar P (Done a) = True"
| "guar P (Put k v f) = (P k v \<and> (\<forall>r. guar P (f r)))"
| "guar P (Get k f) = (\<forall>r. (\<forall>v. r = Inr v \<longrightarrow> P k v) \<longrightarrow> guar P (f r))"

inductive runs :: "(string \<Rightarrow> bytes \<Rightarrow> bool) \<Rightarrow> 'a prog \<Rightarrow> 'a \<Rightarrow> bool" for P where
  runs_Done: "runs P (Done a) a"
| runs_Put: "runs P (f r) a \<Longrightarrow> runs P (Put k v f) a"
| runs_Get: "(\<forall>v. r = Inr v \<longrightarrow> P k v) \<Longrightarrow> runs P (f r) a \<Longrightarrow> runs P (Get k f) a"

inductive_simps runs_Done_iff [simp]: "runs P (Done a) b"
inductive_simps runs_Put_iff: "runs P (Put k v f) b"
inductive_simps runs_Get_iff: "runs P (Get k f) b"

lemma store_ok_update [simp]: "store_ok P st \<Longrightarrow> P k v \<Longrightarrow> store_ok P (st(k \<mapsto> v))"
  by (auto simp: store_ok_def)

lemma prog_step_guar:
  "prog_step st p st' p' \<Longrightarrow> store_ok P st \<Longrightarrow> guar P p \<Longrightarrow> store_ok P st' \<and> guar P p'"
  by (induction rule: prog_step.induct) (auto simp: store_ok_def)

lemma prog_step_runs:
  "prog_step st p st' p' \<Longrightarrow> store_ok P st \<Longrightarrow> runs P p' a \<Longrightarrow> runs P p a"
proof (induction rule: prog_step.induct)
  case (get_ok st k v f)
  then show ?case by (auto simp: store_ok_def intro: runs_Get [where r = "Inr v"])
next
  case (get_fail st k f e)
  then show ?case by (auto intro: runs_Get [where r = "Inl e"])
qed (auto intro: runs_Put)

text \<open>
  Soundness: if every process keeps \<open>P\<close> then so does the store in every reachable state,
  and what a process ends with is a run of its program with gets that satisfy \<open>P\<close>.
\<close>

lemma rely_guarantee:
  assumes "sys_step\<^sup>*\<^sup>* (st0, ps0) s" and "store_ok P st0" and "\<And>i. guar P (ps0 i)"
  shows "store_ok P (fst s) \<and> (\<forall>i. guar P (snd s i)) \<and>
    (\<forall>i a. runs P (snd s i) a \<longrightarrow> runs P (ps0 i) a)"
  using assms(1)
proof (induction rule: rtranclp_induct)
  case base
  then show ?case using assms(2,3) by simp
next
  case (step s s')
  from step.hyps(2) obtain st ps i st' p' where s: "s = (st, ps)" "s' = (st', ps(i := p'))"
    and p: "prog_step st (ps i) st' p'"
    by (auto elim: sys_step.cases)
  from step.IH s have ok: "store_ok P st" and g: "\<And>j. guar P (ps j)"
    and r: "\<And>j a. runs P (ps j) a \<Longrightarrow> runs P (ps0 j) a"
    by auto
  from prog_step_guar [OF p ok g] have "store_ok P st'" and "guar P p'" by auto
  moreover have "runs P (ps0 i) a" if "runs P p' a" for a
    using r [OF prog_step_runs [OF p ok that]] .
  ultimately show ?case using s g r by auto
qed

lemma rely_guarantee_result:
  assumes "sys_step\<^sup>*\<^sup>* (st0, ps0) (st, ps)" and "store_ok P st0" and "\<And>i. guar P (ps0 i)"
    and "ps i = Done a"
  shows "runs P (ps0 i) a"
proof -
  have "runs P (ps i) a" using assms(4) by simp
  with rely_guarantee [OF assms(1,2,3)] show ?thesis by auto
qed

text \<open>Binding: what the parts keep and reach.\<close>

lemma guar_bind:
  "guar P p \<Longrightarrow> (\<And>a. runs P p a \<Longrightarrow> guar P (h a)) \<Longrightarrow> guar P (prog_bind p h)"
proof (induction p)
  case (Done a)
  then show ?case by simp
next
  case (Put k v f)
  then show ?case by (auto intro!: Put.IH intro: runs_Put)
next
  case (Get k f)
  then show ?case by (auto intro!: Get.IH intro: runs_Get)
qed

lemma runs_bind:
  "runs P (prog_bind p h) b \<longleftrightarrow> (\<exists>a. runs P p a \<and> runs P (h a) b)"
proof (induction p)
  case (Done a)
  then show ?case by simp
next
  case (Put k v f)
  then show ?case by (auto simp: runs_Put_iff)
next
  case (Get k f)
  then show ?case by (auto simp: runs_Get_iff)
qed

section \<open>Bounded programs\<close>

text \<open>\<open>ops_le n p\<close>: \<open>p\<close> makes at most \<open>n\<close> calls.\<close>

primrec ops_le :: "'a prog \<Rightarrow> nat \<Rightarrow> bool" where
  "ops_le (Done a) n = True"
| "ops_le (Put k v f) n = (case n of 0 \<Rightarrow> False | Suc m \<Rightarrow> \<forall>r. ops_le (f r) m)"
| "ops_le (Get k f) n = (case n of 0 \<Rightarrow> False | Suc m \<Rightarrow> \<forall>r. ops_le (f r) m)"

lemma good_step_ops_le: "good_step st p st' p' \<Longrightarrow> ops_le p n \<Longrightarrow> \<exists>m. n = Suc m \<and> ops_le p' m"
  by (induction rule: good_step.induct) (auto split: nat.splits)

lemma ops_le_more: "ops_le q m \<Longrightarrow> ops_le q (k + m)"
  by (induction q arbitrary: m) (auto split: nat.splits)

lemma ops_le_bind:
  "ops_le p n \<Longrightarrow> (\<And>a. ops_le (h a) m) \<Longrightarrow> ops_le (prog_bind p h) (n + m)"
proof (induction p arbitrary: n)
  case (Done a)
  then show ?case by (simp add: ops_le_more)
next
  case (Put k v f)
  then show ?case by (auto split: nat.splits)
next
  case (Get k f)
  then show ?case by (auto split: nat.splits)
qed

text \<open>
  A system of \<open>n\<close> processes that make at most \<open>b\<close> calls each takes at most \<open>n * b\<close> steps.
\<close>

lemma sys_good_bounded:
  assumes "(sys_good ^^ k) (st0, ps0) (st, ps)"
    and "\<And>i. ops_le (ps0 i) (bd i)" and "\<And>i. n \<le> i \<Longrightarrow> bd i = 0"
  shows "\<exists>bd'. (\<forall>i. ops_le (ps i) (bd' i)) \<and> (\<forall>i\<ge>n. bd' i = 0) \<and> k + (\<Sum>i<n. bd' i) = (\<Sum>i<n. bd i)"
  using assms(1)
proof (induction k arbitrary: st ps)
  case 0
  then have "ps = ps0" by simp
  with assms(2,3) show ?case by (intro exI [of _ bd]) auto
next
  case (Suc k)
  then obtain st1 ps1 where "(sys_good ^^ k) (st0, ps0) (st1, ps1)"
    and s: "sys_good (st1, ps1) (st, ps)"
    by (auto elim: relpowp_Suc_E)
  from Suc.IH [OF this(1)] obtain b1 where b1: "\<forall>i. ops_le (ps1 i) (b1 i)" "\<forall>i\<ge>n. b1 i = 0"
    and sum: "k + (\<Sum>i<n. b1 i) = (\<Sum>i<n. bd i)" by blast
  from s obtain i p' where p: "good_step st1 (ps1 i) st p'" and ps: "ps = ps1(i := p')"
    by (auto elim: sys_goodE)
  from good_step_ops_le [OF p b1(1) [rule_format]] obtain m where m: "b1 i = Suc m" "ops_le p' m"
    by blast
  with b1(2) have i: "i < n" by (metis nat.distinct(1) not_le_imp_less)
  have "(\<Sum>j<n. b1 j) = b1 i + (\<Sum>j\<in>{..<n} - {i}. b1 j)"
    using i by (intro sum.remove) auto
  moreover have "(\<Sum>j<n. (b1(i := m)) j) = m + (\<Sum>j\<in>{..<n} - {i}. (b1(i := m)) j)"
    using i by (subst sum.remove [of _ i]) auto
  moreover have "(\<Sum>j\<in>{..<n} - {i}. (b1(i := m)) j) = (\<Sum>j\<in>{..<n} - {i}. b1 j)"
    by (intro sum.cong) auto
  ultimately have "Suc k + (\<Sum>j<n. (b1(i := m)) j) = (\<Sum>i<n. bd i)"
    using sum m(1) by simp
  moreover have "\<forall>j. ops_le (ps j) ((b1(i := m)) j)"
    using b1(1) m(2) ps by auto
  moreover have "\<forall>j\<ge>n. (b1(i := m)) j = 0"
    using b1(2) i by auto
  ultimately show ?case by blast
qed

end
