(* ===== verification/ContextKeys.thy ===== *)
theory ContextKeys
  imports KeyValueContext
begin

text \<open>
  The namespace of the coordination keys of \<open>cpp/key_value_context.cc\<close>. A key is a path of
  slash-free tokens: the root of the world context, one segment per context it was derived
  through, and the call. The path can be read back, so the calls of all contexts of a
  group meet only where the protocol means them to.
\<close>

section \<open>Segments and calls\<close>

text \<open>
  A context is made from another by \<open>create_sub_context\<close> (and \<open>split\<close>) with a list of
  ranks, or by \<open>duplicate\<close>; the number is the sequence number of its name.
\<close>

datatype seg = SGroup "int list" nat | SDup nat

fun seg_tokens :: "seg \<Rightarrow> string list" where
  "seg_tokens (SGroup rs n) = ''group'' # map show_int rs @ [show_nat n]"
| "seg_tokens (SDup n) = [''duplicate'', show_nat n]"

definition prefix_tokens :: "seg list \<Rightarrow> string list" where
  "prefix_tokens segs = [''libtt'', ''control''] @ concat (map seg_tokens segs)"

datatype kvkey =
    KMessage int int int nat
  | KAck int int int nat
  | KGather nat int
  | KBroadcast nat int

fun key_tokens :: "kvkey \<Rightarrow> string list" where
  "key_tokens (KMessage s d t n) = [''message'', show_int s, show_int d, show_int t, show_nat n]"
| "key_tokens (KAck s d t n) =
     [''message'', show_int s, show_int d, show_int t, show_nat n, ''ack'']"
| "key_tokens (KGather n i) = [''collective'', show_nat n, ''all_gather'', show_int i]"
| "key_tokens (KBroadcast n r) = [''collective'', show_nat n, ''broadcast'', show_int r]"

definition key_of :: "string \<Rightarrow> kvkey \<Rightarrow> string" where
  "key_of pre k = pre @ ''/'' @ path (key_tokens k)"

text \<open>The strings the code builds.\<close>

lemma key_of_message [simp]:
  "pre @ CHR ''/'' # message_channel s d t @ CHR ''/'' # show_nat n = key_of pre (KMessage s d t n)"
  by (simp add: key_of_def message_channel_def)

lemma key_of_ack [simp]: "key_of pre (KMessage s d t n) @ ''/ack'' = key_of pre (KAck s d t n)"
  by (simp add: key_of_def)

text \<open>The name \<open>Next("collective")\<close> returns.\<close>

definition collective_name :: "string \<Rightarrow> nat \<Rightarrow> string" where
  "collective_name pre n = pre @ ''/'' @ ''collective'' @ ''/'' @ show_nat n"

lemma key_of_gather [simp]:
  "all_gather_key (collective_name pre n) @ show_int i = key_of pre (KGather n i)"
  by (simp add: key_of_def all_gather_key_def collective_name_def)

lemma key_of_gather_nat [simp]:
  "all_gather_key (collective_name pre n) @ show_nat i = key_of pre (KGather n (int i))"
  by (simp add: key_of_def all_gather_key_def collective_name_def show_int_nonneg)

lemma key_of_broadcast [simp]:
  "broadcast_key (collective_name pre n) r = key_of pre (KBroadcast n r)"
  by (simp add: key_of_def broadcast_key_def collective_name_def)

section \<open>Reading keys back\<close>

lemma slash_free_literals [simp]:
  "slash_free ''libtt''" "slash_free ''control''" "slash_free ''group''" "slash_free ''duplicate''"
  "slash_free ''message''" "slash_free ''ack''" "slash_free ''collective''"
  "slash_free ''all_gather''" "slash_free ''broadcast''"
  by (simp_all add: slash_free_def)

lemma slash_free_key_tokens: "\<forall>t\<in>set (key_tokens k). slash_free t"
  by (cases k) auto

lemma slash_free_seg_tokens: "\<forall>t\<in>set (seg_tokens s). slash_free t"
  by (cases s) auto

lemma slash_free_prefix_tokens: "\<forall>t\<in>set (prefix_tokens segs). slash_free t"
  using slash_free_seg_tokens by (fastforce simp: prefix_tokens_def)

lemma key_tokens_nonempty [simp]: "key_tokens k \<noteq> []"
  by (cases k) auto

lemma prefix_tokens_nonempty [simp]: "prefix_tokens segs \<noteq> []"
  by (simp add: prefix_tokens_def)

text \<open>Numerals are told apart from the words between them by their first character.\<close>

definition numeral_token :: "string \<Rightarrow> bool" where
  "numeral_token t \<longleftrightarrow> t \<noteq> [] \<and> (hd t = CHR ''-'' \<or> is_digit (hd t))"

lemma is_digit_hd_show_nat [simp]: "is_digit (hd (show_nat n))"
  by (intro show_nat_digits [of _ n] hd_in_set) simp

lemma numeral_token_nat [simp]: "numeral_token (show_nat n)"
  by (simp add: numeral_token_def)

lemma numeral_token_int [simp]: "numeral_token (show_int z)"
  by (auto simp: show_int_def numeral_token_def)

lemma not_numeral_literals [simp]:
  "\<not> numeral_token ''group''" "\<not> numeral_token ''duplicate''"
  "\<not> numeral_token ''message''" "\<not> numeral_token ''collective''"
  by (simp_all add: numeral_token_def is_digit_def)

lemma key_tokens_inject: "key_tokens k = key_tokens k' \<Longrightarrow> k = k'"
  by (cases k; cases k') auto

lemma hd_rest_tokens:
  "\<not> numeral_token (hd (concat (map seg_tokens segs) @ key_tokens k))"
proof (cases segs)
  case Nil
  then show ?thesis by (cases k) auto
next
  case (Cons s segs')
  then show ?thesis by (cases s) auto
qed

lemma numeral_run_inject:
  assumes "\<forall>t\<in>set xs. numeral_token t" and "\<forall>t\<in>set xs'. numeral_token t"
    and "ys \<noteq> []" and "\<not> numeral_token (hd ys)" and "ys' \<noteq> []" and "\<not> numeral_token (hd ys')"
    and "xs @ ys = xs' @ ys'"
  shows "xs = xs' \<and> ys = ys'"
proof -
  have "takeWhile numeral_token (us @ vs) = us"
    if "\<forall>t\<in>set us. numeral_token t" "vs \<noteq> []" "\<not> numeral_token (hd vs)" for us vs
    using that by (cases vs) (simp_all add: takeWhile_append)
  from this [OF assms(1,3,4)] this [OF assms(2,5,6)] assms(7) show ?thesis by auto
qed

lemma seg_key_inject:
  "concat (map seg_tokens segs) @ key_tokens k = concat (map seg_tokens segs') @ key_tokens k' \<Longrightarrow>
     segs = segs' \<and> k = k'"
proof (induction segs arbitrary: segs')
  case Nil
  show ?case
  proof (cases segs')
    case Nil
    with Nil.prems show ?thesis using key_tokens_inject by auto
  next
    case (Cons s ss)
    with Nil.prems show ?thesis by (cases k; cases s) auto
  qed
next
  case (Cons s segs)
  show ?case
  proof (cases segs')
    case Nil
    with Cons.prems show ?thesis by (cases k'; cases s) auto
  next
    case (Cons s' ss)
    let ?r = "concat (map seg_tokens segs) @ key_tokens k"
    let ?r' = "concat (map seg_tokens ss) @ key_tokens k'"
    have eq: "seg_tokens s @ ?r = seg_tokens s' @ ?r'"
      using Cons.prems Cons by simp
    have "s = s' \<and> ?r = ?r'"
    proof (cases s)
      case (SGroup rs n)
      with eq obtain rs' n' where s': "s' = SGroup rs' n'" by (cases s') auto
      have "map show_int rs @ [show_nat n] = map show_int rs' @ [show_nat n'] \<and> ?r = ?r'"
        by (rule numeral_run_inject) (use eq SGroup s' hd_rest_tokens in auto)
      then have "map show_int rs = map show_int rs'" and "n = n'" and "?r = ?r'" by auto
      moreover from this(1) have "rs = rs'"
        by (rule map_injective) (auto simp: inj_def)
      ultimately show ?thesis using SGroup s' by simp
    next
      case (SDup n)
      with eq show ?thesis by (cases s') auto
    qed
    with Cons.IH Cons show ?thesis by auto
  qed
qed

definition prefix_of :: "seg list \<Rightarrow> string" where
  "prefix_of segs = path (prefix_tokens segs)"

lemma key_of_prefix: "key_of (prefix_of segs) k = path (prefix_tokens segs @ key_tokens k)"
  by (simp add: key_of_def prefix_of_def path_append)

lemma key_of_prefix_inject:
  "key_of (prefix_of segs) k = key_of (prefix_of segs') k' \<longleftrightarrow> segs = segs' \<and> k = k'"
proof
  assume "key_of (prefix_of segs) k = key_of (prefix_of segs') k'"
  then have "path (prefix_tokens segs @ key_tokens k) = path (prefix_tokens segs' @ key_tokens k')"
    by (simp add: key_of_prefix)
  then have "prefix_tokens segs @ key_tokens k = prefix_tokens segs' @ key_tokens k'"
    by (rule path_inject [rotated 4])
      (use slash_free_prefix_tokens slash_free_key_tokens in auto)
  then show "segs = segs' \<and> k = k'"
    by (intro seg_key_inject) (simp add: prefix_tokens_def)
qed simp

lemma key_of_inject [simp]: "key_of pre k = key_of pre k' \<longleftrightarrow> k = k'"
proof
  assume "key_of pre k = key_of pre k'"
  then have "path (key_tokens k) = path (key_tokens k')"
    by (simp add: key_of_def)
  then have "key_tokens k = key_tokens k'"
    by (rule path_inject [rotated 4]) (use slash_free_key_tokens in auto)
  then show "k = k'" by (rule key_tokens_inject)
qed simp

section \<open>Sequence slots\<close>

text \<open>The counters of a context: the keys of \<open>sequences_\<close>.\<close>

lemma message_channel_path:
  "message_channel s d t = path [''message'', show_int s, show_int d, show_int t]"
  by (simp add: message_channel_def)

lemma message_channel_inject [simp]:
  "message_channel s d t = message_channel s' d' t' \<longleftrightarrow> s = s' \<and> d = d' \<and> t = t'"
proof
  assume "message_channel s d t = message_channel s' d' t'"
  then have "[''message'', show_int s, show_int d, show_int t] =
      [''message'', show_int s', show_int d', show_int t']"
    unfolding message_channel_path by (rule path_inject [rotated 4]) auto
  then show "s = s' \<and> d = d' \<and> t = t'" by simp
qed simp

definition send_slot :: "int \<Rightarrow> int \<Rightarrow> int \<Rightarrow> string" where
  "send_slot s d t = ''send/'' @ message_channel s d t"

definition recv_slot :: "int \<Rightarrow> int \<Rightarrow> int \<Rightarrow> string" where
  "recv_slot s d t = ''recv/'' @ message_channel s d t"

lemma slot_distinct [simp]:
  "send_slot s d t = send_slot s' d' t' \<longleftrightarrow> s = s' \<and> d = d' \<and> t = t'"
  "recv_slot s d t = recv_slot s' d' t' \<longleftrightarrow> s = s' \<and> d = d' \<and> t = t'"
  "send_slot s d t \<noteq> recv_slot s' d' t'" "recv_slot s d t \<noteq> send_slot s' d' t'"
  "send_slot s d t \<noteq> ''collective''" "recv_slot s d t \<noteq> ''collective''"
  "''collective'' \<noteq> send_slot s d t" "''collective'' \<noteq> recv_slot s d t"
  by (auto simp: send_slot_def recv_slot_def)

end
