(* ===== verification/ContextLogic.thy ===== *)
theory ContextLogic
  imports ContextKeys
begin

text \<open>
  A program logic for the operations of the coordination context: \<open>op_spec P m c Q E\<close>
  says that \<open>m\<close>, started in context \<open>c\<close>, only puts what \<open>P\<close> allows as long as it only
  gets what \<open>P\<close> allows, and ends with \<open>Q\<close> on a result and \<open>E\<close> on an exception. The
  locale \<open>keyspace\<close> is what the clients of a key encoding rely on; it is interpreted by the
  keys of a context. The last part follows how contexts are made from one another.
\<close>

section \<open>Specifications of operations\<close>

definition op_spec ::
  "(string \<Rightarrow> bytes \<Rightarrow> bool) \<Rightarrow> 'a op \<Rightarrow> kvctx \<Rightarrow> ('a \<Rightarrow> kvctx \<Rightarrow> bool) \<Rightarrow> (kvctx \<Rightarrow> bool) \<Rightarrow> bool"
where
  "op_spec P m c Q E \<longleftrightarrow> guar P (m c) \<and>
     (\<forall>r c'. runs P (m c) (r, c') \<longrightarrow> (case r of Inl e \<Rightarrow> E c' | Inr a \<Rightarrow> Q a c'))"

named_theorems spec_rules \<open>introduction rules of op_spec, one per operation\<close>

lemma op_spec_guar: "op_spec P m c Q E \<Longrightarrow> guar P (m c)"
  by (simp add: op_spec_def)

lemma op_spec_result: "op_spec P m c Q E \<Longrightarrow> runs P (m c) (Inr a, c') \<Longrightarrow> Q a c'"
  by (force simp: op_spec_def)

lemma op_spec_error: "op_spec P m c Q E \<Longrightarrow> runs P (m c) (Inl e, c') \<Longrightarrow> E c'"
  by (force simp: op_spec_def)

lemma op_spec_weaken:
  assumes "op_spec P m c Q E" and "\<And>a c'. Q a c' \<Longrightarrow> Q' a c'" and "\<And>c'. E c' \<Longrightarrow> E' c'"
  shows "op_spec P m c Q' E'"
  using assms by (fastforce simp: op_spec_def split: sum.splits)

lemma op_spec_return [spec_rules]: "Q a c \<Longrightarrow> op_spec P (op_return a) c Q E"
  by (simp add: op_spec_def op_return_def)

lemma op_spec_throw [spec_rules]: "E c \<Longrightarrow> op_spec P (op_throw e) c Q E"
  by (simp add: op_spec_def op_throw_def)

lemma op_spec_bind:
  assumes "op_spec P m c R E" and "\<And>a c'. R a c' \<Longrightarrow> op_spec P (f a) c' Q E"
  shows "op_spec P (op_bind m f) c Q E"
proof -
  let ?h = "\<lambda>(r, c'). case r of Inl e \<Rightarrow> Done (Inl e, c') | Inr a \<Rightarrow> f a c'"
  have g: "guar P (?h rc)" if "runs P (m c) rc" for rc
    using assms that by (cases rc) (auto simp: op_spec_def split: sum.splits)
  have q: "case r of Inl e \<Rightarrow> E c'' | Inr a \<Rightarrow> Q a c''"
    if "runs P (m c) rc" and "runs P (?h rc) (r, c'')" for rc r c''
    using assms that by (cases rc) (fastforce simp: op_spec_def split: sum.splits)
  from assms(1) have "guar P (m c)" by (rule op_spec_guar)
  with g q show ?thesis
    unfolding op_spec_def op_bind_def by (auto simp: runs_bind intro!: guar_bind)
qed

lemma op_spec_check [spec_rules]:
  "(b \<Longrightarrow> Q () c) \<Longrightarrow> (\<not> b \<Longrightarrow> E c) \<Longrightarrow> op_spec P (check b e) c Q E"
  by (simp add: check_def op_spec_return op_spec_throw)

lemma op_spec_put [spec_rules]:
  "P k v \<Longrightarrow> Q () c \<Longrightarrow> E c \<Longrightarrow> op_spec P (op_put k v) c Q E"
  by (auto simp: op_spec_def op_put_def runs_Put_iff split: sum.splits)

lemma op_spec_get [spec_rules]:
  "(\<And>v. P k v \<Longrightarrow> Q v c) \<Longrightarrow> E c \<Longrightarrow> op_spec P (op_get k) c Q E"
  by (auto simp: op_spec_def op_get_def runs_Get_iff split: sum.splits)

lemma op_spec_copy [spec_rules]:
  "(length v = n \<Longrightarrow> Q v c) \<Longrightarrow> (length v \<noteq> n \<Longrightarrow> E c) \<Longrightarrow> op_spec P (copy v n) c Q E"
  unfolding copy_def
  by (rule op_spec_bind [where R = "\<lambda>_ c'. c' = c \<and> length v = n"]) (auto intro: spec_rules)

lemma op_spec_lift_res [spec_rules]:
  "(\<And>a. r = Inr a \<Longrightarrow> Q a c) \<Longrightarrow> (\<And>e. r = Inl e \<Longrightarrow> E c) \<Longrightarrow> op_spec P (lift_res r) c Q E"
  by (auto simp: op_spec_def lift_res_def split: sum.splits)

lemma op_spec_validate_rank [spec_rules]:
  "(0 \<le> r \<Longrightarrow> r < ctx_size c \<Longrightarrow> Q () c) \<Longrightarrow> E c \<Longrightarrow> op_spec P (validate_rank r) c Q E"
  by (auto simp: op_spec_def validate_rank_def check_def op_return_def op_throw_def)

definition bump :: "string \<Rightarrow> kvctx \<Rightarrow> kvctx" where
  "bump slot c = c\<lparr>ctx_sequences := (ctx_sequences c)(slot := ctx_sequences c slot + 1)\<rparr>"

lemma bump_simps [simp]:
  "ctx_members (bump x c) = ctx_members c" "ctx_global (bump x c) = ctx_global c"
  "ctx_rank (bump x c) = ctx_rank c" "ctx_prefix (bump x c) = ctx_prefix c"
  "ctx_size (bump x c) = ctx_size c"
  "ctx_sequences (bump x c) = (ctx_sequences c)(x := ctx_sequences c x + 1)"
  by (simp_all add: bump_def ctx_size_def)

lemma op_spec_next_key [spec_rules]:
  "Q (ctx_prefix c @ ''/'' @ ch @ ''/'' @ show_nat (ctx_sequences c ch)) (bump ch c) \<Longrightarrow>
     op_spec P (next_key ch) c Q E"
  by (simp add: op_spec_def next_key_def bump_def)

lemma op_spec_next_collective:
  "Q (collective_name (ctx_prefix c) (ctx_sequences c ''collective'')) (bump ''collective'' c) \<Longrightarrow>
     op_spec P (next_key ''collective'') c Q E"
  unfolding collective_name_def by (rule op_spec_next_key)

lemma op_spec_message_key:
  assumes "\<lbrakk>0 \<le> s; s < ctx_size c; 0 \<le> d; d < ctx_size c\<rbrakk> \<Longrightarrow>
      Q (key_of (ctx_prefix c) (KMessage s d t (ctx_sequences c
           (if sending then send_slot s d t else recv_slot s d t))))
        (if advance then bump (if sending then send_slot s d t else recv_slot s d t) c else c)"
    and "E c"
  shows "op_spec P (message_key s d t sending advance) c Q E"
  unfolding message_key_def
proof (rule op_spec_bind [where R = "\<lambda>_ c'. c' = c \<and> 0 \<le> s \<and> s < ctx_size c"])
  show "op_spec P (validate_rank s) c (\<lambda>_ c'. c' = c \<and> 0 \<le> s \<and> s < ctx_size c) E"
    using assms(2) by (auto intro: spec_rules)
next
  fix a c'
  assume c': "c' = c \<and> 0 \<le> s \<and> s < ctx_size c"
  show "op_spec P (op_bind (validate_rank d) (\<lambda>_ c.
       let channel = message_channel s d t;
           slot = (if sending then ''send/'' else ''recv/'') @ channel;
           n = ctx_sequences c slot
       in Done (Inr (ctx_prefix c @ ''/'' @ channel @ ''/'' @ show_nat n),
                if advance then c\<lparr>ctx_sequences := (ctx_sequences c)(slot := n + 1)\<rparr> else c))) c' Q E"
  proof (rule op_spec_bind [where R = "\<lambda>_ c'. c' = c \<and> 0 \<le> d \<and> d < ctx_size c"])
    show "op_spec P (validate_rank d) c' (\<lambda>_ c'. c' = c \<and> 0 \<le> d \<and> d < ctx_size c) E"
      using assms(2) c' by (auto intro: spec_rules)
  qed (use assms(1) c' in \<open>auto simp: op_spec_def Let_def bump_def send_slot_def recv_slot_def\<close>)
qed

section \<open>What the clients of a key encoding rely on\<close>

text \<open>
  Different calls have different keys. \<open>allowed\<close> speaks of calls; \<open>key_inv allowed\<close> is the
  invariant of the store it amounts to.
\<close>

locale keyspace =
  fixes key :: "'k \<Rightarrow> string"
  assumes key_inject: "key k = key k' \<Longrightarrow> k = k'"
begin

definition key_inv :: "('k \<Rightarrow> bytes \<Rightarrow> bool) \<Rightarrow> string \<Rightarrow> bytes \<Rightarrow> bool" where
  "key_inv allowed s v \<longleftrightarrow> (\<forall>k. s = key k \<longrightarrow> allowed k v)"

lemma key_inv_key [simp]: "key_inv allowed (key k) v \<longleftrightarrow> allowed k v"
  using key_inject by (auto simp: key_inv_def)

lemma key_inv_other: "(\<And>k. s \<noteq> key k) \<Longrightarrow> key_inv allowed s v"
  by (simp add: key_inv_def)

lemma store_ok_key_inv:
  "(\<And>k. st (key k) = None) \<Longrightarrow> store_ok (key_inv allowed) st"
  by (auto simp: store_ok_def key_inv_def)

lemma store_ok_lookup:
  "store_ok (key_inv allowed) st \<Longrightarrow> st (key k) = Some v \<Longrightarrow> allowed k v"
  unfolding store_ok_def by (metis key_inv_key)

end

interpretation ctx_keys: keyspace "key_of pre" for pre
  by unfold_locales simp

interpretation all_keys: keyspace "\<lambda>(segs, k). key_of (prefix_of segs) k"
  by unfold_locales (auto simp: key_of_prefix_inject)

end
