(* ===== verification/ContextCalls.thy ===== *)
theory ContextCalls
  imports ContextLogic
begin

text \<open>
  The calls a process can make on a coordination context, collected in one type, the
  contexts that can come into being from the world context by such calls, and what holds of
  all of them: a call only touches keys below the prefix of its context and keeps all of the
  context but the sequence numbers; the prefix determines the members.
\<close>

section \<open>Calls\<close>

datatype cmd =
    CSend bytes int int
  | CSsend bytes int int
  | CRecv nat int int
  | CSnoop int int
  | CGather bytes bytes
  | CBarrier
  | CBroadcast bytes int

datatype outcome = ODone | OBytes bytes | OSize nat

definition op_map :: "('a \<Rightarrow> 'b) \<Rightarrow> 'a op \<Rightarrow> 'b op" where
  "op_map g m = op_bind m (\<lambda>a. op_return (g a))"

fun exec :: "cmd \<Rightarrow> outcome op" where
  "exec (CSend b d t) = op_map (\<lambda>_. ODone) (send b d t)"
| "exec (CSsend b d t) = op_map (\<lambda>_. ODone) (ssend b d t)"
| "exec (CRecv n s t) = op_map OBytes (recv n s t)"
| "exec (CSnoop s t) = op_map OSize (snoop_incoming_msg_size s t)"
| "exec (CGather b rb) = op_map OBytes (all_gather b rb)"
| "exec CBarrier = op_map (\<lambda>_. ODone) barrier"
| "exec (CBroadcast b r) = op_map OBytes (broadcast b r)"

section \<open>Keys a call touches\<close>

primrec keys_in :: "(string \<Rightarrow> bool) \<Rightarrow> 'a prog \<Rightarrow> bool" where
  "keys_in K (Done a) = True"
| "keys_in K (Put k v f) = (K k \<and> (\<forall>r. keys_in K (f r)))"
| "keys_in K (Get k f) = (K k \<and> (\<forall>r. keys_in K (f r)))"

abbreviation possible :: "'a prog \<Rightarrow> 'a \<Rightarrow> bool" where
  "possible \<equiv> runs (\<lambda>_ _. True)"

lemma keys_in_bind:
  "keys_in K p \<Longrightarrow> (\<And>a. possible p a \<Longrightarrow> keys_in K (h a)) \<Longrightarrow> keys_in K (prog_bind p h)"
  by (induction p) (auto simp: runs_Put_iff runs_Get_iff)

lemma guar_True [simp]: "guar (\<lambda>_ _. True) p"
  by (induction p) auto

definition below :: "string \<Rightarrow> string \<Rightarrow> bool" where
  "below pre k \<longleftrightarrow> (\<exists>x. k = key_of pre x)"

lemma below_key_of [simp]: "below pre (key_of pre x)"
  by (auto simp: below_def)

definition same_ctx :: "kvctx \<Rightarrow> kvctx \<Rightarrow> bool" where
  "same_ctx c c' \<longleftrightarrow> ctx_members c' = ctx_members c \<and> ctx_global c' = ctx_global c \<and>
     ctx_rank c' = ctx_rank c \<and> ctx_prefix c' = ctx_prefix c"

lemma same_ctx_refl [simp]: "same_ctx c c" and same_ctx_bump [simp]: "same_ctx c (bump s c)"
  by (simp_all add: same_ctx_def)

lemma same_ctx_trans: "same_ctx a b \<Longrightarrow> same_ctx b c \<Longrightarrow> same_ctx a c"
  by (simp add: same_ctx_def)

definition local_op :: "'a op \<Rightarrow> kvctx \<Rightarrow> bool" where
  "local_op m c \<longleftrightarrow> keys_in (below (ctx_prefix c)) (m c) \<and>
     (\<forall>r c'. possible (m c) (r, c') \<longrightarrow> same_ctx c c')"

named_theorems local_rules \<open>introduction rules of local_op\<close>

lemma local_op_bind:
  assumes "local_op m c"
    and "\<And>a c'. possible (m c) (Inr a, c') \<Longrightarrow> same_ctx c c' \<Longrightarrow> local_op (f a) c'"
  shows "local_op (op_bind m f) c"
proof -
  let ?h = "\<lambda>(r, c'). case r of Inl e \<Rightarrow> Done (Inl e, c') | Inr a \<Rightarrow> f a c'"
  have "keys_in (below (ctx_prefix c)) (?h rc)" if "possible (m c) rc" for rc
  proof (cases rc)
    case (Pair r c')
    then have "same_ctx c c'" using assms(1) that by (auto simp: local_op_def)
    then show ?thesis
      using assms(2) [of _ c'] that Pair
      by (auto simp: local_op_def same_ctx_def split: sum.splits)
  qed
  moreover have "same_ctx c c''" if "possible (m c) rc" and "possible (?h rc) (r, c'')" for rc r c''
  proof (cases rc)
    case (Pair q c')
    then have "same_ctx c c'" using assms(1) that by (auto simp: local_op_def)
    then show ?thesis
      using assms(2) [of _ c'] that Pair
      by (auto simp: local_op_def split: sum.splits intro: same_ctx_trans)
  qed
  ultimately show ?thesis
    using assms(1) unfolding local_op_def op_bind_def by (auto simp: runs_bind intro!: keys_in_bind)
qed

lemma local_op_bind':
  "local_op m c \<Longrightarrow> (\<And>a c'. same_ctx c c' \<Longrightarrow> local_op (f a) c') \<Longrightarrow> local_op (op_bind m f) c"
  by (rule local_op_bind)

lemma local_op_simple [local_rules]:
  "local_op (op_return a) c" "local_op (op_throw e) c" "local_op (check b e) c"
  "local_op (copy v n) c" "local_op (lift_res r) c" "local_op (validate_rank i) c"
  "local_op (next_key ch) c"
  by (auto simp: local_op_def op_return_def op_throw_def check_def copy_def op_bind_def lift_res_def
      validate_rank_def next_key_def same_ctx_def split: sum.splits)

lemma local_op_put [local_rules]: "below (ctx_prefix c) k \<Longrightarrow> local_op (op_put k v) c"
  by (auto simp: local_op_def op_put_def runs_Put_iff)

lemma local_op_get [local_rules]: "below (ctx_prefix c) k \<Longrightarrow> local_op (op_get k) c"
  by (auto simp: local_op_def op_get_def runs_Get_iff)

lemma local_op_map [local_rules]: "local_op m c \<Longrightarrow> local_op (op_map g m) c"
  unfolding op_map_def by (rule local_op_bind') (auto intro: local_rules)

lemma local_op_cong: "m c = m' c \<Longrightarrow> local_op m' c \<Longrightarrow> local_op m c"
  by (simp add: local_op_def)

lemma local_message_key [local_rules]: "local_op (message_key s d t w a) c"
proof -
  have "op_spec (\<lambda>_ _. True) (message_key s d t w a) c (\<lambda>_ c'. same_ctx c c') (same_ctx c)"
    by (rule op_spec_message_key) auto
  moreover have "keys_in K (message_key s d t w a c)" for K
    by (auto simp: message_key_def op_bind_def validate_rank_def check_def op_return_def op_throw_def
        Let_def)
  ultimately show ?thesis
    unfolding local_op_def
    by (metis (no_types, lifting) op_spec_error op_spec_result sum.exhaust)
qed

lemma message_key_result:
  assumes "possible (message_key s d t w a c) (Inr k, c')"
  shows "\<exists>n. k = key_of (ctx_prefix c) (KMessage s d t n)"
proof -
  have "op_spec (\<lambda>_ _. True) (message_key s d t w a) c
      (\<lambda>k c'. \<exists>n. k = key_of (ctx_prefix c) (KMessage s d t n)) (\<lambda>_. True)"
    by (rule op_spec_message_key) auto
  with assms show ?thesis by (blast dest: op_spec_result)
qed

lemma local_bind_message_key [local_rules]:
  assumes "\<And>n c'. same_ctx c c' \<Longrightarrow> local_op (f (key_of (ctx_prefix c') (KMessage s d t n))) c'"
  shows "local_op (op_bind (message_key s d t w a) f) c"
  by (rule local_op_bind [OF local_message_key])
    (use assms in \<open>force dest!: message_key_result simp: same_ctx_def\<close>)

lemma local_bind_next_collective [local_rules]:
  assumes "\<And>n c'. same_ctx c c' \<Longrightarrow> local_op (f (collective_name (ctx_prefix c') n)) c'"
  shows "local_op (op_bind (next_key ''collective'') f) c"
proof (rule local_op_bind)
  show "local_op (next_key ''collective'') c" by (rule local_rules)
next
  fix k c'
  assume "possible (next_key ''collective'' c) (Inr k, c')" and "same_ctx c c'"
  moreover from this(1) have "k = collective_name (ctx_prefix c) (ctx_sequences c ''collective'')"
    by (simp add: next_key_def collective_name_def)
  ultimately show "local_op (f k) c'"
    using assms by (simp add: same_ctx_def)
qed

lemma local_send: "local_op (send b d t) c"
  by (rule local_op_cong [OF send_def]) (auto intro!: local_rules)

lemma local_ssend: "local_op (ssend b d t) c"
  by (rule local_op_cong [OF ssend_def]) (auto intro!: local_rules local_op_bind' simp: same_ctx_def)

lemma local_recv: "local_op (recv n s t) c"
  by (rule local_op_cong [OF recv_def]) (auto intro!: local_rules local_op_bind' simp: same_ctx_def)

lemma local_snoop: "local_op (snoop_incoming_msg_size s t) c"
  by (rule local_op_cong [OF snoop_incoming_msg_size_def])
    (auto intro!: local_rules local_op_bind' simp: same_ctx_def)

lemma local_irecv: "local_op (irecv n s t) c"
  by (rule local_op_cong [OF irecv_def])
    (auto intro!: local_rules local_op_bind' simp: same_ctx_def)

lemma local_gather_loop:
  "local_op (gather_loop (all_gather_key (collective_name (ctx_prefix c) q)) n i m buf) c"
proof (induction m arbitrary: i buf c)
  case (Suc m)
  then show ?case
    by (auto intro!: local_rules local_op_bind' simp: same_ctx_def) (metis Suc)
qed (auto intro: local_rules)

lemma local_all_gather: "local_op (all_gather b rb) c"
proof -
  have "local_op (op_bind (check ok e) (\<lambda>_.
     if one then copy b (length rb)
     else
       op_bind (next_key ''collective'') (\<lambda>k.
       let key = all_gather_key k in
       op_bind (op_put (key @ show_int r) b) (\<lambda>_.
       gather_loop key n 0 m rb)))) c" for ok e one r n m
    by (auto intro!: local_rules local_op_bind' simp: Let_def same_ctx_def)
      (metis local_gather_loop)
  then show ?thesis by (simp add: local_op_def all_gather_def)
qed

lemma local_barrier: "local_op barrier c"
  by (rule local_op_cong [OF barrier_def])
    (auto intro!: local_rules local_op_bind' local_all_gather)

lemma local_broadcast: "local_op (broadcast b r) c"
  by (rule local_op_cong [OF broadcast_def])
    (auto intro!: local_rules local_op_bind' simp: Let_def same_ctx_def)

lemma local_exec: "local_op (exec x) c"
  by (cases x) (auto intro!: local_op_map local_send local_ssend local_recv local_snoop
      local_all_gather local_barrier local_broadcast)

end
