(* ===== verification/ContextFamily.thy ===== *)
theory ContextFamily
  imports ContextCalls
begin

text \<open>
  The contexts of a process group: the world context and what \<open>create_sub_context\<close>,
  \<open>split\<close> and \<open>duplicate\<close> make of it, after any calls. The prefix of a context is the
  path of its derivation, which determines its members, so contexts of different
  processes that share keys are contexts of the same members.
\<close>

section \<open>Derivations\<close>

fun seg_members :: "int list \<Rightarrow> seg \<Rightarrow> int list" where
  "seg_members ms (SGroup rs n) = map (\<lambda>r. ms ! nat r) rs"
| "seg_members ms (SDup n) = ms"

definition members_at :: "nat \<Rightarrow> seg list \<Rightarrow> int list" where
  "members_at N segs = foldl seg_members (map int [0..<N]) segs"

definition ctx_at :: "nat \<Rightarrow> seg list \<Rightarrow> kvctx \<Rightarrow> bool" where
  "ctx_at N segs c \<longleftrightarrow> ctx_prefix c = prefix_of segs \<and> ctx_members c = members_at N segs \<and>
     distinct (ctx_members c) \<and> set (ctx_members c) \<subseteq> {0..<int N} \<and>
     ctx_global c \<in> set (ctx_members c) \<and>
     ctx_rank c = int (pos_of (ctx_global c) (ctx_members c))"

lemma ctx_at_same: "ctx_at N segs c \<Longrightarrow> same_ctx c c' \<Longrightarrow> ctx_at N segs c'"
  by (auto simp: ctx_at_def same_ctx_def)

lemma members_at_snoc [simp]: "members_at N (segs @ [s]) = seg_members (members_at N segs) s"
  by (simp add: members_at_def)

lemma pos_of_less_iff: "pos_of x xs < length xs \<longleftrightarrow> x \<in> set xs"
proof
  assume "pos_of x xs < length xs"
  then show "x \<in> set xs"
    unfolding pos_of_def using nth_length_takeWhile [of "\<lambda>y. y \<noteq> x" xs] by (metis nth_mem)
next
  assume "x \<in> set xs"
  then show "pos_of x xs < length xs"
    unfolding pos_of_def by (induction xs) auto
qed

lemma pos_of_le: "pos_of x xs \<le> length xs"
  by (simp add: pos_of_def length_takeWhile_le)

lemma pos_of_neq_iff: "pos_of x xs \<noteq> length xs \<longleftrightarrow> x \<in> set xs"
  using pos_of_less_iff [of x xs] pos_of_le [of x xs] by linarith

lemma nth_pos_of: "x \<in> set xs \<Longrightarrow> xs ! pos_of x xs = x"
  using pos_of_less_iff [of x xs] nth_length_takeWhile [of "\<lambda>y. y \<noteq> x" xs]
  by (simp add: pos_of_def)

lemma pos_of_nth: "distinct xs \<Longrightarrow> i < length xs \<Longrightarrow> pos_of (xs ! i) xs = i"
  by (metis nth_eq_iff_index_eq nth_mem nth_pos_of pos_of_less_iff)

lemma prefix_of_snoc: "prefix_of (segs @ [s]) = prefix_of segs @ ''/'' @ path (seg_tokens s)"
proof -
  have "prefix_of (segs @ [s]) = path (prefix_tokens segs @ seg_tokens s)"
    by (simp add: prefix_of_def prefix_tokens_def)
  also have "seg_tokens s \<noteq> []" by (cases s) auto
  then have "path (prefix_tokens segs @ seg_tokens s) = prefix_of segs @ ''/'' @ path (seg_tokens s)"
    by (simp add: path_append prefix_of_def)
  finally show ?thesis .
qed

lemma make_context_at:
  assumes "make_context ms g pre = Inr d"
  shows "ctx_members d = ms \<and> ctx_global d = g \<and> ctx_prefix d = pre \<and> g \<in> set ms \<and>
    ctx_rank d = int (pos_of g ms) \<and> ctx_sequences d = (\<lambda>_. 0)"
  using assms pos_of_neq_iff [of g ms] by (auto simp: make_context_def split: if_splits)

lemma world_at:
  assumes "make_key_value_context has_store r (int N) = Inr c"
  shows "ctx_at N [] c"
proof -
  from assms have "make_context (map int [0..<N]) r ''libtt/control'' = Inr c"
    by (simp add: make_key_value_context_def split: if_splits)
  from make_context_at [OF this] show ?thesis
    by (auto simp: ctx_at_def members_at_def prefix_of_def prefix_tokens_def distinct_map)
qed

section \<open>Subgroups and duplicates\<close>

fun group_name :: "int list \<Rightarrow> string" where
  "group_name rs = path (''group'' # map show_int rs)"

lemma group_name_snoc: "group_name rs @ CHR ''/'' # show_int r = group_name (rs @ [r])"
  using path_snoc [of "''group'' # map show_int rs" "show_int r"] by simp

declare group_name.simps [simp del]

lemma group_name_Nil: "group_name [] = ''group''"
  by (simp add: group_name.simps)

lemma sub_members_spec:
  "op_spec P (sub_members c rs (map (\<lambda>r. ctx_members c ! nat r) rs0) (group_name rs0)) c
     (\<lambda>(ms, g) c'. c' = c \<and> ms = map (\<lambda>r. ctx_members c ! nat r) (rs0 @ rs) \<and>
        g = group_name (rs0 @ rs) \<and>
        (distinct (map (\<lambda>r. ctx_members c ! nat r) rs0) \<longrightarrow> distinct ms) \<and>
        (\<forall>r\<in>set rs. 0 \<le> r \<and> r < ctx_size c))
     (\<lambda>c'. c' = c)"
proof (induction rs arbitrary: rs0)
  case Nil
  show ?case by (auto intro: spec_rules)
next
  case (Cons r rs)
  let ?m = "\<lambda>r. ctx_members c ! nat r"
  show ?case
    unfolding sub_members.simps
  proof (rule op_spec_bind [where R = "\<lambda>_ c'. c' = c \<and> 0 \<le> r \<and> r < ctx_size c"])
    show "op_spec P (validate_rank r) c (\<lambda>_ c'. c' = c \<and> 0 \<le> r \<and> r < ctx_size c) (\<lambda>c'. c' = c)"
      by (auto intro: spec_rules)
  next
    fix a c'
    assume r: "c' = c \<and> 0 \<le> r \<and> r < ctx_size c"
    show "op_spec P
        (op_bind (check (?m r \<notin> set (map ?m rs0)) ''Duplicate rank in subgroup'') (\<lambda>_.
          sub_members c rs (map ?m rs0 @ [?m r]) (group_name rs0 @ ''/'' @ show_int r))) c'
        (\<lambda>(ms, g) c'. c' = c \<and> ms = map ?m (rs0 @ r # rs) \<and> g = group_name (rs0 @ r # rs) \<and>
          (distinct (map ?m rs0) \<longrightarrow> distinct ms) \<and> (\<forall>r\<in>set (r # rs). 0 \<le> r \<and> r < ctx_size c))
        (\<lambda>c'. c' = c)"
    proof (rule op_spec_bind [where R = "\<lambda>_ c'. c' = c \<and> ?m r \<notin> set (map ?m rs0)"])
      show "op_spec P (check (?m r \<notin> set (map ?m rs0)) ''Duplicate rank in subgroup'') c'
          (\<lambda>_ c'. c' = c \<and> ?m r \<notin> set (map ?m rs0)) (\<lambda>c'. c' = c)"
        using r by (auto intro: spec_rules)
    next
      fix b c''
      assume d: "c'' = c \<and> ?m r \<notin> set (map ?m rs0)"
      show "op_spec P (sub_members c rs (map ?m rs0 @ [?m r]) (group_name rs0 @ ''/'' @ show_int r)) c''
          (\<lambda>(ms, g) c'. c' = c \<and> ms = map ?m (rs0 @ r # rs) \<and> g = group_name (rs0 @ r # rs) \<and>
            (distinct (map ?m rs0) \<longrightarrow> distinct ms) \<and> (\<forall>r\<in>set (r # rs). 0 \<le> r \<and> r < ctx_size c))
          (\<lambda>c'. c' = c)"
        using Cons.IH [of "rs0 @ [r]"] r d
        by (auto simp: group_name_snoc elim!: op_spec_weaken)
    qed
  qed
qed

lemma create_sub_context_spec:
  assumes "ctx_at N segs c"
  shows "op_spec P (create_sub_context rs) c
    (\<lambda>r c'. same_ctx c c' \<and>
       (case r of
          None \<Rightarrow> ctx_global c \<notin> set (map (\<lambda>r. ctx_members c ! nat r) rs)
        | Some d \<Rightarrow> ctx_at N (segs @ [SGroup rs (ctx_sequences c (group_name rs))]) d \<and>
            ctx_global d = ctx_global c \<and> ctx_sequences d = (\<lambda>_. 0)))
    (same_ctx c)"
proof -
  let ?m = "\<lambda>r. ctx_members c ! nat r"
  let ?Q = "\<lambda>r c'. same_ctx c c' \<and>
       (case r of
          None \<Rightarrow> ctx_global c \<notin> set (map (\<lambda>r. ctx_members c ! nat r) rs)
        | Some d \<Rightarrow> ctx_at N (segs @ [SGroup rs (ctx_sequences c (group_name rs))]) d \<and>
            ctx_global d = ctx_global c \<and> ctx_sequences d = (\<lambda>_. 0))"
  have pre: "ctx_prefix c @ ''/'' @ group_name rs @ ''/'' @ show_nat n =
      prefix_of (segs @ [SGroup rs n])" for n
    using assms path_snoc [of "''group'' # map show_int rs" "show_nat n"]
    by (simp add: ctx_at_def prefix_of_snoc group_name.simps)
  have "op_spec P (op_bind (sub_members c rs [] ''group'') (\<lambda>(members, grp).
     if ctx_global c \<notin> set members then op_return None
     else
       op_bind (next_key grp) (\<lambda>pre.
       op_bind (lift_res (make_context members (ctx_global c) pre)) (\<lambda>d. op_return (Some d))))) c
    ?Q (same_ctx c)"
  proof (rule op_spec_bind)
    show "op_spec P (sub_members c rs [] ''group'') c
        (\<lambda>(ms, g) c'. c' = c \<and> ms = map ?m rs \<and> g = group_name rs \<and> distinct ms \<and>
          set ms \<subseteq> set (ctx_members c)) (same_ctx c)"
      using sub_members_spec [of P c rs "[]"]
      by (fastforce simp: group_name_Nil ctx_size_def elim!: op_spec_weaken intro!: nth_mem)
  next
    fix a c'
    assume "(\<lambda>(ms, g) c'. c' = c \<and> ms = map ?m rs \<and> g = group_name rs \<and> distinct ms \<and>
      set ms \<subseteq> set (ctx_members c)) a c'"
    then have a: "a = (map ?m rs, group_name rs)" "c' = c" "distinct (map ?m rs)"
        "set (map ?m rs) \<subseteq> {0..<int N}"
      using assms by (auto simp: ctx_at_def split: prod.splits)
    let ?k = "prefix_of (segs @ [SGroup rs (ctx_sequences c (group_name rs))])"
    have "op_spec P (op_bind (next_key (group_name rs)) (\<lambda>pre.
        op_bind (lift_res (make_context (map ?m rs) (ctx_global c) pre)) (\<lambda>d. op_return (Some d)))) c
      ?Q (same_ctx c)"
    proof (rule op_spec_bind [where R = "\<lambda>k c'. k = ?k \<and> same_ctx c c'"])
      show "op_spec P (next_key (group_name rs)) c (\<lambda>k c'. k = ?k \<and> same_ctx c c') (same_ctx c)"
        by (rule op_spec_next_key) (simp only: pre same_ctx_bump simp_thms)
    next
      fix k c1
      assume k: "k = ?k \<and> same_ctx c c1"
      show "op_spec P (op_bind (lift_res (make_context (map ?m rs) (ctx_global c) k))
          (\<lambda>d. op_return (Some d))) c1 ?Q (same_ctx c)"
      proof (rule op_spec_bind [where R = "\<lambda>d c2. c2 = c1 \<and>
            make_context (map ?m rs) (ctx_global c) k = Inr d"])
        show "op_spec P (lift_res (make_context (map ?m rs) (ctx_global c) k)) c1
            (\<lambda>d c2. c2 = c1 \<and> make_context (map ?m rs) (ctx_global c) k = Inr d) (same_ctx c)"
          using k by (auto intro: spec_rules)
      next
        fix d c2
        assume d: "c2 = c1 \<and> make_context (map ?m rs) (ctx_global c) k = Inr d"
        then have "ctx_at N (segs @ [SGroup rs (ctx_sequences c (group_name rs))]) d \<and>
            ctx_global d = ctx_global c \<and> ctx_sequences d = (\<lambda>_. 0)"
          using make_context_at [of "map ?m rs" "ctx_global c" k d] k a(3,4) assms
          unfolding ctx_at_def members_at_snoc seg_members.simps by metis
        with d k show "op_spec P (op_return (Some d)) c2 ?Q (same_ctx c)"
          by (auto intro: spec_rules)
      qed
    qed
    then show "op_spec P ((\<lambda>(members, grp).
        if ctx_global c \<notin> set members then op_return None
        else
          op_bind (next_key grp) (\<lambda>pre.
          op_bind (lift_res (make_context members (ctx_global c) pre)) (\<lambda>d. op_return (Some d)))) a) c'
      ?Q (same_ctx c)"
      using a by (auto intro!: op_spec_return)
  qed
  then show ?thesis by (simp add: op_spec_def create_sub_context_def)
qed

lemma duplicate_prefix:
  assumes "ctx_at N segs c" and "k = ctx_prefix c @ ''/'' @ ''duplicate'' @ ''/'' @ show_nat n"
  shows "k = prefix_of (segs @ [SDup n])"
  using assms by (simp add: ctx_at_def prefix_of_snoc)

lemma duplicate_spec:
  assumes "ctx_at N segs c"
  shows "op_spec P duplicate c
    (\<lambda>d c'. same_ctx c c' \<and> ctx_at N (segs @ [SDup (ctx_sequences c ''duplicate'')]) d \<and>
       ctx_global d = ctx_global c \<and> ctx_sequences d = (\<lambda>_. 0))
    (same_ctx c)"
proof -
  let ?k = "prefix_of (segs @ [SDup (ctx_sequences c ''duplicate'')])"
  have "op_spec P (op_bind (next_key ''duplicate'') (\<lambda>pre.
      lift_res (make_context (ctx_members c) (ctx_global c) pre))) c
    (\<lambda>d c'. same_ctx c c' \<and> ctx_at N (segs @ [SDup (ctx_sequences c ''duplicate'')]) d \<and>
       ctx_global d = ctx_global c \<and> ctx_sequences d = (\<lambda>_. 0)) (same_ctx c)"
  proof (rule op_spec_bind [where R = "\<lambda>k c'. k = ?k \<and> same_ctx c c'"])
    show "op_spec P (next_key ''duplicate'') c (\<lambda>k c'. k = ?k \<and> same_ctx c c') (same_ctx c)"
      by (rule op_spec_next_key, rule conjI, rule duplicate_prefix [OF assms], rule refl,
          rule same_ctx_bump)
  next
    fix k c1
    assume k: "k = ?k \<and> same_ctx c c1"
    show "op_spec P (lift_res (make_context (ctx_members c) (ctx_global c) k)) c1
        (\<lambda>d c'. same_ctx c c' \<and> ctx_at N (segs @ [SDup (ctx_sequences c ''duplicate'')]) d \<and>
          ctx_global d = ctx_global c \<and> ctx_sequences d = (\<lambda>_. 0)) (same_ctx c)"
    proof (rule op_spec_lift_res)
      fix d
      assume "make_context (ctx_members c) (ctx_global c) k = Inr d"
      from make_context_at [OF this] k assms
      show "same_ctx c c1 \<and> ctx_at N (segs @ [SDup (ctx_sequences c ''duplicate'')]) d \<and>
          ctx_global d = ctx_global c \<and> ctx_sequences d = (\<lambda>_. 0)"
        unfolding ctx_at_def members_at_snoc seg_members.simps by metis
    qed (use k in blast)
  qed
  then show ?thesis by (simp add: op_spec_def duplicate_def)
qed

section \<open>The contexts of a group\<close>

lemma local_op_spec:
  "local_op m c \<Longrightarrow> op_spec (\<lambda>_ _. True) m c (\<lambda>_ c'. same_ctx c c') (same_ctx c)"
  by (auto simp: local_op_def op_spec_def split: sum.splits)

lemma split_ctx_spec:
  assumes "ctx_at N segs c"
  shows "op_spec (\<lambda>_ _. True) (split_ctx u color key) c
    (\<lambda>r c'. same_ctx c c' \<and> (\<forall>d. r = Some d \<longrightarrow> (\<exists>s. ctx_at N (segs @ [s]) d))) (same_ctx c)"
proof -
  have "op_spec (\<lambda>_ _. True) (op_bind (all_gather b rb) (\<lambda>values.
      if color = u then op_return None else create_sub_context (split_ranks values n color))) c
    (\<lambda>r c'. same_ctx c c' \<and> (\<forall>d. r = Some d \<longrightarrow> (\<exists>s. ctx_at N (segs @ [s]) d))) (same_ctx c)"
    for b rb n
  proof (rule op_spec_bind [OF local_op_spec [OF local_all_gather]])
    fix vals c'
    assume same: "same_ctx c c'"
    then have "ctx_at N segs c'" by (rule ctx_at_same [OF assms])
    note spec = create_sub_context_spec [OF this, of "\<lambda>_ _. True" "split_ranks vals n color"]
    have "op_spec (\<lambda>_ _. True) (create_sub_context (split_ranks vals n color)) c'
        (\<lambda>r c'. same_ctx c c' \<and> (\<forall>d. r = Some d \<longrightarrow> (\<exists>s. ctx_at N (segs @ [s]) d))) (same_ctx c)"
      by (rule op_spec_weaken [OF spec])
        (use same in \<open>auto intro: same_ctx_trans split: option.splits\<close>)
    with same show "op_spec (\<lambda>_ _. True)
        (if color = u then op_return None else create_sub_context (split_ranks vals n color)) c'
        (\<lambda>r c'. same_ctx c c' \<and> (\<forall>d. r = Some d \<longrightarrow> (\<exists>s. ctx_at N (segs @ [s]) d))) (same_ctx c)"
      by (auto intro!: op_spec_return)
  qed
  then show ?thesis by (simp add: op_spec_def split_ctx_def)
qed

text \<open>
  \<open>world_ctx N c\<close>: \<open>c\<close> is, at some moment, a context of a process of a group of \<open>N\<close>.
  Any result of a call is considered, whatever the store holds.
\<close>

inductive world_ctx :: "nat \<Rightarrow> kvctx \<Rightarrow> bool" for N where
  world: "make_key_value_context True r (int N) = Inr c \<Longrightarrow> world_ctx N c"
| call: "world_ctx N c \<Longrightarrow> possible (exec x c) (r, c') \<Longrightarrow> world_ctx N c'"
| post: "world_ctx N c \<Longrightarrow> possible (irecv n s t c) (r, c') \<Longrightarrow> world_ctx N c'"
| sub_self: "world_ctx N c \<Longrightarrow> possible (create_sub_context rs c) (q, c') \<Longrightarrow> world_ctx N c'"
| sub: "world_ctx N c \<Longrightarrow> possible (create_sub_context rs c) (Inr (Some d), c') \<Longrightarrow> world_ctx N d"
| dup_self: "world_ctx N c \<Longrightarrow> possible (duplicate c) (q', c') \<Longrightarrow> world_ctx N c'"
| dup: "world_ctx N c \<Longrightarrow> possible (duplicate c) (Inr d, c') \<Longrightarrow> world_ctx N d"
| split_self: "world_ctx N c \<Longrightarrow> possible (split_ctx u color k c) (q, c') \<Longrightarrow> world_ctx N c'"
| split: "world_ctx N c \<Longrightarrow> possible (split_ctx u color k c) (Inr (Some d), c') \<Longrightarrow> world_ctx N d"

lemma op_spec_same:
  assumes "op_spec P m c (\<lambda>a c'. same_ctx c c' \<and> Q a) (same_ctx c)" and "runs P (m c) (r, c')"
  shows "same_ctx c c'"
  using op_spec_result [OF assms(1)] op_spec_error [OF assms(1)] assms(2) by (cases r) auto

lemma world_ctx_at: "world_ctx N c \<Longrightarrow> \<exists>segs. ctx_at N segs c"
proof (induction rule: world_ctx.induct)
  case (world r c)
  then show ?case using world_at by blast
next
  case (call c x r c')
  have "same_ctx c c'" using local_exec [of x c] call.hyps(2) by (simp add: local_op_def)
  with call.IH ctx_at_same show ?case by blast
next
  case (post c n s t r c')
  have "same_ctx c c'" using local_irecv [of n s t c] post.hyps(2) by (simp add: local_op_def)
  with post.IH ctx_at_same show ?case by blast
next
  case (sub_self c rs q c')
  then obtain segs where at: "ctx_at N segs c" by blast
  from op_spec_same [OF create_sub_context_spec [OF at] sub_self.hyps(2)] at show ?case
    using ctx_at_same by blast
next
  case (sub c rs d c')
  then obtain segs where at: "ctx_at N segs c" by blast
  from op_spec_result [OF create_sub_context_spec [OF at] sub.hyps(2)] show ?case by auto
next
  case (dup_self c q c')
  then obtain segs where at: "ctx_at N segs c" by blast
  from op_spec_same [OF duplicate_spec [OF at] dup_self.hyps(2)] at show ?case
    using ctx_at_same by blast
next
  case (dup c d c')
  then obtain segs where at: "ctx_at N segs c" by blast
  from op_spec_result [OF duplicate_spec [OF at] dup.hyps(2)] show ?case by auto
next
  case (split_self c u color k q c')
  then obtain segs where at: "ctx_at N segs c" by blast
  from op_spec_same [OF split_ctx_spec [OF at] split_self.hyps(2)] at show ?case
    using ctx_at_same by blast
next
  case (split c u color k d c')
  then obtain segs where at: "ctx_at N segs c" by blast
  from op_spec_result [OF split_ctx_spec [OF at] split.hyps(2)] show ?case by auto
qed

primrec touches :: "'a prog \<Rightarrow> string \<Rightarrow> bool" where
  "touches (Done a) k' = False"
| "touches (Put k v f) k' = (k' = k \<or> (\<exists>r. touches (f r) k'))"
| "touches (Get k f) k' = (k' = k \<or> (\<exists>r. touches (f r) k'))"

lemma keys_in_touches: "keys_in K p \<Longrightarrow> touches p k \<Longrightarrow> K k"
  by (induction p) auto

lemma touches_below: "local_op m c \<Longrightarrow> touches (m c) k \<Longrightarrow> below (ctx_prefix c) k"
  by (auto simp: local_op_def dest: keys_in_touches)

lemma below_prefix_inject:
  "below (prefix_of segs) k \<Longrightarrow> below (prefix_of segs') k \<Longrightarrow> segs = segs'"
  using all_keys.key_inject [of "(segs, _)" "(segs', _)"] by (auto simp: below_def)

text \<open>Rank translation: what \<open>translated\<close> holds after the loop.\<close>

definition translate_rank :: "kvctx \<Rightarrow> kvctx \<Rightarrow> int \<Rightarrow> int" where
  "translate_rank c target r =
     (if ctx_members c ! nat r \<in> set (ctx_members target)
      then int (pos_of (ctx_members c ! nat r) (ctx_members target)) else -1)"

lemma translate_loop_ok:
  "\<forall>r\<in>set rs. 0 \<le> r \<and> r < ctx_size c \<Longrightarrow> i + length rs = length out \<Longrightarrow>
     translate_loop c target rs out i = (Inr (), take i out @ map (translate_rank c target) rs)"
proof (induction rs arbitrary: out i)
  case (Cons r rs)
  let ?v = "translate_rank c target r"
  have "translate_loop c target (r # rs) out i = translate_loop c target rs (out[i := ?v]) (Suc i)"
    using Cons.prems(1)
    by (simp add: Let_def translate_rank_def pos_of_neq_iff [symmetric] del: pos_of_neq_iff)
  with Cons show ?case by (simp add: take_Suc_conv_app_nth)
qed simp

lemma translate_loop_length: "length (snd (translate_loop c target rs out i)) = length out"
  by (induction rs arbitrary: out i) (auto simp: Let_def)

section \<open>Properties\<close>

text \<open>
  C7: Two calls touch a common key only on contexts with the same prefix, and then the
  contexts have the same members in the same order: calls of the world context and of any
  subgroups, splits and duplicates of it, in any processes, never take each other's messages.
\<close>

theorem key_namespace:
  assumes "world_ctx N c" and "world_ctx N d" and "touches (exec x c) k" and "touches (exec y d) k"
  shows "ctx_prefix c = ctx_prefix d \<and> ctx_members c = ctx_members d"
proof -
  from world_ctx_at [OF assms(1)] world_ctx_at [OF assms(2)] obtain s1 s2
    where at: "ctx_at N s1 c" "ctx_at N s2 d" by blast
  have "below (prefix_of s1) k" "below (prefix_of s2) k"
    using touches_below [OF local_exec assms(3)] touches_below [OF local_exec assms(4)] at
    by (simp_all add: ctx_at_def)
  then have "s1 = s2" by (rule below_prefix_inject)
  with at show ?thesis by (simp add: ctx_at_def)
qed

definition example_ctx :: "nat \<Rightarrow> kvctx" where
  "example_ctx r = \<lparr>ctx_members = [0, 1], ctx_global = int r, ctx_rank = int r,
     ctx_prefix = ''libtt/control'', ctx_sequences = (\<lambda>_. 0)\<rparr>"

lemma example_world: "r < 2 \<Longrightarrow> world_ctx 2 (example_ctx r)"
  by (rule world_ctx.world [of "int r"])
    (auto simp: make_key_value_context_def make_context_def example_ctx_def pos_of_def
      less_2_cases_iff upt_rec)

lemma key_namespace_witness:
  "ctx_prefix (example_ctx 0) = ctx_prefix (example_ctx 1) \<and>
   ctx_members (example_ctx 0) = ctx_members (example_ctx 1)"
proof (rule key_namespace [of 2 _ _ "CSend ''x'' 1 7" _ "CRecv 1 0 7"])
  let ?k = "key_of ''libtt/control'' (KMessage 0 1 7 0)"
  show "touches (exec (CSend ''x'' 1 7) (example_ctx 0)) ?k"
    by (simp add: example_ctx_def op_map_def send_def message_key_def validate_rank_def op_defs
        ctx_size_def Let_def)
  show "touches (exec (CRecv 1 0 7) (example_ctx 1)) ?k"
    by (simp add: example_ctx_def op_map_def recv_def message_key_def validate_rank_def op_defs
        ctx_size_def Let_def)
qed (simp_all add: example_world)

text \<open>
  C8: In every context of a group of \<open>N\<close> processes the members are distinct global
  ranks below \<open>N\<close>, and the rank of the process is its position among them.
\<close>

theorem context_well_formed:
  assumes "world_ctx N c"
  shows "distinct (ctx_members c) \<and> set (ctx_members c) \<subseteq> {0..<int N} \<and>
    0 \<le> ctx_rank c \<and> ctx_rank c < ctx_size c \<and> ctx_members c ! nat (ctx_rank c) = ctx_global c"
proof -
  from world_ctx_at [OF assms] obtain segs where at: "ctx_at N segs c" by blast
  then have "ctx_global c \<in> set (ctx_members c)" unfolding ctx_at_def by blast
  with at nth_pos_of [OF this] pos_of_less_iff [of "ctx_global c" "ctx_members c"] show ?thesis
    by (auto simp: ctx_at_def ctx_size_def)
qed

lemma context_well_formed_witness:
  "distinct (ctx_members (example_ctx 1)) \<and> ctx_rank (example_ctx 1) = 1"
  using context_well_formed [of 2 "example_ctx 1"] by (simp add: example_world example_ctx_def)

text \<open>
  C9: Rank translation between two contexts of a group: for valid ranks the result names,
  for each rank, the same process in the other context, or is -1 when that process is not a
  member; any other call throws.
\<close>

theorem translate_ranks_correct:
  assumes "world_ctx N c" and "world_ctx N d" and "length ranks = length out"
    and "\<forall>r\<in>set ranks. 0 \<le> r \<and> r < ctx_size c"
  shows "fst (translate_ranks c ranks (Some d) out) = Inr () \<and>
    (\<forall>i<length ranks. let t = snd (translate_ranks c ranks (Some d) out) ! i in
       if t = -1 then ctx_members c ! nat (ranks ! i) \<notin> set (ctx_members d)
       else 0 \<le> t \<and> t < ctx_size d \<and> ctx_members d ! nat t = ctx_members c ! nat (ranks ! i))"
proof -
  have "translate_ranks c ranks (Some d) out = (Inr (), map (translate_rank c d) ranks)"
    using translate_loop_ok [of ranks c 0 out d] assms(3,4) by (simp add: translate_ranks_def)
  moreover have "let t = translate_rank c d r in
      if t = -1 then ctx_members c ! nat r \<notin> set (ctx_members d)
      else 0 \<le> t \<and> t < ctx_size d \<and> ctx_members d ! nat t = ctx_members c ! nat r" for r
    using nth_pos_of [of "ctx_members c ! nat r" "ctx_members d"]
      pos_of_less_iff [of "ctx_members c ! nat r" "ctx_members d"]
    by (auto simp: translate_rank_def ctx_size_def Let_def)
  ultimately show ?thesis by simp
qed

lemma translate_ranks_correct_witness:
  "fst (translate_ranks (example_ctx 0) [1, 0] (Some (example_ctx 1)) [9, 9]) = Inr ()"
  using translate_ranks_correct [of 2 "example_ctx 0" "example_ctx 1" "[1, 0]" "[9, 9]"]
  by (simp add: example_world) (simp add: example_ctx_def ctx_size_def)

end
