(* ===== verification/ContextScripts.thy ===== *)
theory ContextScripts
  imports ContextFamily
begin

text \<open>
  What the members of one context receive when each makes its own sequence of calls, in any
  interleaving and with any failures: the messages of a channel in the order they were sent,
  the buffers of the same collective from every member, the buffer of the root. The store
  invariant names, for every key, the call that may have put it.
\<close>

section \<open>Scripts and what they send\<close>

fun script :: "cmd list \<Rightarrow> outcome list op" where
  "script [] = op_return []"
| "script (x # xs) = op_bind (exec x) (\<lambda>r. op_map (\<lambda>rs. r # rs) (script xs))"

fun sends_to :: "int \<Rightarrow> int \<Rightarrow> cmd list \<Rightarrow> bytes list" where
  "sends_to d t [] = []"
| "sends_to d t (CSend b d' t' # xs) = (if d' = d \<and> t' = t then [b] else []) @ sends_to d t xs"
| "sends_to d t (CSsend b d' t' # xs) = (if d' = d \<and> t' = t then [b] else []) @ sends_to d t xs"
| "sends_to d t (x # xs) = sends_to d t xs"

fun recvs_from :: "int \<Rightarrow> int \<Rightarrow> cmd list \<Rightarrow> nat" where
  "recvs_from s t [] = 0"
| "recvs_from s t (CRecv n s' t' # xs) = (if s' = s \<and> t' = t then 1 else 0) + recvs_from s t xs"
| "recvs_from s t (x # xs) = recvs_from s t xs"

fun is_collective :: "cmd \<Rightarrow> bool" where
  "is_collective (CGather b rb) = True"
| "is_collective CBarrier = True"
| "is_collective (CBroadcast b r) = True"
| "is_collective x = False"

abbreviation collectives :: "cmd list \<Rightarrow> cmd list" where
  "collectives \<equiv> filter is_collective"

fun gather_payload :: "cmd \<Rightarrow> bytes option" where
  "gather_payload (CGather b rb) = Some b"
| "gather_payload CBarrier = Some [char_of (1 :: nat)]"
| "gather_payload x = None"

lemma sends_to_append [simp]: "sends_to d t (xs @ ys) = sends_to d t xs @ sends_to d t ys"
  by (induction d t xs rule: sends_to.induct) auto

lemma recvs_from_append [simp]: "recvs_from s t (xs @ ys) = recvs_from s t xs + recvs_from s t ys"
  by (induction s t xs rule: recvs_from.induct) auto

text \<open>What the store may hold when member \<open>i\<close> runs the script \<open>cs i\<close>.\<close>

fun allowed :: "(nat \<Rightarrow> cmd list) \<Rightarrow> nat \<Rightarrow> kvkey \<Rightarrow> bytes \<Rightarrow> bool" where
  "allowed cs n (KMessage s d t q) v \<longleftrightarrow> 0 \<le> s \<and> s < int n \<and>
     q < length (sends_to d t (cs (nat s))) \<and> v = sends_to d t (cs (nat s)) ! q"
| "allowed cs n (KAck s d t q) v \<longleftrightarrow> True"
| "allowed cs n (KGather q i) v \<longleftrightarrow> 0 \<le> i \<and> i < int n \<and>
     q < length (collectives (cs (nat i))) \<and> gather_payload (collectives (cs (nat i)) ! q) = Some v"
| "allowed cs n (KBroadcast q r) v \<longleftrightarrow> 0 \<le> r \<and> r < int n \<and>
     q < length (collectives (cs (nat r))) \<and> collectives (cs (nat r)) ! q = CBroadcast v r"

text \<open>
  \<open>outcome_ok cs n i us x r\<close>: the call \<open>x\<close> of member \<open>i\<close>, after its calls \<open>us\<close>, may
  return \<open>r\<close>.
\<close>

definition gathered :: "(nat \<Rightarrow> cmd list) \<Rightarrow> nat \<Rightarrow> nat \<Rightarrow> nat \<Rightarrow> bytes list \<Rightarrow> bool" where
  "gathered cs n q len bs \<longleftrightarrow> length bs = n \<and>
     (\<forall>j<n. q < length (collectives (cs j)) \<and>
        gather_payload (collectives (cs j) ! q) = Some (bs ! j) \<and> length (bs ! j) = len)"

fun outcome_ok ::
  "(nat \<Rightarrow> cmd list) \<Rightarrow> nat \<Rightarrow> nat \<Rightarrow> cmd list \<Rightarrow> cmd \<Rightarrow> outcome \<Rightarrow> bool" where
  "outcome_ok cs n i us (CSend b d t) r \<longleftrightarrow> r = ODone"
| "outcome_ok cs n i us (CSsend b d t) r \<longleftrightarrow> r = ODone"
| "outcome_ok cs n i us (CRecv len s t) r \<longleftrightarrow> 0 \<le> s \<and> s < int n \<and>
     (let ms = sends_to (int i) t (cs (nat s)); q = recvs_from s t us in
        q < length ms \<and> r = OBytes (ms ! q) \<and> length (ms ! q) = len)"
| "outcome_ok cs n i us (CSnoop s t) r \<longleftrightarrow> 0 \<le> s \<and> s < int n \<and>
     (let ms = sends_to (int i) t (cs (nat s)); q = recvs_from s t us in
        q < length ms \<and> r = OSize (length (ms ! q)))"
| "outcome_ok cs n i us (CGather b rb) r \<longleftrightarrow>
     (\<exists>bs. gathered cs n (length (collectives us)) (length b) bs \<and> r = OBytes (concat bs))"
| "outcome_ok cs n i us CBarrier r \<longleftrightarrow>
     r = ODone \<and> (\<exists>bs. gathered cs n (length (collectives us)) 1 bs)"
| "outcome_ok cs n i us (CBroadcast b root) r \<longleftrightarrow> 0 \<le> root \<and> root < int n \<and>
     (let xs = collectives (cs (nat root)); q = length (collectives us) in
        q < length xs \<and> (\<exists>v. xs ! q = CBroadcast v root \<and> r = OBytes v \<and> length v = length b))"

section \<open>The context after some calls\<close>

lemma group_name_hd: "group_name rs \<noteq> [] \<and> hd (group_name rs) = CHR ''g''"
  by (cases rs) (auto simp: group_name.simps)

lemma group_name_neq [simp]:
  "group_name rs \<noteq> ''collective''" "group_name rs \<noteq> send_slot s d t" "group_name rs \<noteq> recv_slot s d t"
  using group_name_hd [of rs] by (auto simp: send_slot_def recv_slot_def)

definition ctx_after :: "string \<Rightarrow> nat \<Rightarrow> nat \<Rightarrow> cmd list \<Rightarrow> kvctx \<Rightarrow> bool" where
  "ctx_after pre n i us c \<longleftrightarrow> length (ctx_members c) = n \<and> i < n \<and> ctx_rank c = int i \<and>
     ctx_prefix c = pre \<and>
     (\<forall>d t. ctx_sequences c (send_slot (int i) d t) = length (sends_to d t us)) \<and>
     (\<forall>s t. ctx_sequences c (recv_slot s (int i) t) = recvs_from s t us) \<and>
     ctx_sequences c ''collective'' = (if n = 1 then 0 else length (collectives us)) \<and>
     (\<forall>rs. ctx_sequences c (group_name rs) = 0)"

lemma ctx_after_simps:
  assumes "ctx_after pre n i us c"
  shows "length (ctx_members c) = n" "i < n" "ctx_rank c = int i" "ctx_prefix c = pre"
    "ctx_size c = int n"
    "ctx_sequences c (send_slot (int i) d t) = length (sends_to d t us)"
    "ctx_sequences c (recv_slot s (int i) t) = recvs_from s t us"
    "n \<noteq> 1 \<Longrightarrow> ctx_sequences c ''collective'' = length (collectives us)"
  using assms by (auto simp: ctx_after_def ctx_size_def)

abbreviation script_inv :: "string \<Rightarrow> (nat \<Rightarrow> cmd list) \<Rightarrow> nat \<Rightarrow> string \<Rightarrow> bytes \<Rightarrow> bool" where
  "script_inv pre cs n \<equiv> ctx_keys.key_inv pre (allowed cs n)"

lemma op_spec_cong: "m c = m' c \<Longrightarrow> op_spec P m' c Q E \<Longrightarrow> op_spec P m c Q E"
  by (simp add: op_spec_def)

lemma op_spec_map: "op_spec P m c (\<lambda>a c'. Q (g a) c') E \<Longrightarrow> op_spec P (op_map g m) c Q E"
  unfolding op_map_def by (erule op_spec_bind) (rule op_spec_return)

lemma op_spec_op_put:
  "P k v \<Longrightarrow> op_spec P (op_put k v) c (\<lambda>_ c'. c' = c) (\<lambda>_. True)"
  by (rule op_spec_put) auto

lemma op_spec_op_get: "op_spec P (op_get k) c (\<lambda>v c'. c' = c \<and> P k v) (\<lambda>_. True)"
  by (rule op_spec_get) auto

lemma op_spec_op_copy:
  "op_spec P (copy v n) c (\<lambda>w c'. c' = c \<and> w = v \<and> length v = n) (\<lambda>_. True)"
  by (rule op_spec_copy) auto

lemma op_spec_op_check: "op_spec P (check b e) c (\<lambda>_ c'. c' = c \<and> b) (\<lambda>_. True)"
  by (rule op_spec_check) auto

text \<open>One more call of each kind.\<close>

lemma ctx_after_send:
  "ctx_after pre n i us c \<Longrightarrow> x = CSend b d t \<or> x = CSsend b d t \<Longrightarrow>
     ctx_after pre n i (us @ [x]) (bump (send_slot (int i) d t) c)"
  by (auto simp: ctx_after_def)

lemma ctx_after_recv:
  "ctx_after pre n i us c \<Longrightarrow>
     ctx_after pre n i (us @ [CRecv len s t]) (bump (recv_slot s (int i) t) c)"
  by (auto simp: ctx_after_def)

lemma ctx_after_collective:
  "ctx_after pre n i us c \<Longrightarrow> is_collective x \<Longrightarrow> n \<noteq> 1 \<Longrightarrow>
     ctx_after pre n i (us @ [x]) (bump ''collective'' c)"
  by (cases x) (auto simp: ctx_after_def)

lemma ctx_after_collective_one:
  "ctx_after pre 1 i us c \<Longrightarrow> is_collective x \<Longrightarrow> ctx_after pre 1 i (us @ [x]) c"
  by (cases x) (auto simp: ctx_after_def)

lemma ctx_after_snoop:
  "ctx_after pre n i us c \<Longrightarrow> ctx_after pre n i (us @ [CSnoop s t]) c"
  by (auto simp: ctx_after_def)

section \<open>Each call keeps the invariant\<close>

lemma send_call:
  assumes c: "ctx_after pre n i us c" and cs: "cs i = us @ CSend b d t # rest"
  shows "op_spec (script_inv pre cs n) (send b d t) c
    (\<lambda>_ c'. ctx_after pre n i (us @ [CSend b d t]) c') (\<lambda>_. True)"
proof (rule op_spec_cong [where m' =
      "op_bind (message_key (int i) d t True True) (\<lambda>key. op_put key b)"])
  show "send b d t c = op_bind (message_key (int i) d t True True) (\<lambda>key. op_put key b) c"
    using c by (simp add: send_def ctx_after_def)
  have "script_inv pre cs n (key_of pre (KMessage (int i) d t (length (sends_to d t us)))) b"
    using cs c by (auto simp: ctx_after_def)
  with c show "op_spec (script_inv pre cs n)
      (op_bind (message_key (int i) d t True True) (\<lambda>key. op_put key b)) c
      (\<lambda>_ c'. ctx_after pre n i (us @ [CSend b d t]) c') (\<lambda>_. True)"
    by (intro op_spec_bind [where R = "\<lambda>k c'. script_inv pre cs n k b \<and>
          ctx_after pre n i (us @ [CSend b d t]) c'"] op_spec_message_key op_spec_put)
      (auto simp: ctx_after_simps [OF c] intro: ctx_after_send)
qed

lemma ssend_call:
  assumes c: "ctx_after pre n i us c" and cs: "cs i = us @ CSsend b d t # rest"
  shows "op_spec (script_inv pre cs n) (ssend b d t) c
    (\<lambda>_ c'. ctx_after pre n i (us @ [CSsend b d t]) c') (\<lambda>_. True)"
proof (rule op_spec_cong [where m' = "op_bind (message_key (int i) d t True True) (\<lambda>key.
     op_bind (op_put key b) (\<lambda>_. op_bind (op_get (key @ ''/ack'')) (\<lambda>_. op_return ())))"])
  show "ssend b d t c = op_bind (message_key (int i) d t True True) (\<lambda>key.
     op_bind (op_put key b) (\<lambda>_. op_bind (op_get (key @ ''/ack'')) (\<lambda>_. op_return ()))) c"
    using c by (simp add: ssend_def ctx_after_def)
  have "script_inv pre cs n (key_of pre (KMessage (int i) d t (length (sends_to d t us)))) b"
    using cs c by (auto simp: ctx_after_def)
  with c show "op_spec (script_inv pre cs n) (op_bind (message_key (int i) d t True True) (\<lambda>key.
     op_bind (op_put key b) (\<lambda>_. op_bind (op_get (key @ ''/ack'')) (\<lambda>_. op_return ())))) c
      (\<lambda>_ c'. ctx_after pre n i (us @ [CSsend b d t]) c') (\<lambda>_. True)"
    by (intro op_spec_bind [where R = "\<lambda>k c'. script_inv pre cs n k b \<and>
          ctx_after pre n i (us @ [CSsend b d t]) c'"] op_spec_message_key
        op_spec_bind [OF op_spec_op_put] op_spec_bind [OF op_spec_op_get] op_spec_return)
      (auto simp: ctx_after_simps [OF c] intro: ctx_after_send)
qed

lemma recv_call:
  assumes c: "ctx_after pre n i us c"
  shows "op_spec (script_inv pre cs n) (recv len s t) c
    (\<lambda>v c'. outcome_ok cs n i us (CRecv len s t) (OBytes v) \<and>
       ctx_after pre n i (us @ [CRecv len s t]) c') (\<lambda>_. True)"
proof (rule op_spec_cong [where m' = "op_bind (message_key s (int i) t False True) (\<lambda>key.
     op_bind (op_get key) (\<lambda>v. op_bind (copy v len) (\<lambda>b.
     op_bind (op_put (key @ ''/ack'') ''1'') (\<lambda>_. op_return b))))"])
  let ?k = "key_of pre (KMessage s (int i) t (recvs_from s t us))"
  show "recv len s t c = op_bind (message_key s (int i) t False True) (\<lambda>key.
     op_bind (op_get key) (\<lambda>v. op_bind (copy v len) (\<lambda>b.
     op_bind (op_put (key @ ''/ack'') ''1'') (\<lambda>_. op_return b)))) c"
    using c by (simp add: recv_def ctx_after_def)
  show "op_spec (script_inv pre cs n) (op_bind (message_key s (int i) t False True) (\<lambda>key.
     op_bind (op_get key) (\<lambda>v. op_bind (copy v len) (\<lambda>b.
     op_bind (op_put (key @ ''/ack'') ''1'') (\<lambda>_. op_return b))))) c
    (\<lambda>v c'. outcome_ok cs n i us (CRecv len s t) (OBytes v) \<and>
       ctx_after pre n i (us @ [CRecv len s t]) c') (\<lambda>_. True)"
  proof (rule op_spec_bind [where R = "\<lambda>k c'. k = ?k \<and> 0 \<le> s \<and> s < int n \<and>
          ctx_after pre n i (us @ [CRecv len s t]) c'"])
    show "op_spec (script_inv pre cs n) (message_key s (int i) t False True) c
        (\<lambda>k c'. k = ?k \<and> 0 \<le> s \<and> s < int n \<and> ctx_after pre n i (us @ [CRecv len s t]) c') (\<lambda>_. True)"
      by (rule op_spec_message_key) (auto simp: ctx_after_simps [OF c] intro: ctx_after_recv [OF c])
  qed (intro op_spec_bind [OF op_spec_op_get] op_spec_bind [OF op_spec_op_copy]
      op_spec_bind [OF op_spec_op_put] op_spec_return; auto simp: Let_def)
qed

lemma snoop_call:
  assumes c: "ctx_after pre n i us c"
  shows "op_spec (script_inv pre cs n) (snoop_incoming_msg_size s t) c
    (\<lambda>v c'. outcome_ok cs n i us (CSnoop s t) (OSize v) \<and>
       ctx_after pre n i (us @ [CSnoop s t]) c') (\<lambda>_. True)"
proof (rule op_spec_cong [where m' = "op_bind (message_key s (int i) t False False) (\<lambda>key.
     op_bind (op_get key) (\<lambda>v. op_return (length v)))"])
  let ?k = "key_of pre (KMessage s (int i) t (recvs_from s t us))"
  show "snoop_incoming_msg_size s t c = op_bind (message_key s (int i) t False False) (\<lambda>key.
     op_bind (op_get key) (\<lambda>v. op_return (length v))) c"
    using c by (simp add: snoop_incoming_msg_size_def ctx_after_def)
  show "op_spec (script_inv pre cs n) (op_bind (message_key s (int i) t False False) (\<lambda>key.
     op_bind (op_get key) (\<lambda>v. op_return (length v)))) c
    (\<lambda>v c'. outcome_ok cs n i us (CSnoop s t) (OSize v) \<and>
       ctx_after pre n i (us @ [CSnoop s t]) c') (\<lambda>_. True)"
  proof (rule op_spec_bind [where R = "\<lambda>k c'. k = ?k \<and> 0 \<le> s \<and> s < int n \<and>
          ctx_after pre n i (us @ [CSnoop s t]) c'"])
    show "op_spec (script_inv pre cs n) (message_key s (int i) t False False) c
        (\<lambda>k c'. k = ?k \<and> 0 \<le> s \<and> s < int n \<and> ctx_after pre n i (us @ [CSnoop s t]) c') (\<lambda>_. True)"
      by (rule op_spec_message_key) (auto simp: ctx_after_simps [OF c] intro: ctx_after_snoop [OF c])
  qed (intro op_spec_bind [OF op_spec_op_get] op_spec_return; auto simp: Let_def)
qed

text \<open>The receiving loop fills one span per member.\<close>

lemma length_concat_const: "\<forall>v\<in>set vs. length v = k \<Longrightarrow> length (concat vs) = length vs * k"
  by (induction vs) auto

lemma write_span_next:
  assumes "length v = k" and "(i + Suc m) * k \<le> length buf"
  shows "take (Suc i * k) (write_span (i * k) v buf) = take (i * k) buf @ v"
    and "drop ((Suc i + m) * k) (write_span (i * k) v buf) = drop ((i + Suc m) * k) buf"
    and "length (write_span (i * k) v buf) = length buf"
  using assms by (auto simp: write_span_def algebra_simps)

lemma gather_loop_spec:
  assumes "(i + m) * k \<le> length buf"
  shows "op_spec P (gather_loop (all_gather_key (collective_name pre q)) k i m buf) c
    (\<lambda>b c'. c' = c \<and> (\<exists>vs. length vs = m \<and>
       (\<forall>j<m. P (key_of pre (KGather q (int (i + j)))) (vs ! j) \<and> length (vs ! j) = k) \<and>
       b = take (i * k) buf @ concat vs @ drop ((i + m) * k) buf)) (\<lambda>_. True)"
  using assms
proof (induction m arbitrary: i buf)
  case 0
  then show ?case by (auto intro: op_spec_return)
next
  case (Suc m)
  let ?Q = "\<lambda>i m buf b c'. c' = c \<and> (\<exists>vs. length vs = m \<and>
       (\<forall>j<m. P (key_of pre (KGather q (int (i + j)))) (vs ! j) \<and> length (vs ! j) = k) \<and>
       b = take (i * k) buf @ concat vs @ drop ((i + m) * k) buf)"
  let ?key = "all_gather_key (collective_name pre q)"
  have rest: "op_spec P (gather_loop ?key k (Suc i) m (write_span (i * k) v buf)) c
      (?Q i (Suc m) buf) (\<lambda>_. True)"
    if v: "P (key_of pre (KGather q (int i))) v" "length v = k" for v
  proof (rule op_spec_weaken [OF Suc.IH])
    show "(Suc i + m) * k \<le> length (write_span (i * k) v buf)"
      using write_span_next(3) [OF v(2)] Suc.prems by simp
    fix b c'
    assume "?Q (Suc i) m (write_span (i * k) v buf) b c'"
    then obtain vs where vs: "c' = c" "length vs = m"
        "\<forall>j<m. P (key_of pre (KGather q (int (Suc i + j)))) (vs ! j) \<and> length (vs ! j) = k"
        "b = take (i * k) buf @ concat (v # vs) @ drop ((i + Suc m) * k) buf"
      using write_span_next(1,2) [OF v(2) Suc.prems] by (auto simp del: mult_Suc)
    have "\<forall>j<Suc m. P (key_of pre (KGather q (int (i + j)))) ((v # vs) ! j) \<and>
        length ((v # vs) ! j) = k"
      using v vs(3) by (auto simp: less_Suc_eq_0_disj algebra_simps)
    with vs show "?Q i (Suc m) buf b c'"
      by (intro conjI exI [of _ "v # vs"]) auto
  qed simp
  show ?case
    unfolding gather_loop.simps
    by (intro op_spec_bind [OF op_spec_op_get] op_spec_bind [OF op_spec_op_copy])
      (use rest in auto)
qed

lemma gather_call:
  assumes c: "ctx_after pre n i us c" and cs: "cs i = us @ x # rest"
    and x: "is_collective x" "gather_payload x = Some b"
  shows "op_spec (script_inv pre cs n) (all_gather b rb) c
    (\<lambda>v c'. (\<exists>bs. gathered cs n (length (collectives us)) (length b) bs \<and> v = concat bs) \<and>
       ctx_after pre n i (us @ [x]) c') (\<lambda>_. True)"
proof -
  let ?P = "script_inv pre cs n" and ?q = "length (collectives us)"
  let ?Q = "\<lambda>v c'. (\<exists>bs. gathered cs n ?q (length b) bs \<and> v = concat bs) \<and>
       ctx_after pre n i (us @ [x]) c'"
  let ?run = "op_bind (next_key ''collective'') (\<lambda>k. let key = all_gather_key k in
       op_bind (op_put (key @ show_int (int i)) b) (\<lambda>_. gather_loop key (length b) 0 n rb))"
  have own: "allowed cs n (KGather ?q (int i)) b"
    using cs x ctx_after_simps(2) [OF c] by simp
  have one: "op_spec ?P (copy b (length rb)) c ?Q (\<lambda>_. True)" if "n = 1"
  proof (rule op_spec_weaken [OF op_spec_op_copy])
    fix w c'
    assume "c' = c \<and> w = b \<and> length b = length rb"
    moreover have "gathered cs n ?q (length b) [b]"
      using own that by (auto simp: gathered_def)
    moreover have "ctx_after pre n i (us @ [x]) c"
      using ctx_after_collective_one [OF c [unfolded that] x(1)] that by simp
    ultimately show "?Q w c'"
      by (intro conjI exI [of _ "[b]"]) simp_all
  qed simp
  have more: "op_spec ?P ?run c ?Q (\<lambda>_. True)" if n: "n \<noteq> 1" and len: "length rb = length b * n"
  proof (rule op_spec_bind [where R = "\<lambda>k c'. k = collective_name pre ?q \<and>
          ctx_after pre n i (us @ [x]) c'"])
    show "op_spec ?P (next_key ''collective'') c
        (\<lambda>k c'. k = collective_name pre ?q \<and> ctx_after pre n i (us @ [x]) c') (\<lambda>_. True)"
      by (rule op_spec_next_collective)
        (use ctx_after_collective [OF c x(1) n] ctx_after_simps [OF c] n in simp)
  next
    fix k c'
    assume k: "k = collective_name pre ?q \<and> ctx_after pre n i (us @ [x]) c'"
    have loop: "op_spec ?P
        (gather_loop (all_gather_key (collective_name pre ?q)) (length b) 0 n rb) c' ?Q (\<lambda>_. True)"
    proof (rule op_spec_weaken [OF gather_loop_spec])
      fix v c2
      assume "c2 = c' \<and> (\<exists>vs. length vs = n \<and>
          (\<forall>j<n. ?P (key_of pre (KGather ?q (int (0 + j)))) (vs ! j) \<and> length (vs ! j) = length b) \<and>
          v = take (0 * length b) rb @ concat vs @ drop ((0 + n) * length b) rb)"
      with k len show "?Q v c2" by (auto simp: gathered_def mult.commute)
    qed (simp_all add: len)
    show "op_spec ?P (let key = all_gather_key k in
       op_bind (op_put (key @ show_int (int i)) b) (\<lambda>_. gather_loop key (length b) 0 n rb)) c'
       ?Q (\<lambda>_. True)"
      unfolding Let_def
      by (rule op_spec_bind [OF op_spec_op_put]) (use k own loop in simp_all)
  qed
  show ?thesis
  proof (rule op_spec_cong [where m' = "op_bind (check (length rb = length b * n)
       ''Invalid all_gather receive buffer size'') (\<lambda>_.
         if n = 1 then copy b (length rb) else ?run)"])
    show "all_gather b rb c = op_bind (check (length rb = length b * n)
       ''Invalid all_gather receive buffer size'') (\<lambda>_. if n = 1 then copy b (length rb) else ?run) c"
      using ctx_after_simps [OF c] by (simp add: all_gather_def)
    show "op_spec ?P (op_bind (check (length rb = length b * n)
       ''Invalid all_gather receive buffer size'') (\<lambda>_.
         if n = 1 then copy b (length rb) else ?run)) c ?Q (\<lambda>_. True)"
      by (rule op_spec_bind [OF op_spec_op_check]) (use one more in auto)
  qed
qed

lemma barrier_call:
  assumes c: "ctx_after pre n i us c" and cs: "cs i = us @ CBarrier # rest"
  shows "op_spec (script_inv pre cs n) barrier c
    (\<lambda>_ c'. outcome_ok cs n i us CBarrier ODone \<and> ctx_after pre n i (us @ [CBarrier]) c') (\<lambda>_. True)"
proof (rule op_spec_cong [where m' = "op_bind (all_gather [char_of (1 :: nat)]
      (replicate n (char_of (0 :: nat)))) (\<lambda>_. op_return ())"])
  show "barrier c = op_bind (all_gather [char_of (1 :: nat)]
      (replicate n (char_of (0 :: nat)))) (\<lambda>_. op_return ()) c"
    using ctx_after_simps [OF c] by (simp add: barrier_def)
  show "op_spec (script_inv pre cs n) (op_bind (all_gather [char_of (1 :: nat)]
      (replicate n (char_of (0 :: nat)))) (\<lambda>_. op_return ())) c
    (\<lambda>_ c'. outcome_ok cs n i us CBarrier ODone \<and> ctx_after pre n i (us @ [CBarrier]) c') (\<lambda>_. True)"
    by (rule op_spec_bind [OF gather_call [OF c, where x = CBarrier]]) (use cs in \<open>auto intro!: op_spec_return\<close>)
qed

lemma broadcast_call:
  assumes c: "ctx_after pre n i us c" and cs: "cs i = us @ CBroadcast b root # rest"
  shows "op_spec (script_inv pre cs n) (broadcast b root) c
    (\<lambda>v c'. outcome_ok cs n i us (CBroadcast b root) (OBytes v) \<and>
       ctx_after pre n i (us @ [CBroadcast b root]) c') (\<lambda>_. True)"
proof -
  let ?P = "script_inv pre cs n" and ?q = "length (collectives us)"
  let ?ok = "ctx_after pre n i (us @ [CBroadcast b root])"
  let ?Q = "\<lambda>v c'. outcome_ok cs n i us (CBroadcast b root) (OBytes v) \<and> ?ok c'"
  let ?run = "op_bind (next_key ''collective'') (\<lambda>k. let key = broadcast_key k root in
       if int i = root then op_bind (op_put key b) (\<lambda>_. op_return b)
       else op_bind (op_get key) (\<lambda>v. copy v (length b)))"
  have own: "allowed cs n (KBroadcast ?q root) b" if "int i = root"
    using cs that ctx_after_simps(2) [OF c] by auto
  have one: "op_spec ?P (op_return b) c ?Q (\<lambda>_. True)" if n: "n = 1" and r: "0 \<le> root" "root < int n"
  proof (rule op_spec_return)
    have "int i = root" using n r ctx_after_simps(2) [OF c] by simp
    with own r have "outcome_ok cs n i us (CBroadcast b root) (OBytes b)"
      by (auto simp: Let_def)
    moreover have "?ok c"
      using ctx_after_collective_one [of pre i us c "CBroadcast b root"] c n by simp
    ultimately show "?Q b c" by simp
  qed
  have more: "op_spec ?P ?run c ?Q (\<lambda>_. True)" if n: "n \<noteq> 1" and r: "0 \<le> root" "root < int n"
  proof (rule op_spec_bind [where R = "\<lambda>k c'. k = collective_name pre ?q \<and> ?ok c'"])
    show "op_spec ?P (next_key ''collective'') c
        (\<lambda>k c'. k = collective_name pre ?q \<and> ?ok c') (\<lambda>_. True)"
      by (rule op_spec_next_collective)
        (use ctx_after_collective [OF c _ n] ctx_after_simps [OF c] n in simp)
  next
    fix k c'
    assume k: "k = collective_name pre ?q \<and> ?ok c'"
    have out: "?Q v c'" if "allowed cs n (KBroadcast ?q root) v" "length v = length b" for v
      using that k r by (auto simp: Let_def)
    show "op_spec ?P (let key = broadcast_key k root in
       if int i = root then op_bind (op_put key b) (\<lambda>_. op_return b)
       else op_bind (op_get key) (\<lambda>v. copy v (length b))) c' ?Q (\<lambda>_. True)"
    proof (cases "int i = root")
      case True
      have "op_spec ?P (op_bind (op_put (key_of pre (KBroadcast ?q root)) b) (\<lambda>_. op_return b)) c'
          ?Q (\<lambda>_. True)"
        by (rule op_spec_bind [OF op_spec_op_put])
          (use own [OF True] out in \<open>auto intro: op_spec_return simp del: outcome_ok.simps\<close>)
      with True k show ?thesis by simp
    next
      case False
      have "op_spec ?P (op_bind (op_get (key_of pre (KBroadcast ?q root))) (\<lambda>v. copy v (length b))) c'
          ?Q (\<lambda>_. True)"
        by (rule op_spec_bind [OF op_spec_op_get])
          (use out in \<open>auto intro!: op_spec_copy simp del: outcome_ok.simps allowed.simps\<close>)
      with False k show ?thesis by simp
    qed
  qed
  show ?thesis
  proof (rule op_spec_cong [where m' = "op_bind (validate_rank root) (\<lambda>_.
       if n = 1 then op_return b else ?run)"])
    show "broadcast b root c = op_bind (validate_rank root) (\<lambda>_.
       if n = 1 then op_return b else ?run) c"
      using ctx_after_simps [OF c] by (simp add: broadcast_def)
    show "op_spec ?P (op_bind (validate_rank root) (\<lambda>_. if n = 1 then op_return b else ?run)) c
        ?Q (\<lambda>_. True)"
      by (rule op_spec_bind [where R = "\<lambda>_ c'. c' = c \<and> 0 \<le> root \<and> root < int n"])
        (use one more ctx_after_simps [OF c] in \<open>auto intro: op_spec_validate_rank
          simp del: outcome_ok.simps\<close>)
  qed
qed

section \<open>Whole scripts in a system\<close>

lemma exec_call:
  assumes c: "ctx_after pre n i us c" and cs: "cs i = us @ x # rest"
  shows "op_spec (script_inv pre cs n) (exec x) c
    (\<lambda>r c'. outcome_ok cs n i us x r \<and> ctx_after pre n i (us @ [x]) c') (\<lambda>_. True)"
proof (cases x)
  case (CSend b d t)
  have "op_spec (script_inv pre cs n) (send b d t) c
    (\<lambda>_ c'. outcome_ok cs n i us (CSend b d t) ODone \<and> ctx_after pre n i (us @ [CSend b d t]) c')
    (\<lambda>_. True)"
    by (rule op_spec_weaken [OF send_call [OF c]]) (use cs CSend in simp_all)
  then show ?thesis
    unfolding CSend exec.simps by (intro op_spec_map)
next
  case (CSsend b d t)
  have "op_spec (script_inv pre cs n) (ssend b d t) c
    (\<lambda>_ c'. outcome_ok cs n i us (CSsend b d t) ODone \<and> ctx_after pre n i (us @ [CSsend b d t]) c')
    (\<lambda>_. True)"
    by (rule op_spec_weaken [OF ssend_call [OF c]]) (use cs CSsend in simp_all)
  then show ?thesis
    unfolding CSsend exec.simps by (intro op_spec_map)
next
  case (CRecv len s t)
  then show ?thesis
    unfolding CRecv exec.simps by (intro op_spec_map recv_call [OF c])
next
  case (CSnoop s t)
  then show ?thesis
    unfolding CSnoop exec.simps by (intro op_spec_map snoop_call [OF c])
next
  case (CGather b rb)
  have "op_spec (script_inv pre cs n) (all_gather b rb) c
    (\<lambda>v c'. outcome_ok cs n i us (CGather b rb) (OBytes v) \<and>
       ctx_after pre n i (us @ [CGather b rb]) c') (\<lambda>_. True)"
    by (rule op_spec_weaken [OF gather_call [OF c, where x = "CGather b rb"]])
      (use cs CGather in auto)
  then show ?thesis
    unfolding CGather exec.simps by (intro op_spec_map)
next
  case CBarrier
  have "op_spec (script_inv pre cs n) barrier c
    (\<lambda>_ c'. outcome_ok cs n i us CBarrier ODone \<and> ctx_after pre n i (us @ [CBarrier]) c') (\<lambda>_. True)"
    by (rule barrier_call [OF c]) (use cs CBarrier in simp)
  then show ?thesis
    unfolding CBarrier exec.simps by (intro op_spec_map)
next
  case (CBroadcast b r)
  have "op_spec (script_inv pre cs n) (broadcast b r) c
    (\<lambda>v c'. outcome_ok cs n i us (CBroadcast b r) (OBytes v) \<and>
       ctx_after pre n i (us @ [CBroadcast b r]) c') (\<lambda>_. True)"
    by (rule broadcast_call [OF c]) (use cs CBroadcast in simp)
  then show ?thesis
    unfolding CBroadcast exec.simps by (intro op_spec_map)
qed

definition outcomes_ok ::
  "(nat \<Rightarrow> cmd list) \<Rightarrow> nat \<Rightarrow> nat \<Rightarrow> cmd list \<Rightarrow> cmd list \<Rightarrow> outcome list \<Rightarrow> bool" where
  "outcomes_ok cs n i us xs rs \<longleftrightarrow> length rs = length xs \<and>
     (\<forall>k<length xs. outcome_ok cs n i (us @ take k xs) (xs ! k) (rs ! k))"

lemma outcomes_ok_Cons:
  "outcome_ok cs n i us x r \<Longrightarrow> outcomes_ok cs n i (us @ [x]) xs rs \<Longrightarrow>
     outcomes_ok cs n i us (x # xs) (r # rs)"
  by (auto simp: outcomes_ok_def less_Suc_eq_0_disj)

lemma script_call:
  "ctx_after pre n i us c \<Longrightarrow> cs i = us @ xs \<Longrightarrow>
     op_spec (script_inv pre cs n) (script xs) c (\<lambda>rs c'. outcomes_ok cs n i us xs rs) (\<lambda>_. True)"
proof (induction xs arbitrary: us c)
  case Nil
  then show ?case by (auto intro: op_spec_return simp: outcomes_ok_def)
next
  case (Cons x xs)
  show ?case
    unfolding script.simps
  proof (rule op_spec_bind [OF exec_call [where rest = xs]])
    fix r c'
    assume r: "outcome_ok cs n i us x r \<and> ctx_after pre n i (us @ [x]) c'"
    then have "op_spec (script_inv pre cs n) (script xs) c'
        (\<lambda>rs c'. outcomes_ok cs n i (us @ [x]) xs rs) (\<lambda>_. True)"
      using Cons.prems by (intro Cons.IH) auto
    then have "op_spec (script_inv pre cs n) (script xs) c'
        (\<lambda>rs c'. outcomes_ok cs n i us (x # xs) (r # rs)) (\<lambda>_. True)"
      using r by (elim op_spec_weaken) (auto intro: outcomes_ok_Cons)
    then show "op_spec (script_inv pre cs n) (op_map ((#) r) (script xs)) c'
        (\<lambda>rs c'. outcomes_ok cs n i us (x # xs) rs) (\<lambda>_. True)"
      by (rule op_spec_map)
  qed (use Cons.prems in auto)
qed

text \<open>
  \<open>fresh pre n i c\<close>: \<open>c\<close> is the context of member \<open>i\<close> of \<open>n\<close> as it was made. In a
  \<open>group_system\<close> the first \<open>n\<close> processes run a program each on such contexts, any other
  processes touch no key below the prefix, and the store starts without such keys.
\<close>

definition fresh :: "string \<Rightarrow> nat \<Rightarrow> nat \<Rightarrow> kvctx \<Rightarrow> bool" where
  "fresh pre n i c \<longleftrightarrow> length (ctx_members c) = n \<and> i < n \<and> ctx_rank c = int i \<and>
     ctx_prefix c = pre \<and> ctx_sequences c = (\<lambda>_. 0)"

definition group_system ::
  "string \<Rightarrow> nat \<Rightarrow> (nat \<Rightarrow> kvctx) \<Rightarrow> store \<Rightarrow> (nat \<Rightarrow> 'a prog) \<Rightarrow> bool" where
  "group_system pre n c st ps \<longleftrightarrow> (\<forall>i<n. fresh pre n i (c i)) \<and>
     (\<forall>i\<ge>n. \<forall>k. touches (ps i) k \<longrightarrow> \<not> below pre k) \<and> (\<forall>k. below pre k \<longrightarrow> st k = None)"

lemma fresh_after: "fresh pre n i c \<Longrightarrow> ctx_after pre n i [] c"
  by (auto simp: fresh_def ctx_after_def)

lemma touches_guar:
  "(\<And>k. touches p k \<Longrightarrow> \<not> below pre k) \<Longrightarrow> guar (ctx_keys.key_inv pre ok) p"
proof (induction p)
  case (Put k v f)
  have "ctx_keys.key_inv pre ok k v"
    using Put.prems [of k] by (intro ctx_keys.key_inv_other) (auto simp: below_def)
  moreover have "guar (ctx_keys.key_inv pre ok) (f r)" for r
    using Put.IH [of "f r"] Put.prems by auto
  ultimately show ?case by simp
next
  case (Get k f)
  then show ?case by auto
qed simp

lemma group_system_result:
  assumes sys: "group_system pre n c st0 ps0"
    and guar: "\<And>i. i < n \<Longrightarrow> guar (ctx_keys.key_inv pre ok) (ps0 i)"
    and reach: "sys_step\<^sup>*\<^sup>* (st0, ps0) (st, ps)" and fin: "ps i = Done a"
  shows "runs (ctx_keys.key_inv pre ok) (ps0 i) a"
proof (rule rely_guarantee_result [OF reach])
  show "store_ok (ctx_keys.key_inv pre ok) st0"
    using sys by (intro ctx_keys.store_ok_key_inv) (auto simp: group_system_def)
  show "guar (ctx_keys.key_inv pre ok) (ps0 j)" for j
  proof (cases "j < n")
    case False
    then show ?thesis
      using sys unfolding group_system_def
      by (intro touches_guar) (meson not_le_imp_less)
  qed (rule guar)
qed (rule fin)

lemma script_sound:
  assumes sys: "group_system pre n c st0 ps0"
    and ps0: "\<And>i. i < n \<Longrightarrow> ps0 i = script (cs i) (c i)"
    and reach: "sys_step\<^sup>*\<^sup>* (st0, ps0) (st, ps)"
    and i: "i < n" and fin: "ps i = Done (Inr rs, c')"
  shows "outcomes_ok cs n i [] (cs i) rs"
proof -
  have spec: "op_spec (script_inv pre cs n) (script (cs j)) (c j)
      (\<lambda>rs c'. outcomes_ok cs n j [] (cs j) rs) (\<lambda>_. True)" if "j < n" for j
    using sys that by (intro script_call fresh_after) (auto simp: group_system_def)
  have "runs (script_inv pre cs n) (ps0 i) (Inr rs, c')"
    by (rule group_system_result [OF sys _ reach fin]) (simp add: ps0 op_spec_guar [OF spec])
  with spec [OF i] ps0 [OF i] show ?thesis
    by (auto dest: op_spec_result)
qed

section \<open>Properties\<close>

text \<open>
  C1: Every member of a context makes its own sequence of calls. In every interleaving of
  the processes, with any calls to the store failing, a member that finishes has got, for
  each of its calls in turn: from a receive, the next message of that channel in sending
  order, of the size it asked for; from a gather, the buffers of the members' own
  collectives of the same number, in rank order; from a broadcast, the root's buffer.
\<close>

theorem script_delivery:
  assumes "group_system pre n c st0 ps0" and "\<And>i. i < n \<Longrightarrow> ps0 i = script (cs i) (c i)"
    and "sys_step\<^sup>*\<^sup>* (st0, ps0) (st, ps)" and "i < n" and "ps i = Done (Inr rs, c')"
  shows "length rs = length (cs i) \<and>
    (\<forall>k<length (cs i). outcome_ok cs n i (take k (cs i)) (cs i ! k) (rs ! k))"
  using script_sound [OF assms] by (simp add: outcomes_ok_def)

section \<open>A concrete run\<close>

text \<open>Two processes: the first sends a message and the second receives it.\<close>

definition example_scripts :: "nat \<Rightarrow> cmd list" where
  "example_scripts i = (if i = 0 then [CSend ''hi'' 1 7] else [CRecv 2 0 7])"

definition example_start :: "nat \<Rightarrow> (outcome list res \<times> kvctx) prog" where
  "example_start i = (if i < 2 then script (example_scripts i) (example_ctx i)
     else Done (Inr [], example_ctx 0))"

lemma example_group: "group_system ''libtt/control'' 2 example_ctx Map.empty example_start"
  by (auto simp: group_system_def fresh_def example_ctx_def example_start_def)

abbreviation "example_key \<equiv> key_of ''libtt/control'' (KMessage 0 1 7 0)"

lemma example_start_0:
  "example_start 0 = Put example_key ''hi''
     (\<lambda>r. case r of Inl e \<Rightarrow> Done (Inl e, bump (send_slot 0 1 7) (example_ctx 0))
        | Inr _ \<Rightarrow> Done (Inr [ODone], bump (send_slot 0 1 7) (example_ctx 0)))"
  by (auto simp: example_start_def example_scripts_def example_ctx_def op_map_def send_def
      message_key_def validate_rank_def op_defs ctx_size_def Let_def bump_def send_slot_def
      fun_eq_iff split: sum.splits)

lemma example_start_1:
  "example_start (Suc 0) = Get example_key (\<lambda>r. case r of
     Inl e \<Rightarrow> Done (Inl e, bump (recv_slot 0 1 7) (example_ctx 1))
   | Inr v \<Rightarrow> if length v = 2
       then Put (example_key @ ''/ack'') ''1'' (\<lambda>r. case r of
           Inl e \<Rightarrow> Done (Inl e, bump (recv_slot 0 1 7) (example_ctx 1))
         | Inr _ \<Rightarrow> Done (Inr [OBytes v], bump (recv_slot 0 1 7) (example_ctx 1)))
       else Done (Inl ''Coordination message size mismatch'', bump (recv_slot 0 1 7) (example_ctx 1)))"
  by (auto simp: example_start_def example_scripts_def example_ctx_def op_map_def recv_def
      message_key_def validate_rank_def op_defs ctx_size_def Let_def bump_def recv_slot_def
      fun_eq_iff split: sum.splits)

lemma example_run:
  "\<exists>st ps c'. sys_step\<^sup>*\<^sup>* (Map.empty, example_start) (st, ps) \<and>
     ps 1 = Done (Inr [OBytes ''hi''], c')"
proof -
  define ps1 where "ps1 = example_start(0 := Done (Inr [ODone], bump (send_slot 0 1 7) (example_ctx 0)))"
  define k where "k = example_key"
  define c1 where "c1 = bump (recv_slot 0 1 7) (example_ctx (Suc 0))"
  define ack where "ack = Put (k @ ''/ack'') ''1'' (\<lambda>r. case r of Inl e \<Rightarrow> Done (Inl e, c1)
      | Inr _ \<Rightarrow> Done (Inr [OBytes ''hi''], c1))"
  have "sys_step (Map.empty, example_start) ([k \<mapsto> ''hi''], ps1)"
    unfolding ps1_def
    by (rule sys_step, rule prog_step_putI [OF example_start_0]) (simp_all add: k_def)
  moreover have "sys_step ([k \<mapsto> ''hi''], ps1) ([k \<mapsto> ''hi''], ps1(1 := ack))"
    unfolding ps1_def k_def c1_def ack_def
    by (rule sys_step, rule prog_step_getI [where v = "''hi''", OF trans [OF _ example_start_1]])
      simp_all
  moreover have "sys_step ([k \<mapsto> ''hi''], ps1(1 := ack))
      ([k \<mapsto> ''hi'', k @ ''/ack'' \<mapsto> ''1''], ps1(1 := ack, 1 := Done (Inr [OBytes ''hi''], c1)))"
    by (rule sys_step, rule prog_step_putI [OF trans [OF _ ack_def]]) simp_all
  ultimately have "sys_step\<^sup>*\<^sup>* (Map.empty, example_start)
      ([k \<mapsto> ''hi'', k @ ''/ack'' \<mapsto> ''1''], ps1(1 := ack, 1 := Done (Inr [OBytes ''hi''], c1)))"
    by (meson converse_rtranclp_into_rtranclp rtranclp.rtrancl_refl)
  moreover have "(ps1(1 := ack, 1 := Done (Inr [OBytes ''hi''], c1))) 1 = Done (Inr [OBytes ''hi''], c1)"
    by simp
  ultimately show ?thesis by blast
qed

lemma script_delivery_witness:
  "outcome_ok example_scripts 2 1 [] (CRecv 2 0 7) (OBytes ''hi'')"
proof -
  from example_run obtain st ps c' where run: "sys_step\<^sup>*\<^sup>* (Map.empty, example_start) (st, ps)"
      "ps 1 = Done (Inr [OBytes ''hi''], c')" by blast
  have "length [OBytes ''hi''] = length (example_scripts 1) \<and>
    (\<forall>k<length (example_scripts 1). outcome_ok example_scripts 2 1 (take k (example_scripts 1))
       (example_scripts 1 ! k) ([OBytes ''hi''] ! k))"
    by (rule script_delivery [OF example_group _ run(1) _ run(2)]) (simp_all add: example_start_def)
  then show ?thesis by (auto simp: example_scripts_def)
qed

end
