(* ===== verification/ContextSplit.thy ===== *)
theory ContextSplit
  imports ContextScripts
begin

text \<open>
  \<open>split\<close> of \<open>cpp/key_value_context.cc\<close> run by all members of a context: each of
  them gathers every member's color and key, so members of one color make the same subgroup,
  in the same order and under the same prefix, in every interleaving.
\<close>

section \<open>Decoding the gathered pairs\<close>

lemma take_drop_concat:
  assumes "\<forall>b\<in>set bs. length b = k" and "j < length bs" and "a + m \<le> k"
  shows "take m (drop (j * k + a) (concat bs)) = take m (drop a (bs ! j))"
  using assms
proof (induction bs arbitrary: j)
  case (Cons b bs)
  show ?case
  proof (cases j)
    case 0
    with Cons.prems show ?thesis by simp
  next
    case (Suc j')
    have "drop (j * k + a) (concat (b # bs)) = drop (j' * k + a) (concat bs)"
      using Cons.prems(1) Suc by (simp add: algebra_simps)
    with Cons Suc show ?thesis by simp
  qed
qed simp

lemma int_at_pairs:
  assumes "length bs = n" and "\<forall>j<n. bs ! j = int_bytes (col j) @ int_bytes (key j)"
    and "j < n" and "is_int32 (col j)" and "is_int32 (key j)"
  shows "int_at (concat bs) (2 * j) = col j" and "int_at (concat bs) (2 * j + 1) = key j"
proof -
  have len: "\<forall>b\<in>set bs. length b = 8"
    using assms(1,2) by (auto simp: in_set_conv_nth)
  have "take 4 (drop (j * 8 + 0) (concat bs)) = take 4 (drop 0 (bs ! j))"
    using assms(1,3) len by (intro take_drop_concat) auto
  then show "int_at (concat bs) (2 * j) = col j"
    using assms(2-) by (simp add: int_at_def bytes_int_int_bytes mult.commute)
  have "take 4 (drop (j * 8 + 4) (concat bs)) = take 4 (drop 4 (bs ! j))"
    using assms(1,3) len by (intro take_drop_concat) auto
  then show "int_at (concat bs) (2 * j + 1) = key j"
    using assms(2-) by (simp add: int_at_def bytes_int_int_bytes algebra_simps)
qed

text \<open>The order of \<open>std::stable_sort\<close>.\<close>

definition split_order :: "(nat \<Rightarrow> int) \<Rightarrow> nat \<Rightarrow> nat \<Rightarrow> bool" where
  "split_order key a b \<longleftrightarrow> key a < key b \<or> key a = key b \<and> a < b"

lemma insort_key_order:
  assumes "sorted_wrt (split_order f) ys" and "\<forall>y\<in>set ys. x < y"
  shows "sorted_wrt (split_order f) (insort_key f x ys)"
  using assms
proof (induction ys)
  case (Cons y ys)
  show ?case
  proof (cases "f x \<le> f y")
    case True
    with Cons.prems have "split_order f x z" if "z \<in> set (y # ys)" for z
      using that by (force simp: split_order_def)
    with True Cons.prems show ?thesis by simp
  next
    case False
    with Cons show ?thesis
      by (auto simp: set_insort_key split_order_def)
  qed
qed simp

lemma sort_key_order:
  "sorted_wrt (<) (xs :: nat list) \<Longrightarrow> sorted_wrt (split_order f) (sort_key f xs)"
  by (induction xs) (auto intro: insort_key_order)

lemma insort_key_map_int:
  "insort_key (\<lambda>r. f (nat r)) (int x) (map int ys) = map int (insort_key f x ys)"
  by (induction ys) auto

lemma sort_key_map_int: "sort_key (\<lambda>r. f (nat r)) (map int xs) = map int (sort_key f xs)"
  by (induction xs) (auto simp: insort_key_map_int)

lemma filter_map_int:
  "filter (\<lambda>r. p (nat r)) (map int xs) = map int (filter p xs)"
  by (induction xs) auto

lemma sort_key_cong: "(\<And>x. x \<in> set xs \<Longrightarrow> f x = g x) \<Longrightarrow> sort_key f xs = sort_key g xs"
proof (induction xs)
  case (Cons x xs)
  have "insort_key f x ys = insort_key g x ys" if "set ys \<subseteq> set xs" for ys
    using that Cons.prems by (induction ys) auto
  with Cons show ?case by simp
qed simp

lemma split_ranks_pairs:
  assumes "length bs = n" and "\<forall>j<n. bs ! j = int_bytes (col j) @ int_bytes (key j)"
    and "\<forall>j<n. is_int32 (col j) \<and> is_int32 (key j)"
  shows "split_ranks (concat bs) n c =
    map int (sort_key key (filter (\<lambda>j. col j = c) [0..<n]))"
proof -
  have "split_ranks (concat bs) n c =
      map int (sort_key (\<lambda>j. int_at (concat bs) (2 * j + 1))
        (filter (\<lambda>j. int_at (concat bs) (2 * j) = c) [0..<n]))"
    unfolding split_ranks_def filter_map_int [where p = "\<lambda>j. int_at (concat bs) (2 * j) = c"]
    by (rule sort_key_map_int)
  also have "filter (\<lambda>j. int_at (concat bs) (2 * j) = c) [0..<n] = filter (\<lambda>j. col j = c) [0..<n]"
    using int_at_pairs(1) [OF assms(1,2)] assms(3) by (intro filter_cong) auto
  also have "sort_key (\<lambda>j. int_at (concat bs) (2 * j + 1)) (filter (\<lambda>j. col j = c) [0..<n]) =
      sort_key key (filter (\<lambda>j. col j = c) [0..<n])"
    using int_at_pairs(2) [OF assms(1,2)] assms(3) by (intro sort_key_cong) auto
  finally show ?thesis .
qed

section \<open>All members split\<close>

definition split_members :: "(nat \<Rightarrow> int) \<Rightarrow> (nat \<Rightarrow> int) \<Rightarrow> nat \<Rightarrow> int \<Rightarrow> nat list" where
  "split_members col key n c = sort_key key (filter (\<lambda>j. col j = c) [0..<n])"

definition split_script :: "nat \<Rightarrow> (nat \<Rightarrow> int) \<Rightarrow> (nat \<Rightarrow> int) \<Rightarrow> nat \<Rightarrow> cmd list" where
  "split_script n col key i =
     [CGather (int_bytes (col i) @ int_bytes (key i)) (replicate (8 * n) (char_of (0 :: nat)))]"

lemma split_members_set: "set (split_members col key n c) = {j. j < n \<and> col j = c}"
  by (auto simp: split_members_def)

lemma split_members_sorted: "sorted_wrt (split_order key) (split_members col key n c)"
  unfolding split_members_def by (intro sort_key_order sorted_wrt_filter) simp

lemma split_call:
  assumes c: "fresh pre n i c" and at: "ctx_at N segs c"
    and int: "\<forall>j<n. is_int32 (col j) \<and> is_int32 (key j)"
  shows "op_spec (script_inv pre (split_script n col key) n) (split_ctx u (col i) (key i)) c
    (\<lambda>r c'. if col i = u then r = None
       else let rs = map int (split_members col key n (col i)) in
         case r of
           None \<Rightarrow> ctx_global c \<notin> set (map (\<lambda>r. ctx_members c ! nat r) rs)
         | Some d \<Rightarrow> ctx_at N (segs @ [SGroup rs 0]) d) (\<lambda>_. True)"
proof -
  let ?P = "script_inv pre (split_script n col key) n"
  let ?b = "int_bytes (col i) @ int_bytes (key i)"
  let ?rb = "replicate (8 * n) (char_of (0 :: nat))"
  let ?rs = "map int (split_members col key n (col i))"
  let ?Q = "\<lambda>r c'. if col i = u then r = None
       else let rs = map int (split_members col key n (col i)) in
         case r of
           None \<Rightarrow> ctx_global c \<notin> set (map (\<lambda>r. ctx_members c ! nat r) rs)
         | Some d \<Rightarrow> ctx_at N (segs @ [SGroup rs 0]) d"
  have same: "op_spec ?P (all_gather ?b ?rb) c (\<lambda>v c'. split_ranks v n (col i) = ?rs \<and>
      same_ctx c c' \<and> ctx_sequences c' (group_name ?rs) = 0) (\<lambda>_. True)"
    (is "op_spec _ _ _ ?R _")
  proof -
    have g: "op_spec ?P (all_gather ?b ?rb) c
        (\<lambda>v c'. (\<exists>bs. gathered (split_script n col key) n (length (collectives [])) (length ?b) bs \<and>
          v = concat bs) \<and> ctx_after pre n i ([] @ [CGather ?b ?rb]) c') (\<lambda>_. True)"
      by (rule gather_call [OF fresh_after [OF c]]) (simp_all add: split_script_def)
    have l: "same_ctx c c'" if "runs ?P (all_gather ?b ?rb c) (Inr v, c')" for v c'
    proof -
      have "runs (\<lambda>_ _. True) p a" if "runs ?P p a" for p :: "(bytes res \<times> kvctx) prog" and a
        using that by induction (auto intro: runs_Put runs_Get)
      with that local_all_gather [of ?b ?rb c] show ?thesis unfolding local_op_def by blast
    qed
    have "?R v c'" if r: "runs ?P (all_gather ?b ?rb c) (Inr v, c')" for v c'
    proof -
      from op_spec_result [OF g r] obtain bs where bs: "length bs = n" "v = concat bs"
          "\<forall>j<n. bs ! j = int_bytes (col j) @ int_bytes (key j)"
        and c': "ctx_after pre n i [CGather ?b ?rb] c'"
        by (auto simp: gathered_def split_script_def)
      from split_ranks_pairs [OF bs(1,3) int] bs(2) c' l [OF r] show ?thesis
        by (simp add: split_members_def ctx_after_def)
    qed
    with op_spec_guar [OF g] show ?thesis
      by (auto simp: op_spec_def split: sum.splits)
  qed
  show ?thesis
  proof (rule op_spec_cong [where m' = "op_bind (all_gather ?b ?rb) (\<lambda>values.
       if col i = u then op_return None else create_sub_context (split_ranks values n (col i)))"])
    show "split_ctx u (col i) (key i) c = op_bind (all_gather ?b ?rb) (\<lambda>values.
       if col i = u then op_return None else create_sub_context (split_ranks values n (col i))) c"
    proof -
      have n: "length (ctx_members c) = n" using c by (simp add: fresh_def)
      show ?thesis unfolding split_ctx_def n ..
    qed
    show "op_spec ?P (op_bind (all_gather ?b ?rb) (\<lambda>values. if col i = u then op_return None
         else create_sub_context (split_ranks values n (col i)))) c ?Q (\<lambda>_. True)"
    proof (rule op_spec_bind [OF same])
      fix v c'
      assume r: "?R v c'"
      then have eqs: "ctx_global c' = ctx_global c" "ctx_members c' = ctx_members c"
        by (simp_all add: same_ctx_def)
      have at': "ctx_at N segs c'" using r ctx_at_same [OF at] by blast
      have "op_spec ?P (create_sub_context ?rs) c' ?Q (\<lambda>_. True)" if "col i \<noteq> u"
        by (rule op_spec_weaken [OF create_sub_context_spec [OF at']])
          (use that r eqs in \<open>auto simp: Let_def split: option.splits\<close>)
      with r show "op_spec ?P (if col i = u then op_return None
          else create_sub_context (split_ranks v n (col i))) c' ?Q (\<lambda>_. True)"
        by (auto intro: op_spec_return)
    qed
  qed
qed

section \<open>Properties\<close>

text \<open>What a member gets from the group's split.\<close>

lemma split_outcome:
  assumes "group_system pre n c st0 ps0" and "\<And>i. i < n \<Longrightarrow> world_ctx N (c i)"
    and "\<And>i. i < n \<Longrightarrow> ps0 i = split_ctx u (col i) (key i) (c i)"
    and "\<And>i. i < n \<Longrightarrow> is_int32 (col i) \<and> is_int32 (key i)"
    and "sys_step\<^sup>*\<^sup>* (st0, ps0) (st, ps)" and "i < n" and "ps i = Done (Inr r, c')"
    and rs: "rs = split_members col key n (col i)"
  shows "\<exists>segs. ctx_at N segs (c i) \<and> (if col i = u then r = None
    else case r of None \<Rightarrow> ctx_global (c i) \<notin> set (map (\<lambda>r. ctx_members (c i) ! nat r) (map int rs))
      | Some d \<Rightarrow> ctx_at N (segs @ [SGroup (map int rs) 0]) d)"
proof -
  have fresh: "fresh pre n j (c j)" if "j < n" for j
    using assms(1) that by (simp add: group_system_def)
  have spec: "\<exists>segs. ctx_at N segs (c j) \<and> op_spec (script_inv pre (split_script n col key) n)
      (split_ctx u (col j) (key j)) (c j)
    (\<lambda>r c'. if col j = u then r = None
       else let rs = map int (split_members col key n (col j)) in
         case r of
           None \<Rightarrow> ctx_global (c j) \<notin> set (map (\<lambda>r. ctx_members (c j) ! nat r) rs)
         | Some d \<Rightarrow> ctx_at N (segs @ [SGroup rs 0]) d) (\<lambda>_. True)" if "j < n" for j
    using world_ctx_at [OF assms(2) [OF that]] split_call [OF fresh [OF that]] assms(4) by blast
  have "runs (script_inv pre (split_script n col key) n) (ps0 i) (Inr r, c')"
  proof (rule group_system_result [OF assms(1) _ assms(5,7)])
    show "guar (script_inv pre (split_script n col key) n) (ps0 j)" if "j < n" for j
      using spec [OF that] op_spec_guar by (auto simp: assms(3) [OF that])
  qed
  with spec [OF assms(6)] assms(3) [OF assms(6)] show ?thesis unfolding rs by (fastforce dest: op_spec_result simp: Let_def)
qed

text \<open>
  C10: When all members of a context split it, in any interleaving, a member gets no new
  context exactly if its color is the undefined one. Otherwise the ranks of its new context
  are those of its color, ordered by key and then by old rank, and the prefix is a function
  of these ranks, so all members of the color make the same context.
\<close>

theorem split_partition:
  assumes "group_system pre n c st0 ps0" and "\<And>i. i < n \<Longrightarrow> world_ctx N (c i)"
    and "\<And>i. i < n \<Longrightarrow> ps0 i = split_ctx u (col i) (key i) (c i)"
    and "\<And>i. i < n \<Longrightarrow> is_int32 (col i) \<and> is_int32 (key i)"
    and "sys_step\<^sup>*\<^sup>* (st0, ps0) (st, ps)" and "i < n" and "ps i = Done (Inr r, c')"
  shows "(r = None \<longleftrightarrow> col i = u) \<and>
    (\<exists>ranks. set ranks = {j. j < n \<and> col j = col i} \<and> sorted_wrt (split_order key) ranks \<and>
       (\<forall>d. r = Some d \<longrightarrow> ctx_members d = map ((!) (ctx_members (c i))) ranks \<and>
          ctx_prefix d = pre @ ''/'' @ group_name (map int ranks) @ ''/'' @ show_nat 0))"
proof -
  let ?rs = "split_members col key n (col i)"
  obtain segs where at: "ctx_at N segs (c i)" and r: "if col i = u then r = None
    else case r of None \<Rightarrow> ctx_global (c i) \<notin> set (map (\<lambda>r. ctx_members (c i) ! nat r) (map int ?rs))
      | Some d \<Rightarrow> ctx_at N (segs @ [SGroup (map int ?rs) 0]) d"
    using split_outcome [OF assms refl] by blast
  have fresh: "fresh pre n i (c i)" using assms(1,6) by (simp add: group_system_def)
  have "ctx_members (c i) ! i = ctx_global (c i)"
    using at fresh nth_pos_of [of "ctx_global (c i)" "ctx_members (c i)"]
    by (auto simp: ctx_at_def fresh_def)
  then have "ctx_global (c i) \<in> set (map ((!) (ctx_members (c i))) ?rs)"
    using assms(6) by (auto simp: split_members_set intro: image_eqI [of _ _ i])
  then have none: "r = None \<longleftrightarrow> col i = u"
    using r by (cases r) (auto simp: Let_def image_image comp_def split: if_splits)
  have pre: "prefix_of segs = pre"
    using at fresh by (auto simp: ctx_at_def fresh_def)
  have "ctx_members d = map ((!) (ctx_members (c i))) ?rs \<and>
      ctx_prefix d = pre @ ''/'' @ group_name (map int ?rs) @ ''/'' @ show_nat 0"
    if d: "r = Some d" for d
  proof -
    from d r none have "ctx_at N (segs @ [SGroup (map int ?rs) 0]) d"
      by (auto simp: Let_def split: if_splits)
    moreover have "path (seg_tokens (SGroup (map int ?rs) 0)) =
        group_name (map int ?rs) @ ''/'' @ show_nat 0"
      using path_snoc [of "''group'' # map show_int (map int ?rs)" "show_nat 0"]
      by (simp add: group_name.simps)
    ultimately show ?thesis
      using at pre by (auto simp: ctx_at_def prefix_of_snoc)
  qed
  then show ?thesis
    using none split_members_set split_members_sorted by blast
qed

text \<open>Two processes of different colors, of which the first has run to its end.\<close>

lemma split_partition_witness:
  "\<exists>ranks. set ranks = {j. j < 1 \<and> (0 :: int) = 0} \<and> sorted_wrt (split_order (\<lambda>_. 5)) ranks"
proof -
  define c where "c = \<lparr>ctx_members = [0], ctx_global = 0, ctx_rank = 0,
     ctx_prefix = ''libtt/control'', ctx_sequences = (\<lambda>_. 0)\<rparr>"
  have world: "world_ctx 1 c"
    by (rule world_ctx.world [of 0])
      (simp add: make_key_value_context_def make_context_def c_def pos_of_def)
  define ps0 where "ps0 i = (if i = 0 then split_ctx (-1) 0 5 c else Done (Inr None, c))" for i :: nat
  have sys: "group_system ''libtt/control'' 1 (\<lambda>_. c) Map.empty ps0"
    by (auto simp: group_system_def fresh_def c_def ps0_def)
  let ?b = "int_bytes 0 @ int_bytes 5"
  have "split_ranks (concat [?b]) 1 0 = map int (sort_key (\<lambda>_. 5) (filter (\<lambda>_. True) [0..<1]))"
    using split_ranks_pairs [of "[?b]" 1 "\<lambda>_. 0" "\<lambda>_. 5" 0] by (simp add: is_int32_def)
  then have ranks: "split_ranks ?b (Suc 0) 0 = [0]" by simp
  have "create_sub_context [0] c = Done (Inr (Some (c\<lparr>ctx_prefix := ''libtt/control/group/0/0''\<rparr>)),
      bump ''group/0'' c)"
    by (simp add: create_sub_context_def op_defs validate_rank_def c_def ctx_size_def next_key_def
        make_context_def pos_of_def bump_def show_int_def show_nat.simps char_of_def bit_iff_odd)
  then have fin: "ps0 0 = Done (Inr (Some (c\<lparr>ctx_prefix := ''libtt/control/group/0/0''\<rparr>)),
      bump ''group/0'' c)"
    using ranks by (simp add: ps0_def split_ctx_def all_gather_def op_defs c_def)
  from split_partition [OF sys world _ _ rtranclp.rtrancl_refl _ fin, where col = "\<lambda>_. 0" and key = "\<lambda>_. 5"
      and u = "-1"]
  show ?thesis
    by (auto simp: ps0_def is_int32_def)
qed

end
