(* ===== verification/Sessions.thy ===== *)
theory Sessions
  imports Effects
begin

text \<open>
  Progress of programs over a shared store: a program that follows a fixed list of calls,
  the locale \<open>session\<close> of a family of such lists in which every awaited key is put by
  somebody before (by a clock the client provides), and the theorem that such a system runs to
  its end. The last part shows that a program that has moved never is where it was.
\<close>

section \<open>Programs that follow a list of calls\<close>

datatype call = CPut string | CGet string

fun follows :: "(string \<Rightarrow> bytes \<Rightarrow> bool) \<Rightarrow> call list \<Rightarrow> 'a prog \<Rightarrow> ('a \<Rightarrow> bool) \<Rightarrow> bool" where
  "follows P [] p Q = (\<exists>a. p = Done a \<and> Q a)"
| "follows P (CPut k # cs) p Q = (\<exists>v f. p = Put k v f \<and> P k v \<and> follows P cs (f (Inr ())) Q)"
| "follows P (CGet k # cs) p Q = (\<exists>f. p = Get k f \<and> (\<forall>v. P k v \<longrightarrow> follows P cs (f (Inr v)) Q))"

lemma follows_bind:
  "follows P xs p R \<Longrightarrow> (\<And>a. R a \<Longrightarrow> follows P ys (h a) Q) \<Longrightarrow> follows P (xs @ ys) (prog_bind p h) Q"
proof (induction P xs p R rule: follows.induct)
  case (1 P p R)
  then show ?case by auto
next
  case (2 P k cs p R)
  then show ?case by auto
next
  case (3 P k cs p R)
  then show ?case by fastforce
qed

lemma follows_weaken: "follows P xs p R \<Longrightarrow> (\<And>a. R a \<Longrightarrow> Q a) \<Longrightarrow> follows P xs p Q"
proof (induction P xs p R rule: follows.induct)
  case (3 P k cs p R)
  then show ?case by fastforce
qed auto

lemma follows_step:
  assumes "follows P cs p Q" and "good_step st p st' p'" and "store_ok P st"
  shows "\<exists>x cs'. cs = x # cs' \<and> follows P cs' p' Q \<and> store_ok P st' \<and>
    (\<forall>k. st k \<noteq> None \<longrightarrow> st' k \<noteq> None) \<and> (\<forall>k. x = CPut k \<longrightarrow> st' k \<noteq> None)"
proof (cases cs)
  case Nil
  with assms show ?thesis by auto
next
  case (Cons x cs')
  with assms show ?thesis
    by (cases x) (auto simp: store_ok_def split: if_splits)
qed

lemma follows_enabled:
  assumes "follows P (x # cs) p Q" and "\<And>k. x = CGet k \<Longrightarrow> st k \<noteq> None"
  shows "\<exists>st' p'. good_step st p st' p'"
  using assms by (cases x) (auto simp: good_step.simps)

section \<open>Sessions\<close>

locale session =
  fixes n :: nat and calls :: "nat \<Rightarrow> call list" and clock :: "nat \<Rightarrow> nat \<Rightarrow> nat"
  assumes clock_mono: "\<lbrakk>i < n; p \<le> q; q < length (calls i)\<rbrakk> \<Longrightarrow> clock i p \<le> clock i q"
    and put_first: "\<lbrakk>i < n; p < length (calls i); calls i ! p = CGet k\<rbrakk> \<Longrightarrow>
      \<exists>j q. j < n \<and> q < length (calls j) \<and> calls j ! q = CPut k \<and> clock j q < clock i p"
begin

text \<open>Where every member is, and what that says of the store.\<close>

definition at ::
  "(string \<Rightarrow> bytes \<Rightarrow> bool) \<Rightarrow> (nat \<Rightarrow> 'a \<Rightarrow> bool) \<Rightarrow> (nat \<Rightarrow> nat) \<Rightarrow> 'a system \<Rightarrow> bool"
where
  "at P Q pos s \<longleftrightarrow> store_ok P (fst s) \<and> (\<forall>i\<ge>n. \<exists>a. snd s i = Done a) \<and>
     (\<forall>i<n. pos i \<le> length (calls i) \<and> follows P (drop (pos i) (calls i)) (snd s i) (Q i) \<and>
       (\<forall>q<pos i. \<forall>k. calls i ! q = CPut k \<longrightarrow> fst s k \<noteq> None))"

lemma at_step:
  assumes "at P Q pos (st, ps)" and "sys_good (st, ps) (st', ps')"
  shows "\<exists>i<n. pos i < length (calls i) \<and> at P Q (pos(i := Suc (pos i))) (st', ps')"
proof -
  from assms(2) obtain i p' where p: "good_step st (ps i) st' p'" and ps': "ps' = ps(i := p')"
    by (auto elim: sys_goodE)
  have i: "i < n"
  proof (rule ccontr)
    assume "\<not> i < n"
    with assms(1) obtain a where "ps i = Done a" by (auto simp: at_def not_less)
    with p show False by simp
  qed
  with assms(1) have "follows P (drop (pos i) (calls i)) (ps i) (Q i)" and "store_ok P st"
    by (auto simp: at_def)
  from follows_step [OF this(1) p this(2)] obtain x cs' where x: "drop (pos i) (calls i) = x # cs'"
    and f: "follows P cs' p' (Q i)" and st': "store_ok P st'"
    and keep: "\<And>k. st k \<noteq> None \<Longrightarrow> st' k \<noteq> None" and put: "\<And>k. x = CPut k \<Longrightarrow> st' k \<noteq> None"
    by blast
  have len: "pos i < length (calls i)"
    using x by (metis drop_all leI list.distinct(1))
  with x have hd: "calls i ! pos i = x" and tl: "drop (Suc (pos i)) (calls i) = cs'"
    by (simp_all add: Cons_nth_drop_Suc [symmetric])
  have "at P Q (pos(i := Suc (pos i))) (st', ps')"
    using assms(1) i len f st' keep put hd tl ps' by (auto simp: at_def less_Suc_eq)
  with i len show ?thesis by blast
qed

lemma at_steps:
  assumes "(sys_good ^^ k) s0 s" and "at P Q (\<lambda>_. 0) s0"
  shows "\<exists>pos. at P Q pos s \<and> k = (\<Sum>i<n. pos i)"
  using assms(1)
proof (induction k arbitrary: s)
  case 0
  with assms(2) show ?case by (intro exI [of _ "\<lambda>_. 0"]) auto
next
  case (Suc k)
  then obtain s1 where s1: "(sys_good ^^ k) s0 s1" and step: "sys_good s1 s"
    by (auto elim: relpowp_Suc_E)
  from Suc.IH [OF s1] obtain pos where pos: "at P Q pos s1" "k = (\<Sum>i<n. pos i)" by blast
  obtain st ps where s1p: "s1 = (st, ps)" by fastforce
  obtain st' ps' where sp: "s = (st', ps')" by fastforce
  from at_step [of P Q pos st ps st' ps'] pos(1) step s1p sp obtain i
    where i: "i < n" and at: "at P Q (pos(i := Suc (pos i))) s" by auto
  have "(\<Sum>j<n. (pos(i := Suc (pos i))) j) = Suc (\<Sum>j<n. pos j)"
    using i by (simp add: sum.remove [of _ i])
  with at pos(2) show ?case by metis
qed

text \<open>The unfinished member that is earliest by the clock can move.\<close>

lemma not_stuck:
  assumes at: "at P Q pos (st, ps)" and i: "i < n" "pos i < length (calls i)"
  shows "\<exists>s'. sys_good (st, ps) s'"
proof -
  let ?open = "{i. i < n \<and> pos i < length (calls i)}"
  obtain m where m: "m \<in> ?open" and least: "\<And>j. j \<in> ?open \<Longrightarrow> clock m (pos m) \<le> clock j (pos j)"
    using ex_has_least_nat [of "\<lambda>i. i \<in> ?open" i "\<lambda>i. clock i (pos i)"] i by auto
  let ?x = "calls m ! pos m"
  have "st k \<noteq> None" if k: "?x = CGet k" for k
  proof -
    from put_first [of m "pos m" k] m k obtain j q where j: "j < n" "q < length (calls j)"
        "calls j ! q = CPut k" "clock j q < clock m (pos m)" by auto
    have "q < pos j"
    proof (rule ccontr)
      assume q: "\<not> q < pos j"
      then have "clock j (pos j) \<le> clock j q" using j clock_mono by simp
      moreover have "clock m (pos m) \<le> clock j (pos j)" using j q least [of j] by simp
      ultimately show False using j(4) by simp
    qed
    with at j show ?thesis by (auto simp: at_def)
  qed
  moreover have "follows P (?x # drop (Suc (pos m)) (calls m)) (ps m) (Q m)"
    using at m by (simp add: at_def Cons_nth_drop_Suc)
  ultimately obtain st' p' where "good_step st (ps m) st' p'"
    using follows_enabled by blast
  then show ?thesis by (blast intro: sys_good)
qed

text \<open>At most as many steps as there are calls; a system that cannot move has finished.\<close>

theorem completes:
  assumes run: "(sys_good ^^ k) s0 (st, ps)" and start: "at P Q (\<lambda>_. 0) s0"
  shows "k \<le> (\<Sum>i<n. length (calls i))"
    and "(\<nexists>s'. sys_good (st, ps) s') \<Longrightarrow> i < n \<Longrightarrow> \<exists>a. ps i = Done a \<and> Q i a"
proof -
  from at_steps [OF run start] obtain pos where pos: "at P Q pos (st, ps)" "k = (\<Sum>i<n. pos i)"
    by blast
  then show "k \<le> (\<Sum>i<n. length (calls i))"
    by (auto simp: at_def intro: sum_mono)
  assume "\<nexists>s'. sys_good (st, ps) s'" and i: "i < n"
  with not_stuck [OF pos(1)] have "\<not> pos i < length (calls i)" by blast
  with pos(1) i show "\<exists>a. ps i = Done a \<and> Q i a" by (auto simp: at_def)
qed

end

section \<open>Programs only move forward\<close>

inductive sub_prog :: "'a prog \<Rightarrow> 'a prog \<Rightarrow> bool" where
  sub_Put: "sub_prog (f r) (Put k v f)"
| sub_Get: "sub_prog (f r) (Get k f)"

inductive_cases sub_prog_PutE: "sub_prog p (Put k v f)"
inductive_cases sub_prog_GetE: "sub_prog p (Get k f)"
inductive_cases sub_prog_DoneE: "sub_prog p (Done a)"

lemma sub_prog_accp: "Wellfounded.accp sub_prog p"
proof (induction p)
  case (Done a)
  then show ?case by (rule accpI) (auto elim: sub_prog_DoneE)
next
  case (Put k v f)
  show ?case by (rule accpI) (use Put in \<open>auto elim!: sub_prog_PutE\<close>)
next
  case (Get k f)
  show ?case by (rule accpI) (use Get in \<open>auto elim!: sub_prog_GetE\<close>)
qed

lemma not_sub_prog_self: "\<not> sub_prog\<^sup>+\<^sup>+ p p"
proof -
  have "Wellfounded.accp (sub_prog\<^sup>+\<^sup>+) p"
    by (rule accp_wfpD) (simp add: wfp_tranclp accp_wfpI sub_prog_accp)
  then show ?thesis by induction blast
qed

lemma prog_step_sub: "prog_step st p st' p' \<Longrightarrow> sub_prog p' p"
  by (induction rule: prog_step.induct) (auto intro: sub_prog.intros)

text \<open>
  A process that still is where it started has not moved, and the others did the same
  without it.
\<close>

lemma run_without:
  assumes "sys_step\<^sup>*\<^sup>* (st0, ps0) (st, ps)"
  shows "(ps j = ps0 j \<and> sys_step\<^sup>*\<^sup>* (st0, ps0(j := d)) (st, ps(j := d))) \<or>
    sub_prog\<^sup>+\<^sup>+ (ps j) (ps0 j)"
  using assms
proof (induction "(st, ps)" arbitrary: st ps rule: rtranclp_induct)
  case base
  then show ?case by simp
next
  case (step s)
  obtain st1 ps1 where s: "s = (st1, ps1)" by fastforce
  with step.hyps(2) obtain i p' where p: "prog_step st1 (ps1 i) st p'" and ps: "ps = ps1(i := p')"
    by (auto elim: sys_stepE)
  note IH = step.hyps(3) [OF s]
  show ?case
  proof (cases "i = j")
    case True
    with p ps have "sub_prog (ps j) (ps1 j)" by (auto dest: prog_step_sub)
    with IH show ?thesis by (metis tranclp.simps tranclp_into_tranclp2)
  next
    case False
    then have "sys_step (st1, ps1(j := d)) (st, (ps1(j := d))(i := p'))"
      using p by (intro sys_step) simp
    moreover have "(ps1(j := d))(i := p') = ps(j := d)"
      using False ps by (auto simp: fun_upd_twist)
    ultimately show ?thesis
      using IH False ps by (auto intro: rtranclp.rtrancl_into_rtrancl)
  qed
qed

lemma unmoved_run:
  assumes "sys_step\<^sup>*\<^sup>* (st0, ps0) (st, ps)" and "ps j = ps0 j"
  shows "sys_step\<^sup>*\<^sup>* (st0, ps0(j := d)) (st, ps(j := d))"
  using run_without [OF assms(1), of j d] not_sub_prog_self [of "ps0 j"] assms(2) by auto

end
