(* ===== verification/ContextProgress.thy ===== *)
theory ContextProgress
  imports ContextScripts Sessions
begin

text \<open>
  Liveness of the coordination context: collectives of all members and synchronous messages
  between two members cannot deadlock and take a bounded number of store calls, as instances
  of the locale \<open>session\<close>; and what a member may conclude when a barrier or a synchronous
  send returns.
\<close>

section \<open>Operations that follow a list of calls\<close>

definition op_follows ::
  "(string \<Rightarrow> bytes \<Rightarrow> bool) \<Rightarrow> call list \<Rightarrow> 'a op \<Rightarrow> kvctx \<Rightarrow> ('a \<Rightarrow> kvctx \<Rightarrow> bool) \<Rightarrow> bool" where
  "op_follows P cs m c Q \<longleftrightarrow> follows P cs (m c) (\<lambda>(r, c'). \<exists>a. r = Inr a \<and> Q a c')"

lemma op_follows_return: "Q a c \<Longrightarrow> op_follows P [] (op_return a) c Q"
  by (simp add: op_follows_def op_return_def)

lemma op_follows_bind:
  assumes "op_follows P xs m c R" and "\<And>a c'. R a c' \<Longrightarrow> op_follows P ys (f a) c' Q"
  shows "op_follows P (xs @ ys) (op_bind m f) c Q"
  using assms unfolding op_follows_def op_bind_def by (elim follows_bind) auto

lemma op_follows_silent:
  "op_follows P [] m c R \<Longrightarrow> (\<And>a c'. R a c' \<Longrightarrow> op_follows P ys (f a) c' Q) \<Longrightarrow>
     op_follows P ys (op_bind m f) c Q"
  using op_follows_bind [of P "[]" m c R ys f Q] by simp

lemma op_follows_put:
  "P k v \<Longrightarrow> op_follows P ys (f ()) c Q \<Longrightarrow> op_follows P (CPut k # ys) (op_bind (op_put k v) f) c Q"
  by (auto simp: op_follows_def op_bind_def op_put_def)

lemma op_follows_get:
  "(\<And>v. P k v \<Longrightarrow> op_follows P ys (f v) c Q) \<Longrightarrow>
     op_follows P (CGet k # ys) (op_bind (op_get k) f) c Q"
  by (auto simp: op_follows_def op_bind_def op_get_def)

lemma op_follows_check: "b \<Longrightarrow> Q () c \<Longrightarrow> op_follows P [] (check b e) c Q"
  by (simp add: check_def op_follows_return)

lemma op_follows_copy: "length v = n \<Longrightarrow> Q v c \<Longrightarrow> op_follows P [] (copy v n) c Q"
  by (simp add: op_follows_def copy_def check_def op_bind_def op_return_def)

lemma op_follows_next_collective:
  "Q (collective_name (ctx_prefix c) (ctx_sequences c ''collective'')) (bump ''collective'' c) \<Longrightarrow>
     op_follows P [] (next_key ''collective'') c Q"
  by (simp add: op_follows_def next_key_def bump_def collective_name_def)

lemma op_follows_message_key:
  assumes "0 \<le> s" "s < ctx_size c" "0 \<le> d" "d < ctx_size c"
    and "Q (key_of (ctx_prefix c) (KMessage s d t (ctx_sequences c
           (if w then send_slot s d t else recv_slot s d t))))
        (bump (if w then send_slot s d t else recv_slot s d t) c)"
  shows "op_follows P [] (message_key s d t w True) c Q"
  using assms
  by (cases w) (simp_all add: op_follows_def message_key_def op_bind_def validate_rank_def check_def op_return_def
      Let_def bump_def send_slot_def recv_slot_def)

lemma op_follows_cong: "m c = m' c \<Longrightarrow> op_follows P cs m' c Q \<Longrightarrow> op_follows P cs m c Q"
  by (simp add: op_follows_def)

lemma op_follows_map:
  "op_follows P cs m c (\<lambda>a c'. Q (g a) c') \<Longrightarrow> op_follows P cs (op_map g m) c Q"
  unfolding op_map_def
  using op_follows_bind [of P cs m c "\<lambda>a c'. Q (g a) c'" "[]" "\<lambda>a. op_return (g a)" Q]
  by (simp add: op_follows_return)

section \<open>Rounds of collectives\<close>

definition round_calls :: "string \<Rightarrow> nat \<Rightarrow> nat \<Rightarrow> nat \<Rightarrow> call list" where
  "round_calls pre n i q = CPut (key_of pre (KGather q (int i))) #
     map (\<lambda>j. CGet (key_of pre (KGather q (int j)))) [0..<n]"

definition gather_script ::
  "(nat \<Rightarrow> nat \<Rightarrow> bytes) \<Rightarrow> (nat \<Rightarrow> nat \<Rightarrow> bytes) \<Rightarrow> nat \<Rightarrow> nat \<Rightarrow> nat \<Rightarrow> cmd list" where
  "gather_script b rb q0 m i = map (\<lambda>q. CGather (b q i) (rb q i)) [q0..<q0 + m]"

lemma gather_loop_follows:
  assumes "\<And>j v. P (key_of pre (KGather q (int j))) v \<Longrightarrow> length v = k"
  shows "op_follows P (map (\<lambda>j. CGet (key_of pre (KGather q (int j)))) [i..<i + m])
    (gather_loop (all_gather_key (collective_name pre q)) k i m buf) c (\<lambda>_ c'. c' = c)"
proof (induction m arbitrary: i buf)
  case 0
  then show ?case by (simp add: op_follows_return)
next
  case (Suc m)
  have "[i..<i + Suc m] = i # [Suc i..<Suc i + m]" by (simp add: upt_conv_Cons)
  then show ?case
    using Suc.IH [of "Suc i"] assms
    by (auto intro!: op_follows_get
        op_follows_silent [OF op_follows_copy [where Q = "\<lambda>_ c'. c' = c"]] simp del: upt_Suc)
qed

definition collective_at :: "string \<Rightarrow> nat \<Rightarrow> nat \<Rightarrow> nat \<Rightarrow> kvctx \<Rightarrow> bool" where
  "collective_at pre n i q c \<longleftrightarrow> length (ctx_members c) = n \<and> ctx_rank c = int i \<and> ctx_prefix c = pre \<and>
     ctx_sequences c ''collective'' = q"

lemma all_gather_follows:
  assumes c: "collective_at pre n i q c" and n: "n \<noteq> 1" and rb: "length rb = n * length b"
    and P: "\<And>j v. P (key_of pre (KGather q (int j))) v \<Longrightarrow> length v = length b"
    and own: "P (key_of pre (KGather q (int i))) b"
  shows "op_follows P (round_calls pre n i q) (all_gather b rb) c
    (\<lambda>_ c'. collective_at pre n i (Suc q) c')"
proof (rule op_follows_cong [where m' = "op_bind (check (length rb = length b * n)
       ''Invalid all_gather receive buffer size'') (\<lambda>_.
         op_bind (next_key ''collective'') (\<lambda>k. let key = all_gather_key k in
         op_bind (op_put (key @ show_int (int i)) b) (\<lambda>_. gather_loop key (length b) 0 n rb)))"])
  show "all_gather b rb c = op_bind (check (length rb = length b * n)
       ''Invalid all_gather receive buffer size'') (\<lambda>_.
         op_bind (next_key ''collective'') (\<lambda>k. let key = all_gather_key k in
         op_bind (op_put (key @ show_int (int i)) b) (\<lambda>_. gather_loop key (length b) 0 n rb))) c"
    using c n by (simp add: all_gather_def collective_at_def)
  have loop: "op_follows P (round_calls pre n i q)
      (op_bind (op_put (all_gather_key (collective_name pre q) @ show_int (int i)) b)
        (\<lambda>_. gather_loop (all_gather_key (collective_name pre q)) (length b) 0 n rb)) c'
      (\<lambda>_ c'. collective_at pre n i (Suc q) c')" if "collective_at pre n i (Suc q) c'" for c'
    unfolding round_calls_def key_of_gather
  proof (rule op_follows_put)
    show "op_follows P (map (\<lambda>j. CGet (key_of pre (KGather q (int j)))) [0..<n])
        (gather_loop (all_gather_key (collective_name pre q)) (length b) 0 n rb) c'
        (\<lambda>_ c'. collective_at pre n i (Suc q) c')"
    proof -
      have "op_follows P (map (\<lambda>j. CGet (key_of pre (KGather q (int j)))) [0..<0 + n])
        (gather_loop (all_gather_key (collective_name pre q)) (length b) 0 n rb) c' (\<lambda>_ c2. c2 = c')"
        by (rule gather_loop_follows) (rule P)
      with that show ?thesis by (auto simp: op_follows_def elim!: follows_weaken)
    qed
  qed (rule own)
  show "op_follows P (round_calls pre n i q) (op_bind (check (length rb = length b * n)
       ''Invalid all_gather receive buffer size'') (\<lambda>_.
         op_bind (next_key ''collective'') (\<lambda>k. let key = all_gather_key k in
         op_bind (op_put (key @ show_int (int i)) b) (\<lambda>_. gather_loop key (length b) 0 n rb)))) c
     (\<lambda>_ c'. collective_at pre n i (Suc q) c')"
    by (rule op_follows_silent [OF op_follows_check [where Q = "\<lambda>_ c'. c' = c"]],
        simp add: rb mult.commute, simp,
        rule op_follows_silent [OF op_follows_next_collective
          [where Q = "\<lambda>k c'. k = collective_name pre q \<and> collective_at pre n i (Suc q) c'"]])
      (use c loop in \<open>auto simp: collective_at_def Let_def\<close>)
qed

lemma gather_script_follows:
  assumes n: "n \<noteq> 1"
    and rb: "\<And>q. q < m0 \<Longrightarrow> length (rb q i) = n * length (b q i)"
    and P: "\<And>q j v. q < m0 \<Longrightarrow> P (key_of pre (KGather q (int j))) v \<Longrightarrow> length v = length (b q i)"
    and own: "\<And>q. q < m0 \<Longrightarrow> P (key_of pre (KGather q (int i))) (b q i)"
  shows "collective_at pre n i q c \<Longrightarrow> q + m \<le> m0 \<Longrightarrow>
    op_follows P (concat (map (round_calls pre n i) [q..<q + m])) (script (gather_script b rb q m i)) c
      (\<lambda>_ _. True)"
proof (induction m arbitrary: q c)
  case 0
  then show ?case by (simp add: gather_script_def op_follows_return)
next
  case (Suc m)
  have upt: "[q..<q + Suc m] = q # [Suc q..<Suc q + m]" by (simp add: upt_conv_Cons)
  have "op_follows P (round_calls pre n i q) (exec (CGather (b q i) (rb q i))) c
      (\<lambda>_ c'. collective_at pre n i (Suc q) c')"
    unfolding exec.simps using Suc.prems rb P own n
    by (intro op_follows_map all_gather_follows) auto
  moreover have "op_follows P (concat (map (round_calls pre n i) [Suc q..<Suc q + m]))
      (op_map ((#) r) (script (gather_script b rb (Suc q) m i))) c' (\<lambda>_ _. True)"
    if "collective_at pre n i (Suc q) c'" for r c'
    using Suc.IH [OF that] Suc.prems by (intro op_follows_map) simp
  ultimately have "op_follows P (round_calls pre n i q @ concat (map (round_calls pre n i) [Suc q..<Suc q + m]))
      (script (CGather (b q i) (rb q i) # gather_script b rb (Suc q) m i)) c (\<lambda>_ _. True)"
    unfolding script.simps by (rule op_follows_bind)
  then show ?case
    unfolding upt gather_script_def by (simp del: upt_Suc)
qed

text \<open>The rounds as a session: the clock counts rounds, the put of a round before its gets.\<close>

definition rounds_calls :: "string \<Rightarrow> nat \<Rightarrow> nat \<Rightarrow> nat \<Rightarrow> call list" where
  "rounds_calls pre n m i = concat (map (round_calls pre n i) [0..<m])"

definition rounds_clock :: "nat \<Rightarrow> nat \<Rightarrow> nat \<Rightarrow> nat" where
  "rounds_clock n i p = 2 * (p div Suc n) + (if p mod Suc n = 0 then 0 else 1)"

lemma length_round_calls [simp]: "length (round_calls pre n i q) = Suc n"
  by (simp add: round_calls_def)

lemma length_rounds_calls [simp]: "length (rounds_calls pre n m i) = m * Suc n"
  by (induction m) (simp_all add: rounds_calls_def)

lemma rounds_calls_nth:
  "p < m * Suc n \<Longrightarrow> rounds_calls pre n m i ! p = round_calls pre n i (p div Suc n) ! (p mod Suc n)"
  unfolding rounds_calls_def by (rule nth_concat_blocks) simp_all

interpretation rounds: session n "rounds_calls pre n m" "rounds_clock n" for pre n m
proof
  fix i p q :: nat
  assume "p \<le> q"
  then have "p div Suc n \<le> q div Suc n" by (rule div_le_mono)
  moreover have "p mod Suc n \<le> q mod Suc n" if "p div Suc n = q div Suc n"
    using that \<open>p \<le> q\<close> by (metis add_le_cancel_left div_mult_mod_eq)
  ultimately show "rounds_clock n i p \<le> rounds_clock n i q"
    by (cases "p div Suc n = q div Suc n") (auto simp: rounds_clock_def)
next
  fix i p :: nat and k
  assume p: "p < length (rounds_calls pre n m i)" and k: "rounds_calls pre n m i ! p = CGet k"
  define r t where "r = p div Suc n" and "t = p mod Suc n"
  have eq: "p = r * Suc n + t" unfolding r_def t_def by (rule div_mult_mod_eq [symmetric])
  have t: "t < Suc n" by (simp add: t_def)
  from p have "r < m" by (simp add: r_def less_mult_imp_div_less)
  then have in_range: "r * Suc n < m * Suc n" by (rule mult_less_mono1) simp
  from k p have get: "round_calls pre n i r ! t = CGet k"
    by (simp add: rounds_calls_nth r_def t_def)
  then obtain j where j: "t = Suc j" by (cases t) (auto simp: round_calls_def)
  with get t have key: "k = key_of pre (KGather r (int j))" and "j < n"
    by (auto simp: round_calls_def)
  have "rounds_calls pre n m j ! (r * Suc n) = round_calls pre n j r ! 0"
    using in_range rounds_calls_nth [of "r * Suc n" m n pre j]
    by (simp del: mult_Suc_right)
  then have "rounds_calls pre n m j ! (r * Suc n) = CPut k"
    by (simp add: key round_calls_def)
  moreover have "rounds_clock n j (r * Suc n) < rounds_clock n i p"
  proof -
    have "rounds_clock n i p = 2 * r + 1"
      using j by (simp add: rounds_clock_def flip: r_def t_def)
    moreover have "rounds_clock n j (r * Suc n) = 2 * r"
      by (simp add: rounds_clock_def del: mult_Suc_right)
    ultimately show ?thesis by simp
  qed
  ultimately show "\<exists>j q. j < n \<and> q < length (rounds_calls pre n m j) \<and>
      rounds_calls pre n m j ! q = CPut k \<and> rounds_clock n j q < rounds_clock n i p"
    using \<open>j < n\<close> in_range by (intro exI [of _ j] exI [of _ "r * Suc n"]) (simp del: mult_Suc_right)
qed

lemma gather_script_nth:
  "q < m \<Longrightarrow> gather_script b rb 0 m i ! q = CGather (b q i) (rb q i)"
  "length (gather_script b rb 0 m i) = m"
  "collectives (gather_script b rb 0 m i) = gather_script b rb 0 m i"
  by (simp_all add: gather_script_def filter_map comp_def)

lemma gather_script_outcomes:
  assumes "outcomes_ok (gather_script b rb 0 m) n i [] (gather_script b rb 0 m i) rs"
  shows "rs = map (\<lambda>q. OBytes (concat (map (b q) [0..<n]))) [0..<m]"
proof (rule nth_equalityI)
  show "length rs = length (map (\<lambda>q. OBytes (concat (map (b q) [0..<n]))) [0..<m])"
    using assms by (simp add: outcomes_ok_def gather_script_nth)
next
  fix q
  let ?cs = "gather_script b rb 0 m"
  assume "q < length rs"
  with assms have q: "q < m" by (simp add: outcomes_ok_def gather_script_nth)
  with assms have "outcome_ok ?cs n i (take q (?cs i)) (?cs i ! q) (rs ! q)"
    by (simp add: outcomes_ok_def gather_script_nth)
  moreover have "length (collectives (take q (?cs i))) = q"
  proof -
    have "take q (?cs i) = gather_script b rb 0 q i"
      using q by (simp add: gather_script_def take_map)
    then show ?thesis by (simp only: gather_script_nth)
  qed
  ultimately obtain bs where bs: "gathered ?cs n q (length (b q i)) bs" "rs ! q = OBytes (concat bs)"
    using q by (auto simp: gather_script_nth)
  then have "bs = map (b q) [0..<n]"
    using q by (intro nth_equalityI) (auto simp: gathered_def gather_script_nth)
  with bs(2) q show "rs ! q = map (\<lambda>q. OBytes (concat (map (b q) [0..<n]))) [0..<m] ! q"
    by simp
qed

lemma sys_good_power_steps: "(sys_good ^^ k) s s' \<Longrightarrow> sys_step\<^sup>*\<^sup>* s s'"
  using sys_goods_sys_steps relpowp_imp_rtranclp by metis

lemma gather_start:
  assumes sys: "group_system pre n c st0 ps0" and n: "2 \<le> n"
    and ps0: "\<And>i. i < n \<Longrightarrow> ps0 i = script (gather_script b rb 0 m i) (c i)"
    and others: "\<And>i. n \<le> i \<Longrightarrow> \<exists>a. ps0 i = Done a"
    and rb: "\<And>q i. q < m \<Longrightarrow> i < n \<Longrightarrow> length (b q i) = len q \<and> length (rb q i) = n * len q"
  shows "rounds.at n pre m (script_inv pre (gather_script b rb 0 m) n)
    (\<lambda>i (r, c'). \<exists>a. r = Inr a) (\<lambda>_. 0) (st0, ps0)"
proof -
  let ?cs = "gather_script b rb 0 m" and ?P = "script_inv pre (gather_script b rb 0 m) n"
  have "follows ?P (rounds_calls pre n m i) (ps0 i) (\<lambda>(r, c'). \<exists>a. r = Inr a)" if i: "i < n" for i
  proof -
    have c: "collective_at pre n i 0 (c i)"
      using sys i by (simp add: group_system_def fresh_def collective_at_def)
    have "op_follows ?P (concat (map (round_calls pre n i) [0..<0 + m])) (script (?cs i)) (c i)
        (\<lambda>_ _. True)"
    proof (rule gather_script_follows [OF _ _ _ _ c])
      fix q j v
      assume "q < m" "?P (key_of pre (KGather q (int j))) v"
      then show "length v = length (b q i)"
        using rb i by (auto simp: gather_script_nth)
    qed (use rb i n in \<open>auto simp: gather_script_nth\<close>)
    with ps0 [OF i] show ?thesis by (simp add: op_follows_def rounds_calls_def)
  qed
  moreover have "store_ok ?P st0"
    using sys by (intro ctx_keys.store_ok_key_inv) (auto simp: group_system_def)
  ultimately show ?thesis
    using others by (simp add: rounds.at_def)
qed

section \<open>Properties of collectives\<close>

text \<open>
  C2: When all members of a context make the same number of gathers with matching sizes, no
  interleaving deadlocks or runs on: after at most \<open>n * m * (n + 1)\<close> calls to the store the
  system cannot move, and then every member has returned from every gather, with the
  buffers of all members in rank order.
\<close>

theorem collectives_complete:
  assumes "group_system pre n c st0 ps0" and "2 \<le> n"
    and "\<And>i. i < n \<Longrightarrow> ps0 i = script (gather_script b rb 0 m i) (c i)"
    and "\<And>i. n \<le> i \<Longrightarrow> \<exists>a. ps0 i = Done a"
    and "\<And>q i. q < m \<Longrightarrow> i < n \<Longrightarrow> length (b q i) = len q \<and> length (rb q i) = n * len q"
    and "(sys_good ^^ k) (st0, ps0) (st, ps)"
  shows "k \<le> n * (m * (n + 1)) \<and>
    ((\<nexists>s'. sys_good (st, ps) s') \<longrightarrow> (\<forall>i<n. \<exists>c'.
       ps i = Done (Inr (map (\<lambda>q. OBytes (concat (map (b q) [0..<n]))) [0..<m]), c')))"
proof (intro conjI impI allI)
  note start = gather_start [OF assms(1-5)]
  show "k \<le> n * (m * (n + 1))"
    using rounds.completes(1) [OF assms(6) start] by simp
  fix i
  assume stuck: "\<nexists>s'. sys_good (st, ps) s'" and i: "i < n"
  from rounds.completes(2) [OF assms(6) start stuck i] obtain rs c'
    where fin: "ps i = Done (Inr rs, c')" by auto
  from script_sound [OF assms(1,3) sys_good_power_steps [OF assms(6)] i fin]
  have "rs = map (\<lambda>q. OBytes (concat (map (b q) [0..<n]))) [0..<m]"
    by (rule gather_script_outcomes)
  with fin show "\<exists>c'. ps i = Done (Inr (map (\<lambda>q. OBytes (concat (map (b q) [0..<n]))) [0..<m]), c')"
    by blast
qed

text \<open>Three processes and two rounds: some run ends, and all have all buffers.\<close>

lemma bounded_run_ends:
  assumes "\<And>k s. (R ^^ k) s0 s \<Longrightarrow> k \<le> B"
  shows "\<exists>k s. (R ^^ k) s0 s \<and> (\<nexists>s'. R s s')"
proof (rule ccontr)
  assume no: "\<not> ?thesis"
  have "\<exists>s. (R ^^ k) s0 s" for k
  proof (induction k)
    case (Suc k)
    with no obtain s s' where "(R ^^ k) s0 s" "R s s'" by blast
    then show ?case by (auto intro: relpowp_Suc_I)
  qed auto
  from this [of "Suc B"] obtain s where "(R ^^ Suc B) s0 s" by blast
  from assms [OF this] show False by simp
qed

definition example3_ctx :: "nat \<Rightarrow> kvctx" where
  "example3_ctx i = \<lparr>ctx_members = [0, 1, 2], ctx_global = int i, ctx_rank = int i,
       ctx_prefix = ''libtt/control'', ctx_sequences = (\<lambda>_. 0)\<rparr>"

definition example3_start :: "nat \<Rightarrow> (outcome list res \<times> kvctx) prog" where
  "example3_start i = (if i < 3 then script
     (gather_script (\<lambda>q i. [char_of i]) (\<lambda>q i. replicate 3 (char_of (0 :: nat))) 0 2 i) (example3_ctx i)
     else Done (Inr [], example3_ctx 0))"

lemma collectives_complete_witness:
  "\<exists>k st ps. (sys_good ^^ k) (Map.empty, example3_start) (st, ps) \<and> (\<forall>i<3. \<exists>c'.
     ps i = Done (Inr (replicate 2 (OBytes (map char_of [0 :: nat, 1, 2]))), c'))"
proof -
  have all: "k \<le> 3 * (2 * (3 + 1)) \<and>
    ((\<nexists>s'. sys_good (st, ps) s') \<longrightarrow> (\<forall>i<3. \<exists>c'.
       ps i = Done (Inr (map (\<lambda>q. OBytes (concat (map (\<lambda>i. [char_of i]) [0..<3]))) [0..<2]), c')))"
    if "(sys_good ^^ k) (Map.empty, example3_start) (st, ps)" for k st ps
  proof (rule collectives_complete [where c = example3_ctx and pre = "''libtt/control''"
        and len = "\<lambda>_. 1" and rb = "\<lambda>q i. replicate 3 (char_of (0 :: nat))", OF _ _ _ _ _ that])
    show "group_system ''libtt/control'' 3 example3_ctx Map.empty example3_start"
      by (auto simp: group_system_def fresh_def example3_ctx_def example3_start_def)
  qed (auto simp: example3_start_def)
  then obtain k s where "(sys_good ^^ k) (Map.empty, example3_start) s" "\<nexists>s'. sys_good s s'"
    using bounded_run_ends [of sys_good "(Map.empty, example3_start)" "3 * (2 * (3 + 1))"]
    by (metis prod.exhaust)
  with all [of k "fst s" "snd s"] show ?thesis
    by (intro exI [of _ k] exI [of _ "fst s"] exI [of _ "snd s"])
      (simp add: upt_rec numeral_2_eq_2)
qed

end
