(* ===== verification/ContextSync.thy ===== *)
theory ContextSync
  imports ContextProgress
begin

text \<open>
  What a member knows when a call returns: a barrier returns to no member before every
  member has entered it, and a sequence of synchronous sends meets the receives one by one,
  without deadlock.
\<close>

section \<open>Barriers\<close>

lemma all_gather_waits:
  assumes c: "collective_at pre n i q c" and n: "n \<noteq> 1"
    and own: "P (key_of pre (KGather q (int i))) b"
  shows "op_spec P (all_gather b rb) c
    (\<lambda>v c'. \<forall>j<n. \<exists>w. P (key_of pre (KGather q (int j))) w) (\<lambda>_. True)"
    (is "op_spec _ _ _ ?Q _")
proof (rule op_spec_cong [where m' = "op_bind (check (length rb = length b * n)
       ''Invalid all_gather receive buffer size'') (\<lambda>_.
         op_bind (next_key ''collective'') (\<lambda>k. let key = all_gather_key k in
         op_bind (op_put (key @ show_int (int i)) b) (\<lambda>_. gather_loop key (length b) 0 n rb)))"])
  show "all_gather b rb c = op_bind (check (length rb = length b * n)
       ''Invalid all_gather receive buffer size'') (\<lambda>_.
         op_bind (next_key ''collective'') (\<lambda>k. let key = all_gather_key k in
         op_bind (op_put (key @ show_int (int i)) b) (\<lambda>_. gather_loop key (length b) 0 n rb))) c"
    using c n by (simp add: all_gather_def collective_at_def)
  have loop: "op_spec P (gather_loop (all_gather_key (collective_name pre q)) (length b) 0 n rb) c' ?Q
      (\<lambda>_. True)" if "length rb = length b * n" for c'
    by (rule op_spec_weaken [OF gather_loop_spec]) (use that in \<open>auto simp: mult.commute\<close>)
  have run: "op_spec P (op_bind (next_key ''collective'') (\<lambda>k. let key = all_gather_key k in
       op_bind (op_put (key @ show_int (int i)) b) (\<lambda>_. gather_loop key (length b) 0 n rb))) c
     ?Q (\<lambda>_. True)" if "length rb = length b * n"
  proof (rule op_spec_bind [where R = "\<lambda>k c'. k = collective_name pre q"])
    show "op_spec P (next_key ''collective'') c (\<lambda>k c'. k = collective_name pre q) (\<lambda>_. True)"
      by (rule op_spec_next_collective) (use c in \<open>simp add: collective_at_def\<close>)
    show "op_spec P (let key = all_gather_key k in
       op_bind (op_put (key @ show_int (int i)) b) (\<lambda>_. gather_loop key (length b) 0 n rb)) c' ?Q
       (\<lambda>_. True)" if "k = collective_name pre q" for k c'
      unfolding Let_def
      by (rule op_spec_bind [OF op_spec_op_put])
        (use that own loop \<open>length rb = length b * n\<close> in simp_all)
  qed
  show "op_spec P (op_bind (check (length rb = length b * n)
       ''Invalid all_gather receive buffer size'') (\<lambda>_.
         op_bind (next_key ''collective'') (\<lambda>k. let key = all_gather_key k in
         op_bind (op_put (key @ show_int (int i)) b) (\<lambda>_. gather_loop key (length b) 0 n rb)))) c
     ?Q (\<lambda>_. True)"
    by (rule op_spec_bind [OF op_spec_op_check]) (use run in auto)
qed

lemma barrier_waits:
  assumes c: "collective_at pre n i q c" and n: "n \<noteq> 1"
    and own: "\<And>b. P (key_of pre (KGather q (int i))) b"
  shows "op_spec P barrier c (\<lambda>v c'. \<forall>j<n. \<exists>w. P (key_of pre (KGather q (int j))) w) (\<lambda>_. True)"
proof (rule op_spec_cong [where m' = "op_bind (all_gather [char_of (1 :: nat)]
      (replicate (length (ctx_members c)) (char_of (0 :: nat)))) (\<lambda>_. op_return ())"])
  show "op_spec P (op_bind (all_gather [char_of (1 :: nat)]
      (replicate (length (ctx_members c)) (char_of (0 :: nat)))) (\<lambda>_. op_return ())) c
    (\<lambda>v c'. \<forall>j<n. \<exists>w. P (key_of pre (KGather q (int j))) w) (\<lambda>_. True)"
    by (rule op_spec_bind [OF all_gather_waits [where P = P and b = "[char_of (1 :: nat)]", OF c n own]])
      (rule op_spec_return)
qed (simp add: barrier_def)

lemma barrier_not_done:
  assumes "collective_at pre n i q c" and "n \<noteq> 1"
  shows "barrier c \<noteq> Done a"
  using assms by (auto simp: barrier_def all_gather_def collective_at_def op_defs next_key_def Let_def)

text \<open>
  C3: When the members of a context run a barrier (the same-numbered collective of each,
  the keys of which nobody has used), then in every interleaving, with any store calls
  failing, a member to which it returns has seen every member enter it: no member still is
  where it was before its first call.
\<close>

theorem barrier_synchronises:
  assumes "2 \<le> n" and "\<And>l. l < n \<Longrightarrow> collective_at pre n l q (c l)"
    and "\<And>l. l < n \<Longrightarrow> ps0 l = barrier (c l)"
    and "\<And>l k. n \<le> l \<Longrightarrow> touches (ps0 l) k \<Longrightarrow> \<not> below pre k"
    and "\<And>l. l < n \<Longrightarrow> st0 (key_of pre (KGather q (int l))) = None"
    and "sys_step\<^sup>*\<^sup>* (st0, ps0) (st, ps)" and "i < n" and "ps i = Done (Inr (), c')" and "j < n"
  shows "ps j \<noteq> ps0 j"
proof
  assume same: "ps j = ps0 j"
  let ?P = "ctx_keys.key_inv pre (\<lambda>k v. k \<noteq> KGather q (int j))"
  have ij: "i \<noteq> j"
    using same assms(1,2,3,7,8) barrier_not_done by (metis One_nat_def not_less_eq_eq numeral_2_eq_2 le_refl)
  define ps1 where "ps1 = ps0(j := Done (Inr (), c'))"
  have run: "sys_step\<^sup>*\<^sup>* (st0, ps1) (st, ps(j := Done (Inr (), c')))"
    unfolding ps1_def by (rule unmoved_run [OF assms(6) same])
  have spec: "op_spec ?P barrier (c l) (\<lambda>v c'. \<forall>j<n. \<exists>w. ?P (key_of pre (KGather q (int j))) w) (\<lambda>_. True)"
    if "l < n" "l \<noteq> j" for l
    by (rule barrier_waits [OF assms(2) [OF that(1)]]) (use assms(1) that in auto)
  have "runs ?P (ps1 i) (Inr (), c')"
  proof (rule rely_guarantee_result [OF run])
    show "store_ok ?P st0"
      using assms(5) [OF assms(9)] by (auto simp: store_ok_def ctx_keys.key_inv_def)
    show "guar ?P (ps1 l)" for l
    proof (cases "l < n")
      case True
      with spec [of l] assms(3) op_spec_guar show ?thesis by (cases "l = j") (auto simp: ps1_def)
    next
      case False
      with assms(4) [of l] assms(9) show ?thesis
        by (auto simp: ps1_def intro: touches_guar)
    qed
  qed (use ij assms(8) in simp)
  then have "runs ?P (barrier (c i)) (Inr (), c')"
    using ij assms(3) [OF assms(7)] by (simp add: ps1_def)
  with spec [OF assms(7) ij] assms(9) show False
    by (force dest: op_spec_result)
qed

text \<open>Two processes that have both returned from a barrier.\<close>

definition example_barrier :: "nat \<Rightarrow> (unit res \<times> kvctx) prog" where
  "example_barrier i = (if i < 2 then barrier (example_ctx i) else Done (Inr (), example_ctx 0))"

lemma barrier_follows:
  assumes c: "collective_at pre n i q c" and n: "n \<noteq> 1"
    and P: "\<And>j v. P (key_of pre (KGather q j)) v \<longleftrightarrow> length v = 1"
  shows "op_follows P (round_calls pre n i q) barrier c (\<lambda>_ _. True)"
proof -
  have "op_follows P (round_calls pre n i q @ []) (op_bind (all_gather [char_of (1 :: nat)]
      (replicate n (char_of (0 :: nat)))) (\<lambda>_. op_return ())) c (\<lambda>_ _. True)"
    by (rule op_follows_bind [OF all_gather_follows [where P = P and b = "[char_of (1 :: nat)]", OF c n]])
      (auto simp: P intro: op_follows_return)
  then show ?thesis
    using c by (simp add: op_follows_def barrier_def collective_at_def)
qed

lemma example_barrier_ends:
  "\<exists>k st ps c'. (sys_good ^^ k) (Map.empty, example_barrier) (st, ps) \<and> ps 1 = Done (Inr (), c')"
proof -
  let ?P = "ctx_keys.key_inv ''libtt/control'' (\<lambda>k v. length v = 1)"
  let ?Q = "\<lambda>i (r, c'). \<exists>a. r = Inr a"
  have at: "rounds.at 2 ''libtt/control'' 1 ?P ?Q (\<lambda>_. 0) (Map.empty, example_barrier)"
  proof -
    have "follows ?P (rounds_calls ''libtt/control'' 2 1 i) (example_barrier i) (?Q i)" if "i < 2" for i
    proof -
      have "op_follows ?P (round_calls ''libtt/control'' 2 i 0) barrier (example_ctx i) (\<lambda>_ _. True)"
        by (rule barrier_follows) (auto simp: collective_at_def example_ctx_def)
      with that show ?thesis by (simp add: op_follows_def rounds_calls_def example_barrier_def)
    qed
    then show ?thesis
      by (simp add: rounds.at_def store_ok_def example_barrier_def)
  qed
  have bd: "k \<le> (\<Sum>i<2. length (rounds_calls ''libtt/control'' 2 1 i))"
    if "(sys_good ^^ k) (Map.empty, example_barrier) s" for k s
    using rounds.completes(1) [where st = "fst s" and ps = "snd s", OF _ at] that by simp
  have "\<exists>k s. (sys_good ^^ k) (Map.empty, example_barrier) s \<and> (\<nexists>s'. sys_good s s')"
    by (rule bounded_run_ends) (rule bd)
  then obtain k s
    where "(sys_good ^^ k) (Map.empty, example_barrier) s" "\<nexists>s'. sys_good s s'" by blast
  moreover from this rounds.completes(2) [where st = "fst s" and ps = "snd s", OF _ at, of k 1]
  obtain a where "snd s 1 = Done a" "?Q 1 a" by auto
  ultimately show ?thesis
    by (intro exI [of _ k] exI [of _ "fst s"] exI [of _ "snd s"]) auto
qed

lemma barrier_synchronises_witness:
  "\<exists>st ps. sys_step\<^sup>*\<^sup>* (Map.empty, example_barrier) (st, ps) \<and> ps 0 \<noteq> example_barrier 0"
proof -
  from example_barrier_ends obtain k st ps c'
    where run: "(sys_good ^^ k) (Map.empty, example_barrier) (st, ps)"
      and fin: "ps 1 = Done (Inr (), c')" by blast
  have "ps 0 \<noteq> example_barrier 0"
    by (rule barrier_synchronises [where q = 0 and pre = "''libtt/control''" and c = example_ctx,
          OF _ _ _ _ _ sys_good_power_steps [OF run] _ fin])
      (auto simp: collective_at_def example_ctx_def example_barrier_def)
  with sys_good_power_steps [OF run] show ?thesis by blast
qed

section \<open>Synchronous messages\<close>

definition sync_send_calls :: "string \<Rightarrow> int \<Rightarrow> int \<Rightarrow> int \<Rightarrow> nat \<Rightarrow> call list" where
  "sync_send_calls pre s d t q =
     [CPut (key_of pre (KMessage s d t q)), CGet (key_of pre (KAck s d t q))]"

definition sync_recv_calls :: "string \<Rightarrow> int \<Rightarrow> int \<Rightarrow> int \<Rightarrow> nat \<Rightarrow> call list" where
  "sync_recv_calls pre s d t q =
     [CGet (key_of pre (KMessage s d t q)), CPut (key_of pre (KAck s d t q))]"

lemma ssend_follows:
  assumes c: "ctx_after pre n i us c" and d: "0 \<le> d" "d < int n"
    and P: "P (key_of pre (KMessage (int i) d t (length (sends_to d t us)))) b"
  shows "op_follows P (sync_send_calls pre (int i) d t (length (sends_to d t us))) (ssend b d t) c
    (\<lambda>_ c'. ctx_after pre n i (us @ [CSsend b d t]) c')"
proof (rule op_follows_cong [where m' = "op_bind (message_key (int i) d t True True) (\<lambda>key.
     op_bind (op_put key b) (\<lambda>_. op_bind (op_get (key @ ''/ack'')) (\<lambda>_. op_return ())))"])
  show "ssend b d t c = op_bind (message_key (int i) d t True True) (\<lambda>key.
     op_bind (op_put key b) (\<lambda>_. op_bind (op_get (key @ ''/ack'')) (\<lambda>_. op_return ()))) c"
    using c by (simp add: ssend_def ctx_after_def)
  have key: "op_follows P [] (message_key (int i) d t True True) c (\<lambda>k c'.
      k = key_of pre (KMessage (int i) d t (length (sends_to d t us))) \<and>
      ctx_after pre n i (us @ [CSsend b d t]) c')"
    by (rule op_follows_message_key)
      (use d in \<open>auto simp: ctx_after_simps [OF c] intro: ctx_after_send [OF c]\<close>)
  show "op_follows P (sync_send_calls pre (int i) d t (length (sends_to d t us)))
     (op_bind (message_key (int i) d t True True) (\<lambda>key.
     op_bind (op_put key b) (\<lambda>_. op_bind (op_get (key @ ''/ack'')) (\<lambda>_. op_return ())))) c
    (\<lambda>_ c'. ctx_after pre n i (us @ [CSsend b d t]) c')"
    by (rule op_follows_silent [OF key])
      (auto simp: sync_send_calls_def P intro!: op_follows_put op_follows_get op_follows_return)
qed

lemma recv_follows:
  assumes c: "ctx_after pre n i us c" and s: "0 \<le> s" "s < int n"
    and P: "\<And>v. P (key_of pre (KMessage s (int i) t (recvs_from s t us))) v \<Longrightarrow> length v = len"
    and ack: "P (key_of pre (KAck s (int i) t (recvs_from s t us))) ''1''"
  shows "op_follows P (sync_recv_calls pre s (int i) t (recvs_from s t us)) (recv len s t) c
    (\<lambda>_ c'. ctx_after pre n i (us @ [CRecv len s t]) c')"
proof (rule op_follows_cong [where m' = "op_bind (message_key s (int i) t False True) (\<lambda>key.
     op_bind (op_get key) (\<lambda>v. op_bind (copy v len) (\<lambda>b.
     op_bind (op_put (key @ ''/ack'') ''1'') (\<lambda>_. op_return b))))"])
  show "recv len s t c = op_bind (message_key s (int i) t False True) (\<lambda>key.
     op_bind (op_get key) (\<lambda>v. op_bind (copy v len) (\<lambda>b.
     op_bind (op_put (key @ ''/ack'') ''1'') (\<lambda>_. op_return b)))) c"
    using c by (simp add: recv_def ctx_after_def)
  have key: "op_follows P [] (message_key s (int i) t False True) c (\<lambda>k c'.
      k = key_of pre (KMessage s (int i) t (recvs_from s t us)) \<and>
      ctx_after pre n i (us @ [CRecv len s t]) c')"
    by (rule op_follows_message_key)
      (use s in \<open>auto simp: ctx_after_simps [OF c] intro: ctx_after_recv [OF c]\<close>)
  show "op_follows P (sync_recv_calls pre s (int i) t (recvs_from s t us))
     (op_bind (message_key s (int i) t False True) (\<lambda>key.
     op_bind (op_get key) (\<lambda>v. op_bind (copy v len) (\<lambda>b.
     op_bind (op_put (key @ ''/ack'') ''1'') (\<lambda>_. op_return b))))) c
    (\<lambda>_ c'. ctx_after pre n i (us @ [CRecv len s t]) c')"
  proof (rule op_follows_silent [OF key])
    fix k c'
    assume k: "k = key_of pre (KMessage s (int i) t (recvs_from s t us)) \<and>
      ctx_after pre n i (us @ [CRecv len s t]) c'"
    have rest: "op_follows P [CPut (key_of pre (KAck s (int i) t (recvs_from s t us)))]
        (op_bind (copy v len) (\<lambda>b. op_bind (op_put (k @ ''/ack'') ''1'') (\<lambda>_. op_return b))) c'
        (\<lambda>_ c'. ctx_after pre n i (us @ [CRecv len s t]) c')" if "length v = len" for v
      by (rule op_follows_silent [OF op_follows_copy [where Q = "\<lambda>_ c2. c2 = c'", OF that refl]])
        (use k ack in \<open>auto intro!: op_follows_put op_follows_return\<close>)
    show "op_follows P (sync_recv_calls pre s (int i) t (recvs_from s t us))
        (op_bind (op_get k) (\<lambda>v. op_bind (copy v len) (\<lambda>b.
           op_bind (op_put (k @ ''/ack'') ''1'') (\<lambda>_. op_return b)))) c'
        (\<lambda>_ c'. ctx_after pre n i (us @ [CRecv len s t]) c')"
      using k P rest by (auto simp: sync_recv_calls_def intro!: op_follows_get)
  qed
qed

text \<open>The two members as a session; the clock runs through put, get, ack, get of each message.\<close>

definition channel_calls :: "string \<Rightarrow> nat \<Rightarrow> nat \<Rightarrow> nat \<Rightarrow> int \<Rightarrow> nat \<Rightarrow> nat \<Rightarrow> call list" where
  "channel_calls pre n s d t m i =
     (if \<not> (s < n \<and> d < n \<and> s \<noteq> d) then []
      else if i = s then concat (map (sync_send_calls pre (int s) (int d) t) [0..<m])
      else if i = d then concat (map (sync_recv_calls pre (int s) (int d) t) [0..<m]) else [])"

definition channel_clock :: "nat \<Rightarrow> nat \<Rightarrow> nat \<Rightarrow> nat" where
  "channel_clock s i p = 4 * (p div 2) +
     (if i = s then (if p mod 2 = 0 then 0 else 3) else if p mod 2 = 0 then 1 else 2)"

lemma length_sync_calls [simp]:
  "length (sync_send_calls pre s d t q) = 2" "length (sync_recv_calls pre s d t q) = 2"
  by (simp_all add: sync_send_calls_def sync_recv_calls_def)

lemma length_channel_calls:
  "length (channel_calls pre n s d t m i) =
     (if s < n \<and> d < n \<and> s \<noteq> d \<and> (i = s \<or> i = d) then m * 2 else 0)"
  by (simp add: channel_calls_def length_concat_blocks)

lemma channel_calls_nth:
  assumes "s < n" "d < n" "s \<noteq> d" and "p < m * 2"
  shows "channel_calls pre n s d t m s ! p = sync_send_calls pre (int s) (int d) t (p div 2) ! (p mod 2)"
    and "channel_calls pre n s d t m d ! p = sync_recv_calls pre (int s) (int d) t (p div 2) ! (p mod 2)"
  using assms by (simp_all add: channel_calls_def nth_concat_blocks)

lemma channel_clock_mono: "p \<le> q \<Longrightarrow> channel_clock s i p \<le> channel_clock s i q"
proof -
  assume "p \<le> q"
  then have "p div 2 \<le> q div 2" by (rule div_le_mono)
  moreover have "p mod 2 \<le> q mod 2" if "p div 2 = q div 2"
    using that \<open>p \<le> q\<close> by (metis add_le_cancel_left div_mult_mod_eq)
  ultimately have "p div 2 < q div 2 \<or> p div 2 = q div 2 \<and> p mod 2 \<le> q mod 2"
    by linarith
  then consider "p div 2 < q div 2" | "p div 2 = q div 2" "p mod 2 \<le> q mod 2" by blast
  then show ?thesis
  proof cases
    case 1
    have "channel_clock s i p \<le> 4 * (p div 2) + 3" by (simp add: channel_clock_def)
    also have "\<dots> \<le> 4 * (q div 2)" using 1 by simp
    finally show ?thesis by (simp add: channel_clock_def)
  next
    case 2
    then show ?thesis by (simp add: channel_clock_def)
  qed
qed

interpretation channel: session n "channel_calls pre n s d t m" "channel_clock s" for pre n s d t m
proof
  fix i p :: nat and k
  assume p: "p < length (channel_calls pre n s d t m i)"
    and k: "channel_calls pre n s d t m i ! p = CGet k"
  then have v: "s < n" "d < n" "s \<noteq> d" "i = s \<or> i = d" and pm: "p < m * 2"
    by (auto simp: length_channel_calls split: if_splits)
  let ?q = "p div 2"
  have even: "?q * 2 < m * 2" and odd: "?q * 2 + 1 < m * 2" using pm by presburger+
  have dm: "(?q * 2 + 1) div 2 = ?q" "(?q * 2 + 1) mod 2 = 1" "(?q * 2) div 2 = ?q" "(?q * 2) mod 2 = 0"
    by presburger+
  show "\<exists>j q. j < n \<and> q < length (channel_calls pre n s d t m j) \<and>
      channel_calls pre n s d t m j ! q = CPut k \<and> channel_clock s j q < channel_clock s i p"
  proof (cases "i = s")
    case True
    with k channel_calls_nth(1) [OF v(1-3) pm] have "p mod 2 = 1"
        and key: "k = key_of pre (KAck (int s) (int d) t ?q)"
      by (cases "p mod 2 = 0"; auto simp: sync_send_calls_def)+
    moreover have "channel_calls pre n s d t m d ! (?q * 2 + 1) = CPut k"
      using channel_calls_nth(2) [OF v(1-3) odd] unfolding dm by (simp add: key sync_recv_calls_def)
    moreover have "channel_clock s d (?q * 2 + 1) < channel_clock s i p"
      using v True \<open>p mod 2 = 1\<close> unfolding channel_clock_def dm by simp
    ultimately show ?thesis
      using v odd by (intro exI [of _ d] exI [of _ "?q * 2 + 1"]) (simp add: length_channel_calls)
  next
    case False
    with v have i: "i = d" by simp
    with k channel_calls_nth(2) [OF v(1-3) pm] have "p mod 2 = 0"
        and key: "k = key_of pre (KMessage (int s) (int d) t ?q)"
      by (cases "p mod 2 = 0"; auto simp: sync_recv_calls_def)+
    moreover have "channel_calls pre n s d t m s ! (?q * 2) = CPut k"
      using channel_calls_nth(1) [OF v(1-3) even] unfolding dm by (simp add: key sync_send_calls_def)
    moreover have "channel_clock s s (?q * 2) < channel_clock s i p"
      using v i \<open>p mod 2 = 0\<close> unfolding channel_clock_def dm by simp
    ultimately show ?thesis
      using v even by (intro exI [of _ s] exI [of _ "?q * 2"]) (simp add: length_channel_calls)
  qed
qed (rule channel_clock_mono)

definition channel_script :: "nat \<Rightarrow> nat \<Rightarrow> int \<Rightarrow> bytes list \<Rightarrow> nat \<Rightarrow> cmd list" where
  "channel_script s d t ms i =
     (if i = s then map (\<lambda>b. CSsend b (int d) t) ms
      else if i = d then map (\<lambda>b. CRecv (length b) (int s) t) ms else [])"

lemma sends_to_channel [simp]:
  "sends_to d t (map (\<lambda>b. CSsend b d t) ms) = ms" "recvs_from s t (map (\<lambda>b. CRecv (length b) s t) ms) = length ms"
  by (induction ms) auto

lemma sender_follows:
  assumes d: "0 \<le> d" "d < int n"
    and P: "\<And>q. q < length sent + length ms \<Longrightarrow> P (key_of pre (KMessage (int i) d t q)) ((sent @ ms) ! q)"
  shows "ctx_after pre n i (map (\<lambda>b. CSsend b d t) sent) c \<Longrightarrow>
    op_follows P (concat (map (sync_send_calls pre (int i) d t) [length sent..<length sent + length ms]))
      (script (map (\<lambda>b. CSsend b d t) ms)) c (\<lambda>_ _. True)"
  using P
proof (induction ms arbitrary: sent c)
  case Nil
  then show ?case by (simp add: op_follows_return)
next
  case (Cons b ms)
  let ?us = "map (\<lambda>b. CSsend b d t) sent"
  have upt: "[length sent..<length sent + length (b # ms)] =
      length sent # [length (sent @ [b])..<length (sent @ [b]) + length ms]"
    by (simp add: upt_conv_Cons del: upt_Suc)
  have "P (key_of pre (KMessage (int i) d t (length (sends_to d t ?us)))) b"
    using Cons.prems(2) [of "length sent"] by simp
  from ssend_follows [where P = P and b = b, OF Cons.prems(1) d this]
  have "op_follows P (sync_send_calls pre (int i) d t (length sent)) (exec (CSsend b d t)) c
      (\<lambda>_ c'. ctx_after pre n i (map (\<lambda>b. CSsend b d t) (sent @ [b])) c')"
    unfolding exec.simps by (intro op_follows_map) simp
  moreover have "op_follows P
      (concat (map (sync_send_calls pre (int i) d t) [length (sent @ [b])..<length (sent @ [b]) + length ms]))
      (op_map ((#) r) (script (map (\<lambda>b. CSsend b d t) ms))) c' (\<lambda>_ _. True)"
    if "ctx_after pre n i (map (\<lambda>b. CSsend b d t) (sent @ [b])) c'" for r c'
    using Cons.IH [OF that] Cons.prems(2) by (intro op_follows_map) simp
  ultimately show ?case
    unfolding upt list.map script.simps concat.simps by (rule op_follows_bind)
qed

lemma receiver_follows:
  assumes s: "0 \<le> s" "s < int n"
    and ack: "\<And>q. P (key_of pre (KAck s (int i) t q)) ''1''"
    and P: "\<And>q v. q < length sent + length ms \<Longrightarrow> P (key_of pre (KMessage s (int i) t q)) v \<Longrightarrow>
      v = (sent @ ms) ! q"
  shows "ctx_after pre n i (map (\<lambda>b. CRecv (length b) s t) sent) c \<Longrightarrow>
    op_follows P (concat (map (sync_recv_calls pre s (int i) t) [length sent..<length sent + length ms]))
      (script (map (\<lambda>b. CRecv (length b) s t) ms)) c (\<lambda>_ _. True)"
  using P
proof (induction ms arbitrary: sent c)
  case Nil
  then show ?case by (simp add: op_follows_return)
next
  case (Cons b ms)
  let ?us = "map (\<lambda>b. CRecv (length b) s t) sent"
  have upt: "[length sent..<length sent + length (b # ms)] =
      length sent # [length (sent @ [b])..<length (sent @ [b]) + length ms]"
    by (simp add: upt_conv_Cons del: upt_Suc)
  have "length v = length b" if "P (key_of pre (KMessage s (int i) t (recvs_from s t ?us))) v" for v
    using Cons.prems(2) [of "length sent" v] that by simp
  from recv_follows [where P = P and len = "length b", OF Cons.prems(1) s this ack]
  have "op_follows P (sync_recv_calls pre s (int i) t (length sent)) (exec (CRecv (length b) s t)) c
      (\<lambda>_ c'. ctx_after pre n i (map (\<lambda>b. CRecv (length b) s t) (sent @ [b])) c')"
    unfolding exec.simps by (intro op_follows_map) simp
  moreover have "op_follows P
      (concat (map (sync_recv_calls pre s (int i) t) [length (sent @ [b])..<length (sent @ [b]) + length ms]))
      (op_map ((#) r) (script (map (\<lambda>b. CRecv (length b) s t) ms))) c' (\<lambda>_ _. True)"
    if "ctx_after pre n i (map (\<lambda>b. CRecv (length b) s t) (sent @ [b])) c'" for r c'
    using Cons.IH [OF that] Cons.prems(2) by (intro op_follows_map) simp
  ultimately show ?case
    unfolding upt list.map script.simps concat.simps by (rule op_follows_bind)
qed

lemma channel_outcomes:
  assumes "outcomes_ok (channel_script s d t ms) n d [] (channel_script s d t ms d) rs" and "s \<noteq> d"
  shows "rs = map OBytes ms"
proof (rule nth_equalityI)
  show "length rs = length (map OBytes ms)"
    using assms by (simp add: outcomes_ok_def channel_script_def)
  fix q
  assume "q < length rs"
  with assms have q: "q < length ms" by (simp add: outcomes_ok_def channel_script_def)
  have "recvs_from (int s) t (take q (map (\<lambda>b. CRecv (length b) (int s) t) ms)) = q"
    using q by (simp add: take_map)
  with assms q show "rs ! q = map OBytes ms ! q"
    by (auto simp: outcomes_ok_def channel_script_def Let_def dest!: spec [of _ q])
qed

lemma sender_start:
  assumes "s < n" "d < n" "s \<noteq> d" and "ctx_after pre n s [] c"
  shows "op_follows (script_inv pre (channel_script s d t ms) n) (channel_calls pre n s d t (length ms) s)
    (script (channel_script s d t ms s)) c (\<lambda>_ _. True)"
proof -
  have "op_follows (script_inv pre (channel_script s d t ms) n)
      (concat (map (sync_send_calls pre (int s) (int d) t)
        [length ([] :: bytes list)..<length ([] :: bytes list) + length ms]))
      (script (map (\<lambda>b. CSsend b (int d) t) ms)) c (\<lambda>_ _. True)"
    by (rule sender_follows [where n = n and sent = "[]"])
      (use assms in \<open>simp_all add: channel_script_def\<close>)
  with assms(1-3) show ?thesis
    by (simp add: channel_calls_def channel_script_def)
qed

lemma receiver_start:
  assumes "s < n" "d < n" "s \<noteq> d" and "ctx_after pre n d [] c"
  shows "op_follows (script_inv pre (channel_script s d t ms) n) (channel_calls pre n s d t (length ms) d)
    (script (channel_script s d t ms d)) c (\<lambda>_ _. True)"
proof -
  have "op_follows (script_inv pre (channel_script s d t ms) n)
      (concat (map (sync_recv_calls pre (int s) (int d) t)
        [length ([] :: bytes list)..<length ([] :: bytes list) + length ms]))
      (script (map (\<lambda>b. CRecv (length b) (int s) t) ms)) c (\<lambda>_ _. True)"
    by (rule receiver_follows [where n = n and sent = "[]"])
      (use assms in \<open>simp_all add: channel_script_def\<close>)
  with assms(1-3) show ?thesis
    by (simp add: channel_calls_def channel_script_def)
qed

text \<open>
  C4: One member sends a list of messages synchronously and another receives them. No
  interleaving deadlocks or runs on: after at most four store calls per message the system
  cannot move, and then every send has returned and the receiver has the messages in order.
\<close>

theorem sync_messages_complete:
  assumes "group_system pre n c st0 ps0" and "s < n" and "d < n" and "s \<noteq> d"
    and "\<And>i. i < n \<Longrightarrow> ps0 i = script (channel_script s d t ms i) (c i)"
    and "\<And>i. n \<le> i \<Longrightarrow> \<exists>a. ps0 i = Done a"
    and "(sys_good ^^ k) (st0, ps0) (st, ps)"
  shows "k \<le> 4 * length ms \<and>
    ((\<nexists>s'. sys_good (st, ps) s') \<longrightarrow> (\<exists>c1 c2 rs. ps s = Done (Inr rs, c1) \<and>
       ps d = Done (Inr (map OBytes ms), c2)))"
proof -
  let ?cs = "channel_script s d t ms" and ?m = "length ms"
  let ?P = "script_inv pre ?cs n" and ?Q = "\<lambda>i (r, c'). \<exists>a. r = Inr a"
  have start: "channel.at n pre s d t ?m ?P ?Q (\<lambda>_. 0) (st0, ps0)"
  proof -
    have after: "ctx_after pre n i [] (c i)" if "i < n" for i
      using assms(1) that by (auto simp: group_system_def intro: fresh_after)
    have "follows ?P (channel_calls pre n s d t ?m i) (ps0 i) (?Q i)" if i: "i < n" for i
    proof -
      consider "i = s" | "i = d" | "i \<noteq> s" "i \<noteq> d" by blast
      then show ?thesis
        using sender_start [where pre = pre and c = "c s" and t = t and ms = ms, OF assms(2-4)]
          receiver_start [where pre = pre and c = "c d" and t = t and ms = ms, OF assms(2-4)] after [OF i] assms(4) assms(5) [OF i]
        by cases (simp_all add: op_follows_def channel_calls_def channel_script_def op_return_def)
    qed
    moreover have "store_ok ?P st0"
      using assms(1) by (intro ctx_keys.store_ok_key_inv) (auto simp: group_system_def)
    ultimately show ?thesis
      using assms(6) by (simp add: channel.at_def)
  qed
  have "(\<Sum>i<n. length (channel_calls pre n s d t ?m i)) = 4 * ?m"
  proof -
    have "(\<Sum>i<n. length (channel_calls pre n s d t ?m i)) =
        (\<Sum>i\<in>{s, d}. length (channel_calls pre n s d t ?m i))"
      using assms(2,3) by (intro sum.mono_neutral_right) (auto simp: length_channel_calls)
    with assms(2-4) show ?thesis by (simp add: length_channel_calls)
  qed
  with channel.completes(1) [OF assms(7) start] have "k \<le> 4 * ?m" by simp
  moreover have "\<exists>c1 c2 rs. ps s = Done (Inr rs, c1) \<and> ps d = Done (Inr (map OBytes ms), c2)"
    if stuck: "\<nexists>s'. sys_good (st, ps) s'"
  proof -
    from channel.completes(2) [OF assms(7) start stuck assms(2)] obtain rs1 c1
      where s: "ps s = Done (Inr rs1, c1)" by auto
    from channel.completes(2) [OF assms(7) start stuck assms(3)] obtain rs c2
      where d: "ps d = Done (Inr rs, c2)" by auto
    from script_sound [OF assms(1,5) sys_good_power_steps [OF assms(7)] assms(3) d]
    have "rs = map OBytes ms" using assms(4) by (rule channel_outcomes)
    with s d show ?thesis by blast
  qed
  ultimately show ?thesis by blast
qed

text \<open>Two messages from the first of two processes to the second.\<close>

definition example_sync :: "nat \<Rightarrow> (outcome list res \<times> kvctx) prog" where
  "example_sync i = (if i < 2 then script (channel_script 0 1 7 [''hi'', ''there''] i) (example_ctx i)
     else Done (Inr [], example_ctx 0))"

lemma sync_messages_complete_witness:
  "\<exists>k st ps c2. (sys_good ^^ k) (Map.empty, example_sync) (st, ps) \<and>
     ps 1 = Done (Inr [OBytes ''hi'', OBytes ''there''], c2)"
proof -
  have all: "k \<le> 4 * length [''hi'', ''there''] \<and>
    ((\<nexists>s'. sys_good (st, ps) s') \<longrightarrow> (\<exists>c1 c2 rs. ps 0 = Done (Inr rs, c1) \<and>
       ps 1 = Done (Inr (map OBytes [''hi'', ''there'']), c2)))"
    if "(sys_good ^^ k) (Map.empty, example_sync) (st, ps)" for k st ps
    by (rule sync_messages_complete [where c = example_ctx and pre = "''libtt/control''" and n = 2
          and t = 7, OF _ _ _ _ _ _ that])
      (auto simp: group_system_def fresh_def example_ctx_def example_sync_def)
  have "\<exists>k s. (sys_good ^^ k) (Map.empty, example_sync) s \<and> (\<nexists>s'. sys_good s s')"
  proof (rule bounded_run_ends)
    show "k \<le> 4 * length [''hi'', ''there'']" if "(sys_good ^^ k) (Map.empty, example_sync) s" for k s
      using all [of k "fst s" "snd s"] that by simp
  qed
  then obtain k s where s: "(sys_good ^^ k) (Map.empty, example_sync) s" "\<nexists>s'. sys_good s s'" by blast
  with all [of k "fst s" "snd s"] show ?thesis
    by (intro exI [of _ k] exI [of _ "fst s"] exI [of _ "snd s"]) auto
qed

end
