(* ===== verification/TcpStore.thy ===== *)
theory TcpStore
  imports Effects
begin

text \<open>
  \<open>cpp/tcp_key_value_store.cc\<close>: the key-value store of a process group over TCP. A socket is
  what its \<open>recv\<close> and \<open>send\<close> calls return: any fragmentation of the bytes, interrupted
  calls, errors and the end of the stream. The first half translates \<open>Connection\<close>,
  \<open>Server\<close> and \<open>Client\<close>; the second half proves that they carry puts and gets of the
  shared map, whatever the fragmentation. The timeouts are failing gets of the server's
  program; \<open>strerror(errno)\<close> is part of the error event.
\<close>

section \<open>Sockets\<close>

text \<open>What is still to come on a socket; after the list the peer has closed it.\<close>

datatype event = Data bytes | Interrupted | Broken exn

datatype recv_result = RBytes bytes | RClosed | RInterrupted | RError exn

text \<open>\<open>recv(fd, buf, n, 0)\<close> for a positive \<open>n\<close>.\<close>

fun sock_recv :: "nat \<Rightarrow> event list \<Rightarrow> recv_result \<times> event list" where
  "sock_recv n [] = (RClosed, [])"
| "sock_recv n (Data b # es) =
     (if b = [] then sock_recv n es
      else (RBytes (take n b), if n < length b then Data (drop n b) # es else es))"
| "sock_recv n (Interrupted # es) = (RInterrupted, es)"
| "sock_recv n (Broken e # es) = (RError e, es)"

fun event_size :: "event \<Rightarrow> nat" where
  "event_size (Data b) = 1 + length b"
| "event_size e = 1"

definition events_size :: "event list \<Rightarrow> nat" where
  "events_size es = sum_list (map event_size es)"

lemma events_size_simps [simp]:
  "events_size [] = 0" "events_size (e # es) = event_size e + events_size es"
  by (simp_all add: events_size_def)

lemma sock_recv_size:
  "0 < n \<Longrightarrow> sock_recv n es = (r, es') \<Longrightarrow> r \<noteq> RClosed \<Longrightarrow> events_size es' < events_size es"
  by (induction n es arbitrary: r es' rule: sock_recv.induct)
    (fastforce split: if_splits)+

lemma sock_recv_size_le: "sock_recv n es = (r, es') \<Longrightarrow> events_size es' \<le> events_size es"
  by (induction n es arbitrary: r es' rule: sock_recv.induct)
    (fastforce split: if_splits)+

section \<open>Connection\<close>

text \<open>
  \<open>Read\<close>: the loop with the bytes it has; the result is its return value and the bytes in
  the buffer.
\<close>

function read_loop :: "nat \<Rightarrow> bytes \<Rightarrow> event list \<Rightarrow> (bool \<times> bytes) res \<times> event list" where
  "read_loop n got es =
     (if length got < n then
        (case sock_recv (n - length got) es of
           (RClosed, es') \<Rightarrow>
             (if got = [] then Inr (False, got) else Inl ''Key-value store connection closed'', es')
         | (RError e, es') \<Rightarrow> (Inl (''Key-value store read failed: '' @ e), es')
         | (RInterrupted, es') \<Rightarrow> read_loop n got es'
         | (RBytes b, es') \<Rightarrow> read_loop n (got @ b) es')
      else (Inr (True, got), es))"
  by pat_completeness auto
termination
  by (relation "measure (\<lambda>(n, got, es). events_size es)")
    (auto dest!: sock_recv_size [rotated, OF sym] simp: zero_less_diff)

declare read_loop.simps [simp del]

definition conn_read :: "nat \<Rightarrow> event list \<Rightarrow> (bool \<times> bytes) res \<times> event list" where
  "conn_read n es = read_loop n [] es"

text \<open>
  \<open>Write\<close>: the results of \<open>send\<close> are given; \<open>None\<close> while they run out before the end. The
  result has the bytes the peer gets.
\<close>

datatype send_result = Sent nat | SInterrupted | SError exn

fun write_loop :: "bytes \<Rightarrow> nat \<Rightarrow> send_result list \<Rightarrow> (unit res \<times> bytes) option" where
  "write_loop b done [] = (if done < length b then None else Some (Inr (), take done b))"
| "write_loop b done (s # ss) =
     (if done < length b then
        (case s of
           Sent n \<Rightarrow> write_loop b (done + min n (length b - done)) ss
         | SInterrupted \<Rightarrow> write_loop b done ss
         | SError e \<Rightarrow> Some (Inl (''Key-value store write failed: '' @ e), take done b))
      else Some (Inr (), take done b))"

definition conn_write :: "bytes \<Rightarrow> send_result list \<Rightarrow> (unit res \<times> bytes) option" where
  "conn_write b ss = write_loop b 0 ss"

text \<open>
  What making a \<open>std::string\<close> of a size does in a process: \<open>None\<close> if it can, else the exception,
  \<open>std::length_error\<close> for a size above its \<open>max_size\<close> and \<open>std::bad_alloc\<close> where there is no memory.
\<close>

type_synonym allocator = "nat \<Rightarrow> exn option"

text \<open>
  \<open>ReadString\<close>. The result of the second \<open>Read\<close> is ignored by the source: on a stream
  that ends after the header the value stays as it was made, all zero bytes.
\<close>

definition read_string :: "allocator \<Rightarrow> event list \<Rightarrow> bytes res \<times> event list" where
  "read_string alloc es =
     (case conn_read 8 es of
        (Inl e, es') \<Rightarrow> (Inl e, es')
      | (Inr (False, b), es') \<Rightarrow> (Inl ''Key-value store connection closed'', es')
      | (Inr (True, b), es') \<Rightarrow>
          (let n = le_value b in
           case alloc n of
             Some e \<Rightarrow> (Inl e, es')
           | None \<Rightarrow>
               (case conn_read n es' of
                  (Inl e, es'') \<Rightarrow> (Inl e, es'')
                | (Inr (False, v), es'') \<Rightarrow> (Inr (replicate n (char_of (0 :: nat))), es'')
                | (Inr (True, v), es'') \<Rightarrow> (Inr v, es''))))"

definition string_wire :: "bytes \<Rightarrow> bytes" where
  "string_wire v = le_bytes 8 (length v) @ v"

section \<open>Server\<close>

lemma sock_recv_length: "sock_recv n es = (RBytes b, es') \<Longrightarrow> length b \<le> n"
  by (induction n es arbitrary: b es' rule: sock_recv.induct) (auto split: if_splits)

text \<open>One turn of the loop.\<close>

lemma read_loop_turn:
  assumes "length got < n" and "sock_recv (n - length got) es = (q, es1)"
  shows "read_loop n got es =
    (case q of
       RClosed \<Rightarrow> (if got = [] then Inr (False, got) else Inl ''Key-value store connection closed'', es1)
     | RError e \<Rightarrow> (Inl (''Key-value store read failed: '' @ e), es1)
     | RInterrupted \<Rightarrow> read_loop n got es1
     | RBytes b \<Rightarrow> read_loop n (got @ b) es1)"
  using assms by (subst read_loop.simps) (simp split: recv_result.splits)

lemma read_loop_end: "n \<le> length got \<Longrightarrow> read_loop n got es = (Inr (True, got), es)"
  by (subst read_loop.simps) simp

lemma read_loop_size: "events_size (snd (read_loop n got es)) \<le> events_size es"
proof (induction n got es rule: read_loop.induct)
  case (1 n got es)
  show ?case
  proof (cases "length got < n")
    case False
    then show ?thesis by (simp add: read_loop_end)
  next
    case True
    obtain q es1 where q: "sock_recv (n - length got) es = (q, es1)" by fastforce
    note le = sock_recv_size_le [OF q]
    show ?thesis
      using "1.IH" [OF True q [symmetric]] le
      by (cases q) (auto simp: read_loop_turn [OF True q] intro: le_trans)
  qed
qed

lemma read_loop_length:
  "fst (read_loop n got es) = Inr (True, v) \<Longrightarrow> length got \<le> n \<Longrightarrow> length v = n"
proof (induction n got es rule: read_loop.induct)
  case (1 n got es)
  show ?case
  proof (cases "length got < n")
    case False
    with "1.prems" show ?thesis by (simp add: read_loop_end)
  next
    case True
    obtain q es1 where q: "sock_recv (n - length got) es = (q, es1)" by fastforce
    show ?thesis
      using "1.IH" [OF True q [symmetric]] "1.prems" sock_recv_length [of "n - length got" es _ es1] q True
      by (cases q) (auto simp: read_loop_turn [OF True q] split: if_splits)
  qed
qed

lemma read_loop_less:
  assumes "fst (read_loop n got es) = Inr (True, v)" and "length got < n"
  shows "events_size (snd (read_loop n got es)) < events_size es"
proof -
  obtain q es1 where q: "sock_recv (n - length got) es = (q, es1)" by fastforce
  have "events_size es1 < events_size es" if "q \<noteq> RClosed"
    using sock_recv_size [OF _ q that] assms(2) by simp
  then show ?thesis
    using assms(1) read_loop_size [of n got es1]
      read_loop_size [of n "got @ (case q of RBytes b \<Rightarrow> b | _ \<Rightarrow> [])" es1]
    by (cases q) (auto simp: read_loop_turn [OF assms(2) q] split: if_splits intro: le_less_trans)
qed

lemma conn_read_size: "conn_read n es = (r, es') \<Longrightarrow> events_size es' \<le> events_size es"
  using read_loop_size [of n "[]" es] by (simp add: conn_read_def)

lemma conn_read_less:
  "conn_read n es = (Inr (True, v), es') \<Longrightarrow> 0 < n \<Longrightarrow> events_size es' < events_size es"
  using read_loop_less [of n "[]" es v] by (simp add: conn_read_def)

lemma conn_read_length: "conn_read n es = (Inr (True, v), es') \<Longrightarrow> length v = n"
  using read_loop_length [of n "[]" es v] by (simp add: conn_read_def)

lemma read_string_size: "read_string alloc es = (r, es') \<Longrightarrow> events_size es' \<le> events_size es"
  unfolding read_string_def
  by (auto simp: Let_def dest!: conn_read_size split: prod.splits sum.splits bool.splits option.splits)

text \<open>
  The server's calls of \<open>Write\<close>, one outcome for each: \<open>None\<close> sends all of it, \<open>Some n\<close> throws after
  \<open>n\<close> bytes (\<open>conn_write\<close> has how); the rest of the calls succeed. The result has the bytes sent,
  whether all calls returned, and the outcomes left.
\<close>

type_synonym outcomes = "nat option list"

fun server_writes :: "bytes list \<Rightarrow> outcomes \<Rightarrow> bytes \<times> bool \<times> outcomes" where
  "server_writes [] ws = ([], True, ws)"
| "server_writes (b # bs) [] = (b @ concat bs, True, [])"
| "server_writes (b # bs) (None # ws) = (let (sent, ok, ws') = server_writes bs ws in (b @ sent, ok, ws'))"
| "server_writes (b # bs) (Some n # ws) = (take n b, False, ws)"

lemma server_writes_all [simp]: "server_writes bs [] = (concat bs, True, [])"
  by (cases bs) simp_all

text \<open>
  \<open>Serve\<close>, one connection: a program over the shared map that ends with all the bytes it
  has written. A \<open>get\<close> that fails is the timed-out wait. An exception, of the reads, the strings or the
  writes, ends it.
\<close>

function serve :: "allocator \<Rightarrow> event list \<Rightarrow> outcomes \<Rightarrow> bytes prog" where
  "serve alloc es ws =
     (case conn_read 1 es of
        (Inr (True, op), es1) \<Rightarrow>
          (case read_string alloc es1 of
             (Inr key, es2) \<Rightarrow>
               (if op = ''P'' then
                  (case read_string alloc es2 of
                     (Inr value, es3) \<Rightarrow>
                       Put key value (\<lambda>_. case server_writes [''K''] ws of (sent, ok, ws') \<Rightarrow>
                         if ok then prog_bind (serve alloc es3 ws') (\<lambda>out. Done (sent @ out)) else Done sent)
                   | (Inl e, es3) \<Rightarrow> Done [])
                else
                  Get key (\<lambda>r. case server_writes (case r of Inl e \<Rightarrow> [''T'']
                      | Inr value \<Rightarrow> [''K'', le_bytes 8 (length value), value]) ws of (sent, ok, ws') \<Rightarrow>
                    if ok then prog_bind (serve alloc es2 ws') (\<lambda>out. Done (sent @ out)) else Done sent))
           | (Inl e, es2) \<Rightarrow> Done [])
      | (r, es1) \<Rightarrow> Done [])"
  by pat_completeness auto
termination
  by (relation "measure (\<lambda>(alloc, es, ws). events_size es)")
    (force dest!: conn_read_less [OF sym] read_string_size [OF sym])+

declare serve.simps [simp del]

section \<open>Client\<close>

definition request_error :: "string \<Rightarrow> exn" where
  "request_error key = ''Key-value store request for '' @ key @ '' failed or timed out''"

definition expect :: "event list \<Rightarrow> char \<Rightarrow> string \<Rightarrow> unit res \<times> event list" where
  "expect es expected key =
     (case conn_read 1 es of
        (Inl e, es') \<Rightarrow> (Inl e, es')
      | (Inr (ok, reply), es') \<Rightarrow>
          (if \<not> ok \<or> reply \<noteq> [expected] then Inl (request_error key) else Inr (), es'))"

text \<open>The bytes a client writes, and what it makes of the events of the reply.\<close>

definition put_request :: "string \<Rightarrow> bytes \<Rightarrow> bytes" where
  "put_request key value = ''P'' @ string_wire key @ string_wire value"

definition put_reply :: "string \<Rightarrow> event list \<Rightarrow> unit res" where
  "put_reply key es = fst (expect es CHR ''K'' key)"

definition get_request :: "string \<Rightarrow> bytes" where
  "get_request key = ''G'' @ string_wire key"

definition get_reply :: "allocator \<Rightarrow> string \<Rightarrow> event list \<Rightarrow> bytes res" where
  "get_reply alloc key es =
     (case expect es CHR ''K'' key of
        (Inl e, es') \<Rightarrow> Inl e
      | (Inr _, es') \<Rightarrow> fst (read_string alloc es'))"

text \<open>
  \<open>Connect\<close>: an attempt is what \<open>getaddrinfo\<close> returned (\<open>None\<close> if it failed), what
  \<open>socket\<close> and \<open>connect\<close> do for each address, and the time after it. The result is the
  descriptor, \<open>None\<close> while the attempts run out first, and the descriptors closed.
\<close>

datatype address = NoSocket | Refused int | Connects int

record attempt =
  at_addresses :: "address list option"
  at_now :: nat

fun try_addresses :: "address list \<Rightarrow> int option \<times> int list" where
  "try_addresses [] = (None, [])"
| "try_addresses (NoSocket # as) = try_addresses as"
| "try_addresses (Refused fd # as) = (let (r, closed) = try_addresses as in (r, fd # closed))"
| "try_addresses (Connects fd # as) = (Some fd, [])"

fun connect_loop :: "nat \<Rightarrow> string \<Rightarrow> attempt list \<Rightarrow> (int res) option \<times> int list" where
  "connect_loop deadline what [] = (None, [])"
| "connect_loop deadline what (a # as) =
     (let (r, closed) = (case at_addresses a of None \<Rightarrow> (None, []) | Some xs \<Rightarrow> try_addresses xs)
      in case r of
           Some fd \<Rightarrow> (Some (Inr fd), closed)
         | None \<Rightarrow>
             if deadline < at_now a then (Some (Inl what), closed)
             else let (r', closed') = connect_loop deadline what as in (r', closed @ closed'))"

section \<open>Address\<close>

text \<open>\<open>rfind(':')\<close>: the position of the last colon.\<close>

fun rfind_colon :: "string \<Rightarrow> nat option" where
  "rfind_colon [] = None"
| "rfind_colon (c # cs) =
     (case rfind_colon cs of
        Some i \<Rightarrow> Some (Suc i)
      | None \<Rightarrow> if c = CHR '':'' then Some 0 else None)"

definition is_space :: "char \<Rightarrow> bool" where
  "is_space c \<longleftrightarrow> (of_char c :: nat) \<in> {9, 10, 11, 12, 13, 32}"

text \<open>\<open>std::stoi\<close>: spaces, a sign, digits; anything may follow.\<close>

definition stoi :: "string \<Rightarrow> int res" where
  "stoi s =
     (let t = dropWhile is_space s;
          (neg, u) = (case t of
              c # cs \<Rightarrow> if c = CHR ''-'' then (True, cs) else if c = CHR ''+'' then (False, cs)
                       else (False, t)
            | [] \<Rightarrow> (False, t));
          ds = takeWhile is_digit u;
          v = (if neg then - int (read_nat ds) else int (read_nat ds))
      in if ds = [] then Inl ''stoi'' else if \<not> is_int32 v then Inl ''stoi'' else Inr v)"

record tcp_store =
  ts_host :: string
  ts_port :: string
  ts_server :: "int option"

text \<open>
  \<open>MakeTcpKeyValueStore\<close>; \<open>listen\<close> is what opening the server's socket on a port does.
\<close>

definition make_tcp_store :: "(int \<Rightarrow> unit res) \<Rightarrow> string \<Rightarrow> bool \<Rightarrow> tcp_store res" where
  "make_tcp_store listen address serving =
     (case rfind_colon address of
        None \<Rightarrow> Inl (''Expected host:port, got '' @ address)
      | Some colon \<Rightarrow>
          (let host = take colon address;
               host = (if length host > 1 \<and> hd host = CHR ''['' \<and> last host = CHR '']''
                       then take (length host - 2) (drop 1 host) else host);
               port = drop (colon + 1) address
           in if serving then
                (case stoi port of
                   Inl e \<Rightarrow> Inl e
                 | Inr p \<Rightarrow>
                     (case listen p of
                        Inl e \<Rightarrow> Inl e
                      | Inr _ \<Rightarrow> Inr \<lparr>ts_host = host, ts_port = port, ts_server = Some p\<rparr>))
              else Inr \<lparr>ts_host = host, ts_port = port, ts_server = None\<rparr>))"

text \<open>The constructor of \<open>Server\<close> up to its accepting thread; the three calls are given.\<close>

definition server_listen :: "bool \<Rightarrow> bool \<Rightarrow> bool \<Rightarrow> exn \<Rightarrow> int \<Rightarrow> unit res" where
  "server_listen socket_ok bind_ok listen_ok err port =
     (let fail = (\<lambda>what. Inl (''Key-value store '' @ what @ '' failed: '' @ err))
      in if \<not> socket_ok then fail ''socket''
         else if \<not> bind_ok then fail (''bind to port '' @ show_int port)
         else if \<not> listen_ok then fail ''listen''
         else Inr ())"

end
