(* ===== verification/StoreProvider.thy ===== *)
theory StoreProvider
  imports Sessions
begin

text \<open>
  The interface \<open>KeyValueStore\<close> of \<open>cpp/key_value_context.h\<close>: what the coordination
  context relies on when it calls \<open>put\<close> and \<open>get\<close>, stated on programs that implement them,
  and what this gives for programs that use them. \<open>fits\<close> bounds the strings the
  implementation can carry.
\<close>

primrec fitting :: "(bytes \<Rightarrow> bool) \<Rightarrow> 'a prog \<Rightarrow> bool" where
  "fitting F (Done a) = True"
| "fitting F (Put k v f) = (F k \<and> F v \<and> (\<forall>r. fitting F (f r)))"
| "fitting F (Get k f) = (F k \<and> (\<forall>r. fitting F (f r)))"

locale store_provider =
  fixes fits :: "bytes \<Rightarrow> bool"
    and put_impl :: "string \<Rightarrow> bytes \<Rightarrow> unit res prog"
    and get_impl :: "string \<Rightarrow> bytes res prog"
  assumes put_guar: "\<lbrakk>fits k; fits v; P k v\<rbrakk> \<Longrightarrow> guar P (put_impl k v)"
    and get_guar: "fits k \<Longrightarrow> guar P (get_impl k)"
    and get_value: "\<lbrakk>fits k; runs P (get_impl k) (Inr v); \<And>w. P k w \<Longrightarrow> fits w\<rbrakk> \<Longrightarrow> P k v"
    and put_follows: "\<lbrakk>fits k; fits v; P k v\<rbrakk> \<Longrightarrow>
      follows P [CPut k] (put_impl k v) (\<lambda>r. r = Inr ())"
    and get_follows: "\<lbrakk>fits k; \<And>w. P k w \<Longrightarrow> fits w\<rbrakk> \<Longrightarrow>
      follows P [CGet k] (get_impl k) (\<lambda>r. \<exists>v. r = Inr v \<and> P k v)"
begin

text \<open>A program run on the implementation.\<close>

primrec via :: "'a prog \<Rightarrow> 'a prog" where
  "via (Done a) = Done a"
| "via (Put k v f) = prog_bind (put_impl k v) (\<lambda>r. via (f r))"
| "via (Get k f) = prog_bind (get_impl k) (\<lambda>r. via (f r))"

text \<open>What a program ends with over the implementation it can end with over the store.\<close>

lemma via_runs:
  assumes "\<And>k v. P k v \<Longrightarrow> fits v"
  shows "fitting fits p \<Longrightarrow> runs P (via p) a \<Longrightarrow> runs P p a"
proof (induction p)
  case (Done b)
  then show ?case by simp
next
  case (Put k v f)
  then show ?case by (auto simp: runs_bind intro: runs_Put)
next
  case (Get k f)
  then obtain r where r: "runs P (get_impl k) r" "runs P (via (f r)) a"
    by (auto simp: runs_bind)
  have "\<forall>v. r = Inr v \<longrightarrow> P k v"
    using get_value [of k P] r(1) Get.prems(1) assms by auto
  then show ?case
    using Get r(2) by (auto intro: runs_Get)
qed

lemma via_guar:
  assumes "\<And>k v. P k v \<Longrightarrow> fits v"
  shows "fitting fits p \<Longrightarrow> guar P p \<Longrightarrow> guar P (via p)"
proof (induction p)
  case (Done b)
  then show ?case by simp
next
  case (Put k v f)
  then show ?case by (auto intro!: guar_bind put_guar)
next
  case (Get k f)
  have "guar P (via (f r))" if "runs P (get_impl k) r" for r
  proof (rule Get.IH)
    show "fitting fits (f r)" using Get.prems(1) by simp
    have "\<forall>v. r = Inr v \<longrightarrow> P k v"
      using get_value [of k P] that Get.prems(1) assms by auto
    then show "guar P (f r)" using Get.prems(2) by simp
  qed simp
  then show ?case using Get.prems(1) by (auto intro!: guar_bind get_guar)
qed

lemma via_follows:
  assumes "\<And>k v. P k v \<Longrightarrow> fits v"
  shows "fitting fits p \<Longrightarrow> follows P cs p Q \<Longrightarrow> follows P cs (via p) Q"
proof (induction p arbitrary: cs)
  case (Done b)
  then show ?case by (cases "(P, cs, Done b :: 'a prog, Q)" rule: follows.cases) auto
next
  case (Put k v f)
  then obtain cs' where cs: "cs = CPut k # cs'" and f: "P k v" "follows P cs' (f (Inr ())) Q"
    by (cases "(P, cs, Put k v f, Q)" rule: follows.cases) auto
  have "follows P ([CPut k] @ cs') (prog_bind (put_impl k v) (\<lambda>r. via (f r))) Q"
    by (rule follows_bind [OF put_follows]) (use Put f in auto)
  with cs show ?case by simp
next
  case (Get k f)
  then obtain cs' where cs: "cs = CGet k # cs'" and f: "\<forall>v. P k v \<longrightarrow> follows P cs' (f (Inr v)) Q"
    by (cases "(P, cs, Get k f, Q)" rule: follows.cases) auto
  have "follows P ([CGet k] @ cs') (prog_bind (get_impl k) (\<lambda>r. via (f r))) Q"
    by (rule follows_bind [OF get_follows]) (use Get f assms in auto)
  with cs show ?case by simp
qed

end

end
