(* ===== verification/TcpTransport.thy ===== *)
theory TcpTransport
  imports TcpStore StoreProvider
begin

text \<open>
  What \<open>cpp/tcp_key_value_store.cc\<close> guarantees: reads do not depend on how the bytes were
  fragmented, strings arrive as they were written, a request served over any fragmentation is
  a put or a get of the shared map (so the TCP store is a provider of the store interface),
  addresses are read back, and no descriptor is lost while connecting.
\<close>

section \<open>The bytes of a stream\<close>

fun payload :: "event list \<Rightarrow> bytes" where
  "payload [] = []"
| "payload (Data b # es) = b @ payload es"
| "payload (Interrupted # es) = payload es"
| "payload (Broken e # es) = []"

lemma sock_recv_payload:
  "0 < n \<Longrightarrow> sock_recv n es = (q, es') \<Longrightarrow>
    (case q of
       RBytes b \<Rightarrow> b \<noteq> [] \<and> payload es = b @ payload es'
     | RInterrupted \<Rightarrow> payload es = payload es'
     | _ \<Rightarrow> payload es = [])"
  by (induction n es arbitrary: q es' rule: sock_recv.induct)
    (auto simp flip: append_assoc split: if_splits recv_result.splits)

lemma read_loop_payload:
  "length got \<le> n \<Longrightarrow> n - length got \<le> length (payload es) \<Longrightarrow>
    fst (read_loop n got es) = Inr (True, got @ take (n - length got) (payload es)) \<and>
    payload (snd (read_loop n got es)) = drop (n - length got) (payload es)"
proof (induction n got es rule: read_loop.induct)
  case (1 n got es)
  show ?case
  proof (cases "length got < n")
    case False
    with "1.prems" show ?thesis by (simp add: read_loop_end)
  next
    case True
    obtain q es1 where q: "sock_recv (n - length got) es = (q, es1)" by fastforce
    note pay = sock_recv_payload [OF _ q]
    show ?thesis
    proof (cases q)
      case (RBytes b)
      with pay True have b: "payload es = b @ payload es1" by simp
      have "length b \<le> n - length got"
        using sock_recv_length q RBytes by blast
      then show ?thesis
        using "1.IH"(1) [OF True q [symmetric] RBytes] b "1.prems" True
        by (simp add: read_loop_turn [OF True q] RBytes)
    next
      case RInterrupted
      with pay True have "payload es = payload es1" by simp
      then show ?thesis
        using "1.IH"(2) [OF True q [symmetric] RInterrupted] "1.prems"
        by (simp add: read_loop_turn [OF True q] RInterrupted)
    qed (use pay True "1.prems" in auto)
  qed
qed

lemma conn_read_payload:
  assumes "n \<le> length (payload es)"
  obtains es' where "conn_read n es = (Inr (True, take n (payload es)), es')"
    and "payload es' = drop n (payload es)"
  using read_loop_payload [of "[]" n es] assms
  by (cases "conn_read n es") (simp add: conn_read_def)

lemma conn_read_empty:
  assumes "payload es = []"
  shows "fst (conn_read (Suc n) es) \<noteq> Inr (True, v)"
proof
  assume "fst (conn_read (Suc n) es) = Inr (True, v)"
  moreover have "fst (read_loop m [] es) \<noteq> Inr (True, v)" if "0 < m" for m
    using assms that
  proof (induction m "[] :: bytes" es rule: read_loop.induct)
    case (1 m es)
    obtain q es1 where q: "sock_recv (m - length ([] :: bytes)) es = (q, es1)" by fastforce
    have len: "length ([] :: bytes) < m" using "1.prems" by simp
    have "q \<noteq> RBytes b" for b
      using sock_recv_payload [OF _ q] "1.prems" by auto
    moreover have "payload es1 = []" if "q = RInterrupted"
      using sock_recv_payload [OF _ q] "1.prems" that by simp
    ultimately show ?case
      using "1.hyps"(2) [OF len q [symmetric]] "1.prems"
      by (cases q) (auto simp: read_loop_turn [OF len q])
  qed
  ultimately show False by (simp add: conn_read_def)
qed

lemma le_value_le_bytes_8: "n < 2 ^ 64 \<Longrightarrow> le_value (le_bytes 8 n) = n"
  by (simp add: le_value_le_bytes)

text \<open>A string that a process can hold, and whose length the protocol carries.\<close>

definition can_hold :: "allocator \<Rightarrow> bytes \<Rightarrow> bool" where
  "can_hold alloc v \<longleftrightarrow> length v < 2 ^ 64 \<and> alloc (length v) = None"

lemma read_string_wire:
  assumes "payload es = string_wire v @ rest" and "can_hold alloc v"
  obtains es' where "read_string alloc es = (Inr v, es')" and "payload es' = rest"
proof -
  have "8 \<le> length (payload es)"
    using assms(1) by (simp add: string_wire_def)
  from conn_read_payload [OF this] obtain es1
    where r1: "conn_read 8 es = (Inr (True, le_bytes 8 (length v)), es1)" and p1: "payload es1 = v @ rest"
    using assms(1) by (auto simp: string_wire_def)
  have "length v \<le> length (payload es1)" using p1 by simp
  from conn_read_payload [OF this] obtain es2
    where r2: "conn_read (length v) es1 = (Inr (True, v), es2)" and p2: "payload es2 = rest"
    using p1 by auto
  have "read_string alloc es = (Inr v, es2)"
    using r1 r2 assms(2) by (simp add: read_string_def le_value_le_bytes_8 can_hold_def)
  with p2 show thesis by (rule that [rotated])
qed

section \<open>Serving requests\<close>

lemma serve_put:
  assumes "payload es = put_request k v @ rest" and "can_hold alloc k" and "can_hold alloc v"
  obtains es' where "serve alloc es [] = Put k v (\<lambda>_. prog_bind (serve alloc es' []) (\<lambda>out. Done (''K'' @ out)))"
    and "payload es' = rest"
proof -
  have pay: "payload es = ''P'' @ string_wire k @ string_wire v @ rest"
    using assms(1) by (simp add: put_request_def)
  have "1 \<le> length (payload es)" using pay by simp
  from conn_read_payload [OF this] obtain es1
    where r1: "conn_read 1 es = (Inr (True, ''P''), es1)"
      and p1: "payload es1 = string_wire k @ string_wire v @ rest"
    using pay by auto
  from read_string_wire [OF p1 assms(2)] obtain es2
    where r2: "read_string alloc es1 = (Inr k, es2)" and p2: "payload es2 = string_wire v @ rest" by blast
  from read_string_wire [OF p2 assms(3)] obtain es3
    where r3: "read_string alloc es2 = (Inr v, es3)" and p3: "payload es3 = rest" by blast
  have "serve alloc es [] = Put k v (\<lambda>_. prog_bind (serve alloc es3 []) (\<lambda>out. Done (''K'' @ out)))"
    by (subst serve.simps) (simp add: r1 [unfolded One_nat_def] r2 r3)
  with p3 show thesis by (rule that [rotated])
qed

lemma serve_get:
  assumes "payload es = get_request k @ rest" and "can_hold alloc k"
  obtains es' where "\<And>ws. serve alloc es ws = Get k (\<lambda>r. case server_writes (case r of Inl e \<Rightarrow> [''T'']
        | Inr v \<Rightarrow> [''K'', le_bytes 8 (length v), v]) ws of (sent, ok, ws') \<Rightarrow>
      if ok then prog_bind (serve alloc es' ws') (\<lambda>out. Done (sent @ out)) else Done sent)"
    and "payload es' = rest"
proof -
  have pay: "payload es = ''G'' @ string_wire k @ rest"
    using assms(1) by (simp add: get_request_def)
  have "1 \<le> length (payload es)" using pay by simp
  from conn_read_payload [OF this] obtain es1
    where r1: "conn_read 1 es = (Inr (True, ''G''), es1)" and p1: "payload es1 = string_wire k @ rest"
    using pay by auto
  from read_string_wire [OF p1 assms(2)] obtain es2
    where r2: "read_string alloc es1 = (Inr k, es2)" and p2: "payload es2 = rest" by blast
  have "serve alloc es ws = Get k (\<lambda>r. case server_writes (case r of Inl e \<Rightarrow> [''T'']
        | Inr v \<Rightarrow> [''K'', le_bytes 8 (length v), v]) ws of (sent, ok, ws') \<Rightarrow>
      if ok then prog_bind (serve alloc es2 ws') (\<lambda>out. Done (sent @ out)) else Done sent)" for ws
    by (subst serve.simps) (simp add: r1 [unfolded One_nat_def] r2)
  with p2 show thesis by (rule that [rotated])
qed

lemma serve_end:
  assumes "payload es = []"
  shows "serve alloc es ws = Done []"
proof -
  obtain r es1 where r: "conn_read (Suc 0) es = (r, es1)" by fastforce
  with conn_read_empty [OF assms, of 0] have "r \<noteq> Inr (True, v)" for v by auto
  then show ?thesis
    by (subst serve.simps) (auto simp: r split: sum.splits prod.splits bool.splits)
qed

text \<open>The client's side of the reply.\<close>

lemma expect_reply:
  assumes "payload es = c # rest"
  obtains es' where "expect es c key = (Inr (), es')" and "payload es' = rest"
    and "\<And>d. d \<noteq> c \<Longrightarrow> expect es d key = (Inl (request_error key), es')"
proof -
  have "1 \<le> length (payload es)" using assms by simp
  from conn_read_payload [OF this] obtain es1
    where r: "conn_read (Suc 0) es = (Inr (True, [c]), es1)" and p: "payload es1 = rest"
    using assms by auto
  show thesis
    by (rule that [of es1]) (simp_all add: expect_def r p)
qed

lemma put_reply_ok: "payload es = CHR ''K'' # rest \<Longrightarrow> put_reply key es = Inr ()"
  by (erule expect_reply [of _ _ _ key]) (simp add: put_reply_def)

lemma get_reply_ok:
  assumes "payload es = CHR ''K'' # string_wire v @ rest" and "can_hold alloc v"
  shows "get_reply alloc key es = Inr v"
proof -
  from expect_reply [OF assms(1)] obtain es1
    where e: "expect es CHR ''K'' key = (Inr (), es1)" "payload es1 = string_wire v @ rest" by blast
  from read_string_wire [OF e(2) assms(2)] obtain es2 where "read_string alloc es1 = (Inr v, es2)" by blast
  with e(1) show ?thesis by (simp add: get_reply_def)
qed

lemma get_reply_timeout:
  assumes "payload es = CHR ''T'' # rest"
  shows "get_reply alloc key es = Inl (request_error key)"
  by (rule expect_reply [OF assms, of key]) (simp add: get_reply_def)

section \<open>One request over the network\<close>

text \<open>
  Any way to deliver bytes: chunks of given sizes, a zero for an interrupted call, and the
  rest in one piece.
\<close>

fun fragment :: "nat list \<Rightarrow> bytes \<Rightarrow> event list" where
  "fragment [] b = [Data b]"
| "fragment (n # ns) b =
     (if n = 0 then Interrupted # fragment ns b else Data (take n b) # fragment ns (drop n b))"

lemma payload_fragment [simp]: "payload (fragment ns b) = b"
  by (induction ns arbitrary: b) auto

text \<open>
  A put and a get of a client, each on a connection of its own whose writes succeed: the server's
  thread runs on the request and the client reads what it wrote; \<open>f\<close> fragments either stream. What the
  server and the client can allocate are \<open>srv\<close> and \<open>cl\<close>.
\<close>

definition tcp_put :: "allocator \<Rightarrow> (bytes \<Rightarrow> nat list) \<Rightarrow> string \<Rightarrow> bytes \<Rightarrow> unit res prog" where
  "tcp_put srv f key value =
     prog_bind (serve srv (fragment (f (put_request key value)) (put_request key value)) [])
       (\<lambda>out. Done (put_reply key (fragment (f out) out)))"

definition tcp_get :: "allocator \<Rightarrow> allocator \<Rightarrow> (bytes \<Rightarrow> nat list) \<Rightarrow> string \<Rightarrow> bytes res prog" where
  "tcp_get srv cl f key =
     prog_bind (serve srv (fragment (f (get_request key)) (get_request key)) [])
       (\<lambda>out. Done (get_reply cl key (fragment (f out) out)))"

lemma tcp_put_eq:
  assumes "can_hold srv key" and "can_hold srv value"
  shows "tcp_put srv f key value = Put key value (\<lambda>_. Done (Inr ()))"
proof -
  from serve_put [where rest = "[]" and es = "fragment (f (put_request key value)) (put_request key value)", OF _ assms]
  obtain es'
    where "serve srv (fragment (f (put_request key value)) (put_request key value)) [] =
        Put key value (\<lambda>_. prog_bind (serve srv es' []) (\<lambda>out. Done (''K'' @ out)))" "payload es' = []"
    by auto
  then show ?thesis
    by (simp add: tcp_put_def serve_end put_reply_ok)
qed

lemma tcp_get_eq:
  assumes "can_hold srv key"
  shows "tcp_get srv cl f key = Get key (\<lambda>r. Done (case r of
      Inl e \<Rightarrow> Inl (request_error key)
    | Inr v \<Rightarrow> get_reply cl key (fragment (f (''K'' @ string_wire v)) (''K'' @ string_wire v))))"
proof -
  from serve_get [where rest = "[]" and es = "fragment (f (get_request key)) (get_request key)", OF _ assms]
  obtain es' where "\<And>ws. serve srv (fragment (f (get_request key)) (get_request key)) ws =
      Get key (\<lambda>r. case server_writes (case r of Inl e \<Rightarrow> [''T''] | Inr v \<Rightarrow> [''K'', le_bytes 8 (length v), v]) ws of
        (sent, ok, ws') \<Rightarrow> if ok then prog_bind (serve srv es' ws') (\<lambda>out. Done (sent @ out)) else Done sent)" "payload es' = []"
    by auto
  then show ?thesis
    by (auto simp: tcp_get_def serve_end fun_eq_iff get_reply_timeout string_wire_def split: sum.splits)
qed

lemma get_reply_fragment:
  "can_hold cl v \<Longrightarrow> get_reply cl key (fragment ns (CHR ''K'' # string_wire v)) = Inr v"
  by (rule get_reply_ok [where rest = "[]"]) simp_all

interpretation tcp: store_provider "\<lambda>b. can_hold srv b \<and> can_hold cl b" "tcp_put srv f" "tcp_get srv cl f" for srv cl f
proof
  fix k :: string and v :: bytes and P :: "string \<Rightarrow> bytes \<Rightarrow> bool"
  assume "can_hold srv k \<and> can_hold cl k"
  then have k: "can_hold srv k" by simp
  show "guar P (tcp_get srv cl f k)"
    by (simp add: tcp_get_eq [OF k])
  {
    assume v: "can_hold srv v \<and> can_hold cl v" and P: "P k v"
    then have "can_hold srv v" by simp
    note v = this
    show "guar P (tcp_put srv f k v)" and "follows P [CPut k] (tcp_put srv f k v) (\<lambda>r. r = Inr ())"
      using P by (auto simp: tcp_put_eq [OF k v])
  }
  assume len: "\<And>w. P k w \<Longrightarrow> can_hold srv w \<and> can_hold cl w"
  show "follows P [CGet k] (tcp_get srv cl f k) (\<lambda>r. \<exists>v. r = Inr v \<and> P k v)"
    using len by (auto simp: tcp_get_eq [OF k] get_reply_fragment)
  assume "runs P (tcp_get srv cl f k) (Inr v)"
  then obtain r :: "bytes res" where r: "\<forall>v. r = Inr v \<longrightarrow> P k v" and v: "Inr v = (case r of
      Inl e \<Rightarrow> Inl (request_error k)
    | Inr v \<Rightarrow> get_reply cl k (fragment (f (''K'' @ string_wire v)) (''K'' @ string_wire v)))"
    unfolding tcp_get_eq [OF k] runs_Get_iff runs_Done_iff by blast
  show "P k v"
    using r v len by (cases r) (auto simp: get_reply_fragment)
qed

section \<open>Writes, addresses and descriptors\<close>

lemma write_loop_prefix:
  "write_loop b done ss = Some (r, w) \<Longrightarrow> done \<le> length b \<Longrightarrow>
     (\<exists>k. w = take k b) \<and> (r = Inr () \<longrightarrow> w = b)"
proof (induction b "done" ss arbitrary: r w rule: write_loop.induct)
  case (1 b don)
  then show ?case by (auto split: if_splits intro: exI [of _ "length b"])
next
  case (2 b don s ss)
  show ?case
  proof (cases "don < length b")
    case True
    then show ?thesis using 2 by (cases s) auto
  next
    case False
    with "2.prems" show ?thesis by (auto intro: exI [of _ "length b"])
  qed
qed

definition progressing :: "send_result \<Rightarrow> bool" where
  "progressing s \<longleftrightarrow> (case s of Sent n \<Rightarrow> 0 < n | SInterrupted \<Rightarrow> True | SError e \<Rightarrow> False)"

definition sends :: "send_result \<Rightarrow> bool" where
  "sends s \<longleftrightarrow> (case s of Sent n \<Rightarrow> True | _ \<Rightarrow> False)"

lemma write_loop_ends:
  "\<forall>s\<in>set ss. progressing s \<Longrightarrow> length b \<le> done + length (filter sends ss) \<Longrightarrow> done \<le> length b \<Longrightarrow>
     write_loop b done ss = Some (Inr (), b)"
proof (induction b "done" ss rule: write_loop.induct)
  case (2 b don s ss)
  show ?case
  proof (cases "don < length b")
    case True
    show ?thesis
    proof (cases s)
      case (Sent n)
      then have "0 < n" and "filter sends (s # ss) = s # filter sends ss"
        using "2.prems" by (simp_all add: progressing_def sends_def)
      with "2.prems"(2) True have "length b \<le> don + min n (length b - don) + length (filter sends ss)"
        by auto
      with 2 Sent True show ?thesis by simp
    qed (use 2 True in \<open>auto simp: progressing_def sends_def\<close>)
  qed (use "2.prems" in simp)
qed simp

lemma rfind_colon_append:
  "CHR '':'' \<notin> set port \<Longrightarrow> rfind_colon (host @ CHR '':'' # port) = Some (length host)"
proof (induction host)
  case Nil
  have "rfind_colon p = None" if "CHR '':'' \<notin> set p" for p
    using that by (induction p) auto
  with Nil show ?case by simp
qed simp

lemma colon_show_nat: "CHR '':'' \<notin> set (show_nat p)"
proof
  assume "CHR '':'' \<in> set (show_nat p)"
  then have "is_digit CHR '':''" by (rule show_nat_digits)
  then show False by (simp add: is_digit_def)
qed

lemma stoi_show_nat:
  assumes "p < 2 ^ 31"
  shows "stoi (show_nat p) = Inr (int p)"
proof -
  obtain c cs where s: "show_nat p = c # cs"
    by (cases "show_nat p") auto
  then have c: "is_digit c" using show_nat_digits [of c p] by simp
  then have "\<not> is_space c" "c \<noteq> CHR ''-''" "c \<noteq> CHR ''+''"
    by (auto simp: is_digit_def is_space_def)
  moreover have "takeWhile is_digit (show_nat p) = show_nat p"
    using show_nat_digits by (simp add: takeWhile_eq_all_conv)
  moreover have "read_nat (c # cs) = p"
    using read_nat_show_nat [of p] s by simp
  ultimately show ?thesis
    using s assms by (auto simp: stoi_def Let_def is_int32_def)
qed

lemma make_tcp_store_plain:
  assumes "p < 2 ^ 31" and "listen (int p) = Inr ()"
    and "length host \<le> 1 \<or> hd host \<noteq> CHR ''['' \<or> last host \<noteq> CHR '']''"
  shows "make_tcp_store listen (host @ '':'' @ show_nat p) serving =
      Inr \<lparr>ts_host = host, ts_port = show_nat p, ts_server = (if serving then Some (int p) else None)\<rparr>"
  using rfind_colon_append [OF colon_show_nat [of p], of host] assms(2,3) stoi_show_nat [OF assms(1)]
  by (auto simp: make_tcp_store_def Let_def)

fun descriptors :: "address list \<Rightarrow> int list" where
  "descriptors [] = []"
| "descriptors (NoSocket # as) = descriptors as"
| "descriptors (Refused fd # as) = fd # descriptors as"
| "descriptors (Connects fd # as) = fd # descriptors as"

definition all_descriptors :: "attempt list \<Rightarrow> int list" where
  "all_descriptors as =
     concat (map (\<lambda>a. case at_addresses a of None \<Rightarrow> [] | Some xs \<Rightarrow> descriptors xs) as)"

lemma try_addresses_descriptors:
  "try_addresses as = (r, closed) \<Longrightarrow>
     (case r of None \<Rightarrow> closed = descriptors as
      | Some fd \<Rightarrow> Connects fd \<in> set as \<and> (\<exists>rest. descriptors as = closed @ fd # rest))"
  by (induction as arbitrary: r closed rule: try_addresses.induct)
    (auto split: prod.splits option.splits)

definition returned :: "int res option \<Rightarrow> int list" where
  "returned r = (case r of Some (Inr fd) \<Rightarrow> [fd] | _ \<Rightarrow> [])"

lemma connect_loop_descriptors:
  "connect_loop deadline what as = (r, closed) \<Longrightarrow>
     \<exists>rest. all_descriptors as = closed @ returned r @ rest"
proof (induction as arbitrary: r closed)
  case Nil
  then show ?case by (auto simp: all_descriptors_def returned_def)
next
  case (Cons a as)
  let ?here = "case at_addresses a of None \<Rightarrow> (None, []) | Some xs \<Rightarrow> try_addresses xs"
  let ?ds = "case at_addresses a of None \<Rightarrow> [] | Some xs \<Rightarrow> descriptors xs"
  obtain q c where q: "?here = (q, c)" by fastforce
  have ds: "case q of None \<Rightarrow> c = ?ds | Some fd \<Rightarrow> \<exists>rest. ?ds = c @ fd # rest"
    using q try_addresses_descriptors [of _ q c]
    by (cases "at_addresses a") (auto split: option.splits)
  have all: "all_descriptors (a # as) = ?ds @ all_descriptors as"
    by (simp add: all_descriptors_def)
  show ?case
  proof (cases q)
    case (Some fd)
    with ds obtain rest where "?ds = c @ fd # rest" by auto
    with Cons.prems q Some all show ?thesis by (auto simp: returned_def)
  next
    case None
    with ds have c: "?ds = c" by simp
    show ?thesis
    proof (cases "deadline < at_now a")
      case True
      with Cons.prems q None all c show ?thesis by (auto simp: returned_def)
    next
      case False
      obtain r' c' where rest: "connect_loop deadline what as = (r', c')" by fastforce
      have "connect_loop deadline what (a # as) = (r', c @ c')"
        using q None False rest by (simp only: connect_loop.simps Let_def prod.case option.case if_False)
      with Cons.prems have "r = r'" "closed = c @ c'" by auto
      with Cons.IH [OF rest] all c show ?thesis by auto
    qed
  qed
qed

lemma connect_loop_ends:
  "\<exists>a\<in>set as. deadline < at_now a \<Longrightarrow> fst (connect_loop deadline what as) \<noteq> None"
proof (induction as)
  case (Cons a as)
  obtain q c where q: "(case at_addresses a of None \<Rightarrow> (None, []) | Some xs \<Rightarrow> try_addresses xs) = (q, c)"
    by fastforce
  obtain r' c' where rest: "connect_loop deadline what as = (r', c')" by fastforce
  show ?case
    using Cons rest by (cases q) (auto simp: q)
qed simp

section \<open>Properties\<close>

text \<open>
  C11: A read of \<open>n\<close> bytes returns the next \<open>n\<close> bytes of the stream and leaves the rest,
  whatever chunks they arrive in and however often the call is interrupted.
\<close>

theorem read_any_fragmentation:
  assumes "n \<le> length (payload es)"
  shows "\<exists>es'. conn_read n es = (Inr (True, take n (payload es)), es') \<and>
    payload es' = drop n (payload es)"
  by (rule conn_read_payload [OF assms]) blast

lemma read_any_fragmentation_witness:
  "\<exists>es'. conn_read 3 [Data ''ab'', Interrupted, Data ''cd''] = (Inr (True, ''abc''), es') \<and>
     payload es' = ''d''"
  using read_any_fragmentation [of 3 "[Data ''ab'', Interrupted, Data ''cd'']"]
  by (simp add: numeral_3_eq_3)

text \<open>
  A write that returns without an exception has sent exactly its buffer, a failed one a
  prefix of it, for any partial and interrupted sends; and it does return once enough sends
  have made progress.
\<close>

theorem write_complete:
  shows "(\<forall>r w. conn_write b ss = Some (r, w) \<longrightarrow> (\<exists>k. w = take k b) \<and> (r = Inr () \<longrightarrow> w = b)) \<and>
    ((\<forall>s\<in>set ss. progressing s) \<and> length b \<le> length (filter sends ss) \<longrightarrow>
       conn_write b ss = Some (Inr (), b))"
  using write_loop_prefix [of b 0 ss] write_loop_ends [of ss b 0] by (auto simp: conn_write_def)

lemma write_complete_witness:
  "conn_write ''abc'' [Sent 2, SInterrupted, Sent 1, Sent 1] = Some (Inr (), ''abc'')"
proof -
  have "(\<forall>s\<in>set [Sent 2, SInterrupted, Sent 1, Sent 1]. progressing s) \<and>
      length ''abc'' \<le> length (filter sends [Sent 2, SInterrupted, Sent 1, Sent 1])"
    by (simp add: progressing_def sends_def)
  with write_complete [of "''abc''" "[Sent 2, SInterrupted, Sent 1, Sent 1]"] show ?thesis by blast
qed

text \<open>
  C5: The TCP store is a put and a get of the server's shared map: whatever the
  fragmentation of requests and replies, a put stores its value under its key and returns,
  and a get waits for the key and returns its value, or throws after the server's timeout.
\<close>

theorem tcp_requests_refine_store:
  assumes "can_hold srv key" and "can_hold srv value" and "can_hold cl value"
  shows "tcp_put srv f key value = Put key value (\<lambda>_. Done (Inr ())) \<and>
    (\<exists>h. tcp_get srv cl f key = Get key (\<lambda>r. Done (h r)) \<and>
       h (Inr value) = Inr value \<and> (\<forall>e. h (Inl e) = Inl (request_error key)))"
  using tcp_put_eq [OF assms(1,2)] tcp_get_eq [OF assms(1)] get_reply_fragment [OF assms(3)]
  by (intro conjI exI [of _ "\<lambda>r. case r of
      Inl e \<Rightarrow> Inl (request_error key)
    | Inr v \<Rightarrow> get_reply cl key (fragment (f (''K'' @ string_wire v)) (''K'' @ string_wire v))"])
    auto

lemma tcp_requests_refine_store_witness:
  "tcp_put (\<lambda>_. None) (\<lambda>_. [0, 1, 3]) ''k'' ''value'' = Put ''k'' ''value'' (\<lambda>_. Done (Inr ()))"
  using tcp_requests_refine_store [of "\<lambda>_. None" "''k''" "''value''" "\<lambda>_. None" "\<lambda>_. [0, 1, 3]"] by (simp add: can_hold_def)

text \<open>
  C12: A server whose write of a value fails after its length (the value is not empty) leaves a reply that ends there,
  and the get of such a reply does not throw where the client can make a string of that length: it
  returns that many zero bytes, since \<open>ReadString\<close> ignores that its second read met the end of the
  stream. Where the client cannot (\<open>std::length_error\<close>, \<open>std::bad_alloc\<close>), the get throws that.
\<close>

theorem truncated_reply_is_zeros:
  assumes "can_hold srv key" and "0 < n" and "n < 2 ^ 64"
  shows "serve srv (fragment (f (get_request key)) (get_request key)) [None, None, Some 0] =
      Get key (\<lambda>r. case r of
        Inl e \<Rightarrow> Done ''T'' | Inr v \<Rightarrow> Done (CHR ''K'' # le_bytes 8 (length v))) \<and>
    get_reply cl key [Data (CHR ''K'' # le_bytes 8 n)] =
      (case cl n of None \<Rightarrow> Inr (replicate n (char_of (0 :: nat))) | Some e \<Rightarrow> Inl e)"
proof
  from serve_get [where rest = "[]" and es = "fragment (f (get_request key)) (get_request key)", OF _ assms(1)]
  obtain es' where "\<And>ws. serve srv (fragment (f (get_request key)) (get_request key)) ws =
      Get key (\<lambda>r. case server_writes (case r of Inl e \<Rightarrow> [''T''] | Inr v \<Rightarrow> [''K'', le_bytes 8 (length v), v]) ws of
        (sent, ok, ws') \<Rightarrow> if ok then prog_bind (serve srv es' ws') (\<lambda>out. Done (sent @ out)) else Done sent)" "payload es' = []"
    by auto
  then show "serve srv (fragment (f (get_request key)) (get_request key)) [None, None, Some 0] =
      Get key (\<lambda>r. case r of Inl e \<Rightarrow> Done ''T'' | Inr v \<Rightarrow> Done (CHR ''K'' # le_bytes 8 (length v)))"
    by (auto simp: serve_end fun_eq_iff split: sum.splits)
  have "conn_read (Suc 0) [Data (CHR ''K'' # le_bytes 8 n)] = (Inr (True, ''K''), [Data (le_bytes 8 n)])"
    by (simp add: conn_read_def read_loop_turn [where q = "RBytes ''K''"] read_loop_end)
  moreover have "conn_read 8 [Data (le_bytes 8 n)] = (Inr (True, le_bytes 8 n), [])"
    by (simp add: conn_read_def read_loop_turn [where q = "RBytes (le_bytes 8 n)"] read_loop_end
        flip: length_greater_0_conv)
  moreover have "conn_read n [] = (Inr (False, []), [])"
    using assms by (simp add: conn_read_def read_loop_turn [where q = RClosed])
  ultimately show "get_reply cl key [Data (CHR ''K'' # le_bytes 8 n)] =
      (case cl n of None \<Rightarrow> Inr (replicate n (char_of (0 :: nat))) | Some e \<Rightarrow> Inl e)"
    using assms(3) by (simp add: get_reply_def expect_def read_string_def le_value_le_bytes_8 split: option.split)
qed

lemma truncated_reply_is_zeros_witness:
  "get_reply (\<lambda>n. if 2 ^ 63 \<le> n then Some ''length_error'' else None) ''k'' [Data (CHR ''K'' # le_bytes 8 2)] =
     Inr (replicate 2 (char_of (0 :: nat))) \<and>
   get_reply (\<lambda>n. if 2 ^ 63 \<le> n then Some ''length_error'' else None) ''k'' [Data (CHR ''K'' # le_bytes 8 (2 ^ 63))] =
     Inl ''length_error''"
  using truncated_reply_is_zeros [of "\<lambda>_. None" "''k''" 2 "\<lambda>_. []" "\<lambda>n. if 2 ^ 63 \<le> n then Some ''length_error'' else None"]
    truncated_reply_is_zeros [of "\<lambda>_. None" "''k''" "2 ^ 63" "\<lambda>_. []" "\<lambda>n. if 2 ^ 63 \<le> n then Some ''length_error'' else None"]
  by (simp add: can_hold_def)

text \<open>
  Addresses are read back: host and port of \<open>host:port\<close>, the brackets of an IPv6
  host removed, and the server listens on that port.
\<close>

theorem address_roundtrip:
  assumes "p < 2 ^ 31" and "listen (int p) = Inr ()"
    and "length host \<le> 1 \<or> hd host \<noteq> CHR ''['' \<or> last host \<noteq> CHR '']''"
  shows "make_tcp_store listen (host @ '':'' @ show_nat p) serving =
      Inr \<lparr>ts_host = host, ts_port = show_nat p, ts_server = (if serving then Some (int p) else None)\<rparr> \<and>
    make_tcp_store listen (''['' @ host @ '']:'' @ show_nat p) serving =
      Inr \<lparr>ts_host = host, ts_port = show_nat p, ts_server = (if serving then Some (int p) else None)\<rparr>"
proof -
  have "rfind_colon (''['' @ host @ '']:'' @ show_nat p) = Some (length host + 2)"
    using rfind_colon_append [OF colon_show_nat [of p], of "''['' @ host @ '']''"] by simp
  then show ?thesis
    using assms(2,3) stoi_show_nat [OF assms(1)] make_tcp_store_plain [of p listen host serving, OF assms]
    by (auto simp: make_tcp_store_def Let_def)
qed

lemma address_roundtrip_witness:
  "make_tcp_store (\<lambda>_. Inr ()) (''[::1]:'' @ show_nat 8471) True =
     Inr \<lparr>ts_host = ''::1'', ts_port = show_nat 8471, ts_server = Some 8471\<rparr>"
  using address_roundtrip [of 8471 "\<lambda>_. Inr ()" "''::1''" True] by simp

text \<open>
  While connecting, the descriptors opened are the ones returned or closed: their
  sequence is a prefix of the descriptors of the attempts, in order; and the loop ends at the
  latest with an attempt after the deadline.
\<close>

theorem connect_no_leak:
  shows "(\<exists>rest. all_descriptors as =
      snd (connect_loop deadline what as) @ returned (fst (connect_loop deadline what as)) @ rest) \<and>
    ((\<exists>a\<in>set as. deadline < at_now a) \<longrightarrow> fst (connect_loop deadline what as) \<noteq> None)"
  using connect_loop_descriptors [of deadline what as "fst (connect_loop deadline what as)"
      "snd (connect_loop deadline what as)"] connect_loop_ends [of as deadline what]
  by simp

lemma connect_no_leak_witness:
  "fst (connect_loop 5 ''e'' [\<lparr>at_addresses = Some [Refused 3], at_now = 7\<rparr>]) \<noteq> None"
  using connect_no_leak [of "[\<lparr>at_addresses = Some [Refused 3], at_now = 7\<rparr>]" 5 "''e''"] by simp

end
