(* ===== verification/Processes.thy ===== *)
theory Processes
  imports TcpTransport
begin

text \<open>
  \<open>cpp/libtpu_processes.cc\<close>: reading a process group from libtpu's environment variables
  and pointing TT-Metal at it. The environment is a map; the files written are a map from
  paths to contents. The temporary directory, the process id, what the file's stream says and leaves,
  what the rename, each \<open>setenv\<close> and the opening of a listening socket do are parameters.
\<close>

section \<open>State\<close>

record world =
  environ :: "string \<rightharpoonup> string"
  disk :: "string \<rightharpoonup> string"

text \<open>
  \<open>stream_ok\<close> is what \<open>!out\<close> sees, before the buffer is flushed; \<open>left_in_file\<close> what the file holds of a text
  when the stream is closed, whose failure nobody sees (\<open>None\<close>: the file could not be opened). The
  results of \<open>setenv\<close> are ignored.
\<close>

record machine =
  temp_dir :: "string res"
  pid :: nat
  stream_ok :: bool
  left_in_file :: "string \<Rightarrow> string option"
  rename_file :: "unit res"
  setenv_ok :: "string \<Rightarrow> bool"
  open_port :: "int \<Rightarrow> unit res"

record libtpu_processes =
  lp_index :: int
  lp_count :: int
  lp_store :: tcp_store

definition set_env :: "machine \<Rightarrow> string \<Rightarrow> string \<Rightarrow> world \<Rightarrow> world" where
  "set_env m name v w = (if setenv_ok m name then w\<lparr>environ := (environ w)(name \<mapsto> v)\<rparr> else w)"

definition set_default :: "machine \<Rightarrow> string \<Rightarrow> string \<Rightarrow> world \<Rightarrow> world" where
  "set_default m name v w = (if environ w name \<noteq> None then w else set_env m name v w)"

section \<open>The mesh descriptor\<close>

abbreviation "nl \<equiv> char_of (10 :: nat)"

definition mesh_descriptor :: "nat \<Rightarrow> string" where
  "mesh_descriptor count =
     (let n = show_nat count in
        ''mesh_descriptors {'' @ [nl] @
        ''  name: \"M0\"'' @ [nl] @
        ''  arch: BLACKHOLE'' @ [nl] @
        ''  device_topology { dims: [1, '' @ n @ ''] dim_types: [LINE, LINE] }'' @ [nl] @
        ''  host_topology { dims: [1, '' @ n @ ''] }'' @ [nl] @
        ''  channels { count: 2 policy: RELAXED }'' @ [nl] @
        ''}'' @ [nl] @
        ''top_level_instance { mesh { mesh_descriptor: \"M0\" mesh_id: 0 } }'' @ [nl])"

definition mesh_path :: "string \<Rightarrow> nat \<Rightarrow> string" where
  "mesh_path dir count = dir @ ''/libtt-libtpu-mesh-1x'' @ show_nat count @ ''.textproto''"

text \<open>
  Written beside its name and renamed, so that no reader sees a file that is being written. A text that was
  cut when the stream was closed is renamed like a whole one.
\<close>

definition write_mesh_descriptor :: "machine \<Rightarrow> nat \<Rightarrow> world \<Rightarrow> string res \<times> world" where
  "write_mesh_descriptor m count w =
     (case temp_dir m of
        Inl e \<Rightarrow> (Inl e, w)
      | Inr dir \<Rightarrow>
          (let final = mesh_path dir count; temp = final @ ''.'' @ show_nat (pid m) in
           case left_in_file m (mesh_descriptor count) of
             None \<Rightarrow> (Inl (''Failed to write '' @ temp), w)
           | Some written \<Rightarrow>
               (let w = w\<lparr>disk := (disk w)(temp \<mapsto> written)\<rparr> in
                if \<not> stream_ok m then (Inl (''Failed to write '' @ temp), w)
                else case rename_file m of
                    Inl e \<Rightarrow> (Inl e, w)
                  | Inr _ \<Rightarrow> (Inr final, w\<lparr>disk := (disk w)(final := disk w temp, temp := None)\<rparr>))))"

text \<open>Where it returns.\<close>

definition mesh_ok :: "machine \<Rightarrow> nat \<Rightarrow> bool" where
  "mesh_ok m count \<longleftrightarrow> (\<exists>dir. temp_dir m = Inr dir) \<and> left_in_file m (mesh_descriptor count) \<noteq> None \<and> stream_ok m \<and> rename_file m = Inr ()"

section \<open>Configuration\<close>

text \<open>\<open>std::getline\<close> with a comma until the stream ends.\<close>

function split_commas :: "string \<Rightarrow> string list" where
  "split_commas s =
     (if s = [] then []
      else takeWhile (\<lambda>c. c \<noteq> CHR '','') s # split_commas (drop 1 (dropWhile (\<lambda>c. c \<noteq> CHR '','') s)))"
  by pat_completeness auto
termination
proof (relation "measure length")
  fix s :: string
  assume "s \<noteq> []"
  moreover have "length (dropWhile (\<lambda>c. c \<noteq> CHR '','') s) \<le> length s"
    by (rule length_dropWhile_le)
  ultimately show "(drop 1 (dropWhile (\<lambda>c. c \<noteq> CHR '','') s), s) \<in> measure length"
    by (cases s) auto
qed simp

declare split_commas.simps [simp del]

definition show_chip :: "machine \<Rightarrow> world \<Rightarrow> world" where
  "show_chip m w =
     (case environ w ''TPU_VISIBLE_CHIPS'' of
        Some chip \<Rightarrow> set_default m ''TT_VISIBLE_DEVICES'' chip w
      | None \<Rightarrow> w)"

definition point_at_mesh :: "machine \<Rightarrow> nat \<Rightarrow> int \<Rightarrow> world \<Rightarrow> unit res \<times> world" where
  "point_at_mesh m count index w =
     (if environ w ''TT_MESH_GRAPH_DESC_PATH'' \<noteq> None then (Inr (), w)
      else case write_mesh_descriptor m count w of
          (Inl e, w) \<Rightarrow> (Inl e, w)
        | (Inr fn, w) \<Rightarrow>
            (Inr (),
             set_default m ''TT_MESH_HOST_RANK'' (show_int index)
               (set_default m ''TT_MESH_ID'' ''0''
                 (set_env m ''TT_MESH_GRAPH_DESC_PATH'' fn w))))"

definition configure_libtpu_processes ::
  "machine \<Rightarrow> world \<Rightarrow> libtpu_processes option res \<times> world" where
  "configure_libtpu_processes m w =
     (case (environ w ''TPU_PROCESS_ADDRESSES'', environ w ''CLOUD_TPU_TASK_ID'') of
        (Some addresses, Some task) \<Rightarrow>
          (let processes = split_commas addresses; count = length processes in
           case stoi task of
             Inl e \<Rightarrow> (Inl e, w)
           | Inr index \<Rightarrow>
               if index < 0 \<or> int count \<le> index
               then (Inl ''CLOUD_TPU_TASK_ID is out of range'', w)
               else
                 (case point_at_mesh m count index (show_chip m w) of
                    (Inl e, w) \<Rightarrow> (Inl e, w)
                  | (Inr _, w) \<Rightarrow>
                      if count = 1 then (Inr None, w)
                      else (case make_tcp_store (open_port m) (processes ! 0) (index = 0) of
                          Inl e \<Rightarrow> (Inl e, w)
                        | Inr s \<Rightarrow>
                            (Inr (Some \<lparr>lp_index = index, lp_count = int count, lp_store = s\<rparr>), w))))
      | _ \<Rightarrow> (Inr None, w))"

section \<open>Splitting\<close>

lemma split_commas_Nil [simp]: "split_commas [] = []"
  by (subst split_commas.simps) simp

lemma split_commas_append:
  "CHR '','' \<notin> set t \<Longrightarrow> split_commas (t @ CHR '','' # s) = t # split_commas s"
  by (subst split_commas.simps) (auto simp: takeWhile_append dropWhile_append)

lemma split_commas_token:
  assumes "CHR '','' \<notin> set t" and "t \<noteq> []"
  shows "split_commas t = [t]"
proof -
  have "takeWhile (\<lambda>c. c \<noteq> CHR '','') t = t" and "dropWhile (\<lambda>c. c \<noteq> CHR '','') t = []"
    using assms(1) by (auto simp: takeWhile_eq_all_conv)
  with assms(2) show ?thesis
    by (subst split_commas.simps) (simp del: dropWhile_eq_Nil_conv takeWhile_eq_all_conv)
qed

text \<open>The addresses as libtpu joins them.\<close>

fun join_commas :: "string list \<Rightarrow> string" where
  "join_commas [] = []"
| "join_commas [t] = t"
| "join_commas (t # u # ts) = t @ CHR '','' # join_commas (u # ts)"

lemma split_join_commas:
  "\<forall>t\<in>set ts. CHR '','' \<notin> set t \<and> t \<noteq> [] \<Longrightarrow> split_commas (join_commas ts) = ts"
  by (induction ts rule: join_commas.induct) (auto simp: split_commas_token split_commas_append)

section \<open>What is kept of the environment\<close>

definition tt_vars :: "string set" where
  "tt_vars = {''TT_VISIBLE_DEVICES'', ''TT_MESH_GRAPH_DESC_PATH'', ''TT_MESH_ID'', ''TT_MESH_HOST_RANK''}"

definition keeps_env :: "world \<Rightarrow> world \<Rightarrow> bool" where
  "keeps_env w w' \<longleftrightarrow> (\<forall>x v. environ w x = Some v \<longrightarrow> environ w' x = Some v) \<and>
     (\<forall>x. x \<notin> tt_vars \<longrightarrow> environ w' x = environ w x)"

lemma keeps_env_refl [simp]: "keeps_env w w"
  by (simp add: keeps_env_def)

lemma keeps_env_trans: "keeps_env a b \<Longrightarrow> keeps_env b c \<Longrightarrow> keeps_env a c"
  by (simp add: keeps_env_def)

lemma keeps_env_default: "x \<in> tt_vars \<Longrightarrow> keeps_env w (set_default m x v w)"
  by (auto simp: keeps_env_def set_default_def set_env_def)

lemma keeps_env_set: "x \<in> tt_vars \<Longrightarrow> environ w x = None \<Longrightarrow> keeps_env w (set_env m x v w)"
  by (auto simp: keeps_env_def set_env_def)

lemma tt_vars_member:
  "''TT_VISIBLE_DEVICES'' \<in> tt_vars" "''TT_MESH_GRAPH_DESC_PATH'' \<in> tt_vars"
  "''TT_MESH_ID'' \<in> tt_vars" "''TT_MESH_HOST_RANK'' \<in> tt_vars"
  by (simp_all add: tt_vars_def)

section \<open>What a successful configuration is\<close>

lemma set_default_files [simp]: "disk (set_default m x v w) = disk w"
  by (simp add: set_default_def set_env_def)

lemma set_env_files [simp]: "disk (set_env m x v w) = disk w"
  by (simp add: set_env_def)

lemma write_mesh_env: "write_mesh_descriptor m n w = (r, w') \<Longrightarrow> environ w' = environ w"
  by (auto simp: write_mesh_descriptor_def Let_def split: if_splits sum.splits option.splits)

lemma keeps_env_environ: "environ w' = environ w \<Longrightarrow> keeps_env w w'"
  by (simp add: keeps_env_def)

lemma keeps_env_chip: "keeps_env w (show_chip m w)"
  by (auto simp: show_chip_def keeps_env_default tt_vars_member split: option.splits)

lemma mesh_keeps_env:
  assumes "point_at_mesh m count index w = (r, w')"
  shows "keeps_env w w'"
proof (cases "environ w ''TT_MESH_GRAPH_DESC_PATH'' = None")
  case True
  obtain q w1 where q: "write_mesh_descriptor m count w = (q, w1)" by fastforce
  note env = write_mesh_env [OF q]
  show ?thesis
  proof (cases q)
    case (Inl e)
    with assms True q env show ?thesis by (auto simp: point_at_mesh_def intro: keeps_env_environ)
  next
    case (Inr fn)
    let ?w2 = "set_env m ''TT_MESH_GRAPH_DESC_PATH'' fn w1"
    let ?w3 = "set_default m ''TT_MESH_ID'' ''0'' ?w2"
    have w': "w' = set_default m ''TT_MESH_HOST_RANK'' (show_int index) ?w3"
      using assms True q Inr by (simp add: point_at_mesh_def)
    have k1: "keeps_env w w1" using env by (rule keeps_env_environ)
    have k2: "keeps_env w1 ?w2"
      using True env by (intro keeps_env_set) (simp_all add: tt_vars_member)
    have k3: "keeps_env ?w2 ?w3" by (intro keeps_env_default tt_vars_member)
    have "keeps_env ?w3 (set_default m ''TT_MESH_HOST_RANK'' (show_int index) ?w3)"
      by (intro keeps_env_default tt_vars_member)
    then show ?thesis
      unfolding w' by (intro keeps_env_trans [OF k1] keeps_env_trans [OF k2] keeps_env_trans [OF k3])
  qed
next
  case False
  with assms show ?thesis by (auto simp: point_at_mesh_def)
qed

text \<open>The ways a configuration can go.\<close>

lemma configure_cases:
  obtains (unchanged) r where "configure_libtpu_processes m w = (r, w)" and "\<And>p. r \<noteq> Inr (Some p)"
  | (pointed) addresses task index q w' r where
      "environ w ''TPU_PROCESS_ADDRESSES'' = Some addresses" "environ w ''CLOUD_TPU_TASK_ID'' = Some task"
      "stoi task = Inr index" "0 \<le> index" "index < int (length (split_commas addresses))"
      "point_at_mesh m (length (split_commas addresses)) index (show_chip m w) = (q, w')"
      "configure_libtpu_processes m w = (r, w')"
      "\<And>p. r = Inr (Some p) \<Longrightarrow> q = Inr () \<and> length (split_commas addresses) \<noteq> 1 \<and>
         make_tcp_store (open_port m) (split_commas addresses ! 0) (index = 0) = Inr (lp_store p) \<and>
         lp_index p = index \<and> lp_count p = int (length (split_commas addresses))"
proof (cases "environ w ''TPU_PROCESS_ADDRESSES''")
  case None
  show ?thesis
    by (rule unchanged [of "Inr None"]) (simp_all add: configure_libtpu_processes_def None)
next
  case a: (Some addresses)
  show ?thesis
  proof (cases "environ w ''CLOUD_TPU_TASK_ID''")
    case None
    show ?thesis
      by (rule unchanged [of "Inr None"]) (simp_all add: configure_libtpu_processes_def None a)
  next
    case t: (Some task)
    let ?n = "length (split_commas addresses)"
    show ?thesis
    proof (cases "stoi task")
      case (Inl e)
      show ?thesis
        by (rule unchanged [of "Inl e"]) (simp_all add: configure_libtpu_processes_def Let_def a t Inl)
    next
      case i: (Inr index)
      obtain q w' where q: "point_at_mesh m ?n index (show_chip m w) = (q, w')" by fastforce
      show ?thesis
      proof (cases "index < 0 \<or> int ?n \<le> index")
        case True
        show ?thesis
          by (rule unchanged [of "Inl ''CLOUD_TPU_TASK_ID is out of range''"])
            (simp_all add: configure_libtpu_processes_def Let_def a t i True)
      next
        case False
        let ?r = "case q of Inl e \<Rightarrow> Inl e | Inr _ \<Rightarrow>
            if ?n = 1 then Inr None
            else case make_tcp_store (open_port m) (split_commas addresses ! 0) (index = 0) of
                Inl e \<Rightarrow> Inl e
              | Inr s \<Rightarrow> Inr (Some \<lparr>lp_index = index, lp_count = int ?n, lp_store = s\<rparr>)"
        have "configure_libtpu_processes m w = (?r, w')"
          by (simp add: configure_libtpu_processes_def Let_def a t i q False split: sum.split)
        with False show ?thesis
          by (intro pointed [OF a t i _ _ q]) (auto split: sum.splits if_splits)
      qed
    qed
  qed
qed

lemma configure_keeps_env: "keeps_env w (snd (configure_libtpu_processes m w))"
proof (cases rule: configure_cases [of m w])
  case (unchanged r)
  then show ?thesis by simp
next
  case (pointed addresses task index q w' r)
  with keeps_env_trans [OF keeps_env_chip mesh_keeps_env [OF pointed(6)]] show ?thesis by simp
qed

text \<open>After pointing at the mesh its variables are there, and the whole file if the stream left it whole.\<close>

lemma point_at_mesh_result:
  "fst (point_at_mesh m count index w) = Inr () \<longleftrightarrow> environ w ''TT_MESH_GRAPH_DESC_PATH'' \<noteq> None \<or> mesh_ok m count"
  by (auto simp: point_at_mesh_def write_mesh_descriptor_def mesh_ok_def Let_def split: option.splits sum.splits if_splits prod.splits)

lemma point_at_mesh_sets:
  assumes "environ w ''TT_MESH_GRAPH_DESC_PATH'' = None" and "mesh_ok m count" and "\<And>x. setenv_ok m x"
    and "temp_dir m = Inr dir" and "left_in_file m (mesh_descriptor count) = Some (mesh_descriptor count)"
  shows "\<exists>w'. point_at_mesh m count index w = (Inr (), w') \<and> environ w' ''TT_MESH_GRAPH_DESC_PATH'' = Some (mesh_path dir count) \<and>
    disk w' (mesh_path dir count) = Some (mesh_descriptor count)"
  using assms
  by (auto simp: point_at_mesh_def write_mesh_descriptor_def mesh_ok_def Let_def set_default_def set_env_def split: option.splits)

lemma show_chip_mesh [simp]: "environ (show_chip m w) ''TT_MESH_GRAPH_DESC_PATH'' = environ w ''TT_MESH_GRAPH_DESC_PATH''"
  by (simp add: show_chip_def set_default_def set_env_def split: option.split)

text \<open>When a configuration yields a group.\<close>

lemma configure_yields:
  "fst (configure_libtpu_processes m w) = Inr (Some p) \<longleftrightarrow>
    (\<exists>addresses task. environ w ''TPU_PROCESS_ADDRESSES'' = Some addresses \<and> environ w ''CLOUD_TPU_TASK_ID'' = Some task \<and>
       stoi task = Inr (lp_index p) \<and> 0 \<le> lp_index p \<and> lp_index p < lp_count p \<and>
       lp_count p = int (length (split_commas addresses)) \<and> 2 \<le> lp_count p \<and>
       (environ w ''TT_MESH_GRAPH_DESC_PATH'' \<noteq> None \<or> mesh_ok m (length (split_commas addresses))) \<and>
       make_tcp_store (open_port m) (split_commas addresses ! 0) (lp_index p = 0) = Inr (lp_store p))"
  (is "?left \<longleftrightarrow> ?right")
proof -
  have mesh: "(\<exists>w'. point_at_mesh m n i (show_chip m w) = (Inr (), w')) \<longleftrightarrow> environ w ''TT_MESH_GRAPH_DESC_PATH'' \<noteq> None \<or> mesh_ok m n" for n i
    using point_at_mesh_result [of m n i "show_chip m w"] by (metis fst_conv prod.collapse show_chip_mesh)
  show ?thesis
  proof
    assume left: ?left
    show ?right
    proof (cases rule: configure_cases [of m w])
      case (unchanged r)
      with left show ?thesis by simp
    next
      case (pointed addresses task index q w' r)
      from pointed(7) left have "r = Inr (Some p)" by simp
      note group = pointed(8) [OF this]
      with pointed(6) mesh have "environ w ''TT_MESH_GRAPH_DESC_PATH'' \<noteq> None \<or> mesh_ok m (length (split_commas addresses))" by blast
      with group pointed(1-5) show ?thesis by auto
    qed
  next
    assume ?right
    then obtain addresses task where a: "environ w ''TPU_PROCESS_ADDRESSES'' = Some addresses" "environ w ''CLOUD_TPU_TASK_ID'' = Some task"
      "stoi task = Inr (lp_index p)" "0 \<le> lp_index p" "lp_index p < lp_count p" "lp_count p = int (length (split_commas addresses))" "2 \<le> lp_count p"
      "environ w ''TT_MESH_GRAPH_DESC_PATH'' \<noteq> None \<or> mesh_ok m (length (split_commas addresses))"
      "make_tcp_store (open_port m) (split_commas addresses ! 0) (lp_index p = 0) = Inr (lp_store p)" by blast
    from mesh a(8) obtain w' where "point_at_mesh m (length (split_commas addresses)) (lp_index p) (show_chip m w) = (Inr (), w')" by blast
    then show ?left using a by (simp add: configure_libtpu_processes_def Let_def)
  qed
qed

lemma configure_group:
  assumes "\<forall>t\<in>set ts. CHR '','' \<notin> set t \<and> t \<noteq> []" and "2 \<le> length ts" and "length ts < 2 ^ 31"
    and "ts ! 0 = host @ '':'' @ show_nat p" and "p < 2 ^ 31" and "open_port m (int p) = Inr ()"
    and "length host \<le> 1 \<or> hd host \<noteq> CHR ''['' \<or> last host \<noteq> CHR '']''"
    and "environ w ''TPU_PROCESS_ADDRESSES'' = Some (join_commas ts)" and "i < length ts"
    and "environ w ''CLOUD_TPU_TASK_ID'' = Some (show_nat i)" and "mesh_ok m (length ts)"
    and "environ w ''TT_MESH_GRAPH_DESC_PATH'' = None" and "\<And>x. setenv_ok m x" and "temp_dir m = Inr dir"
    and "left_in_file m (mesh_descriptor (length ts)) = Some (mesh_descriptor (length ts))"
  shows "\<exists>w'. configure_libtpu_processes m w =
      (Inr (Some \<lparr>lp_index = int i, lp_count = int (length ts), lp_store = \<lparr>ts_host = host,
         ts_port = show_nat p, ts_server = (if i = 0 then Some (int p) else None)\<rparr>\<rparr>), w') \<and>
    environ w' ''TT_MESH_GRAPH_DESC_PATH'' = Some (mesh_path dir (length ts)) \<and>
    disk w' (mesh_path dir (length ts)) = Some (mesh_descriptor (length ts))"
proof -
  have index: "stoi (show_nat i) = Inr (int i)"
    using assms(3,9) by (intro stoi_show_nat) simp
  have store: "make_tcp_store (open_port m) (ts ! 0) (int i = 0) = Inr \<lparr>ts_host = host,
      ts_port = show_nat p, ts_server = (if i = 0 then Some (int p) else None)\<rparr>"
    using make_tcp_store_plain [of p "open_port m" host "int i = 0", OF assms(5-7)] assms(4) by simp
  have "environ (show_chip m w) ''TT_MESH_GRAPH_DESC_PATH'' = None" using assms(12) by simp
  from point_at_mesh_sets [OF this assms(11,13,14,15), of "int i"] obtain w' where
    q: "point_at_mesh m (length ts) (int i) (show_chip m w) = (Inr (), w')" and
    mesh: "environ w' ''TT_MESH_GRAPH_DESC_PATH'' = Some (mesh_path dir (length ts))"
      "disk w' (mesh_path dir (length ts)) = Some (mesh_descriptor (length ts))" by blast
  have "configure_libtpu_processes m w =
      (Inr (Some \<lparr>lp_index = int i, lp_count = int (length ts), lp_store = \<lparr>ts_host = host,
         ts_port = show_nat p, ts_server = (if i = 0 then Some (int p) else None)\<rparr>\<rparr>), w')"
    using assms(2,8,9,10) index store q split_join_commas [OF assms(1)]
    by (simp add: configure_libtpu_processes_def Let_def)
  with mesh show ?thesis by blast
qed

section \<open>An example\<close>

definition example_env :: world where
  "example_env = \<lparr>environ = [''TPU_PROCESS_ADDRESSES'' \<mapsto> ''a:1,b:2'', ''CLOUD_TPU_TASK_ID'' \<mapsto> ''1''],
     disk = Map.empty\<rparr>"

definition example_machine :: machine where
  "example_machine = \<lparr>temp_dir = Inr ''/tmp'', pid = 7, stream_ok = True, left_in_file = Some, rename_file = Inr (),
     setenv_ok = (\<lambda>_. True), open_port = (\<lambda>_. Inr ())\<rparr>"

lemma example_conditions:
  "\<forall>t\<in>set [''a:1'', ''b:2'']. CHR '','' \<notin> set t \<and> t \<noteq> []" "2 \<le> length [''a:1'', ''b:2'']"
  "length [''a:1'', ''b:2''] < 2 ^ 31" "[''a:1'', ''b:2''] ! 0 = ''a'' @ '':'' @ show_nat 1"
  "(1 :: nat) < 2 ^ 31" "open_port example_machine (int 1) = Inr ()"
  "length ''a'' \<le> 1 \<or> hd ''a'' \<noteq> CHR ''['' \<or> last ''a'' \<noteq> CHR '']''"
  "environ example_env ''TPU_PROCESS_ADDRESSES'' = Some (join_commas [''a:1'', ''b:2''])"
  "1 < length [''a:1'', ''b:2'']" "environ example_env ''CLOUD_TPU_TASK_ID'' = Some (show_nat 1)"
  "mesh_ok example_machine (length [''a:1'', ''b:2''])" "environ example_env ''TT_MESH_GRAPH_DESC_PATH'' = None"
  "setenv_ok example_machine x" "temp_dir example_machine = Inr ''/tmp''"
  "left_in_file example_machine (mesh_descriptor (length [''a:1'', ''b:2''])) = Some (mesh_descriptor (length [''a:1'', ''b:2'']))"
  by (simp_all add: example_env_def example_machine_def mesh_ok_def show_nat.simps char_of_def bit_iff_odd)

section \<open>Properties\<close>

text \<open>
  C13: Configuring never changes a variable that is set and touches only the four TT-Metal
  variables. It yields a process group exactly where both libtpu variables are set, the task is a number
  below the count of addresses, of which there are several, the mesh is described already or its
  descriptor gets written, and the store of the first address can be made; the group then has that
  index, count and store, and task 0 alone serves it.
\<close>

theorem configure_processes:
  "keeps_env w (snd (configure_libtpu_processes m w)) \<and>
    (fst (configure_libtpu_processes m w) = Inr (Some p) \<longleftrightarrow>
      (\<exists>addresses task. environ w ''TPU_PROCESS_ADDRESSES'' = Some addresses \<and> environ w ''CLOUD_TPU_TASK_ID'' = Some task \<and>
         stoi task = Inr (lp_index p) \<and> 0 \<le> lp_index p \<and> lp_index p < lp_count p \<and>
         lp_count p = int (length (split_commas addresses)) \<and> 2 \<le> lp_count p \<and>
         (environ w ''TT_MESH_GRAPH_DESC_PATH'' \<noteq> None \<or> mesh_ok m (length (split_commas addresses))) \<and>
         make_tcp_store (open_port m) (split_commas addresses ! 0) (lp_index p = 0) = Inr (lp_store p)))"
  using configure_keeps_env configure_yields by blast

lemma configure_processes_witness:
  "fst (configure_libtpu_processes example_machine example_env) =
     Inr (Some \<lparr>lp_index = 1, lp_count = 2, lp_store = \<lparr>ts_host = ''a'', ts_port = ''1'', ts_server = None\<rparr>\<rparr>)"
proof -
  have "split_commas ''a:1,b:2'' = [''a:1'', ''b:2'']" using split_commas_append [of "''a:1''" "''b:2''"] by (simp add: split_commas_token)
  moreover have "stoi ''1'' = Inr 1" "make_tcp_store (open_port example_machine) ''a:1'' False = Inr \<lparr>ts_host = ''a'', ts_port = ''1'', ts_server = None\<rparr>"
    using stoi_show_nat [of 1] by (simp_all add: make_tcp_store_def show_nat.simps char_of_def bit_iff_odd)
  moreover have "mesh_ok example_machine 2" using example_conditions(11) by (simp add: numeral_2_eq_2)
  ultimately show ?thesis
    by (subst configure_processes [THEN conjunct2]) (simp add: example_env_def numeral_2_eq_2)
qed

text \<open>
  C14: The processes of a group that is given by a list of addresses configure themselves
  alike: process \<open>i\<close> has index \<open>i\<close> and the count of addresses, all connect to the first
  address, which the first process alone serves, and where no mesh was described the
  descriptor of one line of that many chips is on disk at the path the variable names. The file
  and the variables are taken to be written: the source does not see it when they are not.
\<close>

theorem group_configured:
  assumes "\<forall>t\<in>set ts. CHR '','' \<notin> set t \<and> t \<noteq> []" and "2 \<le> length ts" and "length ts < 2 ^ 31"
    and "ts ! 0 = host @ '':'' @ show_nat p" and "p < 2 ^ 31" and "open_port m (int p) = Inr ()"
    and "length host \<le> 1 \<or> hd host \<noteq> CHR ''['' \<or> last host \<noteq> CHR '']''"
    and "environ w ''TPU_PROCESS_ADDRESSES'' = Some (join_commas ts)" and "i < length ts"
    and "environ w ''CLOUD_TPU_TASK_ID'' = Some (show_nat i)" and "mesh_ok m (length ts)"
    and "environ w ''TT_MESH_GRAPH_DESC_PATH'' = None" and "\<And>x. setenv_ok m x" and "temp_dir m = Inr dir"
    and "left_in_file m (mesh_descriptor (length ts)) = Some (mesh_descriptor (length ts))"
  shows "\<exists>w'. configure_libtpu_processes m w =
      (Inr (Some \<lparr>lp_index = int i, lp_count = int (length ts), lp_store = \<lparr>ts_host = host,
         ts_port = show_nat p, ts_server = (if i = 0 then Some (int p) else None)\<rparr>\<rparr>), w') \<and>
    environ w' ''TT_MESH_GRAPH_DESC_PATH'' = Some (mesh_path dir (length ts)) \<and>
    disk w' (mesh_path dir (length ts)) = Some (mesh_descriptor (length ts))"
  using assms by (rule configure_group)

lemma group_configured_witness:
  "\<exists>w' :: world. environ w' ''TT_MESH_GRAPH_DESC_PATH'' = Some (mesh_path ''/tmp'' (length [''a:1'', ''b:2''])) \<and>
     disk w' (mesh_path ''/tmp'' (length [''a:1'', ''b:2''])) =
       Some (mesh_descriptor (length [''a:1'', ''b:2'']))"
  using group_configured [OF example_conditions] by blast

end
