(* ===== verification/RuntimeRoot.thy ===== *)
theory RuntimeRoot
  imports Prelude
begin

text \<open>
  \<open>cpp/tt_metal_runtime_root.cc\<close>: processes that start together extract the embedded runtime
  archive into one directory, the first under a file lock, and the others reuse it. Each
  call of the source that another process can see, or that can fail, is a step; the answer
  of the system to it is a parameter of the step, and a process can be killed at any point
  (the kernel then drops its lock). What libarchive does to write one entry is one step,
  which may leave any content behind when it fails. The temporary directory is an absolute path.
\<close>

section \<open>State\<close>

text \<open>
  Where a process is in \<open>EnsureTtMetalRuntimeReady\<close>, by the call that it makes next:
  \<open>temp_directory_path\<close>, \<open>open\<close> and \<open>flock\<close> of the lock file, \<open>exists\<close> of the marker;
  in \<open>ExtractEmbeddedRuntimeArchive\<close> \<open>create_directories\<close>, \<open>archive_read_new\<close>, \<open>open\<close> and
  \<open>chdir\<close> of the directory guard, the opening of the archive, the header and the data of an
  entry, and the guard's \<open>fchdir\<close>; \<open>open\<close> of the marker, \<open>close\<close> of the lock file, \<open>setenv\<close>. An
  exception inside the lock's scope unwinds the directory guard, then the lock.
\<close>

datatype pc =
    Start | AtLockFile | AtLock | AtMarker | AtCreate | AtReader | AtSave | AtEnter | AtOpen | AtEntry nat | AtExtract nat
  | AtLeave | AtMark | AtUnlock | AtSetenv | Ready | Unwind string | Thrown string | Killed

text \<open>
  \<open>stayed\<close> and \<open>env_lost\<close> record that an \<open>fchdir\<close> or the \<open>setenv\<close> of the process failed, whose
  results the source ignores.
\<close>

record proc =
  at_pc :: pc
  cwd :: string
  saved_cwd :: "string option"
  root_env :: "string option"
  stayed :: bool
  env_lost :: bool

record rstate =
  lock_holder :: "nat option"
  marker :: bool
  contents :: "string \<rightharpoonup> string"
  procs :: "nat \<Rightarrow> proc"

text \<open>
  The answer of the system: success, a failure, or the process is killed, with the content
  a failed or killed extraction leaves in the file.
\<close>

datatype answer = Success | Failure "string option" | Kill "string option"

definition set_proc :: "nat \<Rightarrow> proc \<Rightarrow> rstate \<Rightarrow> rstate" where
  "set_proc i p s = s\<lparr>procs := (procs s)(i := p)\<rparr>"

definition release :: "nat \<Rightarrow> rstate \<Rightarrow> rstate" where
  "release i s = (if lock_holder s = Some i then s\<lparr>lock_holder := None\<rparr> else s)"

text \<open>The directory guard's constructor, by its two calls, and its destructor: \<open>fchdir\<close> may fail.\<close>

definition save_directory :: "proc \<Rightarrow> proc" where
  "save_directory p = p\<lparr>saved_cwd := Some (cwd p)\<rparr>"

definition enter :: "string \<Rightarrow> proc \<Rightarrow> proc" where
  "enter root p = p\<lparr>cwd := root\<rparr>"

definition restore :: "bool \<Rightarrow> proc \<Rightarrow> proc" where
  "restore ok p =
     (case saved_cwd p of
        None \<Rightarrow> p
      | Some d \<Rightarrow> if ok then p\<lparr>cwd := d, saved_cwd := None\<rparr> else p\<lparr>saved_cwd := None, stayed := True\<rparr>)"

definition kill :: "nat \<Rightarrow> rstate \<Rightarrow> rstate" where
  "kill i s = release i (set_proc i ((procs s i)\<lparr>at_pc := Killed\<rparr>) s)"

definition move :: "nat \<Rightarrow> pc \<Rightarrow> (proc \<Rightarrow> proc) \<Rightarrow> rstate \<Rightarrow> rstate" where
  "move i q f s = set_proc i ((f (procs s i))\<lparr>at_pc := q\<rparr>) s"

definition advance :: "nat \<Rightarrow> pc \<Rightarrow> rstate \<Rightarrow> rstate" where
  "advance i q s = move i q id s"

definition leave :: "string \<Rightarrow> string option \<Rightarrow> rstate \<Rightarrow> rstate" where
  "leave name junk s =
     (case junk of None \<Rightarrow> s | Some b \<Rightarrow> s\<lparr>contents := (contents s)(name \<mapsto> b)\<rparr>)"

section \<open>One step of one process\<close>

text \<open>A call that goes on where it succeeds and throws where it fails.\<close>

definition call :: "answer \<Rightarrow> nat \<Rightarrow> pc \<Rightarrow> rstate \<Rightarrow> rstate \<Rightarrow> rstate" where
  "call a i thrown next s = (case a of Success \<Rightarrow> next | Failure _ \<Rightarrow> advance i thrown s | Kill _ \<Rightarrow> kill i s)"

text \<open>A call whose result is ignored.\<close>

definition call_ignored :: "answer \<Rightarrow> nat \<Rightarrow> (bool \<Rightarrow> rstate) \<Rightarrow> rstate \<Rightarrow> rstate" where
  "call_ignored a i next s = (case a of Success \<Rightarrow> next True | Failure _ \<Rightarrow> next False | Kill _ \<Rightarrow> kill i s)"

text \<open>\<open>setenv\<close>: where it fails the environment stays as it was.\<close>

definition set_root_env :: "string \<Rightarrow> bool \<Rightarrow> proc \<Rightarrow> proc" where
  "set_root_env root ok p = (if ok then p\<lparr>root_env := Some root\<rparr> else p\<lparr>env_lost := True\<rparr>)"

text \<open>
  \<open>archive\<close> is the embedded archive, \<open>None\<close> if it has no bytes: names and contents of its
  entries in order. The result is \<open>None\<close> where the process cannot move: it waits for the
  lock, or it has ended.
\<close>

fun step_at ::
  "(string \<times> string) list option \<Rightarrow> string \<Rightarrow> answer \<Rightarrow> nat \<Rightarrow> pc \<Rightarrow> rstate \<Rightarrow> rstate option"
where
  "step_at ar root a i Start s =
     Some (call a i (Thrown ''failed to locate temporary directory'') (advance i AtLockFile s) s)"
| "step_at ar root a i AtLockFile s =
     Some (call a i (Thrown ''failed to lock tt-metal runtime directory'') (advance i AtLock s) s)"
| "step_at ar root a i AtLock s =
     (if a = Success \<and> lock_holder s \<noteq> None then None
      else Some (call a i (Thrown ''failed to lock tt-metal runtime directory'')
        (advance i AtMarker (s\<lparr>lock_holder := Some i\<rparr>)) s))"
| "step_at ar root a i AtMarker s =
     Some (call a i (Unwind ''filesystem error'') (advance i (if marker s then AtUnlock else AtCreate) s) s)"
| "step_at ar root a i AtCreate s =
     (if ar = None \<and> (\<forall>j. a \<noteq> Kill j) then Some (advance i (Unwind ''embedded tt-metal runtime archive is empty'') s)
      else Some (call a i (Unwind ''failed to create tt-metal runtime directory'') (advance i AtReader s) s))"
| "step_at ar root a i AtReader s =
     Some (call a i (Unwind ''failed to allocate tt-metal runtime archive reader'') (advance i AtSave s) s)"
| "step_at ar root a i AtSave s =
     Some (call a i (Unwind ''failed to save current directory'') (move i AtEnter save_directory s) s)"
| "step_at ar root a i AtEnter s =
     Some (case a of
        Success \<Rightarrow> move i AtOpen (enter root) s
      | Failure _ \<Rightarrow> move i (Unwind ''failed to enter tt-metal runtime directory'') (saved_cwd_update (\<lambda>_. None)) s
      | Kill _ \<Rightarrow> kill i s)"
| "step_at ar root a i AtOpen s =
     Some (call a i (Unwind ''failed to open embedded tt-metal runtime archive'') (advance i (AtEntry 0) s) s)"
| "step_at ar root a i (AtEntry k) s =
     (case ar of
        None \<Rightarrow> None
      | Some entries \<Rightarrow> Some (call a i (Unwind ''failed to read embedded tt-metal runtime archive'')
          (advance i
             (if length entries \<le> k then AtLeave
              else if fst (entries ! k) = [] then Unwind ''embedded tt-metal runtime archive has an empty path''
              else AtExtract k) s) s))"
| "step_at ar root a i (AtExtract k) s =
     (case ar of
        None \<Rightarrow> None
      | Some entries \<Rightarrow>
          let (name, data) = entries ! k in
          Some (case a of
              Success \<Rightarrow> advance i (AtEntry (Suc k)) (s\<lparr>contents := (contents s)(name \<mapsto> data)\<rparr>)
            | Failure junk \<Rightarrow> advance i (Unwind ''failed to extract embedded tt-metal runtime archive'') (leave name junk s)
            | Kill junk \<Rightarrow> kill i (leave name junk s)))"
| "step_at ar root a i AtLeave s = Some (call_ignored a i (\<lambda>ok. move i AtMark (restore ok) s) s)"
| "step_at ar root a i AtMark s =
     Some (call a i (Unwind ''failed to mark tt-metal runtime directory'') (advance i AtUnlock (s\<lparr>marker := True\<rparr>)) s)"
| "step_at ar root a i AtUnlock s = Some (call_ignored a i (\<lambda>_. release i (advance i AtSetenv s)) s)"
| "step_at ar root a i AtSetenv s = Some (call_ignored a i (\<lambda>ok. move i Ready (set_root_env root ok) s) s)"
| "step_at ar root a i (Unwind e) s =
     Some (call_ignored a i (\<lambda>ok. if saved_cwd (procs s i) = None then release i (advance i (Thrown e) s)
        else move i (Unwind e) (restore ok) s) s)"
| "step_at ar root a i (Thrown e) s = Some (advance i Start s)"
| "step_at ar root a i Ready s = None"
| "step_at ar root a i Killed s = None"

text \<open>
  \<open>std::call_once\<close>: a call that threw may be made again, one that returned is not repeated.
\<close>

definition rstep ::
  "(string \<times> string) list option \<Rightarrow> string \<Rightarrow> answer \<Rightarrow> nat \<Rightarrow> rstate \<Rightarrow> rstate option" where
  "rstep ar root a i s = step_at ar root a i (at_pc (procs s i)) s"

inductive runs_to ::
  "(string \<times> string) list option \<Rightarrow> string \<Rightarrow> rstate \<Rightarrow> rstate \<Rightarrow> bool" for ar root where
  runs_refl: "runs_to ar root s s"
| runs_step: "runs_to ar root s s' \<Longrightarrow> rstep ar root a i s' = Some s'' \<Longrightarrow> runs_to ar root s s''"

definition started :: "rstate \<Rightarrow> bool" where
  "started s \<longleftrightarrow> lock_holder s = None \<and> \<not> marker s \<and>
     (\<forall>i. at_pc (procs s i) = Start \<and> saved_cwd (procs s i) = None \<and> \<not> stayed (procs s i) \<and> \<not> env_lost (procs s i))"

section \<open>The invariant\<close>

text \<open>The contents after the first \<open>k\<close> entries; a later entry replaces an earlier one.\<close>

definition extracted :: "(string \<times> string) list \<Rightarrow> nat \<Rightarrow> string \<rightharpoonup> string" where
  "extracted entries k = foldl (\<lambda>m (n, c). m(n \<mapsto> c)) Map.empty (take k entries)"

definition has_extracted :: "(string \<times> string) list \<Rightarrow> nat \<Rightarrow> (string \<rightharpoonup> string) \<Rightarrow> bool" where
  "has_extracted entries k m \<longleftrightarrow> (\<forall>n v. extracted entries k n = Some v \<longrightarrow> m n = Some v)"

definition in_section :: "pc \<Rightarrow> bool" where
  "in_section q \<longleftrightarrow> (case q of Start \<Rightarrow> False | AtLockFile \<Rightarrow> False | AtLock \<Rightarrow> False | AtSetenv \<Rightarrow> False | Ready \<Rightarrow> False
     | Thrown _ \<Rightarrow> False | Killed \<Rightarrow> False | _ \<Rightarrow> True)"

text \<open>Home, or the root where an \<open>fchdir\<close> failed; inside the guard, the directory to return to.\<close>

definition at_home :: "string \<Rightarrow> string \<Rightarrow> proc \<Rightarrow> string \<Rightarrow> bool" where
  "at_home root home p d \<longleftrightarrow> d = home \<or> stayed p \<and> d = root"

definition unguarded :: "string \<Rightarrow> string \<Rightarrow> proc \<Rightarrow> bool" where
  "unguarded root home p \<longleftrightarrow> saved_cwd p = None \<and> at_home root home p (cwd p)"

definition guarded :: "string \<Rightarrow> string \<Rightarrow> proc \<Rightarrow> bool" where
  "guarded root home p \<longleftrightarrow> (\<exists>d. saved_cwd p = Some d \<and> at_home root home p d) \<and> cwd p = root"

definition progress_ok :: "(string \<times> string) list option \<Rightarrow> bool \<Rightarrow> (string \<rightharpoonup> string) \<Rightarrow> pc \<Rightarrow> bool" where
  "progress_ok ar mk m q \<longleftrightarrow>
     (case q of
        AtCreate \<Rightarrow> \<not> mk | AtReader \<Rightarrow> \<not> mk \<and> ar \<noteq> None | AtSave \<Rightarrow> \<not> mk \<and> ar \<noteq> None | AtEnter \<Rightarrow> \<not> mk \<and> ar \<noteq> None
      | AtOpen \<Rightarrow> \<not> mk \<and> ar \<noteq> None
      | AtEntry k \<Rightarrow> \<not> mk \<and> (\<exists>es. ar = Some es \<and> k \<le> length es \<and> has_extracted es k m)
      | AtExtract k \<Rightarrow> \<not> mk \<and> (\<exists>es. ar = Some es \<and> k < length es \<and> has_extracted es k m)
      | AtLeave \<Rightarrow> \<not> mk \<and> (\<exists>es. ar = Some es \<and> has_extracted es (length es) m)
      | AtMark \<Rightarrow> \<not> mk \<and> (\<exists>es. ar = Some es \<and> has_extracted es (length es) m)
      | AtUnlock \<Rightarrow> mk | AtSetenv \<Rightarrow> mk | Ready \<Rightarrow> mk | _ \<Rightarrow> True)"

definition directory_ok :: "string \<Rightarrow> string \<Rightarrow> proc \<Rightarrow> bool" where
  "directory_ok root home p \<longleftrightarrow>
     (case at_pc p of
        AtOpen \<Rightarrow> guarded root home p | AtEntry _ \<Rightarrow> guarded root home p | AtExtract _ \<Rightarrow> guarded root home p
      | AtLeave \<Rightarrow> guarded root home p | Unwind _ \<Rightarrow> guarded root home p \<or> unguarded root home p
      | AtEnter \<Rightarrow> saved_cwd p = Some (cwd p) \<and> at_home root home p (cwd p)
      | Killed \<Rightarrow> True | _ \<Rightarrow> unguarded root home p)"

definition proc_ok ::
  "(string \<times> string) list option \<Rightarrow> string \<Rightarrow> string \<Rightarrow> bool \<Rightarrow> (string \<rightharpoonup> string) \<Rightarrow> proc \<Rightarrow> bool"
where
  "proc_ok ar root home mk m p \<longleftrightarrow> progress_ok ar mk m (at_pc p) \<and> directory_ok root home p"

text \<open>The variable of a process: as it was, until the \<open>setenv\<close> succeeds.\<close>

definition env_ok :: "string \<Rightarrow> string option \<Rightarrow> proc \<Rightarrow> bool" where
  "env_ok root env p \<longleftrightarrow> root_env p = (if at_pc p = Ready \<and> \<not> env_lost p then Some root else env) \<and> (env_lost p \<longrightarrow> at_pc p = Ready)"

definition root_inv ::
  "(string \<times> string) list option \<Rightarrow> string \<Rightarrow> (nat \<Rightarrow> string) \<Rightarrow> rstate \<Rightarrow> bool" where
  "root_inv ar root home s \<longleftrightarrow>
     (\<forall>i. in_section (at_pc (procs s i)) \<longleftrightarrow> lock_holder s = Some i) \<and>
     (marker s \<longrightarrow> (\<exists>es. ar = Some es \<and> has_extracted es (length es) (contents s))) \<and>
     (\<forall>i. proc_ok ar root (home i) (marker s) (contents s) (procs s i))"

lemmas where_defs = progress_ok_def directory_ok_def proc_ok_def

lemma extracted_Suc:
  "k < length es \<Longrightarrow> extracted es (Suc k) = (extracted es k)(fst (es ! k) \<mapsto> snd (es ! k))"
  by (simp add: extracted_def take_Suc_conv_app_nth case_prod_beta)

lemma has_extracted_0 [simp]: "has_extracted es 0 m"
  by (simp add: has_extracted_def extracted_def)

lemma has_extracted_Suc:
  "k < length es \<Longrightarrow> has_extracted es k m \<Longrightarrow>
     has_extracted es (Suc k) (m(fst (es ! k) \<mapsto> snd (es ! k)))"
  by (auto simp: has_extracted_def extracted_Suc)

lemma proc_ok_outside:
  "\<not> in_section (at_pc p) \<Longrightarrow> proc_ok ar root h mk m p \<Longrightarrow> (mk \<Longrightarrow> mk') \<Longrightarrow> proc_ok ar root h mk' m' p"
  by (auto simp: where_defs in_section_def split: pc.splits)

text \<open>A step of the process in the section, or of one that takes or needs no lock.\<close>

lemma root_inv_step:
  assumes inv: "root_inv ar root home s"
    and others: "\<And>j. lock_holder s = Some j \<Longrightarrow> j = i"
    and "procs s' = (procs s)(i := p')"
    and "lock_holder s' = (if in_section (at_pc p') then Some i else None)"
    and "marker s \<Longrightarrow> marker s'"
    and "marker s' \<Longrightarrow> \<exists>es. ar = Some es \<and> has_extracted es (length es) (contents s')"
    and "proc_ok ar root (home i) (marker s') (contents s') p'"
  shows "root_inv ar root home s'"
proof -
  have out: "\<not> in_section (at_pc (procs s j))" if "j \<noteq> i" for j
    using inv others [of j] that by (auto simp: root_inv_def)
  have "proc_ok ar root (home j) (marker s') (contents s') (procs s' j)" for j
  proof (cases "j = i")
    case False
    with inv out [OF False] assms(3,5) show ?thesis
      by (auto simp: root_inv_def intro: proc_ok_outside)
  qed (use assms(3,7) in simp)
  with assms(3,4,6) out show ?thesis
    by (auto simp: root_inv_def)
qed

text \<open>A step outside the section that keeps out of it.\<close>

lemma root_inv_outside:
  assumes inv: "root_inv ar root home s"
    and "procs s' = (procs s)(i := p')" and "lock_holder s' = lock_holder s"
    and "marker s' = marker s" and "contents s' = contents s"
    and "\<not> in_section (at_pc (procs s i))" and "\<not> in_section (at_pc p')"
    and "proc_ok ar root (home i) (marker s) (contents s) p'"
  shows "root_inv ar root home s'"
  using assms by (auto simp: root_inv_def)

lemmas step_defs = call_def call_ignored_def kill_def move_def advance_def set_proc_def release_def leave_def

lemmas guard_defs = guarded_def unguarded_def at_home_def restore_def save_directory_def enter_def

lemma inv_proc: "root_inv ar root home s \<Longrightarrow> proc_ok ar root (home i) (marker s) (contents s) (procs s i)"
  by (simp add: root_inv_def)

lemma inv_section: "root_inv ar root home s \<Longrightarrow> in_section (at_pc (procs s i)) \<Longrightarrow> lock_holder s = Some i"
  by (simp add: root_inv_def)

lemma inv_marker:
  "root_inv ar root home s \<Longrightarrow> marker s \<Longrightarrow> \<exists>es. ar = Some es \<and> has_extracted es (length es) (contents s)"
  by (simp add: root_inv_def)

text \<open>A step changes its process only, and the lock as the process comes and goes.\<close>

lemma step_own:
  assumes "rstep ar root a i s = Some s'"
  shows "procs s' = (procs s)(i := procs s' i)"
  using assms by (cases "at_pc (procs s i)"; cases a) (auto simp: rstep_def step_defs split: if_splits option.splits prod.splits)

lemma step_lock:
  assumes "rstep ar root a i s = Some s'" "in_section (at_pc (procs s i))" "lock_holder s = Some i"
  shows "lock_holder s' = (if in_section (at_pc (procs s' i)) then Some i else None)"
  using assms
  by (cases "at_pc (procs s i)"; cases a) (auto simp: rstep_def step_defs in_section_def split: if_splits option.splits prod.splits)

lemma step_marker:
  assumes "rstep ar root a i s = Some s'" "marker s"
  shows "marker s'"
  using assms by (cases "at_pc (procs s i)"; cases a) (auto simp: rstep_def step_defs split: if_splits option.splits prod.splits)

text \<open>Until the marker is there, files change only while their entries are extracted.\<close>

lemma step_marked:
  assumes "rstep ar root a i s = Some s'" "progress_ok ar (marker s) (contents s) (at_pc (procs s i))"
    and "marker s \<Longrightarrow> \<exists>es. ar = Some es \<and> has_extracted es (length es) (contents s)" "marker s'"
  shows "\<exists>es. ar = Some es \<and> has_extracted es (length es) (contents s')"
  using assms
  by (cases "at_pc (procs s i)"; cases a) (auto simp: rstep_def step_defs progress_ok_def split: if_splits option.splits prod.splits)

lemma step_progress:
  assumes "rstep ar root a i s = Some s'" "progress_ok ar (marker s) (contents s) (at_pc (procs s i))"
  shows "progress_ok ar (marker s') (contents s') (at_pc (procs s' i))"
proof (cases "at_pc (procs s i)")
  case (AtExtract k)
  then show ?thesis using assms has_extracted_Suc [of k]
    by (cases a) (auto simp: rstep_def step_defs progress_ok_def split: option.splits prod.splits, metis fst_conv snd_conv)
qed (use assms in \<open>cases a; auto simp: rstep_def step_defs progress_ok_def not_less le_antisym split: if_splits option.splits\<close>)+

lemma step_directory:
  assumes "rstep ar root a i s = Some s'" "directory_ok root home (procs s i)"
  shows "directory_ok root home (procs s' i)"
  using assms
  by (cases "at_pc (procs s i)"; cases a)
    (auto simp: rstep_def step_defs directory_ok_def guard_defs set_root_env_def split: if_splits option.splits prod.splits)

lemma step_env:
  assumes "rstep ar root a i s = Some s'" "env_ok root env (procs s i)"
  shows "env_ok root env (procs s' i)"
  using assms
  by (cases "at_pc (procs s i)"; cases a)
    (auto simp: rstep_def step_defs env_ok_def set_root_env_def restore_def save_directory_def enter_def
      split: if_splits option.splits prod.splits)

lemma step_ok:
  assumes "root_inv ar root home s" "rstep ar root a i s = Some s'"
  shows "proc_ok ar root (home i) (marker s') (contents s') (procs s' i)"
  using inv_proc [OF assms(1), of i] step_progress [OF assms(2)] step_directory [OF assms(2)]
  by (simp add: proc_ok_def)

lemma step_outside:
  assumes "rstep ar root a i s = Some s'" "\<not> in_section (at_pc (procs s i))" "lock_holder s \<noteq> Some i"
  shows "marker s' = marker s \<and> contents s' = contents s \<and>
    (if in_section (at_pc (procs s' i)) then lock_holder s = None \<and> lock_holder s' = Some i else lock_holder s' = lock_holder s)"
  using assms
  by (cases "at_pc (procs s i)"; cases a) (auto simp: rstep_def step_defs in_section_def split: if_splits option.splits prod.splits)

lemma rstep_inv:
  assumes inv: "root_inv ar root home s" and step: "rstep ar root a i s = Some s'"
  shows "root_inv ar root home s'"
proof (cases "in_section (at_pc (procs s i))")
  case True
  note lock = inv_section [OF inv True]
  have "progress_ok ar (marker s) (contents s) (at_pc (procs s i))" using inv_proc [OF inv, of i] by (simp add: proc_ok_def)
  from step_marked [OF step this inv_marker [OF inv]] step_lock [OF step True lock] step_own [OF step] step_marker [OF step] step_ok [OF inv step]
  show ?thesis by (intro root_inv_step [OF inv, where i = i and p' = "procs s' i"]) (simp_all add: lock)
next
  case False
  then have "lock_holder s \<noteq> Some i" using inv by (simp add: root_inv_def)
  note out = step_outside [OF step False this]
  show ?thesis
  proof (cases "in_section (at_pc (procs s' i))")
    case True
    then show ?thesis
      using out step_own [OF step] step_ok [OF inv step] inv_marker [OF inv]
      by (intro root_inv_step [OF inv, where i = i and p' = "procs s' i"]) simp_all
  next
    case outside: False
    then show ?thesis
      using out False step_own [OF step] step_ok [OF inv step]
      by (intro root_inv_outside [OF inv, where i = i and p' = "procs s' i"]) simp_all
  qed
qed

lemma started_inv:
  "started s \<Longrightarrow> root_inv ar root (\<lambda>i. cwd (procs s i)) s"
  by (auto simp: started_def root_inv_def where_defs guard_defs in_section_def)

lemma runs_to_inv:
  "runs_to ar root s s' \<Longrightarrow> root_inv ar root home s \<Longrightarrow> root_inv ar root home s'"
  by (induction rule: runs_to.induct) (auto intro: rstep_inv)

lemma runs_to_env:
  assumes "runs_to ar root s s'" "\<forall>i. env_ok root (env i) (procs s i)"
  shows "env_ok root (env i) (procs s' i)"
  using assms
proof (induction rule: runs_to.induct)
  case (runs_step s s' a j s'')
  have "procs s'' = (procs s')(j := procs s'' j)" by (rule step_own [OF runs_step.hyps(2)])
  then have "procs s'' i = procs s' i" if "i \<noteq> j" using that by (metis fun_upd_other)
  with runs_step step_env [OF runs_step.hyps(2)] show ?case by (cases "i = j") auto
qed simp

text \<open>After the marker no step touches a file.\<close>

lemma rstep_after_marker:
  assumes inv: "root_inv ar root home s" and mk: "marker s" and step: "rstep ar root a i s = Some s'"
  shows "marker s' \<and> contents s' = contents s"
  using step mk inv_proc [OF inv, of i]
  by (cases "at_pc (procs s i)"; cases a)
    (auto simp: rstep_def step_defs proc_ok_def progress_ok_def split: if_splits option.splits prod.splits)

lemma runs_after_marker:
  "runs_to ar root s s' \<Longrightarrow> root_inv ar root home s \<Longrightarrow> marker s \<Longrightarrow> marker s' \<and> contents s' = contents s"
proof (induction rule: runs_to.induct)
  case (runs_step s s' a i s'')
  then show ?case
    using rstep_after_marker [OF runs_to_inv [OF runs_step.hyps(1)]] by auto
qed simp

section \<open>Running one process\<close>

fun rrun ::
  "(string \<times> string) list option \<Rightarrow> string \<Rightarrow> (answer \<times> nat) list \<Rightarrow> rstate \<Rightarrow> rstate option" where
  "rrun ar root [] s = Some s"
| "rrun ar root ((a, i) # xs) s = (case rstep ar root a i s of None \<Rightarrow> None | Some s' \<Rightarrow> rrun ar root xs s')"

lemma runs_to_trans: "runs_to ar root s' s'' \<Longrightarrow> runs_to ar root s s' \<Longrightarrow> runs_to ar root s s''"
  by (induction rule: runs_to.induct) (auto intro: runs_to.runs_step)

lemma rrun_runs_to: "rrun ar root xs s = Some s' \<Longrightarrow> runs_to ar root s s'"
proof (induction ar root xs s rule: rrun.induct)
  case (2 ar root a i xs s)
  then obtain s1 where "rstep ar root a i s = Some s1" "runs_to ar root s1 s'"
    by (auto split: option.splits)
  then show ?case
    using runs_to_trans [of ar root s1 s' s] runs_to.runs_step [OF runs_to.runs_refl] by blast
qed (simp add: runs_to.runs_refl)

text \<open>Successful calls, one after another.\<close>

abbreviation succeeds :: "(string \<times> string) list \<Rightarrow> string \<Rightarrow> nat \<Rightarrow> nat \<Rightarrow> rstate \<Rightarrow> rstate option" where
  "succeeds es root n i s \<equiv> rrun (Some es) root (replicate n (Success, i)) s"

lemma succeeds_Suc:
  "succeeds es root (Suc n) i s = (case rstep (Some es) root Success i s of None \<Rightarrow> None | Some s' \<Rightarrow> succeeds es root n i s')"
  by simp

lemma last_calls:
  "at_pc (procs s i) = AtSetenv \<Longrightarrow> \<exists>s'. succeeds es root 1 i s = Some s' \<and> at_pc (procs s' i) = Ready"
  "at_pc (procs s i) = AtUnlock \<Longrightarrow> \<exists>s'. succeeds es root 2 i s = Some s' \<and> at_pc (procs s' i) = Ready"
  "at_pc (procs s i) = AtLeave \<Longrightarrow> \<exists>s'. succeeds es root 4 i s = Some s' \<and> at_pc (procs s' i) = Ready"
  by (simp_all add: eval_nat_numeral rstep_def step_defs)

text \<open>The remaining entries, the end of the archive, the guard, the marker, the lock and the variable.\<close>

lemma entries_run:
  assumes "\<forall>n\<in>fst ` set es. n \<noteq> []"
  shows "at_pc (procs s i) = AtEntry k \<Longrightarrow> k \<le> length es \<Longrightarrow> m = length es - k \<Longrightarrow>
    \<exists>s'. succeeds es root (2 * m + 5) i s = Some s' \<and> at_pc (procs s' i) = Ready"
proof (induction m arbitrary: s k)
  case 0
  then obtain s1 where s1: "rstep (Some es) root Success i s = Some s1" "at_pc (procs s1 i) = AtLeave"
    by (simp add: rstep_def step_defs)
  have "2 * 0 + 5 = Suc 4" by simp
  with last_calls(3) [OF s1(2)] s1(1) show ?case by (simp only: succeeds_Suc) simp
next
  case (Suc m)
  then have k: "k < length es" by simp
  then have "fst (es ! k) \<noteq> []" using assms by simp
  then obtain s1 where s1: "rstep (Some es) root Success i s = Some s1" "at_pc (procs s1 i) = AtExtract k"
    using Suc.prems(1) k by (simp add: rstep_def step_defs)
  then obtain s2 where s2: "rstep (Some es) root Success i s1 = Some s2" "at_pc (procs s2 i) = AtEntry (Suc k)"
    by (cases "es ! k") (simp add: rstep_def step_defs)
  have "Suc k \<le> length es" "m = length es - Suc k" using k Suc.prems(3) by simp_all
  from Suc.IH [OF s2(2) this] s1(1) s2(1) show ?case
    by (simp only: mult_Suc_right add_Suc_right add_Suc add_2_eq_Suc succeeds_Suc) simp
qed

lemma materialize_run:
  assumes "\<forall>n\<in>fst ` set es. n \<noteq> []" and "lock_holder s = None" and "at_pc (procs s i) = Start"
  shows "\<exists>n s'. n \<le> 2 * length es + 14 \<and> succeeds es root n i s = Some s' \<and> at_pc (procs s' i) = Ready"
proof -
  obtain s1 where s1: "succeeds es root 3 i s = Some s1" "at_pc (procs s1 i) = AtMarker"
    using assms(2,3) by (simp add: eval_nat_numeral rstep_def step_defs)
  have split: "succeeds es root (m + n) i s = Some s'" if "succeeds es root m i s = Some t" "succeeds es root n i t = Some s'" for m n s t s'
    using that by (induction m arbitrary: s) (auto split: option.splits)
  show ?thesis
  proof (cases "marker s1")
    case True
    then obtain s2 where s2: "succeeds es root 1 i s1 = Some s2" "at_pc (procs s2 i) = AtUnlock"
      using s1(2) by (simp add: rstep_def step_defs)
    from last_calls(2) [OF s2(2), of es root] obtain s3 where "succeeds es root 2 i s2 = Some s3" "at_pc (procs s3 i) = Ready" by blast
    then have "succeeds es root (3 + (1 + 2)) i s = Some s3" "at_pc (procs s3 i) = Ready" using split [OF s1(1) split [OF s2(1)]] by blast+
    moreover have "3 + (1 + 2) \<le> 2 * length es + 14" by simp
    ultimately show ?thesis by blast
  next
    case False
    then obtain s2 where s2: "succeeds es root 6 i s1 = Some s2" "at_pc (procs s2 i) = AtEntry 0"
      using s1(2) by (simp add: eval_nat_numeral rstep_def step_defs)
    from entries_run [OF assms(1) s2(2), of "length es" root] obtain s3
      where s3: "succeeds es root (2 * length es + 5) i s2 = Some s3" "at_pc (procs s3 i) = Ready" by auto
    then have "succeeds es root (3 + (6 + (2 * length es + 5))) i s = Some s3" "at_pc (procs s3 i) = Ready"
      using split [OF s1(1) split [OF s2(1)]] by blast+
    moreover have "3 + (6 + (2 * length es + 5)) \<le> 2 * length es + 14" by simp
    ultimately show ?thesis by blast
  qed
qed

section \<open>Properties\<close>

text \<open>
  C6: In every interleaving of any processes, with failures and kills anywhere: at most one
  process is between lock and release; a process that returns finds every file of the
  archive complete, and from then on no step changes a file. It is back in its own directory and has
  the root in its environment, unless an \<open>fchdir\<close> or the \<open>setenv\<close> failed, whose results are
  ignored: then it returns all the same, in the root's directory, or with the environment it had.
\<close>

theorem runtime_root_safe:
  assumes "started s0" and "runs_to ar root s0 s"
  shows "(\<forall>i j. in_section (at_pc (procs s i)) \<and> in_section (at_pc (procs s j)) \<longrightarrow> i = j) \<and>
    (\<forall>i. at_pc (procs s i) = Ready \<longrightarrow>
       root_env (procs s i) = (if env_lost (procs s i) then root_env (procs s0 i) else Some root) \<and>
       (cwd (procs s i) = cwd (procs s0 i) \<or> stayed (procs s i) \<and> cwd (procs s i) = root) \<and>
       (\<exists>es. ar = Some es \<and> has_extracted es (length es) (contents s)) \<and>
       (\<forall>s'. runs_to ar root s s' \<longrightarrow> contents s' = contents s))"
proof -
  note inv = runs_to_inv [OF assms(2) started_inv [OF assms(1)]]
  have env: "env_ok root (root_env (procs s0 i)) (procs s i)" for i
    by (rule runs_to_env [OF assms(2)]) (use assms(1) in \<open>auto simp: started_def env_ok_def\<close>)
  have one: "i = j" if "in_section (at_pc (procs s i))" "in_section (at_pc (procs s j))" for i j
    using inv_section [OF inv that(1)] inv_section [OF inv that(2)] by simp
  have ready: "root_env (procs s i) = (if env_lost (procs s i) then root_env (procs s0 i) else Some root) \<and>
      (cwd (procs s i) = cwd (procs s0 i) \<or> stayed (procs s i) \<and> cwd (procs s i) = root) \<and> marker s"
    if "at_pc (procs s i) = Ready" for i
    using inv_proc [OF inv, of i] env [of i] that by (simp add: where_defs unguarded_def at_home_def env_ok_def)
  show ?thesis
    using one ready inv_marker [OF inv] runs_after_marker [OF _ inv] by blast
qed

definition example_started :: rstate where
  "example_started = \<lparr>lock_holder = None, marker = False, contents = Map.empty,
     procs = (\<lambda>i. \<lparr>at_pc = Start, cwd = ''/home'', saved_cwd = None, root_env = None, stayed = False, env_lost = False\<rparr>)\<rparr>"

lemma example_is_started: "started example_started"
  by (simp add: started_def example_started_def)

text \<open>Two processes: the first extracts and its \<open>fchdir\<close> fails, the second waits and finds the marker.\<close>

definition example_answers :: "(answer \<times> nat) list" where
  "example_answers = replicate 2 (Success, 4) @ replicate 12 (Success, 3) @ [(Failure None, 3)] @ replicate 3 (Success, 3) @ replicate 4 (Success, 4)"

lemma runtime_root_safe_witness:
  "\<exists>s. runs_to (Some [(''kernel.cc'', ''void'')]) ''/tmp/rt'' example_started s \<and>
     at_pc (procs s 3) = Ready \<and> cwd (procs s 3) = ''/tmp/rt'' \<and> root_env (procs s 3) = Some ''/tmp/rt'' \<and>
     at_pc (procs s 4) = Ready \<and> cwd (procs s 4) = ''/home'' \<and> contents s ''kernel.cc'' = Some ''void''"
proof -
  obtain s where s: "rrun (Some [(''kernel.cc'', ''void'')]) ''/tmp/rt'' example_answers example_started = Some s"
      "at_pc (procs s 3) = Ready" "at_pc (procs s 4) = Ready" "env_lost (procs s 3) = False" "stayed (procs s 4) = False" "cwd (procs s 3) = ''/tmp/rt''"
    by (simp add: example_answers_def example_started_def eval_nat_numeral rstep_def step_defs guard_defs set_root_env_def)
  from runtime_root_safe [OF example_is_started rrun_runs_to [OF s(1)]] s
  have "root_env (procs s 3) = Some ''/tmp/rt''" "cwd (procs s 4) = ''/home''" "contents s ''kernel.cc'' = Some ''void''"
    by (auto simp: example_started_def has_extracted_def extracted_def)
  with rrun_runs_to [OF s(1)] s show ?thesis by blast
qed

text \<open>
  C17: Whatever happened before, when nobody holds the lock a process that has not begun (or
  has begun again after a failure) and meets no failure returns after at most two steps for every entry
  of the archive and fourteen more.
\<close>

theorem runtime_root_completes:
  assumes "started s0" and "runs_to (Some es) root s0 s" and "\<forall>n\<in>fst ` set es. n \<noteq> []"
    and "lock_holder s = None" and "at_pc (procs s i) = Start"
  shows "\<exists>n s'. n \<le> 2 * length es + 14 \<and> rrun (Some es) root (replicate n (Success, i)) s = Some s' \<and>
    at_pc (procs s' i) = Ready \<and> has_extracted es (length es) (contents s')"
proof -
  from materialize_run [OF assms(3-5)] obtain n s' where n: "n \<le> 2 * length es + 14"
      "rrun (Some es) root (replicate n (Success, i)) s = Some s'" "at_pc (procs s' i) = Ready" by blast
  have "runs_to (Some es) root s0 s'"
    using rrun_runs_to [OF n(2)] assms(2) runs_to_trans by blast
  note inv = runs_to_inv [OF this started_inv [OF assms(1)]]
  have "marker s'" using inv_proc [OF inv, of i] n(3) by (simp add: proc_ok_def progress_ok_def)
  with inv_marker [OF inv] have "has_extracted es (length es) (contents s')" by simp
  with n show ?thesis by blast
qed

lemma runtime_root_completes_witness:
  "\<exists>n s'. n \<le> 18 \<and> rrun (Some [(''a'', ''1''), (''b'', ''2'')]) ''/tmp/rt'' (replicate n (Success, 0))
     example_started = Some s' \<and> at_pc (procs s' 0) = Ready"
proof -
  have "\<exists>n s'. n \<le> 2 * length [(''a'', ''1''), (''b'', ''2'')] + 14 \<and>
      rrun (Some [(''a'', ''1''), (''b'', ''2'')]) ''/tmp/rt'' (replicate n (Success, 0)) example_started = Some s' \<and>
      at_pc (procs s' 0) = Ready \<and>
      has_extracted [(''a'', ''1''), (''b'', ''2'')] (length [(''a'', ''1''), (''b'', ''2'')]) (contents s')"
    by (rule runtime_root_completes [OF example_is_started runs_to.runs_refl])
      (simp_all add: example_started_def)
  then show ?thesis by auto
qed

end
