(* ===== verification/TopkPlan.thy ===== *)
theory TopkPlan
  imports Prelude
begin

text \<open>
  \<open>ttnn/cpp/ttnn/operations/reduction/topk/device/topk_select.hpp\<close> and
  \<open>topk_select_program_factory.cpp\<close>: the plan of TopK's selection path, which cores take
  which rows and which column segment, and the runtime arguments of each core. Shapes are
  \<open>uint32_t\<close>; products and sums wrap (\<open>w32\<close>). What the plan asks of a tensor (ttnn's
  code) is a record of the answers.
\<close>

section \<open>The plan\<close>

record tensor_info =
  on_device :: bool
  tile_layout :: bool
  default_tile :: bool
  sharded :: bool
  float32 :: bool
  bfloat16 :: bool
  logical_shape :: "nat list"
  padded_shape :: "nat list"

record topk_plan =
  tp_tile_rows :: nat
  tp_Ht :: nat
  tp_height :: nat
  tp_width :: nat
  tp_Wt :: nat
  tp_segments :: nat
  tp_segment_tiles :: nat
  tp_row_groups :: nat
  tp_rows_per_core :: nat
  tp_k :: nat

definition cores_per_tile_row :: "topk_plan \<Rightarrow> nat" where
  "cores_per_tile_row p = w32 (tp_segments p * tp_row_groups p)"

definition plan_cores :: "topk_plan \<Rightarrow> nat" where
  "plan_cores p = w32 (tp_tile_rows p * cores_per_tile_row p)"

definition plan_rows :: "topk_plan \<Rightarrow> nat" where
  "plan_rows p = (if tp_Ht p = 1 then tp_height p else 32)"

definition max_k :: nat where "max_k = 64"
definition min_segment_tiles :: nat where "min_segment_tiles = 1"
definition max_input_bytes :: nat where "max_input_bytes = 128 * 1024"
definition max_candidate_bytes :: nat where "max_candidate_bytes = 64 * 1024"
definition face_row_read_bytes :: nat where "face_row_read_bytes = 64"
definition candidate_bytes :: nat where "candidate_bytes = 8"

lemmas topk_constants = max_k_def min_segment_tiles_def max_input_bytes_def max_candidate_bytes_def
  face_row_read_bytes_def candidate_bytes_def

text \<open>\<open>(k + 1) & ~1u\<close>\<close>

definition list_stride :: "nat \<Rightarrow> nat" where
  "list_stride k = w32 (k + 1) - w32 (k + 1) mod 2"

definition div_up32 :: "nat \<Rightarrow> nat \<Rightarrow> nat" where
  "div_up32 a b = w32 (a + b - 1) div b"

text \<open>
  How a tile row is split over its cores: the segments of its width, their width in tiles,
  the row groups, and the rows of one core.
\<close>

definition plan_split :: "nat \<Rightarrow> nat \<Rightarrow> nat \<Rightarrow> nat \<Rightarrow> nat \<times> nat \<times> nat \<times> nat" where
  "plan_split per_tile_row rows Wt k =
     (let list_bytes = w32 (list_stride k * candidate_bytes);
          wanted = max 1 (min (per_tile_row div rows)
            (min (div_up32 Wt min_segment_tiles) (max_candidate_bytes div list_bytes)));
          segment_tiles = div_up32 Wt wanted;
          segments = div_up32 Wt segment_tiles;
          row_groups = min rows (per_tile_row div segments)
      in (segments, segment_tiles, row_groups, div_up32 rows row_groups))"

definition topk_select_plan ::
  "tensor_info \<Rightarrow> nat \<Rightarrow> bool \<Rightarrow> bool \<Rightarrow> bool \<Rightarrow> nat \<Rightarrow> topk_plan option" where
  "topk_select_plan input k custom_indices preallocated output_sharded cores =
     (if custom_indices \<or> preallocated \<or> output_sharded \<or> \<not> on_device input \<or> \<not> tile_layout input \<or>
         \<not> default_tile input \<or> sharded input \<or> (\<not> float32 input \<and> \<not> bfloat16 input)
      then None
      else
        let logical = logical_shape input; padded = padded_shape input in
        if length logical \<noteq> 4 \<or> k < 1 \<or> max_k < k \<or> logical ! 3 < k then None
        else
          let Ht = padded ! 2 div 32; Wt = padded ! 3 div 32;
              height = logical ! 2;
              tile_rows = w32 (w32 (logical ! 0 * logical ! 1) * Ht) in
          if tile_rows = 0 \<or> cores < tile_rows then None
          else if Wt < 32 \<and> (2 < tile_rows \<or> 32 < k) then None
          else
            let per_tile_row = cores div tile_rows;
                rows = (if Ht = 1 then height else 32);
                (segments, segment_tiles, row_groups, rows_per_core) = plan_split per_tile_row rows Wt k
            in if max_input_bytes < w32 (w32 (w32 (rows_per_core * segment_tiles) * 2) * face_row_read_bytes)
               then None
               else Some \<lparr>tp_tile_rows = tile_rows, tp_Ht = Ht, tp_height = height, tp_width = logical ! 3,
                 tp_Wt = Wt, tp_segments = segments, tp_segment_tiles = segment_tiles,
                 tp_row_groups = row_groups, tp_rows_per_core = rows_per_core, tp_k = k\<rparr>)"

section \<open>The program\<close>

text \<open>Sizes of the circular buffers, rounded up to 64 bytes.\<close>

record topk_buffers =
  tb_in :: nat
  tb_candidates :: nat
  tb_rows :: nat
  tb_values :: nat
  tb_indices :: nat

definition buffer_bytes :: "nat \<Rightarrow> nat" where
  "buffer_bytes n = w32 (div_up32 n 64 * 64)"

definition topk_buffers :: "topk_plan \<Rightarrow> nat \<Rightarrow> nat \<Rightarrow> topk_buffers" where
  "topk_buffers p value_tile_bytes index_tile_bytes =
     (let k_tiles = div_up32 (tp_k p) 32; row_bytes = w32 (2 * k_tiles * 2 * 64) in
      \<lparr>tb_in = buffer_bytes (w32 (tp_rows_per_core p * tp_segment_tiles p * 2 * face_row_read_bytes)),
       tb_candidates = buffer_bytes (if 1 < tp_segments p
         then w32 (tp_rows_per_core p * tp_segments p * list_stride (tp_k p) * candidate_bytes) else 64),
       tb_rows = buffer_bytes (w32 (tp_rows_per_core p * row_bytes)),
       tb_values = buffer_bytes (w32 (k_tiles * value_tile_bytes)),
       tb_indices = buffer_bytes (w32 (k_tiles * index_tile_bytes))\<rparr>)"

text \<open>The runtime arguments of core \<open>i\<close>: indices into the list of cores for the coordinates.\<close>

record topk_args =
  ta_tile_row :: nat
  ta_segment :: nat
  ta_group :: nat
  ta_owner :: nat
  ta_merger :: nat

definition core_args :: "topk_plan \<Rightarrow> nat \<Rightarrow> topk_args" where
  "core_args p i =
     (let per_tile_row = cores_per_tile_row p;
          tile_row = i div per_tile_row;
          worker = i mod per_tile_row;
          group = worker mod tp_row_groups p
      in \<lparr>ta_tile_row = tile_row, ta_segment = worker div tp_row_groups p, ta_group = group,
          ta_owner = tile_row * per_tile_row, ta_merger = tile_row * per_tile_row + group\<rparr>)"

section \<open>Arithmetic of the plan\<close>

text \<open>
  Well-formed inputs: padded to whole tiles, on a grid of at most \<open>2 ^ 16\<close> cores and rows of
  at most \<open>2 ^ 24\<close> elements, far beyond what a device holds; no product wraps then.
\<close>

definition plan_input :: "tensor_info \<Rightarrow> nat \<Rightarrow> bool" where
  "plan_input t cores \<longleftrightarrow> length (logical_shape t) = 4 \<and> length (padded_shape t) = 4 \<and>
     padded_shape t ! 2 = 32 * div_up (logical_shape t ! 2) 32 \<and>
     padded_shape t ! 3 = 32 * div_up (logical_shape t ! 3) 32 \<and>
     logical_shape t ! 3 \<le> 2 ^ 24 \<and> cores \<le> 2 ^ 16 \<and>
     logical_shape t ! 0 * logical_shape t ! 1 * div_up (logical_shape t ! 2) 32 < 2 ^ 32"

lemma div_up32_eq: "0 < b \<Longrightarrow> a + b \<le> 4294967296 \<Longrightarrow> div_up32 a b = div_up a b"
  by (simp add: div_up32_def div_up_def w32_id)

lemma div_up_antimono: "0 < b \<Longrightarrow> b \<le> c \<Longrightarrow> div_up a c \<le> div_up a b"
proof (rule ccontr)
  assume b: "0 < b" and bc: "b \<le> c" and "\<not> div_up a c \<le> div_up a b"
  then have "div_up a b < div_up a c" by simp
  then have "div_up a b * c < a"
    using less_div_up_iff [of c "div_up a b" a] b bc by simp
  moreover have "div_up a b * b \<le> div_up a b * c" using bc by simp
  ultimately show False using div_up_mult_ge [OF b, of a] by simp
qed

lemma div_up_1 [simp]: "div_up a 1 = a" "div_up a (Suc 0) = a"
  by (simp_all add: div_up_def)

lemma div_up_self_le: "0 < a \<Longrightarrow> a \<le> b \<Longrightarrow> div_up a b = 1"
  using div_up_le [of b a] div_up_pos_iff [of b a] less_div_up_iff [of b 1 a] by linarith

lemma div_up_le_iff: "0 < b \<Longrightarrow> div_up a b \<le> n \<longleftrightarrow> a \<le> n * b"
  using less_div_up_iff [of b n a] by linarith

lemma div_up_div_up_le: "0 < w \<Longrightarrow> 0 < a \<Longrightarrow> div_up a (div_up a w) \<le> w"
  using div_up_mult_ge [of w a] by (simp add: div_up_le_iff mult.commute)

lemma list_stride_eq: "k \<le> 64 \<Longrightarrow> list_stride k = 2 * ((k + 1) div 2)"
  by (simp add: list_stride_def w32_id minus_mod_eq_mult_div)

lemma list_stride_bounds: "k \<le> 64 \<Longrightarrow> k \<le> list_stride k \<and> list_stride k \<le> k + 1 \<and> even (list_stride k)"
  unfolding list_stride_eq by simp

lemma list_stride_mono: "k \<le> k' \<Longrightarrow> k' \<le> 64 \<Longrightarrow> list_stride k \<le> list_stride k'"
  by (simp add: list_stride_eq div_le_mono)

text \<open>The plan without wrap-around: its checks, its values, and its last check.\<close>

definition plan_checks :: "tensor_info \<Rightarrow> nat \<Rightarrow> bool \<Rightarrow> bool \<Rightarrow> bool \<Rightarrow> nat \<Rightarrow> bool" where
  "plan_checks t k ci pre os cores \<longleftrightarrow>
     \<not> ci \<and> \<not> pre \<and> \<not> os \<and> on_device t \<and> tile_layout t \<and> default_tile t \<and> \<not> sharded t \<and>
     (float32 t \<or> bfloat16 t) \<and> 1 \<le> k \<and> k \<le> 64 \<and> k \<le> logical_shape t ! 3 \<and>
     (let Ht = div_up (logical_shape t ! 2) 32; Wt = div_up (logical_shape t ! 3) 32;
          tile_rows = logical_shape t ! 0 * logical_shape t ! 1 * Ht in
      0 < tile_rows \<and> tile_rows \<le> cores \<and> \<not> (Wt < 32 \<and> (2 < tile_rows \<or> 32 < k)))"

definition wanted_segments :: "nat \<Rightarrow> nat \<Rightarrow> nat \<Rightarrow> nat \<Rightarrow> nat" where
  "wanted_segments per rows Wt k = max 1 (min (per div rows) (min Wt (65536 div (8 * list_stride k))))"

definition tensor_rows :: "tensor_info \<Rightarrow> nat" where
  "tensor_rows t = (if div_up (logical_shape t ! 2) 32 = 1 then logical_shape t ! 2 else 32)"

definition ideal_plan :: "tensor_info \<Rightarrow> nat \<Rightarrow> nat \<Rightarrow> topk_plan" where
  "ideal_plan t k cores =
     (let Ht = div_up (logical_shape t ! 2) 32; Wt = div_up (logical_shape t ! 3) 32;
          tile_rows = logical_shape t ! 0 * logical_shape t ! 1 * Ht;
          per = cores div tile_rows; rows = tensor_rows t;
          segment_tiles = div_up Wt (wanted_segments per rows Wt k);
          segments = div_up Wt segment_tiles;
          row_groups = min rows (per div segments)
      in \<lparr>tp_tile_rows = tile_rows, tp_Ht = Ht, tp_height = logical_shape t ! 2,
          tp_width = logical_shape t ! 3, tp_Wt = Wt, tp_segments = segments,
          tp_segment_tiles = segment_tiles, tp_row_groups = row_groups,
          tp_rows_per_core = div_up rows row_groups, tp_k = k\<rparr>)"

text \<open>What the checks give for the values.\<close>

lemma ideal_plan_values:
  assumes "plan_checks t k ci pre os cores"
  defines "p \<equiv> ideal_plan t k cores" and "rows \<equiv> tensor_rows t"
  defines "per \<equiv> cores div tp_tile_rows p"
  shows "0 < rows" "rows \<le> 32" "0 < tp_Wt p" "0 < per" "0 < tp_segment_tiles p" "tp_segment_tiles p \<le> tp_Wt p"
    "0 < tp_segments p" "tp_segments p \<le> wanted_segments per rows (tp_Wt p) k"
    "tp_segments p \<le> per" "0 < tp_row_groups p" "tp_row_groups p \<le> rows"
    "1 < tp_segments p \<Longrightarrow> tp_segments p * rows \<le> per"
    "0 < tp_rows_per_core p" "tp_rows_per_core p \<le> 32"
proof -
  have Ht: "0 < div_up (logical_shape t ! 2) 32" and tr: "0 < tp_tile_rows p" "tp_tile_rows p \<le> cores"
    and k: "1 \<le> k" "k \<le> logical_shape t ! 3"
    using assms(1) by (auto simp: plan_checks_def p_def ideal_plan_def Let_def)
  show rows: "0 < rows" "rows \<le> 32"
    using Ht div_up_mult_ge [of 32 "logical_shape t ! 2"] by (auto simp: rows_def tensor_rows_def)
  show Wt: "0 < tp_Wt p"
    using k by (simp add: p_def ideal_plan_def Let_def)
  show per: "0 < per"
    using tr by (simp add: per_def div_greater_zero_iff)
  have st: "tp_segment_tiles p = div_up (tp_Wt p) (wanted_segments per rows (tp_Wt p) k)"
    and sg: "tp_segments p = div_up (tp_Wt p) (tp_segment_tiles p)"
    and rg: "tp_row_groups p = min rows (per div tp_segments p)"
    and rc: "tp_rows_per_core p = div_up rows (tp_row_groups p)"
    by (simp_all add: p_def per_def rows_def ideal_plan_def Let_def)
  have w: "0 < wanted_segments per rows (tp_Wt p) k"
    by (simp add: wanted_segments_def)
  show "0 < tp_segment_tiles p" "tp_segment_tiles p \<le> tp_Wt p"
    using Wt w by (simp_all add: st div_up_le)
  then show seg: "0 < tp_segments p"
    using Wt by (simp add: sg)
  show le: "tp_segments p \<le> wanted_segments per rows (tp_Wt p) k"
    using div_up_div_up_le [OF w Wt] by (simp add: sg st)
  have many: "tp_segments p \<le> per div rows" if "1 < tp_segments p"
    using le that by (auto simp: wanted_segments_def max_def split: if_splits)
  then show "1 < tp_segments p \<Longrightarrow> tp_segments p * rows \<le> per"
    using rows by (simp add: less_eq_div_iff_mult_less_eq)
  have "per div rows \<le> per" by simp
  with many per show spl: "tp_segments p \<le> per" by (cases "1 < tp_segments p") (blast intro: le_trans, simp)
  then have "0 < per div tp_segments p" using seg by (simp add: div_greater_zero_iff)
  then show rgp: "0 < tp_row_groups p" and "tp_row_groups p \<le> rows"
    using rows by (simp_all add: rg)
  show "0 < tp_rows_per_core p" using rows rgp by (simp add: rc)
  show "tp_rows_per_core p \<le> 32" using rows rgp div_up_le [of "tp_row_groups p" rows] by (simp add: rc)
qed

lemma plan_split_eq:
  assumes "0 < rows" "rows \<le> 32" "0 < Wt" "Wt \<le> 2 ^ 19" "0 < per" "1 \<le> k" "k \<le> 64"
  shows "plan_split per rows Wt k =
    (let st = div_up Wt (wanted_segments per rows Wt k); sg = div_up Wt st; rg = min rows (per div sg)
     in (sg, st, rg, div_up32 rows rg))"
proof -
  let ?w = "wanted_segments per rows Wt k"
  have "8 * list_stride k < 4294967296"
    using list_stride_bounds [OF assms(7)] assms(7) by simp
  then have "w32 (list_stride k * candidate_bytes) = 8 * list_stride k"
    by (simp add: candidate_bytes_def w32_id mult.commute)
  then have w: "max 1 (min (per div rows) (min (div_up32 Wt min_segment_tiles)
      (max_candidate_bytes div w32 (list_stride k * candidate_bytes)))) = ?w"
    using assms(4) by (simp add: wanted_segments_def div_up32_eq topk_constants)
  have "0 < ?w" and "?w \<le> Wt"
    using assms(3) by (auto simp: wanted_segments_def)
  then have st: "div_up32 Wt ?w = div_up Wt ?w" and "0 < div_up Wt ?w" and "div_up Wt ?w \<le> Wt"
    using assms(3,4) by (auto simp: div_up32_eq div_up_le)
  then have sg: "div_up32 Wt (div_up Wt ?w) = div_up Wt (div_up Wt ?w)"
    using assms(4) by (intro div_up32_eq) auto
  show ?thesis
    unfolding plan_split_def Let_def w st sg ..
qed

lemma plan_eq:
  assumes ok: "plan_input t cores"
  shows "topk_select_plan t k ci pre os cores =
    (if plan_checks t k ci pre os cores \<and>
        tp_rows_per_core (ideal_plan t k cores) * tp_segment_tiles (ideal_plan t k cores) * 128 \<le> 131072
     then Some (ideal_plan t k cores) else None)"
proof -
  let ?Ht = "div_up (logical_shape t ! 2) 32" and ?Wt = "div_up (logical_shape t ! 3) 32"
  let ?ab = "logical_shape t ! 0 * logical_shape t ! 1"
  have Ht: "padded_shape t ! 2 div 32 = ?Ht" and Wt: "padded_shape t ! 3 div 32 = ?Wt"
    and len: "length (logical_shape t) = 4"
    using ok by (simp_all add: plan_input_def)
  have tr: "w32 (w32 ?ab * ?Ht) = ?ab * ?Ht"
  proof (cases "?Ht = 0")
    case False
    then have "?ab \<le> ?ab * ?Ht" by (cases ?Ht) simp_all
    moreover have "?ab * ?Ht < 4294967296" using ok unfolding plan_input_def by simp
    ultimately show ?thesis by (simp only: w32_id le_less_trans)
  qed simp
  show ?thesis
  proof (cases "plan_checks t k ci pre os cores")
    case False
    then show ?thesis
      unfolding topk_select_plan_def Let_def Ht Wt tr plan_checks_def max_k_def using len
      by (auto simp: Suc_le_eq div_up_pos_iff)
  next
    case True
    let ?p = "ideal_plan t k cores"
    note v = ideal_plan_values [OF True]
    have Wt19: "?Wt \<le> 2 ^ 19"
      using ok by (simp add: div_up_le_iff plan_input_def)
    have k: "1 \<le> k" "k \<le> 64" using True by (simp_all add: plan_checks_def)
    have pW: "tp_Wt ?p = ?Wt" and pT: "tp_tile_rows ?p = ?ab * ?Ht"
      by (simp_all add: ideal_plan_def Let_def)
    have rows: "(if ?Ht = 1 then logical_shape t ! 2 else 32) = tensor_rows t"
      by (simp add: tensor_rows_def)
    have split: "plan_split (cores div (?ab * ?Ht)) (tensor_rows t) ?Wt k =
        (tp_segments ?p, tp_segment_tiles ?p, tp_row_groups ?p, tp_rows_per_core ?p)"
    proof -
      have "div_up32 (tensor_rows t) (tp_row_groups ?p) = div_up (tensor_rows t) (tp_row_groups ?p)"
        using v(2,10,11) by (intro div_up32_eq) auto
      then show ?thesis
        using plan_split_eq [of "tensor_rows t" ?Wt "cores div (?ab * ?Ht)" k] v(1,2,3,4) Wt19 k
        by (simp add: pW pT) (simp add: ideal_plan_def Let_def)
    qed
    have "tp_rows_per_core ?p * tp_segment_tiles ?p \<le> 32 * 2 ^ 19"
      using v(6,14) Wt19 pW by (intro mult_mono) auto
    then have prod: "w32 (w32 (w32 (tp_rows_per_core ?p * tp_segment_tiles ?p) * 2) * 64) =
        tp_rows_per_core ?p * tp_segment_tiles ?p * 128"
      by (simp add: w32_id)
    have rec: "\<lparr>tp_tile_rows = ?ab * ?Ht, tp_Ht = ?Ht, tp_height = logical_shape t ! 2,
        tp_width = logical_shape t ! 3, tp_Wt = ?Wt, tp_segments = tp_segments ?p,
        tp_segment_tiles = tp_segment_tiles ?p, tp_row_groups = tp_row_groups ?p,
        tp_rows_per_core = tp_rows_per_core ?p, tp_k = k\<rparr> = ?p"
      by (simp add: ideal_plan_def Let_def)
    show ?thesis
      using True
      unfolding topk_select_plan_def Let_def Ht Wt tr rows split prod max_k_def max_input_bytes_def
        face_row_read_bytes_def prod.case rec
      by (auto simp: plan_checks_def Let_def len)
  qed
qed

section \<open>What the plan promises\<close>

text \<open>The facts of a returned plan; nothing in it has wrapped.\<close>

definition plan_ok :: "topk_plan \<Rightarrow> nat \<Rightarrow> bool" where
  "plan_ok p cores \<longleftrightarrow>
     tp_Wt p = div_up (tp_width p) 32 \<and> tp_Ht p = div_up (tp_height p) 32 \<and>
     1 \<le> tp_k p \<and> tp_k p \<le> 64 \<and> tp_k p \<le> tp_width p \<and>
     0 < tp_tile_rows p \<and> 0 < tp_segments p \<and> 0 < tp_segment_tiles p \<and>
     tp_Wt p \<le> tp_segments p * tp_segment_tiles p \<and>
     (tp_segments p - 1) * tp_segment_tiles p < tp_Wt p \<and>
     0 < tp_row_groups p \<and> tp_row_groups p \<le> plan_rows p \<and> plan_rows p \<le> 32 \<and>
     plan_rows p \<le> tp_row_groups p * tp_rows_per_core p \<and>
     (1 < tp_segments p \<longrightarrow> tp_rows_per_core p = 1 \<and>
        tp_segments p * list_stride (tp_k p) * candidate_bytes \<le> max_candidate_bytes) \<and>
     tp_rows_per_core p * tp_segment_tiles p * 2 * face_row_read_bytes \<le> max_input_bytes \<and>
     cores_per_tile_row p = tp_segments p * tp_row_groups p \<and>
     plan_cores p = tp_tile_rows p * (tp_segments p * tp_row_groups p) \<and> plan_cores p \<le> cores"

lemma ideal_plan_ok:
  assumes c: "plan_checks t k ci pre os cores" and ok: "plan_input t cores"
    and fits: "tp_rows_per_core (ideal_plan t k cores) * tp_segment_tiles (ideal_plan t k cores) * 128 \<le> 131072"
  shows "plan_ok (ideal_plan t k cores) cores"
proof -
  let ?p = "ideal_plan t k cores" and ?rows = "tensor_rows t"
  let ?per = "cores div tp_tile_rows ?p"
  note v = ideal_plan_values [OF c]
  have k: "tp_k ?p = k" and W: "tp_Wt ?p = div_up (tp_width ?p) 32" and H: "tp_Ht ?p = div_up (tp_height ?p) 32"
    and sg: "tp_segments ?p = div_up (tp_Wt ?p) (tp_segment_tiles ?p)"
    and rg: "tp_row_groups ?p = min ?rows (?per div tp_segments ?p)"
    and rc: "tp_rows_per_core ?p = div_up ?rows (tp_row_groups ?p)"
    and rows: "plan_rows ?p = ?rows"
    by (simp_all add: ideal_plan_def Let_def plan_rows_def tensor_rows_def)
  have kk: "1 \<le> k" "k \<le> 64" "k \<le> tp_width ?p" and T: "0 < tp_tile_rows ?p" "tp_tile_rows ?p \<le> cores"
    using c by (simp_all add: plan_checks_def ideal_plan_def Let_def)
  have W1: "tp_Wt ?p \<le> tp_segments ?p * tp_segment_tiles ?p"
    using div_up_mult_ge [OF v(5), of "tp_Wt ?p"] sg by simp
  have W2: "(tp_segments ?p - 1) * tp_segment_tiles ?p < tp_Wt ?p"
    using div_up_pred_mult_less [OF v(5) v(3)] sg by simp
  have R: "?rows \<le> tp_row_groups ?p * tp_rows_per_core ?p"
    using div_up_mult_ge [OF v(10), of ?rows] rc by (simp add: mult.commute)
  have many: "tp_rows_per_core ?p = 1 \<and> tp_segments ?p * list_stride k * candidate_bytes \<le> max_candidate_bytes"
    if s: "1 < tp_segments ?p"
  proof
    have "?rows \<le> ?per div tp_segments ?p"
      using v(12) [OF s] v(7) by (simp add: less_eq_div_iff_mult_less_eq mult.commute)
    then have "tp_row_groups ?p = ?rows" using rg by simp
    then show "tp_rows_per_core ?p = 1" using rc v(1) by (simp add: div_up_self_le)
    have "tp_segments ?p \<le> 65536 div (8 * list_stride k)"
      using v(8) s by (auto simp: wanted_segments_def max_def split: if_splits)
    moreover have "0 < 8 * list_stride k" using list_stride_bounds [OF kk(2)] kk(1) by simp
    ultimately have "tp_segments ?p * (8 * list_stride k) \<le> 65536"
      by (simp only: less_eq_div_iff_mult_less_eq)
    then show "tp_segments ?p * list_stride k * candidate_bytes \<le> max_candidate_bytes"
      by (simp add: topk_constants)
  qed
  have "tp_row_groups ?p \<le> ?per div tp_segments ?p" using rg by simp
  then have "tp_segments ?p * tp_row_groups ?p \<le> ?per"
    using v(7) by (simp add: less_eq_div_iff_mult_less_eq mult.commute)
  then have le: "tp_tile_rows ?p * (tp_segments ?p * tp_row_groups ?p) \<le> cores"
    using T by (simp add: less_eq_div_iff_mult_less_eq mult.commute)
  have "cores < 4294967296" using ok by (simp add: plan_input_def)
  moreover have "tp_segments ?p * tp_row_groups ?p \<le> tp_tile_rows ?p * (tp_segments ?p * tp_row_groups ?p)"
    using T(1) by (cases "tp_tile_rows ?p") simp_all
  ultimately have c1: "cores_per_tile_row ?p = tp_segments ?p * tp_row_groups ?p"
    using le unfolding cores_per_tile_row_def by (intro w32_id) linarith
  have c2: "plan_cores ?p = tp_tile_rows ?p * (tp_segments ?p * tp_row_groups ?p)"
    using le \<open>cores < 4294967296\<close> by (simp add: plan_cores_def c1 w32_id)
  show ?thesis
    unfolding plan_ok_def k rows c1 c2
    using kk T v W1 W2 R many fits le W H
    by (simp add: topk_constants)
qed

lemma plan_some:
  assumes "plan_input t cores" and "topk_select_plan t k ci pre os cores = Some p"
  shows "plan_ok p cores" and "plan_checks t k ci pre os cores" and "p = ideal_plan t k cores"
  using assms ideal_plan_ok [OF _ assms(1)] plan_eq [OF assms(1)] by (auto split: if_splits)

definition sample_tensor :: tensor_info where
  "sample_tensor = \<lparr>on_device = True, tile_layout = True, default_tile = True, sharded = False,
     float32 = False, bfloat16 = True, logical_shape = [1, 1, 1, 151936], padded_shape = [1, 1, 32, 151936]\<rparr>"

definition sample_plan :: topk_plan where
  "sample_plan = \<lparr>tp_tile_rows = 1, tp_Ht = 1, tp_height = 1, tp_width = 151936, tp_Wt = 4748,
     tp_segments = 108, tp_segment_tiles = 44, tp_row_groups = 1, tp_rows_per_core = 1, tp_k = 40\<rparr>"

lemma sample_plan_eq: "topk_select_plan sample_tensor 40 False False False 110 = Some sample_plan"
  unfolding topk_select_plan_def plan_split_def list_stride_def div_up32_def w32_def topk_constants Let_def
    sample_tensor_def sample_plan_def
  by simp

lemma sample_input: "plan_input sample_tensor 110"
  by (simp add: plan_input_def sample_tensor_def div_up_def)


text \<open>The work of a core: its tile row, segment and group. Every core has its own.\<close>

definition core_work :: "topk_plan \<Rightarrow> nat \<Rightarrow> nat \<times> nat \<times> nat" where
  "core_work p i = (ta_tile_row (core_args p i), ta_segment (core_args p i), ta_group (core_args p i))"

lemma plan_checks_mono:
  "plan_checks t k' ci pre os cores \<Longrightarrow> 1 \<le> k \<Longrightarrow> k \<le> k' \<Longrightarrow> plan_checks t k ci pre os cores"
  by (auto simp: plan_checks_def Let_def)

lemma wanted_segments_pos: "0 < wanted_segments per rows Wt k"
  by (simp add: wanted_segments_def)

lemma wanted_segments_antimono:
  assumes "1 \<le> k" "k \<le> k'" "k' \<le> 64"
  shows "wanted_segments per rows Wt k' \<le> wanted_segments per rows Wt k"
proof -
  have "65536 div (8 * list_stride k') \<le> 65536 div (8 * list_stride k)"
    using list_stride_mono [OF assms(2,3)] list_stride_bounds [of k] assms by (intro div_le_mono2) auto
  then show ?thesis unfolding wanted_segments_def by linarith
qed

text \<open>A core for every row, when there are as many cores as rows.\<close>

lemma ideal_plan_one_row:
  assumes c: "plan_checks t k ci pre os cores" and "tensor_rows t \<le> cores div tp_tile_rows (ideal_plan t k cores)"
  shows "tp_rows_per_core (ideal_plan t k cores) = 1"
proof -
  let ?p = "ideal_plan t k cores"
  note v = ideal_plan_values [OF c]
  have rg: "tp_row_groups ?p = min (tensor_rows t) (cores div tp_tile_rows ?p div tp_segments ?p)"
    and rc: "tp_rows_per_core ?p = div_up (tensor_rows t) (tp_row_groups ?p)"
    by (simp_all add: ideal_plan_def Let_def)
  have "tp_segments ?p * tensor_rows t \<le> cores div tp_tile_rows ?p"
    using v(7,12) assms(2) by (cases "1 < tp_segments ?p") (simp_all add: not_less le_eq_less_or_eq)
  then have "tensor_rows t \<le> cores div tp_tile_rows ?p div tp_segments ?p"
    using v(7) by (simp add: less_eq_div_iff_mult_less_eq mult.commute)
  then show ?thesis using rg rc v(1) by (simp add: div_up_self_le)
qed

lemma ideal_plan_mono:
  assumes c: "plan_checks t k ci pre os cores" and c': "plan_checks t k' ci pre os cores" and "k \<le> k'"
  shows "tp_rows_per_core (ideal_plan t k cores) * tp_segment_tiles (ideal_plan t k cores)
    \<le> tp_rows_per_core (ideal_plan t k' cores) * tp_segment_tiles (ideal_plan t k' cores)"
proof -
  let ?p = "ideal_plan t k cores" and ?p' = "ideal_plan t k' cores"
  let ?per = "cores div tp_tile_rows ?p"
  have T: "tp_tile_rows ?p' = tp_tile_rows ?p" and W: "tp_Wt ?p' = tp_Wt ?p"
    by (simp_all add: ideal_plan_def Let_def)
  let ?w = "wanted_segments ?per (tensor_rows t) (tp_Wt ?p) k"
  let ?w' = "wanted_segments ?per (tensor_rows t) (tp_Wt ?p) k'"
  have st: "tp_segment_tiles ?p = div_up (tp_Wt ?p) ?w" "tp_segment_tiles ?p' = div_up (tp_Wt ?p) ?w'"
    by (simp_all add: ideal_plan_def Let_def)
  have "?w' \<le> ?w"
    using c c' assms(3) by (intro wanted_segments_antimono) (simp_all add: plan_checks_def)
  show ?thesis
  proof (cases "?w' = ?w")
    case True
    then show ?thesis by (simp add: ideal_plan_def Let_def)
  next
    case False
    have "0 < ?w'" by (rule wanted_segments_pos)
    with False have "1 < ?w" using \<open>?w' \<le> ?w\<close> by linarith
    then have "1 \<le> ?per div tensor_rows t" by (auto simp: wanted_segments_def max_def split: if_splits)
    then have "tensor_rows t \<le> ?per"
      using ideal_plan_values(1) [OF c] by (simp add: less_eq_div_iff_mult_less_eq)
    then have "tp_rows_per_core ?p = 1" "tp_rows_per_core ?p' = 1"
      using ideal_plan_one_row [OF c] ideal_plan_one_row [OF c'] T by simp_all
    then show ?thesis using div_up_antimono [OF \<open>0 < ?w'\<close> \<open>?w' \<le> ?w\<close>] st by simp
  qed
qed

lemma core_work_bij:
  assumes "plan_ok p cores"
  shows "bij_betw (core_work p) {..<plan_cores p}
    ({..<tp_tile_rows p} \<times> {..<tp_segments p} \<times> {..<tp_row_groups p})"
proof -
  define S G T where "S = tp_segments p" and "G = tp_row_groups p" and "T = tp_tile_rows p"
  have pos: "0 < S" "0 < G" and per: "cores_per_tile_row p = S * G" and all: "plan_cores p = T * (S * G)"
    using assms by (simp_all add: plan_ok_def S_def G_def T_def)
  let ?f = "\<lambda>(t, s, g). t * (S * G) + (s * G + g)"
  have in_row: "s * G + g < S * G" if "s < S" "g < G" for s g
    by (rule index_less_product [OF that])
  have work: "core_work p i = (i div (S * G), (i mod (S * G)) div G, (i mod (S * G)) mod G)" for i
    by (simp add: core_work_def core_args_def per G_def Let_def)
  show ?thesis
  proof (rule bij_betw_byWitness [where f' = ?f])
    show "\<forall>i\<in>{..<plan_cores p}. ?f (core_work p i) = i"
      by (simp add: work div_mult_mod_eq)
    show "\<forall>x\<in>{..<tp_tile_rows p} \<times> {..<tp_segments p} \<times> {..<tp_row_groups p}. core_work p (?f x) = x"
      using in_row by (auto simp: work S_def [symmetric] G_def [symmetric])
    show "core_work p ` {..<plan_cores p} \<subseteq> {..<tp_tile_rows p} \<times> {..<tp_segments p} \<times> {..<tp_row_groups p}"
      using pos by (auto simp: work all S_def [symmetric] G_def [symmetric] T_def [symmetric]
          less_mult_imp_div_less mult.commute mult.left_commute)
    show "?f ` ({..<tp_tile_rows p} \<times> {..<tp_segments p} \<times> {..<tp_row_groups p}) \<subseteq> {..<plan_cores p}"
      using in_row index_less_product [of _ T _ "S * G"]
      by (auto simp: all S_def [symmetric] G_def [symmetric] T_def [symmetric])
  qed
qed

section \<open>The properties of the plan\<close>

text \<open>
  C22: A plan's segments cover the width in tiles, each at least one tile of it; its row
  groups cover the rows of a tile row; it takes no more cores than the grid has and nothing
  in it wraps; the rows of a core fit the input buffer; and a row split over several
  segments has a core to itself, whose candidate lists fit their buffer.
\<close>

theorem plan_covers:
  assumes "plan_input t cores" and "topk_select_plan t k ci pre os cores = Some p"
  shows "plan_ok p cores \<and> tp_k p = k \<and> tp_height p = logical_shape t ! 2 \<and> tp_width p = logical_shape t ! 3 \<and>
    tp_tile_rows p = logical_shape t ! 0 * logical_shape t ! 1 * tp_Ht p"
  using plan_some [OF assms] by (simp add: ideal_plan_def Let_def)

lemma plan_covers_witness: "plan_ok sample_plan 110 \<and> tp_segments sample_plan = 108"
  using plan_covers [OF sample_input sample_plan_eq] by (auto simp add: sample_plan_def)

text \<open>
  The runtime arguments give every core of the plan its own tile row, segment and group,
  and no such piece of work is left out; a core's merger has the segment 0 of its tile row
  and group, and its owner the segment 0 and group 0 of its tile row.
\<close>

theorem work_partition:
  assumes "plan_input t cores" and "topk_select_plan t k ci pre os cores = Some p"
  shows "bij_betw (core_work p) {..<plan_cores p}
      ({..<tp_tile_rows p} \<times> {..<tp_segments p} \<times> {..<tp_row_groups p}) \<and>
    (\<forall>i < plan_cores p. let a = core_args p i in
      ta_merger a < plan_cores p \<and> core_work p (ta_merger a) = (ta_tile_row a, 0, ta_group a) \<and>
      ta_owner a < plan_cores p \<and> core_work p (ta_owner a) = (ta_tile_row a, 0, 0))"
proof (intro conjI allI impI)
  have ok: "plan_ok p cores" by (rule plan_some [OF assms])
  show bij: "bij_betw (core_work p) {..<plan_cores p}
      ({..<tp_tile_rows p} \<times> {..<tp_segments p} \<times> {..<tp_row_groups p})"
    by (rule core_work_bij [OF ok])
  fix i assume i: "i < plan_cores p"
  let ?per = "tp_segments p * tp_row_groups p"
  have per: "cores_per_tile_row p = ?per" "plan_cores p = tp_tile_rows p * ?per"
    and pos: "0 < tp_segments p" "0 < tp_row_groups p"
    using ok by (simp_all add: plan_ok_def)
  have t: "i div ?per < tp_tile_rows p"
    using i per(2) by (simp add: less_mult_imp_div_less)
  have g: "i mod ?per mod tp_row_groups p < tp_row_groups p" using pos by simp
  have gp: "g < ?per" if "g < tp_row_groups p" for g
    using that pos by (cases "tp_segments p") simp_all
  have in_all: "i div ?per * ?per + g < plan_cores p" if "g < ?per" for g
    unfolding per(2) by (rule index_less_product [OF t that])
  show "let a = core_args p i in
      ta_merger a < plan_cores p \<and> core_work p (ta_merger a) = (ta_tile_row a, 0, ta_group a) \<and>
      ta_owner a < plan_cores p \<and> core_work p (ta_owner a) = (ta_tile_row a, 0, 0)"
    using in_all [OF gp [OF g]] in_all [of 0] gp [OF g] pos gp [OF pos(2)] g
    by (simp add: core_work_def core_args_def Let_def per(1))
qed

lemma work_partition_witness: "core_work sample_plan ` {..<plan_cores sample_plan} =
    {..<1} \<times> {..<108} \<times> {..<1}"
  using conjunct1 [OF work_partition [OF sample_input sample_plan_eq]]
  by (simp add: bij_betw_def sample_plan_def)

text \<open>
  The plan is never less strict for a larger k: where the selection path declines a call
  it declines every larger k on the same tensor, as the sizing of TopK's buffers relies on.
\<close>

theorem plan_stricter:
  assumes "plan_input t cores" and "1 \<le> k" and "k \<le> k'"
    and none: "topk_select_plan t k ci pre os cores = None"
  shows "topk_select_plan t k' ci pre os cores = None"
proof (rule ccontr)
  assume "topk_select_plan t k' ci pre os cores \<noteq> None"
  then have c': "plan_checks t k' ci pre os cores"
    and f': "tp_rows_per_core (ideal_plan t k' cores) * tp_segment_tiles (ideal_plan t k' cores) * 128 \<le> 131072"
    unfolding plan_eq [OF assms(1)] by (auto split: if_splits)
  have c: "plan_checks t k ci pre os cores"
    by (rule plan_checks_mono [OF c' assms(2,3)])
  have "tp_rows_per_core (ideal_plan t k cores) * tp_segment_tiles (ideal_plan t k cores) * 128 \<le> 131072"
    using ideal_plan_mono [OF c c' assms(3)] f' by linarith
  then show False
    using none c by (simp add: plan_eq [OF assms(1)])
qed

definition narrow_tensor :: tensor_info where
  "narrow_tensor = sample_tensor\<lparr>logical_shape := [1, 1, 1, 4], padded_shape := [1, 1, 32, 32]\<rparr>"

lemma plan_stricter_witness: "topk_select_plan narrow_tensor 6 False False False 110 = None"
proof (rule plan_stricter [where k = 5])
  show "plan_input narrow_tensor 110"
    by (simp add: plan_input_def narrow_tensor_def div_up_def)
  show "topk_select_plan narrow_tensor 5 False False False 110 = None"
    by (simp add: topk_select_plan_def narrow_tensor_def sample_tensor_def Let_def)
qed simp_all

end
