(* ===== verification/TopkSelect.thy ===== *)
theory TopkSelect
  imports Prelude "HOL-Library.Multiset"
begin

text \<open>
  The selection of
  \<open>ttnn/cpp/ttnn/operations/reduction/topk/device/kernels/dataflow/topk_select.cpp\<close>: the
  unsigned keys in IEEE total order, the insertion into the best-first list, the scan of a
  segment of a row and the merge of a row's segments, with the proof that they keep the
  first \<open>k\<close> of the row in the order of \<open>lax.top_k\<close>.
\<close>

section \<open>Keys\<close>

definition sign_bit :: u32 where "sign_bit = 0x80000000"
definition all_bits :: u32 where "all_bits = 0xFFFFFFFF"

definition key_of :: "bool \<Rightarrow> u32 \<Rightarrow> u32" where
  "key_of largest bits =
     (let key = bits XOR (signed_drop_bit 31 bits OR sign_bit) in if largest then key else NOT key)"

definition bits_of :: "bool \<Rightarrow> u32 \<Rightarrow> u32" where
  "bits_of largest key =
     (let key = (if largest then key else NOT key) in
      key XOR (if key AND sign_bit \<noteq> 0 then sign_bit else all_bits))"

text \<open>
  The IEEE total order of FP32 bit patterns: the magnitude, and below all of those, for a
  set sign bit, its mirror image.
\<close>

definition ieee_rank :: "u32 \<Rightarrow> int" where
  "ieee_rank b = (if bit b 31 then - 1 - uint (take_bit 31 b) else uint (take_bit 31 b))"

lemma bit_sign [bit_simps]: "bit sign_bit n \<longleftrightarrow> n = 31"
  unfolding sign_bit_def using bit_exp_iff [of 31 n, where 'a = u32] by auto

lemma bit_all [bit_simps]: "bit all_bits n \<longleftrightarrow> n < 32"
proof -
  have "all_bits = - 1" by (simp add: all_bits_def)
  show ?thesis unfolding \<open>all_bits = - 1\<close> by simp
qed

lemma sign_extend: "signed_drop_bit 31 (b :: u32) = (if bit b 31 then - 1 else 0)"
proof (rule bit_word_eqI)
  fix n assume "n < LENGTH(32)"
  then show "bit (signed_drop_bit 31 b) n = bit (if bit b 31 then - 1 else 0 :: u32) n"
    by (cases n) (auto simp: bit_signed_drop_bit_iff)
qed

lemma sign_key: "key_of True b = (if bit b 31 then NOT b else b XOR sign_bit)"
  by (simp add: key_of_def sign_extend)

lemma uint_32: "take_bit 32 (uint (b :: u32)) = uint b"
  by (rule take_bit_int_eq_self) (use uint_lt2p [of b] in simp_all)

lemma uint_not: "uint (NOT (b :: u32)) = 4294967295 - uint b"
  by (simp add: unsigned_not_eq take_bit_not_eq_mask_diff mask_eq_exp_minus_1 uint_32)

lemma uint_split_31: "uint (b :: u32) = (if bit b 31 then 2147483648 else 0) + uint (take_bit 31 b)"
proof -
  have "uint b = take_bit (Suc 31) (uint b)" using uint_32 [of b] by simp
  also have "\<dots> = push_bit 31 (of_bool (bit (uint b) 31)) + take_bit 31 (uint b)"
    using take_bit_Suc_from_most [of 31 "uint b"] by (simp add: push_bit_eq_mult)
  finally show ?thesis by (cases "bit b 31") (simp_all add: unsigned_take_bit_eq bit_uint_iff push_bit_eq_mult)
qed

lemma uint_key: "uint (key_of True b) = 2147483648 + ieee_rank b"
proof (cases "bit b 31")
  case True
  then show ?thesis using uint_split_31 [of b] by (simp add: sign_key ieee_rank_def uint_not)
next
  case False
  have "take_bit 31 (b XOR sign_bit) = take_bit 31 b"
    by (rule bit_word_eqI) (auto simp: bit_simps)
  moreover have "bit (b XOR sign_bit) 31"
    using False by (simp add: bit_simps)
  ultimately show ?thesis
    using False uint_split_31 [of "b XOR sign_bit"] by (simp add: sign_key ieee_rank_def)
qed

lemma key_of_less: "key_of True a < key_of True b \<longleftrightarrow> ieee_rank a < ieee_rank b"
  by (simp add: word_less_def uint_key)

lemma key_of_not: "key_of False b = NOT (key_of True b)"
  by (simp add: key_of_def)

lemma not_less_not: "NOT a < NOT b \<longleftrightarrow> b < (a :: u32)"
  by (simp add: word_less_def uint_not)

lemma bits_of_key [simp]: "bits_of largest (key_of largest b) = b"
proof -
  have t: "bits_of True (key_of True c) = c" for c
  proof (cases "bit c 31")
    case True
    have "NOT c AND sign_bit = 0"
      by (rule bit_word_eqI) (use True in \<open>auto simp: bit_simps\<close>)
    moreover have "NOT c XOR all_bits = c"
      by (rule bit_word_eqI) (auto simp: bit_simps)
    ultimately show ?thesis using True by (simp add: sign_key bits_of_def)
  next
    case False
    have "bit ((c XOR sign_bit) AND sign_bit) 31"
      using False by (simp add: bit_simps)
    then have "(c XOR sign_bit) AND sign_bit \<noteq> 0" by auto
    moreover have "(c XOR sign_bit) XOR sign_bit = c"
      by (rule bit_word_eqI) (auto simp: bit_simps)
    ultimately show ?thesis using False by (simp add: sign_key bits_of_def)
  qed
  then show ?thesis
    by (cases largest) (simp_all add: key_of_not bits_of_def)
qed

lemma key_of_inj: "key_of largest a = key_of largest b \<longleftrightarrow> a = b"
  by (metis bits_of_key)

section \<open>Candidates\<close>

datatype cand = Cand (ckey: u32) (cindex: nat)

definition better :: "u32 \<Rightarrow> nat \<Rightarrow> cand \<Rightarrow> bool" where
  "better key index other \<longleftrightarrow> ckey other < key \<or> key = ckey other \<and> index < cindex other"

definition no_index :: nat where "no_index = 0xFFFFFFFF"

text \<open>The order of the lists: best first.\<close>

instantiation cand :: linorder
begin

definition "c < d \<longleftrightarrow> better (ckey c) (cindex c) d"
definition "c \<le> d \<longleftrightarrow> c = d \<or> better (ckey c) (cindex c) (d :: cand)"

instance
  by standard (auto simp: less_cand_def less_eq_cand_def better_def intro: cand.expand)

end

lemma better_iff: "better key index other \<longleftrightarrow> Cand key index < other"
  by (simp add: less_cand_def)

text \<open>\<open>insert\<close>: shift the entries the new one beats, from \<open>pos\<close> up.\<close>

fun insert_at :: "cand list \<Rightarrow> nat \<Rightarrow> u32 \<Rightarrow> nat \<Rightarrow> cand list" where
  "insert_at list 0 key index = list[0 := Cand key index]"
| "insert_at list (Suc p) key index =
     (if better key index (list ! p) then insert_at (list[Suc p := list ! p]) p key index
      else list[Suc p := Cand key index])"

section \<open>The scan of a segment\<close>

record scan =
  best :: "cand list"
  found :: nat
  threshold :: u32

text \<open>One element, with its bits already widened to 32.\<close>

definition scan_element :: "bool \<Rightarrow> nat \<Rightarrow> nat \<Rightarrow> u32 \<Rightarrow> scan \<Rightarrow> scan" where
  "scan_element largest k index bits s =
     (let key = key_of largest bits in
      if found s < k then
        let list = insert_at (best s) (found s) key index; n = found s + 1 in
        s\<lparr>best := list, found := n, threshold := (if n = k then ckey (list ! (k - 1)) else threshold s)\<rparr>
      else if threshold s < key then
        let list = insert_at (best s) (k - 1) key index in
        s\<lparr>best := list, threshold := ckey (list ! (k - 1))\<rparr>
      else s)"

text \<open>The elements \<open>[e, count)\<close> of a chunk whose first column is \<open>col\<close>.\<close>

fun scan_elements :: "bool \<Rightarrow> nat \<Rightarrow> (nat \<Rightarrow> u32) \<Rightarrow> nat \<Rightarrow> nat list \<Rightarrow> scan \<Rightarrow> scan" where
  "scan_elements largest k bits col [] s = s"
| "scan_elements largest k bits col (e # es) s =
     scan_elements largest k bits col es (scan_element largest k (col + e) (bits e) s)"

text \<open>The halves of a tile: the loop ends at the first column past the width.\<close>

fun scan_halves ::
  "bool \<Rightarrow> nat \<Rightarrow> nat \<Rightarrow> (nat \<Rightarrow> nat \<Rightarrow> u32) \<Rightarrow> nat \<Rightarrow> nat list \<Rightarrow> scan \<Rightarrow> scan" where
  "scan_halves largest k width bits tile [] s = s"
| "scan_halves largest k width bits tile (half # halves) s =
     (let col = tile * 32 + half * 16 in
      if width \<le> col then s
      else
        let count = (if col + 16 \<le> width then 16 else width - col) in
        scan_halves largest k width bits tile halves (scan_elements largest k (bits half) col [0..<count] s))"

text \<open>\<open>bits t half e\<close> is element \<open>e\<close> of the chunk read for half \<open>half\<close> of the segment's tile \<open>t\<close>.\<close>

fun scan_tiles ::
  "bool \<Rightarrow> nat \<Rightarrow> nat \<Rightarrow> (nat \<Rightarrow> nat \<Rightarrow> nat \<Rightarrow> u32) \<Rightarrow> nat \<Rightarrow> nat list \<Rightarrow> scan \<Rightarrow> scan" where
  "scan_tiles largest k width bits first [] s = s"
| "scan_tiles largest k width bits first (t # ts) s =
     scan_tiles largest k width bits first ts
       (scan_halves largest k width (bits t) (first + t) [0, 1] s)"

function pad_best :: "nat \<Rightarrow> nat \<Rightarrow> cand list \<Rightarrow> cand list" where
  "pad_best k n list = (if n < k then pad_best k (n + 1) (list[n := Cand 0 no_index]) else list)"
  by auto
termination by (relation "measure (\<lambda>(k, n, _). k - n)") auto

declare pad_best.simps [simp del]

text \<open>The list a core builds of one row, in the array \<open>old\<close> of the previous row.\<close>

definition select_row ::
  "bool \<Rightarrow> nat \<Rightarrow> nat \<Rightarrow> nat \<Rightarrow> nat \<Rightarrow> (nat \<Rightarrow> nat \<Rightarrow> nat \<Rightarrow> u32) \<Rightarrow> cand list \<Rightarrow> cand list" where
  "select_row largest k width first tiles bits old =
     (let s = scan_tiles largest k width bits first [0..<tiles] \<lparr>best = old, found = 0, threshold = 0\<rparr>
      in pad_best k (found s) (best s))"

section \<open>The merge of a row's segments\<close>

text \<open>The candidates of one list, to the first that does not beat the \<open>k\<close>-th.\<close>

fun merge_list :: "nat \<Rightarrow> cand list \<Rightarrow> nat list \<Rightarrow> cand list \<Rightarrow> cand list" where
  "merge_list k list [] cur = cur"
| "merge_list k list (i # is) cur =
     (if better (ckey (list ! i)) (cindex (list ! i)) (cur ! (k - 1))
      then merge_list k list is (insert_at cur (k - 1) (ckey (list ! i)) (cindex (list ! i)))
      else cur)"

text \<open>\<open>at s\<close> is the list of segment \<open>s\<close> in the candidates buffer.\<close>

definition merge_row :: "nat \<Rightarrow> nat \<Rightarrow> (nat \<Rightarrow> cand list) \<Rightarrow> cand list" where
  "merge_row k segments at =
     fold (\<lambda>s. merge_list k (at s) [0..<k]) [1..<segments] (map (\<lambda>i. at 0 ! i) [0..<k])"

section \<open>The first \<open>k\<close> of a list\<close>

definition topk :: "nat \<Rightarrow> 'a :: linorder list \<Rightarrow> 'a list" where
  "topk k xs = take k (sort xs)"

lemma topk_cong: "mset xs = mset ys \<Longrightarrow> topk k xs = topk k ys"
  by (metis topk_def properties_for_sort mset_sort sorted_sort)

lemma take_insort: "take k (insort c (take k xs)) = take k (insort c xs)"
proof (induction xs arbitrary: k)
  case (Cons a xs)
  then show ?case by (cases k) (auto simp: take_Cons')
qed simp

lemma topk_Cons: "topk k (c # topk k xs) = topk k (c # xs)"
proof -
  have "sort (take k (sort xs)) = take k (sort xs)"
    by (rule sorted_sort_id) (simp add: sorted_wrt_take)
  then show ?thesis
    by (simp add: topk_def take_insort)
qed

lemma topk_append: "topk k (topk k xs @ ys) = topk k (xs @ ys)"
proof (induction ys arbitrary: xs)
  case Nil
  then show ?case by (simp add: topk_def sorted_sort_id sorted_wrt_take)
next
  case (Cons y ys)
  have "topk k (topk k xs @ y # ys) = topk k (topk k (y # topk k xs) @ ys)"
    by (subst Cons.IH) (rule topk_cong, simp)
  also have "\<dots> = topk k (topk k (y # xs) @ ys)" by (simp add: topk_Cons)
  also have "\<dots> = topk k (xs @ y # ys)"
    by (subst Cons.IH) (rule topk_cong, simp)
  finally show ?case .
qed

lemma topk_append2: "topk k (xs @ topk k ys) = topk k (xs @ ys)"
  by (metis topk_append topk_cong mset_append union_commute)

lemma length_topk: "length (topk k xs) = min k (length xs)"
  by (simp add: topk_def)

lemma sorted_topk [simp]: "sorted (topk k xs)"
  by (simp add: topk_def sorted_wrt_take)

lemma topk_snoc:
  assumes "length xs < k"
  shows "topk k (xs @ [c]) = insort c (topk k xs)"
proof -
  have "topk k (xs @ [c]) = topk k (c # xs)" by (rule topk_cong) simp
  then show ?thesis using assms by (simp add: topk_def)
qed

text \<open>Once the list is full: a new element replaces its last one, or changes nothing.\<close>

lemma take_insort_last:
  "sorted xs \<Longrightarrow> k < length xs \<Longrightarrow> c < xs ! k \<Longrightarrow> take (Suc k) (insort c xs) = insort c (take k xs)"
proof (induction xs arbitrary: k)
  case (Cons a xs)
  then show ?case
    by (cases k) (auto dest: less_le_trans [of c] simp: not_le)
qed simp

lemma take_all_equal:
  assumes "sorted xs" and "\<forall>x\<in>set xs. a \<le> x" and "k < length xs" and "xs ! k = (a :: 'a :: linorder)"
  shows "take (Suc k) xs = replicate (Suc k) a"
proof (rule nth_equalityI)
  fix i assume "i < length (take (Suc k) xs)"
  then have i: "i \<le> k" "i < length xs" by auto
  then have "xs ! i \<le> a" and "a \<le> xs ! i"
    using sorted_nth_mono [OF assms(1), of i k] assms by auto
  then have "xs ! i = a" by simp
  then show "take (Suc k) xs ! i = replicate (Suc k) a ! i" using i by (simp del: replicate.simps)
qed (use assms in simp)

lemma take_insort_beaten:
  assumes "sorted xs" "k < length xs" "xs ! k \<le> c"
  shows "take (Suc k) (insort c xs) = take (Suc k) xs"
  using assms
proof (induction xs arbitrary: k)
  case (Cons a xs)
  show ?case
  proof (cases "c \<le> a")
    case True
    have "a \<le> (a # xs) ! k" using Cons.prems by (cases k) auto
    with True Cons.prems(3) have "c = a" by (metis order.antisym order.trans)
    moreover from this have "(a # xs) ! k = a" using \<open>a \<le> (a # xs) ! k\<close> Cons.prems(3) by simp
    ultimately have "(a # xs) ! k = a" "c = a" by simp_all
    then have t: "take (Suc k) (a # xs) = replicate (Suc k) a"
      using Cons.prems by (intro take_all_equal) auto
    have "take k (a # xs) = replicate k a"
      using arg_cong [OF t, of "take k"] by (simp only: take_take take_replicate min_def) simp
    then show ?thesis using True \<open>c = a\<close> t by simp
  next
    case False
    then show ?thesis using Cons by (cases k) auto
  qed
qed simp

section \<open>The insertion and the scan\<close>

lemma insort_snoc_less: "c < y \<Longrightarrow> \<forall>x\<in>set xs. x \<le> y \<Longrightarrow> insort c (xs @ [y]) = insort c xs @ [y :: 'a :: linorder]"
  by (induction xs) auto

text \<open>Inserting above position \<open>p\<close> of a list whose first \<open>p\<close> entries are sorted.\<close>

lemma insert_at_insort:
  "p < length xs \<Longrightarrow> sorted (take p xs) \<Longrightarrow>
   insert_at xs p key index = insort (Cand key index) (take p xs) @ drop (Suc p) xs"
proof (induction xs p key index rule: insert_at.induct)
  case (1 xs key index)
  then show ?case by (cases xs) simp_all
next
  case (2 xs p key index)
  let ?c = "Cand key index"
  have t: "take (Suc p) xs = take p xs @ [xs ! p]" and u: "drop (Suc p) xs = xs ! Suc p # drop (Suc (Suc p)) xs"
    using "2.prems"(1) by (simp_all add: take_Suc_conv_app_nth Cons_nth_drop_Suc)
  have s: "sorted (take p xs)" and le: "\<forall>x\<in>set (take p xs). x \<le> xs ! p"
    using "2.prems"(2) by (simp_all add: t sorted_append)
  show ?case
  proof (cases "?c < xs ! p")
    case True
    have "insert_at (xs[Suc p := xs ! p]) p key index =
        insort ?c (take p (xs[Suc p := xs ! p])) @ drop (Suc p) (xs[Suc p := xs ! p])"
      using "2.prems" True s by (intro "2.IH") (auto simp: better_iff)
    also have "drop (Suc p) (xs[Suc p := xs ! p]) = xs ! p # drop (Suc (Suc p)) xs"
      using "2.prems"(1) by (simp add: drop_update_swap u)
    finally show ?thesis
      using True le by (simp add: better_iff t insort_snoc_less)
  next
    case False
    then have "\<forall>x\<in>set (take (Suc p) xs). x \<le> ?c"
      using le by (auto simp: t intro: order.trans)
    then have "insort ?c (take (Suc p) xs) = take (Suc p) xs @ [?c]"
      using "2.prems"(2) by (intro sorted_insort_is_snoc) auto
    moreover have "xs[Suc p := ?c] = take (Suc p) xs @ ?c # drop (Suc (Suc p)) xs"
      using "2.prems"(1) by (simp add: upd_conv_take_nth_drop)
    ultimately show ?thesis using False by (simp add: better_iff)
  qed
qed

text \<open>What the scan keeps: the best of the candidates seen so far.\<close>

definition scan_ok :: "nat \<Rightarrow> cand list \<Rightarrow> scan \<Rightarrow> bool" where
  "scan_ok k seen s \<longleftrightarrow> length (best s) = k \<and> found s = min k (length seen) \<and>
     take (found s) (best s) = topk k seen \<and>
     (k \<le> length seen \<longrightarrow> threshold s = ckey (best s ! (k - 1)))"

lemma insert_at_topk:
  assumes "sorted (take p xs)" and "p < length xs"
  shows "length (insert_at xs p key index) = length xs"
    "take (Suc p) (insert_at xs p key index) = insort (Cand key index) (take p xs)"
  using assms by (simp_all add: insert_at_insort)

lemma scan_element_ok:
  assumes ok: "scan_ok k seen s" and k: "0 < k" and idx: "\<forall>c\<in>set seen. cindex c < i"
  shows "scan_ok k (seen @ [Cand (key_of largest b) i]) (scan_element largest k i b s)"
proof (cases "found s < k")
  case True
  then have len: "length seen < k" and f: "found s = length seen" "length (best s) = k"
    and t: "take (length seen) (best s) = topk k seen"
    using ok by (auto simp: scan_ok_def min_def split: if_splits)
  have s: "sorted (take (length seen) (best s))" unfolding t by simp
  note ins = insert_at_topk [OF s, of "key_of largest b" i]
  show ?thesis
    using len f ins t by (auto simp: scan_ok_def scan_element_def Let_def topk_snoc)
next
  case False
  then have len: "k \<le> length seen" and f: "found s = k" "length (best s) = k"
    and t: "best s = topk k seen" and th: "threshold s = ckey (best s ! (k - 1))"
    using ok by (auto simp: scan_ok_def min_def split: if_splits)
  let ?c = "Cand (key_of largest b) i"
  have new: "topk k (seen @ [?c]) = take (Suc (k - 1)) (insort ?c (best s))"
  proof -
    have "topk k (seen @ [?c]) = topk k (?c # seen)" by (rule topk_cong) simp
    also have "\<dots> = topk k (?c # topk k seen)" by (simp add: topk_Cons)
    finally show ?thesis
      using k by (simp add: t topk_def sorted_sort_id sorted_wrt_take)
  qed
  have k1: "k - 1 < length (best s)" and srt: "sorted (best s)" using f k t by auto
  have "best s ! (k - 1) \<in> set seen"
    using nth_mem [OF k1] t by (metis in_set_takeD set_sort topk_def)
  then have "cindex (best s ! (k - 1)) < i" using idx by simp
  then have beat: "?c < best s ! (k - 1) \<longleftrightarrow> threshold s < key_of largest b"
    by (auto simp: less_cand_def better_def th)
  show ?thesis
  proof (cases "threshold s < key_of largest b")
    case True
    have "insert_at (best s) (k - 1) (key_of largest b) i = topk k (seen @ [?c])"
      using insert_at_insort [OF k1, of "key_of largest b" i] srt True f(2) k
      unfolding new take_insort_last [OF srt k1 iffD2 [OF beat True]] by (simp add: sorted_wrt_take)
    then show ?thesis
      using True f len k by (simp add: scan_ok_def scan_element_def Let_def length_topk min_def)
  next
    case False
    then have "best s ! (k - 1) \<le> ?c" using beat by simp
    from take_insort_beaten [OF srt k1 this] have "topk k (seen @ [?c]) = best s"
      using f(2) k by (simp add: new)
    then show ?thesis
      using False f len th by (simp add: scan_ok_def scan_element_def)
  qed
qed

text \<open>The candidates of columns \<open>[a, b)\<close> of a row.\<close>

definition row_cands :: "bool \<Rightarrow> (nat \<Rightarrow> u32) \<Rightarrow> nat \<Rightarrow> nat \<Rightarrow> cand list" where
  "row_cands largest row a b = map (\<lambda>j. Cand (key_of largest (row j)) j) [a..<b]"

lemma row_cands_Suc: "a \<le> b \<Longrightarrow> row_cands largest row a (Suc b) =
    row_cands largest row a b @ [Cand (key_of largest (row b)) b]"
  by (simp add: row_cands_def)

lemma row_cands_index: "c \<in> set (row_cands largest row a b) \<Longrightarrow> cindex c < b"
  by (auto simp: row_cands_def)

lemma scan_elements_append:
  "scan_elements largest k bits col (es @ fs) s =
   scan_elements largest k bits col fs (scan_elements largest k bits col es s)"
  by (induction es arbitrary: s) simp_all

lemma scan_chunk_ok:
  assumes "scan_ok k (row_cands largest row a col) s" and "a \<le> col" and "0 < k"
    and "\<And>e. e < n \<Longrightarrow> bits e = row (col + e)"
  shows "scan_ok k (row_cands largest row a (col + n)) (scan_elements largest k bits col [0..<n] s)"
  using assms(4)
proof (induction n)
  case (Suc n)
  then have "scan_ok k (row_cands largest row a (col + n)) (scan_elements largest k bits col [0..<n] s)"
    by simp
  from scan_element_ok [OF this assms(3), of "col + n" largest "row (col + n)"] show ?case
    using Suc.prems [of n] assms(2) by (simp add: scan_elements_append row_cands_Suc row_cands_index)
qed (use assms(1) in simp)

lemma scan_halves_ok:
  assumes "scan_ok k (row_cands largest row a (min width (tile * 32))) s"
    and "a \<le> min width (tile * 32)" and "0 < k"
    and bits: "\<And>half e. half < 2 \<Longrightarrow> e < 16 \<Longrightarrow> tile * 32 + half * 16 + e < width \<Longrightarrow>
      bits half e = row (tile * 32 + half * 16 + e)"
  shows "scan_ok k (row_cands largest row a (min width (tile * 32 + 32)))
    (scan_halves largest k width bits tile [0, 1] s)"
proof -
  have chunk: "scan_ok k (row_cands largest row a (c + n)) (scan_elements largest k (bits h) c [0..<n] s')"
    if "scan_ok k (row_cands largest row a c) s'" "c = tile * 32 + h * 16" "h < 2" "a \<le> c" "n \<le> 16" "c + n \<le> width"
    for c h n s'
    by (rule scan_chunk_ok [OF that(1,4) assms(3)]) (use that bits in auto)
  show ?thesis
  proof (cases "width \<le> tile * 32")
    case True
    then show ?thesis using assms(1) by (simp add: min_def)
  next
    case False
    define n where "n = (if tile * 32 + 16 \<le> width then 16 else width - tile * 32)"
    define s1 where "s1 = scan_elements largest k (bits 0) (tile * 32) [0..<n] s"
    have s1: "scan_ok k (row_cands largest row a (tile * 32 + n)) s1"
      unfolding s1_def by (rule chunk) (use False assms(1,2) in \<open>auto simp: n_def min_def\<close>)
    have step: "scan_halves largest k width bits tile [0, 1] s = scan_halves largest k width bits tile [1] s1"
      using False unfolding s1_def n_def scan_halves.simps(2) [of largest k width bits tile 0] Let_def
      by (simp cong: if_cong)
    show ?thesis
    proof (cases "width \<le> tile * 32 + 16")
      case True
      then have "tile * 32 + n = min width (tile * 32 + 32)" using False by (auto simp: n_def)
      then show ?thesis using s1 True unfolding step by simp
    next
      case False
      define m where "m = (if tile * 32 + 16 + 16 \<le> width then 16 else width - (tile * 32 + 16))"
      have "scan_ok k (row_cands largest row a (tile * 32 + 16 + m))
          (scan_elements largest k (bits 1) (tile * 32 + 16) [0..<m] s1)"
        by (rule chunk) (use False s1 assms(2) in \<open>auto simp: n_def m_def\<close>)
      moreover have "tile * 32 + 16 + m = min width (tile * 32 + 32)" using False by (auto simp: m_def)
      ultimately show ?thesis using False unfolding step by (simp add: Let_def m_def)
    qed
  qed
qed

lemma scan_tiles_append:
  "scan_tiles largest k width bits first (ts @ us) s =
   scan_tiles largest k width bits first us (scan_tiles largest k width bits first ts s)"
  by (induction ts arbitrary: s) simp_all

lemma scan_tiles_ok:
  assumes k: "0 < k" and old: "length old = k" and first: "first * 32 < width"
    and bits: "\<And>t half e. t < tiles \<Longrightarrow> half < 2 \<Longrightarrow> e < 16 \<Longrightarrow> (first + t) * 32 + half * 16 + e < width \<Longrightarrow>
      bits t half e = row ((first + t) * 32 + half * 16 + e)"
  shows "scan_ok k (row_cands largest row (first * 32) (min width ((first + tiles) * 32)))
    (scan_tiles largest k width bits first [0..<tiles] \<lparr>best = old, found = 0, threshold = 0\<rparr>)"
  using bits
proof (induction tiles)
  case 0
  then show ?case using k old first by (simp add: scan_ok_def row_cands_def topk_def)
next
  case (Suc n)
  let ?s = "scan_tiles largest k width bits first [0..<n] \<lparr>best = old, found = 0, threshold = 0\<rparr>"
  have "scan_ok k (row_cands largest row (first * 32) (min width ((first + n) * 32 + 32)))
      (scan_halves largest k width (bits n) (first + n) [0, 1] ?s)"
    by (rule scan_halves_ok) (use Suc first k in auto)
  then show ?case by (simp add: scan_tiles_append algebra_simps)
qed

lemma pad_best_eq:
  "n \<le> k \<Longrightarrow> length xs = k \<Longrightarrow> pad_best k n xs = take n xs @ replicate (k - n) (Cand 0 no_index)"
proof (induction k n xs rule: pad_best.induct)
  case (1 k n xs)
  show ?case
  proof (cases "n < k")
    case True
    then have "pad_best k n xs = take (Suc n) (xs[n := Cand 0 no_index]) @ replicate (k - Suc n) (Cand 0 no_index)"
      using 1 by (simp add: pad_best.simps [of k n])
    then show ?thesis using True "1.prems" by (simp add: take_Suc_conv_app_nth Suc_diff_Suc [symmetric])
  next
    case False
    then show ?thesis using "1.prems" by (subst pad_best.simps) simp
  qed
qed

text \<open>A core's list of a row: the best \<open>k\<close> of its segment, padded.\<close>

definition segment_list :: "bool \<Rightarrow> (nat \<Rightarrow> u32) \<Rightarrow> nat \<Rightarrow> nat \<Rightarrow> nat \<Rightarrow> cand list" where
  "segment_list largest row k a b =
     topk k (row_cands largest row a b) @ replicate (k - (b - a)) (Cand 0 no_index)"

lemma select_row_eq:
  assumes "0 < k" and "length old = k" and "first * 32 < width"
    and "\<And>t half e. t < tiles \<Longrightarrow> half < 2 \<Longrightarrow> e < 16 \<Longrightarrow> (first + t) * 32 + half * 16 + e < width \<Longrightarrow>
      bits t half e = row ((first + t) * 32 + half * 16 + e)"
  shows "select_row largest k width first tiles bits old =
    segment_list largest row k (first * 32) (min width ((first + tiles) * 32))"
  using scan_tiles_ok [where largest = largest and bits = bits and row = row and tiles = tiles, OF assms]
  by (auto simp: select_row_def segment_list_def Let_def scan_ok_def pad_best_eq row_cands_def min_def)

section \<open>The merge\<close>

lemma insert_last_topk:
  assumes "sorted cur" and "length cur = k" and "0 < k" and "c < cur ! (k - 1)"
  shows "insert_at cur (k - 1) (ckey c) (cindex c) = topk k (cur @ [c])"
proof -
  have "topk k (cur @ [c]) = topk k (c # cur)" by (rule topk_cong) simp
  also have "\<dots> = take (Suc (k - 1)) (insort c cur)"
    using assms by (simp add: topk_def sorted_sort_id)
  also have "\<dots> = insort c (take (k - 1) cur)"
    using assms by (intro take_insort_last) simp_all
  finally show ?thesis
    using assms insert_at_insort [of "k - 1" cur "ckey c" "cindex c"] by (simp add: sorted_wrt_take)
qed

lemma topk_sorted_beaten:
  assumes "sorted cur" and "length cur = k" and "0 < k" and "\<forall>c\<in>set cs. cur ! (k - 1) \<le> c"
  shows "topk k (cur @ cs) = cur"
  using assms(4)
proof (induction cs rule: rev_induct)
  case Nil
  then show ?case using assms by (simp add: topk_def sorted_sort_id)
next
  case (snoc c cs)
  have "topk k (cur @ cs @ [c]) = topk k (topk k (cur @ cs) @ [c])" by (simp add: topk_append)
  also have "topk k (cur @ cs) = cur" using snoc by simp
  also have "topk k (cur @ [c]) = topk k (c # cur)" by (rule topk_cong) simp
  also have "\<dots> = take (Suc (k - 1)) (insort c cur)"
    using assms by (simp add: topk_def sorted_sort_id)
  also have "\<dots> = take (Suc (k - 1)) cur"
    using assms snoc by (intro take_insort_beaten) simp_all
  finally show ?case using assms by simp
qed

lemma merge_list_topk:
  assumes "sorted (map (\<lambda>i. list ! i) is)" and "sorted cur" and "length cur = k" and "0 < k"
  shows "merge_list k list is cur = topk k (cur @ map (\<lambda>i. list ! i) is)"
  using assms
proof (induction "is" arbitrary: cur)
  case Nil
  then show ?case by (simp add: topk_def sorted_sort_id)
next
  case (Cons i "is")
  let ?c = "list ! i"
  show ?case
  proof (cases "?c < cur ! (k - 1)")
    case True
    let ?cur = "topk k (cur @ [?c])"
    have "merge_list k list (i # is) cur = merge_list k list is ?cur"
      using True insert_last_topk [OF Cons.prems(2-4) True] by (simp add: better_iff)
    also have "\<dots> = topk k (?cur @ map (\<lambda>i. list ! i) is)"
      using Cons.prems by (intro Cons.IH) (simp_all add: length_topk)
    finally show ?thesis by (simp add: topk_append)
  next
    case False
    then have "\<forall>c\<in>set (map (\<lambda>i. list ! i) (i # is)). cur ! (k - 1) \<le> c"
      using Cons.prems(1) by (auto simp: not_less intro: order.trans)
    then show ?thesis
      using False Cons.prems topk_sorted_beaten [of cur k "map (\<lambda>i. list ! i) (i # is)"]
      by (simp add: better_iff)
  qed
qed

lemma merge_row_topk:
  assumes lists: "\<And>s. s < segments \<Longrightarrow> sorted (take k (at s)) \<and> k \<le> length (at s)"
    and "0 < k" and "0 < segments"
  shows "merge_row k segments at = topk k (concat (map (\<lambda>s. take k (at s)) [0..<segments]))"
proof -
  have pre: "map (\<lambda>i. at s ! i) [0..<k] = take k (at s)" if "s < segments" for s
    using lists [OF that] by (intro nth_equalityI) simp_all
  have "fold (\<lambda>s. merge_list k (at s) [0..<k]) [1..<n] (take k (at 0)) =
      topk k (concat (map (\<lambda>s. take k (at s)) [0..<n]))" if "0 < n" "n \<le> segments" for n
    using that
  proof (induction n)
    case (Suc n)
    show ?case
    proof (cases "n = 0")
      case True
      then show ?thesis using lists [of 0] assms(3) by (simp add: topk_def sorted_sort_id)
    next
      case False
      let ?cur = "topk k (concat (map (\<lambda>s. take k (at s)) [0..<n]))"
      have "k \<le> length (concat (map (\<lambda>s. take k (at s)) [0..<n]))"
        using lists [of 0] False assms(3) by (cases n) (simp_all add: upt_conv_Cons del: upt_Suc)
      then have "merge_list k (at n) [0..<k] ?cur = topk k (?cur @ take k (at n))"
        using Suc.prems lists [of n] assms(2) pre [of n] by (subst merge_list_topk) (simp_all add: length_topk)
      then show ?thesis using Suc False by (simp add: topk_append)
    qed
  qed simp
  from this [of segments] show ?thesis
    using assms(3) by (simp add: merge_row_def pre)
qed

text \<open>Padding never wins over an element of the row.\<close>

lemma topk_padding:
  assumes "\<forall>c\<in>set xs. c < pad" and "k \<le> length xs" and "mset ys = mset (xs @ replicate n pad)"
  shows "topk k ys = topk k xs"
proof -
  have "sort (xs @ replicate n pad) = sort xs @ replicate n pad"
    by (rule properties_for_sort)
      (use assms(1) in \<open>auto simp: sorted_append set_replicate_conv_if less_imp_le\<close>)
  then have "topk k (xs @ replicate n pad) = topk k xs"
    using assms(2) by (simp add: topk_def)
  then show ?thesis using topk_cong [OF assms(3)] by metis
qed

section \<open>A whole row\<close>

text \<open>The boundaries of the segments, in columns.\<close>

definition cut :: "nat \<Rightarrow> nat \<Rightarrow> nat \<Rightarrow> nat" where
  "cut width segment_tiles s = min width (s * segment_tiles * 32)"

lemma row_cands_append: "a \<le> b \<Longrightarrow> b \<le> c \<Longrightarrow> row_cands largest row a b @ row_cands largest row b c = row_cands largest row a c"
  using upt_add_eq_append [of a b "c - b"] by (simp add: row_cands_def flip: map_append)

lemma concat_segments:
  "concat (map (\<lambda>s. row_cands largest row (cut width st s) (cut width st (Suc s))) [0..<n]) =
   row_cands largest row 0 (cut width st n)"
proof (induction n)
  case (Suc n)
  have "cut width st n \<le> cut width st (Suc n)" by (auto simp: cut_def intro: min.coboundedI2)
  with Suc show ?case by (simp add: row_cands_append)
qed (simp add: row_cands_def cut_def)

lemma topk_concat: "topk k (concat (map (topk k) xss)) = topk k (concat xss)"
proof (induction xss)
  case (Cons xs xss)
  have "topk k (topk k xs @ concat (map (topk k) xss)) = topk k (xs @ topk k (concat (map (topk k) xss)))"
    by (simp add: topk_append topk_append2)
  with Cons show ?case by (simp add: topk_append2)
qed simp

lemma sorted_segment_list: "b \<le> no_index \<Longrightarrow> sorted (segment_list largest row k a b)"
  by (auto simp: segment_list_def sorted_append row_cands_def topk_def less_eq_cand_def better_def word_gt_0
      dest!: in_set_takeD)

lemma length_segment_list: "length (segment_list largest row k a b) = k"
  by (simp add: segment_list_def length_topk row_cands_def)

text \<open>The best \<open>k\<close> of a row of \<open>width\<close> elements.\<close>

definition row_topk :: "bool \<Rightarrow> (nat \<Rightarrow> u32) \<Rightarrow> nat \<Rightarrow> nat \<Rightarrow> cand list" where
  "row_topk largest row width k = topk k (row_cands largest row 0 width)"

lemma length_row_topk: "k \<le> width \<Longrightarrow> length (row_topk largest row width k) = k"
  by (simp add: row_topk_def length_topk row_cands_def)

lemma mset_concat_replicate:
  "mset (concat (map (\<lambda>s. f s @ replicate (g s) p) ss)) =
   mset (concat (map f ss) @ replicate (sum_list (map g ss)) p)"
  by (induction ss) (simp_all add: replicate_add ac_simps)

lemma merge_segments:
  assumes "0 < k" "k \<le> width" "width \<le> no_index" "0 < segments" and cov: "width \<le> segments * st * 32"
    and at: "\<And>s. s < segments \<Longrightarrow> k \<le> length (at s) \<and>
      take k (at s) = segment_list largest row k (cut width st s) (cut width st (Suc s))"
  shows "merge_row k segments at = row_topk largest row width k"
proof -
  let ?seg = "\<lambda>s. row_cands largest row (cut width st s) (cut width st (Suc s))"
  let ?real = "concat (map (topk k) (map ?seg [0..<segments]))"
  let ?all = "concat (map (\<lambda>s. take k (at s)) [0..<segments])"
  have "cut width st (Suc s) \<le> no_index" for s using assms(3) by (simp add: cut_def)
  then have "merge_row k segments at = topk k ?all"
    using assms(1,4) at by (intro merge_row_topk) (auto simp: sorted_segment_list)
  moreover have "topk k ?real = topk k (row_cands largest row 0 width)"
    using cov unfolding topk_concat concat_segments by (simp add: cut_def min_def)
  moreover have "topk k ?all = topk k ?real"
  proof (rule topk_padding)
    show "\<forall>c\<in>set ?real. c < Cand 0 no_index"
      using assms(3) by (auto simp: topk_def row_cands_def less_cand_def better_def cut_def word_gt_0 dest!: in_set_takeD)
    have "min k (length ?real) = min k width"
      using arg_cong [OF \<open>topk k ?real = _\<close>, of length] by (simp add: length_topk row_cands_def)
    then show "k \<le> length ?real" using assms(2) by simp
    have all: "map (\<lambda>s. take k (at s)) [0..<segments] = map (\<lambda>s. topk k (?seg s) @
        replicate (k - (cut width st (Suc s) - cut width st s)) (Cand 0 no_index)) [0..<segments]"
      using at by (simp add: segment_list_def)
    show "mset ?all = mset (?real @ replicate (sum_list (map (\<lambda>s. k - (cut width st (Suc s) - cut width st s))
        [0..<segments])) (Cand 0 no_index))"
      unfolding all mset_concat_replicate by (simp add: comp_def)
  qed
  ultimately show ?thesis by (simp add: row_topk_def)
qed

text \<open>
  The list a core builds of its segment of a row is the segment's best \<open>k\<close>, best first:
  larger keys before smaller ones and, among equal keys, lower columns first; entries of a
  padding that follows every element fill a list the segment is too short for.
\<close>

theorem select_row_topk:
  assumes "0 < k" and "length old = k" and "first * 32 < width"
    and "\<And>t half e. t < tiles \<Longrightarrow> half < 2 \<Longrightarrow> e < 16 \<Longrightarrow> (first + t) * 32 + half * 16 + e < width \<Longrightarrow>
      bits t half e = row ((first + t) * 32 + half * 16 + e)"
  shows "select_row largest k width first tiles bits old =
    take k (sort (row_cands largest row (first * 32) (min width ((first + tiles) * 32)))) @
    replicate (k - (min width ((first + tiles) * 32) - first * 32)) (Cand 0 no_index)"
  by (subst select_row_eq [where bits = bits and row = row and tiles = tiles, OF assms]) (simp_all add: segment_list_def topk_def)

definition sample_row :: "nat \<Rightarrow> u32" where
  "sample_row j = [0x3F800000, 0x80000000, 0x40000000, 0, 0x40000000] ! j"

lemma select_row_topk_witness:
  "select_row True 3 5 0 1 (\<lambda>t half e. sample_row (t * 32 + half * 16 + e)) (replicate 3 (Cand 7 7)) =
   take 3 (sort (row_cands True sample_row 0 5)) @ replicate 0 (Cand 0 no_index)"
  using select_row_topk [of 3 "replicate 3 (Cand 7 7)" 0 5 1
      "\<lambda>t half e. sample_row (t * 32 + half * 16 + e)" sample_row True]
  by simp

text \<open>
  C20: Merging the lists of a row's segments, each cut short at its first candidate that does
  not beat the \<open>k\<close>-th kept, gives the best \<open>k\<close> of the whole row in the same order.
\<close>

theorem merge_row_global:
  assumes "0 < k" "k \<le> width" "width \<le> no_index" "0 < segments" and "width \<le> segments * st * 32"
    and "\<And>s. s < segments \<Longrightarrow> k \<le> length (at s) \<and>
      take k (at s) = segment_list largest row k (cut width st s) (cut width st (Suc s))"
  shows "merge_row k segments at = take k (sort (row_cands largest row 0 width))"
  using merge_segments [OF assms] by (simp add: row_topk_def topk_def)

lemma merge_row_global_witness:
  "merge_row 2 2 (\<lambda>s. segment_list True (\<lambda>j. of_nat (j mod 7)) 2 (cut 33 1 s) (cut 33 1 (Suc s))) =
   take 2 (sort (row_cands True (\<lambda>j. of_nat (j mod 7)) 0 33))"
  by (rule merge_row_global [where st = 1]) (simp_all add: no_index_def length_segment_list)

text \<open>
  C21: The keys order the elements as IEEE total order does (\<open>-NaN\<close> lowest, \<open>-0.0\<close> below
  \<open>+0.0\<close>, \<open>+NaN\<close> highest), reversed for the smallest \<open>k\<close>, and an element is read back from
  its key.
\<close>

theorem key_order:
  "(key_of True a < key_of True b \<longleftrightarrow> ieee_rank a < ieee_rank b) \<and>
   (key_of False a < key_of False b \<longleftrightarrow> ieee_rank b < ieee_rank a) \<and>
   (ieee_rank a = ieee_rank b \<longleftrightarrow> a = b) \<and> bits_of largest (key_of largest a) = a"
proof -
  have "ieee_rank a = ieee_rank b \<longleftrightarrow> a = b"
    using uint_key [of a] uint_key [of b] key_of_inj [of True a b] by (auto simp: word_uint_eq_iff)
  then show ?thesis by (simp add: key_of_less key_of_not not_less_not)
qed

end
