(* ===== verification/NocMachine.thy ===== *)
theory NocMachine
  imports Prelude
begin

text \<open>
  Data movement cores, their memories and semaphores: the steps of \<open>noc_async_write\<close>,
  \<open>noc_async_write_barrier\<close>, \<open>noc_semaphore_inc\<close>, \<open>noc_semaphore_wait\<close> and
  \<open>noc_semaphore_set\<close>, in any interleaving of the cores and any order of the writes in
  flight. A write computes its value from the memory when it is issued and lands later; a
  barrier waits for the core's own writes. The locale is the contract of a kernel whose cores
  only meet at semaphores: what it asks is checked on the text of the programs, and every run
  ends with the expected memory.
\<close>

section \<open>The machine\<close>

datatype ('l, 's, 'v) instr =
    Put 'l "('l \<Rightarrow> 'v option) \<Rightarrow> 'v"
  | Barrier
  | Inc 's
  | Wait 's nat
  | Reset 's

record ('l, 's, 'v) noc =
  mem :: "'l \<Rightarrow> 'v option"
  sem :: "'s \<Rightarrow> nat"
  pc :: "nat \<Rightarrow> nat"
  flight :: "nat \<Rightarrow> ('l \<times> 'v) list"

definition noc_init :: "('l, 's, 'v) noc" where
  "noc_init = \<lparr>mem = (\<lambda>_. None), sem = (\<lambda>_. 0), pc = (\<lambda>_. 0), flight = (\<lambda>_. [])\<rparr>"

definition drop_nth :: "nat \<Rightarrow> 'a list \<Rightarrow> 'a list" where
  "drop_nth i xs = take i xs @ drop (Suc i) xs"

definition next_instr :: "(nat \<Rightarrow> ('l, 's, 'v) instr list) \<Rightarrow> ('l, 's, 'v) noc \<Rightarrow> nat \<Rightarrow> ('l, 's, 'v) instr option" where
  "next_instr P w c = (if pc w c < length (P c) then Some (P c ! pc w c) else None)"

definition advance :: "nat \<Rightarrow> ('l, 's, 'v) noc \<Rightarrow> ('l, 's, 'v) noc" where
  "advance c w = w\<lparr>pc := (pc w)(c := Suc (pc w c))\<rparr>"

inductive noc_step :: "nat \<Rightarrow> (nat \<Rightarrow> ('l, 's, 'v) instr list) \<Rightarrow> ('l, 's, 'v) noc \<Rightarrow> ('l, 's, 'v) noc \<Rightarrow> bool"
  for n P where
  put: "c < n \<Longrightarrow> next_instr P w c = Some (Put l f) \<Longrightarrow>
    noc_step n P w (advance c (w\<lparr>flight := (flight w)(c := (l, f (mem w)) # flight w c)\<rparr>))"
| deliver: "c < n \<Longrightarrow> i < length (flight w c) \<Longrightarrow> flight w c ! i = (l, v) \<Longrightarrow>
    noc_step n P w (w\<lparr>mem := (mem w)(l \<mapsto> v), flight := (flight w)(c := drop_nth i (flight w c))\<rparr>)"
| barrier: "c < n \<Longrightarrow> next_instr P w c = Some Barrier \<Longrightarrow> flight w c = [] \<Longrightarrow> noc_step n P w (advance c w)"
| inc: "c < n \<Longrightarrow> next_instr P w c = Some (Inc s) \<Longrightarrow>
    noc_step n P w (advance c (w\<lparr>sem := (sem w)(s := sem w s + 1)\<rparr>))"
| wait: "c < n \<Longrightarrow> next_instr P w c = Some (Wait s v) \<Longrightarrow> sem w s = v \<Longrightarrow> noc_step n P w (advance c w)"
| reset: "c < n \<Longrightarrow> next_instr P w c = Some (Reset s) \<Longrightarrow>
    noc_step n P w (advance c (w\<lparr>sem := (sem w)(s := 0)\<rparr>))"

text \<open>A run of a number of steps.\<close>

inductive noc_run :: "nat \<Rightarrow> (nat \<Rightarrow> ('l, 's, 'v) instr list) \<Rightarrow> nat \<Rightarrow> ('l, 's, 'v) noc \<Rightarrow> ('l, 's, 'v) noc \<Rightarrow> bool"
  for n P where
  start: "noc_run n P 0 w w"
| step: "noc_run n P m w w' \<Longrightarrow> noc_step n P w' w'' \<Longrightarrow> noc_run n P (Suc m) w w''"

text \<open>The states that a run goes through, from the first.\<close>

definition noc_path :: "nat \<Rightarrow> (nat \<Rightarrow> ('l, 's, 'v) instr list) \<Rightarrow> ('l, 's, 'v) noc list \<Rightarrow> bool" where
  "noc_path n P ws \<longleftrightarrow> ws \<noteq> [] \<and> ws ! 0 = noc_init \<and> (\<forall>k. Suc k < length ws \<longrightarrow> noc_step n P (ws ! k) (ws ! Suc k))"

definition finished :: "nat \<Rightarrow> (nat \<Rightarrow> ('l, 's, 'v) instr list) \<Rightarrow> ('l, 's, 'v) noc \<Rightarrow> bool" where
  "finished n P w \<longleftrightarrow> (\<forall>c < n. length (P c) \<le> pc w c \<and> flight w c = [])"

lemma path_run: "noc_path n P ws \<Longrightarrow> k < length ws \<Longrightarrow> noc_run n P k noc_init (ws ! k)"
proof (induction k)
  case 0
  then show ?case by (simp add: noc_path_def noc_run.start)
next
  case (Suc k)
  then have "noc_step n P (ws ! k) (ws ! Suc k)" by (simp add: noc_path_def)
  with Suc show ?case by (intro noc_run.step) simp_all
qed

lemma run_path: "noc_run n P m noc_init w \<Longrightarrow> \<exists>ws. noc_path n P ws \<and> last ws = w"
proof (induction m "noc_init :: ('a, 'b, 'c) noc" w rule: noc_run.induct)
  case start
  show ?case by (intro exI [of _ "[noc_init]"]) (simp add: noc_path_def)
next
  case (step m w w')
  then obtain ws where ws: "noc_path n P ws" "last ws = w" by blast
  have "noc_step n P ((ws @ [w']) ! k) ((ws @ [w']) ! Suc k)" if "Suc k < length (ws @ [w'])" for k
  proof (cases "Suc k < length ws")
    case True
    then show ?thesis using ws(1) by (simp add: noc_path_def nth_append)
  next
    case False
    then have "k = length ws - 1" "Suc k = length ws" using that by simp_all
    then show ?thesis using ws step(3) by (simp add: noc_path_def nth_append last_conv_nth)
  qed
  then have "noc_path n P (ws @ [w'])" using ws(1) by (simp add: noc_path_def nth_append)
  then show ?case by (intro exI [of _ "ws @ [w']"]) simp
qed

lemma next_instr_Some: "next_instr P w c = Some x \<longleftrightarrow> pc w c < length (P c) \<and> P c ! pc w c = x"
  by (simp add: next_instr_def)

lemma advance_simps [simp]:
  "mem (advance c w) = mem w" "sem (advance c w) = sem w" "flight (advance c w) = flight w"
  "pc (advance c w) = (pc w)(c := Suc (pc w c))"
  by (simp_all add: advance_def)

lemma set_drop_nth: "set (drop_nth i xs) \<subseteq> set xs"
  by (auto simp: drop_nth_def dest: in_set_takeD in_set_dropD)

lemma drop_nth_cover: "i < length xs \<Longrightarrow> x \<in> set xs \<Longrightarrow> x = xs ! i \<or> x \<in> set (drop_nth i xs)"
  using id_take_nth_drop [of i xs] by (auto simp: drop_nth_def) (metis Un_iff set_ConsD set_append)

lemma length_drop_nth: "i < length xs \<Longrightarrow> Suc (length (drop_nth i xs)) = length xs"
  by (simp add: drop_nth_def)

section \<open>Every run ends\<close>

definition work_left :: "nat \<Rightarrow> (nat \<Rightarrow> ('l, 's, 'v) instr list) \<Rightarrow> ('l, 's, 'v) noc \<Rightarrow> nat" where
  "work_left n P w = (\<Sum>c<n. 2 * (length (P c) - pc w c) + length (flight w c))"

lemma work_left_less:
  assumes c: "c < n"
    and less: "2 * (length (P c) - pc w' c) + length (flight w' c) < 2 * (length (P c) - pc w c) + length (flight w c)"
    and other: "\<And>d. d \<noteq> c \<Longrightarrow> pc w' d = pc w d \<and> flight w' d = flight w d"
  shows "work_left n P w' < work_left n P w"
  unfolding work_left_def
proof (rule sum_strict_mono_ex1)
  show "\<forall>d\<in>{..<n}. 2 * (length (P d) - pc w' d) + length (flight w' d)
      \<le> 2 * (length (P d) - pc w d) + length (flight w d)"
  proof
    fix d
    show "2 * (length (P d) - pc w' d) + length (flight w' d) \<le> 2 * (length (P d) - pc w d) + length (flight w d)"
      using less other [of d] by (cases "d = c") simp_all
  qed
  show "\<exists>d\<in>{..<n}. 2 * (length (P d) - pc w' d) + length (flight w' d)
      < 2 * (length (P d) - pc w d) + length (flight w d)"
    using c less by auto
qed (rule finite_lessThan)

lemma step_work_left: "noc_step n P w w' \<Longrightarrow> work_left n P w' < work_left n P w"
proof (induction rule: noc_step.induct)
  case (put c w l f)
  show ?case by (rule work_left_less [OF put(1)]) (use put in \<open>auto simp: next_instr_Some\<close>)
next
  case (deliver c i w l v)
  show ?case
    by (rule work_left_less [OF deliver(1)]) (use length_drop_nth [OF deliver(2)] in auto)
next
  case (barrier c w)
  show ?case by (rule work_left_less [OF barrier(1)]) (use barrier in \<open>auto simp: next_instr_Some\<close>)
next
  case (inc c w s)
  show ?case by (rule work_left_less [OF inc(1)]) (use inc in \<open>auto simp: next_instr_Some\<close>)
next
  case (wait c w s v)
  show ?case by (rule work_left_less [OF wait(1)]) (use wait in \<open>auto simp: next_instr_Some\<close>)
next
  case (reset c w s)
  show ?case by (rule work_left_less [OF reset(1)]) (use reset in \<open>auto simp: next_instr_Some\<close>)
qed

lemma run_work_left: "noc_run n P m w w' \<Longrightarrow> m + work_left n P w' \<le> work_left n P w"
proof (induction rule: noc_run.induct)
  case (step m w w' w'')
  then show ?case using step_work_left [OF step(2)] by linarith
qed simp

section \<open>What a core knows\<close>

text \<open>Locations whose writes have landed when the program has come to its instruction \<open>i\<close>.\<close>

definition settled :: "('l, 's, 'v) instr list \<Rightarrow> nat \<Rightarrow> 'l \<Rightarrow> bool" where
  "settled p i l \<longleftrightarrow> (\<exists>j b f. j < b \<and> b < i \<and> b < length p \<and> p ! j = Put l f \<and> p ! b = Barrier)"

definition incs :: "nat \<Rightarrow> (nat \<Rightarrow> ('l, 's, 'v) instr list) \<Rightarrow> 's \<Rightarrow> (nat \<times> nat) set" where
  "incs n P s = {(d, e). d < n \<and> e < length (P d) \<and> P d ! e = Inc s}"

definition known :: "nat \<Rightarrow> (nat \<Rightarrow> ('l, 's, 'v) instr list) \<Rightarrow> nat \<Rightarrow> nat \<Rightarrow> 'l \<Rightarrow> bool" where
  "known n P c i l \<longleftrightarrow> settled (P c) i l \<or>
     (\<exists>j s v d e. j < i \<and> P c ! j = Wait s v \<and> (d, e) \<in> incs n P s \<and> settled (P d) e l)"

lemma finite_incs: "finite (incs n P s)"
proof (rule finite_subset)
  show "incs n P s \<subseteq> (\<Union>d<n. {d} \<times> {..<length (P d)})"
    by (auto simp: incs_def)
qed (intro finite_UN_I finite_lessThan finite_cartesian_product finite.intros)

lemma settled_mono: "settled p i l \<Longrightarrow> i \<le> i' \<Longrightarrow> settled p i' l"
  unfolding settled_def by (meson order.strict_trans2)

section \<open>The invariant\<close>

definition values_ok :: "('l \<Rightarrow> 'v) \<Rightarrow> ('l, 's, 'v) noc \<Rightarrow> bool" where
  "values_ok expect w \<longleftrightarrow> (\<forall>l v. mem w l = Some v \<longrightarrow> v = expect l) \<and>
     (\<forall>c l v. (l, v) \<in> set (flight w c) \<longrightarrow> v = expect l)"

definition writes_ok :: "nat \<Rightarrow> (nat \<Rightarrow> ('l, 's, 'v) instr list) \<Rightarrow> ('l, 's, 'v) noc \<Rightarrow> bool" where
  "writes_ok n P w \<longleftrightarrow> (\<forall>c < n. \<forall>j l f. j < pc w c \<and> P c ! j = Put l f \<longrightarrow>
      mem w l \<noteq> None \<or> (\<exists>v. (l, v) \<in> set (flight w c))) \<and>
     (\<forall>c < n. \<forall>l. settled (P c) (pc w c) l \<longrightarrow> mem w l \<noteq> None)"

definition waits_ok :: "nat \<Rightarrow> (nat \<Rightarrow> ('l, 's, 'v) instr list) \<Rightarrow> ('l, 's, 'v) noc \<Rightarrow> bool" where
  "waits_ok n P w \<longleftrightarrow> (\<forall>c < n. \<forall>j s v. j < pc w c \<and> P c ! j = Wait s v \<longrightarrow>
     (\<forall>(d, e) \<in> incs n P s. e < pc w d))"

definition sems_ok :: "nat \<Rightarrow> (nat \<Rightarrow> ('l, 's, 'v) instr list) \<Rightarrow> ('l, 's, 'v) noc \<Rightarrow> bool" where
  "sems_ok n P w \<longleftrightarrow> (\<forall>s. (\<forall>d < n. \<forall>e < pc w d. P d ! e \<noteq> Reset s) \<longrightarrow>
     sem w s = card {(d, e) \<in> incs n P s. e < pc w d})"

definition noc_inv :: "nat \<Rightarrow> (nat \<Rightarrow> ('l, 's, 'v) instr list) \<Rightarrow> ('l \<Rightarrow> 'v) \<Rightarrow> ('l, 's, 'v) noc \<Rightarrow> bool" where
  "noc_inv n P expect w \<longleftrightarrow> values_ok expect w \<and> writes_ok n P w \<and> waits_ok n P w \<and> sems_ok n P w \<and>
     (\<forall>c < n. pc w c \<le> length (P c))"

lemma noc_inv_init: "noc_inv n P expect noc_init"
  by (auto simp: noc_inv_def values_ok_def writes_ok_def waits_ok_def sems_ok_def noc_init_def settled_def incs_def)

lemma settled_Suc: "settled p (Suc i) l \<longleftrightarrow> settled p i l \<or> (i < length p \<and> p ! i = Barrier \<and> (\<exists>j < i. \<exists>f. p ! j = Put l f))"
  unfolding settled_def by (auto simp: less_Suc_eq)

lemma incs_before_Suc:
  assumes "c < n" "pc w c < length (P c)"
  shows "{(d, e) \<in> incs n P s. e < ((pc w)(c := Suc (pc w c))) d} =
    {(d, e) \<in> incs n P s. e < pc w d} \<union> (if P c ! pc w c = Inc s then {(c, pc w c)} else {})"
  using assms by (auto simp: incs_def less_Suc_eq split: if_splits)

text \<open>The parts of the invariant that only depend on where the cores are.\<close>

lemma sems_ok_advance:
  assumes ok: "sems_ok n P w" and c: "c < n" and i: "pc w c < length (P c)"
    and sem: "\<And>s. sem w' s = (if P c ! pc w c = Inc s then Suc (sem w s)
      else if P c ! pc w c = Reset s then 0 else sem w s)"
    and pc: "pc w' = (pc w)(c := Suc (pc w c))"
  shows "sems_ok n P w'"
  unfolding sems_ok_def
proof (intro allI impI)
  fix s assume none: "\<forall>d < n. \<forall>e < pc w' d. P d ! e \<noteq> Reset s"
  have "\<forall>d < n. \<forall>e < pc w d. P d ! e \<noteq> Reset s"
    using none unfolding pc by (metis fun_upd_apply less_SucI)
  then have s: "sem w s = card {(d, e) \<in> incs n P s. e < pc w d}"
    using ok by (simp add: sems_ok_def)
  have "P c ! pc w c \<noteq> Reset s" using none c unfolding pc by auto
  moreover have "finite {(d, e) \<in> incs n P s. e < pc w d}"
    by (rule finite_subset [OF _ finite_incs]) auto
  ultimately show "sem w' s = card {(d, e) \<in> incs n P s. e < pc w' d}"
    unfolding pc incs_before_Suc [where c = c and w = w and P = P, OF c i] by (simp add: sem s)
qed

lemma waits_ok_advance:
  assumes ok: "waits_ok n P w"
    and w: "\<And>s v. P c ! pc w c = Wait s v \<Longrightarrow> \<forall>(d, e) \<in> incs n P s. e < pc w d"
    and pc: "pc w' = (pc w)(c := Suc (pc w c))"
  shows "waits_ok n P w'"
  unfolding waits_ok_def
proof (intro allI impI, elim conjE)
  fix x j s v assume x: "x < n" and j: "j < pc w' x" and p: "P x ! j = Wait s v"
  have "\<forall>(d, e) \<in> incs n P s. e < pc w d"
  proof (cases "x = c \<and> j = pc w c")
    case False
    then have "j < pc w x" using j by (auto simp: pc split: if_splits)
    then show ?thesis using ok x p unfolding waits_ok_def by blast
  qed (use w p in auto)
  then show "\<forall>(d, e) \<in> incs n P s. e < pc w' d" unfolding pc by fastforce
qed

lemma writes_ok_advance:
  assumes ok: "writes_ok n P w" and mem: "mem w' = mem w"
    and fl: "\<And>d. set (flight w d) \<subseteq> set (flight w' d)"
    and new: "\<And>l f. P c ! pc w c = Put l f \<Longrightarrow> \<exists>v. (l, v) \<in> set (flight w' c)"
    and barrier: "P c ! pc w c = Barrier \<Longrightarrow> flight w c = []"
    and pc: "pc w' = (pc w)(c := Suc (pc w c))"
  shows "writes_ok n P w'"
proof -
  have old: "mem w l \<noteq> None \<or> (\<exists>v. (l, v) \<in> set (flight w d))" if "d < n" "j < pc w d" "P d ! j = Put l f" for d j l f
    using ok that unfolding writes_ok_def by blast
  have "mem w' l \<noteq> None \<or> (\<exists>v. (l, v) \<in> set (flight w' d))"
    if d: "d < n" "j < pc w' d" "P d ! j = Put l f" for d j l f
  proof (cases "d = c \<and> j = pc w c")
    case True
    then show ?thesis using new d by auto
  next
    case False
    then have "j < pc w d" using d(2) by (auto simp: pc split: if_splits)
    then show ?thesis using old [OF d(1) _ d(3)] fl [of d] by (auto simp: mem)
  qed
  moreover have "mem w' l \<noteq> None" if d: "d < n" and s: "settled (P d) (pc w' d) l" for d l
  proof (cases "settled (P d) (pc w d) l")
    case True
    then show ?thesis using ok d unfolding writes_ok_def mem by blast
  next
    case False
    with s have "d = c" and "P c ! pc w c = Barrier" and "\<exists>j < pc w c. \<exists>f. P c ! j = Put l f"
      by (auto simp: pc settled_Suc split: if_splits)
    then show ?thesis using old d barrier by (fastforce simp: mem)
  qed
  ultimately show ?thesis unfolding writes_ok_def by blast
qed

section \<open>The contract\<close>

locale noc_protocol =
  fixes ok :: "'p \<Rightarrow> bool"
    and cores :: "'p \<Rightarrow> nat"
    and prog :: "'p \<Rightarrow> nat \<Rightarrow> ('l, 's, 'v) instr list"
    and expect :: "'p \<Rightarrow> 'l \<Rightarrow> 'v"
    and rank :: "'p \<Rightarrow> nat \<Rightarrow> nat \<Rightarrow> nat"
  assumes put_value: "ok p \<Longrightarrow> c < cores p \<Longrightarrow> i < length (prog p c) \<Longrightarrow> prog p c ! i = Put l f \<Longrightarrow>
      (\<And>l'. known (cores p) (prog p) c i l' \<Longrightarrow> m l' = Some (expect p l')) \<Longrightarrow> f m = expect p l"
    and wait_total: "ok p \<Longrightarrow> c < cores p \<Longrightarrow> i < length (prog p c) \<Longrightarrow> prog p c ! i = Wait s v \<Longrightarrow>
      v = card (incs (cores p) (prog p) s)"
    and reset_after: "ok p \<Longrightarrow> c < cores p \<Longrightarrow> i < length (prog p c) \<Longrightarrow> prog p c ! i = Wait s v \<Longrightarrow>
      d < cores p \<Longrightarrow> e < length (prog p d) \<Longrightarrow> prog p d ! e = Reset s \<Longrightarrow> d = c \<and> i < e"
    and wait_rank: "ok p \<Longrightarrow> c < cores p \<Longrightarrow> i < length (prog p c) \<Longrightarrow> prog p c ! i = Wait s v \<Longrightarrow>
      (d, e) \<in> incs (cores p) (prog p) s \<Longrightarrow> j < e \<Longrightarrow> prog p d ! j = Wait s' v' \<Longrightarrow> rank p d j < rank p c i"
begin

abbreviation inv :: "'p \<Rightarrow> ('l, 's, 'v) noc \<Rightarrow> bool" where
  "inv p w \<equiv> noc_inv (cores p) (prog p) (expect p) w"

lemma known_mem:
  assumes "inv p w" and "c < cores p" and "known (cores p) (prog p) c (pc w c) l"
  shows "mem w l = Some (expect p l)"
proof -
  note i = assms(1) [unfolded noc_inv_def]
  have settled: "mem w l \<noteq> None" if "d < cores p" "settled (prog p d) (pc w d) l" for d
    using i that unfolding writes_ok_def by blast
  have "mem w l \<noteq> None"
    using assms(3) unfolding known_def
  proof (elim disjE exE conjE)
    assume "settled (prog p c) (pc w c) l"
    then show ?thesis by (rule settled [OF assms(2)])
  next
    fix j s v d e
    assume j: "j < pc w c" "prog p c ! j = Wait s v" and de: "(d, e) \<in> incs (cores p) (prog p) s"
      and s: "settled (prog p d) e l"
    have "e < pc w d" using i j de assms(2) unfolding waits_ok_def by blast
    then have "settled (prog p d) (pc w d) l" using settled_mono [OF s] by simp
    moreover have "d < cores p" using de by (simp add: incs_def)
    ultimately show ?thesis by (rule settled [rotated])
  qed
  then show ?thesis using i unfolding values_ok_def by blast
qed

lemma sem_count:
  assumes "ok p" and "inv p w" and c: "c < cores p" and n: "next_instr (prog p) w c = Some (Wait s v)"
  shows "sem w s = card {(d, e) \<in> incs (cores p) (prog p) s. e < pc w d}"
proof -
  have p: "pc w c < length (prog p c)" "prog p c ! pc w c = Wait s v" using n by (auto simp: next_instr_Some)
  have "prog p d ! e \<noteq> Reset s" if d: "d < cores p" "e < pc w d" for d e
  proof
    assume r: "prog p d ! e = Reset s"
    have "e < length (prog p d)" using assms(2) d unfolding noc_inv_def by (meson order.strict_trans2)
    from reset_after [OF assms(1) c p d(1) this r] have "d = c \<and> pc w c < e" .
    then show False using d(2) by simp
  qed
  then show ?thesis using assms(2) unfolding noc_inv_def sems_ok_def by blast
qed

lemma wait_passed:
  assumes "ok p" and "inv p w" and c: "c < cores p" and n: "next_instr (prog p) w c = Some (Wait s v)"
    and "sem w s = v"
  shows "\<forall>(d, e) \<in> incs (cores p) (prog p) s. e < pc w d"
proof -
  have v: "v = card (incs (cores p) (prog p) s)"
    using n wait_total [OF assms(1) c] by (auto simp: next_instr_Some)
  let ?some = "{(d, e) \<in> incs (cores p) (prog p) s. e < pc w d}"
  have "?some \<subseteq> incs (cores p) (prog p) s" by auto
  moreover have "card ?some = card (incs (cores p) (prog p) s)"
    using sem_count [OF assms(1-4)] assms(5) v by simp
  ultimately have "?some = incs (cores p) (prog p) s" by (rule card_subset_eq [OF finite_incs])
  then show ?thesis by blast
qed

lemma step_inv:
  assumes "noc_step (cores p) (prog p) w w'" and "ok p" and "inv p w"
  shows "inv p w'"
  using assms
proof (induction rule: noc_step.induct)
  case (put c w l f)
  let ?w = "advance c (w\<lparr>flight := (flight w)(c := (l, f (mem w)) # flight w c)\<rparr>)"
  from put have p: "pc w c < length (prog p c)" "prog p c ! pc w c = Put l f" by (auto simp: next_instr_Some)
  note i = put(4) [unfolded noc_inv_def]
  have "f (mem w) = expect p l"
    by (rule put_value [OF put(3,1) p]) (rule known_mem [OF put(4,1)])
  then have "values_ok (expect p) ?w" using i by (auto simp: values_ok_def)
  moreover have "writes_ok (cores p) (prog p) ?w"
    by (rule writes_ok_advance [where w = w and c = c]) (use i p in auto)
  moreover have "waits_ok (cores p) (prog p) ?w"
    by (rule waits_ok_advance [where w = w and c = c]) (use i p in auto)
  moreover have "sems_ok (cores p) (prog p) ?w"
    by (rule sems_ok_advance [where w = w and c = c]) (use i p put in auto)
  ultimately show ?case using i p unfolding noc_inv_def by auto
next
  case (deliver c i w l v)
  let ?w = "w\<lparr>mem := (mem w)(l \<mapsto> v), flight := (flight w)(c := drop_nth i (flight w c))\<rparr>"
  note o = deliver(5) [unfolded noc_inv_def]
  have lv: "(l, v) \<in> set (flight w c)" using deliver(2,3) by (metis nth_mem)
  have "values_ok (expect p) ?w"
    using o lv set_drop_nth [of i "flight w c"] by (auto simp: values_ok_def)
  moreover have "writes_ok (cores p) (prog p) ?w"
  proof -
    have land: "mem ?w l' \<noteq> None \<or> (\<exists>v. (l', v) \<in> set (flight ?w d))"
      if "mem w l' \<noteq> None \<or> (\<exists>v. (l', v) \<in> set (flight w d))" for l' d
      using that drop_nth_cover [OF deliver(2)] deliver(3) by (fastforce split: if_splits)
    moreover have "mem ?w l' \<noteq> None" if "mem w l' \<noteq> None" for l' using that by auto
    ultimately show ?thesis using o unfolding writes_ok_def by (auto simp del: fun_upd_apply)
  qed
  moreover have "waits_ok (cores p) (prog p) ?w" "sems_ok (cores p) (prog p) ?w"
    using o by (simp_all add: waits_ok_def sems_ok_def)
  ultimately show ?case using o unfolding noc_inv_def by simp
next
  case (barrier c w)
  from barrier have p: "pc w c < length (prog p c)" "prog p c ! pc w c = Barrier" by (auto simp: next_instr_Some)
  note i = barrier(5) [unfolded noc_inv_def]
  have "values_ok (expect p) (advance c w)" using i by (auto simp: values_ok_def)
  moreover have "writes_ok (cores p) (prog p) (advance c w)"
    by (rule writes_ok_advance [where w = w and c = c]) (use i p barrier in auto)
  moreover have "waits_ok (cores p) (prog p) (advance c w)"
    by (rule waits_ok_advance [where w = w and c = c]) (use i p in auto)
  moreover have "sems_ok (cores p) (prog p) (advance c w)"
    by (rule sems_ok_advance [where w = w and c = c]) (use i p barrier in auto)
  ultimately show ?case using i p unfolding noc_inv_def by auto
next
  case (inc c w s)
  let ?w = "advance c (w\<lparr>sem := (sem w)(s := sem w s + 1)\<rparr>)"
  from inc have p: "pc w c < length (prog p c)" "prog p c ! pc w c = Inc s" by (auto simp: next_instr_Some)
  note i = inc(4) [unfolded noc_inv_def]
  have "values_ok (expect p) ?w" using i by (auto simp: values_ok_def)
  moreover have "writes_ok (cores p) (prog p) ?w"
    by (rule writes_ok_advance [where w = w and c = c]) (use i p in auto)
  moreover have "waits_ok (cores p) (prog p) ?w"
    by (rule waits_ok_advance [where w = w and c = c]) (use i p in auto)
  moreover have "sems_ok (cores p) (prog p) ?w"
    by (rule sems_ok_advance [where w = w and c = c]) (use i p inc in auto)
  ultimately show ?case using i p unfolding noc_inv_def by auto
next
  case (wait c w s v)
  from wait have p: "pc w c < length (prog p c)" "prog p c ! pc w c = Wait s v" by (auto simp: next_instr_Some)
  note i = wait(5) [unfolded noc_inv_def]
  have "values_ok (expect p) (advance c w)" using i by (auto simp: values_ok_def)
  moreover have "writes_ok (cores p) (prog p) (advance c w)"
    by (rule writes_ok_advance [where w = w and c = c]) (use i p in auto)
  moreover have "waits_ok (cores p) (prog p) (advance c w)"
    by (rule waits_ok_advance [where w = w and c = c])
      (use i p wait_passed [OF wait(4,5,1,2,3)] in auto)
  moreover have "sems_ok (cores p) (prog p) (advance c w)"
    by (rule sems_ok_advance [where w = w and c = c]) (use i p wait in auto)
  ultimately show ?case using i p unfolding noc_inv_def by auto
next
  case (reset c w s)
  let ?w = "advance c (w\<lparr>sem := (sem w)(s := 0)\<rparr>)"
  from reset have p: "pc w c < length (prog p c)" "prog p c ! pc w c = Reset s" by (auto simp: next_instr_Some)
  note i = reset(4) [unfolded noc_inv_def]
  have "values_ok (expect p) ?w" using i by (auto simp: values_ok_def)
  moreover have "writes_ok (cores p) (prog p) ?w"
    by (rule writes_ok_advance [where w = w and c = c]) (use i p in auto)
  moreover have "waits_ok (cores p) (prog p) ?w"
    by (rule waits_ok_advance [where w = w and c = c]) (use i p in auto)
  moreover have "sems_ok (cores p) (prog p) ?w"
    by (rule sems_ok_advance [where w = w and c = c]) (use i p reset in auto)
  ultimately show ?case using i p unfolding noc_inv_def by auto
qed

lemma run_inv: "noc_run (cores p) (prog p) m w w' \<Longrightarrow> ok p \<Longrightarrow> inv p w \<Longrightarrow> inv p w'"
  by (induction rule: noc_run.induct) (auto intro: step_inv)

text \<open>
  A state that is not finished has a step: of the cores that wait, the one at the wait of least
  rank, for no other core can wait before it counts itself there.
\<close>

lemma progress:
  assumes "ok p" and inv: "inv p w" and "\<not> finished (cores p) (prog p) w"
  shows "\<exists>w'. noc_step (cores p) (prog p) w w'"
proof (cases "\<exists>c < cores p. flight w c \<noteq> []")
  case True
  then obtain c x xs where "c < cores p" "flight w c = x # xs" by (auto simp: neq_Nil_conv)
  then show ?thesis
    using noc_step.deliver [of c "cores p" 0 w "fst x" "snd x" "prog p"] by auto
next
  case False
  then have empty: "flight w c = []" if "c < cores p" for c using that by blast
  let ?left = "{c. c < cores p \<and> pc w c < length (prog p c)}"
  have left: "?left \<noteq> {}" "finite ?left" using assms(3) empty by (auto simp: finished_def not_le)
  show ?thesis
  proof (cases "\<forall>c \<in> ?left. \<exists>s v. prog p c ! pc w c = Wait s v")
    case False
    then obtain c where lt: "c < cores p" "pc w c < length (prog p c)" and no: "\<nexists>s v. prog p c ! pc w c = Wait s v" by blast
    then have n: "next_instr (prog p) w c = Some (prog p c ! pc w c)" by (simp add: next_instr_Some)
    show ?thesis
    proof (cases "prog p c ! pc w c")
      case (Wait s v)
      then show ?thesis using no by blast
    qed (use n lt empty in \<open>metis noc_step.intros\<close>)+
  next
    case True
    obtain c where c: "c \<in> ?left" and least: "\<forall>d\<in>?left. rank p c (pc w c) \<le> rank p d (pc w d)"
      using ex_is_arg_min_if_finite [OF left(2,1), of "\<lambda>c. rank p c (pc w c)"] by (auto simp: is_arg_min_linorder)
    then obtain s v where wait: "prog p c ! pc w c = Wait s v" using True by blast
    have n: "next_instr (prog p) w c = Some (Wait s v)" and lt: "c < cores p" "pc w c < length (prog p c)"
      using c wait by (simp_all add: next_instr_Some)
    have "e < pc w d" if de: "(d, e) \<in> incs (cores p) (prog p) s" for d e
    proof (rule ccontr)
      assume late: "\<not> e < pc w d"
      then have d: "d \<in> ?left" using de by (auto simp: incs_def)
      then obtain s' v' where wait': "prog p d ! pc w d = Wait s' v'" using True by blast
      then have "pc w d \<noteq> e" using de by (auto simp: incs_def)
      then have "pc w d < e" using late by simp
      from wait_rank [OF assms(1) lt wait de this wait'] show False using least d by fastforce
    qed
    then have "{(d, e) \<in> incs (cores p) (prog p) s. e < pc w d} = incs (cores p) (prog p) s" by auto
    then have "sem w s = v" using sem_count [OF assms(1) inv lt(1) n] wait_total [OF assms(1) lt wait] by simp
    then show ?thesis using noc_step.wait [OF lt(1) n] by blast
  qed
qed

text \<open>Every run is finite, and where it cannot go on the memory is the expected one.\<close>

lemma run_bound:
  "noc_run (cores p) (prog p) m noc_init w \<Longrightarrow> m \<le> (\<Sum>c<cores p. 2 * length (prog p c))"
  using run_work_left [of "cores p" "prog p" m noc_init w] by (simp add: work_left_def noc_init_def)

lemma run_result:
  assumes "ok p" and "noc_run (cores p) (prog p) m noc_init w" and "\<nexists>w'. noc_step (cores p) (prog p) w w'"
  shows "finished (cores p) (prog p) w"
    and "c < cores p \<Longrightarrow> Put l f \<in> set (prog p c) \<Longrightarrow> mem w l = Some (expect p l)"
proof -
  have inv: "inv p w" by (rule run_inv [OF assms(2,1) noc_inv_init])
  then show fin: "finished (cores p) (prog p) w" using progress assms by blast
  assume c: "c < cores p" and "Put l f \<in> set (prog p c)"
  then obtain j where "j < length (prog p c)" "prog p c ! j = Put l f" by (auto simp: in_set_conv_nth)
  then have "mem w l \<noteq> None"
    using inv fin c unfolding noc_inv_def writes_ok_def finished_def
    by (metis empty_iff list.set(1) order.strict_trans2)
  then show "mem w l = Some (expect p l)"
    using inv unfolding noc_inv_def values_ok_def by blast
qed

text \<open>Wherever the other cores are, a core that has come to the end of its program finds what it waited for.\<close>

lemma run_known:
  assumes "ok p" and "noc_run (cores p) (prog p) m noc_init w" and "c < cores p" and "length (prog p c) \<le> pc w c"
    and "known (cores p) (prog p) c (length (prog p c)) l"
  shows "mem w l = Some (expect p l)"
proof -
  have inv: "inv p w" by (rule run_inv [OF assms(2,1) noc_inv_init])
  then have "pc w c = length (prog p c)" using assms(3,4) unfolding noc_inv_def by (metis le_antisym)
  with assms(3,5) show ?thesis by (metis known_mem [OF inv])
qed

text \<open>There is such a run.\<close>

lemma run_exists: "\<exists>m w. noc_run (cores p) (prog p) m noc_init w \<and> (\<nexists>w'. noc_step (cores p) (prog p) w w')"
proof -
  have "\<exists>m' w'. noc_run (cores p) (prog p) m' noc_init w' \<and> (\<nexists>w''. noc_step (cores p) (prog p) w' w'')"
    if "noc_run (cores p) (prog p) m noc_init w" for m w
    using that
  proof (induction "work_left (cores p) (prog p) w" arbitrary: m w rule: less_induct)
    case less
    show ?case
    proof (cases "\<exists>w'. noc_step (cores p) (prog p) w w'")
      case True
      then obtain w' where st: "noc_step (cores p) (prog p) w w'" by blast
      show ?thesis by (rule less(1) [OF step_work_left [OF st] noc_run.step [OF less(2) st]])
    qed (use less(2) in blast)
  qed
  from this [OF noc_run.start] show ?thesis .
qed

lemma run_safe: "ok p \<Longrightarrow> noc_run (cores p) (prog p) m noc_init w \<Longrightarrow> mem w l = Some v \<Longrightarrow> v = expect p l"
  using run_inv [OF _ _ noc_inv_init] unfolding noc_inv_def values_ok_def by blast

end

end
