(* ===== verification/TopkKernel.thy ===== *)
theory TopkKernel
  imports TopkPlan TopkSelect NocMachine
begin

text \<open>
  The programs of TopK's selection path, \<open>kernel_main\<close> of
  \<open>ttnn/cpp/ttnn/operations/reduction/topk/device/kernels/dataflow/topk_select.cpp\<close>, as the
  machine of \<open>NocMachine\<close> runs them: the reads of a core's face rows, the lists sent to the
  group's merger, the merge, the rows written into the owner's output tiles and the pages the
  owner writes out. A value in L1 is one transfer: sixteen elements of a face row (or 64 bytes
  of input), or one list of candidates, at its byte offset in a circular buffer.
\<close>

section \<open>The kernel's arguments\<close>

text \<open>
  The compile-time arguments; \<open>tk_stack\<close> is the uninitialised array \<open>best\<close>, \<open>tk_stale\<close>
  what the staging buffer holds after a list of an odd \<open>k\<close>. Pages of the input are lists of
  elements, a BF16 one in the low half of its word.
\<close>

record topk_kernel =
  tk_plan :: topk_plan
  tk_largest :: bool
  tk_value_bytes :: nat
  tk_index_bytes :: nat
  tk_value_tile_bytes :: nat
  tk_index_tile_bytes :: nat
  tk_stack :: "cand list"
  tk_stale :: cand
  tk_input :: "nat \<Rightarrow> u32 list"

datatype topk_loc =
    L1 (loc_core: nat) (loc_buffer: nat) (loc_offset: nat)
  | Page nat nat

datatype payload = Cands "cand list" | Elems "u32 list"

type_synonym topk_mem = "topk_loc \<Rightarrow> payload option"
type_synonym topk_instr = "(topk_loc, nat \<times> nat, payload) instr"

definition cb_in :: nat where "cb_in = 0"
definition cb_candidates :: nat where "cb_candidates = 1"
definition cb_values :: nat where "cb_values = 16"
definition cb_indices :: nat where "cb_indices = 17"
definition merge_sem :: nat where "merge_sem = 0"
definition owner_sem :: nat where "owner_sem = 1"

lemmas kernel_ids = cb_in_def cb_candidates_def cb_values_def cb_indices_def merge_sem_def owner_sem_def

definition read_bytes :: nat where "read_bytes = 64"

definition k_stride :: "topk_kernel \<Rightarrow> nat" where
  "k_stride K = list_stride (tp_k (tk_plan K))"

definition k_tiles :: "topk_kernel \<Rightarrow> nat" where
  "k_tiles K = div_up32 (tp_k (tk_plan K)) 32"

fun cands_of :: "payload option \<Rightarrow> cand list" where
  "cands_of (Some (Cands cs)) = cs"
| "cands_of _ = []"

fun elems_of :: "payload option \<Rightarrow> u32 list" where
  "elems_of (Some (Elems es)) = es"
| "elems_of _ = []"

section \<open>The core's part\<close>

abbreviation "args K c \<equiv> core_args (tk_plan K) c"

definition tile_row_rows :: "topk_kernel \<Rightarrow> nat \<Rightarrow> nat" where
  "tile_row_rows K tile_row =
     (let row_base = (tile_row mod tp_Ht (tk_plan K)) * 32; height = tp_height (tk_plan K) in
      if row_base + 32 \<le> height then 32 else height - row_base)"

definition first_tile :: "topk_kernel \<Rightarrow> nat \<Rightarrow> nat" where
  "first_tile K segment = segment * tp_segment_tiles (tk_plan K)"

definition segment_width :: "topk_kernel \<Rightarrow> nat \<Rightarrow> nat" where
  "segment_width K segment =
     (if first_tile K segment + tp_segment_tiles (tk_plan K) \<le> tp_Wt (tk_plan K)
      then tp_segment_tiles (tk_plan K) else tp_Wt (tk_plan K) - first_tile K segment)"

text \<open>\<open>for (row = group; row < rows; row += row_groups)\<close>\<close>

function core_rows :: "nat \<Rightarrow> nat \<Rightarrow> nat \<Rightarrow> nat list" where
  "core_rows row_groups rows row =
     (if row < rows \<and> 0 < row_groups then row # core_rows row_groups rows (row + row_groups) else [])"
  by auto
termination by (relation "measure (\<lambda>(step, rows, row). rows - row)") auto

declare core_rows.simps [simp del]

definition rows_of :: "topk_kernel \<Rightarrow> nat \<Rightarrow> nat list" where
  "rows_of K c = core_rows (tp_row_groups (tk_plan K)) (tile_row_rows K (ta_tile_row (args K c))) (ta_group (args K c))"

text \<open>The slots of a core's rows with their rows.\<close>

definition slots_of :: "topk_kernel \<Rightarrow> nat \<Rightarrow> (nat \<times> nat) list" where
  "slots_of K c = enumerate 0 (rows_of K c)"

section \<open>Reading\<close>

definition face_row :: "nat \<Rightarrow> nat \<Rightarrow> nat" where
  "face_row row half = ((row div 16) * 2 + half) * 256 + (row mod 16) * 16"

definition read_offset :: "nat \<Rightarrow> nat \<Rightarrow> nat \<Rightarrow> nat" where
  "read_offset bytes row half = face_row row half * bytes - face_row row half * bytes mod read_bytes"

text \<open>The elements of the 64 bytes at a byte offset of a page.\<close>

definition page_chunk :: "nat \<Rightarrow> u32 list \<Rightarrow> nat \<Rightarrow> u32 list" where
  "page_chunk bytes page offset = take (read_bytes div bytes) (drop (offset div bytes) page)"

definition in_offset :: "nat \<Rightarrow> nat \<Rightarrow> nat \<Rightarrow> nat \<Rightarrow> nat" where
  "in_offset tiles slot t half = ((slot * tiles + t) * 2 + half) * read_bytes"

definition read_puts :: "topk_kernel \<Rightarrow> nat \<Rightarrow> topk_instr list" where
  "read_puts K c =
     (let a = args K c; tiles = segment_width K (ta_segment a) in
      concat (map (\<lambda>(slot, row). concat (map (\<lambda>t. map (\<lambda>half.
        Put (L1 c cb_in (in_offset tiles slot t half))
          (\<lambda>_. Elems (page_chunk (tk_value_bytes K)
            (tk_input K (ta_tile_row a * tp_Wt (tk_plan K) + first_tile K (ta_segment a) + t))
            (read_offset (tk_value_bytes K) row half)))) [0, 1]) [0..<tiles])) (slots_of K c)))"

section \<open>Selecting\<close>

text \<open>The bits of element \<open>e\<close> of a chunk; a BF16 chunk holds a pair of rows.\<close>

definition chunk_bits :: "nat \<Rightarrow> nat \<Rightarrow> u32 list \<Rightarrow> nat \<Rightarrow> u32" where
  "chunk_bits bytes row chunk e =
     (if bytes = 4 then chunk ! e else push_bit 16 (chunk ! ((row mod 2) * 16 + e)))"

definition select_slot :: "topk_kernel \<Rightarrow> nat \<Rightarrow> topk_mem \<Rightarrow> nat \<times> nat \<Rightarrow> cand list \<Rightarrow> cand list" where
  "select_slot K c m sr old =
     (let a = args K c; tiles = segment_width K (ta_segment a) in
      select_row (tk_largest K) (tp_k (tk_plan K)) (tp_width (tk_plan K)) (first_tile K (ta_segment a)) tiles
        (\<lambda>t half e. chunk_bits (tk_value_bytes K) (snd sr)
          (elems_of (m (L1 c cb_in (in_offset tiles (fst sr) t half)))) e) old)"

text \<open>The lists of the core's rows; each row's scan starts from the array of the one before.\<close>

fun select_slots :: "topk_kernel \<Rightarrow> nat \<Rightarrow> topk_mem \<Rightarrow> (nat \<times> nat) list \<Rightarrow> cand list \<Rightarrow> cand list list" where
  "select_slots K c m [] old = []"
| "select_slots K c m (sr # srs) old =
     (let list = select_slot K c m sr old in list # select_slots K c m srs list)"

definition selected :: "topk_kernel \<Rightarrow> nat \<Rightarrow> topk_mem \<Rightarrow> nat \<Rightarrow> cand list" where
  "selected K c m slot = select_slots K c m (slots_of K c) (tk_stack K) ! slot"

definition list_offset :: "topk_kernel \<Rightarrow> nat \<Rightarrow> nat \<Rightarrow> nat" where
  "list_offset K slot segment = (slot * tp_segments (tk_plan K) + segment) * k_stride K * candidate_bytes"

definition send_puts :: "topk_kernel \<Rightarrow> nat \<Rightarrow> topk_instr list" where
  "send_puts K c =
     (let a = args K c in
      map (\<lambda>(slot, row). Put (L1 (ta_merger a) cb_candidates (list_offset K slot (ta_segment a)))
        (\<lambda>m. Cands (selected K c m slot @ replicate (k_stride K - tp_k (tk_plan K)) (tk_stale K))))
        (slots_of K c))"

section \<open>Writing a row\<close>

definition stored :: "nat \<Rightarrow> u32 \<Rightarrow> u32" where
  "stored bytes x = (if bytes = 4 then x else take_bit 16 x)"

definition value_chunk :: "topk_kernel \<Rightarrow> cand list \<Rightarrow> nat \<Rightarrow> nat \<Rightarrow> u32 list" where
  "value_chunk K list tile half = map (\<lambda>c. let i = tile * 32 + half * 16 + c in
     stored (tk_value_bytes K) (if i < tp_k (tk_plan K)
       then (if tk_value_bytes K = 4 then bits_of (tk_largest K) (ckey (list ! i))
             else drop_bit 16 (bits_of (tk_largest K) (ckey (list ! i)))) else 0)) [0..<16]"

definition index_chunk :: "topk_kernel \<Rightarrow> cand list \<Rightarrow> nat \<Rightarrow> nat \<Rightarrow> u32 list" where
  "index_chunk K list tile half = map (\<lambda>c. let i = tile * 32 + half * 16 + c in
     stored (tk_index_bytes K) (if i < tp_k (tk_plan K) then of_nat (cindex (list ! i)) else 0)) [0..<16]"

definition write_row :: "topk_kernel \<Rightarrow> nat \<Rightarrow> nat \<Rightarrow> (topk_mem \<Rightarrow> cand list) \<Rightarrow> topk_instr list" where
  "write_row K owner row list =
     concat (map (\<lambda>tile. concat (map (\<lambda>half.
       [Put (L1 owner cb_values (tile * tk_value_tile_bytes K + face_row row half * tk_value_bytes K))
          (\<lambda>m. Elems (value_chunk K (list m) tile half)),
        Put (L1 owner cb_indices (tile * tk_index_tile_bytes K + face_row row half * tk_index_bytes K))
          (\<lambda>m. Elems (index_chunk K (list m) tile half))]) [0, 1])) [0..<k_tiles K])"

definition merged :: "topk_kernel \<Rightarrow> nat \<Rightarrow> topk_mem \<Rightarrow> nat \<Rightarrow> cand list" where
  "merged K c m slot = merge_row (tp_k (tk_plan K)) (tp_segments (tk_plan K))
     (\<lambda>s. cands_of (m (L1 c cb_candidates (list_offset K slot s))))"

section \<open>Padding rows and pages\<close>

text \<open>The spans \<open>zero_padding_rows\<close> clears, as byte offsets and lengths.\<close>

definition tile_zero_spans :: "nat \<Rightarrow> nat \<Rightarrow> nat \<Rightarrow> (nat \<times> nat) list" where
  "tile_zero_spans bytes rows base =
     (if rows < 16 then
        map (\<lambda>face. (base + (face * 256 + rows * 16) * bytes, (16 - rows) * 16 * bytes)) [0, 1] @
        [(base + 512 * bytes, 512 * bytes)]
      else if rows < 32 then
        map (\<lambda>face. (base + (face * 256 + (rows - 16) * 16) * bytes, (32 - rows) * 16 * bytes)) [2, 3]
      else [])"

definition zero_spans :: "nat \<Rightarrow> nat \<Rightarrow> nat \<Rightarrow> nat \<Rightarrow> (nat \<times> nat) list" where
  "zero_spans tiles bytes tile_bytes rows =
     concat (map (\<lambda>tile. tile_zero_spans bytes rows (tile * tile_bytes)) [0..<tiles])"

definition zero_puts :: "topk_kernel \<Rightarrow> nat \<Rightarrow> nat \<Rightarrow> nat \<Rightarrow> nat \<Rightarrow> nat \<Rightarrow> topk_instr list" where
  "zero_puts K c cb bytes tile_bytes rows =
     concat (map (\<lambda>(offset, len). map (\<lambda>j. Put (L1 c cb (offset + j * (16 * bytes)))
         (\<lambda>_. Elems (replicate 16 0))) [0..<len div (16 * bytes)])
       (zero_spans (k_tiles K) bytes tile_bytes rows))"

definition tile_elems :: "nat \<Rightarrow> nat \<Rightarrow> nat \<Rightarrow> nat \<Rightarrow> topk_mem \<Rightarrow> u32 list" where
  "tile_elems c cb bytes base m = concat (map (\<lambda>j. elems_of (m (L1 c cb (base + j * (16 * bytes))))) [0..<64])"

definition page_puts :: "topk_kernel \<Rightarrow> nat \<Rightarrow> topk_instr list" where
  "page_puts K c =
     (let tile_row = ta_tile_row (args K c) in
      concat (map (\<lambda>tile.
        [Put (Page 0 (tile_row * k_tiles K + tile))
           (\<lambda>m. Elems (tile_elems c cb_values (tk_value_bytes K) (tile * tk_value_tile_bytes K) m)),
         Put (Page 1 (tile_row * k_tiles K + tile))
           (\<lambda>m. Elems (tile_elems c cb_indices (tk_index_bytes K) (tile * tk_index_tile_bytes K) m))])
        [0..<k_tiles K]))"

section \<open>The programs\<close>

definition is_merger :: "topk_kernel \<Rightarrow> nat \<Rightarrow> bool" where
  "is_merger K c \<longleftrightarrow> ta_segment (args K c) = 0"

definition is_owner :: "topk_kernel \<Rightarrow> nat \<Rightarrow> bool" where
  "is_owner K c \<longleftrightarrow> is_merger K c \<and> ta_group (args K c) = 0"

definition zero_part :: "topk_kernel \<Rightarrow> nat \<Rightarrow> topk_instr list" where
  "zero_part K c =
     (let rows = tile_row_rows K (ta_tile_row (args K c)) in
      if is_owner K c then
        zero_puts K c cb_values (tk_value_bytes K) (tk_value_tile_bytes K) rows @
        zero_puts K c cb_indices (tk_index_bytes K) (tk_index_tile_bytes K) rows @ [Barrier]
      else [])"

definition select_part :: "topk_kernel \<Rightarrow> nat \<Rightarrow> topk_instr list" where
  "select_part K c =
     (if tp_segments (tk_plan K) = 1
      then concat (map (\<lambda>(slot, row). write_row K (ta_owner (args K c)) row (\<lambda>m. selected K c m slot)) (slots_of K c))
      else send_puts K c)"

definition merge_part :: "topk_kernel \<Rightarrow> nat \<Rightarrow> topk_instr list" where
  "merge_part K c =
     [Wait (c, merge_sem) (tp_segments (tk_plan K) - 1), Reset (c, merge_sem)] @
     concat (map (\<lambda>(slot, row). write_row K (ta_owner (args K c)) row (\<lambda>m. merged K c m slot)) (slots_of K c)) @
     [Barrier]"

definition owner_part :: "topk_kernel \<Rightarrow> nat \<Rightarrow> topk_instr list" where
  "owner_part K c =
     (if \<not> is_owner K c then [Inc (ta_owner (args K c), owner_sem)]
      else (if 1 < tp_row_groups (tk_plan K)
            then [Wait (c, owner_sem) (tp_row_groups (tk_plan K) - 1), Reset (c, owner_sem)] else []) @
        page_puts K c @ [Barrier])"

definition kernel_main :: "topk_kernel \<Rightarrow> nat \<Rightarrow> topk_instr list" where
  "kernel_main K c =
     zero_part K c @ read_puts K c @ [Barrier] @ select_part K c @ [Barrier] @
     (if 1 < tp_segments (tk_plan K) then
        if \<not> is_merger K c then [Inc (ta_merger (args K c), merge_sem)]
        else merge_part K c @ owner_part K c
      else owner_part K c)"

section \<open>The factory\<close>

text \<open>
  What \<open>create_descriptor\<close> compiles and starts for a call; it is fatal outside the plan.
  \<open>tile_size\<close> is the bytes of a tile for an element width, \<open>stack\<close> and \<open>stale\<close> memory it
  leaves uninitialised.
\<close>

definition create_descriptor ::
  "(nat \<Rightarrow> nat) \<Rightarrow> tensor_info \<Rightarrow> nat \<Rightarrow> bool \<Rightarrow> nat \<Rightarrow> bool \<Rightarrow> bool \<Rightarrow> bool \<Rightarrow> nat \<Rightarrow>
   (nat \<Rightarrow> u32 list) \<Rightarrow> cand list \<Rightarrow> cand \<Rightarrow> topk_kernel option" where
  "create_descriptor tile_size t k largest index_bytes custom pre sharded_out cores pages stack stale =
     (case topk_select_plan t k custom pre sharded_out cores of
        None \<Rightarrow> None
      | Some p \<Rightarrow>
          let value_bytes = (if float32 t then 4 else 2) in
          Some \<lparr>tk_plan = p, tk_largest = largest, tk_value_bytes = value_bytes, tk_index_bytes = index_bytes,
            tk_value_tile_bytes = tile_size value_bytes, tk_index_tile_bytes = tile_size index_bytes,
            tk_stack = stack, tk_stale = stale, tk_input = pages\<rparr>)"

end
