(* ===== verification/TopkKernelRun.thy ===== *)
theory TopkKernelRun
  imports TopkKernel
begin

text \<open>
  What the programs of \<open>TopkKernel\<close> leave in memory: the expected contents of every location,
  the proof that the programs keep to the contract of \<open>NocMachine\<close>, and what the output
  pages hold when every core has finished.
\<close>

section \<open>Layout\<close>

text \<open>Element \<open>(r, c)\<close> of a tile: four 16 x 16 faces, row-major.\<close>

definition tile_pos :: "nat \<Rightarrow> nat \<Rightarrow> nat" where
  "tile_pos r c = ((r div 16) * 2 + c div 16) * 256 + (r mod 16) * 16 + c mod 16"

definition face_index :: "nat \<Rightarrow> nat \<Rightarrow> nat" where
  "face_index row half = ((row div 16) * 2 + half) * 16 + row mod 16"

lemma face_row_index: "face_row row half = 16 * face_index row half"
  by (simp add: face_row_def face_index_def)

lemma face_index_less: "row < 32 \<Longrightarrow> half < 2 \<Longrightarrow> face_index row half < 64"
  unfolding face_index_def
  using index_less_product [of "(row div 16) * 2 + half" 4 "row mod 16" 16]
    index_less_product [of "row div 16" 2 half 2]
  by (simp add: less_mult_imp_div_less)

lemma face_index_inv:
  assumes "row < 32" "half < 2"
  shows "(face_index row half div 32) * 16 + face_index row half mod 16 = row"
    and "face_index row half div 16 mod 2 = half"
proof -
  have q: "row div 16 < 2" using assms(1) by (simp add: less_mult_imp_div_less)
  have "face_index row half = 32 * (row div 16) + (16 * half + row mod 16)"
    by (simp add: face_index_def algebra_simps)
  moreover have "16 * half + row mod 16 < 32" using assms(2) by simp
  ultimately have "face_index row half div 32 = row div 16" by simp
  moreover have m: "face_index row half mod 16 = row mod 16" "face_index row half div 16 = (row div 16) * 2 + half"
    unfolding face_index_def using mod_mult_self3 [of "(row div 16) * 2 + half" 16 "row mod 16"] by simp_all
  ultimately show "(face_index row half div 32) * 16 + face_index row half mod 16 = row"
    by simp
  show "face_index row half div 16 mod 2 = half" using m assms(2) by simp
qed

lemma tile_pos_face: "c < 32 \<Longrightarrow> tile_pos r c = face_row r (c div 16) + c mod 16"
  by (simp add: tile_pos_def face_row_def)

text \<open>The element a chunk of the input holds, in the low half of a pair of rows for BF16.\<close>

definition widen :: "nat \<Rightarrow> u32 \<Rightarrow> u32" where
  "widen bytes x = (if bytes = 4 then x else push_bit 16 x)"

lemma pair_offset: "(32 * m - 32 * m mod 64) div 2 = 16 * (m - m mod (2 :: nat))"
proof -
  have "32 * m mod 64 = 32 * (m mod 2)" using mult_mod_right [of 32 m 2] by simp
  then have "32 * m - 32 * m mod 64 = 2 * (16 * (m - m mod 2))" by (simp add: diff_mult_distrib2)
  then show ?thesis by (simp only: nonzero_mult_div_cancel_left)
qed

lemma chunk_bits_page:
  assumes "bytes = 2 \<or> bytes = 4" and "row < 32" "half < 2" "e < 16" and "length page = 1024"
  shows "chunk_bits bytes row (page_chunk bytes page (read_offset bytes row half)) e =
    widen bytes (page ! (face_row row half + e))"
  using assms(1)
proof
  assume b: "bytes = 4"
  have "face_row row half * 4 mod 64 = 0" by (simp add: face_row_index)
  moreover have "face_row row half + e < 1024" using face_index_less [OF assms(2,3)] assms(4) by (simp add: face_row_index)
  ultimately show ?thesis using assms
    by (simp add: b chunk_bits_def widen_def page_chunk_def read_offset_def read_bytes_def)
next
  assume b: "bytes = 2"
  let ?m = "face_index row half"
  have "?m = 2 * (8 * ((row div 16) * 2 + half)) + row mod 16" by (simp add: face_index_def)
  then have "?m mod 2 = row mod 16 mod 2" by (simp only: mod_mult_self4)
  then have par: "?m mod 2 = row mod 2" by (simp add: mod_mod_cancel)
  have off: "read_offset 2 row half div 2 = 16 * (?m - ?m mod 2)"
    using pair_offset [of ?m] by (simp add: read_offset_def face_row_index read_bytes_def mult.commute)
  have sum: "16 * (?m - ?m mod 2) + (row mod 2 * 16 + e) = face_row row half + e"
    unfolding face_row_index par [symmetric] by (simp add: diff_mult_distrib2 mult.commute)
  have "face_row row half + e < 1024"
    using face_index_less [OF assms(2,3)] assms(4) by (simp add: face_row_index)
  then have "page_chunk 2 page (read_offset 2 row half) ! (row mod 2 * 16 + e) = page ! (face_row row half + e)"
    unfolding page_chunk_def off sum [symmetric] read_bytes_def using assms(4,5)
    by (subst nth_take) (auto simp: algebra_simps)
  then show ?thesis by (simp add: b chunk_bits_def widen_def)
qed

section \<open>What a call relies on\<close>

definition kernel_ok :: "topk_kernel \<Rightarrow> bool" where
  "kernel_ok K \<longleftrightarrow> plan_ok (tk_plan K) (plan_cores (tk_plan K)) \<and>
     (tk_value_bytes K = 2 \<or> tk_value_bytes K = 4) \<and> (tk_index_bytes K = 2 \<or> tk_index_bytes K = 4) \<and>
     tk_value_tile_bytes K = 1024 * tk_value_bytes K \<and> tk_index_tile_bytes K = 1024 * tk_index_bytes K \<and>
     length (tk_stack K) = tp_k (tk_plan K) \<and> tp_width (tk_plan K) \<le> no_index \<and>
     (\<forall>i < tp_tile_rows (tk_plan K) * tp_Wt (tk_plan K). length (tk_input K i) = 1024)"

text \<open>Element \<open>j\<close> of a logical row, widened to FP32 bits.\<close>

definition row_elem :: "topk_kernel \<Rightarrow> nat \<Rightarrow> nat \<Rightarrow> nat \<Rightarrow> u32" where
  "row_elem K tile_row row j =
     widen (tk_value_bytes K) (tk_input K (tile_row * tp_Wt (tk_plan K) + j div 32) ! tile_pos row (j mod 32))"

definition row_best :: "topk_kernel \<Rightarrow> nat \<Rightarrow> nat \<Rightarrow> cand list" where
  "row_best K tile_row row =
     row_topk (tk_largest K) (row_elem K tile_row row) (tp_width (tk_plan K)) (tp_k (tk_plan K))"

section \<open>The expected memory\<close>

text \<open>The chunk of an output buffer: sixteen elements of a face row of one tile.\<close>

definition chunk_row :: "nat \<Rightarrow> nat" where "chunk_row j = (j div 32) * 16 + j mod 16"
definition chunk_half :: "nat \<Rightarrow> nat" where "chunk_half j = j div 16 mod 2"

definition out_chunk :: "topk_kernel \<Rightarrow> (cand list \<Rightarrow> nat \<Rightarrow> nat \<Rightarrow> u32 list) \<Rightarrow> nat \<Rightarrow> nat \<Rightarrow> nat \<Rightarrow> u32 list" where
  "out_chunk K chunk tile_row tile j =
     (if chunk_row j < tile_row_rows K tile_row
      then chunk (row_best K tile_row (chunk_row j)) tile (chunk_half j) else replicate 16 0)"

definition expect_in :: "topk_kernel \<Rightarrow> nat \<Rightarrow> nat \<Rightarrow> payload" where
  "expect_in K c i =
     (let a = args K c; tiles = segment_width K (ta_segment a);
          slot = i div 2 div tiles; t = i div 2 mod tiles; half = i mod 2
      in Elems (page_chunk (tk_value_bytes K)
        (tk_input K (ta_tile_row a * tp_Wt (tk_plan K) + first_tile K (ta_segment a) + t))
        (read_offset (tk_value_bytes K) (ta_group a + slot * tp_row_groups (tk_plan K)) half)))"

definition slot_list :: "topk_kernel \<Rightarrow> nat \<Rightarrow> nat \<Rightarrow> nat \<Rightarrow> cand list" where
  "slot_list K tile_row row segment =
     segment_list (tk_largest K) (row_elem K tile_row row) (tp_k (tk_plan K))
       (cut (tp_width (tk_plan K)) (tp_segment_tiles (tk_plan K)) segment)
       (cut (tp_width (tk_plan K)) (tp_segment_tiles (tk_plan K)) (Suc segment))"

definition expect_list :: "topk_kernel \<Rightarrow> nat \<Rightarrow> nat \<Rightarrow> payload" where
  "expect_list K c i =
     (let a = args K c; segments = tp_segments (tk_plan K) in
      Cands (slot_list K (ta_tile_row a) (ta_group a + i div segments * tp_row_groups (tk_plan K)) (i mod segments) @
        replicate (k_stride K - tp_k (tk_plan K)) (tk_stale K)))"

definition expect_page :: "topk_kernel \<Rightarrow> (cand list \<Rightarrow> nat \<Rightarrow> nat \<Rightarrow> u32 list) \<Rightarrow> nat \<Rightarrow> payload" where
  "expect_page K chunk n =
     Elems (concat (map (out_chunk K chunk (n div k_tiles K) (n mod k_tiles K)) [0..<64]))"

fun topk_expect :: "topk_kernel \<Rightarrow> topk_loc \<Rightarrow> payload" where
  "topk_expect K (L1 c b offset) =
     (let tile_row = ta_tile_row (args K c) in
      if b = cb_in then expect_in K c (offset div read_bytes)
      else if b = cb_candidates then expect_list K c (offset div (k_stride K * candidate_bytes))
      else if b = cb_values then
        let i = offset div (16 * tk_value_bytes K) in Elems (out_chunk K (value_chunk K) tile_row (i div 64) (i mod 64))
      else
        let i = offset div (16 * tk_index_bytes K) in Elems (out_chunk K (index_chunk K) tile_row (i div 64) (i mod 64)))"
| "topk_expect K (Page t n) = expect_page K (if t = 0 then value_chunk K else index_chunk K) n"

definition topk_rank :: "topk_kernel \<Rightarrow> nat \<Rightarrow> nat" where
  "topk_rank K c = (if is_owner K c then 2 else if is_merger K c then 1 else 0)"

section \<open>Rows and slots\<close>

lemma core_rows_nth:
  assumes "0 < g"
  shows "i < length (core_rows g rows r) \<Longrightarrow> core_rows g rows r ! i = r + i * g"
    and "i < length (core_rows g rows r) \<longleftrightarrow> r + i * g < rows"
proof -
  have "\<forall>i. (i < length (core_rows g rows r) \<longleftrightarrow> r + i * g < rows) \<and>
      (i < length (core_rows g rows r) \<longrightarrow> core_rows g rows r ! i = r + i * g)"
    using assms
  proof (induction g rows r rule: core_rows.induct)
    case (1 g rows r)
    show ?case
    proof (cases "r < rows")
      case True
      then have e: "core_rows g rows r = r # core_rows g rows (r + g)"
        using 1(2) by (simp add: core_rows.simps [of g rows r])
      show ?thesis
      proof
        fix i
        show "(i < length (core_rows g rows r) \<longleftrightarrow> r + i * g < rows) \<and>
            (i < length (core_rows g rows r) \<longrightarrow> core_rows g rows r ! i = r + i * g)"
          using 1 True by (cases i) (simp_all add: e add.assoc)
      qed
    qed (simp add: core_rows.simps [of g rows r])
  qed
  then show "i < length (core_rows g rows r) \<Longrightarrow> core_rows g rows r ! i = r + i * g"
    and "i < length (core_rows g rows r) \<longleftrightarrow> r + i * g < rows" by blast+
qed

lemma kernel_okD:
  assumes "kernel_ok K"
  shows "0 < tp_segments (tk_plan K)" "0 < tp_segment_tiles (tk_plan K)" "0 < tp_row_groups (tk_plan K)"
    "0 < tp_tile_rows (tk_plan K)" "1 \<le> tp_k (tk_plan K)" "tp_k (tk_plan K) \<le> 64"
    "tp_k (tk_plan K) \<le> tp_width (tk_plan K)" "tp_width (tk_plan K) \<le> no_index"
    "tp_Wt (tk_plan K) = div_up (tp_width (tk_plan K)) 32"
    "tp_Wt (tk_plan K) \<le> tp_segments (tk_plan K) * tp_segment_tiles (tk_plan K)"
    "(tp_segments (tk_plan K) - 1) * tp_segment_tiles (tk_plan K) < tp_Wt (tk_plan K)"
    "tk_value_bytes K = 2 \<or> tk_value_bytes K = 4" "tk_index_bytes K = 2 \<or> tk_index_bytes K = 4"
    "tk_value_tile_bytes K = 1024 * tk_value_bytes K" "tk_index_tile_bytes K = 1024 * tk_index_bytes K"
    "length (tk_stack K) = tp_k (tk_plan K)"
    "cores_per_tile_row (tk_plan K) = tp_segments (tk_plan K) * tp_row_groups (tk_plan K)"
    "plan_cores (tk_plan K) = tp_tile_rows (tk_plan K) * (tp_segments (tk_plan K) * tp_row_groups (tk_plan K))"
    "i < tp_tile_rows (tk_plan K) * tp_Wt (tk_plan K) \<Longrightarrow> length (tk_input K i) = 1024"
  using assms by (simp_all add: kernel_ok_def plan_ok_def)

lemma core_parts:
  assumes "kernel_ok K" and "c < plan_cores (tk_plan K)"
  shows "ta_tile_row (args K c) < tp_tile_rows (tk_plan K)" "ta_segment (args K c) < tp_segments (tk_plan K)"
    "ta_group (args K c) < tp_row_groups (tk_plan K)"
proof -
  have "bij_betw (core_work (tk_plan K)) {..<plan_cores (tk_plan K)}
      ({..<tp_tile_rows (tk_plan K)} \<times> {..<tp_segments (tk_plan K)} \<times> {..<tp_row_groups (tk_plan K)})"
    using assms(1) by (intro core_work_bij) (auto simp: kernel_ok_def)
  then have "core_work (tk_plan K) c \<in>
      {..<tp_tile_rows (tk_plan K)} \<times> {..<tp_segments (tk_plan K)} \<times> {..<tp_row_groups (tk_plan K)}"
    using assms(2) by (meson bij_betwE lessThan_iff)
  then show "ta_tile_row (args K c) < tp_tile_rows (tk_plan K)" "ta_segment (args K c) < tp_segments (tk_plan K)"
    "ta_group (args K c) < tp_row_groups (tk_plan K)"
    by (simp_all add: core_work_def)
qed

lemma tile_row_rows_le: "tile_row_rows K t \<le> 32"
  unfolding tile_row_rows_def Let_def by auto

lemma slots_of_iff:
  assumes "kernel_ok K"
  shows "(slot, row) \<in> set (slots_of K c) \<longleftrightarrow>
    row = ta_group (args K c) + slot * tp_row_groups (tk_plan K) \<and> row < tile_row_rows K (ta_tile_row (args K c))"
  using core_rows_nth [OF kernel_okD(3) [OF assms]]
  by (auto simp: slots_of_def rows_of_def in_set_enumerate_eq)

section \<open>Reads and selection\<close>

lemma put_in_concat: "x \<in> set (concat (map f xs)) \<longleftrightarrow> (\<exists>y\<in>set xs. x \<in> set (f y))"
  by auto

definition read_data :: "topk_kernel \<Rightarrow> nat \<Rightarrow> nat \<Rightarrow> nat \<Rightarrow> nat \<Rightarrow> payload" where
  "read_data K c row t half = Elems (page_chunk (tk_value_bytes K)
     (tk_input K (ta_tile_row (args K c) * tp_Wt (tk_plan K) + first_tile K (ta_segment (args K c)) + t))
     (read_offset (tk_value_bytes K) row half))"

abbreviation "core_width K c \<equiv> segment_width K (ta_segment (args K c))"

lemma read_puts_iff:
  "Put l f \<in> set (read_puts K c) \<longleftrightarrow> (\<exists>slot row t half. (slot, row) \<in> set (slots_of K c) \<and>
     t < core_width K c \<and> half < 2 \<and> l = L1 c cb_in (in_offset (core_width K c) slot t half) \<and>
     f = (\<lambda>_. read_data K c row t half))"
proof -
  have half: "Put l f \<in> set (map (\<lambda>half. Put (L1 c cb_in (in_offset w slot t half)) (\<lambda>_. read_data K c row t half)) [0, 1])
      \<longleftrightarrow> (\<exists>half < 2. l = L1 c cb_in (in_offset w slot t half) \<and> f = (\<lambda>_. read_data K c row t half))" for w slot t row
    by (auto simp: less_2_cases_iff)
  show ?thesis
    unfolding read_puts_def Let_def read_data_def [symmetric]
    by (simp only: put_in_concat Bex_def split_paired_Ex prod.case half set_upt atLeastLessThan_iff le0 simp_thms)
      blast
qed

lemma div_mod_2: "half < (2 :: nat) \<Longrightarrow> (a * 2 + half) div 2 = a" "half < (2 :: nat) \<Longrightarrow> (a * 2 + half) mod 2 = half"
  by simp_all

lemma expect_read:
  assumes "kernel_ok K" and "(slot, row) \<in> set (slots_of K c)" and t: "t < core_width K c" and "half < 2"
  shows "topk_expect K (L1 c cb_in (in_offset (core_width K c) slot t half)) = read_data K c row t half"
proof -
  let ?w = "core_width K c"
  let ?i = "(slot * ?w + t) * 2 + half"
  have i: "in_offset ?w slot t half div read_bytes = ?i" by (simp add: in_offset_def read_bytes_def)
  have "(slot * ?w + t) div ?w = slot" "(slot * ?w + t) mod ?w = t" using t by simp_all
  then show ?thesis
    using assms(2) slots_of_iff [OF assms(1)] div_mod_2 [OF assms(4), of "slot * ?w + t"]
    by (simp only: topk_expect.simps i expect_in_def read_data_def Let_def) simp
qed

lemma segment_columns:
  assumes "kernel_ok K" and seg: "s < tp_segments (tk_plan K)"
  shows "first_tile K s * 32 < tp_width (tk_plan K)"
    and "cut (tp_width (tk_plan K)) (tp_segment_tiles (tk_plan K)) s = first_tile K s * 32"
    and "cut (tp_width (tk_plan K)) (tp_segment_tiles (tk_plan K)) (Suc s) =
      min (tp_width (tk_plan K)) ((first_tile K s + segment_width K s) * 32)"
    and "t < segment_width K s \<Longrightarrow> first_tile K s + t < tp_Wt (tk_plan K)"
proof -
  let ?p = "tk_plan K"
  note ok = kernel_okD [OF assms(1)]
  have "s * tp_segment_tiles ?p \<le> (tp_segments ?p - 1) * tp_segment_tiles ?p"
    using seg by (intro mult_le_mono1) simp
  then have lt: "first_tile K s < tp_Wt ?p" unfolding first_tile_def using ok(11) by (rule le_less_trans)
  then show *: "first_tile K s * 32 < tp_width ?p" by (simp add: ok(9) less_div_up_iff)
  then show "cut (tp_width ?p) (tp_segment_tiles ?p) s = first_tile K s * 32"
    by (simp add: cut_def first_tile_def)
  have W: "tp_width ?p \<le> tp_Wt ?p * 32" using div_up_mult_ge [of 32 "tp_width ?p"] by (simp add: ok(9))
  show "cut (tp_width ?p) (tp_segment_tiles ?p) (Suc s) = min (tp_width ?p) ((first_tile K s + segment_width K s) * 32)"
  proof (cases "first_tile K s + tp_segment_tiles ?p \<le> tp_Wt ?p")
    case True
    then show ?thesis by (simp add: cut_def segment_width_def first_tile_def algebra_simps)
  next
    case False
    then have "tp_Wt ?p * 32 \<le> Suc s * tp_segment_tiles ?p * 32" by (simp add: first_tile_def)
    then have "cut (tp_width ?p) (tp_segment_tiles ?p) (Suc s) = tp_width ?p" using W by (simp add: cut_def)
    moreover have "first_tile K s + segment_width K s = tp_Wt ?p" using False lt by (simp add: segment_width_def)
    ultimately show ?thesis using W by simp
  qed
  show "t < segment_width K s \<Longrightarrow> first_tile K s + t < tp_Wt ?p"
    using lt by (auto simp: segment_width_def split: if_splits)
qed

definition reads_in :: "topk_kernel \<Rightarrow> nat \<Rightarrow> topk_mem \<Rightarrow> bool" where
  "reads_in K c m \<longleftrightarrow> (\<forall>l f. Put l f \<in> set (read_puts K c) \<longrightarrow> m l = Some (topk_expect K l))"

lemma select_slot_eq:
  assumes ok: "kernel_ok K" and c: "c < plan_cores (tk_plan K)" and m: "reads_in K c m"
    and sr: "(slot, row) \<in> set (slots_of K c)" and old: "length old = tp_k (tk_plan K)"
  shows "select_slot K c m (slot, row) old = slot_list K (ta_tile_row (args K c)) row (ta_segment (args K c))"
proof -
  let ?p = "tk_plan K" and ?a = "args K c"
  let ?seg = "ta_segment ?a" and ?tr = "ta_tile_row ?a"
  let ?first = "first_tile K ?seg" and ?tiles = "segment_width K ?seg"
  note o = kernel_okD [OF ok] and parts = core_parts [OF ok c]
  note col = segment_columns [OF ok parts(2)]
  have row: "row < 32" using sr slots_of_iff [OF ok] tile_row_rows_le [of K ?tr] by auto
  have bits: "chunk_bits (tk_value_bytes K) row (elems_of (m (L1 c cb_in (in_offset ?tiles slot t half)))) e =
      row_elem K ?tr row ((?first + t) * 32 + half * 16 + e)"
    if t: "t < ?tiles" and half: "half < 2" and e: "e < 16" for t half e
  proof -
    have "m (L1 c cb_in (in_offset ?tiles slot t half)) =
        Some (topk_expect K (L1 c cb_in (in_offset ?tiles slot t half)))"
      using m sr t half unfolding reads_in_def read_puts_iff by blast
    moreover have "?tr * tp_Wt ?p + (?first + t) < tp_tile_rows ?p * tp_Wt ?p"
      by (rule index_less_product [OF parts(1) col(4) [OF t]])
    then have "length (tk_input K (?tr * tp_Wt ?p + ?first + t)) = 1024" by (simp add: o(19) add.assoc)
    moreover have "half * 16 + e < 32" using half e by simp
    moreover from this have "((?first + t) * 32 + half * 16 + e) div 32 = ?first + t"
        "((?first + t) * 32 + half * 16 + e) mod 32 = half * 16 + e"
      by (simp_all add: add.assoc)
    moreover have "(half * 16 + e) div 16 = half" "(half * 16 + e) mod 16 = e" using e by simp_all
    ultimately show ?thesis
      using chunk_bits_page [OF o(12) row half e] expect_read [OF ok sr t half]
      by (simp add: row_elem_def tile_pos_face add.assoc read_data_def)
  qed
  have "select_slot K c m (slot, row) old =
      segment_list (tk_largest K) (row_elem K ?tr row) (tp_k ?p) (?first * 32) (min (tp_width ?p) ((?first + ?tiles) * 32))"
    unfolding select_slot_def Let_def fst_conv snd_conv
    by (rule select_row_eq) (use o(5) old col(1) bits in simp_all)
  then show ?thesis by (simp add: slot_list_def col)
qed

lemma length_slot_list [simp]: "length (slot_list K tr row s) = tp_k (tk_plan K)"
  by (simp add: slot_list_def length_segment_list)

lemma selected_eq:
  assumes ok: "kernel_ok K" and c: "c < plan_cores (tk_plan K)" and m: "reads_in K c m"
    and sr: "(slot, row) \<in> set (slots_of K c)"
  shows "selected K c m slot = slot_list K (ta_tile_row (args K c)) row (ta_segment (args K c))"
proof -
  have all: "select_slots K c m srs old =
      map (\<lambda>(slot, row). slot_list K (ta_tile_row (args K c)) row (ta_segment (args K c))) srs"
    if "set srs \<subseteq> set (slots_of K c)" "length old = tp_k (tk_plan K)" for srs old
    using that
  proof (induction srs arbitrary: old)
    case (Cons sr srs)
    obtain s r where "sr = (s, r)" by (cases sr)
    with Cons show ?case using select_slot_eq [OF ok c m, of s r old] by (simp add: Let_def)
  qed simp
  have "slot < length (slots_of K c)" "slots_of K c ! slot = (slot, row)"
    using sr by (auto simp: slots_of_def in_set_enumerate_eq nth_enumerate_eq)
  then show ?thesis
    using all [of "slots_of K c" "tk_stack K"] kernel_okD(16) [OF ok] by (simp add: selected_def)
qed

section \<open>Where the cores are\<close>

definition core_at :: "topk_kernel \<Rightarrow> nat \<Rightarrow> nat \<Rightarrow> nat \<Rightarrow> nat" where
  "core_at K tr s g = tr * (tp_segments (tk_plan K) * tp_row_groups (tk_plan K)) + (s * tp_row_groups (tk_plan K) + g)"

lemma core_at_args:
  assumes ok: "kernel_ok K" and "s < tp_segments (tk_plan K)" "g < tp_row_groups (tk_plan K)"
  shows "args K (core_at K tr s g) = \<lparr>ta_tile_row = tr, ta_segment = s, ta_group = g,
      ta_owner = core_at K tr 0 0, ta_merger = core_at K tr 0 g\<rparr>"
    and "tr < tp_tile_rows (tk_plan K) \<Longrightarrow> core_at K tr s g < plan_cores (tk_plan K)"
proof -
  have lt: "s * tp_row_groups (tk_plan K) + g < tp_segments (tk_plan K) * tp_row_groups (tk_plan K)"
    by (rule index_less_product [OF assms(2,3)])
  then show "args K (core_at K tr s g) = \<lparr>ta_tile_row = tr, ta_segment = s, ta_group = g,
      ta_owner = core_at K tr 0 0, ta_merger = core_at K tr 0 g\<rparr>"
    using assms(3) by (simp only: core_args_def core_at_def Let_def kernel_okD(17) [OF ok] index_div index_mod) simp
  show "tr < tp_tile_rows (tk_plan K) \<Longrightarrow> core_at K tr s g < plan_cores (tk_plan K)"
    unfolding core_at_def kernel_okD(18) [OF ok] using lt by (rule index_less_product [rotated])
qed

lemma core_at_self:
  assumes "kernel_ok K"
  shows "core_at K (ta_tile_row (args K c)) (ta_segment (args K c)) (ta_group (args K c)) = c"
  by (simp add: core_args_def core_at_def Let_def kernel_okD(17) [OF assms] div_mult_mod_eq)

lemma owner_eq:
  assumes "kernel_ok K"
  shows "ta_owner (args K c) = core_at K (ta_tile_row (args K c)) 0 0"
    and "ta_merger (args K c) = core_at K (ta_tile_row (args K c)) 0 (ta_group (args K c))"
  by (simp_all add: core_args_def core_at_def Let_def kernel_okD(17) [OF assms])

lemma merger_self: "kernel_ok K \<Longrightarrow> is_merger K c \<Longrightarrow> ta_merger (args K c) = c"
  using core_at_self [of K c] by (simp add: owner_eq is_merger_def)

lemma owner_self: "kernel_ok K \<Longrightarrow> is_owner K c \<Longrightarrow> ta_owner (args K c) = c"
  using core_at_self [of K c] by (simp add: owner_eq is_merger_def is_owner_def)

section \<open>Output chunks\<close>

lemma chunk_pos:
  assumes "0 < (b :: nat)" "f < 64"
  shows "(tile * (1024 * b) + 16 * f * b) div (16 * b) div 64 = tile"
    and "(tile * (1024 * b) + 16 * f * b) div (16 * b) mod 64 = f"
proof -
  have "tile * (1024 * b) + 16 * f * b = (tile * 64 + f) * (16 * b)" by (simp add: algebra_simps)
  then have "(tile * (1024 * b) + 16 * f * b) div (16 * b) = tile * 64 + f" using assms(1) by simp
  then show "(tile * (1024 * b) + 16 * f * b) div (16 * b) div 64 = tile"
    "(tile * (1024 * b) + 16 * f * b) div (16 * b) mod 64 = f" using assms(2) by simp_all
qed

text \<open>The location of chunk \<open>j\<close> of a tile in an output buffer.\<close>

definition value_loc :: "topk_kernel \<Rightarrow> nat \<Rightarrow> nat \<Rightarrow> nat \<Rightarrow> topk_loc" where
  "value_loc K c tile j = L1 c cb_values (tile * tk_value_tile_bytes K + 16 * j * tk_value_bytes K)"

definition index_loc :: "topk_kernel \<Rightarrow> nat \<Rightarrow> nat \<Rightarrow> nat \<Rightarrow> topk_loc" where
  "index_loc K c tile j = L1 c cb_indices (tile * tk_index_tile_bytes K + 16 * j * tk_index_bytes K)"

lemma expect_chunk:
  assumes "kernel_ok K" "j < 64"
  shows "topk_expect K (value_loc K c tile j) =
      Elems (out_chunk K (value_chunk K) (ta_tile_row (args K c)) tile j)"
    and "topk_expect K (index_loc K c tile j) =
      Elems (out_chunk K (index_chunk K) (ta_tile_row (args K c)) tile j)"
proof -
  note o = kernel_okD [OF assms(1)]
  have "0 < tk_value_bytes K" "0 < tk_index_bytes K" using o(12,13) by auto
  then show "topk_expect K (value_loc K c tile j) =
      Elems (out_chunk K (value_chunk K) (ta_tile_row (args K c)) tile j)"
    and "topk_expect K (index_loc K c tile j) =
      Elems (out_chunk K (index_chunk K) (ta_tile_row (args K c)) tile j)"
    by (simp_all only: value_loc_def index_loc_def topk_expect.simps Let_def o(14,15) chunk_pos assms(2)
        kernel_ids) simp_all
qed

lemma chunk_index:
  assumes "row < 32" "half < 2"
  shows "chunk_row (face_index row half) = row" "chunk_half (face_index row half) = half"
  using face_index_inv [OF assms] by (simp_all add: chunk_row_def chunk_half_def)

lemma chunk_bounds: "j < 64 \<Longrightarrow> chunk_row j < 32" "chunk_half j < 2"
proof -
  assume "j < 64"
  then have "j div 32 < 2" by (simp add: less_mult_imp_div_less)
  then show "chunk_row j < 32" unfolding chunk_row_def using index_less_product [of "j div 32" 2 "j mod 16" 16] by simp
qed (simp add: chunk_half_def)

lemma face_index_chunk: "j < 64 \<Longrightarrow> face_index (chunk_row j) (chunk_half j) = j"
proof -
  assume j: "j < 64"
  have "(j div 32 * 16 + j mod 16) div 16 = j div 32" "(j div 32 * 16 + j mod 16) mod 16 = j mod 16" by simp_all
  moreover have "j div 32 * 2 + j div 16 mod 2 = j div 16"
    using div_mult2_eq [of j 16 2] by simp
  ultimately show ?thesis
    by (simp add: face_index_def chunk_row_def chunk_half_def)
qed

lemma write_row_iff:
  "Put l f \<in> set (write_row K owner row list) \<longleftrightarrow> (\<exists>tile half. tile < k_tiles K \<and> half < 2 \<and>
     (l = value_loc K owner tile (face_index row half) \<and> f = (\<lambda>m. Elems (value_chunk K (list m) tile half)) \<or>
      l = index_loc K owner tile (face_index row half) \<and> f = (\<lambda>m. Elems (index_chunk K (list m) tile half))))"
proof -
  have two: "(\<exists>half. half \<in> set [0, 1] \<and> Q half) \<longleftrightarrow> (\<exists>half < (2 :: nat). Q half)" for Q
    by (auto simp: less_2_cases_iff)
  show ?thesis
    unfolding write_row_def value_loc_def index_loc_def face_row_index [symmetric]
    by (simp only: put_in_concat Bex_def set_upt atLeastLessThan_iff le0 simp_thms two)
      (simp only: set_simps insert_iff empty_iff instr.inject simp_thms face_row_index, blast)
qed

lemma expect_write_row:
  assumes ok: "kernel_ok K" and row: "row < tile_row_rows K (ta_tile_row (args K owner))"
    and put: "Put l f \<in> set (write_row K owner row list)"
    and best: "list m = row_best K (ta_tile_row (args K owner)) row"
  shows "f m = topk_expect K l"
proof -
  have r: "row < 32" using row tile_row_rows_le [of K "ta_tile_row (args K owner)"] by simp
  from put obtain tile half where h: "half < 2" and
    c: "l = value_loc K owner tile (face_index row half) \<and> f = (\<lambda>m. Elems (value_chunk K (list m) tile half)) \<or>
      l = index_loc K owner tile (face_index row half) \<and> f = (\<lambda>m. Elems (index_chunk K (list m) tile half))"
    unfolding write_row_iff by blast
  from c show ?thesis
    using expect_chunk [OF ok face_index_less [OF r h]] row best
    by (auto simp: out_chunk_def chunk_index [OF r h])
qed

text \<open>The zeroed spans are the chunks of the padding rows, each once.\<close>

lemma span_div: "0 < b \<Longrightarrow> n * 16 * b div (16 * b) = (n :: nat)"
  using nonzero_mult_div_cancel_right [of "16 * b" n] by (simp add: mult.assoc)

lemma zero_span_chunks:
  assumes "0 < b"
  shows "(\<exists>offset len k. (offset, len) \<in> set (zero_spans tiles b (1024 * b) rows) \<and> k < len div (16 * b) \<and>
      x = offset + k * (16 * b)) \<longleftrightarrow>
    (\<exists>tile j. tile < tiles \<and> j < 64 \<and> rows \<le> chunk_row j \<and> x = tile * (1024 * b) + 16 * j * b)"
    (is "?L \<longleftrightarrow> ?R")
proof
  assume ?L
  then obtain offset len k tile where tile: "tile < tiles" and k: "k < len div (16 * b)"
    and x: "x = offset + k * (16 * b)"
    and sp: "(offset, len) \<in> set (tile_zero_spans b rows (tile * (1024 * b)))"
    unfolding zero_spans_def by auto
  have c32: "512 * b div (16 * b) = 32" using span_div [OF assms, of 32] by simp
  have "\<exists>j < 64. rows \<le> chunk_row j \<and> x = tile * (1024 * b) + 16 * j * b"
  proof (cases "rows < 16")
    case True
    have "(offset, len) \<in> (\<lambda>face. (tile * (1024 * b) + (face * 256 + rows * 16) * b, (16 - rows) * 16 * b)) ` {..<2}
        \<union> {(tile * (1024 * b) + 512 * b, 512 * b)}"
      using sp True by (auto simp: tile_zero_spans_def lessThan_Suc numeral_2_eq_2)
    then consider face where "face < 2" "offset = tile * (1024 * b) + (face * 256 + rows * 16) * b"
        "len = (16 - rows) * 16 * b"
      | "offset = tile * (1024 * b) + 512 * b" "len = 512 * b"
      by blast
    then show ?thesis
    proof cases
      case 1
      then have k': "rows + k < 16" using k True by (simp add: span_div [OF assms])
      let ?j = "face * 16 + (rows + k)"
      have "?j < 32" using index_less_product [OF 1(1) k'] by simp
      moreover have "chunk_row ?j = rows + k" using k' \<open>?j < 32\<close> by (simp add: chunk_row_def index_mod)
      moreover have "x = tile * (1024 * b) + 16 * ?j * b" unfolding x 1(2) by (simp add: algebra_simps)
      ultimately show ?thesis by (intro exI [of _ ?j]) simp
    next
      case 2
      let ?j = "1 * 32 + k"
      have "k < 32" using k 2 c32 by simp
      moreover from this have "?j div 32 = 1" by (rule index_div)
      moreover have "?j mod 16 = k mod 16" using mod_mult_self3 [of 2 16 k] by simp
      ultimately have "chunk_row ?j = 16 + k mod 16" by (simp only: chunk_row_def)
      moreover have "x = tile * (1024 * b) + 16 * ?j * b" unfolding x 2(1) by (simp add: algebra_simps)
      ultimately show ?thesis using \<open>k < 32\<close> True by (intro exI [of _ ?j]) simp
    qed
  next
    case False
    with sp have "rows < 32" and "(offset, len) \<in> (\<lambda>face. (tile * (1024 * b) + (face * 256 + (rows - 16) * 16) * b,
        (32 - rows) * 16 * b)) ` {2, 3}"
      by (auto simp: tile_zero_spans_def split: if_splits)
    then obtain face where r: "rows < 32" and f: "face = 2 \<or> face = 3"
      and o: "offset = tile * (1024 * b) + (face * 256 + (rows - 16) * 16) * b" "len = (32 - rows) * 16 * b"
      by blast
    have k': "rows - 16 + k < 16" using k o r False by (simp add: span_div [OF assms])
    let ?j = "face * 16 + (rows - 16 + k)"
    have j: "?j < 64" "?j div 32 = 1" using f k' by auto
    have "?j mod 16 = rows - 16 + k" using k' by (rule index_mod)
    then have "chunk_row ?j = rows + k" using False by (simp only: chunk_row_def j(2))
    moreover have "x = tile * (1024 * b) + 16 * ?j * b" unfolding x o(1) by (simp add: algebra_simps)
    ultimately show ?thesis using j by (intro exI [of _ ?j]) simp
  qed
  then show ?R using tile by blast
next
  assume ?R
  then obtain tile j where t: "tile < tiles" "j < 64" "rows \<le> chunk_row j" "x = tile * (1024 * b) + 16 * j * b" by blast
  have j16: "j = j div 16 * 16 + j mod 16" "j mod 16 < 16" "j div 16 < 4"
    using t(2) by (simp_all add: div_mult_mod_eq less_mult_imp_div_less)
  have q: "j div 32 = j div 16 div 2" using div_mult2_eq [of j 16 2] by simp
  let ?in = "\<lambda>offset len. (offset, len) \<in> set (zero_spans tiles b (1024 * b) rows)"
  show ?L
  proof (cases "rows < 16")
    case True
    show ?thesis
    proof (cases "j < 32")
      case True
      then have row: "rows \<le> j mod 16" and face: "j div 16 = 0 \<or> j div 16 = 1" using t(3) by (auto simp: chunk_row_def)
      have "?in (tile * (1024 * b) + (j div 16 * 256 + rows * 16) * b) ((16 - rows) * 16 * b)"
        using t(1) \<open>rows < 16\<close> face unfolding zero_spans_def by (auto simp: tile_zero_spans_def intro!: bexI [of _ tile])
      moreover have "x = tile * (1024 * b) + (j div 16 * 256 + rows * 16) * b + (j mod 16 - rows) * (16 * b)"
      proof -
        have "16 * j = j div 16 * 256 + rows * 16 + (j mod 16 - rows) * 16" using j16(1) row by linarith
        then have "16 * j * b = (j div 16 * 256 + rows * 16) * b + (j mod 16 - rows) * 16 * b"
          by (metis add_mult_distrib)
        then show ?thesis unfolding t(4) by (simp add: mult.assoc)
      qed
      moreover have "j mod 16 - rows < (16 - rows) * 16 * b div (16 * b)"
        using row j16(2) unfolding span_div [OF assms] by linarith
      ultimately show ?thesis by blast
    next
      case False
      have "?in (tile * (1024 * b) + 512 * b) (512 * b)"
        using t(1) \<open>rows < 16\<close> unfolding zero_spans_def by (auto simp: tile_zero_spans_def intro!: bexI [of _ tile])
      moreover have "x = tile * (1024 * b) + 512 * b + (j - 32) * (16 * b)"
      proof -
        have "16 * j = 512 + (j - 32) * 16" using False by simp
        then have "16 * j * b = 512 * b + (j - 32) * 16 * b" by (metis add_mult_distrib)
        then show ?thesis unfolding t(4) by (simp add: mult.assoc)
      qed
      moreover have "j - 32 < 512 * b div (16 * b)" using span_div [OF assms, of 32] t(2) False by simp
      ultimately show ?thesis by blast
    qed
  next
    case False
    have j32: "\<not> j < 32" using t(3) False by (auto simp: chunk_row_def)
    then have d: "j div 32 = 1" using t(2) by auto
    then have face: "j div 16 = 2 \<or> j div 16 = 3" using q j16(3) by auto
    have row: "rows - 16 \<le> j mod 16" "rows < 32" using t(3) d j16(2) by (auto simp: chunk_row_def)
    have "?in (tile * (1024 * b) + (j div 16 * 256 + (rows - 16) * 16) * b) ((32 - rows) * 16 * b)"
      using t(1) False row face unfolding zero_spans_def by (auto simp: tile_zero_spans_def intro!: bexI [of _ tile])
    moreover have "x = tile * (1024 * b) + (j div 16 * 256 + (rows - 16) * 16) * b + (j mod 16 - (rows - 16)) * (16 * b)"
    proof -
      have "16 * j = j div 16 * 256 + (rows - 16) * 16 + (j mod 16 - (rows - 16)) * 16" using j16(1) row by linarith
      then have "16 * j * b = (j div 16 * 256 + (rows - 16) * 16) * b + (j mod 16 - (rows - 16)) * 16 * b"
        by (metis add_mult_distrib)
      then show ?thesis unfolding t(4) by (simp add: mult.assoc)
    qed
    moreover have "j mod 16 - (rows - 16) < (32 - rows) * 16 * b div (16 * b)"
      using row j16(2) False unfolding span_div [OF assms] by linarith
    ultimately show ?thesis by blast
  qed
qed

lemma zero_puts_iff:
  assumes "0 < b" and "loc = (\<lambda>tile j. L1 c cb (tile * (1024 * b) + 16 * j * b))"
  shows "Put l f \<in> set (zero_puts K c cb b (1024 * b) rows) \<longleftrightarrow>
    (\<exists>tile j. tile < k_tiles K \<and> j < 64 \<and> rows \<le> chunk_row j \<and> l = loc tile j \<and> f = (\<lambda>_. Elems (replicate 16 0)))"
proof -
  have "Put l f \<in> set (zero_puts K c cb b (1024 * b) rows) \<longleftrightarrow>
      (\<exists>x. (\<exists>offset len k. (offset, len) \<in> set (zero_spans (k_tiles K) b (1024 * b) rows) \<and> k < len div (16 * b) \<and>
        x = offset + k * (16 * b)) \<and> l = L1 c cb x \<and> f = (\<lambda>_. Elems (replicate 16 0)))"
    unfolding zero_puts_def
    by (simp only: put_in_concat Bex_def split_paired_Ex prod.case set_map image_iff set_upt atLeastLessThan_iff
        le0 simp_thms instr.inject) blast
  then show ?thesis unfolding zero_span_chunks [OF assms(1)] assms(2) by blast
qed

section \<open>The shape of the programs\<close>

fun is_data :: "('l, 's, 'v) instr \<Rightarrow> bool" where
  "is_data (Put l f) = True"
| "is_data Barrier = True"
| "is_data _ = False"

definition head_part :: "topk_kernel \<Rightarrow> nat \<Rightarrow> topk_instr list" where
  "head_part K c = zero_part K c @ read_puts K c @ [Barrier] @ select_part K c @ [Barrier]"

definition merge_rows :: "topk_kernel \<Rightarrow> nat \<Rightarrow> topk_instr list" where
  "merge_rows K c = concat (map (\<lambda>(slot, row). write_row K (ta_owner (args K c)) row (\<lambda>m. merged K c m slot)) (slots_of K c))"

definition body_part :: "topk_kernel \<Rightarrow> nat \<Rightarrow> topk_instr list" where
  "body_part K c = head_part K c @ (if 1 < tp_segments (tk_plan K) then merge_part K c else [])"

lemma kernel_main_shape:
  "kernel_main K c = (if 1 < tp_segments (tk_plan K) \<and> \<not> is_merger K c
    then head_part K c @ [Inc (ta_merger (args K c), merge_sem)] else body_part K c @ owner_part K c)"
  by (simp add: kernel_main_def head_part_def body_part_def)

lemma merge_part_shape:
  "merge_part K c = [Wait (c, merge_sem) (tp_segments (tk_plan K) - 1), Reset (c, merge_sem)] @ merge_rows K c @ [Barrier]"
  by (simp add: merge_part_def merge_rows_def)

lemma write_row_data: "x \<in> set (write_row K o' row list) \<Longrightarrow> is_data x"
  by (auto simp: write_row_def)

lemma page_puts_data: "x \<in> set (page_puts K c) \<Longrightarrow> is_data x"
  by (auto simp: page_puts_def Let_def)

lemma merge_rows_data: "x \<in> set (merge_rows K c) \<Longrightarrow> is_data x"
  by (auto simp: merge_rows_def write_row_data)

lemma head_data: "x \<in> set (head_part K c) \<Longrightarrow> is_data x"
  by (auto simp: head_part_def zero_part_def zero_puts_def read_puts_def select_part_def send_puts_def Let_def
      write_row_data split: if_splits)

lemma nth_append_data:
  assumes "(xs @ ys) ! i = x" "i < length (xs @ ys)" "\<not> is_data x" "\<And>y. y \<in> set xs \<Longrightarrow> is_data y"
  shows "length xs \<le> i" "i - length xs < length ys" "ys ! (i - length xs) = x"
proof -
  show "length xs \<le> i" using assms by (metis not_le nth_append nth_mem)
  then show "i - length xs < length ys" "ys ! (i - length xs) = x" using assms by (auto simp: nth_append)
qed

text \<open>The instructions that are not data, with their places.\<close>

definition merges :: "topk_kernel \<Rightarrow> nat \<Rightarrow> bool" where
  "merges K c \<longleftrightarrow> 1 < tp_segments (tk_plan K) \<and> is_merger K c"

definition sends :: "topk_kernel \<Rightarrow> nat \<Rightarrow> bool" where
  "sends K c \<longleftrightarrow> 1 < tp_segments (tk_plan K) \<and> \<not> is_merger K c"

lemma owner_part_ctl:
  assumes "owner_part K c ! i = x" "i < length (owner_part K c)" "\<not> is_data x"
  shows "\<not> is_owner K c \<and> i = 0 \<and> x = Inc (ta_owner (args K c), owner_sem) \<or>
    is_owner K c \<and> 1 < tp_row_groups (tk_plan K) \<and>
      (i = 0 \<and> x = Wait (c, owner_sem) (tp_row_groups (tk_plan K) - 1) \<or> i = 1 \<and> x = Reset (c, owner_sem))"
proof (cases "is_owner K c")
  case True
  have data: "is_data y" if "y \<in> set (page_puts K c @ [Barrier])" for y using that page_puts_data by auto
  show ?thesis
  proof (cases "1 < tp_row_groups (tk_plan K)")
    case False
    then have "owner_part K c = page_puts K c @ [Barrier]" using True by (simp add: owner_part_def)
    then show ?thesis using assms data by (metis nth_mem)
  next
    case r: True
    then have o: "owner_part K c = Wait (c, owner_sem) (tp_row_groups (tk_plan K) - 1) # Reset (c, owner_sem) #
        (page_puts K c @ [Barrier])" using True by (simp add: owner_part_def)
    have "i < 2"
    proof (rule ccontr)
      assume "\<not> i < 2"
      then obtain j where j: "i = Suc (Suc j)" by (metis add_2_eq_Suc le_Suc_ex not_less)
      then have "x \<in> set (page_puts K c @ [Barrier])"
        using assms(1,2) nth_mem [of j "page_puts K c @ [Barrier]"] unfolding o j by simp
      then show False using data assms(3) by blast
    qed
    then show ?thesis using assms(1) True r unfolding o by (auto simp: less_2_cases_iff)
  qed
qed (use assms in \<open>auto simp: owner_part_def\<close>)

lemma kernel_ctl:
  assumes x: "kernel_main K c ! i = x" "i < length (kernel_main K c)" "\<not> is_data x"
  shows "sends K c \<and> i = length (head_part K c) \<and> x = Inc (ta_merger (args K c), merge_sem) \<or>
    merges K c \<and> i = length (head_part K c) \<and> x = Wait (c, merge_sem) (tp_segments (tk_plan K) - 1) \<or>
    merges K c \<and> i = Suc (length (head_part K c)) \<and> x = Reset (c, merge_sem) \<or>
    \<not> sends K c \<and> \<not> is_owner K c \<and> i = length (body_part K c) \<and> x = Inc (ta_owner (args K c), owner_sem) \<or>
    is_owner K c \<and> 1 < tp_row_groups (tk_plan K) \<and> i = length (body_part K c) \<and>
      x = Wait (c, owner_sem) (tp_row_groups (tk_plan K) - 1) \<or>
    is_owner K c \<and> 1 < tp_row_groups (tk_plan K) \<and> i = Suc (length (body_part K c)) \<and> x = Reset (c, owner_sem)"
proof (cases "sends K c")
  case True
  then have p: "kernel_main K c = head_part K c @ [Inc (ta_merger (args K c), merge_sem)]"
    by (simp add: kernel_main_shape sends_def)
  from nth_append_data [OF x [unfolded p] head_data [where K = K and c = c]] show ?thesis using True by auto
next
  case False
  then have p: "kernel_main K c = body_part K c @ owner_part K c"
    by (auto simp: kernel_main_shape sends_def)
  show ?thesis
  proof (cases "i < length (body_part K c)")
    case True
    then have b: "body_part K c ! i = x" using x(1) by (simp add: p nth_append)
    show ?thesis
    proof (cases "1 < tp_segments (tk_plan K)")
      case False
      then have "body_part K c = head_part K c" by (simp add: body_part_def)
      then have "x \<in> set (head_part K c)" using b True by (metis nth_mem)
      then show ?thesis using x(3) head_data by blast
    next
      case seg: True
      then have m: "merges K c" using False by (auto simp: merges_def sends_def)
      have bp: "body_part K c = head_part K c @ Wait (c, merge_sem) (tp_segments (tk_plan K) - 1) #
          Reset (c, merge_sem) # (merge_rows K c @ [Barrier])"
        using seg by (simp add: body_part_def merge_part_shape)
      note n = nth_append_data [OF b [unfolded bp] True [unfolded bp] x(3) head_data [where K = K and c = c]]
      have "i - length (head_part K c) < 2"
      proof (rule ccontr)
        assume "\<not> i - length (head_part K c) < 2"
        then obtain j where j: "i - length (head_part K c) = Suc (Suc j)" by (metis add_2_eq_Suc le_Suc_ex not_less)
        then have "x \<in> set (merge_rows K c @ [Barrier])" using n(2,3) nth_mem [of j "merge_rows K c @ [Barrier]"] unfolding j by simp
        then show False using x(3) merge_rows_data by auto
      qed
      then consider "i = length (head_part K c)" | "i = Suc (length (head_part K c))" using n(1) by linarith
      then have "i = length (head_part K c) \<and> x = Wait (c, merge_sem) (tp_segments (tk_plan K) - 1) \<or>
          i = Suc (length (head_part K c)) \<and> x = Reset (c, merge_sem)"
        using n(3) by cases simp_all
      then show ?thesis using m by blast
    qed
  next
    case nb: False
    then have "owner_part K c ! (i - length (body_part K c)) = x" "i - length (body_part K c) < length (owner_part K c)"
      using x(1,2) by (auto simp: p nth_append)
    from owner_part_ctl [OF this x(3)] show ?thesis using nb False by auto
  qed
qed

lemma kernel_wait:
  assumes "kernel_main K c ! i = Wait s v" "i < length (kernel_main K c)"
  shows "merges K c \<and> i = length (head_part K c) \<and> s = (c, merge_sem) \<and> v = tp_segments (tk_plan K) - 1 \<or>
    is_owner K c \<and> 1 < tp_row_groups (tk_plan K) \<and> i = length (body_part K c) \<and> s = (c, owner_sem) \<and>
      v = tp_row_groups (tk_plan K) - 1"
  using kernel_ctl [OF assms] by simp

lemma kernel_reset:
  assumes "kernel_main K c ! i = Reset s" "i < length (kernel_main K c)"
  shows "i = Suc (length (head_part K c)) \<and> s = (c, merge_sem) \<or>
    i = Suc (length (body_part K c)) \<and> s = (c, owner_sem)"
  using kernel_ctl [OF assms] by auto

lemma kernel_inc:
  assumes "kernel_main K c ! i = Inc s" "i < length (kernel_main K c)"
  shows "sends K c \<and> i = length (head_part K c) \<and> s = (ta_merger (args K c), merge_sem) \<or>
    \<not> sends K c \<and> \<not> is_owner K c \<and> i = length (body_part K c) \<and> s = (ta_owner (args K c), owner_sem)"
  using kernel_ctl [OF assms] by simp

lemma nth_append_split:
  assumes "(xs @ ys) ! i = x" "i < length (xs @ ys)"
  obtains "i < length xs" "xs ! i = x" "x \<in> set xs"
    | "length xs \<le> i" "i - length xs < length ys" "ys ! (i - length xs) = x"
  using assms by (cases "i < length xs") (auto simp: nth_append)

lemma kernel_puts:
  assumes x: "kernel_main K c ! i = Put l f" "i < length (kernel_main K c)"
  shows "Put l f \<in> set (zero_part K c) \<or> Put l f \<in> set (read_puts K c) \<or>
    Put l f \<in> set (select_part K c) \<and> length (zero_part K c @ read_puts K c) < i \<or>
    merges K c \<and> Put l f \<in> set (merge_rows K c) \<and> length (head_part K c) < i \<or>
    is_owner K c \<and> Put l f \<in> set (page_puts K c) \<and> length (body_part K c) \<le> i \<and>
      (1 < tp_row_groups (tk_plan K) \<longrightarrow> length (body_part K c) < i)"
proof -
  obtain tl where p: "kernel_main K c = head_part K c @ tl"
    and tl: "tl = (if sends K c then [Inc (ta_merger (args K c), merge_sem)]
      else (if 1 < tp_segments (tk_plan K) then merge_part K c else []) @ owner_part K c)"
    by (auto simp: kernel_main_shape sends_def body_part_def)
  have own: ?thesis if j: "owner_part K c ! (i - length (body_part K c)) = Put l f"
      "i - length (body_part K c) < length (owner_part K c)" "length (body_part K c) \<le> i"
  proof -
    have o: "is_owner K c" using j by (auto simp: owner_part_def split: if_splits)
    then have op: "owner_part K c = (if 1 < tp_row_groups (tk_plan K)
        then [Wait (c, owner_sem) (tp_row_groups (tk_plan K) - 1), Reset (c, owner_sem)] else []) @ page_puts K c @ [Barrier]"
      by (simp add: owner_part_def)
    from j(1,2)[unfolded op] show ?thesis
    proof (cases rule: nth_append_split)
      case 2
      from 2(3,2) have "Put l f \<in> set (page_puts K c)" by (cases rule: nth_append_split) auto
      with 2(1) o j(3) show ?thesis by (auto split: if_splits)
    qed (auto split: if_splits)
  qed
  from x [unfolded p] show ?thesis
  proof (cases rule: nth_append_split)
    case 1
    from 1(2,1) [unfolded head_part_def] show ?thesis
    proof (cases rule: nth_append_split)
      case 2
      from 2(3,2) show ?thesis
      proof (cases rule: nth_append_split)
        case s: 2
        let ?ys = "[Barrier] @ select_part K c @ [Barrier]" and ?n = "i - length (zero_part K c) - length (read_puts K c)"
        have "?ys ! ?n \<in> set ?ys" using s(2) by (rule nth_mem)
        then have "Put l f \<in> set (select_part K c)" unfolding s(3) by simp
        moreover have "?n \<noteq> 0" using s(3) by (cases ?n) auto
        ultimately show ?thesis using 2(1) s(1) by simp
      qed simp
    qed simp
  next
    case h: 2
    show ?thesis
    proof (cases "sends K c")
      case True
      then show ?thesis using h(2,3) by (simp add: tl)
    next
      case False
      show ?thesis
      proof (cases "1 < tp_segments (tk_plan K)")
        case True
        then have m: "merges K c" using False by (simp add: merges_def sends_def)
        have body: "length (body_part K c) = length (head_part K c) + length (merge_part K c)"
          using True by (simp add: body_part_def)
        from h(3,2) have "(merge_part K c @ owner_part K c) ! (i - length (head_part K c)) = Put l f"
          "i - length (head_part K c) < length (merge_part K c @ owner_part K c)"
          using False True by (simp_all add: tl)
        then show ?thesis
        proof (cases rule: nth_append_split)
          case 1
          then have "Put l f \<in> set (merge_rows K c)" and "i - length (head_part K c) \<noteq> 0"
            by (auto simp: merge_part_shape nth_Cons split: nat.splits)
          then show ?thesis using m by simp
        next
          case 2
          with h(1) show ?thesis by (intro own) (simp_all add: body)
        qed
      next
        case one: False
        then have "body_part K c = head_part K c" by (simp add: body_part_def)
        then show ?thesis using h False one by (intro own) (simp_all add: tl)
      qed
    qed
  qed
qed

section \<open>What a core knows when it goes on\<close>

lemma settled_append: "Put l f \<in> set A \<Longrightarrow> length A < i \<Longrightarrow> settled (A @ Barrier # B) i l"
  unfolding settled_def
  by (clarsimp simp: in_set_conv_nth) (metis length_append less_add_Suc1 list.size(4) nth_append nth_append_length plus_1_eq_Suc add.commute)

lemma settled_reads:
  assumes "Put l f \<in> set (read_puts K c)" and "length (zero_part K c @ read_puts K c) < i"
  shows "settled (kernel_main K c) i l"
proof -
  obtain B where "kernel_main K c = (zero_part K c @ read_puts K c) @ Barrier # B"
    by (simp add: kernel_main_def)
  then show ?thesis using settled_append [of l f "zero_part K c @ read_puts K c"] assms by simp
qed

lemma settled_head:
  assumes "Put l f \<in> set (zero_part K c @ select_part K c)" and "length (head_part K c) \<le> i"
  shows "settled (kernel_main K c) i l"
proof -
  let ?A = "zero_part K c @ read_puts K c @ [Barrier] @ select_part K c"
  obtain B where "kernel_main K c = ?A @ Barrier # B" by (simp add: kernel_main_def)
  then show ?thesis using settled_append [of l f ?A i B] assms by (auto simp: head_part_def)
qed

lemma settled_merge:
  assumes "merges K c" and "Put l f \<in> set (merge_rows K c)" and "length (body_part K c) \<le> i"
  shows "settled (kernel_main K c) i l"
proof -
  let ?A = "head_part K c @ [Wait (c, merge_sem) (tp_segments (tk_plan K) - 1), Reset (c, merge_sem)] @ merge_rows K c"
  have "body_part K c = ?A @ [Barrier]" using assms(1) by (simp add: merges_def body_part_def merge_part_shape)
  moreover have "kernel_main K c = body_part K c @ owner_part K c"
    using assms(1) by (simp add: merges_def kernel_main_shape)
  ultimately show ?thesis using settled_append [of l f ?A i "owner_part K c"] assms by simp
qed

section \<open>The semaphores\<close>

abbreviation "all_cores K \<equiv> plan_cores (tk_plan K)"

lemma incs_merge:
  assumes ok: "kernel_ok K" and seg: "1 < tp_segments (tk_plan K)" and g: "g < tp_row_groups (tk_plan K)"
    and tr: "tr < tp_tile_rows (tk_plan K)"
  shows "incs (all_cores K) (kernel_main K) (core_at K tr 0 g, merge_sem) =
    (\<lambda>s. (core_at K tr s g, length (head_part K (core_at K tr s g)))) ` {1..<tp_segments (tk_plan K)}" (is "?I = ?J")
proof (intro equalityI subsetI)
  fix x assume "x \<in> ?I"
  then obtain d e where x: "x = (d, e)" and d: "d < all_cores K" and e: "e < length (kernel_main K d)"
    and i: "kernel_main K d ! e = Inc (core_at K tr 0 g, merge_sem)" by (auto simp: incs_def)
  from kernel_ctl [OF i e] have "sends K d" "e = length (head_part K d)" "ta_merger (args K d) = core_at K tr 0 g"
    by (auto simp: kernel_ids)
  note h = this and parts = core_parts [OF ok d]
  have "args K (ta_merger (args K d)) = args K (core_at K tr 0 g)" using h by simp
  then have "ta_tile_row (args K d) = tr" "ta_group (args K d) = g"
    using core_at_args(1) [OF ok _ parts(3), of 0] core_at_args(1) [OF ok _ g, of 0] seg
    by (simp_all add: owner_eq [OF ok])
  then have "d = core_at K tr (ta_segment (args K d)) g" using core_at_self [OF ok, of d] by simp
  moreover have "ta_segment (args K d) \<in> {1..<tp_segments (tk_plan K)}"
    using h(1) parts(2) by (simp add: sends_def is_merger_def)
  ultimately show "x \<in> ?J" using h(2) x by (metis (no_types, lifting) imageI)
next
  fix x assume "x \<in> ?J"
  then obtain s where s: "1 \<le> s" "s < tp_segments (tk_plan K)"
    and x: "x = (core_at K tr s g, length (head_part K (core_at K tr s g)))" by auto
  let ?d = "core_at K tr s g"
  note a = core_at_args [OF ok s(2) g, of tr]
  have "\<not> is_merger K ?d" using a(1) s by (simp add: is_merger_def)
  then have "kernel_main K ?d = head_part K ?d @ [Inc (core_at K tr 0 g, merge_sem)]"
    using seg a(1) by (simp add: kernel_main_shape)
  then show "x \<in> ?I" using a(2) [OF tr] by (simp add: x incs_def)
qed

lemma incs_owner:
  assumes ok: "kernel_ok K" and tr: "tr < tp_tile_rows (tk_plan K)"
  shows "incs (all_cores K) (kernel_main K) (core_at K tr 0 0, owner_sem) =
    (\<lambda>g. (core_at K tr 0 g, length (body_part K (core_at K tr 0 g)))) ` {1..<tp_row_groups (tk_plan K)}" (is "?I = ?J")
proof (intro equalityI subsetI)
  note o = kernel_okD [OF ok]
  fix x assume "x \<in> ?I"
  then obtain d e where x: "x = (d, e)" and d: "d < all_cores K" and e: "e < length (kernel_main K d)"
    and i: "kernel_main K d ! e = Inc (core_at K tr 0 0, owner_sem)" by (auto simp: incs_def)
  from kernel_ctl [OF i e] have "\<not> sends K d" "\<not> is_owner K d" "e = length (body_part K d)"
    "ta_owner (args K d) = core_at K tr 0 0"
    by (auto simp: kernel_ids)
  note h = this and parts = core_parts [OF ok d]
  have m: "ta_segment (args K d) = 0" using h(1) parts(2) by (auto simp: sends_def is_merger_def)
  have "args K (ta_owner (args K d)) = args K (core_at K tr 0 0)" using h by simp
  then have "ta_tile_row (args K d) = tr"
    using core_at_args(1) [OF ok o(1) o(3)] by (simp add: owner_eq [OF ok])
  then have "d = core_at K tr 0 (ta_group (args K d))" using core_at_self [OF ok, of d] m by simp
  moreover have "ta_group (args K d) \<in> {1..<tp_row_groups (tk_plan K)}"
    using h(2) parts(3) m by (simp add: is_owner_def is_merger_def)
  ultimately show "x \<in> ?J" using h(3) x by (metis (no_types, lifting) imageI)
next
  note o = kernel_okD [OF ok]
  fix x assume "x \<in> ?J"
  then obtain g where g: "1 \<le> g" "g < tp_row_groups (tk_plan K)"
    and x: "x = (core_at K tr 0 g, length (body_part K (core_at K tr 0 g)))" by auto
  let ?d = "core_at K tr 0 g"
  note a = core_at_args [OF ok o(1) g(2), of tr]
  have "\<not> is_owner K ?d" "is_merger K ?d" using a(1) g by (simp_all add: is_owner_def is_merger_def)
  then have "kernel_main K ?d = body_part K ?d @ [Inc (core_at K tr 0 0, owner_sem)]"
    using a(1) by (simp add: kernel_main_shape owner_part_def)
  then show "x \<in> ?I" using a(2) [OF tr] by (simp add: x incs_def)
qed

lemma core_at_inj:
  assumes "kernel_ok K" "s < tp_segments (tk_plan K)" "s' < tp_segments (tk_plan K)"
    "g < tp_row_groups (tk_plan K)" "g' < tp_row_groups (tk_plan K)"
    and "core_at K tr s g = core_at K tr' s' g'"
  shows "tr = tr' \<and> s = s' \<and> g = g'"
proof -
  have "core_work (tk_plan K) (core_at K tr s g) = (tr, s, g)"
    unfolding core_work_def by (simp only: core_at_args(1) [OF assms(1,2,4)] topk_args.simps)
  moreover have "core_work (tk_plan K) (core_at K tr' s' g') = (tr', s', g')"
    unfolding core_work_def by (simp only: core_at_args(1) [OF assms(1,3,5)] topk_args.simps)
  ultimately show ?thesis unfolding assms(6) by simp
qed

lemma topk_wait_total:
  assumes ok: "kernel_ok K" and c: "c < all_cores K" and i: "i < length (kernel_main K c)"
    and w: "kernel_main K c ! i = Wait s v"
  shows "v = card (incs (all_cores K) (kernel_main K) s)"
proof -
  note parts = core_parts [OF ok c] and o = kernel_okD [OF ok]
  from kernel_ctl [OF w i] consider
    "merges K c" "s = (c, merge_sem)" "v = tp_segments (tk_plan K) - 1"
    | "is_owner K c" "s = (c, owner_sem)" "v = tp_row_groups (tk_plan K) - 1" by auto
  then show ?thesis
  proof cases
    case 1
    let ?tr = "ta_tile_row (args K c)" and ?g = "ta_group (args K c)"
    have self: "core_at K ?tr 0 ?g = c"
      using core_at_self [OF ok, of c] 1(1) by (simp add: merges_def is_merger_def)
    have "inj_on (\<lambda>s. (core_at K ?tr s ?g, h s)) {1..<tp_segments (tk_plan K)}" for h :: "nat \<Rightarrow> nat"
    proof (rule inj_onI)
      fix a b assume "a \<in> {1..<tp_segments (tk_plan K)}" "b \<in> {1..<tp_segments (tk_plan K)}"
        "(core_at K ?tr a ?g, h a) = (core_at K ?tr b ?g, h b)"
      then show "a = b" using core_at_inj [OF ok _ _ parts(3,3), of a b ?tr ?tr] by simp
    qed
    moreover have "1 < tp_segments (tk_plan K)" using 1(1) by (simp add: merges_def)
    ultimately show ?thesis
      using incs_merge [OF ok _ parts(3,1)] 1(2,3) by (simp add: self card_image)
  next
    case 2
    let ?tr = "ta_tile_row (args K c)"
    have self: "core_at K ?tr 0 0 = c"
      using core_at_self [OF ok, of c] 2(1) by (simp add: is_owner_def is_merger_def)
    have "inj_on (\<lambda>g. (core_at K ?tr 0 g, h g)) {1..<tp_row_groups (tk_plan K)}" for h :: "nat \<Rightarrow> nat"
    proof (rule inj_onI)
      fix a b assume "a \<in> {1..<tp_row_groups (tk_plan K)}" "b \<in> {1..<tp_row_groups (tk_plan K)}"
        "(core_at K ?tr 0 a, h a) = (core_at K ?tr 0 b, h b)"
      then show "a = b" using core_at_inj [OF ok o(1) o(1), of a b ?tr ?tr] by simp
    qed
    then show ?thesis
      using incs_owner [OF ok parts(1)] 2(2,3) by (simp add: self card_image)
  qed
qed

lemma topk_reset_after:
  assumes ok: "kernel_ok K" and i: "i < length (kernel_main K c)" and w: "kernel_main K c ! i = Wait s v"
    and e: "e < length (kernel_main K d)" and r: "kernel_main K d ! e = Reset s"
  shows "d = c \<and> i < e"
proof -
  have "merge_sem \<noteq> owner_sem" by (simp add: kernel_ids)
  then show ?thesis
    using kernel_wait [OF w i] kernel_reset [OF r e] by (metis lessI prod.inject)
qed

lemma topk_wait_rank:
  assumes ok: "kernel_ok K" and c: "c < all_cores K" and i: "i < length (kernel_main K c)"
    and w: "kernel_main K c ! i = Wait s v" and de: "(d, e) \<in> incs (all_cores K) (kernel_main K) s"
  shows "topk_rank K d < topk_rank K c"
proof -
  have d: "e < length (kernel_main K d)" "kernel_main K d ! e = Inc s" using de by (auto simp: incs_def)
  have ne: "merge_sem \<noteq> owner_sem" by (simp add: kernel_ids)
  from kernel_wait [OF w i] show ?thesis
  proof (elim disjE conjE)
    assume "merges K c" "s = (c, merge_sem)"
    moreover from this have "sends K d" using kernel_inc [OF d(2,1)] ne by auto
    ultimately show ?thesis by (simp add: topk_rank_def merges_def sends_def is_owner_def)
  next
    assume "is_owner K c" "s = (c, owner_sem)"
    moreover from this have "\<not> is_owner K d" using kernel_inc [OF d(2,1)] ne by auto
    ultimately show ?thesis by (simp add: topk_rank_def)
  qed
qed

lemma zero_part_iff:
  assumes "kernel_ok K"
  shows "Put l f \<in> set (zero_part K c) \<longleftrightarrow> is_owner K c \<and> (\<exists>tile j. tile < k_tiles K \<and> j < 64 \<and>
    tile_row_rows K (ta_tile_row (args K c)) \<le> chunk_row j \<and> (l = value_loc K c tile j \<or> l = index_loc K c tile j) \<and>
    f = (\<lambda>_. Elems (replicate 16 0)))"
proof -
  note o = kernel_okD [OF assms]
  have pos: "0 < tk_value_bytes K" "0 < tk_index_bytes K" using o(12,13) by auto
  note z = zero_puts_iff [OF pos(1), of "value_loc K c" c cb_values l f K "tile_row_rows K (ta_tile_row (args K c))"]
    zero_puts_iff [OF pos(2), of "index_loc K c" c cb_indices l f K "tile_row_rows K (ta_tile_row (args K c))"]
  have loc: "value_loc K c = (\<lambda>tile j. L1 c cb_values (tile * (1024 * tk_value_bytes K) + 16 * j * tk_value_bytes K))"
    "index_loc K c = (\<lambda>tile j. L1 c cb_indices (tile * (1024 * tk_index_bytes K) + 16 * j * tk_index_bytes K))"
    by (simp_all add: fun_eq_iff value_loc_def index_loc_def o(14,15))
  show ?thesis
    using z loc unfolding zero_part_def Let_def o(14,15) by (simp only: set_append Un_iff set_simps if_distrib) auto
qed

section \<open>Every write has the expected value\<close>

lemma slot_list_single:
  assumes "kernel_ok K" and "tp_segments (tk_plan K) = 1"
  shows "slot_list K tr row 0 = row_best K tr row"
proof -
  note o = kernel_okD [OF assms(1)]
  have "tp_width (tk_plan K) \<le> tp_Wt (tk_plan K) * 32"
    using div_up_mult_ge [of 32 "tp_width (tk_plan K)"] by (simp add: o(9))
  also have "\<dots> \<le> tp_segment_tiles (tk_plan K) * 32" using o(10) assms(2) by simp
  finally have "cut (tp_width (tk_plan K)) (tp_segment_tiles (tk_plan K)) (Suc 0) = tp_width (tk_plan K)"
    by (simp add: cut_def)
  then show ?thesis
    using o(7) by (simp add: slot_list_def row_best_def segment_list_def row_topk_def) (simp add: cut_def)
qed

lemma k_stride_pos: "kernel_ok K \<Longrightarrow> tp_k (tk_plan K) \<le> k_stride K \<and> 0 < k_stride K"
  using list_stride_bounds [of "tp_k (tk_plan K)"] kernel_okD(5,6) [of K] by (simp add: k_stride_def)

lemma expect_send:
  assumes "kernel_ok K" and "s < tp_segments (tk_plan K)"
  shows "topk_expect K (L1 c cb_candidates (list_offset K slot s)) =
    Cands (slot_list K (ta_tile_row (args K c)) (ta_group (args K c) + slot * tp_row_groups (tk_plan K)) s @
      replicate (k_stride K - tp_k (tk_plan K)) (tk_stale K))"
proof -
  have "list_offset K slot s div (k_stride K * candidate_bytes) = slot * tp_segments (tk_plan K) + s"
    using k_stride_pos [OF assms(1)] by (simp add: list_offset_def candidate_bytes_def mult.assoc)
  then show ?thesis
    by (simp only: topk_expect.simps Let_def expect_list_def index_div [OF assms(2)] index_mod [OF assms(2)] kernel_ids)
      simp
qed

lemma merged_eq:
  assumes ok: "kernel_ok K" and sr: "(slot, row) \<in> set (slots_of K c)"
    and m: "\<And>s. s < tp_segments (tk_plan K) \<Longrightarrow>
      m (L1 c cb_candidates (list_offset K slot s)) = Some (topk_expect K (L1 c cb_candidates (list_offset K slot s)))"
  shows "merged K c m slot = row_best K (ta_tile_row (args K c)) row"
proof -
  let ?p = "tk_plan K"
  note o = kernel_okD [OF ok]
  have row: "row = ta_group (args K c) + slot * tp_row_groups ?p" using sr slots_of_iff [OF ok] by blast
  have "tp_width ?p \<le> tp_Wt ?p * 32" using div_up_mult_ge [of 32 "tp_width ?p"] by (simp add: o(9))
  also have "\<dots> \<le> tp_segments ?p * tp_segment_tiles ?p * 32" using o(10) by (rule mult_le_mono1)
  finally have cov: "tp_width ?p \<le> tp_segments ?p * tp_segment_tiles ?p * 32" .
  have "merge_row (tp_k ?p) (tp_segments ?p) (\<lambda>s. cands_of (m (L1 c cb_candidates (list_offset K slot s)))) =
      row_topk (tk_largest K) (row_elem K (ta_tile_row (args K c)) row) (tp_width ?p) (tp_k ?p)"
  proof (rule merge_segments [where st = "tp_segment_tiles ?p"])
    fix s assume s: "s < tp_segments ?p"
    show "tp_k ?p \<le> length (cands_of (m (L1 c cb_candidates (list_offset K slot s)))) \<and>
        take (tp_k ?p) (cands_of (m (L1 c cb_candidates (list_offset K slot s)))) =
        segment_list (tk_largest K) (row_elem K (ta_tile_row (args K c)) row) (tp_k ?p)
          (cut (tp_width ?p) (tp_segment_tiles ?p) s) (cut (tp_width ?p) (tp_segment_tiles ?p) (Suc s))"
      unfolding m [OF s] expect_send [OF ok s] row by (simp add: slot_list_def length_segment_list)
  qed (use o cov in simp_all)
  then show ?thesis by (simp add: merged_def row_best_def)
qed

lemma slots_of_cong:
  "ta_tile_row (args K d) = ta_tile_row (args K c) \<Longrightarrow> ta_group (args K d) = ta_group (args K c) \<Longrightarrow>
   slots_of K d = slots_of K c"
  by (simp add: slots_of_def rows_of_def)

lemma nth_head:
  "merges K c \<Longrightarrow> kernel_main K c ! length (head_part K c) = Wait (c, merge_sem) (tp_segments (tk_plan K) - 1)"
  by (simp add: merges_def kernel_main_shape body_part_def merge_part_shape)

lemma nth_body:
  "is_owner K c \<Longrightarrow> 1 < tp_row_groups (tk_plan K) \<Longrightarrow>
   kernel_main K c ! length (body_part K c) = Wait (c, owner_sem) (tp_row_groups (tk_plan K) - 1)"
  by (simp add: is_owner_def kernel_main_shape owner_part_def)

abbreviation "knows K c i \<equiv> known (all_cores K) (kernel_main K) c i"

lemma known_list:
  assumes ok: "kernel_ok K" and c: "c < all_cores K" and mg: "merges K c" and i: "length (head_part K c) < i"
    and sr: "(slot, row) \<in> set (slots_of K c)" and s: "s < tp_segments (tk_plan K)"
  shows "knows K c i (L1 c cb_candidates (list_offset K slot s))"
proof -
  let ?tr = "ta_tile_row (args K c)" and ?g = "ta_group (args K c)"
  let ?d = "core_at K ?tr s ?g"
  note parts = core_parts [OF ok c]
  note a = core_at_args(1) [OF ok s parts(3), of ?tr]
  have self: "core_at K ?tr 0 ?g = c"
    using core_at_self [OF ok, of c] mg by (simp add: merges_def is_merger_def)
  have d: "ta_tile_row (args K ?d) = ?tr" "ta_group (args K ?d) = ?g" "ta_segment (args K ?d) = s" "ta_merger (args K ?d) = c"
    unfolding a by (simp_all add: self)
  have "(slot, row) \<in> set (slots_of K ?d)" using sr slots_of_cong [OF d(1,2)] by simp
  then obtain f where "Put (L1 c cb_candidates (list_offset K slot s)) f \<in> set (send_puts K ?d)"
    unfolding send_puts_def Let_def d by force
  then have "Put (L1 c cb_candidates (list_offset K slot s)) f \<in> set (zero_part K ?d @ select_part K ?d)"
    using mg by (simp add: select_part_def merges_def)
  note put = settled_head [OF this]
  show ?thesis
  proof (cases "s = 0")
    case True
    then have "?d = c" using self by simp
    then show ?thesis using put [of i] i by (simp add: known_def)
  next
    case False
    have "(?d, length (head_part K ?d)) \<in> incs (all_cores K) (kernel_main K) (c, merge_sem)"
      using incs_merge [OF ok _ parts(3,1)] mg s False by (auto simp: self merges_def)
    then show ?thesis
      using nth_head [OF mg] i put [of "length (head_part K ?d)"] unfolding known_def by blast
  qed
qed

lemma known_chunk:
  assumes ok: "kernel_ok K" and c: "c < all_cores K" and own: "is_owner K c"
    and i: "length (body_part K c) \<le> i" "1 < tp_row_groups (tk_plan K) \<longrightarrow> length (body_part K c) < i"
    and tile: "tile < k_tiles K" and j: "j < 64"
  shows "knows K c i (value_loc K c tile j)" and "knows K c i (index_loc K c tile j)"
proof -
  let ?tr = "ta_tile_row (args K c)" and ?rg = "tp_row_groups (tk_plan K)" and ?row = "chunk_row j"
  note parts = core_parts [OF ok c] and o = kernel_okD [OF ok]
  have both: "knows K c i l" if l: "l = value_loc K c tile j \<or> l = index_loc K c tile j" for l
  proof (cases "?row < tile_row_rows K ?tr")
    case False
    then have "Put l (\<lambda>_. Elems (replicate 16 0)) \<in> set (zero_part K c)"
      unfolding zero_part_iff [OF ok] using own tile j l by (simp only: not_less) blast
    then have "Put l (\<lambda>_. Elems (replicate 16 0)) \<in> set (zero_part K c @ select_part K c)" by simp
    moreover have "length (head_part K c) \<le> i" using i(1) by (simp add: body_part_def)
    ultimately show ?thesis using settled_head unfolding known_def by blast
  next
    case True
    let ?g = "?row mod ?rg" and ?slot = "?row div ?rg"
    have g: "?g < ?rg" using o(3) by simp
    let ?d = "core_at K ?tr 0 ?g"
    have self: "core_at K ?tr 0 0 = c"
      using core_at_self [OF ok, of c] own by (simp add: is_owner_def is_merger_def)
    have d: "ta_tile_row (args K ?d) = ?tr" "ta_group (args K ?d) = ?g" "ta_segment (args K ?d) = 0" "ta_owner (args K ?d) = c"
      unfolding core_at_args(1) [OF ok o(1) g, of ?tr] by (simp_all add: self)
    have sr: "(?slot, ?row) \<in> set (slots_of K ?d)"
      unfolding slots_of_iff [OF ok] d using True by simp
    have put: "\<exists>f. Put l f \<in> set (write_row K c ?row list)" for list
      using tile chunk_bounds(2) [of j] l face_index_chunk [OF j] unfolding write_row_iff by metis
    have settled: "settled (kernel_main K ?d) (length (body_part K ?d)) l"
    proof (cases "1 < tp_segments (tk_plan K)")
      case True
      then have "merges K ?d" using d by (simp add: merges_def is_merger_def)
      moreover obtain f where "Put l f \<in> set (merge_rows K ?d)"
        unfolding merge_rows_def d using sr put [of "\<lambda>m. merged K ?d m ?slot"] by force
      ultimately show ?thesis by (rule settled_merge) simp
    next
      case False
      then have one: "tp_segments (tk_plan K) = 1" using o(1) by simp
      obtain f where "Put l f \<in> set (zero_part K ?d @ select_part K ?d)"
        unfolding select_part_def one d using sr put [of "\<lambda>m. selected K ?d m ?slot"] by force
      then show ?thesis by (rule settled_head) (simp add: body_part_def one)
    qed
    show ?thesis
    proof (cases "?g = 0")
      case True
      then have "?d = c" using self by simp
      then show ?thesis using settled_mono [OF settled] i(1) by (simp add: known_def)
    next
      case False
      then have rg: "1 < ?rg" using g by linarith
      have "(?d, length (body_part K ?d)) \<in> incs (all_cores K) (kernel_main K) (c, owner_sem)"
        using incs_owner [OF ok parts(1)] g False by (auto simp: self)
      then show ?thesis
        using nth_body [OF own rg] i(2) rg settled unfolding known_def by blast
    qed
  qed
  show "knows K c i (value_loc K c tile j)" "knows K c i (index_loc K c tile j)" using both by blast+
qed

lemma page_puts_iff:
  "Put l f \<in> set (page_puts K c) \<longleftrightarrow> (\<exists>tile < k_tiles K.
     (l = Page 0 (ta_tile_row (args K c) * k_tiles K + tile) \<and>
       f = (\<lambda>m. Elems (tile_elems c cb_values (tk_value_bytes K) (tile * tk_value_tile_bytes K) m))) \<or>
     (l = Page 1 (ta_tile_row (args K c) * k_tiles K + tile) \<and>
       f = (\<lambda>m. Elems (tile_elems c cb_indices (tk_index_bytes K) (tile * tk_index_tile_bytes K) m))))"
  unfolding page_puts_def Let_def
  by (simp only: put_in_concat Bex_def set_upt atLeastLessThan_iff le0 simp_thms set_simps insert_iff
      empty_iff instr.inject)

lemma page_value:
  assumes ok: "kernel_ok K" and tile: "tile < k_tiles K"
    and m: "\<And>j. j < 64 \<Longrightarrow> m (value_loc K c tile j) = Some (topk_expect K (value_loc K c tile j))"
      "\<And>j. j < 64 \<Longrightarrow> m (index_loc K c tile j) = Some (topk_expect K (index_loc K c tile j))"
  shows "Elems (tile_elems c cb_values (tk_value_bytes K) (tile * tk_value_tile_bytes K) m) =
      topk_expect K (Page 0 (ta_tile_row (args K c) * k_tiles K + tile))"
    and "Elems (tile_elems c cb_indices (tk_index_bytes K) (tile * tk_index_tile_bytes K) m) =
      topk_expect K (Page 1 (ta_tile_row (args K c) * k_tiles K + tile))"
proof -
  have loc: "L1 c cb_values (tile * tk_value_tile_bytes K + j * (16 * tk_value_bytes K)) = value_loc K c tile j"
    "L1 c cb_indices (tile * tk_index_tile_bytes K + j * (16 * tk_index_bytes K)) = index_loc K c tile j" for j
    by (simp_all add: value_loc_def index_loc_def)
  have "map (\<lambda>j. elems_of (m (value_loc K c tile j))) [0..<64] =
      map (out_chunk K (value_chunk K) (ta_tile_row (args K c)) tile) [0..<64]"
    "map (\<lambda>j. elems_of (m (index_loc K c tile j))) [0..<64] =
      map (out_chunk K (index_chunk K) (ta_tile_row (args K c)) tile) [0..<64]"
    by (rule map_cong [OF refl], simp add: m expect_chunk [OF ok])+
  then show "Elems (tile_elems c cb_values (tk_value_bytes K) (tile * tk_value_tile_bytes K) m) =
      topk_expect K (Page 0 (ta_tile_row (args K c) * k_tiles K + tile))"
    "Elems (tile_elems c cb_indices (tk_index_bytes K) (tile * tk_index_tile_bytes K) m) =
      topk_expect K (Page 1 (ta_tile_row (args K c) * k_tiles K + tile))"
    unfolding tile_elems_def loc topk_expect.simps expect_page_def index_div [OF tile] index_mod [OF tile]
    by (simp_all only: simp_thms if_True if_False one_neq_zero)
qed

lemma topk_put_value:
  assumes ok: "kernel_ok K" and c: "c < all_cores K" and i: "i < length (kernel_main K c)"
    and put: "kernel_main K c ! i = Put l f"
    and m: "\<And>l'. knows K c i l' \<Longrightarrow> m l' = Some (topk_expect K l')"
  shows "f m = topk_expect K l"
proof -
  let ?tr = "ta_tile_row (args K c)"
  note o = kernel_okD [OF ok] and parts = core_parts [OF ok c]
  have ownrow: "ta_tile_row (args K (ta_owner (args K c))) = ?tr"
    unfolding owner_eq(1) [OF ok] core_at_args(1) [OF ok o(1) o(3)] by simp
  have row: "row < tile_row_rows K ?tr" if "(slot, row) \<in> set (slots_of K c)" for slot row
    using that slots_of_iff [OF ok] by blast
  from kernel_puts [OF put i] show ?thesis
  proof (elim disjE conjE)
    assume "Put l f \<in> set (zero_part K c)"
    then show ?thesis unfolding zero_part_iff [OF ok] using expect_chunk [OF ok] by (auto simp: out_chunk_def)
  next
    assume "Put l f \<in> set (read_puts K c)"
    then show ?thesis unfolding read_puts_iff using expect_read [OF ok] by auto
  next
    assume sel: "Put l f \<in> set (select_part K c)" and after: "length (zero_part K c @ read_puts K c) < i"
    have reads: "reads_in K c m"
      unfolding reads_in_def using settled_reads [OF _ after] m by (auto simp: known_def)
    note selected = selected_eq [OF ok c reads]
    show ?thesis
    proof (cases "tp_segments (tk_plan K) = 1")
      case True
      then have "ta_segment (args K c) = 0" using parts(2) by simp
      moreover from sel True obtain slot row where sr: "(slot, row) \<in> set (slots_of K c)"
        and w: "Put l f \<in> set (write_row K (ta_owner (args K c)) row (\<lambda>m. selected K c m slot))"
        by (auto simp: select_part_def)
      ultimately have "selected K c m slot = row_best K ?tr row"
        using selected [OF sr] slot_list_single [OF ok True] by simp
      then show ?thesis using expect_write_row [OF ok _ w, of m] row [OF sr] ownrow by simp
    next
      case False
      with sel obtain slot row where sr: "(slot, row) \<in> set (slots_of K c)"
        and l: "l = L1 (ta_merger (args K c)) cb_candidates (list_offset K slot (ta_segment (args K c)))"
        and f: "f = (\<lambda>m. Cands (selected K c m slot @ replicate (k_stride K - tp_k (tk_plan K)) (tk_stale K)))"
        by (auto simp: select_part_def send_puts_def Let_def)
      have "ta_tile_row (args K (ta_merger (args K c))) = ?tr \<and> ta_group (args K (ta_merger (args K c))) = ta_group (args K c)"
        unfolding owner_eq(2) [OF ok] core_at_args(1) [OF ok o(1) parts(3)] by simp
      moreover have "row = ta_group (args K c) + slot * tp_row_groups (tk_plan K)" using sr slots_of_iff [OF ok] by blast
      ultimately show ?thesis
        unfolding l f expect_send [OF ok parts(2)] using selected [OF sr] by simp
    qed
  next
    assume mg: "merges K c" and "Put l f \<in> set (merge_rows K c)" and after: "length (head_part K c) < i"
    then obtain slot row where sr: "(slot, row) \<in> set (slots_of K c)"
      and w: "Put l f \<in> set (write_row K (ta_owner (args K c)) row (\<lambda>m. merged K c m slot))"
      by (auto simp: merge_rows_def)
    have "merged K c m slot = row_best K ?tr row"
      by (rule merged_eq [OF ok sr]) (rule m, rule known_list [OF ok c mg after sr])
    then show ?thesis using expect_write_row [OF ok _ w, of m] row [OF sr] ownrow by simp
  next
    assume own: "is_owner K c" and "Put l f \<in> set (page_puts K c)"
      and after: "length (body_part K c) \<le> i" "1 < tp_row_groups (tk_plan K) \<longrightarrow> length (body_part K c) < i"
    then obtain tile where tile: "tile < k_tiles K" and
      lf: "(l = Page 0 (?tr * k_tiles K + tile) \<and>
        f = (\<lambda>m. Elems (tile_elems c cb_values (tk_value_bytes K) (tile * tk_value_tile_bytes K) m))) \<or>
      (l = Page 1 (?tr * k_tiles K + tile) \<and>
        f = (\<lambda>m. Elems (tile_elems c cb_indices (tk_index_bytes K) (tile * tk_index_tile_bytes K) m)))"
      unfolding page_puts_iff by blast
    note known_chunk [OF ok c own after tile]
    then show ?thesis using lf page_value [OF ok tile, of m c] m by auto
  qed
qed

interpretation topk: noc_protocol kernel_ok "\<lambda>K. plan_cores (tk_plan K)" kernel_main topk_expect "\<lambda>K c _. topk_rank K c"
  by unfold_locales
    (blast intro: topk_put_value topk_wait_total topk_wait_rank dest: topk_reset_after)+

section \<open>The output pages\<close>

lemma length_out_chunk:
  "(\<And>list tile half. length (chunk list tile half) = 16) \<Longrightarrow> length (out_chunk K chunk tr tile j) = 16"
  by (simp add: out_chunk_def)

lemma page_elem:
  assumes len: "\<And>list tile half. length (chunk list tile half) = 16" and "r < 32" "c < 32"
  shows "concat (map (out_chunk K chunk tr tile) [0..<64]) ! tile_pos r c =
    (if r < tile_row_rows K tr then chunk (row_best K tr r) tile (c div 16) ! (c mod 16) else 0)"
proof -
  have half: "c div 16 < 2" using assms(3) by (simp add: less_mult_imp_div_less)
  have pos: "tile_pos r c = face_index r (c div 16) * 16 + c mod 16"
    by (simp add: tile_pos_face [OF assms(3)] face_row_index)
  have "concat (map (out_chunk K chunk tr tile) [0..<64]) ! tile_pos r c =
      out_chunk K chunk tr tile (tile_pos r c div 16) ! (tile_pos r c mod 16)"
    using face_index_less [OF assms(2) half]
    by (intro nth_concat_blocks length_out_chunk) (simp_all add: len pos)
  also have "\<dots> = out_chunk K chunk tr tile (face_index r (c div 16)) ! (c mod 16)"
    unfolding pos by (simp add: index_div index_mod)
  finally show ?thesis by (simp add: out_chunk_def chunk_index [OF assms(2) half])
qed

text \<open>The value and the index an output element should have.\<close>

definition narrow :: "nat \<Rightarrow> u32 \<Rightarrow> u32" where
  "narrow bytes x = (if bytes = 4 then x else drop_bit 16 x)"

definition best_cands :: "topk_kernel \<Rightarrow> nat \<Rightarrow> nat \<Rightarrow> cand list" where
  "best_cands K tr r = take (tp_k (tk_plan K))
     (sort (row_cands (tk_largest K) (row_elem K tr r) 0 (tp_width (tk_plan K))))"

lemma best_cands_nth:
  assumes "kernel_ok K" "i < tp_k (tk_plan K)"
  shows "row_best K tr r ! i = best_cands K tr r ! i"
    and "ckey (best_cands K tr r ! i) = key_of (tk_largest K) (row_elem K tr r (cindex (best_cands K tr r ! i)))"
proof -
  show *: "row_best K tr r ! i = best_cands K tr r ! i"
    by (simp add: row_best_def best_cands_def row_topk_def topk_def)
  have "i < length (best_cands K tr r)"
    using assms kernel_okD(7) [OF assms(1)] by (simp add: best_cands_def row_cands_def)
  then have "best_cands K tr r ! i \<in> set (row_cands (tk_largest K) (row_elem K tr r) 0 (tp_width (tk_plan K)))"
    using nth_mem in_set_takeD unfolding best_cands_def by (metis set_sort)
  then show "ckey (best_cands K tr r ! i) = key_of (tk_largest K) (row_elem K tr r (cindex (best_cands K tr r ! i)))"
    by (auto simp: row_cands_def)
qed

lemma value_elem:
  assumes ok: "kernel_ok K" and c: "c < 32"
  shows "value_chunk K (row_best K tr r) tile (c div 16) ! (c mod 16) =
    (if tile * 32 + c < tp_k (tk_plan K)
     then narrow (tk_value_bytes K) (row_elem K tr r (cindex (best_cands K tr r ! (tile * 32 + c)))) else 0)"
proof -
  have i: "tile * 32 + c div 16 * 16 + c mod 16 = tile * 32 + c" by (simp add: add.assoc div_mult_mod_eq)
  have small: "take_bit 16 (drop_bit 16 x) = drop_bit 16 x" for x :: u32
    by (rule bit_word_eqI) (auto simp: bit_simps dest: bit_imp_le_length)
  have "value_chunk K (row_best K tr r) tile (c div 16) ! (c mod 16) =
      stored (tk_value_bytes K) (if tile * 32 + c < tp_k (tk_plan K)
       then (if tk_value_bytes K = 4 then bits_of (tk_largest K) (ckey (row_best K tr r ! (tile * 32 + c)))
             else drop_bit 16 (bits_of (tk_largest K) (ckey (row_best K tr r ! (tile * 32 + c))))) else 0)"
    unfolding value_chunk_def by (simp add: Let_def i)
  then show ?thesis
    by (simp add: stored_def best_cands_nth [OF ok] narrow_def small)
qed

lemma index_elem:
  assumes ok: "kernel_ok K" and c: "c < 32"
  shows "index_chunk K (row_best K tr r) tile (c div 16) ! (c mod 16) =
    (if tile * 32 + c < tp_k (tk_plan K)
     then stored (tk_index_bytes K) (of_nat (cindex (best_cands K tr r ! (tile * 32 + c)))) else 0)"
proof -
  have i: "tile * 32 + c div 16 * 16 + c mod 16 = tile * 32 + c" by (simp add: add.assoc div_mult_mod_eq)
  show ?thesis
    unfolding index_chunk_def by (simp add: Let_def i best_cands_nth [OF ok] stored_def)
qed

lemma page_put:
  assumes ok: "kernel_ok K" and tr: "tr < tp_tile_rows (tk_plan K)" and tile: "tile < k_tiles K"
  shows "\<exists>f. Put (Page 0 (tr * k_tiles K + tile)) f \<in> set (kernel_main K (core_at K tr 0 0))"
    and "\<exists>f. Put (Page 1 (tr * k_tiles K + tile)) f \<in> set (kernel_main K (core_at K tr 0 0))"
proof -
  note o = kernel_okD [OF ok]
  note a = core_at_args(1) [OF ok o(1) o(3), of tr]
  have own: "is_owner K (core_at K tr 0 0)" by (simp add: is_owner_def is_merger_def a)
  then have "set (page_puts K (core_at K tr 0 0)) \<subseteq> set (kernel_main K (core_at K tr 0 0))"
    by (auto simp: kernel_main_shape is_owner_def owner_part_def)
  moreover have row: "ta_tile_row (args K (core_at K tr 0 0)) = tr" by (simp add: a)
  have "\<exists>f. Put (Page 0 (tr * k_tiles K + tile)) f \<in> set (page_puts K (core_at K tr 0 0))"
    "\<exists>f. Put (Page 1 (tr * k_tiles K + tile)) f \<in> set (page_puts K (core_at K tr 0 0))"
    unfolding page_puts_iff row using tile by blast+
  ultimately show "\<exists>f. Put (Page 0 (tr * k_tiles K + tile)) f \<in> set (kernel_main K (core_at K tr 0 0))"
    "\<exists>f. Put (Page 1 (tr * k_tiles K + tile)) f \<in> set (kernel_main K (core_at K tr 0 0))"
    by blast+
qed

text \<open>
  C15: Whatever the interleaving of the cores and the order in which their writes land, the
  selection kernel ends: a run has a bounded number of steps, no core waits for ever, and
  where no step is left every page of the output tensors holds, for each logical row, the
  values and the columns of the row's best \<open>k\<close> elements in the order of the comparison, and
  zeros in the padding rows and past \<open>k\<close>.
\<close>

theorem topk_kernel_result:
  assumes ok: "kernel_ok K" and run: "noc_run (plan_cores (tk_plan K)) (kernel_main K) n noc_init w"
    and stuck: "\<nexists>w'. noc_step (plan_cores (tk_plan K)) (kernel_main K) w w'"
    and tr: "tr < tp_tile_rows (tk_plan K)" and tile: "tile < k_tiles K"
  shows "\<exists>vs is. mem w (Page 0 (tr * k_tiles K + tile)) = Some (Elems vs) \<and>
    mem w (Page 1 (tr * k_tiles K + tile)) = Some (Elems is) \<and>
    (\<forall>r < 32. \<forall>c < 32. let i = tile * 32 + c; used = r < tile_row_rows K tr \<and> i < tp_k (tk_plan K) in
      vs ! tile_pos r c = (if used then narrow (tk_value_bytes K) (row_elem K tr r (cindex (best_cands K tr r ! i))) else 0) \<and>
      is ! tile_pos r c = (if used then stored (tk_index_bytes K) (of_nat (cindex (best_cands K tr r ! i))) else 0))"
proof -
  note o = kernel_okD [OF ok]
  have c: "core_at K tr 0 0 < plan_cores (tk_plan K)" by (rule core_at_args(2) [OF ok o(1) o(3) tr])
  have m: "mem w (Page t (tr * k_tiles K + tile)) = Some (topk_expect K (Page t (tr * k_tiles K + tile)))"
    if "t = 0 \<or> t = 1" for t
    using topk.run_result(2) [OF ok run stuck c] page_put [OF ok tr tile] that by blast
  let ?vs = "concat (map (out_chunk K (value_chunk K) tr tile) [0..<64])"
  let ?is = "concat (map (out_chunk K (index_chunk K) tr tile) [0..<64])"
  have "mem w (Page 0 (tr * k_tiles K + tile)) = Some (Elems ?vs)"
    "mem w (Page 1 (tr * k_tiles K + tile)) = Some (Elems ?is)"
    using m unfolding topk_expect.simps expect_page_def index_div [OF tile] index_mod [OF tile] by simp_all
  moreover have "length (value_chunk K list tile half) = 16" "length (index_chunk K list tile half) = 16" for list tile half
    by (simp_all add: value_chunk_def index_chunk_def)
  note page_elem [of "value_chunk K", OF this(1)] page_elem [of "index_chunk K", OF this(2)]
  ultimately show ?thesis
    using value_elem [OF ok] index_elem [OF ok] by (intro exI [of _ ?vs] exI [of _ ?is]) (simp add: Let_def)
qed

definition sample_kernel :: topk_kernel where
  "sample_kernel = \<lparr>tk_plan = \<lparr>tp_tile_rows = 1, tp_Ht = 1, tp_height = 2, tp_width = 40, tp_Wt = 2,
      tp_segments = 2, tp_segment_tiles = 1, tp_row_groups = 2, tp_rows_per_core = 1, tp_k = 3\<rparr>,
    tk_largest = True, tk_value_bytes = 2, tk_index_bytes = 4, tk_value_tile_bytes = 2048,
    tk_index_tile_bytes = 4096, tk_stack = replicate 3 (Cand 9 9), tk_stale = Cand 8 8,
    tk_input = (\<lambda>page. map of_nat [0..<1024])\<rparr>"

lemma sample_kernel_ok: "kernel_ok sample_kernel"
  by (simp add: kernel_ok_def sample_kernel_def plan_ok_def div_up_def plan_rows_def list_stride_def w32_def
      cores_per_tile_row_def plan_cores_def topk_constants no_index_def)

lemma topk_kernel_result_witness:
  "\<exists>n w vs. noc_run (plan_cores (tk_plan sample_kernel)) (kernel_main sample_kernel) n noc_init w \<and>
     mem w (Page 0 0) = Some (Elems vs) \<and> vs ! tile_pos 2 0 = 0"
proof -
  obtain n w where run: "noc_run (plan_cores (tk_plan sample_kernel)) (kernel_main sample_kernel) n noc_init w"
    and stuck: "\<nexists>w'. noc_step (plan_cores (tk_plan sample_kernel)) (kernel_main sample_kernel) w w'"
    using topk.run_exists [of sample_kernel] by blast
  have k: "0 < k_tiles sample_kernel" "0 < tp_tile_rows (tk_plan sample_kernel)" "\<not> 2 < tile_row_rows sample_kernel 0"
    by (simp_all add: sample_kernel_def k_tiles_def div_up32_def w32_def tile_row_rows_def)
  obtain vs where "mem w (Page 0 (0 * k_tiles sample_kernel + 0)) = Some (Elems vs)" "vs ! tile_pos 2 0 = 0"
    using topk_kernel_result [OF sample_kernel_ok run stuck k(2,1)] k(3) by (force simp: Let_def)
  then show ?thesis using run by auto
qed

text \<open>
  C16: No core of the selection kernel is stuck for ever: a reachable state has a next step
  unless every core has finished with nothing in flight, and a run takes at most twice as
  many steps as the programs have instructions.
\<close>

theorem topk_kernel_ends:
  assumes "kernel_ok K" and "noc_run (plan_cores (tk_plan K)) (kernel_main K) n noc_init w"
  shows "n \<le> (\<Sum>c<plan_cores (tk_plan K). 2 * length (kernel_main K c)) \<and>
    (finished (plan_cores (tk_plan K)) (kernel_main K) w \<or>
     (\<exists>w'. noc_step (plan_cores (tk_plan K)) (kernel_main K) w w'))"
  using topk.run_bound [OF assms(2)] topk.progress [OF assms(1) topk.run_inv [OF assms(2,1) noc_inv_init]] by blast

lemma topk_kernel_ends_witness:
  "\<exists>w'. noc_step (plan_cores (tk_plan sample_kernel)) (kernel_main sample_kernel) noc_init w'"
proof -
  have "0 < plan_cores (tk_plan sample_kernel)"
    by (simp add: sample_kernel_def plan_cores_def cores_per_tile_row_def w32_def)
  moreover have "0 < length (kernel_main sample_kernel 0)" by (simp add: kernel_main_def)
  ultimately have "\<not> finished (plan_cores (tk_plan sample_kernel)) (kernel_main sample_kernel) noc_init"
    by (auto simp: finished_def noc_init_def)
  then show ?thesis using topk_kernel_ends [OF sample_kernel_ok noc_run.start] by blast
qed

end
