(* ===== verification/TopkBounds.thy ===== *)
theory TopkBounds
  imports TopkKernelRun
begin

text \<open>
  The circular buffers of TopK's selection path (\<open>create_descriptor\<close> of
  \<open>topk_select_program_factory.cpp\<close>) against what the kernel writes into them: every transfer
  lands inside its buffer and two transfers never overlap.
\<close>

section \<open>Transfers and buffers\<close>

text \<open>The length in bytes of a transfer into a buffer, and the buffer's size.\<close>

definition transfer_bytes :: "topk_kernel \<Rightarrow> nat \<Rightarrow> nat" where
  "transfer_bytes K b =
     (if b = cb_in then read_bytes else if b = cb_candidates then k_stride K * candidate_bytes
      else if b = cb_values then 16 * tk_value_bytes K else 16 * tk_index_bytes K)"

definition buffer_size :: "topk_kernel \<Rightarrow> nat \<Rightarrow> nat" where
  "buffer_size K b =
     (let bs = topk_buffers (tk_plan K) (tk_value_tile_bytes K) (tk_index_tile_bytes K) in
      if b = cb_in then tb_in bs else if b = cb_candidates then tb_candidates bs
      else if b = cb_values then tb_values bs else tb_indices bs)"

definition fits :: "topk_kernel \<Rightarrow> topk_loc \<Rightarrow> bool" where
  "fits K l = (case l of
     L1 c b offset \<Rightarrow> c < plan_cores (tk_plan K) \<and> b \<in> {cb_in, cb_candidates, cb_values, cb_indices} \<and>
       offset mod transfer_bytes K b = 0 \<and> offset + transfer_bytes K b \<le> buffer_size K b
   | Page t n \<Rightarrow> t < 2 \<and> n < tp_tile_rows (tk_plan K) * k_tiles K)"

lemma buffer_bytes_ge: "n \<le> 1048576 \<Longrightarrow> n \<le> buffer_bytes n"
proof -
  assume n: "n \<le> 1048576"
  then have d: "div_up32 n 64 = div_up n 64" by (simp add: div_up32_eq)
  have "div_up n 64 \<le> n" by (rule div_up_le) simp
  then have "w32 (div_up n 64 * 64) = div_up n 64 * 64" using n by (simp add: w32_id)
  then show ?thesis using div_up_mult_ge [of 64 n] by (simp add: buffer_bytes_def d)
qed

lemma k_tiles_eq: "kernel_ok K \<Longrightarrow> k_tiles K = div_up (tp_k (tk_plan K)) 32 \<and> k_tiles K \<le> 2"
  using kernel_okD(6) [of K] div_up_le_iff [of 32 "tp_k (tk_plan K)" 2] by (simp add: k_tiles_def div_up32_eq)

lemma tile_row_rows_plan:
  assumes "kernel_ok K"
  shows "tile_row_rows K t \<le> plan_rows (tk_plan K)"
proof (cases "tp_Ht (tk_plan K) = 1")
  case True
  then have "div_up (tp_height (tk_plan K)) 32 = 1" using assms by (simp add: kernel_ok_def plan_ok_def)
  then show ?thesis using True by (simp add: tile_row_rows_def plan_rows_def Let_def)
qed (use tile_row_rows_le in \<open>simp add: plan_rows_def\<close>)

lemma slot_less:
  assumes ok: "kernel_ok K" and sr: "(slot, row) \<in> set (slots_of K c)"
  shows "slot < tp_rows_per_core (tk_plan K)"
proof -
  have "slot * tp_row_groups (tk_plan K) < tile_row_rows K (ta_tile_row (args K c))"
    using sr slots_of_iff [OF ok] by auto
  also have "\<dots> \<le> plan_rows (tk_plan K)" by (rule tile_row_rows_plan [OF ok])
  also have "\<dots> \<le> tp_rows_per_core (tk_plan K) * tp_row_groups (tk_plan K)"
    using ok by (simp add: kernel_ok_def plan_ok_def mult.commute)
  finally show ?thesis by simp
qed

lemma fits_block:
  assumes "x < n" and "n * len \<le> most" and "most \<le> room"
  shows "x * len + len \<le> (room :: nat)"
proof -
  have "x * len + len = Suc x * len" by simp
  also have "\<dots> \<le> n * len" using assms(1) by (intro mult_le_mono1) simp
  finally show ?thesis using assms(2,3) by simp
qed

lemma fits_read:
  assumes ok: "kernel_ok K" and c: "c < plan_cores (tk_plan K)" and put: "Put l f \<in> set (read_puts K c)"
  shows "fits K l"
proof -
  let ?p = "tk_plan K"
  from put obtain slot row t half where sr: "(slot, row) \<in> set (slots_of K c)" and t: "t < core_width K c"
    and h: "half < 2" and l: "l = L1 c cb_in (in_offset (core_width K c) slot t half)"
    unfolding read_puts_iff by blast
  have w: "core_width K c \<le> tp_segment_tiles ?p" by (auto simp: segment_width_def)
  let ?n = "tp_rows_per_core ?p * tp_segment_tiles ?p * 2"
  have "slot * core_width K c + t < tp_rows_per_core ?p * core_width K c"
    by (rule index_less_product [OF slot_less [OF ok sr] t])
  also have "\<dots> \<le> tp_rows_per_core ?p * tp_segment_tiles ?p" using w by simp
  finally have n: "(slot * core_width K c + t) * 2 + half < ?n" by (rule index_less_product [OF _ h])
  have max: "?n * 64 \<le> 131072" using ok by (simp add: kernel_ok_def plan_ok_def topk_constants)
  then have "buffer_size K cb_in = buffer_bytes (?n * 64)"
    by (simp add: buffer_size_def topk_buffers_def Let_def topk_constants w32_id)
  then have "?n * 64 \<le> buffer_size K cb_in" using max buffer_bytes_ge [of "?n * 64"] by simp
  from fits_block [OF n order_refl this] show ?thesis
    using c by (simp add: fits_def l in_offset_def transfer_bytes_def read_bytes_def)
qed

lemma fits_send:
  assumes ok: "kernel_ok K" and c: "c < plan_cores (tk_plan K)" and many: "tp_segments (tk_plan K) \<noteq> 1"
    and put: "Put l f \<in> set (send_puts K c)"
  shows "fits K l"
proof -
  let ?p = "tk_plan K"
  note parts = core_parts [OF ok c] and o = kernel_okD [OF ok]
  from put obtain slot row where sr: "(slot, row) \<in> set (slots_of K c)"
    and l: "l = L1 (ta_merger (args K c)) cb_candidates (list_offset K slot (ta_segment (args K c)))"
    by (auto simp: send_puts_def Let_def)
  have mg: "ta_merger (args K c) < plan_cores ?p"
    unfolding owner_eq(2) [OF ok] by (rule core_at_args(2) [OF ok o(1) parts(3,1)])
  have n: "slot * tp_segments ?p + ta_segment (args K c) < tp_rows_per_core ?p * tp_segments ?p"
    by (rule index_less_product [OF slot_less [OF ok sr] parts(2)])
  have "1 < tp_segments ?p" using many o(1) by simp
  then have one: "tp_rows_per_core ?p = 1" and max: "tp_segments ?p * list_stride (tp_k ?p) * 8 \<le> 65536"
    using ok by (simp_all add: kernel_ok_def plan_ok_def topk_constants)
  then have "buffer_size K cb_candidates = buffer_bytes (tp_segments ?p * list_stride (tp_k ?p) * 8)"
    using \<open>1 < tp_segments ?p\<close>
    by (simp add: buffer_size_def topk_buffers_def Let_def topk_constants w32_id kernel_ids)
  then have room: "tp_segments ?p * list_stride (tp_k ?p) * 8 \<le> buffer_size K cb_candidates"
    using max buffer_bytes_ge by simp
  have use: "tp_rows_per_core ?p * tp_segments ?p * (k_stride K * 8) \<le> tp_segments ?p * list_stride (tp_k ?p) * 8"
    by (simp add: one k_stride_def)
  from mg fits_block [OF n use room] show ?thesis
    by (simp add: fits_def l list_offset_def transfer_bytes_def candidate_bytes_def kernel_ids mult.assoc)
qed

lemma fits_chunk:
  assumes ok: "kernel_ok K" and c: "c < plan_cores (tk_plan K)" and tile: "tile < k_tiles K" and j: "j < 64"
  shows "fits K (value_loc K c tile j)" and "fits K (index_loc K c tile j)"
proof -
  note o = kernel_okD [OF ok]
  have n: "tile * 64 + j < k_tiles K * 64" by (rule index_less_product [OF tile j])
  have at: "tile * (1024 * b) + 16 * j * b = (tile * 64 + j) * (16 * b)" for b :: nat
    by (simp add: algebra_simps)
  have room: "(tile * 64 + j) * (16 * b) + 16 * b \<le> buffer_bytes (w32 (k_tiles K * (1024 * b)))" if "b = 2 \<or> b = 4" for b
  proof (rule fits_block [OF n])
    have small: "k_tiles K * (1024 * b) \<le> 2 * 4096"
      using that k_tiles_eq [OF ok] by (intro mult_le_mono) auto
    then have "w32 (k_tiles K * (1024 * b)) = k_tiles K * (1024 * b)" by (simp add: w32_id)
    then show "k_tiles K * (1024 * b) \<le> buffer_bytes (w32 (k_tiles K * (1024 * b)))"
      using buffer_bytes_ge small by simp
    show "k_tiles K * 64 * (16 * b) \<le> k_tiles K * (1024 * b)" by simp
  qed
  have kt: "div_up32 (tp_k (tk_plan K)) 32 = k_tiles K" by (simp add: k_tiles_def)
  show "fits K (value_loc K c tile j)"
    using room [OF o(12)] c
    by (simp add: fits_def value_loc_def o(14) at transfer_bytes_def buffer_size_def topk_buffers_def Let_def kt kernel_ids)
  show "fits K (index_loc K c tile j)"
    using room [OF o(13)] c
    by (simp add: fits_def index_loc_def o(15) at transfer_bytes_def buffer_size_def topk_buffers_def Let_def kt kernel_ids)
qed

lemma fits_write_row:
  assumes ok: "kernel_ok K" and c: "c < plan_cores (tk_plan K)" and row: "row < 32"
    and put: "Put l f \<in> set (write_row K c row list)"
  shows "fits K l"
  using put fits_chunk [OF ok c _ face_index_less [OF row]] unfolding write_row_iff by auto

text \<open>
  C19: Every transfer of the selection kernel goes to a core of the plan and lands inside the
  circular buffer the factory sized for it, at a multiple of its own length: none runs past a
  buffer and no two to different places overlap; and every page written is a page of the
  outputs.
\<close>

theorem topk_transfers_fit:
  assumes ok: "kernel_ok K" and c: "c < plan_cores (tk_plan K)" and put: "Put l f \<in> set (kernel_main K c)"
  shows "fits K l"
proof -
  note parts = core_parts [OF ok c] and o = kernel_okD [OF ok]
  have own: "ta_owner (args K c) < plan_cores (tk_plan K)"
    unfolding owner_eq(1) [OF ok] by (rule core_at_args(2) [OF ok o(1) o(3) parts(1)])
  have row: "row < 32" if "(slot, row) \<in> set (slots_of K c)" for slot row
    using that slots_of_iff [OF ok] tile_row_rows_le [of K "ta_tile_row (args K c)"] by auto
  from put obtain i where "kernel_main K c ! i = Put l f" "i < length (kernel_main K c)" by (auto simp: in_set_conv_nth)
  from kernel_puts [OF this] consider "Put l f \<in> set (zero_part K c)" | "Put l f \<in> set (read_puts K c)"
    | "Put l f \<in> set (select_part K c)" | "Put l f \<in> set (merge_rows K c)" | "Put l f \<in> set (page_puts K c)" by blast
  then show ?thesis
  proof cases
    case 1
    then show ?thesis unfolding zero_part_iff [OF ok] using fits_chunk [OF ok c] by auto
  next
    case 3
    then show ?thesis
      using fits_send [OF ok c] by (auto simp: select_part_def split: if_splits intro: fits_write_row [OF ok own row])
  next
    case 4
    then show ?thesis by (auto simp: merge_rows_def intro: fits_write_row [OF ok own row])
  next
    case 5
    then obtain tile where "tile < k_tiles K" "l = Page 0 (ta_tile_row (args K c) * k_tiles K + tile) \<or>
        l = Page 1 (ta_tile_row (args K c) * k_tiles K + tile)"
      unfolding page_puts_iff by blast
    then show ?thesis using index_less_product [OF parts(1)] by (auto simp: fits_def)
  qed (rule fits_read [OF ok c])
qed

lemma topk_transfers_fit_witness: "fits sample_kernel (L1 3 cb_in 0)"
proof -
  have "Put (L1 3 cb_in 0) (\<lambda>_. read_data sample_kernel 3 1 0 0) \<in> set (read_puts sample_kernel 3)"
    unfolding read_puts_iff
    by (intro exI [of _ 0] exI [of _ 1] exI [of _ 0] exI [of _ 0])
      (simp add: slots_of_iff [OF sample_kernel_ok] in_offset_def,
       simp add: sample_kernel_def core_args_def cores_per_tile_row_def w32_def tile_row_rows_def segment_width_def
         first_tile_def)
  then have "Put (L1 3 cb_in 0) (\<lambda>_. read_data sample_kernel 3 1 0 0) \<in> set (kernel_main sample_kernel 3)"
    by (simp add: kernel_main_def)
  then show ?thesis
    by (rule topk_transfers_fit [OF sample_kernel_ok, rotated])
      (simp add: sample_kernel_def plan_cores_def cores_per_tile_row_def w32_def)
qed

section \<open>The factory's programs\<close>

lemma plan_ok_self: "plan_ok p cores \<Longrightarrow> plan_ok p (plan_cores p)"
  unfolding plan_ok_def by blast

text \<open>
  C18: For every call the plan takes, on a padded tensor whose pages hold a tile each, the
  factory compiles programs that keep the kernel's contract: started on the cores of the
  plan they end, whatever the interleaving, with the pages of \<open>topk_kernel_result\<close>.
\<close>

theorem factory_programs_ok:
  assumes t: "plan_input t cores"
    and d: "create_descriptor tile_size t k largest index_bytes custom pre sharded_out cores pages stack stale = Some K"
    and idx: "index_bytes = 2 \<or> index_bytes = 4" and tile: "tile_size 2 = 2048" "tile_size 4 = 4096"
    and pages: "\<And>i. length (pages i) = 1024" and stack: "length stack = k"
  shows "kernel_ok K \<and> plan_cores (tk_plan K) \<le> cores \<and> tp_k (tk_plan K) = k \<and>
    tp_width (tk_plan K) = logical_shape t ! 3 \<and>
    (\<forall>n w. noc_run (plan_cores (tk_plan K)) (kernel_main K) n noc_init w \<longrightarrow>
       finished (plan_cores (tk_plan K)) (kernel_main K) w \<or>
       (\<exists>w'. noc_step (plan_cores (tk_plan K)) (kernel_main K) w w'))"
proof -
  from d obtain p where p: "topk_select_plan t k custom pre sharded_out cores = Some p"
    and K: "K = \<lparr>tk_plan = p, tk_largest = largest, tk_value_bytes = (if float32 t then 4 else 2),
      tk_index_bytes = index_bytes, tk_value_tile_bytes = tile_size (if float32 t then 4 else 2),
      tk_index_tile_bytes = tile_size index_bytes, tk_stack = stack, tk_stale = stale, tk_input = pages\<rparr>"
    by (auto simp: create_descriptor_def Let_def split: option.splits)
  note s = plan_some [OF t p]
  have e: "tp_k p = k" "tp_width p = logical_shape t ! 3"
    unfolding s(3) by (simp_all add: ideal_plan_def Let_def)
  have w: "logical_shape t ! 3 \<le> no_index" using t by (simp add: plan_input_def no_index_def)
  have ok: "kernel_ok K"
    using plan_ok_self [OF s(1)] idx tile pages stack e w by (auto simp: kernel_ok_def K)
  moreover have "plan_cores p \<le> cores" using s(1) by (simp add: plan_ok_def)
  moreover have "tk_plan K = p" by (simp add: K)
  moreover have "finished (plan_cores (tk_plan K)) (kernel_main K) w \<or>
      (\<exists>w'. noc_step (plan_cores (tk_plan K)) (kernel_main K) w w')"
    if "noc_run (plan_cores (tk_plan K)) (kernel_main K) n noc_init w" for n w
    using topk.progress [OF ok topk.run_inv [OF that ok noc_inv_init]] by blast
  ultimately show ?thesis using e by simp
qed

lemma factory_programs_ok_witness:
  "\<exists>K. create_descriptor (\<lambda>b. 1024 * b) sample_tensor 40 True 4 False False False 110
      (\<lambda>_. replicate 1024 0) (replicate 40 (Cand 0 0)) (Cand 0 0) = Some K \<and> kernel_ok K"
proof -
  obtain K where K: "create_descriptor (\<lambda>b. 1024 * b) sample_tensor 40 True 4 False False False 110
      (\<lambda>_. replicate 1024 0) (replicate 40 (Cand 0 0)) (Cand 0 0) = Some K"
    by (simp add: create_descriptor_def sample_plan_eq Let_def)
  have "kernel_ok K" using factory_programs_ok [OF sample_input K] by simp
  then show ?thesis using K by blast
qed

end
