(* ===== verification/RngBits.thy ===== *)
theory RngBits
  imports Prelude
begin

text \<open>
  The random words of \<open>ttnn/cpp/ttnn/operations/experimental/rng_bits\<close>:
  \<open>kernels/compute/rng_bits.cpp\<close>, the Threefry-2x32-20 and Philox-4x32-10 generators on the
  vector unit, with the lanes of a tile and the in-place rounds of Philox over four tiles,
  proved equal to the generators' definitions word by word. A tile of DST is a function of
  the face, the vector of the face and the lane. The 23-bit multiplier of the vector unit is
  a parameter (\<open>mul24\<close>), used through what its documentation states of it.
\<close>

section \<open>Threefry\<close>

definition rotate_left :: "nat \<Rightarrow> u32 \<Rightarrow> u32" where
  "rotate_left r x = push_bit r x OR drop_bit (32 - r) x"

definition threefry_rounds :: "nat \<Rightarrow> nat \<Rightarrow> nat \<Rightarrow> nat \<Rightarrow> u32 \<times> u32 \<Rightarrow> u32 \<times> u32" where
  "threefry_rounds r0 r1 r2 r3 x =
     (let (x0, x1) = x;
          x0 = x0 + x1; x1 = rotate_left r0 x1 XOR x0;
          x0 = x0 + x1; x1 = rotate_left r1 x1 XOR x0;
          x0 = x0 + x1; x1 = rotate_left r2 x1 XOR x0;
          x0 = x0 + x1; x1 = rotate_left r3 x1 XOR x0
      in (x0, x1))"

definition threefry :: "u32 \<times> u32 \<Rightarrow> u32 \<Rightarrow> u32 \<Rightarrow> u32 \<Rightarrow> u32 \<times> u32" where
  "threefry x ks0 ks1 ks2 =
     (let (x0, x1) = threefry_rounds 13 15 26 6 x; x0 = x0 + ks1; x1 = x1 + (ks2 + 1);
          (x0, x1) = threefry_rounds 17 29 16 24 (x0, x1); x0 = x0 + ks2; x1 = x1 + (ks0 + 2);
          (x0, x1) = threefry_rounds 13 15 26 6 (x0, x1); x0 = x0 + ks0; x1 = x1 + (ks1 + 3);
          (x0, x1) = threefry_rounds 17 29 16 24 (x0, x1); x0 = x0 + ks1; x1 = x1 + (ks2 + 4);
          (x0, x1) = threefry_rounds 13 15 26 6 (x0, x1); x0 = x0 + ks2; x1 = x1 + (ks0 + 5)
      in (x0, x1))"

definition skein_parity :: u32 where "skein_parity = 0x1BD11BDA"

section \<open>The lanes of a tile\<close>

text \<open>A DST tile: face, vector of the face (\<open>d\<close>), lane.\<close>

type_synonym vec_pos = "nat \<times> nat \<times> nat"
type_synonym dst_tile = "vec_pos \<Rightarrow> u32"

text \<open>
  Where an element of a tile lives: lane \<open>l\<close> of the load at offset \<open>2 * d\<close> of a face has
  face row \<open>4 * (d / 2) + l / 8\<close> and column \<open>2 * (l % 8) + d % 2\<close>.
\<close>

definition vec_row :: "vec_pos \<Rightarrow> nat" where
  "vec_row p = (case p of (face, d, l) \<Rightarrow> 16 * (face div 2) + 4 * (d div 2) + l div 8)"

definition vec_col :: "vec_pos \<Rightarrow> nat" where
  "vec_col p = (case p of (face, d, l) \<Rightarrow> 16 * (face mod 2) + 2 * (l mod 8) + d mod 2)"

text \<open>\<open>lane_offsets\<close>: the tile-id register holds \<open>2 * l\<close> in lane \<open>l\<close>.\<close>

definition lane_offsets :: "u32 \<Rightarrow> nat \<Rightarrow> u32" where
  "lane_offsets W l =
     (let tile_id = of_nat (2 * l) :: u32;
          offset = tile_id AND 14;
          row = drop_bit 4 tile_id;
          offset = (if row AND 1 \<noteq> 0 then offset + W else offset)
      in if row AND 2 \<noteq> 0 then offset + push_bit 1 W else offset)"

definition vector_index :: "u32 \<Rightarrow> u32 \<Rightarrow> nat \<Rightarrow> u32" where
  "vector_index face_index W d = face_index + of_nat (4 * (d div 2)) * W + of_nat (d mod 2)"

text \<open>The elements a vector loop visits, in its order.\<close>

definition vec_positions :: "vec_pos list" where
  "vec_positions = concat (map (\<lambda>face. concat (map (\<lambda>d. map (\<lambda>l. (face, d, l)) [0..<32]) [0..<8])) [0..<4])"

definition row_guard :: "nat \<Rightarrow> vec_pos \<Rightarrow> bool" where
  "row_guard rows_valid p = (case p of (face, d, l) \<Rightarrow> 16 * (face div 2) + 4 * (d div 2) < rows_valid)"

text \<open>A loop over the vectors of a tile that stores \<open>f p\<close> where the guard holds.\<close>

definition store_vectors :: "(vec_pos \<Rightarrow> bool) \<Rightarrow> (vec_pos \<Rightarrow> u32) \<Rightarrow> dst_tile \<Rightarrow> dst_tile" where
  "store_vectors guard f t = fold (\<lambda>p t. if guard p then t(p := f p) else t) vec_positions t"

definition threefry_tile ::
  "u32 \<Rightarrow> u32 \<Rightarrow> nat \<Rightarrow> u32 \<Rightarrow> u32 \<Rightarrow> u32 \<Rightarrow> u32 \<Rightarrow> dst_tile \<Rightarrow> dst_tile" where
  "threefry_tile base W rows_valid ks0 ks1 ks2 w1 =
     store_vectors (row_guard rows_valid) (\<lambda>(face, d, l).
       let face_row = 16 * (face div 2);
           face_index = base + of_nat face_row * W + of_nat (16 * (face mod 2));
           x0 = lane_offsets W l + (vector_index face_index W d + ks0);
           x1 = w1 + ks1
       in fst (threefry (x0, x1) ks0 ks1 ks2))"

definition index_tile :: "u32 \<Rightarrow> u32 \<Rightarrow> dst_tile \<Rightarrow> dst_tile" where
  "index_tile base W =
     store_vectors (\<lambda>_. True) (\<lambda>(face, d, l).
       let face_index = base + of_nat (16 * (face div 2)) * W + of_nat (16 * (face mod 2))
       in lane_offsets W l + vector_index face_index W d)"

section \<open>Philox\<close>

text \<open>\<open>mul24 high x y\<close>: the high or the low 23 bits of the product of the low 23 bits.\<close>

type_synonym mul24 = "bool \<Rightarrow> u32 \<Rightarrow> u32 \<Rightarrow> u32"

definition mulhilo :: "mul24 \<Rightarrow> u32 \<Rightarrow> u32 \<Rightarrow> u32 \<times> u32" where
  "mulhilo mul24 multiplier x =
     (let y = multiplier;
          xh = drop_bit 23 x;
          yh = drop_bit 23 multiplier;
          middle = mul24 True x y;
          middle = middle + mul24 False xh y;
          middle = middle + mul24 False x yh;
          hi = mul24 False xh yh;
          hi = hi + mul24 True xh y;
          hi = hi + mul24 True x yh;
          hi = push_bit 14 hi + drop_bit 9 middle;
          lo = mul24 False x y + push_bit 23 middle
      in (hi, lo))"

text \<open>The four tiles of DST that hold the counter words.\<close>

type_synonym dst = "nat \<Rightarrow> dst_tile"

definition philox_half_round ::
  "mul24 \<Rightarrow> u32 \<Rightarrow> bool \<Rightarrow> nat \<Rightarrow> nat \<Rightarrow> u32 \<Rightarrow> nat \<Rightarrow> dst \<Rightarrow> dst" where
  "philox_half_round mul24 multiplier last_round word other key rows_valid dst =
     fold (\<lambda>p dst. if row_guard rows_valid p then
         let (hi, lo) = mulhilo mul24 multiplier (dst word p);
             dst = (if last_round then dst else dst(word := (dst word)(p := lo)));
             hi = hi XOR dst other p;
             hi = hi XOR key
         in dst(other := (dst other)(p := hi))
       else dst) vec_positions dst"

definition philox_m0 :: u32 where "philox_m0 = 0xD2511F53"
definition philox_m1 :: u32 where "philox_m1 = 0xCD9E8D57"
definition philox_w0 :: u32 where "philox_w0 = 0x9E3779B9"
definition philox_w1 :: u32 where "philox_w1 = 0xBB67AE85"

text \<open>One round: two half rounds in place, then the four words are renamed.\<close>

type_synonym philox_state = "dst \<times> (nat \<times> nat \<times> nat \<times> nat) \<times> u32 \<times> u32"

definition philox_round :: "mul24 \<Rightarrow> nat \<Rightarrow> philox_state \<Rightarrow> philox_state" where
  "philox_round mul24 rows_valid s =
     (case s of (dst, (x0, x1, x2, x3), k0, k1) \<Rightarrow>
        let dst = philox_half_round mul24 philox_m0 False x0 x3 k1 rows_valid dst;
            dst = philox_half_round mul24 philox_m1 False x2 x1 k0 rows_valid dst
        in (dst, (x1, x2, x3, x0), k0 + philox_w0, k1 + philox_w1))"

definition philox_tile :: "mul24 \<Rightarrow> u32 \<Rightarrow> u32 \<Rightarrow> nat \<Rightarrow> u32 \<Rightarrow> u32 \<Rightarrow> u32 \<Rightarrow> u32 \<Rightarrow> dst \<Rightarrow> dst_tile" where
  "philox_tile mul24 base W rows_valid w0 w1 key_high counter_high dst =
     (let dst = dst(0 := index_tile base W (dst 0), 1 := (\<lambda>_. w1), 2 := (\<lambda>_. 0), 3 := (\<lambda>_. counter_high));
          (dst, (x0, x1, x2, x3), k0, k1) =
            (philox_round mul24 rows_valid ^^ 9) (dst, (0, 1, 2, 3), w0, key_high);
          dst = philox_half_round mul24 philox_m1 True x2 x1 k0 rows_valid dst
      in dst x1)"

section \<open>The compute kernel\<close>

text \<open>The state's words in L1: low/high pairs in rows 0 and 1 of a 16-wide face.\<close>

definition state_words :: "u32 list \<Rightarrow> u32 \<times> u32 \<times> u32 \<times> u32" where
  "state_words words = (words ! 0, words ! 16, words ! 1, words ! 17)"

definition stream_key :: "u32 list \<Rightarrow> u32 \<times> u32" where
  "stream_key words =
     (let (w0, w1, key_high, counter_high) = state_words words in
      threefry (counter_high + w0, skein_parity + key_high) w0 key_high (w0 XOR key_high XOR skein_parity))"

text \<open>The base index and the valid rows of a tile of the output.\<close>

definition tile_base :: "nat \<Rightarrow> nat \<Rightarrow> nat \<Rightarrow> nat \<Rightarrow> nat \<Rightarrow> nat" where
  "tile_base W H Wt Ht tile =
     (let tc = tile mod Wt; tr = (tile div Wt) mod Ht; b = tile div (Wt * Ht)
      in w32 (w32 (w32 (b * H) + tr * 32) * W + tc * 32))"

definition tile_rows_valid :: "nat \<Rightarrow> nat \<Rightarrow> nat \<Rightarrow> nat \<Rightarrow> nat" where
  "tile_rows_valid H Wt Ht tile =
     (let tr = (tile div Wt) mod Ht in if H - tr * 32 < 32 then H - tr * 32 else 32)"

text \<open>The tile packed for one output tile; \<open>dst\<close> is what DST held before.\<close>

definition compute_tile :: "mul24 \<Rightarrow> bool \<Rightarrow> u32 list \<Rightarrow> nat \<Rightarrow> nat \<Rightarrow> nat \<Rightarrow> nat \<Rightarrow> dst \<Rightarrow> nat \<Rightarrow> dst_tile" where
  "compute_tile mul24 philox words W H Wt Ht dst tile =
     (let (w0, w1, key_high, counter_high) = state_words words;
          base = of_nat (tile_base W H Wt Ht tile);
          rows_valid = tile_rows_valid H Wt Ht tile
      in if \<not> philox then
           let (ks0, ks1) = stream_key words in
           threefry_tile base (of_nat W) rows_valid ks0 ks1 (ks0 XOR ks1 XOR skein_parity) w1 (dst 0)
         else philox_tile mul24 base (of_nat W) rows_valid w0 w1 key_high counter_high dst)"

definition compute_main ::
  "mul24 \<Rightarrow> bool \<Rightarrow> u32 list \<Rightarrow> nat \<Rightarrow> nat \<Rightarrow> nat \<Rightarrow> nat \<Rightarrow> (nat \<Rightarrow> dst) \<Rightarrow> nat \<Rightarrow> nat \<Rightarrow> dst_tile list" where
  "compute_main mul24 philox words W H Wt Ht dst first_tile num_tiles =
     map (\<lambda>tile. compute_tile mul24 philox words W H Wt Ht (dst tile) tile) [first_tile..<first_tile + num_tiles]"

end
