(* ===== verification/RngWords.thy ===== *)
theory RngWords
  imports RngBits
begin

text \<open>
  The generators of \<open>RngBits\<close> against their definitions: Threefry-2x32-20 as twenty rounds
  with a key injection after every fourth, Philox-4x32-10 as ten rounds over full 64-bit
  products; the multiplier from partial products; and the place of every element of a tile.
\<close>

section \<open>The reference generators\<close>

definition threefry_rotation :: "nat \<Rightarrow> nat" where
  "threefry_rotation i = [13, 15, 26, 6, 17, 29, 16, 24] ! (i mod 8)"

definition threefry_ref_round :: "u32 list \<Rightarrow> nat \<Rightarrow> u32 \<times> u32 \<Rightarrow> u32 \<times> u32" where
  "threefry_ref_round ks i x =
     (let x0 = fst x + snd x; x1 = word_rotl (threefry_rotation i) (snd x) XOR x0 in
      if i mod 4 = 3
      then (x0 + ks ! ((i div 4 + 1) mod 3), x1 + ks ! ((i div 4 + 2) mod 3) + of_nat (i div 4 + 1))
      else (x0, x1))"

definition threefry_ref :: "u32 \<times> u32 \<Rightarrow> u32 \<times> u32 \<Rightarrow> u32 \<times> u32" where
  "threefry_ref key counter =
     (let (k0, k1) = key; (c0, c1) = counter; ks = [k0, k1, k0 XOR k1 XOR skein_parity]
      in fold (threefry_ref_round ks) [0..<20] (c0 + k0, c1 + k1))"

definition mul_high :: "u32 \<Rightarrow> u32 \<Rightarrow> u32" where
  "mul_high x y = of_nat (unat x * unat y div 2 ^ 32)"

definition philox_ref_round :: "(u32 \<times> u32) \<times> (u32 \<times> u32 \<times> u32 \<times> u32) \<Rightarrow> (u32 \<times> u32) \<times> (u32 \<times> u32 \<times> u32 \<times> u32)" where
  "philox_ref_round s =
     (case s of ((k0, k1), (c0, c1, c2, c3)) \<Rightarrow>
       ((k0 + philox_w0, k1 + philox_w1),
        (mul_high philox_m1 c2 XOR c1 XOR k0, philox_m1 * c2, mul_high philox_m0 c0 XOR c3 XOR k1, philox_m0 * c0)))"

definition philox_ref :: "u32 \<times> u32 \<Rightarrow> u32 \<times> u32 \<times> u32 \<times> u32 \<Rightarrow> u32 \<times> u32 \<times> u32 \<times> u32" where
  "philox_ref key counter = snd ((philox_ref_round ^^ 10) (key, counter))"

section \<open>Threefry\<close>

lemma rotate_left_rotl: "0 < r \<Longrightarrow> r < 32 \<Longrightarrow> rotate_left r x = word_rotl r x"
proof (rule bit_word_eqI)
  fix n assume r: "0 < r" "r < 32" and n: "n < LENGTH(32)"
  then show "bit (rotate_left r x) n = bit (word_rotl r x) n"
    by (auto simp: rotate_left_def bit_simps bit_word_rotl_iff mod_if add.commute [of n 32] dest: bit_imp_le_length)
qed

lemma threefry_group:
  assumes "\<And>x y. f0 (x, y) = (x + y, word_rotl r0 y XOR (x + y))" "\<And>x y. f1 (x, y) = (x + y, word_rotl r1 y XOR (x + y))"
    "\<And>x y. f2 (x, y) = (x + y, word_rotl r2 y XOR (x + y))"
    "\<And>x y. f3 (x, y) = (x + y + a, (word_rotl r3 y XOR (x + y)) + (b + c))"
    and "0 < r0" "r0 < 32" "0 < r1" "r1 < 32" "0 < r2" "r2 < 32" "0 < r3" "r3 < 32"
  shows "f3 (f2 (f1 (f0 x))) = (let (x0, x1) = threefry_rounds r0 r1 r2 r3 x in (x0 + a, x1 + (b + c)))"
  using assms by (cases x) (simp add: threefry_rounds_def rotate_left_rotl Let_def)

lemma threefry_groups:
  fixes k0 k1 k2 :: u32
  defines "f \<equiv> threefry_ref_round [k0, k1, k2]"
  shows "f 3 (f 2 (f 1 (f 0 x))) = (let (x0, x1) = threefry_rounds 13 15 26 6 x in (x0 + k1, x1 + (k2 + 1)))"
    and "f 7 (f 6 (f 5 (f 4 x))) = (let (x0, x1) = threefry_rounds 17 29 16 24 x in (x0 + k2, x1 + (k0 + 2)))"
    and "f 11 (f 10 (f 9 (f 8 x))) = (let (x0, x1) = threefry_rounds 13 15 26 6 x in (x0 + k0, x1 + (k1 + 3)))"
    and "f 15 (f 14 (f 13 (f 12 x))) = (let (x0, x1) = threefry_rounds 17 29 16 24 x in (x0 + k1, x1 + (k2 + 4)))"
    and "f 19 (f 18 (f 17 (f 16 x))) = (let (x0, x1) = threefry_rounds 13 15 26 6 x in (x0 + k2, x1 + (k0 + 5)))"
  by (rule threefry_group; simp add: f_def threefry_ref_round_def threefry_rotation_def Let_def)+

lemma rounds_20: "[0..<20] = [0, 1, 2, 3, 4, 5, 6, 7, 8, 9, 10, 11, 12, 13, 14, 15, 16, 17, 18, 19]"
  by (simp add: upt_rec)

lemma threefry_eq:
  "threefry (c0 + k0, c1 + k1) k0 k1 (k0 XOR k1 XOR skein_parity) = threefry_ref (k0, k1) (c0, c1)"
  unfolding threefry_ref_def Let_def prod.case rounds_20 fold_simps threefry_groups threefry_def
  by (simp only: case_prod_beta' fst_conv snd_conv prod.collapse)

section \<open>Places in a tile\<close>

definition vec_at :: "nat \<Rightarrow> nat \<Rightarrow> vec_pos" where
  "vec_at r c = (2 * (r div 16) + c div 16, 2 * (r mod 16 div 4) + c mod 2, 8 * (r mod 4) + c mod 16 div 2)"

lemma vec_at_bounds:
  assumes "r < 32" "c < 32"
  shows "vec_at r c \<in> {..<4} \<times> {..<8} \<times> {..<32}"
proof -
  have "r div 16 < 2" "c div 16 < 2" "r mod 16 div 4 < 4" "c mod 16 div 2 < 8" "r mod 4 < 4" "c mod 2 < 2"
    using assms by (simp_all add: less_mult_imp_div_less)
  then show ?thesis
    using index_less_product [of "r div 16" 2 "c div 16" 2] index_less_product [of "r mod 16 div 4" 4 "c mod 2" 2]
      index_less_product [of "r mod 4" 4 "c mod 16 div 2" 8]
    by (simp add: vec_at_def mult.commute)
qed

lemma vec_row_at: "r < 32 \<Longrightarrow> c < 32 \<Longrightarrow> vec_row (vec_at r c) = r"
proof -
  assume "r < 32" "c < 32"
  then have "c div 16 < 2" "c mod 16 div 2 < 8" by (simp_all add: less_mult_imp_div_less)
  moreover have "16 * (r div 16) + 4 * (r mod 16 div 4) + r mod 4 = r"
  proof -
    have "r mod 16 mod 4 = r mod 4" by (simp add: mod_mod_cancel)
    then have "4 * (r mod 16 div 4) + r mod 4 = r mod 16" by (metis mult_div_mod_eq)
    then show ?thesis by (simp add: mult_div_mod_eq add.assoc)
  qed
  ultimately show ?thesis by (simp add: vec_row_def vec_at_def)
qed

lemma vec_col_at: "r < 32 \<Longrightarrow> c < 32 \<Longrightarrow> vec_col (vec_at r c) = c"
proof -
  assume "r < 32" "c < 32"
  then have "c div 16 < 2" "c mod 16 div 2 < 8" by (simp_all add: less_mult_imp_div_less)
  moreover have "16 * (c div 16) + 2 * (c mod 16 div 2) + c mod 2 = c"
  proof -
    have "c mod 16 mod 2 = c mod 2" by (simp add: mod_mod_cancel)
    then have "2 * (c mod 16 div 2) + c mod 2 = c mod 16" by (metis mult_div_mod_eq)
    then show ?thesis by (simp add: mult_div_mod_eq add.assoc)
  qed
  ultimately show ?thesis by (simp add: vec_col_def vec_at_def)
qed

lemma vec_positions_set: "set vec_positions = {..<4} \<times> {..<8} \<times> {..<32}"
  by (fastforce simp: vec_positions_def image_iff)

lemma vec_positions_distinct: "distinct vec_positions"
proof -
  have "distinct (concat (map (\<lambda>d. map (\<lambda>l. (f :: nat, d, l)) [0..<32]) [0..<n]))" for f n
    by (induction n) (auto simp: distinct_map inj_on_def)
  then have "distinct (concat (map (\<lambda>face. concat (map (\<lambda>d. map (\<lambda>l. (face, d, l)) [0..<32]) [0..<8])) [0..<m]))" for m
    by (induction m) auto
  then show ?thesis unfolding vec_positions_def .
qed

lemma row_guard_row: "vec_row p < n \<Longrightarrow> row_guard n p"
  by (auto simp: vec_row_def row_guard_def)

lemma lane_offset_cases:
  "l < 32 \<Longrightarrow> (of_nat (2 * l) :: u32) AND 14 = of_nat (2 * (l mod 8)) \<and>
    (drop_bit 4 (of_nat (2 * l)) AND 1 \<noteq> (0 :: u32)) = (l div 8 \<in> {1, 3}) \<and>
    (drop_bit 4 (of_nat (2 * l)) AND 2 \<noteq> (0 :: u32)) = (l div 8 \<in> {2, 3})"
proof -
  assume "l < 32"
  then have "l \<in> {0, 1, 2, 3, 4, 5, 6, 7, 8, 9, 10, 11, 12, 13, 14, 15, 16, 17, 18, 19, 20, 21, 22, 23, 24, 25, 26,
      27, 28, 29, 30, 31}" by (auto simp: numeral_eq_Suc less_Suc_eq)
  then show ?thesis by (elim insertE emptyE) simp_all
qed

lemma lane_offsets_eq:
  assumes "l < 32"
  shows "lane_offsets W l = of_nat (l div 8) * W + of_nat (2 * (l mod 8))"
proof -
  note c = lane_offset_cases [OF assms]
  have "l div 8 < 4" using assms by (simp add: less_mult_imp_div_less)
  then consider "l div 8 = 0" | "l div 8 = 1" | "l div 8 = 2" | "l div 8 = 3" by linarith
  then show ?thesis
    using c by cases (simp_all add: lane_offsets_def Let_def push_bit_eq_mult algebra_simps)
qed

text \<open>The index of an element of the tile: row-major from the tile's first element.\<close>

definition elem_index :: "u32 \<Rightarrow> u32 \<Rightarrow> vec_pos \<Rightarrow> u32" where
  "elem_index base W p = base + of_nat (vec_row p) * W + of_nat (vec_col p)"

lemma lane_index:
  assumes "l < 32"
  shows "lane_offsets W l + (vector_index (base + of_nat (16 * (face div 2)) * W + of_nat (16 * (face mod 2))) W d) =
    elem_index base W (face, d, l)"
  unfolding lane_offsets_eq [OF assms] vector_index_def elem_index_def vec_row_def vec_col_def prod.case
  by (simp add: algebra_simps)

lemma store_vectors_at:
  "store_vectors guard f t p = (if p \<in> set vec_positions \<and> guard p then f p else t p)"
proof -
  have "fold (\<lambda>p t. if guard p then t(p := f p) else t) xs t p =
      (if p \<in> set xs \<and> guard p then f p else t p)" for xs t
    by (induction xs arbitrary: t) auto
  then show ?thesis unfolding store_vectors_def .
qed

lemma threefry_tile_at:
  assumes "p \<in> set vec_positions" "row_guard rows_valid p"
  shows "threefry_tile base W rows_valid ks0 ks1 (ks0 XOR ks1 XOR skein_parity) w1 t p =
    fst (threefry_ref (ks0, ks1) (elem_index base W p, w1))"
proof -
  obtain face d l where p: "p = (face, d, l)" by (cases p)
  then have l: "l < 32" using assms(1) by (simp add: vec_positions_set)
  have "lane_offsets W l + (vector_index (base + of_nat (16 * (face div 2)) * W + of_nat (16 * (face mod 2))) W d + ks0) =
      elem_index base W p + ks0"
    using lane_index [OF l, of W base face d] by (simp only: p add.assoc [symmetric])
  note index = this [unfolded p]
  show ?thesis
    unfolding threefry_tile_def store_vectors_at if_P [OF conjI [OF assms]]
    unfolding p prod.case Let_def index threefry_eq ..
qed

lemma index_tile_at:
  assumes "p \<in> set vec_positions"
  shows "index_tile base W t p = elem_index base W p"
proof -
  obtain face d l where p: "p = (face, d, l)" by (cases p)
  then have l: "l < 32" using assms by (simp add: vec_positions_set)
  show ?thesis
    unfolding index_tile_def store_vectors_at using assms lane_index [OF l, of W base face d]
    by (simp add: p Let_def)
qed

section \<open>The multiplier\<close>

definition mul24_ok :: "mul24 \<Rightarrow> bool" where
  "mul24_ok mul24 \<longleftrightarrow> (\<forall>x y. let p = (unat x mod 2 ^ 23) * (unat y mod 2 ^ 23) in
     mul24 False x y = of_nat (p mod 2 ^ 23) \<and> mul24 True x y = of_nat (p div 2 ^ 23))"

lemma product_parts_linear:
  fixes n :: nat
  assumes "n = p + 8388608 * (a + b) + 70368744177664 * c" and "p = 8388608 * p1 + p0" "a = 8388608 * a1 + a0"
    "b = 8388608 * b1 + b0" "p1 + a0 + b0 = 512 * m1 + m0"
  shows "n = 4294967296 * (16384 * (c + a1 + b1) + m1) + (p0 + 8388608 * m0)"
proof -
  have "n = 70368744177664 * (c + a1 + b1) + 8388608 * (p1 + a0 + b0) + p0"
    unfolding assms(1-4) by (simp add: algebra_simps)
  then show ?thesis unfolding assms(5) by (simp add: algebra_simps)
qed

lemma product_parts:
  fixes X Y :: nat
  defines "p \<equiv> X mod 8388608 * (Y mod 8388608)" and "a \<equiv> X div 8388608 * (Y mod 8388608)"
    and "b \<equiv> X mod 8388608 * (Y div 8388608)" and "c \<equiv> X div 8388608 * (Y div 8388608)"
  defines "M \<equiv> p div 8388608 + a mod 8388608 + b mod 8388608"
    and "H \<equiv> c + a div 8388608 + b div 8388608"
  shows "X * Y = 4294967296 * (16384 * H + M div 512) + (p mod 8388608 + 8388608 * (M mod 512))"
proof -
  define xh xl yh yl where "xh = X div 8388608" and "xl = X mod 8388608" and "yh = Y div 8388608" and "yl = Y mod 8388608"
  have "X = 8388608 * xh + xl" and "Y = 8388608 * yh + yl" by (simp_all add: xh_def xl_def yh_def yl_def)
  then have "X * Y = (8388608 * xh + xl) * (8388608 * yh + yl)" by simp
  also have "\<dots> = xl * yl + 8388608 * (xh * yl + xl * yh) + 70368744177664 * (xh * yh)"
    by (simp add: algebra_simps)
  finally have "X * Y = p + 8388608 * (a + b) + 70368744177664 * c"
    by (simp add: p_def a_def b_def c_def xh_def xl_def yh_def yl_def)
  then show ?thesis
    unfolding M_def H_def by (rule product_parts_linear) simp_all
qed

lemma mulhilo_eq:
  assumes ok: "mul24_ok mul24"
  shows "mulhilo mul24 m x = (mul_high m x, m * x)"
proof -
  define X Y where "X = unat x" and "Y = unat m"
  define p a b c where "p = X mod 8388608 * (Y mod 8388608)" and "a = X div 8388608 * (Y mod 8388608)"
    and "b = X mod 8388608 * (Y div 8388608)" and "c = X div 8388608 * (Y div 8388608)"
  define M H where "M = p div 8388608 + a mod 8388608 + b mod 8388608" and "H = c + a div 8388608 + b div 8388608"
  note prod = product_parts [of X Y, folded p_def a_def b_def c_def, folded M_def H_def]
  have XY: "X < 4294967296" "Y < 4294967296" by (simp_all add: X_def Y_def)
  have xh: "X div 8388608 < 512" "Y div 8388608 < 512" using XY by (simp_all add: less_mult_imp_div_less)
  have xl: "X mod 8388608 < 8388608" "Y mod 8388608 < 8388608" by simp_all
  have p: "p < 8388608 * 8388608" unfolding p_def by (rule mult_strict_mono) (use xl in auto)
  have a: "a < 512 * 8388608" unfolding a_def by (rule mult_strict_mono) (use xl xh in auto)
  have b: "b < 8388608 * 512" unfolding b_def by (rule mult_strict_mono) (use xl xh in auto)
  have c: "c < 512 * 512" unfolding c_def by (rule mult_strict_mono) (use xh in auto)
  have "unat (drop_bit 23 x) = X div 8388608" "unat (drop_bit 23 m) = Y div 8388608"
    by (simp_all add: unat_shift X_def Y_def)
  note small = this [symmetric]
  have m24: "mul24 False x m = of_nat (p mod 8388608)" "mul24 True x m = of_nat (p div 8388608)"
    "mul24 False (drop_bit 23 x) m = of_nat (a mod 8388608)" "mul24 True (drop_bit 23 x) m = of_nat (a div 8388608)"
    "mul24 False x (drop_bit 23 m) = of_nat (b mod 8388608)" "mul24 True x (drop_bit 23 m) = of_nat (b div 8388608)"
    "mul24 False (drop_bit 23 x) (drop_bit 23 m) = of_nat c"
    using ok xh c unfolding mul24_ok_def Let_def p_def a_def b_def c_def
    by (simp_all add: unat_shift X_def Y_def)
  have dv: "p div 8388608 < 8388608" "a div 8388608 < 512" "b div 8388608 < 512"
    using p a b by (simp_all add: less_mult_imp_div_less)
  have mid: "mul24 True x m + mul24 False (drop_bit 23 x) m + mul24 False x (drop_bit 23 m) = of_nat M"
    by (simp add: m24 M_def)
  have Mlt: "M < 33554432" using dv mod_less_divisor [of 8388608 a] mod_less_divisor [of 8388608 b]
    unfolding M_def by linarith
  have hi: "mul24 False (drop_bit 23 x) (drop_bit 23 m) + mul24 True (drop_bit 23 x) m + mul24 True x (drop_bit 23 m) = of_nat H"
    by (simp add: m24 H_def)
  have R: "p mod 8388608 + 8388608 * (M mod 512) < 4294967296"
    using mod_less_divisor [of 8388608 p] mod_less_divisor [of 512 M] by linarith
  have "X * Y div 4294967296 = 16384 * H + M div 512"
    unfolding prod using R by simp
  then have high: "mul_high m x = push_bit 14 (of_nat H) + drop_bit 9 (of_nat M)"
  proof -
    have "drop_bit 9 (of_nat M :: u32) = of_nat (M div 512)"
      by (rule word_unat_eq_iff [THEN iffD2]) (use Mlt in \<open>simp add: unat_shift unat_of_nat\<close>)
    moreover have "push_bit 14 (of_nat H :: u32) = of_nat (16384 * H)" by (simp add: push_bit_eq_mult)
    moreover have "unat m * unat x div 2 ^ 32 = 16384 * H + M div 512"
      using \<open>X * Y div 4294967296 = _\<close> by (simp add: X_def Y_def mult.commute)
    ultimately show ?thesis unfolding mul_high_def by (simp only: of_nat_add)
  qed
  have low: "m * x = of_nat (p mod 8388608) + push_bit 23 (of_nat M)"
  proof -
    have zero: "(of_nat (4294967296 * k) :: u32) = 0" for k :: nat
      by (simp only: word_of_nat_eq_0_iff) simp
    have "m * x = of_nat (X * Y)" by (simp add: X_def Y_def)
    also have "X * Y = (p mod 8388608 + 8388608 * M) + 4294967296 * (16384 * H)"
    proof -
      have "8388608 * M = 8388608 * (512 * (M div 512) + M mod 512)" by simp
      then show ?thesis unfolding prod by (simp only: distrib_left)
    qed
    also have "(of_nat \<dots> :: u32) = of_nat (p mod 8388608) + of_nat (8388608 * M)"
      by (simp only: of_nat_add zero add_0_right)
    finally show ?thesis by (simp add: push_bit_eq_mult)
  qed
  show ?thesis
    unfolding mulhilo_def Let_def mid hi high low by (simp add: m24)
qed

section \<open>Philox\<close>

text \<open>A half round touches each element's own words only.\<close>

lemma half_round_at:
  assumes ok: "mul24_ok mul24" and ne: "word \<noteq> other"
  shows "philox_half_round mul24 m fin word other key n dst t p =
    (if p \<in> set vec_positions \<and> row_guard n p then
       if t = other then mul_high m (dst word p) XOR dst other p XOR key
       else if t = word \<and> \<not> fin then m * dst word p else dst t p
     else dst t p)"
proof -
  let ?step = "\<lambda>p dst. if row_guard n p then
         let (hi, lo) = mulhilo mul24 m (dst word p);
             dst = (if fin then dst else dst(word := (dst word)(p := lo)));
             hi = hi XOR dst other p;
             hi = hi XOR key
         in dst(other := (dst other)(p := hi))
       else dst"
  have step: "?step q dst t p = (if q = p \<and> row_guard n p then
       if t = other then mul_high m (dst word p) XOR dst other p XOR key
       else if t = word \<and> \<not> fin then m * dst word p else dst t p
     else dst t p)" for q dst t p
    using ne by (auto simp: mulhilo_eq [OF ok] Let_def xor.assoc)
  have "fold ?step ps dst t p =
      (if p \<in> set ps \<and> row_guard n p then
         if t = other then mul_high m (dst word p) XOR dst other p XOR key
         else if t = word \<and> \<not> fin then m * dst word p else dst t p
       else dst t p)" if "distinct ps" for ps dst t
    using that
  proof (induction ps arbitrary: dst)
    case (Cons q ps)
    have "fold ?step (q # ps) dst t p = fold ?step ps (?step q dst) t p" by simp
    also have "\<dots> = (if p \<in> set ps \<and> row_guard n p then
         if t = other then mul_high m (?step q dst word p) XOR ?step q dst other p XOR key
         else if t = word \<and> \<not> fin then m * ?step q dst word p else ?step q dst t p
       else ?step q dst t p)"
      using Cons by simp
    also have "\<dots> = (if p \<in> set (q # ps) \<and> row_guard n p then
         if t = other then mul_high m (dst word p) XOR dst other p XOR key
         else if t = word \<and> \<not> fin then m * dst word p else dst t p
       else dst t p)"
      using Cons.prems unfolding step by auto
    finally show ?case .
  qed simp
  from this [OF vec_positions_distinct] show ?thesis unfolding philox_half_round_def .
qed

text \<open>The state at one element, and its round.\<close>

definition philox_view :: "vec_pos \<Rightarrow> philox_state \<Rightarrow> (u32 \<times> u32) \<times> (u32 \<times> u32 \<times> u32 \<times> u32)" where
  "philox_view p s = (case s of (dst, (x0, x1, x2, x3), k0, k1) \<Rightarrow>
     ((k0, k1), (dst x0 p, dst x1 p, dst x2 p, dst x3 p)))"

definition names_distinct :: "philox_state \<Rightarrow> bool" where
  "names_distinct s = (case s of (dst, (x0, x1, x2, x3), k0, k1) \<Rightarrow> distinct [x0, x1, x2, x3])"

lemma philox_round_view:
  assumes "mul24_ok mul24" "names_distinct s" "p \<in> set vec_positions" "row_guard n p"
  shows "philox_view p (philox_round mul24 n s) = philox_ref_round (philox_view p s) \<and>
    names_distinct (philox_round mul24 n s)"
proof -
  obtain dst x0 x1 x2 x3 k0 k1 where s: "s = (dst, (x0, x1, x2, x3), k0, k1)" by (metis prod_cases4 prod.collapse)
  from assms(2) have d: "distinct [x0, x1, x2, x3]" by (simp add: s names_distinct_def)
  then show ?thesis
    using assms(3,4)
    by (simp add: s philox_round_def philox_view_def philox_ref_round_def names_distinct_def Let_def
        half_round_at [OF assms(1)])
qed

lemma philox_rounds_view:
  assumes "mul24_ok mul24" "names_distinct s" "p \<in> set vec_positions" "row_guard n p"
  shows "philox_view p ((philox_round mul24 n ^^ r) s) = (philox_ref_round ^^ r) (philox_view p s) \<and>
    names_distinct ((philox_round mul24 n ^^ r) s)"
  using philox_round_view [OF assms(1) _ assms(3,4)] assms(2) by (induction r) simp_all

lemma philox_tile_at:
  assumes ok: "mul24_ok mul24" and p: "p \<in> set vec_positions" "row_guard n p"
  shows "philox_tile mul24 base W n w0 w1 key_high counter_high dst p =
    fst (philox_ref (w0, key_high) (elem_index base W p, w1, 0, counter_high))"
proof -
  let ?dst = "dst(0 := index_tile base W (dst 0), 1 := (\<lambda>_. w1), 2 := (\<lambda>_. 0), 3 := (\<lambda>_. counter_high))"
  let ?s = "(?dst, (0, 1, 2, 3), w0, key_high) :: philox_state"
  let ?c = "(elem_index base W p, w1, 0, counter_high)"
  have view: "philox_view p ?s = ((w0, key_high), ?c)"
    by (simp add: philox_view_def index_tile_at [OF p(1)])
  have "names_distinct ?s" by (simp add: names_distinct_def)
  note r = philox_rounds_view [OF ok this p, of 9, unfolded view]
  obtain dst' x0 x1 x2 x3 k0 k1 where s': "(philox_round mul24 n ^^ 9) ?s = (dst', (x0, x1, x2, x3), k0, k1)"
    by (metis prod_cases4 prod.collapse)
  have d: "x2 \<noteq> x1" using r unfolding s' by (simp add: names_distinct_def)
  have "philox_tile mul24 base W n w0 w1 key_high counter_high dst p =
      philox_half_round mul24 philox_m1 True x2 x1 k0 n dst' x1 p"
    unfolding philox_tile_def Let_def s' by simp
  also have "\<dots> = mul_high philox_m1 (dst' x2 p) XOR dst' x1 p XOR k0"
    using p by (simp add: half_round_at [OF ok d])
  also have "\<dots> = fst (snd (philox_ref_round (philox_view p (dst', (x0, x1, x2, x3), k0, k1))))"
    by (simp add: philox_view_def philox_ref_round_def)
  also have "philox_view p (dst', (x0, x1, x2, x3), k0, k1) = (philox_ref_round ^^ 9) ((w0, key_high), ?c)"
    using r s' by simp
  also have "philox_ref_round ((philox_ref_round ^^ 9) ((w0, key_high), ?c)) = (philox_ref_round ^^ 10) ((w0, key_high), ?c)"
    by (simp add: numeral_eq_Suc)
  finally show ?thesis by (simp add: philox_ref_def)
qed

end
