(* ===== verification/RngDevice.thy ===== *)
theory RngDevice
  imports RngWords
begin

text \<open>
  The rng_bits device operation around the generators: the checks of
  \<open>rng_bits_device_operation.cpp\<close>, the program of \<open>rng_bits_program_factory.cpp\<close> and the
  data movement of \<open>kernels/dataflow/rng_bits_mover.cpp\<close>, composed with the compute kernel of
  \<open>RngBits\<close>. What ttnn answers of the tensors is a record; how the tiles are split over the
  cores (\<open>split_work_to_cores\<close>) is a parameter, the list of counts in the order of the cores.
\<close>

section \<open>Validation\<close>

record rng_inputs =
  ri_allocated :: bool
  ri_blackhole :: bool
  ri_uint32 :: bool
  ri_interleaved :: bool
  ri_tiled :: bool
  ri_state_shape :: "nat list"
  ri_state_pages :: nat
  ri_shape :: "nat list"
  ri_bits_interleaved :: bool

datatype rng_error =
    StateNotAllocated | WrongArch | StateNotUint32 | StateNotInterleaved | StateNotTiled
  | StateWrongShape "nat list" | StateManyPages nat
  | BitsNoRank | BitsEmpty | BitsTooMany | BitsNotInterleaved

text \<open>The number of elements.\<close>

definition volume :: "nat list \<Rightarrow> nat" where
  "volume shape = prod_list shape"

definition validate_rng :: "rng_inputs \<Rightarrow> rng_error + unit" where
  "validate_rng t =
     (if \<not> ri_allocated t then Inl StateNotAllocated
      else if \<not> ri_blackhole t then Inl WrongArch
      else if \<not> ri_uint32 t then Inl StateNotUint32
      else if \<not> ri_interleaved t then Inl StateNotInterleaved
      else if \<not> ri_tiled t then Inl StateNotTiled
      else if \<not> (2 \<le> length (ri_state_shape t) \<and> dim_back (ri_state_shape t) 1 = 2 \<and>
          dim_back (ri_state_shape t) 2 = 2 \<and> volume (ri_state_shape t) = 4)
      then Inl (StateWrongShape (ri_state_shape t))
      else if ri_state_pages t \<noteq> 1 then Inl (StateManyPages (ri_state_pages t))
      else if length (ri_shape t) < 1 then Inl BitsNoRank
      else if volume (ri_shape t) = 0 then Inl BitsEmpty
      else if 2 ^ 32 \<le> volume (ri_shape t) then Inl BitsTooMany
      else if \<not> ri_bits_interleaved t then Inl BitsNotInterleaved
      else Inr ())"

section \<open>The program\<close>

record rng_program =
  rp_W :: nat
  rp_H :: nat
  rp_Wt :: nat
  rp_Ht :: nat
  rp_tiles :: nat
  rp_philox :: bool
  rp_state_entry :: nat

text \<open>Each core's first tile, its count, and whether it writes the state.\<close>

fun core_ranges :: "nat \<Rightarrow> nat \<Rightarrow> nat list \<Rightarrow> (nat \<times> nat \<times> bool) list" where
  "core_ranges i first [] = []"
| "core_ranges i first (count # counts) = (first, count, i = 0) # core_ranges (i + 1) (first + count) counts"

definition rng_factory :: "bool \<Rightarrow> nat list \<Rightarrow> nat list \<Rightarrow> nat \<Rightarrow> nat \<Rightarrow> rng_program" where
  "rng_factory philox shape padded physical_volume state_page_bytes =
     \<lparr>rp_W = dim_back shape 1, rp_H = (if 2 \<le> length shape then dim_back shape 2 else 1),
      rp_Wt = dim_back padded 1 div 32, rp_Ht = dim_back padded 2 div 32,
      rp_tiles = physical_volume div (32 * 32), rp_philox = philox,
      rp_state_entry = (state_page_bytes + 63) div 64 * 64\<rparr>"

section \<open>The mover\<close>

text \<open>
  The state entry as the compute kernel gets it, and the page written as the new state: the
  entry is advanced, written out and restored before it is pushed.
\<close>

definition mover_state :: "bool \<Rightarrow> u32 list \<Rightarrow> u32 list \<times> u32 list option" where
  "mover_state write_state words =
     (if write_state then
        let w1 = words ! 16; high = words ! 17;
            words = words[16 := w1 + 1];
            words = words[17 := high + (if w1 = 0xFFFFFFFF then 1 else 0)];
            new_state = words;
            words = words[16 := w1];
            words = words[17 := high]
        in (words, Some new_state)
      else (words, None))"

text \<open>The pages a core writes: the tiles its compute kernel packed, in order.\<close>

fun mover_pages :: "nat \<Rightarrow> dst_tile list \<Rightarrow> (nat \<times> dst_tile) list" where
  "mover_pages tile [] = []"
| "mover_pages tile (t # ts) = (tile, t) # mover_pages (tile + 1) ts"

definition rng_core ::
  "mul24 \<Rightarrow> rng_program \<Rightarrow> u32 list \<Rightarrow> (nat \<Rightarrow> dst) \<Rightarrow> nat \<times> nat \<times> bool \<Rightarrow> (nat \<times> dst_tile) list \<times> u32 list option" where
  "rng_core mul24 p words dst part =
     (case part of (first, count, write_state) \<Rightarrow>
        let (entry, new_state) = mover_state write_state words in
        (mover_pages first (compute_main mul24 (rp_philox p) entry (rp_W p) (rp_H p) (rp_Wt p) (rp_Ht p) dst first count),
         new_state))"

text \<open>All cores of a call: the pages of the bits and of the new state.\<close>

definition rng_run ::
  "mul24 \<Rightarrow> rng_program \<Rightarrow> nat list \<Rightarrow> u32 list \<Rightarrow> (nat \<Rightarrow> nat \<Rightarrow> dst) \<Rightarrow> (nat \<times> dst_tile) list \<times> u32 list list" where
  "rng_run mul24 p counts words dst =
     (let runs = map (\<lambda>(i, part). rng_core mul24 p words (dst i) part) (enumerate 0 (core_ranges 0 0 counts))
      in (concat (map fst runs), concat (map (\<lambda>r. case snd r of None \<Rightarrow> [] | Some s \<Rightarrow> [s]) runs)))"

section \<open>The ranges of the cores\<close>

lemma mover_pages_map: "mover_pages first (map f [first..<first + count]) = map (\<lambda>t. (t, f t)) [first..<first + count]"
proof -
  have "mover_pages a (map f [a..<b]) = map (\<lambda>t. (t, f t)) [a..<b]" for a b
    by (induction "b - a" arbitrary: a) (simp_all add: upt_conv_Cons)
  then show ?thesis .
qed

lemma mover_state_entry: "fst (mover_state write_state words) = words"
proof -
  have "words[16 := a, 17 := b, 16 := words ! 16, 17 := words ! 17] = words" for a b
    using list_update_swap [of 17 16 "words[16 := a]" b "words ! 16"] by simp
  then show ?thesis by (simp add: mover_state_def Let_def)
qed

lemma core_tiles:
  "fst (rng_core mul24 p words dst (first, count, ws)) =
   map (\<lambda>t. (t, compute_tile mul24 (rp_philox p) words (rp_W p) (rp_H p) (rp_Wt p) (rp_Ht p) (dst t) t)) [first..<first + count]"
proof -
  obtain new where "mover_state ws words = (words, new)"
    using mover_state_entry [of ws words] by (metis prod.collapse)
  then show ?thesis by (simp add: rng_core_def compute_main_def mover_pages_map)
qed

lemma ranges_tiles:
  "map fst (concat (map (\<lambda>(i, part). fst (rng_core mul24 p words (dst i) part)) (enumerate n (core_ranges k first counts)))) =
   [first..<first + sum_list counts]"
proof (induction counts arbitrary: n k first)
  case (Cons c cs)
  have "[first..<first + (c + sum_list cs)] = [first..<first + c] @ [first + c..<first + c + sum_list cs]"
    using upt_add_eq_append [of first "first + c" "sum_list cs"] by (simp add: add.assoc)
  with Cons show ?case by (simp add: core_tiles comp_def)
qed simp

lemma run_tiles:
  assumes "(t, tile) \<in> set (fst (rng_run mul24 p counts words dst))"
  shows "\<exists>i. tile = compute_tile mul24 (rp_philox p) words (rp_W p) (rp_H p) (rp_Wt p) (rp_Ht p) (dst i t) t"
proof -
  from assms obtain i part where "(t, tile) \<in> set (fst (rng_core mul24 p words (dst i) part))"
    by (auto simp: rng_run_def Let_def)
  then show ?thesis by (cases part) (auto simp: core_tiles)
qed

lemma new_states:
  "concat (map (\<lambda>(i, part). case snd (rng_core mul24 p words (dst i) part) of None \<Rightarrow> [] | Some s \<Rightarrow> [s])
     (enumerate n (core_ranges (Suc k) first counts))) = []"
proof (induction counts arbitrary: n k first)
  case (Cons c cs)
  have "snd (rng_core mul24 p words (dst n) (first, c, False)) = None"
    by (simp add: rng_core_def mover_state_def)
  with Cons [of "Suc n" "Suc k" "first + c"] show ?case by simp
qed simp

lemma carry_step:
  "unat (a + 1) + 4294967296 * unat (b + (if a = 0xFFFFFFFF then 1 else 0)) =
   (unat a + 4294967296 * unat b + 1) mod 18446744073709551616" for a b :: u32
proof (cases "a = 0xFFFFFFFF")
  case True
  then have w: "unat a = 4294967295" "unat (a + 1) = 0" by simp_all
  have "unat (b + 1) = (unat b + 1) mod 4294967296" by (simp add: unat_word_ariths)
  with w True show ?thesis using mult_mod_right [of 4294967296 "unat b + 1" 4294967296] by (simp del: unat_eq_zero)
next
  case False
  then have "unat a \<noteq> unat (0xFFFFFFFF :: u32)" by (simp only: word_unat_eq_iff not_False_eq_True)
  then have "unat a \<noteq> 4294967295" by simp
  then have "unat a + 1 < 4294967296" using unat_lt [of a] by linarith
  moreover from this have "unat (a + 1) = unat a + 1" by (simp add: unat_word_ariths)
  moreover have "unat a + 4294967296 * unat b + 1 < 18446744073709551616"
    using unat_lt [of b] \<open>unat a + 1 < 4294967296\<close> by linarith
  ultimately show ?thesis using False by simp
qed

text \<open>
  C24: A call advances the second 64-bit element of the state by one, modulo \<open>2 ^ 64\<close>, and
  leaves the first and everything else of the page; the new state is written once, by the
  first core, and the compute kernels of all cores see the old state.
\<close>

definition state_counter :: "u32 list \<Rightarrow> nat" where
  "state_counter words = unat (words ! 16) + 2 ^ 32 * unat (words ! 17)"

theorem state_advances:
  assumes "18 \<le> length words" and "counts \<noteq> []"
  shows "\<exists>new. snd (rng_run mul24 p counts words dst) = [new] \<and> length new = length words \<and>
    state_counter new = (state_counter words + 1) mod 2 ^ 64 \<and> (\<forall>i. i \<noteq> 16 \<longrightarrow> i \<noteq> 17 \<longrightarrow> new ! i = words ! i) \<and>
    (\<forall>w. fst (mover_state w words) = words)"
proof -
  let ?new = "words[16 := words ! 16 + 1, 17 := words ! 17 + (if words ! 16 = 0xFFFFFFFF then 1 else 0)]"
  from assms(2) obtain c cs where counts: "counts = c # cs" by (cases counts) auto
  have "snd (rng_core mul24 p words (dst 0) (0, c, True)) = Some ?new"
    by (simp add: rng_core_def mover_state_def Let_def)
  then have "snd (rng_run mul24 p counts words dst) = [?new]"
    using new_states [of mul24 p words dst 1 0 c cs]
    by (simp add: rng_run_def counts Let_def comp_def split_beta)
  moreover have "state_counter ?new = (state_counter words + 1) mod 2 ^ 64"
  proof -
    have at: "?new ! 16 = words ! 16 + 1" "?new ! 17 = words ! 17 + (if words ! 16 = 0xFFFFFFFF then 1 else 0)"
      using assms(1) by simp_all
    show ?thesis using carry_step [of "words ! 16" "words ! 17"] unfolding state_counter_def at by simp
  qed
  ultimately show ?thesis using mover_state_entry by (intro exI [of _ ?new]) simp
qed

text \<open>The state's four words and the stream: \<open>rng_bits.hpp\<close>'s definition of element \<open>i\<close>.\<close>

definition stream_word :: "bool \<Rightarrow> u32 list \<Rightarrow> nat \<Rightarrow> u32" where
  "stream_word philox words i =
     (let w0 = words ! 0; h0 = words ! 1; w1 = words ! 16; h1 = words ! 17 in
      if philox then fst (philox_ref (w0, h0) (of_nat i, w1, 0, h1))
      else fst (threefry_ref (threefry_ref (w0, h0) (h1, skein_parity)) (of_nat i, w1)))"

definition round_up_32 :: "nat \<Rightarrow> nat" where
  "round_up_32 n = (n + 31) div 32 * 32"

definition height :: "nat list \<Rightarrow> nat" where
  "height shape = (if 2 \<le> length shape then dim_back shape 2 else 1)"

definition batches :: "nat list \<Rightarrow> nat" where
  "batches shape = volume shape div (height shape * dim_back shape 1)"

text \<open>What ttnn documents of a tiled tensor: the last two dimensions are padded to tiles.\<close>

definition padded_ok :: "nat list \<Rightarrow> nat list \<Rightarrow> nat \<Rightarrow> bool" where
  "padded_ok shape padded physical_volume \<longleftrightarrow>
     dim_back padded 1 = round_up_32 (dim_back shape 1) \<and> dim_back padded 2 = round_up_32 (height shape) \<and>
     physical_volume = batches shape * (dim_back padded 2 * dim_back padded 1)"

lemma stream_key_eq: "stream_key words = threefry_ref (words ! 0, words ! 1) (words ! 17, skein_parity)"
  by (simp add: stream_key_def state_words_def threefry_eq)

lemma compute_tile_at:
  assumes ok: "mul24_ok mul24" and p: "p \<in> set vec_positions" "vec_row p < tile_rows_valid H Wt Ht tile"
  shows "compute_tile mul24 philox words W H Wt Ht dst tile p =
    (if philox then fst (philox_ref (words ! 0, words ! 1) (elem_index (of_nat (tile_base W H Wt Ht tile)) (of_nat W) p, words ! 16, 0, words ! 17))
     else fst (threefry_ref (stream_key words) (elem_index (of_nat (tile_base W H Wt Ht tile)) (of_nat W) p, words ! 16)))"
  using threefry_tile_at [OF p(1) row_guard_row [OF p(2)]] philox_tile_at [OF ok p(1) row_guard_row [OF p(2)]]
  by (simp add: compute_tile_def state_words_def split_beta Let_def)

lemma of_nat_w32: "of_nat (w32 n) = (of_nat n :: u32)"
  by (simp add: w32_def word_of_nat_eq_iff take_bit_eq_mod)

lemma tile_coords:
  assumes "y div 32 < Ht" "x div 32 < Wt"
  shows "tile_base W H Wt Ht ((b * Ht + y div 32) * Wt + x div 32) = w32 (w32 (w32 (b * H) + y div 32 * 32) * W + x div 32 * 32)"
    and "tile_rows_valid H Wt Ht ((b * Ht + y div 32) * Wt + x div 32) = min 32 (H - y div 32 * 32)"
proof -
  let ?t = "(b * Ht + y div 32) * Wt + x div 32"
  have "?t mod Wt = x div 32" "?t div Wt = b * Ht + y div 32"
    using assms(2) by (simp_all add: index_mod index_div)
  moreover have "(b * Ht + y div 32) mod Ht = y div 32" "(b * Ht + y div 32) div Ht = b"
    using assms(1) by (simp_all add: index_mod index_div)
  moreover have "?t div (Wt * Ht) = ?t div Wt div Ht" by (simp add: div_mult2_eq)
  ultimately show "tile_base W H Wt Ht ?t = w32 (w32 (w32 (b * H) + y div 32 * 32) * W + x div 32 * 32)"
    and "tile_rows_valid H Wt Ht ?t = min 32 (H - y div 32 * 32)"
    by (simp_all add: tile_base_def tile_rows_valid_def Let_def min_def)
qed

lemma elem_index_at:
  "elem_index (of_nat (w32 (w32 (w32 (b * H) + y div 32 * 32) * W + x div 32 * 32))) (of_nat W) (vec_at (y mod 32) (x mod 32)) =
   of_nat ((b * H + y) * W + x)"
proof -
  have tiles: "(of_nat n :: u32) = of_nat (n div 32) * 32 + of_nat (n mod 32)" for n
    by (metis div_mult_mod_eq of_nat_add of_nat_mult of_nat_numeral)
  have "(of_nat ((b * H + y) * W + x) :: u32) = (of_nat b * of_nat H + of_nat y) * of_nat W + of_nat x" by simp
  also have "\<dots> = (of_nat b * of_nat H + (of_nat (y div 32) * 32 + of_nat (y mod 32))) * of_nat W +
      (of_nat (x div 32) * 32 + of_nat (x mod 32))"
    using tiles [of x] tiles [of y] by simp
  finally show ?thesis
    by (simp add: elem_index_def vec_row_at vec_col_at of_nat_w32 algebra_simps)
qed

text \<open>
  C23: What a validated call writes: the pages of the bits are the tiles of the padded tensor,
  each written once, and every element of the tensor is the word of \<open>rng_bits.hpp\<close>'s stream
  at its row-major index, whatever the split over the cores: of Threefry-2x32-20 or of
  Philox-4x32-10, whose products the vector unit makes from 23-bit halves.
\<close>

theorem rng_elements:
  assumes "validate_rng t = Inr ()" and "padded_ok (ri_shape t) padded physical_volume" and "mul24_ok mul24"
    and "program = rng_factory philox (ri_shape t) padded physical_volume page_bytes"
    and "sum_list counts = rp_tiles program"
    and "b < batches (ri_shape t)" "y < height (ri_shape t)" "x < dim_back (ri_shape t) 1"
  shows "let pages = fst (rng_run mul24 program counts words dst); i = (b * height (ri_shape t) + y) * dim_back (ri_shape t) 1 + x in
    map fst pages = [0..<rp_tiles program] \<and> i < 2 ^ 32 \<and>
    (\<exists>tile. ((b * rp_Ht program + y div 32) * rp_Wt program + x div 32, tile) \<in> set pages \<and>
      tile (vec_at (y mod 32) (x mod 32)) = stream_word philox words i)"
proof -
  let ?H = "height (ri_shape t)" and ?W = "dim_back (ri_shape t) 1" and ?pages = "fst (rng_run mul24 program counts words dst)"
  let ?page = "(b * rp_Ht program + y div 32) * rp_Wt program + x div 32" and ?i = "(b * height (ri_shape t) + y) * dim_back (ri_shape t) 1 + x"
  have dims: "rp_W program = ?W" "rp_H program = ?H" "rp_philox program = philox"
    "rp_Wt program = (?W + 31) div 32" "rp_Ht program = (?H + 31) div 32"
    "rp_tiles program = batches (ri_shape t) * (rp_Ht program * rp_Wt program)"
    using assms(2) by (simp_all add: assms(4) rng_factory_def padded_ok_def round_up_32_def height_def)
  have tile: "y div 32 < rp_Ht program" "x div 32 < rp_Wt program"
    using assms(7,8) by (simp_all add: dims(4,5))
  have "map fst ?pages = [0..<rp_tiles program]"
    using ranges_tiles [of mul24 program words dst 0 0 0 counts] assms(5)
    by (simp add: rng_run_def Let_def comp_def case_prod_unfold)
  note pages = this
  have "b * rp_Ht program + y div 32 < batches (ri_shape t) * rp_Ht program"
    by (rule index_less_product [OF assms(6) tile(1)])
  from index_less_product [OF this tile(2)] have "?page < rp_tiles program"
    by (simp add: dims(6) mult.assoc)
  with pages have "?page \<in> fst ` set ?pages" by (metis atLeastLessThan_iff image_set le0 set_upt)
  then obtain tile where tile_in: "(?page, tile) \<in> set ?pages" by auto
  from run_tiles [OF this] obtain k where
    k: "tile = compute_tile mul24 philox words ?W ?H (rp_Wt program) (rp_Ht program) (dst k ?page) ?page"
    unfolding dims(1-3) by blast
  have "y mod 32 < min 32 (?H - y div 32 * 32)"
    using assms(7) by (simp add: min_def) (metis add.commute less_diff_conv mod_mult_div_eq mult.commute)
  then have row: "vec_row (vec_at (y mod 32) (x mod 32)) < tile_rows_valid ?H (rp_Wt program) (rp_Ht program) ?page"
    unfolding tile_coords(2) [OF tile] by (simp add: vec_row_at)
  have "vec_at (y mod 32) (x mod 32) \<in> set vec_positions"
    unfolding vec_positions_set by (rule vec_at_bounds) simp_all
  from compute_tile_at [OF assms(3) this row]
  have "tile (vec_at (y mod 32) (x mod 32)) = stream_word philox words ?i"
    unfolding k tile_coords(1) [OF tile] elem_index_at by (simp add: stream_word_def stream_key_eq Let_def)
  moreover have "?i < 2 ^ 32"
  proof -
    have "?i < batches (ri_shape t) * ?H * ?W"
      by (rule index_less_product [OF index_less_product [OF assms(6,7)] assms(8)])
    also have "\<dots> \<le> volume (ri_shape t)" by (simp add: batches_def mult.assoc)
    also have "\<dots> < 2 ^ 32" using assms(1) by (simp add: validate_rng_def split: if_splits)
    finally show ?thesis .
  qed
  ultimately show ?thesis using pages tile_in unfolding Let_def by blast
qed

text \<open>The multiplier's documented behaviour, as a function.\<close>

definition mul24_spec :: mul24 where
  "mul24_spec high x y =
     (let p = (unat x mod 2 ^ 23) * (unat y mod 2 ^ 23) in of_nat (if high then p div 2 ^ 23 else p mod 2 ^ 23))"

lemma mul24_spec_ok: "mul24_ok mul24_spec"
  by (simp add: mul24_ok_def mul24_spec_def Let_def)

definition example_inputs :: rng_inputs where
  "example_inputs = \<lparr>ri_allocated = True, ri_blackhole = True, ri_uint32 = True, ri_interleaved = True,
     ri_tiled = True, ri_state_shape = [2, 2], ri_state_pages = 1, ri_shape = [2, 33, 40], ri_bits_interleaved = True\<rparr>"

lemma example_valid:
  "validate_rng example_inputs = Inr ()" "ri_shape example_inputs = [2, 33, 40]" "padded_ok [2, 33, 40] [2, 64, 64] 8192"
  "batches [2, 33, 40] = 2" "height [2, 33, 40] = 33" "dim_back [2, 33, 40] 1 = 40"
  "rp_tiles (rng_factory philox [2, 33, 40] [2, 64, 64] 8192 4096) = 8"
  by (simp_all add: example_inputs_def validate_rng_def dim_back_def volume_def padded_ok_def round_up_32_def
      batches_def height_def rng_factory_def)

lemma rng_elements_witness:
  "\<exists>program. let pages = fst (rng_run mul24_spec program [3, 3, 2] (replicate 1024 7) (\<lambda>_ _ _ _. 0)) in
    map fst pages = [0..<8] \<and>
    (\<exists>tile. (7, tile) \<in> set pages \<and> tile (vec_at 0 7) = stream_word True (replicate 1024 7) 2639)"
proof -
  let ?p = "rng_factory True [2, 33, 40] [2, 64, 64] 8192 4096"
  have dims: "rp_Ht ?p = 2" "rp_Wt ?p = 2" by (simp_all add: rng_factory_def dim_back_def)
  show ?thesis
    using rng_elements [of example_inputs "[2, 64, 64]" 8192 mul24_spec ?p True 4096 "[3, 3, 2]" 1 32 39
      "replicate 1024 7" "\<lambda>_ _ _ _. 0"]
    by (intro exI [of _ ?p]) (simp add: example_valid example_valid(6) [simplified] mul24_spec_ok dims Let_def)
qed

lemma state_advances_witness:
  "\<exists>new. snd (rng_run mul24_spec (rng_factory True [2, 33, 40] [2, 64, 64] 8192 4096) [3, 3, 2]
      (replicate 1024 0xFFFFFFFF) (\<lambda>_ _ _ _. 0)) = [new] \<and> state_counter new = 0"
  using state_advances [of "replicate 1024 0xFFFFFFFF" "[3, 3, 2]" mul24_spec
    "rng_factory True [2, 33, 40] [2, 64, 64] 8192 4096" "\<lambda>_ _ _ _. 0"]
  by (auto simp: state_counter_def [of "replicate 1024 0xFFFFFFFF"])

end
