(* ===== verification/ProgramSpec.thy ===== *)
theory ProgramSpec
  imports Prelude
begin

text \<open>
  The programs the factories hand to the runtime (\<open>metal2_host_api/program_spec.hpp\<close> and
  \<open>program_run_args.hpp\<close>, which they only fill in): kernels with their bindings, dataflow
  buffers, tensor parameters, work units and the arguments of every core. \<open>wf_program\<close> is what
  the runtime asks of such a program, and \<open>links\<close> that a kernel's source finds every argument,
  buffer and tensor it names. A core is a coordinate, and \<open>work_split\<close> what
  \<open>split_work_to_cores\<close> and \<open>corerange_to_cores\<close> answer.
\<close>

section \<open>Programs\<close>

datatype dfb_endpoint = Producer | Consumer

record dfb_spec =
  dfb_id :: string
  entry_size :: nat
  num_entries :: nat
  data_format :: string
  tile_format :: "(nat \<times> nat) option"

record dfb_binding =
  bind_dfb :: string
  bind_accessor :: string
  bind_endpoint :: dfb_endpoint

record compute_config =
  math_fidelity :: string
  math_approx_mode :: bool
  fp32_dest_acc_en :: bool
  packer_l1_acc :: bool
  dst_full_sync_en :: bool
  unpack_modes :: "(string \<times> string) list"

datatype hw_config = ReaderConfig | WriterConfig | ComputeConfig compute_config

record kernel_spec =
  kernel_id :: string
  kernel_source :: string
  kernel_defines :: "(string \<times> string) list"
  dfb_bindings :: "dfb_binding list"
  tensor_bindings :: "(string \<times> string) list"
  compile_time_args :: "(string \<times> nat) list"
  runtime_arg_names :: "string list"
  common_runtime_arg_names :: "string list"
  kernel_hw :: hw_config

type_synonym core = "nat \<times> nat"

record work_unit =
  unit_name :: string
  unit_kernels :: "string list"
  unit_nodes :: "core list"

record 't program_spec =
  spec_name :: string
  spec_kernels :: "kernel_spec list"
  dataflow_buffers :: "dfb_spec list"
  tensor_parameters :: "(string \<times> 't) list"
  work_units :: "work_unit list"

record kernel_run_args =
  run_kernel :: string
  node_args :: "(core \<times> (string \<times> nat) list) list"
  common_args :: "(string \<times> nat) list"

record 't program_artifacts =
  artifact_spec :: "'t program_spec"
  run_args :: "kernel_run_args list"
  tensor_args :: "(string \<times> 't) list"

definition dfb_binding_of :: "string \<Rightarrow> string \<Rightarrow> dfb_endpoint \<Rightarrow> dfb_binding" where
  "dfb_binding_of d accessor e = \<lparr>bind_dfb = d, bind_accessor = accessor, bind_endpoint = e\<rparr>"

definition dfb_plain :: "string \<Rightarrow> nat \<Rightarrow> nat \<Rightarrow> dfb_spec" where
  "dfb_plain d bytes entries =
     \<lparr>dfb_id = d, entry_size = bytes, num_entries = entries, data_format = [], tile_format = None\<rparr>"

section \<open>Well-formed programs\<close>

definition dfb_users :: "'t program_spec \<Rightarrow> dfb_endpoint \<Rightarrow> string \<Rightarrow> string list" where
  "dfb_users p e d = concat (map (\<lambda>k. map (\<lambda>_. kernel_id k)
     (filter (\<lambda>b. bind_dfb b = d \<and> bind_endpoint b = e) (dfb_bindings k))) (spec_kernels p))"

definition bindings_ok :: "'t program_spec \<Rightarrow> bool" where
  "bindings_ok p \<longleftrightarrow> distinct (map dfb_id (dataflow_buffers p)) \<and>
     list_all (\<lambda>k. list_all (\<lambda>b. bind_dfb b \<in> set (map dfb_id (dataflow_buffers p))) (dfb_bindings k)) (spec_kernels p) \<and>
     list_all (\<lambda>d. length (dfb_users p Producer (dfb_id d)) = 1 \<and> length (dfb_users p Consumer (dfb_id d)) = 1)
       (dataflow_buffers p)"

definition tensors_ok :: "'t program_artifacts \<Rightarrow> bool" where
  "tensors_ok p \<longleftrightarrow> distinct (map fst (tensor_parameters (artifact_spec p))) \<and>
     list_all (\<lambda>k. list_all (\<lambda>b. fst b \<in> set (map fst (tensor_parameters (artifact_spec p)))) (tensor_bindings k))
       (spec_kernels (artifact_spec p)) \<and>
     tensor_args p = tensor_parameters (artifact_spec p)"

definition units_of :: "'t program_spec \<Rightarrow> string \<Rightarrow> work_unit list" where
  "units_of p k = filter (\<lambda>u. k \<in> set (unit_kernels u)) (work_units p)"

definition args_ok :: "'t program_artifacts \<Rightarrow> bool" where
  "args_ok p \<longleftrightarrow> distinct (map kernel_id (spec_kernels (artifact_spec p))) \<and>
     map run_kernel (run_args p) = map kernel_id (spec_kernels (artifact_spec p)) \<and>
     list_all (\<lambda>(k, r).
         map fst (common_args r) = common_runtime_arg_names k \<and>
         list_all (\<lambda>(core, args). map fst args = runtime_arg_names k) (node_args r) \<and>
         map unit_nodes (units_of (artifact_spec p) (kernel_id k)) = [map fst (node_args r)] \<and>
         distinct (map fst (node_args r)) \<and> distinct (map fst (compile_time_args k)))
       (zip (spec_kernels (artifact_spec p)) (run_args p))"

definition buffers_ok :: "'t program_spec \<Rightarrow> bool" where
  "buffers_ok p \<longleftrightarrow> list_all (\<lambda>d. 0 < entry_size d \<and> 0 < num_entries d) (dataflow_buffers p)"

definition wf_program :: "'t program_artifacts \<Rightarrow> bool" where
  "wf_program p \<longleftrightarrow> bindings_ok (artifact_spec p) \<and> tensors_ok p \<and> args_ok p \<and> buffers_ok (artifact_spec p)"

lemmas wf_program_simps = wf_program_def bindings_ok_def tensors_ok_def args_ok_def buffers_ok_def
  units_of_def dfb_users_def dfb_binding_of_def dfb_plain_def

section \<open>Kernel interfaces\<close>

text \<open>The value of an argument by its name.\<close>

definition get_arg :: "(string \<times> nat) list \<Rightarrow> string \<Rightarrow> nat" where
  "get_arg args name = (case map_of args name of None \<Rightarrow> 0 | Some v \<Rightarrow> v)"

text \<open>The names a kernel's source reads: \<open>get_arg\<close>, \<open>dfb::\<close> and \<open>tensor::\<close>.\<close>

record kernel_interface =
  reads_compile :: "string list"
  reads_runtime :: "string list"
  reads_dfbs :: "string list"
  reads_tensors :: "string list"
  reads_defines :: "string list"

definition links :: "kernel_interface \<Rightarrow> kernel_spec \<Rightarrow> bool" where
  "links i k \<longleftrightarrow> set (reads_compile i) \<subseteq> set (map fst (compile_time_args k)) \<and>
     set (reads_runtime i) \<subseteq> set (runtime_arg_names k @ common_runtime_arg_names k) \<and>
     set (reads_dfbs i) \<subseteq> set (map bind_accessor (dfb_bindings k)) \<and>
     set (reads_tensors i) \<subseteq> set (map snd (tensor_bindings k)) \<and>
     set (reads_defines i) \<subseteq> set (map fst (kernel_defines k)) \<and>
     list_all (\<lambda>a. list_all (\<lambda>b. bind_accessor a = bind_accessor b \<longrightarrow> bind_dfb a = bind_dfb b) (dfb_bindings k)) (dfb_bindings k)"

section \<open>Work over cores\<close>

record work_split =
  split_cores :: "core list"
  in_group_1 :: "core \<Rightarrow> bool"
  per_core_1 :: nat
  per_core_2 :: nat

definition core_count :: "work_split \<Rightarrow> core \<Rightarrow> nat" where
  "core_count s core = (if in_group_1 s core then per_core_1 s else per_core_2 s)"

text \<open>What \<open>work_split.hpp\<close> documents: distinct cores whose counts add up to the work.\<close>

definition split_ok :: "nat \<Rightarrow> work_split \<Rightarrow> bool" where
  "split_ok work s \<longleftrightarrow> distinct (split_cores s) \<and> sum_list (map (core_count s) (split_cores s)) = work"

text \<open>Each core's first item and count, in the order of the cores.\<close>

fun ranges_from :: "nat \<Rightarrow> (core \<Rightarrow> nat) \<Rightarrow> core list \<Rightarrow> (core \<times> nat \<times> nat) list" where
  "ranges_from first count [] = []"
| "ranges_from first count (core # cores) = (core, first, count core) # ranges_from (first + count core) count cores"

definition split_ranges :: "work_split \<Rightarrow> (core \<times> nat \<times> nat) list" where
  "split_ranges s = ranges_from 0 (core_count s) (split_cores s)"

lemma ranges_cores: "map fst (ranges_from first count cores) = cores"
  by (induction cores arbitrary: first) simp_all

lemma split_ranges_cores: "map fst (split_ranges s) = split_cores s"
  by (simp add: split_ranges_def ranges_cores)

lemma ranges_items:
  "concat (map (\<lambda>(core, first, count). [first..<first + count]) (ranges_from first count cores)) =
   [first..<first + sum_list (map count cores)]"
proof (induction cores arbitrary: first)
  case (Cons c cs)
  have "[first..<first + (count c + sum_list (map count cs))] =
      [first..<first + count c] @ [first + count c..<first + count c + sum_list (map count cs)]"
    using upt_add_eq_append [of first "first + count c" "sum_list (map count cs)"] by (simp add: add.assoc)
  with Cons show ?case by simp
qed simp

text \<open>Every item of the work is in the range of one core.\<close>

lemma split_items:
  assumes "split_ok work s"
  shows "concat (map (\<lambda>(core, first, count). [first..<first + count]) (split_ranges s)) = [0..<work]"
  using assms ranges_items [of 0 "core_count s" "split_cores s"] by (simp add: split_ok_def split_ranges_def)

lemma split_range_bound:
  assumes "split_ok work s" "(core, first, count) \<in> set (split_ranges s)"
  shows "first + count \<le> work"
proof -
  have "(core, first, count) \<in> set (ranges_from a f cores) \<Longrightarrow> first + count \<le> a + sum_list (map f cores)" for a f cores
    by (induction cores arbitrary: a) fastforce+
  then show ?thesis using assms by (fastforce simp: split_ok_def split_ranges_def)
qed

lemma split_item_core:
  assumes "split_ok work s" "i < work"
  shows "\<exists>core first count. (core, first, count) \<in> set (split_ranges s) \<and> first \<le> i \<and> i < first + count"
proof -
  have "i \<in> set (concat (map (\<lambda>(core, first, count). [first..<first + count]) (split_ranges s)))"
    using assms by (simp add: split_items)
  then show ?thesis by force
qed

text \<open>All the work on one core.\<close>

definition one_core :: "nat \<Rightarrow> work_split" where
  "one_core work = \<lparr>split_cores = [(0, 0)], in_group_1 = (\<lambda>_. True), per_core_1 = work, per_core_2 = 0\<rparr>"

lemma one_core_ok: "split_ok work (one_core work)"
  by (simp add: split_ok_def one_core_def core_count_def)

end
