(* ===== verification/RngProgram.thy ===== *)
theory RngProgram
  imports RngDevice ProgramSpec
begin

text \<open>
  The program \<open>rng_bits_program_factory.cpp\<close> builds: buffers, kernels with their bindings and
  arguments, and the arguments of every core. The page size of the state, the tile format of
  rows in the top half of their tiles, its size in bytes and the split of the tiles over the
  cores are what ttnn answers. The mover and the compute kernel that run are those of
  \<open>RngDevice\<close>, on these arguments.
\<close>

definition rng_buffers :: "nat \<Rightarrow> (nat \<times> nat) option \<Rightarrow> nat \<Rightarrow> dfb_spec list" where
  "rng_buffers state_page_bytes half_tile tile_bytes =
     [\<lparr>dfb_id = ''state'', entry_size = (state_page_bytes + 63) div 64 * 64, num_entries = 1,
       data_format = ''UInt32'', tile_format = None\<rparr>,
      \<lparr>dfb_id = ''out'', entry_size = tile_bytes, num_entries = 2, data_format = ''UInt32'', tile_format = half_tile\<rparr>]"

definition rng_common_names :: "string list" where
  "rng_common_names = [''W'', ''H'', ''Wt'', ''Ht'']"

definition rng_kernel_dir :: string where
  "rng_kernel_dir = ''ttnn/cpp/ttnn/operations/experimental/rng_bits/device/kernels/''"

definition rng_mover_spec :: "nat \<Rightarrow> kernel_spec" where
  "rng_mover_spec state_page_bytes =
     \<lparr>kernel_id = ''mover'', kernel_source = rng_kernel_dir @ ''dataflow/rng_bits_mover.cpp'', kernel_defines = [],
      dfb_bindings = [dfb_binding_of ''state'' ''state'' Producer, dfb_binding_of ''out'' ''out'' Consumer],
      tensor_bindings = [(''state'', ''state''), (''bits'', ''bits''), (''new_state'', ''new_state'')],
      compile_time_args = [(''state_page_bytes'', state_page_bytes)],
      runtime_arg_names = [''first_tile'', ''num_tiles'', ''write_state''],
      common_runtime_arg_names = rng_common_names,
      kernel_hw = ReaderConfig\<rparr>"

definition rng_compute_config :: compute_config where
  "rng_compute_config = \<lparr>math_fidelity = ''HiFi4'', math_approx_mode = False, fp32_dest_acc_en = True,
     packer_l1_acc = False, dst_full_sync_en = False, unpack_modes = []\<rparr>"

definition rng_compute_spec :: "bool \<Rightarrow> kernel_spec" where
  "rng_compute_spec philox =
     \<lparr>kernel_id = ''compute'', kernel_source = rng_kernel_dir @ ''compute/rng_bits.cpp'', kernel_defines = [],
      dfb_bindings = [dfb_binding_of ''state'' ''state'' Consumer, dfb_binding_of ''out'' ''out'' Producer],
      tensor_bindings = [],
      compile_time_args = [(''philox'', if philox then 1 else 0)],
      runtime_arg_names = [''first_tile'', ''num_tiles''],
      common_runtime_arg_names = rng_common_names,
      kernel_hw = ComputeConfig rng_compute_config\<rparr>"

definition rng_common_args :: "rng_program \<Rightarrow> (string \<times> nat) list" where
  "rng_common_args p = [(''W'', rp_W p), (''H'', rp_H p), (''Wt'', rp_Wt p), (''Ht'', rp_Ht p)]"

text \<open>The loop over the cores: the first tile, the count and the write flag of each.\<close>

definition rng_core_args :: "work_split \<Rightarrow> (core \<times> nat \<times> nat \<times> bool) list" where
  "rng_core_args s = zip (split_cores s) (core_ranges 0 0 (map (core_count s) (split_cores s)))"

definition rng_run_args :: "rng_program \<Rightarrow> work_split \<Rightarrow> kernel_run_args list" where
  "rng_run_args p s =
     [\<lparr>run_kernel = ''mover'',
       node_args = map (\<lambda>(core, first, count, write_state).
         (core, [(''first_tile'', first), (''num_tiles'', count), (''write_state'', if write_state then 1 else 0)])) (rng_core_args s),
       common_args = rng_common_args p\<rparr>,
      \<lparr>run_kernel = ''compute'',
       node_args = map (\<lambda>(core, first, count, write_state).
         (core, [(''first_tile'', first), (''num_tiles'', count)])) (rng_core_args s),
       common_args = rng_common_args p\<rparr>]"

definition rng_artifacts ::
  "bool \<Rightarrow> nat list \<Rightarrow> nat list \<Rightarrow> nat \<Rightarrow> nat \<Rightarrow> (nat \<times> nat) option \<Rightarrow> nat \<Rightarrow> 't \<Rightarrow> 't \<Rightarrow> 't \<Rightarrow> (nat \<Rightarrow> work_split) \<Rightarrow> 't program_artifacts" where
  "rng_artifacts philox shape padded physical_volume state_page_bytes half_tile tile_bytes state bits new_state split =
     (let p = rng_factory philox shape padded physical_volume state_page_bytes; s = split (rp_tiles p) in
      \<lparr>artifact_spec =
         \<lparr>spec_name = ''rng_bits'', spec_kernels = [rng_mover_spec state_page_bytes, rng_compute_spec philox],
          dataflow_buffers = rng_buffers state_page_bytes half_tile tile_bytes,
          tensor_parameters = [(''state'', state), (''bits'', bits), (''new_state'', new_state)],
          work_units = [\<lparr>unit_name = ''main'', unit_kernels = [''mover'', ''compute''], unit_nodes = split_cores s\<rparr>]\<rparr>,
       run_args = rng_run_args p s,
       tensor_args = [(''state'', state), (''bits'', bits), (''new_state'', new_state)]\<rparr>)"

section \<open>What the kernels read\<close>

definition rng_mover_interface :: kernel_interface where
  "rng_mover_interface = \<lparr>reads_compile = [''state_page_bytes''],
     reads_runtime = [''first_tile'', ''num_tiles'', ''write_state''],
     reads_dfbs = [''state'', ''out''], reads_tensors = [''state'', ''bits'', ''new_state''], reads_defines = []\<rparr>"

definition rng_compute_interface :: kernel_interface where
  "rng_compute_interface = \<lparr>reads_compile = [''philox''],
     reads_runtime = [''W'', ''H'', ''Wt'', ''Ht'', ''first_tile'', ''num_tiles''],
     reads_dfbs = [''state'', ''out''], reads_tensors = [], reads_defines = []\<rparr>"

lemma core_ranges_length [simp]: "length (core_ranges i first counts) = length counts"
  by (induction counts arbitrary: i first) simp_all

lemma rng_core_args_cores: "map fst (rng_core_args s) = split_cores s"
  by (simp add: rng_core_args_def)

lemma rng_program_wf:
  assumes "0 < state_page_bytes" "0 < tile_bytes" "\<And>work. split_ok work (split work)"
  shows "wf_program (rng_artifacts philox shape padded physical_volume state_page_bytes half_tile tile_bytes state bits new_state split)"
proof -
  have "distinct (split_cores (split work))" for work using assms(3) by (simp add: split_ok_def)
  then show ?thesis
    using assms(1,2)
    by (simp add: wf_program_simps rng_artifacts_def Let_def rng_mover_spec_def rng_compute_spec_def rng_buffers_def
        rng_run_args_def rng_common_names_def rng_common_args_def comp_def case_prod_unfold rng_core_args_cores list_all_iff
        rng_core_args_cores [unfolded comp_def])
qed

lemma rng_kernels_link:
  "links rng_mover_interface (rng_mover_spec state_page_bytes)" "links rng_compute_interface (rng_compute_spec philox)"
  by (simp_all add: links_def rng_mover_interface_def rng_mover_spec_def rng_compute_interface_def rng_compute_spec_def
      dfb_binding_of_def rng_common_names_def)

end
