(* ===== verification/IndexedRows.thy ===== *)
theory IndexedRows
  imports Prelude
begin

text \<open>
  \<open>kernels/indexed_rows_common.hpp\<close>: how a position of the index tensor addresses rows of the
  table, the moves within L1 and the streaming of index chunks. A start index is clamped as
  StableHLO clamps it, a window offset is a mixed-radix number over the windows, and the row is
  the row-major index of their sum.
\<close>

section \<open>Coordinates\<close>

record coords =
  co_c :: "int list"
  co_out_of_bounds :: bool

text \<open>One component: the clamped coordinate, and whether it was out of bounds.\<close>

definition decode_component :: "bool \<Rightarrow> u32 \<Rightarrow> nat \<Rightarrow> nat \<Rightarrow> int \<times> bool" where
  "decode_component is_unsigned raw extent window =
     (let room = of_nat extent - of_nat window :: u32; hi = sint room in
      if is_unsigned then (if room < raw then hi else sint raw, room < raw)
      else let v = sint raw; c = (if v < 0 then 0 else if hi < v then hi else v) in (c, v \<noteq> c))"

definition decode :: "nat \<Rightarrow> bool \<Rightarrow> (nat \<Rightarrow> u32) \<Rightarrow> nat \<Rightarrow> nat list \<Rightarrow> nat list \<Rightarrow> coords" where
  "decode KD is_unsigned ptr stride sizes windows =
     (let out = map (\<lambda>k. decode_component is_unsigned (ptr (k * stride)) (sizes ! k) (windows ! k)) [0..<KD]
      in \<lparr>co_c = map fst out, co_out_of_bounds = list_ex snd out\<rparr>)"

text \<open>\<open>static_cast<uint32_t>\<close> of a coordinate.\<close>

definition coord32 :: "int \<Rightarrow> nat" where
  "coord32 c = nat (c mod 2 ^ 32)"

fun window_row_loop :: "nat \<Rightarrow> int list \<Rightarrow> nat list \<Rightarrow> nat list \<Rightarrow> nat \<Rightarrow> nat \<Rightarrow> nat" where
  "window_row_loop 0 c windows strides j row = row"
| "window_row_loop (Suc k) c windows strides j row =
     (let off = j mod (windows ! k)
      in window_row_loop k c windows strides (j div (windows ! k)) (w32 (row + (coord32 (c ! k) + off) * strides ! k)))"

definition window_row :: "nat \<Rightarrow> coords \<Rightarrow> nat \<Rightarrow> nat list \<Rightarrow> nat list \<Rightarrow> nat" where
  "window_row KR coords j windows strides = window_row_loop KR (co_c coords) windows strides j 0"

section \<open>Moves within L1\<close>

text \<open>A region of L1, byte by byte.\<close>

type_synonym l1 = "nat \<Rightarrow> u8"

fun copy_up :: "nat \<Rightarrow> nat \<Rightarrow> nat list \<Rightarrow> l1 \<Rightarrow> l1" where
  "copy_up to from [] p = p"
| "copy_up to from (i # is) p = copy_up to from is (p(to + i := p (from + i)))"

definition realign :: "nat \<Rightarrow> nat \<Rightarrow> nat \<Rightarrow> l1 \<Rightarrow> l1" where
  "realign from to bytes p =
     (if from = to then p
      else if to < from then copy_up to from [0..<bytes] p
      else copy_up to from (rev [0..<bytes]) p)"

text \<open>\<open>copy_l1\<close>: whole words when everything is word aligned, bytes otherwise.\<close>

definition copy_word :: "nat \<Rightarrow> nat \<Rightarrow> l1 \<Rightarrow> nat \<Rightarrow> l1" where
  "copy_word dst src p i =
     p(dst + 4 * i := p (src + 4 * i), dst + 4 * i + 1 := p (src + 4 * i + 1),
       dst + 4 * i + 2 := p (src + 4 * i + 2), dst + 4 * i + 3 := p (src + 4 * i + 3))"

definition copy_l1 :: "nat \<Rightarrow> nat \<Rightarrow> nat \<Rightarrow> l1 \<Rightarrow> l1" where
  "copy_l1 dst src bytes p =
     (if dst mod 4 = 0 \<and> src mod 4 = 0 \<and> bytes mod 4 = 0
      then foldl (copy_word dst src) p [0..<bytes div 4]
      else foldl (\<lambda>p i. p(dst + i := p (src + i))) p [0..<bytes])"

section \<open>Streaming index positions\<close>

definition kGranule :: nat where "kGranule = 64"

text \<open>
  Positions \<open>[m0, m0 + n)\<close> of index batch \<open>batch\<close>, one read per component, into the words of
  the entry; the address of position \<open>m0\<close>'s component 0, in words.
\<close>

definition stream_index ::
  "(nat \<Rightarrow> nat \<Rightarrow> u32) \<Rightarrow> nat \<Rightarrow> nat \<Rightarrow> nat \<Rightarrow> nat \<Rightarrow> nat \<Rightarrow> (nat \<Rightarrow> u32) \<Rightarrow> (nat \<Rightarrow> u32) \<times> nat" where
  "stream_index indices K stride batch m0 n entry =
     (let base = (m0 * 4) mod kGranule div 4 in
      (foldl (\<lambda>entry k a. if base + k * stride \<le> a \<and> a < base + k * stride + n
          then indices (batch * K + k) (m0 + (a - (base + k * stride))) else entry a) entry [0..<K], base))"

section \<open>Clamping\<close>

lemma sint_small: "n < 2 ^ 31 \<Longrightarrow> sint (of_nat n :: u32) = int n"
  by (simp add: signed_of_nat signed_take_bit_int_eq_self)

text \<open>The value an index has in its type, and StableHLO's clamp of it.\<close>

definition index_value :: "bool \<Rightarrow> u32 \<Rightarrow> int" where
  "index_value is_unsigned raw = (if is_unsigned then uint raw else sint raw)"

definition clamp_index :: "int \<Rightarrow> nat \<Rightarrow> nat \<Rightarrow> int" where
  "clamp_index v extent window = max 0 (min v (int extent - int window))"

lemma decode_component_clamp:
  assumes "window \<le> extent" "extent < 2 ^ 31"
  shows "decode_component u raw extent window =
    (clamp_index (index_value u raw) extent window, clamp_index (index_value u raw) extent window \<noteq> index_value u raw)"
proof -
  have room: "(of_nat extent - of_nat window :: u32) = of_nat (extent - window)" using assms by (simp add: of_nat_diff)
  have hi: "sint (of_nat (extent - window) :: u32) = int extent - int window"
    using assms sint_small [of "extent - window"] by (simp add: of_nat_diff)
  have u: "of_nat (extent - window) < raw \<longleftrightarrow> int extent - int window < uint raw"
  proof -
    define d where "d = extent - window"
    have "d < 2 ^ 31" "int extent - int window = int d" using assms by (simp_all add: d_def of_nat_diff)
    then show ?thesis unfolding d_def [symmetric]
      by (simp add: word_less_def unsigned_of_nat take_bit_nat_eq_self)
  qed
  have "sint raw = uint raw" if "uint raw \<le> int extent - int window"
  proof -
    have "uint raw < 2 ^ 31" using that assms by simp
    moreover have "- (2 ^ 31) \<le> uint raw" by (rule order_trans [OF _ uint_ge_0]) simp
    ultimately have "signed_take_bit 31 (uint raw) = uint raw" by (intro signed_take_bit_int_eq_self) simp_all
    then show ?thesis by (simp add: sint_uint)
  qed
  then show ?thesis
    using assms unfolding decode_component_def room hi u Let_def
    by (auto simp: clamp_index_def index_value_def)
qed

lemma clamp_index_bounds: "window \<le> extent \<Longrightarrow> 0 \<le> clamp_index v extent window \<and> clamp_index v extent window \<le> int extent - int window"
  by (auto simp: clamp_index_def)

section \<open>Mixed radix\<close>

text \<open>The row-major index of a multi-index, its strides, and the digits of a number.\<close>

fun row_major :: "nat list \<Rightarrow> nat list \<Rightarrow> nat" where
  "row_major (s # ss) (x # xs) = x * prod_list ss + row_major ss xs"
| "row_major _ _ = 0"

fun digits :: "nat list \<Rightarrow> nat \<Rightarrow> nat list" where
  "digits [] j = []"
| "digits (w # ws) j = j div prod_list ws mod w # digits ws j"

definition strides_of :: "nat list \<Rightarrow> nat list" where
  "strides_of ss = map (\<lambda>k. prod_list (drop (Suc k) ss)) [0..<length ss]"

lemma length_digits [simp]: "length (digits ws j) = length ws"
  by (induction ws) simp_all

lemma digits_nth: "k < length ws \<Longrightarrow> digits ws j ! k = j div prod_list (drop (Suc k) ws) mod (ws ! k)"
  by (induction ws arbitrary: k) (auto simp: nth_Cons split: nat.splits)

lemma row_major_sum:
  "length xs = length ss \<Longrightarrow> row_major ss xs = (\<Sum>k<length ss. xs ! k * prod_list (drop (Suc k) ss))"
proof (induction ss xs rule: row_major.induct)
  case (1 s ss x xs)
  then show ?case by (simp add: sum.lessThan_Suc_shift del: sum.lessThan_Suc)
qed auto

lemma row_major_less:
  assumes "length xs = length ss" "\<And>k. k < length ss \<Longrightarrow> xs ! k < ss ! k"
  shows "row_major ss xs < prod_list ss"
  using assms
proof (induction ss xs rule: row_major.induct)
  case (1 s ss x xs)
  have "xs ! k < ss ! k" if "k < length ss" for k using "1.prems"(2) [of "Suc k"] that by simp
  then have "row_major ss xs < prod_list ss" using "1.prems"(1) by (intro "1.IH") auto
  moreover have "x < s" using "1.prems"(2) [of 0] by simp
  ultimately show ?case using index_less_product [of x s "row_major ss xs" "prod_list ss"] by simp
qed auto

text \<open>The loop of \<open>window_row\<close>: row-major index of start plus digits of the window offset.\<close>

lemma window_row_loop_sum:
  assumes "k \<le> length windows" "k \<le> length strides"
    and "(row + (\<Sum>i<k. (coord32 (c ! i) + j div prod_list (drop (Suc i) (take k windows)) mod (windows ! i)) * strides ! i)) < 2 ^ 32"
  shows "window_row_loop k c windows strides j row =
    row + (\<Sum>i<k. (coord32 (c ! i) + j div prod_list (drop (Suc i) (take k windows)) mod (windows ! i)) * strides ! i)"
  using assms
proof (induction k arbitrary: j row)
  case (Suc k)
  let ?t = "\<lambda>i. (coord32 (c ! i) + j div windows ! k div prod_list (drop (Suc i) (take k windows)) mod (windows ! i)) * strides ! i"
  let ?last = "(coord32 (c ! k) + j mod windows ! k) * strides ! k"
  have take: "take (Suc k) windows = take k windows @ [windows ! k]"
    using Suc.prems(1) by (simp add: take_Suc_conv_app_nth)
  have digit: "j div prod_list (drop (Suc i) (take (Suc k) windows)) = j div windows ! k div prod_list (drop (Suc i) (take k windows))"
    if "i < k" for i
    using that Suc.prems(1) by (simp add: take div_mult2_eq [symmetric] mult.commute)
  have split: "(\<Sum>i<Suc k. (coord32 (c ! i) + j div prod_list (drop (Suc i) (take (Suc k) windows)) mod (windows ! i)) * strides ! i) =
      (\<Sum>i<k. ?t i) + ?last"
  proof -
    have "(\<Sum>i<k. (coord32 (c ! i) + j div prod_list (drop (Suc i) (take (Suc k) windows)) mod (windows ! i)) * strides ! i) =
        (\<Sum>i<k. ?t i)" by (rule sum.cong) (simp_all only: lessThan_iff digit)
    then show ?thesis using Suc.prems(1) by simp
  qed
  have "row + ?last + (\<Sum>i<k. ?t i) < 2 ^ 32" using Suc.prems(3) unfolding split by linarith
  then have w: "w32 (row + ?last) = row + ?last" and s: "row + ?last + (\<Sum>i<k. ?t i) < 2 ^ 32"
    by (simp_all add: w32_id)
  have "window_row_loop (Suc k) c windows strides j row = window_row_loop k c windows strides (j div windows ! k) (row + ?last)"
    using w by (simp add: Let_def)
  also have "\<dots> = row + ?last + (\<Sum>i<k. ?t i)"
    using Suc.prems(1,2) s by (intro Suc.IH) simp_all
  finally show ?case unfolding split by simp
qed simp

text \<open>The rows a position names: the first components of its start, plus the window's digits.\<close>

definition position_row :: "nat \<Rightarrow> nat list \<Rightarrow> nat list \<Rightarrow> int list \<Rightarrow> nat \<Rightarrow> nat" where
  "position_row KR sizes windows start j =
     row_major (take KR sizes) (map2 (\<lambda>c d. nat c + d) (take KR start) (digits (take KR windows) j))"

definition windows_ok :: "nat list \<Rightarrow> nat list \<Rightarrow> bool" where
  "windows_ok sizes windows \<longleftrightarrow> length windows = length sizes \<and>
     (\<forall>k < length sizes. 1 \<le> windows ! k \<and> windows ! k \<le> sizes ! k)"

definition start_ok :: "nat list \<Rightarrow> nat list \<Rightarrow> int list \<Rightarrow> bool" where
  "start_ok sizes windows c \<longleftrightarrow> length c \<le> length sizes \<and>
     (\<forall>k < length c. 0 \<le> c ! k \<and> c ! k \<le> int (sizes ! k) - int (windows ! k))"

lemma coord32_nat: "0 \<le> c \<Longrightarrow> c < 2 ^ 32 \<Longrightarrow> coord32 c = nat c"
  by (simp add: coord32_def)

lemma prod_list_ge: "x \<in> set xs \<Longrightarrow> 0 \<notin> set xs \<Longrightarrow> x \<le> prod_list (xs :: nat list)"
proof (induction xs)
  case (Cons y ys)
  then have "0 < prod_list ys" "0 < y" by (auto simp: prod_list_zero_iff intro: gr0I)
  with Cons show ?case by (cases "x = y") (auto intro: le_trans)
qed simp

lemma position_row_less:
  assumes "windows_ok sizes windows" "start_ok sizes windows c" "KR \<le> length c"
  shows "position_row KR sizes windows c j < prod_list (take KR sizes)"
  unfolding position_row_def
proof (rule row_major_less)
  have len: "KR \<le> length sizes" "length windows = length sizes"
    using assms by (auto simp: start_ok_def windows_ok_def)
  with assms(3) show "length (map2 (\<lambda>c d. nat c + d) (take KR c) (digits (take KR windows) j)) = length (take KR sizes)" by simp
  fix k assume "k < length (take KR sizes)"
  then have k: "k < KR" "k < length sizes" "k < length c" using assms(3) by simp_all
  have "0 \<le> c ! k" "c ! k \<le> int (sizes ! k) - int (windows ! k)" "1 \<le> windows ! k"
    using assms k by (auto simp: start_ok_def windows_ok_def)
  moreover have "digits (take KR windows) j ! k < windows ! k"
    using k len calculation(3) by (simp add: digits_nth)
  ultimately show "map2 (\<lambda>c d. nat c + d) (take KR c) (digits (take KR windows) j) ! k < take KR sizes ! k"
    using k len assms(3) by simp
qed

lemma window_row_position:
  assumes "windows_ok sizes windows" "start_ok sizes windows (co_c coords)" "KR \<le> length (co_c coords)"
    and "length strides = length sizes" "take KR strides = strides_of (take KR sizes)"
    and "prod_list (take KR sizes) \<le> 2 ^ 32"
  shows "window_row KR coords j windows strides = position_row KR sizes windows (co_c coords) j"
proof -
  let ?c = "co_c coords"
  let ?xs = "map2 (\<lambda>c d. nat c + d) (take KR ?c) (digits (take KR windows) j)"
  have len: "KR \<le> length sizes" "length windows = length sizes"
    using assms by (auto simp: start_ok_def windows_ok_def)
  have stride: "strides ! k = prod_list (drop (Suc k) (take KR sizes))" if "k < KR" for k
  proof -
    have "strides ! k = take KR strides ! k" using that by simp
    then show ?thesis using that len by (simp add: assms(5) strides_of_def)
  qed
  have coord: "coord32 (?c ! k) = nat (?c ! k)" if "k < KR" for k
  proof -
    have "sizes ! k \<in> set (take KR sizes)" using that len by (auto simp: in_set_conv_nth intro!: exI [of _ k])
    moreover have "0 \<notin> set (take KR sizes)" using assms(1) len
      by (metis in_set_conv_nth in_set_takeD not_one_le_zero le_zero_eq windows_ok_def)
    ultimately have "sizes ! k \<le> prod_list (take KR sizes)" by (rule prod_list_ge)
    moreover have "0 \<le> ?c ! k" "?c ! k \<le> int (sizes ! k) - int (windows ! k)" "1 \<le> windows ! k"
      using assms(1-3) that len by (auto simp: start_ok_def windows_ok_def)
    ultimately show ?thesis using assms(6) by (intro coord32_nat) simp_all
  qed
  have "position_row KR sizes windows ?c j = (\<Sum>k<KR. ?xs ! k * prod_list (drop (Suc k) (take KR sizes)))"
    using len assms(3) by (simp add: position_row_def row_major_sum min_absorb1 min_absorb2)
  also have "\<dots> = (\<Sum>i<KR. (coord32 (?c ! i) + j div prod_list (drop (Suc i) (take KR windows)) mod (windows ! i)) * strides ! i)"
    using len assms(3) by (intro sum.cong) (simp_all add: coord stride digits_nth)
  finally have sum: "\<dots> = position_row KR sizes windows ?c j" by simp
  have "\<dots> < 2 ^ 32" using position_row_less [OF assms(1-3), of j] assms(6) by simp
  then show ?thesis
    using window_row_loop_sum [of KR windows strides 0 ?c j] len assms(4) by (simp add: sum window_row_def)
qed

section \<open>The moves\<close>

lemma copy_up_ascending:
  "to < from \<Longrightarrow> copy_up to from [0..<n] p a = (if to \<le> a \<and> a < to + n then p (from + (a - to)) else p a)"
proof (induction n arbitrary: a)
  case (Suc n)
  have append: "copy_up to from (xs @ [i]) p = (copy_up to from xs p)(to + i := copy_up to from xs p (from + i))" for xs i p
    by (induction xs arbitrary: p) simp_all
  show ?case using Suc by (auto simp: append less_Suc_eq)
qed auto

lemma copy_up_descending:
  "from < to \<Longrightarrow> copy_up to from (rev [0..<n]) p a = (if to \<le> a \<and> a < to + n then p (from + (a - to)) else p a)"
  by (induction n arbitrary: p) auto

lemma realign_moves: "i < bytes \<Longrightarrow> realign from to bytes p (to + i) = p (from + i)"
  by (simp add: realign_def copy_up_ascending copy_up_descending)

lemma copy_word_at:
  "copy_word dst src p i a = (if dst + 4 * i \<le> a \<and> a < dst + 4 * i + 4 then p (src + (a - dst)) else p a)"
proof -
  consider "a < dst + 4 * i" | "dst + 4 * i + 4 \<le> a" | m where "m < 4" "a = dst + 4 * i + m"
    by (metis add_less_cancel_left le_add_diff_inverse not_less)
  then show ?thesis
  proof cases
    case 3
    then have "m = 0 \<or> m = 1 \<or> m = 2 \<or> m = 3" by linarith
    then show ?thesis using 3 by (elim disjE) (simp_all add: copy_word_def add.assoc)
  qed (simp_all add: copy_word_def)
qed

lemma copy_l1_at:
  assumes "src + bytes \<le> dst \<or> dst + bytes \<le> src"
  shows "copy_l1 dst src bytes p a = (if dst \<le> a \<and> a < dst + bytes then p (src + (a - dst)) else p a)"
proof -
  have byte: "foldl (\<lambda>p i. p(dst + i := p (src + i))) p [0..<n] a = (if dst \<le> a \<and> a < dst + n then p (src + (a - dst)) else p a)"
    if "n \<le> bytes" for n a
    using that assms by (induction n arbitrary: a) (auto simp: less_Suc_eq)
  have word: "foldl (copy_word dst src) p [0..<n] a = (if dst \<le> a \<and> a < dst + 4 * n then p (src + (a - dst)) else p a)"
    if "4 * n \<le> bytes" for n a
    using that
  proof (induction n arbitrary: a)
    case (Suc n)
    define q where "q = foldl (copy_word dst src) p [0..<n]"
    have IH: "q a = (if dst \<le> a \<and> a < dst + 4 * n then p (src + (a - dst)) else p a)" for a
      unfolding q_def by (rule Suc.IH) (use Suc.prems in simp)
    have src: "q (src + (a - dst)) = p (src + (a - dst))" if "dst + 4 * n \<le> a" "a < dst + 4 * n + 4"
      using that assms Suc.prems by (subst IH) auto
    have last: "foldl (copy_word dst src) p [0..<Suc n] a = copy_word dst src q n a" by (simp add: q_def)
    show ?case unfolding last using src by (subst copy_word_at) (auto simp: IH [of a])
  qed auto
  show ?thesis
    using byte [of bytes a] word [of "bytes div 4" a] by (auto simp: copy_l1_def)
qed

lemma stream_index_at:
  assumes "k < K" "i < n" "n + 16 \<le> stride"
  shows "fst (stream_index indices K stride batch m0 n entry) (snd (stream_index indices K stride batch m0 n entry) + i + k * stride) =
    indices (batch * K + k) (m0 + i)"
proof -
  let ?base = "(m0 * 4) mod kGranule div 4"
  have base: "?base < 16" by (simp add: kGranule_def less_mult_imp_div_less)
  have "foldl (\<lambda>entry k a. if ?base + k * stride \<le> a \<and> a < ?base + k * stride + n
      then indices (batch * K + k) (m0 + (a - (?base + k * stride))) else entry a) entry [0..<m] (?base + i + k * stride) =
    indices (batch * K + k) (m0 + i)" if "k < m" for m
    using that
  proof (induction m)
    case (Suc m)
    show ?case
    proof (cases "k = m")
      case True
      then show ?thesis using assms(2) by simp
    next
      case False
      then have "k < m" using Suc.prems by simp
      then have "(k + 1) * stride \<le> m * stride" by (intro mult_le_mono1) simp
      then have "?base + i + k * stride < ?base + m * stride" using assms(2,3) base by simp
      then show ?thesis using Suc.IH [OF \<open>k < m\<close>] by simp
    qed
  qed simp
  from this [OF assms(1)] show ?thesis by (simp add: stream_index_def Let_def)
qed

end
