(* ===== verification/IndexedRowsPlan.thy ===== *)
theory IndexedRowsPlan
  imports IndexedRows ProgramSpec
begin

text \<open>
  The host side of rows_gather and rows_scatter: the checks and shapes of
  \<open>indexed_rows_device_operation.cpp\<close>, the geometry and the programs of
  \<open>indexed_rows_program_factory.cpp\<close>. A tensor is what ttnn answers of it. Products of
  \<open>uint32_t\<close> values wrap as in the code.
\<close>

section \<open>Operands\<close>

datatype data_type = FLOAT32 | BFLOAT16 | FLOAT16 | INT32 | UINT32 | UINT16 | INT8 | UINT8 | OtherType nat

record tensor =
  ten_allocated :: bool
  ten_row_major :: bool
  ten_interleaved :: bool
  ten_shape :: "nat list"
  ten_dtype :: data_type
  ten_elem_bytes :: nat
  ten_device :: nat

datatype rows_reduce = ReduceNone | ReduceAdd | ReduceMul | ReduceMax | ReduceMin

definition reduce_code :: "rows_reduce \<Rightarrow> nat" where
  "reduce_code r = (case r of ReduceNone \<Rightarrow> 0 | ReduceAdd \<Rightarrow> 1 | ReduceMul \<Rightarrow> 2 | ReduceMax \<Rightarrow> 3 | ReduceMin \<Rightarrow> 4)"

record rows_params =
  ip_sizes :: "nat list"
  ip_windows :: "nat list"
  ip_column :: bool
  ip_fill_out_of_bounds :: bool
  ip_reduce :: rows_reduce
  ip_out_interleaved :: bool

record rows_inputs =
  in_table :: tensor
  in_indices :: tensor
  in_source :: "tensor option"

record rows_table =
  rt_B :: nat
  rt_N :: nat
  rt_S :: nat
  rt_R :: nat
  rt_trailing :: "nat list"
  rt_column_window :: nat

definition row_components :: "rows_params \<Rightarrow> nat" where
  "row_components p = length (ip_windows p) - (if ip_column p then 1 else 0)"

definition indexed_rows_window :: "rows_params \<Rightarrow> nat" where
  "indexed_rows_window p = product32 (take (row_components p) (ip_windows p))"

definition indexed_rows_table :: "rows_params \<Rightarrow> tensor \<Rightarrow> rows_table" where
  "indexed_rows_table p t =
     (let shape = ten_shape t in
      \<lparr>rt_B = shape ! 0, rt_N = shape ! 1,
       rt_S = product32 (take (length shape - 1 - 2) (drop 2 shape)),
       rt_R = shape ! (length shape - 1), rt_trailing = drop 2 shape,
       rt_column_window = (if ip_column p then last (ip_windows p) else 0)\<rparr>)"

definition gathered_shape :: "rows_params \<Rightarrow> tensor \<Rightarrow> tensor \<Rightarrow> nat list" where
  "gathered_shape p table indices =
     (let t = indexed_rows_table p table; positions = w32 (ten_shape indices ! 2 * indexed_rows_window p)
      in if ip_column p then [rt_B t, w32 (positions * rt_column_window t)]
         else [rt_B t, positions] @ rt_trailing t)"

section \<open>Validation\<close>

datatype rows_error =
    NotAllocated string | NotRowMajor string | NotInterleaved string | RankTooSmall string nat "nat list"
  | OtherDevice string | IndexRank "nat list" | IndexType data_type | IndexBatches nat nat
  | ComponentCounts nat nat nat | BadWindow nat nat nat | RowsMismatch nat nat
  | ColumnPages "nat list" | ColumnSize nat nat | OutNotInterleaved
  | SourceMissing | SourceType data_type data_type | SourceShape "nat list" "nat list"
  | CannotReduce data_type | SourceGiven

definition check_tensor :: "tensor \<Rightarrow> tensor \<Rightarrow> string \<Rightarrow> nat \<Rightarrow> rows_error + unit" where
  "check_tensor table t what min_rank =
     (if \<not> ten_allocated t then Inl (NotAllocated what)
      else if \<not> ten_row_major t then Inl (NotRowMajor what)
      else if \<not> ten_interleaved t then Inl (NotInterleaved what)
      else if length (ten_shape t) < min_rank then Inl (RankTooSmall what min_rank (ten_shape t))
      else if ten_device t \<noteq> ten_device table then Inl (OtherDevice what)
      else Inr ())"

text \<open>The loop over the components; \<open>rows\<close> is a \<open>uint64_t\<close>.\<close>

fun check_components :: "nat \<Rightarrow> nat \<Rightarrow> nat list \<Rightarrow> nat list \<Rightarrow> nat \<Rightarrow> rows_error + nat" where
  "check_components k row_comps (s # sizes) (w # windows) rows =
     (if \<not> (1 \<le> w \<and> w \<le> s) then Inl (BadWindow k w s)
      else check_components (k + 1) row_comps sizes windows (if k < row_comps then rows * s mod 2 ^ 64 else rows))"
| "check_components k row_comps _ _ rows = Inr rows"

definition reducible :: "data_type \<Rightarrow> bool" where
  "reducible d \<longleftrightarrow> d \<in> {FLOAT32, BFLOAT16, FLOAT16, INT32, UINT32, UINT16, UINT8, INT8}"

definition check_source :: "rows_params \<Rightarrow> rows_inputs \<Rightarrow> bool \<Rightarrow> rows_error + unit" where
  "check_source p i scatter =
     (case in_source i of
        None \<Rightarrow> if scatter then Inl SourceMissing else Inr ()
      | Some source \<Rightarrow>
          if \<not> scatter then Inl SourceGiven
          else case check_tensor (in_table i) source ''the source tensor'' 2 of Inl e \<Rightarrow> Inl e | Inr _ \<Rightarrow>
            if ten_dtype source \<noteq> ten_dtype (in_table i) then Inl (SourceType (ten_dtype source) (ten_dtype (in_table i)))
            else if ten_shape source \<noteq> gathered_shape p (in_table i) (in_indices i)
            then Inl (SourceShape (gathered_shape p (in_table i) (in_indices i)) (ten_shape source))
            else if ip_reduce p \<noteq> ReduceNone \<and> \<not> reducible (ten_dtype (in_table i)) then Inl (CannotReduce (ten_dtype (in_table i)))
            else Inr ())"

definition validate_indexed_rows :: "rows_params \<Rightarrow> rows_inputs \<Rightarrow> bool \<Rightarrow> rows_error + unit" where
  "validate_indexed_rows p i scatter =
     (case check_tensor (in_table i) (in_table i) ''the table'' 3 of Inl e \<Rightarrow> Inl e | Inr _ \<Rightarrow>
      case check_tensor (in_table i) (in_indices i) ''the index tensor'' 3 of Inl e \<Rightarrow> Inl e | Inr _ \<Rightarrow>
      let index_shape = ten_shape (in_indices i); t = indexed_rows_table p (in_table i);
          K = length (ip_sizes p) in
      if length index_shape \<noteq> 3 then Inl (IndexRank index_shape)
      else if ten_dtype (in_indices i) \<noteq> INT32 \<and> ten_dtype (in_indices i) \<noteq> UINT32 then Inl (IndexType (ten_dtype (in_indices i)))
      else if index_shape ! 0 \<noteq> rt_B t \<and> index_shape ! 0 \<noteq> 1 then Inl (IndexBatches (index_shape ! 0) (rt_B t))
      else if \<not> (1 \<le> K \<and> length (ip_windows p) = K \<and> index_shape ! 1 = K)
      then Inl (ComponentCounts K (length (ip_windows p)) (index_shape ! 1))
      else case check_components 0 (K - (if ip_column p then 1 else 0)) (ip_sizes p) (ip_windows p) 1 of Inl e \<Rightarrow> Inl e | Inr rows \<Rightarrow>
      if rows \<noteq> rt_N t then Inl (RowsMismatch rows (rt_N t))
      else if ip_column p \<and> rt_S t \<noteq> 1 then Inl (ColumnPages (ten_shape (in_table i)))
      else if ip_column p \<and> last (ip_sizes p) \<noteq> rt_R t then Inl (ColumnSize (last (ip_sizes p)) (rt_R t))
      else if \<not> ip_out_interleaved p then Inl OutNotInterleaved
      else check_source p i scatter)"

section \<open>Geometry\<close>

definition kEntryAlign :: nat where "kEntryAlign = 64"

definition align_entry :: "nat \<Rightarrow> nat" where
  "align_entry bytes = w32 (w32 (bytes + kEntryAlign - 1) div kEntryAlign * kEntryAlign)"

fun comma_loop :: "string \<Rightarrow> nat list \<Rightarrow> string" where
  "comma_loop out [] = out"
| "comma_loop out (v # vs) = comma_loop ((if out \<noteq> [] then out @ '','' else out) @ show_nat v) vs"

definition comma_list :: "nat list \<Rightarrow> string" where
  "comma_list xs = comma_loop [] xs"

definition elem_kind :: "data_type \<Rightarrow> nat" where
  "elem_kind d = (case d of FLOAT32 \<Rightarrow> 1 | BFLOAT16 \<Rightarrow> 2 | FLOAT16 \<Rightarrow> 3 | INT32 \<Rightarrow> 4 | UINT32 \<Rightarrow> 5 | UINT16 \<Rightarrow> 7
     | INT8 \<Rightarrow> 8 | UINT8 \<Rightarrow> 9 | OtherType _ \<Rightarrow> 0)"

text \<open>The loop that gives each row component its stride; a column component keeps 0.\<close>

fun strides_loop :: "nat \<Rightarrow> nat list \<Rightarrow> nat \<Rightarrow> nat list \<Rightarrow> nat list" where
  "strides_loop 0 sizes stride strides = strides"
| "strides_loop (Suc k) sizes stride strides = strides_loop k sizes (w32 (stride * sizes ! k)) (strides[k := stride])"

record geometry =
  ge_table :: rows_table
  ge_Bi :: nat
  ge_M :: nat
  ge_K :: nat
  ge_elem_bytes :: nat
  ge_page_bytes :: nat
  ge_chunk_bytes :: nat
  ge_entry_bytes :: nat
  ge_group :: nat
  ge_index_batch :: nat
  ge_index_stride_bytes :: nat
  ge_index_entry_bytes :: nat
  ge_source_entry_bytes :: nat
  ge_pages :: nat
  ge_transfers_per_item :: nat
  ge_compile_time_args :: "(string \<times> nat) list"
  ge_defines :: "(string \<times> string) list"

definition clamp_nat :: "nat \<Rightarrow> nat \<Rightarrow> nat \<Rightarrow> nat" where
  "clamp_nat v lo hi = (if v < lo then lo else if hi < v then hi else v)"

definition index_batch_of :: "nat \<Rightarrow> nat \<Rightarrow> nat \<Rightarrow> nat" where
  "index_batch_of K source_per_position M =
     (let index_bytes = w32 (K * 4); batch = max 1 (16 * 1024 div index_bytes);
          batch = (if 0 < source_per_position then clamp_nat (64 * 1024 div source_per_position) 1 batch else batch)
      in min batch (max M 1))"

definition transfers_of :: "bool \<Rightarrow> nat \<Rightarrow> nat \<Rightarrow> nat \<Rightarrow> nat \<Rightarrow> nat" where
  "transfers_of column window S page_bytes chunk_bytes =
     (if column then window else w32 (window * S * (w32 (page_bytes + chunk_bytes - 1) div chunk_bytes)))"

definition entry_bytes_of :: "bool \<Rightarrow> nat \<Rightarrow> nat \<Rightarrow> nat \<Rightarrow> nat" where
  "entry_bytes_of column column_window elem_bytes chunk_bytes =
     align_entry (max chunk_bytes (if column then w32 (column_window * elem_bytes + kEntryAlign) else 0))"

definition group_of :: "nat \<Rightarrow> nat" where
  "group_of entry_bytes = clamp_nat (256 * 1024 div entry_bytes) 1 16"

definition source_per_position_of :: "bool \<Rightarrow> nat \<Rightarrow> nat \<Rightarrow> nat \<Rightarrow> nat" where
  "source_per_position_of column window column_window elem_bytes = (if column then w32 (window * column_window * elem_bytes) else 0)"

definition index_stride_of :: "nat \<Rightarrow> nat" where
  "index_stride_of index_batch = align_entry (w32 (index_batch * 4 + kEntryAlign))"

definition source_entry_of :: "nat \<Rightarrow> nat \<Rightarrow> nat" where
  "source_entry_of index_batch source_per_position =
     align_entry (w32 (max (w32 (index_batch * source_per_position)) 1 + kEntryAlign))"

definition component_strides :: "rows_params \<Rightarrow> nat list" where
  "component_strides p = (let K = length (ip_sizes p) in
     strides_loop (K - (if ip_column p then 1 else 0)) (ip_sizes p) 1 (replicate K 0))"

definition geometry :: "rows_params \<Rightarrow> rows_inputs \<Rightarrow> geometry" where
  "geometry p i =
     (let t = indexed_rows_table p (in_table i); index_shape = ten_shape (in_indices i);
          Bi = index_shape ! 0; K = length (ip_sizes p); M = index_shape ! 2;
          elem_bytes = ten_elem_bytes (in_table i);
          page_bytes = w32 (rt_R t * elem_bytes);
          pages = w32 (rt_N t * rt_S t);
          kMaxChunk = 64 * 1024;
          chunk_bytes = min page_bytes kMaxChunk;
          window = indexed_rows_window p;
          transfers = transfers_of (ip_column p) window (rt_S t) page_bytes chunk_bytes;
          entry_bytes = entry_bytes_of (ip_column p) (rt_column_window t) elem_bytes chunk_bytes;
          group = group_of entry_bytes;
          source_per_position = source_per_position_of (ip_column p) window (rt_column_window t) elem_bytes;
          index_batch = index_batch_of K source_per_position M;
          index_stride_bytes = index_stride_of index_batch;
          strides = component_strides p
      in \<lparr>ge_table = t, ge_Bi = Bi, ge_M = M, ge_K = K, ge_elem_bytes = elem_bytes, ge_page_bytes = page_bytes,
          ge_chunk_bytes = chunk_bytes, ge_entry_bytes = entry_bytes, ge_group = group, ge_index_batch = index_batch,
          ge_index_stride_bytes = index_stride_bytes, ge_index_entry_bytes = w32 (K * index_stride_bytes),
          ge_source_entry_bytes = source_entry_of index_batch source_per_position,
          ge_pages = pages, ge_transfers_per_item = transfers,
          ge_compile_time_args =
            [(''num_components'', K), (''column'', of_bool (ip_column p)),
             (''index_unsigned'', of_bool (ten_dtype (in_indices i) = UINT32)),
             (''fill_oob'', of_bool (ip_fill_out_of_bounds p)), (''index_shared'', of_bool (Bi = 1)),
             (''window'', window), (''positions'', M), (''rows_per_batch'', rt_N t), (''pages_per_row'', rt_S t),
             (''page_bytes'', page_bytes), (''chunk_bytes'', chunk_bytes),
             (''index_stride'', index_stride_bytes div 4), (''group'', group), (''index_batch'', index_batch),
             (''batch'', 0), (''elem_kind'', elem_kind (ten_dtype (in_table i))), (''elem_bytes'', elem_bytes),
             (''reduce'', reduce_code (ip_reduce p))],
          ge_defines = [(''ROWS_SIZES'', comma_list (ip_sizes p)), (''ROWS_WINDOWS'', comma_list (ip_windows p)),
            (''ROWS_STRIDES'', comma_list strides)]\<rparr>)"

section \<open>The programs\<close>

definition rows_kernel_dir :: string where
  "rows_kernel_dir = ''ttnn/cpp/ttnn/operations/experimental/indexed_rows/device/kernels/dataflow/''"

definition rows_kernel :: "geometry \<Rightarrow> string \<Rightarrow> string \<Rightarrow> dfb_binding list \<Rightarrow> (string \<times> string) list \<Rightarrow> string list \<Rightarrow> hw_config \<Rightarrow> kernel_spec" where
  "rows_kernel g name source dfbs tensors runtime hw =
     \<lparr>kernel_id = name, kernel_source = rows_kernel_dir @ source, kernel_defines = ge_defines g, dfb_bindings = dfbs,
      tensor_bindings = tensors, compile_time_args = ge_compile_time_args g, runtime_arg_names = runtime,
      common_runtime_arg_names = [], kernel_hw = hw\<rparr>"

definition range_args :: "string \<Rightarrow> string \<Rightarrow> work_split \<Rightarrow> (core \<times> (string \<times> nat) list) list" where
  "range_args first_name count_name s =
     map (\<lambda>(core, first, count). (core, [(first_name, first), (count_name, count)])) (split_ranges s)"

definition gather_reader_spec :: "geometry \<Rightarrow> kernel_spec" where
  "gather_reader_spec g = rows_kernel g ''reader'' ''rows_gather_reader.cpp''
     [dfb_binding_of ''rows'' ''rows'' Producer, dfb_binding_of ''index'' ''index'' Producer,
      dfb_binding_of ''index'' ''index'' Consumer]
     [(''table'', ''table''), (''indices'', ''indices'')] [''first_transfer'', ''num_transfers''] ReaderConfig"

definition gather_writer_spec :: "geometry \<Rightarrow> kernel_spec" where
  "gather_writer_spec g = rows_kernel g ''writer'' ''rows_gather_writer.cpp'' [dfb_binding_of ''rows'' ''rows'' Consumer]
     [(''output'', ''output'')] [''first_transfer'', ''num_transfers''] WriterConfig"

definition gather_work :: "geometry \<Rightarrow> nat" where
  "gather_work g = w32 (rt_B (ge_table g) * ge_M g * ge_transfers_per_item g)"

definition gather_artifacts ::
  "rows_params \<Rightarrow> rows_inputs \<Rightarrow> 't \<Rightarrow> 't \<Rightarrow> 't \<Rightarrow> (nat \<Rightarrow> work_split) \<Rightarrow> 't program_artifacts" where
  "gather_artifacts p i table indices output split =
     (let g = geometry p i; s = split (gather_work g); args = range_args ''first_transfer'' ''num_transfers'' s;
          tensors = [(''table'', table), (''indices'', indices), (''output'', output)] in
      \<lparr>artifact_spec = \<lparr>spec_name = ''rows_gather'', spec_kernels = [gather_reader_spec g, gather_writer_spec g],
         dataflow_buffers = [dfb_plain ''rows'' (ge_entry_bytes g) (2 * ge_group g), dfb_plain ''index'' (ge_index_entry_bytes g) 1],
         tensor_parameters = tensors,
         work_units = [\<lparr>unit_name = ''main'', unit_kernels = [''reader'', ''writer''], unit_nodes = split_cores s\<rparr>]\<rparr>,
       run_args = [\<lparr>run_kernel = ''reader'', node_args = args, common_args = []\<rparr>,
                   \<lparr>run_kernel = ''writer'', node_args = args, common_args = []\<rparr>],
       tensor_args = tensors\<rparr>)"

text \<open>rows_scatter streams batches of whole groups through a buffer of 512 KiB.\<close>

definition set_arg :: "string \<Rightarrow> nat \<Rightarrow> (string \<times> nat) list \<Rightarrow> (string \<times> nat) list" where
  "set_arg name v args = map (\<lambda>(n, x). (n, if n = name then v else x)) args"

definition scatter_group :: "geometry \<Rightarrow> nat" where
  "scatter_group g = min (ge_group g) (max 1 (512 * 1024 div ge_entry_bytes g))"

definition scatter_batch :: "geometry \<Rightarrow> nat" where
  "scatter_batch g = (let batch = max 1 (512 * 1024 div ge_entry_bytes g) in batch - batch mod scatter_group g)"

definition scatter_geometry :: "geometry \<Rightarrow> geometry" where
  "scatter_geometry g = g\<lparr>ge_compile_time_args :=
     set_arg ''group'' (scatter_group g) (set_arg ''batch'' (scatter_batch g) (ge_compile_time_args g))\<rparr>"

definition scatter_reader_spec :: "geometry \<Rightarrow> kernel_spec" where
  "scatter_reader_spec g = rows_kernel g ''reader'' ''rows_scatter_reader.cpp'' [dfb_binding_of ''rows'' ''rows'' Producer]
     [(''table'', ''table'')] [''first_page'', ''num_pages''] ReaderConfig"

definition scatter_writer_spec :: "geometry \<Rightarrow> kernel_spec" where
  "scatter_writer_spec g = rows_kernel g ''writer'' ''rows_scatter_writer.cpp''
     [dfb_binding_of ''rows'' ''rows'' Consumer,
      dfb_binding_of ''index'' ''index'' Producer, dfb_binding_of ''index'' ''index'' Consumer,
      dfb_binding_of ''stream'' ''stream'' Producer, dfb_binding_of ''stream'' ''stream'' Consumer,
      dfb_binding_of ''scratch'' ''scratch'' Producer, dfb_binding_of ''scratch'' ''scratch'' Consumer]
     [(''indices'', ''indices''), (''source'', ''source''), (''output'', ''output'')] [''first_page'', ''num_pages''] WriterConfig"

definition scatter_work :: "geometry \<Rightarrow> nat" where
  "scatter_work g = w32 (rt_B (ge_table g) * ge_pages g)"

definition scatter_artifacts ::
  "rows_params \<Rightarrow> rows_inputs \<Rightarrow> 't \<Rightarrow> 't \<Rightarrow> 't \<Rightarrow> 't \<Rightarrow> (nat \<Rightarrow> work_split) \<Rightarrow> 't program_artifacts" where
  "scatter_artifacts p i table indices source output split =
     (let g0 = geometry p i; s = split (scatter_work g0); g = scatter_geometry g0;
          args = range_args ''first_page'' ''num_pages'' s;
          tensors = [(''table'', table), (''indices'', indices), (''source'', source), (''output'', output)] in
      \<lparr>artifact_spec = \<lparr>spec_name = ''rows_scatter'', spec_kernels = [scatter_reader_spec g, scatter_writer_spec g],
         dataflow_buffers = [dfb_plain ''rows'' (ge_entry_bytes g) (scatter_batch g0), dfb_plain ''index'' (ge_index_entry_bytes g) 1,
           dfb_plain ''stream'' (ge_source_entry_bytes g) 1, dfb_plain ''scratch'' (ge_entry_bytes g) 1],
         tensor_parameters = tensors,
         work_units = [\<lparr>unit_name = ''main'', unit_kernels = [''reader'', ''writer''], unit_nodes = split_cores s\<rparr>]\<rparr>,
       run_args = [\<lparr>run_kernel = ''reader'', node_args = args, common_args = []\<rparr>,
                   \<lparr>run_kernel = ''writer'', node_args = args, common_args = []\<rparr>],
       tensor_args = tensors\<rparr>)"

end
