(* ===== verification/DataflowBuffer.thy ===== *)
theory DataflowBuffer
  imports Prelude
begin

text \<open>
  Kernels of one core that meet at dataflow buffers (\<open>api/dataflow/dataflow_buffer.h\<close>): a ring
  of entries with one producing and one consuming kernel. The producer reserves, fills and
  pushes entries, the consumer waits for, reads and pops them; a kernel that has to wait lets
  the others run, in any interleaving. An access outside what was reserved or waited for, or
  across the end of the ring, is stuck. The steps of two kernels commute, so that one complete
  schedule decides all: every run ends, in the same state.
\<close>

section \<open>The machine\<close>

datatype ('d, 'v, 'l) dfb_instr =
    Reserve 'd nat
  | Fill 'd nat "'l \<Rightarrow> 'v"
  | Push 'd nat
  | Await 'd nat
  | Take 'd nat "'v \<Rightarrow> 'l \<Rightarrow> 'l"
  | Pop 'd nat
  | Do "'l \<Rightarrow> 'l"

record 'v ring =
  slots :: "nat \<Rightarrow> 'v option"
  pushed :: nat
  popped :: nat
  reserved :: nat
  held :: nat

definition ring_init :: "'v ring" where
  "ring_init = \<lparr>slots = (\<lambda>_. None), pushed = 0, popped = 0, reserved = 0, held = 0\<rparr>"

text \<open>An instruction on its ring (of \<open>n\<close> entries) and the kernel's own store; \<open>None\<close>: it has to wait.\<close>

fun ring_exec :: "nat \<Rightarrow> ('d, 'v, 'l) dfb_instr \<Rightarrow> 'v ring \<Rightarrow> 'l \<Rightarrow> ('v ring \<times> 'l) option" where
  "ring_exec n (Reserve d k) r l = (if pushed r + k \<le> popped r + n then Some (r\<lparr>reserved := k\<rparr>, l) else None)"
| "ring_exec n (Fill d i f) r l =
     (if i < reserved r \<and> pushed r mod n + i < n then Some (r\<lparr>slots := (slots r)(pushed r mod n + i \<mapsto> f l)\<rparr>, l) else None)"
| "ring_exec n (Push d k) r l =
     (if k \<le> reserved r then Some (r\<lparr>pushed := pushed r + k, reserved := reserved r - k\<rparr>, l) else None)"
| "ring_exec n (Await d k) r l = (if popped r + k \<le> pushed r then Some (r\<lparr>held := k\<rparr>, l) else None)"
| "ring_exec n (Take d i g) r l =
     (if i < held r \<and> popped r mod n + i < n
      then (case slots r (popped r mod n + i) of None \<Rightarrow> None | Some v \<Rightarrow> Some (r, g v l)) else None)"
| "ring_exec n (Pop d k) r l =
     (if popped r + k \<le> pushed r then Some (r\<lparr>popped := popped r + k, held := held r - k\<rparr>, l) else None)"
| "ring_exec n (Do g) r l = Some (r, g l)"

fun instr_dfb :: "('d, 'v, 'l) dfb_instr \<Rightarrow> 'd option" where
  "instr_dfb (Reserve d k) = Some d"
| "instr_dfb (Fill d i f) = Some d"
| "instr_dfb (Push d k) = Some d"
| "instr_dfb (Await d k) = Some d"
| "instr_dfb (Take d i g) = Some d"
| "instr_dfb (Pop d k) = Some d"
| "instr_dfb (Do g) = None"

definition exec ::
  "('d \<Rightarrow> nat) \<Rightarrow> ('d, 'v, 'l) dfb_instr \<Rightarrow> ('d \<Rightarrow> 'v ring) \<times> 'l \<Rightarrow> (('d \<Rightarrow> 'v ring) \<times> 'l) option" where
  "exec N x rl = (case rl of (r, l) \<Rightarrow>
     (case instr_dfb x of
        None \<Rightarrow> (case ring_exec 0 x ring_init l of None \<Rightarrow> None | Some (_, l) \<Rightarrow> Some (r, l))
      | Some d \<Rightarrow> (case ring_exec (N d) x (r d) l of None \<Rightarrow> None | Some (rd, l) \<Rightarrow> Some (r(d := rd), l))))"

record ('d, 'v, 'l) net =
  rings :: "'d \<Rightarrow> 'v ring"
  progs :: "nat \<Rightarrow> ('d, 'v, 'l) dfb_instr list"
  stores :: "nat \<Rightarrow> 'l"

inductive net_step :: "('d \<Rightarrow> nat) \<Rightarrow> nat \<Rightarrow> ('d, 'v, 'l) net \<Rightarrow> ('d, 'v, 'l) net \<Rightarrow> bool" for N where
  "progs s k = i # p \<Longrightarrow> exec N i (rings s, stores s k) = Some (r, l) \<Longrightarrow>
   net_step N k s \<lparr>rings = r, progs = (progs s)(k := p), stores = (stores s)(k := l)\<rparr>"

inductive_cases net_stepE: "net_step N k s s'"

inductive net_run :: "('d \<Rightarrow> nat) \<Rightarrow> nat \<Rightarrow> ('d, 'v, 'l) net \<Rightarrow> ('d, 'v, 'l) net \<Rightarrow> bool" for N where
  stop: "net_run N 0 s s"
| more: "net_step N k s s' \<Longrightarrow> net_run N m s' s'' \<Longrightarrow> net_run N (Suc m) s s''"

inductive_cases net_run_0E: "net_run N 0 s s'"
inductive_cases net_run_SucE: "net_run N (Suc m) s s'"

definition net_start :: "(nat \<Rightarrow> ('d, 'v, 'l) dfb_instr list) \<Rightarrow> (nat \<Rightarrow> 'l) \<Rightarrow> ('d, 'v, 'l) net" where
  "net_start P l = \<lparr>rings = (\<lambda>_. ring_init), progs = P, stores = l\<rparr>"

definition net_done :: "('d, 'v, 'l) net \<Rightarrow> bool" where
  "net_done s \<longleftrightarrow> (\<forall>k. progs s k = [])"

definition net_stuck :: "('d \<Rightarrow> nat) \<Rightarrow> ('d, 'v, 'l) net \<Rightarrow> bool" where
  "net_stuck N s \<longleftrightarrow> (\<forall>k s'. \<not> net_step N k s s')"

section \<open>One producer and one consumer\<close>

fun produces :: "'d \<Rightarrow> ('d, 'v, 'l) dfb_instr \<Rightarrow> bool" where
  "produces d (Reserve e _) \<longleftrightarrow> d = e"
| "produces d (Fill e _ _) \<longleftrightarrow> d = e"
| "produces d (Push e _) \<longleftrightarrow> d = e"
| "produces d _ \<longleftrightarrow> False"

fun consumes :: "'d \<Rightarrow> ('d, 'v, 'l) dfb_instr \<Rightarrow> bool" where
  "consumes d (Await e _) \<longleftrightarrow> d = e"
| "consumes d (Take e _ _) \<longleftrightarrow> d = e"
| "consumes d (Pop e _) \<longleftrightarrow> d = e"
| "consumes d _ \<longleftrightarrow> False"

definition owned :: "(nat \<Rightarrow> ('d, 'v, 'l) dfb_instr list) \<Rightarrow> bool" where
  "owned P \<longleftrightarrow> (\<forall>k j d. \<forall>x \<in> set (P k). \<forall>y \<in> set (P j). k \<noteq> j \<longrightarrow>
     \<not> (produces d x \<and> produces d y) \<and> \<not> (consumes d x \<and> consumes d y))"

definition ring_ok :: "nat \<Rightarrow> 'v ring \<Rightarrow> bool" where
  "ring_ok n r \<longleftrightarrow> popped r + held r \<le> pushed r \<and> pushed r + reserved r \<le> popped r + n"

lemma ring_init_ok: "ring_ok n ring_init"
  by (simp add: ring_ok_def ring_init_def)

lemma ring_exec_ok:
  assumes "ring_exec n x r l = Some (r', l')" "ring_ok n r"
  shows "ring_ok n r'"
  using assms by (cases x) (auto simp: ring_ok_def split: if_splits option.splits)

lemma exec_ring_ok:
  assumes "exec N x (r, l) = Some (r', l')" "\<forall>d. ring_ok (N d) (r d)"
  shows "\<forall>d. ring_ok (N d) (r' d)"
  using assms ring_exec_ok by (fastforce simp: exec_def split: option.splits)

text \<open>The producer's slot and the consumer's slot of a ring differ.\<close>

lemma ring_slots_differ:
  assumes "ring_ok n r" "i < reserved r" "pushed r mod n + i < n" "j < held r" "popped r mod n + j < n"
  shows "pushed r mod n + i \<noteq> popped r mod n + j"
proof
  assume same: "pushed r mod n + i = popped r mod n + j"
  have "(pushed r + i) mod n = (pushed r mod n + i) mod n" by (simp add: mod_add_left_eq)
  also have "\<dots> = (popped r + j) mod n" by (simp add: same mod_add_left_eq)
  finally have "(pushed r + i - (popped r + j)) mod n = 0"
    using assms(1,4) by (intro mod_eq_0_iff_dvd [THEN iffD2]) (metis mod_eq_dvd_iff_nat ring_ok_def add_le_cancel_left le_add1 le_trans less_imp_le_nat)
  moreover have "0 < pushed r + i - (popped r + j)" "pushed r + i - (popped r + j) < n"
    using assms(1,2,4) by (auto simp: ring_ok_def)
  ultimately show False by simp
qed

section \<open>Steps of two kernels commute\<close>

lemma produces_dfb: "produces d x \<Longrightarrow> instr_dfb x = Some d"
  and consumes_dfb: "consumes d x \<Longrightarrow> instr_dfb x = Some d"
  and dfb_use: "instr_dfb x = Some d \<Longrightarrow> produces d x \<or> consumes d x"
  and not_both: "produces d x \<Longrightarrow> \<not> consumes d x"
  by (cases x; simp)+

lemma ring_commute:
  assumes "produces d x" "consumes d y" "ring_ok n r"
    and "ring_exec n x r a = Some (rx, a')" "ring_exec n y r b = Some (ry, b')"
  shows "\<exists>q. ring_exec n y rx b = Some (q, b') \<and> ring_exec n x ry a = Some (q, a')"
proof -
  note differ = ring_slots_differ [OF assms(3)]
  from assms(1) consider k where "x = Reserve d k" | i f where "x = Fill d i f" | k where "x = Push d k"
    by (cases x) auto
  then show ?thesis
  proof cases
    case 2
    show ?thesis using assms(2,4,5) differ
      by (cases y) (auto simp: 2 split: if_splits option.splits, metis)
  qed (use assms(2,4,5) in \<open>cases y; auto split: if_splits option.splits\<close>)+
qed

lemma exec_commute_dfb:
  assumes "exec N x (r, a) = Some (rx, a')" "exec N y (r, b) = Some (ry, b')" "\<forall>d. ring_ok (N d) (r d)"
    and xy: "\<And>d. instr_dfb x = Some d \<Longrightarrow> instr_dfb y = Some d \<Longrightarrow> produces d x \<and> consumes d y"
  shows "\<exists>q. exec N y (rx, b) = Some (q, b') \<and> exec N x (ry, a) = Some (q, a')"
proof (cases "instr_dfb x = None \<or> instr_dfb y = None \<or> instr_dfb x \<noteq> instr_dfb y")
  case True
  with assms(1,2) show ?thesis
    by (auto simp: exec_def fun_upd_twist split: option.splits)
next
  case False
  then obtain d where d: "instr_dfb x = Some d" "instr_dfb y = Some d" by auto
  from assms(1,2) d obtain px py where p: "ring_exec (N d) x (r d) a = Some (px, a')" "rx = r(d := px)"
      "ring_exec (N d) y (r d) b = Some (py, b')" "ry = r(d := py)"
    by (auto simp: exec_def split: option.splits)
  from xy [OF d] have "produces d x" "consumes d y" by simp_all
  from ring_commute [OF this assms(3) [rule_format] p(1,3)] show ?thesis
    by (auto simp: exec_def d p(2,4))
qed

lemma exec_commute:
  assumes "exec N x (r, a) = Some (rx, a')" "exec N y (r, b) = Some (ry, b')"
    and "\<forall>d. ring_ok (N d) (r d)"
    and "\<And>d. \<not> (produces d x \<and> produces d y)" "\<And>d. \<not> (consumes d x \<and> consumes d y)"
  shows "\<exists>q. exec N y (rx, b) = Some (q, b') \<and> exec N x (ry, a) = Some (q, a')"
proof (cases "\<exists>d. produces d x \<and> instr_dfb y = Some d")
  case True
  then show ?thesis
    using exec_commute_dfb [OF assms(1-3)] assms(4) dfb_use produces_dfb by (metis option.inject)
next
  case False
  then show ?thesis
    using exec_commute_dfb [OF assms(2,1,3)] assms(4,5) dfb_use by metis
qed

section \<open>One complete schedule decides all\<close>

definition net_ok :: "('d \<Rightarrow> nat) \<Rightarrow> ('d, 'v, 'l) net \<Rightarrow> bool" where
  "net_ok N s \<longleftrightarrow> owned (progs s) \<and> (\<forall>d. ring_ok (N d) (rings s d))"

lemma owned_tail: "owned P \<Longrightarrow> P k = x # p \<Longrightarrow> owned (P(k := p))"
  unfolding owned_def by (metis fun_upd_apply list.set_intros(2))

lemma net_start_ok: "owned P \<Longrightarrow> net_ok N (net_start P l)"
  by (simp add: net_ok_def net_start_def ring_init_ok)

lemma net_step_ok: "net_step N k s s' \<Longrightarrow> net_ok N s \<Longrightarrow> net_ok N s'"
  by (elim net_stepE) (auto simp: net_ok_def owned_tail dest: exec_ring_ok)

lemma net_step_unique: "net_step N k s a \<Longrightarrow> net_step N k s b \<Longrightarrow> a = b"
  by (auto elim!: net_stepE)

lemma net_diamond:
  assumes "net_step N k s a" "net_step N j s b" "k \<noteq> j" "net_ok N s"
  shows "\<exists>c. net_step N j a c \<and> net_step N k b c"
proof -
  from assms(1) obtain x p ra la where x: "progs s k = x # p" "exec N x (rings s, stores s k) = Some (ra, la)"
      "a = \<lparr>rings = ra, progs = (progs s)(k := p), stores = (stores s)(k := la)\<rparr>" by (elim net_stepE)
  from assms(2) obtain y q rb lb where y: "progs s j = y # q" "exec N y (rings s, stores s j) = Some (rb, lb)"
      "b = \<lparr>rings = rb, progs = (progs s)(j := q), stores = (stores s)(j := lb)\<rparr>" by (elim net_stepE)
  have "\<not> (produces d x \<and> produces d y)" "\<not> (consumes d x \<and> consumes d y)" for d
    using assms(3,4) x(1) y(1) unfolding net_ok_def owned_def by (metis list.set_intros(1))+
  then obtain r where r: "exec N y (ra, stores s j) = Some (r, lb)" "exec N x (rb, stores s k) = Some (r, la)"
    using exec_commute [OF x(2) y(2)] assms(4) unfolding net_ok_def by blast
  let ?c = "\<lparr>rings = r, progs = (progs s)(k := p, j := q), stores = (stores s)(k := la, j := lb)\<rparr>"
  have "net_step N j a ?c"
    using net_step.intros [of a j y q N r lb] assms(3) by (simp add: x(3) y(1) r(1))
  moreover have "net_step N k b ?c"
    using net_step.intros [of b k x p N r la] assms(3) by (simp add: y(3) x(1) r(2) fun_upd_twist)
  ultimately show ?thesis by blast
qed

lemma net_done_stuck: "net_done s \<Longrightarrow> net_stuck N s"
  by (auto simp: net_done_def net_stuck_def elim: net_stepE)

text \<open>Any step from the start of a complete run leaves a complete run that is one step shorter.\<close>

lemma run_after_step:
  assumes "net_run N m s f" "net_done f" "net_step N k s a" "net_ok N s"
  shows "\<exists>m'. m = Suc m' \<and> net_run N m' a f"
  using assms
proof (induction arbitrary: a k rule: net_run.induct)
  case (stop s)
  then show ?case using net_done_stuck by (auto simp: net_stuck_def)
next
  case (more j s s' m f)
  show ?case
  proof (cases "j = k")
    case True
    then have "s' = a" using net_step_unique [OF more(1)] more(5) by blast
    then show ?thesis using more(2) by blast
  next
    case False
    then obtain c where c: "net_step N k s' c" "net_step N j a c"
      using net_diamond [OF more(1,5) False more(6)] by blast
    from more(3) [OF more(4) c(1) net_step_ok [OF more(1,6)]] obtain m' where "m = Suc m'" "net_run N m' c f" by blast
    then show ?thesis using net_run.more [OF c(2)] by blast
  qed
qed

theorem one_run_decides:
  assumes "net_run N m s f" "net_done f" "net_ok N s" "net_run N n s a"
  shows "n \<le> m \<and> net_run N (m - n) a f \<and> (net_stuck N a \<longrightarrow> a = f)"
  using assms(4,1,3)
proof (induction arbitrary: m rule: net_run.induct)
  case (stop s)
  then have "net_stuck N s \<Longrightarrow> s = f" by (cases rule: net_run.cases) (auto simp: net_stuck_def)
  with stop show ?case by simp
next
  case (more k s s' n a)
  from run_after_step [OF more(4) assms(2) more(1,5)] obtain m' where m: "m = Suc m'" "net_run N m' s' f" by blast
  from more(3) [OF m(2) net_step_ok [OF more(1,5)]] show ?case by (simp add: m(1))
qed

section \<open>Complete schedules\<close>

text \<open>Kernels run one after another as far as a schedule says: the kernel of each instruction.\<close>

lemma net_run_trans: "net_run N m s s' \<Longrightarrow> net_run N n s' s'' \<Longrightarrow> net_run N (m + n) s s''"
  by (induction rule: net_run.induct) (auto intro: net_run.intros)

fun exec_list ::
  "('d \<Rightarrow> nat) \<Rightarrow> ('d, 'v, 'l) dfb_instr list \<Rightarrow> ('d \<Rightarrow> 'v ring) \<times> 'l \<Rightarrow> (('d \<Rightarrow> 'v ring) \<times> 'l) option" where
  "exec_list N [] rl = Some rl"
| "exec_list N (x # xs) rl = (case exec N x rl of None \<Rightarrow> None | Some rl \<Rightarrow> exec_list N xs rl)"

lemma exec_list_append:
  "exec_list N (xs @ ys) rl = (case exec_list N xs rl of None \<Rightarrow> None | Some rl \<Rightarrow> exec_list N ys rl)"
  by (induction xs arbitrary: rl) (auto split: option.splits)

text \<open>A kernel runs a prefix of its program while the others stand still.\<close>

lemma run_prefix:
  assumes "exec_list N xs (rings s, stores s k) = Some (r, l)" "progs s k = xs @ p"
  shows "net_run N (length xs) s \<lparr>rings = r, progs = (progs s)(k := p), stores = (stores s)(k := l)\<rparr>"
  using assms
proof (induction xs arbitrary: s)
  case Nil
  then have "s = \<lparr>rings = r, progs = (progs s)(k := p), stores = (stores s)(k := l)\<rparr>"
    by (metis append_Nil exec_list.simps(1) fun_upd_triv net.surjective option.inject prod.inject unit.exhaust)
  then show ?case using net_run.stop by (metis list.size(3))
next
  case (Cons x xs)
  then obtain r1 l1 where x: "exec N x (rings s, stores s k) = Some (r1, l1)"
      "exec_list N xs (r1, l1) = Some (r, l)" by (auto split: option.splits)
  let ?s = "\<lparr>rings = r1, progs = (progs s)(k := xs @ p), stores = (stores s)(k := l1)\<rparr>"
  have step: "net_step N k s ?s" using Cons(3) x(1) by (intro net_step.intros) simp_all
  have "net_run N (length xs) ?s \<lparr>rings = r, progs = (progs s)(k := p), stores = (stores s)(k := l)\<rparr>"
    using Cons(1) [of ?s] x(2) by (simp only: net.simps fun_upd_same fun_upd_upd)
  from net_run.more [OF step this] show ?case by (simp only: length_Cons)
qed

section \<open>What a ring holds\<close>

text \<open>
  \<open>ring_at n r q xs vs k h\<close>: \<open>q\<close> entries were popped, the ring holds \<open>xs\<close>, of \<open>k\<close> entries
  reserved behind them the first are filled with \<open>vs\<close>, and \<open>h\<close> entries were waited for.
\<close>

definition ring_at :: "nat \<Rightarrow> 'v ring \<Rightarrow> nat \<Rightarrow> 'v list \<Rightarrow> 'v list \<Rightarrow> nat \<Rightarrow> nat \<Rightarrow> bool" where
  "ring_at n r q xs vs k h \<longleftrightarrow> popped r = q \<and> pushed r = q + length xs \<and> reserved r = k \<and> held r = h \<and>
     length vs \<le> k \<and> length xs + k \<le> n \<and>
     (\<forall>i < length xs. slots r ((q + i) mod n) = Some (xs ! i)) \<and>
     (\<forall>i < length vs. slots r ((q + length xs + i) mod n) = Some (vs ! i))"

lemma ring_at_init: "ring_at n ring_init 0 [] [] 0 0"
  by (simp add: ring_at_def ring_init_def)

lemma mod_add_small: "a mod n + i < n \<Longrightarrow> a mod n + i = (a + i) mod (n :: nat)"
  by (metis mod_add_left_eq mod_less)

lemma mod_differ:
  fixes a b n :: nat
  assumes "a < b" "b < a + n"
  shows "a mod n \<noteq> b mod n"
proof
  assume "a mod n = b mod n"
  then have "n dvd b - a" using assms(1) by (metis less_imp_le mod_eq_dvd_iff_nat)
  then show False using assms by (auto dest: dvd_imp_le)
qed

lemma at_reserve:
  assumes "ring_at n r q xs vs k h" "length xs + m \<le> n"
  shows "\<exists>r'. ring_exec n (Reserve d m) r l = Some (r', l) \<and> ring_at n r' q xs [] m h"
  using assms by (simp add: ring_at_def)

lemma at_fill:
  assumes "ring_at n r q xs vs k h" "i = length vs" "i < k" "(q + length xs) mod n + i < n"
  shows "\<exists>r'. ring_exec n (Fill d i f) r l = Some (r', l) \<and> ring_at n r' q xs (vs @ [f l]) k h"
proof -
  let ?at = "(q + length xs + i) mod n"
  have slot: "(q + length xs) mod n + i = ?at" by (rule mod_add_small [OF assms(4)])
  have bound: "length xs + k \<le> n" using assms(1) by (simp add: ring_at_def)
  have xs: "(q + j) mod n \<noteq> ?at" if "j < length xs" for j
    by (rule mod_differ) (use that assms(3) bound in linarith)+
  have vs: "(q + length xs + j) mod n \<noteq> ?at" if "j < i" for j
    by (rule mod_differ) (use that assms(3) bound in linarith)+
  have at: "pushed r mod n + i = ?at" "i < reserved r" "?at < n"
    using assms(1,3) slot bound by (auto simp: ring_at_def)
  let ?r = "r\<lparr>slots := (slots r)(?at \<mapsto> f l)\<rparr>"
  have "ring_exec n (Fill d i f) r l = Some (?r, l)" by (simp add: at)
  moreover have "ring_at n ?r q xs (vs @ [f l]) k h"
    using assms(1-3) xs vs by (auto simp: ring_at_def nth_append less_Suc_eq)
  ultimately show ?thesis by blast
qed

lemma at_push:
  assumes "ring_at n r q xs vs k h" "m = k" "k = length vs"
  shows "\<exists>r'. ring_exec n (Push d m) r l = Some (r', l) \<and> ring_at n r' q (xs @ vs) [] 0 h"
proof -
  have "slots r ((q + i) mod n) = Some ((xs @ vs) ! i)" if "i < length xs + length vs" for i
  proof (cases "i < length xs")
    case True
    with assms(1) show ?thesis by (simp add: ring_at_def nth_append)
  next
    case False
    then obtain j where "i = length xs + j" by (metis le_add_diff_inverse not_less)
    with that assms(1) show ?thesis by (simp add: ring_at_def nth_append add.assoc)
  qed
  with assms show ?thesis by (auto simp: ring_at_def)
qed

lemma at_await:
  assumes "ring_at n r q xs vs k h" "m \<le> length xs"
  shows "\<exists>r'. ring_exec n (Await d m) r l = Some (r', l) \<and> ring_at n r' q xs vs k m"
  using assms by (simp add: ring_at_def)

lemma at_take:
  assumes "ring_at n r q xs vs k h" "i < h" "i < length xs" "q mod n + i < n"
  shows "ring_exec n (Take d i g) r l = Some (r, g (xs ! i) l)"
  using assms mod_add_small [OF assms(4)] by (simp add: ring_at_def)

lemma at_pop:
  assumes "ring_at n r q xs vs k h" "m \<le> length xs"
  shows "\<exists>r'. ring_exec n (Pop d m) r l = Some (r', l) \<and> ring_at n r' (q + m) (drop m xs) vs k (h - m)"
proof -
  have "slots r ((q + m + i) mod n) = Some (drop m xs ! i)" if "i < length xs - m" for i
  proof -
    have "m + i < length xs" using that by simp
    with assms(1) have "slots r ((q + (m + i)) mod n) = Some (xs ! (m + i))" unfolding ring_at_def by blast
    with assms(2) show ?thesis by (simp add: add.assoc)
  qed
  with assms show ?thesis by (auto simp: ring_at_def)
qed

section \<open>Groups of entries\<close>

text \<open>The instructions on the rings of a core; the other rings stay as they are.\<close>

definition only_ring :: "'d \<Rightarrow> ('d \<Rightarrow> 'v ring) \<Rightarrow> ('d \<Rightarrow> 'v ring) \<Rightarrow> bool" where
  "only_ring d r r' \<longleftrightarrow> (\<forall>e. e \<noteq> d \<longrightarrow> r' e = r e)"

lemma only_ring_trans: "only_ring d r r' \<Longrightarrow> only_ring d r' r'' \<Longrightarrow> only_ring d r r''"
  by (simp add: only_ring_def)

lemma only_ring_refl [simp]: "only_ring d r r"
  by (simp add: only_ring_def)

lemma exec_ring:
  assumes "instr_dfb x = Some d" "\<exists>rd. ring_exec (N d) x (r d) l = Some (rd, l) \<and> P rd"
  shows "\<exists>r'. exec N x (r, l) = Some (r', l) \<and> P (r' d) \<and> only_ring d r r'"
  using assms by (auto simp: exec_def only_ring_def)

definition dfb_at :: "('d \<Rightarrow> nat) \<Rightarrow> ('d \<Rightarrow> 'v ring) \<Rightarrow> 'd \<Rightarrow> nat \<Rightarrow> 'v list \<Rightarrow> 'v list \<Rightarrow> nat \<Rightarrow> nat \<Rightarrow> bool" where
  "dfb_at N r d q xs vs k h \<longleftrightarrow> ring_at (N d) (r d) q xs vs k h"

lemma dfb_at_only: "only_ring d r r' \<Longrightarrow> e \<noteq> d \<Longrightarrow> dfb_at N r' e q xs vs k h = dfb_at N r e q xs vs k h"
  by (simp add: dfb_at_def only_ring_def)

lemma dfb_at_init: "dfb_at N (\<lambda>_. ring_init) d 0 [] [] 0 0"
  by (simp add: dfb_at_def ring_at_init)

lemma exec_reserve:
  assumes "dfb_at N r d q xs vs k h" "length xs + m \<le> N d"
  shows "\<exists>r'. exec N (Reserve d m) (r, l) = Some (r', l) \<and> dfb_at N r' d q xs [] m h \<and> only_ring d r r'"
  unfolding dfb_at_def
  by (rule exec_ring [where P = "\<lambda>rd. ring_at (N d) rd q xs [] m h"]) (simp, rule at_reserve [OF assms [unfolded dfb_at_def]])

lemma exec_fill:
  assumes "dfb_at N r d q xs vs k h" "i = length vs" "i < k" "(q + length xs) mod N d + i < N d"
  shows "\<exists>r'. exec N (Fill d i f) (r, l) = Some (r', l) \<and> dfb_at N r' d q xs (vs @ [f l]) k h \<and> only_ring d r r'"
  unfolding dfb_at_def
  by (rule exec_ring [where P = "\<lambda>rd. ring_at (N d) rd q xs (vs @ [f l]) k h"]) (simp, rule at_fill [OF assms [unfolded dfb_at_def]])

lemma exec_push:
  assumes "dfb_at N r d q xs vs k h" "m = k" "k = length vs"
  shows "\<exists>r'. exec N (Push d m) (r, l) = Some (r', l) \<and> dfb_at N r' d q (xs @ vs) [] 0 h \<and> only_ring d r r'"
  unfolding dfb_at_def
  by (rule exec_ring [where P = "\<lambda>rd. ring_at (N d) rd q (xs @ vs) [] 0 h"]) (simp, rule at_push [OF assms [unfolded dfb_at_def]])

lemma exec_await:
  assumes "dfb_at N r d q xs vs k h" "m \<le> length xs"
  shows "\<exists>r'. exec N (Await d m) (r, l) = Some (r', l) \<and> dfb_at N r' d q xs vs k m \<and> only_ring d r r'"
  unfolding dfb_at_def
  by (rule exec_ring [where P = "\<lambda>rd. ring_at (N d) rd q xs vs k m"]) (simp, rule at_await [OF assms [unfolded dfb_at_def]])

lemma exec_take:
  assumes "dfb_at N r d q xs vs k h" "i < h" "i < length xs" "q mod N d + i < N d"
  shows "exec N (Take d i g) (r, l) = Some (r, g (xs ! i) l)"
proof -
  have "ring_exec (N d) (Take d i g) (r d) l = Some (r d, g (xs ! i) l)"
    by (rule at_take [OF assms [unfolded dfb_at_def]])
  then show ?thesis unfolding exec_def by (simp del: ring_exec.simps)
qed

lemma exec_pop:
  assumes "dfb_at N r d q xs vs k h" "m \<le> length xs"
  shows "\<exists>r'. exec N (Pop d m) (r, l) = Some (r', l) \<and> dfb_at N r' d (q + m) (drop m xs) vs k (h - m) \<and> only_ring d r r'"
  unfolding dfb_at_def
  by (rule exec_ring [where P = "\<lambda>rd. ring_at (N d) rd (q + m) (drop m xs) vs k (h - m)"]) (simp, rule at_pop [OF assms [unfolded dfb_at_def]])

lemma exec_do [simp]: "exec N (Do g) (r, l) = Some (r, g l)"
  by (simp add: exec_def)

fun fills :: "'d \<Rightarrow> nat \<Rightarrow> 'v list \<Rightarrow> ('d, 'v, 'l) dfb_instr list" where
  "fills d i [] = []"
| "fills d i (v # vs) = Fill d i (\<lambda>_. v) # fills d (Suc i) vs"

fun takes :: "'d \<Rightarrow> nat \<Rightarrow> ('v \<Rightarrow> 'l \<Rightarrow> 'l) list \<Rightarrow> ('d, 'v, 'l) dfb_instr list" where
  "takes d i [] = []"
| "takes d i (g # gs) = Take d i g # takes d (Suc i) gs"

lemma exec_fills:
  assumes "dfb_at N r d q xs vs k h" "length vs + length es \<le> k" "(q + length xs) mod N d + k \<le> N d"
  shows "\<exists>r'. exec_list N (fills d (length vs) es) (r, l) = Some (r', l) \<and> dfb_at N r' d q xs (vs @ es) k h \<and> only_ring d r r'"
  using assms
proof (induction es arbitrary: r vs)
  case (Cons e es)
  have "(q + length xs) mod N d + length vs < N d" using Cons.prems(2,3) by simp
  from exec_fill [where f = "\<lambda>_. e" and l = l, OF Cons.prems(1) refl _ this] Cons.prems(2)
  obtain r1 where r1: "exec N (Fill d (length vs) (\<lambda>_. e)) (r, l) = Some (r1, l)"
      "dfb_at N r1 d q xs (vs @ [e]) k h" "only_ring d r r1" by auto
  from Cons.IH [OF r1(2)] Cons.prems(2,3) obtain r2 where
    r2: "exec_list N (fills d (Suc (length vs)) es) (r1, l) = Some (r2, l)"
      "dfb_at N r2 d q xs (vs @ e # es) k h" "only_ring d r1 r2" by auto
  with r1 show ?case using only_ring_trans [of d r r1 r2] by simp
qed auto

text \<open>What the takes of a group make of the store.\<close>

definition take_all :: "('v \<Rightarrow> 'l \<Rightarrow> 'l) list \<Rightarrow> 'v list \<Rightarrow> 'l \<Rightarrow> 'l" where
  "take_all gs xs l = fold (\<lambda>(g, x). g x) (zip gs xs) l"

lemma exec_takes:
  assumes "dfb_at N r d q xs vs k h" "i + length gs \<le> h" "i + length gs \<le> length xs" "q mod N d + (i + length gs) \<le> N d"
  shows "exec_list N (takes d i gs) (r, l) = Some (r, take_all gs (drop i xs) l)"
  using assms
proof (induction gs arbitrary: i l)
  case (Cons g gs)
  have take: "exec N (Take d i g) (r, l) = Some (r, g (xs ! i) l)"
    by (rule exec_take [OF Cons.prems(1)]) (use Cons.prems in auto)
  have "drop i xs = xs ! i # drop (Suc i) xs" using Cons.prems(3) by (simp add: Cons_nth_drop_Suc)
  with Cons.IH [of "Suc i" "g (xs ! i) l"] Cons.prems take show ?case by (simp add: take_all_def)
qed (simp add: take_all_def)

text \<open>A whole group: produced, and consumed.\<close>

lemma exec_push_group:
  assumes "dfb_at N r d q xs [] k h" "length xs + length es \<le> N d" "(q + length xs) mod N d + length es \<le> N d"
  shows "\<exists>r'. exec_list N (Reserve d (length es) # fills d 0 es @ [Push d (length es)]) (r, l) = Some (r', l) \<and>
    dfb_at N r' d q (xs @ es) [] 0 h \<and> only_ring d r r'"
proof -
  from exec_reserve [OF assms(1,2), of l] obtain r1 where
    r1: "exec N (Reserve d (length es)) (r, l) = Some (r1, l)" "dfb_at N r1 d q xs [] (length es) h" "only_ring d r r1"
    by blast
  from exec_fills [OF r1(2), of es l] assms(3) obtain r2 where
    r2: "exec_list N (fills d 0 es) (r1, l) = Some (r2, l)" "dfb_at N r2 d q xs es (length es) h" "only_ring d r1 r2"
    by auto
  from exec_push [OF r2(2) refl refl, of l] obtain r3 where
    r3: "exec N (Push d (length es)) (r2, l) = Some (r3, l)" "dfb_at N r3 d q (xs @ es) [] 0 h" "only_ring d r2 r3"
    by blast
  have "only_ring d r r3" by (rule only_ring_trans [OF r1(3) only_ring_trans [OF r2(3) r3(3)]])
  then show ?thesis by (intro exI [of _ r3]) (simp add: exec_list_append r1(1) r2(1) r3(1,2))
qed

lemma exec_pop_group:
  assumes "dfb_at N r d q xs vs k h" "length gs \<le> length xs" "q mod N d + length gs \<le> N d"
  shows "\<exists>r'. exec_list N (Await d (length gs) # takes d 0 gs @ [Pop d (length gs)]) (r, l) =
      Some (r', take_all gs xs l) \<and>
    dfb_at N r' d (q + length gs) (drop (length gs) xs) vs k 0 \<and> only_ring d r r'"
proof -
  from exec_await [OF assms(1,2), of l] obtain r1 where
    r1: "exec N (Await d (length gs)) (r, l) = Some (r1, l)" "dfb_at N r1 d q xs vs k (length gs)" "only_ring d r r1"
    by blast
  have t: "exec_list N (takes d 0 gs) (r1, l) = Some (r1, take_all gs xs l)"
    using exec_takes [OF r1(2), of 0 gs l] assms(2,3) by simp
  from exec_pop [OF r1(2) assms(2), of "take_all gs xs l"] obtain r2 where
    r2: "exec N (Pop d (length gs)) (r1, take_all gs xs l) = Some (r2, take_all gs xs l)"
      "dfb_at N r2 d (q + length gs) (drop (length gs) xs) vs k 0" "only_ring d r1 r2"
    by auto
  have "only_ring d r r2" by (rule only_ring_trans [OF r1(3) r2(3)])
  then show ?thesis by (intro exI [of _ r2]) (simp add: exec_list_append r1(1) t r2(1,2))
qed

lemma fills_instrs: "x \<in> set (fills dfb i es) \<Longrightarrow> produces dfb x"
  by (induction dfb i es rule: fills.induct) auto

lemma takes_instrs: "x \<in> set (takes dfb i gs) \<Longrightarrow> consumes dfb x"
  by (induction dfb i gs rule: takes.induct) auto

end
