(* ===== verification/DramPages.thy ===== *)
theory DramPages
  imports Prelude "HOL-Library.Multiset"
begin

text \<open>
  Tensors in DRAM as pages of bytes, and the writes that land in them: whatever the order in
  which the writes of a program land, they leave the bytes a specification gives when each of
  them agrees with it and every byte is covered.
\<close>

type_synonym pages = "nat \<Rightarrow> nat \<Rightarrow> u8"
type_synonym put = "nat \<times> nat \<times> u8 list"

definition apply_put :: "put \<Rightarrow> pages \<Rightarrow> pages" where
  "apply_put w m = (case w of (page, off, data) \<Rightarrow>
     (\<lambda>p i. if p = page \<and> off \<le> i \<and> i < off + length data then data ! (i - off) else m p i))"

text \<open>The memory after writes that landed in some order.\<close>

definition landed :: "put list \<Rightarrow> pages \<Rightarrow> pages \<Rightarrow> bool" where
  "landed puts m m' \<longleftrightarrow> (\<exists>order. mset order = mset puts \<and> m' = fold apply_put order m)"

definition put_agrees :: "pages \<Rightarrow> put \<Rightarrow> bool" where
  "put_agrees spec w \<longleftrightarrow> (case w of (page, off, data) \<Rightarrow> \<forall>i < length data. data ! i = spec page (off + i))"

definition put_covers :: "nat \<Rightarrow> nat \<Rightarrow> put \<Rightarrow> bool" where
  "put_covers p i w \<longleftrightarrow> (case w of (page, off, data) \<Rightarrow> p = page \<and> off \<le> i \<and> i < off + length data)"

lemma apply_put_at:
  "put_agrees spec w \<Longrightarrow> apply_put w m p i = (if put_covers p i w then spec p i else m p i)"
  by (cases w) (auto simp: apply_put_def put_agrees_def put_covers_def)

lemma fold_puts_at:
  assumes "\<And>w. w \<in> set puts \<Longrightarrow> put_agrees spec w"
  shows "fold apply_put puts m p i = (if \<exists>w \<in> set puts. put_covers p i w then spec p i else m p i)"
  using assms
proof (induction puts arbitrary: m)
  case (Cons w puts)
  then have "fold apply_put (w # puts) m p i =
      (if \<exists>w \<in> set puts. put_covers p i w then spec p i else apply_put w m p i)" by simp
  with apply_put_at [of spec w m p i] Cons.prems show ?case by auto
qed simp

lemma landed_at:
  assumes "landed puts m m'" "\<And>w. w \<in> set puts \<Longrightarrow> put_agrees spec w" "w \<in> set puts" "put_covers p i w"
  shows "m' p i = spec p i"
proof -
  from assms(1) obtain order where order: "mset order = mset puts" "m' = fold apply_put order m" by (auto simp: landed_def)
  then have same: "set order = set puts" by (metis set_mset_mset)
  show ?thesis using fold_puts_at [of order spec m p i] assms(2-) by (auto simp: order(2) same)
qed

lemma landed_untouched:
  assumes "landed puts m m'" "\<And>w. w \<in> set puts \<Longrightarrow> put_agrees spec w" "\<And>w. w \<in> set puts \<Longrightarrow> \<not> put_covers p i w"
  shows "m' p i = m p i"
proof -
  from assms(1) obtain order where order: "mset order = mset puts" "m' = fold apply_put order m" by (auto simp: landed_def)
  then have same: "set order = set puts" by (metis set_mset_mset)
  show ?thesis using fold_puts_at [of order spec m p i] assms(2-) by (auto simp: order(2) same)
qed

end
