(* ===== verification/RowsGather.thy ===== *)
theory RowsGather
  imports IndexedRowsPlan DataflowBuffer DramPages
begin

text \<open>
  The kernels of rows_gather: \<open>rows_gather_reader.cpp\<close> reads the addressed table pages into the
  rows buffer, group by group, streaming the index tensor as it goes, and
  \<open>rows_gather_writer.cpp\<close> stores them in the output. Both run on the machine of
  \<open>DataflowBuffer\<close>; an entry of a buffer is the L1 memory of the entry.
\<close>

section \<open>The arguments\<close>

record rows_args =
  ra_K :: nat
  ra_column :: bool
  ra_unsigned :: bool
  ra_fill_oob :: bool
  ra_shared :: bool
  ra_W :: nat
  ra_M :: nat
  ra_N :: nat
  ra_S :: nat
  ra_page_bytes :: nat
  ra_chunk_bytes :: nat
  ra_elem_bytes :: nat
  ra_index_stride :: nat
  ra_group :: nat
  ra_index_batch :: nat
  ra_sizes :: "nat list"
  ra_windows :: "nat list"
  ra_strides :: "nat list"

definition rows_kernel_args :: "(string \<times> nat) list \<Rightarrow> nat list \<Rightarrow> nat list \<Rightarrow> nat list \<Rightarrow> rows_args" where
  "rows_kernel_args args sizes windows strides =
     \<lparr>ra_K = get_arg args ''num_components'', ra_column = (get_arg args ''column'' \<noteq> 0),
      ra_unsigned = (get_arg args ''index_unsigned'' \<noteq> 0), ra_fill_oob = (get_arg args ''fill_oob'' \<noteq> 0),
      ra_shared = (get_arg args ''index_shared'' \<noteq> 0), ra_W = get_arg args ''window'', ra_M = get_arg args ''positions'',
      ra_N = get_arg args ''rows_per_batch'', ra_S = get_arg args ''pages_per_row'',
      ra_page_bytes = get_arg args ''page_bytes'', ra_chunk_bytes = get_arg args ''chunk_bytes'',
      ra_elem_bytes = get_arg args ''elem_bytes'', ra_index_stride = get_arg args ''index_stride'',
      ra_group = get_arg args ''group'', ra_index_batch = get_arg args ''index_batch'',
      ra_sizes = sizes, ra_windows = windows, ra_strides = strides\<rparr>"

definition ra_KR :: "rows_args \<Rightarrow> nat" where
  "ra_KR a = (if ra_column a then ra_K a - 1 else ra_K a)"

definition ra_C :: "rows_args \<Rightarrow> nat" where
  "ra_C a = (if ra_column a then 1 else w32 (ra_page_bytes a + ra_chunk_bytes a - 1) div ra_chunk_bytes a)"

definition transfers_per_item :: "rows_args \<Rightarrow> nat" where
  "transfers_per_item a = (if ra_column a then ra_W a else w32 (ra_W a * ra_S a * ra_C a))"

definition column_bytes :: "rows_args \<Rightarrow> nat" where
  "column_bytes a = (if ra_column a then w32 (ra_windows a ! (ra_K a - 1) * ra_elem_bytes a) else 0)"

text \<open>DRAM as the kernels read it: the bytes of the table's pages, the words of the index tensor's.\<close>

record rows_dram =
  dr_table :: pages
  dr_indices :: "nat \<Rightarrow> nat \<Rightarrow> u32"

datatype rows_dfb = Rows | Index

datatype rows_entry = Bytes l1 | Words "nat \<Rightarrow> u32"


type_synonym rows_instr = "(rows_dfb, rows_entry, put list) dfb_instr"

section \<open>The reader\<close>

record gather_reader =
  gr_loaded_end :: nat
  gr_chunk_begin :: nat
  gr_chunk_addr :: nat
  gr_chunk :: "nat \<Rightarrow> u32"
  gr_loaded :: bool
  gr_coords :: coords
  gr_coords_item :: nat

definition gather_reader_init :: "nat \<Rightarrow> (nat \<Rightarrow> u32) \<Rightarrow> gather_reader" where
  "gather_reader_init first_item entry =
     \<lparr>gr_loaded_end = first_item, gr_chunk_begin = first_item, gr_chunk_addr = 0, gr_chunk = entry, gr_loaded = False,
      gr_coords = \<lparr>co_c = [], co_out_of_bounds = False\<rparr>, gr_coords_item = 0xFFFFFFFF\<rparr>"

text \<open>The positions a chunk takes: up to the batch, the range of the core and the index batch.\<close>

definition chunk_positions :: "rows_args \<Rightarrow> nat \<Rightarrow> nat \<Rightarrow> nat" where
  "chunk_positions a end_item item =
     (let m = item mod ra_M a; n = end_item - item;
          n = (if ra_index_batch a < n then ra_index_batch a else n)
      in if ra_M a - m < n then ra_M a - m else n)"

definition load_chunk :: "rows_args \<Rightarrow> rows_dram \<Rightarrow> nat \<Rightarrow> nat \<Rightarrow> gather_reader \<Rightarrow> rows_instr list \<times> gather_reader" where
  "load_chunk a d end_item item s =
     (let pops = (if gr_loaded s then [Pop Index 1] else []);
          n = chunk_positions a end_item item;
          (chunk, addr) = stream_index (dr_indices d) (ra_K a) (ra_index_stride a)
             (if ra_shared a then 0 else item div ra_M a) (item mod ra_M a) n (gr_chunk s)
      in (pops @ [Reserve Index 1, Fill Index 0 (\<lambda>_. Words chunk), Push Index 1],
          s\<lparr>gr_chunk := chunk, gr_chunk_addr := addr, gr_loaded := True, gr_chunk_begin := item, gr_loaded_end := item + n\<rparr>))"

definition seek_item :: "rows_args \<Rightarrow> rows_dram \<Rightarrow> nat \<Rightarrow> nat \<Rightarrow> gather_reader \<Rightarrow> rows_instr list \<times> gather_reader" where
  "seek_item a d end_item item s =
     (if item \<noteq> gr_coords_item s then
        let (instrs, s) = (if gr_loaded_end s \<le> item then load_chunk a d end_item item s else ([], s));
            c = decode (ra_K a) (ra_unsigned a) (\<lambda>k. gr_chunk s (gr_chunk_addr s + (item - gr_chunk_begin s) + k))
                  (ra_index_stride a) (ra_sizes a) (ra_windows a)
        in (instrs, s\<lparr>gr_coords := c, gr_coords_item := item\<rparr>)
      else ([], s))"

text \<open>Where a transfer reads: page, offset, bytes, and where its data lands and belongs in the entry.\<close>

record transfer =
  tr_page :: nat
  tr_offset :: nat
  tr_bytes :: nat
  tr_from :: nat
  tr_to :: nat

definition gather_read :: "rows_args \<Rightarrow> coords \<Rightarrow> nat \<Rightarrow> nat \<Rightarrow> transfer" where
  "gather_read a c item t =
     (let b = item div ra_M a in
      if ra_column a then
        let offset = w32 (coord32 (co_c c ! (ra_K a - 1)) * ra_elem_bytes a) in
        \<lparr>tr_page = w32 (b * ra_N a + window_row (ra_KR a) c t (ra_windows a) (ra_strides a)),
         tr_offset = offset, tr_bytes = column_bytes a, tr_from = offset mod kGranule,
         tr_to = w32 ((item mod ra_M a * ra_W a + t) * column_bytes a) mod kGranule\<rparr>
      else
        let j = t div (ra_S a * ra_C a); s = t div ra_C a mod ra_S a; cc = t mod ra_C a;
            offset = w32 (cc * ra_chunk_bytes a) in
        \<lparr>tr_page = w32 ((b * ra_N a + window_row (ra_KR a) c j (ra_windows a) (ra_strides a)) * ra_S a + s),
         tr_offset = offset,
         tr_bytes = (if ra_page_bytes a - offset < ra_chunk_bytes a then ra_page_bytes a - offset else ra_chunk_bytes a),
         tr_from = 0, tr_to = 0\<rparr>)"

definition place :: "nat \<Rightarrow> u8 list \<Rightarrow> l1 \<Rightarrow> l1" where
  "place off data p = (\<lambda>a. if off \<le> a \<and> a < off + length data then data ! (a - off) else p a)"

text \<open>The entry of a transfer after the barrier and the realignment.\<close>

definition gather_entry :: "rows_args \<Rightarrow> rows_dram \<Rightarrow> coords \<Rightarrow> transfer \<Rightarrow> l1 \<Rightarrow> l1" where
  "gather_entry a d c tr old =
     (let zero = ra_fill_oob a \<and> co_out_of_bounds c;
          from = (if zero \<and> ra_column a then tr_to tr else tr_from tr);
          data = (if zero then replicate (tr_bytes tr) 0
                  else map (\<lambda>i. dr_table d (tr_page tr) (tr_offset tr + i)) [0..<tr_bytes tr]);
          landed = place from data old
      in if ra_column a then realign from (tr_to tr) (column_bytes a) landed else landed)"

text \<open>The transfers of one group, in order; the entries' old contents are arbitrary.\<close>

fun gather_group ::
  "rows_args \<Rightarrow> rows_dram \<Rightarrow> (nat \<Rightarrow> l1) \<Rightarrow> nat \<Rightarrow> nat list \<Rightarrow> gather_reader \<Rightarrow>
   rows_instr list \<times> rows_entry list \<times> gather_reader" where
  "gather_group a d old end_item [] s = ([], [], s)"
| "gather_group a d old end_item (q # qs) s =
     (let item = q div transfers_per_item a; t = q mod transfers_per_item a;
          (instrs, s) = seek_item a d end_item item s;
          tr = gather_read a (gr_coords s) item t;
          entry = Bytes (gather_entry a d (gr_coords s) tr (old q));
          (more, entries, s) = gather_group a d old end_item qs s
      in (instrs @ more, entry # entries, s))"

function gather_reader_loop ::
  "rows_args \<Rightarrow> rows_dram \<Rightarrow> (nat \<Rightarrow> l1) \<Rightarrow> nat \<Rightarrow> nat \<Rightarrow> nat \<Rightarrow> nat \<Rightarrow> gather_reader \<Rightarrow> rows_instr list" where
  "gather_reader_loop a d old first amount end_item q s =
     (if q < amount \<and> 0 < ra_group a then
        let count = (if amount - q < ra_group a then amount - q else ra_group a);
            (instrs, entries, s) = gather_group a d old end_item [first + q..<first + q + count] s
        in Reserve Rows count # instrs @ fills Rows 0 entries @ [Push Rows count] @
           gather_reader_loop a d old first amount end_item (q + count) s
      else if gr_loaded s then [Pop Index 1] else [])"
  by pat_completeness auto
termination by (relation "measure (\<lambda>(a, d, old, first, amount, end_item, q, s). amount - q)") auto

declare gather_reader_loop.simps [simp del]

definition gather_reader_main ::
  "rows_args \<Rightarrow> rows_dram \<Rightarrow> (nat \<Rightarrow> l1) \<Rightarrow> (nat \<Rightarrow> u32) \<Rightarrow> nat \<Rightarrow> nat \<Rightarrow> rows_instr list" where
  "gather_reader_main a d old entry first num =
     (let first_item = first div transfers_per_item a;
          end_item = (if num = 0 then first_item else (first + num - 1) div transfers_per_item a + 1)
      in gather_reader_loop a d old first num end_item 0 (gather_reader_init first_item entry))"

section \<open>The writer\<close>

definition gather_put :: "rows_args \<Rightarrow> nat \<Rightarrow> rows_entry \<Rightarrow> put list \<Rightarrow> put list" where
  "gather_put a q v puts =
     (let item = q div transfers_per_item a; t = q mod transfers_per_item a;
          data = (\<lambda>off bytes. case v of Bytes p \<Rightarrow> map (\<lambda>i. p (off + i)) [0..<bytes] | Words _ \<Rightarrow> [])
      in if ra_column a then
           let offset = w32 ((item mod ra_M a * ra_W a + t) * column_bytes a)
           in puts @ [(item div ra_M a, offset, data (offset mod 64) (column_bytes a))]
         else
           let j = t div (ra_S a * ra_C a); s = t div ra_C a mod ra_S a; c = t mod ra_C a;
               offset = w32 (c * ra_chunk_bytes a);
               bytes = (if ra_page_bytes a - offset < ra_chunk_bytes a then ra_page_bytes a - offset else ra_chunk_bytes a)
           in puts @ [(w32 ((item * ra_W a + j) * ra_S a + s), offset, data 0 bytes)])"

function gather_writer_loop :: "rows_args \<Rightarrow> nat \<Rightarrow> nat \<Rightarrow> nat \<Rightarrow> rows_instr list" where
  "gather_writer_loop a first amount q =
     (if q < amount \<and> 0 < ra_group a then
        let count = (if amount - q < ra_group a then amount - q else ra_group a)
        in Await Rows count # takes Rows 0 (map (gather_put a) [first + q..<first + q + count]) @ [Pop Rows count] @
           gather_writer_loop a first amount (q + count)
      else [])"
  by pat_completeness auto
termination by (relation "measure (\<lambda>(a, first, amount, q). amount - q)") auto

declare gather_writer_loop.simps [simp del]

definition gather_writer_main :: "rows_args \<Rightarrow> nat \<Rightarrow> nat \<Rightarrow> rows_instr list" where
  "gather_writer_main a first num = gather_writer_loop a first num 0"

text \<open>The kernels of a core: the reader and the writer, on the buffers the factory made.\<close>

definition gather_progs ::
  "rows_args \<Rightarrow> rows_dram \<Rightarrow> (nat \<Rightarrow> l1) \<Rightarrow> (nat \<Rightarrow> u32) \<Rightarrow> nat \<Rightarrow> nat \<Rightarrow> nat \<Rightarrow> rows_instr list" where
  "gather_progs a d old entry first num k =
     (if k = 0 then gather_reader_main a d old entry first num
      else if k = 1 then gather_writer_main a first num else [])"

definition gather_ring_size :: "rows_args \<Rightarrow> rows_dfb \<Rightarrow> nat" where
  "gather_ring_size a x = (case x of Rows \<Rightarrow> 2 * ra_group a | Index \<Rightarrow> 1)"

end
