(* ===== verification/RowsGatherRun.thy ===== *)
theory RowsGatherRun
  imports RowsGather
begin

text \<open>
  rows_gather proved: what the reader holds while it streams the index tensor, a complete
  schedule of the two kernels, and with it every run of a core; then the output tensor, page by
  page and byte by byte, against the table and the clamped start indices.
\<close>

section \<open>The coordinates of a position\<close>

definition position_index :: "rows_args \<Rightarrow> rows_dram \<Rightarrow> nat \<Rightarrow> nat \<Rightarrow> u32" where
  "position_index a d item k = dr_indices d ((if ra_shared a then 0 else item div ra_M a) * ra_K a + k) (item mod ra_M a)"

definition position_coords :: "rows_args \<Rightarrow> rows_dram \<Rightarrow> nat \<Rightarrow> coords" where
  "position_coords a d item =
     (let out = map (\<lambda>k. decode_component (ra_unsigned a) (position_index a d item k) (ra_sizes a ! k) (ra_windows a ! k)) [0..<ra_K a]
      in \<lparr>co_c = map fst out, co_out_of_bounds = list_ex snd out\<rparr>)"

lemma decode_position:
  assumes "\<And>k. k < ra_K a \<Longrightarrow> ptr (k * stride) = position_index a d item k"
  shows "decode (ra_K a) (ra_unsigned a) ptr stride (ra_sizes a) (ra_windows a) = position_coords a d item"
proof -
  have "map (\<lambda>k. decode_component (ra_unsigned a) (ptr (k * stride)) (ra_sizes a ! k) (ra_windows a ! k)) [0..<ra_K a] =
      map (\<lambda>k. decode_component (ra_unsigned a) (position_index a d item k) (ra_sizes a ! k) (ra_windows a ! k)) [0..<ra_K a]"
    using assms by simp
  then show ?thesis unfolding decode_def position_coords_def by (simp only: Let_def)
qed

section \<open>The index chunk\<close>

definition gather_ok :: "rows_args \<Rightarrow> bool" where
  "gather_ok a \<longleftrightarrow> 0 < ra_group a \<and> 0 < ra_index_batch a \<and> 0 < ra_M a \<and>
     ra_index_batch a + 16 \<le> ra_index_stride a \<and> 0 < transfers_per_item a"

definition chunk_ok :: "rows_args \<Rightarrow> rows_dram \<Rightarrow> gather_reader \<Rightarrow> bool" where
  "chunk_ok a d s \<longleftrightarrow> (\<forall>item k. gr_chunk_begin s \<le> item \<and> item < gr_loaded_end s \<and> k < ra_K a \<longrightarrow>
     gr_chunk s (gr_chunk_addr s + (item - gr_chunk_begin s) + k * ra_index_stride a) = position_index a d item k)"

definition reader_inv :: "rows_args \<Rightarrow> rows_dram \<Rightarrow> nat \<Rightarrow> gather_reader \<Rightarrow> bool" where
  "reader_inv a d item s \<longleftrightarrow>
     (gr_coords_item s \<noteq> 0xFFFFFFFF \<longrightarrow> gr_coords s = position_coords a d (gr_coords_item s)) \<and>
     (if gr_loaded s then gr_chunk_begin s \<le> item \<and> chunk_ok a d s else gr_loaded_end s \<le> item)"

lemma reader_inv_mono: "reader_inv a d item s \<Longrightarrow> item \<le> item' \<Longrightarrow> reader_inv a d item' s"
  by (auto simp: reader_inv_def)

lemma chunk_positions_bounds:
  assumes "gather_ok a" "item < end_item"
  shows "0 < chunk_positions a end_item item" "chunk_positions a end_item item \<le> ra_index_batch a"
    "item mod ra_M a + chunk_positions a end_item item \<le> ra_M a"
proof -
  have "item mod ra_M a < ra_M a" using assms(1) by (simp add: gather_ok_def)
  then show "0 < chunk_positions a end_item item" "chunk_positions a end_item item \<le> ra_index_batch a"
    "item mod ra_M a + chunk_positions a end_item item \<le> ra_M a"
    using assms by (auto simp: chunk_positions_def gather_ok_def Let_def)
qed

lemma same_batch:
  assumes "item mod m + i < (m :: nat)"
  shows "(item + i) div m = item div m" "(item + i) mod m = item mod m + i"
proof -
  have "item + i = item div m * m + (item mod m + i)" by simp
  then show "(item + i) div m = item div m" "(item + i) mod m = item mod m + i"
    using index_div [OF assms] index_mod [OF assms] by metis+
qed

lemma load_chunk_ok:
  assumes "gather_ok a" "item < end_item"
  shows "chunk_ok a d (snd (load_chunk a d end_item item s))"
  unfolding chunk_ok_def
proof (intro allI impI, elim conjE)
  let ?s = "snd (load_chunk a d end_item item s)" and ?n = "chunk_positions a end_item item"
  fix item' k assume "gr_chunk_begin ?s \<le> item'" "item' < gr_loaded_end ?s" and k: "k < ra_K a"
  then have "item \<le> item'" "item' < item + ?n" by (simp_all add: load_chunk_def Let_def split_beta)
  then obtain i where i: "item' = item + i" "i < ?n" by (metis le_add_diff_inverse nat_add_left_cancel_less)
  note n = chunk_positions_bounds [OF assms]
  have "item mod ra_M a + i < ra_M a" using i(2) n(3) by linarith
  note batch = same_batch [OF this]
  have "?n + 16 \<le> ra_index_stride a" using n(2) assms(1) by (simp add: gather_ok_def)
  from stream_index_at [OF k i(2) this]
  show "gr_chunk ?s (gr_chunk_addr ?s + (item' - gr_chunk_begin ?s) + k * ra_index_stride a) = position_index a d item' k"
    by (simp add: load_chunk_def Let_def split_beta i(1) position_index_def batch)
qed

lemma seek_item_ok:
  assumes "gather_ok a" "reader_inv a d item0 s" "item0 \<le> item" "item < end_item" "item < 0xFFFFFFFF"
  shows "reader_inv a d item (snd (seek_item a d end_item item s)) \<and>
    gr_coords (snd (seek_item a d end_item item s)) = position_coords a d item"
proof (cases "item = gr_coords_item s")
  case True
  then show ?thesis using assms(2,5) reader_inv_mono [OF assms(2,3)] by (simp add: seek_item_def reader_inv_def)
next
  case False
  let ?s = "if gr_loaded_end s \<le> item then snd (load_chunk a d end_item item s) else s"
  have s: "gr_loaded ?s" "gr_chunk_begin ?s \<le> item" "item < gr_loaded_end ?s" "chunk_ok a d ?s"
    using assms load_chunk_ok [OF assms(1,4), of d s] chunk_positions_bounds(1) [OF assms(1,4)]
    by (auto simp: reader_inv_def load_chunk_def Let_def split_beta split: if_splits)
  have "decode (ra_K a) (ra_unsigned a) (\<lambda>k. gr_chunk ?s (gr_chunk_addr ?s + (item - gr_chunk_begin ?s) + k))
      (ra_index_stride a) (ra_sizes a) (ra_windows a) = position_coords a d item"
    by (rule decode_position) (use s(2-4) in \<open>simp only: chunk_ok_def\<close>)
  moreover have "snd (seek_item a d end_item item s) = ?s\<lparr>gr_coords := decode (ra_K a) (ra_unsigned a)
      (\<lambda>k. gr_chunk ?s (gr_chunk_addr ?s + (item - gr_chunk_begin ?s) + k))
      (ra_index_stride a) (ra_sizes a) (ra_windows a), gr_coords_item := item\<rparr>"
    using False by (simp add: seek_item_def Let_def split_beta)
  ultimately show ?thesis using s by (simp add: reader_inv_def chunk_ok_def)
qed

section \<open>The index buffer\<close>

definition index_at :: "rows_args \<Rightarrow> (rows_dfb \<Rightarrow> rows_entry ring) \<Rightarrow> gather_reader \<Rightarrow> bool" where
  "index_at a r s \<longleftrightarrow> (\<exists>q xs. dfb_at (gather_ring_size a) r Index q xs [] 0 0 \<and> length xs = (if gr_loaded s then 1 else 0))"

lemma index_pop:
  assumes "dfb_at (gather_ring_size a) r Index q xs [] 0 0" "length xs = (if b then 1 else 0)"
  shows "\<exists>r' q'. exec_list (gather_ring_size a) (if b then [Pop Index 1] else []) (r, l) = Some (r', l) \<and>
    dfb_at (gather_ring_size a) r' Index q' [] [] 0 0 \<and> only_ring Index r r'"
proof (cases b)
  case True
  then obtain x where "xs = [x]" using assms(2) by (auto simp: length_Suc_conv)
  with exec_pop [OF assms(1), of 1 l] True show ?thesis by auto
next
  case False
  then show ?thesis using assms by auto
qed

lemma exec_load_chunk:
  assumes "index_at a r s"
  shows "\<exists>r'. exec_list (gather_ring_size a) (fst (load_chunk a d end_item item s)) (r, l) = Some (r', l) \<and>
    index_at a r' (snd (load_chunk a d end_item item s)) \<and> only_ring Index r r'"
proof -
  let ?N = "gather_ring_size a"
  from assms obtain q xs where "dfb_at ?N r Index q xs [] 0 0" "length xs = (if gr_loaded s then 1 else 0)"
    by (auto simp: index_at_def)
  from index_pop [OF this, of l] obtain r1 q1 where
    r1: "exec_list ?N (if gr_loaded s then [Pop Index 1] else []) (r, l) = Some (r1, l)"
      "dfb_at ?N r1 Index q1 [] [] 0 0" "only_ring Index r r1" by blast
  define w where "w = Words (fst (stream_index (dr_indices d) (ra_K a) (ra_index_stride a)
     (if ra_shared a then 0 else item div ra_M a) (item mod ra_M a) (chunk_positions a end_item item) (gr_chunk s)))"
  have "?N Index = 1" by (simp add: gather_ring_size_def)
  with exec_push_group [OF r1(2), of "[w]" l] obtain r2 where
    r2: "exec_list ?N (Reserve Index 1 # fills Index 0 [w] @ [Push Index 1]) (r1, l) = Some (r2, l)"
      "dfb_at ?N r2 Index q1 [w] [] 0 0" "only_ring Index r1 r2" by auto
  have instrs: "fst (load_chunk a d end_item item s) =
      (if gr_loaded s then [Pop Index 1] else []) @ (Reserve Index 1 # fills Index 0 [w] @ [Push Index 1])"
    and "gr_loaded (snd (load_chunk a d end_item item s))"
    by (simp_all add: load_chunk_def Let_def split_beta w_def)
  then have "index_at a r2 (snd (load_chunk a d end_item item s))"
    using r2(2) unfolding index_at_def by (intro exI [of _ q1] exI [of _ "[w]"]) simp
  moreover have "exec_list ?N (fst (load_chunk a d end_item item s)) (r, l) = Some (r2, l)"
    unfolding instrs exec_list_append r1(1) using r2(1) by simp
  ultimately show ?thesis using only_ring_trans [OF r1(3) r2(3)] by blast
qed

lemma exec_seek_item:
  assumes "index_at a r s"
  shows "\<exists>r'. exec_list (gather_ring_size a) (fst (seek_item a d end_item item s)) (r, l) = Some (r', l) \<and>
    index_at a r' (snd (seek_item a d end_item item s)) \<and> only_ring Index r r'"
proof (cases "item \<noteq> gr_coords_item s \<and> gr_loaded_end s \<le> item")
  case True
  with exec_load_chunk [OF assms, of d end_item item l] show ?thesis
    by (simp add: seek_item_def Let_def split_beta index_at_def)
next
  case False
  with assms show ?thesis by (auto simp: seek_item_def Let_def index_at_def)
qed

section \<open>Groups\<close>

definition expected_entry :: "rows_args \<Rightarrow> rows_dram \<Rightarrow> (nat \<Rightarrow> l1) \<Rightarrow> nat \<Rightarrow> l1" where
  "expected_entry a d old q =
     (let item = q div transfers_per_item a; c = position_coords a d item
      in gather_entry a d c (gather_read a c item (q mod transfers_per_item a)) (old q))"

lemma gather_group_ok:
  assumes "gather_ok a" "end_item \<le> 0xFFFFFFFF"
    and "reader_inv a d item0 s" "item0 \<le> p div transfers_per_item a" "index_at a r s"
    and "\<And>q. q < p + c \<Longrightarrow> q div transfers_per_item a < end_item"
  shows "\<exists>r' s' instrs item'. gather_group a d old end_item [p..<p + c] s =
      (instrs, map (\<lambda>q. Bytes (expected_entry a d old q)) [p..<p + c], s') \<and>
    exec_list (gather_ring_size a) instrs (r, l) = Some (r', l) \<and> index_at a r' s' \<and> only_ring Index r r' \<and>
    reader_inv a d item' s' \<and> item' \<le> (p + c) div transfers_per_item a"
  using assms(3-6)
proof (induction c arbitrary: p s r item0)
  case 0
  then show ?case by (intro exI [of _ r] exI [of _ s] exI [of _ "[]"] exI [of _ item0]) simp
next
  case (Suc c)
  let ?item = "p div transfers_per_item a" and ?N = "gather_ring_size a"
  have "?item < end_item" using Suc.prems(4) [of p] by simp
  moreover from this have "?item < 0xFFFFFFFF" using assms(2) by simp
  ultimately have seek: "reader_inv a d ?item (snd (seek_item a d end_item ?item s))"
      "gr_coords (snd (seek_item a d end_item ?item s)) = position_coords a d ?item"
    using seek_item_ok [OF assms(1) Suc.prems(1,2)] by simp_all
  from exec_seek_item [OF Suc.prems(3), of d end_item ?item l] obtain r1 where
    r1: "exec_list ?N (fst (seek_item a d end_item ?item s)) (r, l) = Some (r1, l)"
      "index_at a r1 (snd (seek_item a d end_item ?item s))" "only_ring Index r r1" by blast
  have "?item \<le> Suc p div transfers_per_item a" by (rule div_le_mono) simp
  from Suc.IH [OF seek(1) this r1(2)] Suc.prems(4) obtain r2 s2 instrs item' where
    r2: "gather_group a d old end_item [Suc p..<Suc p + c] (snd (seek_item a d end_item ?item s)) =
        (instrs, map (\<lambda>q. Bytes (expected_entry a d old q)) [Suc p..<Suc p + c], s2)"
      "exec_list ?N instrs (r1, l) = Some (r2, l)" "index_at a r2 s2" "only_ring Index r1 r2"
      "reader_inv a d item' s2" "item' \<le> (Suc p + c) div transfers_per_item a"
    by auto
  have upt: "[p..<p + Suc c] = p # [Suc p..<Suc p + c]" by (simp add: upt_conv_Cons)
  have "gather_group a d old end_item [p..<p + Suc c] s =
      (fst (seek_item a d end_item ?item s) @ instrs, map (\<lambda>q. Bytes (expected_entry a d old q)) [p..<p + Suc c], s2)"
    unfolding upt using r2(1) seek(2) by (simp add: split_beta Let_def expected_entry_def)
  moreover have "exec_list ?N (fst (seek_item a d end_item ?item s) @ instrs) (r, l) = Some (r2, l)"
    unfolding exec_list_append r1(1) using r2(2) by simp
  ultimately show ?case
    using r2(3,5,6) only_ring_trans [OF r1(3) r2(4)] by (metis add_Suc add_Suc_right)
qed

text \<open>A group of the rows buffer starts at a multiple of the group, so it never straddles the end.\<close>

lemma group_fits: "q mod g = 0 \<Longrightarrow> c \<le> g \<Longrightarrow> q mod (2 * g) + c \<le> 2 * (g :: nat)"
proof -
  assume q: "q mod g = 0" and c: "c \<le> g"
  then have "q mod (2 * g) = g * (q div g mod 2)" by (simp add: mod_mult2_eq mult.commute)
  moreover have "q div g mod 2 \<le> 1" by simp
  ultimately have "q mod (2 * g) \<le> g" by (metis mult.right_neutral mult_le_mono2)
  with c show ?thesis by simp
qed

lemma take_puts:
  "take_all (map (gather_put a) qs) (map (\<lambda>q. Bytes (f q)) qs) puts = puts @ concat (map (\<lambda>q. gather_put a q (Bytes (f q)) []) qs)"
proof -
  have "gather_put a q v puts = puts @ gather_put a q v []" for q v puts by (simp add: gather_put_def Let_def)
  note put = this
  show ?thesis
  proof (induction qs arbitrary: puts)
    case (Cons q qs)
    have "take_all (map (gather_put a) (q # qs)) (map (\<lambda>q. Bytes (f q)) (q # qs)) puts =
        take_all (map (gather_put a) qs) (map (\<lambda>q. Bytes (f q)) qs) (gather_put a q (Bytes (f q)) puts)"
      by (simp add: take_all_def)
    also have "\<dots> = (puts @ gather_put a q (Bytes (f q)) []) @ concat (map (\<lambda>q. gather_put a q (Bytes (f q)) []) qs)"
      unfolding Cons.IH put [of q "Bytes (f q)" puts] ..
    finally show ?case by simp
  qed (simp add: take_all_def)
qed

section \<open>A complete schedule\<close>

definition gather_puts :: "rows_args \<Rightarrow> rows_dram \<Rightarrow> (nat \<Rightarrow> l1) \<Rightarrow> nat list \<Rightarrow> put list" where
  "gather_puts a d old qs = concat (map (\<lambda>q. gather_put a q (Bytes (expected_entry a d old q)) []) qs)"

lemma exec_gather_group:
  assumes "gather_ok a" "end_item \<le> 0xFFFFFFFF"
    and "reader_inv a d item0 s" "item0 \<le> p div transfers_per_item a" "index_at a r s"
    and "\<And>q. q < p + c \<Longrightarrow> q div transfers_per_item a < end_item"
    and "dfb_at (gather_ring_size a) r Rows n [] [] k h" "n mod ra_group a = 0" "c \<le> ra_group a"
    and "gather_group a d old end_item [p..<p + c] s = (instrs, entries, s')"
  shows "\<exists>r' item'. exec_list (gather_ring_size a) (Reserve Rows c # instrs @ fills Rows 0 entries @ [Push Rows c]) (r, l) = Some (r', l) \<and>
    dfb_at (gather_ring_size a) r' Rows n (map (\<lambda>q. Bytes (expected_entry a d old q)) [p..<p + c]) [] 0 h \<and>
    index_at a r' s' \<and> reader_inv a d item' s' \<and> item' \<le> (p + c) div transfers_per_item a"
proof -
  let ?N = "gather_ring_size a"
  have N: "?N Rows = 2 * ra_group a" by (simp add: gather_ring_size_def)
  have "length ([] :: rows_entry list) + c \<le> ?N Rows" using assms(9) by (simp add: N)
  from exec_reserve [OF assms(7) this, of l] obtain r1 where
    r1: "exec ?N (Reserve Rows c) (r, l) = Some (r1, l)" "dfb_at ?N r1 Rows n [] [] c h" "only_ring Rows r r1" by blast
  have "index_at a r1 s" using assms(5) dfb_at_only [OF r1(3), of Index] by (auto simp: index_at_def)
  from gather_group_ok [OF assms(1-4) this, where c = c and old = old and l = l] assms(6,10) obtain r2 item' where
    r2: "entries = map (\<lambda>q. Bytes (expected_entry a d old q)) [p..<p + c]"
      "exec_list ?N instrs (r1, l) = Some (r2, l)" "index_at a r2 s'" "only_ring Index r1 r2"
      "reader_inv a d item' s'" "item' \<le> (p + c) div transfers_per_item a"
    by auto
  have at: "dfb_at ?N r2 Rows n [] [] c h" using r1(2) dfb_at_only [OF r2(4), of Rows] by simp
  have len: "length entries = c" by (simp add: r2(1))
  have "(n + length ([] :: rows_entry list)) mod ?N Rows + c \<le> ?N Rows" using group_fits [OF assms(8,9)] by (simp add: N)
  from exec_fills [OF at _ this, of entries l] len obtain r3 where
    r3: "exec_list ?N (fills Rows 0 entries) (r2, l) = Some (r3, l)" "dfb_at ?N r3 Rows n [] entries c h" "only_ring Rows r2 r3"
    by auto
  from exec_push [OF r3(2) refl len [symmetric], of l] obtain r4 where
    r4: "exec ?N (Push Rows c) (r3, l) = Some (r4, l)" "dfb_at ?N r4 Rows n entries [] 0 h" "only_ring Rows r3 r4" by auto
  have "index_at a r4 s'"
    using r2(3) dfb_at_only [OF only_ring_trans [OF r3(3) r4(3)], of Index] by (auto simp: index_at_def)
  moreover have "exec_list ?N (Reserve Rows c # instrs @ fills Rows 0 entries @ [Push Rows c]) (r, l) = Some (r4, l)"
    using r1(1) r2(2) r3(1) r4(1) by (simp add: exec_list_append)
  ultimately show ?thesis using r4(2) r2(1,5,6) by blast
qed

lemma gather_complete:
  assumes ok: "gather_ok a" "end_item \<le> 0xFFFFFFFF" "\<And>q. 0 < amount \<Longrightarrow> q < first + amount \<Longrightarrow> q div transfers_per_item a < end_item"
    and "reader_inv a d item0 s" "item0 \<le> (first + q) div transfers_per_item a" "index_at a (rings st) s"
    and "dfb_at (gather_ring_size a) (rings st) Rows q [] [] 0 0" "q mod ra_group a = 0 \<or> amount \<le> q" "q \<le> amount"
    and "progs st 0 = gather_reader_loop a d old first amount end_item q s"
    and "progs st 1 = gather_writer_loop a first amount q" "\<And>k. 1 < k \<Longrightarrow> progs st k = []"
  shows "\<exists>m f. net_run (gather_ring_size a) m st f \<and> net_done f \<and>
    stores f 1 = stores st 1 @ gather_puts a d old [first + q..<first + amount]"
  using assms(4-)
proof (induction "amount - q" arbitrary: q s st item0 rule: less_induct)
  case less
  let ?N = "gather_ring_size a"
  show ?case
  proof (cases "q < amount")
    case False
    let ?f = "\<lambda>r. \<lparr>rings = r, progs = (progs st)(0 := []), stores = (stores st)(0 := stores st 0)\<rparr>"
    have reader: "progs st 0 = (if gr_loaded s then [Pop Index 1] else []) @ []"
      using False less.prems(7) by (simp add: gather_reader_loop.simps [of a d old first amount end_item q s])
    have writer: "progs st 1 = []" using False less.prems(8) by (simp add: gather_writer_loop.simps [of a first amount q])
    from less.prems(3) obtain n xs where "dfb_at ?N (rings st) Index n xs [] 0 0" "length xs = (if gr_loaded s then 1 else 0)"
      by (auto simp: index_at_def)
    from index_pop [OF this, of "stores st 0"] obtain r where
      "exec_list ?N (if gr_loaded s then [Pop Index 1] else []) (rings st, stores st 0) = Some (r, stores st 0)" by blast
    from run_prefix [OF this reader] obtain m where run: "net_run ?N m st (?f r)" by blast
    have "progs st k = []" if "k \<noteq> 0" for k
      using that writer less.prems(9) by (cases "k = 1") simp_all
    then have "net_done (?f r)" by (simp add: net_done_def)
    moreover have "stores (?f r) 1 = stores st 1 @ gather_puts a d old [first + q..<first + amount]"
      using False by (simp add: gather_puts_def)
    ultimately show ?thesis using run by blast
  next
    case True
    define c where "c = (if amount - q < ra_group a then amount - q else ra_group a)"
    have group: "0 < ra_group a" using ok(1) by (simp add: gather_ok_def)
    have c: "0 < c" "c \<le> ra_group a" "q + c \<le> amount" using True group by (auto simp: c_def)
    have next_group: "(q + c) mod ra_group a = 0 \<or> amount \<le> q + c" "q mod ra_group a = 0"
      using True less.prems(5) by (auto simp: c_def mod_add_eq)
    obtain instrs entries s' where group_eq: "gather_group a d old end_item [first + q..<first + q + c] s = (instrs, entries, s')"
      by (metis prod_cases3)
    have items: "p div transfers_per_item a < end_item" if "p < first + q + c" for p using that c(1,3) ok(3) by simp
    from exec_gather_group [OF ok(1,2) less.prems(1-3) items less.prems(4) next_group(2) c(2) group_eq, of "stores st 0"]
    obtain r1 item' where
      r1: "exec_list ?N (Reserve Rows c # instrs @ fills Rows 0 entries @ [Push Rows c]) (rings st, stores st 0) = Some (r1, stores st 0)"
        "dfb_at ?N r1 Rows q (map (\<lambda>q. Bytes (expected_entry a d old q)) [first + q..<first + q + c]) [] 0 0"
        "index_at a r1 s'" "reader_inv a d item' s'" "item' \<le> (first + q + c) div transfers_per_item a" by blast
    have reader: "progs st 0 = (Reserve Rows c # instrs @ fills Rows 0 entries @ [Push Rows c]) @
        gather_reader_loop a d old first amount end_item (q + c) s'"
      using True group less.prems(7) group_eq
      by (simp add: gather_reader_loop.simps [of a d old first amount end_item q s] c_def Let_def)
    define st1 where "st1 = \<lparr>rings = r1, progs = (progs st)(0 := gather_reader_loop a d old first amount end_item (q + c) s'),
      stores = (stores st)(0 := stores st 0)\<rparr>"
    from run_prefix [OF r1(1) reader] obtain m1 where run1: "net_run ?N m1 st st1" unfolding st1_def by blast
    define gs where "gs = map (gather_put a) [first + q..<first + q + c]"
    have gs: "length gs = c" by (simp add: gs_def)
    have "q mod ?N Rows + length gs \<le> ?N Rows"
      using group_fits [OF next_group(2) c(2)] by (simp add: gs gather_ring_size_def)
    from exec_pop_group [OF r1(2) _ this, of "stores st 1"] obtain r2 where
      r2: "exec_list ?N (Await Rows c # takes Rows 0 gs @ [Pop Rows c]) (r1, stores st 1) =
          Some (r2, take_all gs (map (\<lambda>q. Bytes (expected_entry a d old q)) [first + q..<first + q + c]) (stores st 1))"
        "dfb_at ?N r2 Rows (q + c) [] [] 0 0" "only_ring Rows r1 r2"
      by (auto simp: gs)
    have puts: "take_all gs (map (\<lambda>q. Bytes (expected_entry a d old q)) [first + q..<first + q + c]) (stores st 1) =
        stores st 1 @ gather_puts a d old [first + q..<first + q + c]"
      by (simp only: gs_def take_puts gather_puts_def)
    have writer: "progs st1 1 = (Await Rows c # takes Rows 0 gs @ [Pop Rows c]) @ gather_writer_loop a first amount (q + c)"
      using True group less.prems(8) by (simp add: st1_def gather_writer_loop.simps [of a first amount q] c_def gs_def Let_def)
    define st2 where "st2 = \<lparr>rings = r2, progs = (progs st1)(1 := gather_writer_loop a first amount (q + c)),
      stores = (stores st1)(1 := stores st 1 @ gather_puts a d old [first + q..<first + q + c])\<rparr>"
    have "exec_list ?N (Await Rows c # takes Rows 0 gs @ [Pop Rows c]) (rings st1, stores st1 1) =
        Some (r2, stores st 1 @ gather_puts a d old [first + q..<first + q + c])"
      using r2(1) puts by (simp add: st1_def)
    from run_prefix [OF this writer] obtain m2 where run2: "net_run ?N m2 st1 st2" unfolding st2_def by blast
    have "index_at a (rings st2) s'" using r1(3) dfb_at_only [OF r2(3), of Index] by (auto simp: index_at_def st2_def)
    moreover have "amount - (q + c) < amount - q" using c True by simp
    ultimately obtain m3 f where run3: "net_run ?N m3 st2 f" "net_done f"
        "stores f 1 = stores st2 1 @ gather_puts a d old [first + (q + c)..<first + amount]"
      using less.hyps [of "q + c" item' s' st2] r1(4,5) r2(2) next_group(1) c(3) less.prems(9)
      by (auto simp: st2_def st1_def add.assoc)
    have "[first + q..<first + amount] = [first + q..<first + q + c] @ [first + q + c..<first + amount]"
      using c(3) upt_add_eq_append [of "first + q" "first + q + c" "amount - (q + c)"] by simp
    then have "stores f 1 = stores st 1 @ gather_puts a d old [first + q..<first + amount]"
      using run3(3) by (simp add: st2_def gather_puts_def add.assoc)
    then show ?thesis using net_run_trans [OF run1 net_run_trans [OF run2 run3(1)]] run3(2) by blast
  qed
qed

section \<open>Every run of a core\<close>

lemma seek_item_instrs:
  "x \<in> set (fst (seek_item a d end_item item s)) \<Longrightarrow> instr_dfb x = Some Index"
  by (auto simp: seek_item_def load_chunk_def Let_def split_beta split: if_splits)

lemma gather_group_instrs:
  "x \<in> set (fst (gather_group a d old end_item qs s)) \<Longrightarrow> instr_dfb x = Some Index"
  by (induction qs arbitrary: s) (auto simp: Let_def split_beta dest: seek_item_instrs)

lemma gather_reader_instrs:
  "x \<in> set (gather_reader_loop a d old first amount end_item q s) \<Longrightarrow> produces Rows x \<or> instr_dfb x = Some Index"
proof (induction a d old first amount end_item q s rule: gather_reader_loop.induct)
  case (1 a d old first amount end_item q s)
  show ?case
  proof (cases "q < amount \<and> 0 < ra_group a")
    case True
    let ?c = "if amount - q < ra_group a then amount - q else ra_group a"
    obtain instrs entries s' where g: "gather_group a d old end_item [first + q..<first + q + ?c] s = (instrs, entries, s')"
      by (metis prod_cases3)
    from "1.prems" True g have "x = Reserve Rows ?c \<or> x \<in> set instrs \<or> x \<in> set (fills Rows 0 entries) \<or> x = Push Rows ?c \<or>
        x \<in> set (gather_reader_loop a d old first amount end_item (q + ?c) s')"
      by (subst (asm) gather_reader_loop.simps) (auto simp: Let_def)
    then show ?thesis
      using gather_group_instrs [of x a d old end_item "[first + q..<first + q + ?c]" s] fills_instrs [of x Rows 0 entries]
        "1.IH" [OF True refl g [symmetric] refl refl] g by auto
  next
    case False
    with "1.prems" show ?thesis by (subst (asm) gather_reader_loop.simps) (auto split: if_splits)
  qed
qed

lemma gather_writer_instrs:
  "x \<in> set (gather_writer_loop a first amount q) \<Longrightarrow> consumes Rows x"
proof (induction a first amount q rule: gather_writer_loop.induct)
  case (1 a first amount q)
  then show ?case
    by (subst (asm) (2) gather_writer_loop.simps) (auto simp: Let_def split: if_splits dest: takes_instrs)
qed

lemma gather_owned: "owned (gather_progs a d old entry first num)"
proof -
  let ?P = "gather_progs a d old entry first num"
  have reader: "produces Rows x \<or> instr_dfb x = Some Index" if "x \<in> set (?P 0)" for x
    using that gather_reader_instrs by (auto simp: gather_progs_def gather_reader_main_def Let_def)
  have writer: "consumes Rows x" if "x \<in> set (?P (Suc 0))" for x
    using that gather_writer_instrs by (auto simp: gather_progs_def gather_writer_main_def)
  have clash: "\<not> (produces e x \<and> produces e y) \<and> \<not> (consumes e x \<and> consumes e y)"
    if "x \<in> set (?P 0)" "y \<in> set (?P (Suc 0))" for x y e
    using reader [OF that(1)] writer [OF that(2)] produces_dfb consumes_dfb not_both
    by (metis option.inject rows_dfb.distinct(1))
  have "?P k = []" if "k \<noteq> 0" "k \<noteq> Suc 0" for k using that by (simp add: gather_progs_def)
  then show ?thesis unfolding owned_def using clash
    by (metis equals0D list.set(1))
qed

lemma gather_runs:
  assumes ok: "gather_ok a" and range: "first + num < 2 ^ 32"
  shows "\<exists>m f. net_run (gather_ring_size a) m (net_start (gather_progs a d old entry first num) (\<lambda>_. [])) f \<and> net_done f \<and>
    stores f 1 = gather_puts a d old [first..<first + num]"
proof -
  let ?tpi = "transfers_per_item a"
  define end_item where "end_item = (if num = 0 then first div ?tpi else (first + num - 1) div ?tpi + 1)"
  have "first div ?tpi \<le> first" "(first + num - 1) div ?tpi \<le> first + num - 1" by simp_all
  moreover have "first \<le> 0xFFFFFFFF" "first + num - 1 \<le> 0xFFFFFFFE" if "0 < num" using range that by simp_all
  moreover have "first \<le> 0xFFFFFFFF" using range by simp
  ultimately have end_item: "end_item \<le> 0xFFFFFFFF" by (auto simp: end_item_def intro: order_trans [OF div_le_dividend])
  have items: "q div ?tpi < end_item" if "0 < num" "q < first + num" for q
  proof -
    have "q \<le> first + num - 1" using that by simp
    then have "q div ?tpi \<le> (first + num - 1) div ?tpi" by (rule div_le_mono)
    then show ?thesis using that by (simp add: end_item_def)
  qed
  let ?s = "gather_reader_init (first div ?tpi) entry"
  let ?st = "net_start (gather_progs a d old entry first num) (\<lambda>_. [])"
  have inv: "reader_inv a d (first div ?tpi) ?s"
    by (simp add: reader_inv_def gather_reader_init_def)
  have index: "index_at a (rings ?st) ?s"
    using dfb_at_init [of "gather_ring_size a" Index] by (auto simp: index_at_def gather_reader_init_def net_start_def)
  have rows: "dfb_at (gather_ring_size a) (rings ?st) Rows 0 [] [] 0 0"
    using dfb_at_init [of "gather_ring_size a" Rows] by (simp add: net_start_def)
  have progs: "progs ?st 0 = gather_reader_loop a d old first num end_item 0 ?s" "progs ?st 1 = gather_writer_loop a first num 0"
    by (simp_all add: net_start_def gather_progs_def gather_reader_main_def gather_writer_main_def end_item_def Let_def)
  have others: "progs ?st k = []" if "1 < k" for k using that by (simp add: net_start_def gather_progs_def)
  have "first div ?tpi \<le> (first + 0) div ?tpi" by simp
  from gather_complete [OF ok end_item items inv this index rows _ _ progs] others
  show ?thesis by (simp add: net_start_def)
qed

end
