(* ===== verification/RowsGatherTensor.thy ===== *)
theory RowsGatherTensor
  imports RowsGatherRun
begin

text \<open>
  The output of rows_gather as a tensor: what each write carries and where it lands, against
  the table, the clamped start indices and the row-major layout of the operands.
\<close>

section \<open>What a program asks of its arguments\<close>

text \<open>
  The arguments describe a table of \<open>B\<close> batches, and no page number or offset of the operands
  exceeds \<open>uint32_t\<close>.
\<close>

definition rows_shape_ok :: "rows_args \<Rightarrow> nat \<Rightarrow> bool" where
  "rows_shape_ok a B \<longleftrightarrow>
     1 \<le> ra_K a \<and> length (ra_sizes a) = ra_K a \<and> length (ra_strides a) = ra_K a \<and>
     windows_ok (ra_sizes a) (ra_windows a) \<and> (\<forall>s \<in> set (ra_sizes a). s < 2 ^ 31) \<and>
     take (ra_KR a) (ra_strides a) = strides_of (take (ra_KR a) (ra_sizes a)) \<and>
     prod_list (take (ra_KR a) (ra_sizes a)) = ra_N a \<and> ra_W a = prod_list (take (ra_KR a) (ra_windows a)) \<and>
     0 < ra_S a \<and> 0 < ra_M a \<and> 0 < ra_page_bytes a \<and> 0 < ra_chunk_bytes a \<and>
     ra_page_bytes a + ra_chunk_bytes a \<le> 2 ^ 32 \<and> B * ra_N a * ra_S a \<le> 2 ^ 32 \<and> ra_N a \<le> 2 ^ 32 \<and>
     B * ra_M a * ra_W a * ra_S a \<le> 2 ^ 32 \<and>
     ra_W a * ra_S a * div_up (ra_page_bytes a) (ra_chunk_bytes a) < 2 ^ 32 \<and>
     (ra_column a \<longrightarrow> ra_S a = 1 \<and> 0 < ra_elem_bytes a \<and> ra_sizes a ! (ra_K a - 1) * ra_elem_bytes a = ra_page_bytes a \<and>
        ra_M a * ra_W a * (ra_windows a ! (ra_K a - 1) * ra_elem_bytes a) \<le> 2 ^ 32)"

lemma rows_shape_facts:
  assumes "rows_shape_ok a B"
  shows "0 < ra_W a" "ra_KR a \<le> ra_K a" "length (ra_windows a) = ra_K a"
    and "\<not> ra_column a \<Longrightarrow> ra_C a = div_up (ra_page_bytes a) (ra_chunk_bytes a)" "0 < ra_C a"
    and "\<not> ra_column a \<Longrightarrow> transfers_per_item a = ra_W a * (ra_S a * ra_C a)"
    and "ra_column a \<Longrightarrow> transfers_per_item a = ra_W a" "0 < transfers_per_item a"
    and "ra_column a \<Longrightarrow> column_bytes a = ra_windows a ! (ra_K a - 1) * ra_elem_bytes a"
    and "ra_column a \<Longrightarrow> 0 < column_bytes a" "ra_column a \<Longrightarrow> ra_K a = Suc (ra_KR a)"
proof -
  note ok = assms [unfolded rows_shape_ok_def]
  show KR: "ra_KR a \<le> ra_K a" by (simp add: ra_KR_def)
  show len: "length (ra_windows a) = ra_K a" using ok by (simp add: windows_ok_def)
  have "0 \<notin> set (take (ra_KR a) (ra_windows a))"
  proof
    assume "0 \<in> set (take (ra_KR a) (ra_windows a))"
    then obtain k where "k < ra_K a" "ra_windows a ! k = 0"
      using len in_set_takeD by (metis in_set_conv_nth)
    then show False using ok by (auto simp: windows_ok_def)
  qed
  then show W: "0 < ra_W a" using ok by (simp add: prod_list_zero_iff [symmetric])
  show C: "\<not> ra_column a \<Longrightarrow> ra_C a = div_up (ra_page_bytes a) (ra_chunk_bytes a)"
  proof -
    have "0 < ra_page_bytes a" "ra_page_bytes a + ra_chunk_bytes a \<le> 4294967296" using ok by simp_all
    then have "ra_page_bytes a + ra_chunk_bytes a - 1 < 4294967296" by linarith
    then show "ra_C a = div_up (ra_page_bytes a) (ra_chunk_bytes a)" if "\<not> ra_column a"
      using that by (simp add: ra_C_def div_up_def w32_id)
  qed
  then show C0: "0 < ra_C a" using ok by (cases "ra_column a") (auto simp: ra_C_def)
  show T: "\<not> ra_column a \<Longrightarrow> transfers_per_item a = ra_W a * (ra_S a * ra_C a)"
  proof -
    assume row: "\<not> ra_column a"
    have "ra_W a * ra_S a * div_up (ra_page_bytes a) (ra_chunk_bytes a) < 2 ^ 32" using ok by blast
    then have "ra_W a * ra_S a * ra_C a < 4294967296" using C [OF row] by simp
    then show ?thesis using row by (simp add: transfers_per_item_def w32_id mult.assoc)
  qed
  show T': "ra_column a \<Longrightarrow> transfers_per_item a = ra_W a" by (simp add: transfers_per_item_def)
  show "0 < transfers_per_item a"
    using T T' W C0 ok by (cases "ra_column a") auto
  show CB: "ra_column a \<Longrightarrow> column_bytes a = ra_windows a ! (ra_K a - 1) * ra_elem_bytes a"
  proof -
    assume c: "ra_column a"
    have "ra_windows a ! (ra_K a - 1) \<le> ra_sizes a ! (ra_K a - 1)" using ok by (simp add: windows_ok_def)
    then have "ra_windows a ! (ra_K a - 1) * ra_elem_bytes a \<le> ra_sizes a ! (ra_K a - 1) * ra_elem_bytes a"
      by (rule mult_le_mono1)
    moreover have "ra_sizes a ! (ra_K a - 1) * ra_elem_bytes a = ra_page_bytes a" using ok c by blast
    moreover have "ra_page_bytes a < 2 ^ 32" using ok by linarith
    ultimately have "ra_windows a ! (ra_K a - 1) * ra_elem_bytes a < 2 ^ 32" by linarith
    then show ?thesis using c by (simp add: column_bytes_def w32_id)
  qed
  show "ra_column a \<Longrightarrow> 0 < column_bytes a"
    using ok CB by (simp add: windows_ok_def Suc_le_eq)
  show "ra_column a \<Longrightarrow> ra_K a = Suc (ra_KR a)" using ok by (simp add: ra_KR_def)
qed

lemma rows_shape_bounds:
  assumes "rows_shape_ok a B"
  shows "ra_page_bytes a < 4294967296" "B * ra_N a * ra_S a \<le> 4294967296" "B * ra_M a * ra_W a * ra_S a \<le> 4294967296"
    and "ra_column a \<Longrightarrow> ra_M a * ra_W a * column_bytes a \<le> 4294967296" "0 < ra_S a" "0 < ra_M a"
    and "\<not> ra_column a \<Longrightarrow> c < ra_C a \<longleftrightarrow> c * ra_chunk_bytes a < ra_page_bytes a" "0 < ra_chunk_bytes a"
proof -
  note ok = assms [unfolded rows_shape_ok_def] and f = rows_shape_facts [OF assms]
  have "0 < ra_chunk_bytes a" "ra_page_bytes a + ra_chunk_bytes a \<le> 4294967296" using ok by simp_all
  then show "ra_page_bytes a < 4294967296" by linarith
  have "B * ra_N a * ra_S a \<le> 2 ^ 32" "B * ra_M a * ra_W a * ra_S a \<le> 2 ^ 32" using ok by blast+
  then show "B * ra_N a * ra_S a \<le> 4294967296" "B * ra_M a * ra_W a * ra_S a \<le> 4294967296" by simp_all
  show "0 < ra_S a" "0 < ra_M a" "0 < ra_chunk_bytes a" using ok by blast+
  have "ra_column a \<longrightarrow> ra_M a * ra_W a * (ra_windows a ! (ra_K a - 1) * ra_elem_bytes a) \<le> 2 ^ 32" using ok by blast
  then show "ra_column a \<Longrightarrow> ra_M a * ra_W a * column_bytes a \<le> 4294967296"
    using f(9) by simp
  show "\<not> ra_column a \<Longrightarrow> c < ra_C a \<longleftrightarrow> c * ra_chunk_bytes a < ra_page_bytes a"
    using \<open>0 < ra_chunk_bytes a\<close> f(4) by (simp add: less_div_up_iff)
qed

section \<open>Clamped starts\<close>

definition index_values :: "rows_args \<Rightarrow> rows_dram \<Rightarrow> nat \<Rightarrow> int list" where
  "index_values a d item = map (\<lambda>k. index_value (ra_unsigned a) (position_index a d item k)) [0..<ra_K a]"

definition start_of :: "rows_args \<Rightarrow> rows_dram \<Rightarrow> nat \<Rightarrow> int list" where
  "start_of a d item =
     map (\<lambda>k. clamp_index (index_values a d item ! k) (ra_sizes a ! k) (ra_windows a ! k)) [0..<ra_K a]"

lemma position_coords_start:
  assumes "rows_shape_ok a B"
  shows "co_c (position_coords a d item) = start_of a d item"
    and "co_out_of_bounds (position_coords a d item) \<longleftrightarrow> start_of a d item \<noteq> index_values a d item"
proof -
  note ok = assms [unfolded rows_shape_ok_def]
  have decode: "decode_component (ra_unsigned a) raw (ra_sizes a ! k) (ra_windows a ! k) =
      (clamp_index (index_value (ra_unsigned a) raw) (ra_sizes a ! k) (ra_windows a ! k),
       clamp_index (index_value (ra_unsigned a) raw) (ra_sizes a ! k) (ra_windows a ! k) \<noteq> index_value (ra_unsigned a) raw)"
    if "k < ra_K a" for k raw
    using that ok by (intro decode_component_clamp) (auto simp: windows_ok_def)
  show "co_c (position_coords a d item) = start_of a d item"
    by (auto simp: position_coords_def start_of_def index_values_def Let_def decode)
  show "co_out_of_bounds (position_coords a d item) \<longleftrightarrow> start_of a d item \<noteq> index_values a d item"
    by (auto simp: position_coords_def start_of_def index_values_def Let_def decode list_ex_iff list_eq_iff_nth_eq)
qed

lemma start_of_ok:
  assumes "rows_shape_ok a B"
  shows "start_ok (ra_sizes a) (ra_windows a) (start_of a d item)" "length (start_of a d item) = ra_K a"
  using assms clamp_index_bounds by (auto simp: rows_shape_ok_def start_ok_def start_of_def windows_ok_def)

text \<open>The row of a window offset, as the kernels compute it.\<close>

definition gather_row :: "rows_args \<Rightarrow> rows_dram \<Rightarrow> nat \<Rightarrow> nat \<Rightarrow> nat" where
  "gather_row a d item j = position_row (ra_KR a) (ra_sizes a) (ra_windows a) (start_of a d item) j"

lemma window_row_gather:
  assumes "rows_shape_ok a B"
  shows "window_row (ra_KR a) (position_coords a d item) j (ra_windows a) (ra_strides a) = gather_row a d item j"
    and "gather_row a d item j < ra_N a"
proof -
  note ok = assms [unfolded rows_shape_ok_def]
  have "ra_KR a \<le> length (start_of a d item)" using rows_shape_facts(2) [OF assms] start_of_ok(2) [OF assms] by simp
  then show "window_row (ra_KR a) (position_coords a d item) j (ra_windows a) (ra_strides a) = gather_row a d item j"
    unfolding gather_row_def position_coords_start(1) [OF assms, symmetric]
    using ok start_of_ok(1) [OF assms] position_coords_start(1) [OF assms]
    by (intro window_row_position) simp_all
  show "gather_row a d item j < ra_N a"
    unfolding gather_row_def using ok start_of_ok(1) [OF assms] position_row_less \<open>ra_KR a \<le> length (start_of a d item)\<close>
    by metis
qed

section \<open>The writes\<close>

definition zero_filled :: "rows_args \<Rightarrow> rows_dram \<Rightarrow> nat \<Rightarrow> bool" where
  "zero_filled a d item \<longleftrightarrow> ra_fill_oob a \<and> start_of a d item \<noteq> index_values a d item"

text \<open>The output: element \<open>(b, m * W + j)\<close> is the row, or the column window of the row, that position names.\<close>

definition gathered_row :: "rows_args \<Rightarrow> rows_dram \<Rightarrow> pages" where
  "gathered_row a d P i =
     (let s = P mod ra_S a; j = P div ra_S a mod ra_W a; item = P div ra_S a div ra_W a
      in if zero_filled a d item then 0
         else dr_table d ((item div ra_M a * ra_N a + gather_row a d item j) * ra_S a + s) i)"

definition gathered_column :: "rows_args \<Rightarrow> rows_dram \<Rightarrow> pages" where
  "gathered_column a d P i =
     (let window = i div column_bytes a; j = window mod ra_W a; item = P * ra_M a + window div ra_W a
      in if zero_filled a d item then 0
         else dr_table d (P * ra_N a + gather_row a d item j)
                (nat (start_of a d item ! ra_KR a) * ra_elem_bytes a + i mod column_bytes a))"

definition gathered :: "rows_args \<Rightarrow> rows_dram \<Rightarrow> pages" where
  "gathered a d = (if ra_column a then gathered_column a d else gathered_row a d)"

lemma place_at: "i < length data \<Longrightarrow> place off data p (off + i) = data ! i"
  by (simp add: place_def)

text \<open>The bytes a write carries, whatever the entry held before.\<close>

definition gather_data :: "rows_args \<Rightarrow> rows_dram \<Rightarrow> nat \<Rightarrow> transfer \<Rightarrow> u8 list" where
  "gather_data a d item tr = map (\<lambda>i. if zero_filled a d item then 0 else dr_table d (tr_page tr) (tr_offset tr + i)) [0..<tr_bytes tr]"

lemma gather_entry_data:
  assumes "rows_shape_ok a B" "ra_column a \<longrightarrow> tr_bytes tr = column_bytes a" "\<not> ra_column a \<longrightarrow> tr_from tr = 0 \<and> tr_to tr = 0"
  shows "map (\<lambda>i. gather_entry a d (position_coords a d item) tr old (tr_to tr + i)) [0..<tr_bytes tr] = gather_data a d item tr"
proof -
  let ?c = "position_coords a d item"
  have zero: "(ra_fill_oob a \<and> co_out_of_bounds ?c) = zero_filled a d item"
    by (simp add: zero_filled_def position_coords_start(2) [OF assms(1)])
  have "gather_entry a d ?c tr old (tr_to tr + i) =
      (if zero_filled a d item then 0 else dr_table d (tr_page tr) (tr_offset tr + i))" if i: "i < tr_bytes tr" for i
  proof (cases "ra_column a")
    case True
    with i assms(2) show ?thesis
      using place_at [of i _ "tr_from tr" old] place_at [of i _ "tr_to tr" old]
      by (simp add: gather_entry_def zero Let_def realign_moves)
  next
    case False
    with i assms(3) show ?thesis
      using place_at [of i _ 0 old] by (simp add: gather_entry_def zero Let_def)
  qed
  then show ?thesis by (simp add: gather_data_def)
qed

lemma gather_read_row:
  assumes "rows_shape_ok a B" "\<not> ra_column a" "item < B * ra_M a" "j < ra_W a" "s < ra_S a" "c < ra_C a"
  shows "gather_read a (position_coords a d item) item ((j * ra_S a + s) * ra_C a + c) =
    \<lparr>tr_page = (item div ra_M a * ra_N a + gather_row a d item j) * ra_S a + s, tr_offset = c * ra_chunk_bytes a,
     tr_bytes = min (ra_page_bytes a - c * ra_chunk_bytes a) (ra_chunk_bytes a), tr_from = 0, tr_to = 0\<rparr>"
proof -
  note bounds = rows_shape_bounds [OF assms(1)]
  let ?t = "(j * ra_S a + s) * ra_C a + c"
  have t: "?t div ra_C a = j * ra_S a + s" "?t mod ra_C a = c" "(j * ra_S a + s) mod ra_S a = s" "(j * ra_S a + s) div ra_S a = j"
    using assms(5,6) index_div index_mod by blast+
  then have "?t div (ra_S a * ra_C a) = j" by (metis div_mult2_eq mult.commute)
  moreover have "w32 (c * ra_chunk_bytes a) = c * ra_chunk_bytes a"
    using assms(2,6) bounds(1) bounds(7) [of c] by (intro w32_id) simp
  moreover have "w32 ((item div ra_M a * ra_N a + gather_row a d item j) * ra_S a + s) =
      (item div ra_M a * ra_N a + gather_row a d item j) * ra_S a + s"
  proof -
    have "item div ra_M a < B" using assms(3) by (simp add: less_mult_imp_div_less)
    from index_less_product [OF index_less_product [OF this window_row_gather(2) [OF assms(1)]] assms(5)]
    show ?thesis by (intro w32_id) (rule less_le_trans [OF _ bounds(2)])
  qed
  ultimately show ?thesis
    using assms(2) t by (simp add: gather_read_def window_row_gather(1) [OF assms(1)] Let_def min_def)
qed

lemma gather_read_column:
  assumes "rows_shape_ok a B" "ra_column a" "item < B * ra_M a" "t < ra_W a"
  shows "gather_read a (position_coords a d item) item t =
    \<lparr>tr_page = item div ra_M a * ra_N a + gather_row a d item t, tr_offset = nat (start_of a d item ! ra_KR a) * ra_elem_bytes a,
     tr_bytes = column_bytes a, tr_from = nat (start_of a d item ! ra_KR a) * ra_elem_bytes a mod 64,
     tr_to = (item mod ra_M a * ra_W a + t) * column_bytes a mod 64\<rparr>"
    and "(item mod ra_M a * ra_W a + t) * column_bytes a < 4294967296"
proof -
  note ok = assms(1) [unfolded rows_shape_ok_def] and bounds = rows_shape_bounds [OF assms(1)] and f = rows_shape_facts [OF assms(1)]
  have K: "ra_K a - 1 = ra_KR a" "ra_KR a < ra_K a" using f(11) [OF assms(2)] by simp_all
  have S: "ra_S a = 1" using ok assms(2) by blast
  have "item div ra_M a < B" using assms(3) by (simp add: less_mult_imp_div_less)
  from index_less_product [OF this window_row_gather(2) [OF assms(1), of d item t]]
  have page: "w32 (item div ra_M a * ra_N a + gather_row a d item t) = item div ra_M a * ra_N a + gather_row a d item t"
    using bounds(2) by (intro w32_id) (simp add: S)
  have start: "0 \<le> start_of a d item ! ra_KR a" "start_of a d item ! ra_KR a \<le> int (ra_sizes a ! ra_KR a) - int (ra_windows a ! ra_KR a)"
    using start_of_ok [OF assms(1), of d item] K(2) by (auto simp: start_ok_def)
  have "ra_sizes a ! ra_KR a \<in> set (ra_sizes a)" using K(2) ok by simp
  then have small: "ra_sizes a ! ra_KR a < 2 ^ 31" using ok by blast
  have coord: "coord32 (start_of a d item ! ra_KR a) = nat (start_of a d item ! ra_KR a)"
    by (rule coord32_nat) (use start small in simp_all)
  have "nat (start_of a d item ! ra_KR a) \<le> ra_sizes a ! ra_KR a" using start by simp
  then have "nat (start_of a d item ! ra_KR a) * ra_elem_bytes a \<le> ra_sizes a ! ra_KR a * ra_elem_bytes a" by (rule mult_le_mono1)
  moreover have "ra_sizes a ! ra_KR a * ra_elem_bytes a = ra_page_bytes a" using ok assms(2) K(1) by metis
  ultimately have offset: "w32 (nat (start_of a d item ! ra_KR a) * ra_elem_bytes a) = nat (start_of a d item ! ra_KR a) * ra_elem_bytes a"
    using bounds(1) by (intro w32_id) linarith
  have "item mod ra_M a < ra_M a" using bounds(6) by simp
  from index_less_product [OF this assms(4)] f(10) [OF assms(2)]
  have "(item mod ra_M a * ra_W a + t) * column_bytes a < ra_M a * ra_W a * column_bytes a" by simp
  then show to: "(item mod ra_M a * ra_W a + t) * column_bytes a < 4294967296" using bounds(4) [OF assms(2)] by linarith
  show "gather_read a (position_coords a d item) item t =
    \<lparr>tr_page = item div ra_M a * ra_N a + gather_row a d item t, tr_offset = nat (start_of a d item ! ra_KR a) * ra_elem_bytes a,
     tr_bytes = column_bytes a, tr_from = nat (start_of a d item ! ra_KR a) * ra_elem_bytes a mod 64,
     tr_to = (item mod ra_M a * ra_W a + t) * column_bytes a mod 64\<rparr>"
    using assms(2) K(1) window_row_gather(1) [OF assms(1), of d item t]
    by (simp add: gather_read_def Let_def position_coords_start(1) [OF assms(1)] page coord offset w32_id [OF to] kGranule_def)
qed

text \<open>The write of a transfer: row mode by output page and chunk, column mode by batch and window.\<close>

lemma gather_put_row:
  assumes "rows_shape_ok a B" "\<not> ra_column a" "item < B * ra_M a" "j < ra_W a" "s < ra_S a" "c < ra_C a"
    and "q = ((item * ra_W a + j) * ra_S a + s) * ra_C a + c"
  shows "gather_put a q (Bytes (expected_entry a d old q)) [] =
    [((item * ra_W a + j) * ra_S a + s, c * ra_chunk_bytes a,
      map (\<lambda>i. gathered_row a d ((item * ra_W a + j) * ra_S a + s) (c * ra_chunk_bytes a + i))
        [0..<min (ra_page_bytes a - c * ra_chunk_bytes a) (ra_chunk_bytes a)])]"
proof -
  note f = rows_shape_facts [OF assms(1)] and bounds = rows_shape_bounds [OF assms(1)]
  let ?t = "(j * ra_S a + s) * ra_C a + c" and ?P = "(item * ra_W a + j) * ra_S a + s"
  have tpi: "transfers_per_item a = ra_W a * (ra_S a * ra_C a)" by (rule f(6) [OF assms(2)])
  have q: "q = item * transfers_per_item a + ?t" by (simp add: assms(7) tpi algebra_simps)
  have t: "?t < transfers_per_item a"
    using index_less_product [OF index_less_product [OF assms(4,5)] assms(6)] by (simp add: tpi mult.assoc)
  have item: "q div transfers_per_item a = item" "q mod transfers_per_item a = ?t"
    unfolding q using index_div [OF t] index_mod [OF t] by blast+
  have parts: "?t div ra_C a = j * ra_S a + s" "?t mod ra_C a = c" "(j * ra_S a + s) mod ra_S a = s" "(j * ra_S a + s) div ra_S a = j"
    using assms(5,6) index_div index_mod by blast+
  then have j: "?t div (ra_S a * ra_C a) = j" by (metis div_mult2_eq mult.commute)
  have w: "w32 (c * ra_chunk_bytes a) = c * ra_chunk_bytes a"
    using assms(2,6) bounds(1) bounds(7) [of c] by (intro w32_id) simp
  have "?P < B * ra_M a * ra_W a * ra_S a"
    using index_less_product [OF index_less_product [OF assms(3,4)] assms(5)] .
  then have P: "w32 ?P = ?P" using bounds(3) by (intro w32_id) linarith
  have P_parts: "?P mod ra_S a = s" "?P div ra_S a mod ra_W a = j" "?P div ra_S a div ra_W a = item"
    using assms(4,5) index_div index_mod by simp_all
  note read = gather_read_row [OF assms(1-6), of d]
  have "map (\<lambda>i. expected_entry a d old q (0 + i)) [0..<min (ra_page_bytes a - c * ra_chunk_bytes a) (ra_chunk_bytes a)] =
      gather_data a d item (gather_read a (position_coords a d item) item ?t)"
    using gather_entry_data [OF assms(1), of "gather_read a (position_coords a d item) item ?t" d item "old q"] assms(2)
    by (simp add: expected_entry_def item read Let_def)
  also have "\<dots> = map (\<lambda>i. gathered_row a d ?P (c * ra_chunk_bytes a + i)) [0..<min (ra_page_bytes a - c * ra_chunk_bytes a) (ra_chunk_bytes a)]"
    by (simp add: gather_data_def gathered_row_def read P_parts Let_def assms(5))
  finally show ?thesis
    using assms(2) parts j w P by (simp add: gather_put_def item Let_def min_def)
qed

lemma gather_put_column:
  assumes "rows_shape_ok a B" "ra_column a" "item < B * ra_M a" "t < ra_W a" "q = item * ra_W a + t"
  shows "gather_put a q (Bytes (expected_entry a d old q)) [] =
    [(item div ra_M a, (item mod ra_M a * ra_W a + t) * column_bytes a,
      map (\<lambda>i. gathered_column a d (item div ra_M a) ((item mod ra_M a * ra_W a + t) * column_bytes a + i)) [0..<column_bytes a])]"
proof -
  note f = rows_shape_facts [OF assms(1)] and read = gather_read_column(1) [OF assms(1-4), of d] gather_read_column(2) [OF assms(1-4)]
  let ?o = "(item mod ra_M a * ra_W a + t) * column_bytes a"
  have tpi: "transfers_per_item a = ra_W a" by (rule f(7) [OF assms(2)])
  have item: "q div transfers_per_item a = item" "q mod transfers_per_item a = t"
    unfolding tpi assms(5) using assms(4) index_div index_mod by blast+
  have "map (\<lambda>i. expected_entry a d old q (?o mod 64 + i)) [0..<column_bytes a] =
      gather_data a d item (gather_read a (position_coords a d item) item t)"
    using gather_entry_data [OF assms(1), of "gather_read a (position_coords a d item) item t" d item "old q"] assms(2)
    by (simp add: expected_entry_def item read Let_def)
  also have "\<dots> = map (\<lambda>i. gathered_column a d (item div ra_M a) (?o + i)) [0..<column_bytes a]"
  proof (rule trans [OF _ map_cong [OF refl]])
    fix i assume "i \<in> set [0..<column_bytes a]"
    then have i: "i < column_bytes a" by simp
    have "(?o + i) div column_bytes a = item mod ra_M a * ra_W a + t" "(?o + i) mod column_bytes a = i"
      using i index_div index_mod by blast+
    moreover have "(item mod ra_M a * ra_W a + t) mod ra_W a = t" "(item mod ra_M a * ra_W a + t) div ra_W a = item mod ra_M a"
      using assms(4) index_div index_mod by blast+
    ultimately show "(if zero_filled a d item then 0
        else dr_table d (item div ra_M a * ra_N a + gather_row a d item t) (nat (start_of a d item ! ra_KR a) * ra_elem_bytes a + i)) =
      gathered_column a d (item div ra_M a) (?o + i)"
      by (simp add: gathered_column_def Let_def)
  qed (simp add: gather_data_def read)
  finally show ?thesis
    using assms(2) by (simp add: gather_put_def item Let_def w32_id [OF read(2)])
qed

section \<open>The output\<close>

definition gather_transfers :: "rows_args \<Rightarrow> nat \<Rightarrow> nat" where
  "gather_transfers a B = B * ra_M a * transfers_per_item a"

text \<open>The places of the output: pages of whole rows, or one page of column windows per batch.\<close>

definition gather_place :: "rows_args \<Rightarrow> nat \<Rightarrow> nat \<Rightarrow> nat \<Rightarrow> bool" where
  "gather_place a B P i \<longleftrightarrow>
     (if ra_column a then P < B \<and> i < ra_M a * ra_W a * column_bytes a
      else P < B * ra_M a * ra_W a * ra_S a \<and> i < ra_page_bytes a)"

lemma gather_put_agrees:
  assumes "rows_shape_ok a B" "q < gather_transfers a B" "w \<in> set (gather_put a q (Bytes (expected_entry a d old q)) [])"
  shows "put_agrees (gathered a d) w"
proof (cases "ra_column a")
  case True
  note tpi = rows_shape_facts(7) [OF assms(1) True]
  have W: "0 < ra_W a" by (rule rows_shape_facts(1) [OF assms(1)])
  have "q div ra_W a < B * ra_M a" using assms(2) by (simp add: gather_transfers_def tpi less_mult_imp_div_less)
  from gather_put_column [OF assms(1) True this, of "q mod ra_W a" q d old] W assms(3)
  show ?thesis using True by (auto simp: put_agrees_def gathered_def)
next
  case False
  note f = rows_shape_facts [OF assms(1)]
  let ?u = "q div ra_C a" and ?v = "q div ra_C a div ra_S a"
  have S: "0 < ra_S a" by (rule rows_shape_bounds(5) [OF assms(1)])
  have q: "q = ((?v div ra_W a * ra_W a + ?v mod ra_W a) * ra_S a + ?u mod ra_S a) * ra_C a + q mod ra_C a" by simp
  have "q < B * ra_M a * ra_W a * ra_S a * ra_C a" using assms(2) by (simp add: gather_transfers_def f(6) [OF False] mult.assoc)
  then have "?v div ra_W a < B * ra_M a" by (simp add: less_mult_imp_div_less mult.assoc)
  from gather_put_row [OF assms(1) False this _ _ _ q, of d old] f(1,5) S assms(3)
  show ?thesis using False by (auto simp: put_agrees_def gathered_def)
qed

lemma gather_put_covers:
  assumes "rows_shape_ok a B" "gather_place a B P i"
  shows "\<exists>q < gather_transfers a B. \<forall>old. \<exists>w \<in> set (gather_put a q (Bytes (expected_entry a d old q)) []). put_covers P i w"
proof (cases "ra_column a")
  case True
  note f = rows_shape_facts [OF assms(1)] and M = rows_shape_bounds(6) [OF assms(1)]
  let ?w = "i div column_bytes a"
  let ?item = "P * ra_M a + ?w div ra_W a" and ?q = "(P * ra_M a + ?w div ra_W a) * ra_W a + ?w mod ra_W a"
  have "?w < ra_M a * ra_W a" using assms(2) True by (simp add: gather_place_def less_mult_imp_div_less)
  then have m: "?w div ra_W a < ra_M a" by (simp add: less_mult_imp_div_less)
  have P: "P < B" using assms(2) True by (simp add: gather_place_def)
  from index_less_product [OF P m] have item: "?item < B * ra_M a" .
  have j: "?w mod ra_W a < ra_W a" using f(1) by simp
  have "?item div ra_M a = P" "?item mod ra_M a = ?w div ra_W a" using index_div [OF m] index_mod [OF m] by blast+
  then have "put_covers P i (?item div ra_M a, (?item mod ra_M a * ra_W a + ?w mod ra_W a) * column_bytes a,
      map (\<lambda>i. gathered_column a d (?item div ra_M a) ((?item mod ra_M a * ra_W a + ?w mod ra_W a) * column_bytes a + i)) [0..<column_bytes a])"
    using f(10) [OF True] by (simp add: put_covers_def) (metis add_less_cancel_left div_mult_mod_eq mod_less_divisor)
  moreover have "?q < gather_transfers a B"
    using index_less_product [OF item j] by (simp add: gather_transfers_def f(7) [OF True])
  ultimately show ?thesis using gather_put_column [OF assms(1) True item j refl, of d]
    by (metis list.set_intros(1))
next
  case False
  note f = rows_shape_facts [OF assms(1)] and b = rows_shape_bounds [OF assms(1)]
  let ?c = "i div ra_chunk_bytes a" and ?v = "P div ra_S a"
  let ?q = "((?v div ra_W a * ra_W a + ?v mod ra_W a) * ra_S a + P mod ra_S a) * ra_C a + ?c"
  have P: "P < B * ra_M a * ra_W a * ra_S a" and i: "i < ra_page_bytes a" using assms(2) False by (simp_all add: gather_place_def)
  have "?c * ra_chunk_bytes a \<le> i" by simp
  then have c: "?c < ra_C a" using b(7) [OF False, of ?c] i by linarith
  have item: "?v div ra_W a < B * ra_M a" using P by (simp add: less_mult_imp_div_less)
  have j: "?v mod ra_W a < ra_W a" "P mod ra_S a < ra_S a" using f(1) b(5) by simp_all
  have "put_covers P i ((?v div ra_W a * ra_W a + ?v mod ra_W a) * ra_S a + P mod ra_S a, ?c * ra_chunk_bytes a,
      map (\<lambda>i. gathered_row a d ((?v div ra_W a * ra_W a + ?v mod ra_W a) * ra_S a + P mod ra_S a) (?c * ra_chunk_bytes a + i))
        [0..<min (ra_page_bytes a - ?c * ra_chunk_bytes a) (ra_chunk_bytes a)])"
  proof -
    define x where "x = ?c * ra_chunk_bytes a"
    have "x \<le> i" "i < x + ra_chunk_bytes a"
      using dividend_less_div_times [OF b(8), of i] by (simp_all add: x_def)
    with i have "i < x + min (ra_page_bytes a - x) (ra_chunk_bytes a)" by (auto simp: min_def)
    with \<open>x \<le> i\<close> show ?thesis unfolding put_covers_def x_def [symmetric] by simp
  qed
  moreover have "?q < gather_transfers a B"
  proof -
    have "?q = P * ra_C a + ?c" by simp
    also have "\<dots> < B * ra_M a * ra_W a * ra_S a * ra_C a" by (rule index_less_product [OF P c])
    finally show ?thesis by (simp add: gather_transfers_def f(6) [OF False] mult.assoc)
  qed
  ultimately show ?thesis using gather_put_row [OF assms(1) False item j c refl, of d]
    by (metis list.set_intros(1))
qed

end
