(* ===== verification/RowsGatherProgram.thy ===== *)
theory RowsGatherProgram
  imports RowsGatherTensor
begin

text \<open>
  rows_gather from its call to its output: what a validated call gives the kernels, that
  nothing in the geometry wraps, and the tensor every run of the program leaves.
\<close>

section \<open>Calls\<close>

datatype 't rows_call = NoProgram "nat list" | Launch "'t program_artifacts"

definition table_volume :: "rows_inputs \<Rightarrow> nat" where
  "table_volume i = prod_list (ten_shape (in_table i))"

definition rows_gather ::
  "rows_params \<Rightarrow> rows_inputs \<Rightarrow> 't \<Rightarrow> 't \<Rightarrow> 't \<Rightarrow> (nat \<Rightarrow> work_split) \<Rightarrow> rows_error + 't rows_call" where
  "rows_gather p i table indices output split =
     (case validate_indexed_rows p i False of Inl e \<Rightarrow> Inl e | Inr _ \<Rightarrow>
        if ten_shape (in_indices i) ! 2 = 0 \<or> table_volume i = 0
        then Inr (NoProgram (gathered_shape p (in_table i) (in_indices i)))
        else Inr (Launch (gather_artifacts p i table indices output split)))"

section \<open>Validated operands\<close>

lemma check_components_ok:
  assumes "check_components k row_comps sizes windows rows = Inr rows'" "length windows = length sizes"
  shows "windows_ok sizes windows \<and> rows' mod 2 ^ 64 = rows * prod_list (take (row_comps - k) sizes) mod 2 ^ 64"
  using assms
proof (induction k row_comps sizes windows rows rule: check_components.induct)
  case (1 k row_comps s sizes w windows rows)
  from 1 have IH: "windows_ok sizes windows"
      "rows' mod 2 ^ 64 = (if k < row_comps then rows * s mod 2 ^ 64 else rows) * prod_list (take (row_comps - (k + 1)) sizes) mod 2 ^ 64"
    and w: "1 \<le> w \<and> w \<le> s" "length windows = length sizes"
    by (auto split: if_splits)
  have "windows_ok (s # sizes) (w # windows)"
    using IH(1) w by (auto simp: windows_ok_def nth_Cons split: nat.splits)
  moreover have "rows' mod 2 ^ 64 = rows * prod_list (take (row_comps - k) (s # sizes)) mod 2 ^ 64"
  proof (cases "k < row_comps")
    case True
    then have "row_comps - k = Suc (row_comps - (k + 1))" by simp
    with IH(2) True show ?thesis by (simp add: mod_mult_left_eq mult.assoc)
  qed (use IH(2) in simp)
  ultimately show ?case by blast
qed (auto simp: windows_ok_def)

lemma strides_loop_at:
  assumes "0 \<notin> set (take k sizes)" "k \<le> length sizes" "k \<le> length strides" "stride * prod_list (take k sizes) < 2 ^ 32"
  shows "length (strides_loop k sizes stride strides) = length strides \<and>
    (\<forall>j < length strides. strides_loop k sizes stride strides ! j =
      (if j < k then stride * prod_list (drop (Suc j) (take k sizes)) else strides ! j))"
  using assms
proof (induction k arbitrary: stride strides)
  case (Suc k)
  have take: "take (Suc k) sizes = take k sizes @ [sizes ! k]" using Suc.prems(2) by (simp add: take_Suc_conv_app_nth)
  have nz: "0 \<notin> set (take k sizes)" "0 < sizes ! k" using Suc.prems(1) by (auto simp: take)
  then have "0 < prod_list (take k sizes)" by (auto simp: prod_list_zero_iff intro: gr0I)
  then have "stride * sizes ! k * 1 \<le> stride * sizes ! k * prod_list (take k sizes)" by (intro mult_le_mono2) simp
  also have "\<dots> = stride * prod_list (take (Suc k) sizes)" by (simp add: take mult.commute mult.left_commute)
  finally have "stride * sizes ! k \<le> stride * prod_list (take (Suc k) sizes)" by (simp only: mult_1_right)
  moreover have "stride * prod_list (take (Suc k) sizes) < 4294967296" using Suc.prems(4) by simp
  ultimately have w: "w32 (stride * sizes ! k) = stride * sizes ! k" by (intro w32_id) linarith
  have "stride * sizes ! k * prod_list (take k sizes) < 2 ^ 32" using Suc.prems(4) by (simp add: take mult.commute mult.left_commute)
  with Suc.IH [OF nz(1), of "strides[k := stride]" "stride * sizes ! k"] Suc.prems(2,3)
  show ?case
    by (auto simp: w take nth_list_update less_Suc_eq mult.assoc mult.left_commute mult.commute)
qed simp

text \<open>
  What a call asks beyond its validation: no index component of \<open>2 ^ 31\<close> or more (the indices are
  \<open>int32_t\<close>), and operands whose pages and transfers \<open>uint32_t\<close> can number.
\<close>

definition middle_dims :: "tensor \<Rightarrow> nat list" where
  "middle_dims t = take (length (ten_shape t) - 1 - 2) (drop 2 (ten_shape t))"

definition rows_fit :: "rows_params \<Rightarrow> rows_inputs \<Rightarrow> bool" where
  "rows_fit p i \<longleftrightarrow>
     (let shape = ten_shape (in_table i); B = shape ! 0; N = shape ! 1; S = prod_list (middle_dims (in_table i));
          R = shape ! (length shape - 1); M = ten_shape (in_indices i) ! 2; elem = ten_elem_bytes (in_table i);
          W = prod_list (take (row_components p) (ip_windows p)) in
      (\<forall>s \<in> set (ip_sizes p). s < 2 ^ 31) \<and> prod_list (take (row_components p) (ip_sizes p)) < 2 ^ 32 \<and>
      length (ip_sizes p) \<le> 1024 \<and> 0 < elem \<and> R * elem + 2 ^ 17 \<le> 2 ^ 32 \<and>
      B * N * S < 2 ^ 32 \<and> B * M * (W * S * div_up (R * elem) (64 * 1024)) < 2 ^ 32 \<and>
      M * W * S * div_up (R * elem) (64 * 1024) < 2 ^ 32 \<and> M < 2 ^ 32 \<and>
      (ip_column p \<longrightarrow> M * W * (last (ip_windows p) * elem) < 2 ^ 32))"

definition gather_args :: "rows_params \<Rightarrow> rows_inputs \<Rightarrow> rows_args" where
  "gather_args p i =
     rows_kernel_args (ge_compile_time_args (geometry p i)) (ip_sizes p) (ip_windows p) (component_strides p)"

definition rows_launch :: "rows_params \<Rightarrow> rows_inputs \<Rightarrow> bool \<Rightarrow> bool" where
  "rows_launch p i scatter \<longleftrightarrow> validate_indexed_rows p i scatter = Inr () \<and> rows_fit p i \<and>
     ten_shape (in_indices i) ! 2 \<noteq> 0 \<and> table_volume i \<noteq> 0"

lemma validated_shapes:
  assumes "validate_indexed_rows p i scatter = Inr ()"
  shows "3 \<le> length (ten_shape (in_table i))" "1 \<le> length (ip_sizes p)" "length (ip_windows p) = length (ip_sizes p)"
    and "windows_ok (ip_sizes p) (ip_windows p)" "row_components p = length (ip_sizes p) - (if ip_column p then 1 else 0)"
    and "ten_shape (in_table i) ! 1 mod 2 ^ 64 = prod_list (take (row_components p) (ip_sizes p)) mod 2 ^ 64"
    and "ten_shape (in_indices i) ! 0 = ten_shape (in_table i) ! 0 \<or> ten_shape (in_indices i) ! 0 = 1"
    and "ip_column p \<Longrightarrow> rt_S (indexed_rows_table p (in_table i)) = 1 \<and> last (ip_sizes p) = rt_R (indexed_rows_table p (in_table i))"
proof -
  have table: "check_tensor (in_table i) (in_table i) ''the table'' 3 = Inr ()"
    using assms by (auto simp: validate_indexed_rows_def split: sum.splits)
  then show "3 \<le> length (ten_shape (in_table i))" by (simp add: check_tensor_def split: if_splits)
  obtain rows where
    K: "1 \<le> length (ip_sizes p)" "length (ip_windows p) = length (ip_sizes p)"
    and check: "check_components 0 (length (ip_sizes p) - (if ip_column p then 1 else 0)) (ip_sizes p) (ip_windows p) 1 = Inr rows"
    and rows: "rows = rt_N (indexed_rows_table p (in_table i))"
    and batches: "ten_shape (in_indices i) ! 0 = rt_B (indexed_rows_table p (in_table i)) \<or> ten_shape (in_indices i) ! 0 = 1"
    and col: "ip_column p \<Longrightarrow> rt_S (indexed_rows_table p (in_table i)) = 1 \<and> last (ip_sizes p) = rt_R (indexed_rows_table p (in_table i))"
    using assms unfolding validate_indexed_rows_def Let_def
    by (auto split: sum.splits if_splits)
  then show "1 \<le> length (ip_sizes p)" "length (ip_windows p) = length (ip_sizes p)"
    "ip_column p \<Longrightarrow> rt_S (indexed_rows_table p (in_table i)) = 1 \<and> last (ip_sizes p) = rt_R (indexed_rows_table p (in_table i))"
    by blast+
  show "ten_shape (in_indices i) ! 0 = ten_shape (in_table i) ! 0 \<or> ten_shape (in_indices i) ! 0 = 1"
    using batches by (simp add: indexed_rows_table_def Let_def)
  show rc: "row_components p = length (ip_sizes p) - (if ip_column p then 1 else 0)" by (simp add: row_components_def K(2))
  from check_components_ok [OF check K(2)]
  show "windows_ok (ip_sizes p) (ip_windows p)"
    and "ten_shape (in_table i) ! 1 mod 2 ^ 64 = prod_list (take (row_components p) (ip_sizes p)) mod 2 ^ 64"
    by (simp_all add: rc rows indexed_rows_table_def Let_def)
qed

lemma prod_windows_le:
  "windows_ok sizes windows \<Longrightarrow> prod_list (take k windows) \<le> prod_list (take k sizes) \<and> 0 \<notin> set (take k windows) \<and> 0 \<notin> set (take k sizes)"
proof (induction sizes arbitrary: windows k)
  case Nil
  then show ?case by (simp add: windows_ok_def)
next
  case (Cons s sizes)
  then obtain w ws where windows: "windows = w # ws" by (cases windows) (auto simp: windows_ok_def)
  have "windows_ok sizes ws" "1 \<le> w" "w \<le> s" using Cons.prems by (fastforce simp: windows_ok_def windows)+
  with Cons.IH [of ws] show ?case by (cases k) (auto simp: windows intro: mult_le_mono)
qed

lemma product_factor_less:
  "a * b < n \<Longrightarrow> 0 < b \<Longrightarrow> a < (n :: nat)"
  by (metis le_less_trans mult.right_neutral mult_le_mono2 Suc_leI One_nat_def)

lemma chunk_count: "0 < page \<Longrightarrow> div_up page (min page (64 * 1024)) = div_up page (64 * 1024)"
proof -
  have one: "div_up x y = 1" if "0 < x" "x \<le> y" for x y
  proof -
    have "x + y - 1 = y + (x - 1)" "x - 1 < y" "0 < y" using that by simp_all
    then show ?thesis unfolding div_up_def \<open>x + y - 1 = y + (x - 1)\<close> using div_add_self1 [of y "x - 1"] by simp
  qed
  show "0 < page \<Longrightarrow> div_up page (min page (64 * 1024)) = div_up page (64 * 1024)"
    using one [of page page] one [of page "64 * 1024"] by (cases "page \<le> 64 * 1024") (simp_all add: min_def)
qed

text \<open>The sizes of a launch, exactly.\<close>

lemma launch_sizes:
  assumes "rows_launch p i scatter"
  defines "t \<equiv> in_table i" and "M \<equiv> ten_shape (in_indices i) ! 2" and "elem \<equiv> ten_elem_bytes (in_table i)"
  defines "R \<equiv> ten_shape t ! (length (ten_shape t) - 1)" and "S \<equiv> prod_list (middle_dims t)"
    and "W \<equiv> prod_list (take (row_components p) (ip_windows p))"
  shows "0 < ten_shape t ! 0" "0 < ten_shape t ! 1" "0 < R" "0 < S" "0 < W" "0 < M" "0 < elem"
    and "indexed_rows_window p = W" "rt_S (indexed_rows_table p t) = S" "w32 (R * elem) = R * elem" "0 < R * elem"
    and "ten_shape t ! 1 = prod_list (take (row_components p) (ip_sizes p))" "w32 (ten_shape t ! 1 * S) = ten_shape t ! 1 * S"
proof -
  note valid = validated_shapes [of p i scatter]
  have v: "validate_indexed_rows p i scatter = Inr ()" and fit: "rows_fit p i" and M: "M \<noteq> 0" and vol: "table_volume i \<noteq> 0"
    using assms(1) by (simp_all add: rows_launch_def M_def)
  have dims: "0 < d" if "d \<in> set (ten_shape t)" for d
    using that vol by (auto simp: table_volume_def t_def prod_list_zero_iff intro: gr0I)
  have len: "3 \<le> length (ten_shape t)" unfolding t_def by (rule valid(1) [OF v])
  have idx: "0 < length (ten_shape t)" "1 < length (ten_shape t)" "length (ten_shape t) - 1 < length (ten_shape t)" using len by linarith+
  show B: "0 < ten_shape t ! 0" and N: "0 < ten_shape t ! 1" and R: "0 < R"
    unfolding R_def using idx dims nth_mem by metis+
  have "set (middle_dims t) \<subseteq> set (ten_shape t)" by (auto simp: middle_dims_def dest: in_set_takeD in_set_dropD)
  then have mid: "0 \<notin> set (middle_dims t)" using dims by blast
  then show S: "0 < S" unfolding S_def by (auto simp: prod_list_zero_iff intro: gr0I)
  have elem: "0 < elem" using fit by (simp add: rows_fit_def Let_def elem_def)
  then show "0 < elem" .
  show "0 < M" using M by simp
  note windows = prod_windows_le [OF valid(4) [OF v], of "row_components p"]
  have sizes: "prod_list (take (row_components p) (ip_sizes p)) < 2 ^ 32" using fit by (simp add: rows_fit_def Let_def)
  show W: "0 < W" unfolding W_def using windows by (auto simp: prod_list_zero_iff intro: gr0I)
  show "indexed_rows_window p = W"
    unfolding indexed_rows_window_def W_def using windows sizes by (intro product32_exact) auto
  have BNS: "ten_shape t ! 0 * ten_shape t ! 1 * S < 2 ^ 32" using fit unfolding rows_fit_def Let_def t_def S_def by blast
  then have "ten_shape t ! 1 * S * ten_shape t ! 0 < 2 ^ 32" by (simp add: mult.commute mult.left_commute)
  then have NS: "ten_shape t ! 1 * S < 2 ^ 32" using B by (rule product_factor_less)
  then have "S * ten_shape t ! 1 < 2 ^ 32" by (simp add: mult.commute)
  then have "S < 2 ^ 32" using N by (rule product_factor_less)
  then show "rt_S (indexed_rows_table p t) = S"
    using product32_exact [OF mid] by (simp add: indexed_rows_table_def Let_def S_def middle_dims_def)
  show "w32 (ten_shape t ! 1 * S) = ten_shape t ! 1 * S" using NS by (intro w32_id) simp
  have "R * elem + 2 ^ 17 \<le> 2 ^ 32" using fit unfolding rows_fit_def Let_def R_def elem_def t_def by blast
  then show "w32 (R * elem) = R * elem" by (intro w32_id) simp
  show "0 < R * elem" using R elem by simp
  have "ten_shape t ! 1 * S < 2 ^ 32" by (rule NS)
  then have "ten_shape t ! 1 < 2 ^ 32" using S by (rule product_factor_less)
  then show "ten_shape t ! 1 = prod_list (take (row_components p) (ip_sizes p))"
    using valid(6) [OF v] sizes by (simp add: t_def)
qed

lemma geometry_args:
  "gather_args p i = (let g = geometry p i in
     \<lparr>ra_K = ge_K g, ra_column = ip_column p, ra_unsigned = (ten_dtype (in_indices i) = UINT32),
      ra_fill_oob = ip_fill_out_of_bounds p, ra_shared = (ge_Bi g = 1), ra_W = indexed_rows_window p, ra_M = ge_M g,
      ra_N = rt_N (ge_table g), ra_S = rt_S (ge_table g), ra_page_bytes = ge_page_bytes g, ra_chunk_bytes = ge_chunk_bytes g,
      ra_elem_bytes = ge_elem_bytes g, ra_index_stride = ge_index_stride_bytes g div 4, ra_group = ge_group g,
      ra_index_batch = ge_index_batch g, ra_sizes = ip_sizes p, ra_windows = ip_windows p,
      ra_strides = component_strides p\<rparr>)"
  unfolding gather_args_def rows_kernel_args_def Let_def geometry_def get_arg_def
  by simp

lemma align_entry_bounds:
  assumes "n < 4294967296 - 64"
  shows "n \<le> align_entry n" "align_entry n < n + 64" "align_entry n mod 64 = 0"
proof -
  have w: "w32 (n + 63) = n + 63" using assms by (intro w32_id) simp
  have le: "(n + 63) div 64 * 64 \<le> n + 63" by (rule div_times_less_eq_dividend)
  then have "w32 ((n + 63) div 64 * 64) = (n + 63) div 64 * 64" using assms by (intro w32_id) linarith
  moreover have "n + 64 - 1 = n + 63" by simp
  ultimately have eq: "align_entry n = (n + 63) div 64 * 64"
    unfolding align_entry_def kEntryAlign_def by (simp only: w)
  show "align_entry n < n + 64" unfolding eq using le by linarith
  show "n \<le> align_entry n"
    unfolding eq using dividend_less_div_times [of 64 "n + 63"] by simp
  show "align_entry n mod 64 = 0" by (simp add: eq)
qed

lemma index_batch_bounds:
  assumes "1 \<le> K" "K \<le> 1024"
  shows "0 < index_batch_of K source M" "index_batch_of K source M \<le> 4096"
proof -
  have "w32 (K * 4) = K * 4" using assms by (intro w32_id) simp
  moreover have "16384 div (K * 4) \<le> 4096"
  proof -
    have "16384 div (K * 4) = 4096 div K" using div_mult_mult1 [of 4 4096 K] by (simp add: mult.commute)
    also have "\<dots> \<le> 4096" by simp
    finally show ?thesis .
  qed
  ultimately have b: "max 1 (16 * 1024 div w32 (K * 4)) \<le> 4096" by simp
  define b where "b = max 1 (16 * 1024 div w32 (K * 4))"
  have "1 \<le> b" "b \<le> 4096" using \<open>max 1 _ \<le> 4096\<close> by (simp_all add: b_def)
  then have "1 \<le> (if 0 < source then clamp_nat (64 * 1024 div source) 1 b else b)"
      "(if 0 < source then clamp_nat (64 * 1024 div source) 1 b else b) \<le> 4096"
    by (auto simp: clamp_nat_def)
  moreover have "index_batch_of K source M = min (if 0 < source then clamp_nat (64 * 1024 div source) 1 b else b) (max M 1)"
    by (simp add: index_batch_of_def b_def Let_def)
  ultimately show "0 < index_batch_of K source M" "index_batch_of K source M \<le> 4096"
    by (simp_all only: min_less_iff_conj less_max_iff_disj min_le_iff_disj) simp_all
qed

lemma group_of_bounds: "0 < group_of entry" "group_of entry \<le> 16"
  by (simp_all add: group_of_def clamp_nat_def)

text \<open>The geometry of a launch.\<close>

lemma launch_geometry:
  assumes "rows_launch p i scatter"
  defines "t \<equiv> in_table i" and "g \<equiv> geometry p i"
  defines "page \<equiv> ten_shape t ! (length (ten_shape t) - 1) * ten_elem_bytes t" and "S \<equiv> prod_list (middle_dims t)"
    and "W \<equiv> prod_list (take (row_components p) (ip_windows p))"
  shows "ge_K g = length (ip_sizes p)" "ge_M g = ten_shape (in_indices i) ! 2" "ge_Bi g = ten_shape (in_indices i) ! 0"
    and "rt_B (ge_table g) = ten_shape t ! 0" "rt_N (ge_table g) = ten_shape t ! 1" "rt_S (ge_table g) = S"
    and "ge_page_bytes g = page" "ge_chunk_bytes g = min page (64 * 1024)" "ge_elem_bytes g = ten_elem_bytes t"
    and "0 < ge_group g" "ge_group g \<le> 16" "0 < ge_index_batch g" "ge_index_batch g + 16 \<le> ge_index_stride_bytes g div 4"
    and "ge_pages g = ten_shape t ! 1 * S"
    and "ge_transfers_per_item g = (if ip_column p then W else W * S * div_up page (64 * 1024))"
proof -
  note sizes = launch_sizes [OF assms(1), folded t_def]
  have v: "validate_indexed_rows p i scatter = Inr ()" and fit: "rows_fit p i" using assms(1) by (simp_all add: rows_launch_def)
  show "ge_K g = length (ip_sizes p)" "ge_M g = ten_shape (in_indices i) ! 2" "ge_Bi g = ten_shape (in_indices i) ! 0"
    "rt_B (ge_table g) = ten_shape t ! 0" "rt_N (ge_table g) = ten_shape t ! 1" "ge_elem_bytes g = ten_elem_bytes t"
    by (simp_all add: g_def geometry_def Let_def indexed_rows_table_def t_def)
  show "rt_S (ge_table g) = S" using sizes(9) by (simp add: g_def geometry_def Let_def S_def t_def)
  show page: "ge_page_bytes g = page" using sizes(10) by (simp add: g_def geometry_def Let_def indexed_rows_table_def page_def t_def)
  then show chunk: "ge_chunk_bytes g = min page (64 * 1024)" by (simp add: g_def geometry_def Let_def)
  show "ge_pages g = ten_shape t ! 1 * S"
    using sizes(9,13) by (simp add: g_def geometry_def Let_def indexed_rows_table_def S_def t_def)
  show "0 < ge_group g" "ge_group g \<le> 16" by (simp_all add: g_def geometry_def Let_def group_of_bounds)
  obtain source where batch: "ge_index_batch g = index_batch_of (length (ip_sizes p)) source (ten_shape (in_indices i) ! 2)"
    by (simp add: g_def geometry_def Let_def)
  have K: "1 \<le> length (ip_sizes p)" "length (ip_sizes p) \<le> 1024"
    using validated_shapes(2) [OF v] fit by (simp_all add: rows_fit_def Let_def)
  show "0 < ge_index_batch g" unfolding batch by (rule index_batch_bounds [OF K])
  have small: "ge_index_batch g \<le> 4096" unfolding batch by (rule index_batch_bounds [OF K])
  have "w32 (ge_index_batch g * 4 + 64) = ge_index_batch g * 4 + 64" using small by (intro w32_id) simp
  then have "ge_index_stride_bytes g = align_entry (ge_index_batch g * 4 + 64)"
    by (simp add: g_def geometry_def Let_def index_stride_of_def kEntryAlign_def)
  moreover have "ge_index_batch g * 4 + 64 \<le> align_entry (ge_index_batch g * 4 + 64)"
    by (rule align_entry_bounds) (use small in simp)
  ultimately have "(ge_index_batch g * 4 + 64) div 4 \<le> ge_index_stride_bytes g div 4" by (intro div_le_mono) simp
  then show "ge_index_batch g + 16 \<le> ge_index_stride_bytes g div 4" by simp
  have big: "page + 2 ^ 17 \<le> 2 ^ 32" using fit unfolding rows_fit_def Let_def page_def t_def by blast
  have "page \<le> 4294836224" "min page (64 * 1024) \<le> 65536" using big by simp_all
  then have "page + min page (64 * 1024) - 1 < 4294967296" by linarith
  then have "w32 (page + min page (64 * 1024) - 1) = page + min page (64 * 1024) - 1" by (rule w32_id)
  then have C: "w32 (page + min page (64 * 1024) - 1) div min page (64 * 1024) = div_up page (64 * 1024)"
    using chunk_count [of page] sizes(11) by (simp add: div_up_def page_def t_def)
  have "ten_shape (in_indices i) ! 2 * W * S * div_up page (64 * 1024) < 2 ^ 32"
    using fit unfolding rows_fit_def Let_def page_def t_def S_def W_def by blast
  then have "W * S * div_up page (64 * 1024) * ten_shape (in_indices i) ! 2 < 2 ^ 32" by (simp add: mult.commute mult.left_commute)
  then have "W * S * div_up page (64 * 1024) < 2 ^ 32" using sizes(6) by (rule product_factor_less)
  then have T: "w32 (W * S * div_up page (64 * 1024)) = W * S * div_up page (64 * 1024)" by (intro w32_id) simp
  have "ge_transfers_per_item g = (if ip_column p then indexed_rows_window p
      else w32 (indexed_rows_window p * rt_S (ge_table g) * (w32 (ge_page_bytes g + ge_chunk_bytes g - 1) div ge_chunk_bytes g)))"
    by (simp add: g_def geometry_def Let_def transfers_of_def)
  then show "ge_transfers_per_item g = (if ip_column p then W else W * S * div_up page (64 * 1024))"
    using sizes(8) \<open>rt_S (ge_table g) = S\<close> C T by (simp add: page chunk W_def)
qed

lemma component_strides_ok:
  assumes "rows_launch p i scatter"
  shows "length (component_strides p) = length (ip_sizes p)"
    and "take (row_components p) (component_strides p) = strides_of (take (row_components p) (ip_sizes p))"
proof -
  have v: "validate_indexed_rows p i scatter = Inr ()" and fit: "rows_fit p i" using assms by (simp_all add: rows_launch_def)
  note valid = validated_shapes [OF v]
  let ?k = "row_components p" and ?zeros = "replicate (length (ip_sizes p)) 0"
  have k: "?k \<le> length (ip_sizes p)" by (simp add: valid(5))
  have eq: "component_strides p = strides_loop ?k (ip_sizes p) 1 ?zeros" by (simp add: component_strides_def valid(5) Let_def)
  have "1 * prod_list (take ?k (ip_sizes p)) < 2 ^ 32" using fit by (simp add: rows_fit_def Let_def)
  from strides_loop_at [OF _ k _ this, of ?zeros] prod_windows_le [OF valid(4), of ?k] k
  have at: "length (component_strides p) = length (ip_sizes p)"
      "\<And>j. j < ?k \<Longrightarrow> component_strides p ! j = prod_list (drop (Suc j) (take ?k (ip_sizes p)))"
    by (simp_all add: eq)
  then show "length (component_strides p) = length (ip_sizes p)" by simp
  show "take ?k (component_strides p) = strides_of (take ?k (ip_sizes p))"
    using k at by (intro nth_equalityI) (simp_all add: strides_of_def)
qed

text \<open>A launch gives the kernels arguments that describe its table.\<close>

lemma launch_args:
  assumes "rows_launch p i scatter"
  defines "t \<equiv> in_table i" and "a \<equiv> gather_args p i"
  defines "page \<equiv> ten_shape t ! (length (ten_shape t) - 1) * ten_elem_bytes t"
  shows "ra_K a = length (ip_sizes p)" "ra_KR a = row_components p" "ra_M a = ten_shape (in_indices i) ! 2"
    and "ra_N a = ten_shape t ! 1" "ra_S a = prod_list (middle_dims t)" "ra_W a = prod_list (take (row_components p) (ip_windows p))"
    and "ra_page_bytes a = page" "ra_chunk_bytes a = min page (64 * 1024)" "ra_elem_bytes a = ten_elem_bytes t"
    and "ra_sizes a = ip_sizes p" "ra_windows a = ip_windows p" "ra_strides a = component_strides p" "ra_column a = ip_column p"
    and "ra_group a = ge_group (geometry p i)" "ra_index_batch a = ge_index_batch (geometry p i)"
    and "ra_index_stride a = ge_index_stride_bytes (geometry p i) div 4"
    and "ra_unsigned a = (ten_dtype (in_indices i) = UINT32)" "ra_fill_oob a = ip_fill_out_of_bounds p"
    and "ra_shared a = (ten_shape (in_indices i) ! 0 = 1)"
proof -
  have v: "validate_indexed_rows p i scatter = Inr ()" using assms(1) by (simp add: rows_launch_def)
  note g = launch_geometry [OF assms(1)] and sizes = launch_sizes [OF assms(1)] and valid = validated_shapes [OF v]
  note args = geometry_args [of p i, folded a_def, unfolded Let_def]
  show "ra_K a = length (ip_sizes p)" "ra_M a = ten_shape (in_indices i) ! 2" "ra_N a = ten_shape t ! 1"
    "ra_S a = prod_list (middle_dims t)" "ra_W a = prod_list (take (row_components p) (ip_windows p))"
    "ra_page_bytes a = page" "ra_chunk_bytes a = min page (64 * 1024)" "ra_elem_bytes a = ten_elem_bytes t"
    "ra_sizes a = ip_sizes p" "ra_windows a = ip_windows p" "ra_strides a = component_strides p" "ra_column a = ip_column p"
    "ra_group a = ge_group (geometry p i)" "ra_index_batch a = ge_index_batch (geometry p i)"
    "ra_index_stride a = ge_index_stride_bytes (geometry p i) div 4"
    "ra_unsigned a = (ten_dtype (in_indices i) = UINT32)" "ra_fill_oob a = ip_fill_out_of_bounds p"
    "ra_shared a = (ten_shape (in_indices i) ! 0 = 1)"
    using g sizes(8) by (simp_all add: args t_def page_def)
  then show "ra_KR a = row_components p" by (simp add: ra_KR_def valid(5))
qed

lemma launch_args_ok:
  assumes "rows_launch p i scatter"
  shows "gather_ok (gather_args p i)" "rows_shape_ok (gather_args p i) (ten_shape (in_table i) ! 0)"
    and "gather_transfers (gather_args p i) (ten_shape (in_table i) ! 0) = gather_work (geometry p i)"
    and "gather_transfers (gather_args p i) (ten_shape (in_table i) ! 0) < 2 ^ 32"
proof -
  have v: "validate_indexed_rows p i scatter = Inr ()" and fit: "rows_fit p i" using assms by (simp_all add: rows_launch_def)
  note g = launch_geometry [OF assms] and sizes = launch_sizes [OF assms] and valid = validated_shapes [OF v]
  note args = launch_args [OF assms] and strides = component_strides_ok [OF assms]
  let ?a = "gather_args p i" and ?B = "ten_shape (in_table i) ! 0" and ?M = "ten_shape (in_indices i) ! 2"
  let ?page = "ten_shape (in_table i) ! (length (ten_shape (in_table i)) - 1) * ten_elem_bytes (in_table i)"
  let ?W = "prod_list (take (row_components p) (ip_windows p))" and ?S = "prod_list (middle_dims (in_table i))"
  let ?C = "div_up ?page (64 * 1024)"
  have fits: "\<forall>s \<in> set (ip_sizes p). s < 2 ^ 31" "prod_list (take (row_components p) (ip_sizes p)) < 2 ^ 32"
    "?page + 2 ^ 17 \<le> 2 ^ 32" "?B * ten_shape (in_table i) ! 1 * ?S < 2 ^ 32" "?B * ?M * (?W * ?S * ?C) < 2 ^ 32"
    "?M * ?W * ?S * ?C < 2 ^ 32" "ip_column p \<longrightarrow> ?M * ?W * (last (ip_windows p) * ten_elem_bytes (in_table i)) < 2 ^ 32"
    using fit unfolding rows_fit_def Let_def by blast+
  have C: "0 < ?C" using sizes(11) by simp
  have BMWS: "?B * ?M * ?W * ?S < 2 ^ 32"
  proof (rule product_factor_less [OF _ C])
    show "?B * ?M * ?W * ?S * ?C < 2 ^ 32" using fits(5) by (simp add: mult.assoc)
  qed
  have WSC: "?W * ?S * ?C < 2 ^ 32"
  proof (rule product_factor_less [OF _ sizes(6)])
    show "?W * ?S * ?C * ?M < 2 ^ 32" using fits(6) by (simp only: mult_ac)
  qed
  have last: "last (ip_windows p) = ip_windows p ! (length (ip_sizes p) - 1)" "last (ip_sizes p) = ip_sizes p ! (length (ip_sizes p) - 1)"
    using valid(2,3) by (metis last_conv_nth length_0_conv not_one_le_zero)+
  have chunk: "div_up ?page (min ?page (64 * 1024)) = ?C" by (rule chunk_count [OF sizes(11)])
  have page_chunk: "?page + min ?page (64 * 1024) \<le> 2 ^ 32" using fits(3) by (simp add: min_def)
  have column: "?S = 1 \<and> ip_sizes p ! (length (ip_sizes p) - 1) * ten_elem_bytes (in_table i) = ?page \<and>
      ?M * ?W * (ip_windows p ! (length (ip_sizes p) - 1) * ten_elem_bytes (in_table i)) \<le> 2 ^ 32" if "ip_column p"
    using valid(8) [OF that] sizes(9) fits(7) that last by (simp add: indexed_rows_table_def Let_def)
  show shape: "rows_shape_ok ?a ?B"
    unfolding rows_shape_ok_def args chunk
    using valid(2,4) strides fits(1,2) sizes(4,6,7,11,12) page_chunk BMWS WSC fits(4) column
    by (auto simp: less_imp_le)
  show "gather_ok ?a"
    using g(10,12,13) rows_shape_facts(8) [OF shape] sizes(6) by (simp add: gather_ok_def args)
  have tpi: "transfers_per_item ?a = ge_transfers_per_item (geometry p i)"
  proof (cases "ip_column p")
    case True
    then show ?thesis using rows_shape_facts(7) [OF shape] g(15) by (simp add: args)
  next
    case False
    then show ?thesis
      using rows_shape_facts(4,6) [OF shape] g(15) chunk by (simp add: args mult.assoc)
  qed
  have work: "?B * ?M * ge_transfers_per_item (geometry p i) < 2 ^ 32"
  proof (cases "ip_column p")
    case True
    have "?B * ?M * ?W * (?S * ?C) < 2 ^ 32" "0 < ?S * ?C" using fits(5) sizes(4) C by (simp_all add: mult.assoc)
    then have "?B * ?M * ?W < 2 ^ 32" by (rule product_factor_less)
    with True g(15) show ?thesis by simp
  qed (use fits(5) g(15) in simp)
  then show "gather_transfers ?a ?B < 2 ^ 32" by (simp add: gather_transfers_def args tpi)
  show "gather_transfers ?a ?B = gather_work (geometry p i)"
    using work g(2,4) by (simp add: gather_transfers_def gather_work_def args tpi w32_id)
qed

section \<open>The program\<close>

text \<open>What a core of the program may write: the writer's puts when its kernels have stopped.\<close>

definition gather_core :: "rows_args \<Rightarrow> rows_dram \<Rightarrow> nat \<Rightarrow> nat \<Rightarrow> put list \<Rightarrow> bool" where
  "gather_core a d first num puts \<longleftrightarrow>
     (\<exists>old entry n f. net_run (gather_ring_size a) n (net_start (gather_progs a d old entry first num) (\<lambda>_. [])) f \<and>
        net_stuck (gather_ring_size a) f \<and> puts = stores f 1)"

definition gather_cores :: "rows_args \<Rightarrow> rows_dram \<Rightarrow> work_split \<Rightarrow> put list list \<Rightarrow> bool" where
  "gather_cores a d s puts \<longleftrightarrow> list_all2 (\<lambda>(core, first, num) ps. gather_core a d first num ps) (split_ranges s) puts"

lemma gather_core_puts:
  assumes "gather_ok a" "first + num < 2 ^ 32" "gather_core a d first num ps"
  shows "\<exists>old. ps = gather_puts a d old [first..<first + num]"
proof -
  from assms(3) obtain old entry n f where
    run: "net_run (gather_ring_size a) n (net_start (gather_progs a d old entry first num) (\<lambda>_. [])) f"
    and stuck: "net_stuck (gather_ring_size a) f" and ps: "ps = stores f 1" by (auto simp: gather_core_def)
  from gather_runs [OF assms(1,2), of d old entry] obtain m g where
    g: "net_run (gather_ring_size a) m (net_start (gather_progs a d old entry first num) (\<lambda>_. [])) g" "net_done g"
      "stores g 1 = gather_puts a d old [first..<first + num]" by blast
  from one_run_decides [OF g(1,2) net_start_ok [OF gather_owned] run] stuck have "f = g" by blast
  with g(3) ps show ?thesis by blast
qed

lemma list_all2_memberI:
  "list_all2 P xs ys \<Longrightarrow> x \<in> set xs \<Longrightarrow> \<exists>y \<in> set ys. P x y"
  "list_all2 P xs ys \<Longrightarrow> y \<in> set ys \<Longrightarrow> \<exists>x \<in> set xs. P x y"
  by (induction rule: list_all2_induct) auto

lemma gather_cores_landed:
  assumes shape: "rows_shape_ok a B" and ok: "gather_ok a" and small: "gather_transfers a B < 2 ^ 32"
    and split: "split_ok (gather_transfers a B) s" and cores: "gather_cores a d s pss"
    and landed: "landed (concat pss) m m'" and place: "gather_place a B P k"
  shows "m' P k = gathered a d P k"
proof -
  have puts: "\<exists>old. ps = gather_puts a d old [first..<first + num]"
    if "(core, first, num) \<in> set (split_ranges s)" "gather_core a d first num ps" for core first num ps
    using split_range_bound [OF split that(1)] small by (intro gather_core_puts [OF ok _ that(2)]) simp
  have agrees: "put_agrees (gathered a d) w" if "w \<in> set (concat pss)" for w
  proof -
    from that obtain ps where ps: "ps \<in> set pss" "w \<in> set ps" by auto
    from list_all2_memberI(2) [OF cores [unfolded gather_cores_def] ps(1)] obtain core first num where
      r: "(core, first, num) \<in> set (split_ranges s)" "gather_core a d first num ps" by auto
    from puts [OF r] obtain old where "ps = gather_puts a d old [first..<first + num]" by blast
    with ps(2) obtain q where "q < first + num" "w \<in> set (gather_put a q (Bytes (expected_entry a d old q)) [])"
      by (auto simp: gather_puts_def)
    with split_range_bound [OF split r(1)] gather_put_agrees [OF shape, of q w d old] show ?thesis by simp
  qed
  from gather_put_covers [OF shape place, of d] obtain q where q: "q < gather_transfers a B"
      "\<And>old. \<exists>w \<in> set (gather_put a q (Bytes (expected_entry a d old q)) []). put_covers P k w" by blast
  from split_item_core [OF split q(1)] obtain core first num where
    r: "(core, first, num) \<in> set (split_ranges s)" "first \<le> q" "q < first + num" by blast
  from list_all2_memberI(1) [OF cores [unfolded gather_cores_def] r(1)] obtain ps where
    ps: "ps \<in> set pss" "gather_core a d first num ps" by auto
  from puts [OF r(1) ps(2)] obtain old where old: "ps = gather_puts a d old [first..<first + num]" by blast
  from q(2) [of old] obtain w where "w \<in> set (gather_put a q (Bytes (expected_entry a d old q)) [])" "put_covers P k w" by blast
  moreover from this(1) have "w \<in> set ps" using r(2,3) by (auto simp: old gather_puts_def)
  then have "w \<in> set (concat pss)" using ps(1) by auto
  ultimately show ?thesis using landed_at [OF landed agrees] by blast
qed

lemma rows_gather_launch:
  assumes "rows_gather p i table indices output split = Inr (Launch prog)" "rows_fit p i"
  shows "rows_launch p i False" "prog = gather_artifacts p i table indices output split"
  using assms by (auto simp: rows_gather_def rows_launch_def split: sum.splits if_splits)

text \<open>
  C25: The output of rows_gather: when the kernels of all cores have stopped and their writes have
  landed in whatever order, every byte of the output is the byte of the table row (or of the
  column window of that row) its position names: start indices clamped, window offsets in
  row-major order, zeros for a position out of bounds in fill mode. It holds for every split of
  the transfers over the cores, every interleaving of the kernels and whatever L1 held.
\<close>

theorem rows_gather_result:
  assumes "rows_gather p i table indices output split = Inr (Launch prog)" and "rows_fit p i"
    and "\<forall>work. split_ok work (split work)"
    and "gather_cores (gather_args p i) d (split (gather_work (geometry p i))) pss"
    and "landed (concat pss) m m'" and "gather_place (gather_args p i) (ten_shape (in_table i) ! 0) P k"
  shows "m' P k = gathered (gather_args p i) d P k \<and>
    map num_entries (dataflow_buffers (artifact_spec prog)) = map (gather_ring_size (gather_args p i)) [Rows, Index]"
proof -
  note launch = rows_gather_launch [OF assms(1,2)]
  note ok = launch_args_ok [OF launch(1)] and args = launch_args [OF launch(1)]
  have "m' P k = gathered (gather_args p i) d P k"
    using gather_cores_landed [OF ok(2,1,4) _ assms(4,5,6)] assms(3) ok(3) by simp
  then show ?thesis
    by (simp add: launch(2) gather_artifacts_def dfb_plain_def gather_ring_size_def args Let_def)
qed

text \<open>
  C31: No core of rows_gather waits for ever: every run of its reader and writer is bounded, and
  where no kernel can step both have come to their ends.
\<close>

theorem rows_gather_ends:
  assumes "rows_gather p i table indices output split = Inr (Launch prog)" and "rows_fit p i"
    and "\<forall>work. split_ok work (split work)"
    and "(core, first, num) \<in> set (split_ranges (split (gather_work (geometry p i))))"
  shows "\<exists>bound. \<forall>n f. net_run (gather_ring_size (gather_args p i)) n
      (net_start (gather_progs (gather_args p i) d old entry first num) (\<lambda>_. [])) f \<longrightarrow>
    n \<le> bound \<and> (net_stuck (gather_ring_size (gather_args p i)) f \<longrightarrow> net_done f)"
proof -
  let ?a = "gather_args p i"
  note ok = launch_args_ok [OF rows_gather_launch(1) [OF assms(1,2)]]
  have split: "split_ok (gather_transfers ?a (ten_shape (in_table i) ! 0)) (split (gather_work (geometry p i)))"
    using assms(3) ok(3) by simp
  have "first + num < 2 ^ 32" using split_range_bound [OF split assms(4)] ok(4) by simp
  from gather_runs [OF ok(1) this, of d old entry] obtain m g where
    g: "net_run (gather_ring_size ?a) m (net_start (gather_progs ?a d old entry first num) (\<lambda>_. [])) g" "net_done g"
    by blast
  from one_run_decides [OF g net_start_ok [OF gather_owned]] g(2) show ?thesis by blast
qed

section \<open>Bounds\<close>

lemma entry_bytes_ok:
  assumes "rows_launch p i scatter"
  shows "ra_chunk_bytes (gather_args p i) \<le> ge_entry_bytes (geometry p i)"
    and "ip_column p \<Longrightarrow> column_bytes (gather_args p i) + 64 \<le> ge_entry_bytes (geometry p i)"
proof -
  let ?a = "gather_args p i" and ?B = "ten_shape (in_table i) ! 0"
  let ?page = "ten_shape (in_table i) ! (length (ten_shape (in_table i)) - 1) * ten_elem_bytes (in_table i)"
  have v: "validate_indexed_rows p i scatter = Inr ()" and fit: "rows_fit p i" using assms by (simp_all add: rows_launch_def)
  note args = launch_args [OF assms] and shape = launch_args_ok(2) [OF assms] and valid = validated_shapes [OF v]
  have big: "?page + 2 ^ 17 \<le> 2 ^ 32" using fit unfolding rows_fit_def Let_def by blast
  have cb: "rt_column_window (indexed_rows_table p (in_table i)) * ten_elem_bytes (in_table i) = column_bytes ?a"
      "column_bytes ?a \<le> ?page" if c: "ip_column p"
  proof -
    have eq: "column_bytes ?a = ip_windows p ! (length (ip_sizes p) - 1) * ten_elem_bytes (in_table i)"
      using rows_shape_facts(9) [OF shape] c by (simp add: args)
    have K: "ip_windows p \<noteq> []" using valid(2,3) by auto
    then show "rt_column_window (indexed_rows_table p (in_table i)) * ten_elem_bytes (in_table i) = column_bytes ?a"
      using c valid(3) by (simp add: eq indexed_rows_table_def Let_def last_conv_nth)
    have "ip_windows p ! (length (ip_sizes p) - 1) \<le> ip_sizes p ! (length (ip_sizes p) - 1)"
      using valid(2,4) by (simp add: windows_ok_def)
    then have "column_bytes ?a \<le> ip_sizes p ! (length (ip_sizes p) - 1) * ten_elem_bytes (in_table i)"
      unfolding eq by (rule mult_le_mono1)
    also have "\<dots> = ?page" using shape c unfolding rows_shape_ok_def args by blast
    finally show "column_bytes ?a \<le> ?page" .
  qed
  define col where "col = (if ip_column p then w32 (rt_column_window (indexed_rows_table p (in_table i)) * ten_elem_bytes (in_table i) + 64) else 0)"
  have col: "ip_column p \<Longrightarrow> col = column_bytes ?a + 64" "col \<le> ?page + 64"
    using cb big by (auto simp: col_def w32_id)
  have "ge_entry_bytes (geometry p i) = entry_bytes_of (ip_column p) (rt_column_window (indexed_rows_table p (in_table i)))
      (ten_elem_bytes (in_table i)) (ge_chunk_bytes (geometry p i))"
    by (simp add: geometry_def Let_def)
  then have "ge_entry_bytes (geometry p i) = align_entry (max (ge_chunk_bytes (geometry p i)) col)"
    by (simp add: entry_bytes_of_def col_def kEntryAlign_def)
  moreover have chunk: "ge_chunk_bytes (geometry p i) \<le> 65536" "ge_chunk_bytes (geometry p i) = ra_chunk_bytes ?a"
    using launch_geometry(8) [OF assms] args(8) by simp_all
  moreover have "max (ge_chunk_bytes (geometry p i)) col < 4294967296 - 64" using chunk(1) col(2) big by simp
  note align_entry_bounds(1) [OF this]
  ultimately show "ra_chunk_bytes ?a \<le> ge_entry_bytes (geometry p i)"
    "ip_column p \<Longrightarrow> column_bytes ?a + 64 \<le> ge_entry_bytes (geometry p i)"
    using col(1) by simp_all
qed

text \<open>A transfer of an item, for both kinds of rows.\<close>

lemma column_transfer_bounds:
  assumes "rows_launch p i scatter" and a: "a = gather_args p i" and "B = ten_shape (in_table i) ! 0" and col: "ra_column a"
    and item: "item < B * ra_M a" and t: "t < ra_W a" and tr: "tr = gather_read a (position_coords a d item) item t"
    and row: "\<And>j. item div ra_M a * ra_N a + gather_row a d item j < B * ra_N a"
  shows "tr_page tr < B * ra_N a * ra_S a \<and> tr_offset tr + tr_bytes tr \<le> ra_page_bytes a \<and>
    tr_from tr + tr_bytes tr \<le> ge_entry_bytes (geometry p i) \<and> tr_to tr + tr_bytes tr \<le> ge_entry_bytes (geometry p i)"
proof -
  have ok: "rows_shape_ok a B" using launch_args_ok(2) [OF assms(1)] by (simp only: assms(2,3))
  note args = launch_args [OF assms(1), folded a] and entry = entry_bytes_ok [OF assms(1), folded a]
  note f = rows_shape_facts [OF ok] and b = rows_shape_bounds [OF ok]
  note read = gather_read_column(1) [OF ok col item t, of d]
  have S: "ra_S a = 1" and page: "ra_sizes a ! (ra_K a - 1) * ra_elem_bytes a = ra_page_bytes a"
    using ok col unfolding rows_shape_ok_def by blast+
  have K: "ra_K a - 1 = ra_KR a" "ra_KR a < ra_K a" using f(11) [OF col] by simp_all
  have start: "0 \<le> start_of a d item ! ra_KR a"
      "start_of a d item ! ra_KR a \<le> int (ra_sizes a ! ra_KR a) - int (ra_windows a ! ra_KR a)"
    using start_of_ok [OF ok, of d item] K(2) by (auto simp: start_ok_def)
  then have "nat (start_of a d item ! ra_KR a) + ra_windows a ! ra_KR a \<le> ra_sizes a ! ra_KR a" by simp
  then have "(nat (start_of a d item ! ra_KR a) + ra_windows a ! ra_KR a) * ra_elem_bytes a \<le> ra_sizes a ! ra_KR a * ra_elem_bytes a"
    by (rule mult_le_mono1)
  moreover have "ra_sizes a ! ra_KR a * ra_elem_bytes a = ra_page_bytes a" using page unfolding K(1) .
  moreover have "column_bytes a = ra_windows a ! ra_KR a * ra_elem_bytes a"
    using f(9) [OF col] unfolding K(1) .
  ultimately have fits: "nat (start_of a d item ! ra_KR a) * ra_elem_bytes a + column_bytes a \<le> ra_page_bytes a"
    by (simp only: distrib_right)
  have "column_bytes a + 64 \<le> ge_entry_bytes (geometry p i)" using entry(2) col by (simp add: args)
  moreover have "x mod 64 + column_bytes a \<le> column_bytes a + 64" for x :: nat by (simp add: less_imp_le)
  ultimately have "x mod 64 + column_bytes a \<le> ge_entry_bytes (geometry p i)" for x :: nat by (meson le_trans)
  then show ?thesis using row fits unfolding tr by (simp add: read S)
qed

lemma row_transfer_bounds:
  assumes "rows_launch p i scatter" and a: "a = gather_args p i" and "B = ten_shape (in_table i) ! 0" and col: "\<not> ra_column a"
    and item: "item < B * ra_M a" and t: "t < transfers_per_item a" and tr: "tr = gather_read a (position_coords a d item) item t"
    and row: "\<And>j. item div ra_M a * ra_N a + gather_row a d item j < B * ra_N a"
  shows "tr_page tr < B * ra_N a * ra_S a \<and> tr_offset tr + tr_bytes tr \<le> ra_page_bytes a \<and>
    tr_from tr + tr_bytes tr \<le> ge_entry_bytes (geometry p i) \<and> tr_to tr + tr_bytes tr \<le> ge_entry_bytes (geometry p i)"
proof -
  have ok: "rows_shape_ok a B" using launch_args_ok(2) [OF assms(1)] by (simp only: assms(2,3))
  note args = launch_args [OF assms(1), folded a] and entry = entry_bytes_ok [OF assms(1), folded a]
  note f = rows_shape_facts [OF ok] and b = rows_shape_bounds [OF ok]
  let ?u = "t div ra_C a"
  have tpi: "transfers_per_item a = ra_W a * (ra_S a * ra_C a)" by (rule f(6) [OF col])
  have split: "t = (?u div ra_S a * ra_S a + ?u mod ra_S a) * ra_C a + t mod ra_C a" by simp
  have j: "?u div ra_S a < ra_W a" using t by (simp add: tpi less_mult_imp_div_less mult.assoc)
  have s: "?u mod ra_S a < ra_S a" and c: "t mod ra_C a < ra_C a" using b(5) f(5) by simp_all
  note read = gather_read_row [OF ok col item j s c, of d, folded split]
  have "t mod ra_C a * ra_chunk_bytes a < ra_page_bytes a" using b(7) [OF col] c by blast
  moreover have "min (ra_page_bytes a - x) (ra_chunk_bytes a) \<le> ge_entry_bytes (geometry p i)" for x
    using entry(1) by (simp add: min_le_iff_disj)
  ultimately show ?thesis
    using index_less_product [OF row s] unfolding tr by (simp add: read)
qed

text \<open>
  C32: Every transfer of a launched rows_gather stays inside its operands: the page is one of the
  table's, the bytes lie within the page, and where they land and where they belong lies within
  an entry of the rows buffer; whatever indices the index tensor holds.
\<close>

theorem rows_gather_in_bounds:
  assumes "rows_gather p i table indices output split = Inr (Launch prog)" and "rows_fit p i"
    and "q < gather_work (geometry p i)"
  shows "let a = gather_args p i; item = q div transfers_per_item a; t = q mod transfers_per_item a;
      tr = gather_read a (position_coords a d item) item t; entry = ge_entry_bytes (geometry p i) in
    tr_page tr < ten_shape (in_table i) ! 0 * ra_N a * ra_S a \<and> tr_offset tr + tr_bytes tr \<le> ra_page_bytes a \<and>
    tr_from tr + tr_bytes tr \<le> entry \<and> tr_to tr + tr_bytes tr \<le> entry"
proof -
  let ?a = "gather_args p i" and ?B = "ten_shape (in_table i) ! 0"
  let ?item = "q div transfers_per_item ?a" and ?t = "q mod transfers_per_item ?a"
  note launch = rows_gather_launch(1) [OF assms(1,2)]
  note ok = launch_args_ok [OF launch] and f = rows_shape_facts [OF launch_args_ok(2) [OF launch]]
  have q: "q < ?B * ra_M ?a * transfers_per_item ?a" using assms(3) ok(3) by (simp add: gather_transfers_def)
  then have item: "?item < ?B * ra_M ?a" by (simp add: less_mult_imp_div_less)
  then have "?item div ra_M ?a < ?B" by (simp add: less_mult_imp_div_less)
  from index_less_product [OF this window_row_gather(2) [OF ok(2)]]
  have row: "?item div ra_M ?a * ra_N ?a + gather_row ?a d ?item j < ?B * ra_N ?a" for j .
  have t: "?t < transfers_per_item ?a" using f(8) by simp
  show ?thesis
  proof (cases "ra_column ?a")
    case True
    with t have "?t < ra_W ?a" by (simp add: f(7) [OF True])
    from column_transfer_bounds [OF launch refl refl True item this refl row] show ?thesis by (simp add: Let_def)
  next
    case False
    from row_transfer_bounds [OF launch refl refl False item t refl row] show ?thesis by (simp add: Let_def)
  qed
qed

section \<open>An instance\<close>

lemma gather_cores_exist:
  assumes ok: "gather_ok a" and small: "work < 2 ^ 32" and split: "split_ok work s"
  shows "\<exists>pss. gather_cores a d s pss"
proof -
  have "\<exists>ps. case r of (core, first, num) \<Rightarrow> gather_core a d first num ps" if r: "r \<in> set (split_ranges s)" for r
  proof -
    obtain core first num where rr: "r = (core, first, num)" by (cases r) auto
    have "first + num < 2 ^ 32" using split_range_bound [OF split, of core first num] r rr small by simp
    from gather_runs [OF ok this, of d "\<lambda>_ _. 0" "\<lambda>_. 0"] obtain m f where
      "net_run (gather_ring_size a) m (net_start (gather_progs a d (\<lambda>_ _. 0) (\<lambda>_. 0) first num) (\<lambda>_. [])) f" "net_done f"
      by blast
    then have "gather_core a d first num (stores f 1)" unfolding gather_core_def using net_done_stuck by blast
    then show ?thesis using rr by auto
  qed
  then obtain ps where "\<forall>r \<in> set (split_ranges s). case r of (core, first, num) \<Rightarrow> gather_core a d first num (ps r)" by metis
  then have "list_all2 (\<lambda>(core, first, num) ps. gather_core a d first num ps) (split_ranges s) (map ps (split_ranges s))"
    by (auto simp: list_all2_map2 list_all2_same)
  then show ?thesis unfolding gather_cores_def by blast
qed

definition example_tensor :: "nat list \<Rightarrow> data_type \<Rightarrow> tensor" where
  "example_tensor shape dtype = \<lparr>ten_allocated = True, ten_row_major = True, ten_interleaved = True, ten_shape = shape,
     ten_dtype = dtype, ten_elem_bytes = 4, ten_device = 0\<rparr>"

definition example_params :: rows_params where
  "example_params = \<lparr>ip_sizes = [4], ip_windows = [1], ip_column = False, ip_fill_out_of_bounds = False,
     ip_reduce = ReduceNone, ip_out_interleaved = True\<rparr>"

definition example_operands :: rows_inputs where
  "example_operands = \<lparr>in_table = example_tensor [1, 4, 2] FLOAT32, in_indices = example_tensor [1, 1, 2] INT32, in_source = None\<rparr>"

lemma example_call:
  "rows_gather example_params example_operands ''t'' ''i'' ''o'' one_core =
     Inr (Launch (gather_artifacts example_params example_operands ''t'' ''i'' ''o'' one_core))"
  "rows_fit example_params example_operands"
  by (simp_all add: rows_gather_def validate_indexed_rows_def check_tensor_def check_source_def example_params_def
      example_operands_def example_tensor_def indexed_rows_table_def table_volume_def product32_def rows_fit_def
      middle_dims_def row_components_def div_up_def Let_def w32_def)

definition example_dram :: rows_dram where
  "example_dram = \<lparr>dr_table = (\<lambda>page byte. of_nat (10 * page + byte)), dr_indices = (\<lambda>page word. if word = 0 then 2 else 7)\<rparr>"

lemmas example_launch = rows_gather_launch(1) [OF example_call]
lemmas example_args = launch_args [OF example_launch]

lemma example_work: "gather_work (geometry example_params example_operands) = 2"
  using launch_geometry(2,4,15) [OF example_launch]
  by (simp add: gather_work_def example_params_def example_operands_def example_tensor_def middle_dims_def row_components_def
      div_up_def w32_def)

lemma example_place: "gather_place (gather_args example_params example_operands) (ten_shape (in_table example_operands) ! 0) 1 0"
  by (simp add: gather_place_def example_args)
    (simp add: example_params_def example_operands_def example_tensor_def row_components_def middle_dims_def)

text \<open>The second index, 7, is clamped to the last row.\<close>

lemma example_gathered: "gathered (gather_args example_params example_operands) example_dram 1 0 = 30"
proof -
  let ?a = "gather_args example_params example_operands"
  have args: "ra_K ?a = 1" "ra_KR ?a = 1" "ra_M ?a = 2" "ra_N ?a = 4" "ra_S ?a = 1" "ra_W ?a = 1" "ra_sizes ?a = [4]"
      "ra_windows ?a = [1]" "\<not> ra_column ?a" "\<not> ra_fill_oob ?a" "\<not> ra_unsigned ?a"
    by (simp_all only: example_args)
      (simp_all add: example_params_def example_operands_def example_tensor_def row_components_def middle_dims_def)
  have "start_of ?a example_dram 1 = [3]"
    by (simp add: start_of_def index_values_def args position_index_def example_dram_def index_value_def clamp_index_def)
  then have "gather_row ?a example_dram 1 0 = 3"
    by (simp add: gather_row_def args position_row_def)
  then show ?thesis
    by (simp add: gathered_def gathered_row_def zero_filled_def args Let_def) (simp add: example_dram_def)
qed

lemma rows_gather_result_witness:
  "\<exists>pss m'. gather_cores (gather_args example_params example_operands) example_dram (one_core 2) pss \<and>
    landed (concat pss) (\<lambda>_ _. 0) m' \<and> m' 1 0 = 30"
proof -
  note ok = launch_args_ok [OF example_launch]
  from gather_cores_exist [OF ok(1) _ one_core_ok, of 2 example_dram] obtain pss where
    pss: "gather_cores (gather_args example_params example_operands) example_dram (one_core 2) pss" by auto
  have landed: "landed (concat pss) (\<lambda>_ _. 0) (fold apply_put (concat pss) (\<lambda>_ _. 0))" by (auto simp: landed_def)
  show ?thesis
    using rows_gather_result [OF example_call _ _ landed example_place, of example_dram] one_core_ok pss landed
    by (intro exI [of _ pss] exI [of _ "fold apply_put (concat pss) (\<lambda>_ _. 0)"]) (simp add: example_work example_gathered [unfolded One_nat_def])
qed

lemma rows_gather_ends_witness:
  "\<exists>bound. \<forall>n f. net_run (gather_ring_size (gather_args example_params example_operands)) n
      (net_start (gather_progs (gather_args example_params example_operands) example_dram (\<lambda>_ _. 0) (\<lambda>_. 0) 0 2) (\<lambda>_. [])) f \<longrightarrow>
    n \<le> bound \<and> (net_stuck (gather_ring_size (gather_args example_params example_operands)) f \<longrightarrow> net_done f)"
  by (rule rows_gather_ends [OF example_call, where core = "(0, 0)"])
    (simp_all add: one_core_ok example_work, simp add: one_core_def split_ranges_def core_count_def)

lemma rows_gather_in_bounds_witness:
  "let a = gather_args example_params example_operands; tr = gather_read a (position_coords a example_dram (1 div transfers_per_item a))
       (1 div transfers_per_item a) (1 mod transfers_per_item a) in
    tr_page tr < 4 \<and> tr_offset tr + tr_bytes tr \<le> 8"
proof -
  let ?a = "gather_args example_params example_operands"
  have args: "ra_N ?a = 4" "ra_S ?a = 1" "ra_page_bytes ?a = 8" "ten_shape (in_table example_operands) ! 0 = 1"
    by (simp_all only: example_args)
      (simp_all add: example_params_def example_operands_def example_tensor_def middle_dims_def)
  show ?thesis
    using rows_gather_in_bounds [OF example_call, of 1 example_dram] by (simp add: example_work args Let_def)
qed

end
