(* ===== verification/ElementReduce.thy ===== *)
theory ElementReduce
  imports IndexedRows
begin

text \<open>
  The element-wise reductions of \<open>kernels/indexed_rows_common.hpp\<close>: the conversions of bfloat16
  and half precision to and from the bits of a \<open>float\<close>, maximum and minimum as StableHLO has
  them, integers modulo their width, and the loop over the elements of a region of L1. A
  \<open>float\<close> is its 32 bits; its sum and product are the arithmetic of the core, a parameter.
\<close>

section \<open>Floats\<close>

record float_ops =
  f_add :: "u32 \<Rightarrow> u32 \<Rightarrow> u32"
  f_mul :: "u32 \<Rightarrow> u32 \<Rightarrow> u32"

definition bf16_to_f32 :: "u16 \<Rightarrow> u32" where
  "bf16_to_f32 bits = push_bit 16 (ucast bits)"

definition f32_to_bf16 :: "u32 \<Rightarrow> u16" where
  "f32_to_bf16 u =
     (if u AND 0x7f800000 = 0x7f800000 \<and> u AND 0x007fffff \<noteq> 0 then ucast (drop_bit 16 u OR 0x0040)
      else let lsb = drop_bit 16 u AND 1; u = u + (0x7fff + lsb) in ucast (drop_bit 16 u))"

text \<open>The normalization of a subnormal: at most ten shifts bring the leading one to bit 10.\<close>

fun normalize_f16 :: "nat \<Rightarrow> u32 \<Rightarrow> u32 \<Rightarrow> u32 \<times> u32" where
  "normalize_f16 0 mant shift = (mant, shift)"
| "normalize_f16 (Suc fuel) mant shift =
     (if mant AND 0x400 = 0 then normalize_f16 fuel (push_bit 1 mant) (shift + 1) else (mant, shift))"

definition f16_to_f32 :: "u16 \<Rightarrow> u32" where
  "f16_to_f32 bits =
     (let sign = push_bit 16 (ucast bits AND 0x8000); exp = ucast (drop_bit 10 bits AND 0x1f) :: u32;
          mant = ucast (bits AND 0x3ff) :: u32 in
      if exp = 0 then
        if mant = 0 then sign
        else let (mant, shift) = normalize_f16 10 mant 0; mant = mant AND 0x3ff
             in sign OR push_bit 23 (127 - 15 + 1 - shift) OR push_bit 13 mant
      else if exp = 31 then sign OR 0x7f800000 OR push_bit 13 mant
      else sign OR push_bit 23 (exp + 127 - 15) OR push_bit 13 mant)"

definition f32_to_f16 :: "u32 \<Rightarrow> u16" where
  "f32_to_f16 u =
     (let sign = ucast (drop_bit 16 u AND 0x8000) :: u16; exp = drop_bit 23 u AND 0xff; mant = u AND 0x7fffff in
      if exp = 0xff then sign OR 0x7c00 OR (if mant \<noteq> 0 then 0x0200 OR ucast (drop_bit 13 mant) else 0)
      else let e = uint exp - 127 + 15 in
      if 31 \<le> e then sign OR 0x7c00
      else if e \<le> 0 then
        if e < -10 then sign
        else let mant = mant OR 0x800000; shift = nat (14 - e); half = push_bit (shift - 1) 1;
                 rem = mant AND (push_bit shift 1 - 1); r = drop_bit shift mant;
                 r = (if half < rem \<or> rem = half \<and> r AND 1 \<noteq> 0 then r + 1 else r)
             in sign OR ucast r
      else let r = push_bit 10 (of_int e) OR drop_bit 13 mant; rem = mant AND 0x1fff;
               r = (if 0x1000 < rem \<or> rem = 0x1000 \<and> r AND 1 \<noteq> 0 then r + 1 else r)
           in sign OR ucast r)"

text \<open>Comparisons of floats on their bits: a not-a-number compares with nothing, zeros are equal.\<close>

definition f_nan :: "u32 \<Rightarrow> bool" where
  "f_nan a \<longleftrightarrow> a AND 0x7f800000 = 0x7f800000 \<and> a AND 0x007fffff \<noteq> 0"

definition f_value :: "u32 \<Rightarrow> int" where
  "f_value a = (if a AND 0x80000000 = 0 then uint (a AND 0x7fffffff) else - uint (a AND 0x7fffffff))"

definition f_eq :: "u32 \<Rightarrow> u32 \<Rightarrow> bool" where
  "f_eq a b \<longleftrightarrow> \<not> f_nan a \<and> \<not> f_nan b \<and> f_value a = f_value b"

definition f_less :: "u32 \<Rightarrow> u32 \<Rightarrow> bool" where
  "f_less a b \<longleftrightarrow> \<not> f_nan a \<and> \<not> f_nan b \<and> f_value a < f_value b"

definition is_nan :: "u32 \<Rightarrow> bool" where
  "is_nan v \<longleftrightarrow> \<not> f_eq v v"

definition fmax_total :: "u32 \<Rightarrow> u32 \<Rightarrow> u32" where
  "fmax_total a b =
     (if is_nan a \<or> is_nan b then 0x7fc00000
      else if f_eq a b then (if a AND 0x80000000 \<noteq> 0 then b else a)
      else if f_less b a then a else b)"

definition fmin_total :: "u32 \<Rightarrow> u32 \<Rightarrow> u32" where
  "fmin_total a b =
     (if is_nan a \<or> is_nan b then 0x7fc00000
      else if f_eq a b then (if a AND 0x80000000 \<noteq> 0 then a else b)
      else if f_less a b then a else b)"

section \<open>Reductions\<close>

definition reduce_f32 :: "float_ops \<Rightarrow> nat \<Rightarrow> u32 \<Rightarrow> u32 \<Rightarrow> u32" where
  "reduce_f32 ops reduce cur upd =
     (if reduce = 1 then f_add ops cur upd else if reduce = 2 then f_mul ops cur upd
      else if reduce = 3 then fmax_total cur upd else fmin_total cur upd)"

text \<open>\<open>reduce_int\<close> at a width of \<open>w\<close> bits, signed or not; an element is the word of its bits.\<close>

definition int_of :: "bool \<Rightarrow> nat \<Rightarrow> u32 \<Rightarrow> int" where
  "int_of is_signed w x = (if is_signed then signed_take_bit (w - 1) (uint x) else take_bit w (uint x))"

definition reduce_int :: "bool \<Rightarrow> nat \<Rightarrow> nat \<Rightarrow> u32 \<Rightarrow> u32 \<Rightarrow> u32" where
  "reduce_int is_signed w reduce cur upd =
     (if reduce = 1 then take_bit w (cur + upd) else if reduce = 2 then take_bit w (cur * upd)
      else if reduce = 3 then (if int_of is_signed w upd < int_of is_signed w cur then cur else upd)
      else (if int_of is_signed w cur < int_of is_signed w upd then cur else upd))"

text \<open>The element kinds, their sizes, and one element of \<open>reduce_rows\<close>.\<close>

definition kind_bytes :: "nat \<Rightarrow> nat" where
  "kind_bytes kind = (if kind \<in> {1, 4, 5} then 4 else if kind \<in> {2, 3, 6, 7} then 2 else 1)"

definition reduce_element :: "float_ops \<Rightarrow> nat \<Rightarrow> nat \<Rightarrow> u32 \<Rightarrow> u32 \<Rightarrow> u32" where
  "reduce_element ops kind reduce cur upd =
     (if kind = 1 then reduce_f32 ops reduce cur upd
      else if kind = 2 then ucast (f32_to_bf16 (reduce_f32 ops reduce (bf16_to_f32 (ucast cur)) (bf16_to_f32 (ucast upd))))
      else if kind = 3 then ucast (f32_to_f16 (reduce_f32 ops reduce (f16_to_f32 (ucast cur)) (f16_to_f32 (ucast upd))))
      else if kind = 4 then reduce_int True 32 reduce cur upd
      else if kind = 5 then reduce_int False 32 reduce cur upd
      else if kind = 6 then reduce_int True 16 reduce cur upd
      else if kind = 7 then reduce_int False 16 reduce cur upd
      else if kind = 8 then reduce_int True 8 reduce cur upd
      else reduce_int False 8 reduce cur upd)"

text \<open>An element in memory, least significant byte first.\<close>

definition load_elem :: "nat \<Rightarrow> l1 \<Rightarrow> nat \<Rightarrow> u32" where
  "load_elem n p a = foldr (\<lambda>i w. ucast (p (a + i)) OR push_bit 8 w) [0..<n] 0"

definition store_elem :: "nat \<Rightarrow> u32 \<Rightarrow> l1 \<Rightarrow> nat \<Rightarrow> l1" where
  "store_elem n w p a = (\<lambda>b. if a \<le> b \<and> b < a + n then ucast (drop_bit (8 * (b - a)) w) else p b)"

definition reduce_rows :: "float_ops \<Rightarrow> nat \<Rightarrow> nat \<Rightarrow> l1 \<Rightarrow> nat \<Rightarrow> nat \<Rightarrow> nat \<Rightarrow> l1 \<Rightarrow> l1" where
  "reduce_rows ops kind reduce upd cur_addr upd_addr num cur =
     (let n = kind_bytes kind in
      if kind = 0 then cur
      else foldl (\<lambda>cur i. store_elem n (reduce_element ops kind reduce (load_elem n cur (cur_addr + n * i))
             (load_elem n upd (upd_addr + n * i))) cur (cur_addr + n * i)) cur [0..<num])"

lemma kind_bytes_pos: "0 < kind_bytes kind"
  by (simp add: kind_bytes_def)

lemma load_elem_cong: "(\<And>i. i < n \<Longrightarrow> p (a + i) = q (b + i)) \<Longrightarrow> load_elem n p a = load_elem n q b"
  unfolding load_elem_def by (rule foldr_cong) auto

text \<open>The loop updates each element once, from its own old value.\<close>

lemma reduce_rows_at:
  assumes "kind \<noteq> 0"
  shows "reduce_rows ops kind reduce upd cur_addr upd_addr num cur b =
    (let n = kind_bytes kind; e = (b - cur_addr) div n in
     if cur_addr \<le> b \<and> b < cur_addr + n * num
     then ucast (drop_bit (8 * ((b - cur_addr) mod n)) (reduce_element ops kind reduce (load_elem n cur (cur_addr + n * e))
            (load_elem n upd (upd_addr + n * e))))
     else cur b)"
proof -
  define n where "n = kind_bytes kind"
  have n: "0 < n" by (simp add: n_def kind_bytes_pos)
  define f where "f = (\<lambda>cur i. store_elem n (reduce_element ops kind reduce (load_elem n cur (cur_addr + n * i))
             (load_elem n upd (upd_addr + n * i))) cur (cur_addr + n * i))"
  define new where "new = (\<lambda>e. reduce_element ops kind reduce (load_elem n cur (cur_addr + n * e)) (load_elem n upd (upd_addr + n * e)))"
  have "foldl f cur [0..<num] b = (if cur_addr \<le> b \<and> b < cur_addr + n * num
      then ucast (drop_bit (8 * ((b - cur_addr) mod n)) (new ((b - cur_addr) div n))) else cur b)" for b
  proof (induction num arbitrary: b)
    case (Suc k)
    have "load_elem n (foldl f cur [0..<k]) (cur_addr + n * k) = load_elem n cur (cur_addr + n * k)"
      by (rule load_elem_cong) (simp add: Suc.IH)
    then have last: "foldl f cur [0..<Suc k] b = store_elem n (new k) (foldl f cur [0..<k]) (cur_addr + n * k) b"
      by (simp add: f_def new_def)
    show ?case
    proof (cases "cur_addr + n * k \<le> b \<and> b < cur_addr + n * k + n")
      case True
      then obtain x where x: "b = cur_addr + (n * k + x)" "x < n"
        by (metis add.assoc le_add_diff_inverse nat_add_left_cancel_less)
      then have "(b - cur_addr) div n = k" "(b - cur_addr) mod n = x" by simp_all
      with True show ?thesis unfolding last by (simp add: store_elem_def x(1))
    next
      case False
      then show ?thesis unfolding last store_elem_def by (auto simp: Suc.IH)
    qed
  qed auto
  then show ?thesis using assms by (simp add: reduce_rows_def n_def f_def new_def Let_def)
qed

section \<open>bfloat16\<close>

lemma f32_exponent: "unat (u AND 0x7f800000 :: u32) = unat u div 2 ^ 23 mod 2 ^ 8 * 2 ^ 23"
proof -
  have mask: "(0x7f800000 :: u32) = push_bit 23 (mask 8)" by (simp add: mask_eq_exp_minus_1 push_bit_eq_mult)
  have "u AND 0x7f800000 = push_bit 23 (take_bit 8 (drop_bit 23 u))"
    unfolding mask by (rule bit_word_eqI) (auto simp: bit_simps)
  moreover have "unat (take_bit 8 (drop_bit 23 u)) = unat u div 2 ^ 23 mod 2 ^ 8"
    by (simp only: unsigned_take_bit_eq unat_shift) (simp add: take_bit_eq_mod)
  ultimately show ?thesis
    by (simp only: unsigned_push_bit_eq) (simp add: push_bit_eq_mult take_bit_eq_mod)
qed

lemma f32_mantissa: "unat (u AND 0x007fffff :: u32) = unat u mod 2 ^ 23"
proof -
  have "(0x007fffff :: u32) = mask 23" by (simp add: mask_eq_exp_minus_1)
  then have "u AND 0x007fffff = take_bit 23 u" by (simp only: take_bit_eq_mask)
  then show ?thesis by (simp only: unsigned_take_bit_eq) (simp add: take_bit_eq_mod)
qed

lemma f_nan_unat: "f_nan u \<longleftrightarrow> unat u div 2 ^ 23 mod 2 ^ 8 = 255 \<and> unat u mod 2 ^ 23 \<noteq> 0"
proof -
  have "u AND 0x7f800000 = 0x7f800000 \<longleftrightarrow> unat (u AND 0x7f800000) = 255 * 2 ^ 23"
    by (simp only: word_unat_eq_iff) simp
  moreover have "u AND 0x007fffff \<noteq> 0 \<longleftrightarrow> unat (u AND 0x007fffff) \<noteq> 0" by (simp only: unat_eq_zero)
  ultimately show ?thesis unfolding f_nan_def f32_exponent f32_mantissa by simp
qed

lemma f32_to_bf16_unat:
  assumes "\<not> f_nan u"
  shows "unat (f32_to_bf16 u) = (unat u + 32767 + unat u div 65536 mod 2) div 65536"
proof -
  let ?U = "unat u"
  have U: "?U \<le> 0xff800000"
  proof (rule ccontr)
    assume "\<not> ?U \<le> 0xff800000"
    then have "\<exists>m > 0. 0xff800000 + m = ?U" by (intro less_imp_add_positive) (simp only: not_le)
    then obtain m where m: "?U = 0xff800000 + m" "0 < m" by metis
    then have "m < 8388608" using unat_lt [of u] by linarith
    then have "(511 * 8388608 + m) div 8388608 = 511" "(511 * 8388608 + m) mod 8388608 = m"
      by (rule index_div, rule index_mod)
    then have "?U div 2 ^ 23 = 511" "?U mod 2 ^ 23 = m" by (simp_all add: m(1))
    then show False using assms m(2) by (simp add: f_nan_unat)
  qed
  have lsb: "unat (drop_bit 16 u AND 1) = ?U div 65536 mod 2"
    by (simp add: and_one_eq unat_mod unat_shift)
  have "?U div 65536 mod 2 < 2" by simp
  then have "unat (u + (0x7fff + (drop_bit 16 u AND 1))) = ?U + 32767 + ?U div 65536 mod 2"
    using U by (simp add: unat_word_ariths lsb mod_less)
  then have "unat (drop_bit 16 (u + (0x7fff + (drop_bit 16 u AND 1)))) = (?U + 32767 + ?U div 65536 mod 2) div 65536"
    by (simp add: unat_shift)
  moreover have "(?U + 32767 + ?U div 65536 mod 2) div 65536 < 65536"
    using U \<open>?U div 65536 mod 2 < 2\<close> by (simp add: less_mult_imp_div_less)
  ultimately show ?thesis
    using assms unfolding f32_to_bf16_def f_nan_def Let_def
    by (auto simp: unsigned_ucast_eq take_bit_eq_mod)
qed

lemma unat_bf16: "unat (bf16_to_f32 x) = 65536 * unat x"
proof -
  have "unat x < 65536" using unsigned_less [of x] by simp
  then show ?thesis by (simp add: bf16_to_f32_def unat_shift unsigned_ucast_eq take_bit_eq_mod)
qed

lemma f_nan_bits: "f_nan u \<longleftrightarrow> (\<forall>n. 23 \<le> n \<and> n < 31 \<longrightarrow> bit u n) \<and> (\<exists>n < 23. bit u n)"
proof -
  have masks: "(0x7f800000 :: u32) = push_bit 23 (mask 8)" "(0x007fffff :: u32) = mask 23"
    by (simp_all add: mask_eq_exp_minus_1 push_bit_eq_mult)
  have "u AND push_bit 23 (mask 8) = push_bit 23 (mask 8) \<longleftrightarrow> (\<forall>n. 23 \<le> n \<and> n < 31 \<longrightarrow> bit u n)"
  proof
    assume eq: "u AND push_bit 23 (mask 8) = push_bit 23 (mask 8)"
    show "\<forall>n. 23 \<le> n \<and> n < 31 \<longrightarrow> bit u n"
    proof (intro allI impI, elim conjE)
      fix n :: nat assume n: "23 \<le> n" "n < 31"
      then have "n - 23 < 8" "n < 32" by linarith+
      moreover have "bit (u AND push_bit 23 (mask 8)) n = bit (push_bit 23 (mask 8) :: u32) n" by (simp only: eq)
      ultimately show "bit u n" using n(1) unfolding bit_and_iff by (simp add: bit_push_bit_iff bit_mask_iff)
    qed
  qed (auto simp: bit_eq_iff bit_simps)
  moreover have "u AND mask 23 \<noteq> 0 \<longleftrightarrow> (\<exists>n < 23. bit u n)"
  proof
    assume "u AND mask 23 \<noteq> 0"
    then have "\<not> (\<forall>n. bit (u AND mask 23) n = bit (0 :: u32) n)" by (metis bit_eqI)
    then obtain n where "bit (u AND mask 23) n \<noteq> bit (0 :: u32) n" by blast
    then have "bit u n" "n < 23" by (simp_all add: bit_and_iff bit_mask_iff)
    then show "\<exists>n < 23. bit u n" by blast
  next
    assume "\<exists>n < 23. bit u n"
    then obtain n where "n < 23" "bit u n" by blast
    then have "bit (u AND mask 23) n" by (simp add: bit_and_iff bit_mask_iff)
    then show "u AND mask 23 \<noteq> 0" by (metis bit_0_eq bot_apply bot_bool_def)
  qed
  ultimately show ?thesis unfolding f_nan_def masks by simp
qed

text \<open>A not-a-number keeps its sign and the upper half of its mantissa, with the quiet bit set.\<close>

lemma f32_to_bf16_nan:
  assumes "f_nan u"
  shows "bit (f32_to_bf16 u) n \<longleftrightarrow> n < 16 \<and> (bit u (n + 16) \<or> n = 6)"
proof -
  have "f32_to_bf16 u = ucast (drop_bit 16 u OR 0x0040)"
    using assms by (simp add: f32_to_bf16_def f_nan_def)
  also have "drop_bit 16 u OR 0x0040 = set_bit 6 (drop_bit 16 u)"
    by (simp add: set_bit_eq_or push_bit_eq_mult)
  finally show ?thesis by (auto simp: bit_simps add.commute dest: bit_imp_le_length)
qed

lemma bit_bf16_to_f32: "bit (bf16_to_f32 x) n \<longleftrightarrow> 16 \<le> n \<and> bit x (n - 16)"
  by (auto simp: bf16_to_f32_def bit_simps dest: bit_imp_le_length)

lemma bf16_keeps_nan: "f_nan u \<Longrightarrow> f_nan (bf16_to_f32 (f32_to_bf16 u))"
proof -
  assume nan: "f_nan u"
  have bits: "bit (bf16_to_f32 (f32_to_bf16 u)) n \<longleftrightarrow> 16 \<le> n \<and> n < 32 \<and> (bit u n \<or> n = 22)" for n
    by (auto simp: bit_bf16_to_f32 f32_to_bf16_nan [OF nan])
  have "\<exists>n < 23. 16 \<le> n \<and> n < 32 \<and> (bit u n \<or> n = 22)" by (intro exI [of _ 22]) simp
  then show ?thesis using nan unfolding f_nan_bits bits by simp
qed

lemma f32_to_bf16_nearest:
  assumes "\<not> f_nan u"
  defines "r \<equiv> unat (f32_to_bf16 u)"
  shows "2 * \<bar>65536 * int r - int (unat u)\<bar> \<le> 65536" "2 * \<bar>65536 * int r - int (unat u)\<bar> = 65536 \<Longrightarrow> even r"
proof -
  define k m b where "k = unat u div 65536" and "m = unat u mod 65536" and "b = k mod 2"
  have U: "unat u = k * 65536 + m" and m: "m < 65536" and b: "b < 2" by (simp_all add: k_def m_def b_def)
  have "r = (unat u + 32767 + b) div 65536" using f32_to_bf16_unat [OF assms(1)] by (simp add: r_def k_def b_def)
  also have "\<dots> = (k * 65536 + (m + 32767 + b)) div 65536" by (simp add: U)
  also have "\<dots> = k + (m + 32767 + b) div 65536" by simp
  also have "(m + 32767 + b) div 65536 = (if m + b \<le> 32768 then 0 else 1)"
    using m b by (auto intro: div_nat_eqI)
  finally have r: "r = (if m + b \<le> 32768 then k else k + 1)" by simp
  have u: "int (unat u) = 65536 * int k + int m" by (simp add: U)
  show "2 * \<bar>65536 * int r - int (unat u)\<bar> \<le> 65536"
    unfolding u using m b by (simp add: r)
  assume tie: "2 * \<bar>65536 * int r - int (unat u)\<bar> = 65536"
  have "b = 0 \<longleftrightarrow> even k" by (simp add: b_def even_iff_mod_2_eq_zero)
  then show "even r" using tie m b unfolding u by (auto simp: r split: if_splits)
qed

lemma f32_to_bf16_back: "\<not> f_nan (bf16_to_f32 x) \<Longrightarrow> f32_to_bf16 (bf16_to_f32 x) = x"
proof -
  assume "\<not> f_nan (bf16_to_f32 x)"
  from f32_to_bf16_unat [OF this] have "unat (f32_to_bf16 (bf16_to_f32 x)) = (65536 * unat x + (32767 + unat x mod 2)) div 65536"
    by (simp add: unat_bf16)
  also have "\<dots> = unat x" by (simp add: div_add1_eq [of "65536 * unat x"])
  finally show ?thesis by (simp only: word_unat_eq_iff)
qed

lemma f32_to_bf16_back_nan: "f_nan (bf16_to_f32 x) \<Longrightarrow> f32_to_bf16 (bf16_to_f32 x) = x OR 0x0040"
proof -
  assume nan: "f_nan (bf16_to_f32 x)"
  have "x OR 0x0040 = set_bit 6 x" by (simp add: set_bit_eq_or push_bit_eq_mult)
  moreover have "f32_to_bf16 (bf16_to_f32 x) = set_bit 6 x"
    by (rule bit_eqI) (auto simp: f32_to_bf16_nan [OF nan] bit_bf16_to_f32 bit_simps dest: bit_imp_le_length)
  ultimately show ?thesis by simp
qed

text \<open>
  C39: Narrowing to bfloat16 rounds the bits of a \<open>float\<close> to nearest, ties to even, carrying into the
  exponent. A not-a-number stays one: its sign and the upper seven bits of its mantissa are kept and
  the quiet bit is set. Widening a bfloat16 and narrowing it again gives it back, except that a
  signalling not-a-number comes back quiet.
\<close>

theorem bf16_rounds:
  "(if f_nan u then f_nan (bf16_to_f32 (f32_to_bf16 u)) \<and> (\<forall>n. bit (f32_to_bf16 u) n = (n < 16 \<and> (bit u (n + 16) \<or> n = 6)))
    else let r = unat (f32_to_bf16 u); d = 2 * \<bar>65536 * int r - int (unat u)\<bar> in d < 65536 \<or> d = 65536 \<and> even r) \<and>
   f32_to_bf16 (bf16_to_f32 x) = (if f_nan (bf16_to_f32 x) then x OR 0x0040 else x)"
  using bf16_keeps_nan f32_to_bf16_nan f32_to_bf16_nearest [of u] f32_to_bf16_back [of x] f32_to_bf16_back_nan [of x]
  by (auto simp: Let_def order_le_less)

theorem bf16_rounds_witness:
  "f32_to_bf16 (bf16_to_f32 0x7f81) = 0x7fc1 \<and> f32_to_bf16 (bf16_to_f32 0x3f81) = 0x3f81"
  using bf16_rounds [of 0 "0x7f81"] bf16_rounds [of 0 "0x3f81"] by (simp add: f_nan_def bf16_to_f32_def)

end
