(* ===== verification/RowsScatter.thy ===== *)
theory RowsScatter
  imports RowsGatherProgram ElementReduce
begin

text \<open>
  The kernels of rows_scatter: \<open>rows_scatter_reader.cpp\<close> streams a core's pages of the table into
  the rows buffer; \<open>rows_scatter_writer.cpp\<close> takes them in batches, streams the index tensor
  (and, with a column component, the source) for each batch, applies the updates that land in
  the batch to its copy in L1 and writes the batch out. The writer's store is its L1 memory and
  the writes it has issued; where the buffers lie in L1 is a parameter.
\<close>

section \<open>Arguments\<close>

record scatter_args =
  sc_rows :: rows_args
  sc_batch :: nat
  sc_elem_kind :: nat
  sc_reduce :: nat
  sc_entry :: nat

definition scatter_kernel_args :: "(string \<times> nat) list \<Rightarrow> nat list \<Rightarrow> nat list \<Rightarrow> nat list \<Rightarrow> nat \<Rightarrow> scatter_args" where
  "scatter_kernel_args args sizes windows strides entry =
     \<lparr>sc_rows = rows_kernel_args args sizes windows strides, sc_batch = get_arg args ''batch'',
      sc_elem_kind = get_arg args ''elem_kind'', sc_reduce = get_arg args ''reduce'', sc_entry = entry\<rparr>"

definition page_chunks :: "rows_args \<Rightarrow> nat" where
  "page_chunks a = w32 (ra_page_bytes a + ra_chunk_bytes a - 1) div ra_chunk_bytes a"

definition source_bytes :: "rows_args \<Rightarrow> nat" where
  "source_bytes a = (if ra_column a then w32 (ra_W a * column_bytes a) else 0)"

datatype scatter_dfb = RowsBuf | IndexBuf | StreamBuf | ScratchBuf

record scatter_store =
  st_mem :: l1
  st_puts :: "put list"

type_synonym scatter_instr = "(scatter_dfb, rows_entry, scatter_store) dfb_instr"

text \<open>Chunk \<open>q\<close> of a core, in page order: its page, its offset in the page and its length.\<close>

definition chunk_page :: "rows_args \<Rightarrow> nat \<Rightarrow> nat \<Rightarrow> nat" where
  "chunk_page a first q = w32 (first + q div page_chunks a)"

definition chunk_offset :: "rows_args \<Rightarrow> nat \<Rightarrow> nat" where
  "chunk_offset a q = w32 (q mod page_chunks a * ra_chunk_bytes a)"

definition chunk_length :: "rows_args \<Rightarrow> nat \<Rightarrow> nat" where
  "chunk_length a offset = (if ra_page_bytes a - offset < ra_chunk_bytes a then ra_page_bytes a - offset else ra_chunk_bytes a)"

section \<open>The reader\<close>

definition scatter_read :: "rows_args \<Rightarrow> pages \<Rightarrow> nat \<Rightarrow> (nat \<Rightarrow> l1) \<Rightarrow> nat \<Rightarrow> rows_entry" where
  "scatter_read a table first old q =
     Bytes (place 0 (map (\<lambda>i. table (chunk_page a first q) (chunk_offset a q + i)) [0..<chunk_length a (chunk_offset a q)]) (old q))"

function scatter_reader_loop :: "rows_args \<Rightarrow> pages \<Rightarrow> nat \<Rightarrow> (nat \<Rightarrow> l1) \<Rightarrow> nat \<Rightarrow> nat \<Rightarrow> scatter_instr list" where
  "scatter_reader_loop a table first old amount q =
     (if q < amount \<and> 0 < ra_group a then
        let count = (if amount - q < ra_group a then amount - q else ra_group a)
        in (Reserve RowsBuf count # fills RowsBuf 0 (map (scatter_read a table first old) [q..<q + count]) @ [Push RowsBuf count]) @
           scatter_reader_loop a table first old amount (q + count)
      else [])"
  by pat_completeness auto
termination by (relation "measure (\<lambda>(a, table, first, old, amount, q). amount - q)") auto

declare scatter_reader_loop.simps [simp del]

definition scatter_reader_main :: "rows_args \<Rightarrow> pages \<Rightarrow> (nat \<Rightarrow> l1) \<Rightarrow> nat \<Rightarrow> nat \<Rightarrow> scatter_instr list" where
  "scatter_reader_main a table old first num = scatter_reader_loop a table first old (w32 (num * page_chunks a)) 0"

section \<open>The writer\<close>

text \<open>Where the buffers lie in L1, and a batch: the core's pages, its first chunk and its chunks.\<close>

record scatter_ctx =
  cx_args :: scatter_args
  cx_ops :: float_ops
  cx_rows :: nat
  cx_stream :: nat
  cx_scratch :: nat
  cx_first :: nat
  cx_num :: nat
  cx_q0 :: nat
  cx_count :: nat

definition in_batch :: "scatter_ctx \<Rightarrow> nat \<Rightarrow> nat \<Rightarrow> nat option" where
  "in_batch x page offset =
     (let a = sc_rows (cx_args x); q = w32 (w32 (page + (2 ^ 32 - cx_first x)) * page_chunks a + offset div ra_chunk_bytes a) in
      if page < cx_first x \<or> w32 (cx_first x + cx_num x) \<le> page \<or> q < cx_q0 x \<or> w32 (cx_q0 x + cx_count x) \<le> q then None
      else Some (cx_rows x + (q - cx_q0 x) * sc_entry (cx_args x) + offset mod ra_chunk_bytes a))"

definition apply_update :: "scatter_ctx \<Rightarrow> nat \<Rightarrow> nat \<Rightarrow> nat \<Rightarrow> l1 \<Rightarrow> l1" where
  "apply_update x dst src bytes mem =
     (let s = cx_args x in
      if sc_reduce s \<noteq> 0
      then reduce_rows (cx_ops x) (sc_elem_kind s) (sc_reduce s) mem dst src (bytes div ra_elem_bytes (sc_rows s)) mem
      else copy_l1 dst src bytes mem)"

text \<open>A column window, chunk by chunk: each chunk takes its part.\<close>

function column_parts :: "scatter_ctx \<Rightarrow> nat \<Rightarrow> nat \<Rightarrow> nat \<Rightarrow> nat \<Rightarrow> l1 \<Rightarrow> l1" where
  "column_parts x row offset src left mem =
     (let chunk = ra_chunk_bytes (sc_rows (cx_args x)) in
      if 0 < left \<and> 0 < chunk then
        let room = chunk - offset mod chunk; bytes = (if left < room then left else room) in
        column_parts x row (offset + bytes) (src + bytes) (left - bytes)
          (case in_batch x row offset of None \<Rightarrow> mem | Some dst \<Rightarrow> apply_update x dst src bytes mem)
      else mem)"
  by pat_completeness auto
termination by (relation "measure (\<lambda>(x, row, offset, src, left, mem). left)") (auto simp: Let_def)

declare column_parts.simps [simp del]

text \<open>One page of a row, chunk by chunk, from page \<open>src_page\<close> of the source.\<close>

definition page_chunk_update :: "scatter_ctx \<Rightarrow> pages \<Rightarrow> nat \<Rightarrow> nat \<Rightarrow> l1 \<Rightarrow> nat \<Rightarrow> l1" where
  "page_chunk_update x src src_page page mem offset =
     (case in_batch x page offset of None \<Rightarrow> mem | Some dst \<Rightarrow>
        let bytes = chunk_length (sc_rows (cx_args x)) offset; data = map (\<lambda>i. src src_page (offset + i)) [0..<bytes] in
        if sc_reduce (cx_args x) = 0 then place dst data mem
        else apply_update x dst (cx_scratch x) bytes (place (cx_scratch x) data mem))"

definition page_update :: "scatter_ctx \<Rightarrow> pages \<Rightarrow> nat \<Rightarrow> nat \<Rightarrow> l1 \<Rightarrow> l1" where
  "page_update x src src_page page mem =
     (let a = sc_rows (cx_args x) in
      foldl (page_chunk_update x src src_page page) mem
        (map (\<lambda>c. c * ra_chunk_bytes a) [0..<div_up (ra_page_bytes a) (ra_chunk_bytes a)]))"

definition batch_page_lo :: "scatter_ctx \<Rightarrow> nat" where
  "batch_page_lo x = w32 (cx_first x + cx_q0 x div page_chunks (sc_rows (cx_args x)))"

definition batch_page_hi :: "scatter_ctx \<Rightarrow> nat" where
  "batch_page_hi x = (let C = page_chunks (sc_rows (cx_args x)) in
     w32 (cx_first x + w32 (cx_q0 x + cx_count x + C - 1) div C))"

definition row_update :: "scatter_ctx \<Rightarrow> pages \<Rightarrow> nat \<Rightarrow> nat \<Rightarrow> l1 \<Rightarrow> l1" where
  "row_update x src src_row row mem =
     (let S = ra_S (sc_rows (cx_args x)); lo = max (batch_page_lo x) (w32 (row * S)); hi = min (batch_page_hi x) (w32 ((row + 1) * S)) in
      foldl (\<lambda>mem page. page_update x src (w32 (src_row * S + (page - w32 (row * S)))) page mem) mem [lo..<hi])"

text \<open>The window offsets of one position; \<open>source_l1\<close> is where the streamed source lies.\<close>

definition window_update :: "scatter_ctx \<Rightarrow> pages \<Rightarrow> nat \<Rightarrow> nat \<Rightarrow> nat \<Rightarrow> nat \<Rightarrow> coords \<Rightarrow> l1 \<Rightarrow> nat \<Rightarrow> l1" where
  "window_update x src source_l1 b m i c mem j =
     (let a = sc_rows (cx_args x); row = w32 (b * ra_N a + window_row (ra_KR a) c j (ra_windows a) (ra_strides a)) in
      if ra_column a then
        column_parts x row (w32 (coord32 (co_c c ! (ra_K a - 1)) * ra_elem_bytes a))
          (source_l1 + (i * ra_W a + j) * column_bytes a) (column_bytes a) mem
      else row_update x src ((b * ra_M a + m) * ra_W a + j) row mem)"

definition skip_row :: "scatter_ctx \<Rightarrow> nat \<Rightarrow> (nat \<Rightarrow> u32) \<Rightarrow> bool" where
  "skip_row x b ptr =
     (let a = sc_rows (cx_args x);
          c = decode (ra_KR a) (ra_unsigned a) ptr (ra_index_stride a) (ra_sizes a) (ra_windows a);
          row = w32 (b * ra_N a + window_row (ra_KR a) c 0 (ra_windows a) (ra_strides a))
      in ra_column a \<and> ra_W a = 1 \<and> (co_out_of_bounds c \<or> cx_num x \<le> w32 (row + (2 ^ 32 - cx_first x))))"

definition position_update :: "scatter_ctx \<Rightarrow> pages \<Rightarrow> nat \<Rightarrow> nat \<Rightarrow> nat \<Rightarrow> (nat \<Rightarrow> u32) \<Rightarrow> l1 \<Rightarrow> nat \<Rightarrow> l1" where
  "position_update x src source_l1 b m0 words mem i =
     (let a = sc_rows (cx_args x); ptr = (\<lambda>k. words (i + k)) in
      if skip_row x b ptr then mem
      else let c = decode (ra_K a) (ra_unsigned a) ptr (ra_index_stride a) (ra_sizes a) (ra_windows a) in
        if co_out_of_bounds c then mem
        else foldl (window_update x src source_l1 b (m0 + i) i c) mem [0..<ra_W a])"

text \<open>A chunk of positions: its index words and source stream in, its positions apply in order.\<close>

definition positions_at :: "rows_args \<Rightarrow> nat \<Rightarrow> nat" where
  "positions_at a m0 = (if ra_M a - m0 < ra_index_batch a then ra_M a - m0 else ra_index_batch a)"

definition stream_chunk :: "nat \<Rightarrow> pages \<Rightarrow> nat \<Rightarrow> nat \<Rightarrow> nat \<Rightarrow> l1 \<Rightarrow> l1 \<times> nat" where
  "stream_chunk base src page offset bytes mem =
     (let addr = base + offset mod kGranule in (place addr (map (\<lambda>i. src page (offset + i)) [0..<bytes]) mem, addr))"

definition load_source :: "scatter_ctx \<Rightarrow> pages \<Rightarrow> nat \<Rightarrow> nat \<Rightarrow> l1 \<Rightarrow> l1 \<times> nat" where
  "load_source x src b m0 mem =
     (let a = sc_rows (cx_args x) in
      if ra_column a
      then stream_chunk (cx_stream x) src b (w32 (m0 * source_bytes a)) (w32 (positions_at a m0 * source_bytes a)) mem
      else (mem, 0))"

definition chunk_update :: "scatter_ctx \<Rightarrow> rows_dram \<Rightarrow> pages \<Rightarrow> (nat \<Rightarrow> u32) \<Rightarrow> nat \<Rightarrow> nat \<Rightarrow> l1 \<Rightarrow> l1" where
  "chunk_update x d src junk b m0 mem =
     (let a = sc_rows (cx_args x); n = positions_at a m0;
          (chunk, base) = stream_index (dr_indices d) (ra_K a) (ra_index_stride a) (if ra_shared a then 0 else b) m0 n junk;
          (mem, source_l1) = load_source x src b m0 mem
      in foldl (position_update x src source_l1 b m0 (\<lambda>k. chunk (base + k))) mem [0..<n])"

definition chunk_words :: "scatter_ctx \<Rightarrow> rows_dram \<Rightarrow> (nat \<Rightarrow> u32) \<Rightarrow> nat \<Rightarrow> nat \<Rightarrow> nat \<Rightarrow> u32" where
  "chunk_words x d junk b m0 =
     (let a = sc_rows (cx_args x)
      in fst (stream_index (dr_indices d) (ra_K a) (ra_index_stride a) (if ra_shared a then 0 else b) m0 (positions_at a m0) junk))"

definition chunk_instrs :: "scatter_ctx \<Rightarrow> rows_dram \<Rightarrow> pages \<Rightarrow> (nat \<Rightarrow> u32) \<Rightarrow> nat \<times> nat \<Rightarrow> scatter_instr list" where
  "chunk_instrs x d src junk bm =
     (case bm of (b, m0) \<Rightarrow>
        let column = ra_column (sc_rows (cx_args x)) in
        [Reserve IndexBuf 1, Fill IndexBuf 0 (\<lambda>_. Words (chunk_words x d junk b m0)), Push IndexBuf 1] @
        (if column then [Reserve StreamBuf 1,
           Fill StreamBuf 0 (\<lambda>st. Bytes (\<lambda>i. fst (load_source x src b m0 (st_mem st)) (cx_stream x + i))), Push StreamBuf 1] else []) @
        [Do (\<lambda>st. st\<lparr>st_mem := chunk_update x d src junk b m0 (st_mem st)\<rparr>)] @
        (if column then [Pop StreamBuf 1] else []) @ [Pop IndexBuf 1])"

definition batch_positions :: "scatter_ctx \<Rightarrow> (nat \<times> nat) list" where
  "batch_positions x =
     (let a = sc_rows (cx_args x); NS = w32 (ra_N a * ra_S a); b_lo = cx_first x div NS;
          b_hi = (if cx_num x = 0 then 0 else w32 (cx_first x + cx_num x - 1) div NS)
      in concat (map (\<lambda>b. map (\<lambda>t. (b, t * ra_index_batch a)) [0..<div_up (ra_M a) (ra_index_batch a)]) [b_lo..<b_hi + 1]))"

text \<open>The entries of the batch as the writer sees them in L1, and the writes of the batch.\<close>

definition load_entry :: "scatter_ctx \<Rightarrow> nat \<Rightarrow> rows_entry \<Rightarrow> scatter_store \<Rightarrow> scatter_store" where
  "load_entry x k v st =
     (let at = cx_rows x + k * sc_entry (cx_args x) in
      st\<lparr>st_mem := (\<lambda>y. if at \<le> y \<and> y < at + sc_entry (cx_args x)
           then (case v of Bytes p \<Rightarrow> p (y - at) | Words _ \<Rightarrow> 0) else st_mem st y)\<rparr>)"

definition batch_put :: "scatter_ctx \<Rightarrow> l1 \<Rightarrow> nat \<Rightarrow> put" where
  "batch_put x mem k =
     (let a = sc_rows (cx_args x); q = cx_q0 x + k; offset = chunk_offset a q in
      (chunk_page a (cx_first x) q, offset,
       map (\<lambda>i. mem (cx_rows x + k * sc_entry (cx_args x) + i)) [0..<chunk_length a offset]))"

definition batch_instrs :: "scatter_ctx \<Rightarrow> rows_dram \<Rightarrow> pages \<Rightarrow> (nat \<Rightarrow> u32) \<Rightarrow> scatter_instr list" where
  "batch_instrs x d src junk =
     Await RowsBuf (cx_count x) # takes RowsBuf 0 (map (load_entry x) [0..<cx_count x]) @
     concat (map (chunk_instrs x d src junk) (batch_positions x)) @
     [Do (\<lambda>st. st\<lparr>st_puts := st_puts st @ map (batch_put x (st_mem st)) [0..<cx_count x]\<rparr>), Pop RowsBuf (cx_count x)]"

function scatter_writer_loop :: "scatter_ctx \<Rightarrow> rows_dram \<Rightarrow> pages \<Rightarrow> (nat \<Rightarrow> u32) \<Rightarrow> nat \<Rightarrow> nat \<Rightarrow> scatter_instr list" where
  "scatter_writer_loop x d src junk amount q0 =
     (if q0 < amount \<and> 0 < sc_batch (cx_args x) then
        let count = (if amount - q0 < sc_batch (cx_args x) then amount - q0 else sc_batch (cx_args x))
        in batch_instrs (x\<lparr>cx_q0 := q0, cx_count := count\<rparr>) d src junk @
           scatter_writer_loop x d src junk amount (q0 + sc_batch (cx_args x))
      else [])"
  by pat_completeness auto
termination by (relation "measure (\<lambda>(x, d, src, junk, amount, q0). amount - q0)") auto

declare scatter_writer_loop.simps [simp del]

definition scatter_writer_main :: "scatter_ctx \<Rightarrow> rows_dram \<Rightarrow> pages \<Rightarrow> (nat \<Rightarrow> u32) \<Rightarrow> scatter_instr list" where
  "scatter_writer_main x d src junk =
     Reserve ScratchBuf 1 # scatter_writer_loop x d src junk (w32 (cx_num x * page_chunks (sc_rows (cx_args x)))) 0"

definition scatter_progs ::
  "scatter_ctx \<Rightarrow> rows_dram \<Rightarrow> pages \<Rightarrow> (nat \<Rightarrow> l1) \<Rightarrow> (nat \<Rightarrow> u32) \<Rightarrow> nat \<Rightarrow> scatter_instr list" where
  "scatter_progs x d src old junk k =
     (if k = 0 then scatter_reader_main (sc_rows (cx_args x)) (dr_table d) old (cx_first x) (cx_num x)
      else if k = 1 then scatter_writer_main x d src junk else [])"

definition scatter_ring_size :: "scatter_args \<Rightarrow> scatter_dfb \<Rightarrow> nat" where
  "scatter_ring_size s e = (case e of RowsBuf \<Rightarrow> sc_batch s | _ \<Rightarrow> 1)"

end
