(* ===== verification/RowsScatterApply.thy ===== *)
theory RowsScatterApply
  imports RowsScatter
begin

text \<open>
  What an update of rows_scatter does to the batch in L1: a window of bytes of one page is
  overwritten or reduced, part by part, wherever its chunks lie in the batch.
\<close>

section \<open>Windows of a page\<close>

text \<open>
  A window \<open>[off, off + len)\<close> of a page, overwritten with \<open>s\<close>, or reduced with it element by
  element; the elements are those of the window.
\<close>

definition splice :: "float_ops \<Rightarrow> nat \<Rightarrow> nat \<Rightarrow> nat \<Rightarrow> nat \<Rightarrow> l1 \<Rightarrow> l1 \<Rightarrow> l1" where
  "splice ops kind reduce off len s cur =
     (\<lambda>i. if off \<le> i \<and> i < off + len then
        if reduce = 0 then s (i - off)
        else let n = kind_bytes kind; e = (i - off) div n in
          ucast (drop_bit (8 * ((i - off) mod n))
            (reduce_element ops kind reduce (load_elem n cur (off + n * e)) (load_elem n s (n * e))))
      else cur i)"

lemma splice_outside: "\<not> (off \<le> i \<and> i < off + len) \<Longrightarrow> splice ops kind reduce off len s cur i = cur i"
  by (simp only: splice_def if_False)

lemma element_inside:
  fixes n :: nat
  assumes "n dvd len" "x < len" "j < n"
  shows "n * (x div n) + j < len"
proof -
  obtain m where m: "len = n * m" using assms(1) by (elim dvdE)
  then have "x div n < m" using assms(2) by (simp add: less_mult_imp_div_less mult.commute)
  from index_less_product [OF this assms(3)] show ?thesis by (simp add: m mult.commute)
qed

lemma splice_cong:
  assumes "reduce \<noteq> 0 \<Longrightarrow> kind_bytes kind dvd len" "off \<le> i" "i < off + len"
    and "\<And>k. k < len \<Longrightarrow> cur (off + k) = cur' (off + k)" "\<And>k. k < len \<Longrightarrow> s k = s' k"
  shows "splice ops kind reduce off len s cur i = splice ops kind reduce off len s' cur' i"
proof (cases "reduce = 0")
  case True
  then show ?thesis using assms(2,3) assms(5) [of "i - off"] by (simp add: splice_def)
next
  case False
  let ?n = "kind_bytes kind" and ?e = "(i - off) div kind_bytes kind"
  have inside: "?n * ?e + j < len" if "j < ?n" for j
    by (rule element_inside [OF assms(1) [OF False] _ that]) (use assms(2,3) in simp)
  have "load_elem ?n cur (off + ?n * ?e) = load_elem ?n cur' (off + ?n * ?e)"
    by (rule load_elem_cong) (use assms(4) inside in \<open>simp add: add.assoc\<close>)
  moreover have "load_elem ?n s (?n * ?e) = load_elem ?n s' (?n * ?e)"
    by (rule load_elem_cong) (use assms(5) inside in simp)
  ultimately show ?thesis using assms(2,3) False by (simp add: splice_def Let_def)
qed

text \<open>A part of the window, at an element boundary, is the window there.\<close>

lemma splice_part:
  assumes "reduce \<noteq> 0 \<Longrightarrow> kind_bytes kind dvd d" "d + l \<le> len" "off + d \<le> i" "i < off + d + l"
  shows "splice ops kind reduce (off + d) l (\<lambda>k. s (d + k)) cur i = splice ops kind reduce off len s cur i"
proof (cases "reduce = 0")
  case True
  then show ?thesis using assms(2-4) by (simp add: splice_def)
next
  case False
  let ?n = "kind_bytes kind"
  have n: "0 < ?n" by (rule kind_bytes_pos)
  obtain m where m: "d = ?n * m" using assms(1) [OF False] by (elim dvdE)
  define y where "y = i - (off + d)"
  have "i = off + d + y" using assms(3) by (simp add: y_def)
  then have y: "i - (off + d) = y" "i - off = ?n * m + y" by (simp_all add: m)
  have e: "(i - off) div ?n = m + y div ?n" "(i - off) mod ?n = y mod ?n" using n by (simp_all add: y)
  have "load_elem ?n cur (off + d + ?n * (y div ?n)) = load_elem ?n cur (off + ?n * (m + y div ?n))"
    by (simp add: m distrib_left add.assoc)
  moreover have "load_elem ?n (\<lambda>k. s (d + k)) (?n * (y div ?n)) = load_elem ?n s (?n * (m + y div ?n))"
    by (rule load_elem_cong) (simp add: m distrib_left add.assoc)
  ultimately show ?thesis using assms(2-4) False by (simp add: splice_def Let_def e y(1))
qed

section \<open>The batch in L1\<close>

definition elements_ok :: "scatter_args \<Rightarrow> bool" where
  "elements_ok s \<longleftrightarrow> (sc_reduce s \<noteq> 0 \<longrightarrow> sc_elem_kind s \<noteq> 0 \<and> kind_bytes (sc_elem_kind s) = ra_elem_bytes (sc_rows s) \<and>
     ra_elem_bytes (sc_rows s) dvd ra_page_bytes (sc_rows s) \<and> ra_elem_bytes (sc_rows s) dvd ra_chunk_bytes (sc_rows s))"

definition whole_elements :: "scatter_args \<Rightarrow> nat \<Rightarrow> bool" where
  "whole_elements s n \<longleftrightarrow> (sc_reduce s \<noteq> 0 \<longrightarrow> kind_bytes (sc_elem_kind s) dvd n)"

text \<open>A region of L1 that does not meet the batch.\<close>

definition clear_of_batch :: "scatter_ctx \<Rightarrow> nat \<Rightarrow> nat \<Rightarrow> bool" where
  "clear_of_batch x at len \<longleftrightarrow> at + len \<le> cx_rows x \<or> cx_rows x + cx_count x * sc_entry (cx_args x) \<le> at"

definition ctx_ok :: "scatter_ctx \<Rightarrow> nat \<Rightarrow> bool" where
  "ctx_ok x B \<longleftrightarrow> (let s = cx_args x; a = sc_rows s in
     rows_shape_ok a B \<and> ra_chunk_bytes a \<le> sc_entry s \<and> cx_first x + cx_num x \<le> B * ra_N a * ra_S a \<and>
     B * ra_N a * ra_S a < 2 ^ 32 \<and> cx_num x * page_chunks a + page_chunks a \<le> 2 ^ 32 \<and>
     cx_q0 x + cx_count x \<le> cx_num x * page_chunks a \<and> 0 < cx_count x \<and> elements_ok s \<and>
     clear_of_batch x (cx_scratch x) (ra_chunk_bytes a))"

lemma ctx_facts:
  assumes "ctx_ok x B"
  defines "a \<equiv> sc_rows (cx_args x)"
  shows "rows_shape_ok a B" "ra_chunk_bytes a \<le> sc_entry (cx_args x)" "cx_first x + cx_num x \<le> B * ra_N a * ra_S a"
    and "B * ra_N a * ra_S a < 4294967296" "cx_num x * page_chunks a + page_chunks a \<le> 4294967296"
    and "cx_q0 x + cx_count x \<le> cx_num x * page_chunks a" "0 < cx_count x" "elements_ok (cx_args x)"
    and "page_chunks a = div_up (ra_page_bytes a) (ra_chunk_bytes a)" "0 < ra_chunk_bytes a" "0 < page_chunks a"
    and "c < page_chunks a \<longleftrightarrow> c * ra_chunk_bytes a < ra_page_bytes a" "ra_page_bytes a < 4294967296"
    and "clear_of_batch x (cx_scratch x) (ra_chunk_bytes a)"
proof -
  note ok = assms(1) [unfolded ctx_ok_def Let_def, folded a_def]
  show shape: "rows_shape_ok a B" and "ra_chunk_bytes a \<le> sc_entry (cx_args x)" "cx_first x + cx_num x \<le> B * ra_N a * ra_S a"
    "cx_q0 x + cx_count x \<le> cx_num x * page_chunks a" "0 < cx_count x" "elements_ok (cx_args x)"
    "clear_of_batch x (cx_scratch x) (ra_chunk_bytes a)"
    using ok by blast+
  have "B * ra_N a * ra_S a < 2 ^ 32" "cx_num x * page_chunks a + page_chunks a \<le> 2 ^ 32" using ok by blast+
  then show "B * ra_N a * ra_S a < 4294967296" "cx_num x * page_chunks a + page_chunks a \<le> 4294967296" by simp_all
  note b = rows_shape_bounds [OF shape]
  show "0 < ra_chunk_bytes a" "ra_page_bytes a < 4294967296" using b(1,8) by simp_all
  have "0 < ra_page_bytes a" "ra_page_bytes a + ra_chunk_bytes a \<le> 2 ^ 32"
    using shape unfolding rows_shape_ok_def by blast+
  then have "ra_page_bytes a + ra_chunk_bytes a - 1 < 4294967296" by simp
  then show C: "page_chunks a = div_up (ra_page_bytes a) (ra_chunk_bytes a)"
    by (simp add: page_chunks_def div_up_def w32_id)
  show "0 < page_chunks a" unfolding C using \<open>0 < ra_page_bytes a\<close> b(8) by simp
  show "c < page_chunks a \<longleftrightarrow> c * ra_chunk_bytes a < ra_page_bytes a" unfolding C using b(8) by (simp add: less_div_up_iff)
qed

text \<open>The chunk of a byte of a page, whether it is in the batch, and where the byte lies.\<close>

definition chunk_of :: "scatter_ctx \<Rightarrow> nat \<Rightarrow> nat \<Rightarrow> nat" where
  "chunk_of x P i = (P - cx_first x) * page_chunks (sc_rows (cx_args x)) + i div ra_chunk_bytes (sc_rows (cx_args x))"

definition in_view :: "scatter_ctx \<Rightarrow> nat \<Rightarrow> nat \<Rightarrow> bool" where
  "in_view x P i \<longleftrightarrow> cx_first x \<le> P \<and> P < cx_first x + cx_num x \<and> i < ra_page_bytes (sc_rows (cx_args x)) \<and>
     cx_q0 x \<le> chunk_of x P i \<and> chunk_of x P i < cx_q0 x + cx_count x"

definition view_addr :: "scatter_ctx \<Rightarrow> nat \<Rightarrow> nat \<Rightarrow> nat" where
  "view_addr x P i = cx_rows x + (chunk_of x P i - cx_q0 x) * sc_entry (cx_args x) + i mod ra_chunk_bytes (sc_rows (cx_args x))"

lemma chunk_of_bound:
  assumes "ctx_ok x B" "P < cx_first x + cx_num x" "cx_first x \<le> P" "i < ra_page_bytes (sc_rows (cx_args x))"
  shows "chunk_of x P i < cx_num x * page_chunks (sc_rows (cx_args x))" "i div ra_chunk_bytes (sc_rows (cx_args x)) < page_chunks (sc_rows (cx_args x))"
proof -
  note f = ctx_facts [OF assms(1)]
  have "i div ra_chunk_bytes (sc_rows (cx_args x)) * ra_chunk_bytes (sc_rows (cx_args x)) \<le> i" by simp
  then show c: "i div ra_chunk_bytes (sc_rows (cx_args x)) < page_chunks (sc_rows (cx_args x))"
    using assms(4) f(12) by (meson le_less_trans)
  have "P - cx_first x < cx_num x" using assms(2,3) by simp
  from index_less_product [OF this c] show "chunk_of x P i < cx_num x * page_chunks (sc_rows (cx_args x))"
    by (simp add: chunk_of_def)
qed

lemma in_batch_at:
  assumes "ctx_ok x B" "P < 4294967296" "i < ra_page_bytes (sc_rows (cx_args x))"
  shows "in_batch x P i = (if in_view x P i then Some (view_addr x P i) else None)"
proof -
  note f = ctx_facts [OF assms(1)]
  have range: "w32 (cx_first x + cx_num x) = cx_first x + cx_num x" using f(3,4) by (intro w32_id) linarith
  show ?thesis
  proof (cases "cx_first x \<le> P \<and> P < cx_first x + cx_num x")
    case False
    then show ?thesis by (auto simp: in_batch_def Let_def range in_view_def)
  next
    case True
    note c = chunk_of_bound(1) [OF assms(1) _ _ assms(3)]
    have sub: "w32 (P + (2 ^ 32 - cx_first x)) = P - cx_first x"
    proof -
      have "P + (2 ^ 32 - cx_first x) = (P - cx_first x) + 2 ^ 32" using True assms(2) by simp
      then have "w32 (P + (2 ^ 32 - cx_first x)) = (P - cx_first x) mod 2 ^ 32" by (simp only: w32_def mod_add_self2)
      also have "\<dots> = P - cx_first x" using assms(2) by (intro mod_less) simp
      finally show ?thesis .
    qed
    have small: "cx_num x * page_chunks (sc_rows (cx_args x)) < 4294967296" using f(5,11) by linarith
    have "chunk_of x P i < 4294967296" using True c small by (meson less_trans)
    then have q: "w32 (w32 (P + (2 ^ 32 - cx_first x)) * page_chunks (sc_rows (cx_args x)) + i div ra_chunk_bytes (sc_rows (cx_args x))) = chunk_of x P i"
      unfolding sub chunk_of_def by (rule w32_id)
    have "w32 (cx_q0 x + cx_count x) = cx_q0 x + cx_count x" using f(6) small by (intro w32_id) linarith
    then show ?thesis using True assms(3)
      unfolding in_batch_def Let_def q range by (auto simp: in_view_def view_addr_def)
  qed
qed

lemma view_addr_region:
  assumes "ctx_ok x B" "in_view x P i"
  shows "cx_rows x \<le> view_addr x P i" "view_addr x P i < cx_rows x + cx_count x * sc_entry (cx_args x)"
proof -
  note f = ctx_facts [OF assms(1)]
  have "i mod ra_chunk_bytes (sc_rows (cx_args x)) < sc_entry (cx_args x)"
    using f(2,10) mod_less_divisor [of "ra_chunk_bytes (sc_rows (cx_args x))" i] by linarith
  moreover have "chunk_of x P i - cx_q0 x < cx_count x" using assms(2) by (auto simp: in_view_def)
  ultimately show "view_addr x P i < cx_rows x + cx_count x * sc_entry (cx_args x)"
    using index_less_product [of "chunk_of x P i - cx_q0 x" "cx_count x" "i mod ra_chunk_bytes (sc_rows (cx_args x))" "sc_entry (cx_args x)"]
    by (simp add: view_addr_def)
qed (simp add: view_addr_def)

lemma view_addr_unique:
  assumes "ctx_ok x B" "in_view x P i" "in_view x P' i'" "view_addr x P i = view_addr x P' i'"
  shows "P = P' \<and> i = i'"
proof -
  note f = ctx_facts [OF assms(1)]
  let ?chunk = "ra_chunk_bytes (sc_rows (cx_args x))" and ?C = "page_chunks (sc_rows (cx_args x))" and ?e = "sc_entry (cx_args x)"
  have small: "j mod ?chunk < ?e" for j using f(2,10) mod_less_divisor [of ?chunk j] by linarith
  from assms(4) have eq: "(chunk_of x P i - cx_q0 x) * ?e + i mod ?chunk = (chunk_of x P' i' - cx_q0 x) * ?e + i' mod ?chunk"
    by (simp add: view_addr_def)
  from arg_cong [OF eq, of "\<lambda>y. y div ?e"] arg_cong [OF eq, of "\<lambda>y. y mod ?e"]
  have "chunk_of x P i - cx_q0 x = chunk_of x P' i' - cx_q0 x" and m: "i mod ?chunk = i' mod ?chunk"
    using index_div [OF small] index_mod [OF small] by metis+
  then have q: "chunk_of x P i = chunk_of x P' i'" using assms(2,3) by (auto simp: in_view_def)
  have c: "i div ?chunk < ?C" "i' div ?chunk < ?C"
    using chunk_of_bound(2) [OF assms(1)] assms(2,3) by (auto simp: in_view_def)
  have "P - cx_first x = P' - cx_first x" "i div ?chunk = i' div ?chunk"
    using arg_cong [OF q, of "\<lambda>y. y div ?C"] arg_cong [OF q, of "\<lambda>y. y mod ?C"] c index_div index_mod
    unfolding chunk_of_def by metis+
  with m show ?thesis using assms(2,3) by (metis div_mult_mod_eq in_view_def le_add_diff_inverse)
qed

text \<open>Bytes of one chunk lie next to each other and are in the batch together.\<close>

lemma view_within_chunk:
  assumes "in_view x P off" "off mod ra_chunk_bytes (sc_rows (cx_args x)) + k < ra_chunk_bytes (sc_rows (cx_args x))"
    and "off + k < ra_page_bytes (sc_rows (cx_args x))"
  shows "in_view x P (off + k)" "view_addr x P (off + k) = view_addr x P off + k"
proof -
  let ?chunk = "ra_chunk_bytes (sc_rows (cx_args x))"
  have off: "off + k = off div ?chunk * ?chunk + (off mod ?chunk + k)" by simp
  have "(off + k) div ?chunk = off div ?chunk" "(off + k) mod ?chunk = off mod ?chunk + k"
    unfolding off using assms(2) index_div index_mod by blast+
  then show "in_view x P (off + k)" "view_addr x P (off + k) = view_addr x P off + k"
    using assms(1,3) by (simp_all add: in_view_def view_addr_def chunk_of_def)
qed

section \<open>One update\<close>

lemma apply_update_at:
  assumes "elements_ok (cx_args x)" "sc_reduce (cx_args x) \<noteq> 0 \<Longrightarrow> ra_elem_bytes (sc_rows (cx_args x)) dvd bytes"
    and "src + bytes \<le> dst \<or> dst + bytes \<le> src"
  shows "apply_update x dst src bytes mem y =
    splice (cx_ops x) (sc_elem_kind (cx_args x)) (sc_reduce (cx_args x)) dst bytes (\<lambda>k. mem (src + k)) mem y"
proof (cases "sc_reduce (cx_args x) = 0")
  case True
  then show ?thesis using copy_l1_at [OF assms(3)] by (simp add: apply_update_def Let_def splice_def)
next
  case False
  let ?n = "kind_bytes (sc_elem_kind (cx_args x))"
  have n: "?n = ra_elem_bytes (sc_rows (cx_args x))" "sc_elem_kind (cx_args x) \<noteq> 0"
    using assms(1) False by (simp_all add: elements_ok_def)
  then have "?n * (bytes div ra_elem_bytes (sc_rows (cx_args x))) = bytes" using assms(2) [OF False] by simp
  moreover have "load_elem ?n mem (src + ?n * e) = load_elem ?n (\<lambda>k. mem (src + k)) (?n * e)" for e
    by (rule load_elem_cong) (simp add: add.assoc)
  ultimately show ?thesis
    using False n(2) by (simp add: apply_update_def Let_def reduce_rows_at splice_def)
qed

lemma splice_view:
  assumes "\<And>k. k < len \<Longrightarrow> cur (dst + k) = page (off + k)" "reduce \<noteq> 0 \<Longrightarrow> kind_bytes kind dvd len" "k < len"
  shows "splice ops kind reduce dst len s cur (dst + k) = splice ops kind reduce off len s page (off + k)"
proof (cases "reduce = 0")
  case False
  let ?n = "kind_bytes kind"
  have "load_elem ?n cur (dst + ?n * (k div ?n)) = load_elem ?n page (off + ?n * (k div ?n))"
    by (rule load_elem_cong) (use assms(1) element_inside [OF assms(2) [OF False] assms(3)] in \<open>simp add: add.assoc\<close>)
  with False assms(3) show ?thesis by (simp add: splice_def Let_def)
qed (use assms(3) in \<open>simp add: splice_def\<close>)

text \<open>
  An update of a part of a chunk in the batch: that part of the page is spliced, the other
  bytes of the batch and the rest of L1 stay.
\<close>

lemma update_view:
  assumes ok: "ctx_ok x B" and view: "in_view x P off"
    and chunk: "off mod ra_chunk_bytes (sc_rows (cx_args x)) + bytes \<le> ra_chunk_bytes (sc_rows (cx_args x))"
    and page: "off + bytes \<le> ra_page_bytes (sc_rows (cx_args x))"
    and elems: "whole_elements (cx_args x) bytes"
    and mem': "\<And>y. mem' y = splice (cx_ops x) (sc_elem_kind (cx_args x)) (sc_reduce (cx_args x)) (view_addr x P off) bytes s mem y"
  shows "in_view x P' i \<Longrightarrow> mem' (view_addr x P' i) =
      (if P' = P then splice (cx_ops x) (sc_elem_kind (cx_args x)) (sc_reduce (cx_args x)) off bytes s (\<lambda>i. mem (view_addr x P i)) i
       else mem (view_addr x P' i))"
    and "\<not> (cx_rows x \<le> y \<and> y < cx_rows x + cx_count x * sc_entry (cx_args x)) \<Longrightarrow> mem' y = mem y"
proof -
  let ?at = "view_addr x P off"
  have inside: "in_view x P (off + k) \<and> view_addr x P (off + k) = ?at + k" if "k < bytes" for k
    using view_within_chunk [OF view, of k] that chunk page by simp
  show "mem' y = mem y" if "\<not> (cx_rows x \<le> y \<and> y < cx_rows x + cx_count x * sc_entry (cx_args x))"
  proof -
    have "\<not> (?at \<le> y \<and> y < ?at + bytes)"
    proof
      assume "?at \<le> y \<and> y < ?at + bytes"
      then obtain k where "y = ?at + k" "k < bytes" by (metis le_add_diff_inverse nat_add_left_cancel_less)
      with inside view_addr_region [OF ok] that show False by metis
    qed
    then show ?thesis unfolding mem' by (rule splice_outside)
  qed
  assume view': "in_view x P' i"
  show "mem' (view_addr x P' i) =
      (if P' = P then splice (cx_ops x) (sc_elem_kind (cx_args x)) (sc_reduce (cx_args x)) off bytes s (\<lambda>i. mem (view_addr x P i)) i
       else mem (view_addr x P' i))"
  proof (cases "P' = P \<and> off \<le> i \<and> i < off + bytes")
    case True
    then obtain k where k: "i = off + k" "k < bytes" by (metis le_add_diff_inverse nat_add_left_cancel_less)
    have "splice (cx_ops x) (sc_elem_kind (cx_args x)) (sc_reduce (cx_args x)) ?at bytes s mem (?at + k) =
        splice (cx_ops x) (sc_elem_kind (cx_args x)) (sc_reduce (cx_args x)) off bytes s (\<lambda>i. mem (view_addr x P i)) (off + k)"
      using inside elems k(2) by (intro splice_view) (simp_all add: whole_elements_def)
    then show ?thesis using True inside [OF k(2)] by (simp add: mem' k(1))
  next
    case False
    have "\<not> (?at \<le> view_addr x P' i \<and> view_addr x P' i < ?at + bytes)"
    proof
      assume "?at \<le> view_addr x P' i \<and> view_addr x P' i < ?at + bytes"
      then obtain k where k: "view_addr x P' i = ?at + k" "k < bytes" by (metis le_add_diff_inverse nat_add_left_cancel_less)
      with inside have "in_view x P (off + k)" "view_addr x P' i = view_addr x P (off + k)" by metis+
      with view_addr_unique [OF ok view'] k(2) False show False by force
    qed
    then have "mem' (view_addr x P' i) = mem (view_addr x P' i)" unfolding mem' by (rule splice_outside)
    moreover have "splice (cx_ops x) (sc_elem_kind (cx_args x)) (sc_reduce (cx_args x)) off bytes s (\<lambda>i. mem (view_addr x P i)) i = mem (view_addr x P i)"
      if "P' = P" using that False by (intro splice_outside) simp
    ultimately show ?thesis by auto
  qed
qed


section \<open>Tensors seen through the batch\<close>

text \<open>The batch holds the bytes of \<open>T\<close>; L1 outside of the batch is as it was.\<close>

definition reflects :: "scatter_ctx \<Rightarrow> l1 \<Rightarrow> pages \<Rightarrow> bool" where
  "reflects x mem T \<longleftrightarrow> (\<forall>P i. in_view x P i \<longrightarrow> mem (view_addr x P i) = T P i)"

definition same_outside :: "scatter_ctx \<Rightarrow> l1 \<Rightarrow> l1 \<Rightarrow> bool" where
  "same_outside x mem mem' \<longleftrightarrow> (\<forall>y. \<not> (cx_rows x \<le> y \<and> y < cx_rows x + cx_count x * sc_entry (cx_args x)) \<longrightarrow> mem' y = mem y)"

lemma same_outside_trans: "same_outside x a b \<Longrightarrow> same_outside x b c \<Longrightarrow> same_outside x a c"
  by (simp add: same_outside_def)

lemma same_outside_clear: "same_outside x mem mem' \<Longrightarrow> clear_of_batch x at len \<Longrightarrow> k < len \<Longrightarrow> mem' (at + k) = mem (at + k)"
  by (auto simp: same_outside_def clear_of_batch_def)

abbreviation splice_at :: "scatter_args \<Rightarrow> float_ops \<Rightarrow> nat \<Rightarrow> nat \<Rightarrow> l1 \<Rightarrow> l1 \<Rightarrow> l1" where
  "splice_at s ops \<equiv> splice ops (sc_elem_kind s) (sc_reduce s)"

lemma splice_append:
  assumes "d \<le> len" "whole_elements s d" "whole_elements s len"
  shows "splice_at s ops (off + d) (len - d) (\<lambda>k. f (d + k)) (splice_at s ops off d f cur) = splice_at s ops off len f cur"
    (is "?l = _")
proof
  fix i
  have rest: "sc_reduce s \<noteq> 0 \<Longrightarrow> kind_bytes (sc_elem_kind s) dvd len - d"
    and d: "sc_reduce s \<noteq> 0 \<Longrightarrow> kind_bytes (sc_elem_kind s) dvd d"
    using assms by (simp_all add: whole_elements_def)
  consider "i < off" | "off \<le> i" "i < off + d" | "off + d \<le> i" "i < off + len" | "off + len \<le> i" by linarith
  then show "?l i = splice_at s ops off len f cur i"
  proof cases
    case 2
    then have "?l i = splice_at s ops off d f cur i" by (intro splice_outside) simp
    also have "\<dots> = splice_at s ops off len f cur i"
      using splice_part [of "sc_reduce s" "sc_elem_kind s" 0 d len off i ops f cur] 2 assms(1) by simp
    finally show ?thesis .
  next
    case 3
    have "?l i = splice_at s ops (off + d) (len - d) (\<lambda>k. f (d + k)) cur i"
    proof (rule splice_cong [OF rest])
      show "splice_at s ops off d f cur (off + d + k) = cur (off + d + k)" for k by (rule splice_outside) simp
    qed (use 3 assms(1) in simp_all)
    also have "\<dots> = splice_at s ops off len f cur i"
      by (rule splice_part [OF d]) (use 3 assms(1) in simp_all)
    finally show ?thesis .
  qed (use assms(1) in \<open>simp_all add: splice_outside\<close>)
qed

text \<open>An update of a part of a chunk, in the batch or not.\<close>

lemma part_reflects:
  assumes ok: "ctx_ok x B" and P: "P < 4294967296" and off: "off < ra_page_bytes (sc_rows (cx_args x))"
    and chunk: "off mod ra_chunk_bytes (sc_rows (cx_args x)) + bytes \<le> ra_chunk_bytes (sc_rows (cx_args x))"
    and page: "off + bytes \<le> ra_page_bytes (sc_rows (cx_args x))"
    and elems: "whole_elements (cx_args x) bytes" and T: "reflects x mem T"
    and mem': "\<And>y. in_view x P off \<Longrightarrow> mem' y = splice_at (cx_args x) (cx_ops x) (view_addr x P off) bytes s mem y"
    and none: "\<not> in_view x P off \<Longrightarrow> mem' = mem"
  shows "reflects x mem' (T(P := splice_at (cx_args x) (cx_ops x) off bytes s (T P))) \<and> same_outside x mem mem'"
proof (cases "in_view x P off")
  case True
  have e: "sc_reduce (cx_args x) \<noteq> 0 \<Longrightarrow> kind_bytes (sc_elem_kind (cx_args x)) dvd bytes" using elems by (simp add: whole_elements_def)
  note v = update_view [OF ok True chunk page elems mem' [OF True]]
  have "same_outside x mem mem'" unfolding same_outside_def using v(2) by blast
  moreover have "reflects x mem' (T(P := splice_at (cx_args x) (cx_ops x) off bytes s (T P)))"
    unfolding reflects_def
  proof (intro allI impI)
    fix P' i assume view: "in_view x P' i"
    show "mem' (view_addr x P' i) = (T(P := splice_at (cx_args x) (cx_ops x) off bytes s (T P))) P' i"
    proof (cases "P' = P")
      case False
      then show ?thesis using v(1) [OF view] T view by (simp add: reflects_def)
    next
      case same: True
      have k: "mem (view_addr x P (off + k)) = T P (off + k)" if "k < bytes" for k
        using view_within_chunk(1) [OF True, of k] that chunk page T by (simp add: reflects_def)
      have "splice_at (cx_args x) (cx_ops x) off bytes s (\<lambda>i. mem (view_addr x P i)) i = splice_at (cx_args x) (cx_ops x) off bytes s (T P) i"
      proof (cases "off \<le> i \<and> i < off + bytes")
        case True
        then show ?thesis using k by (intro splice_cong [OF e]) simp_all
      next
        case False
        then show ?thesis using T view same by (simp add: splice_outside reflects_def)
      qed
      then show ?thesis using v(1) [OF view] same by simp
    qed
  qed
  ultimately show ?thesis by blast
next
  case False
  have "\<not> (off \<le> i \<and> i < off + bytes)" if "in_view x P i" for i
  proof
    assume "off \<le> i \<and> i < off + bytes"
    then obtain k where k: "i = off + k" "k < bytes" by (metis le_add_diff_inverse nat_add_left_cancel_less)
    let ?chunk = "ra_chunk_bytes (sc_rows (cx_args x))"
    have "off + k = off div ?chunk * ?chunk + (off mod ?chunk + k)" by simp
    moreover have "off mod ?chunk + k < ?chunk" using chunk k(2) by simp
    ultimately have "(off + k) div ?chunk = off div ?chunk" by (metis index_div)
    then show False using that False off by (simp add: in_view_def chunk_of_def k(1))
  qed
  then show ?thesis using T by (auto simp: none [OF False] reflects_def same_outside_def splice_outside)
qed

lemma apply_reflects:
  assumes ok: "ctx_ok x B" and P: "P < 4294967296" and off: "off < ra_page_bytes (sc_rows (cx_args x))"
    and chunk: "off mod ra_chunk_bytes (sc_rows (cx_args x)) + bytes \<le> ra_chunk_bytes (sc_rows (cx_args x))"
    and page: "off + bytes \<le> ra_page_bytes (sc_rows (cx_args x))"
    and elems: "whole_elements (cx_args x) bytes" and T: "reflects x mem T"
    and clear: "clear_of_batch x src bytes"
  defines "mem' \<equiv> (case in_batch x P off of None \<Rightarrow> mem | Some dst \<Rightarrow> apply_update x dst src bytes mem)"
  shows "reflects x mem' (T(P := splice_at (cx_args x) (cx_ops x) off bytes (\<lambda>k. mem (src + k)) (T P))) \<and> same_outside x mem mem'"
proof (rule part_reflects [OF ok P off chunk page elems T])
  note at = in_batch_at [OF ok P off]
  show "mem' = mem" if "\<not> in_view x P off" using that by (simp add: mem'_def at)
  fix y assume view: "in_view x P off"
  have "src + bytes \<le> view_addr x P off \<or> view_addr x P off + bytes \<le> src"
  proof (cases "bytes = 0")
    case True
    then show ?thesis using view_addr_region [OF ok view] clear by (auto simp: clear_of_batch_def)
  next
    case False
    then have "in_view x P (off + (bytes - 1))" "view_addr x P (off + (bytes - 1)) = view_addr x P off + (bytes - 1)"
      using view_within_chunk [OF view, of "bytes - 1"] chunk page by simp_all
    with view_addr_region [OF ok this(1)] view_addr_region [OF ok view] clear False
    show ?thesis by (auto simp: clear_of_batch_def)
  qed
  moreover have "sc_reduce (cx_args x) \<noteq> 0 \<Longrightarrow> ra_elem_bytes (sc_rows (cx_args x)) dvd bytes"
    using elems ctx_facts(8) [OF ok] by (simp add: whole_elements_def elements_ok_def)
  ultimately show "mem' y = splice_at (cx_args x) (cx_ops x) (view_addr x P off) bytes (\<lambda>k. mem (src + k)) mem y"
    using apply_update_at [OF ctx_facts(8) [OF ok]] by (simp add: mem'_def at view)
qed

section \<open>Column windows\<close>

lemma column_parts_reflects:
  assumes ok: "ctx_ok x B" and P: "P < 4294967296"
    and "off + left \<le> ra_page_bytes (sc_rows (cx_args x))" "whole_elements (cx_args x) off" "whole_elements (cx_args x) left"
    and "reflects x mem T" "clear_of_batch x src left"
  shows "reflects x (column_parts x P off src left mem)
      (T(P := splice_at (cx_args x) (cx_ops x) off left (\<lambda>k. mem (src + k)) (T P))) \<and>
    same_outside x mem (column_parts x P off src left mem)"
  using assms(3-)
proof (induction left arbitrary: off src mem T rule: less_induct)
  case (less left)
  let ?s = "cx_args x"
  let ?chunk = "ra_chunk_bytes (sc_rows ?s)"
  note f = ctx_facts [OF ok]
  show ?case
  proof (cases "left = 0")
    case True
    have "splice_at ?s (cx_ops x) off 0 g (T P) = T P" for g by (rule ext, rule splice_outside) simp
    then show ?thesis using less.prems(4) True by (simp add: column_parts.simps same_outside_def)
  next
    case False
    define bytes where "bytes = (if left < ?chunk - off mod ?chunk then left else ?chunk - off mod ?chunk)"
    have room: "off mod ?chunk < ?chunk" using f(10) by simp
    then have bytes: "0 < bytes" "bytes \<le> left" "off mod ?chunk + bytes \<le> ?chunk" using False by (auto simp: bytes_def)
    define mem1 where "mem1 = (case in_batch x P off of None \<Rightarrow> mem | Some dst \<Rightarrow> apply_update x dst src bytes mem)"
    have elems: "whole_elements ?s bytes" "whole_elements ?s (off + bytes)" "whole_elements ?s (left - bytes)"
    proof -
      have "kind_bytes (sc_elem_kind ?s) dvd ?chunk - off mod ?chunk" if "sc_reduce ?s \<noteq> 0"
      proof -
        have n: "kind_bytes (sc_elem_kind ?s) dvd ?chunk" "kind_bytes (sc_elem_kind ?s) dvd off"
          using that f(8) less.prems(2) by (simp_all add: elements_ok_def whole_elements_def)
        then have "kind_bytes (sc_elem_kind ?s) dvd off mod ?chunk" by (rule dvd_mod [rotated])
        with n(1) show ?thesis by (rule dvd_diff_nat)
      qed
      then show "whole_elements ?s bytes" using less.prems(3) by (auto simp: whole_elements_def bytes_def)
      then show "whole_elements ?s (off + bytes)" "whole_elements ?s (left - bytes)"
        using less.prems(2,3) by (auto simp: whole_elements_def)
    qed
    have clear: "clear_of_batch x src bytes" "clear_of_batch x (src + bytes) (left - bytes)"
      using less.prems(5) bytes(2) by (auto simp: clear_of_batch_def)
    let ?T1 = "T(P := splice_at ?s (cx_ops x) off bytes (\<lambda>k. mem (src + k)) (T P))"
    have one: "reflects x mem1 ?T1" "same_outside x mem mem1"
      using apply_reflects [OF ok P _ bytes(3) _ elems(1) less.prems(4) clear(1)] less.prems(1) bytes False
      by (simp_all add: mem1_def)
    have "off + bytes + (left - bytes) \<le> ra_page_bytes (sc_rows ?s)" "left - bytes < left" using less.prems(1) bytes by simp_all
    note rest = less.IH [OF this(2,1) elems(2,3) one(1) clear(2)]
    have eq: "column_parts x P off src left mem = column_parts x P (off + bytes) (src + bytes) (left - bytes) mem1"
    proof -
      have c: "(0 < left \<and> 0 < ?chunk) = True" using False f(10) by simp
      show ?thesis by (subst column_parts.simps) (simp only: Let_def c if_True bytes_def mem1_def)
    qed
    have "(\<lambda>k. mem1 (src + bytes + k)) (k) = mem (src + bytes + k)" if "k < left - bytes" for k
      using same_outside_clear [OF one(2) clear(2) that] by simp
    then have same: "splice_at ?s (cx_ops x) (off + bytes) (left - bytes) (\<lambda>k. mem1 (src + bytes + k)) cur =
        splice_at ?s (cx_ops x) (off + bytes) (left - bytes) (\<lambda>k. mem (src + (bytes + k))) cur" for cur
    proof (intro ext)
      fix i
      show "splice_at ?s (cx_ops x) (off + bytes) (left - bytes) (\<lambda>k. mem1 (src + bytes + k)) cur i =
          splice_at ?s (cx_ops x) (off + bytes) (left - bytes) (\<lambda>k. mem (src + (bytes + k))) cur i"
      proof (cases "off + bytes \<le> i \<and> i < off + bytes + (left - bytes)")
        case True
        then show ?thesis
          using elems(3) \<open>\<And>k. k < left - bytes \<Longrightarrow> (\<lambda>k. mem1 (src + bytes + k)) k = mem (src + bytes + k)\<close>
          by (intro splice_cong) (simp_all add: whole_elements_def add.assoc)
      qed (simp add: splice_outside)
    qed
    have fin: "?T1(P := splice_at ?s (cx_ops x) (off + bytes) (left - bytes) (\<lambda>k. mem1 (src + bytes + k)) (?T1 P)) =
        T(P := splice_at ?s (cx_ops x) off left (\<lambda>k. mem (src + k)) (T P))"
      using splice_append [OF bytes(2) elems(1) less.prems(3), of "cx_ops x" off "\<lambda>k. mem (src + k)" "T P"]
      by (simp add: same)
    show ?thesis using rest same_outside_trans [OF one(2)] unfolding eq fin by blast
  qed
qed

section \<open>Whole rows\<close>

lemma place_splice: "place at (map f [0..<n]) p y = splice ops kind 0 at n f p y"
  by (auto simp: place_def splice_def)

lemma chunk_reflects:
  assumes ok: "ctx_ok x B" and P: "P < 4294967296" and c: "c < page_chunks (sc_rows (cx_args x))" and T: "reflects x mem T"
  defines "off \<equiv> c * ra_chunk_bytes (sc_rows (cx_args x))"
  shows "reflects x (page_chunk_update x src sp P mem off)
      (T(P := splice_at (cx_args x) (cx_ops x) off (chunk_length (sc_rows (cx_args x)) off) (\<lambda>k. src sp (off + k)) (T P)))"
proof -
  let ?s = "cx_args x" and ?a = "sc_rows (cx_args x)"
  let ?len = "chunk_length ?a off" and ?data = "map (\<lambda>i. src sp (off + i)) [0..<chunk_length ?a off]"
  note f = ctx_facts [OF ok]
  have off: "off < ra_page_bytes ?a" using c f(12) by (simp add: off_def)
  have mod: "off mod ra_chunk_bytes ?a = 0" by (simp add: off_def)
  have len: "?len \<le> ra_chunk_bytes ?a" "off + ?len \<le> ra_page_bytes ?a" using off by (auto simp: chunk_length_def)
  then have chunk: "off mod ra_chunk_bytes ?a + ?len \<le> ra_chunk_bytes ?a" by (simp add: mod)
  have elems: "whole_elements ?s ?len"
  proof -
    have "kind_bytes (sc_elem_kind ?s) dvd ?len" if "sc_reduce ?s \<noteq> 0"
    proof -
      have n: "kind_bytes (sc_elem_kind ?s) dvd ra_page_bytes ?a" "kind_bytes (sc_elem_kind ?s) dvd ra_chunk_bytes ?a"
        using that f(8) by (simp_all add: elements_ok_def)
      then have "kind_bytes (sc_elem_kind ?s) dvd ra_page_bytes ?a - off" by (simp add: off_def dvd_diff_nat)
      with n(2) show ?thesis by (simp add: chunk_length_def)
    qed
    then show ?thesis by (simp add: whole_elements_def)
  qed
  note at = in_batch_at [OF ok P off]
  show ?thesis
  proof (cases "sc_reduce ?s = 0")
    case True
    have "page_chunk_update x src sp P mem off y = splice_at ?s (cx_ops x) (view_addr x P off) ?len (\<lambda>k. src sp (off + k)) mem y"
      if "in_view x P off" for y
      using that True place_splice [of _ "\<lambda>i. src sp (off + i)" _ mem y "cx_ops x" "sc_elem_kind ?s"]
      by (simp only: page_chunk_update_def at Let_def if_True option.simps simp_thms)
    moreover have "page_chunk_update x src sp P mem off = mem" if "\<not> in_view x P off"
      using that by (simp add: page_chunk_update_def at)
    ultimately show ?thesis using part_reflects [OF ok P off chunk len(2) elems T] by blast
  next
    case False
    have clear: "clear_of_batch x (cx_scratch x) ?len" using f(14) len(1) by (auto simp: clear_of_batch_def)
    show ?thesis
    proof (cases "in_view x P off")
      case True
      let ?mem = "place (cx_scratch x) ?data mem"
      have "reflects x ?mem T"
        unfolding reflects_def
      proof (intro allI impI)
        fix P' i assume view: "in_view x P' i"
        have "\<not> (cx_scratch x \<le> view_addr x P' i \<and> view_addr x P' i < cx_scratch x + ?len)"
          using view_addr_region [OF ok view] clear by (auto simp: clear_of_batch_def)
        then have "?mem (view_addr x P' i) = mem (view_addr x P' i)" by (auto simp: place_def)
        then show "?mem (view_addr x P' i) = T P' i" using T view by (simp add: reflects_def)
      qed
      note ap = apply_reflects [OF ok P off chunk len(2) elems this clear]
      have "splice_at ?s (cx_ops x) off ?len (\<lambda>k. ?mem (cx_scratch x + k)) (T P) i = splice_at ?s (cx_ops x) off ?len (\<lambda>k. src sp (off + k)) (T P) i" for i
      proof (cases "off \<le> i \<and> i < off + ?len")
        case True
        then show ?thesis using elems by (intro splice_cong) (simp_all add: whole_elements_def place_def)
      qed (simp add: splice_outside)
      then have "splice_at ?s (cx_ops x) off ?len (\<lambda>k. ?mem (cx_scratch x + k)) (T P) = splice_at ?s (cx_ops x) off ?len (\<lambda>k. src sp (off + k)) (T P)" by blast
      moreover have "page_chunk_update x src sp P mem off = (case in_batch x P off of None \<Rightarrow> ?mem | Some dst \<Rightarrow> apply_update x dst (cx_scratch x) ?len ?mem)"
        using False True by (simp add: page_chunk_update_def at Let_def)
      ultimately show ?thesis using ap by simp
    next
      case none: False
      then have "page_chunk_update x src sp P mem off = mem" by (simp add: page_chunk_update_def at)
      with part_reflects [OF ok P off chunk len(2) elems T, of mem] none show ?thesis by simp
    qed
  qed
qed

lemma page_reflects:
  assumes ok: "ctx_ok x B" and P: "P < 4294967296" and T: "reflects x mem T"
  shows "reflects x (page_update x src sp P mem)
      (T(P := splice_at (cx_args x) (cx_ops x) 0 (ra_page_bytes (sc_rows (cx_args x))) (src sp) (T P)))"
proof -
  let ?s = "cx_args x" and ?a = "sc_rows (cx_args x)"
  let ?chunk = "ra_chunk_bytes ?a" and ?page = "ra_page_bytes ?a"
  note f = ctx_facts [OF ok]
  have "m \<le> page_chunks ?a \<Longrightarrow> reflects x (foldl (page_chunk_update x src sp P) mem (map (\<lambda>c. c * ?chunk) [0..<m]))
      (T(P := splice_at ?s (cx_ops x) 0 (min (m * ?chunk) ?page) (src sp) (T P)))" for m
  proof (induction m)
    case 0
    have "splice_at ?s (cx_ops x) 0 0 (src sp) (T P) = T P" by (rule ext, rule splice_outside) simp
    then show ?case using T by simp
  next
    case (Suc m)
    then have less: "m < page_chunks ?a" by simp
    then have m: "m * ?chunk < ?page" using f(12) [of m] by blast
    let ?T = "T(P := splice_at ?s (cx_ops x) 0 (m * ?chunk) (src sp) (T P))"
    have IH: "reflects x (foldl (page_chunk_update x src sp P) mem (map (\<lambda>c. c * ?chunk) [0..<m])) ?T"
    proof -
      have eq: "min (m * ?chunk) ?page = m * ?chunk" using m by simp
      from Suc.IH [OF less_imp_le [OF less]] show ?thesis unfolding eq .
    qed
    have len: "m * ?chunk + chunk_length ?a (m * ?chunk) = min (Suc m * ?chunk) ?page"
      using m by (auto simp: chunk_length_def min_def)
    have "whole_elements ?s (m * ?chunk)" "whole_elements ?s (min (Suc m * ?chunk) ?page)"
      using f(8) by (auto simp: whole_elements_def elements_ok_def min_def simp del: mult_Suc)
    moreover have "chunk_length ?a (m * ?chunk) = min (Suc m * ?chunk) ?page - m * ?chunk" using len by simp
    ultimately have "splice_at ?s (cx_ops x) (m * ?chunk) (chunk_length ?a (m * ?chunk)) (\<lambda>k. src sp (m * ?chunk + k)) (?T P) =
        splice_at ?s (cx_ops x) 0 (min (Suc m * ?chunk) ?page) (src sp) (T P)"
      using splice_append [of "m * ?chunk" "min (Suc m * ?chunk) ?page" ?s "cx_ops x" 0 "src sp" "T P"] len
      by (simp del: mult_Suc)
    then have fin: "?T(P := splice_at ?s (cx_ops x) (m * ?chunk) (chunk_length ?a (m * ?chunk)) (\<lambda>k. src sp (m * ?chunk + k)) (?T P)) =
        T(P := splice_at ?s (cx_ops x) 0 (min (Suc m * ?chunk) ?page) (src sp) (T P))" by (simp only: fun_upd_upd)
    have "foldl (page_chunk_update x src sp P) mem (map (\<lambda>c. c * ?chunk) [0..<Suc m]) =
        page_chunk_update x src sp P (foldl (page_chunk_update x src sp P) mem (map (\<lambda>c. c * ?chunk) [0..<m])) (m * ?chunk)"
      by simp
    with chunk_reflects [OF ok P less IH, of src sp] show ?case unfolding fin by (simp only:)
  qed
  note this [of "page_chunks ?a"]
  moreover have "min (page_chunks ?a * ?chunk) ?page = ?page"
    using f(12) [of "page_chunks ?a"] by (simp add: min_def not_less)
  ultimately show ?thesis using f(9) by (simp add: page_update_def Let_def)
qed

lemma pages_reflect:
  assumes ok: "ctx_ok x B" and ps: "distinct ps" "\<And>P. P \<in> set ps \<Longrightarrow> P < 4294967296" and T: "reflects x mem T"
  shows "reflects x (foldl (\<lambda>mem P. page_update x src (sp P) P mem) mem ps)
      (\<lambda>P. if P \<in> set ps then splice_at (cx_args x) (cx_ops x) 0 (ra_page_bytes (sc_rows (cx_args x))) (src (sp P)) (T P) else T P)"
  using ps T
proof (induction ps arbitrary: mem T)
  case (Cons p ps)
  let ?f = "\<lambda>P. splice_at (cx_args x) (cx_ops x) 0 (ra_page_bytes (sc_rows (cx_args x))) (src (sp P))"
  have "reflects x (page_update x src (sp p) p mem) (T(p := ?f p (T p)))"
    by (rule page_reflects [OF ok]) (use Cons.prems in simp_all)
  from Cons.IH [OF _ _ this] Cons.prems
  have "reflects x (foldl (\<lambda>mem P. page_update x src (sp P) P mem) mem (p # ps))
      (\<lambda>P. if P \<in> set ps then ?f P ((T(p := ?f p (T p))) P) else (T(p := ?f p (T p))) P)" by simp
  moreover have "(\<lambda>P. if P \<in> set ps then ?f P ((T(p := ?f p (T p))) P) else (T(p := ?f p (T p))) P) =
      (\<lambda>P. if P \<in> set (p # ps) then ?f P (T P) else T P)"
    using Cons.prems(1) by auto
  ultimately show ?case by simp
qed simp

end
