(* ===== verification/RowsScatterTensor.thy ===== *)
theory RowsScatterTensor
  imports RowsScatterApply
begin

text \<open>
  The output of rows_scatter as a tensor: the updates of the in-bounds positions, in the order
  of the positions, and that the writer's work on a batch computes them there.
\<close>

section \<open>The specification\<close>

text \<open>Window offset \<open>j\<close> of a position: a row of pages, or a window of a row's page, takes its source.\<close>

definition scatter_window :: "scatter_args \<Rightarrow> float_ops \<Rightarrow> rows_dram \<Rightarrow> pages \<Rightarrow> nat \<Rightarrow> pages \<Rightarrow> nat \<Rightarrow> pages" where
  "scatter_window s ops d src item T j =
     (let a = sc_rows s; b = item div ra_M a; row = b * ra_N a + gather_row a d item j in
      if ra_column a then
        T(row := splice_at s ops (nat (start_of a d item ! ra_KR a) * ra_elem_bytes a) (column_bytes a)
             (\<lambda>k. src b ((item mod ra_M a * ra_W a + j) * column_bytes a + k)) (T row))
      else (\<lambda>P. if P div ra_S a = row
                then splice_at s ops 0 (ra_page_bytes a) (src ((item * ra_W a + j) * ra_S a + P mod ra_S a)) (T P) else T P))"

definition scatter_item :: "scatter_args \<Rightarrow> float_ops \<Rightarrow> rows_dram \<Rightarrow> pages \<Rightarrow> pages \<Rightarrow> nat \<Rightarrow> pages" where
  "scatter_item s ops d src T item =
     (if start_of (sc_rows s) d item \<noteq> index_values (sc_rows s) d item then T
      else foldl (scatter_window s ops d src item) T [0..<ra_W (sc_rows s)])"

text \<open>A page of the output: the page of the table after the updates of its batch, in order.\<close>

definition scattered :: "scatter_args \<Rightarrow> float_ops \<Rightarrow> rows_dram \<Rightarrow> pages \<Rightarrow> pages" where
  "scattered s ops d src P =
     (let a = sc_rows s; b = P div (ra_N a * ra_S a) in
      foldl (scatter_item s ops d src) (dr_table d) [b * ra_M a..<b * ra_M a + ra_M a] P)"

text \<open>An update of another batch leaves a page alone.\<close>

lemma scatter_item_other:
  assumes "rows_shape_ok (sc_rows s) B" "item div ra_M (sc_rows s) \<noteq> P div (ra_N (sc_rows s) * ra_S (sc_rows s))"
  shows "scatter_item s ops d src T item P = T P"
proof -
  let ?a = "sc_rows s"
  have window: "scatter_window s ops d src item T j P = T P" for T j
  proof -
    have row: "gather_row ?a d item j < ra_N ?a" by (rule window_row_gather(2) [OF assms(1)])
    show ?thesis
    proof (cases "ra_column ?a")
      case True
      then have "ra_S ?a = 1" using assms(1) unfolding rows_shape_ok_def by blast
      then have "P \<noteq> item div ra_M ?a * ra_N ?a + gather_row ?a d item j"
        using assms(2) index_div [OF row, of "item div ra_M ?a"] by auto
      then show ?thesis using True by (simp add: scatter_window_def Let_def)
    next
      case False
      have "P div ra_S ?a \<noteq> item div ra_M ?a * ra_N ?a + gather_row ?a d item j"
      proof
        assume eq: "P div ra_S ?a = item div ra_M ?a * ra_N ?a + gather_row ?a d item j"
        have "P div (ra_N ?a * ra_S ?a) = P div ra_S ?a div ra_N ?a" by (metis div_mult2_eq mult.commute)
        then show False using assms(2) index_div [OF row] by (simp add: eq)
      qed
      then show ?thesis using False by (simp add: scatter_window_def Let_def)
    qed
  qed
  have "foldl (scatter_window s ops d src item) T js P = T P" for js T
    by (induction js arbitrary: T) (simp_all add: window)
  then show ?thesis by (simp add: scatter_item_def)
qed

lemma scatter_items_other:
  assumes "rows_shape_ok (sc_rows s) B" "\<And>item. item \<in> set items \<Longrightarrow> item div ra_M (sc_rows s) \<noteq> P div (ra_N (sc_rows s) * ra_S (sc_rows s))"
  shows "foldl (scatter_item s ops d src) T items P = T P"
  using assms(2) by (induction items arbitrary: T) (simp_all add: scatter_item_other [OF assms(1)])

text \<open>An update of a page depends on that page only.\<close>

lemma scatter_item_local:
  assumes "T P = T' P"
  shows "scatter_item s ops d src T item P = scatter_item s ops d src T' item P"
proof -
  have "foldl (scatter_window s ops d src item) T js P = foldl (scatter_window s ops d src item) T' js P" for js
    using assms
  proof (induction js arbitrary: T T')
    case (Cons j js)
    have "scatter_window s ops d src item T j P = scatter_window s ops d src item T' j P"
      using Cons.prems by (auto simp: scatter_window_def Let_def)
    then have "foldl (scatter_window s ops d src item) (scatter_window s ops d src item T j) js P =
        foldl (scatter_window s ops d src item) (scatter_window s ops d src item T' j) js P" by (rule Cons.IH)
    then show ?case by simp
  qed simp
  then show ?thesis using assms by (simp add: scatter_item_def)
qed

lemma scatter_items_local:
  "T P = T' P \<Longrightarrow> foldl (scatter_item s ops d src) T items P = foldl (scatter_item s ops d src) T' items P"
proof (induction items arbitrary: T T')
  case (Cons item items)
  have "scatter_item s ops d src T item P = scatter_item s ops d src T' item P" by (rule scatter_item_local) (rule Cons.prems)
  then have "foldl (scatter_item s ops d src) (scatter_item s ops d src T item) items P =
      foldl (scatter_item s ops d src) (scatter_item s ops d src T' item) items P" by (rule Cons.IH)
  then show ?case by simp
qed simp

lemma upt_split: "a \<le> b \<Longrightarrow> b \<le> c \<Longrightarrow> [a..<c] = [a..<b] @ [b..<c]"
  by (metis le_add_diff_inverse upt_add_eq_append)

text \<open>Folding over the positions of a range of batches that holds the page's batch gives its page.\<close>

lemma scattered_range:
  assumes shape: "rows_shape_ok (sc_rows s) B" and lo: "lo \<le> P div (ra_N (sc_rows s) * ra_S (sc_rows s))"
    and hi: "P div (ra_N (sc_rows s) * ra_S (sc_rows s)) < hi"
  shows "foldl (scatter_item s ops d src) (dr_table d) [lo * ra_M (sc_rows s)..<hi * ra_M (sc_rows s)] P = scattered s ops d src P"
proof -
  let ?M = "ra_M (sc_rows s)" and ?b = "P div (ra_N (sc_rows s) * ra_S (sc_rows s))" and ?f = "foldl (scatter_item s ops d src)"
  have M: "0 < ?M" using shape unfolding rows_shape_ok_def by blast
  have order: "lo * ?M \<le> ?b * ?M" "?b * ?M + ?M \<le> hi * ?M"
    using mult_le_mono1 [OF lo, of ?M] mult_le_mono1 [OF Suc_leI [OF hi], of ?M] by simp_all
  have other: "item div ?M \<noteq> ?b" if "item < ?b * ?M \<or> ?b * ?M + ?M \<le> item" for item
  proof (cases "item < ?b * ?M")
    case True
    then have "item div ?M < ?b" by (rule less_mult_imp_div_less)
    then show ?thesis by simp
  next
    case False
    with that have "Suc ?b * ?M \<le> item" by simp
    from div_le_mono [OF this, of ?M] M show ?thesis by simp
  qed
  have "[lo * ?M..<hi * ?M] = [lo * ?M..<?b * ?M] @ [?b * ?M..<?b * ?M + ?M] @ [?b * ?M + ?M..<hi * ?M]"
    using order by (simp only: upt_split [of "lo * ?M" "?b * ?M" "hi * ?M"] upt_split [of "?b * ?M" "?b * ?M + ?M" "hi * ?M"]
      le_add1 order_trans [OF le_add1 order(2)])
  then have "?f (dr_table d) [lo * ?M..<hi * ?M] P =
      ?f (?f (?f (dr_table d) [lo * ?M..<?b * ?M]) [?b * ?M..<?b * ?M + ?M]) [?b * ?M + ?M..<hi * ?M] P"
    by (simp only: foldl_append)
  also have "\<dots> = ?f (?f (dr_table d) [lo * ?M..<?b * ?M]) [?b * ?M..<?b * ?M + ?M] P"
    using other by (intro scatter_items_other [OF shape]) simp
  also have "\<dots> = ?f (dr_table d) [?b * ?M..<?b * ?M + ?M] P"
    using other by (intro scatter_items_local scatter_items_other [OF shape]) simp
  finally show ?thesis by (simp add: scattered_def Let_def)
qed

section \<open>Rows and windows\<close>

lemma batch_pages:
  assumes "ctx_ok x B" "in_view x P i"
  shows "batch_page_lo x \<le> P" "P < batch_page_hi x"
proof -
  note f = ctx_facts [OF assms(1)]
  let ?C = "page_chunks (sc_rows (cx_args x))"
  have view: "cx_first x \<le> P" "P < cx_first x + cx_num x" "cx_q0 x \<le> chunk_of x P i" "chunk_of x P i < cx_q0 x + cx_count x"
    "i < ra_page_bytes (sc_rows (cx_args x))" using assms(2) by (simp_all add: in_view_def)
  note c = chunk_of_bound(2) [OF assms(1) view(2,1,5)]
  have div: "chunk_of x P i div ?C = P - cx_first x" unfolding chunk_of_def by (rule index_div [OF c])
  have num: "cx_num x * ?C + (?C - 1) < 4294967296" using f(5,11) by linarith
  have "cx_q0 x div ?C \<le> P - cx_first x" using div_le_mono [OF view(3), of ?C] by (simp add: div)
  then have "cx_first x + cx_q0 x div ?C \<le> P" using view(1) by linarith
  moreover have "P < 4294967296" using view(2) f(3,4) by linarith
  ultimately show "batch_page_lo x \<le> P" unfolding batch_page_lo_def by (simp add: w32_id)
  have sum: "cx_q0 x + cx_count x + ?C - 1 \<le> cx_num x * ?C + (?C - 1)" using f(6,11) by linarith
  then have "(cx_q0 x + cx_count x + ?C - 1) div ?C \<le> (cx_num x * ?C + (?C - 1)) div ?C" by (rule div_le_mono)
  also have "\<dots> = cx_num x" by (rule index_div) (use f(11) in simp)
  finally have "cx_first x + (cx_q0 x + cx_count x + ?C - 1) div ?C < 4294967296" using f(3,4) by linarith
  moreover have "w32 (cx_q0 x + cx_count x + ?C - 1) = cx_q0 x + cx_count x + ?C - 1" using sum num by (intro w32_id) linarith
  ultimately have hi: "batch_page_hi x = cx_first x + (cx_q0 x + cx_count x + ?C - 1) div ?C"
    by (simp add: batch_page_hi_def Let_def w32_id)
  have "chunk_of x P i + ?C \<le> cx_q0 x + cx_count x + ?C - 1" using view(4) by linarith
  from div_le_mono [OF this, of ?C] have "Suc (P - cx_first x) \<le> (cx_q0 x + cx_count x + ?C - 1) div ?C"
    using f(11) div by (simp add: div_add_self2)
  then show "P < batch_page_hi x" unfolding hi using view(1) by linarith
qed

lemma row_update_reflects:
  assumes ok: "ctx_ok x B" and row: "row < B * ra_N (sc_rows (cx_args x))"
    and src_row: "src_row < B * ra_M (sc_rows (cx_args x)) * ra_W (sc_rows (cx_args x))" and T: "reflects x mem T"
  shows "reflects x (row_update x src src_row row mem)
    (\<lambda>P. if P div ra_S (sc_rows (cx_args x)) = row
       then splice_at (cx_args x) (cx_ops x) 0 (ra_page_bytes (sc_rows (cx_args x))) (src (src_row * ra_S (sc_rows (cx_args x)) + P mod ra_S (sc_rows (cx_args x)))) (T P)
       else T P)"
proof -
  let ?a = "sc_rows (cx_args x)"
  let ?S = "ra_S ?a"
  note f = ctx_facts [OF ok] and b = rows_shape_bounds [OF ctx_facts(1) [OF ok]]
  have "Suc row * ?S \<le> B * ra_N ?a * ?S" using row by (intro mult_le_mono1) simp
  then have rows: "w32 (row * ?S) = row * ?S" "w32 ((row + 1) * ?S) = (row + 1) * ?S"
    using f(4) by (intro w32_id, simp)+
  define lo hi where "lo = max (batch_page_lo x) (row * ?S)" and "hi = min (batch_page_hi x) ((row + 1) * ?S)"
  have page: "P div ?S = row \<and> P < 4294967296 \<and> w32 (src_row * ?S + (P - row * ?S)) = src_row * ?S + P mod ?S"
    if "P \<in> set [lo..<hi]" for P
  proof -
    from that have P: "row * ?S \<le> P" "P < row * ?S + ?S" by (auto simp: lo_def hi_def)
    then obtain s where s: "P = row * ?S + s" "s < ?S" by (metis le_add_diff_inverse nat_add_left_cancel_less)
    then have "P div ?S = row" "P mod ?S = s" by simp_all
    moreover have "src_row * ?S + s < 4294967296" using index_less_product [OF src_row s(2)] b(3) by linarith
    moreover have "P < 4294967296" using index_less_product [OF row s(2)] f(4) by (simp add: s(1))
    ultimately show ?thesis by (simp add: s(1) w32_id)
  qed
  have folded: "reflects x (foldl (\<lambda>mem P. page_update x src (w32 (src_row * ?S + (P - row * ?S))) P mem) mem [lo..<hi])
      (\<lambda>P. if P \<in> set [lo..<hi] then splice_at (cx_args x) (cx_ops x) 0 (ra_page_bytes ?a) (src (w32 (src_row * ?S + (P - row * ?S)))) (T P) else T P)"
    by (rule pages_reflect [OF ok _ _ T]) (use page in auto)
  have eq: "row_update x src src_row row mem = foldl (\<lambda>mem P. page_update x src (w32 (src_row * ?S + (P - row * ?S))) P mem) mem [lo..<hi]"
    by (simp only: row_update_def Let_def rows lo_def hi_def)
  have listed: "P \<in> set [lo..<hi]" if "in_view x P i" "P div ?S = row" for P i
  proof -
    have "row * ?S \<le> P" "P < (row + 1) * ?S"
      using that(2) b(5) dividend_less_div_times [of ?S P] by auto
    then show ?thesis using batch_pages [OF ok that(1)] by (simp add: lo_def hi_def)
  qed
  show ?thesis
    unfolding reflects_def eq
  proof (intro allI impI)
    fix P i assume view: "in_view x P i"
    show "foldl (\<lambda>mem P. page_update x src (w32 (src_row * ?S + (P - row * ?S))) P mem) mem [lo..<hi] (view_addr x P i) =
        (if P div ?S = row then splice_at (cx_args x) (cx_ops x) 0 (ra_page_bytes ?a) (src (src_row * ?S + P mod ?S)) (T P) else T P) i"
    proof (cases "P \<in> set [lo..<hi]")
      case True
      note p = page [OF True]
      have q: "P div ?S = row" "w32 (src_row * ?S + (P - row * ?S)) = src_row * ?S + P mod ?S" using p by blast+
      note F = folded [unfolded reflects_def, rule_format, OF view]
      show ?thesis unfolding F using True q(1) by (simp only: if_True q(2) simp_thms)
    next
      case False
      then have "P div ?S \<noteq> row" using listed [OF view] by blast
      then show ?thesis unfolding folded [unfolded reflects_def, rule_format, OF view] using False by (simp only: if_False)
    qed
  qed
qed

text \<open>The source of a chunk of positions, streamed to \<open>source_l1\<close>.\<close>

definition source_at :: "scatter_ctx \<Rightarrow> pages \<Rightarrow> nat \<Rightarrow> nat \<Rightarrow> nat \<Rightarrow> nat \<Rightarrow> l1 \<Rightarrow> bool" where
  "source_at x src source_l1 b m0 n mem \<longleftrightarrow>
     (let a = sc_rows (cx_args x); w = ra_W a * column_bytes a in
      ra_column a \<longrightarrow> clear_of_batch x source_l1 (n * w) \<and> (\<forall>k < n * w. mem (source_l1 + k) = src b (m0 * w + k)))"

lemma source_at_same: "source_at x src source_l1 b m0 n mem \<Longrightarrow> same_outside x mem mem' \<Longrightarrow> source_at x src source_l1 b m0 n mem'"
  unfolding source_at_def Let_def using same_outside_clear by metis

lemma window_update_reflects:
  assumes ok: "ctx_ok x B" and item: "b < B" "m0 + i < ra_M (sc_rows (cx_args x))" "i < n" "j < ra_W (sc_rows (cx_args x))"
    and T: "reflects x mem T" and source: "source_at x src source_l1 b m0 n mem"
  defines "a \<equiv> sc_rows (cx_args x)"
  defines "it \<equiv> b * ra_M a + (m0 + i)"
  shows "reflects x (window_update x src source_l1 b (m0 + i) i (position_coords a d it) mem j) (scatter_window (cx_args x) (cx_ops x) d src it T j) \<and>
    source_at x src source_l1 b m0 n (window_update x src source_l1 b (m0 + i) i (position_coords a d it) mem j)"
proof -
  note f = ctx_facts [OF ok, folded a_def]
  note shape = f(1) and rf = rows_shape_facts [OF f(1)] and rb = rows_shape_bounds [OF f(1)]
  have it: "it div ra_M a = b" "it mod ra_M a = m0 + i" using item(2) by (simp_all add: it_def a_def)
  have item_less: "it < B * ra_M a" unfolding it_def using index_less_product [OF item(1,2)] by (simp add: a_def)
  let ?row = "b * ra_N a + gather_row a d it j"
  have row: "?row < B * ra_N a" by (rule index_less_product [OF item(1) window_row_gather(2) [OF shape]])
  have "?row * 1 \<le> ?row * ra_S a" using rb(5) by (intro mult_le_mono2) simp
  also have "?row * ra_S a < B * ra_N a * ra_S a" using row rb(5) by (rule mult_less_mono1)
  also note f(4)
  finally have small: "?row < 4294967296" by (simp only: mult_1_right)
  have w: "w32 (b * ra_N a + window_row (ra_KR a) (position_coords a d it) j (ra_windows a) (ra_strides a)) = ?row"
    unfolding window_row_gather(1) [OF shape] using small by (rule w32_id)
  show ?thesis
  proof (cases "ra_column a")
    case False
    have src_row: "it * ra_W a + j < B * ra_M a * ra_W a" by (rule index_less_product [OF item_less item(4) [folded a_def]])
    have "window_update x src source_l1 b (m0 + i) i (position_coords a d it) mem j = row_update x src (it * ra_W a + j) ?row mem"
      using False by (simp add: window_update_def Let_def a_def [symmetric] w it_def [symmetric])
    with row_update_reflects [OF ok row [unfolded a_def] src_row [unfolded a_def] T, of src, folded a_def] False show ?thesis
      by (simp add: scatter_window_def source_at_def Let_def a_def [symmetric] it)
  next
    case True
    let ?c = "column_bytes a" and ?start = "start_of a d it ! ra_KR a"
    note read = gather_read_column(1) [OF shape True item_less item(4) [folded a_def], of d]
    have K: "ra_K a - 1 = ra_KR a" "ra_KR a < ra_K a" using rf(11) [OF True] by simp_all
    have start: "0 \<le> ?start" "?start \<le> int (ra_sizes a ! ra_KR a) - int (ra_windows a ! ra_KR a)"
      using start_of_ok [OF shape, of d it] K(2) by (auto simp: start_ok_def)
    then have "nat ?start + ra_windows a ! ra_KR a \<le> ra_sizes a ! ra_KR a" by simp
    then have "(nat ?start + ra_windows a ! ra_KR a) * ra_elem_bytes a \<le> ra_sizes a ! ra_KR a * ra_elem_bytes a" by (rule mult_le_mono1)
    moreover have "ra_sizes a ! ra_KR a * ra_elem_bytes a = ra_page_bytes a"
      using shape True unfolding rows_shape_ok_def K(1) [symmetric] by blast
    moreover have c: "?c = ra_windows a ! ra_KR a * ra_elem_bytes a" using rf(9) [OF True] unfolding K(1) .
    ultimately have fits: "nat ?start * ra_elem_bytes a + ?c \<le> ra_page_bytes a" by (simp only: distrib_right)
    have "tr_offset (gather_read a (position_coords a d it) it j) = nat ?start * ra_elem_bytes a" by (simp only: read transfer.simps)
    then have offset: "w32 (coord32 (co_c (position_coords a d it) ! (ra_K a - 1)) * ra_elem_bytes a) = nat ?start * ra_elem_bytes a"
      using True by (simp add: gather_read_def Let_def)
    have elems: "whole_elements (cx_args x) (nat ?start * ra_elem_bytes a)" "whole_elements (cx_args x) ?c"
      using f(8) by (auto simp: whole_elements_def elements_ok_def c [unfolded a_def] a_def)
    let ?src = "source_l1 + (i * ra_W a + j) * ?c"
    have inside: "(i * ra_W a + j) * ?c + k < n * (ra_W a * ?c)" if "k < ?c" for k
      using index_less_product [OF index_less_product [OF item(3,4)] that [unfolded a_def]] by (simp add: a_def mult.assoc)
    have source': "clear_of_batch x source_l1 (n * (ra_W a * ?c))" "\<And>k. k < n * (ra_W a * ?c) \<Longrightarrow> mem (source_l1 + k) = src b (m0 * (ra_W a * ?c) + k)"
      using source True by (simp_all add: source_at_def Let_def a_def [symmetric])
    have clear: "clear_of_batch x ?src ?c"
    proof -
      have "(i * ra_W a + j) * ?c + ?c \<le> n * (ra_W a * ?c)"
        using inside [of "?c - 1"] rf(10) [OF True] by linarith
      then show ?thesis using source'(1) unfolding clear_of_batch_def by linarith
    qed
    have bytes: "mem (?src + k) = src b (((m0 + i) * ra_W a + j) * ?c + k)" if "k < ?c" for k
      using source'(2) [OF inside [OF that]] by (simp add: add.assoc distrib_left distrib_right mult.assoc)
    have eq: "window_update x src source_l1 b (m0 + i) i (position_coords a d it) mem j =
        column_parts x ?row (nat ?start * ra_elem_bytes a) ?src ?c mem"
      using True offset by (simp add: window_update_def Let_def a_def [symmetric] w)
    note parts = column_parts_reflects [OF ok small fits [unfolded a_def] elems [unfolded a_def] T clear [unfolded a_def], folded a_def]
    have "splice_at (cx_args x) (cx_ops x) (nat ?start * ra_elem_bytes a) ?c (\<lambda>k. mem (?src + k)) (T ?row) =
        splice_at (cx_args x) (cx_ops x) (nat ?start * ra_elem_bytes a) ?c (\<lambda>k. src b (((m0 + i) * ra_W a + j) * ?c + k)) (T ?row)"
    proof
      fix y
      show "splice_at (cx_args x) (cx_ops x) (nat ?start * ra_elem_bytes a) ?c (\<lambda>k. mem (?src + k)) (T ?row) y =
        splice_at (cx_args x) (cx_ops x) (nat ?start * ra_elem_bytes a) ?c (\<lambda>k. src b (((m0 + i) * ra_W a + j) * ?c + k)) (T ?row) y"
        using bytes elems(2)
        by (cases "nat ?start * ra_elem_bytes a \<le> y \<and> y < nat ?start * ra_elem_bytes a + ?c")
          (auto simp: splice_outside whole_elements_def intro: splice_cong)
    qed
    then have R: "reflects x (column_parts x ?row (nat ?start * ra_elem_bytes a) ?src ?c mem) (scatter_window (cx_args x) (cx_ops x) d src it T j)"
      using parts True by (simp add: scatter_window_def Let_def a_def [symmetric] it)
    have "source_at x src source_l1 b m0 n (column_parts x ?row (nat ?start * ra_elem_bytes a) ?src ?c mem)"
      by (rule source_at_same [OF source conjunct2 [OF parts]])
    with R show ?thesis unfolding eq by (rule conjI)
  qed
qed


section \<open>Positions\<close>

lemma decode_rows:
  assumes "KR \<le> K"
  shows "co_c (decode KR u ptr stride sizes windows) = take KR (co_c (decode K u ptr stride sizes windows))"
    and "co_out_of_bounds (decode KR u ptr stride sizes windows) \<Longrightarrow> co_out_of_bounds (decode K u ptr stride sizes windows)"
  using assms by (auto simp: decode_def Let_def take_map list_ex_iff)

lemma window_row_cong:
  assumes "\<And>k. k < KR \<Longrightarrow> co_c c ! k = co_c c' ! k"
  shows "window_row KR c j windows strides = window_row KR c' j windows strides"
proof -
  have "(\<And>k. k < n \<Longrightarrow> e ! k = e' ! k) \<Longrightarrow> window_row_loop n e windows strides j row = window_row_loop n e' windows strides j row" for n e e' j row
    by (induction n arbitrary: j row) (simp_all add: Let_def)
  from this [OF assms] show ?thesis by (simp add: window_row_def)
qed

lemma windows_reflect:
  assumes ok: "ctx_ok x B" and item: "b < B" "m0 + i < ra_M (sc_rows (cx_args x))" "i < n"
    and T: "reflects x mem T" and source: "source_at x src source_l1 b m0 n mem" and js: "set js \<subseteq> {..<ra_W (sc_rows (cx_args x))}"
  defines "a \<equiv> sc_rows (cx_args x)"
  defines "it \<equiv> b * ra_M a + (m0 + i)"
  shows "reflects x (foldl (window_update x src source_l1 b (m0 + i) i (position_coords a d it)) mem js)
      (foldl (scatter_window (cx_args x) (cx_ops x) d src it) T js) \<and>
    source_at x src source_l1 b m0 n (foldl (window_update x src source_l1 b (m0 + i) i (position_coords a d it)) mem js)"
  using T source js
proof (induction js arbitrary: mem T)
  case (Cons j js)
  have j: "j < ra_W (sc_rows (cx_args x))" "set js \<subseteq> {..<ra_W (sc_rows (cx_args x))}" using Cons.prems(3) by simp_all
  note one = window_update_reflects [OF ok item j(1) Cons.prems(1,2), of d, folded a_def, folded it_def]
  from Cons.IH [OF conjunct1 [OF one] conjunct2 [OF one] j(2)] show ?case by simp
qed simp

lemma position_update_reflects:
  assumes ok: "ctx_ok x B" and item: "b < B" "m0 + i < ra_M (sc_rows (cx_args x))" "i < n"
    and T: "reflects x mem T" and source: "source_at x src source_l1 b m0 n mem"
  defines "a \<equiv> sc_rows (cx_args x)"
  defines "it \<equiv> b * ra_M a + (m0 + i)"
  assumes words: "\<And>k. k < ra_K a \<Longrightarrow> words (i + k * ra_index_stride a) = position_index a d it k"
  shows "reflects x (position_update x src source_l1 b m0 words mem i) (scatter_item (cx_args x) (cx_ops x) d src T it) \<and>
    source_at x src source_l1 b m0 n (position_update x src source_l1 b m0 words mem i)"
proof -
  note f = ctx_facts [OF ok, folded a_def]
  note shape = f(1)
  let ?ptr = "\<lambda>k. words (i + k)"
  let ?c = "decode (ra_K a) (ra_unsigned a) ?ptr (ra_index_stride a) (ra_sizes a) (ra_windows a)"
  have c: "?c = position_coords a d it" by (rule decode_position) (rule words)
  have oob: "co_out_of_bounds ?c \<longleftrightarrow> start_of a d it \<noteq> index_values a d it"
    unfolding c by (rule position_coords_start(2) [OF shape])
  show ?thesis
  proof (cases "skip_row x b ?ptr")
    case False
    have "set [0..<ra_W a] \<subseteq> {..<ra_W a}" by auto
    note all = windows_reflect [OF ok item T source this [unfolded a_def], of d, folded a_def, folded it_def]
    from False show ?thesis
      using oob T source all
      by (auto simp: position_update_def Let_def a_def [symmetric] scatter_item_def c)
  next
    case True
    let ?rows_only = "decode (ra_KR a) (ra_unsigned a) ?ptr (ra_index_stride a) (ra_sizes a) (ra_windows a)"
    have skip: "position_update x src source_l1 b m0 words mem i = mem" using True by (simp add: position_update_def Let_def)
    have KR: "ra_KR a \<le> ra_K a" by (rule rows_shape_facts(2) [OF shape])
    have column: "ra_column a" "ra_W a = 1" using True by (simp_all add: skip_row_def Let_def a_def)
    have "reflects x mem (scatter_item (cx_args x) (cx_ops x) d src T it)"
    proof (cases "co_out_of_bounds ?rows_only")
      case True
      then have "start_of a d it \<noteq> index_values a d it" using decode_rows(2) [OF KR] oob by blast
      then show ?thesis using T by (simp add: scatter_item_def a_def)
    next
      case False
      let ?row = "b * ra_N a + gather_row a d it 0"
      have "window_row (ra_KR a) ?rows_only 0 (ra_windows a) (ra_strides a) = window_row (ra_KR a) ?c 0 (ra_windows a) (ra_strides a)"
        by (rule window_row_cong) (simp add: decode_rows(1) [OF KR])
      also have "window_row (ra_KR a) ?c 0 (ra_windows a) (ra_strides a) = gather_row a d it 0"
        unfolding c by (rule window_row_gather(1) [OF shape])
      finally have skip': "cx_num x \<le> w32 (w32 ?row + (2 ^ 32 - cx_first x))"
        using True False by (simp add: skip_row_def Let_def a_def [symmetric])
      have S: "ra_S a = 1" using shape column(1) unfolding rows_shape_ok_def by blast
      have "?row < B * ra_N a" by (rule index_less_product [OF item(1) window_row_gather(2) [OF shape]])
      then have small: "?row < 4294967296" using f(4) by (simp add: S)
      have out: "\<not> (cx_first x \<le> ?row \<and> ?row < cx_first x + cx_num x)"
      proof
        assume range: "cx_first x \<le> ?row \<and> ?row < cx_first x + cx_num x"
        have "?row + (2 ^ 32 - cx_first x) = (?row - cx_first x) + 2 ^ 32" using range small by simp
        then have "w32 (?row + (2 ^ 32 - cx_first x)) = (?row - cx_first x) mod 2 ^ 32" by (simp only: w32_def mod_add_self2)
        also have "\<dots> = ?row - cx_first x" using small by (intro mod_less) simp
        finally have "cx_num x \<le> ?row - cx_first x" using skip' small by (simp only: w32_id)
        then show False using range by linarith
      qed
      have "it div ra_M a = b" using item(2) by (simp add: it_def a_def)
      then have "scatter_item (cx_args x) (cx_ops x) d src T it P = T P" if "P \<noteq> ?row" for P
        using that column by (simp add: scatter_item_def scatter_window_def Let_def a_def [symmetric])
      moreover have "P \<noteq> ?row" if "in_view x P i" for P i using that out by (auto simp: in_view_def)
      ultimately show ?thesis using T by (simp add: reflects_def)
    qed
    then show ?thesis using source by (simp only: skip simp_thms)
  qed
qed

section \<open>Chunks of positions\<close>

definition stream_ok :: "scatter_ctx \<Rightarrow> bool" where
  "stream_ok x \<longleftrightarrow> (let a = sc_rows (cx_args x); w = ra_W a * column_bytes a in
     0 < ra_index_batch a \<and> ra_index_batch a + 16 \<le> ra_index_stride a \<and>
     (ra_column a \<longrightarrow> clear_of_batch x (cx_stream x) (64 + ra_index_batch a * w) \<and> ra_M a * w < 2 ^ 32))"

lemma load_source_ok:
  assumes ok: "ctx_ok x B" and stream: "stream_ok x" and m0: "m0 < ra_M (sc_rows (cx_args x))" and T: "reflects x mem T"
  shows "reflects x (fst (load_source x src b m0 mem)) T \<and>
    source_at x src (snd (load_source x src b m0 mem)) b m0 (positions_at (sc_rows (cx_args x)) m0) (fst (load_source x src b m0 mem))"
proof (cases "ra_column (sc_rows (cx_args x))")
  case False
  then show ?thesis using T by (simp add: load_source_def source_at_def Let_def)
next
  case True
  define a where "a = sc_rows (cx_args x)"
  let ?n = "positions_at a m0" and ?w = "ra_W a * column_bytes a"
  note f = ctx_facts [OF ok, folded a_def]
  have n: "?n \<le> ra_index_batch a" "m0 + ?n \<le> ra_M a" using m0 by (auto simp: positions_at_def a_def)
  have clear: "clear_of_batch x (cx_stream x) (64 + ra_index_batch a * ?w)" and w: "ra_M a * ?w < 4294967296"
    using stream True by (simp_all add: stream_ok_def Let_def a_def)
  have M: "0 < ra_M a" using m0 by (simp add: a_def)
  have le: "x * ?w \<le> ra_M a * ?w" if "x \<le> ra_M a" for x using that by (rule mult_le_mono1)
  have "1 * ?w \<le> ra_M a * ?w" using M by (intro le) simp
  then have "?w < 4294967296" using w by linarith
  then have sb: "source_bytes a = ?w" using True by (simp add: source_bytes_def a_def [symmetric] w32_id)
  have "m0 * ?w < 4294967296" "?n * ?w < 4294967296" using le [of m0] le [of ?n] n(2) w by linarith+
  then have w32s: "w32 (m0 * source_bytes a) = m0 * ?w" "w32 (?n * source_bytes a) = ?n * ?w" unfolding sb by (simp_all only: w32_id)
  define addr where "addr = cx_stream x + m0 * ?w mod 64"
  have load: "load_source x src b m0 mem = (place addr (map (\<lambda>i. src b (m0 * ?w + i)) [0..<?n * ?w]) mem, addr)"
    using True by (simp add: load_source_def Let_def a_def [symmetric] w32s stream_chunk_def kGranule_def addr_def)
  have "?n * ?w \<le> ra_index_batch a * ?w" using n(1) by (rule mult_le_mono1)
  moreover have "m0 * ?w mod 64 < 64" by simp
  ultimately have clear': "clear_of_batch x addr (?n * ?w)" using clear unfolding clear_of_batch_def addr_def by linarith
  have "reflects x (fst (load_source x src b m0 mem)) T"
    unfolding reflects_def
  proof (intro allI impI)
    fix P i assume view: "in_view x P i"
    have "\<not> (addr \<le> view_addr x P i \<and> view_addr x P i < addr + ?n * ?w)"
      using view_addr_region [OF ok view] clear' unfolding clear_of_batch_def by linarith
    then have "fst (load_source x src b m0 mem) (view_addr x P i) = mem (view_addr x P i)" by (auto simp: load place_def)
    then show "fst (load_source x src b m0 mem) (view_addr x P i) = T P i" using T view by (simp add: reflects_def)
  qed
  moreover have "place addr (map (\<lambda>i. src b (m0 * ?w + i)) [0..<?n * ?w]) mem (addr + k) = src b (m0 * ?w + k)" if "k < ?n * ?w" for k
    using that by (simp add: place_at)
  ultimately show ?thesis using clear' unfolding load by (simp add: source_at_def Let_def a_def [symmetric])
qed

lemma chunk_update_reflects:
  assumes ok: "ctx_ok x B" and stream: "stream_ok x" and b: "b < B" and m0: "m0 < ra_M (sc_rows (cx_args x))" and T: "reflects x mem T"
  defines "a \<equiv> sc_rows (cx_args x)"
  shows "reflects x (chunk_update x d src junk b m0 mem)
    (foldl (scatter_item (cx_args x) (cx_ops x) d src) T [b * ra_M a + m0..<b * ra_M a + (m0 + positions_at a m0)])"
proof -
  let ?n = "positions_at a m0"
  let ?load = "load_source x src b m0 mem"
  let ?ix = "stream_index (dr_indices d) (ra_K a) (ra_index_stride a) (if ra_shared a then 0 else b) m0 ?n junk"
  let ?words = "\<lambda>k. fst ?ix (snd ?ix + k)"
  have n: "m0 + ?n \<le> ra_M a" "?n + 16 \<le> ra_index_stride a"
    using m0 stream by (auto simp: positions_at_def stream_ok_def Let_def a_def)
  have words: "?words (i + k * ra_index_stride a) = position_index a d (b * ra_M a + (m0 + i)) k" if "i < ?n" "k < ra_K a" for i k
  proof -
    have "m0 + i < ra_M a" using that(1) n(1) by simp
    then have "(b * ra_M a + (m0 + i)) div ra_M a = b" "(b * ra_M a + (m0 + i)) mod ra_M a = m0 + i" by simp_all
    then show ?thesis
      using stream_index_at [OF that(2,1) n(2), of "dr_indices d" "if ra_shared a then 0 else b" m0 junk]
      by (simp add: position_index_def add.assoc)
  qed
  note load = load_source_ok [OF ok stream m0 T, of src b, folded a_def]
  have "m \<le> ?n \<Longrightarrow> reflects x (foldl (position_update x src (snd ?load) b m0 ?words) (fst ?load) [0..<m])
      (foldl (scatter_item (cx_args x) (cx_ops x) d src) T (map (\<lambda>i. b * ra_M a + (m0 + i)) [0..<m])) \<and>
    source_at x src (snd ?load) b m0 ?n (foldl (position_update x src (snd ?load) b m0 ?words) (fst ?load) [0..<m])" for m
  proof (induction m)
    case (Suc m)
    then have m: "m < ?n" and IH: "reflects x (foldl (position_update x src (snd ?load) b m0 ?words) (fst ?load) [0..<m])
        (foldl (scatter_item (cx_args x) (cx_ops x) d src) T (map (\<lambda>i. b * ra_M a + (m0 + i)) [0..<m]))"
      "source_at x src (snd ?load) b m0 ?n (foldl (position_update x src (snd ?load) b m0 ?words) (fst ?load) [0..<m])" by simp_all
    have "m0 + m < ra_M a" using m n(1) by simp
    from position_update_reflects [OF ok b this [unfolded a_def] m IH words [OF m, unfolded a_def], folded a_def]
    show ?case by simp
  qed (use load in simp)
  from this [OF order_refl] have "reflects x (foldl (position_update x src (snd ?load) b m0 ?words) (fst ?load) [0..<?n])
      (foldl (scatter_item (cx_args x) (cx_ops x) d src) T (map (\<lambda>i. b * ra_M a + (m0 + i)) [0..<?n]))" by blast
  moreover have "map (\<lambda>i. b * ra_M a + (m0 + i)) [0..<?n] = [b * ra_M a + m0..<b * ra_M a + (m0 + ?n)]"
    by (rule nth_equalityI) (simp_all add: add.assoc)
  moreover have "chunk_update x d src junk b m0 mem = foldl (position_update x src (snd ?load) b m0 ?words) (fst ?load) [0..<?n]"
    by (simp add: chunk_update_def Let_def a_def [symmetric] split_beta)
  ultimately show ?thesis by simp
qed

section \<open>A batch\<close>

lemma batch_chunks:
  assumes "0 < ib"
  shows "concat (map (\<lambda>t. [k + t * ib..<k + (t * ib + (if M - t * ib < ib then M - t * ib else ib))]) [0..<div_up M ib]) = [k..<k + (M :: nat)]"
proof -
  have "m \<le> div_up M ib \<Longrightarrow> concat (map (\<lambda>t. [k + t * ib..<k + (t * ib + (if M - t * ib < ib then M - t * ib else ib))]) [0..<m]) =
      [k..<k + min (m * ib) M]" for m
  proof (induction m)
    case (Suc m)
    then have "m < div_up M ib" by simp
    then have m: "m * ib < M" using assms by (simp add: less_div_up_iff)
    then have last: "m * ib + (if M - m * ib < ib then M - m * ib else ib) = min (Suc m * ib) M" by (auto simp: min_def)
    have "[k..<k + min (Suc m * ib) M] = [k..<k + m * ib] @ [k + m * ib..<k + min (Suc m * ib) M]"
      by (rule upt_split) (use m in \<open>simp_all add: min_def\<close>)
    then show ?case using Suc m by (simp add: last min_def del: mult_Suc)
  qed simp
  from this [OF order_refl] have "concat (map (\<lambda>t. [k + t * ib..<k + (t * ib + (if M - t * ib < ib then M - t * ib else ib))]) [0..<div_up M ib]) =
      [k..<k + min (div_up M ib * ib) M]" .
  moreover have "M \<le> div_up M ib * ib" using less_div_up_iff [OF assms, of "div_up M ib" M] by simp
  ultimately show ?thesis by (simp add: min_absorb2)
qed

lemma batch_positions_reflect:
  assumes ok: "ctx_ok x B" and stream: "stream_ok x" and T: "reflects x mem T"
    and bms: "\<And>b m0. (b, m0) \<in> set bms \<Longrightarrow> b < B \<and> m0 < ra_M (sc_rows (cx_args x))"
  defines "a \<equiv> sc_rows (cx_args x)"
  shows "reflects x (foldl (\<lambda>mem (b, m0). chunk_update x d src junk b m0 mem) mem bms)
    (foldl (scatter_item (cx_args x) (cx_ops x) d src) T
       (concat (map (\<lambda>(b, m0). [b * ra_M a + m0..<b * ra_M a + (m0 + positions_at a m0)]) bms)))"
  using T bms
proof (induction bms arbitrary: mem T)
  case (Cons bm bms)
  obtain b m0 where bm: "bm = (b, m0)" by (cases bm)
  have "b < B" "m0 < ra_M (sc_rows (cx_args x))" using Cons.prems(2) [of b m0] by (simp_all add: bm)
  note one = chunk_update_reflects [OF ok stream this Cons.prems(1), of d src junk, folded a_def]
  have "reflects x (foldl (\<lambda>mem (b, m0). chunk_update x d src junk b m0 mem) (chunk_update x d src junk b m0 mem) bms)
    (foldl (scatter_item (cx_args x) (cx_ops x) d src)
       (foldl (scatter_item (cx_args x) (cx_ops x) d src) T [b * ra_M a + m0..<b * ra_M a + (m0 + positions_at a m0)])
       (concat (map (\<lambda>(b, m0). [b * ra_M a + m0..<b * ra_M a + (m0 + positions_at a m0)]) bms)))"
    by (rule Cons.IH [OF one]) (use Cons.prems(2) in auto)
  then show ?case unfolding bm foldl.simps list.map concat.simps foldl_append case_prod_conv .
qed simp

text \<open>After the positions of all batches it meets, the batch holds the output.\<close>

lemma batch_result:
  assumes ok: "ctx_ok x B" and stream: "stream_ok x" and T: "reflects x mem (dr_table d)"
  shows "reflects x (foldl (\<lambda>mem (b, m0). chunk_update x d src junk b m0 mem) mem (batch_positions x)) (scattered (cx_args x) (cx_ops x) d src)"
proof -
  define a where "a = sc_rows (cx_args x)"
  let ?M = "ra_M a" and ?ib = "ra_index_batch a" and ?NS = "ra_N a * ra_S a"
  note f = ctx_facts [OF ok, folded a_def] and rb = rows_shape_bounds [OF ctx_facts(1) [OF ok], folded a_def]
  have num: "0 < cx_num x" using f(6,7) by (cases "cx_num x") auto
  have ib: "0 < ?ib" using stream by (simp add: stream_ok_def Let_def a_def)
  have NSpos: "0 < ?NS" using f(3) num by (intro gr0I) auto
  have B: "0 < B" using f(3) num by (intro gr0I) auto
  have "1 * ?NS \<le> B * ?NS" using B by (intro mult_le_mono1) simp
  moreover have BNS: "B * ?NS < 4294967296" using f(4) by (simp add: mult.assoc)
  ultimately have NS: "w32 ?NS = ?NS" by (intro w32_id) linarith
  have last: "w32 (cx_first x + cx_num x - 1) = cx_first x + cx_num x - 1" using f(3,4) by (intro w32_id) linarith
  define lo hi where "lo = cx_first x div ?NS" and "hi = (cx_first x + cx_num x - 1) div ?NS + 1"
  have "cx_first x + cx_num x - 1 < B * ?NS" using f(3) num by (simp add: mult.assoc)
  then have hi: "hi \<le> B" unfolding hi_def by (simp add: less_mult_imp_div_less Suc_le_eq)
  have positions: "batch_positions x = concat (map (\<lambda>b. map (\<lambda>t. (b, t * ?ib)) [0..<div_up ?M ?ib]) [lo..<hi])"
  proof -
    have nz: "(cx_num x = 0) = False" using num by simp
    show ?thesis by (simp only: batch_positions_def Let_def a_def [symmetric] NS last lo_def hi_def nz if_False)
  qed
  have members: "b < B \<and> m0 < ?M" if "(b, m0) \<in> set (batch_positions x)" for b m0
    using that hi ib by (auto simp: positions less_div_up_iff)
  have "lo \<le> hi" unfolding lo_def hi_def using num by (intro le_SucI [unfolded Suc_eq_plus1]) (simp add: div_le_mono)
  have batches: "concat (map (\<lambda>b. [b * ?M..<b * ?M + ?M]) [lo..<h]) = [lo * ?M..<h * ?M]" if "lo \<le> h" for h
    using that
  proof (induction rule: dec_induct)
    case (step h)
    have "[lo * ?M..<Suc h * ?M] = [lo * ?M..<h * ?M] @ [h * ?M..<Suc h * ?M]"
      by (rule upt_split) (use step(1) in \<open>simp_all add: mult_le_mono1\<close>)
    with step show ?case by (simp add: add.commute)
  qed simp
  have "concat (map (\<lambda>(b, m0). [b * ?M + m0..<b * ?M + (m0 + positions_at a m0)]) (batch_positions x)) =
      concat (map (\<lambda>b. concat (map (\<lambda>t. [b * ?M + t * ?ib..<b * ?M + (t * ?ib + positions_at a (t * ?ib))]) [0..<div_up ?M ?ib])) [lo..<hi])"
  proof -
    have "concat (map g (concat (map (\<lambda>b. map (\<lambda>t. (b, t * ?ib)) [0..<k]) bs))) = concat (map (\<lambda>b. concat (map (\<lambda>t. g (b, t * ?ib)) [0..<k])) bs)"
      for g :: "nat \<times> nat \<Rightarrow> nat list" and k bs
      by (induction bs) (simp_all add: comp_def)
    then show ?thesis by (simp add: positions)
  qed
  also have "\<dots> = concat (map (\<lambda>b. [b * ?M..<b * ?M + ?M]) [lo..<hi])"
    using batch_chunks [OF ib, where M = ?M] by (simp add: positions_at_def)
  also have "\<dots> = [lo * ?M..<hi * ?M]" by (rule batches [OF \<open>lo \<le> hi\<close>])
  finally have items: "concat (map (\<lambda>(b, m0). [b * ?M + m0..<b * ?M + (m0 + positions_at a m0)]) (batch_positions x)) = [lo * ?M..<hi * ?M]" .
  have R: "reflects x (foldl (\<lambda>mem (b, m0). chunk_update x d src junk b m0 mem) mem (batch_positions x))
      (foldl (scatter_item (cx_args x) (cx_ops x) d src) (dr_table d) [lo * ?M..<hi * ?M])"
    unfolding items [symmetric] unfolding a_def
    by (rule batch_positions_reflect [OF ok stream T]) (use members in \<open>auto simp: a_def\<close>)
  have "foldl (scatter_item (cx_args x) (cx_ops x) d src) (dr_table d) [lo * ?M..<hi * ?M] P = scattered (cx_args x) (cx_ops x) d src P"
    if "in_view x P i" for P i
  proof -
    have P: "cx_first x \<le> P" "P < cx_first x + cx_num x" using that by (simp_all add: in_view_def)
    have "lo \<le> P div ?NS" unfolding lo_def using P(1) by (rule div_le_mono)
    moreover have "P \<le> cx_first x + cx_num x - 1" using P(2) by simp
    then have "P div ?NS < hi" unfolding hi_def by (simp add: div_le_mono less_Suc_eq_le)
    ultimately show ?thesis using scattered_range [OF f(1) [unfolded a_def]] by (simp add: a_def)
  qed
  then show ?thesis using R by (simp add: reflects_def)
qed

end
