(* ===== verification/RowsScatterRun.thy ===== *)
theory RowsScatterRun
  imports RowsScatterTensor
begin

text \<open>
  Runs of the kernels of rows_scatter on a core: a complete schedule, in which the reader fills
  the rows buffer group by group and the writer takes it batch by batch, and what it writes. As
  the batch is a multiple of the group, the reader's groups end where the batches end and no
  kernel waits for space that is not coming.
\<close>

section \<open>What a core asks\<close>

text \<open>A region of L1 that does not meet the rows buffer.\<close>

definition clear_of_rows :: "scatter_ctx \<Rightarrow> nat \<Rightarrow> nat \<Rightarrow> bool" where
  "clear_of_rows x at len \<longleftrightarrow> at + len \<le> cx_rows x \<or> cx_rows x + sc_batch (cx_args x) * sc_entry (cx_args x) \<le> at"

definition scatter_ok :: "scatter_ctx \<Rightarrow> nat \<Rightarrow> bool" where
  "scatter_ok x B \<longleftrightarrow> (let s = cx_args x; a = sc_rows s; w = ra_W a * column_bytes a in
     rows_shape_ok a B \<and> ra_chunk_bytes a \<le> sc_entry s \<and> cx_first x + cx_num x \<le> B * ra_N a * ra_S a \<and>
     B * ra_N a * ra_S a < 2 ^ 32 \<and> cx_num x * page_chunks a + page_chunks a \<le> 2 ^ 32 \<and> elements_ok s \<and>
     clear_of_rows x (cx_scratch x) (ra_chunk_bytes a) \<and>
     0 < ra_index_batch a \<and> ra_index_batch a + 16 \<le> ra_index_stride a \<and>
     (ra_column a \<longrightarrow> clear_of_rows x (cx_stream x) (64 + ra_index_batch a * w) \<and> ra_M a * w < 2 ^ 32) \<and>
     0 < ra_group a \<and> 0 < sc_batch s \<and> ra_group a dvd sc_batch s)"

abbreviation batch_ctx :: "scatter_ctx \<Rightarrow> nat \<Rightarrow> nat \<Rightarrow> scatter_ctx" where
  "batch_ctx x q0 num \<equiv> x\<lparr>cx_q0 := q0, cx_count := num\<rparr>"

abbreviation core_chunks :: "scatter_ctx \<Rightarrow> nat" where
  "core_chunks x \<equiv> cx_num x * page_chunks (sc_rows (cx_args x))"

lemma clear_batch: "clear_of_rows x at len \<Longrightarrow> num \<le> sc_batch (cx_args x) \<Longrightarrow> clear_of_batch (batch_ctx x q0 num) at len"
proof -
  assume "clear_of_rows x at len" "num \<le> sc_batch (cx_args x)"
  moreover from this(2) have "num * sc_entry (cx_args x) \<le> sc_batch (cx_args x) * sc_entry (cx_args x)" by (rule mult_le_mono1)
  moreover have "f \<le> e \<Longrightarrow> at + len \<le> r \<or> r + e \<le> at \<Longrightarrow> at + len \<le> r \<or> r + f \<le> at" for e f r :: nat by linarith
  ultimately have "at + len \<le> cx_rows x \<or> cx_rows x + num * sc_entry (cx_args x) \<le> at" unfolding clear_of_rows_def by blast
  then show ?thesis by (simp add: clear_of_batch_def)
qed

lemma scatter_batch_ok:
  assumes "scatter_ok x B" "0 < num" "num \<le> sc_batch (cx_args x)" "q0 + num \<le> core_chunks x"
  shows "ctx_ok (batch_ctx x q0 num) B" "stream_ok (batch_ctx x q0 num)"
proof -
  note ok = assms(1) [unfolded scatter_ok_def Let_def]
  have "clear_of_rows x (cx_scratch x) (ra_chunk_bytes (sc_rows (cx_args x)))" using ok by blast
  from clear_batch [OF this assms(3), of q0] show "ctx_ok (batch_ctx x q0 num) B"
    using ok assms(2,4) unfolding ctx_ok_def Let_def by simp
  have "ra_column (sc_rows (cx_args x)) \<Longrightarrow>
      clear_of_batch (batch_ctx x q0 num) (cx_stream x) (64 + ra_index_batch (sc_rows (cx_args x)) * (ra_W (sc_rows (cx_args x)) * column_bytes (sc_rows (cx_args x))))"
    using ok assms(3) by (intro clear_batch) blast+
  then show "stream_ok (batch_ctx x q0 num)" using ok unfolding stream_ok_def Let_def by simp
qed

section \<open>Self-loops of the writer\<close>

definition self_push :: "scatter_dfb \<Rightarrow> (scatter_store \<Rightarrow> rows_entry) \<Rightarrow> scatter_instr list" where
  "self_push e f = [Reserve e 1, Fill e 0 f, Push e 1]"

definition self_pop :: "scatter_dfb \<Rightarrow> scatter_instr list" where
  "self_pop e = [Pop e 1]"

lemma exec_self_push:
  assumes "dfb_at N r e q [] [] 0 0" "N e = 1"
  shows "\<exists>r'. exec_list N (self_push e f) (r, l) = Some (r', l) \<and> dfb_at N r' e q [f l] [] 0 0 \<and> only_ring e r r'"
proof -
  from exec_reserve [OF assms(1), of 1 l] assms(2) obtain r1 where
    r1: "exec N (Reserve e 1) (r, l) = Some (r1, l)" "dfb_at N r1 e q [] [] 1 0" "only_ring e r r1" by auto
  from exec_fill [OF r1(2), of 0 f l] assms(2) obtain r2 where
    r2: "exec N (Fill e 0 f) (r1, l) = Some (r2, l)" "dfb_at N r2 e q [] [f l] 1 0" "only_ring e r1 r2" by auto
  from exec_push [OF r2(2), of 1 l] obtain r3 where
    r3: "exec N (Push e 1) (r2, l) = Some (r3, l)" "dfb_at N r3 e q [f l] [] 0 0" "only_ring e r2 r3" by auto
  have "only_ring e r r3" by (rule only_ring_trans [OF r1(3) only_ring_trans [OF r2(3) r3(3)]])
  then show ?thesis by (intro exI [of _ r3]) (simp add: self_push_def r1(1)[unfolded One_nat_def] r2(1) r3(1)[unfolded One_nat_def] r3(2))
qed

lemma exec_self_pop:
  assumes "dfb_at N r e q [v] [] 0 0"
  shows "\<exists>r'. exec_list N (self_pop e) (r, l) = Some (r', l) \<and> dfb_at N r' e (q + 1) [] [] 0 0 \<and> only_ring e r r'"
  using exec_pop [OF assms, of 1 l] by (auto simp: self_pop_def)

text \<open>The index and stream buffers are empty between chunks; the rows buffer does not move.\<close>

definition idle :: "(scatter_dfb \<Rightarrow> nat) \<Rightarrow> (scatter_dfb \<Rightarrow> rows_entry ring) \<Rightarrow> bool" where
  "idle N r \<longleftrightarrow> (\<exists>q. dfb_at N r IndexBuf q [] [] 0 0) \<and> (\<exists>q. dfb_at N r StreamBuf q [] [] 0 0)"

lemma idle_other: "idle N r \<Longrightarrow> only_ring e r r' \<Longrightarrow> e \<noteq> IndexBuf \<Longrightarrow> e \<noteq> StreamBuf \<Longrightarrow> idle N r'"
  by (simp add: idle_def dfb_at_only)

lemma exec_chunk_instrs:
  assumes "idle N r" "N IndexBuf = 1" "N StreamBuf = 1"
  shows "\<exists>r'. exec_list N (chunk_instrs x d src junk (b, m0)) (r, st) =
      Some (r', st\<lparr>st_mem := chunk_update x d src junk b m0 (st_mem st)\<rparr>) \<and> idle N r' \<and> r' RowsBuf = r RowsBuf"
proof -
  let ?st = "st\<lparr>st_mem := chunk_update x d src junk b m0 (st_mem st)\<rparr>" and ?a = "sc_rows (cx_args x)"
  let ?words = "\<lambda>_ :: scatter_store. Words (chunk_words x d junk b m0)"
  let ?source = "\<lambda>st. Bytes (\<lambda>i. fst (load_source x src b m0 (st_mem st)) (cx_stream x + i))"
  let ?do = "Do (\<lambda>st. st\<lparr>st_mem := chunk_update x d src junk b m0 (st_mem st)\<rparr>)"
  from assms(1) obtain qi qs where i: "dfb_at N r IndexBuf qi [] [] 0 0" and s: "dfb_at N r StreamBuf qs [] [] 0 0"
    by (auto simp: idle_def)
  from exec_self_push [OF i assms(2), of ?words st] obtain r1 where
    r1: "exec_list N (self_push IndexBuf ?words) (r, st) = Some (r1, st)"
      "dfb_at N r1 IndexBuf qi [Words (chunk_words x d junk b m0)] [] 0 0" "only_ring IndexBuf r r1" by blast
  have s1: "dfb_at N r1 StreamBuf qs [] [] 0 0" using s dfb_at_only [OF r1(3)] by simp
  show ?thesis
  proof (cases "ra_column ?a")
    case False
    from exec_self_pop [OF r1(2), of ?st] obtain r2 where
      r2: "exec_list N (self_pop IndexBuf) (r1, ?st) = Some (r2, ?st)" "dfb_at N r2 IndexBuf (qi + 1) [] [] 0 0" "only_ring IndexBuf r1 r2" by blast
    have "dfb_at N r2 StreamBuf qs [] [] 0 0" using s1 dfb_at_only [OF r2(3)] by simp
    moreover have "chunk_instrs x d src junk (b, m0) = self_push IndexBuf ?words @ [?do] @ self_pop IndexBuf"
      using False by (simp add: chunk_instrs_def Let_def self_push_def self_pop_def)
    then have "exec_list N (chunk_instrs x d src junk (b, m0)) (r, st) = Some (r2, ?st)"
      by (simp only: exec_list_append r1(1) option.simps exec_list.simps exec_do r2(1))
    moreover have "r2 RowsBuf = r RowsBuf" using r1(3) r2(3) by (simp add: only_ring_def)
    ultimately show ?thesis using r2(2) unfolding idle_def by blast
  next
    case True
    from exec_self_push [OF s1 assms(3), of ?source st] obtain r2 where
      r2: "exec_list N (self_push StreamBuf ?source) (r1, st) = Some (r2, st)"
        "dfb_at N r2 StreamBuf qs [?source st] [] 0 0" "only_ring StreamBuf r1 r2" by blast
    from exec_self_pop [OF r2(2), of ?st] obtain r3 where
      r3: "exec_list N (self_pop StreamBuf) (r2, ?st) = Some (r3, ?st)" "dfb_at N r3 StreamBuf (qs + 1) [] [] 0 0" "only_ring StreamBuf r2 r3" by blast
    have "dfb_at N r3 IndexBuf qi [Words (chunk_words x d junk b m0)] [] 0 0"
      using r1(2) dfb_at_only [OF only_ring_trans [OF r2(3) r3(3)]] by simp
    from exec_self_pop [OF this, of ?st] obtain r4 where
      r4: "exec_list N (self_pop IndexBuf) (r3, ?st) = Some (r4, ?st)" "dfb_at N r4 IndexBuf (qi + 1) [] [] 0 0" "only_ring IndexBuf r3 r4" by blast
    have "dfb_at N r4 StreamBuf (qs + 1) [] [] 0 0" using r3(2) dfb_at_only [OF r4(3)] by simp
    moreover have "chunk_instrs x d src junk (b, m0) =
        self_push IndexBuf ?words @ self_push StreamBuf ?source @ [?do] @ self_pop StreamBuf @ self_pop IndexBuf"
      using True by (simp add: chunk_instrs_def Let_def self_push_def self_pop_def)
    then have "exec_list N (chunk_instrs x d src junk (b, m0)) (r, st) = Some (r4, ?st)"
      by (simp only: exec_list_append r1(1) r2(1) option.simps exec_list.simps exec_do r3(1) r4(1))
    moreover have "r4 RowsBuf = r RowsBuf" using r1(3) r2(3) r3(3) r4(3) by (simp add: only_ring_def)
    ultimately show ?thesis using r4(2) unfolding idle_def by blast
  qed
qed

lemma exec_chunks:
  assumes "idle N r" "N IndexBuf = 1" "N StreamBuf = 1"
  shows "\<exists>r'. exec_list N (concat (map (chunk_instrs x d src junk) bms)) (r, st) =
      Some (r', st\<lparr>st_mem := foldl (\<lambda>mem (b, m0). chunk_update x d src junk b m0 mem) (st_mem st) bms\<rparr>) \<and>
    idle N r' \<and> r' RowsBuf = r RowsBuf"
  using assms(1)
proof (induction bms arbitrary: r st)
  case (Cons bm bms)
  obtain b m0 where bm: "bm = (b, m0)" by (cases bm)
  from exec_chunk_instrs [OF Cons.prems assms(2,3), of x d src junk b m0 st] obtain r1 where
    r1: "exec_list N (chunk_instrs x d src junk (b, m0)) (r, st) = Some (r1, st\<lparr>st_mem := chunk_update x d src junk b m0 (st_mem st)\<rparr>)"
      "idle N r1" "r1 RowsBuf = r RowsBuf" by blast
  from Cons.IH [OF r1(2), of "st\<lparr>st_mem := chunk_update x d src junk b m0 (st_mem st)\<rparr>"] obtain r2 where
    r2: "exec_list N (concat (map (chunk_instrs x d src junk) bms)) (r1, st\<lparr>st_mem := chunk_update x d src junk b m0 (st_mem st)\<rparr>) =
        Some (r2, st\<lparr>st_mem := foldl (\<lambda>mem (b, m0). chunk_update x d src junk b m0 mem) (chunk_update x d src junk b m0 (st_mem st)) bms\<rparr>)"
      "idle N r2" "r2 RowsBuf = r1 RowsBuf" by auto
  then show ?case using r1 by (intro exI [of _ r2]) (simp add: bm exec_list_append)
qed simp

section \<open>A batch\<close>

lemma zip_snoc: "length xs < length ys \<Longrightarrow> zip (xs @ [x]) ys = zip xs ys @ [(x, ys ! length xs)]"
proof (induction xs arbitrary: ys)
  case Nil
  then show ?case by (cases ys) simp_all
next
  case (Cons a xs)
  then show ?case by (cases ys) simp_all
qed

lemma load_entries:
  assumes "length vs = k" "k \<le> length es" "\<And>i. i < length es \<Longrightarrow> es ! i = Bytes (p i)"
  shows "st_puts (take_all (map (load_entry x) [0..<k]) es st) = st_puts st \<and>
    (\<forall>i y. i < k \<longrightarrow> y < sc_entry (cx_args x) \<longrightarrow>
      st_mem (take_all (map (load_entry x) [0..<k]) es st) (cx_rows x + i * sc_entry (cx_args x) + y) = p i y)"
  using assms(2)
proof (induction k)
  case (Suc k)
  let ?st = "take_all (map (load_entry x) [0..<k]) es st" and ?e = "sc_entry (cx_args x)"
  have "zip (map (load_entry x) [0..<Suc k]) es = zip (map (load_entry x) [0..<k]) es @ [(load_entry x k, es ! k)]"
    using Suc.prems zip_snoc [of "map (load_entry x) [0..<k]" es "load_entry x k"] by simp
  then have step: "take_all (map (load_entry x) [0..<Suc k]) es st = load_entry x k (es ! k) ?st"
    by (simp add: take_all_def)
  have IH: "st_puts ?st = st_puts st" "\<And>i y. i < k \<Longrightarrow> y < ?e \<Longrightarrow> st_mem ?st (cx_rows x + i * ?e + y) = p i y"
    using Suc by simp_all
  have "st_mem (load_entry x k (es ! k) ?st) (cx_rows x + i * ?e + y) = p i y" if "i < Suc k" "y < ?e" for i y
  proof (cases "i = k")
    case True
    then show ?thesis using that assms(3) [of k] Suc.prems by (simp add: load_entry_def Let_def)
  next
    case False
    then have "i < k" using that by simp
    from index_less_product [OF this that(2)] have "cx_rows x + i * ?e + y < cx_rows x + k * ?e" by simp
    then show ?thesis using IH(2) [OF \<open>i < k\<close> that(2)] by (simp add: load_entry_def Let_def)
  qed
  then show ?case unfolding step using IH(1) by (simp add: load_entry_def Let_def)
qed (simp add: take_all_def)

text \<open>The write of a chunk, as the specification has it.\<close>

definition scatter_put :: "scatter_ctx \<Rightarrow> rows_dram \<Rightarrow> pages \<Rightarrow> nat \<Rightarrow> put" where
  "scatter_put x d src q =
     (let a = sc_rows (cx_args x); page = chunk_page a (cx_first x) q; offset = chunk_offset a q in
      (page, offset, map (\<lambda>i. scattered (cx_args x) (cx_ops x) d src page (offset + i)) [0..<chunk_length a offset]))"

text \<open>Chunk \<open>q\<close>: its bytes are the bytes of its page in the batch.\<close>

lemma chunk_place:
  assumes ok: "ctx_ok x B" and q: "k < cx_count x" and i: "i < chunk_length (sc_rows (cx_args x)) (chunk_offset (sc_rows (cx_args x)) (cx_q0 x + k))"
  defines "a \<equiv> sc_rows (cx_args x)"
  defines "P \<equiv> chunk_page a (cx_first x) (cx_q0 x + k)" and "off \<equiv> chunk_offset a (cx_q0 x + k)"
  shows "in_view x P (off + i)" "view_addr x P (off + i) = cx_rows x + k * sc_entry (cx_args x) + i" "i < sc_entry (cx_args x)"
proof -
  note f = ctx_facts [OF ok, folded a_def]
  let ?q = "cx_q0 x + k" and ?C = "page_chunks a" and ?chunk = "ra_chunk_bytes a"
  have q': "?q < cx_num x * ?C" using q f(6) by linarith
  then have pg: "?q div ?C < cx_num x" by (simp add: less_mult_imp_div_less)
  then have P: "P = cx_first x + ?q div ?C" using f(3,4) by (simp add: P_def chunk_page_def w32_id)
  have c: "?q mod ?C < ?C" using f(11) by simp
  then have "?q mod ?C * ?chunk < ra_page_bytes a" using f(12) by blast
  then have off: "off = ?q mod ?C * ?chunk" "off < ra_page_bytes a" using f(13) by (simp_all add: off_def chunk_offset_def w32_id)
  have i': "i < chunk_length a off" using i by (simp add: off_def a_def)
  then have i_chunk: "i < ?chunk" "off + i < ra_page_bytes a" using off(2) by (auto simp: chunk_length_def split: if_splits)
  then have div: "(off + i) div ?chunk = ?q mod ?C" "(off + i) mod ?chunk = i" unfolding off(1) using index_div index_mod by blast+
  have chunk_eq: "chunk_of x P (off + i) = ?q" by (simp add: chunk_of_def a_def [symmetric] div P)
  show "in_view x P (off + i)" unfolding in_view_def chunk_eq using pg q i_chunk(2) by (simp add: P a_def [symmetric])
  show "view_addr x P (off + i) = cx_rows x + k * sc_entry (cx_args x) + i" unfolding view_addr_def chunk_eq by (simp add: a_def [symmetric] div)
  show "i < sc_entry (cx_args x)" using i_chunk(1) f(2) by linarith
qed

lemma loaded_reflects:
  assumes ok: "ctx_ok x B"
    and mem: "\<And>k y. k < cx_count x \<Longrightarrow> y < sc_entry (cx_args x) \<Longrightarrow> mem (cx_rows x + k * sc_entry (cx_args x) + y) = p k y"
    and p: "\<And>k y. k < cx_count x \<Longrightarrow> y < chunk_length (sc_rows (cx_args x)) (chunk_offset (sc_rows (cx_args x)) (cx_q0 x + k)) \<Longrightarrow>
      p k y = table (chunk_page (sc_rows (cx_args x)) (cx_first x) (cx_q0 x + k)) (chunk_offset (sc_rows (cx_args x)) (cx_q0 x + k) + y)"
  shows "reflects x mem table"
  unfolding reflects_def
proof (intro allI impI)
  fix P i assume view: "in_view x P i"
  define a where "a = sc_rows (cx_args x)"
  note f = ctx_facts [OF ok, folded a_def]
  let ?C = "page_chunks a" and ?chunk = "ra_chunk_bytes a"
  define k where "k = chunk_of x P i - cx_q0 x"
  have v: "cx_first x \<le> P" "P < cx_first x + cx_num x" "i < ra_page_bytes a" "cx_q0 x + k = chunk_of x P i" "k < cx_count x"
    using view by (auto simp: in_view_def k_def a_def)
  note c = chunk_of_bound(2) [OF ok v(2,1) v(3) [unfolded a_def], folded a_def]
  have dm: "chunk_of x P i div ?C = P - cx_first x" "chunk_of x P i mod ?C = i div ?chunk"
    unfolding chunk_of_def a_def [symmetric] using c index_div index_mod by blast+
  have page: "chunk_page a (cx_first x) (cx_q0 x + k) = P"
    using v(1,2) f(3,4) by (simp add: chunk_page_def v(4) dm w32_id)
  have "i div ?chunk * ?chunk \<le> i" by simp
  then have off: "chunk_offset a (cx_q0 x + k) = i div ?chunk * ?chunk"
    unfolding chunk_offset_def v(4) dm using v(3) f(13) by (intro w32_id) linarith
  have y: "i mod ?chunk < chunk_length a (i div ?chunk * ?chunk)"
  proof -
    have "i mod ?chunk < ra_page_bytes a - i div ?chunk * ?chunk" using v(3) div_mult_mod_eq [of i ?chunk] by linarith
    moreover have "i mod ?chunk < ?chunk" using f(10) by simp
    ultimately show ?thesis by (simp add: chunk_length_def)
  qed
  have "i mod ?chunk < sc_entry (cx_args x)" using f(2,10) mod_less_divisor [of ?chunk i] by linarith
  from mem [OF v(5) this] have "mem (view_addr x P i) = p k (i mod ?chunk)" by (simp add: view_addr_def k_def a_def)
  also have "\<dots> = table P (i div ?chunk * ?chunk + i mod ?chunk)"
    using p [OF v(5), folded a_def, unfolded off page, OF y] .
  finally show "mem (view_addr x P i) = table P i" by simp
qed

lemma exec_batch:
  assumes ok: "ctx_ok x B" "stream_ok x" and N: "N = scatter_ring_size (cx_args x)"
    and rows: "dfb_at N r RowsBuf (cx_q0 x) (map (scatter_read (sc_rows (cx_args x)) (dr_table d) (cx_first x) old) [cx_q0 x..<cx_q0 x + cx_count x]) [] 0 0"
    and fits: "cx_q0 x mod sc_batch (cx_args x) = 0" "cx_count x \<le> sc_batch (cx_args x)" and idle: "idle N r"
  shows "\<exists>r' mem. exec_list N (batch_instrs x d src junk) (r, st) =
      Some (r', \<lparr>st_mem = mem, st_puts = st_puts st @ map (scatter_put x d src) [cx_q0 x..<cx_q0 x + cx_count x]\<rparr>) \<and>
    dfb_at N r' RowsBuf (cx_q0 x + cx_count x) [] [] 0 0 \<and> idle N r'"
proof -
  define a where "a = sc_rows (cx_args x)"
  define es where "es = map (scatter_read a (dr_table d) (cx_first x) old) [cx_q0 x..<cx_q0 x + cx_count x]"
  have len: "length es = cx_count x" by (simp add: es_def)
  have NN: "N IndexBuf = 1" "N StreamBuf = 1" "N RowsBuf = sc_batch (cx_args x)" by (simp_all add: N scatter_ring_size_def)
  note at = rows [folded a_def, folded es_def]
  from exec_await [OF at, of "cx_count x" st] len obtain r1 where
    r1: "exec N (Await RowsBuf (cx_count x)) (r, st) = Some (r1, st)" "dfb_at N r1 RowsBuf (cx_q0 x) es [] 0 (cx_count x)" "only_ring RowsBuf r r1"
    by auto
  let ?gs = "map (load_entry x) [0..<cx_count x]"
  define st1 where "st1 = take_all ?gs es st"
  have t: "exec_list N (takes RowsBuf 0 ?gs) (r1, st) = Some (r1, st1)"
    using exec_takes [OF r1(2), of 0 ?gs st] len fits NN(3) by (simp add: st1_def)
  have idle1: "idle N r1" using idle_other [OF idle r1(3)] by simp
  define p where "p = (\<lambda>k. place 0 (map (\<lambda>i. dr_table d (chunk_page a (cx_first x) (cx_q0 x + k)) (chunk_offset a (cx_q0 x + k) + i))
    [0..<chunk_length a (chunk_offset a (cx_q0 x + k))]) (old (cx_q0 x + k)))"
  have "es ! k = Bytes (p k)" if "k < length es" for k
    using that by (simp add: es_def p_def scatter_read_def)
  from load_entries [of es "cx_count x" es p x st] this len
  have loaded: "st_puts st1 = st_puts st"
      "\<And>k y. k < cx_count x \<Longrightarrow> y < sc_entry (cx_args x) \<Longrightarrow> st_mem st1 (cx_rows x + k * sc_entry (cx_args x) + y) = p k y"
    by (simp_all add: st1_def)
  have "reflects x (st_mem st1) (dr_table d)"
    by (rule loaded_reflects [OF ok(1), where p = p and mem = "st_mem st1"], rule loaded(2)) (simp_all add: p_def place_def a_def)
  from batch_result [OF ok this, of src junk]
  have result: "reflects x (foldl (\<lambda>mem (b, m0). chunk_update x d src junk b m0 mem) (st_mem st1) (batch_positions x)) (scattered (cx_args x) (cx_ops x) d src)" .
  define mem where "mem = foldl (\<lambda>mem (b, m0). chunk_update x d src junk b m0 mem) (st_mem st1) (batch_positions x)"
  from exec_chunks [OF idle1 NN(1,2), of x d src junk "batch_positions x" st1] obtain r2 where
    r2: "exec_list N (concat (map (chunk_instrs x d src junk) (batch_positions x))) (r1, st1) = Some (r2, st1\<lparr>st_mem := mem\<rparr>)"
      "idle N r2" "r2 RowsBuf = r1 RowsBuf" by (auto simp: mem_def)
  have put: "batch_put x mem k = scatter_put x d src (cx_q0 x + k)" if "k < cx_count x" for k
    unfolding batch_put_def scatter_put_def Let_def
  proof (intro prod_eqI; simp)
    show "\<forall>i \<in> {0..<chunk_length (sc_rows (cx_args x)) (chunk_offset (sc_rows (cx_args x)) (cx_q0 x + k))}.
        mem (cx_rows x + k * sc_entry (cx_args x) + i) = scattered (cx_args x) (cx_ops x) d src
          (chunk_page (sc_rows (cx_args x)) (cx_first x) (cx_q0 x + k)) (chunk_offset (sc_rows (cx_args x)) (cx_q0 x + k) + i)"
      using chunk_place [OF ok(1) that] result unfolding mem_def [symmetric] reflects_def by (metis atLeastLessThan_iff)
  qed
  have puts: "map (batch_put x mem) [0..<cx_count x] = map (scatter_put x d src) [cx_q0 x..<cx_q0 x + cx_count x]"
    using put by (intro nth_equalityI) simp_all
  let ?st = "\<lparr>st_mem = mem, st_puts = st_puts st @ map (scatter_put x d src) [cx_q0 x..<cx_q0 x + cx_count x]\<rparr>"
  have "dfb_at N r2 RowsBuf (cx_q0 x) es [] 0 (cx_count x)" using r1(2) r2(3) by (simp add: dfb_at_def)
  from exec_pop [OF this, of "cx_count x" ?st] len obtain r3 where
    r3: "exec N (Pop RowsBuf (cx_count x)) (r2, ?st) = Some (r3, ?st)" "dfb_at N r3 RowsBuf (cx_q0 x + cx_count x) [] [] 0 0" "only_ring RowsBuf r2 r3"
    by auto
  have "exec_list N (batch_instrs x d src junk) (r, st) = Some (r3, ?st)"
  proof -
    have issue: "exec N (Do (\<lambda>st. st\<lparr>st_puts := st_puts st @ map (batch_put x (st_mem st)) [0..<cx_count x]\<rparr>)) (r2, st1\<lparr>st_mem := mem\<rparr>) = Some (r2, ?st)"
      using loaded(1) by (cases st1) (simp add: puts)
    show ?thesis by (simp del: exec_do add: batch_instrs_def exec_list_append r1(1) t r2(1) issue r3(1))
  qed
  then show ?thesis using r3(2) idle_other [OF r2(2) r3(3)] by blast
qed

section \<open>A complete schedule\<close>

text \<open>The reader fills the buffer up to the end of the batch, a whole number of groups.\<close>

lemma reader_fills:
  assumes group: "0 < ra_group a" "ra_group a dvd batch" and N: "N RowsBuf = batch" and q0: "q0 mod batch = 0" "0 < batch"
    and num: "num = min batch (amount - q0)" and q: "q0 \<le> q" "q \<le> q0 + num" "(q - q0) mod ra_group a = 0 \<or> q = q0 + num"
    and rows: "dfb_at N r RowsBuf q0 (map (scatter_read a table first old) [q0..<q]) [] 0 0"
  shows "\<exists>p r'. scatter_reader_loop a table first old amount q = p @ scatter_reader_loop a table first old amount (q0 + num) \<and>
    exec_list N p (r, l) = Some (r', l) \<and>
    dfb_at N r' RowsBuf q0 (map (scatter_read a table first old) [q0..<q0 + num]) [] 0 0 \<and> only_ring RowsBuf r r'"
  using q rows
proof (induction "q0 + num - q" arbitrary: q r rule: less_induct)
  case less
  show ?case
  proof (cases "q = q0 + num")
    case True
    then show ?thesis using less.prems(4) by (intro exI [of _ "[]"] exI [of _ r]) simp
  next
    case False
    then have q: "q < q0 + num" "(q - q0) mod ra_group a = 0" using less.prems by simp_all
    then have amount: "q < amount" using num less.prems(1) by (simp add: min_def split: if_splits)
    define c where "c = (if amount - q < ra_group a then amount - q else ra_group a)"
    have c: "0 < c" "c \<le> ra_group a" "q + c \<le> amount" using amount group(1) by (auto simp: c_def)
    have room: "q - q0 + ra_group a \<le> batch"
    proof -
      obtain m where m: "batch = ra_group a * m" using group(2) by (elim dvdE)
      obtain j where j: "q - q0 = ra_group a * j" using q(2) by (metis dvdE mod_eq_0_iff_dvd)
      have "ra_group a * j < ra_group a * m" using q(1) less.prems(1) num j m by linarith
      then have "Suc j \<le> m" by simp
      then have "ra_group a * Suc j \<le> ra_group a * m" by (rule mult_le_mono2)
      then show ?thesis by (simp add: j m)
    qed
    have end_le: "q + c \<le> q0 + num" using room c(2,3) less.prems(1) num by auto
    have next_ok: "(q + c - q0) mod ra_group a = 0 \<or> q + c = q0 + num"
    proof (cases "amount - q < ra_group a")
      case True
      then have "q + c = amount" using amount by (simp add: c_def)
      then show ?thesis using end_le num by auto
    next
      case False
      then have "q + c - q0 = (q - q0) + ra_group a" using less.prems(1) by (simp add: c_def)
      then show ?thesis using q(2) by simp
    qed
    let ?es = "map (scatter_read a table first old) [q..<q + c]"
    have "length (map (scatter_read a table first old) [q0..<q]) + length ?es \<le> N RowsBuf" using room c(2) less.prems(1) by (simp add: N)
    moreover have "(q0 + length (map (scatter_read a table first old) [q0..<q])) mod N RowsBuf + length ?es \<le> N RowsBuf"
    proof -
      have "(q0 + (q - q0)) mod batch = (q - q0) mod batch" using q0(1) by (metis add_0 mod_add_left_eq)
      also have "\<dots> = q - q0" using room group(1) by (intro mod_less) linarith
      finally show ?thesis using room c(2) by (simp add: N)
    qed
    ultimately obtain r1 where
      r1: "exec_list N (Reserve RowsBuf (length ?es) # fills RowsBuf 0 ?es @ [Push RowsBuf (length ?es)]) (r, l) = Some (r1, l)"
        "dfb_at N r1 RowsBuf q0 (map (scatter_read a table first old) [q0..<q] @ ?es) [] 0 0" "only_ring RowsBuf r r1"
      using exec_push_group [OF less.prems(4), of ?es l] by blast
    have "map (scatter_read a table first old) [q0..<q] @ ?es = map (scatter_read a table first old) [q0..<q + c]"
      using upt_split [of q0 q "q + c"] less.prems(1) by simp
    with r1(2) have at: "dfb_at N r1 RowsBuf q0 (map (scatter_read a table first old) [q0..<q + c]) [] 0 0" by simp
    have "q0 + num - (q + c) < q0 + num - q" "q0 \<le> q + c" using c(1) q(1) less.prems(1) by simp_all
    from less.hyps [OF this end_le next_ok at] obtain p r2 where
      r2: "scatter_reader_loop a table first old amount (q + c) = p @ scatter_reader_loop a table first old amount (q0 + num)"
        "exec_list N p (r1, l) = Some (r2, l)"
        "dfb_at N r2 RowsBuf q0 (map (scatter_read a table first old) [q0..<q0 + num]) [] 0 0" "only_ring RowsBuf r1 r2"
      by blast
    let ?p = "(Reserve RowsBuf c # fills RowsBuf 0 ?es @ [Push RowsBuf c]) @ p"
    have "scatter_reader_loop a table first old amount q =
        (Reserve RowsBuf c # fills RowsBuf 0 ?es @ [Push RowsBuf c]) @ scatter_reader_loop a table first old amount (q + c)"
      using amount group(1) by (subst scatter_reader_loop.simps) (simp add: c_def [symmetric] Let_def)
    then have "scatter_reader_loop a table first old amount q = ?p @ scatter_reader_loop a table first old amount (q0 + num)"
      by (simp only: r2(1) append_assoc)
    moreover have "exec_list N ?p (r, l) = Some (r2, l)"
      using r1(1) r2(2) by (simp only: exec_list_append option.simps length_map length_upt diff_add_inverse)
    ultimately show ?thesis using r2(3) only_ring_trans [OF r1(3) r2(4)] by blast
  qed
qed

lemma scatter_complete:
  assumes ok: "scatter_ok x B" and N: "N = scatter_ring_size (cx_args x)"
    and "q0 mod sc_batch (cx_args x) = 0 \<or> core_chunks x \<le> q0" "q0 \<le> core_chunks x"
    and "dfb_at N (rings st) RowsBuf q0 [] [] 0 0" "idle N (rings st)"
    and "progs st 0 = scatter_reader_loop (sc_rows (cx_args x)) (dr_table d) (cx_first x) old (core_chunks x) q0"
    and "progs st 1 = scatter_writer_loop x d src junk (core_chunks x) q0" "\<And>k. 1 < k \<Longrightarrow> progs st k = []"
  shows "\<exists>m f. net_run N m st f \<and> net_done f \<and>
    st_puts (stores f 1) = st_puts (stores st 1) @ map (scatter_put x d src) [q0..<core_chunks x]"
  using assms(3-)
proof (induction "core_chunks x - q0" arbitrary: q0 st rule: less_induct)
  case less
  note sok = ok [unfolded scatter_ok_def Let_def]
  have batch: "0 < sc_batch (cx_args x)" "0 < ra_group (sc_rows (cx_args x))" "ra_group (sc_rows (cx_args x)) dvd sc_batch (cx_args x)"
    using sok by blast+
  show ?case
  proof (cases "q0 < core_chunks x")
    case False
    have "progs st 0 = []" "progs st 1 = []"
      using False less.prems(5,6) by (simp_all add: scatter_reader_loop.simps [of _ _ _ _ "core_chunks x" q0] scatter_writer_loop.simps [of _ _ _ _ "core_chunks x" q0])
    then have "progs st k = []" for k using less.prems(7) [of k] by (cases "k = 0"; cases "k = 1") auto
    then have "net_done st" by (simp add: net_done_def)
    then show ?thesis using False net_run.stop [of N st] by (intro exI [of _ 0] exI [of _ st]) simp
  next
    case True
    define num where "num = min (sc_batch (cx_args x)) (core_chunks x - q0)"
    have num: "0 < num" "num \<le> sc_batch (cx_args x)" "q0 + num \<le> core_chunks x" using True batch(1) by (auto simp: num_def)
    have q0: "q0 mod sc_batch (cx_args x) = 0" using less.prems(1) True by simp
    let ?x = "batch_ctx x q0 num"
    note bok = scatter_batch_ok [OF ok num]
    have NN: "N RowsBuf = sc_batch (cx_args x)" by (simp add: N scatter_ring_size_def)
    from reader_fills [where N = N and r = "rings st" and l = "stores st 0" and table = "dr_table d" and first = "cx_first x" and old = old,
        OF batch(2,3) NN q0 batch(1) num_def, of q0] less.prems(3)
    obtain p r1 where
      r1: "scatter_reader_loop (sc_rows (cx_args x)) (dr_table d) (cx_first x) old (core_chunks x) q0 =
          p @ scatter_reader_loop (sc_rows (cx_args x)) (dr_table d) (cx_first x) old (core_chunks x) (q0 + num)"
        "exec_list N p (rings st, stores st 0) = Some (r1, stores st 0)"
        "dfb_at N r1 RowsBuf q0 (map (scatter_read (sc_rows (cx_args x)) (dr_table d) (cx_first x) old) [q0..<q0 + num]) [] 0 0"
        "only_ring RowsBuf (rings st) r1" by auto
    define st1 where "st1 = \<lparr>rings = r1,
      progs = (progs st)(0 := scatter_reader_loop (sc_rows (cx_args x)) (dr_table d) (cx_first x) old (core_chunks x) (q0 + num)),
      stores = (stores st)(0 := stores st 0)\<rparr>"
    from run_prefix [OF r1(2)] less.prems(5) r1(1) obtain m1 where run1: "net_run N m1 st st1" unfolding st1_def by metis
    have idle1: "idle N r1" using idle_other [OF less.prems(4) r1(4)] by simp
    from exec_batch [where x = ?x and N = N and r = r1 and st = "stores st 1" and src = src and junk = junk and d = d and old = old, OF bok] N r1(3) q0 num(2) idle1
    obtain r2 mem where
      r2: "exec_list N (batch_instrs ?x d src junk) (r1, stores st 1) =
          Some (r2, \<lparr>st_mem = mem, st_puts = st_puts (stores st 1) @ map (scatter_put ?x d src) [q0..<q0 + num]\<rparr>)"
        "dfb_at N r2 RowsBuf (q0 + num) [] [] 0 0" "idle N r2" by auto
    define st2 where "st2 = \<lparr>rings = r2,
      progs = (progs st1)(1 := scatter_writer_loop x d src junk (core_chunks x) (q0 + sc_batch (cx_args x))),
      stores = (stores st1)(1 := \<lparr>st_mem = mem, st_puts = st_puts (stores st 1) @ map (scatter_put ?x d src) [q0..<q0 + num]\<rparr>)\<rparr>"
    have "(if core_chunks x - q0 < sc_batch (cx_args x) then core_chunks x - q0 else sc_batch (cx_args x)) = num" by (auto simp: num_def)
    then have writer: "progs st1 1 = batch_instrs ?x d src junk @ scatter_writer_loop x d src junk (core_chunks x) (q0 + sc_batch (cx_args x))"
      using True batch(1) less.prems(6) by (simp add: st1_def scatter_writer_loop.simps [of _ _ _ _ "core_chunks x" q0] Let_def)
    have "exec_list N (batch_instrs ?x d src junk) (rings st1, stores st1 1) =
        Some (r2, \<lparr>st_mem = mem, st_puts = st_puts (stores st 1) @ map (scatter_put ?x d src) [q0..<q0 + num]\<rparr>)"
      using r2(1) by (simp add: st1_def)
    from run_prefix [OF this writer] obtain m2 where run2: "net_run N m2 st1 st2" unfolding st2_def by blast
    have tail: "scatter_writer_loop x d src junk (core_chunks x) (q0 + sc_batch (cx_args x)) = scatter_writer_loop x d src junk (core_chunks x) (q0 + num)"
    proof (cases "num = sc_batch (cx_args x)")
      case False
      then have "core_chunks x \<le> q0 + num" "core_chunks x \<le> q0 + sc_batch (cx_args x)" by (auto simp: num_def min_def split: if_splits)
      then show ?thesis by (simp add: scatter_writer_loop.simps)
    qed simp
    have next_q: "(q0 + num) mod sc_batch (cx_args x) = 0 \<or> core_chunks x \<le> q0 + num"
      using q0 by (auto simp: num_def min_def)
    have "core_chunks x - (q0 + num) < core_chunks x - q0" using num True by simp
    from less.hyps [OF this next_q num(3), of st2] r2(2,3) less.prems(7) tail obtain m3 f where
      run3: "net_run N m3 st2 f" "net_done f"
        "st_puts (stores f 1) = st_puts (stores st2 1) @ map (scatter_put x d src) [q0 + num..<core_chunks x]"
      by (auto simp: st2_def st1_def)
    have "scatter_put ?x d src q = scatter_put x d src q" for q by (simp add: scatter_put_def)
    moreover have "[q0..<core_chunks x] = [q0..<q0 + num] @ [q0 + num..<core_chunks x]" by (rule upt_split) (use num in simp_all)
    ultimately have "st_puts (stores f 1) = st_puts (stores st 1) @ map (scatter_put x d src) [q0..<core_chunks x]"
      using run3(3) by (simp add: st2_def)
    then show ?thesis using net_run_trans [OF run1 net_run_trans [OF run2 run3(1)]] run3(2) by blast
  qed
qed


section \<open>Every run of a core\<close>

lemma scatter_reader_instrs:
  "y \<in> set (scatter_reader_loop a table first old amount q) \<Longrightarrow> produces RowsBuf y"
proof (induction a table first old amount q rule: scatter_reader_loop.induct)
  case (1 a table first old amount q)
  then show ?case
    by (subst (asm) (2) scatter_reader_loop.simps) (auto simp: Let_def split: if_splits dest: fills_instrs)
qed

lemma chunk_instrs_dfb:
  "y \<in> set (chunk_instrs x d src junk bm) \<Longrightarrow> instr_dfb y \<in> {None, Some IndexBuf, Some StreamBuf}"
  by (auto simp: chunk_instrs_def Let_def split: prod.splits if_splits)

lemma batch_instrs_dfb:
  "y \<in> set (batch_instrs x d src junk) \<Longrightarrow> consumes RowsBuf y \<or> instr_dfb y \<in> {None, Some IndexBuf, Some StreamBuf}"
  by (auto simp: batch_instrs_def dest!: takes_instrs chunk_instrs_dfb)

lemma scatter_writer_instrs:
  "y \<in> set (scatter_writer_loop x d src junk amount q0) \<Longrightarrow> consumes RowsBuf y \<or> instr_dfb y \<in> {None, Some IndexBuf, Some StreamBuf}"
proof (induction x d src junk amount q0 rule: scatter_writer_loop.induct)
  case (1 x d src junk amount q0)
  show ?case
  proof (cases "q0 < amount \<and> 0 < sc_batch (cx_args x)")
    case True
    let ?num = "if amount - q0 < sc_batch (cx_args x) then amount - q0 else sc_batch (cx_args x)"
    have "y \<in> set (batch_instrs (batch_ctx x q0 ?num) d src junk) \<or> y \<in> set (scatter_writer_loop x d src junk amount (q0 + sc_batch (cx_args x)))"
      using "1.prems" True by (subst (asm) scatter_writer_loop.simps) (simp only: Let_def if_True set_append Un_iff simp_thms)
    then show ?thesis using "1.IH" [OF True refl] batch_instrs_dfb by blast
  next
    case False
    with "1.prems" show ?thesis by (subst (asm) scatter_writer_loop.simps) (simp only: if_False list.set empty_iff)
  qed
qed

lemma scatter_owned: "owned (scatter_progs x d src old junk)"
proof -
  let ?P = "scatter_progs x d src old junk"
  have reader: "produces RowsBuf y" if "y \<in> set (?P 0)" for y
    using that scatter_reader_instrs by (auto simp: scatter_progs_def scatter_reader_main_def)
  have writer: "consumes RowsBuf y \<or> instr_dfb y \<in> {None, Some IndexBuf, Some StreamBuf, Some ScratchBuf}" if "y \<in> set (?P (Suc 0))" for y
    using that scatter_writer_instrs by (fastforce simp: scatter_progs_def scatter_writer_main_def)
  have clash: "\<not> (produces e y \<and> produces e z) \<and> \<not> (consumes e y \<and> consumes e z)"
    if "y \<in> set (?P 0)" "z \<in> set (?P (Suc 0))" for y z e
  proof -
    have y: "produces RowsBuf y" "instr_dfb y = Some RowsBuf" "\<not> consumes e y"
      using reader [OF that(1)] produces_dfb not_both by (metis consumes_dfb option.inject)+
    have "\<not> produces e z" if "produces e y"
    proof
      assume "produces e z"
      then have z: "instr_dfb z = Some e" by (rule produces_dfb)
      have "e = RowsBuf" using that y(2) produces_dfb by fastforce
      with z writer [OF \<open>z \<in> _\<close>] have "consumes RowsBuf z" by auto
      with \<open>produces e z\<close> \<open>e = RowsBuf\<close> show False using not_both [of RowsBuf z] by simp
    qed
    with y(3) show ?thesis by blast
  qed
  have "?P k = []" if "k \<noteq> 0" "k \<noteq> Suc 0" for k using that by (simp add: scatter_progs_def)
  then show ?thesis unfolding owned_def using clash by (metis equals0D list.set(1))
qed

lemma scatter_runs:
  assumes ok: "scatter_ok x B"
  shows "\<exists>m f. net_run (scatter_ring_size (cx_args x)) m
      (net_start (scatter_progs x d src old junk) (\<lambda>_. \<lparr>st_mem = mem0, st_puts = []\<rparr>)) f \<and> net_done f \<and>
    st_puts (stores f 1) = map (scatter_put x d src) [0..<core_chunks x]"
proof -
  let ?N = "scatter_ring_size (cx_args x)"
  let ?st = "net_start (scatter_progs x d src old junk) (\<lambda>_. \<lparr>st_mem = mem0, st_puts = []\<rparr>)"
  have "core_chunks x + page_chunks (sc_rows (cx_args x)) \<le> 2 ^ 32" using ok unfolding scatter_ok_def Let_def by blast
  then have small: "w32 (core_chunks x) = core_chunks x"
  proof (cases "page_chunks (sc_rows (cx_args x)) = 0")
    case False
    then show ?thesis using \<open>core_chunks x + _ \<le> _\<close> by (intro w32_id) simp
  qed (simp add: w32_def)
  have rings: "rings ?st = (\<lambda>_. ring_init)" by (simp add: net_start_def)
  have progs: "progs ?st 0 = scatter_reader_loop (sc_rows (cx_args x)) (dr_table d) (cx_first x) old (core_chunks x) 0"
    "progs ?st 1 = [Reserve ScratchBuf 1] @ scatter_writer_loop x d src junk (core_chunks x) 0" "\<And>k. 1 < k \<Longrightarrow> progs ?st k = []"
    by (simp_all add: net_start_def scatter_progs_def scatter_reader_main_def scatter_writer_main_def small)
  have init: "dfb_at ?N (rings ?st) ScratchBuf 0 [] [] 0 0" by (simp add: rings dfb_at_init)
  from exec_reserve [OF init, of 1 "stores ?st 1"] obtain r1 where
    r1: "exec ?N (Reserve ScratchBuf 1) (rings ?st, stores ?st 1) = Some (r1, stores ?st 1)" "only_ring ScratchBuf (rings ?st) r1"
    by (auto simp: scatter_ring_size_def)
  have first: "exec_list ?N [Reserve ScratchBuf 1] (rings ?st, stores ?st 1) = Some (r1, stores ?st 1)" using r1(1) by simp
  define st1 where "st1 = \<lparr>rings = r1, progs = (progs ?st)(1 := scatter_writer_loop x d src junk (core_chunks x) 0), stores = (stores ?st)(1 := stores ?st 1)\<rparr>"
  from run_prefix [OF first progs(2)] have run: "net_run ?N (length [Reserve ScratchBuf 1 :: scatter_instr]) ?st st1"
    unfolding st1_def .
  have at: "dfb_at ?N r1 e 0 [] [] 0 0" if "e \<noteq> ScratchBuf" for e
    using dfb_at_init [of ?N e] dfb_at_only [OF r1(2) that] by (simp add: rings)
  then have "idle ?N r1" unfolding idle_def by blast
  from scatter_complete [OF ok refl, of 0 st1 d old src junk] at [of RowsBuf] this progs(1,3) obtain m f where
    f: "net_run ?N m st1 f" "net_done f" "st_puts (stores f 1) = st_puts (stores st1 1) @ map (scatter_put x d src) [0..<core_chunks x]"
    by (auto simp: st1_def)
  have "st_puts (stores st1 1) = []" by (simp add: st1_def net_start_def)
  with f net_run_trans [OF run f(1)] show ?thesis by auto
qed

end
