(* ===== verification/RowsScatterProgram.thy ===== *)
theory RowsScatterProgram
  imports RowsScatterRun
begin

text \<open>
  rows_scatter from its call to its output: the arguments its kernels get, the buffers its
  program takes in L1, and the tensor every run of the program leaves.
\<close>

section \<open>Calls\<close>

definition rows_scatter ::
  "rows_params \<Rightarrow> rows_inputs \<Rightarrow> 't \<Rightarrow> 't \<Rightarrow> 't \<Rightarrow> 't \<Rightarrow> (nat \<Rightarrow> work_split) \<Rightarrow> rows_error + 't rows_call" where
  "rows_scatter p i table indices source output split =
     (case validate_indexed_rows p i True of Inl e \<Rightarrow> Inl e | Inr _ \<Rightarrow>
        if table_volume i = 0 then Inr (NoProgram (ten_shape (in_table i)))
        else Inr (Launch (scatter_artifacts p i table indices source output split)))"

definition scatter_args_of :: "rows_params \<Rightarrow> rows_inputs \<Rightarrow> scatter_args" where
  "scatter_args_of p i = scatter_kernel_args (ge_compile_time_args (scatter_geometry (geometry p i)))
     (ip_sizes p) (ip_windows p) (component_strides p) (ge_entry_bytes (geometry p i))"

text \<open>
  What a call asks beyond its validation: at least one position, chunks and source entries that
  \<open>uint32_t\<close> can number, and elements of the size their type has.
\<close>

definition scatter_fit :: "rows_params \<Rightarrow> rows_inputs \<Rightarrow> bool" where
  "scatter_fit p i \<longleftrightarrow>
     (let shape = ten_shape (in_table i); R = shape ! (length shape - 1); elem = ten_elem_bytes (in_table i) in
      rows_fit p i \<and> ten_shape (in_indices i) ! 2 \<noteq> 0 \<and>
      (shape ! 0 * shape ! 1 * prod_list (middle_dims (in_table i)) + 1) * div_up (R * elem) (64 * 1024) \<le> 2 ^ 32 \<and>
      (ip_column p \<longrightarrow> prod_list (take (row_components p) (ip_windows p)) * (last (ip_windows p) * elem) + 2 ^ 17 \<le> 2 ^ 32) \<and>
      (ip_reduce p \<noteq> ReduceNone \<longrightarrow> elem = kind_bytes (elem_kind (ten_dtype (in_table i)))))"

text \<open>The buffers of a program lie apart in L1: \<open>at\<close> is where the platform puts each.\<close>

definition buffers_apart :: "(string \<Rightarrow> nat) \<Rightarrow> dfb_spec list \<Rightarrow> bool" where
  "buffers_apart at ds \<longleftrightarrow> (\<forall>x \<in> set ds. \<forall>y \<in> set ds. dfb_id x \<noteq> dfb_id y \<longrightarrow>
     at (dfb_id x) + entry_size x * num_entries x \<le> at (dfb_id y) \<or> at (dfb_id y) + entry_size y * num_entries y \<le> at (dfb_id x))"

definition core_ctx :: "scatter_args \<Rightarrow> float_ops \<Rightarrow> (string \<Rightarrow> nat) \<Rightarrow> nat \<Rightarrow> nat \<Rightarrow> scatter_ctx" where
  "core_ctx s ops at first num = \<lparr>cx_args = s, cx_ops = ops, cx_rows = at ''rows'', cx_stream = at ''stream'',
     cx_scratch = at ''scratch'', cx_first = first, cx_num = num, cx_q0 = 0, cx_count = 0\<rparr>"

lemma rows_scatter_launch:
  assumes "rows_scatter p i table indices source output split = Inr (Launch prog)" "scatter_fit p i"
  shows "rows_launch p i True" "prog = scatter_artifacts p i table indices source output split"
  using assms by (auto simp: rows_scatter_def rows_launch_def scatter_fit_def Let_def split: sum.splits if_splits)

section \<open>The kernels' arguments\<close>

lemma scatter_args:
  "scatter_args_of p i = \<lparr>sc_rows = (gather_args p i)\<lparr>ra_group := scatter_group (geometry p i)\<rparr>,
     sc_batch = scatter_batch (geometry p i), sc_elem_kind = elem_kind (ten_dtype (in_table i)),
     sc_reduce = reduce_code (ip_reduce p), sc_entry = ge_entry_bytes (geometry p i)\<rparr>"
proof -
  have "get_arg (set_arg ''group'' g (set_arg ''batch'' b (ge_compile_time_args (geometry p i)))) n =
      (if n = ''group'' then g else if n = ''batch'' then b else get_arg (ge_compile_time_args (geometry p i)) n)"
    if "n \<in> set (map fst (ge_compile_time_args (geometry p i)))" for g b n
    using that by (auto simp: geometry_def Let_def set_arg_def get_arg_def)
  moreover have "map fst (ge_compile_time_args (geometry p i)) = [''num_components'', ''column'', ''index_unsigned'', ''fill_oob'',
      ''index_shared'', ''window'', ''positions'', ''rows_per_batch'', ''pages_per_row'', ''page_bytes'', ''chunk_bytes'',
      ''index_stride'', ''group'', ''index_batch'', ''batch'', ''elem_kind'', ''elem_bytes'', ''reduce'']"
    by (simp add: geometry_def Let_def)
  moreover have "get_arg (ge_compile_time_args (geometry p i)) ''elem_kind'' = elem_kind (ten_dtype (in_table i))"
    "get_arg (ge_compile_time_args (geometry p i)) ''reduce'' = reduce_code (ip_reduce p)"
    by (simp_all add: geometry_def Let_def get_arg_def)
  ultimately show ?thesis
    by (simp add: scatter_args_of_def scatter_kernel_args_def rows_kernel_args_def gather_args_def scatter_geometry_def)
qed

section \<open>A launch gives the kernels what they ask\<close>

lemma rows_shape_group [simp]: "rows_shape_ok (a\<lparr>ra_group := g\<rparr>) B = rows_shape_ok a B"
  by (simp add: rows_shape_ok_def ra_KR_def)

lemma column_bytes_group [simp]: "column_bytes (a\<lparr>ra_group := g\<rparr>) = column_bytes a"
  by (simp add: column_bytes_def)

lemma scatter_batch_bounds: "0 < scatter_group g" "0 < scatter_batch g" "scatter_group g dvd scatter_batch g"
  if "0 < ge_group g"
proof -
  define b where "b = max 1 (512 * 1024 div ge_entry_bytes g)"
  have b: "0 < b" by (simp add: b_def)
  have eqs: "scatter_group g = min (ge_group g) b" "scatter_batch g = b - b mod min (ge_group g) b"
    by (simp_all only: scatter_group_def scatter_batch_def b_def Let_def)
  show "0 < scatter_group g" using that b by (simp add: eqs)
  have "b mod min (ge_group g) b < b" using mod_less_divisor [of "min (ge_group g) b" b] that b by simp
  then show "0 < scatter_batch g" by (simp add: eqs)
  show "scatter_group g dvd scatter_batch g" by (simp add: eqs dvd_minus_mod)
qed

lemma source_entry_bounds:
  assumes "spp + 2 ^ 17 \<le> 2 ^ 32" "1 \<le> K" "K \<le> 1024" "0 < spp"
  shows "index_batch_of K spp M * spp + 64 \<le> source_entry_of (index_batch_of K spp M) spp"
proof -
  let ?n = "index_batch_of K spp M"
  define b where "b = max 1 (16 * 1024 div w32 (K * 4))"
  have n: "?n \<le> clamp_nat (64 * 1024 div spp) 1 b" using assms(4) by (simp add: index_batch_of_def Let_def b_def)
  have "?n * spp + 65536 \<le> 4294967296"
  proof (cases "?n \<le> 1")
    case True
    have "?n * spp \<le> spp" using mult_le_mono1 [OF True, of spp] by (simp only: mult_1)
    moreover have "spp + 131072 \<le> 4294967296" using assms(1) by simp
    ultimately show ?thesis by linarith
  next
    case False
    have "1 \<le> b" by (simp add: b_def)
    with False n have "?n \<le> 64 * 1024 div spp" by (auto simp: clamp_nat_def split: if_splits)
    then have "?n * spp \<le> 64 * 1024 div spp * spp" by (rule mult_le_mono1)
    also have "\<dots> \<le> 65536" using div_times_less_eq_dividend [of "64 * 1024" spp] by simp
    finally show ?thesis by simp
  qed
  then have w: "w32 (?n * spp) = ?n * spp" and small: "max (?n * spp) 1 + 64 < 4294967296 - 64"
    by (simp_all add: w32_id)
  then have "w32 (max (?n * spp) 1 + 64) = max (?n * spp) 1 + 64" by (intro w32_id) simp
  then have "source_entry_of ?n spp = align_entry (max (?n * spp) 1 + 64)" by (simp add: source_entry_of_def kEntryAlign_def w)
  with align_entry_bounds(1) [OF small] show ?thesis by simp
qed

lemma kind_bytes_dvd: "kind_bytes kind dvd 65536"
  by (simp add: kind_bytes_def)

lemma scatter_column:
  assumes launch: "rows_launch p i True" and fit: "scatter_fit p i" and col: "ip_column p"
  shows "ra_index_batch (gather_args p i) * (ra_W (gather_args p i) * column_bytes (gather_args p i)) + 64 \<le> ge_source_entry_bytes (geometry p i)"
proof -
  have v: "validate_indexed_rows p i True = Inr ()" and rfit: "rows_fit p i" using launch by (simp_all add: rows_launch_def)
  note valid = validated_shapes [OF v] and sizes = launch_sizes [OF launch] and args = launch_args [OF launch] and ok = launch_args_ok(2) [OF launch]
  let ?a = "gather_args p i" and ?elem = "ten_elem_bytes (in_table i)"
  let ?W = "prod_list (take (row_components p) (ip_windows p))"
  have cb: "column_bytes ?a = last (ip_windows p) * ?elem"
  proof -
    have "ip_windows p \<noteq> []" using valid(2,3) by auto
    then show ?thesis using rows_shape_facts(9) [OF ok] col valid(3) by (simp add: args last_conv_nth)
  qed
  have spp: "?W * (last (ip_windows p) * ?elem) + 2 ^ 17 \<le> 2 ^ 32" using fit col unfolding scatter_fit_def Let_def by blast
  have t: "rt_column_window (indexed_rows_table p (in_table i)) = last (ip_windows p)"
    using col by (simp add: indexed_rows_table_def Let_def)
  have "w32 (?W * last (ip_windows p) * ?elem) = ?W * (last (ip_windows p) * ?elem)"
    using spp by (subst w32_id) (simp_all add: mult.assoc)
  then have per: "source_per_position_of (ip_column p) (indexed_rows_window p) (rt_column_window (indexed_rows_table p (in_table i))) ?elem =
      ?W * (last (ip_windows p) * ?elem)"
    using col by (simp add: source_per_position_of_def sizes(8) t)
  have K: "1 \<le> length (ip_sizes p)" "length (ip_sizes p) \<le> 1024"
    using valid(2) rfit by (simp_all add: rows_fit_def Let_def)
  have "0 < last (ip_windows p)"
  proof -
    have "ip_windows p \<noteq> []" using valid(2,3) by auto
    then show ?thesis using valid(2,3,4) by (simp add: windows_ok_def last_conv_nth) (metis One_nat_def Suc_pred diff_Suc_less le_simps(3) not_less_eq_eq)
  qed
  then have "0 < ?W * (last (ip_windows p) * ?elem)" using sizes(5,7) by simp
  from source_entry_bounds [OF spp K this, of "ten_shape (in_indices i) ! 2"] per
  have "ge_index_batch (geometry p i) * (?W * (last (ip_windows p) * ?elem)) + 64 \<le> ge_source_entry_bytes (geometry p i)"
    by (simp add: geometry_def Let_def)
  then show ?thesis by (simp add: args cb)
qed

definition scatter_pages :: "rows_inputs \<Rightarrow> nat" where
  "scatter_pages i = ten_shape (in_table i) ! 0 * ten_shape (in_table i) ! 1 * prod_list (middle_dims (in_table i))"

lemma apart_clear:
  assumes "buffers_apart at (dataflow_buffers (artifact_spec (scatter_artifacts p i table indices source output split)))"
  shows "len \<le> ge_entry_bytes (geometry p i) \<Longrightarrow> clear_of_rows (core_ctx (scatter_args_of p i) ops at first num) (at ''scratch'') len"
    and "len \<le> ge_source_entry_bytes (geometry p i) \<Longrightarrow> clear_of_rows (core_ctx (scatter_args_of p i) ops at first num) (at ''stream'') len"
proof -
  have "at ''rows'' + ge_entry_bytes (geometry p i) * scatter_batch (geometry p i) \<le> at ''scratch'' \<or>
      at ''scratch'' + ge_entry_bytes (geometry p i) \<le> at ''rows''"
    "at ''rows'' + ge_entry_bytes (geometry p i) * scatter_batch (geometry p i) \<le> at ''stream'' \<or>
      at ''stream'' + ge_source_entry_bytes (geometry p i) \<le> at ''rows''"
    using assms by (simp_all add: buffers_apart_def scatter_artifacts_def Let_def dfb_plain_def scatter_geometry_def)
  then show "len \<le> ge_entry_bytes (geometry p i) \<Longrightarrow> clear_of_rows (core_ctx (scatter_args_of p i) ops at first num) (at ''scratch'') len"
    "len \<le> ge_source_entry_bytes (geometry p i) \<Longrightarrow> clear_of_rows (core_ctx (scatter_args_of p i) ops at first num) (at ''stream'') len"
    unfolding clear_of_rows_def by (auto simp: core_ctx_def scatter_args mult.commute)
qed

lemma launch_elements:
  assumes launch: "rows_launch p i True" and fit: "scatter_fit p i"
  shows "elements_ok (scatter_args_of p i)"
proof (cases "ip_reduce p = ReduceNone")
  case True
  then show ?thesis by (simp add: elements_ok_def scatter_args reduce_code_def)
next
  case False
  let ?elem = "ten_elem_bytes (in_table i)"
  have v: "validate_indexed_rows p i True = Inr ()" using launch by (simp add: rows_launch_def)
  note args = launch_args [OF launch]
  have elem: "?elem = kind_bytes (elem_kind (ten_dtype (in_table i)))" using fit False unfolding scatter_fit_def Let_def by blast
  have "check_source p i True = Inr ()"
    using v unfolding validate_indexed_rows_def Let_def by (auto split: sum.splits if_splits)
  then have "reducible (ten_dtype (in_table i))"
    using False by (auto simp: check_source_def split: option.splits sum.splits if_splits)
  then have "elem_kind (ten_dtype (in_table i)) \<noteq> 0" by (auto simp: reducible_def elem_kind_def)
  moreover have "?elem dvd ra_page_bytes (gather_args p i)" by (simp add: args)
  moreover have "?elem dvd ra_chunk_bytes (gather_args p i)"
    using kind_bytes_dvd by (simp add: args min_def elem)
  ultimately show ?thesis using elem by (simp add: elements_ok_def scatter_args args)
qed

lemma page_chunks_launch:
  assumes "rows_launch p i scatter"
  shows "page_chunks (gather_args p i) =
    div_up (ten_shape (in_table i) ! (length (ten_shape (in_table i)) - 1) * ten_elem_bytes (in_table i)) (64 * 1024)"
proof -
  note args = launch_args [OF assms] and sizes = launch_sizes [OF assms]
  let ?a = "gather_args p i"
  have "ra_page_bytes ?a + ra_chunk_bytes ?a \<le> 2 ^ 32" "0 < ra_page_bytes ?a"
    using launch_args_ok(2) [OF assms] unfolding rows_shape_ok_def by blast+
  then have "ra_page_bytes ?a + ra_chunk_bytes ?a - 1 < 4294967296" by simp
  then have "page_chunks ?a = div_up (ra_page_bytes ?a) (ra_chunk_bytes ?a)" by (simp add: page_chunks_def div_up_def w32_id)
  then show ?thesis using chunk_count [OF sizes(11)] by (simp add: args)
qed

lemma page_chunks_group [simp]: "page_chunks (a\<lparr>ra_group := g\<rparr>) = page_chunks a"
  by (simp add: page_chunks_def)

lemma launch_scatter_ok:
  assumes launch: "rows_launch p i True" and fit: "scatter_fit p i"
    and apart: "buffers_apart at (dataflow_buffers (artifact_spec (scatter_artifacts p i table indices source output split)))"
    and range: "first + num \<le> scatter_pages i"
  shows "scatter_ok (core_ctx (scatter_args_of p i) ops at first num) (ten_shape (in_table i) ! 0)"
proof -
  let ?x = "core_ctx (scatter_args_of p i) ops at first num" and ?a = "gather_args p i" and ?B = "ten_shape (in_table i) ! 0"
  have rfit: "rows_fit p i" and v: "validate_indexed_rows p i True = Inr ()" using launch by (simp_all add: rows_launch_def)
  note valid = validated_shapes [OF v]
  note args = launch_args [OF launch] and geo = launch_geometry [OF launch] and entry = entry_bytes_ok [OF launch]
  note shape = launch_args_ok(2) [OF launch] and group = scatter_batch_bounds [OF geo(10)]
  have rows: "sc_rows (cx_args ?x) = ?a\<lparr>ra_group := scatter_group (geometry p i)\<rparr>" "cx_first ?x = first" "cx_num ?x = num"
      "sc_entry (cx_args ?x) = ge_entry_bytes (geometry p i)" "sc_batch (cx_args ?x) = scatter_batch (geometry p i)"
      "cx_scratch ?x = at ''scratch''" "cx_stream ?x = at ''stream''" "cx_args ?x = scatter_args_of p i"
    by (simp_all add: core_ctx_def scatter_args)
  have pages: "?B * ra_N ?a * ra_S ?a = scatter_pages i" by (simp add: args scatter_pages_def)
  have small: "scatter_pages i < 2 ^ 32" using rfit unfolding rows_fit_def Let_def scatter_pages_def by blast
  have "(scatter_pages i + 1) * page_chunks ?a \<le> 2 ^ 32"
    unfolding page_chunks_launch [OF launch] scatter_pages_def using fit unfolding scatter_fit_def Let_def by blast
  moreover have "(num + 1) * page_chunks ?a \<le> (scatter_pages i + 1) * page_chunks ?a" using range by (intro mult_le_mono1) simp
  ultimately have "(num + 1) * page_chunks ?a \<le> 2 ^ 32" by (rule le_trans [rotated])
  then have chunks: "num * page_chunks ?a + page_chunks ?a \<le> 2 ^ 32" by (simp only: distrib_right mult_1)
  have column: "clear_of_rows ?x (at ''stream'') (64 + ra_index_batch ?a * (ra_W ?a * column_bytes ?a)) \<and>
      ra_M ?a * (ra_W ?a * column_bytes ?a) < 2 ^ 32" if col: "ip_column p"
  proof
    show "clear_of_rows ?x (at ''stream'') (64 + ra_index_batch ?a * (ra_W ?a * column_bytes ?a))"
      by (rule apart_clear(2) [OF apart]) (use scatter_column [OF launch fit col] in simp)
    have "ip_windows p \<noteq> []" using valid(2,3) by auto
    then have "column_bytes ?a = last (ip_windows p) * ten_elem_bytes (in_table i)"
      using rows_shape_facts(9) [OF shape] col valid(3) by (simp add: args last_conv_nth)
    then show "ra_M ?a * (ra_W ?a * column_bytes ?a) < 2 ^ 32"
      using rfit col unfolding rows_fit_def Let_def by (simp add: args mult.assoc)
  qed
  show ?thesis
    unfolding scatter_ok_def Let_def rows(1-7) rows_shape_group column_bytes_group page_chunks_group
    using shape entry(1) range pages small chunks launch_elements [OF launch fit] geo(12,13) group column
      apart_clear(1) [OF apart entry(1)]
    by (simp add: args rows(8))
qed

section \<open>The program\<close>

text \<open>What a core may write: the writer's puts when its kernels have stopped, whatever L1 held.\<close>

definition scatter_core :: "scatter_ctx \<Rightarrow> rows_dram \<Rightarrow> pages \<Rightarrow> put list \<Rightarrow> bool" where
  "scatter_core x d src puts \<longleftrightarrow>
     (\<exists>old junk mem n f. net_run (scatter_ring_size (cx_args x)) n
        (net_start (scatter_progs x d src old junk) (\<lambda>_. \<lparr>st_mem = mem, st_puts = []\<rparr>)) f \<and>
        net_stuck (scatter_ring_size (cx_args x)) f \<and> puts = st_puts (stores f 1))"

definition scatter_cores ::
  "scatter_args \<Rightarrow> float_ops \<Rightarrow> (string \<Rightarrow> nat) \<Rightarrow> rows_dram \<Rightarrow> pages \<Rightarrow> work_split \<Rightarrow> put list list \<Rightarrow> bool" where
  "scatter_cores s ops at d src split puts \<longleftrightarrow>
     list_all2 (\<lambda>(core, first, num) ps. scatter_core (core_ctx s ops at first num) d src ps) (split_ranges split) puts"

lemma scatter_core_puts:
  assumes "scatter_ok x B" "scatter_core x d src ps"
  shows "ps = map (scatter_put x d src) [0..<core_chunks x]"
proof -
  from assms(2) obtain old junk mem n f where
    run: "net_run (scatter_ring_size (cx_args x)) n (net_start (scatter_progs x d src old junk) (\<lambda>_. \<lparr>st_mem = mem, st_puts = []\<rparr>)) f"
    and stuck: "net_stuck (scatter_ring_size (cx_args x)) f" and ps: "ps = st_puts (stores f 1)" by (auto simp: scatter_core_def)
  from scatter_runs [OF assms(1), of d src old junk mem] obtain m g where
    g: "net_run (scatter_ring_size (cx_args x)) m (net_start (scatter_progs x d src old junk) (\<lambda>_. \<lparr>st_mem = mem, st_puts = []\<rparr>)) g"
      "net_done g" "st_puts (stores g 1) = map (scatter_put x d src) [0..<core_chunks x]" by blast
  from one_run_decides [OF g(1,2) net_start_ok [OF scatter_owned] run] stuck have "f = g" by blast
  with g(3) ps show ?thesis by blast
qed

lemma scatter_put_agrees: "put_agrees (scattered (cx_args x) (cx_ops x) d src) (scatter_put x d src q)"
  by (simp add: put_agrees_def scatter_put_def Let_def)

text \<open>Every byte of a core's pages is in a chunk of the core.\<close>

lemma scatter_put_covers:
  assumes ok: "scatter_ok x B" and P: "cx_first x \<le> P" "P < cx_first x + cx_num x" and k: "k < ra_page_bytes (sc_rows (cx_args x))"
  shows "\<exists>q < core_chunks x. put_covers P k (scatter_put x d src q)"
proof -
  define a where "a = sc_rows (cx_args x)"
  have sok: "rows_shape_ok a B" "cx_first x + cx_num x \<le> B * ra_N a * ra_S a" "B * ra_N a * ra_S a < 2 ^ 32"
    using ok unfolding scatter_ok_def Let_def a_def by blast+
  have "0 < cx_num x" using P by linarith
  note b = rows_shape_bounds [OF sok(1)]
  have page: "0 < ra_page_bytes a" "ra_page_bytes a + ra_chunk_bytes a \<le> 2 ^ 32" using sok(1) unfolding rows_shape_ok_def by blast+
  then have "ra_page_bytes a + ra_chunk_bytes a - 1 < 4294967296" by simp
  then have C: "page_chunks a = div_up (ra_page_bytes a) (ra_chunk_bytes a)" by (simp add: page_chunks_def div_up_def w32_id)
  have chunk: "0 < ra_chunk_bytes a" using b(8) by simp
  define c where "c = k div ra_chunk_bytes a"
  have ck: "c * ra_chunk_bytes a \<le> k" "k < c * ra_chunk_bytes a + ra_chunk_bytes a"
    using chunk dividend_less_div_times [of "ra_chunk_bytes a" k] by (simp_all add: c_def add.commute)
  have c: "c < page_chunks a" unfolding C using ck(1) k chunk by (simp add: less_div_up_iff a_def)
  define q where "q = (P - cx_first x) * page_chunks a + c"
  have "P - cx_first x < cx_num x" using P by linarith
  from index_less_product [OF this c] have q: "q < core_chunks x" by (simp add: q_def a_def)
  have qdiv: "q div page_chunks a = P - cx_first x" "q mod page_chunks a = c"
    unfolding q_def using index_div [OF c] index_mod [OF c] by simp_all
  have "P < 4294967296" using P sok(2,3) by simp
  then have pg: "chunk_page a (cx_first x) q = P" using P by (simp add: chunk_page_def qdiv w32_id)
  have "c * ra_chunk_bytes a < 4294967296" using ck(1) k page by (simp add: a_def)
  then have off: "chunk_offset a q = c * ra_chunk_bytes a" by (simp add: chunk_offset_def qdiv w32_id)
  have "k < c * ra_chunk_bytes a + chunk_length a (c * ra_chunk_bytes a)"
    using ck k by (auto simp: chunk_length_def a_def)
  then have "put_covers P k (scatter_put x d src q)"
    using ck(1) by (simp add: put_covers_def scatter_put_def Let_def a_def [symmetric] pg off)
  then show ?thesis using q by blast
qed

lemma scatter_work_pages:
  assumes "rows_launch p i scatter"
  shows "scatter_work (geometry p i) = scatter_pages i"
proof -
  have "rows_fit p i" using assms by (simp add: rows_launch_def)
  then have "scatter_pages i < 2 ^ 32" unfolding rows_fit_def Let_def scatter_pages_def by blast
  then show ?thesis using launch_geometry(4,14) [OF assms] by (simp add: scatter_work_def scatter_pages_def w32_id mult.assoc)
qed

text \<open>
  C33: The output of rows_scatter: when the kernels of all cores have stopped and their writes have
  landed in whatever order, every byte of the output is what the table's byte becomes under the
  updates of its batch's positions, applied in the order of the positions, with a position out of
  bounds dropped: a row (or a column window of a row) takes the source's bytes, or the element-wise
  reduction of the two. It holds for every split of the pages over the cores, every interleaving
  of the kernels, wherever the platform puts the buffers and whatever L1 held.
\<close>

theorem rows_scatter_result:
  assumes "rows_scatter p i table indices source output split = Inr (Launch prog)" and "scatter_fit p i"
    and "\<forall>work. split_ok work (split work)"
    and "buffers_apart at (dataflow_buffers (artifact_spec prog))"
    and "scatter_cores (scatter_args_of p i) ops at d src (split (scatter_work (geometry p i))) pss"
    and "landed (concat pss) m m'" and "P < scatter_pages i" and "k < ra_page_bytes (gather_args p i)"
  shows "m' P k = scattered (scatter_args_of p i) ops d src P k \<and>
    map num_entries (dataflow_buffers (artifact_spec prog)) = map (scatter_ring_size (scatter_args_of p i)) [RowsBuf, IndexBuf, StreamBuf, ScratchBuf]"
proof
  note launch = rows_scatter_launch [OF assms(1,2)]
  let ?s = "scatter_args_of p i" and ?split = "split (scatter_work (geometry p i))"
  note work = scatter_work_pages [OF launch(1)]
  have split: "split_ok (scatter_pages i) ?split" using assms(3) by (simp add: work)
  have ok: "scatter_ok (core_ctx ?s ops at first num) (ten_shape (in_table i) ! 0)" if "(core, first, num) \<in> set (split_ranges ?split)" for core first num
    by (rule launch_scatter_ok [OF launch(1) assms(2) assms(4) [unfolded launch(2)] split_range_bound [OF split that]])
  have puts: "ps = map (scatter_put (core_ctx ?s ops at first num) d src) [0..<core_chunks (core_ctx ?s ops at first num)]"
    if "(core, first, num) \<in> set (split_ranges ?split)" "scatter_core (core_ctx ?s ops at first num) d src ps" for core first num ps
    by (rule scatter_core_puts [OF ok [OF that(1)] that(2)])
  have ctx: "cx_args (core_ctx ?s ops at first num) = ?s" "cx_ops (core_ctx ?s ops at first num) = ops"
    "cx_first (core_ctx ?s ops at first num) = first" "cx_num (core_ctx ?s ops at first num) = num" for first num
    by (simp_all add: core_ctx_def)
  have agrees: "put_agrees (scattered ?s ops d src) w" if "w \<in> set (concat pss)" for w
  proof -
    from that obtain ps where ps: "ps \<in> set pss" "w \<in> set ps" by auto
    from list_all2_memberI(2) [OF assms(5) [unfolded scatter_cores_def] ps(1)] obtain core first num where
      r: "(core, first, num) \<in> set (split_ranges ?split)" "scatter_core (core_ctx ?s ops at first num) d src ps" by auto
    from puts [OF r] ps(2) obtain q where "w = scatter_put (core_ctx ?s ops at first num) d src q" by auto
    then show ?thesis using scatter_put_agrees [of "core_ctx ?s ops at first num"] by (simp add: ctx)
  qed
  from split_item_core [OF split assms(7)] obtain core first num where
    r: "(core, first, num) \<in> set (split_ranges ?split)" "first \<le> P" "P < first + num" by blast
  from list_all2_memberI(1) [OF assms(5) [unfolded scatter_cores_def] r(1)] obtain ps where
    ps: "ps \<in> set pss" "scatter_core (core_ctx ?s ops at first num) d src ps" by auto
  have "k < ra_page_bytes (sc_rows (cx_args (core_ctx ?s ops at first num)))" using assms(8) unfolding ctx by (simp add: scatter_args)
  from scatter_put_covers [OF ok [OF r(1)] _ _ this, of P d src] r(2,3) obtain q where
    q: "q < core_chunks (core_ctx ?s ops at first num)" "put_covers P k (scatter_put (core_ctx ?s ops at first num) d src q)"
    by (auto simp: ctx)
  then have "scatter_put (core_ctx ?s ops at first num) d src q \<in> set ps" unfolding puts [OF r(1) ps(2)] by simp
  then have "scatter_put (core_ctx ?s ops at first num) d src q \<in> set (concat pss)" using ps(1) by auto
  then show "m' P k = scattered ?s ops d src P k" using landed_at [OF assms(6) agrees _ q(2)] by blast
  show "map num_entries (dataflow_buffers (artifact_spec prog)) = map (scatter_ring_size ?s) [RowsBuf, IndexBuf, StreamBuf, ScratchBuf]"
    by (simp add: launch(2) scatter_artifacts_def dfb_plain_def scatter_ring_size_def scatter_args Let_def)
qed

text \<open>
  C34: No core of rows_scatter waits for ever: every run of its reader and writer is bounded, and
  where no kernel can step both have come to their ends. The reader's groups never straddle the
  end of the rows buffer, as the batch is a multiple of the group.
\<close>

theorem rows_scatter_ends:
  assumes "rows_scatter p i table indices source output split = Inr (Launch prog)" and "scatter_fit p i"
    and "\<forall>work. split_ok work (split work)"
    and "buffers_apart at (dataflow_buffers (artifact_spec prog))"
    and "(core, first, num) \<in> set (split_ranges (split (scatter_work (geometry p i))))"
  shows "\<exists>bound. \<forall>n f. net_run (scatter_ring_size (scatter_args_of p i)) n
      (net_start (scatter_progs (core_ctx (scatter_args_of p i) ops at first num) d src old junk) (\<lambda>_. \<lparr>st_mem = mem, st_puts = []\<rparr>)) f \<longrightarrow>
    n \<le> bound \<and> (net_stuck (scatter_ring_size (scatter_args_of p i)) f \<longrightarrow> net_done f)"
proof -
  note launch = rows_scatter_launch [OF assms(1,2)]
  let ?x = "core_ctx (scatter_args_of p i) ops at first num"
  have split: "split_ok (scatter_pages i) (split (scatter_work (geometry p i)))"
    using assms(3) by (simp add: scatter_work_pages [OF launch(1)])
  have ok: "scatter_ok ?x (ten_shape (in_table i) ! 0)"
    by (rule launch_scatter_ok [OF launch(1) assms(2) assms(4) [unfolded launch(2)] split_range_bound [OF split assms(5)]])
  have args: "cx_args ?x = scatter_args_of p i" by (simp add: core_ctx_def)
  from scatter_runs [OF ok, of d src old junk mem, unfolded args] obtain m g where
    g: "net_run (scatter_ring_size (scatter_args_of p i)) m (net_start (scatter_progs ?x d src old junk) (\<lambda>_. \<lparr>st_mem = mem, st_puts = []\<rparr>)) g" "net_done g"
    by blast
  from one_run_decides [OF g net_start_ok [OF scatter_owned]] g(2) show ?thesis by blast
qed

section \<open>An instance\<close>

lemma scatter_cores_exist:
  assumes "\<And>core first num. (core, first, num) \<in> set (split_ranges split) \<Longrightarrow> scatter_ok (core_ctx s ops at first num) B"
  shows "\<exists>pss. scatter_cores s ops at d src split pss"
proof -
  have "\<exists>ps. case r of (core, first, num) \<Rightarrow> scatter_core (core_ctx s ops at first num) d src ps" if r: "r \<in> set (split_ranges split)" for r
  proof -
    obtain core first num where rr: "r = (core, first, num)" by (cases r) auto
    let ?x = "core_ctx s ops at first num"
    from scatter_runs [OF assms, of core first num d src "\<lambda>_ _. 0" "\<lambda>_. 0" "\<lambda>_. 0"] r rr obtain m f where
      "net_run (scatter_ring_size (cx_args ?x)) m (net_start (scatter_progs ?x d src (\<lambda>_ _. 0) (\<lambda>_. 0)) (\<lambda>_. \<lparr>st_mem = \<lambda>_. 0, st_puts = []\<rparr>)) f"
      "net_done f" by blast
    then have "scatter_core ?x d src (st_puts (stores f 1))" unfolding scatter_core_def using net_done_stuck by blast
    then show ?thesis using rr by auto
  qed
  then obtain ps where "\<forall>r \<in> set (split_ranges split). case r of (core, first, num) \<Rightarrow> scatter_core (core_ctx s ops at first num) d src (ps r)" by metis
  then have "list_all2 (\<lambda>(core, first, num) ps. scatter_core (core_ctx s ops at first num) d src ps) (split_ranges split) (map ps (split_ranges split))"
    by (auto simp: list_all2_map2 list_all2_same)
  then show ?thesis unfolding scatter_cores_def by blast
qed

definition example_update :: rows_inputs where
  "example_update = example_operands\<lparr>in_source := Some (example_tensor [1, 2, 2] FLOAT32)\<rparr>"

definition example_at :: "string \<Rightarrow> nat" where
  "example_at name = (if name = ''rows'' then 0 else if name = ''index'' then 600000 else if name = ''stream'' then 700000 else 800000)"

lemma example_scatter:
  "rows_scatter example_params example_update ''t'' ''i'' ''s'' ''o'' one_core =
     Inr (Launch (scatter_artifacts example_params example_update ''t'' ''i'' ''s'' ''o'' one_core))"
  "scatter_fit example_params example_update"
  by (simp_all add: rows_scatter_def validate_indexed_rows_def check_tensor_def check_source_def example_params_def example_update_def
      example_operands_def example_tensor_def indexed_rows_table_def table_volume_def product32_def rows_fit_def scatter_fit_def
      gathered_shape_def indexed_rows_window_def middle_dims_def row_components_def div_up_def Let_def w32_def)

lemma example_entries:
  "ge_entry_bytes (geometry example_params example_update) = 64"
  "ge_index_entry_bytes (geometry example_params example_update) = 128"
  "ge_source_entry_bytes (geometry example_params example_update) = 128"
  by (simp_all add: geometry_def Let_def)
    (simp_all add: example_params_def example_update_def example_operands_def example_tensor_def
      indexed_rows_table_def entry_bytes_of_def align_entry_def kEntryAlign_def index_batch_of_def index_stride_of_def
      source_entry_of_def source_per_position_of_def w32_def)

lemma example_batch: "scatter_batch (geometry example_params example_update) \<le> 8192"
  by (simp add: scatter_batch_def Let_def example_entries)

lemma example_apart:
  "buffers_apart example_at (dataflow_buffers (artifact_spec
     (scatter_artifacts example_params example_update ''t'' ''i'' ''s'' ''o'' one_core)))"
  using example_batch
  by (simp add: buffers_apart_def scatter_artifacts_def scatter_geometry_def example_entries dfb_plain_def example_at_def Let_def)

lemmas scatter_example_launch = rows_scatter_launch(1) [OF example_scatter]

lemma example_scatter_args:
  "scatter_pages example_update = 4" "ra_page_bytes (gather_args example_params example_update) = 8"
  by (simp_all add: launch_args [OF scatter_example_launch])
    (simp_all add: scatter_pages_def example_update_def example_operands_def example_tensor_def middle_dims_def)

text \<open>The first index, 2, updates its row; the second, 7, is out of bounds and dropped.\<close>

lemma example_scattered: "scattered (scatter_args_of example_params example_update) ops example_dram src 2 0 = src 0 0"
proof -
  let ?a = "gather_args example_params example_update" and ?s = "scatter_args_of example_params example_update"
  define a where "a = sc_rows ?s"
  have a: "a = ?a\<lparr>ra_group := scatter_group (geometry example_params example_update)\<rparr>" by (simp add: a_def scatter_args)
  have args: "ra_K a = 1" "ra_KR a = 1" "ra_M a = 2" "ra_N a = 4" "ra_S a = 1" "ra_W a = 1" "ra_sizes a = [4]"
      "ra_windows a = [1]" "\<not> ra_column a" "\<not> ra_fill_oob a" "\<not> ra_unsigned a" "ra_page_bytes a = 8"
    unfolding a ra_KR_def by (simp_all add: launch_args [OF scatter_example_launch])
      (simp_all add: example_params_def example_update_def example_operands_def example_tensor_def row_components_def middle_dims_def)
  have none: "sc_reduce ?s = 0" by (simp add: scatter_args example_params_def reduce_code_def)
  have iv: "index_values a example_dram 0 = [2]" "index_values a example_dram 1 = [7]"
    by (simp_all add: index_values_def args position_index_def example_dram_def index_value_def)
  then have start: "start_of a example_dram 0 = [2]" "start_of a example_dram 1 = [3]"
    by (simp_all add: start_of_def args clamp_index_def)
  then have row: "gather_row a example_dram 0 0 = 2"
    by (simp add: gather_row_def args position_row_def)
  have one: "scatter_item ?s ops example_dram src T 1 = T" for T
    using iv start by (simp add: scatter_item_def a_def)
  show ?thesis
    using iv start
    by (simp add: scattered_def a_def [symmetric] args Let_def numeral_2_eq_2 one [unfolded One_nat_def])
      (simp add: scatter_item_def a_def [symmetric] args scatter_window_def row splice_def none Let_def)
qed

lemma rows_scatter_result_witness:
  "\<exists>pss m'. scatter_cores (scatter_args_of example_params example_update) (\<lparr>f_add = \<lambda>x _. x, f_mul = \<lambda>x _. x\<rparr>) example_at
      example_dram (\<lambda>_ _. 99) (one_core 4) pss \<and> landed (concat pss) (\<lambda>_ _. 0) m' \<and> m' 2 0 = 99"
proof -
  let ?ops = "\<lparr>f_add = \<lambda>x _. x, f_mul = \<lambda>x _. x\<rparr> :: float_ops"
  note launch = rows_scatter_launch [OF example_scatter]
  have work: "scatter_work (geometry example_params example_update) = 4"
    by (simp add: scatter_work_pages [OF launch(1)] example_scatter_args)
  have ok: "scatter_ok (core_ctx (scatter_args_of example_params example_update) ?ops example_at first num)
      (ten_shape (in_table example_update) ! 0)" if "(core, first, num) \<in> set (split_ranges (one_core 4))" for core first num
    using split_range_bound [OF one_core_ok that]
    by (intro launch_scatter_ok [OF launch(1) example_scatter(2) example_apart]) (simp add: example_scatter_args)
  have "\<exists>pss. scatter_cores (scatter_args_of example_params example_update) ?ops example_at example_dram (\<lambda>_ _. 99) (one_core 4) pss"
    by (rule scatter_cores_exist) (rule ok)
  then obtain pss where
    pss: "scatter_cores (scatter_args_of example_params example_update) ?ops example_at example_dram (\<lambda>_ _. 99) (one_core 4) pss" by blast
  have landed: "landed (concat pss) (\<lambda>_ _. 0) (fold apply_put (concat pss) (\<lambda>_ _. 0))" by (auto simp: landed_def)
  from rows_scatter_result [OF example_scatter _ example_apart _ landed, where ops = ?ops and d = example_dram and src = "\<lambda>_ _. 99" and P = 2 and k = 0] pss
  have "fold apply_put (concat pss) (\<lambda>_ _. 0) 2 0 = 99"
    by (simp add: one_core_ok work example_scatter_args example_scattered)
  then show ?thesis using pss landed by blast
qed

lemma rows_scatter_ends_witness:
  "\<exists>bound. \<forall>n f. net_run (scatter_ring_size (scatter_args_of example_params example_update)) n
      (net_start (scatter_progs (core_ctx (scatter_args_of example_params example_update) (\<lparr>f_add = \<lambda>x _. x, f_mul = \<lambda>x _. x\<rparr>) example_at 0 4)
         example_dram (\<lambda>_ _. 99) (\<lambda>_ _. 0) (\<lambda>_. 0)) (\<lambda>_. \<lparr>st_mem = \<lambda>_. 0, st_puts = []\<rparr>)) f \<longrightarrow>
    n \<le> bound \<and> (net_stuck (scatter_ring_size (scatter_args_of example_params example_update)) f \<longrightarrow> net_done f)"
  by (rule rows_scatter_ends [OF example_scatter _ example_apart, where core = "(0, 0)"])
    (simp_all add: one_core_ok scatter_work_pages [OF scatter_example_launch] example_scatter_args,
     simp add: one_core_def split_ranges_def core_count_def)

end
