(* ===== verification/RowsRoundTrip.thy ===== *)
theory RowsRoundTrip
  imports RowsScatterProgram
begin

text \<open>
  rows_scatter without a reduction followed by rows_gather with the same indices, on windows of
  rows: where the updates are in bounds and no two of them meet, the gather reads the scatter's
  source back.
\<close>

section \<open>Updates that do not meet\<close>

definition updates_apart :: "rows_args \<Rightarrow> rows_dram \<Rightarrow> nat \<Rightarrow> bool" where
  "updates_apart a d B \<longleftrightarrow>
     (\<forall>item < B * ra_M a. start_of a d item = index_values a d item \<and>
       (\<forall>item' < B * ra_M a. \<forall>j < ra_W a. \<forall>j' < ra_W a. item div ra_M a = item' div ra_M a \<longrightarrow>
          gather_row a d item j = gather_row a d item' j' \<longrightarrow> item = item' \<and> j = j'))"

lemma scatter_windows_miss:
  assumes "\<not> ra_column (sc_rows s)"
    and "\<And>j. j \<in> set js \<Longrightarrow> item div ra_M (sc_rows s) * ra_N (sc_rows s) + gather_row (sc_rows s) d item j \<noteq> P div ra_S (sc_rows s)"
  shows "foldl (scatter_window s ops d src item) T js P = T P"
  using assms(2)
proof (induction js arbitrary: T)
  case (Cons j js)
  have "scatter_window s ops d src item T j P = T P"
    using Cons.prems [of j] assms(1) by (auto simp: scatter_window_def Let_def)
  with Cons show ?case by simp
qed simp

lemma scatter_windows_hit:
  assumes "\<not> ra_column (sc_rows s)" "sc_reduce s = 0" "j \<in> set js" "k < ra_page_bytes (sc_rows s)"
    and "\<And>j'. j' \<in> set js \<Longrightarrow>
      item div ra_M (sc_rows s) * ra_N (sc_rows s) + gather_row (sc_rows s) d item j' = P div ra_S (sc_rows s) \<longleftrightarrow> j' = j"
  shows "foldl (scatter_window s ops d src item) T js P k = src ((item * ra_W (sc_rows s) + j) * ra_S (sc_rows s) + P mod ra_S (sc_rows s)) k"
  using assms(3,5)
proof (induction js rule: rev_induct)
  case (snoc x js)
  show ?case
  proof (cases "x = j")
    case True
    have "item div ra_M (sc_rows s) * ra_N (sc_rows s) + gather_row (sc_rows s) d item x = P div ra_S (sc_rows s)"
      using snoc.prems(2) [of x] True by simp
    then show ?thesis using assms(1,2,4) True by (simp add: scatter_window_def splice_def Let_def)
  next
    case False
    then have "item div ra_M (sc_rows s) * ra_N (sc_rows s) + gather_row (sc_rows s) d item x \<noteq> P div ra_S (sc_rows s)"
      using snoc.prems(2) [of x] by simp
    then have "scatter_window s ops d src item T' x P = T' P" for T' using assms(1) by (auto simp: scatter_window_def Let_def)
    then show ?thesis using snoc False by auto
  qed
qed simp

text \<open>What an update that meets no other leaves at its row.\<close>

lemma scattered_apart:
  assumes shape: "rows_shape_ok (sc_rows s) B" and row: "\<not> ra_column (sc_rows s)" "sc_reduce s = 0"
    and apart: "updates_apart (sc_rows s) d B" and item: "item < B * ra_M (sc_rows s)" and j: "j < ra_W (sc_rows s)"
    and t: "t < ra_S (sc_rows s)" and k: "k < ra_page_bytes (sc_rows s)"
  shows "scattered s ops d src ((item div ra_M (sc_rows s) * ra_N (sc_rows s) + gather_row (sc_rows s) d item j) * ra_S (sc_rows s) + t) k =
    src ((item * ra_W (sc_rows s) + j) * ra_S (sc_rows s) + t) k"
proof -
  define a where "a = sc_rows s"
  define b where "b = item div ra_M a"
  define P where "P = (b * ra_N a + gather_row a d item j) * ra_S a + t"
  have M: "0 < ra_M a" using shape unfolding rows_shape_ok_def a_def by blast
  have P: "P div ra_S a = b * ra_N a + gather_row a d item j" "P mod ra_S a = t"
    unfolding P_def using index_div [OF t] index_mod [OF t] by (simp_all add: a_def)
  have r: "gather_row a d item' j' < ra_N a" for item' j' unfolding a_def by (rule window_row_gather(2) [OF shape])
  have batch: "P div (ra_N a * ra_S a) = b"
    using index_div [OF r, of b item j] by (metis P(1) div_mult2_eq mult.commute)
  have own: "b * ra_M a \<le> item" "item < b * ra_M a + ra_M a"
    using M dividend_less_div_times [of "ra_M a" item] by (simp_all add: b_def add.commute)
  have hit: "b * ra_N a + gather_row a d item' j' = P div ra_S a \<longleftrightarrow> item' = item \<and> j' = j"
    if "item' < B * ra_M a" "item' div ra_M a = b" "j' < ra_W a" for item' j'
    using apart item j that unfolding P(1) updates_apart_def a_def [symmetric] b_def by (metis add_left_cancel)
  have less: "item' < B * ra_M a" if "item' \<in> set [b * ra_M a..<b * ra_M a + ra_M a]" for item'
  proof -
    have "b < B" using item by (simp add: b_def a_def less_mult_imp_div_less)
    then have "(b + 1) * ra_M a \<le> B * ra_M a" by (intro mult_le_mono1) simp
    then show ?thesis using that by simp
  qed
  have same: "item' div ra_M a = b" if "item' \<in> set [b * ra_M a..<b * ra_M a + ra_M a]" for item'
    using that M by (metis add.commute atLeastLessThan_iff div_nat_eqI mult.commute mult_Suc set_upt)
  have other: "scatter_item s ops d src T item' P = T P" if "item' \<in> set [b * ra_M a..<b * ra_M a + ra_M a]" "item' \<noteq> item" for T item'
  proof -
    have "foldl (scatter_window s ops d src item') T [0..<ra_W a] P = T P"
      by (rule scatter_windows_miss [OF row(1)]) (use hit [OF less [OF that(1)] same [OF that(1)]] same [OF that(1)] that(2) in \<open>auto simp: a_def [symmetric]\<close>)
    then show ?thesis by (simp add: scatter_item_def a_def [symmetric])
  qed
  have others: "foldl (scatter_item s ops d src) T items P = T P"
    if "set items \<subseteq> set [b * ra_M a..<b * ra_M a + ra_M a] - {item}" for T items
    using that by (induction items arbitrary: T) (simp_all add: other)
  have this_item: "scatter_item s ops d src T item P k = src ((item * ra_W a + j) * ra_S a + t) k" for T
  proof -
    have "start_of a d item = index_values a d item" using apart item unfolding updates_apart_def a_def by blast
    moreover have "foldl (scatter_window s ops d src item) T [0..<ra_W a] P k = src ((item * ra_W a + j) * ra_S a + P mod ra_S a) k"
      unfolding a_def
      by (rule scatter_windows_hit [OF row]) (use j k hit item in \<open>auto simp: a_def [symmetric] b_def\<close>)
    ultimately show ?thesis by (simp add: scatter_item_def a_def [symmetric] P(2))
  qed
  have "[b * ra_M a..<b * ra_M a + ra_M a] = [b * ra_M a..<item] @ item # [item + 1..<b * ra_M a + ra_M a]"
    using own by (metis Suc_eq_plus1 less_imp_le_nat upt_conv_Cons upt_split)
  moreover have "set [item + 1..<b * ra_M a + ra_M a] \<subseteq> set [b * ra_M a..<b * ra_M a + ra_M a] - {item}" using own by auto
  ultimately have "scattered s ops d src P k = src ((item * ra_W a + j) * ra_S a + t) k"
    by (simp add: scattered_def a_def [symmetric] batch others this_item Let_def)
  then show ?thesis by (simp add: P_def b_def a_def)
qed

section \<open>The calls\<close>

lemma reading_only:
  "gather_args p (i\<lparr>in_source := x\<rparr>) = gather_args p i" "geometry p (i\<lparr>in_source := x\<rparr>) = geometry p i"
  "rows_fit p (i\<lparr>in_source := x\<rparr>) = rows_fit p i"
proof -
  have i: "in_table (i\<lparr>in_source := x\<rparr>) = in_table i" "in_indices (i\<lparr>in_source := x\<rparr>) = in_indices i" by simp_all
  show g: "geometry p (i\<lparr>in_source := x\<rparr>) = geometry p i" by (simp only: geometry_def i)
  show "gather_args p (i\<lparr>in_source := x\<rparr>) = gather_args p i" by (simp only: gather_args_def g)
  show "rows_fit p (i\<lparr>in_source := x\<rparr>) = rows_fit p i" by (simp only: rows_fit_def i)
qed

lemma positions_group:
  "index_values (a\<lparr>ra_group := g\<rparr>) d item = index_values a d item" "start_of (a\<lparr>ra_group := g\<rparr>) d item = start_of a d item"
  "gather_row (a\<lparr>ra_group := g\<rparr>) d item j = gather_row a d item j"
proof -
  show v: "index_values (a\<lparr>ra_group := g\<rparr>) d item = index_values a d item" by (simp add: index_values_def position_index_def)
  show s: "start_of (a\<lparr>ra_group := g\<rparr>) d item = start_of a d item" by (simp add: start_of_def v)
  show "gather_row (a\<lparr>ra_group := g\<rparr>) d item j = gather_row a d item j" by (simp add: gather_row_def s ra_KR_def)
qed

lemma positions_table:
  "index_values a (d\<lparr>dr_table := t\<rparr>) item = index_values a d item" "start_of a (d\<lparr>dr_table := t\<rparr>) item = start_of a d item"
  "gather_row a (d\<lparr>dr_table := t\<rparr>) item j = gather_row a d item j"
proof -
  show v: "index_values a (d\<lparr>dr_table := t\<rparr>) item = index_values a d item" by (simp add: index_values_def position_index_def)
  show s: "start_of a (d\<lparr>dr_table := t\<rparr>) item = start_of a d item" by (simp add: start_of_def v)
  show "gather_row a (d\<lparr>dr_table := t\<rparr>) item j = gather_row a d item j" by (simp add: gather_row_def s)
qed

text \<open>
  C35: A gather of rows reads an overwriting scatter of rows back. For windows of rows (no column
  component among the indices) and an update that replaces the table's bytes (no reduction): where
  no two updates of rows_scatter meet and every index is in bounds, rows_gather with the same
  indices over the scatter's output returns the scatter's source, byte for byte, whatever the runs of the two
  programs. A reducing scatter leaves the table combined with its source, so nothing of the
  kind holds of it; column windows are not covered.
\<close>

theorem scatter_then_gather:
  assumes scatter: "rows_scatter p i table indices source output split = Inr (Launch prog)" "scatter_fit p i"
    and gather: "rows_gather p (i\<lparr>in_source := None\<rparr>) table' indices output' split = Inr (Launch prog')"
    and split: "\<forall>work. split_ok work (split work)"
    and apart: "buffers_apart at (dataflow_buffers (artifact_spec prog))"
    and rows: "\<not> ip_column p" "ip_reduce p = ReduceNone"
    and updates: "updates_apart (gather_args p i) d (ten_shape (in_table i) ! 0)"
    and scattered: "scatter_cores (scatter_args_of p i) ops at d src (split (scatter_work (geometry p i))) pss" "landed (concat pss) m m'"
    and gathered: "gather_cores (gather_args p i) (d\<lparr>dr_table := m'\<rparr>) (split (gather_work (geometry p i))) qss" "landed (concat qss) n n'"
    and place: "gather_place (gather_args p i) (ten_shape (in_table i) ! 0) P k"
  shows "n' P k = src P k"
proof -
  note launch = rows_scatter_launch [OF scatter]
  have fit: "rows_fit p (i\<lparr>in_source := None\<rparr>)" using launch(1) by (simp add: rows_launch_def reading_only)
  define a where "a = gather_args p i"
  let ?s = "scatter_args_of p i" and ?B = "ten_shape (in_table i) ! 0" and ?d = "d\<lparr>dr_table := m'\<rparr>"
  note args = launch_args [OF launch(1)]
  have shape: "rows_shape_ok a ?B" unfolding a_def by (rule launch_args_ok(2) [OF launch(1)])
  have rowmode: "\<not> ra_column a" using rows by (simp add: a_def args)
  have s: "sc_rows ?s = a\<lparr>ra_group := scatter_group (geometry p i)\<rparr>" "sc_reduce ?s = 0"
    using rows(2) by (simp_all add: scatter_args a_def reduce_code_def)
  note same = positions_group [where a = a] positions_table
  let ?j = "P div ra_S a mod ra_W a" and ?item = "P div ra_S a div ra_W a" and ?t = "P mod ra_S a"
  have P: "P < ?B * ra_M a * ra_W a * ra_S a" and k: "k < ra_page_bytes a"
    using place rowmode by (simp_all add: gather_place_def a_def)
  have S: "0 < ra_S a" and W: "0 < ra_W a" using shape rows_shape_facts(1) [OF shape] unfolding rows_shape_ok_def by blast+
  have item: "?item < ?B * ra_M a" using P by (simp add: less_mult_imp_div_less)
  have bounds: "?j < ra_W a" "?t < ra_S a" using S W by simp_all
  have page: "?item div ra_M a < ?B" using item by (simp add: less_mult_imp_div_less)
  let ?Q = "(?item div ra_M a * ra_N a + gather_row a d ?item ?j) * ra_S a + ?t"
  have "gather_row a d ?item ?j < ra_N a" by (rule window_row_gather(2) [OF shape])
  from index_less_product [OF index_less_product [OF page this] bounds(2)] have Q: "?Q < scatter_pages i"
    by (simp add: scatter_pages_def a_def args)
  have "n' P k = gathered a ?d P k"
    using rows_gather_result [OF gather fit split _ gathered(2), where P = P and k = k and d = ?d] gathered(1) place by (simp add: a_def reading_only)
  also have "\<dots> = m' ?Q k"
    using updates item by (simp add: gathered_def rowmode gathered_row_def zero_filled_def same updates_apart_def a_def [symmetric] Let_def)
  also have "\<dots> = scattered ?s ops d src ?Q k"
    using rows_scatter_result [OF scatter split apart scattered Q, of k] k by (simp add: a_def)
  also have "\<dots> = src ((?item * ra_W a + ?j) * ra_S a + ?t) k"
    using scattered_apart [of ?s ?B d ?item ?j ?t k ops src] updates shape rowmode item bounds k
    by (simp add: s same updates_apart_def a_def [symmetric])
  also have "(?item * ra_W a + ?j) * ra_S a + ?t = P" by simp
  finally show ?thesis .
qed

section \<open>An instance\<close>

definition distinct_dram :: rows_dram where
  "distinct_dram = \<lparr>dr_table = (\<lambda>_ _. 0), dr_indices = (\<lambda>page word. if word = 0 then 2 else 1)\<rparr>"

lemma example_updates: "updates_apart (gather_args example_params example_update) distinct_dram (ten_shape (in_table example_update) ! 0)"
proof -
  define a where "a = gather_args example_params example_update"
  have args: "ra_K a = 1" "ra_KR a = 1" "ra_M a = 2" "ra_N a = 4" "ra_W a = 1" "ra_sizes a = [4]" "ra_windows a = [1]" "\<not> ra_unsigned a"
    unfolding a_def ra_KR_def by (simp_all add: launch_args [OF scatter_example_launch])
      (simp_all add: example_params_def example_update_def example_operands_def example_tensor_def row_components_def)
  have B: "ten_shape (in_table example_update) ! 0 = 1" by (simp add: example_update_def example_operands_def example_tensor_def)
  have iv: "index_values a distinct_dram 0 = [2]" "index_values a distinct_dram 1 = [1]"
    by (simp_all add: index_values_def args position_index_def distinct_dram_def index_value_def)
  then have start: "start_of a distinct_dram 0 = [2]" "start_of a distinct_dram 1 = [1]"
    by (simp_all add: start_of_def args clamp_index_def)
  then have row: "gather_row a distinct_dram 0 0 = 2" "gather_row a distinct_dram 1 0 = 1"
    by (simp_all add: gather_row_def args position_row_def)
  have two: "x < 2 \<longleftrightarrow> x = 0 \<or> x = 1" for x :: nat by auto
  show ?thesis
    unfolding updates_apart_def a_def [symmetric] B args mult_1 two less_one
    using iv start row by auto
qed

lemma scatter_then_gather_witness:
  "\<exists>pss m' qss n'. scatter_cores (scatter_args_of example_params example_update) (\<lparr>f_add = \<lambda>x _. x, f_mul = \<lambda>x _. x\<rparr>) example_at
      distinct_dram (\<lambda>P k. of_nat (50 + P)) (one_core 4) pss \<and> landed (concat pss) (\<lambda>_ _. 0) m' \<and>
    gather_cores (gather_args example_params example_update) (distinct_dram\<lparr>dr_table := m'\<rparr>) (one_core 2) qss \<and>
    landed (concat qss) (\<lambda>_ _. 0) n' \<and> n' 1 0 = 51"
proof -
  let ?ops = "\<lparr>f_add = \<lambda>x _. x, f_mul = \<lambda>x _. x\<rparr> :: float_ops" and ?src = "\<lambda>P k. of_nat (50 + P) :: u8"
  note launch = rows_scatter_launch [OF example_scatter]
  have read: "example_update\<lparr>in_source := None\<rparr> = example_operands" by (simp add: example_update_def example_operands_def)
  have same: "gather_args example_params example_update = gather_args example_params example_operands"
    "geometry example_params example_update = geometry example_params example_operands"
    using reading_only(1,2) [where p = example_params and i = example_update and x = None] by (simp_all add: read)
  have work: "scatter_work (geometry example_params example_update) = 4"
    by (simp add: scatter_work_pages [OF launch(1)] example_scatter_args)
  have ok: "scatter_ok (core_ctx (scatter_args_of example_params example_update) ?ops example_at first num)
      (ten_shape (in_table example_update) ! 0)" if "(core, first, num) \<in> set (split_ranges (one_core 4))" for core first num
    using split_range_bound [OF one_core_ok that]
    by (intro launch_scatter_ok [OF launch(1) example_scatter(2) example_apart]) (simp add: example_scatter_args)
  have "\<exists>pss. scatter_cores (scatter_args_of example_params example_update) ?ops example_at distinct_dram ?src (one_core 4) pss"
    by (rule scatter_cores_exist) (rule ok)
  then obtain pss where
    pss: "scatter_cores (scatter_args_of example_params example_update) ?ops example_at distinct_dram ?src (one_core 4) pss" by blast
  define m' where "m' = fold apply_put (concat pss) (\<lambda>_ _. 0)"
  have m': "landed (concat pss) (\<lambda>_ _. 0) m'" by (auto simp: landed_def m'_def)
  from gather_cores_exist [OF launch_args_ok(1) [OF example_launch] _ one_core_ok, of 2 "distinct_dram\<lparr>dr_table := m'\<rparr>"] obtain qss where
    qss: "gather_cores (gather_args example_params example_update) (distinct_dram\<lparr>dr_table := m'\<rparr>) (one_core 2) qss" by (auto simp: same)
  have n': "landed (concat qss) (\<lambda>_ _. 0) (fold apply_put (concat qss) (\<lambda>_ _. 0))" by (auto simp: landed_def)
  have call: "rows_gather example_params (example_update\<lparr>in_source := None\<rparr>) ''t'' ''i'' ''o'' one_core =
      Inr (Launch (gather_artifacts example_params example_operands ''t'' ''i'' ''o'' one_core))"
    unfolding read by (rule example_call)
  have gwork: "gather_work (geometry example_params example_update) = 2" by (simp only: same example_work)
  have place: "gather_place (gather_args example_params example_update) (ten_shape (in_table example_update) ! 0) 1 0"
    unfolding same using example_place by (simp add: example_update_def)
  have params: "\<not> ip_column example_params" "ip_reduce example_params = ReduceNone" by (simp_all add: example_params_def)
  have split: "\<forall>work. split_ok work (one_core work)" by (simp add: one_core_ok)
  have "fold apply_put (concat qss) (\<lambda>_ _. 0) 1 0 = ?src 1 0"
    by (rule scatter_then_gather [OF example_scatter call split example_apart params example_updates _ m' _ n' place,
        unfolded work gwork, OF pss qss])
  then show ?thesis using pss m' qss n' by (intro exI [of _ pss] exI [of _ m'] exI [of _ qss] exI [of _ "fold apply_put (concat qss) (\<lambda>_ _. 0)"]) simp
qed

end
