(* ===== verification/RowsPrograms.thy ===== *)
theory RowsPrograms
  imports RowsScatterProgram
begin

text \<open>
  The programs of rows_gather and rows_scatter as the platform loads them: every buffer has one
  producer and one consumer, every core its arguments, and the specs give each kernel the names
  its source reads.
\<close>

section \<open>What the kernels read\<close>

definition gather_reader_interface :: kernel_interface where
  "gather_reader_interface = \<lparr>reads_compile = [''num_components'', ''column'', ''index_unsigned'', ''fill_oob'', ''index_shared'',
       ''window'', ''positions'', ''rows_per_batch'', ''pages_per_row'', ''page_bytes'', ''chunk_bytes'', ''elem_bytes'',
       ''index_stride'', ''group'', ''index_batch''],
     reads_runtime = [''first_transfer'', ''num_transfers''], reads_dfbs = [''rows'', ''index''],
     reads_tensors = [''table'', ''indices''], reads_defines = [''ROWS_SIZES'', ''ROWS_WINDOWS'', ''ROWS_STRIDES'']\<rparr>"

definition gather_writer_interface :: kernel_interface where
  "gather_writer_interface = \<lparr>reads_compile = [''num_components'', ''column'', ''window'', ''positions'', ''pages_per_row'',
       ''page_bytes'', ''chunk_bytes'', ''elem_bytes'', ''group''],
     reads_runtime = [''first_transfer'', ''num_transfers''], reads_dfbs = [''rows''],
     reads_tensors = [''output''], reads_defines = [''ROWS_WINDOWS'']\<rparr>"

definition scatter_reader_interface :: kernel_interface where
  "scatter_reader_interface = \<lparr>reads_compile = [''page_bytes'', ''chunk_bytes'', ''group''],
     reads_runtime = [''first_page'', ''num_pages''], reads_dfbs = [''rows''],
     reads_tensors = [''table''], reads_defines = []\<rparr>"

definition scatter_writer_interface :: kernel_interface where
  "scatter_writer_interface = \<lparr>reads_compile = [''num_components'', ''column'', ''index_unsigned'', ''index_shared'',
       ''window'', ''positions'', ''rows_per_batch'', ''pages_per_row'', ''page_bytes'', ''chunk_bytes'', ''index_stride'',
       ''index_batch'', ''batch'', ''elem_kind'', ''elem_bytes'', ''reduce''],
     reads_runtime = [''first_page'', ''num_pages''], reads_dfbs = [''rows'', ''index'', ''stream'', ''scratch''],
     reads_tensors = [''output'', ''indices'', ''source''], reads_defines = [''ROWS_SIZES'', ''ROWS_WINDOWS'', ''ROWS_STRIDES'']\<rparr>"

section \<open>Sizes\<close>

lemma entry_positive:
  assumes "rows_launch p i scatter"
  shows "0 < ge_entry_bytes (geometry p i)" "0 < ge_index_entry_bytes (geometry p i)"
proof -
  note geo = launch_geometry [OF assms] and shape = launch_args_ok(2) [OF assms]
  have "0 < ra_chunk_bytes (gather_args p i)" using shape unfolding rows_shape_ok_def by blast
  with entry_bytes_ok(1) [OF assms] show "0 < ge_entry_bytes (geometry p i)" by simp
  have v: "validate_indexed_rows p i scatter = Inr ()" and fit: "rows_fit p i" using assms by (simp_all add: rows_launch_def)
  have K: "1 \<le> length (ip_sizes p)" "length (ip_sizes p) \<le> 1024"
    using validated_shapes(2) [OF v] fit by (simp_all add: rows_fit_def Let_def)
  let ?stride = "ge_index_stride_bytes (geometry p i)"
  obtain spp where n: "ge_index_batch (geometry p i) = index_batch_of (length (ip_sizes p)) spp (ten_shape (in_indices i) ! 2)"
    by (simp add: geometry_def Let_def)
  have small: "ge_index_batch (geometry p i) \<le> 4096" unfolding n by (rule index_batch_bounds [OF K])
  have "?stride = index_stride_of (ge_index_batch (geometry p i))" by (simp add: geometry_def Let_def)
  moreover have "w32 (ge_index_batch (geometry p i) * 4 + 64) = ge_index_batch (geometry p i) * 4 + 64" using small by (intro w32_id) simp
  ultimately have "?stride = align_entry (ge_index_batch (geometry p i) * 4 + 64)" by (simp add: index_stride_of_def kEntryAlign_def)
  moreover have "align_entry (ge_index_batch (geometry p i) * 4 + 64) < ge_index_batch (geometry p i) * 4 + 64 + 64"
    "ge_index_batch (geometry p i) * 4 + 64 \<le> align_entry (ge_index_batch (geometry p i) * 4 + 64)"
    using small by (intro align_entry_bounds; simp)+
  ultimately have stride: "0 < ?stride" "?stride \<le> 16512" using small by simp_all
  then have "length (ip_sizes p) * ?stride \<le> 1024 * 16512" using K(2) by (intro mult_le_mono)
  then have "w32 (length (ip_sizes p) * ?stride) = length (ip_sizes p) * ?stride" by (intro w32_id) simp
  moreover have "ge_index_entry_bytes (geometry p i) = w32 (length (ip_sizes p) * ?stride)" by (simp add: geometry_def Let_def)
  ultimately show "0 < ge_index_entry_bytes (geometry p i)" using stride(1) K(1) by auto
qed

lemma source_entry_positive:
  assumes "rows_launch p i True" "scatter_fit p i"
  shows "0 < ge_source_entry_bytes (geometry p i)"
proof (cases "ip_column p")
  case True
  from scatter_column [OF assms True] show ?thesis by linarith
next
  case False
  then have "ge_source_entry_bytes (geometry p i) = source_entry_of (ge_index_batch (geometry p i)) 0"
    by (simp add: geometry_def source_per_position_of_def Let_def)
  then show ?thesis by (simp add: source_entry_of_def align_entry_def kEntryAlign_def w32_def)
qed

lemma range_args_cores [simp]: "map fst (range_args first_name count_name s) = split_cores s"
  by (simp add: range_args_def comp_def case_prod_unfold split_ranges_cores [unfolded comp_def])

lemma range_args_names: "list_all (\<lambda>(core, args). map fst args = [first_name, count_name]) (range_args first_name count_name s)"
  by (simp add: range_args_def list_all_iff case_prod_unfold)

lemma compile_names: "map fst (ge_compile_time_args (geometry p i)) = [''num_components'', ''column'', ''index_unsigned'', ''fill_oob'',
    ''index_shared'', ''window'', ''positions'', ''rows_per_batch'', ''pages_per_row'', ''page_bytes'', ''chunk_bytes'',
    ''index_stride'', ''group'', ''index_batch'', ''batch'', ''elem_kind'', ''elem_bytes'', ''reduce'']"
  by (simp add: geometry_def Let_def)

lemma set_arg_names: "map fst (set_arg name v args) = map fst args"
  by (simp add: set_arg_def comp_def case_prod_unfold)

lemma scatter_names: "map fst (ge_compile_time_args (scatter_geometry g)) = map fst (ge_compile_time_args g)"
  by (simp add: scatter_geometry_def set_arg_names)

lemma define_names: "map fst (ge_defines (geometry p i)) = [''ROWS_SIZES'', ''ROWS_WINDOWS'', ''ROWS_STRIDES'']"
  "ge_defines (scatter_geometry g) = ge_defines g"
  by (simp_all add: geometry_def scatter_geometry_def Let_def)

section \<open>The programs are well formed\<close>

lemma gather_wf:
  assumes launch: "rows_launch p i False" and split: "\<And>work. split_ok work (split work)"
  shows "wf_program (gather_artifacts p i table indices output split)"
proof -
  have cores: "distinct (split_cores (split work))" for work using split by (simp add: split_ok_def)
  note entry = entry_positive [OF launch] and geo = launch_geometry(10) [OF launch]
  show ?thesis
    using entry geo cores range_args_names
    by (simp add: wf_program_simps gather_artifacts_def Let_def gather_reader_spec_def gather_writer_spec_def rows_kernel_def compile_names)
qed

lemma scatter_wf:
  assumes launch: "rows_launch p i True" and fit: "scatter_fit p i" and split: "\<And>work. split_ok work (split work)"
  shows "wf_program (scatter_artifacts p i table indices source output split)"
proof -
  have cores: "distinct (split_cores (split work))" for work using split by (simp add: split_ok_def)
  have bytes: "ge_entry_bytes (scatter_geometry g) = ge_entry_bytes g" "ge_index_entry_bytes (scatter_geometry g) = ge_index_entry_bytes g"
    "ge_source_entry_bytes (scatter_geometry g) = ge_source_entry_bytes g" for g
    by (simp_all add: scatter_geometry_def)
  note entry = entry_positive [OF launch] source_entry_positive [OF launch fit] and group = scatter_batch_bounds(2) [OF launch_geometry(10) [OF launch]]
  show ?thesis
    using entry group cores range_args_names
    by (simp add: wf_program_simps scatter_artifacts_def Let_def scatter_reader_spec_def scatter_writer_spec_def rows_kernel_def
        compile_names scatter_names bytes)
qed

lemma gather_links:
  "links gather_reader_interface (gather_reader_spec (geometry p i))" "links gather_writer_interface (gather_writer_spec (geometry p i))"
  by (simp_all add: links_def gather_reader_interface_def gather_writer_interface_def gather_reader_spec_def gather_writer_spec_def
      rows_kernel_def dfb_binding_of_def compile_names define_names flip: set_map)

lemma scatter_links:
  "links scatter_reader_interface (scatter_reader_spec (scatter_geometry (geometry p i)))"
  "links scatter_writer_interface (scatter_writer_spec (scatter_geometry (geometry p i)))"
  by (simp_all add: links_def scatter_reader_interface_def scatter_writer_interface_def scatter_reader_spec_def scatter_writer_spec_def
      rows_kernel_def dfb_binding_of_def compile_names scatter_names define_names flip: set_map)

lemma rows_kernels_link:
  "list_all2 links [gather_reader_interface, gather_writer_interface]
     (spec_kernels (artifact_spec (gather_artifacts p i table indices output split)))"
  "list_all2 links [scatter_reader_interface, scatter_writer_interface]
     (spec_kernels (artifact_spec (scatter_artifacts p i table indices source output split)))"
  using gather_links scatter_links by (simp_all add: gather_artifacts_def scatter_artifacts_def Let_def)

end
