(* ===== verification/SfpuMatmul.thy ===== *)
theory SfpuMatmul
  imports Prelude
begin

text \<open>
  The FP32 matrix multiply of one pair of 32x32 tiles on the vector unit,
  \<open>llk_sfpu/ckernel_sfpu_matmul_fp32.h\<close>, over the vector unit's registers and its view of
  Dst. Registers hold 32 lanes of 32 bits; the fused multiply-add of a lane is a parameter. The
  load macros are taken in the order of the source's schedule: each accumulator is loaded,
  multiplied into and stored before the next, and the rotation of the multiplier ends the round.
\<close>

section \<open>The vector unit\<close>

type_synonym lanes = "nat \<Rightarrow> u32"
type_synonym dst_mem = "nat \<Rightarrow> nat \<Rightarrow> u32"

record sfpu =
  lreg :: "nat \<Rightarrow> lanes"
  dst :: dst_mem
  counter :: nat
  template :: "nat \<Rightarrow> nat \<times> nat"
  sequence :: "nat \<Rightarrow> nat"

text \<open>
  Lane \<open>8 * i + j\<close> of the slot at an (even) address: row \<open>i\<close> of its four rows, and the even or
  odd column \<open>j\<close>. The address counter is added to the address of a load or store.
\<close>

definition load_vec :: "dst_mem \<Rightarrow> nat \<Rightarrow> lanes" where
  "load_vec d addr l = d (addr div 4 * 4 + l div 8) (2 * (l mod 8) + addr div 2 mod 2)"

definition store_vec :: "dst_mem \<Rightarrow> nat \<Rightarrow> lanes \<Rightarrow> dst_mem" where
  "store_vec d addr v r c =
     (if r div 4 = addr div 4 \<and> c mod 2 = addr div 2 mod 2 \<and> c < 16 then v (8 * (r mod 4) + c div 2) else d r c)"

definition sfpload :: "nat \<Rightarrow> nat \<Rightarrow> sfpu \<Rightarrow> sfpu" where
  "sfpload reg addr s = s\<lparr>lreg := (lreg s)(reg := load_vec (dst s) (addr + counter s))\<rparr>"

definition sfpstore :: "nat \<Rightarrow> nat \<Rightarrow> sfpu \<Rightarrow> sfpu" where
  "sfpstore reg addr s = s\<lparr>dst := store_vec (dst s) (addr + counter s) (lreg s reg)\<rparr>"

definition clear_dst_reg_addr :: "sfpu \<Rightarrow> sfpu" where
  "clear_dst_reg_addr s = s\<lparr>counter := 0\<rparr>"

definition set_reg :: "nat \<Rightarrow> lanes \<Rightarrow> sfpu \<Rightarrow> sfpu" where
  "set_reg reg v s = s\<lparr>lreg := (lreg s)(reg := v)\<rparr>"

definition sfpmov :: "nat \<Rightarrow> nat \<Rightarrow> sfpu \<Rightarrow> sfpu" where
  "sfpmov src reg s = set_reg reg (lreg s src) s"

text \<open>Sub-row \<open>j\<close> of register \<open>i\<close> trades places with sub-row \<open>i\<close> of register \<open>j\<close>, in both halves of the eight.\<close>

definition transposed :: "(nat \<Rightarrow> lanes) \<Rightarrow> nat \<Rightarrow> lanes" where
  "transposed r i l = (if l < 32 then r (i div 4 * 4 + l div 8) (8 * (i mod 4) + l mod 8) else r i l)"

definition sfptransp :: "sfpu \<Rightarrow> sfpu" where
  "sfptransp s = s\<lparr>lreg := (\<lambda>i. if i < 8 then transposed (lreg s) i else lreg s i)\<rparr>"

text \<open>Sub-row 0 of LREG0 into every sub-row of a constant register.\<close>

definition sfpconfig :: "nat \<Rightarrow> sfpu \<Rightarrow> sfpu" where
  "sfpconfig reg s = set_reg reg (\<lambda>l. lreg s 0 (l mod 8)) s"

definition ror1 :: "lanes \<Rightarrow> lanes" where
  "ror1 v l = v (8 * (l div 8) + (l mod 8 + 7) mod 8)"

definition vec_and :: "nat \<Rightarrow> nat \<Rightarrow> sfpu \<Rightarrow> sfpu" where
  "vec_and src reg s = set_reg reg (\<lambda>l. lreg s reg l AND lreg s src l) s"

definition vec_or :: "nat \<Rightarrow> nat \<Rightarrow> sfpu \<Rightarrow> sfpu" where
  "vec_or src reg s = set_reg reg (\<lambda>l. lreg s reg l OR lreg s src l) s"

definition vec_xor :: "nat \<Rightarrow> nat \<Rightarrow> sfpu \<Rightarrow> sfpu" where
  "vec_xor src reg s = set_reg reg (\<lambda>l. lreg s reg l XOR lreg s src l) s"

definition vec_not :: "nat \<Rightarrow> sfpu \<Rightarrow> sfpu" where
  "vec_not reg s = set_reg reg (\<lambda>l. NOT (lreg s reg l)) s"

text \<open>Immediates are 12 bits, signed; a shift to the right is logical or arithmetic.\<close>

definition imm12 :: "int \<Rightarrow> u32" where
  "imm12 i = word_of_int (signed_take_bit 11 i)"

definition vec_iadd :: "int \<Rightarrow> lanes \<Rightarrow> lanes" where
  "vec_iadd imm v l = v l + imm12 imm"

definition vec_shl :: "nat \<Rightarrow> lanes \<Rightarrow> lanes" where
  "vec_shl n v l = push_bit n (v l)"

definition vec_shr :: "nat \<Rightarrow> lanes \<Rightarrow> lanes" where
  "vec_shr n v l = drop_bit n (v l)"

definition vec_sar :: "nat \<Rightarrow> lanes \<Rightarrow> lanes" where
  "vec_sar n v l = word_of_int (sint (v l) div 2 ^ n)"

definition ltileid :: lanes where
  "ltileid l = of_nat (2 * l)"

section \<open>Addresses\<close>

definition tile_rows :: nat where "tile_rows = 64"

definition slot_addr :: "nat \<Rightarrow> nat \<Rightarrow> nat" where
  "slot_addr row col = 16 * (2 * (row div 16) + col div 16) + row mod 16 div 4 * 4 + 2 * (col mod 2)"

definition group_col :: "nat \<Rightarrow> nat" where
  "group_col g = 16 * (g div 2) + g mod 2"

definition acc_addr :: "nat \<Rightarrow> nat \<Rightarrow> nat" where
  "acc_addr g s = 2 * (8 * g + s)"

text \<open>Element \<open>(r, c)\<close> of Dst tile \<open>t\<close>: faces of 16 by 16.\<close>

definition tile_at :: "dst_mem \<Rightarrow> nat \<Rightarrow> nat \<Rightarrow> nat \<Rightarrow> u32" where
  "tile_at d t r c = d (tile_rows * t + 16 * (2 * (r div 16) + c div 16) + r mod 16) (c mod 16)"

section \<open>The multiply\<close>

definition init_matmul_fp32 :: "sfpu \<Rightarrow> sfpu" where
  "init_matmul_fp32 s = s\<lparr>template := (\<lambda>g. if g < 4 then (11 + g, 4) else template s g),
     sequence := (\<lambda>g. if g < 4 then (let mad_bits = 4 + g in mad_bits - 4) else sequence s g)\<rparr>"

text \<open>Load macro \<open>g\<close>: load, multiply-add by its template, store back.\<close>

definition load_macro :: "(u32 \<Rightarrow> u32 \<Rightarrow> u32 \<Rightarrow> u32) \<Rightarrow> nat \<Rightarrow> nat \<Rightarrow> sfpu \<Rightarrow> sfpu" where
  "load_macro mad g addr s =
     (let s1 = sfpload g addr s; (va, vb) = template s (sequence s g);
          s2 = set_reg g (\<lambda>l. mad (lreg s1 va l) (lreg s1 vb l) (lreg s1 g l)) s1
      in sfpstore g addr s2)"

text \<open>One rotation: the four accumulators of the address counter's column; the last load steps it.\<close>

definition rotation :: "(u32 \<Rightarrow> u32 \<Rightarrow> u32 \<Rightarrow> u32) \<Rightarrow> nat \<Rightarrow> sfpu \<Rightarrow> sfpu" where
  "rotation mad acc s =
     (let s = load_macro mad 0 (acc + acc_addr 0 0) s; s = load_macro mad 1 (acc + acc_addr 1 0) s;
          s = load_macro mad 2 (acc + acc_addr 2 0) s; s = load_macro mad 3 (acc + acc_addr 3 0) s;
          s = s\<lparr>counter := counter s + 2\<rparr>
      in set_reg 4 (ror1 (lreg s 4)) s)"

definition group_offset :: "nat \<Rightarrow> nat" where
  "group_offset g = [0, 2, 16, 18] ! g"

definition k_row :: "nat \<Rightarrow> nat" where
  "k_row k = 32 * (k div 16) + k mod 16 div 4 * 4"

definition load_x :: "nat \<Rightarrow> nat \<Rightarrow> nat \<Rightarrow> sfpu \<Rightarrow> sfpu" where
  "load_x b k g s =
     (let sub_row = k mod 4; s = sfpload 0 (b + k_row k + group_offset g) s;
          s = (if sub_row \<noteq> 0 then sfpmov sub_row 0 (sfptransp s) else s)
      in sfpconfig (11 + g) s)"

definition load_r :: "nat \<Rightarrow> nat \<Rightarrow> sfpu \<Rightarrow> sfpu" where
  "load_r at k s =
     (let s = sfpload 0 (at + k_row k + group_offset 0) s; s = sfpload 1 (at + k_row k + group_offset 1) s;
          s = sfpload 2 (at + k_row k + group_offset 2) s; s = sfpload 3 (at + k_row k + group_offset 3) s
      in sfpmov (k mod 4) 4 (sfptransp s))"

definition matmul_k :: "(u32 \<Rightarrow> u32 \<Rightarrow> u32 \<Rightarrow> u32) \<Rightarrow> nat \<Rightarrow> nat \<Rightarrow> nat \<Rightarrow> nat \<Rightarrow> sfpu \<Rightarrow> sfpu" where
  "matmul_k mad at b acc k s =
     (let s = clear_dst_reg_addr s; s = foldl (\<lambda>s g. load_x b k g s) s [0..<4]; s = load_r at k s
      in (rotation mad acc ^^ 8) s)"

definition zero_tile :: "nat \<Rightarrow> sfpu \<Rightarrow> sfpu" where
  "zero_tile acc s = foldl (\<lambda>s n. sfpstore 0 (acc + 2 * n) s) (set_reg 0 (\<lambda>_. 0) s) [0..<32]"

definition calculate_matmul_fp32 :: "(u32 \<Rightarrow> u32 \<Rightarrow> u32 \<Rightarrow> u32) \<Rightarrow> bool \<Rightarrow> nat \<Rightarrow> nat \<Rightarrow> nat \<Rightarrow> sfpu \<Rightarrow> sfpu" where
  "calculate_matmul_fp32 mad accumulate dst_at dst_b dst_acc s =
     (let at = dst_at * tile_rows; b = dst_b * tile_rows; acc = dst_acc * tile_rows;
          s = clear_dst_reg_addr s; s = (if accumulate then s else zero_tile acc s);
          s = foldl (\<lambda>s k. matmul_k mad at b acc k s) s [0..<32];
          s = clear_dst_reg_addr s
      in sfpconfig 11 (set_reg 0 (\<lambda>_. 0xbf800000) s))"

section \<open>The natural tile\<close>

text \<open>All ones in lane column \<open>column\<close> of each group of eight lanes, zero elsewhere.\<close>

definition lane_column_mask :: "nat \<Rightarrow> sfpu \<Rightarrow> sfpu" where
  "lane_column_mask column s = set_reg 0
     (vec_sar 31 (vec_iadd 0xfff (vec_shr 28 (vec_shl 28 (vec_iadd (- 2 * int column) ltileid))))) s"

definition gather_lanes :: "nat \<Rightarrow> nat \<Rightarrow> nat \<Rightarrow> nat \<Rightarrow> nat \<Rightarrow> sfpu \<Rightarrow> sfpu" where
  "gather_lanes acc scratch g t reg s =
     foldl (\<lambda>s i. vec_or 2 reg (vec_and 3 2 (sfpload 3 (scratch + 2 * ((i + t) mod 8)) (sfpload 2 (acc + acc_addr g i) s))))
       (set_reg reg (\<lambda>_. 0) s) [0..<8]"

definition store_masks :: "nat \<Rightarrow> sfpu \<Rightarrow> sfpu" where
  "store_masks scratch s =
     (let s = foldl (\<lambda>s column. sfpstore 0 (scratch + 2 * column) (lane_column_mask column s)) s [0..<8];
          s = set_reg 0 (vec_sar 31 (vec_iadd (- 32) ltileid)) s
      in sfpstore 0 (scratch + 16) (vec_not 0 s))"

definition merge_rows :: "nat \<Rightarrow> sfpu \<Rightarrow> sfpu" where
  "merge_rows scratch s =
     (let s = sfpmov 0 2 s; s = sfpmov 1 3 s; s = sfptransp s;
          s = sfpmov 2 4 s; s = sfpmov 3 5 s; s = sfpmov 2 6 s; s = sfpmov 3 7 s;
          s = sfpmov 0 2 s; s = sfpmov 1 3 s; s = sfptransp s;
          s = sfpload 2 (scratch + 16) s;
          s = vec_xor 0 1 s; s = vec_and 2 1 s; s = vec_xor 1 0 s;
          s = vec_xor 4 5 s; s = vec_and 2 5 s
      in vec_xor 5 4 s)"

definition finish_rows :: "nat \<Rightarrow> nat \<Rightarrow> nat \<Rightarrow> nat \<Rightarrow> nat \<Rightarrow> sfpu \<Rightarrow> sfpu" where
  "finish_rows acc out scratch g v s =
     (let s = gather_lanes acc scratch g (2 * v) 0 s; s = gather_lanes acc scratch g (2 * v + 1) 1 s;
          s = merge_rows scratch s; s = sfpstore 0 (out + slot_addr (4 * v) (group_col g)) s
      in sfpstore 4 (out + slot_addr (16 + 4 * v) (group_col g)) s)"

definition matmul_fp32_finish :: "nat \<Rightarrow> nat \<Rightarrow> nat \<Rightarrow> sfpu \<Rightarrow> sfpu" where
  "matmul_fp32_finish dst_acc dst_out dst_scratch s =
     (let acc = dst_acc * tile_rows; out = dst_out * tile_rows; scratch = dst_scratch * tile_rows;
          s = store_masks scratch (clear_dst_reg_addr s);
          s = foldl (\<lambda>s g. foldl (\<lambda>s v. finish_rows acc out scratch g v s) s [0..<4]) s [0..<4]
      in clear_dst_reg_addr s)"

section \<open>Slots\<close>

lemma four_div_mod:
  assumes "i < (4 :: nat)"
  shows "(4 * x + i) div 4 = x" "(4 * x + i) mod 4 = i" "(4 * x + i) div 16 = x div 4" "(4 * x + i) mod 16 = 4 * (x mod 4) + i"
proof -
  show a: "(4 * x + i) div 4 = x" "(4 * x + i) mod 4 = i" using assms by simp_all
  show "(4 * x + i) div 16 = x div 4" using div_mult2_eq [of "4 * x + i" 4 4] by (simp add: a)
  show "(4 * x + i) mod 16 = 4 * (x mod 4) + i" using mod_mult2_eq [of "4 * x + i" 4 4] assms by (simp add: a)
qed

text \<open>A slot's address: its face, its four rows of the face, the parity of its columns.\<close>

lemma slot_addr_parts:
  assumes "e < (2 :: nat)"
  shows "(4 * x + 2 * e) div 4 = x" "(4 * x + 2 * e) div 2 mod 2 = e"
proof -
  have "2 * e < 4" using assms by simp
  from four_div_mod(1) [OF this, of x] show "(4 * x + 2 * e) div 4 = x" .
  have "(4 * x + 2 * e) div 2 = e + x * 2" by simp
  then show "(4 * x + 2 * e) div 2 mod 2 = e" using assms by simp
qed

lemma slot_addr_alt: "tile_rows * t + slot_addr r c = 4 * (16 * t + 4 * (2 * (r div 16) + c div 16) + r div 4 mod 4) + 2 * (c mod 2)"
proof -
  have "r mod 16 div 4 = r div 4 mod 4" using mod_mult2_eq [of r 4 4] by simp
  then show ?thesis by (simp add: tile_rows_def slot_addr_def)
qed

lemma load_slot:
  assumes "c < 32" "l < 32"
  shows "load_vec d (tile_rows * t + slot_addr r c) l =
    tile_at d t (4 * (r div 4) + l div 8) (16 * (c div 16) + 2 * (l mod 8) + c mod 2)"
proof -
  have i: "l div 8 < 4" using assms(2) by (simp add: less_mult_imp_div_less)
  have e: "c mod 2 < 2" by simp
  have j: "2 * (l mod 8) + c mod 2 < 16"
  proof -
    have "l mod 8 < 8" "c mod 2 < 2" by simp_all
    then show ?thesis by linarith
  qed
  have "(16 * (c div 16) + (2 * (l mod 8) + c mod 2)) div 16 = c div 16" "(16 * (c div 16) + (2 * (l mod 8) + c mod 2)) mod 16 = 2 * (l mod 8) + c mod 2"
    using j by simp_all
  moreover have "r div 16 = r div 4 div 4" by (simp add: div_mult2_eq [symmetric])
  ultimately show ?thesis
    unfolding load_vec_def slot_addr_alt slot_addr_parts [OF e] tile_at_def four_div_mod(3,4) [OF i]
    by (simp add: tile_rows_def add.assoc mult.commute)
qed

lemma load_store:
  assumes "even a" "even b" "l < 32"
  shows "load_vec (store_vec d a v) b l = (if a = b then v l else load_vec d b l)"
proof -
  have i: "l div 8 < 4" and j: "l mod 8 < 8" using assms(3) by (simp_all add: less_mult_imp_div_less)
  have e: "b div 2 mod 2 < 2" by simp
  have row: "(b div 4 * 4 + l div 8) div 4 = b div 4" "(b div 4 * 4 + l div 8) mod 4 = l div 8"
    using four_div_mod(1,2) [OF i, of "b div 4"] by (simp_all add: mult.commute)
  have c: "(2 * (l mod 8) + b div 2 mod 2) mod 2 = b div 2 mod 2" "(2 * (l mod 8) + b div 2 mod 2) div 2 = l mod 8" by simp_all
  have small: "2 * (l mod 8) + b div 2 mod 2 < 16" using j e by linarith
  have same: "b div 4 = a div 4 \<and> b div 2 mod 2 = a div 2 mod 2 \<longleftrightarrow> a = b"
  proof
    assume h: "b div 4 = a div 4 \<and> b div 2 mod 2 = a div 2 mod 2"
    have "x div 2 = 2 * (x div 4) + x div 2 mod 2" for x :: nat
    proof -
      have "x div 2 div 2 = x div 4" by (simp add: div_mult2_eq [symmetric])
      then show ?thesis using div_mult_mod_eq [of "x div 2" 2] by simp
    qed
    then have "a div 2 = b div 2" using h by metis
    then show "a = b" using assms(1,2) by (metis dvd_mult_div_cancel)
  qed simp
  show ?thesis unfolding load_vec_def store_vec_def row c using small same by auto
qed

section \<open>One row and one column\<close>

text \<open>Lane \<open>8 * h + j\<close> of a group belongs to tile column \<open>col h j\<close>.\<close>

definition col :: "nat \<Rightarrow> nat \<Rightarrow> nat" where
  "col g j = 16 * (g div 2) + 2 * j + g mod 2"

lemma group_slot: "g < 4 \<Longrightarrow> k < 32 \<Longrightarrow> k_row k + group_offset g = slot_addr k (group_col g)"
proof -
  assume "g < 4" "k < 32"
  then have "g = 0 \<or> g = 1 \<or> g = 2 \<or> g = 3" by auto
  then show ?thesis by (auto simp: k_row_def group_offset_def slot_addr_def group_col_def)
qed

lemma group_col_facts: "g < 4 \<Longrightarrow> group_col g < 32" "g < 4 \<Longrightarrow> group_col g div 16 = g div 2" "g < 4 \<Longrightarrow> group_col g mod 2 = g mod 2"
proof -
  have cases: "g = 0 \<or> g = 1 \<or> g = 2 \<or> g = 3" if "g < 4" using that by auto
  show "g < 4 \<Longrightarrow> group_col g < 32" "g < 4 \<Longrightarrow> group_col g div 16 = g div 2" "g < 4 \<Longrightarrow> group_col g mod 2 = g mod 2"
    using cases by (auto simp: group_col_def)
qed

lemma load_group:
  assumes "g < 4" "k < 32" "l < 32"
  shows "load_vec d (tile_rows * t + (k_row k + group_offset g)) l = tile_at d t (4 * (k div 4) + l div 8) (col g (l mod 8))"
  using load_slot [OF group_col_facts(1) [OF assms(1)] assms(3), of d t k]
  by (simp add: group_slot [OF assms(1,2)] group_col_facts(2,3) [OF assms(1)] col_def)

lemma even_tile [simp]: "even tile_rows"
  by (simp add: tile_rows_def)

lemma even_acc [simp]: "even (acc_addr g s)"
  by (simp add: acc_addr_def)

lemma even_slot [simp]: "even (slot_addr r c)"
  by (simp add: slot_addr_def)

lemma sub_row: "k mod 4 + 4 * (k div 4) = (k :: nat)" by simp

text \<open>\<open>load_x\<close>: row \<open>k\<close> of the tile at \<open>b\<close> for column group \<open>g\<close>, in every sub-row.\<close>

lemma load_x_effect:
  assumes "g < 4" "k < 32" "counter s = 0"
  shows "\<exists>s'. load_x (tile_rows * t) k g s = s' \<and> dst s' = dst s \<and> counter s' = 0 \<and> template s' = template s \<and> sequence s' = sequence s \<and>
    (\<forall>l < 32. lreg s' (11 + g) l = tile_at (dst s) t k (col g (l mod 8))) \<and>
    (\<forall>i. 8 \<le> i \<longrightarrow> i \<noteq> 11 + g \<longrightarrow> lreg s' i = lreg s i)"
proof -
  have sub: "k mod 4 < 4" "k mod 4 < 8" by simp_all
  have first: "lreg (sfpload 0 (tile_rows * t + k_row k + group_offset g) s) 0 l = tile_at (dst s) t (4 * (k div 4) + l div 8) (col g (l mod 8))"
    if "l < 32" for l
    using load_group [OF assms(1,2) that, of "dst s" t] assms(3) by (simp add: sfpload_def add.assoc)
  have j: "l mod 8 < 32" for l :: nat
  proof -
    have "l mod 8 < 8" by simp
    then show ?thesis by linarith
  qed
  show ?thesis
  proof (cases "k mod 4 = 0")
    case True
    then have "4 * (k div 4) = k" using sub_row [of k] by simp
    then show ?thesis
      using True first [OF j] assms(3)
      by (simp add: load_x_def sfpconfig_def set_reg_def Let_def) (simp add: sfpload_def)
  next
    case False
    have tr: "transposed r (k mod 4) (l mod 8) = r 0 (8 * (k mod 4) + l mod 8)" for r :: "nat \<Rightarrow> lanes" and l
    proof -
      have "l mod 8 div 8 = 0" by simp
      then show ?thesis using j [of l] sub by (simp add: transposed_def)
    qed
    have at: "8 * (k mod 4) + l mod 8 < 32" "(8 * (k mod 4) + l mod 8) div 8 = k mod 4" "(8 * (k mod 4) + l mod 8) mod 8 = l mod 8" for l
    proof -
      have "l mod 8 < 8" by simp
      then show "8 * (k mod 4) + l mod 8 < 32" using sub(1) by linarith
    qed simp_all
    have row: "4 * (k div 4) + k mod 4 = k" by simp
    show ?thesis
      using False sub first [OF at(1)] assms(3)
      by (simp add: load_x_def sfpconfig_def sfpmov_def sfptransp_def set_reg_def tr at row Let_def) (simp add: sfpload_def)
  qed
qed

text \<open>\<open>load_r\<close>: column \<open>k\<close> of A, from row \<open>k\<close> of its transpose, over all lanes.\<close>

lemma load_r_effect:
  assumes "k < 32" "counter s = 0"
  shows "\<exists>s'. load_r (tile_rows * t) k s = s' \<and> dst s' = dst s \<and> counter s' = 0 \<and> template s' = template s \<and> sequence s' = sequence s \<and>
    (\<forall>l < 32. lreg s' 4 l = tile_at (dst s) t k (col (l div 8) (l mod 8))) \<and>
    (\<forall>i. 8 \<le> i \<longrightarrow> lreg s' i = lreg s i)"
proof -
  define f where "f = (\<lambda>g. load_vec (dst s) (tile_rows * t + k_row k + group_offset g))"
  have f: "f g l = tile_at (dst s) t (4 * (k div 4) + l div 8) (col g (l mod 8))" if "g < 4" "l < 32" for g l
    unfolding f_def using load_group [OF that(1) assms(1) that(2), of "dst s" t] by (simp add: add.assoc)
  define r where "r = (lreg s)(0 := f 0, 1 := f 1, 2 := f 2, 3 := f 3)"
  have r: "r g = f g" if "g < 4" for g
  proof -
    have "g = 0 \<or> g = 1 \<or> g = 2 \<or> g = 3" using that by auto
    then show ?thesis by (auto simp: r_def)
  qed
  have eq: "load_r (tile_rows * t) k s = s\<lparr>lreg := (\<lambda>i. if i < 8 then transposed r i else r i)(4 := (if k mod 4 < 8 then transposed r (k mod 4) else r (k mod 4)))\<rparr>"
  proof -
    have "load_r (tile_rows * t) k s = sfpmov (k mod 4) 4 (sfptransp (s\<lparr>lreg := r\<rparr>))"
      using assms(2) by (simp add: load_r_def sfpload_def r_def f_def Let_def)
    then show ?thesis by (simp add: sfpmov_def sfptransp_def set_reg_def cong: if_cong)
  qed
  have k: "k mod 4 < 4" "k mod 4 < 8" "k mod 4 div 4 = 0" by simp_all
  have row: "4 * (k div 4) + k mod 4 = k" by simp
  have "transposed r (k mod 4) l = tile_at (dst s) t k (col (l div 8) (l mod 8))" if l: "l < 32" for l
  proof -
    have h: "l div 8 < 4" using l by (simp add: less_mult_imp_div_less)
    have j: "l mod 8 < 8" by simp
    have at: "8 * (k mod 4) + l mod 8 < 32" "(8 * (k mod 4) + l mod 8) div 8 = k mod 4" "(8 * (k mod 4) + l mod 8) mod 8 = l mod 8"
      using k(1) j by (linarith, simp_all)
    show ?thesis using l k f [OF h at(1)] by (simp add: transposed_def r [OF h] at row)
  qed
  then show ?thesis unfolding eq using assms(2) k by (auto simp: r_def)
qed

section \<open>The accumulators\<close>

definition mad_ready :: "sfpu \<Rightarrow> bool" where
  "mad_ready s \<longleftrightarrow> (\<forall>g < 4. template s (sequence s g) = (11 + g, 4))"

lemma init_ready: "mad_ready (init_matmul_fp32 s)"
  by (simp add: mad_ready_def init_matmul_fp32_def Let_def)

lemma load_macro_effect:
  assumes "mad_ready s" "g < 4"
  shows "dst (load_macro mad g addr s) =
      store_vec (dst s) (addr + counter s) (\<lambda>l. mad (lreg s (11 + g) l) (lreg s 4 l) (load_vec (dst s) (addr + counter s) l))"
    and "counter (load_macro mad g addr s) = counter s" "template (load_macro mad g addr s) = template s"
    "sequence (load_macro mad g addr s) = sequence s" "4 \<le> i \<Longrightarrow> lreg (load_macro mad g addr s) i = lreg s i"
  using assms(1,2) by (simp_all add: load_macro_def sfpload_def sfpstore_def set_reg_def mad_ready_def Let_def)

lemma mad_ready_macro: "mad_ready s \<Longrightarrow> g < 4 \<Longrightarrow> mad_ready (load_macro mad g addr s)"
  using load_macro_effect(3,4) [of s g mad addr] by (simp add: mad_ready_def)

lemma acc_addr_add: "acc_addr g 0 + 2 * n = acc_addr g n"
  by (simp add: acc_addr_def)

lemma acc_addr_inject: "s < 8 \<Longrightarrow> s' < 8 \<Longrightarrow> acc_addr g s = acc_addr g' s' \<longleftrightarrow> g = g' \<and> s = s'"
proof -
  assume s: "s < 8" "s' < 8"
  have "8 * g + s = 8 * g' + s' \<Longrightarrow> g = g' \<and> s = s'"
  proof -
    assume eq: "8 * g + s = 8 * g' + s'"
    have "g = (8 * g + s) div 8" "g' = (8 * g' + s') div 8" using s by simp_all
    then have "g = g'" using eq by metis
    with eq show ?thesis by simp
  qed
  then show ?thesis by (auto simp: acc_addr_def)
qed

lemma rotation_effect:
  assumes ready: "mad_ready s" and n: "counter s = 2 * n" "n < 8"
  shows "mad_ready (rotation mad (tile_rows * t) s)" "counter (rotation mad (tile_rows * t) s) = 2 * Suc n"
    and "lreg (rotation mad (tile_rows * t) s) 4 = ror1 (lreg s 4)"
    and "5 \<le> i \<Longrightarrow> lreg (rotation mad (tile_rows * t) s) i = lreg s i"
    and "even a \<Longrightarrow> l < 32 \<Longrightarrow> (\<And>g. g < 4 \<Longrightarrow> a \<noteq> tile_rows * t + acc_addr g n) \<Longrightarrow>
      load_vec (dst (rotation mad (tile_rows * t) s)) a l = load_vec (dst s) a l"
    and "l < 32 \<Longrightarrow> g < 4 \<Longrightarrow> load_vec (dst (rotation mad (tile_rows * t) s)) (tile_rows * t + acc_addr g n) l =
      mad (lreg s (11 + g) l) (lreg s 4 l) (load_vec (dst s) (tile_rows * t + acc_addr g n) l)"
proof -
  define s1 where "s1 = load_macro mad 0 (tile_rows * t + acc_addr 0 0) s"
  define s2 where "s2 = load_macro mad 1 (tile_rows * t + acc_addr 1 0) s1"
  define s3 where "s3 = load_macro mad 2 (tile_rows * t + acc_addr 2 0) s2"
  define s4 where "s4 = load_macro mad 3 (tile_rows * t + acc_addr 3 0) s3"
  have eq: "rotation mad (tile_rows * t) s = set_reg 4 (ror1 (lreg s4 4)) (s4\<lparr>counter := counter s4 + 2\<rparr>)"
    by (simp add: rotation_def s1_def s2_def s3_def s4_def Let_def)
  have r1: "mad_ready s1" unfolding s1_def by (rule mad_ready_macro [OF ready]) simp
  have r2: "mad_ready s2" unfolding s2_def by (rule mad_ready_macro [OF r1]) simp
  have r3: "mad_ready s3" unfolding s3_def by (rule mad_ready_macro [OF r2]) simp
  have r4: "mad_ready s4" unfolding s4_def by (rule mad_ready_macro [OF r3]) simp
  note e1 = load_macro_effect [OF ready, where g = 0 and mad = mad and addr = "tile_rows * t + acc_addr 0 0", folded s1_def]
  note e2 = load_macro_effect [OF r1, where g = 1 and mad = mad and addr = "tile_rows * t + acc_addr 1 0", folded s2_def]
  note e3 = load_macro_effect [OF r2, where g = 2 and mad = mad and addr = "tile_rows * t + acc_addr 2 0", folded s3_def]
  note e4 = load_macro_effect [OF r3, where g = 3 and mad = mad and addr = "tile_rows * t + acc_addr 3 0", folded s4_def]
  have regs: "lreg s4 i = lreg s i" "lreg s3 i = lreg s i" "lreg s2 i = lreg s i" "lreg s1 i = lreg s i" if "4 \<le> i" for i
    using e1(5) e2(5) e3(5) e4(5) that by simp_all
  have cnt: "counter s4 = 2 * n" "counter s3 = 2 * n" "counter s2 = 2 * n" "counter s1 = 2 * n"
    using e1(2) e2(2) e3(2) e4(2) n(1) by simp_all
  show "mad_ready (rotation mad (tile_rows * t) s)" using r4 by (simp add: eq set_reg_def mad_ready_def)
  show "counter (rotation mad (tile_rows * t) s) = 2 * Suc n" by (simp add: eq set_reg_def cnt)
  show "lreg (rotation mad (tile_rows * t) s) 4 = ror1 (lreg s 4)" by (simp add: eq set_reg_def regs)
  show "5 \<le> i \<Longrightarrow> lreg (rotation mad (tile_rows * t) s) i = lreg s i" by (simp add: eq set_reg_def regs)
  have a: "tile_rows * t + acc_addr g 0 + 2 * n = tile_rows * t + acc_addr g n" for g using acc_addr_add [of g n] by simp
  have d: "dst (rotation mad (tile_rows * t) s) = dst s4" by (simp add: eq set_reg_def)
  define upd where "upd = (\<lambda>g d. store_vec d (tile_rows * t + acc_addr g n) (\<lambda>l. mad (lreg s (11 + g) l) (lreg s 4 l) (load_vec d (tile_rows * t + acc_addr g n) l)))"
  have dd: "dst s4 = upd 3 (upd 2 (upd 1 (upd 0 (dst s))))"
    using e1(1) e2(1) e3(1) e4(1) by (simp add: upd_def regs cnt n(1) a)
  have upd: "load_vec (upd g d) a l = (if a = tile_rows * t + acc_addr g n then mad (lreg s (11 + g) l) (lreg s 4 l) (load_vec d a l) else load_vec d a l)"
    if "even a" "l < 32" for g d a l
    unfolding upd_def using that by (simp add: load_store)
  show "even a \<Longrightarrow> l < 32 \<Longrightarrow> (\<And>g. g < 4 \<Longrightarrow> a \<noteq> tile_rows * t + acc_addr g n) \<Longrightarrow>
      load_vec (dst (rotation mad (tile_rows * t) s)) a l = load_vec (dst s) a l"
    by (simp add: d dd upd)
  assume l: "l < 32" and g: "g < 4"
  have hit: "load_vec (upd g d) (tile_rows * t + acc_addr g n) l = mad (lreg s (11 + g) l) (lreg s 4 l) (load_vec d (tile_rows * t + acc_addr g n) l)" for g d
    using upd [of "tile_rows * t + acc_addr g n" l g d] l by simp
  have miss: "load_vec (upd g' d) (tile_rows * t + acc_addr g n) l = load_vec d (tile_rows * t + acc_addr g n) l" if "g \<noteq> g'" for g g' d
    using upd [of "tile_rows * t + acc_addr g n" l g' d] l that acc_addr_inject [OF n(2,2), of g g'] by simp
  have "g = 0 \<or> g = 1 \<or> g = 2 \<or> g = 3" using g by auto
  then show "load_vec (dst (rotation mad (tile_rows * t) s)) (tile_rows * t + acc_addr g n) l =
      mad (lreg s (11 + g) l) (lreg s 4 l) (load_vec (dst s) (tile_rows * t + acc_addr g n) l)"
    unfolding d dd by (elim disjE) (simp_all only: hit miss zero_neq_one zero_neq_numeral one_neq_zero numeral_neq_zero one_eq_numeral_iff numeral_eq_one_iff numeral_eq_iff num.distinct num.inject not_False_eq_True simp_thms)
qed

text \<open>A lane after \<open>n\<close> rotations to the right within its group of eight.\<close>

definition rot :: "nat \<Rightarrow> nat \<Rightarrow> nat" where
  "rot n l = 8 * (l div 8) + (l mod 8 + 7 * n) mod 8"

lemma rot_Suc: "rot n (8 * (l div 8) + (l mod 8 + 7) mod 8) = rot (Suc n) l"
proof -
  have "(8 * (l div 8) + (l mod 8 + 7) mod 8) div 8 = l div 8" "(8 * (l div 8) + (l mod 8 + 7) mod 8) mod 8 = (l mod 8 + 7) mod 8"
    by simp_all
  moreover have "((l mod 8 + 7) mod 8 + 7 * n) mod 8 = (l mod 8 + 7 * Suc n) mod 8"
    by (simp add: mod_add_left_eq add.assoc)
  ultimately show ?thesis by (simp only: rot_def)
qed

lemma rotations_effect:
  assumes ready: "mad_ready s" and c: "counter s = 0" and "n \<le> 8"
    and s': "s' = (rotation mad (tile_rows * t) ^^ n) s"
  shows "mad_ready s' \<and> counter s' = 2 * n \<and> (\<forall>l. lreg s' 4 l = lreg s 4 (rot n l)) \<and> (\<forall>i \<ge> 5. lreg s' i = lreg s i) \<and>
    (\<forall>a l. even a \<longrightarrow> l < 32 \<longrightarrow> (\<forall>g < 4. \<forall>m < n. a \<noteq> tile_rows * t + acc_addr g m) \<longrightarrow> load_vec (dst s') a l = load_vec (dst s) a l) \<and>
    (\<forall>g < 4. \<forall>m < n. \<forall>l < 32. load_vec (dst s') (tile_rows * t + acc_addr g m) l =
       mad (lreg s (11 + g) l) (lreg s 4 (rot m l)) (load_vec (dst s) (tile_rows * t + acc_addr g m) l))"
  using assms(3) unfolding s'
proof (induction n)
  case 0
  show ?case using ready c by (simp add: rot_def)
next
  case (Suc n)
  let ?r = "rotation mad (tile_rows * t)" and ?b = "tile_rows * t"
  let ?s = "(?r ^^ n) s"
  from Suc have n: "n < 8" by simp
  from Suc have IH: "mad_ready ?s" "counter ?s = 2 * n" "\<And>l. lreg ?s 4 l = lreg s 4 (rot n l)" "\<And>i. 5 \<le> i \<Longrightarrow> lreg ?s i = lreg s i"
      "\<And>a l. even a \<Longrightarrow> l < 32 \<Longrightarrow> (\<forall>g < 4. \<forall>m < n. a \<noteq> ?b + acc_addr g m) \<Longrightarrow> load_vec (dst ?s) a l = load_vec (dst s) a l"
      "\<And>g m l. g < 4 \<Longrightarrow> m < n \<Longrightarrow> l < 32 \<Longrightarrow> load_vec (dst ?s) (?b + acc_addr g m) l =
         mad (lreg s (11 + g) l) (lreg s 4 (rot m l)) (load_vec (dst s) (?b + acc_addr g m) l)" by simp_all
  note e = rotation_effect [OF IH(1,2) n, where mad = mad and t = t]
  have step: "(?r ^^ Suc n) s = ?r ?s" by simp
  have "lreg (?r ?s) 4 l = lreg s 4 (rot (Suc n) l)" for l
    unfolding e(3) ror1_def IH(3) rot_Suc ..
  moreover have "lreg (?r ?s) i = lreg s i" if "5 \<le> i" for i using e(4) [OF that] IH(4) [OF that] by simp
  moreover have "load_vec (dst (?r ?s)) a l = load_vec (dst s) a l"
    if "even a" "l < 32" "\<forall>g < 4. \<forall>m < Suc n. a \<noteq> ?b + acc_addr g m" for a l
  proof -
    have "load_vec (dst (?r ?s)) a l = load_vec (dst ?s) a l" by (rule e(5)) (use that in auto)
    also have "\<dots> = load_vec (dst s) a l" by (rule IH(5)) (use that in auto)
    finally show ?thesis .
  qed
  moreover have "load_vec (dst (?r ?s)) (?b + acc_addr g m) l =
      mad (lreg s (11 + g) l) (lreg s 4 (rot m l)) (load_vec (dst s) (?b + acc_addr g m) l)"
    if g: "g < 4" and m: "m < Suc n" and l: "l < 32" for g m l
  proof (cases "m = n")
    case True
    have old: "load_vec (dst ?s) (?b + acc_addr g n) l = load_vec (dst s) (?b + acc_addr g n) l"
      by (rule IH(5)) (use l n acc_addr_inject [of n] in auto)
    show ?thesis unfolding True using e(6) [OF l g] by (simp add: IH(3,4) old)
  next
    case False
    then have m': "m < n" using m by simp
    have "load_vec (dst (?r ?s)) (?b + acc_addr g m) l = load_vec (dst ?s) (?b + acc_addr g m) l"
      by (rule e(5)) (use l n m' acc_addr_inject [of m n] in auto)
    with IH(6) [OF g m' l] show ?thesis by simp
  qed
  ultimately show ?case unfolding step using e(1,2) by blast
qed

section \<open>One k\<close>

text \<open>
  What the accumulators of Dst tile \<open>t\<close> hold: lane \<open>(h, j)\<close> of \<open>acc(g, s)\<close> is an element of
  row \<open>col h (j - s)\<close> and column \<open>col g j\<close>.
\<close>

definition skewed :: "dst_mem \<Rightarrow> nat \<Rightarrow> (nat \<Rightarrow> nat \<Rightarrow> u32) \<Rightarrow> bool" where
  "skewed d t C \<longleftrightarrow> (\<forall>g < 4. \<forall>n < 8. \<forall>l < 32. load_vec d (tile_rows * t + acc_addr g n) l =
     C (col (l div 8) ((l mod 8 + 7 * n) mod 8)) (col g (l mod 8)))"

text \<open>Two tiles do not share a slot.\<close>

lemma other_tile_slot:
  assumes "t \<noteq> t'" "r < 32" "c < 32" "g < 4" "n < 8"
  shows "tile_rows * t + slot_addr r c \<noteq> tile_rows * t' + acc_addr g n"
proof -
  have small: "16 * (2 * x + y) + z * 4 + 2 * w < 64" if "x \<le> 1" "y \<le> 1" "z \<le> 3" "w \<le> 1" for x y z w :: nat
    using that by simp
  have "slot_addr r c < 64"
    unfolding slot_addr_def by (rule small) (use assms(2,3) in \<open>auto simp: less_mult_imp_div_less less_Suc_eq_le [symmetric]\<close>)
  moreover have "acc_addr g n < 64" using assms(4,5) by (simp add: acc_addr_def)
  moreover have "(64 * x + a) div 64 = x" if "a < 64" for x a :: nat using that by simp
  ultimately show ?thesis using assms(1) unfolding tile_rows_def by metis
qed

lemma acc_addr_less: "g < 4 \<Longrightarrow> n < 8 \<Longrightarrow> acc_addr g n < 64"
  by (simp add: acc_addr_def)

text \<open>Elements of a tile sit in its slots.\<close>

lemma tile_at_slot:
  assumes "c < 32"
  shows "tile_at d t r c = load_vec d (tile_rows * t + slot_addr r c) (8 * (r mod 4) + c mod 16 div 2)"
proof -
  have j: "c mod 16 div 2 < 8" by (simp add: less_mult_imp_div_less)
  have l: "8 * (r mod 4) + c mod 16 div 2 < 32" "(8 * (r mod 4) + c mod 16 div 2) div 8 = r mod 4" "(8 * (r mod 4) + c mod 16 div 2) mod 8 = c mod 16 div 2"
  proof -
    have "r mod 4 < 4" by simp
    then show "8 * (r mod 4) + c mod 16 div 2 < 32" using j by linarith
  qed (use j in simp_all)
  have "16 * (c div 16) + 2 * (c mod 16 div 2) + c mod 2 = c"
  proof -
    have "c mod 2 = c mod 16 mod 2" by (simp add: mod_mod_cancel)
    then show ?thesis by (metis add.assoc mult.commute mult_div_mod_eq div_mult_mod_eq)
  qed
  then show ?thesis unfolding load_slot [OF assms l(1)] l(2,3) by simp
qed

lemma rot_parts: "rot n l div 8 = l div 8" "rot n l mod 8 = (l mod 8 + 7 * n) mod 8" "l < 32 \<Longrightarrow> rot n l < 32"
proof -
  show "rot n l div 8 = l div 8" "rot n l mod 8 = (l mod 8 + 7 * n) mod 8" by (simp_all add: rot_def)
  assume "l < 32"
  then have "l div 8 < 4" by (simp add: less_mult_imp_div_less)
  moreover have "(l mod 8 + 7 * n) mod 8 < 8" by simp
  ultimately show "rot n l < 32" unfolding rot_def by linarith
qed

lemma load_xs_effect:
  assumes "k < 32" "counter s = 0" and s': "s' = foldl (\<lambda>s g. load_x (tile_rows * t) k g s) s [0..<4]"
  shows "dst s' = dst s" "counter s' = 0" "template s' = template s" "sequence s' = sequence s"
    and "g < 4 \<Longrightarrow> l < 32 \<Longrightarrow> lreg s' (11 + g) l = tile_at (dst s) t k (col g (l mod 8))"
    and "8 \<le> i \<Longrightarrow> i < 11 \<or> 15 \<le> i \<Longrightarrow> lreg s' i = lreg s i"
proof -
  let ?x = "load_x (tile_rows * t) k"
  define s1 where "s1 = ?x 0 s"
  define s2 where "s2 = ?x 1 s1"
  define s3 where "s3 = ?x 2 s2"
  define s4 where "s4 = ?x 3 s3"
  have "[0..<4] = [0, 1, 2, 3 :: nat]" by (simp add: upt_rec)
  then have eq: "s' = s4" by (simp add: s' s1_def s2_def s3_def s4_def)
  from load_x_effect [of 0 k s t, folded s1_def] assms(1,2) have e1: "dst s1 = dst s" "counter s1 = 0" "template s1 = template s" "sequence s1 = sequence s"
    "\<And>l. l < 32 \<Longrightarrow> lreg s1 11 l = tile_at (dst s) t k (col 0 (l mod 8))" "\<And>i. 8 \<le> i \<Longrightarrow> i \<noteq> 11 \<Longrightarrow> lreg s1 i = lreg s i" by auto
  from load_x_effect [of 1 k s1 t, folded s2_def] assms(1) e1 have e2: "dst s2 = dst s" "counter s2 = 0" "template s2 = template s" "sequence s2 = sequence s"
    "\<And>l. l < 32 \<Longrightarrow> lreg s2 12 l = tile_at (dst s) t k (col 1 (l mod 8))" "\<And>i. 8 \<le> i \<Longrightarrow> i \<noteq> 12 \<Longrightarrow> lreg s2 i = lreg s1 i" by auto
  from load_x_effect [of 2 k s2 t, folded s3_def] assms(1) e2 have e3: "dst s3 = dst s" "counter s3 = 0" "template s3 = template s" "sequence s3 = sequence s"
    "\<And>l. l < 32 \<Longrightarrow> lreg s3 13 l = tile_at (dst s) t k (col 2 (l mod 8))" "\<And>i. 8 \<le> i \<Longrightarrow> i \<noteq> 13 \<Longrightarrow> lreg s3 i = lreg s2 i" by auto
  from load_x_effect [of 3 k s3 t, folded s4_def] assms(1) e3 have e4: "dst s4 = dst s" "counter s4 = 0" "template s4 = template s" "sequence s4 = sequence s"
    "\<And>l. l < 32 \<Longrightarrow> lreg s4 14 l = tile_at (dst s) t k (col 3 (l mod 8))" "\<And>i. 8 \<le> i \<Longrightarrow> i \<noteq> 14 \<Longrightarrow> lreg s4 i = lreg s3 i" by auto
  show "dst s' = dst s" "counter s' = 0" "template s' = template s" "sequence s' = sequence s" using e4 by (simp_all add: eq)
  show "8 \<le> i \<Longrightarrow> i < 11 \<or> 15 \<le> i \<Longrightarrow> lreg s' i = lreg s i" using e1(6) e2(6) e3(6) e4(6) by (auto simp: eq)
  assume g: "g < 4" and l: "l < 32"
  have "lreg s4 11 = lreg s1 11" "lreg s4 12 = lreg s2 12" "lreg s4 13 = lreg s3 13" using e2(6) e3(6) e4(6) by simp_all
  moreover have "g = 0 \<or> g = 1 \<or> g = 2 \<or> g = 3" using g by auto
  ultimately show "lreg s' (11 + g) l = tile_at (dst s) t k (col g (l mod 8))"
    using e1(5) [OF l] e2(5) [OF l] e3(5) [OF l] e4(5) [OF l] by (auto simp: eq)
qed

lemma matmul_k_effect:
  assumes ready: "mad_ready s" and k: "k < 32" and tiles: "ta \<noteq> t" "tb \<noteq> t" and skew: "skewed (dst s) t C"
  defines "A \<equiv> tile_at (dst s) ta" and "B \<equiv> tile_at (dst s) tb"
  shows "\<exists>s'. matmul_k mad (tile_rows * ta) (tile_rows * tb) (tile_rows * t) k s = s' \<and> mad_ready s' \<and>
    skewed (dst s') t (\<lambda>r c. mad (B k c) (A k r) (C r c)) \<and>
    (\<forall>t' r c. t' \<noteq> t \<longrightarrow> r < 32 \<longrightarrow> c < 32 \<longrightarrow> tile_at (dst s') t' r c = tile_at (dst s) t' r c)"
proof -
  define s0 where "s0 = clear_dst_reg_addr s"
  define s1 where "s1 = foldl (\<lambda>s g. load_x (tile_rows * tb) k g s) s0 [0..<4]"
  define s2 where "s2 = load_r (tile_rows * ta) k s1"
  define s3 where "s3 = (rotation mad (tile_rows * t) ^^ 8) s2"
  have eq: "matmul_k mad (tile_rows * ta) (tile_rows * tb) (tile_rows * t) k s = s3"
    by (simp add: matmul_k_def s0_def s1_def s2_def s3_def Let_def)
  have s0: "counter s0 = 0" "dst s0 = dst s" "template s0 = template s" "sequence s0 = sequence s" by (simp_all add: s0_def clear_dst_reg_addr_def)
  note x = load_xs_effect [OF k s0(1) s1_def, unfolded s0]
  from load_r_effect [OF k x(2), of ta, folded s2_def] x have r: "dst s2 = dst s" "counter s2 = 0" "template s2 = template s" "sequence s2 = sequence s"
    "\<And>l. l < 32 \<Longrightarrow> lreg s2 4 l = A k (col (l div 8) (l mod 8))" "\<And>i. 8 \<le> i \<Longrightarrow> lreg s2 i = lreg s1 i"
    by (auto simp: A_def)
  have ready2: "mad_ready s2" using ready r(3,4) by (simp add: mad_ready_def)
  from rotations_effect [OF ready2 r(2) order_refl s3_def] have rot:
    "mad_ready s3"
    "\<And>a l. even a \<Longrightarrow> l < 32 \<Longrightarrow> (\<forall>g < 4. \<forall>m < 8. a \<noteq> tile_rows * t + acc_addr g m) \<Longrightarrow> load_vec (dst s3) a l = load_vec (dst s) a l"
    "\<And>g m l. g < 4 \<Longrightarrow> m < 8 \<Longrightarrow> l < 32 \<Longrightarrow> load_vec (dst s3) (tile_rows * t + acc_addr g m) l =
       mad (lreg s2 (11 + g) l) (lreg s2 4 (rot m l)) (load_vec (dst s) (tile_rows * t + acc_addr g m) l)"
    by (simp_all add: r(1))
  have "skewed (dst s3) t (\<lambda>r c. mad (B k c) (A k r) (C r c))"
    unfolding skewed_def
  proof (intro allI impI)
    fix g n l :: nat assume g: "g < 4" and n: "n < 8" and l: "l < 32"
    have "lreg s2 (11 + g) l = B k (col g (l mod 8))" using r(6) [of "11 + g"] x(5) [OF g l] by (simp add: B_def)
    moreover have "lreg s2 4 (rot n l) = A k (col (l div 8) ((l mod 8 + 7 * n) mod 8))"
      using r(5) [OF rot_parts(3) [OF l]] by (simp add: rot_parts)
    moreover have "load_vec (dst s) (tile_rows * t + acc_addr g n) l = C (col (l div 8) ((l mod 8 + 7 * n) mod 8)) (col g (l mod 8))"
      using skew g n l unfolding skewed_def by blast
    ultimately show "load_vec (dst s3) (tile_rows * t + acc_addr g n) l =
        mad (B k (col g (l mod 8))) (A k (col (l div 8) ((l mod 8 + 7 * n) mod 8))) (C (col (l div 8) ((l mod 8 + 7 * n) mod 8)) (col g (l mod 8)))"
      using rot(3) [OF g n l] by simp
  qed
  moreover have "tile_at (dst s3) t' r c = tile_at (dst s) t' r c" if "t' \<noteq> t" "r < 32" "c < 32" for t' r c
  proof -
    have "8 * (r mod 4) + c mod 16 div 2 < 32"
    proof -
      have "r mod 4 < 4" "c mod 16 div 2 < 8" by (simp_all add: less_mult_imp_div_less)
      then show ?thesis by linarith
    qed
    then show ?thesis unfolding tile_at_slot [OF that(3)]
      by (intro rot(2)) (use other_tile_slot [OF that] in auto)
  qed
  ultimately show ?thesis using eq rot(1) by blast
qed

section \<open>One product\<close>

lemma zero_tile_effect:
  assumes "counter s = 0"
  shows "\<exists>s'. zero_tile (tile_rows * t) s = s' \<and> counter s' = 0 \<and> template s' = template s \<and> sequence s' = sequence s \<and>
    (\<forall>i < 32. \<forall>l < 32. load_vec (dst s') (tile_rows * t + 2 * i) l = 0) \<and>
    (\<forall>a l. even a \<longrightarrow> l < 32 \<longrightarrow> (\<forall>i < 32. a \<noteq> tile_rows * t + 2 * i) \<longrightarrow> load_vec (dst s') a l = load_vec (dst s) a l)"
proof -
  let ?f = "\<lambda>s n. sfpstore 0 (tile_rows * t + 2 * n) s" and ?s0 = "set_reg 0 (\<lambda>_. 0) s"
  have "let s' = foldl ?f ?s0 [0..<n] in counter s' = 0 \<and> template s' = template s \<and> sequence s' = sequence s \<and> lreg s' 0 = (\<lambda>_. 0) \<and>
    (\<forall>i < n. \<forall>l < 32. load_vec (dst s') (tile_rows * t + 2 * i) l = 0) \<and>
    (\<forall>a l. even a \<longrightarrow> l < 32 \<longrightarrow> (\<forall>i < n. a \<noteq> tile_rows * t + 2 * i) \<longrightarrow> load_vec (dst s') a l = load_vec (dst s) a l)" for n
  proof (induction n)
    case 0
    show ?case using assms by (simp add: set_reg_def)
  next
    case (Suc n)
    then show ?case by (auto simp: Let_def sfpstore_def load_store less_Suc_eq)
  qed
  from this [of 32] show ?thesis unfolding zero_tile_def Let_def by blast
qed

text \<open>The sum of products of an element, one fused multiply-add per \<open>k\<close>, in order.\<close>

definition mad_row :: "(u32 \<Rightarrow> u32 \<Rightarrow> u32 \<Rightarrow> u32) \<Rightarrow> (nat \<Rightarrow> u32) \<Rightarrow> (nat \<Rightarrow> u32) \<Rightarrow> nat \<Rightarrow> u32 \<Rightarrow> u32" where
  "mad_row mad a b n x = foldl (\<lambda>x k. mad (b k) (a k) x) x [0..<n]"

lemma acc_slot: "g < 4 \<Longrightarrow> n < 8 \<Longrightarrow> \<exists>i < 32. acc_addr g n = 2 * i"
  by (intro exI [of _ "8 * g + n"]) (simp add: acc_addr_def)

lemma slot_addr_even_slot: "r < 32 \<Longrightarrow> c < 32 \<Longrightarrow> slot_addr r c < 64"
proof -
  assume "r < 32" "c < 32"
  have small: "16 * (2 * x + y) + z * 4 + 2 * w < 64" if "x \<le> 1" "y \<le> 1" "z \<le> 3" "w \<le> 1" for x y z w :: nat
    using that by simp
  show ?thesis
    unfolding slot_addr_def by (rule small) (use \<open>r < 32\<close> \<open>c < 32\<close> in \<open>auto simp: less_mult_imp_div_less less_Suc_eq_le [symmetric]\<close>)
qed

lemma other_tile_even:
  assumes "t' \<noteq> t" "r < 32" "c < 32" "i < 32"
  shows "tile_rows * t' + slot_addr r c \<noteq> tile_rows * t + 2 * i"
proof -
  have "(64 * x + a) div 64 = x" if "a < 64" for x a :: nat using that by simp
  moreover have "2 * i < 64" using assms(4) by simp
  ultimately show ?thesis using assms(1) slot_addr_even_slot [OF assms(2,3)] unfolding tile_rows_def by metis
qed

lemma lane_less: "8 * (r mod 4) + c mod 16 div 2 < (32 :: nat)"
proof -
  have "r mod 4 < 4" "c mod 16 div 2 < 8" by (simp_all add: less_mult_imp_div_less)
  then show ?thesis by linarith
qed

text \<open>
  The multiply of the source: the accumulators, in the skewed order, take 32 fused
  multiply-adds each; the other tiles stay, and LREG11 holds -1.0 again.
\<close>

lemma calculate_matmul_effect:
  assumes ready: "mad_ready s" and tiles: "ta \<noteq> t" "tb \<noteq> t" and skew: "accumulate \<Longrightarrow> skewed (dst s) t C"
  defines "A \<equiv> tile_at (dst s) ta" and "B \<equiv> tile_at (dst s) tb"
  shows "\<exists>s'. calculate_matmul_fp32 mad accumulate ta tb t s = s' \<and> mad_ready s' \<and> counter s' = 0 \<and> lreg s' 11 = (\<lambda>_. 0xbf800000) \<and>
    skewed (dst s') t (\<lambda>r c. mad_row mad (\<lambda>k. A k r) (\<lambda>k. B k c) 32 (if accumulate then C r c else 0)) \<and>
    (\<forall>t' r c. t' \<noteq> t \<longrightarrow> r < 32 \<longrightarrow> c < 32 \<longrightarrow> tile_at (dst s') t' r c = tile_at (dst s) t' r c)"
proof -
  let ?acc = "tile_rows * t" and ?a = "tile_rows * ta" and ?b = "tile_rows * tb"
  define s0 where "s0 = clear_dst_reg_addr s"
  define s1 where "s1 = (if accumulate then s0 else zero_tile ?acc s0)"
  define C1 where "C1 = (\<lambda>r c. if accumulate then C r c else 0)"
  have s0: "counter s0 = 0" "dst s0 = dst s" "template s0 = template s" "sequence s0 = sequence s" by (simp_all add: s0_def clear_dst_reg_addr_def)
  from zero_tile_effect [OF s0(1), of t] s0 have z: "template (zero_tile ?acc s0) = template s" "sequence (zero_tile ?acc s0) = sequence s"
    "\<And>i l. i < 32 \<Longrightarrow> l < 32 \<Longrightarrow> load_vec (dst (zero_tile ?acc s0)) (?acc + 2 * i) l = 0"
    "\<And>a l. even a \<Longrightarrow> l < 32 \<Longrightarrow> (\<forall>i < 32. a \<noteq> ?acc + 2 * i) \<Longrightarrow> load_vec (dst (zero_tile ?acc s0)) a l = load_vec (dst s) a l"
    by auto
  have start: "mad_ready s1" "skewed (dst s1) t C1"
    "\<And>t' r c. t' \<noteq> t \<Longrightarrow> r < 32 \<Longrightarrow> c < 32 \<Longrightarrow> tile_at (dst s1) t' r c = tile_at (dst s) t' r c"
  proof -
    show "mad_ready s1" using ready s0 z(1,2) by (simp add: s1_def mad_ready_def)
    show "skewed (dst s1) t C1"
    proof (cases accumulate)
      case False
      have "load_vec (dst (zero_tile ?acc s0)) (?acc + acc_addr g n) l = 0" if "g < 4" "n < 8" "l < 32" for g n l
        using acc_slot [OF that(1,2)] z(3) that(3) by auto
      then show ?thesis using False by (simp add: skewed_def s1_def C1_def)
    qed (use skew in \<open>simp add: s1_def C1_def s0\<close>)
    show "tile_at (dst s1) t' r c = tile_at (dst s) t' r c" if "t' \<noteq> t" "r < 32" "c < 32" for t' r c
    proof (cases accumulate)
      case False
      then show ?thesis unfolding s1_def tile_at_slot [OF that(3)]
        using z(4) [of "tile_rows * t' + slot_addr r c"] other_tile_even [OF that] lane_less by simp
    qed (simp add: s1_def s0)
  qed
  have "\<exists>s2. foldl (\<lambda>s k. matmul_k mad ?a ?b ?acc k s) s1 [0..<n] = s2 \<and> mad_ready s2 \<and>
      skewed (dst s2) t (\<lambda>r c. mad_row mad (\<lambda>k. A k r) (\<lambda>k. B k c) n (C1 r c)) \<and>
      (\<forall>t' r c. t' \<noteq> t \<longrightarrow> r < 32 \<longrightarrow> c < 32 \<longrightarrow> tile_at (dst s2) t' r c = tile_at (dst s) t' r c)" if "n \<le> 32" for n
    using that
  proof (induction n)
    case 0
    show ?case using start by (simp add: mad_row_def)
  next
    case (Suc n)
    then obtain s2 where s2: "foldl (\<lambda>s k. matmul_k mad ?a ?b ?acc k s) s1 [0..<n] = s2" "mad_ready s2"
      "skewed (dst s2) t (\<lambda>r c. mad_row mad (\<lambda>k. A k r) (\<lambda>k. B k c) n (C1 r c))"
      "\<And>t' r c. t' \<noteq> t \<Longrightarrow> r < 32 \<Longrightarrow> c < 32 \<Longrightarrow> tile_at (dst s2) t' r c = tile_at (dst s) t' r c" by auto
    have n: "n < 32" using Suc.prems by simp
    from matmul_k_effect [OF s2(2) n tiles s2(3), of mad] obtain s3 where
      s3: "matmul_k mad ?a ?b ?acc n s2 = s3" "mad_ready s3"
        "skewed (dst s3) t (\<lambda>r c. mad (tile_at (dst s2) tb n c) (tile_at (dst s2) ta n r) (mad_row mad (\<lambda>k. A k r) (\<lambda>k. B k c) n (C1 r c)))"
        "\<And>t' r c. t' \<noteq> t \<Longrightarrow> r < 32 \<Longrightarrow> c < 32 \<Longrightarrow> tile_at (dst s3) t' r c = tile_at (dst s2) t' r c" by blast
    have j: "col g j < 32" if "g < 4" "j < 8" for g j
    proof -
      have "g div 2 < 2" "g mod 2 < 2" using that(1) by (simp_all add: less_mult_imp_div_less)
      then show ?thesis using that(2) unfolding col_def by linarith
    qed
    have "skewed (dst s3) t (\<lambda>r c. mad_row mad (\<lambda>k. A k r) (\<lambda>k. B k c) (Suc n) (C1 r c))"
      using s3(3) j s2(4) [OF tiles(1) n] s2(4) [OF tiles(2) n]
      by (simp add: skewed_def mad_row_def A_def B_def less_mult_imp_div_less)
    then show ?case using s2(1,4) s3(1,2,4) by simp
  qed
  from this [of 32] obtain s2 where s2: "foldl (\<lambda>s k. matmul_k mad ?a ?b ?acc k s) s1 [0..<32] = s2" "mad_ready s2"
      "skewed (dst s2) t (\<lambda>r c. mad_row mad (\<lambda>k. A k r) (\<lambda>k. B k c) 32 (C1 r c))"
      "\<And>t' r c. t' \<noteq> t \<Longrightarrow> r < 32 \<Longrightarrow> c < 32 \<Longrightarrow> tile_at (dst s2) t' r c = tile_at (dst s) t' r c" by auto
  have "calculate_matmul_fp32 mad accumulate ta tb t s = sfpconfig 11 (set_reg 0 (\<lambda>_. 0xbf800000) (clear_dst_reg_addr s2))"
    by (simp only: s2(1) [symmetric] calculate_matmul_fp32_def s0_def s1_def mult.commute [of _ tile_rows] Let_def)
  then show ?thesis using s2(2-4)
    by (simp add: sfpconfig_def set_reg_def clear_dst_reg_addr_def mad_ready_def C1_def)
qed

section \<open>The natural tile\<close>

lemma column_masks:
  "\<forall>column \<in> set [0..<8]. \<forall>l \<in> set [0..<32]. vec_sar 31 (vec_iadd 0xfff (vec_shr 28 (vec_shl 28 (vec_iadd (- 2 * int column) ltileid)))) l =
    (if l mod 8 = column then - 1 else 0)"
  by code_simp

lemma row_mask: "\<forall>l \<in> set [0..<32]. NOT (vec_sar 31 (vec_iadd (- 32) ltileid) l) = (if l < 16 then 0 else - 1)"
  by code_simp

text \<open>The scratch tile's masks.\<close>

definition masks_at :: "dst_mem \<Rightarrow> nat \<Rightarrow> bool" where
  "masks_at d t \<longleftrightarrow> (\<forall>i < 8. \<forall>l < 32. load_vec d (tile_rows * t + 2 * i) l = (if l mod 8 = i then - 1 else 0)) \<and>
     (\<forall>l < 32. load_vec d (tile_rows * t + 16) l = (if l < 16 then 0 else - 1))"

lemma store_masks_effect:
  assumes "counter s = 0"
  shows "counter (store_masks (tile_rows * t) s) = 0" "masks_at (dst (store_masks (tile_rows * t) s)) t"
    and "even a \<Longrightarrow> l < 32 \<Longrightarrow> (\<forall>i < 32. a \<noteq> tile_rows * t + 2 * i) \<Longrightarrow> load_vec (dst (store_masks (tile_rows * t) s)) a l = load_vec (dst s) a l"
proof -
  let ?f = "\<lambda>s column. sfpstore 0 (tile_rows * t + 2 * column) (lane_column_mask column s)"
  have loop: "let s' = foldl ?f s [0..<n] in counter s' = 0 \<and>
      (\<forall>i < n. \<forall>l < 32. load_vec (dst s') (tile_rows * t + 2 * i) l = (if l mod 8 = i then - 1 else 0)) \<and>
      (\<forall>a l. even a \<longrightarrow> l < 32 \<longrightarrow> (\<forall>i < n. a \<noteq> tile_rows * t + 2 * i) \<longrightarrow> load_vec (dst s') a l = load_vec (dst s) a l)" if "n \<le> 8" for n
    using that
  proof (induction n)
    case 0
    show ?case using assms by simp
  next
    case (Suc n)
    have mask: "vec_sar 31 (vec_iadd 0xfff (vec_shr 28 (vec_shl 28 (vec_iadd (- 2 * int n) ltileid)))) l = (if l mod 8 = n then - 1 else 0)" if "l < 32" for l
      using column_masks Suc.prems that by auto
    show ?case
      using Suc mask by (simp add: Let_def lane_column_mask_def sfpstore_def set_reg_def load_store less_Suc_eq del: mult_minus_left) 
  qed
  define s1 where "s1 = foldl ?f s [0..<8]"
  from loop [of 8] have l: "counter s1 = 0" "\<And>i l. i < 8 \<Longrightarrow> l < 32 \<Longrightarrow> load_vec (dst s1) (tile_rows * t + 2 * i) l = (if l mod 8 = i then - 1 else 0)"
      "\<And>a l. even a \<Longrightarrow> l < 32 \<Longrightarrow> (\<forall>i < 8. a \<noteq> tile_rows * t + 2 * i) \<Longrightarrow> load_vec (dst s1) a l = load_vec (dst s) a l"
    by (simp_all add: Let_def s1_def)
  have eq: "store_masks (tile_rows * t) s = sfpstore 0 (tile_rows * t + 16) (vec_not 0 (set_reg 0 (vec_sar 31 (vec_iadd (- 32) ltileid)) s1))"
    by (simp add: store_masks_def s1_def Let_def)
  have last: "NOT (vec_sar 31 (vec_iadd (- 32) ltileid) l) = (if l < 16 then 0 else - 1)" if "l < 32" for l using row_mask that by auto
  show "counter (store_masks (tile_rows * t) s) = 0" using l(1) by (simp add: eq sfpstore_def vec_not_def set_reg_def)
  have d: "dst (store_masks (tile_rows * t) s) = store_vec (dst s1) (tile_rows * t + 16) (\<lambda>l. NOT (vec_sar 31 (vec_iadd (- 32) ltileid) l))"
    using l(1) by (simp add: eq sfpstore_def vec_not_def set_reg_def)
  show "masks_at (dst (store_masks (tile_rows * t) s)) t"
    unfolding masks_at_def d using l(2) last by (auto simp: load_store)
  assume a: "even a" "l < 32" "\<forall>i < 32. a \<noteq> tile_rows * t + 2 * i"
  have "a \<noteq> tile_rows * t + 16" using a(3) [rule_format, of 8] by simp
  moreover have "\<forall>i < 8. a \<noteq> tile_rows * t + 2 * i" using a(3) by simp
  ultimately show "load_vec (dst (store_masks (tile_rows * t) s)) a l = load_vec (dst s) a l"
    using a(1,2) l(3) by (simp add: d load_store)
qed

text \<open>\<open>gather_lanes\<close>: lane \<open>(h, j)\<close> comes from the accumulator in which it is rotated by \<open>t\<close>.\<close>

definition source_acc :: "nat \<Rightarrow> nat \<Rightarrow> nat" where
  "source_acc t l = (l mod 8 + 8 - t) mod 8"

lemma source_acc_unique:
  assumes "t < 8" "i < 8"
  shows "(i + t) mod 8 = l mod 8 \<longleftrightarrow> i = source_acc t l"
proof -
  have "i \<in> {0, 1, 2, 3, 4, 5, 6, 7}" "t \<in> {0, 1, 2, 3, 4, 5, 6, 7}" "l mod 8 \<in> {0, 1, 2, 3, 4, 5, 6, 7}"
    using assms mod_less_divisor [of 8 l] by auto
  then show ?thesis unfolding source_acc_def by (elim insertE emptyE) simp_all
qed

lemma gather_lanes_effect:
  assumes "counter s = 0" "masks_at (dst s) tm" "t < 8" "reg \<noteq> 2" "reg \<noteq> 3"
    and s': "s' = gather_lanes (tile_rows * ta) (tile_rows * tm) g t reg s"
  shows "dst s' = dst s \<and> counter s' = 0 \<and> (\<forall>i. i \<noteq> 2 \<longrightarrow> i \<noteq> 3 \<longrightarrow> i \<noteq> reg \<longrightarrow> lreg s' i = lreg s i) \<and>
    (\<forall>l < 32. lreg s' reg l = load_vec (dst s) (tile_rows * ta + acc_addr g (source_acc t l)) l)"
proof -
  let ?f = "\<lambda>s i. vec_or 2 reg (vec_and 3 2 (sfpload 3 (tile_rows * tm + 2 * ((i + t) mod 8)) (sfpload 2 (tile_rows * ta + acc_addr g i) s)))"
  let ?s0 = "set_reg reg (\<lambda>_. 0) s"
  have loop: "let s' = foldl ?f ?s0 [0..<n] in dst s' = dst s \<and> counter s' = 0 \<and> (\<forall>i. i \<noteq> 2 \<longrightarrow> i \<noteq> 3 \<longrightarrow> i \<noteq> reg \<longrightarrow> lreg s' i = lreg s i) \<and>
      (\<forall>l < 32. lreg s' reg l = (if source_acc t l < n then load_vec (dst s) (tile_rows * ta + acc_addr g (source_acc t l)) l else 0))" if "n \<le> 8" for n
    using that
  proof (induction n)
    case 0
    show ?case using assms(1) by (simp add: set_reg_def)
  next
    case (Suc n)
    have mask: "load_vec (dst s) (tile_rows * tm + 2 * ((n + t) mod 8)) l = (if source_acc t l = n then - 1 else 0)" if "l < 32" for l
    proof -
      have "(n + t) mod 8 < 8" "n < 8" using Suc.prems by simp_all
      then show ?thesis using assms(2) that source_acc_unique [OF assms(3), of n l] unfolding masks_at_def by metis
    qed
    show ?case
      using Suc assms(4,5) mask by (auto simp: Let_def vec_or_def vec_and_def set_reg_def sfpload_def less_Suc_eq)
  qed
  have "source_acc t l < 8" for l by (simp add: source_acc_def)
  then show ?thesis using loop [of 8] by (simp add: s' gather_lanes_def Let_def)
qed

lemma transposed_lane:
  assumes "h < 4" "j < 8"
  shows "transposed r i (8 * h + j) = r (i div 4 * 4 + h) (8 * (i mod 4) + j)"
proof -
  have "8 * h + j < 32" using assms by linarith
  then show ?thesis using assms(2) by (simp add: transposed_def)
qed

lemma merge_rows_effect:
  assumes "counter s = 0" "masks_at (dst s) tm"
  defines "s' \<equiv> merge_rows (tile_rows * tm) s"
  shows "dst s' = dst s \<and> counter s' = 0 \<and> (\<forall>h < 4. \<forall>j < 8.
    lreg s' 0 (8 * h + j) = (if h < 2 then lreg s 0 (8 * h + j) else lreg s 1 (8 * (h - 2) + j)) \<and>
    lreg s' 4 (8 * h + j) = (if h < 2 then lreg s 0 (8 * (h + 2) + j) else lreg s 1 (8 * h + j)))"
proof -
  define x y where "x = lreg s 0" and "y = lreg s 1"
  define s1 where "s1 = sfptransp (sfpmov 1 3 (sfpmov 0 2 s))"
  define s2 where "s2 = sfptransp (sfpmov 1 3 (sfpmov 0 2 (sfpmov 3 7 (sfpmov 2 6 (sfpmov 3 5 (sfpmov 2 4 s1))))))"
  have r1: "lreg s1 i (8 * h + j) = (if h mod 2 = 0 then x else y) (8 * i + j)" if "i < 4" "h < 4" "j < 8" for i h j
  proof -
    have "lreg s1 i (8 * h + j) = lreg (sfpmov 1 3 (sfpmov 0 2 s)) h (8 * i + j)"
      using that by (simp add: s1_def sfptransp_def transposed_lane)
    moreover have "h = 0 \<or> h = 1 \<or> h = 2 \<or> h = 3" using that(2) by auto
    ultimately show ?thesis by (auto simp: sfpmov_def set_reg_def x_def y_def)
  qed
  have r2: "lreg s2 i (8 * h + j) = lreg s1 (if i < 4 then h mod 2 else 2 + h mod 2) (8 * (i mod 4) + j)" if "i < 8" "h < 4" "j < 8" for i h j
  proof -
    let ?m = "sfpmov 1 3 (sfpmov 0 2 (sfpmov 3 7 (sfpmov 2 6 (sfpmov 3 5 (sfpmov 2 4 s1)))))"
    have "lreg s2 i (8 * h + j) = lreg ?m (i div 4 * 4 + h) (8 * (i mod 4) + j)"
      using that by (simp add: s2_def sfptransp_def transposed_lane)
    moreover have "h = 0 \<or> h = 1 \<or> h = 2 \<or> h = 3" using that(2) by auto
    moreover have "i div 4 = (if i < 4 then 0 else 1)" using that(1) by auto
    ultimately show ?thesis by (auto simp: sfpmov_def set_reg_def numeral_2_eq_2 [symmetric] numeral_3_eq_3 [symmetric])
  qed
  have regs: "lreg s2 0 (8 * h + j) = x (8 * (h mod 2) + j)" "lreg s2 1 (8 * h + j) = y (8 * (h mod 2) + j)"
      "lreg s2 4 (8 * h + j) = x (8 * (2 + h mod 2) + j)" "lreg s2 5 (8 * h + j) = y (8 * (2 + h mod 2) + j)" if "h < 4" "j < 8" for h j
  proof -
    have m: "h mod 2 < 4" "2 + h mod 2 < 4" by linarith+
    show "lreg s2 0 (8 * h + j) = x (8 * (h mod 2) + j)" using r2 [OF _ that, of 0] r1 [OF m(1) _ that(2), of 0] by simp
    show "lreg s2 1 (8 * h + j) = y (8 * (h mod 2) + j)" using r2 [OF _ that, of 1] r1 [OF m(1) _ that(2), of 1] by simp
    show "lreg s2 4 (8 * h + j) = x (8 * (2 + h mod 2) + j)" using r2 [OF _ that, of 4] r1 [OF m(2) _ that(2), of 0] by simp
    show "lreg s2 5 (8 * h + j) = y (8 * (2 + h mod 2) + j)" using r2 [OF _ that, of 5] r1 [OF m(2) _ that(2), of 1] by simp
  qed
  have same: "dst s2 = dst s" "counter s2 = 0" using assms(1) by (simp_all add: s2_def s1_def sfptransp_def sfpmov_def set_reg_def)
  have eq: "s' = vec_xor 5 4 (vec_and 2 5 (vec_xor 4 5 (vec_xor 1 0 (vec_and 2 1 (vec_xor 0 1 (sfpload 2 (tile_rows * tm + 16) s2))))))"
    by (simp only: s'_def merge_rows_def s2_def s1_def Let_def)
  have mask: "load_vec (dst s) (tile_rows * tm + 16) (8 * h + j) = (if h < 2 then 0 else - 1)" if "h < 4" "j < 8" for h j
  proof -
    have "8 * h + j < 32" using that by linarith
    moreover have "8 * h + j < 16 \<longleftrightarrow> h < 2" using that(2) by linarith
    ultimately show ?thesis using assms(2) by (simp add: masks_at_def)
  qed
  have swap: "a XOR ((b XOR a) AND (- 1)) = b" "a XOR ((b XOR a) AND 0) = a" "a XOR (b XOR a) = b" for a b :: u32
  proof -
    have "a XOR (b XOR a) = b XOR (a XOR a)" by (rule xor.left_commute)
    then show "a XOR (b XOR a) = b" "a XOR ((b XOR a) AND (- 1)) = b" by simp_all
  qed simp
  have lanes: "lreg s' 0 l = lreg s2 0 l XOR ((lreg s2 1 l XOR lreg s2 0 l) AND load_vec (dst s) (tile_rows * tm + 16) l)"
    "lreg s' 4 l = lreg s2 4 l XOR ((lreg s2 5 l XOR lreg s2 4 l) AND load_vec (dst s) (tile_rows * tm + 16) l)" for l
    by (simp_all add: eq vec_xor_def vec_and_def set_reg_def sfpload_def same)
  have "lreg s' 0 (8 * h + j) = (if h < 2 then x (8 * h + j) else y (8 * (h - 2) + j)) \<and>
      lreg s' 4 (8 * h + j) = (if h < 2 then x (8 * (h + 2) + j) else y (8 * h + j))" if h: "h < 4" "j < 8" for h j
  proof -
    have "h = 0 \<or> h = 1 \<or> h = 2 \<or> h = 3" using h(1) by auto
    then show ?thesis unfolding lanes mask [OF h] regs [OF h] swap by (elim disjE) (simp_all add: swap del: xor_self_eq)
  qed
  moreover have "dst s' = dst s" "counter s' = 0" using same by (simp_all add: eq vec_xor_def vec_and_def set_reg_def sfpload_def)
  ultimately show ?thesis by (simp add: x_def y_def)
qed

lemma source_acc_row: "t < 8 \<Longrightarrow> (l mod 8 + 7 * source_acc t l) mod 8 = t"
proof -
  assume "t < 8"
  then have "t \<in> {0, 1, 2, 3, 4, 5, 6, 7}" "l mod 8 \<in> {0, 1, 2, 3, 4, 5, 6, 7}"
    using mod_less_divisor [of 8 l] by auto
  then show ?thesis unfolding source_acc_def by (elim insertE emptyE) simp_all
qed

lemma skewed_gather:
  assumes "skewed d t C" "g < 4" "n < 8" "l < 32"
  shows "load_vec d (tile_rows * t + acc_addr g (source_acc n l)) l = C (col (l div 8) n) (col g (l mod 8))"
proof -
  have "source_acc n l < 8" by (simp add: source_acc_def)
  then show ?thesis using assms source_acc_row [OF assms(3), of l] unfolding skewed_def by metis
qed

lemma finish_rows_effect:
  assumes c: "counter s = 0" and masks: "masks_at (dst s) tm" and skew: "skewed (dst s) t C" and g: "g < 4" and v: "v < 4"
    and s': "s' = finish_rows (tile_rows * t) (tile_rows * out) (tile_rows * tm) g v s"
  shows "counter s' = 0 \<and> (\<forall>a l. even a \<longrightarrow> l < 32 \<longrightarrow> load_vec (dst s') a l =
     (if a = tile_rows * out + slot_addr (16 + 4 * v) (group_col g) then C (16 + 4 * v + l div 8) (col g (l mod 8))
      else if a = tile_rows * out + slot_addr (4 * v) (group_col g) then C (4 * v + l div 8) (col g (l mod 8))
      else load_vec (dst s) a l))"
proof -
  define s1 where "s1 = gather_lanes (tile_rows * t) (tile_rows * tm) g (2 * v) 0 s"
  define s2 where "s2 = gather_lanes (tile_rows * t) (tile_rows * tm) g (2 * v + 1) 1 s1"
  define s3 where "s3 = merge_rows (tile_rows * tm) s2"
  have t: "2 * v < 8" "2 * v + 1 < 8" using v by simp_all
  note e1 = gather_lanes_effect [OF c masks t(1) _ _ s1_def, simplified]
  have "counter s1 = 0" "masks_at (dst s1) tm" using e1 masks by simp_all
  note e2 = gather_lanes_effect [OF this t(2) _ _ s2_def, simplified]
  have c2: "counter s2 = 0" "dst s2 = dst s" using e1 e2 by simp_all
  then have "masks_at (dst s2) tm" using masks by simp
  note e3 = merge_rows_effect [OF c2(1) this, folded s3_def]
  have a: "lreg s2 0 l = C (col (l div 8) (2 * v)) (col g (l mod 8))" if "l < 32" for l
    using e1 e2 skewed_gather [OF skew g t(1) that] that by simp
  have b: "lreg s2 1 l = C (col (l div 8) (2 * v + 1)) (col g (l mod 8))" if "l < 32" for l
    using e1 e2 skewed_gather [OF skew g t(2) that] that by simp
  have low: "lreg s3 0 l = C (4 * v + l div 8) (col g (l mod 8))" and high: "lreg s3 4 l = C (16 + 4 * v + l div 8) (col g (l mod 8))"
    if l: "l < 32" for l
  proof -
    define h j where "h = l div 8" and "j = l mod 8"
    have hj: "l = 8 * h + j" "h < 4" "j < 8" using l by (simp_all add: h_def j_def less_mult_imp_div_less)
    have lanes: "lreg s2 0 (8 * h' + j) = C (col h' (2 * v)) (col g j)" "lreg s2 1 (8 * h' + j) = C (col h' (2 * v + 1)) (col g j)" if "h' < 4" for h'
    proof -
      have "8 * h' + j < 32" "(8 * h' + j) div 8 = h'" "(8 * h' + j) mod 8 = j" using that hj(3) by (linarith, simp_all)
      then show "lreg s2 0 (8 * h' + j) = C (col h' (2 * v)) (col g j)" "lreg s2 1 (8 * h' + j) = C (col h' (2 * v + 1)) (col g j)"
        using a [of "8 * h' + j"] b [of "8 * h' + j"] by simp_all
    qed
    have cols: "col 0 (2 * v) = 4 * v" "col 1 (2 * v) = 4 * v + 1" "col 2 (2 * v) = 16 + 4 * v" "col 3 (2 * v) = 16 + 4 * v + 1"
      "col 0 (2 * v + 1) = 4 * v + 2" "col 1 (2 * v + 1) = 4 * v + 3" "col 2 (2 * v + 1) = 16 + 4 * v + 2" "col 3 (2 * v + 1) = 16 + 4 * v + 3"
      by (simp_all add: col_def)
    have regs: "lreg s3 0 (8 * h + j) = (if h < 2 then lreg s2 0 (8 * h + j) else lreg s2 1 (8 * (h - 2) + j))"
      "lreg s3 4 (8 * h + j) = (if h < 2 then lreg s2 0 (8 * (h + 2) + j) else lreg s2 1 (8 * h + j))"
      using e3 hj(2,3) by blast+
    have "h = 0 \<or> h = 1 \<or> h = 2 \<or> h = 3" using hj(2) by auto
    then have "lreg s3 0 (8 * h + j) = C (4 * v + h) (col g j) \<and> lreg s3 4 (8 * h + j) = C (16 + 4 * v + h) (col g j)"
      unfolding regs using lanes [of 0] lanes [of 1] lanes [of 2] lanes [of 3] cols by (elim disjE) (simp_all add: add.assoc)
    then show "lreg s3 0 l = C (4 * v + l div 8) (col g (l mod 8))" "lreg s3 4 l = C (16 + 4 * v + l div 8) (col g (l mod 8))"
      unfolding hj(1) using hj(3) by simp_all
  qed
  have eq: "s' = sfpstore 4 (tile_rows * out + slot_addr (16 + 4 * v) (group_col g)) (sfpstore 0 (tile_rows * out + slot_addr (4 * v) (group_col g)) s3)"
    by (simp add: s' finish_rows_def s1_def s2_def s3_def Let_def)
  have c3: "counter s3 = 0" "dst s3 = dst s" using e3 c2(2) by simp_all
  show ?thesis unfolding eq using low high by (simp add: sfpstore_def c3 load_store)
qed

text \<open>Every element of the output tile is in one of the slots stored.\<close>

lemma element_slot:
  assumes "r < 32" "c < 32"
  shows "\<exists>g v. g < 4 \<and> v < 4 \<and> c div 16 = g div 2 \<and> c mod 2 = g mod 2 \<and> slot_addr r c = slot_addr (4 * (r div 4)) (group_col g) \<and> (r div 4 = v \<or> r div 4 = 4 + v)"
proof -
  let ?g = "2 * (c div 16) + c mod 2"
  have c: "c div 16 < 2" "c mod 2 < 2" using assms(2) by (simp_all add: less_mult_imp_div_less)
  then have g: "?g < 4" "?g div 2 = c div 16" "?g mod 2 = c mod 2" by simp_all
  have r: "r div 4 < 8" using assms(1) by (simp add: less_mult_imp_div_less)
  have "r div 4 div 4 = r div 16" by (simp add: div_mult2_eq [symmetric])
  moreover have "r mod 16 div 4 = r div 4 mod 4" using mod_mult2_eq [of r 4 4] by simp
  moreover have "4 * (r div 4) mod 16 div 4 = r div 4 mod 4" "4 * (r div 4) div 16 = r div 4 div 4"
    using four_div_mod(3,4) [of 0 "r div 4"] by simp_all
  ultimately have "slot_addr r c = slot_addr (4 * (r div 4)) (group_col ?g)"
    using group_col_facts(2,3) [OF g(1)] g(2,3) by (simp add: slot_addr_def)
  then show ?thesis
    using g r by (intro exI [of _ ?g] exI [of _ "if r div 4 < 4 then r div 4 else r div 4 - 4"]) auto
qed

lemma out_slot_inject:
  assumes "g < 4" "g' < 4" "slot_addr (4 * w) (group_col g) = slot_addr (4 * w') (group_col g')"
  shows "w = w'" "g = g'"
proof -
  let ?X = "\<lambda>w g. 4 * (2 * (w div 4) + g div 2) + w mod 4"
  have alt: "slot_addr (4 * w) (group_col g) = 4 * ?X w g + 2 * (g mod 2)" if "g < 4" for w g
  proof -
    have "4 * w div 16 = w div 4" "4 * w mod 16 div 4 = w mod 4" using four_div_mod(3,4) [of 0 w] by simp_all
    then show ?thesis using group_col_facts(2,3) [OF that] by (simp add: slot_addr_def)
  qed
  have e: "g mod 2 < 2" "g' mod 2 < 2" by simp_all
  have eq: "4 * ?X w g + 2 * (g mod 2) = 4 * ?X w' g' + 2 * (g' mod 2)" using assms(3) by (simp only: alt [OF assms(1)] alt [OF assms(2)])
  have X: "?X w g = ?X w' g'" and par: "g mod 2 = g' mod 2"
    using slot_addr_parts [OF e(1), of "?X w g"] slot_addr_parts [OF e(2), of "?X w' g'"] eq by metis+
  have m: "w mod 4 < 4" "w' mod 4 < 4" by simp_all
  have low: "w mod 4 = w' mod 4" and mid: "2 * (w div 4) + g div 2 = 2 * (w' div 4) + g' div 2"
    using four_div_mod(1,2) [OF m(1), of "2 * (w div 4) + g div 2"] four_div_mod(1,2) [OF m(2), of "2 * (w' div 4) + g' div 2"] X by metis+
  have half: "g div 2 < 2" "g' div 2 < 2" using assms(1,2) by (simp_all add: less_mult_imp_div_less)
  have "(2 * x + y) div 2 = x" "(2 * x + y) mod 2 = y" if "y < 2" for x y :: nat using that by simp_all
  then have "w div 4 = w' div 4" "g div 2 = g' div 2" using half mid by metis+
  then show "w = w'" "g = g'" using low par by (metis div_mult_mod_eq)+
qed

definition out_row :: "dst_mem \<Rightarrow> nat \<Rightarrow> (nat \<Rightarrow> nat \<Rightarrow> u32) \<Rightarrow> nat \<Rightarrow> nat \<Rightarrow> bool" where
  "out_row d out C g w \<longleftrightarrow> (\<forall>l < 32. load_vec d (tile_rows * out + slot_addr (4 * w) (group_col g)) l = C (4 * w + l div 8) (col g (l mod 8)))"

lemma other_slots:
  assumes "t \<noteq> out" "g < 4" "w < 8" "i < 32"
  shows "tile_rows * t + 2 * i \<noteq> tile_rows * out + slot_addr (4 * w) (group_col g)"
  using other_tile_even [of out t "4 * w" "group_col g" i] assms group_col_facts(1) [OF assms(2)] by simp

lemma finish_loop:
  assumes c: "counter s = 0" and masks: "masks_at (dst s) tm" and skew: "skewed (dst s) t C" and tiles: "t \<noteq> out" "tm \<noteq> out"
    and ps: "\<forall>(g, v) \<in> set ps. g < 4 \<and> v < 4"
    and done_rows: "\<And>g v. (g, v) \<in> D \<Longrightarrow> g < 4 \<and> v < 4 \<and> out_row (dst s) out C g v \<and> out_row (dst s) out C g (4 + v)"
    and s': "s' = foldl (\<lambda>s (g, v). finish_rows (tile_rows * t) (tile_rows * out) (tile_rows * tm) g v s) s ps"
  shows "counter s' = 0 \<and> (\<forall>(g, v) \<in> D \<union> set ps. out_row (dst s') out C g v \<and> out_row (dst s') out C g (4 + v)) \<and>
    (\<forall>a l. even a \<longrightarrow> l < 32 \<longrightarrow> (\<forall>g < 4. \<forall>w < 8. a \<noteq> tile_rows * out + slot_addr (4 * w) (group_col g)) \<longrightarrow> load_vec (dst s') a l = load_vec (dst s) a l)"
  using assms
proof (induction ps arbitrary: s D)
  case Nil
  then show ?case by auto
next
  case (Cons p ps)
  obtain g v where p: "p = (g, v)" by (cases p)
  have gv: "g < 4" "v < 4" using Cons.prems(6) by (simp_all add: p)
  define s1 where "s1 = finish_rows (tile_rows * t) (tile_rows * out) (tile_rows * tm) g v s"
  from finish_rows_effect [OF Cons.prems(1-3) gv s1_def] have c1: "counter s1 = 0" and
    store: "\<And>a l. even a \<Longrightarrow> l < 32 \<Longrightarrow> load_vec (dst s1) a l =
     (if a = tile_rows * out + slot_addr (16 + 4 * v) (group_col g) then C (16 + 4 * v + l div 8) (col g (l mod 8))
      else if a = tile_rows * out + slot_addr (4 * v) (group_col g) then C (4 * v + l div 8) (col g (l mod 8))
      else load_vec (dst s) a l)" by blast+
  have w: "16 + 4 * v = 4 * (4 + v)" by simp
  have row: "load_vec (dst s1) (tile_rows * out + slot_addr (4 * w') (group_col g')) l =
      (if g' = g \<and> (w' = v \<or> w' = 4 + v) then C (4 * w' + l div 8) (col g (l mod 8))
       else load_vec (dst s) (tile_rows * out + slot_addr (4 * w') (group_col g')) l)" if "g' < 4" "w' < 8" "l < 32" for g' w' l
  proof -
    have inj: "slot_addr (4 * w') (group_col g') = slot_addr (4 * w'') (group_col g) \<longleftrightarrow> w' = w'' \<and> g' = g" for w''
      using out_slot_inject [OF \<open>g' < 4\<close> gv(1)] by blast
    have addr: "even (tile_rows * out + slot_addr (4 * w') (group_col g'))" by simp
    show ?thesis
      unfolding store [of "tile_rows * out + slot_addr (4 * w') (group_col g')" l, OF addr that(3), unfolded w]
        add_left_cancel inj by (cases "g' = g"; cases "w' = v"; cases "w' = 4 + v"; simp)
  qed
  have keep: "load_vec (dst s1) a l = load_vec (dst s) a l"
    if "even a" "l < 32" "\<forall>g < 4. \<forall>w < 8. a \<noteq> tile_rows * out + slot_addr (4 * w) (group_col g)" for a l
    unfolding store [OF that(1,2), unfolded w]
    using that(3) [rule_format, OF gv(1), of v] that(3) [rule_format, OF gv(1), of "4 + v"] gv(2) by simp
  have masks1: "masks_at (dst s1) tm"
  proof -
    have "load_vec (dst s1) (tile_rows * tm + 2 * i) l = load_vec (dst s) (tile_rows * tm + 2 * i) l" if "i < 32" "l < 32" for i l
      by (rule keep) (use other_slots [OF Cons.prems(5)] that in auto)
    from this this [of 8] show ?thesis using Cons.prems(2) by (simp add: masks_at_def)
  qed
  have skew1: "skewed (dst s1) t C"
  proof -
    have "load_vec (dst s1) (tile_rows * t + 2 * i) l = load_vec (dst s) (tile_rows * t + 2 * i) l" if "i < 32" "l < 32" for i l
      by (rule keep) (use other_slots [OF Cons.prems(4)] that in auto)
    then show ?thesis using Cons.prems(3) acc_slot unfolding skewed_def by metis
  qed
  have rows1: "g' < 4 \<and> v' < 4 \<and> out_row (dst s1) out C g' v' \<and> out_row (dst s1) out C g' (4 + v')" if "(g', v') \<in> insert (g, v) D" for g' v'
  proof (cases "(g', v') = (g, v)")
    case True
    then show ?thesis using gv row [OF gv(1), of v] row [OF gv(1), of "4 + v"] by (simp add: out_row_def)
  next
    case False
    then have D: "(g', v') \<in> D" using that by auto
    note old = Cons.prems(7) [OF D]
    have "\<not> (g' = g \<and> (4 + v' = v \<or> v' = 4 + v))" using old gv(2) by auto
    then show ?thesis using old row [of g' v'] row [of g' "4 + v'"] False by (auto simp: out_row_def)
  qed
  have ps': "\<forall>(g, v) \<in> set ps. g < 4 \<and> v < 4" using Cons.prems(6) by simp
  have s': "s' = foldl (\<lambda>s (g, v). finish_rows (tile_rows * t) (tile_rows * out) (tile_rows * tm) g v s) s1 ps"
    using Cons.prems(8) by (simp add: p s1_def)
  have IH: "counter s' = 0 \<and> (\<forall>(g, v) \<in> insert (g, v) D \<union> set ps. out_row (dst s') out C g v \<and> out_row (dst s') out C g (4 + v)) \<and>
    (\<forall>a l. even a \<longrightarrow> l < 32 \<longrightarrow> (\<forall>g < 4. \<forall>w < 8. a \<noteq> tile_rows * out + slot_addr (4 * w) (group_col g)) \<longrightarrow> load_vec (dst s') a l = load_vec (dst s1) a l)"
    by (rule Cons.IH [OF c1 masks1 skew1 Cons.prems(4,5) ps' _ s']) (rule rows1)
  have sets: "D \<union> set (p # ps) = insert (g, v) D \<union> set ps" by (simp add: p)
  have "load_vec (dst s') a l = load_vec (dst s) a l"
    if "even a" "l < 32" "\<forall>g < 4. \<forall>w < 8. a \<noteq> tile_rows * out + slot_addr (4 * w) (group_col g)" for a l
    unfolding IH [THEN conjunct2, THEN conjunct2, THEN spec, THEN spec, THEN mp, THEN mp, THEN mp, OF that] by (rule keep [OF that])
  then show ?case unfolding sets using IH [THEN conjunct1] IH [THEN conjunct2, THEN conjunct1] by simp
qed

lemma foldl_pairs: "foldl (\<lambda>s g. foldl (\<lambda>s v. f g v s) s vs) s gs = foldl (\<lambda>s (g, v). f g v s) s (concat (map (\<lambda>g. map (Pair g) vs) gs))"
proof (induction gs arbitrary: s)
  case (Cons g gs)
  have "foldl (\<lambda>s v. f g v s) s vs = foldl (\<lambda>s (g, v). f g v s) s (map (Pair g) vs)" for s
    by (induction vs arbitrary: s) simp_all
  with Cons show ?case by simp
qed simp

text \<open>
  The finish of the source: the natural tile from the skewed accumulators; every move is bitwise.
\<close>

lemma matmul_finish_effect:
  assumes skew: "skewed (dst s) t C" and tiles: "t \<noteq> out" "tm \<noteq> out" "t \<noteq> tm"
  defines "s' \<equiv> matmul_fp32_finish t out tm s"
  shows "r < 32 \<Longrightarrow> c < 32 \<Longrightarrow> tile_at (dst s') out r c = C r c" "counter s' = 0"
proof -
  define s0 where "s0 = store_masks (tile_rows * tm) (clear_dst_reg_addr s)"
  define ps where "ps = concat (map (\<lambda>g. map (Pair g) [0..<4]) [0..<4 :: nat])"
  define s1 where "s1 = foldl (\<lambda>s (g, v). finish_rows (tile_rows * t) (tile_rows * out) (tile_rows * tm) g v s) s0 ps"
  have start: "counter (clear_dst_reg_addr s) = 0" "dst (clear_dst_reg_addr s) = dst s" by (simp_all add: clear_dst_reg_addr_def)
  note m = store_masks_effect [OF start(1), where t = tm, folded s0_def]
  have skew0: "skewed (dst s0) t C"
  proof -
    have "load_vec (dst s0) (tile_rows * t + 2 * i) l = load_vec (dst s) (tile_rows * t + 2 * i) l" if "i < 32" "l < 32" for i l
    proof -
      have "tile_rows * t + 2 * i \<noteq> tile_rows * tm + 2 * i'" if "i' < 32" for i'
      proof -
        have "(64 * x + a) div 64 = x" if "a < 64" for x a :: nat using that by simp
        moreover have "2 * i < 64" "2 * i' < 64" using \<open>i < 32\<close> that by simp_all
        ultimately show ?thesis using tiles(3) unfolding tile_rows_def by metis
      qed
      then show ?thesis using m(3) [where a = "tile_rows * t + 2 * i" and l = l] that start(2) by simp
    qed
    then show ?thesis using skew acc_slot unfolding skewed_def by metis
  qed
  have ps: "\<forall>(g, v) \<in> set ps. g < 4 \<and> v < 4" by (auto simp: ps_def)
  from finish_loop [OF m(1,2) skew0 tiles(1,2) ps, of "{}", OF _ s1_def] have fin: "counter s1 = 0"
    "\<And>g v. (g, v) \<in> set ps \<Longrightarrow> out_row (dst s1) out C g v \<and> out_row (dst s1) out C g (4 + v)" by auto
  have eq: "s' = clear_dst_reg_addr s1"
    by (simp only: s'_def matmul_fp32_finish_def s1_def s0_def ps_def foldl_pairs mult.commute [of _ tile_rows] Let_def)
  then show "counter s' = 0" by (simp add: clear_dst_reg_addr_def)
  assume rc: "r < 32" "c < 32"
  from element_slot [OF rc] obtain g v where gv: "g < 4" "v < 4" "c div 16 = g div 2" "c mod 2 = g mod 2"
      "slot_addr r c = slot_addr (4 * (r div 4)) (group_col g)" "r div 4 = v \<or> r div 4 = 4 + v" by blast
  have "(g, v) \<in> set ps" using gv(1,2) by (auto simp: ps_def image_iff)
  from fin(2) [OF this] gv(6) have row: "out_row (dst s1) out C g (r div 4)" by auto
  let ?l = "8 * (r mod 4) + c mod 16 div 2"
  have l: "?l < 32" "?l div 8 = r mod 4" "?l mod 8 = c mod 16 div 2"
    using lane_less by (simp_all add: less_mult_imp_div_less)
  have cc: "col g (c mod 16 div 2) = c"
  proof -
    have "c mod 2 = c mod 16 mod 2" by (simp add: mod_mod_cancel)
    then have "16 * (c div 16) + 2 * (c mod 16 div 2) + c mod 2 = c" by (metis add.assoc mult.commute mult_div_mod_eq div_mult_mod_eq)
    then show ?thesis by (simp add: col_def gv(3,4) [symmetric])
  qed
  have "tile_at (dst s1) out r c = load_vec (dst s1) (tile_rows * out + slot_addr (4 * (r div 4)) (group_col g)) ?l"
    by (simp add: tile_at_slot [OF rc(2)] gv(5))
  also have "\<dots> = C (4 * (r div 4) + ?l div 8) (col g (?l mod 8))" using row l(1) unfolding out_row_def by blast
  also have "\<dots> = C r c" unfolding l(2,3) cc by simp
  finally show "tile_at (dst s') out r c = C r c" by (simp add: eq clear_dst_reg_addr_def)
qed

end
