(* ===== verification/DstTiles.thy ===== *)
theory DstTiles
  imports SfpuMatmul
begin

text \<open>
  Tiles in and out of Dst, and Dst as the vector unit addresses it: a tile's page is the rows of
  its four faces, copied and packed in that order; a vector is four rows of a face, even or odd
  columns.
\<close>

section \<open>Tiles\<close>

text \<open>A tile's page: 1024 words, the rows of its four faces; copies and packs keep that order.\<close>

type_synonym tile_words = "nat \<Rightarrow> u32"

definition page_elem :: "tile_words \<Rightarrow> nat \<Rightarrow> nat \<Rightarrow> u32" where
  "page_elem p r c = p (16 * (16 * (2 * (r div 16) + c div 16) + r mod 16) + c mod 16)"

definition copy_tile :: "tile_words \<Rightarrow> nat \<Rightarrow> dst_mem \<Rightarrow> dst_mem" where
  "copy_tile p t d r c = (if r div tile_rows = t \<and> c < 16 then p (16 * (r mod tile_rows) + c) else d r c)"

definition pack_tile :: "nat \<Rightarrow> dst_mem \<Rightarrow> tile_words" where
  "pack_tile t d i = d (tile_rows * t + i div 16) (i mod 16)"

lemma element_word:
  assumes "r < 32" "c < (32 :: nat)"
  shows "16 * (2 * (r div 16) + c div 16) + r mod 16 < 64" "c mod 16 < 16"
proof -
  have "16 * (2 * x + y) + z < 64" if "x < 2" "y < 2" "z < 16" for x y z :: nat using that by auto
  moreover have "r div 16 < 2" "c div 16 < 2" "r mod 16 < 16" using assms by (simp_all add: less_mult_imp_div_less)
  ultimately show "16 * (2 * (r div 16) + c div 16) + r mod 16 < 64" by blast
qed simp

lemma copied_tile:
  assumes "r < 32" "c < 32"
  shows "tile_at (copy_tile p t d) t' r c = (if t' = t then page_elem p r c else tile_at d t' r c)"
proof -
  note e = element_word [OF assms]
  have "(tile_rows * t' + (16 * (2 * (r div 16) + c div 16) + r mod 16)) div tile_rows = t'"
    "(tile_rows * t' + (16 * (2 * (r div 16) + c div 16) + r mod 16)) mod tile_rows = 16 * (2 * (r div 16) + c div 16) + r mod 16"
    using index_div [OF e(1), of t'] index_mod [OF e(1), of t'] by (simp_all add: tile_rows_def mult.commute)
  then show ?thesis by (simp add: tile_at_def copy_tile_def page_elem_def add.assoc)
qed

lemma packed_tile: "page_elem (pack_tile t d) r c = tile_at d t r c"
proof -
  have "(16 * x + c mod 16) div 16 = x" "(16 * x + c mod 16) mod 16 = c mod 16" for x :: nat by simp_all
  then show ?thesis unfolding page_elem_def pack_tile_def tile_at_def by (simp only: add.assoc)
qed

section \<open>Vectors\<close>

text \<open>Vector \<open>i\<close> of Dst is at address \<open>2 * i\<close>; the vectors are independent of each other.\<close>

definition vec_at :: "dst_mem \<Rightarrow> nat \<Rightarrow> lanes" where
  "vec_at d i = load_vec d (2 * i)"

definition vec_set :: "dst_mem \<Rightarrow> nat \<Rightarrow> lanes \<Rightarrow> dst_mem" where
  "vec_set d i v = store_vec d (2 * i) v"

lemma vec_at_set:
  assumes "l < 32"
  shows "vec_at (vec_set d i v) j l = (if j = i then v l else vec_at d j l)"
proof -
  have a: "2 * k div 4 = k div 2" "2 * k div 2 = k" for k :: nat by simp_all
  have l: "l div 8 < 4" using assms by auto
  have R: "(j div 2 * 4 + l div 8) div 4 = j div 2" "(j div 2 * 4 + l div 8) mod 4 = l div 8" using l by simp_all
  have C: "(2 * (l mod 8) + j mod 2) mod 2 = j mod 2" "(2 * (l mod 8) + j mod 2) div 2 = l mod 8" by simp_all
  have "2 * (l mod 8) + j mod 2 < 16"
  proof -
    have "l mod 8 < 8" "j mod 2 < 2" by simp_all
    then show ?thesis by linarith
  qed
  moreover have "j div 2 = i div 2 \<and> j mod 2 = i mod 2 \<longleftrightarrow> j = i" by (metis div_mult_mod_eq)
  ultimately show ?thesis
    unfolding vec_at_def vec_set_def load_vec_def store_vec_def a R C by auto
qed

text \<open>Vector \<open>parity\<close> (even or odd columns) of band \<open>b\<close> (four rows) of face \<open>f\<close> of a tile.\<close>

definition vec :: "nat \<Rightarrow> nat \<Rightarrow> nat \<Rightarrow> nat \<Rightarrow> nat" where
  "vec t f b parity = t * 32 + f * 8 + b * 2 + parity"

lemma vec_parts:
  assumes "f < 4" "b < 4" "p < 2"
  shows "vec t f b p div 32 = t" "vec t f b p mod 32 div 8 = f" "vec t f b p mod 8 div 2 = b" "vec t f b p mod 2 = p"
proof -
  have low: "b * 2 + p < 8" "f * 8 + (b * 2 + p) < 32" using assms by auto
  have v: "vec t f b p = t * 32 + (f * 8 + (b * 2 + p))" by (simp add: vec_def)
  then show "vec t f b p div 32 = t" "vec t f b p mod 32 div 8 = f" using low by simp_all
  have "vec t f b p = (t * 4 + f) * 8 + (b * 2 + p)" by (simp add: vec_def)
  then have "vec t f b p mod 8 = b * 2 + p" using low(1) by (simp only: mod_mult_self3) simp
  then show "vec t f b p mod 8 div 2 = b" using assms(3) by simp
  have "vec t f b p = (t * 16 + f * 4 + b) * 2 + p" by (simp add: vec_def)
  then show "vec t f b p mod 2 = p" using assms(3) by (simp only: mod_mult_self3) simp
qed

lemma vec_same:
  assumes "f < 4" "b < 4" "p < 2" "f' < 4" "b' < 4" "p' < 2"
  shows "vec t f b p = vec t' f' b' p' \<longleftrightarrow> t = t' \<and> f = f' \<and> b = b' \<and> p = p'"
  using vec_parts [OF assms(1-3), of t] vec_parts [OF assms(4-6), of t'] by metis

text \<open>Element \<open>(r, c)\<close> of a tile: its face, its band and the lane of its row and column.\<close>

definition elem_vec :: "nat \<Rightarrow> nat \<Rightarrow> nat \<Rightarrow> nat" where
  "elem_vec t r c = vec t (2 * (r div 16) + c div 16) (r mod 16 div 4) (c mod 2)"

definition elem_lane :: "nat \<Rightarrow> nat \<Rightarrow> nat" where
  "elem_lane r c = 8 * (r mod 4) + c mod 16 div 2"

lemma elem_lane_less: "elem_lane r c < 32"
proof -
  have "r mod 4 < 4" "c mod 16 div 2 < 8" by auto
  then show ?thesis unfolding elem_lane_def by linarith
qed

lemma tile_at_vec: "tile_at d t r c = vec_at d (elem_vec t r c) (elem_lane r c)"
proof -
  have e: "2 * vec t f b p div 4 = t * 16 + f * 4 + b" "2 * vec t f b p div 2 mod 2 = p" if "p < 2" for f b p :: nat
  proof -
    have v: "vec t f b p = (t * 16 + f * 4 + b) * 2 + p" by (simp add: vec_def)
    have "2 * vec t f b p = (t * 16 + f * 4 + b) * 4 + 2 * p" by (simp add: v)
    moreover have "2 * p < 4" using that by simp
    ultimately show "2 * vec t f b p div 4 = t * 16 + f * 4 + b" by simp
    have "2 * vec t f b p div 2 = vec t f b p" by simp
    then show "2 * vec t f b p div 2 mod 2 = p" using that by (simp only: v mod_mult_self3) simp
  qed
  have j: "c mod 16 div 2 < 8" by auto
  then have l: "elem_lane r c div 8 = r mod 4" "elem_lane r c mod 8 = c mod 16 div 2" by (simp_all add: elem_lane_def)
  have row: "(t * 16 + F * 4 + r mod 16 div 4) * 4 + r mod 4 = 64 * t + 16 * F + r mod 16" for F
  proof -
    have "r mod 16 div 4 * 4 + r mod 4 = r mod 16" by presburger
    then show ?thesis by simp
  qed
  have col: "2 * (c mod 16 div 2) + c mod 2 = c mod 16" by presburger
  have p: "c mod 2 < 2" by simp
  show ?thesis
    unfolding tile_at_def vec_at_def load_vec_def elem_vec_def e [OF p] l row col tile_rows_def ..
qed

text \<open>The word of a page that a lane of a tile's vector comes from.\<close>

definition lane_word :: "nat \<Rightarrow> nat \<Rightarrow> nat" where
  "lane_word k l = 16 * (k div 2 * 4 + l div 8) + 2 * (l mod 8) + k mod 2"

lemma vec_at_copied:
  assumes "l < 32"
  shows "vec_at (copy_tile p t d) j l = (if j div 32 = t then p (lane_word (j mod 32) l) else vec_at d j l)"
proof -
  have a: "2 * j div 4 = j div 2" "2 * j div 2 = j" by simp_all
  have l: "l div 8 < 4" using assms by auto
  have "j div 2 = (j div 32 * 16 * 2 + j mod 32) div 2" by simp
  then have "j div 2 = j div 32 * 16 + j mod 32 div 2" by (simp only: div_mult_self3)
  then have row: "j div 2 * 4 + l div 8 = j div 32 * 64 + (j mod 32 div 2 * 4 + l div 8)" by simp
  have k: "j mod 32 div 2 * 4 + l div 8 < 64"
  proof -
    have "j mod 32 div 2 < 16" by auto
    then show ?thesis using l by linarith
  qed
  have R: "(j div 2 * 4 + l div 8) div 64 = j div 32" "(j div 2 * 4 + l div 8) mod 64 = j mod 32 div 2 * 4 + l div 8"
    unfolding row using k by simp_all
  have "l mod 8 < 8" "j mod 2 < 2" by simp_all
  then have col: "2 * (l mod 8) + j mod 2 < 16" by linarith
  have par: "j mod 32 mod 2 = j mod 2" by (simp add: mod_mod_cancel)
  show ?thesis unfolding vec_at_def load_vec_def copy_tile_def a tile_rows_def R lane_word_def par using col by (simp add: add.assoc)
qed

lemma elem_word: "page_elem p r c = p (lane_word (elem_vec 0 r c) (elem_lane r c))"
proof -
  have j: "c mod 16 div 2 < 8" by auto
  then have l: "elem_lane r c div 8 = r mod 4" "elem_lane r c mod 8 = c mod 16 div 2" by (simp_all add: elem_lane_def)
  have e: "vec 0 F b (c mod 2) div 2 = F * 4 + b" "vec 0 F b (c mod 2) mod 2 = c mod 2" for F b
  proof -
    have v: "vec 0 F b (c mod 2) = (F * 4 + b) * 2 + c mod 2" by (simp add: vec_def)
    show "vec 0 F b (c mod 2) div 2 = F * 4 + b" "vec 0 F b (c mod 2) mod 2 = c mod 2"
      unfolding v by (simp_all only: div_mult_self3 mod_mult_self3) simp_all
  qed
  have band: "r mod 16 div 4 * 4 + r mod 4 = r mod 16" by presburger
  then have row: "(F * 4 + r mod 16 div 4) * 4 + r mod 4 = 16 * F + r mod 16" for F by simp
  have col: "2 * (c mod 16 div 2) + c mod 2 = c mod 16" by presburger
  show ?thesis unfolding page_elem_def lane_word_def elem_vec_def l e row using col by (simp add: add.assoc)
qed

end
