(* ===== verification/MatmulFp32.thy ===== *)
theory MatmulFp32
  imports DstTiles DataflowBuffer
begin

text \<open>
  The kernels of matmul_fp32, \<open>kernels/dataflow/reader_matmul_fp32.cpp\<close>,
  \<open>kernels/compute/matmul_fp32.cpp\<close> and \<open>kernels/dataflow/writer_matmul_fp32.cpp\<close>: the
  reader streams a row of A tiles and columns of B tiles, the compute kernel multiplies them on
  the vector unit, the writer writes the tiles of the output. What the kernels take from the
  platform is a record: the lanes' multiply-add, the padding of a tile, the transpose in Dst and
  the contents of Dst when it is acquired.
\<close>

section \<open>What the platform provides\<close>

record matmul_env =
  me_mad :: "u32 \<Rightarrow> u32 \<Rightarrow> u32 \<Rightarrow> u32"
  me_pad_last_ktile :: "nat \<Rightarrow> tile_words \<Rightarrow> tile_words"
  me_pad_last_transposed_ktile :: "nat \<Rightarrow> tile_words \<Rightarrow> tile_words"
  me_transpose_dest :: "nat \<Rightarrow> dst_mem \<Rightarrow> dst_mem"
  me_acquired :: "nat \<Rightarrow> dst_mem"

text \<open>
  Padding zeroes the columns (rows) from a count on, and transposing a tile in Dst leaves the
  others. Of the multiply-add and of an acquired Dst nothing is asked.
\<close>

definition env_ok :: "matmul_env \<Rightarrow> bool" where
  "env_ok e \<longleftrightarrow>
     (\<forall>n p r c. r < 32 \<longrightarrow> c < 32 \<longrightarrow> page_elem (me_pad_last_ktile e n p) r c = (if c < n then page_elem p r c else 0)) \<and>
     (\<forall>n p r c. r < 32 \<longrightarrow> c < 32 \<longrightarrow> page_elem (me_pad_last_transposed_ktile e n p) r c = (if r < n then page_elem p r c else 0)) \<and>
     (\<forall>t d r c. r < 32 \<longrightarrow> c < 32 \<longrightarrow> tile_at (me_transpose_dest e t d) t r c = tile_at d t c r) \<and>
     (\<forall>t d t' r c. t' \<noteq> t \<longrightarrow> r < 32 \<longrightarrow> c < 32 \<longrightarrow> tile_at (me_transpose_dest e t d) t' r c = tile_at d t' r c)"

section \<open>The kernels\<close>

record matmul_args =
  ma_Mt :: nat
  ma_Kt :: nat
  ma_Nt :: nat
  ma_bcast_b :: bool
  ma_run_width :: nat
  ma_a_resident :: bool
  ma_last_ktile_k :: nat

record matmul_dram =
  md_a :: "nat \<Rightarrow> tile_words"
  md_b :: "nat \<Rightarrow> tile_words"

datatype matmul_dfb = In0 | In1 | Out

record matmul_store =
  ms_vec :: sfpu
  ms_written :: "(nat \<times> tile_words) list"

type_synonym matmul_instr = "(matmul_dfb, tile_words, matmul_store) dfb_instr"

definition run_cols :: "nat \<Rightarrow> nat \<Rightarrow> nat \<Rightarrow> nat \<Rightarrow> nat" where
  "run_cols tile end_tile Nt run_width =
     (let cols = Nt - tile mod Nt; cols = (if cols < run_width then cols else run_width)
      in if cols < end_tile - tile then cols else end_tile - tile)"

subsection \<open>The reader\<close>

definition batch_of :: "matmul_args \<Rightarrow> nat \<Rightarrow> nat" where
  "batch_of a tile = tile div w32 (ma_Mt a * ma_Nt a)"

definition a_row :: "matmul_args \<Rightarrow> nat \<Rightarrow> nat" where
  "a_row a tile = w32 ((batch_of a tile * ma_Mt a + tile mod w32 (ma_Mt a * ma_Nt a) div ma_Nt a) * ma_Kt a)"

definition b_base :: "matmul_args \<Rightarrow> nat \<Rightarrow> nat" where
  "b_base a tile = w32 ((if ma_bcast_b a then 0 else batch_of a tile * ma_Kt a * ma_Nt a) + tile mod ma_Nt a)"

text \<open>The tiles as they are pushed: the last tile of a row or column is padded.\<close>

definition pad_a :: "matmul_env \<Rightarrow> matmul_args \<Rightarrow> tile_words \<Rightarrow> tile_words" where
  "pad_a e a p = (if 0 < ma_last_ktile_k a then me_pad_last_ktile e (ma_last_ktile_k a) p else p)"

definition read_a :: "matmul_env \<Rightarrow> matmul_args \<Rightarrow> matmul_dram \<Rightarrow> nat \<Rightarrow> nat \<Rightarrow> tile_words" where
  "read_a e a d tile k =
     (let p = md_a d (w32 (a_row a tile + k)) in if k = ma_Kt a - 1 then pad_a e a p else p)"

definition read_b :: "matmul_env \<Rightarrow> matmul_args \<Rightarrow> matmul_dram \<Rightarrow> nat \<Rightarrow> nat \<Rightarrow> nat \<Rightarrow> tile_words" where
  "read_b e a d tile j k =
     (let p = md_b d (w32 (b_base a tile + k * ma_Nt a + j))
      in if k = ma_Kt a - 1 \<and> 0 < ma_last_ktile_k a then me_pad_last_transposed_ktile e (ma_last_ktile_k a) p else p)"

definition reader_step :: "matmul_env \<Rightarrow> matmul_args \<Rightarrow> matmul_dram \<Rightarrow> nat \<Rightarrow> nat \<Rightarrow> nat \<Rightarrow> matmul_instr list" where
  "reader_step e a d tile j k =
     (if ma_a_resident a then [] else [Reserve In0 1, Fill In0 0 (\<lambda>_. read_a e a d tile k)]) @
     [Reserve In1 1, Fill In1 0 (\<lambda>_. read_b e a d tile j k)] @
     (if ma_a_resident a then [] else [Push In0 1]) @ [Push In1 1]"

definition reader_row :: "matmul_env \<Rightarrow> matmul_args \<Rightarrow> matmul_dram \<Rightarrow> nat \<Rightarrow> matmul_instr list" where
  "reader_row e a d tile =
     (if ma_a_resident a
      then Reserve In0 (ma_Kt a) # fills In0 0 (map (read_a e a d tile) [0..<ma_Kt a]) @ [Push In0 (ma_Kt a)] else [])"

function matmul_reader_loop :: "matmul_env \<Rightarrow> matmul_args \<Rightarrow> matmul_dram \<Rightarrow> nat \<Rightarrow> nat \<Rightarrow> matmul_instr list" where
  "matmul_reader_loop e a d tile end_tile =
     (let cols = run_cols tile end_tile (ma_Nt a) (ma_run_width a) in
      if tile < end_tile \<and> 0 < cols then
        reader_row e a d tile @
        concat (map (\<lambda>j. concat (map (reader_step e a d tile j) [0..<ma_Kt a])) [0..<cols]) @
        matmul_reader_loop e a d (tile + cols) end_tile
      else [])"
  by pat_completeness auto
termination by (relation "measure (\<lambda>(e, a, d, tile, end_tile). end_tile - tile)") auto

declare matmul_reader_loop.simps [simp del]

subsection \<open>The compute kernel\<close>

definition on_dst :: "(dst_mem \<Rightarrow> dst_mem) \<Rightarrow> matmul_store \<Rightarrow> matmul_store" where
  "on_dst f s = s\<lparr>ms_vec := (ms_vec s)\<lparr>dst := f (dst (ms_vec s))\<rparr>\<rparr>"

definition on_vec :: "(sfpu \<Rightarrow> sfpu) \<Rightarrow> matmul_store \<Rightarrow> matmul_store" where
  "on_vec f s = s\<lparr>ms_vec := f (ms_vec s)\<rparr>"

definition dst_acc :: nat where "dst_acc = 0"
definition dst_a :: nat where "dst_a = 1"
definition dst_b :: nat where "dst_b = 2"

definition compute_step :: "matmul_env \<Rightarrow> matmul_args \<Rightarrow> nat \<Rightarrow> matmul_instr list" where
  "compute_step e a k =
     (if ma_a_resident a then [] else [Await In0 1]) @
     [Await In1 1,
      Take In0 (if ma_a_resident a then k else 0) (\<lambda>p. on_dst (copy_tile p dst_a)),
      Take In1 0 (\<lambda>p. on_dst (copy_tile p dst_b)),
      Do (on_dst (me_transpose_dest e dst_a)),
      Do (on_vec (calculate_matmul_fp32 (me_mad e) (k \<noteq> 0) dst_a dst_b dst_acc)),
      Pop In1 1] @
     (if ma_a_resident a then [] else [Pop In0 1])"

definition compute_tile_prog :: "matmul_env \<Rightarrow> matmul_args \<Rightarrow> nat \<Rightarrow> matmul_instr list" where
  "compute_tile_prog e a tile =
     [Do (on_dst (\<lambda>_. me_acquired e tile))] @ concat (map (compute_step e a) [0..<ma_Kt a]) @
     [Do (on_vec (matmul_fp32_finish dst_acc dst_a dst_b)),
      Reserve Out 1, Fill Out 0 (\<lambda>s. pack_tile dst_a (dst (ms_vec s))), Push Out 1]"

function matmul_compute_loop :: "matmul_env \<Rightarrow> matmul_args \<Rightarrow> nat \<Rightarrow> nat \<Rightarrow> matmul_instr list" where
  "matmul_compute_loop e a tile end_tile =
     (let cols = run_cols tile end_tile (ma_Nt a) (ma_run_width a) in
      if tile < end_tile \<and> 0 < cols then
        (if ma_a_resident a then [Await In0 (ma_Kt a)] else []) @
        concat (map (\<lambda>j. compute_tile_prog e a (tile + j)) [0..<cols]) @
        (if ma_a_resident a then [Pop In0 (ma_Kt a)] else []) @
        matmul_compute_loop e a (tile + cols) end_tile
      else [])"
  by pat_completeness auto
termination by (relation "measure (\<lambda>(e, a, tile, end_tile). end_tile - tile)") auto

declare matmul_compute_loop.simps [simp del]

definition matmul_compute_main :: "matmul_env \<Rightarrow> matmul_args \<Rightarrow> nat \<Rightarrow> nat \<Rightarrow> matmul_instr list" where
  "matmul_compute_main e a first num = Do (on_vec init_matmul_fp32) # matmul_compute_loop e a first (w32 (first + num))"

definition matmul_reader_main :: "matmul_env \<Rightarrow> matmul_args \<Rightarrow> matmul_dram \<Rightarrow> nat \<Rightarrow> nat \<Rightarrow> matmul_instr list" where
  "matmul_reader_main e a d first num = matmul_reader_loop e a d first (w32 (first + num))"

subsection \<open>The writer\<close>

definition write_tile :: "nat \<Rightarrow> tile_words \<Rightarrow> matmul_store \<Rightarrow> matmul_store" where
  "write_tile tile p s = s\<lparr>ms_written := ms_written s @ [(tile, p)]\<rparr>"

definition matmul_writer_main :: "nat \<Rightarrow> nat \<Rightarrow> matmul_instr list" where
  "matmul_writer_main first num =
     concat (map (\<lambda>tile. [Await Out 1, Take Out 0 (write_tile tile), Pop Out 1]) [first..<w32 (first + num)])"

definition matmul_progs ::
  "matmul_env \<Rightarrow> matmul_args \<Rightarrow> matmul_dram \<Rightarrow> nat \<Rightarrow> nat \<Rightarrow> nat \<Rightarrow> matmul_instr list" where
  "matmul_progs e a d first num k =
     (if k = 0 then matmul_reader_main e a d first num
      else if k = 1 then matmul_compute_main e a first num
      else if k = 2 then matmul_writer_main first num else [])"

end
