(* ===== verification/TileMultiplier.thy ===== *)
theory TileMultiplier
  imports MatmulFp32
begin

text \<open>
  What the compute kernel relies on: a unit that multiplies one pair of tiles into an
  accumulator of an order of its own and finishes it as an ordinary tile. The kernel's sums are
  proved from that contract, which the vector unit's program meets.
\<close>

section \<open>The contract\<close>

text \<open>
  The unit's state may change between the products as long as the accumulator's tile stays as
  it is. \<open>holds s t C\<close>: the accumulator in tile \<open>t\<close> stands for the matrix \<open>C\<close>.
\<close>

locale tile_multiplier =
  fixes multiply :: "bool \<Rightarrow> nat \<Rightarrow> nat \<Rightarrow> nat \<Rightarrow> 's \<Rightarrow> 's"
    and finish :: "nat \<Rightarrow> nat \<Rightarrow> nat \<Rightarrow> 's \<Rightarrow> 's"
    and elem :: "'s \<Rightarrow> nat \<Rightarrow> nat \<Rightarrow> nat \<Rightarrow> u32"
    and ready :: "'s \<Rightarrow> bool"
    and holds :: "'s \<Rightarrow> nat \<Rightarrow> (nat \<Rightarrow> nat \<Rightarrow> u32) \<Rightarrow> bool"
    and mad :: "u32 \<Rightarrow> u32 \<Rightarrow> u32 \<Rightarrow> u32"
  assumes product: "ready s \<Longrightarrow> ta \<noteq> t \<Longrightarrow> tb \<noteq> t \<Longrightarrow> (acc \<Longrightarrow> holds s t C) \<Longrightarrow>
      ready (multiply acc ta tb t s) \<and>
      holds (multiply acc ta tb t s) t (\<lambda>r c. mad_row mad (\<lambda>k. elem s ta k r) (\<lambda>k. elem s tb k c) 32 (if acc then C r c else 0))"
    and finished: "holds s t C \<Longrightarrow> t \<noteq> out \<Longrightarrow> tm \<noteq> out \<Longrightarrow> t \<noteq> tm \<Longrightarrow> r < 32 \<Longrightarrow> c < 32 \<Longrightarrow>
      elem (finish t out tm s) out r c = C r c"
    and finish_ready: "ready s \<Longrightarrow> ready (finish t out tm s)"
    and kept: "holds s t C \<Longrightarrow> (\<And>r c. r < 32 \<Longrightarrow> c < 32 \<Longrightarrow> elem s' t r c = elem s t r c) \<Longrightarrow> holds s' t C"
    and same: "holds s t C \<Longrightarrow> (\<And>r c. r < 32 \<Longrightarrow> c < 32 \<Longrightarrow> C r c = D r c) \<Longrightarrow> holds s t D"
begin

text \<open>Products of \<open>n\<close> pairs of tiles, the first of which sets the accumulator.\<close>

lemma products:
  assumes step: "\<And>k s. k < n \<Longrightarrow> ready s \<Longrightarrow> ready (prepare k s) \<and>
      (\<forall>r < 32. \<forall>c < 32. elem (prepare k s) 1 c r = A k r c \<and> elem (prepare k s) 2 r c = B k r c \<and> elem (prepare k s) 0 r c = elem s 0 r c)"
    and "ready s"
  defines "sums \<equiv> foldl (\<lambda>s k. multiply (k \<noteq> 0) 1 2 0 (prepare k s)) s"
  shows "m \<le> n \<Longrightarrow> ready (sums [0..<m]) \<and> (0 < m \<longrightarrow> holds (sums [0..<m]) 0
    (\<lambda>r c. mad_row mad (\<lambda>k. A (k div 32) r (k mod 32)) (\<lambda>k. B (k div 32) (k mod 32) c) (32 * m) 0))"
proof (induction m)
  case 0
  then show ?case using assms(2) by (simp add: sums_def)
next
  case (Suc m)
  let ?s = "sums [0..<m]" and ?p = "prepare m (sums [0..<m])"
  let ?C = "\<lambda>r c. mad_row mad (\<lambda>k. A (k div 32) r (k mod 32)) (\<lambda>k. B (k div 32) (k mod 32) c) (32 * m) 0"
  have ready: "ready ?s" and m: "m < n" using Suc by simp_all
  note prep = step [OF m ready]
  have acc: "holds ?p 0 ?C" if "m \<noteq> 0"
    by (rule kept [of ?s]) (use Suc that prep in auto)
  have next_s: "sums [0..<Suc m] = multiply (m \<noteq> 0) 1 2 0 ?p" by (simp add: sums_def)
  have ready_p: "ready ?p" using prep by blast
  have tiles: "(1 :: nat) \<noteq> 0" "(2 :: nat) \<noteq> 0" by simp_all
  from product [where acc = "m \<noteq> 0" and C = ?C, OF ready_p tiles acc]
  have r: "ready (sums [0..<Suc m])" and h: "holds (sums [0..<Suc m]) 0
      (\<lambda>r c. mad_row mad (\<lambda>k. elem ?p 1 k r) (\<lambda>k. elem ?p 2 k c) 32 (if m \<noteq> 0 then ?C r c else 0))"
    unfolding next_s by blast+
  have "holds (sums [0..<Suc m]) 0 (\<lambda>r c. mad_row mad (\<lambda>k. A (k div 32) r (k mod 32)) (\<lambda>k. B (k div 32) (k mod 32) c) (32 * Suc m) 0)"
  proof (rule same [OF h])
    fix r c :: nat assume rc: "r < 32" "c < 32"
    define x0 where "x0 = ?C r c"
    have start: "(if m \<noteq> 0 then ?C r c else 0) = x0" by (simp add: mad_row_def x0_def)
    have "mad_row mad (\<lambda>k. elem ?p 1 k r) (\<lambda>k. elem ?p 2 k c) 32 x0 = mad_row mad (\<lambda>k. A m r k) (\<lambda>k. B m k c) 32 x0"
      unfolding mad_row_def by (rule foldl_cong) (use prep rc in auto)
    also have "mad_row mad (\<lambda>k. A m r k) (\<lambda>k. B m k c) 32 x0 =
        foldl (\<lambda>x k. mad (B (k div 32) (k mod 32) c) (A (k div 32) r (k mod 32)) x) x0 (map (\<lambda>k. k + 32 * m) [0..<32])"
      unfolding mad_row_def foldl_map by (rule foldl_cong) simp_all
    also have "map (\<lambda>k. k + 32 * m) [0..<32] = [32 * m..<32 * Suc m]" by (simp add: map_add_upt add.commute)
    finally have sum: "mad_row mad (\<lambda>k. elem ?p 1 k r) (\<lambda>k. elem ?p 2 k c) 32 x0 =
        foldl (\<lambda>x k. mad (B (k div 32) (k mod 32) c) (A (k div 32) r (k mod 32)) x) x0 [32 * m..<32 * Suc m]" .
    show "mad_row mad (\<lambda>k. elem ?p 1 k r) (\<lambda>k. elem ?p 2 k c) 32 (if m \<noteq> 0 then ?C r c else 0) =
        mad_row mad (\<lambda>k. A (k div 32) r (k mod 32)) (\<lambda>k. B (k div 32) (k mod 32) c) (32 * Suc m) 0"
    proof -
      have "[0..<32 * m + 32] = [0..<32 * m] @ [32 * m..<32 * m + 32]" by (rule upt_add_eq_append) simp
      then have "[0..<32 * Suc m] = [0..<32 * m] @ [32 * m..<32 * Suc m]" by (simp only: mult_Suc_right add.commute)
      then have "mad_row mad (\<lambda>k. A (k div 32) r (k mod 32)) (\<lambda>k. B (k div 32) (k mod 32) c) (32 * Suc m) 0 =
          foldl (\<lambda>x k. mad (B (k div 32) (k mod 32) c) (A (k div 32) r (k mod 32)) x) x0 [32 * m..<32 * Suc m]"
        by (simp only: mad_row_def x0_def foldl_append)
      then show ?thesis using sum unfolding start by simp
    qed
  qed
  with r show ?case by simp
qed

end

section \<open>The vector unit meets it\<close>

lemma even_slot_element:
  assumes "even a" "a < 64"
  shows "\<exists>r < 32. \<exists>c < 32. slot_addr r c = a"
proof -
  have a: "a = 16 * (a div 16) + 4 * (a mod 16 div 4) + 2 * (a mod 4 div 2)"
  proof -
    have "a mod 4 = 2 * (a mod 4 div 2)" using assms(1) by (simp add: dvd_mod)
    moreover have "a mod 16 = 4 * (a mod 16 div 4) + a mod 4" using mod_mult2_eq [of a 4 4] by simp
    ultimately show ?thesis using div_mult_mod_eq [of a 16] by (metis add.assoc mult.commute)
  qed
  have "\<exists>r < 32. \<exists>c < 32. slot_addr r c = 16 * f + 4 * q + 2 * e" if "f < 4" "q < 4" "e < 2" for f q e :: nat
  proof (intro exI conjI)
    have f: "f div 2 < 2" "f mod 2 < 2" using that(1) by (simp_all add: less_mult_imp_div_less)
    then show "16 * (f div 2) + 4 * q < 32" "16 * (f mod 2) + e < 32" using that(2,3) by auto
    have "f \<in> {0, 1, 2, 3}" "q \<in> {0, 1, 2, 3}" "e \<in> {0, 1}" using that by auto
    then show "slot_addr (16 * (f div 2) + 4 * q) (16 * (f mod 2) + e) = 16 * f + 4 * q + 2 * e"
      by (elim insertE emptyE) (simp_all add: slot_addr_def)
  qed
  moreover have "a div 16 < 4" "a mod 16 div 4 < 4" "a mod 4 div 2 < 2" using assms(2) by (simp_all add: less_mult_imp_div_less)
  ultimately show ?thesis using a by metis
qed

lemma skewed_elements:
  assumes "skewed d t C" "\<And>r c. r < 32 \<Longrightarrow> c < 32 \<Longrightarrow> tile_at d' t r c = tile_at d t r c"
  shows "skewed d' t C"
proof -
  have "load_vec d' (tile_rows * t + acc_addr g n) l = load_vec d (tile_rows * t + acc_addr g n) l" if "g < 4" "n < 8" "l < 32" for g n l
  proof -
    have "acc_addr g n < 64" by (rule acc_addr_less [OF that(1,2)])
    then obtain r c where rc: "r < 32" "c < 32" "slot_addr r c = acc_addr g n" using even_slot_element [of "acc_addr g n"] by auto
    have "4 * (r div 4) + l div 8 < 32" "16 * (c div 16) + 2 * (l mod 8) + c mod 2 < 32"
    proof -
      have "r div 4 < 8" "l div 8 < 4" "c div 16 < 2" "c mod 2 < 2" "l mod 8 < 8" using rc(1,2) that(3) by (simp_all add: less_mult_imp_div_less)
      then show "4 * (r div 4) + l div 8 < 32" "16 * (c div 16) + 2 * (l mod 8) + c mod 2 < 32" by linarith+
    qed
    then show ?thesis using load_slot [OF rc(2) that(3), of d' t r] load_slot [OF rc(2) that(3), of d t r] assms(2) by (simp add: rc(3))
  qed
  with assms(1) show ?thesis unfolding skewed_def by simp
qed

text \<open>The finish leaves the macros as they were configured.\<close>

definition macros :: "sfpu \<Rightarrow> (nat \<Rightarrow> nat \<times> nat) \<times> (nat \<Rightarrow> nat)" where
  "macros s = (template s, sequence s)"

lemma macros_steps [simp]:
  "macros (sfpload reg addr s) = macros s" "macros (sfpstore reg addr s) = macros s" "macros (set_reg reg v s) = macros s"
  "macros (sfpmov i reg s) = macros s" "macros (sfptransp s) = macros s" "macros (clear_dst_reg_addr s) = macros s"
  "macros (vec_and i reg s) = macros s" "macros (vec_or i reg s) = macros s" "macros (vec_xor i reg s) = macros s"
  "macros (vec_not reg s) = macros s" "macros (lane_column_mask column s) = macros s"
  by (simp_all add: macros_def sfpload_def sfpstore_def set_reg_def sfpmov_def sfptransp_def clear_dst_reg_addr_def
      vec_and_def vec_or_def vec_xor_def vec_not_def lane_column_mask_def)

lemma macros_foldl: "(\<And>s x. macros (f s x) = macros s) \<Longrightarrow> macros (foldl f s xs) = macros s"
  by (induction xs arbitrary: s) simp_all

lemma macros_finish: "macros (matmul_fp32_finish t out tm s) = macros s"
  by (simp add: matmul_fp32_finish_def store_masks_def finish_rows_def merge_rows_def gather_lanes_def macros_foldl Let_def)

lemma mad_ready_macros: "macros s' = macros s \<Longrightarrow> mad_ready s' = mad_ready s"
  by (simp add: macros_def mad_ready_def)

interpretation vector_unit: tile_multiplier "calculate_matmul_fp32 mad" matmul_fp32_finish "\<lambda>s. tile_at (dst s)" mad_ready
    "\<lambda>s. skewed (dst s)" mad for mad
proof unfold_locales
  fix s :: sfpu and ta t tb acc C
  assume s: "mad_ready s" "ta \<noteq> t" "tb \<noteq> t" "acc \<Longrightarrow> skewed (dst s) t C"
  from calculate_matmul_effect [where mad = mad, OF s]
  show "mad_ready (calculate_matmul_fp32 mad acc ta tb t s) \<and>
      skewed (dst (calculate_matmul_fp32 mad acc ta tb t s)) t
       (\<lambda>r c. mad_row mad (\<lambda>k. tile_at (dst s) ta k r) (\<lambda>k. tile_at (dst s) tb k c) 32 (if acc then C r c else 0))"
    by simp
next
  fix s :: sfpu and t C out tm and r c :: nat
  assume "skewed (dst s) t C" "t \<noteq> out" "tm \<noteq> out" "t \<noteq> tm" "r < 32" "c < (32 :: nat)"
  then show "tile_at (dst (matmul_fp32_finish t out tm s)) out r c = C r c" by (rule matmul_finish_effect(1))
next
  fix s :: sfpu and t out tm
  assume "mad_ready s"
  then show "mad_ready (matmul_fp32_finish t out tm s)" using mad_ready_macros [OF macros_finish] by blast
next
  fix s :: sfpu and t C and s' :: sfpu
  assume "skewed (dst s) t C" "\<And>r c. r < 32 \<Longrightarrow> c < 32 \<Longrightarrow> tile_at (dst s') t r c = tile_at (dst s) t r c"
  then show "skewed (dst s') t C" by (rule skewed_elements)
next
  fix s :: sfpu and t C D
  assume h: "skewed (dst s) t C" and eq: "\<And>r c. r < 32 \<Longrightarrow> c < 32 \<Longrightarrow> C r c = D r c"
  have "col h j < 32" if "h < 4" "j < 8" for h j
  proof -
    have "h div 2 < 2" "h mod 2 < 2" using that(1) by (simp_all add: less_mult_imp_div_less)
    then show ?thesis using that(2) unfolding col_def by linarith
  qed
  then show "skewed (dst s) t D" using h eq unfolding skewed_def by (simp add: less_mult_imp_div_less)
qed

section \<open>Two tiles\<close>

text \<open>
  C27: The vector unit's FP32 matrix multiply of two tiles: configured by its init, started
  without accumulation and finished, it leaves in the output tile, at every row and column, the
  multiply-adds of A's row and B's column in the order of \<open>k\<close>, from zero, whatever the
  registers and Dst held, with LREG11 back at -1 after the product; a second product
  accumulates on the first.
\<close>

theorem tile_product:
  assumes "ta \<noteq> acc" "tb \<noteq> acc" "acc \<noteq> out" "scratch \<noteq> out" "acc \<noteq> scratch" and "r < 32" "c < 32"
  shows "let first = calculate_matmul_fp32 mad False ta tb acc (init_matmul_fp32 s);
      second = calculate_matmul_fp32 mad True ta tb acc first;
      row = \<lambda>k. tile_at (dst s) ta k r; column = \<lambda>k. tile_at (dst s) tb k c in
    tile_at (dst (matmul_fp32_finish acc out scratch first)) out r c = mad_row mad row column 32 0 \<and>
    tile_at (dst (matmul_fp32_finish acc out scratch second)) out r c = mad_row mad row column 32 (mad_row mad row column 32 0) \<and>
    lreg first 11 = (\<lambda>_. 0xbf800000)"
proof -
  let ?s = "init_matmul_fp32 s" and ?first = "calculate_matmul_fp32 mad False ta tb acc (init_matmul_fp32 s)"
  let ?C = "\<lambda>r c. mad_row mad (\<lambda>k. tile_at (dst s) ta k r) (\<lambda>k. tile_at (dst s) tb k c) 32 0"
  have dst: "dst ?s = dst s" by (simp add: init_matmul_fp32_def)
  from calculate_matmul_effect [where mad = mad and accumulate = False and s = ?s, OF init_ready assms(1,2)]
  have first: "mad_ready ?first" "lreg ?first 11 = (\<lambda>_. 0xbf800000)" "skewed (dst ?first) acc ?C"
    "\<And>t' r c. t' \<noteq> acc \<Longrightarrow> r < 32 \<Longrightarrow> c < 32 \<Longrightarrow> tile_at (dst ?first) t' r c = tile_at (dst s) t' r c"
    by (auto simp: dst)
  note second = vector_unit.product [where mad = mad and acc = True, OF first(1) assms(1,2) first(3), THEN conjunct2]
  have "mad_row mad (\<lambda>k. tile_at (dst ?first) ta k r) (\<lambda>k. tile_at (dst ?first) tb k c) 32 x =
      mad_row mad (\<lambda>k. tile_at (dst s) ta k r) (\<lambda>k. tile_at (dst s) tb k c) 32 x" for x
    unfolding mad_row_def by (rule foldl_cong) (use first(4) assms in auto)
  with vector_unit.finished [OF first(3) assms(3-7)] vector_unit.finished [OF second assms(3-7)] first(2)
  show ?thesis by (simp add: Let_def)
qed

lemma tile_product_witness:
  "\<exists>out. tile_at (dst out) 1 3 4 = 320 \<and>
    out = matmul_fp32_finish 0 1 2 (calculate_matmul_fp32 (\<lambda>b a x. b * a + x) False 1 2 0
      (init_matmul_fp32 \<lparr>lreg = \<lambda>_ _. 9, dst = \<lambda>row col. if row div 64 = 1 then 2 else 5, counter = 3, template = \<lambda>_. (0, 0), sequence = \<lambda>_. 0\<rparr>))"
proof -
  have at: "tile_at (\<lambda>row col. if row div 64 = 1 then 2 else 5) t r c = (if t = 1 then 2 else 5)" if "r < 32" "c < 32" for t r c
  proof -
    have "(64 * t + (16 * (2 * (r div 16) + c div 16) + r mod 16)) div 64 = t"
      using index_div [OF element_word(1) [OF that], of t] by (simp add: mult.commute)
    then show ?thesis by (simp only: tile_at_def tile_rows_def add.assoc)
  qed
  have "mad_row (\<lambda>b a x. b * a + x) (\<lambda>_. 2) (\<lambda>_. 5) 32 0 = 320"
    by (simp add: mad_row_def upt_conv_Cons)
  moreover have "mad_row (\<lambda>b a x. b * a + x) (\<lambda>k. tile_at (\<lambda>row col. if row div 64 = 1 then 2 else 5) 1 k 3)
      (\<lambda>k. tile_at (\<lambda>row col. if row div 64 = 1 then 2 else 5) 2 k 4) 32 0 = mad_row (\<lambda>b a x. b * a + x) (\<lambda>_. 2) (\<lambda>_. 5) 32 (0 :: u32)"
    unfolding mad_row_def by (rule foldl_cong) (simp_all add: at [simplified])
  ultimately show ?thesis
    using tile_product [of 1 0 2 1 2 3 4 "\<lambda>b a x. b * a + x"
        "\<lparr>lreg = \<lambda>_ _. 9, dst = \<lambda>row col. if row div 64 = 1 then 2 else 5, counter = 3, template = \<lambda>_. (0, 0), sequence = \<lambda>_. 0\<rparr>"]
    by (simp add: Let_def)
qed

end
