(* ===== verification/MatmulFp32Run.thy ===== *)
theory MatmulFp32Run
  imports TileMultiplier
begin

text \<open>
  The kernels of matmul_fp32 proved: the steps of reader, compute kernel and writer on their
  buffers, one pair of tiles, one output tile, one run and one core at a time, give a complete
  schedule; with it every run of a core ends with the same tiles, whose elements are sums of
  fused multiply-adds in the order of the contraction.
\<close>

section \<open>One pair of tiles\<close>

definition matmul_ring_size :: "nat \<Rightarrow> matmul_dfb \<Rightarrow> nat" where
  "matmul_ring_size in0_entries x = (case x of In0 \<Rightarrow> in0_entries | In1 \<Rightarrow> 2 | Out \<Rightarrow> 2)"

definition drained :: "(matmul_dfb \<Rightarrow> nat) \<Rightarrow> (matmul_dfb \<Rightarrow> tile_words ring) \<Rightarrow> matmul_dfb \<Rightarrow> bool" where
  "drained N r x \<longleftrightarrow> (\<exists>q. dfb_at N r x q [] [] 0 0)"

text \<open>During a run: in0 holds the row, or nothing when the row is streamed.\<close>

definition row_at ::
  "matmul_env \<Rightarrow> matmul_args \<Rightarrow> matmul_dram \<Rightarrow> nat \<Rightarrow> (matmul_dfb \<Rightarrow> nat) \<Rightarrow> (matmul_dfb \<Rightarrow> tile_words ring) \<Rightarrow> bool" where
  "row_at e a d tile N r \<longleftrightarrow>
     (if ma_a_resident a
      then \<exists>q. dfb_at N r In0 q (map (read_a e a d tile) [0..<ma_Kt a]) [] 0 (ma_Kt a) \<and> ma_Kt a dvd q \<and> q mod N In0 + ma_Kt a \<le> N In0
      else drained N r In0)"

definition prepare :: "matmul_env \<Rightarrow> (nat \<Rightarrow> tile_words) \<Rightarrow> (nat \<Rightarrow> tile_words) \<Rightarrow> nat \<Rightarrow> sfpu \<Rightarrow> sfpu" where
  "prepare e A B k v = v\<lparr>dst := me_transpose_dest e 1 (copy_tile (B k) 2 (copy_tile (A k) 1 (dst v)))\<rparr>"

definition multiply_step :: "matmul_env \<Rightarrow> (nat \<Rightarrow> tile_words) \<Rightarrow> (nat \<Rightarrow> tile_words) \<Rightarrow> nat \<Rightarrow> sfpu \<Rightarrow> sfpu" where
  "multiply_step e A B k v = calculate_matmul_fp32 (me_mad e) (k \<noteq> 0) 1 2 0 (prepare e A B k v)"

lemma on_steps [simp]:
  "on_dst f s = s\<lparr>ms_vec := (ms_vec s)\<lparr>dst := f (dst (ms_vec s))\<rparr>\<rparr>" "on_vec g s = s\<lparr>ms_vec := g (ms_vec s)\<rparr>"
  by (simp_all add: on_dst_def on_vec_def)

lemma other_ring: "only_ring x r r' \<Longrightarrow> y \<noteq> x \<Longrightarrow> r' y = r y"
  by (simp add: only_ring_def)

lemma drained_other: "r' x = r x \<Longrightarrow> drained N r' x = drained N r x"
  by (simp add: drained_def dfb_at_def)

lemma row_at_other: "r' In0 = r In0 \<Longrightarrow> row_at e a d tile N r' = row_at e a d tile N r"
  by (simp add: row_at_def drained_def dfb_at_def)

text \<open>One entry through an empty buffer.\<close>

lemma exec_pass:
  assumes "drained N r x" "0 < N x"
  shows "\<exists>r1 q. exec_list N [Reserve x 1, Fill x 0 f, Push x 1] (r, l) = Some (r1, l) \<and> dfb_at N r1 x q [f l] [] 0 0 \<and> only_ring x r r1"
proof -
  from assms(1) obtain q where q: "dfb_at N r x q [] [] 0 0" by (auto simp: drained_def)
  from exec_reserve [OF q, of 1 l] assms(2) obtain r1 where
    r1: "exec N (Reserve x 1) (r, l) = Some (r1, l)" "dfb_at N r1 x q [] [] 1 0" "only_ring x r r1" by auto
  from exec_fill [where f = f and l = l, OF r1(2) refl] assms(2) obtain r2 where
    r2: "exec N (Fill x 0 f) (r1, l) = Some (r2, l)" "dfb_at N r2 x q [] [f l] 1 0" "only_ring x r1 r2" by auto
  from exec_push [OF r2(2) refl, of l] obtain r3 where
    r3: "exec N (Push x 1) (r2, l) = Some (r3, l)" "dfb_at N r3 x q [f l] [] 0 0" "only_ring x r2 r3" by auto
  show ?thesis using r1(1) r2(1) r3(1,2) only_ring_trans [OF r1(3) only_ring_trans [OF r2(3) r3(3)]] by auto
qed

lemma exec_pair_pass:
  assumes "drained N r x" "0 < N x" "drained N r y" "0 < N y" "x \<noteq> y"
  shows "\<exists>r1 q q'. exec_list N [Reserve x 1, Fill x 0 (\<lambda>_. v), Reserve y 1, Fill y 0 (\<lambda>_. w), Push x 1, Push y 1] (r, l) = Some (r1, l) \<and>
    dfb_at N r1 x q [v] [] 0 0 \<and> dfb_at N r1 y q' [w] [] 0 0 \<and> (\<forall>z. z \<noteq> x \<longrightarrow> z \<noteq> y \<longrightarrow> r1 z = r z)"
proof -
  from assms(1,3) obtain q q' where q: "dfb_at N r x q [] [] 0 0" "dfb_at N r y q' [] [] 0 0" by (auto simp: drained_def)
  from exec_reserve [OF q(1), of 1 l] assms(2) obtain r1 where
    r1: "exec N (Reserve x 1) (r, l) = Some (r1, l)" "dfb_at N r1 x q [] [] 1 0" "only_ring x r r1" by auto
  from exec_fill [where f = "\<lambda>_. v" and l = l, OF r1(2) refl] assms(2) obtain r2 where
    r2: "exec N (Fill x 0 (\<lambda>_. v)) (r1, l) = Some (r2, l)" "dfb_at N r2 x q [] [v] 1 0" "only_ring x r1 r2" by auto
  note o2 = only_ring_trans [OF r1(3) r2(3)]
  have "dfb_at N r2 y q' [] [] 0 0" using dfb_at_only [OF o2 assms(5) [symmetric]] q(2) by simp
  from exec_reserve [OF this, of 1 l] assms(4) obtain r3 where
    r3: "exec N (Reserve y 1) (r2, l) = Some (r3, l)" "dfb_at N r3 y q' [] [] 1 0" "only_ring y r2 r3" by auto
  from exec_fill [where f = "\<lambda>_. w" and l = l, OF r3(2) refl] assms(4) obtain r4 where
    r4: "exec N (Fill y 0 (\<lambda>_. w)) (r3, l) = Some (r4, l)" "dfb_at N r4 y q' [] [w] 1 0" "only_ring y r3 r4" by auto
  note o4 = only_ring_trans [OF r3(3) r4(3)]
  have "dfb_at N r4 x q [] [v] 1 0" using dfb_at_only [OF o4 assms(5)] r2(2) by simp
  from exec_push [OF this refl, of l] obtain r5 where
    r5: "exec N (Push x 1) (r4, l) = Some (r5, l)" "dfb_at N r5 x q [v] [] 0 0" "only_ring x r4 r5" by auto
  have "dfb_at N r5 y q' [] [w] 1 0" using dfb_at_only [OF r5(3) assms(5) [symmetric]] r4(2) by simp
  from exec_push [OF this refl, of l] obtain r6 where
    r6: "exec N (Push y 1) (r5, l) = Some (r6, l)" "dfb_at N r6 y q' [w] [] 0 0" "only_ring y r5 r6" by auto
  have "dfb_at N r6 x q [v] [] 0 0" using dfb_at_only [OF r6(3) assms(5)] r5(2) by simp
  moreover have "\<forall>z. z \<noteq> x \<longrightarrow> z \<noteq> y \<longrightarrow> r6 z = r z" using o2 o4 r5(3) r6(3) by (simp add: only_ring_def)
  ultimately show ?thesis using r1(1) r2(1) r3(1) r4(1) r5(1) r6(1,2) by auto
qed

text \<open>The reader's step and the compute kernel's, from between two pairs to between two pairs.\<close>

lemma exec_reader_step:
  assumes "row_at e a d tile N r" "drained N r In1" "0 < N In0" "0 < N In1"
  shows "\<exists>r1. exec_list N (reader_step e a d tile j k) (r, l) = Some (r1, l) \<and> r1 Out = r Out \<and>
    (\<exists>q. dfb_at N r1 In1 q [read_b e a d tile j k] [] 0 0) \<and>
    (if ma_a_resident a then r1 In0 = r In0 else \<exists>q. dfb_at N r1 In0 q [read_a e a d tile k] [] 0 0)"
proof (cases "ma_a_resident a")
  case True
  from exec_pass [OF assms(2,4), of "\<lambda>_. read_b e a d tile j k" l] obtain r1 q where
    "exec_list N [Reserve In1 1, Fill In1 0 (\<lambda>_. read_b e a d tile j k), Push In1 1] (r, l) = Some (r1, l)"
    "dfb_at N r1 In1 q [read_b e a d tile j k] [] 0 0" "only_ring In1 r r1" by blast
  with True show ?thesis by (intro exI [of _ r1]) (auto simp: reader_step_def other_ring)
next
  case False
  with assms(1) have "drained N r In0" by (simp add: row_at_def)
  from exec_pair_pass [OF this assms(3,2,4), of "read_a e a d tile k" "read_b e a d tile j k" l] obtain r1 q q' where
    "exec_list N [Reserve In0 1, Fill In0 0 (\<lambda>_. read_a e a d tile k), Reserve In1 1, Fill In1 0 (\<lambda>_. read_b e a d tile j k),
        Push In0 1, Push In1 1] (r, l) = Some (r1, l)"
    "dfb_at N r1 In0 q [read_a e a d tile k] [] 0 0" "dfb_at N r1 In1 q' [read_b e a d tile j k] [] 0 0"
    "\<forall>z. z \<noteq> In0 \<longrightarrow> z \<noteq> In1 \<longrightarrow> r1 z = r z" by auto
  with False show ?thesis by (intro exI [of _ r1]) (auto simp: reader_step_def)
qed

lemma exec_tile_products:
  assumes "exec N (Take In0 i (\<lambda>p. on_dst (copy_tile p dst_a))) (r, s) = Some (r, on_dst (copy_tile (A k) dst_a) s)"
    and "dfb_at N r In1 q [B k] [] 0 1" "0 < N In1"
  shows "\<exists>r'. exec_list N
      [Take In0 i (\<lambda>p. on_dst (copy_tile p dst_a)), Take In1 0 (\<lambda>p. on_dst (copy_tile p dst_b)), Do (on_dst (me_transpose_dest e dst_a)),
       Do (on_vec (calculate_matmul_fp32 (me_mad e) (k \<noteq> 0) dst_a dst_b dst_acc)), Pop In1 1] (r, s) =
      Some (r', s\<lparr>ms_vec := multiply_step e A B k (ms_vec s)\<rparr>) \<and> drained N r' In1 \<and> only_ring In1 r r'"
proof -
  let ?s = "s\<lparr>ms_vec := multiply_step e A B k (ms_vec s)\<rparr>"
  have "q mod N In1 + 0 < N In1" using assms(3) by simp
  from exec_take [OF assms(2) _ _ this, of "\<lambda>p. on_dst (copy_tile p dst_b)"]
  have take: "exec N (Take In1 0 (\<lambda>p. on_dst (copy_tile p dst_b))) (r, s') = Some (r, on_dst (copy_tile (B k) dst_b) s')" for s'
    by (simp del: on_steps)
  from exec_pop [OF assms(2), of 1 ?s] obtain r' where
    r': "exec N (Pop In1 1) (r, ?s) = Some (r', ?s)" "dfb_at N r' In1 (q + 1) [] [] 0 0" "only_ring In1 r r'" by auto
  have "on_vec (calculate_matmul_fp32 (me_mad e) (k \<noteq> 0) dst_a dst_b dst_acc)
      (on_dst (me_transpose_dest e dst_a) (on_dst (copy_tile (B k) dst_b) (on_dst (copy_tile (A k) dst_a) s))) = ?s"
    by (simp add: multiply_step_def prepare_def dst_a_def dst_b_def dst_acc_def)
  note steps = this
  have "exec_list N [Take In0 i (\<lambda>p. on_dst (copy_tile p dst_a)), Take In1 0 (\<lambda>p. on_dst (copy_tile p dst_b)),
      Do (on_dst (me_transpose_dest e dst_a)), Do (on_vec (calculate_matmul_fp32 (me_mad e) (k \<noteq> 0) dst_a dst_b dst_acc)), Pop In1 1] (r, s) =
      Some (r', ?s)"
    unfolding exec_list.simps assms(1) option.case take exec_do steps r'(1) ..
  then show ?thesis using r'(2,3) by (auto simp: drained_def)
qed

lemma exec_compute_step:
  assumes row: "row_at e a d tile N r" and k: "k < ma_Kt a" and N: "0 < N In0" "0 < N In1"
    and b: "dfb_at N r1 In1 q [B] [] 0 0" and B: "B = read_b e a d tile j k"
    and in0: "if ma_a_resident a then r1 In0 = r In0 else \<exists>q. dfb_at N r1 In0 q [read_a e a d tile k] [] 0 0"
  shows "\<exists>r2. exec_list N (compute_step e a k) (r1, s) =
      Some (r2, s\<lparr>ms_vec := multiply_step e (read_a e a d tile) (read_b e a d tile j) k (ms_vec s)\<rparr>) \<and>
    r2 Out = r1 Out \<and> drained N r2 In1 \<and> row_at e a d tile N r2"
proof -
  let ?A = "read_a e a d tile" and ?B = "read_b e a d tile j"
  let ?s = "s\<lparr>ms_vec := multiply_step e ?A ?B k (ms_vec s)\<rparr>"
  show ?thesis
  proof (cases "ma_a_resident a")
    case True
    with row obtain q0 where q0: "dfb_at N r In0 q0 (map ?A [0..<ma_Kt a]) [] 0 (ma_Kt a)" "q0 mod N In0 + ma_Kt a \<le> N In0"
      by (auto simp: row_at_def)
    from exec_await [OF b, of 1 s] obtain r3 where
      r3: "exec N (Await In1 1) (r1, s) = Some (r3, s)" "dfb_at N r3 In1 q [B] [] 0 1" "only_ring In1 r1 r3" by auto
    have same: "r3 In0 = r In0" using other_ring [OF r3(3)] in0 True by simp
    then have "dfb_at N r3 In0 q0 (map ?A [0..<ma_Kt a]) [] 0 (ma_Kt a)" using q0(1) by (simp add: dfb_at_def)
    from exec_take [OF this k, of "\<lambda>p. on_dst (copy_tile p dst_a)" s] k q0(2)
    have "exec N (Take In0 k (\<lambda>p. on_dst (copy_tile p dst_a))) (r3, s) = Some (r3, on_dst (copy_tile (?A k) dst_a) s)"
      by (simp del: on_steps)
    from exec_tile_products [where A = ?A and B = ?B and k = k and e = e, OF this _ N(2), of q] r3(2) B obtain r4 where
      r4: "exec_list N [Take In0 k (\<lambda>p. on_dst (copy_tile p dst_a)), Take In1 0 (\<lambda>p. on_dst (copy_tile p dst_b)),
          Do (on_dst (me_transpose_dest e dst_a)), Do (on_vec (calculate_matmul_fp32 (me_mad e) (k \<noteq> 0) dst_a dst_b dst_acc)), Pop In1 1] (r3, s) =
          Some (r4, ?s)" "drained N r4 In1" "only_ring In1 r3 r4" by blast
    have "exec_list N (compute_step e a k) (r1, s) = Some (r4, ?s)"
      using True r3(1) r4(1) by (simp del: on_steps add: compute_step_def)
    moreover have "r4 Out = r1 Out" using other_ring [OF r3(3)] other_ring [OF r4(3)] by simp
    moreover have "row_at e a d tile N r4" using row row_at_other [of r4 r e a d tile N] other_ring [OF r4(3)] same by simp
    ultimately show ?thesis using r4(2) by blast
  next
    case False
    with in0 obtain q0 where q0: "dfb_at N r1 In0 q0 [?A k] [] 0 0" by auto
    from exec_await [OF q0, of 1 s] obtain r2 where
      r2: "exec N (Await In0 1) (r1, s) = Some (r2, s)" "dfb_at N r2 In0 q0 [?A k] [] 0 1" "only_ring In0 r1 r2" by auto
    have "dfb_at N r2 In1 q [B] [] 0 0" using b dfb_at_only [OF r2(3), of In1] by simp
    from exec_await [OF this, of 1 s] obtain r3 where
      r3: "exec N (Await In1 1) (r2, s) = Some (r3, s)" "dfb_at N r3 In1 q [B] [] 0 1" "only_ring In1 r2 r3" by auto
    have at: "dfb_at N r3 In0 q0 [?A k] [] 0 1" using r2(2) dfb_at_only [OF r3(3), of In0] by simp
    have "q0 mod N In0 + 0 < N In0" using N(1) by simp
    from exec_take [OF at _ _ this, of "\<lambda>p. on_dst (copy_tile p dst_a)" s]
    have "exec N (Take In0 0 (\<lambda>p. on_dst (copy_tile p dst_a))) (r3, s) = Some (r3, on_dst (copy_tile (?A k) dst_a) s)"
      by (simp del: on_steps)
    from exec_tile_products [where A = ?A and B = ?B and k = k and e = e, OF this _ N(2), of q] r3(2) B obtain r4 where
      r4: "exec_list N [Take In0 0 (\<lambda>p. on_dst (copy_tile p dst_a)), Take In1 0 (\<lambda>p. on_dst (copy_tile p dst_b)),
          Do (on_dst (me_transpose_dest e dst_a)), Do (on_vec (calculate_matmul_fp32 (me_mad e) (k \<noteq> 0) dst_a dst_b dst_acc)), Pop In1 1] (r3, s) =
          Some (r4, ?s)" "drained N r4 In1" "only_ring In1 r3 r4" by blast
    have "dfb_at N r4 In0 q0 [?A k] [] 0 1" using at dfb_at_only [OF r4(3), of In0] by simp
    from exec_pop [OF this, of 1 ?s] obtain r5 where
      r5: "exec N (Pop In0 1) (r4, ?s) = Some (r5, ?s)" "dfb_at N r5 In0 (q0 + 1) [] [] 0 0" "only_ring In0 r4 r5" by auto
    have prog: "compute_step e a k = [Await In0 1, Await In1 1] @ [Take In0 0 (\<lambda>p. on_dst (copy_tile p dst_a)), Take In1 0 (\<lambda>p. on_dst (copy_tile p dst_b)),
          Do (on_dst (me_transpose_dest e dst_a)), Do (on_vec (calculate_matmul_fp32 (me_mad e) (k \<noteq> 0) dst_a dst_b dst_acc)), Pop In1 1] @ [Pop In0 1]"
      using False by (simp del: on_steps add: compute_step_def)
    have first: "exec_list N [Await In0 1, Await In1 1] (r1, s) = Some (r3, s)" "exec_list N [Pop In0 1] (r4, ?s) = Some (r5, ?s)"
      using r2(1) r3(1) r5(1) by simp_all
    have "exec_list N (compute_step e a k) (r1, s) = Some (r5, ?s)"
      unfolding prog exec_list_append first r4(1) option.case ..
    moreover have "r5 Out = r1 Out" using other_ring [OF r2(3)] other_ring [OF r3(3)] other_ring [OF r4(3)] other_ring [OF r5(3)] by simp
    moreover have "drained N r5 In1" using r4(2) drained_other [of r5 In1 r4 N] other_ring [OF r5(3)] by simp
    moreover have "row_at e a d tile N r5" using False r5(2) by (auto simp: row_at_def drained_def)
    ultimately show ?thesis by blast
  qed
qed

section \<open>One output tile\<close>

definition after :: "(matmul_dfb, tile_words, matmul_store) net \<Rightarrow> (matmul_dfb \<Rightarrow> tile_words ring) \<Rightarrow> matmul_instr list \<Rightarrow>
    matmul_instr list \<Rightarrow> matmul_store \<Rightarrow> (matmul_dfb, tile_words, matmul_store) net" where
  "after st r R C s = \<lparr>rings = r, progs = (progs st)(0 := R, 1 := C), stores = (stores st)(1 := s)\<rparr>"

lemma after_simps [simp]:
  "rings (after st r R C s) = r" "progs (after st r R C s) = (progs st)(0 := R, 1 := C)" "stores (after st r R C s) = (stores st)(1 := s)"
  "after (after st r R C s) r' R' C' s' = after st r' R' C' s'"
  by (simp_all add: after_def fun_eq_iff)

lemma run_both:
  assumes "progs st 0 = X @ R" "exec_list N X (rings st, stores st 0) = Some (r1, stores st 0)"
    and "progs st 1 = Y @ C" "exec_list N Y (r1, stores st 1) = Some (r2, s)"
  shows "\<exists>m. net_run N m st (after st r2 R C s)"
proof -
  let ?st1 = "\<lparr>rings = r1, progs = (progs st)(0 := R), stores = (stores st)(0 := stores st 0)\<rparr>"
  have "exec_list N Y (rings ?st1, stores ?st1 1) = Some (r2, s)" "progs ?st1 1 = Y @ C" using assms(3,4) by simp_all
  from net_run_trans [OF run_prefix [OF assms(2,1)] run_prefix [OF this]]
  show ?thesis by (simp add: after_def) blast
qed

lemma run_products:
  assumes "m \<le> ma_Kt a" "0 < N In0" "0 < N In1"
    and "progs st 0 = concat (map (reader_step e a d tile j) [m..<ma_Kt a]) @ R" "progs st 1 = concat (map (compute_step e a) [m..<ma_Kt a]) @ C"
    and "row_at e a d tile N (rings st)" "drained N (rings st) In1"
  shows "\<exists>n r. r Out = rings st Out \<and> row_at e a d tile N r \<and> drained N r In1 \<and>
    net_run N n st (after st r R C ((stores st 1)\<lparr>ms_vec :=
      foldl (\<lambda>v k. multiply_step e (read_a e a d tile) (read_b e a d tile j) k v) (ms_vec (stores st 1)) [m..<ma_Kt a]\<rparr>))"
  using assms
proof (induction "ma_Kt a - m" arbitrary: m st)
  case 0
  then have "[m..<ma_Kt a] = []" by simp
  with 0 have "after st (rings st) R C ((stores st 1)\<lparr>ms_vec := ms_vec (stores st 1)\<rparr>) = st"
    by (simp add: after_def fun_upd_idem)
  then show ?case using 0 net_run.stop [of N st] \<open>[m..<ma_Kt a] = []\<close> by (metis foldl_Nil)
next
  case (Suc x)
  then have m: "m < ma_Kt a" by simp
  then have upt: "[m..<ma_Kt a] = m # [Suc m..<ma_Kt a]" by (simp add: upt_conv_Cons)
  let ?R = "concat (map (reader_step e a d tile j) [Suc m..<ma_Kt a]) @ R" and ?C = "concat (map (compute_step e a) [Suc m..<ma_Kt a]) @ C"
  let ?s = "(stores st 1)\<lparr>ms_vec := multiply_step e (read_a e a d tile) (read_b e a d tile j) m (ms_vec (stores st 1))\<rparr>"
  from exec_reader_step [OF Suc.prems(6,7,2,3), of j m "stores st 0"] obtain r1 q where
    r1: "exec_list N (reader_step e a d tile j m) (rings st, stores st 0) = Some (r1, stores st 0)" "r1 Out = rings st Out"
      "dfb_at N r1 In1 q [read_b e a d tile j m] [] 0 0"
      "if ma_a_resident a then r1 In0 = rings st In0 else \<exists>q. dfb_at N r1 In0 q [read_a e a d tile m] [] 0 0" by blast
  from exec_compute_step [OF Suc.prems(6) m Suc.prems(2,3) r1(3) refl r1(4), of "stores st 1"] obtain r2 where
    r2: "exec_list N (compute_step e a m) (r1, stores st 1) = Some (r2, ?s)" "r2 Out = r1 Out" "drained N r2 In1" "row_at e a d tile N r2" by blast
  have "progs st 0 = reader_step e a d tile j m @ ?R" "progs st 1 = compute_step e a m @ ?C" using Suc.prems(4,5) by (simp_all add: upt)
  from run_both [OF this(1) r1(1) this(2) r2(1)] obtain n1 where run1: "net_run N n1 st (after st r2 ?R ?C ?s)" by blast
  have "x = ma_Kt a - Suc m" "Suc m \<le> ma_Kt a" using Suc.hyps(2) m by simp_all
  from Suc.hyps(1) [OF this Suc.prems(2,3), of "after st r2 ?R ?C ?s"] r2(3,4) obtain n2 r where
    r: "r Out = r2 Out" "row_at e a d tile N r" "drained N r In1"
      "net_run N n2 (after st r2 ?R ?C ?s) (after st r R C (?s\<lparr>ms_vec :=
        foldl (\<lambda>v k. multiply_step e (read_a e a d tile) (read_b e a d tile j) k v) (ms_vec ?s) [Suc m..<ma_Kt a]\<rparr>))" by auto
  from net_run_trans [OF run1 r(4)] r(1-3) r1(2) r2(2) show ?case by (auto simp: upt)
qed

text \<open>The elements of an output tile: multiply-adds in the order of the contraction.\<close>

definition tile_spec :: "matmul_env \<Rightarrow> matmul_args \<Rightarrow> matmul_dram \<Rightarrow> nat \<Rightarrow> nat \<Rightarrow> nat \<Rightarrow> nat \<Rightarrow> u32" where
  "tile_spec e a d tile j r c = mad_row (me_mad e) (\<lambda>k. page_elem (read_a e a d tile (k div 32)) r (k mod 32))
     (\<lambda>k. page_elem (read_b e a d tile j (k div 32)) (k mod 32) c) (32 * ma_Kt a) 0"

lemma prepared:
  assumes "env_ok e" "r < 32" "c < 32"
  shows "tile_at (dst (prepare e A B k v)) 1 c r = page_elem (A k) r c" "tile_at (dst (prepare e A B k v)) 2 r c = page_elem (B k) r c"
    "tile_at (dst (prepare e A B k v)) 0 r c = tile_at (dst v) 0 r c"
  using assms(1) [unfolded env_ok_def] assms(2,3) by (simp_all add: prepare_def copied_tile)

lemma sums_of_products:
  assumes env: "env_ok e" and ready: "mad_ready v" and Kt: "0 < Kt"
    and v': "v' = foldl (\<lambda>v k. multiply_step e A B k v) v [0..<Kt]"
  shows "mad_ready v'" "r < 32 \<Longrightarrow> c < 32 \<Longrightarrow> tile_at (dst (matmul_fp32_finish 0 1 2 v')) 1 r c =
    mad_row (me_mad e) (\<lambda>k. page_elem (A (k div 32)) r (k mod 32)) (\<lambda>k. page_elem (B (k div 32)) (k mod 32) c) (32 * Kt) 0"
proof -
  have step: "mad_ready (prepare e A B k s) \<and> (\<forall>r < 32. \<forall>c < 32. tile_at (dst (prepare e A B k s)) 1 c r = page_elem (A k) r c \<and>
      tile_at (dst (prepare e A B k s)) 2 r c = page_elem (B k) r c \<and> tile_at (dst (prepare e A B k s)) 0 r c = tile_at (dst s) 0 r c)"
    if "mad_ready s" for k s
    using prepared [OF env] that by (simp add: mad_ready_def) (simp add: prepare_def)
  have p: "mad_ready v' \<and> (0 < Kt \<longrightarrow> skewed (dst v') 0 (\<lambda>r c. mad_row (me_mad e) (\<lambda>k. page_elem (A (k div 32)) r (k mod 32))
      (\<lambda>k. page_elem (B (k div 32)) (k mod 32) c) (32 * Kt) 0))"
    unfolding v' multiply_step_def
    by (rule vector_unit.products [where prepare = "prepare e A B" and n = Kt and A = "\<lambda>k. page_elem (A k)" and B = "\<lambda>k. page_elem (B k)"])
      (rule step, assumption, rule ready, rule order.refl)
  show "mad_ready v'" using p by simp
  from p Kt have "skewed (dst v') 0 (\<lambda>r c. mad_row (me_mad e) (\<lambda>k. page_elem (A (k div 32)) r (k mod 32)) (\<lambda>k. page_elem (B (k div 32)) (k mod 32) c) (32 * Kt) 0)"
    by simp
  from vector_unit.finished [OF this, of 1 2 r c]
  show "r < 32 \<Longrightarrow> c < 32 \<Longrightarrow> tile_at (dst (matmul_fp32_finish 0 1 2 v')) 1 r c =
    mad_row (me_mad e) (\<lambda>k. page_elem (A (k div 32)) r (k mod 32)) (\<lambda>k. page_elem (B (k div 32)) (k mod 32) c) (32 * Kt) 0"
    by simp
qed

definition writer_step :: "nat \<Rightarrow> matmul_instr list" where
  "writer_step tile = [Await Out 1, Take Out 0 (write_tile tile), Pop Out 1]"

text \<open>Between two tiles of a run.\<close>

definition in_run :: "matmul_env \<Rightarrow> matmul_args \<Rightarrow> matmul_dram \<Rightarrow> nat \<Rightarrow> (matmul_dfb \<Rightarrow> nat) \<Rightarrow> (matmul_dfb, tile_words, matmul_store) net \<Rightarrow> bool" where
  "in_run e a d tile N st \<longleftrightarrow> row_at e a d tile N (rings st) \<and> drained N (rings st) In1 \<and> drained N (rings st) Out \<and>
     mad_ready (ms_vec (stores st 1)) \<and> (\<forall>k > 2. progs st k = [])"

definition wrote :: "matmul_env \<Rightarrow> matmul_args \<Rightarrow> matmul_dram \<Rightarrow> nat \<Rightarrow> nat \<Rightarrow> nat \<times> tile_words \<Rightarrow> bool" where
  "wrote e a d tile j w \<longleftrightarrow> fst w = tile + j \<and> (\<forall>r < 32. \<forall>c < 32. page_elem (snd w) r c = tile_spec e a d tile j r c)"

definition kernels_at :: "(matmul_dfb, tile_words, matmul_store) net \<Rightarrow> matmul_instr list \<Rightarrow> matmul_instr list \<Rightarrow> matmul_instr list \<Rightarrow> bool" where
  "kernels_at st R C W \<longleftrightarrow> progs st 0 = R \<and> progs st 1 = C \<and> progs st 2 = W"

lemma exec_pack:
  assumes "drained N r Out" "0 < N Out"
  shows "\<exists>r' q. exec_list N [Do (on_vec (matmul_fp32_finish dst_acc dst_a dst_b)), Reserve Out 1,
      Fill Out 0 (\<lambda>s. pack_tile dst_a (dst (ms_vec s))), Push Out 1] (r, s) =
      Some (r', s\<lparr>ms_vec := matmul_fp32_finish 0 1 2 (ms_vec s)\<rparr>) \<and>
    dfb_at N r' Out q [pack_tile 1 (dst (matmul_fp32_finish 0 1 2 (ms_vec s)))] [] 0 0 \<and> only_ring Out r r'"
proof -
  let ?s = "s\<lparr>ms_vec := matmul_fp32_finish 0 1 2 (ms_vec s)\<rparr>"
  have eq: "on_vec (matmul_fp32_finish dst_acc dst_a dst_b) s = ?s" by (simp add: dst_a_def dst_b_def dst_acc_def)
  from exec_pass [OF assms, of "\<lambda>s. pack_tile dst_a (dst (ms_vec s))" ?s] obtain r' q where
    "exec_list N [Reserve Out 1, Fill Out 0 (\<lambda>s. pack_tile dst_a (dst (ms_vec s))), Push Out 1] (r, ?s) = Some (r', ?s)"
    "dfb_at N r' Out q [pack_tile dst_a (dst (ms_vec ?s))] [] 0 0" "only_ring Out r r'" by blast
  then show ?thesis unfolding exec_list.simps(2) [of N "Do _"] exec_do option.case eq by (auto simp: dst_a_def)
qed

lemma exec_writer_step:
  assumes "dfb_at N r Out q [p] [] 0 0" "0 < N Out"
  shows "\<exists>r'. exec_list N (writer_step tile) (r, s) = Some (r', write_tile tile p s) \<and> drained N r' Out \<and> only_ring Out r r'"
proof -
  have "q mod N Out + 1 \<le> N Out" using assms(2) by (simp add: Suc_leI)
  from exec_pop_group [OF assms(1), of "[write_tile tile]" s] this show ?thesis
    by (auto simp: writer_step_def take_all_def drained_def)
qed

lemma run_tile:
  assumes env: "env_ok e" and Kt: "0 < ma_Kt a" and N: "0 < N In0" "0 < N In1" "0 < N Out" and st: "in_run e a d tile N st"
    and progs: "kernels_at st (concat (map (reader_step e a d tile j) [0..<ma_Kt a]) @ R) (compute_tile_prog e a (tile + j) @ C) (writer_step (tile + j) @ W)"
  shows "\<exists>n st' w. net_run N n st st' \<and> in_run e a d tile N st' \<and> kernels_at st' R C W \<and> wrote e a d tile j w \<and>
    ms_written (stores st' 2) = ms_written (stores st 2) @ [w]"
proof -
  let ?R = "concat (map (reader_step e a d tile j) [0..<ma_Kt a]) @ R" and ?A = "read_a e a d tile" and ?B = "read_b e a d tile j"
  let ?pack = "[Do (on_vec (matmul_fp32_finish dst_acc dst_a dst_b)), Reserve Out 1, Fill Out 0 (\<lambda>s. pack_tile dst_a (dst (ms_vec s))), Push Out 1]"
  let ?C = "concat (map (compute_step e a) [0..<ma_Kt a]) @ ?pack @ C"
  note st = st [unfolded in_run_def] and progs = progs [unfolded kernels_at_def]
  define v0 where "v0 = (ms_vec (stores st 1))\<lparr>dst := me_acquired e (tile + j)\<rparr>"
  let ?s0 = "(stores st 1)\<lparr>ms_vec := v0\<rparr>"
  have "exec_list N [Do (on_dst (\<lambda>_. me_acquired e (tile + j)))] (rings st, stores st 1) = Some (rings st, ?s0)" by (simp add: v0_def)
  moreover have "exec_list N [] (rings st, stores st 0) = Some (rings st, stores st 0)" by simp
  moreover have "progs st 1 = [Do (on_dst (\<lambda>_. me_acquired e (tile + j)))] @ ?C" using progs by (simp del: on_steps add: compute_tile_prog_def)
  moreover have "progs st 0 = [] @ ?R" using progs by simp
  ultimately obtain n0 where run0: "net_run N n0 st (after st (rings st) ?R ?C ?s0)" using run_both by metis
  let ?st0 = "after st (rings st) ?R ?C ?s0"
  define v where "v = foldl (\<lambda>v k. multiply_step e ?A ?B k v) v0 [0..<ma_Kt a]"
  let ?s1 = "(stores st 1)\<lparr>ms_vec := v\<rparr>"
  have "progs ?st0 0 = concat (map (reader_step e a d tile j) [0..<ma_Kt a]) @ R" "progs ?st0 1 = concat (map (compute_step e a) [0..<ma_Kt a]) @ ?pack @ C"
    "row_at e a d tile N (rings ?st0)" "drained N (rings ?st0) In1" using st by simp_all
  from run_products [where m = 0, OF _ N(1,2) this] obtain n1 r1 where
    r1: "r1 Out = rings st Out" "row_at e a d tile N r1" "drained N r1 In1" "net_run N n1 ?st0 (after st r1 R (?pack @ C) ?s1)"
    by (auto simp: v_def)
  have ready0: "mad_ready v0" using st by (simp add: v0_def mad_ready_def)
  note sums = sums_of_products [OF env ready0 Kt v_def]
  have "drained N r1 Out" using st r1(1) drained_other by blast
  from exec_pack [OF this N(3), of ?s1] obtain r2 q where
    r2: "exec_list N ?pack (r1, ?s1) = Some (r2, (stores st 1)\<lparr>ms_vec := matmul_fp32_finish 0 1 2 v\<rparr>)"
      "dfb_at N r2 Out q [pack_tile 1 (dst (matmul_fp32_finish 0 1 2 v))] [] 0 0" "only_ring Out r1 r2" by auto
  let ?p = "pack_tile 1 (dst (matmul_fp32_finish 0 1 2 v))" and ?s2 = "(stores st 1)\<lparr>ms_vec := matmul_fp32_finish 0 1 2 v\<rparr>"
  let ?st1 = "after st r1 R (?pack @ C) ?s1" and ?st2 = "after st r2 R C ?s2"
  have "progs ?st1 0 = [] @ R" "exec_list N [] (rings ?st1, stores ?st1 0) = Some (r1, stores ?st1 0)"
    "progs ?st1 1 = ?pack @ C" "exec_list N ?pack (r1, stores ?st1 1) = Some (r2, ?s2)" using r2(1) by simp_all
  from run_both [OF this] obtain n2 where run2: "net_run N n2 ?st1 ?st2" by auto
  from exec_writer_step [OF r2(2) N(3), of "tile + j" "stores ?st2 2"] obtain r3 where
    r3: "exec_list N (writer_step (tile + j)) (rings ?st2, stores ?st2 2) = Some (r3, write_tile (tile + j) ?p (stores st 2))"
      "drained N r3 Out" "only_ring Out r2 r3" by auto
  let ?st3 = "\<lparr>rings = r3, progs = (progs ?st2)(2 := W), stores = (stores ?st2)(2 := write_tile (tile + j) ?p (stores st 2))\<rparr>"
  have "progs ?st2 2 = writer_step (tile + j) @ W" using progs by simp
  from run_prefix [OF r3(1) this] obtain n3 where run3: "net_run N n3 ?st2 ?st3" by blast
  note only = only_ring_trans [OF r2(3) r3(3)]
  have "in_run e a d tile N ?st3"
    using st r3(2) r1(2,3) row_at_other [of r3 r1 e a d tile N] drained_other [of r3 In1 r1 N] other_ring [OF only] vector_unit.finish_ready [OF sums(1)]
    by (simp add: in_run_def)
  moreover have "kernels_at ?st3 R C W" by (simp add: kernels_at_def)
  moreover have "wrote e a d tile j (tile + j, ?p)" using sums(2) by (simp add: wrote_def packed_tile tile_spec_def)
  moreover have "ms_written (stores ?st3 2) = ms_written (stores st 2) @ [(tile + j, ?p)]" by (simp add: write_tile_def)
  ultimately show ?thesis using net_run_trans [OF run0 net_run_trans [OF r1(4) net_run_trans [OF run2 run3]]] by blast
qed

section \<open>One run\<close>

lemma run_tiles_of:
  assumes env: "env_ok e" and Kt: "0 < ma_Kt a" and N: "0 < N In0" "0 < N In1" "0 < N Out"
    and "j \<le> cols" "in_run e a d tile N st"
    and "kernels_at st (concat (map (\<lambda>j. concat (map (reader_step e a d tile j) [0..<ma_Kt a])) [j..<cols]) @ R)
      (concat (map (\<lambda>j. compute_tile_prog e a (tile + j)) [j..<cols]) @ C) (concat (map (\<lambda>j. writer_step (tile + j)) [j..<cols]) @ W)"
  shows "\<exists>n st' ws. net_run N n st st' \<and> in_run e a d tile N st' \<and> kernels_at st' R C W \<and>
    list_all2 (wrote e a d tile) [j..<cols] ws \<and> ms_written (stores st' 2) = ms_written (stores st 2) @ ws"
  using assms(6-)
proof (induction "cols - j" arbitrary: j st)
  case 0
  then show ?case using net_run.stop [of N st] by (intro exI [of _ 0] exI [of _ st] exI [of _ "[]"]) simp
next
  case (Suc x)
  then have upt: "[j..<cols] = j # [Suc j..<cols]" by (simp add: upt_conv_Cons)
  let ?R = "concat (map (\<lambda>j. concat (map (reader_step e a d tile j) [0..<ma_Kt a])) [Suc j..<cols]) @ R"
  let ?C = "concat (map (\<lambda>j. compute_tile_prog e a (tile + j)) [Suc j..<cols]) @ C" and ?W = "concat (map (\<lambda>j. writer_step (tile + j)) [Suc j..<cols]) @ W"
  have "kernels_at st (concat (map (reader_step e a d tile j) [0..<ma_Kt a]) @ ?R) (compute_tile_prog e a (tile + j) @ ?C) (writer_step (tile + j) @ ?W)"
    using Suc.prems(3) by (simp add: upt)
  from run_tile [OF env Kt N Suc.prems(2) this] obtain n st1 w where
    st1: "net_run N n st st1" "in_run e a d tile N st1" "kernels_at st1 ?R ?C ?W" "wrote e a d tile j w"
      "ms_written (stores st1 2) = ms_written (stores st 2) @ [w]" by blast
  have "x = cols - Suc j" "Suc j \<le> cols" using Suc.hyps(2) by simp_all
  from Suc.hyps(1) [OF this st1(2,3)] obtain m st2 ws where
    "net_run N m st1 st2" "in_run e a d tile N st2" "kernels_at st2 R C W" "list_all2 (wrote e a d tile) [Suc j..<cols] ws"
    "ms_written (stores st2 2) = ms_written (stores st1 2) @ ws" by blast
  then show ?case using net_run_trans [OF st1(1)] st1(4,5)
    by (intro exI [of _ "n + m"] exI [of _ st2] exI [of _ "w # ws"]) (simp add: upt)
qed

text \<open>Between two runs every buffer is empty, and in0 stands at the start of a row.\<close>

definition between :: "matmul_args \<Rightarrow> (matmul_dfb \<Rightarrow> nat) \<Rightarrow> (matmul_dfb, tile_words, matmul_store) net \<Rightarrow> bool" where
  "between a N st \<longleftrightarrow> (\<exists>q. dfb_at N (rings st) In0 q [] [] 0 0 \<and> (ma_a_resident a \<longrightarrow> ma_Kt a dvd q)) \<and>
     drained N (rings st) In1 \<and> drained N (rings st) Out \<and> mad_ready (ms_vec (stores st 1)) \<and> (\<forall>k > 2. progs st k = [])"

lemma row_fits:
  assumes "g dvd q" "g dvd (n :: nat)" "0 < n"
  shows "q mod n + g \<le> n"
proof -
  from assms(1,2) have "g dvd q mod n" by (simp add: dvd_mod)
  then obtain x where x: "q mod n = g * x" by auto
  obtain m where m: "n = g * m" using assms(2) by auto
  have "g * x < n" using mod_less_divisor [OF assms(3), of q] unfolding x .
  then have "g * x < g * m" unfolding m .
  then have "Suc x \<le> m" by simp
  then have "g * Suc x \<le> g * m" by (rule mult_le_mono2)
  then have "g * x + g \<le> n" unfolding m by simp
  then show ?thesis unfolding x .
qed

lemma row_in:
  assumes st: "between a N st" and N: "0 < N In0" "ma_a_resident a \<Longrightarrow> ma_Kt a dvd N In0"
    and progs: "kernels_at st (reader_row e a d tile @ R) ((if ma_a_resident a then [Await In0 (ma_Kt a)] else []) @ C) W"
  shows "\<exists>n st'. net_run N n st st' \<and> in_run e a d tile N st' \<and> kernels_at st' R C W \<and> stores st' 2 = stores st 2"
proof (cases "ma_a_resident a")
  case False
  then have "in_run e a d tile N st" using st by (auto simp: between_def in_run_def row_at_def drained_def)
  moreover have "kernels_at st R C W" using progs False by (simp add: kernels_at_def reader_row_def)
  ultimately show ?thesis using False net_run.stop [of N st] by (intro exI [of _ 0] exI [of _ st]) simp
next
  case True
  from st True obtain q where q: "dfb_at N (rings st) In0 q [] [] 0 0" "ma_Kt a dvd q" by (auto simp: between_def)
  let ?es = "map (read_a e a d tile) [0..<ma_Kt a]"
  have fits: "q mod N In0 + ma_Kt a \<le> N In0" using row_fits [OF q(2) N(2) [OF True] N(1)] .
  from exec_push_group [OF q(1), of ?es "stores st 0"] fits obtain r1 where
    r1: "exec_list N (Reserve In0 (ma_Kt a) # fills In0 0 ?es @ [Push In0 (ma_Kt a)]) (rings st, stores st 0) = Some (r1, stores st 0)"
      "dfb_at N r1 In0 q ?es [] 0 0" "only_ring In0 (rings st) r1" by auto
  from exec_await [OF r1(2), of "ma_Kt a" "stores st 1"] obtain r2 where
    r2: "exec N (Await In0 (ma_Kt a)) (r1, stores st 1) = Some (r2, stores st 1)" "dfb_at N r2 In0 q ?es [] 0 (ma_Kt a)" "only_ring In0 r1 r2" by auto
  have "progs st 0 = (Reserve In0 (ma_Kt a) # fills In0 0 ?es @ [Push In0 (ma_Kt a)]) @ R" "progs st 1 = [Await In0 (ma_Kt a)] @ C"
    "exec_list N [Await In0 (ma_Kt a)] (r1, stores st 1) = Some (r2, stores st 1)"
    using progs True r2(1) by (simp_all add: kernels_at_def reader_row_def)
  from run_both [OF this(1) r1(1) this(2,3)] obtain n where run: "net_run N n st (after st r2 R C (stores st 1))" by blast
  note only = other_ring [OF only_ring_trans [OF r1(3) r2(3)]]
  have "in_run e a d tile N (after st r2 R C (stores st 1))"
    using st True r2(2) q(2) fits drained_other [of r2 In1 "rings st" N] drained_other [of r2 Out "rings st" N] only
    by (auto simp: between_def in_run_def row_at_def)
  moreover have "kernels_at (after st r2 R C (stores st 1)) R C W" using progs by (simp add: kernels_at_def)
  ultimately show ?thesis using run by (intro exI [of _ n] exI [of _ "after st r2 R C (stores st 1)"]) simp
qed

lemma row_out:
  assumes st: "in_run e a d tile N st" and progs: "kernels_at st R ((if ma_a_resident a then [Pop In0 (ma_Kt a)] else []) @ C) W"
  shows "\<exists>n st'. net_run N n st st' \<and> between a N st' \<and> kernels_at st' R C W \<and> stores st' 2 = stores st 2"
proof (cases "ma_a_resident a")
  case False
  then have "between a N st" using st by (auto simp: between_def in_run_def row_at_def drained_def)
  moreover have "kernels_at st R C W" using progs False by (simp add: kernels_at_def)
  ultimately show ?thesis using net_run.stop [of N st] by (intro exI [of _ 0] exI [of _ st]) simp
next
  case True
  from st True obtain q where q: "dfb_at N (rings st) In0 q (map (read_a e a d tile) [0..<ma_Kt a]) [] 0 (ma_Kt a)" "ma_Kt a dvd q"
    by (auto simp: in_run_def row_at_def)
  from exec_pop [OF q(1), of "ma_Kt a" "stores st 1"] obtain r1 where
    r1: "exec N (Pop In0 (ma_Kt a)) (rings st, stores st 1) = Some (r1, stores st 1)"
      "dfb_at N r1 In0 (q + ma_Kt a) [] [] 0 0" "only_ring In0 (rings st) r1" by auto
  have "progs st 0 = [] @ R" "exec_list N [] (rings st, stores st 0) = Some (rings st, stores st 0)" "progs st 1 = [Pop In0 (ma_Kt a)] @ C"
    "exec_list N [Pop In0 (ma_Kt a)] (rings st, stores st 1) = Some (r1, stores st 1)"
    using progs True r1(1) by (simp_all add: kernels_at_def)
  from run_both [OF this] obtain n where run: "net_run N n st (after st r1 R C (stores st 1))" by blast
  have "between a N (after st r1 R C (stores st 1))"
    using st r1(2) q(2) drained_other [of r1 In1 "rings st" N] drained_other [of r1 Out "rings st" N] other_ring [OF r1(3)]
    by (auto simp: between_def in_run_def)
  moreover have "kernels_at (after st r1 R C (stores st 1)) R C W" using progs by (simp add: kernels_at_def)
  ultimately show ?thesis using run by (intro exI [of _ n] exI [of _ "after st r1 R C (stores st 1)"]) simp
qed

section \<open>One core\<close>

lemma run_cols_bounds:
  assumes "0 < Nt" "0 < width" "tile < end_tile"
  shows "0 < run_cols tile end_tile Nt width" "tile + run_cols tile end_tile Nt width \<le> end_tile"
    "tile mod Nt + run_cols tile end_tile Nt width \<le> Nt"
proof -
  have "tile mod Nt < Nt" using assms(1) by simp
  then show "0 < run_cols tile end_tile Nt width" "tile + run_cols tile end_tile Nt width \<le> end_tile"
    "tile mod Nt + run_cols tile end_tile Nt width \<le> Nt"
    using assms by (auto simp: run_cols_def Let_def)
qed

definition matmul_fit :: "matmul_args \<Rightarrow> bool" where
  "matmul_fit a \<longleftrightarrow> 0 < ma_Mt a \<and> 0 < ma_Kt a \<and> 0 < ma_Nt a \<and> 0 < ma_run_width a \<and> ma_Mt a * ma_Nt a < 2 ^ 32"

text \<open>The batch and the row of a tile; the tiles of a run share them.\<close>

lemma tile_parts:
  assumes "matmul_fit a"
  shows "batch_of a tile = tile div ma_Nt a div ma_Mt a" "tile mod w32 (ma_Mt a * ma_Nt a) div ma_Nt a = tile div ma_Nt a mod ma_Mt a"
proof -
  have w: "w32 (ma_Mt a * ma_Nt a) = ma_Nt a * ma_Mt a" using assms by (simp add: matmul_fit_def w32_id mult.commute)
  show "batch_of a tile = tile div ma_Nt a div ma_Mt a" by (simp add: batch_of_def w div_mult2_eq)
  have "0 < ma_Nt a" using assms by (simp add: matmul_fit_def)
  then have "(ma_Nt a * (tile div ma_Nt a mod ma_Mt a) + tile mod ma_Nt a) div ma_Nt a = tile div ma_Nt a mod ma_Mt a" by simp
  then show "tile mod w32 (ma_Mt a * ma_Nt a) div ma_Nt a = tile div ma_Nt a mod ma_Mt a" by (simp only: w mod_mult2_eq)
qed

lemma w32_add_left: "w32 (w32 x + y) = w32 (x + y)"
  by (simp add: w32_def mod_add_left_eq)

lemma run_shares:
  assumes fit: "matmul_fit a" and j: "tile mod ma_Nt a + j < ma_Nt a"
  shows "read_a e a d (tile + j) k = read_a e a d tile k" "read_b e a d (tile + j) 0 k = read_b e a d tile j k"
proof -
  have "tile + j = tile div ma_Nt a * ma_Nt a + (tile mod ma_Nt a + j)" by simp
  then have row: "(tile + j) div ma_Nt a = tile div ma_Nt a" and col: "(tile + j) mod ma_Nt a = tile mod ma_Nt a + j"
    using index_div [OF j] index_mod [OF j] by metis+
  have "a_row a (tile + j) = a_row a tile" unfolding a_row_def tile_parts [OF fit] row ..
  then show "read_a e a d (tile + j) k = read_a e a d tile k" by (simp add: read_a_def)
  have batch: "batch_of a (tile + j) = batch_of a tile" unfolding tile_parts [OF fit] row ..
  have "w32 (b_base a (tile + j) + k * ma_Nt a + 0) = w32 (b_base a tile + k * ma_Nt a + j)"
    unfolding b_base_def col batch by (simp only: w32_add_left add.assoc [of "w32 _"] ) (simp add: ac_simps)
  then show "read_b e a d (tile + j) 0 k = read_b e a d tile j k" by (simp add: read_b_def)
qed

lemma wrote_shift:
  assumes "matmul_fit a" "tile mod ma_Nt a + j < ma_Nt a" "wrote e a d tile j w"
  shows "wrote e a d (tile + j) 0 w"
  using assms(3) run_shares [OF assms(1,2)] by (simp add: wrote_def tile_spec_def)

lemma matmul_complete:
  assumes env: "env_ok e" and fit: "matmul_fit a" and N: "0 < N In0" "0 < N In1" "0 < N Out" "ma_a_resident a \<Longrightarrow> ma_Kt a dvd N In0"
    and "tile \<le> end_tile" "between a N st"
    and "kernels_at st (matmul_reader_loop e a d tile end_tile) (matmul_compute_loop e a tile end_tile) (concat (map writer_step [tile..<end_tile]))"
  shows "\<exists>n f ws. net_run N n st f \<and> net_done f \<and> list_all2 (\<lambda>t. wrote e a d t 0) [tile..<end_tile] ws \<and>
    ms_written (stores f 2) = ms_written (stores st 2) @ ws"
  using assms(7-)
proof (induction "end_tile - tile" arbitrary: tile st rule: less_induct)
  case less
  show ?case
  proof (cases "tile < end_tile")
    case False
    have "progs st 0 = []" "progs st 1 = []" "progs st 2 = []"
      using False less.prems(3) by (simp_all add: kernels_at_def matmul_reader_loop.simps [of e a d tile] matmul_compute_loop.simps [of e a tile])
    moreover have "k = 0 \<or> k = 1 \<or> k = 2 \<or> 2 < k" for k :: nat by linarith
    ultimately have "net_done st" using less.prems(2) unfolding net_done_def between_def by metis
    then show ?thesis using False net_run.stop [of N st] by (intro exI [of _ 0] exI [of _ st] exI [of _ "[]"]) simp
  next
    case True
    define cols where "cols = run_cols tile end_tile (ma_Nt a) (ma_run_width a)"
    note pos = fit [unfolded matmul_fit_def]
    have c: "0 < cols" "tile + cols \<le> end_tile" "tile mod ma_Nt a + cols \<le> ma_Nt a"
      using run_cols_bounds [OF _ _ True] pos by (simp_all add: cols_def)
    let ?R = "matmul_reader_loop e a d (tile + cols) end_tile" and ?C = "matmul_compute_loop e a (tile + cols) end_tile"
    let ?W = "concat (map writer_step [tile + cols..<end_tile])"
    let ?tR = "concat (map (\<lambda>j. concat (map (reader_step e a d tile j) [0..<ma_Kt a])) [0..<cols])"
    let ?tC = "concat (map (\<lambda>j. compute_tile_prog e a (tile + j)) [0..<cols])" and ?tW = "concat (map (\<lambda>j. writer_step (tile + j)) [0..<cols])"
    let ?in = "if ma_a_resident a then [Await In0 (ma_Kt a)] else [] :: matmul_instr list" and ?out = "if ma_a_resident a then [Pop In0 (ma_Kt a)] else [] :: matmul_instr list"
    have "[tile..<end_tile] = [tile..<tile + cols] @ [tile + cols..<end_tile]"
      using upt_add_eq_append [of tile "tile + cols" "end_tile - (tile + cols)"] c(2) by simp
    note upt = this
    have "[tile..<tile + cols] = map (\<lambda>j. tile + j) [0..<cols]" by (simp add: map_add_upt add.commute [of tile])
    note shift = this
    have W: "concat (map writer_step [tile..<end_tile]) = ?tW @ ?W" by (simp add: upt shift comp_def)
    have R: "matmul_reader_loop e a d tile end_tile = reader_row e a d tile @ ?tR @ ?R"
      using True c(1) by (simp add: matmul_reader_loop.simps [of e a d tile] cols_def Let_def)
    have C: "matmul_compute_loop e a tile end_tile = ?in @ ?tC @ ?out @ ?C"
      using True c(1) by (simp add: matmul_compute_loop.simps [of e a tile] cols_def Let_def)
    from row_in [OF less.prems(2) N(1,4) less.prems(3) [unfolded R C W]] obtain n1 st1 where
      st1: "net_run N n1 st st1" "in_run e a d tile N st1" "kernels_at st1 (?tR @ ?R) (?tC @ ?out @ ?C) (?tW @ ?W)" "stores st1 2 = stores st 2" by blast
    have Kt: "0 < ma_Kt a" using pos by blast
    from run_tiles_of [OF env Kt N(1-3) _ st1(2,3)] obtain n2 st2 ws where
      st2: "net_run N n2 st1 st2" "in_run e a d tile N st2" "kernels_at st2 ?R (?out @ ?C) ?W" "list_all2 (wrote e a d tile) [0..<cols] ws"
        "ms_written (stores st2 2) = ms_written (stores st1 2) @ ws" by blast
    from row_out [OF st2(2,3)] obtain n3 st3 where
      st3: "net_run N n3 st2 st3" "between a N st3" "kernels_at st3 ?R ?C ?W" "stores st3 2 = stores st2 2" by blast
    have "end_tile - (tile + cols) < end_tile - tile" using c(1) True by simp
    from less.hyps [OF this c(2) st3(2,3)] obtain n4 f ws' where
      f: "net_run N n4 st3 f" "net_done f" "list_all2 (\<lambda>t. wrote e a d t 0) [tile + cols..<end_tile] ws'"
        "ms_written (stores f 2) = ms_written (stores st3 2) @ ws'" by blast
    have "list_all2 (\<lambda>t. wrote e a d t 0) [tile..<tile + cols] ws"
      unfolding shift list_all2_map1
    proof (rule list.rel_mono_strong [OF st2(4)])
      fix j w assume "j \<in> set [0..<cols]" "wrote e a d tile j w"
      then show "wrote e a d (tile + j) 0 w" using c(3) wrote_shift [OF fit] by simp
    qed
    then have "list_all2 (\<lambda>t. wrote e a d t 0) [tile..<end_tile] (ws @ ws')" using f(3) by (simp add: upt list_all2_appendI)
    moreover have "ms_written (stores f 2) = ms_written (stores st 2) @ ws @ ws'" using f(4) st3(4) st2(5) st1(4) by simp
    ultimately show ?thesis using net_run_trans [OF st1(1) net_run_trans [OF st2(1) net_run_trans [OF st3(1) f(1)]]] f(2) by blast
  qed
qed

section \<open>Every run of a core\<close>

lemma reader_instrs: "x \<in> set (matmul_reader_loop e a d tile end_tile) \<Longrightarrow> produces In0 x \<or> produces In1 x"
proof (induction e a d tile end_tile rule: matmul_reader_loop.induct)
  case (1 e a d tile end_tile)
  let ?cols = "run_cols tile end_tile (ma_Nt a) (ma_run_width a)"
  have row: "produces In0 x \<or> produces In1 x" if "x \<in> set (reader_row e a d tile)"
    using that by (auto simp: reader_row_def dest: fills_instrs split: if_splits)
  have step: "produces In0 x \<or> produces In1 x" if "x \<in> set (reader_step e a d tile j k)" for j k
    using that by (auto simp: reader_step_def split: if_splits)
  show ?case
  proof (cases "tile < end_tile \<and> 0 < ?cols")
    case True
    with "1.prems" have "x \<in> set (reader_row e a d tile) \<or> (\<exists>j k. x \<in> set (reader_step e a d tile j k)) \<or> x \<in> set (matmul_reader_loop e a d (tile + ?cols) end_tile)"
      by (subst (asm) matmul_reader_loop.simps) (auto simp: Let_def)
    then show ?thesis using row step "1.IH" [OF refl True] by blast
  next
    case False
    with "1.prems" show ?thesis by (subst (asm) matmul_reader_loop.simps) (simp add: Let_def)
  qed
qed

lemma compute_step_instrs: "x \<in> set (compute_step e a k) \<Longrightarrow> consumes In0 x \<or> consumes In1 x \<or> instr_dfb x = None"
  by (auto simp: compute_step_def split: if_splits)

lemma compute_instrs: "x \<in> set (matmul_compute_loop e a tile end_tile) \<Longrightarrow> consumes In0 x \<or> consumes In1 x \<or> produces Out x \<or> instr_dfb x = None"
proof (induction e a tile end_tile rule: matmul_compute_loop.induct)
  case (1 e a tile end_tile)
  let ?cols = "run_cols tile end_tile (ma_Nt a) (ma_run_width a)"
  have tile: "consumes In0 x \<or> consumes In1 x \<or> produces Out x \<or> instr_dfb x = None" if "x \<in> set (compute_tile_prog e a t)" for t
    using that by (auto simp: compute_tile_prog_def dest: compute_step_instrs)
  show ?case
  proof (cases "tile < end_tile \<and> 0 < ?cols")
    case True
    let ?in = "if ma_a_resident a then [Await In0 (ma_Kt a)] else [] :: matmul_instr list" and ?out = "if ma_a_resident a then [Pop In0 (ma_Kt a)] else [] :: matmul_instr list"
    have "matmul_compute_loop e a tile end_tile = ?in @ concat (map (\<lambda>j. compute_tile_prog e a (tile + j)) [0..<?cols]) @ ?out @ matmul_compute_loop e a (tile + ?cols) end_tile"
      using True by (subst matmul_compute_loop.simps) (simp add: Let_def)
    with "1.prems" have "x \<in> set ?in \<or> x \<in> set ?out \<or> (\<exists>t. x \<in> set (compute_tile_prog e a t)) \<or> x \<in> set (matmul_compute_loop e a (tile + ?cols) end_tile)"
      by (simp only: set_append set_concat set_map) blast
    moreover have "consumes In0 x" if "x \<in> set ?in \<or> x \<in> set ?out" using that by (auto split: if_splits)
    ultimately have "consumes In0 x \<or> (\<exists>t. x \<in> set (compute_tile_prog e a t)) \<or> x \<in> set (matmul_compute_loop e a (tile + ?cols) end_tile)"
      by blast
    then show ?thesis
    proof (elim disjE exE)
      assume "x \<in> set (matmul_compute_loop e a (tile + ?cols) end_tile)"
      with True show ?thesis by (intro "1.IH") simp_all
    qed (auto dest: tile)
  next
    case False
    with "1.prems" show ?thesis by (subst (asm) matmul_compute_loop.simps) (simp add: Let_def)
  qed
qed

text \<open>Kernel and role of every instruction; so each buffer has one producer and one consumer.\<close>

definition plays :: "nat \<Rightarrow> matmul_instr \<Rightarrow> bool" where
  "plays k x \<longleftrightarrow> (\<forall>y. (produces y x \<longrightarrow> k = (if y = Out then 1 else 0)) \<and> (consumes y x \<longrightarrow> k = (if y = Out then 2 else 1)))"

lemma matmul_plays: "x \<in> set (matmul_progs e a d first num k) \<Longrightarrow> plays k x"
proof -
  have p: "produces y x \<Longrightarrow> produces z x \<Longrightarrow> y = z" "consumes y x \<Longrightarrow> consumes z x \<Longrightarrow> y = z" "produces y x \<Longrightarrow> \<not> consumes z x"
    "instr_dfb x = None \<Longrightarrow> \<not> produces y x \<and> \<not> consumes y x" for y z and x :: matmul_instr
    by (cases x; simp)+
  assume x: "x \<in> set (matmul_progs e a d first num k)"
  consider "k = 0" | "k = 1" | "k = 2" | "2 < k" by linarith
  then show "plays k x"
  proof cases
    case 1
    then have "produces In0 x \<or> produces In1 x" using x reader_instrs by (auto simp: matmul_progs_def matmul_reader_main_def)
    then show ?thesis using p(1,3) unfolding plays_def 1 by (metis matmul_dfb.distinct(3,5))
  next
    case 2
    then have "x \<in> set (matmul_compute_main e a first num)" using x by (simp add: matmul_progs_def)
    then have "x = Do (on_vec init_matmul_fp32) \<or> consumes In0 x \<or> consumes In1 x \<or> produces Out x \<or> instr_dfb x = None"
      unfolding matmul_compute_main_def using compute_instrs by (metis set_ConsD)
    then have "consumes In0 x \<or> consumes In1 x \<or> produces Out x \<or> instr_dfb x = None" by auto
    then show ?thesis using p unfolding plays_def 2 by (metis matmul_dfb.distinct(3,5))
  next
    case 3
    then have "consumes Out x" using x by (auto simp: matmul_progs_def matmul_writer_main_def split: if_splits)
    then show ?thesis using p(2,3) unfolding plays_def 3 by metis
  next
    case 4
    then show ?thesis using x by (simp add: matmul_progs_def)
  qed
qed

lemma matmul_owned: "owned (matmul_progs e a d first num)"
  unfolding owned_def using matmul_plays [of _ e a d first num] unfolding plays_def by metis

lemma matmul_runs:
  assumes env: "env_ok e" and fit: "matmul_fit a" and range: "first + num < 2 ^ 32"
    and N: "0 < in0_entries" "ma_a_resident a \<Longrightarrow> ma_Kt a dvd in0_entries"
  shows "\<exists>m f ws. net_run (matmul_ring_size in0_entries) m (net_start (matmul_progs e a d first num) (\<lambda>_. \<lparr>ms_vec = v, ms_written = []\<rparr>)) f \<and> net_done f \<and>
    ms_written (stores f 2) = ws \<and> list_all2 (\<lambda>t. wrote e a d t 0) [first..<first + num] ws"
proof -
  let ?N = "matmul_ring_size in0_entries" and ?st = "net_start (matmul_progs e a d first num) (\<lambda>_. \<lparr>ms_vec = v, ms_written = []\<rparr>)"
  let ?s = "\<lparr>ms_vec = init_matmul_fp32 v, ms_written = []\<rparr>"
  have end_tile: "w32 (first + num) = first + num" using range by (intro w32_id) simp
  let ?R = "matmul_reader_loop e a d first (first + num)" and ?C = "matmul_compute_loop e a first (first + num)"
  have "progs ?st 0 = [] @ ?R" "exec_list ?N [] (rings ?st, stores ?st 0) = Some (rings ?st, stores ?st 0)"
    "progs ?st 1 = [Do (on_vec init_matmul_fp32)] @ ?C" "exec_list ?N [Do (on_vec init_matmul_fp32)] (rings ?st, stores ?st 1) = Some (rings ?st, ?s)"
    by (simp_all add: net_start_def matmul_progs_def matmul_reader_main_def matmul_compute_main_def end_tile del: on_steps) (simp add: on_vec_def)
  from run_both [OF this] obtain n1 where run1: "net_run ?N n1 ?st (after ?st (rings ?st) ?R ?C ?s)" by blast
  let ?st1 = "after ?st (rings ?st) ?R ?C ?s"
  have rings: "rings ?st1 = (\<lambda>_. ring_init)" by (simp add: net_start_def)
  have empty: "dfb_at ?N (rings ?st1) x 0 [] [] 0 0" for x using dfb_at_init [of ?N x] by (simp add: net_start_def)
  have "between a ?N ?st1"
    using empty init_ready [of v] unfolding between_def drained_def rings
    by (auto simp: net_start_def matmul_progs_def intro: exI [of _ 0])
  moreover have "kernels_at ?st1 ?R ?C (concat (map writer_step [first..<first + num]))"
    by (simp add: kernels_at_def net_start_def matmul_progs_def matmul_writer_main_def writer_step_def [abs_def] end_tile)
  moreover have "0 < ?N In0" "0 < ?N In1" "0 < ?N Out" "ma_a_resident a \<Longrightarrow> ma_Kt a dvd ?N In0"
    using N by (simp_all add: matmul_ring_size_def)
  ultimately obtain n2 f ws where f: "net_run ?N n2 ?st1 f" "net_done f" "list_all2 (\<lambda>t. wrote e a d t 0) [first..<first + num] ws"
      "ms_written (stores f 2) = ms_written (stores ?st1 2) @ ws"
    using matmul_complete [OF env fit, of ?N first "first + num" ?st1 d] by auto
  have "ms_written (stores ?st1 2) = []" by (simp add: net_start_def)
  with f net_run_trans [OF run1 f(1)] show ?thesis by auto
qed

end
