(* ===== verification/MatmulFp32Program.thy ===== *)
theory MatmulFp32Program
  imports MatmulFp32Run ProgramSpec "HOL-Library.Multiset"
begin

text \<open>
  matmul_fp32 from its call to its output: the checks of
  \<open>matmul_fp32_device_operation.cpp\<close>, the program of \<open>matmul_fp32_program_factory.cpp\<close> and the
  tensor every run of that program leaves. A tensor is what ttnn answers of it.
\<close>

section \<open>Validation\<close>

record matmul_tensor =
  mt_allocated :: bool
  mt_float32 :: bool
  mt_tile_layout :: bool
  mt_tile_shape :: "nat \<times> nat"
  mt_transpose_of_faces :: bool
  mt_transpose_within_face :: bool
  mt_interleaved :: bool
  mt_logical :: "nat list"
  mt_padded :: "nat list"
  mt_device :: nat

record matmul_inputs =
  mi_a :: matmul_tensor
  mi_b :: matmul_tensor
  mi_blackhole :: bool
  mi_out_interleaved :: bool

datatype matmul_error =
    MatmulNotAllocated string | MatmulNotFloat32 string | MatmulNotTiled string | MatmulOddTile string
  | MatmulNotInterleaved string | MatmulNoRank string
  | MatmulDevices | MatmulArch | MatmulOutput
  | MatmulContraction "nat list" "nat list" | MatmulPaddedContraction "nat list" "nat list" | MatmulBatch "nat list" "nat list"

definition check_matmul_tensor :: "matmul_tensor \<Rightarrow> string \<Rightarrow> matmul_error + unit" where
  "check_matmul_tensor t name =
     (let ordinary_tile = mt_tile_shape t = (32, 32) \<and> \<not> mt_transpose_of_faces t \<and> \<not> mt_transpose_within_face t in
      if \<not> mt_allocated t then Inl (MatmulNotAllocated name)
      else if \<not> mt_float32 t then Inl (MatmulNotFloat32 name)
      else if \<not> mt_tile_layout t then Inl (MatmulNotTiled name)
      else if \<not> ordinary_tile then Inl (MatmulOddTile name)
      else if \<not> mt_interleaved t then Inl (MatmulNotInterleaved name)
      else if length (mt_logical t) < 2 then Inl (MatmulNoRank name)
      else Inr ())"

text \<open>The dimensions before the last two, and their product.\<close>

definition batch_dims :: "nat list \<Rightarrow> nat list" where
  "batch_dims shape = take (length shape - 2) shape"

definition batch_size :: "nat list \<Rightarrow> nat" where
  "batch_size shape = product32 (batch_dims shape)"

definition same_batch :: "nat list \<Rightarrow> nat list \<Rightarrow> bool" where
  "same_batch a b \<longleftrightarrow> length a = length b \<and> list_all (\<lambda>i. a ! i = b ! i) [0..<length a - 2]"

definition validate_matmul :: "matmul_inputs \<Rightarrow> matmul_error + unit" where
  "validate_matmul i =
     (let a = mi_a i; b = mi_b i in
      case check_matmul_tensor a ''a'' of Inl e \<Rightarrow> Inl e | Inr _ \<Rightarrow>
      (case check_matmul_tensor b ''b'' of Inl e \<Rightarrow> Inl e | Inr _ \<Rightarrow>
       if mt_device a \<noteq> mt_device b then Inl MatmulDevices
       else if \<not> mi_blackhole i then Inl MatmulArch
       else if \<not> mi_out_interleaved i then Inl MatmulOutput
       else if dim_back (mt_logical a) 1 \<noteq> dim_back (mt_logical b) 2 then Inl (MatmulContraction (mt_logical a) (mt_logical b))
       else if dim_back (mt_padded a) 1 \<noteq> dim_back (mt_padded b) 2 then Inl (MatmulPaddedContraction (mt_padded a) (mt_padded b))
       else if batch_size (mt_padded b) \<noteq> 1 \<and> \<not> same_batch (mt_padded a) (mt_padded b) then Inl (MatmulBatch (mt_padded a) (mt_padded b))
       else Inr ()))"

definition matmul_output_shape :: "matmul_inputs \<Rightarrow> nat list" where
  "matmul_output_shape i =
     (let shape = mt_logical (mi_a i) in shape[length shape - 1 := dim_back (mt_logical (mi_b i)) 1])"

section \<open>The program\<close>

definition tile_size :: nat where "tile_size = 4096"
definition max_resident_a_bytes :: nat where "max_resident_a_bytes = 2 ^ 20"

record matmul_plan =
  pl_batch :: nat
  pl_bcast_b :: bool
  pl_Mt :: nat
  pl_Kt :: nat
  pl_Nt :: nat
  pl_a_resident :: bool
  pl_run_width :: nat
  pl_in0_entries :: nat

definition matmul_plan_of :: "matmul_inputs \<Rightarrow> matmul_plan" where
  "matmul_plan_of i =
     (let ashape = mt_padded (mi_a i); bshape = mt_padded (mi_b i);
          Mt = dim_back ashape 2 div 32; Kt = dim_back ashape 1 div 32; Nt = dim_back bshape 1 div 32;
          a_resident = w32 (Kt * tile_size) \<le> max_resident_a_bytes
      in \<lparr>pl_batch = batch_size ashape, pl_bcast_b = (batch_size bshape = 1), pl_Mt = Mt, pl_Kt = Kt, pl_Nt = Nt,
          pl_a_resident = a_resident, pl_run_width = (if a_resident then min 8 Nt else 1),
          pl_in0_entries = (if \<not> a_resident then 2 else if w32 (2 * Kt * tile_size) \<le> max_resident_a_bytes then w32 (2 * Kt) else Kt)\<rparr>)"

definition matmul_work :: "matmul_plan \<Rightarrow> nat" where
  "matmul_work p = w32 (pl_batch p * pl_Mt p * pl_Nt p)"

definition fp32_buffer :: "string \<Rightarrow> nat \<Rightarrow> dfb_spec" where
  "fp32_buffer name entries =
     \<lparr>dfb_id = name, entry_size = tile_size, num_entries = entries, data_format = ''Float32'', tile_format = None\<rparr>"

definition matmul_buffers :: "matmul_plan \<Rightarrow> dfb_spec list" where
  "matmul_buffers p = [fp32_buffer ''in0'' (pl_in0_entries p), fp32_buffer ''in1'' 2, fp32_buffer ''out'' 2]"

definition matmul_common_names :: "string list" where
  "matmul_common_names = [''Mt'', ''Kt'', ''Nt'', ''bcast_b'', ''run_width'', ''a_resident'']"

definition matmul_kernel_dir :: string where
  "matmul_kernel_dir = ''ttnn/cpp/ttnn/operations/experimental/matmul_fp32/device/kernels/''"

definition matmul_reader_spec :: "matmul_inputs \<Rightarrow> kernel_spec" where
  "matmul_reader_spec i =
     \<lparr>kernel_id = ''reader'', kernel_source = matmul_kernel_dir @ ''dataflow/reader_matmul_fp32.cpp'', kernel_defines = [],
      dfb_bindings = [dfb_binding_of ''in0'' ''in0'' Producer, dfb_binding_of ''in1'' ''in1'' Producer],
      tensor_bindings = [(''in0'', ''in0''), (''in1'', ''in1'')],
      compile_time_args = [(''last_ktile_k'', dim_back (mt_logical (mi_a i)) 1 mod 32)],
      runtime_arg_names = [''first_tile'', ''num_tiles''], common_runtime_arg_names = matmul_common_names, kernel_hw = ReaderConfig\<rparr>"

definition matmul_writer_spec :: kernel_spec where
  "matmul_writer_spec =
     \<lparr>kernel_id = ''writer'', kernel_source = matmul_kernel_dir @ ''dataflow/writer_matmul_fp32.cpp'', kernel_defines = [],
      dfb_bindings = [dfb_binding_of ''out'' ''out'' Consumer], tensor_bindings = [(''output'', ''output'')],
      compile_time_args = [], runtime_arg_names = [''first_tile'', ''num_tiles''],
      common_runtime_arg_names = matmul_common_names, kernel_hw = WriterConfig\<rparr>"

definition matmul_compute_config :: compute_config where
  "matmul_compute_config = \<lparr>math_fidelity = ''HiFi4'', math_approx_mode = False, fp32_dest_acc_en = True, packer_l1_acc = False,
     dst_full_sync_en = False, unpack_modes = [(''in0'', ''UnpackToDest''), (''in1'', ''UnpackToDest'')]\<rparr>"

definition matmul_compute_spec :: kernel_spec where
  "matmul_compute_spec =
     \<lparr>kernel_id = ''compute'', kernel_source = matmul_kernel_dir @ ''compute/matmul_fp32.cpp'', kernel_defines = [],
      dfb_bindings = [dfb_binding_of ''in0'' ''in0'' Consumer, dfb_binding_of ''in1'' ''in1'' Consumer, dfb_binding_of ''out'' ''out'' Producer],
      tensor_bindings = [], compile_time_args = [], runtime_arg_names = [''first_tile'', ''num_tiles''],
      common_runtime_arg_names = matmul_common_names, kernel_hw = ComputeConfig matmul_compute_config\<rparr>"

definition matmul_common_args :: "matmul_plan \<Rightarrow> (string \<times> nat) list" where
  "matmul_common_args p = [(''Mt'', pl_Mt p), (''Kt'', pl_Kt p), (''Nt'', pl_Nt p), (''bcast_b'', of_bool (pl_bcast_b p)),
     (''run_width'', pl_run_width p), (''a_resident'', of_bool (pl_a_resident p))]"

definition matmul_run_args :: "matmul_plan \<Rightarrow> work_split \<Rightarrow> kernel_run_args list" where
  "matmul_run_args p s =
     map (\<lambda>name. \<lparr>run_kernel = name,
         node_args = map (\<lambda>(core, first, count). (core, [(''first_tile'', first), (''num_tiles'', count)])) (split_ranges s),
         common_args = matmul_common_args p\<rparr>) [''reader'', ''writer'', ''compute'']"

definition matmul_artifacts :: "matmul_inputs \<Rightarrow> 't \<Rightarrow> 't \<Rightarrow> 't \<Rightarrow> (nat \<Rightarrow> work_split) \<Rightarrow> 't program_artifacts" where
  "matmul_artifacts i a b output split =
     (let p = matmul_plan_of i; s = split (matmul_work p) in
      \<lparr>artifact_spec =
         \<lparr>spec_name = ''matmul_fp32'', spec_kernels = [matmul_reader_spec i, matmul_writer_spec, matmul_compute_spec],
          dataflow_buffers = matmul_buffers p,
          tensor_parameters = [(''in0'', a), (''in1'', b), (''output'', output)],
          work_units = [\<lparr>unit_name = ''main'', unit_kernels = [''reader'', ''writer'', ''compute''], unit_nodes = split_cores s\<rparr>]\<rparr>,
       run_args = matmul_run_args p s,
       tensor_args = [(''in0'', a), (''in1'', b), (''output'', output)]\<rparr>)"

text \<open>The operation: its checks, then the shape of the output and the program.\<close>

definition matmul_fp32 ::
  "matmul_inputs \<Rightarrow> 't \<Rightarrow> 't \<Rightarrow> 't \<Rightarrow> (nat \<Rightarrow> work_split) \<Rightarrow> matmul_error + nat list \<times> 't program_artifacts" where
  "matmul_fp32 i a b output split =
     (case validate_matmul i of Inl e \<Rightarrow> Inl e
      | Inr _ \<Rightarrow> Inr (matmul_output_shape i, matmul_artifacts i a b output split))"

text \<open>The arguments the kernels read.\<close>

definition matmul_kernel_args :: "(string \<times> nat) list \<Rightarrow> (string \<times> nat) list \<Rightarrow> matmul_args" where
  "matmul_kernel_args common compile =
     \<lparr>ma_Mt = get_arg common ''Mt'', ma_Kt = get_arg common ''Kt'', ma_Nt = get_arg common ''Nt'',
      ma_bcast_b = (get_arg common ''bcast_b'' \<noteq> 0), ma_run_width = get_arg common ''run_width'',
      ma_a_resident = (get_arg common ''a_resident'' \<noteq> 0), ma_last_ktile_k = get_arg compile ''last_ktile_k''\<rparr>"

definition matmul_args_of :: "matmul_inputs \<Rightarrow> matmul_args" where
  "matmul_args_of i = matmul_kernel_args (matmul_common_args (matmul_plan_of i)) (compile_time_args (matmul_reader_spec i))"

section \<open>What the kernels read\<close>

definition matmul_reader_interface :: kernel_interface where
  "matmul_reader_interface = \<lparr>reads_compile = [''last_ktile_k''],
     reads_runtime = [''Mt'', ''Kt'', ''Nt'', ''bcast_b'', ''run_width'', ''a_resident'', ''first_tile'', ''num_tiles''],
     reads_dfbs = [''in0'', ''in1''], reads_tensors = [''in0'', ''in1''], reads_defines = []\<rparr>"

definition matmul_compute_interface :: kernel_interface where
  "matmul_compute_interface = \<lparr>reads_compile = [],
     reads_runtime = [''Kt'', ''Nt'', ''run_width'', ''a_resident'', ''first_tile'', ''num_tiles''],
     reads_dfbs = [''in0'', ''in1'', ''out''], reads_tensors = [], reads_defines = []\<rparr>"

definition matmul_writer_interface :: kernel_interface where
  "matmul_writer_interface = \<lparr>reads_compile = [], reads_runtime = [''first_tile'', ''num_tiles''],
     reads_dfbs = [''out''], reads_tensors = [''output''], reads_defines = []\<rparr>"

section \<open>What a call asks beyond its checks\<close>

text \<open>
  ttnn pads the last two dimensions of a tiled tensor to whole tiles; the operands hold
  elements, and \<open>uint32_t\<close> numbers their tiles and a doubled row of A.
\<close>

definition tiles_up :: "nat \<Rightarrow> nat" where
  "tiles_up n = (n + 31) div 32"

definition tiled_shape :: "matmul_tensor \<Rightarrow> bool" where
  "tiled_shape t \<longleftrightarrow> mt_padded t =
     batch_dims (mt_logical t) @ [32 * tiles_up (dim_back (mt_logical t) 2), 32 * tiles_up (dim_back (mt_logical t) 1)]"

definition in_M :: "matmul_inputs \<Rightarrow> nat" where "in_M i = dim_back (mt_logical (mi_a i)) 2"
definition in_K :: "matmul_inputs \<Rightarrow> nat" where "in_K i = dim_back (mt_logical (mi_a i)) 1"
definition in_N :: "matmul_inputs \<Rightarrow> nat" where "in_N i = dim_back (mt_logical (mi_b i)) 1"
definition a_batches :: "matmul_inputs \<Rightarrow> nat" where "a_batches i = prod_list (batch_dims (mt_logical (mi_a i)))"
definition b_batches :: "matmul_inputs \<Rightarrow> nat" where "b_batches i = prod_list (batch_dims (mt_logical (mi_b i)))"

definition matmul_fits :: "matmul_inputs \<Rightarrow> bool" where
  "matmul_fits i \<longleftrightarrow> tiled_shape (mi_a i) \<and> tiled_shape (mi_b i) \<and> 0 \<notin> set (mt_logical (mi_a i)) \<and> 0 \<notin> set (mt_logical (mi_b i)) \<and>
     a_batches i * tiles_up (in_M i) * tiles_up (in_N i) < 2 ^ 32 \<and> a_batches i * tiles_up (in_M i) * tiles_up (in_K i) < 2 ^ 32 \<and>
     b_batches i * tiles_up (in_K i) * tiles_up (in_N i) < 2 ^ 32 \<and> 2 * tiles_up (in_K i) * tile_size < 2 ^ 32"

lemma dim_back_end [simp]: "dim_back (xs @ [x, y]) 1 = y" "dim_back (xs @ [x, y]) (Suc 0) = y" "dim_back (xs @ [x, y]) 2 = x"
  by (simp_all add: dim_back_def nth_append)

lemma batch_dims_end [simp]: "batch_dims (xs @ [x, y]) = xs"
  by (simp add: batch_dims_def)

lemma dims_positive:
  assumes "0 \<notin> set shape" "2 \<le> length shape"
  shows "0 < dim_back shape 1" "0 < dim_back shape 2" "0 \<notin> set (batch_dims shape)" "0 < prod_list (batch_dims shape)"
proof -
  have "dim_back shape 1 \<in> set shape" "dim_back shape 2 \<in> set shape" using assms(2) by (auto simp: dim_back_def)
  then show "0 < dim_back shape 1" "0 < dim_back shape 2" using assms(1) by (metis gr0I)+
  show "0 \<notin> set (batch_dims shape)" using assms(1) by (auto simp: batch_dims_def dest: in_set_takeD)
  then show "0 < prod_list (batch_dims shape)" by (metis gr0I prod_list_zero_iff)
qed

lemma tiles_up_positive: "0 < n \<Longrightarrow> 0 < tiles_up n"
  by (simp add: tiles_up_def div_greater_zero_iff)

lemma factor_less: "a * x < (b :: nat) \<Longrightarrow> 0 < x \<Longrightarrow> a < b"
  by (metis le_less_trans mult_le_mono2 nat_mult_1_right Suc_leI One_nat_def)

lemma validated_ranks:
  assumes "validate_matmul i = Inr ()"
  shows "2 \<le> length (mt_logical (mi_a i))" "2 \<le> length (mt_logical (mi_b i))"
    and "dim_back (mt_logical (mi_b i)) 2 = in_K i" and "batch_size (mt_padded (mi_b i)) = 1 \<or> same_batch (mt_padded (mi_a i)) (mt_padded (mi_b i))"
  using assms by (auto simp: validate_matmul_def check_matmul_tensor_def in_K_def Let_def split: sum.splits if_splits)

text \<open>The sizes of a validated call that fits.\<close>

lemma call_sizes:
  assumes v: "validate_matmul i = Inr ()" and fits: "matmul_fits i"
  shows "0 < in_M i" "0 < in_K i" "0 < in_N i" "0 < a_batches i" "0 < b_batches i" "a_batches i < 2 ^ 32" "b_batches i < 2 ^ 32"
    "batch_size (mt_padded (mi_a i)) = a_batches i" "batch_size (mt_padded (mi_b i)) = b_batches i"
    "b_batches i = 1 \<or> b_batches i = a_batches i" "tiles_up (in_M i) * tiles_up (in_N i) < 2 ^ 32"
proof -
  note f = fits [unfolded matmul_fits_def] and r = validated_ranks [OF v]
  have nz: "0 \<notin> set (mt_logical (mi_a i))" "0 \<notin> set (mt_logical (mi_b i))" using f by blast+
  note da = dims_positive [OF nz(1) r(1)] and db = dims_positive [OF nz(2) r(2)]
  show pos: "0 < in_M i" "0 < in_K i" "0 < in_N i" "0 < a_batches i" "0 < b_batches i"
    using da db by (simp_all add: in_M_def in_K_def in_N_def a_batches_def b_batches_def)
  note t = tiles_up_positive [OF pos(1)] tiles_up_positive [OF pos(2)] tiles_up_positive [OF pos(3)]
  have "a_batches i * (tiles_up (in_M i) * tiles_up (in_N i)) < 2 ^ 32" "b_batches i * (tiles_up (in_K i) * tiles_up (in_N i)) < 2 ^ 32"
    using f by (simp_all add: mult.assoc)
  then show small: "a_batches i < 2 ^ 32" "b_batches i < 2 ^ 32" using t by (auto intro: factor_less)
  have "tiles_up (in_M i) * tiles_up (in_N i) * a_batches i < 2 ^ 32" using f by (simp add: ac_simps)
  then show "tiles_up (in_M i) * tiles_up (in_N i) < 2 ^ 32" using pos(4) by (rule factor_less)
  have pad: "batch_dims (mt_padded (mi_a i)) = batch_dims (mt_logical (mi_a i))" "batch_dims (mt_padded (mi_b i)) = batch_dims (mt_logical (mi_b i))"
    using f by (simp_all add: tiled_shape_def)
  show ba: "batch_size (mt_padded (mi_a i)) = a_batches i" and bb: "batch_size (mt_padded (mi_b i)) = b_batches i"
    using product32_exact [OF da(3)] product32_exact [OF db(3)] small by (simp_all add: batch_size_def pad a_batches_def b_batches_def)
  have "b_batches i = a_batches i" if s: "same_batch (mt_padded (mi_a i)) (mt_padded (mi_b i))"
  proof -
    let ?n = "length (mt_padded (mi_a i))"
    have "take (?n - 2) (mt_padded (mi_a i)) = take (?n - 2) (mt_padded (mi_b i))"
      using s by (intro nth_equalityI) (auto simp: same_batch_def list_all_iff)
    then have "batch_dims (mt_padded (mi_a i)) = batch_dims (mt_padded (mi_b i))" using s by (simp add: batch_dims_def same_batch_def)
    then show ?thesis by (simp add: a_batches_def b_batches_def pad)
  qed
  then show "b_batches i = 1 \<or> b_batches i = a_batches i" using r(4) bb by auto
qed

lemma call_args:
  assumes v: "validate_matmul i = Inr ()" and fits: "matmul_fits i"
  shows "ma_Mt (matmul_args_of i) = tiles_up (in_M i)" "ma_Kt (matmul_args_of i) = tiles_up (in_K i)" "ma_Nt (matmul_args_of i) = tiles_up (in_N i)"
    "ma_bcast_b (matmul_args_of i) \<longleftrightarrow> b_batches i = 1" "ma_last_ktile_k (matmul_args_of i) = in_K i mod 32"
    "matmul_fit (matmul_args_of i)" "0 < pl_in0_entries (matmul_plan_of i)"
    "ma_a_resident (matmul_args_of i) \<Longrightarrow> ma_Kt (matmul_args_of i) dvd pl_in0_entries (matmul_plan_of i)"
    "matmul_work (matmul_plan_of i) = a_batches i * tiles_up (in_M i) * tiles_up (in_N i)"
proof -
  note f = fits [unfolded matmul_fits_def] and sizes = call_sizes [OF v fits]
  have p: "pl_Mt (matmul_plan_of i) = tiles_up (in_M i)" "pl_Kt (matmul_plan_of i) = tiles_up (in_K i)" "pl_Nt (matmul_plan_of i) = tiles_up (in_N i)"
    "pl_batch (matmul_plan_of i) = a_batches i" "pl_bcast_b (matmul_plan_of i) \<longleftrightarrow> b_batches i = 1"
    using f sizes(8,9) by (simp_all add: matmul_plan_of_def Let_def tiled_shape_def in_M_def in_K_def in_N_def)
  note t = tiles_up_positive [OF sizes(1)] tiles_up_positive [OF sizes(2)] tiles_up_positive [OF sizes(3)]
  have Kt: "dim_back (mt_padded (mi_a i)) 1 div 32 = tiles_up (in_K i)" using f by (simp add: tiled_shape_def in_K_def)
  have width: "0 < pl_run_width (matmul_plan_of i)" using t(3) p(3) by (auto simp: matmul_plan_of_def Let_def)
  have "2 * tiles_up (in_K i) * tile_size < 2 ^ 32" using f by blast
  then have w: "w32 (2 * tiles_up (in_K i)) = 2 * tiles_up (in_K i)" by (intro w32_id) (simp add: tile_size_def)
  have e: "pl_in0_entries (matmul_plan_of i) = (if \<not> pl_a_resident (matmul_plan_of i) then 2
      else if w32 (2 * tiles_up (in_K i) * tile_size) \<le> max_resident_a_bytes then 2 * tiles_up (in_K i) else tiles_up (in_K i))"
    by (simp add: matmul_plan_of_def Let_def Kt w del: One_nat_def)
  show args: "ma_Mt (matmul_args_of i) = tiles_up (in_M i)" "ma_Kt (matmul_args_of i) = tiles_up (in_K i)" "ma_Nt (matmul_args_of i) = tiles_up (in_N i)"
    "ma_bcast_b (matmul_args_of i) \<longleftrightarrow> b_batches i = 1" "ma_last_ktile_k (matmul_args_of i) = in_K i mod 32"
    by (simp_all add: matmul_args_of_def matmul_kernel_args_def matmul_common_args_def get_arg_def matmul_reader_spec_def p in_K_def)
  have rest: "ma_run_width (matmul_args_of i) = pl_run_width (matmul_plan_of i)" "ma_a_resident (matmul_args_of i) = pl_a_resident (matmul_plan_of i)"
    by (simp_all add: matmul_args_of_def matmul_kernel_args_def matmul_common_args_def get_arg_def)
  show "matmul_fit (matmul_args_of i)" using t width sizes(11) by (simp add: matmul_fit_def args rest)
  show "0 < pl_in0_entries (matmul_plan_of i)" "ma_a_resident (matmul_args_of i) \<Longrightarrow> ma_Kt (matmul_args_of i) dvd pl_in0_entries (matmul_plan_of i)"
    using t(2) by (simp_all add: e rest args)
  show "matmul_work (matmul_plan_of i) = a_batches i * tiles_up (in_M i) * tiles_up (in_N i)"
    unfolding matmul_work_def p using f by (intro w32_id) simp
qed

section \<open>The product\<close>

text \<open>Element \<open>(b, y, x)\<close> of a tiled tensor of \<open>Rt\<close> by \<open>Ct\<close> tiles.\<close>

definition tensor_elem :: "(nat \<Rightarrow> tile_words) \<Rightarrow> nat \<Rightarrow> nat \<Rightarrow> nat \<Rightarrow> nat \<Rightarrow> nat \<Rightarrow> u32" where
  "tensor_elem pages Rt Ct b y x = page_elem (pages ((b * Rt + y div 32) * Ct + x div 32)) (y mod 32) (x mod 32)"

text \<open>A row of A by a column of B, of \<open>K\<close> elements, with zeros to the end of the last tile.\<close>

definition dot_product :: "(u32 \<Rightarrow> u32 \<Rightarrow> u32 \<Rightarrow> u32) \<Rightarrow> nat \<Rightarrow> (nat \<Rightarrow> u32) \<Rightarrow> (nat \<Rightarrow> u32) \<Rightarrow> u32" where
  "dot_product mad K a b = mad_row mad (\<lambda>k. if k < K then a k else 0) (\<lambda>k. if k < K then b k else 0) (32 * tiles_up K) 0"

definition matmul_elem :: "matmul_env \<Rightarrow> matmul_inputs \<Rightarrow> matmul_dram \<Rightarrow> nat \<Rightarrow> nat \<Rightarrow> nat \<Rightarrow> u32" where
  "matmul_elem e i d b y x = dot_product (me_mad e) (in_K i)
     (\<lambda>k. tensor_elem (md_a d) (tiles_up (in_M i)) (tiles_up (in_K i)) b y k)
     (\<lambda>k. tensor_elem (md_b d) (tiles_up (in_K i)) (tiles_up (in_N i)) (if b_batches i = 1 then 0 else b) k x)"

lemma last_ktile:
  assumes "0 < K" "k < 32 * tiles_up K"
  shows "k < K \<longleftrightarrow> (k div 32 = tiles_up K - 1 \<and> 0 < K mod 32 \<longrightarrow> k mod 32 < K mod 32)"
proof -
  have less: "32 * p + s < 32 * q + r \<longleftrightarrow> p < q \<or> p = q \<and> s < r" if "s < 32" "r < 32" for p q r s :: nat
    using that by (cases p q rule: linorder_cases) auto
  have "k < K \<longleftrightarrow> k div 32 < K div 32 \<or> k div 32 = K div 32 \<and> k mod 32 < K mod 32"
    using less [of "k mod 32" "K mod 32" "k div 32" "K div 32"] by simp
  moreover have "tiles_up K = (if K mod 32 = 0 then K div 32 else K div 32 + 1)"
  proof -
    have "(32 * q + r + 31) div 32 = (if r = 0 then q else q + 1)" if "r < 32" for q r :: nat using that by auto
    from this [of "K mod 32" "K div 32"] show ?thesis by (simp add: tiles_up_def)
  qed
  moreover have "k div 32 < tiles_up K" using assms(2) by (simp add: less_mult_imp_div_less)
  ultimately show ?thesis using assms(1) by (auto split: if_splits)
qed

lemma read_a_elem:
  assumes env: "env_ok e" and v: "validate_matmul i = Inr ()" and fits: "matmul_fits i"
    and t: "t = (b * tiles_up (in_M i) + mt) * tiles_up (in_N i) + nt" "b < a_batches i" "mt < tiles_up (in_M i)" "nt < tiles_up (in_N i)"
    and k: "k < 32 * tiles_up (in_K i)" and r: "r < 32"
  shows "page_elem (read_a e (matmul_args_of i) d t (k div 32)) r (k mod 32) =
    (if k < in_K i then tensor_elem (md_a d) (tiles_up (in_M i)) (tiles_up (in_K i)) b (32 * mt + r) k else 0)"
proof -
  let ?a = "matmul_args_of i" and ?K = "in_K i"
  note args = call_args [OF v fits] and f = fits [unfolded matmul_fits_def] and sizes = call_sizes [OF v fits]
  have parts: "t div ma_Nt ?a div ma_Mt ?a = b" "t div ma_Nt ?a mod ma_Mt ?a = mt"
    using t(3,4) by (simp_all add: args t(1) index_div index_mod)
  have kt: "k div 32 < tiles_up ?K" using k by (simp add: less_mult_imp_div_less)
  have row: "(b * tiles_up (in_M i) + mt) * tiles_up ?K + k div 32 < a_batches i * tiles_up (in_M i) * tiles_up ?K"
    by (rule index_less_product [OF index_less_product [OF t(2,3)] kt])
  also have "\<dots> < 2 ^ 32" using f by blast
  finally have small: "(b * tiles_up (in_M i) + mt) * tiles_up ?K + k div 32 < 4294967296" by simp
  have "(b * tiles_up (in_M i) + mt) * tiles_up ?K < 4294967296" using small by linarith
  then have "a_row ?a t = (b * tiles_up (in_M i) + mt) * tiles_up ?K"
    unfolding a_row_def tile_parts [OF args(6)] parts by (simp add: args w32_id)
  then have page: "w32 (a_row ?a t + k div 32) = (b * tiles_up (in_M i) + mt) * tiles_up ?K + k div 32"
    using small by (simp add: w32_id)
  have at: "(32 * mt + r) div 32 = mt" "(32 * mt + r) mod 32 = r" using r by simp_all
  have pad: "page_elem (me_pad_last_ktile e n p) r (k mod 32) = (if k mod 32 < n then page_elem p r (k mod 32) else 0)" for n p
    using env r by (simp add: env_ok_def)
  show ?thesis
    unfolding last_ktile [OF sizes(2) k] by (simp add: read_a_def page pad_a_def pad args tensor_elem_def at mod_less [OF r] Let_def)
qed

lemma read_b_elem:
  assumes env: "env_ok e" and v: "validate_matmul i = Inr ()" and fits: "matmul_fits i"
    and t: "t = (b * tiles_up (in_M i) + mt) * tiles_up (in_N i) + nt" "b < a_batches i" "mt < tiles_up (in_M i)" "nt < tiles_up (in_N i)"
    and k: "k < 32 * tiles_up (in_K i)" and c: "c < 32"
  shows "page_elem (read_b e (matmul_args_of i) d t 0 (k div 32)) (k mod 32) c =
    (if k < in_K i then tensor_elem (md_b d) (tiles_up (in_K i)) (tiles_up (in_N i)) (if b_batches i = 1 then 0 else b) k (32 * nt + c) else 0)"
proof -
  let ?a = "matmul_args_of i" and ?K = "in_K i" and ?b = "if b_batches i = 1 then 0 else b"
  note args = call_args [OF v fits] and f = fits [unfolded matmul_fits_def] and sizes = call_sizes [OF v fits]
  have parts: "t div ma_Nt ?a div ma_Mt ?a = b" "t mod ma_Nt ?a = nt"
    using t(3,4) by (simp_all add: args t(1) index_div index_mod)
  have kt: "k div 32 < tiles_up ?K" using k by (simp add: less_mult_imp_div_less)
  have "?b < b_batches i" using sizes(5,10) t(2) by auto
  from index_less_product [OF index_less_product [OF this kt] t(4)]
  have "(?b * tiles_up ?K + k div 32) * tiles_up (in_N i) + nt < b_batches i * tiles_up ?K * tiles_up (in_N i)" .
  also have "\<dots> < 2 ^ 32" using f by blast
  finally have small: "(?b * tiles_up ?K + k div 32) * tiles_up (in_N i) + nt < 4294967296" by simp
  have "b_base ?a t = w32 (?b * tiles_up ?K * tiles_up (in_N i) + nt)"
    unfolding b_base_def tile_parts [OF args(6)] parts args(4) by (simp add: args)
  then have "w32 (b_base ?a t + k div 32 * ma_Nt ?a + 0) = w32 (?b * tiles_up ?K * tiles_up (in_N i) + nt + k div 32 * tiles_up (in_N i))"
    by (simp add: w32_add_left args)
  also have "?b * tiles_up ?K * tiles_up (in_N i) + nt + k div 32 * tiles_up (in_N i) = (?b * tiles_up ?K + k div 32) * tiles_up (in_N i) + nt"
    by (simp add: distrib_right)
  finally have page: "w32 (b_base ?a t + k div 32 * ma_Nt ?a + 0) = (?b * tiles_up ?K + k div 32) * tiles_up (in_N i) + nt"
    using small by (simp only: w32_id)
  have at: "(32 * nt + c) div 32 = nt" "(32 * nt + c) mod 32 = c" using c by simp_all
  have pad: "page_elem (me_pad_last_transposed_ktile e n p) (k mod 32) c = (if k mod 32 < n then page_elem p (k mod 32) c else 0)" for n p
    using env c by (simp add: env_ok_def)
  show ?thesis
    unfolding last_ktile [OF sizes(2) k] read_b_def page by (simp add: pad args tensor_elem_def at mod_less [OF c] Let_def)
qed

lemma tile_spec_elem:
  assumes env: "env_ok e" and v: "validate_matmul i = Inr ()" and fits: "matmul_fits i"
    and b: "b < a_batches i" and y: "y < in_M i" and x: "x < in_N i"
  shows "tile_spec e (matmul_args_of i) d ((b * tiles_up (in_M i) + y div 32) * tiles_up (in_N i) + x div 32) 0 (y mod 32) (x mod 32) =
    matmul_elem e i d b y x"
proof -
  note args = call_args [OF v fits]
  have t: "y div 32 < tiles_up (in_M i)" "x div 32 < tiles_up (in_N i)" using y x by (simp_all add: tiles_up_def)
  have rc: "y mod 32 < 32" "x mod 32 < 32" by simp_all
  show ?thesis
    unfolding tile_spec_def matmul_elem_def dot_product_def mad_row_def args(2)
    by (rule foldl_cong) (simp_all add: read_a_elem [OF env v fits refl b t _ rc(1)] read_b_elem [OF env v fits refl b t _ rc(2)])
qed

section \<open>The output\<close>

definition matmul_core :: "matmul_env \<Rightarrow> matmul_inputs \<Rightarrow> matmul_dram \<Rightarrow> nat \<Rightarrow> nat \<Rightarrow> (nat \<times> tile_words) list \<Rightarrow> bool" where
  "matmul_core e i d first num ws \<longleftrightarrow>
     (let N = matmul_ring_size (pl_in0_entries (matmul_plan_of i)) in
      \<exists>v n f. net_run N n (net_start (matmul_progs e (matmul_args_of i) d first num) (\<lambda>_. \<lparr>ms_vec = v, ms_written = []\<rparr>)) f \<and>
        net_stuck N f \<and> ws = ms_written (stores f 2))"

definition matmul_cores :: "matmul_env \<Rightarrow> matmul_inputs \<Rightarrow> matmul_dram \<Rightarrow> work_split \<Rightarrow> (nat \<times> tile_words) list list \<Rightarrow> bool" where
  "matmul_cores e i d s wss \<longleftrightarrow> list_all2 (\<lambda>(core, first, num) ws. matmul_core e i d first num ws) (split_ranges s) wss"

text \<open>The pages after writes of whole pages that landed in some order.\<close>

definition store_page :: "nat \<times> tile_words \<Rightarrow> (nat \<Rightarrow> tile_words) \<Rightarrow> nat \<Rightarrow> tile_words" where
  "store_page w m = m(fst w := snd w)"

definition tiles_landed :: "(nat \<times> tile_words) list \<Rightarrow> (nat \<Rightarrow> tile_words) \<Rightarrow> (nat \<Rightarrow> tile_words) \<Rightarrow> bool" where
  "tiles_landed ws m m' \<longleftrightarrow> (\<exists>order. mset order = mset ws \<and> m' = fold store_page order m)"

lemma landed_page:
  assumes "tiles_landed ws m m'" "distinct (map fst ws)" "(t, p) \<in> set ws"
  shows "m' t = p"
proof -
  from assms(1) obtain order where order: "mset order = mset ws" "m' = fold store_page order m" by (auto simp: tiles_landed_def)
  have "mset (map fst order) = mset (map fst ws)" using order(1) by simp
  then have "distinct (map fst order)" using assms(2) by (metis mset_eq_imp_distinct_iff)
  moreover have "(t, p) \<in> set order" using order(1) assms(3) by (metis set_mset_mset)
  moreover have "distinct (map fst xs) \<Longrightarrow> (t, p) \<in> set xs \<Longrightarrow> fold store_page xs m t = p" for xs
  proof (induction xs arbitrary: m)
    case (Cons x xs)
    have untouched: "t \<notin> fst ` set xs \<Longrightarrow> fold store_page xs m t = m t" for m
      by (induction xs arbitrary: m) (auto simp: store_page_def)
    show ?case
    proof (cases "x = (t, p)")
      case True
      then have "t \<notin> fst ` set xs" using Cons.prems(1) by simp
      then have "fold store_page xs (store_page x m) t = store_page x m t" by (rule untouched)
      then show ?thesis using True by (simp add: store_page_def [of "(t, p)"])
    next
      case False
      then show ?thesis using Cons by simp
    qed
  qed simp
  ultimately show ?thesis by (simp add: order(2))
qed

lemma matmul_range:
  assumes v: "validate_matmul i = Inr ()" and fits: "matmul_fits i" and split: "split_ok (matmul_work (matmul_plan_of i)) s"
    and range: "(core, first, num) \<in> set (split_ranges s)"
  shows "first + num < 2 ^ 32"
proof -
  have "matmul_work (matmul_plan_of i) < 2 ^ 32" using call_args(9) [OF v fits] fits by (simp add: matmul_fits_def)
  then show ?thesis using split_range_bound [OF split range] by linarith
qed

lemma matmul_core_tiles:
  assumes env: "env_ok e" and v: "validate_matmul i = Inr ()" and fits: "matmul_fits i" and "first + num < 2 ^ 32"
    and "matmul_core e i d first num ws"
  shows "list_all2 (\<lambda>t. wrote e (matmul_args_of i) d t 0) [first..<first + num] ws"
proof -
  let ?N = "matmul_ring_size (pl_in0_entries (matmul_plan_of i))" and ?P = "matmul_progs e (matmul_args_of i) d first num"
  note args = call_args [OF v fits]
  from assms(5) obtain u n f where
    f: "net_run ?N n (net_start ?P (\<lambda>_. \<lparr>ms_vec = u, ms_written = []\<rparr>)) f" "net_stuck ?N f" "ws = ms_written (stores f 2)"
    by (auto simp: matmul_core_def Let_def)
  from matmul_runs [OF env args(6) assms(4) args(7,8), of d u] obtain m g where
    g: "net_run ?N m (net_start ?P (\<lambda>_. \<lparr>ms_vec = u, ms_written = []\<rparr>)) g" "net_done g"
      "list_all2 (\<lambda>t. wrote e (matmul_args_of i) d t 0) [first..<first + num] (ms_written (stores g 2))" by blast
  from one_run_decides [OF g(1,2) net_start_ok [OF matmul_owned] f(1)] f(2) have "f = g" by blast
  with g(3) f(3) show ?thesis by simp
qed

lemma list_all2_concat: "list_all2 (list_all2 P) xss yss \<Longrightarrow> list_all2 P (concat xss) (concat yss)"
  by (induction rule: list_all2_induct) (auto intro: list_all2_appendI)

lemma matmul_cores_tiles:
  assumes env: "env_ok e" and v: "validate_matmul i = Inr ()" and fits: "matmul_fits i"
    and split: "split_ok (matmul_work (matmul_plan_of i)) s" and cores: "matmul_cores e i d s wss"
  shows "list_all2 (\<lambda>t. wrote e (matmul_args_of i) d t 0) [0..<matmul_work (matmul_plan_of i)] (concat wss)"
proof -
  let ?P = "\<lambda>t. wrote e (matmul_args_of i) d t 0"
  have "list_all2 (list_all2 ?P) (map (\<lambda>(core, first, num). [first..<first + num]) (split_ranges s)) wss"
    unfolding list_all2_map1
  proof (rule list.rel_mono_strong [OF cores [unfolded matmul_cores_def]])
    fix r ws assume "r \<in> set (split_ranges s)" "(\<lambda>(core, first, num) ws. matmul_core e i d first num ws) r ws"
    moreover obtain core first num where r: "r = (core, first, num)" by (cases r) auto
    ultimately have range: "(core, first, num) \<in> set (split_ranges s)" and core: "matmul_core e i d first num ws" by simp_all
    from matmul_core_tiles [OF env v fits matmul_range [OF v fits split range] core]
    show "list_all2 ?P (case r of (core, first, num) \<Rightarrow> [first..<first + num]) ws" by (simp add: r)
  qed
  from list_all2_concat [OF this] show ?thesis unfolding split_items [OF split] .
qed

lemma matmul_fp32_call:
  assumes "matmul_fp32 i a b output split = Inr (shape, prog)"
  shows "validate_matmul i = Inr ()" "shape = matmul_output_shape i" "prog = matmul_artifacts i a b output split"
  using assms by (auto simp: matmul_fp32_def split: sum.splits)

text \<open>
  C26: Every element of the output of matmul_fp32 is the sum, by multiply-adds in the order of
  the contraction, of its row of A and its column of B, with zeros in place of what the tiles
  hold past the contraction's end; whatever the split over the cores, the interleaving of the
  kernels, what Dst holds when it is acquired and the order in which the writes land.
\<close>

theorem matmul_result:
  assumes "matmul_fp32 i ta tb tout split = Inr (shape, prog)" and "matmul_fits i" and "env_ok e"
    and "\<forall>work. split_ok work (split work)"
    and "matmul_cores e i d (split (matmul_work (matmul_plan_of i))) wss" and "tiles_landed (concat wss) m m'"
    and "b < a_batches i" and "y < in_M i" and "x < in_N i"
  shows "shape = batch_dims (mt_logical (mi_a i)) @ [in_M i, in_N i] \<and>
    tensor_elem m' (tiles_up (in_M i)) (tiles_up (in_N i)) b y x = matmul_elem e i d b y x"
proof
  note call = matmul_fp32_call [OF assms(1)]
  note v = call(1) and fits = assms(2) and args = call_args [OF call(1) assms(2)]
  let ?s = "mt_logical (mi_a i)" and ?t = "(b * tiles_up (in_M i) + y div 32) * tiles_up (in_N i) + x div 32"
  have len: "2 \<le> length ?s" using validated_ranks(1) [OF v] .
  then have "?s = batch_dims ?s @ [in_M i, in_K i]"
    unfolding batch_dims_def in_M_def in_K_def dim_back_def
    by (intro nth_equalityI) (auto simp: nth_append nth_Cons split: nat.splits intro: arg_cong [where f = "(!) ?s"])
  then obtain bs where bs: "?s = bs @ [in_M i, in_K i]" by blast
  then show "shape = batch_dims ?s @ [in_M i, in_N i]"
    by (simp add: call(2) matmul_output_shape_def bs list_update_append in_N_def)
  have tiles: "list_all2 (\<lambda>t. wrote e (matmul_args_of i) d t 0) [0..<matmul_work (matmul_plan_of i)] (concat wss)"
    by (rule matmul_cores_tiles [OF assms(3) v fits _ assms(5)]) (use assms(4) in blast)
  then have len_ws: "length (concat wss) = matmul_work (matmul_plan_of i)"
    and at: "\<And>t. t < matmul_work (matmul_plan_of i) \<Longrightarrow> wrote e (matmul_args_of i) d t 0 (concat wss ! t)"
    by (auto simp: list_all2_conv_all_nth)
  have "map fst (concat wss) = [0..<matmul_work (matmul_plan_of i)]"
    by (rule nth_equalityI) (use len_ws at in \<open>simp_all add: wrote_def\<close>)
  then have distinct: "distinct (map fst (concat wss))" by simp
  have "y div 32 < tiles_up (in_M i)" "x div 32 < tiles_up (in_N i)" using assms(8,9) by (simp_all add: tiles_up_def)
  then have t: "?t < matmul_work (matmul_plan_of i)"
    unfolding args(9) by (intro index_less_product assms(7))
  from at [OF t] have w: "fst (concat wss ! ?t) = ?t"
    "page_elem (snd (concat wss ! ?t)) (y mod 32) (x mod 32) = tile_spec e (matmul_args_of i) d ?t 0 (y mod 32) (x mod 32)"
    by (simp_all add: wrote_def)
  have "concat wss ! ?t \<in> set (concat wss)" using t len_ws by (metis nth_mem)
  then have "(?t, snd (concat wss ! ?t)) \<in> set (concat wss)" using w(1) by (metis prod.collapse)
  from landed_page [OF assms(6) distinct this]
  show "tensor_elem m' (tiles_up (in_M i)) (tiles_up (in_N i)) b y x = matmul_elem e i d b y x"
    by (simp add: tensor_elem_def w(2) tile_spec_elem [OF assms(3) v fits assms(7-9)])
qed

text \<open>
  C28: No core of matmul_fp32 waits for ever: every run of its three kernels is bounded, and
  where none can step all have come to their ends.
\<close>

theorem matmul_ends:
  assumes "matmul_fp32 i ta tb tout split = Inr (shape, prog)" and "matmul_fits i" and "env_ok e"
    and "\<forall>work. split_ok work (split work)"
    and "(core, first, num) \<in> set (split_ranges (split (matmul_work (matmul_plan_of i))))"
  shows "\<exists>bound. \<forall>n f. net_run (matmul_ring_size (pl_in0_entries (matmul_plan_of i))) n
      (net_start (matmul_progs e (matmul_args_of i) d first num) (\<lambda>_. \<lparr>ms_vec = u, ms_written = []\<rparr>)) f \<longrightarrow>
    n \<le> bound \<and> (net_stuck (matmul_ring_size (pl_in0_entries (matmul_plan_of i))) f \<longrightarrow> net_done f)"
proof -
  note v = matmul_fp32_call(1) [OF assms(1)]
  note args = call_args [OF v assms(2)]
  have "first + num < 2 ^ 32" by (rule matmul_range [OF v assms(2) _ assms(5)]) (use assms(4) in blast)
  from matmul_runs [OF assms(3) args(6) this args(7,8), of d u] obtain m g where
    g: "net_run (matmul_ring_size (pl_in0_entries (matmul_plan_of i))) m
      (net_start (matmul_progs e (matmul_args_of i) d first num) (\<lambda>_. \<lparr>ms_vec = u, ms_written = []\<rparr>)) g" "net_done g" by blast
  from one_run_decides [OF g net_start_ok [OF matmul_owned]] g(2) show ?thesis by blast
qed

section \<open>An instance\<close>

text \<open>The platform's padding and transpose as they are documented, and a multiply-add of integers.\<close>

definition word_row :: "nat \<Rightarrow> nat" where "word_row w = 16 * (w div 512) + w div 16 mod 16"
definition word_col :: "nat \<Rightarrow> nat" where "word_col w = 16 * (w div 256 mod 2) + w mod 16"

definition example_env :: matmul_env where
  "example_env = \<lparr>me_mad = (\<lambda>b a x. b * a + x),
     me_pad_last_ktile = (\<lambda>n p w. if word_col w < n then p w else 0),
     me_pad_last_transposed_ktile = (\<lambda>n p w. if word_row w < n then p w else 0),
     me_transpose_dest = (\<lambda>t d R C. if R div 64 = t \<and> C < 16
       then tile_at d t (16 * (R mod 64 div 16 mod 2) + C) (16 * (R mod 64 div 32) + R mod 16) else d R C),
     me_acquired = (\<lambda>_ _ _. 7)\<rparr>"

lemma element_index:
  assumes "r < 32" "c < (32 :: nat)"
  defines "w \<equiv> 16 * (16 * (2 * (r div 16) + c div 16) + r mod 16) + c mod 16" and "R \<equiv> 16 * (2 * (r div 16) + c div 16) + r mod 16"
  shows "word_row w = r" "word_col w = c" "R div 16 mod 2 = c div 16" "R div 32 = r div 16" "R mod 16 = r mod 16" "R < 64"
proof -
  show small: "R < 64" unfolding R_def by (rule element_word(1) [OF assms(1,2)])
  have parts: "r div 16 < 2" "c div 16 < 2" using assms(1,2) by (simp_all add: less_mult_imp_div_less)
  have R16: "R div 16 = 2 * (r div 16) + c div 16" by (simp add: R_def)
  have Rm: "R mod 16 = r mod 16" unfolding R_def mod_mult_self4 by simp
  then show "R mod 16 = r mod 16" "R div 16 mod 2 = c div 16" using Rm parts(2) by (simp_all add: R16)
  have "R div 32 = R div 16 div 2" by (simp add: div_mult2_eq [symmetric])
  then show R32: "R div 32 = r div 16" using R16 parts(2) by simp
  have w: "w div 16 = R" "w mod 16 = c mod 16" unfolding w_def R_def [symmetric] by simp_all
  have "w div 512 = w div 16 div 32" "w div 256 = w div 16 div 16" by (simp_all add: div_mult2_eq [symmetric])
  then show "word_row w = r" "word_col w = c"
    using w R16 Rm R32 parts(2) by (simp_all add: word_row_def word_col_def)
qed

lemma example_env_ok: "env_ok example_env"
proof -
  have pads: "page_elem (me_pad_last_ktile example_env n p) r c = (if c < n then page_elem p r c else 0)"
    "page_elem (me_pad_last_transposed_ktile example_env n p) r c = (if r < n then page_elem p r c else 0)" if "r < 32" "c < 32" for n p r c
    using element_index(1,2) [OF that] by (simp_all add: example_env_def page_elem_def)
  have tr: "tile_at (me_transpose_dest example_env t d) t' r c = (if t' = t then tile_at d t c r else tile_at d t' r c)"
    if rc: "r < 32" "c < 32" for t d t' r c
  proof -
    define R where "R = 16 * (2 * (r div 16) + c div 16) + r mod 16"
    note i = element_index(3-6) [OF rc, folded R_def]
    have R: "(64 * t' + R) div 64 = t'" "(64 * t' + R) mod 64 = R" using i(4) by simp_all
    have m16: "(64 * x + R) mod 16 = r mod 16" for x
      using mod_mult_self4 [of 16 "4 * x" R] i(3) by (simp add: mult.assoc [symmetric])
    have at: "tile_at d' t' r c = d' (64 * t' + R) (c mod 16)" for d'
      unfolding tile_at_def tile_rows_def R_def by (simp only: add.assoc)
    have rc': "16 * (c div 16) + c mod 16 = c" "16 * (r div 16) + r mod 16 = r" by simp_all
    show ?thesis unfolding at by (simp add: example_env_def R m16 i rc')
  qed
  show ?thesis unfolding env_ok_def using pads tr by simp
qed

definition example_operand :: matmul_tensor where
  "example_operand = \<lparr>mt_allocated = True, mt_float32 = True, mt_tile_layout = True, mt_tile_shape = (32, 32),
     mt_transpose_of_faces = False, mt_transpose_within_face = False, mt_interleaved = True,
     mt_logical = [3, 3], mt_padded = [32, 32], mt_device = 0\<rparr>"

definition example_product :: matmul_inputs where
  "example_product = \<lparr>mi_a = example_operand, mi_b = example_operand, mi_blackhole = True, mi_out_interleaved = True\<rparr>"

lemma example_product_call:
  "matmul_fp32 example_product ''a'' ''b'' ''c'' one_core = Inr ([3, 3], matmul_artifacts example_product ''a'' ''b'' ''c'' one_core)"
  "matmul_fits example_product"
  by (simp_all add: matmul_fp32_def validate_matmul_def check_matmul_tensor_def example_product_def example_operand_def dim_back_def
      batch_size_def batch_dims_def product32_def matmul_output_shape_def matmul_fits_def tiled_shape_def tiles_up_def tile_size_def
      in_M_def in_K_def in_N_def a_batches_def b_batches_def Let_def w32_def)

lemma example_product_sizes: "in_M example_product = 3" "in_K example_product = 3" "in_N example_product = 3" "a_batches example_product = 1"
    "b_batches example_product = 1" "tiles_up 3 = 1"
  by (simp_all add: in_M_def in_K_def in_N_def a_batches_def b_batches_def batch_dims_def example_product_def example_operand_def dim_back_def tiles_up_def)

definition example_matmul_dram :: matmul_dram where
  "example_matmul_dram = \<lparr>md_a = (\<lambda>_ _. 2), md_b = (\<lambda>_ _. 5)\<rparr>"

lemma example_matmul_elem: "matmul_elem example_env example_product example_matmul_dram 0 y x = 30"
  unfolding matmul_elem_def dot_product_def example_product_sizes
  by (simp add: mad_row_def tensor_elem_def page_elem_def example_matmul_dram_def upt_conv_Cons) (simp add: example_env_def)

lemma matmul_work_example: "matmul_work (matmul_plan_of example_product) = 1"
  using call_args(9) [OF matmul_fp32_call(1) [OF example_product_call(1)] example_product_call(2)] by (simp add: example_product_sizes)

lemma example_cores: "\<exists>ws. matmul_cores example_env example_product example_matmul_dram (one_core 1) [ws]"
proof -
  note args = call_args [OF matmul_fp32_call(1) [OF example_product_call(1)] example_product_call(2)]
  have "0 + 1 < (2 :: nat) ^ 32" by simp
  from matmul_runs [OF example_env_ok args(6) this args(7,8), of example_matmul_dram undefined]
  show ?thesis
    by (auto simp: matmul_cores_def matmul_core_def split_ranges_def one_core_def core_count_def Let_def dest!: net_done_stuck)
qed

lemma matmul_result_witness:
  "\<exists>wss m'. matmul_cores example_env example_product example_matmul_dram (one_core 1) wss \<and> tiles_landed (concat wss) (\<lambda>_ _. 0) m' \<and>
    tensor_elem m' 1 1 0 1 2 = 30"
proof -
  from example_cores obtain ws where ws: "matmul_cores example_env example_product example_matmul_dram (one_core 1) [ws]" by blast
  have landed: "tiles_landed (concat [ws]) (\<lambda>_ _. 0) (fold store_page ws (\<lambda>_ _. 0))" by (auto simp: tiles_landed_def)
  show ?thesis
    using matmul_result [OF example_product_call example_env_ok _ _ landed, of example_matmul_dram 0 1 2] one_core_ok ws landed
    by (intro exI [of _ "[ws]"] exI [of _ "fold store_page ws (\<lambda>_ _. 0)"])
      (simp add: matmul_work_example example_product_sizes example_matmul_elem)
qed

lemma matmul_ends_witness:
  "\<forall>u. \<exists>bound. \<forall>n f. net_run (matmul_ring_size (pl_in0_entries (matmul_plan_of example_product))) n
      (net_start (matmul_progs example_env (matmul_args_of example_product) example_matmul_dram 0 1) (\<lambda>_. \<lparr>ms_vec = u, ms_written = []\<rparr>)) f \<longrightarrow>
    n \<le> bound \<and> (net_stuck (matmul_ring_size (pl_in0_entries (matmul_plan_of example_product))) f \<longrightarrow> net_done f)"
  by (intro allI, rule matmul_ends [OF example_product_call example_env_ok, where core = "(0, 0)"])
    (simp_all add: one_core_ok matmul_work_example, simp add: one_core_def split_ranges_def core_count_def)

section \<open>The program is well formed\<close>

lemma matmul_program_wf:
  assumes "matmul_fp32 i ta tb tout split = Inr (shape, prog)" and "matmul_fits i" and "\<forall>work. split_ok work (split work)"
  shows "wf_program prog" "list_all2 links [matmul_reader_interface, matmul_writer_interface, matmul_compute_interface] (spec_kernels (artifact_spec prog))"
proof -
  note call = matmul_fp32_call [OF assms(1)]
  note entries = call_args(7) [OF call(1) assms(2)]
  have cores: "distinct (split_cores (split work))" for work using assms(3) by (simp add: split_ok_def)
  have args: "map (fst \<circ> (\<lambda>(core, first, count). (core, [(''first_tile'', first), (''num_tiles'', count)]))) (split_ranges s) = split_cores s" for s
    by (simp add: comp_def case_prod_unfold split_ranges_cores [unfolded comp_def])
  show "wf_program prog"
    using entries cores
    by (simp add: call(3) wf_program_simps matmul_artifacts_def Let_def matmul_reader_spec_def matmul_writer_spec_def matmul_compute_spec_def
        matmul_buffers_def fp32_buffer_def matmul_run_args_def matmul_common_names_def matmul_common_args_def args list_all_iff case_prod_unfold
        tile_size_def comp_def split_ranges_cores [unfolded comp_def])
  have "links matmul_reader_interface (matmul_reader_spec i)" "links matmul_writer_interface matmul_writer_spec"
    "links matmul_compute_interface matmul_compute_spec"
    by (simp_all add: links_def matmul_reader_interface_def matmul_reader_spec_def matmul_writer_interface_def matmul_writer_spec_def
        matmul_compute_interface_def matmul_compute_spec_def dfb_binding_of_def matmul_common_names_def)
  then show "list_all2 links [matmul_reader_interface, matmul_writer_interface, matmul_compute_interface] (spec_kernels (artifact_spec prog))"
    by (simp add: call(3) matmul_artifacts_def Let_def)
qed

end
