(* ===== verification/DmaMachine.thy ===== *)
theory DmaMachine
  imports Prelude
begin

text \<open>
  Workers that copy between a shared memory and buffers of their own by asynchronous reads and
  writes (\<open>noc.async_read\<close>, \<open>noc.async_write\<close> and their barriers): a read takes its value from
  the memory at some time after it is issued and lands in the buffer later, a write takes its
  value from the buffer at some time and lands in the memory later; only a barrier orders them.
  \<open>safe\<close> follows what a program may know of its buffers from its text alone, and the locale
  proves that programs it accepts leave the expected memory, in every interleaving.
\<close>

section \<open>The machine\<close>

text \<open>\<open>Sees b v\<close> stands where a kernel's control depends on a buffer: what follows is the kernel's
  text for the value \<open>v\<close>, so a worker passes it only with \<open>v\<close> in \<open>b\<close>.\<close>

datatype ('l, 'b, 'v) dma_instr = ReadTo 'l 'b | ReadBarrier | WriteFrom 'b 'l | WriteBarrier | Sees 'b 'v

datatype ('l, 'b, 'v) transfer = Fetching 'l 'b | Arriving 'b 'v | Sending 'b 'l | Landing 'l 'v

record ('l, 'b, 'v) dma =
  memory :: "'l \<Rightarrow> 'v"
  buffers :: "nat \<Rightarrow> 'b \<Rightarrow> 'v"
  todo :: "nat \<Rightarrow> ('l, 'b, 'v) dma_instr list"
  moving :: "nat \<Rightarrow> ('l, 'b, 'v) transfer list"

definition dma_init :: "('l \<Rightarrow> 'v) \<Rightarrow> (nat \<Rightarrow> 'b \<Rightarrow> 'v) \<Rightarrow> (nat \<Rightarrow> ('l, 'b, 'v) dma_instr list) \<Rightarrow> ('l, 'b, 'v) dma" where
  "dma_init m junk P = \<lparr>memory = m, buffers = junk, todo = P, moving = (\<lambda>_. [])\<rparr>"

fun is_read :: "('l, 'b, 'v) transfer \<Rightarrow> bool" where
  "is_read (Fetching l b) = True"
| "is_read (Arriving b v) = True"
| "is_read _ = False"

definition without :: "nat \<Rightarrow> 'a list \<Rightarrow> 'a list" where
  "without i xs = take i xs @ drop (Suc i) xs"

definition next_todo :: "nat \<Rightarrow> ('l, 'b, 'v) dma_instr list \<Rightarrow> ('l, 'b, 'v) transfer list \<Rightarrow> ('l, 'b, 'v) dma \<Rightarrow> ('l, 'b, 'v) dma" where
  "next_todo c p fs s = s\<lparr>todo := (todo s)(c := p), moving := (moving s)(c := fs)\<rparr>"

definition set_moving :: "nat \<Rightarrow> ('l, 'b, 'v) transfer list \<Rightarrow> ('l, 'b, 'v) dma \<Rightarrow> ('l, 'b, 'v) dma" where
  "set_moving c fs s = s\<lparr>moving := (moving s)(c := fs)\<rparr>"

inductive dma_step :: "nat \<Rightarrow> ('l, 'b, 'v) dma \<Rightarrow> ('l, 'b, 'v) dma \<Rightarrow> bool" for n where
  issue_read: "c < n \<Longrightarrow> todo s c = ReadTo l b # p \<Longrightarrow> dma_step n s (next_todo c p (Fetching l b # moving s c) s)"
| issue_write: "c < n \<Longrightarrow> todo s c = WriteFrom b l # p \<Longrightarrow> dma_step n s (next_todo c p (Sending b l # moving s c) s)"
| read_barrier: "c < n \<Longrightarrow> todo s c = ReadBarrier # p \<Longrightarrow> \<forall>t \<in> set (moving s c). \<not> is_read t \<Longrightarrow>
    dma_step n s (next_todo c p (moving s c) s)"
| write_barrier: "c < n \<Longrightarrow> todo s c = WriteBarrier # p \<Longrightarrow> \<forall>t \<in> set (moving s c). is_read t \<Longrightarrow>
    dma_step n s (next_todo c p (moving s c) s)"
| sees: "c < n \<Longrightarrow> todo s c = Sees b v # p \<Longrightarrow> buffers s c b = v \<Longrightarrow> dma_step n s (next_todo c p (moving s c) s)"
| fetch: "c < n \<Longrightarrow> i < length (moving s c) \<Longrightarrow> moving s c ! i = Fetching l b \<Longrightarrow>
    dma_step n s (set_moving c (Arriving b (memory s l) # without i (moving s c)) s)"
| arrive: "c < n \<Longrightarrow> i < length (moving s c) \<Longrightarrow> moving s c ! i = Arriving b v \<Longrightarrow>
    dma_step n s (set_moving c (without i (moving s c)) (s\<lparr>buffers := (buffers s)(c := (buffers s c)(b := v))\<rparr>))"
| depart: "c < n \<Longrightarrow> i < length (moving s c) \<Longrightarrow> moving s c ! i = Sending b l \<Longrightarrow>
    dma_step n s (set_moving c (Landing l (buffers s c b) # without i (moving s c)) s)"
| land: "c < n \<Longrightarrow> i < length (moving s c) \<Longrightarrow> moving s c ! i = Landing l v \<Longrightarrow>
    dma_step n s (set_moving c (without i (moving s c)) (s\<lparr>memory := (memory s)(l := v)\<rparr>))"

inductive dma_run :: "nat \<Rightarrow> nat \<Rightarrow> ('l, 'b, 'v) dma \<Rightarrow> ('l, 'b, 'v) dma \<Rightarrow> bool" for n where
  stay: "dma_run n 0 s s"
| go: "dma_run n k s s' \<Longrightarrow> dma_step n s' s'' \<Longrightarrow> dma_run n (Suc k) s s''"

definition dma_finished :: "nat \<Rightarrow> ('l, 'b, 'v) dma \<Rightarrow> bool" where
  "dma_finished n s \<longleftrightarrow> (\<forall>c < n. todo s c = [] \<and> moving s c = [])"

lemma next_todo_simps [simp]:
  "memory (next_todo c p fs s) = memory s" "buffers (next_todo c p fs s) = buffers s"
  "todo (next_todo c p fs s) = (todo s)(c := p)" "moving (next_todo c p fs s) = (moving s)(c := fs)"
  by (simp_all add: next_todo_def)

lemma set_moving_simps [simp]:
  "memory (set_moving c fs s) = memory s" "buffers (set_moving c fs s) = buffers s"
  "todo (set_moving c fs s) = todo s" "moving (set_moving c fs s) = (moving s)(c := fs)"
  by (simp_all add: set_moving_def)

lemma set_without: "set (without i xs) \<subseteq> set xs"
  by (auto simp: without_def dest: in_set_takeD in_set_dropD)

lemma without_cover: "i < length xs \<Longrightarrow> x \<in> set xs \<Longrightarrow> x = xs ! i \<or> x \<in> set (without i xs)"
  using id_take_nth_drop [of i xs] by (auto simp: without_def) (metis Un_iff set_ConsD set_append)

lemma length_without: "i < length xs \<Longrightarrow> Suc (length (without i xs)) = length xs"
  by (simp add: without_def)

section \<open>Every run ends\<close>

fun weight :: "('l, 'b, 'v) transfer \<Rightarrow> nat" where
  "weight (Fetching l b) = 2"
| "weight (Sending b l) = 2"
| "weight (Arriving b v) = 1"
| "weight (Landing l v) = 1"

definition load :: "nat \<Rightarrow> ('l, 'b, 'v) dma \<Rightarrow> nat" where
  "load c s = 3 * length (todo s c) + sum_list (map weight (moving s c))"

definition total_load :: "nat \<Rightarrow> ('l, 'b, 'v) dma \<Rightarrow> nat" where
  "total_load n s = (\<Sum>c<n. load c s)"

lemma weight_without:
  assumes "i < length fs"
  shows "sum_list (map weight (without i fs)) + weight (fs ! i) = sum_list (map weight fs)"
proof -
  have "sum_list (map weight fs) = sum_list (map weight (take i fs @ fs ! i # drop (Suc i) fs))"
    using assms by (simp only: id_take_nth_drop [symmetric])
  then show ?thesis by (simp add: without_def)
qed

lemma step_load: "dma_step n s s' \<Longrightarrow> \<exists>c < n. load c s' < load c s \<and> (\<forall>d. d \<noteq> c \<longrightarrow> load d s' = load d s)"
proof (induction rule: dma_step.induct)
  case (fetch c i s l b)
  then show ?case using weight_without [OF fetch(2)] by (intro exI [of _ c]) (simp add: load_def)
next
  case (arrive c i s b v)
  then show ?case using weight_without [OF arrive(2)] by (intro exI [of _ c]) (simp add: load_def)
next
  case (depart c i s b l)
  then show ?case using weight_without [OF depart(2)] by (intro exI [of _ c]) (simp add: load_def)
next
  case (land c i s l v)
  then show ?case using weight_without [OF land(2)] by (intro exI [of _ c]) (simp add: load_def)
qed (auto simp: load_def)

lemma step_total_load: "dma_step n s s' \<Longrightarrow> total_load n s' < total_load n s"
proof -
  assume "dma_step n s s'"
  from step_load [OF this] obtain c where c: "c < n" "load c s' < load c s" "\<And>d. d \<noteq> c \<Longrightarrow> load d s' = load d s" by blast
  show ?thesis unfolding total_load_def
  proof (rule sum_strict_mono_ex1)
    show "\<forall>d \<in> {..<n}. load d s' \<le> load d s" using c(2,3) by (metis less_imp_le order_refl)
    show "\<exists>d \<in> {..<n}. load d s' < load d s" using c by auto
  qed simp
qed

lemma run_total_load: "dma_run n k s s' \<Longrightarrow> k + total_load n s' \<le> total_load n s"
proof (induction rule: dma_run.induct)
  case (go k s s' s'')
  then show ?case using step_total_load [OF go(2)] by linarith
qed simp

lemma total_load_init: "total_load n (dma_init m junk P) = 3 * (\<Sum>c<n. length (P c))"
  by (simp add: total_load_def load_def dma_init_def sum_distrib_left)

text \<open>A worker that is not at its end moves, if it finds in its buffers what its text says.\<close>

lemma unfinished_steps:
  assumes "\<not> dma_finished n s"
    and sees_ok: "\<And>c b v p. c < n \<Longrightarrow> todo s c = Sees b v # p \<Longrightarrow> buffers s c b = v"
  shows "\<exists>s'. dma_step n s s'"
proof -
  from assms(1) obtain c where c: "c < n" "todo s c \<noteq> [] \<or> moving s c \<noteq> []" by (auto simp: dma_finished_def)
  show ?thesis
  proof (cases "moving s c")
    case (Cons t ts)
    then have "0 < length (moving s c)" "moving s c ! 0 = t" by simp_all
    then show ?thesis using c(1) by (cases t) (blast intro: dma_step.intros)+
  next
    case Nil
    then obtain x p where x: "todo s c = x # p" using c(2) by (cases "todo s c") auto
    show ?thesis
    proof (cases x)
      case (ReadTo l b)
      then show ?thesis using issue_read [OF c(1), of s] x by blast
    next
      case ReadBarrier
      then show ?thesis using read_barrier [OF c(1), of s p] x Nil by auto
    next
      case (WriteFrom b l)
      then show ?thesis using issue_write [OF c(1), of s] x by blast
    next
      case WriteBarrier
      then show ?thesis using write_barrier [OF c(1), of s p] x Nil by auto
    next
      case (Sees b v)
      then show ?thesis using sees [OF c(1), of s b v p] sees_ok [OF c(1), of b v p] x by blast
    qed
  qed
qed

section \<open>What a program may know\<close>

text \<open>
  \<open>known\<close> maps the buffers whose contents are settled to them, \<open>coming\<close> the buffers read into
  since the last read barrier, and \<open>leaving\<close> holds the buffers written from since the last write
  barrier. A program reads only what no write changes, into a buffer no transfer uses; it writes
  only the expected value, from a settled buffer.
\<close>

definition steady :: "('l \<Rightarrow> bool) \<Rightarrow> ('l \<Rightarrow> 'v) \<Rightarrow> ('l \<Rightarrow> 'v) \<Rightarrow> 'l \<Rightarrow> bool" where
  "steady target old expect l \<longleftrightarrow> (target l \<longrightarrow> expect l = old l)"

fun safe :: "('l \<Rightarrow> bool) \<Rightarrow> ('l \<Rightarrow> 'v) \<Rightarrow> ('l \<Rightarrow> 'v) \<Rightarrow> ('l, 'b, 'v) dma_instr list \<Rightarrow>
    ('b \<rightharpoonup> 'v) \<Rightarrow> ('b \<rightharpoonup> 'v) \<Rightarrow> 'b set \<Rightarrow> bool" where
  "safe target old expect [] known coming leaving \<longleftrightarrow> True"
| "safe target old expect (ReadTo l b # p) known coming leaving \<longleftrightarrow>
     b \<notin> dom coming \<and> b \<notin> leaving \<and> steady target old expect l \<and>
     safe target old expect p (known(b := None)) (coming(b \<mapsto> old l)) leaving"
| "safe target old expect (ReadBarrier # p) known coming leaving \<longleftrightarrow>
     safe target old expect p (known ++ coming) Map.empty leaving"
| "safe target old expect (WriteFrom b l # p) known coming leaving \<longleftrightarrow>
     known b = Some (expect l) \<and> target l \<and> safe target old expect p known coming (Set.insert b leaving)"
| "safe target old expect (WriteBarrier # p) known coming leaving \<longleftrightarrow>
     safe target old expect p known coming {}"
| "safe target old expect (Sees b v # p) known coming leaving \<longleftrightarrow>
     known b = Some v \<and> safe target old expect p known coming leaving"

text \<open>What holds of a transfer, and of a worker with the rest of its program.\<close>

fun transfer_ok :: "('l \<Rightarrow> bool) \<Rightarrow> ('l \<Rightarrow> 'v) \<Rightarrow> ('l \<Rightarrow> 'v) \<Rightarrow> ('b \<rightharpoonup> 'v) \<Rightarrow> ('b \<rightharpoonup> 'v) \<Rightarrow> 'b set \<Rightarrow> ('l, 'b, 'v) transfer \<Rightarrow> bool" where
  "transfer_ok target old expect known coming leaving (Fetching l b) \<longleftrightarrow> coming b = Some (old l) \<and> steady target old expect l"
| "transfer_ok target old expect known coming leaving (Arriving b v) \<longleftrightarrow> coming b = Some v"
| "transfer_ok target old expect known coming leaving (Sending b l) \<longleftrightarrow> b \<in> leaving \<and> known b = Some (expect l) \<and> target l"
| "transfer_ok target old expect known coming leaving (Landing l v) \<longleftrightarrow> v = expect l \<and> target l"

fun fills_buf :: "'b \<Rightarrow> ('l, 'b, 'v) transfer \<Rightarrow> bool" where
  "fills_buf b (Fetching l b') \<longleftrightarrow> b' = b"
| "fills_buf b (Arriving b' v) \<longleftrightarrow> b' = b"
| "fills_buf b _ \<longleftrightarrow> False"

definition buf_settled :: "('b \<Rightarrow> 'v) \<Rightarrow> ('l, 'b, 'v) transfer list \<Rightarrow> ('b \<rightharpoonup> 'v) \<Rightarrow> ('b \<rightharpoonup> 'v) \<Rightarrow> bool" where
  "buf_settled buf fs known coming \<longleftrightarrow> dom known \<inter> dom coming = {} \<and> (\<forall>b v. known b = Some v \<longrightarrow> buf b = v) \<and>
     (\<forall>b v. coming b = Some v \<longrightarrow> buf b = v \<or> (\<exists>t \<in> set fs. fills_buf b t))"

lemma buf_settled_known: "buf_settled buf fs known coming \<Longrightarrow> known b = Some v \<Longrightarrow> buf b = v"
  by (simp add: buf_settled_def)

lemma buf_settled_coming: "buf_settled buf fs known coming \<Longrightarrow> coming b = Some v \<Longrightarrow> buf b = v \<or> (\<exists>t \<in> set fs. fills_buf b t)"
  by (simp add: buf_settled_def)

definition worker_ok :: "('l \<Rightarrow> bool) \<Rightarrow> ('l \<Rightarrow> 'v) \<Rightarrow> ('l \<Rightarrow> 'v) \<Rightarrow> ('l, 'b, 'v) dma_instr list \<Rightarrow> ('b \<Rightarrow> 'v) \<Rightarrow>
    ('l, 'b, 'v) transfer list \<Rightarrow> bool" where
  "worker_ok target old expect p buf fs \<longleftrightarrow> (\<exists>known coming leaving. safe target old expect p known coming leaving \<and>
     buf_settled buf fs known coming \<and> (\<forall>t \<in> set fs. transfer_ok target old expect known coming leaving t))"

definition memory_ok :: "('l \<Rightarrow> bool) \<Rightarrow> ('l \<Rightarrow> 'v) \<Rightarrow> ('l \<Rightarrow> 'v) \<Rightarrow> ('l \<Rightarrow> 'v) \<Rightarrow> bool" where
  "memory_ok target old expect m \<longleftrightarrow> (\<forall>l. m l = old l \<or> target l \<and> m l = expect l)"

definition dma_inv :: "nat \<Rightarrow> ('l \<Rightarrow> bool) \<Rightarrow> ('l \<Rightarrow> 'v) \<Rightarrow> ('l \<Rightarrow> 'v) \<Rightarrow> ('l, 'b, 'v) dma \<Rightarrow> bool" where
  "dma_inv n target old expect s \<longleftrightarrow> memory_ok target old expect (memory s) \<and>
     (\<forall>c < n. worker_ok target old expect (todo s c) (buffers s c) (moving s c))"

lemma steady_memory: "memory_ok target old expect m \<Longrightarrow> steady target old expect l \<Longrightarrow> m l = old l"
  unfolding memory_ok_def steady_def by metis

lemma not_read_fills: "\<not> is_read t \<Longrightarrow> \<not> fills_buf b t"
  by (cases t) simp_all

lemma fills_coming: "transfer_ok target old expect known coming leaving t \<Longrightarrow> fills_buf b t \<Longrightarrow> b \<in> dom coming"
  by (cases t) auto

section \<open>Each step keeps it\<close>

lemma worker_issue_read:
  assumes "worker_ok target old expect (ReadTo l b # p) buf fs"
  shows "worker_ok target old expect p buf (Fetching l b # fs)"
proof -
  from assms obtain known coming leaving where k: "safe target old expect (ReadTo l b # p) known coming leaving"
    "buf_settled buf fs known coming" and t: "\<And>t. t \<in> set fs \<Longrightarrow> transfer_ok target old expect known coming leaving t"
    unfolding worker_ok_def by blast
  have keep: "transfer_ok target old expect (known(b := None)) (coming(b \<mapsto> old l)) leaving t" if "t \<in> set fs" for t
    using t [OF that] k(1) by (cases t) auto
  have "buf_settled buf (Fetching l b # fs) (known(b := None)) (coming(b \<mapsto> old l))"
    using k(2) unfolding buf_settled_def by auto
  with k(1) keep show ?thesis unfolding worker_ok_def
    by (intro exI [of _ "known(b := None)"] exI [of _ "coming(b \<mapsto> old l)"] exI [of _ leaving]) simp
qed

lemma worker_read_barrier:
  assumes "worker_ok target old expect (ReadBarrier # p) buf fs" and no_reads: "\<forall>t \<in> set fs. \<not> is_read t"
  shows "worker_ok target old expect p buf fs"
proof -
  from assms(1) obtain known coming leaving where k: "safe target old expect (ReadBarrier # p) known coming leaving"
    "buf_settled buf fs known coming" and t: "\<And>t. t \<in> set fs \<Longrightarrow> transfer_ok target old expect known coming leaving t"
    unfolding worker_ok_def by blast
  have fresh: "known b \<noteq> None \<Longrightarrow> coming b = None" for b using k(2) unfolding buf_settled_def by blast
  have keep: "transfer_ok target old expect (known ++ coming) Map.empty leaving t" if "t \<in> set fs" for t
  proof (cases t)
    case (Sending b l)
    with t [OF that] have "known b = Some (expect l)" "b \<in> leaving" "target l" by simp_all
    then show ?thesis using Sending fresh [of b] by (simp add: map_add_def)
  qed (use t [OF that] no_reads that in auto)
  have none: "\<not> fills_buf b t" if "t \<in> set fs" for b t by (rule not_read_fills) (use no_reads that in blast)
  have here: "coming b = Some v \<Longrightarrow> buf b = v" for b v using buf_settled_coming [OF k(2), of b v] none by blast
  have "buf_settled buf fs (known ++ coming) Map.empty"
    unfolding buf_settled_def
  proof (intro conjI allI impI)
    show "buf b = v" if "(known ++ coming) b = Some v" for b v
      using that buf_settled_known [OF k(2), of b v] here [of b v] by (simp add: map_add_Some_iff) blast
  qed simp_all
  with k(1) keep show ?thesis unfolding worker_ok_def
    by (intro exI [of _ "known ++ coming"] exI [of _ Map.empty] exI [of _ leaving]) simp
qed

lemma worker_issue_write:
  assumes "worker_ok target old expect (WriteFrom b l # p) buf fs"
  shows "worker_ok target old expect p buf (Sending b l # fs)"
proof -
  from assms obtain known coming leaving where k: "safe target old expect (WriteFrom b l # p) known coming leaving"
    "buf_settled buf fs known coming" and t: "\<And>t. t \<in> set fs \<Longrightarrow> transfer_ok target old expect known coming leaving t"
    unfolding worker_ok_def by blast
  have keep: "transfer_ok target old expect known coming (Set.insert b leaving) t" if "t \<in> set fs" for t
    using t [OF that] by (cases t) auto
  have "buf_settled buf (Sending b l # fs) known coming" using k(2) unfolding buf_settled_def by auto
  with k(1) keep show ?thesis unfolding worker_ok_def
    by (intro exI [of _ known] exI [of _ coming] exI [of _ "Set.insert b leaving"]) simp
qed

lemma worker_write_barrier:
  assumes "worker_ok target old expect (WriteBarrier # p) buf fs" and only_reads: "\<forall>t \<in> set fs. is_read t"
  shows "worker_ok target old expect p buf fs"
proof -
  from assms(1) obtain known coming leaving where k: "safe target old expect (WriteBarrier # p) known coming leaving"
    "buf_settled buf fs known coming" and t: "\<And>t. t \<in> set fs \<Longrightarrow> transfer_ok target old expect known coming leaving t"
    unfolding worker_ok_def by blast
  have keep: "transfer_ok target old expect known coming {} t" if "t \<in> set fs" for t
    using t [OF that] only_reads that by (cases t) auto
  with k show ?thesis unfolding worker_ok_def
    by (intro exI [of _ known] exI [of _ coming] exI [of _ "{}"]) simp
qed

lemma worker_sees:
  assumes "worker_ok target old expect (Sees b v # p) buf fs"
  shows "worker_ok target old expect p buf fs" "buf b = v"
  using assms unfolding worker_ok_def buf_settled_def by auto

text \<open>A transfer that moves on leaves the others as they are.\<close>

lemma worker_fetch:
  assumes w: "worker_ok target old expect p buf fs" and i: "i < length fs" "fs ! i = Fetching l b"
    and m: "memory_ok target old expect m"
  shows "worker_ok target old expect p buf (Arriving b (m l) # without i fs)"
proof -
  from w obtain known coming leaving where k: "safe target old expect p known coming leaving"
    "buf_settled buf fs known coming" and t: "\<And>t. t \<in> set fs \<Longrightarrow> transfer_ok target old expect known coming leaving t"
    unfolding worker_ok_def by blast
  have this_one: "coming b = Some (old l)" "steady target old expect l" using t [OF nth_mem [OF i(1)]] i(2) by simp_all
  have others: "fills_buf b' t \<Longrightarrow> t \<in> set fs \<Longrightarrow> \<exists>t' \<in> set (Arriving b (m l) # without i fs). fills_buf b' t'" for b' t
    using without_cover [OF i(1), of t] i(2) by auto
  have "buf_settled buf (Arriving b (m l) # without i fs) known coming"
    using k(2) others unfolding buf_settled_def by blast
  moreover have "\<forall>t \<in> set (Arriving b (m l) # without i fs). transfer_ok target old expect known coming leaving t"
    using t set_without [of i fs] this_one steady_memory [OF m] by auto
  ultimately show ?thesis using k(1) unfolding worker_ok_def by blast
qed

lemma worker_arrive:
  assumes w: "worker_ok target old expect p buf fs" and i: "i < length fs" "fs ! i = Arriving b v"
  shows "worker_ok target old expect p (buf(b := v)) (without i fs)"
proof -
  from w obtain known coming leaving where k: "safe target old expect p known coming leaving"
    "buf_settled buf fs known coming" and t: "\<And>t. t \<in> set fs \<Longrightarrow> transfer_ok target old expect known coming leaving t"
    unfolding worker_ok_def by blast
  have this_one: "coming b = Some v" using t [OF nth_mem [OF i(1)]] i(2) by simp
  have others: "fills_buf b' t \<Longrightarrow> t \<in> set fs \<Longrightarrow> b' \<noteq> b \<Longrightarrow> \<exists>t' \<in> set (without i fs). fills_buf b' t'" for b' t
    using without_cover [OF i(1), of t] i(2) by auto
  have "buf_settled (buf(b := v)) (without i fs) known coming"
    unfolding buf_settled_def
  proof (intro conjI allI impI)
    show "dom known \<inter> dom coming = {}" using k(2) by (simp add: buf_settled_def)
    show "(buf(b := v)) b' = v'" if "known b' = Some v'" for b' v'
      using k(2) this_one that unfolding buf_settled_def by auto
    show "(buf(b := v)) b' = v' \<or> (\<exists>t \<in> set (without i fs). fills_buf b' t)" if "coming b' = Some v'" for b' v'
      using buf_settled_coming [OF k(2) that] this_one that others [of b'] by (cases "b' = b") auto
  qed
  moreover have "\<forall>t \<in> set (without i fs). transfer_ok target old expect known coming leaving t"
    using t set_without [of i fs] by blast
  ultimately show ?thesis using k(1) unfolding worker_ok_def by blast
qed

text \<open>A write takes the expected value from its buffer, and leaves no trace there.\<close>

lemma worker_depart:
  assumes w: "worker_ok target old expect p buf fs" and i: "i < length fs" "fs ! i = Sending b l"
  shows "worker_ok target old expect p buf (Landing l (buf b) # without i fs)"
proof -
  from w obtain known coming leaving where k: "safe target old expect p known coming leaving"
    "buf_settled buf fs known coming" and t: "\<And>t. t \<in> set fs \<Longrightarrow> transfer_ok target old expect known coming leaving t"
    unfolding worker_ok_def by blast
  have this_one: "known b = Some (expect l)" "target l" using t [OF nth_mem [OF i(1)]] i(2) by simp_all
  have "buf b = expect l" using k(2) this_one(1) unfolding buf_settled_def by blast
  then have "\<forall>t \<in> set (Landing l (buf b) # without i fs). transfer_ok target old expect known coming leaving t"
    using t set_without [of i fs] this_one(2) by auto
  moreover have "fills_buf b' t \<Longrightarrow> t \<in> set fs \<Longrightarrow> \<exists>t' \<in> set (Landing l (buf b) # without i fs). fills_buf b' t'" for b' t
    using without_cover [OF i(1), of t] i(2) by auto
  then have "buf_settled buf (Landing l (buf b) # without i fs) known coming" using k(2) unfolding buf_settled_def by blast
  ultimately show ?thesis using k(1) unfolding worker_ok_def by blast
qed

lemma worker_land:
  assumes w: "worker_ok target old expect p buf fs" and i: "i < length fs" "fs ! i = Landing l v"
  shows "worker_ok target old expect p buf (without i fs)" "v = expect l" "target l"
proof -
  from w obtain known coming leaving where k: "safe target old expect p known coming leaving"
    "buf_settled buf fs known coming" and t: "\<And>t. t \<in> set fs \<Longrightarrow> transfer_ok target old expect known coming leaving t"
    unfolding worker_ok_def by blast
  show "v = expect l" "target l" using t [OF nth_mem [OF i(1)]] i(2) by simp_all
  have "fills_buf b' t \<Longrightarrow> t \<in> set fs \<Longrightarrow> \<exists>t' \<in> set (without i fs). fills_buf b' t'" for b' t
    using without_cover [OF i(1), of t] i(2) by auto
  then have "buf_settled buf (without i fs) known coming" using k(2) unfolding buf_settled_def by blast
  moreover have "\<forall>t \<in> set (without i fs). transfer_ok target old expect known coming leaving t"
    using t set_without [of i fs] by blast
  ultimately show "worker_ok target old expect p buf (without i fs)" using k(1) unfolding worker_ok_def by blast
qed

lemma dma_step_inv: "dma_step n s s' \<Longrightarrow> dma_inv n target old expect s \<Longrightarrow> dma_inv n target old expect s'"
proof (induction rule: dma_step.induct)
  case (issue_read c s l b p)
  then show ?case using worker_issue_read [of target old expect l b p "buffers s c" "moving s c"] by (auto simp: dma_inv_def)
next
  case (issue_write c s b l p)
  then show ?case using worker_issue_write [of target old expect b l p "buffers s c" "moving s c"] by (auto simp: dma_inv_def)
next
  case (read_barrier c s p)
  then show ?case using worker_read_barrier [of target old expect p "buffers s c" "moving s c"] by (auto simp: dma_inv_def)
next
  case (write_barrier c s p)
  then show ?case using worker_write_barrier [of target old expect p "buffers s c" "moving s c"] by (auto simp: dma_inv_def)
next
  case (sees c s b v p)
  then show ?case using worker_sees(1) [of target old expect b v p "buffers s c" "moving s c"] by (auto simp: dma_inv_def)
next
  case (fetch c i s l b)
  then show ?case using worker_fetch [of target old expect "todo s c" "buffers s c" "moving s c" i l b "memory s"]
    by (auto simp: dma_inv_def)
next
  case (arrive c i s b v)
  then show ?case using worker_arrive [of target old expect "todo s c" "buffers s c" "moving s c" i b v]
    by (auto simp: dma_inv_def)
next
  case (depart c i s b l)
  then show ?case using worker_depart [of target old expect "todo s c" "buffers s c" "moving s c" i b l]
    by (auto simp: dma_inv_def)
next
  case (land c i s l v)
  then show ?case using worker_land [of target old expect "todo s c" "buffers s c" "moving s c" i l v]
    by (auto simp: dma_inv_def memory_ok_def)
qed

lemma dma_run_inv: "dma_run n k s s' \<Longrightarrow> dma_inv n target old expect s \<Longrightarrow> dma_inv n target old expect s'"
  by (induction rule: dma_run.induct) (auto intro: dma_step_inv)

section \<open>What has been written\<close>

definition written :: "'l \<Rightarrow> ('l \<Rightarrow> 'v) \<Rightarrow> nat \<Rightarrow> ('l, 'b, 'v) dma \<Rightarrow> bool" where
  "written l expect n s \<longleftrightarrow> memory s l = expect l \<or>
     (\<exists>c < n. (\<exists>b. WriteFrom b l \<in> set (todo s c) \<or> Sending b l \<in> set (moving s c)) \<or> (\<exists>v. Landing l v \<in> set (moving s c)))"

text \<open>A worker that still owes the write of \<open>l\<close>.\<close>

definition owes :: "'l \<Rightarrow> ('l, 'b, 'v) dma_instr list \<Rightarrow> ('l, 'b, 'v) transfer list \<Rightarrow> bool" where
  "owes l p fs \<longleftrightarrow> (\<exists>b. WriteFrom b l \<in> set p \<or> Sending b l \<in> set fs) \<or> (\<exists>v. Landing l v \<in> set fs)"

lemma written_owes: "written l expect n s \<longleftrightarrow> memory s l = expect l \<or> (\<exists>c < n. owes l (todo s c) (moving s c))"
  by (auto simp: written_def owes_def)

lemma owes_other: "owes l p fs \<Longrightarrow> i < length fs \<Longrightarrow> (\<And>b. fs ! i \<noteq> Sending b l) \<Longrightarrow> (\<And>v. fs ! i \<noteq> Landing l v) \<Longrightarrow>
    owes l p (without i fs)"
  unfolding owes_def using without_cover [of i fs] by metis

lemma owes_more: "owes l p fs \<Longrightarrow> owes l p (t # fs)"
  by (auto simp: owes_def)

text \<open>The worker that moves keeps its debt, or pays it.\<close>

lemma written_worker:
  assumes "written l expect n s" and "memory s' l = memory s l \<or> memory s' l = expect l"
    and "\<And>d. d \<noteq> c \<Longrightarrow> todo s' d = todo s d \<and> moving s' d = moving s d"
    and "owes l (todo s c) (moving s c) \<Longrightarrow> owes l (todo s' c) (moving s' c) \<or> memory s' l = expect l"
  shows "written l expect n s'"
  using assms unfolding written_owes by metis

lemma step_written:
  assumes "dma_step n s s'" and "dma_inv n target old expect s" and "written l expect n s"
  shows "written l expect n s'"
  using assms
proof (induction rule: dma_step.induct)
  case (issue_read c s l' b p)
  show ?case by (rule written_worker [where s = s and c = c]) (use issue_read in \<open>auto simp: owes_def\<close>)
next
  case (issue_write c s b l' p)
  show ?case by (rule written_worker [where s = s and c = c]) (use issue_write in \<open>auto simp: owes_def\<close>)
next
  case (read_barrier c s p)
  show ?case by (rule written_worker [where s = s and c = c]) (use read_barrier in \<open>auto simp: owes_def\<close>)
next
  case (write_barrier c s p)
  show ?case by (rule written_worker [where s = s and c = c]) (use write_barrier in \<open>auto simp: owes_def\<close>)
next
  case (sees c s b v p)
  show ?case by (rule written_worker [where s = s and c = c]) (use sees in \<open>auto simp: owes_def\<close>)
next
  case (fetch c i s l' b)
  have "owes l (todo s c) (without i (moving s c))" if "owes l (todo s c) (moving s c)"
    by (rule owes_other [OF that]) (use fetch(2,3) in simp_all)
  from owes_more [OF this] have "owes l (todo s c) (Arriving b (memory s l') # without i (moving s c))"
    if "owes l (todo s c) (moving s c)" using that .
  then show ?case by - (rule written_worker [where s = s and c = c, OF fetch(5)], simp_all)
next
  case (arrive c i s b v)
  have "owes l (todo s c) (moving s c) \<Longrightarrow> owes l (todo s c) (without i (moving s c))"
    by (rule owes_other) (use arrive(2,3) in simp_all)
  then show ?case by - (rule written_worker [where s = s and c = c, OF arrive(5)], simp_all)
next
  case (depart c i s b l')
  have "owes l (todo s c) (Landing l' (buffers s c b) # without i (moving s c))" if "owes l (todo s c) (moving s c)"
  proof (cases "l' = l")
    case True
    then show ?thesis by (auto simp: owes_def)
  next
    case False
    have "owes l (todo s c) (without i (moving s c))"
      by (rule owes_other [OF that]) (use depart(2,3) False in simp_all)
    then show ?thesis by (rule owes_more)
  qed
  then show ?case by - (rule written_worker [where s = s and c = c, OF depart(5)], simp_all)
next
  case (land c i s l' v)
  from land(1,4) have "worker_ok target old expect (todo s c) (buffers s c) (moving s c)" by (simp add: dma_inv_def)
  from worker_land(2) [OF this land(2,3)] have v: "v = expect l'" .
  have "owes l (todo s c) (without i (moving s c))" if "owes l (todo s c) (moving s c)" "l' \<noteq> l"
    by (rule owes_other [OF that(1)]) (use land(2,3) that(2) in simp_all)
  then show ?case by - (rule written_worker [where s = s and c = c, OF land(5)], use v in auto)
qed

lemma run_written:
  assumes "dma_run n k s s'" and "dma_inv n target old expect s" and "written l expect n s"
  shows "written l expect n s'"
  using assms by (induction rule: dma_run.induct) (auto intro: step_written dma_run_inv)

section \<open>The contract\<close>

text \<open>
  What a kernel built from such programs promises the runtime: programs that \<open>safe\<close> accepts, with
  a write for every target. The laws the clients use are proved here once.
\<close>

locale dma_protocol =
  fixes ok :: "'p \<Rightarrow> bool"
    and workers :: "'p \<Rightarrow> nat"
    and prog :: "'p \<Rightarrow> nat \<Rightarrow> ('l, 'b, 'v) dma_instr list"
    and old :: "'p \<Rightarrow> 'l \<Rightarrow> 'v"
    and expect :: "'p \<Rightarrow> 'l \<Rightarrow> 'v"
    and target :: "'p \<Rightarrow> 'l \<Rightarrow> bool"
  assumes programs_safe: "ok p \<Longrightarrow> c < workers p \<Longrightarrow> safe (target p) (old p) (expect p) (prog p c) Map.empty Map.empty {}"
    and target_written: "ok p \<Longrightarrow> target p l \<Longrightarrow> \<exists>c < workers p. \<exists>b. WriteFrom b l \<in> set (prog p c)"
begin

lemma dma_start_inv:
  assumes "ok p"
  shows "dma_inv (workers p) (target p) (old p) (expect p) (dma_init (old p) junk (prog p))"
proof -
  have "worker_ok (target p) (old p) (expect p) (prog p c) (junk c) []" if "c < workers p" for c
    unfolding worker_ok_def
    by (intro exI [of _ Map.empty] exI [of _ "{}"]) (simp add: programs_safe [OF assms that] buf_settled_def)
  then show ?thesis by (simp add: dma_inv_def memory_ok_def dma_init_def)
qed

lemma runs_bounded:
  "dma_run (workers p) k (dma_init (old p) junk (prog p)) s \<Longrightarrow> k \<le> 3 * (\<Sum>c < workers p. length (prog p c))"
  using run_total_load [of "workers p" k "dma_init (old p) junk (prog p)" s]
    total_load_init [of "workers p" "old p" junk "prog p"] by linarith

lemma never_stuck:
  assumes "ok p" and "dma_run (workers p) k (dma_init (old p) junk (prog p)) s" and stop: "\<nexists>s'. dma_step (workers p) s s'"
  shows "dma_finished (workers p) s"
proof (rule ccontr)
  assume "\<not> dma_finished (workers p) s"
  from dma_run_inv [OF assms(2) dma_start_inv [OF assms(1)]]
  have inv: "dma_inv (workers p) (target p) (old p) (expect p) s" .
  have "buffers s c b = v" if "c < workers p" "todo s c = Sees b v # q" for c b v q
  proof -
    from inv that have "worker_ok (target p) (old p) (expect p) (Sees b v # q) (buffers s c) (moving s c)"
      by (auto simp: dma_inv_def)
    then show ?thesis by (rule worker_sees(2))
  qed
  with unfinished_steps [OF \<open>\<not> dma_finished (workers p) s\<close>] stop show False by blast
qed

text \<open>Some run finishes: a longest one.\<close>

lemma run_finishes:
  assumes "ok p"
  shows "\<exists>k s. dma_run (workers p) k (dma_init (old p) junk (prog p)) s \<and> dma_finished (workers p) s"
proof -
  let ?runs = "\<lambda>k. \<exists>s. dma_run (workers p) k (dma_init (old p) junk (prog p)) s"
  define k where "k = (GREATEST k. ?runs k)"
  have some: "?runs 0" by (blast intro: dma_run.stay)
  have bound: "?runs j \<Longrightarrow> j \<le> 3 * (\<Sum>c < workers p. length (prog p c))" for j using runs_bounded by blast
  have "?runs k" unfolding k_def by (rule GreatestI_nat [of ?runs, OF some bound])
  have longest: "?runs j \<Longrightarrow> j \<le> k" for j unfolding k_def by (rule Greatest_le_nat [of ?runs, OF _ bound])
  from \<open>?runs k\<close> obtain s where s: "dma_run (workers p) k (dma_init (old p) junk (prog p)) s" by blast
  have "\<nexists>s'. dma_step (workers p) s s'" using longest [of "Suc k"] dma_run.go [OF s] Suc_n_not_le_n by blast
  with never_stuck [OF assms s] s show ?thesis by blast
qed

lemma final_memory:
  assumes "ok p" and "dma_run (workers p) k (dma_init (old p) junk (prog p)) s" and "dma_finished (workers p) s"
  shows "memory s l = (if target p l then expect p l else old p l)"
proof -
  have m: "memory_ok (target p) (old p) (expect p) (memory s)"
    using dma_run_inv [OF assms(2) dma_start_inv [OF assms(1)]] by (simp add: dma_inv_def)
  show ?thesis
  proof (cases "target p l")
    case True
    then have "written l (expect p) (workers p) (dma_init (old p) junk (prog p))"
      using target_written [OF assms(1) True] by (auto simp: written_def dma_init_def)
    from run_written [OF assms(2) dma_start_inv [OF assms(1)] this] assms(3) True
    show ?thesis by (auto simp: written_def dma_finished_def)
  next
    case False
    then show ?thesis using m by (auto simp: memory_ok_def)
  qed
qed

end

end
