(* ===== verification/StatePoolCopy.thy ===== *)
theory StatePoolCopy
  imports DmaMachine
begin

text \<open>
  The kernel of state_pool_copy (\<open>state_pool_copy/device/kernels/dataflow/state_pool_copy.cpp\<close>):
  for every pair of a source and a target slot, neither of them the null slot, it copies the pages
  of the source slot over those of the target slot, through two page buffers. Workers take the
  pages in turns. The pool moves byte by byte and the two index pages word by word, so a page is
  never taken to move at once.
\<close>

section \<open>The kernel\<close>

datatype pool_loc = PoolByte nat nat | SourceWord nat | TargetWord nat

text \<open>The bytes of the page buffers and the words of the slots buffer, by their offsets.\<close>

datatype copy_buf = DataByte nat | SlotWord nat

type_synonym copy_instr = "(pool_loc, copy_buf, nat) dma_instr"

record copy_args =
  ca_count :: nat
  ca_pages_per_slot :: nat
  ca_num_workers :: nat
  ca_page_bytes :: nat
  ca_buffered_pages :: nat

definition slot_offset :: "nat \<Rightarrow> nat" where
  "slot_offset i = (i div 16) * 256 + i mod 16"

definition source_slots :: nat where "source_slots = 0"
definition target_slots :: nat where "target_slots = 1024"

text \<open>Element \<open>i\<close> of the index page at a word of the slots buffer that holds \<open>slots\<close>.\<close>

definition read_slot :: "(nat \<Rightarrow> nat) \<Rightarrow> nat \<Rightarrow> nat \<Rightarrow> nat" where
  "read_slot slots address i = slots (address + slot_offset i)"

definition sees_slot :: "(nat \<Rightarrow> nat) \<Rightarrow> nat \<Rightarrow> nat \<Rightarrow> copy_instr" where
  "sees_slot slots address i = Sees (SlotWord (address + slot_offset i)) (read_slot slots address i)"

definition read_slots :: "copy_instr list" where
  "read_slots = map (\<lambda>w. ReadTo (SourceWord w) (SlotWord (source_slots + w))) [0..<1024] @
     map (\<lambda>w. ReadTo (TargetWord w) (SlotWord (target_slots + w))) [0..<1024] @ [ReadBarrier]"

definition copy_page :: "copy_args \<Rightarrow> nat \<Rightarrow> nat \<Rightarrow> nat \<Rightarrow> nat \<Rightarrow> copy_instr list" where
  "copy_page a source target page buffer =
     (let offset = w32 (buffer * ca_page_bytes a) in
      (if buffer = 0 then [WriteBarrier] else []) @
      map (\<lambda>k. ReadTo (PoolByte (w32 (source * ca_pages_per_slot a + page)) k) (DataByte (offset + k))) [0..<ca_page_bytes a] @
      [ReadBarrier] @
      map (\<lambda>k. WriteFrom (DataByte (offset + k)) (PoolByte (w32 (target * ca_pages_per_slot a + page)) k)) [0..<ca_page_bytes a])"

text \<open>
  The loop over the worker's pages, with what it finds in the slots buffer; \<open>None\<close> when the fuel
  does not last.
\<close>

fun copy_loop :: "nat \<Rightarrow> copy_args \<Rightarrow> (nat \<Rightarrow> nat) \<Rightarrow> nat \<Rightarrow> nat \<Rightarrow> copy_instr list option" where
  "copy_loop 0 a slots work buffer = None"
| "copy_loop (Suc fuel) a slots work buffer =
     (if work < w32 (ca_count a * ca_pages_per_slot a) then
        let pair = work div ca_pages_per_slot a; page = work mod ca_pages_per_slot a;
            source = read_slot slots source_slots pair; target = read_slot slots target_slots pair;
            seen = [sees_slot slots source_slots pair, sees_slot slots target_slots pair];
            next_work = w32 (work + ca_num_workers a)
        in if source = 0 \<or> target = 0 then map_option (\<lambda>p. seen @ p) (copy_loop fuel a slots next_work buffer)
           else map_option (\<lambda>p. seen @ copy_page a source target page buffer @ p)
             (copy_loop fuel a slots next_work (w32 (buffer + 1) mod ca_buffered_pages a))
      else Some [WriteBarrier])"

definition copy_main :: "nat \<Rightarrow> copy_args \<Rightarrow> (nat \<Rightarrow> nat) \<Rightarrow> nat \<Rightarrow> copy_instr list option" where
  "copy_main fuel a slots worker = map_option (\<lambda>p. read_slots @ p) (copy_loop fuel a slots worker 0)"

section \<open>The pool it promises\<close>

text \<open>The slots buffer holds the two index pages, once read.\<close>

definition pool_slots :: "(pool_loc \<Rightarrow> nat) \<Rightarrow> nat \<Rightarrow> nat" where
  "pool_slots m w = (if w < 1024 then m (SourceWord w) else m (TargetWord (w - 1024)))"

definition source_of :: "(pool_loc \<Rightarrow> nat) \<Rightarrow> nat \<Rightarrow> nat" where
  "source_of m i = m (SourceWord (slot_offset i))"

definition target_of :: "(pool_loc \<Rightarrow> nat) \<Rightarrow> nat \<Rightarrow> nat" where
  "target_of m i = m (TargetWord (slot_offset i))"

definition live :: "copy_args \<Rightarrow> (pool_loc \<Rightarrow> nat) \<Rightarrow> nat \<Rightarrow> bool" where
  "live a m i \<longleftrightarrow> i < ca_count a \<and> source_of m i \<noteq> 0 \<and> target_of m i \<noteq> 0"

text \<open>The pairs that copy over a slot.\<close>

definition writers :: "copy_args \<Rightarrow> (pool_loc \<Rightarrow> nat) \<Rightarrow> nat \<Rightarrow> nat list" where
  "writers a m slot = filter (\<lambda>i. live a m i \<and> target_of m i = slot) [0..<ca_count a]"

fun pool_target :: "copy_args \<Rightarrow> (pool_loc \<Rightarrow> nat) \<Rightarrow> pool_loc \<Rightarrow> bool" where
  "pool_target a m (PoolByte page k) \<longleftrightarrow> k < ca_page_bytes a \<and> writers a m (page div ca_pages_per_slot a) \<noteq> []"
| "pool_target a m _ \<longleftrightarrow> False"

fun copied :: "copy_args \<Rightarrow> (pool_loc \<Rightarrow> nat) \<Rightarrow> pool_loc \<Rightarrow> nat" where
  "copied a m (PoolByte page k) =
     (case writers a m (page div ca_pages_per_slot a) of
        [] \<Rightarrow> m (PoolByte page k)
      | i # _ \<Rightarrow> m (PoolByte (source_of m i * ca_pages_per_slot a + page mod ca_pages_per_slot a) k))"
| "copied a m l = m l"

text \<open>
  What the copy is called for: sizes that fit \<open>uint32_t\<close>, slots of the pool, and pairs that do not
  depend on their order: two pairs onto one slot have one source, and a slot that is a source is
  only copied onto itself.
\<close>

definition independent :: "copy_args \<Rightarrow> (pool_loc \<Rightarrow> nat) \<Rightarrow> bool" where
  "independent a m \<longleftrightarrow> (\<forall>i < ca_count a. \<forall>j < ca_count a. live a m i \<and> live a m j \<longrightarrow>
     (target_of m i = target_of m j \<longrightarrow> source_of m i = source_of m j) \<and>
     (target_of m i = source_of m j \<longrightarrow> source_of m i = target_of m i))"

definition slots_in :: "copy_args \<Rightarrow> (pool_loc \<Rightarrow> nat) \<Rightarrow> nat \<Rightarrow> bool" where
  "slots_in a m slots \<longleftrightarrow> (\<forall>i < ca_count a. live a m i \<longrightarrow> source_of m i < slots \<and> target_of m i < slots)"

definition copy_ok :: "copy_args \<Rightarrow> (pool_loc \<Rightarrow> nat) \<Rightarrow> nat \<Rightarrow> bool" where
  "copy_ok a m slots \<longleftrightarrow> 0 < ca_pages_per_slot a \<and> 0 < ca_num_workers a \<and> ca_count a \<le> 32 \<and> ca_buffered_pages a = 2 \<and>
     ca_count a * ca_pages_per_slot a + ca_num_workers a < 2 ^ 32 \<and> slots * ca_pages_per_slot a < 2 ^ 32 \<and>
     2 * ca_page_bytes a < 2 ^ 32 \<and> slots_in a m slots \<and> independent a m"

section \<open>The slots\<close>

lemma slot_offset_less: "i < 32 \<Longrightarrow> slot_offset i < 1024"
proof -
  assume "i < 32"
  then have "i div 16 < 2" "i mod 16 < 16" by auto
  then show ?thesis unfolding slot_offset_def by linarith
qed

text \<open>Element \<open>i\<close> is row 0, column \<open>i\<close> of a tile of four 16 by 16 faces.\<close>

lemma slot_offset_face: "slot_offset i = (0 div 16 * 2 + i div 16) * (16 * 16) + 0 mod 16 * 16 + i mod 16"
  by (simp add: slot_offset_def)

lemma read_pool_slots:
  assumes "i < 32"
  shows "read_slot (pool_slots m) source_slots i = source_of m i" "read_slot (pool_slots m) target_slots i = target_of m i"
  using slot_offset_less [OF assms]
  by (simp_all add: read_slot_def pool_slots_def source_of_def target_of_def source_slots_def target_slots_def)

lemma writers_mem: "i \<in> set (writers a m slot) \<longleftrightarrow> live a m i \<and> target_of m i = slot"
  by (auto simp: writers_def live_def)

lemma copied_live:
  assumes "independent a m" "live a m i" "page < ca_pages_per_slot a"
  shows "copied a m (PoolByte (target_of m i * ca_pages_per_slot a + page) k) =
      m (PoolByte (source_of m i * ca_pages_per_slot a + page) k)"
proof -
  have slot: "(target_of m i * ca_pages_per_slot a + page) div ca_pages_per_slot a = target_of m i"
    "(target_of m i * ca_pages_per_slot a + page) mod ca_pages_per_slot a = page" using assms(3) by simp_all
  from assms(2) have "i \<in> set (writers a m (target_of m i))" by (simp add: writers_mem)
  then obtain j js where j: "writers a m (target_of m i) = j # js" by (cases "writers a m (target_of m i)") auto
  then have "j \<in> set (writers a m (target_of m i))" by simp
  then have "live a m j" "target_of m j = target_of m i" by (simp_all add: writers_mem)
  with assms(1,2) have "source_of m j = source_of m i" unfolding independent_def by (metis live_def)
  with j slot show ?thesis by simp
qed

text \<open>A page read by the kernel is not changed by it.\<close>

lemma source_steady:
  assumes "independent a m" "live a m i" "page < ca_pages_per_slot a"
  shows "steady (pool_target a m) m (copied a m) (PoolByte (source_of m i * ca_pages_per_slot a + page) k)"
proof -
  have slot: "(source_of m i * ca_pages_per_slot a + page) div ca_pages_per_slot a = source_of m i"
    "(source_of m i * ca_pages_per_slot a + page) mod ca_pages_per_slot a = page" using assms(3) by simp_all
  show ?thesis
  proof (cases "writers a m (source_of m i)")
    case Nil
    then show ?thesis using slot by (simp add: steady_def)
  next
    case (Cons j js)
    then have "j \<in> set (writers a m (source_of m i))" by simp
    then have j: "live a m j" "target_of m j = source_of m i" by (simp_all add: writers_mem)
    with assms(1,2) have "source_of m j = source_of m i" unfolding independent_def by (metis live_def)
    then show ?thesis using Cons slot by (simp add: steady_def)
  qed
qed

section \<open>What the programs know\<close>

text \<open>A group of reads and a group of writes.\<close>

lemma safe_reads:
  assumes "distinct (map g ks)" and "\<And>k. k \<in> set ks \<Longrightarrow> g k \<notin> dom coming \<and> g k \<notin> leaving \<and> steady target old expect (f k)"
    and "safe target old expect p (known |` (- set (map g ks))) (coming ++ map_of (map (\<lambda>k. (g k, old (f k))) ks)) leaving"
  shows "safe target old expect (map (\<lambda>k. ReadTo (f k) (g k)) ks @ p) known coming leaving"
  using assms
proof (induction ks arbitrary: known coming)
  case (Cons k ks)
  have "safe target old expect (map (\<lambda>k. ReadTo (f k) (g k)) ks @ p) (known(g k := None)) (coming(g k \<mapsto> old (f k))) leaving"
  proof (rule Cons.IH)
    have fresh: "g k \<notin> dom (map_of (map (\<lambda>k. (g k, old (f k))) ks))" using Cons.prems(1) by (auto simp: dom_map_of_conv_image_fst)
    have "coming(g k \<mapsto> old (f k)) ++ map_of (map (\<lambda>k. (g k, old (f k))) ks) =
        coming ++ map_of (map (\<lambda>k. (g k, old (f k))) (k # ks))"
      using map_add_upd_left [OF fresh, of coming "old (f k)"] by simp
    moreover have "known(g k := None) |` (- set (map g ks)) = known |` (- set (map g (k # ks)))"
      by (rule ext) (simp add: restrict_map_def)
    ultimately show "safe target old expect p (known(g k := None) |` (- set (map g ks)))
        (coming(g k \<mapsto> old (f k)) ++ map_of (map (\<lambda>k. (g k, old (f k))) ks)) leaving"
      using Cons.prems(3) by (simp only:)
    show "g k' \<notin> dom (coming(g k \<mapsto> old (f k))) \<and> g k' \<notin> leaving \<and> steady target old expect (f k')" if "k' \<in> set ks" for k'
      using Cons.prems(1) Cons.prems(2) [of k'] that by (auto simp: image_iff)
  qed (use Cons.prems(1) in simp)
  then show ?case using Cons.prems(2) [of k] by simp
qed (simp add: restrict_map_def)

lemma safe_writes:
  assumes "\<And>k. k \<in> set ks \<Longrightarrow> known (g k) = Some (expect (f k)) \<and> target (f k)"
    and "safe target old expect p known coming (leaving \<union> set (map g ks))"
  shows "safe target old expect (map (\<lambda>k. WriteFrom (g k) (f k)) ks @ p) known coming leaving"
  using assms by (induction ks arbitrary: leaving) auto

text \<open>What the loop starts from: the slots known, nothing coming, and only the other buffer leaving.\<close>

definition slots_known :: "(pool_loc \<Rightarrow> nat) \<Rightarrow> (copy_buf \<rightharpoonup> nat) \<Rightarrow> bool" where
  "slots_known m known \<longleftrightarrow> (\<forall>w < 2048. known (SlotWord w) = Some (pool_slots m w))"

definition other_buffer :: "copy_args \<Rightarrow> nat \<Rightarrow> copy_buf set \<Rightarrow> bool" where
  "other_buffer a buffer leaving \<longleftrightarrow> (buffer = 0 \<or> buffer = 1) \<and>
     (buffer = 1 \<longrightarrow> (\<forall>k < ca_page_bytes a. DataByte (ca_page_bytes a + k) \<notin> leaving))"

lemma sees_safe:
  assumes "slots_known m known" "i < 32" "safe target old expect p known coming leaving"
  shows "safe target old expect ([sees_slot (pool_slots m) source_slots i, sees_slot (pool_slots m) target_slots i] @ p) known coming leaving"
  using assms slot_offset_less [OF assms(2)]
  by (simp add: sees_slot_def read_slot_def slots_known_def source_slots_def target_slots_def)

text \<open>A page's text, without the wrap-around.\<close>

lemma page_fits:
  assumes "copy_ok a m slots" "q < slots" "page < ca_pages_per_slot a"
  shows "w32 (q * ca_pages_per_slot a + page) = q * ca_pages_per_slot a + page"
proof (rule w32_id)
  have "(q + 1) * ca_pages_per_slot a \<le> slots * ca_pages_per_slot a" by (rule mult_le_mono1) (use assms(2) in simp)
  then show "q * ca_pages_per_slot a + page < 4294967296" using assms(1,3) by (simp add: copy_ok_def)
qed

lemma copy_page_text:
  assumes ok: "copy_ok a m slots" and i: "live a m i" "page < ca_pages_per_slot a" and b: "buffer = 0 \<or> buffer = 1"
  shows "copy_page a (source_of m i) (target_of m i) page buffer =
    (if buffer = 0 then [WriteBarrier] else []) @
    map (\<lambda>k. ReadTo (PoolByte (source_of m i * ca_pages_per_slot a + page) k) (DataByte (buffer * ca_page_bytes a + k))) [0..<ca_page_bytes a] @
    [ReadBarrier] @
    map (\<lambda>k. WriteFrom (DataByte (buffer * ca_page_bytes a + k)) (PoolByte (target_of m i * ca_pages_per_slot a + page) k)) [0..<ca_page_bytes a]"
proof -
  have "source_of m i < slots" "target_of m i < slots" using ok i(1) by (auto simp: copy_ok_def slots_in_def live_def)
  moreover have "w32 (buffer * ca_page_bytes a) = buffer * ca_page_bytes a" using ok b by (intro w32_id) (auto simp: copy_ok_def)
  ultimately show ?thesis by (simp only: copy_page_def Let_def page_fits [OF ok _ i(2)])
qed

lemma page_safe:
  assumes ok: "copy_ok a m slots" and i: "live a m i" "page < ca_pages_per_slot a"
    and known: "slots_known m known" and b: "other_buffer a buffer leaving"
    and rest: "\<And>known leaving. slots_known m known \<Longrightarrow> other_buffer a (w32 (buffer + 1) mod ca_buffered_pages a) leaving \<Longrightarrow>
      safe (pool_target a m) m (copied a m) p known Map.empty leaving"
  shows "safe (pool_target a m) m (copied a m) (copy_page a (source_of m i) (target_of m i) page buffer @ p) known Map.empty leaving"
proof -
  define off where "off = buffer * ca_page_bytes a"
  define bytes where "bytes = [0..<ca_page_bytes a]"
  define src where "src k = PoolByte (source_of m i * ca_pages_per_slot a + page) k" for k
  define tgt where "tgt k = PoolByte (target_of m i * ca_pages_per_slot a + page) k" for k
  define free where "free = (if buffer = 0 then {} else leaving)"
  define got where "got = map_of (map (\<lambda>k. (DataByte (off + k), m (src k))) bytes)"
  define now where "now = known |` (- set (map (\<lambda>k. DataByte (off + k)) bytes)) ++ got"
  from b have buffer: "buffer = 0 \<or> buffer = 1" by (simp add: other_buffer_def)
  have page: "copy_page a (source_of m i) (target_of m i) page buffer =
      (if buffer = 0 then [WriteBarrier] else []) @ map (\<lambda>k. ReadTo (src k) (DataByte (off + k))) bytes @ [ReadBarrier] @
      map (\<lambda>k. WriteFrom (DataByte (off + k)) (tgt k)) bytes"
    unfolding copy_page_text [OF ok i buffer] src_def tgt_def off_def bytes_def ..
  have ind: "independent a m" using ok by (simp add: copy_ok_def)
  have got_at: "got (DataByte (off + k)) = Some (m (src k))" if "k \<in> set bytes" for k
    unfolding got_def by (rule map_of_is_SomeI) (use that in \<open>auto simp: comp_def distinct_map inj_on_def bytes_def\<close>)
  have "DataByte (off + k) \<notin> free" if "k \<in> set bytes" for k
    using b buffer that by (auto simp: free_def other_buffer_def off_def bytes_def)
  moreover have "safe (pool_target a m) m (copied a m) (map (\<lambda>k. WriteFrom (DataByte (off + k)) (tgt k)) bytes @ p) now Map.empty free"
  proof (rule safe_writes)
    show "now (DataByte (off + k)) = Some (copied a m (tgt k)) \<and> pool_target a m (tgt k)" if "k \<in> set bytes" for k
    proof
      show "now (DataByte (off + k)) = Some (copied a m (tgt k))"
        using got_at [OF that] copied_live [OF ind i] by (simp add: now_def src_def tgt_def)
      have "i \<in> set (writers a m (target_of m i))" using i(1) by (simp add: writers_mem)
      then show "pool_target a m (tgt k)" using that i(2) by (auto simp: tgt_def bytes_def)
    qed
    show "safe (pool_target a m) m (copied a m) p now Map.empty (free \<union> set (map (\<lambda>k. DataByte (off + k)) bytes))"
    proof (rule rest)
      have "got (SlotWord w) = None" for w by (auto simp: got_def map_of_eq_None_iff)
      then show "slots_known m now" using known by (auto simp: slots_known_def now_def map_add_def restrict_map_def)
      show "other_buffer a (w32 (buffer + 1) mod ca_buffered_pages a) (free \<union> set (map (\<lambda>k. DataByte (off + k)) bytes))"
        using buffer ok by (auto simp: other_buffer_def copy_ok_def free_def off_def bytes_def w32_def)
    qed
  qed
  then have "safe (pool_target a m) m (copied a m)
      (ReadBarrier # map (\<lambda>k. WriteFrom (DataByte (off + k)) (tgt k)) bytes @ p)
      (known |` (- set (map (\<lambda>k. DataByte (off + k)) bytes))) (Map.empty ++ got) free"
    by (simp add: now_def)
  ultimately have "safe (pool_target a m) m (copied a m) (map (\<lambda>k. ReadTo (src k) (DataByte (off + k))) bytes @
      (ReadBarrier # map (\<lambda>k. WriteFrom (DataByte (off + k)) (tgt k)) bytes @ p)) known Map.empty free"
    unfolding got_def
    by (intro safe_reads) (use source_steady [OF ind i] in \<open>auto simp: distinct_map inj_on_def bytes_def src_def\<close>)
  then show ?thesis unfolding page by (auto simp: free_def)
qed

lemma page_next:
  assumes "copy_ok a m slots" "work < ca_count a * ca_pages_per_slot a"
  shows "w32 (ca_count a * ca_pages_per_slot a) = ca_count a * ca_pages_per_slot a"
    "w32 (work + ca_num_workers a) = work + ca_num_workers a" "work div ca_pages_per_slot a < ca_count a"
    "work mod ca_pages_per_slot a < ca_pages_per_slot a" "work div ca_pages_per_slot a < 32"
proof -
  show "w32 (ca_count a * ca_pages_per_slot a) = ca_count a * ca_pages_per_slot a" "w32 (work + ca_num_workers a) = work + ca_num_workers a"
    using assms by (auto simp: copy_ok_def intro!: w32_id)
  show "work div ca_pages_per_slot a < ca_count a" using assms(2) by (simp add: less_mult_imp_div_less)
  then show "work div ca_pages_per_slot a < 32" using assms(1) by (simp add: copy_ok_def)
  show "work mod ca_pages_per_slot a < ca_pages_per_slot a" using assms(1) by (simp add: copy_ok_def)
qed

lemma total_fits: "copy_ok a m slots \<Longrightarrow> w32 (ca_count a * ca_pages_per_slot a) = ca_count a * ca_pages_per_slot a"
  by (auto simp: copy_ok_def intro!: w32_id)

lemma next_buffer: "copy_ok a m slots \<Longrightarrow> buffer = 0 \<or> buffer = 1 \<Longrightarrow> w32 (buffer + 1) mod ca_buffered_pages a = 1 - buffer"
  by (auto simp: copy_ok_def w32_def)

text \<open>One turn of the loop, by the slots of its pair.\<close>

lemma copy_loop_turn:
  assumes ok: "copy_ok a m slots" and "work < ca_count a * ca_pages_per_slot a"
  shows "copy_loop (Suc fuel) a (pool_slots m) work buffer =
    (let i = work div ca_pages_per_slot a;
         seen = [sees_slot (pool_slots m) source_slots i, sees_slot (pool_slots m) target_slots i]
     in if live a m i
        then map_option (\<lambda>p. seen @ copy_page a (source_of m i) (target_of m i) (work mod ca_pages_per_slot a) buffer @ p)
          (copy_loop fuel a (pool_slots m) (work + ca_num_workers a) (w32 (buffer + 1) mod ca_buffered_pages a))
        else map_option (\<lambda>p. seen @ p) (copy_loop fuel a (pool_slots m) (work + ca_num_workers a) buffer))"
  using page_next [OF assms] assms(2) read_pool_slots [of "work div ca_pages_per_slot a" m]
  by (auto simp: Let_def live_def)

lemma copy_loop_end:
  assumes "copy_ok a m slots" and "\<not> work < ca_count a * ca_pages_per_slot a"
  shows "copy_loop (Suc fuel) a (pool_slots m) work buffer = Some [WriteBarrier]"
  using assms by (simp add: total_fits)

declare copy_loop.simps(2) [simp del]

text \<open>The loop ends, and what it issues is safe.\<close>

lemma copy_loop_returns:
  assumes ok: "copy_ok a m slots"
  shows "ca_count a * ca_pages_per_slot a - work < fuel \<Longrightarrow> \<exists>p. copy_loop fuel a (pool_slots m) work buffer = Some p"
proof (induction fuel arbitrary: work buffer)
  case 0
  then show ?case by simp
next
  case (Suc fuel)
  show ?case
  proof (cases "work < ca_count a * ca_pages_per_slot a")
    case True
    have "0 < ca_num_workers a" using ok by (simp add: copy_ok_def)
    then have "ca_count a * ca_pages_per_slot a - (work + ca_num_workers a) < fuel" using Suc.prems True by linarith
    from Suc.IH [OF this] show ?thesis by (simp add: copy_loop_turn [OF ok True] Let_def)
  qed (simp add: copy_loop_end [OF ok])
qed

lemma copy_loop_safe:
  assumes ok: "copy_ok a m slots"
  shows "copy_loop fuel a (pool_slots m) work buffer = Some p \<Longrightarrow> slots_known m known \<Longrightarrow> other_buffer a buffer leaving \<Longrightarrow>
    safe (pool_target a m) m (copied a m) p known Map.empty leaving"
proof (induction fuel arbitrary: work buffer p known leaving)
  case (Suc fuel)
  show ?case
  proof (cases "work < ca_count a * ca_pages_per_slot a")
    case True
    note turn = copy_loop_turn [OF ok True, of fuel buffer, unfolded Let_def] and n = page_next [OF ok True]
    show ?thesis
    proof (cases "live a m (work div ca_pages_per_slot a)")
      case lives: True
      with Suc.prems(1) obtain q where q: "copy_loop fuel a (pool_slots m) (work + ca_num_workers a) (w32 (buffer + 1) mod ca_buffered_pages a) = Some q"
        and p: "p = [sees_slot (pool_slots m) source_slots (work div ca_pages_per_slot a), sees_slot (pool_slots m) target_slots (work div ca_pages_per_slot a)] @
          copy_page a (source_of m (work div ca_pages_per_slot a)) (target_of m (work div ca_pages_per_slot a)) (work mod ca_pages_per_slot a) buffer @ q"
        by (auto simp: turn)
      show ?thesis unfolding p
        by (intro sees_safe [OF Suc.prems(2) n(5)] page_safe [OF ok lives n(4) Suc.prems(2,3)] Suc.IH [OF q])
    next
      case False
      with Suc.prems(1) obtain q where q: "copy_loop fuel a (pool_slots m) (work + ca_num_workers a) buffer = Some q"
        and p: "p = [sees_slot (pool_slots m) source_slots (work div ca_pages_per_slot a), sees_slot (pool_slots m) target_slots (work div ca_pages_per_slot a)] @ q"
        by (auto simp: turn)
      show ?thesis unfolding p by (intro sees_safe [OF Suc.prems(2) n(5)] Suc.IH [OF q] Suc.prems)
    qed
  next
    case False
    with Suc.prems(1) show ?thesis by (auto simp: copy_loop_end [OF ok])
  qed
qed simp

lemma copy_main_safe:
  assumes ok: "copy_ok a m slots" and "copy_main fuel a (pool_slots m) worker = Some p"
  shows "safe (pool_target a m) m (copied a m) p Map.empty Map.empty {}"
proof -
  from assms(2) obtain q where q: "copy_loop fuel a (pool_slots m) worker 0 = Some q" and p: "p = read_slots @ q"
    by (auto simp: copy_main_def)
  define got where "got = map_of (map (\<lambda>w. (SlotWord w, m (SourceWord w))) [0..<1024]) ++
    map_of (map (\<lambda>w. (SlotWord (1024 + w), m (TargetWord w))) [0..<1024])"
  have low: "map_of (map (\<lambda>w. (SlotWord w, m (SourceWord w))) [0..<1024]) (SlotWord w) = (if w < 1024 then Some (m (SourceWord w)) else None)" for w
    by (auto simp: map_of_eq_None_iff distinct_map inj_on_def comp_def intro!: map_of_is_SomeI)
  have high: "map_of (map (\<lambda>w. (SlotWord (1024 + w), m (TargetWord w))) [0..<1024]) (SlotWord w) =
      (if 1024 \<le> w \<and> w < 2048 then Some (m (TargetWord (w - 1024))) else None)" for w
  proof (cases "1024 \<le> w \<and> w < 2048")
    case True
    then have "(SlotWord w, m (TargetWord (w - 1024))) \<in> set (map (\<lambda>w. (SlotWord (1024 + w), m (TargetWord w))) [0..<1024])"
      unfolding set_map by (intro image_eqI [of _ _ "w - 1024"]) auto
    then show ?thesis using True by (auto simp: distinct_map inj_on_def comp_def intro!: map_of_is_SomeI)
  qed (auto simp: map_of_eq_None_iff)
  have "slots_known m got" by (auto simp: slots_known_def got_def map_add_def low high pool_slots_def)
  then have "safe (pool_target a m) m (copied a m) q got Map.empty {}"
    by (rule copy_loop_safe [OF ok q]) (simp add: other_buffer_def)
  then have step2: "safe (pool_target a m) m (copied a m)
      (map (\<lambda>w. ReadTo (TargetWord w) (SlotWord (1024 + w))) [0..<1024] @ ReadBarrier # q) Map.empty
      (map_of (map (\<lambda>w. (SlotWord w, m (SourceWord w))) [0..<1024])) {}"
    by (intro safe_reads) (auto simp: got_def distinct_map inj_on_def steady_def dom_map_of_conv_image_fst)
  show ?thesis unfolding p read_slots_def source_slots_def target_slots_def append_assoc append_Cons append_Nil add_0
    by (rule safe_reads) (use step2 in \<open>auto simp: distinct_map inj_on_def steady_def\<close>)
qed

text \<open>Each of the worker's pages is written.\<close>

lemma copy_loop_writes:
  assumes ok: "copy_ok a m slots" and k: "k < ca_page_bytes a"
  shows "copy_loop fuel a (pool_slots m) work buffer = Some p \<Longrightarrow> buffer = 0 \<or> buffer = 1 \<Longrightarrow>
    w = work + j * ca_num_workers a \<Longrightarrow> w < ca_count a * ca_pages_per_slot a \<Longrightarrow> live a m (w div ca_pages_per_slot a) \<Longrightarrow>
    \<exists>b. WriteFrom b (PoolByte (target_of m (w div ca_pages_per_slot a) * ca_pages_per_slot a + w mod ca_pages_per_slot a) k) \<in> set p"
proof (induction fuel arbitrary: work buffer p j)
  case (Suc fuel)
  then have work: "work < ca_count a * ca_pages_per_slot a" by simp
  note turn = copy_loop_turn [OF ok work, of fuel buffer, unfolded Let_def] and n = page_next [OF ok work]
  have next_b: "w32 (buffer + 1) mod ca_buffered_pages a = 0 \<or> w32 (buffer + 1) mod ca_buffered_pages a = 1"
    using next_buffer [OF ok Suc.prems(2)] Suc.prems(2) by auto
  show ?case
  proof (cases j)
    case 0
    with Suc.prems have w: "w = work" by simp
    with Suc.prems obtain q where p: "p = [sees_slot (pool_slots m) source_slots (w div ca_pages_per_slot a), sees_slot (pool_slots m) target_slots (w div ca_pages_per_slot a)] @
        copy_page a (source_of m (w div ca_pages_per_slot a)) (target_of m (w div ca_pages_per_slot a)) (w mod ca_pages_per_slot a) buffer @ q"
      by (auto simp: turn)
    show ?thesis unfolding p copy_page_text [OF ok Suc.prems(5) n(4) Suc.prems(2), folded w] using k
      by (intro exI [of _ "DataByte (buffer * ca_page_bytes a + k)"]) simp
  next
    case (Suc j')
    with Suc.prems(3) have w: "w = work + ca_num_workers a + j' * ca_num_workers a" by simp
    show ?thesis
    proof (cases "live a m (work div ca_pages_per_slot a)")
      case True
      with Suc.prems(1) obtain q where q: "copy_loop fuel a (pool_slots m) (work + ca_num_workers a) (w32 (buffer + 1) mod ca_buffered_pages a) = Some q"
        and "set q \<subseteq> set p" by (auto simp: turn) blast
      with Suc.IH [OF q next_b w Suc.prems(4,5)] show ?thesis by blast
    next
      case False
      with Suc.prems(1) obtain q where q: "copy_loop fuel a (pool_slots m) (work + ca_num_workers a) buffer = Some q"
        and "set q \<subseteq> set p" by (auto simp: turn) blast
      with Suc.IH [OF q Suc.prems(2) w Suc.prems(4,5)] show ?thesis by blast
    qed
  qed
qed simp

lemma target_has_writer:
  assumes ok: "copy_ok a m slots" and target: "pool_target a m l"
    and progs: "\<And>c. c < ca_num_workers a \<Longrightarrow> copy_main fuel a (pool_slots m) c = Some (P c)"
  shows "\<exists>c < ca_num_workers a. \<exists>b. WriteFrom b l \<in> set (P c)"
proof -
  from target obtain page k where l: "l = PoolByte page k" by (cases l) simp_all
  with target have k: "k < ca_page_bytes a" by simp
  from target l obtain i where "i \<in> set (writers a m (page div ca_pages_per_slot a))"
    by (cases "writers a m (page div ca_pages_per_slot a)") auto
  then have i: "live a m i" "target_of m i = page div ca_pages_per_slot a" by (simp_all add: writers_mem)
  define w where "w = i * ca_pages_per_slot a + page mod ca_pages_per_slot a"
  have pps: "0 < ca_pages_per_slot a" and workers: "0 < ca_num_workers a" using ok by (simp_all add: copy_ok_def)
  then have w: "w div ca_pages_per_slot a = i" "w mod ca_pages_per_slot a = page mod ca_pages_per_slot a" by (simp_all add: w_def)
  have "w < (i + 1) * ca_pages_per_slot a" using pps by (simp add: w_def)
  also have "\<dots> \<le> ca_count a * ca_pages_per_slot a" by (rule mult_le_mono1) (use i(1) in \<open>simp add: live_def\<close>)
  finally have in_work: "w < ca_count a * ca_pages_per_slot a" .
  have c: "w mod ca_num_workers a < ca_num_workers a" using workers by simp
  from progs [OF c] obtain q where q: "copy_loop fuel a (pool_slots m) (w mod ca_num_workers a) 0 = Some q"
    and "P (w mod ca_num_workers a) = read_slots @ q" by (auto simp: copy_main_def)
  then have sub: "set q \<subseteq> set (P (w mod ca_num_workers a))" by simp
  have "w = w mod ca_num_workers a + w div ca_num_workers a * ca_num_workers a" by simp
  from copy_loop_writes [OF ok k q _ this in_work] w i(1) obtain b
    where "WriteFrom b (PoolByte (target_of m i * ca_pages_per_slot a + page mod ca_pages_per_slot a) k) \<in> set q" by auto
  then show ?thesis using c sub l i(2) by auto
qed

section \<open>The contract holds\<close>

type_synonym copy_job = "copy_args \<times> (pool_loc \<Rightarrow> nat) \<times> nat"

definition job_ok :: "copy_job \<Rightarrow> bool" where
  "job_ok = (\<lambda>(a, m, slots). copy_ok a m slots)"

definition job_fuel :: "copy_args \<Rightarrow> nat" where
  "job_fuel a = Suc (ca_count a * ca_pages_per_slot a)"

definition job_program :: "copy_job \<Rightarrow> nat \<Rightarrow> copy_instr list" where
  "job_program = (\<lambda>(a, m, slots) worker. if worker < ca_num_workers a then the (copy_main (job_fuel a) a (pool_slots m) worker) else [])"

lemma job_program_main:
  assumes ok: "copy_ok a m slots" and "worker < ca_num_workers a"
  shows "copy_main (job_fuel a) a (pool_slots m) worker = Some (job_program (a, m, slots) worker)"
proof -
  have "ca_count a * ca_pages_per_slot a - worker < job_fuel a" by (simp add: job_fuel_def)
  from copy_loop_returns [OF ok this, of 0] obtain q where "copy_loop (job_fuel a) a (pool_slots m) worker 0 = Some q" ..
  then show ?thesis using assms(2) by (simp add: job_program_def copy_main_def)
qed

interpretation pool: dma_protocol job_ok "\<lambda>(a, m, slots). ca_num_workers a" job_program "\<lambda>(a, m, slots). m"
  "\<lambda>(a, m, slots). copied a m" "\<lambda>(a, m, slots). pool_target a m"
proof
  fix p :: copy_job and c
  obtain a m slots where p: "p = (a, m, slots)" by (cases p) auto
  assume "job_ok p" "c < (case p of (a, m, slots) \<Rightarrow> ca_num_workers a)"
  then have ok: "copy_ok a m slots" and c: "c < ca_num_workers a" by (simp_all add: p job_ok_def)
  show "safe (case p of (a, m, slots) \<Rightarrow> pool_target a m) (case p of (a, m, slots) \<Rightarrow> m) (case p of (a, m, slots) \<Rightarrow> copied a m)
      (job_program p c) Map.empty Map.empty {}"
    using copy_main_safe [OF ok job_program_main [OF ok c]] by (simp add: p)
next
  fix p :: copy_job and l
  obtain a m slots where p: "p = (a, m, slots)" by (cases p) auto
  assume "job_ok p" "(case p of (a, m, slots) \<Rightarrow> pool_target a m) l"
  then show "\<exists>c < case p of (a, m, slots) \<Rightarrow> ca_num_workers a. \<exists>b. WriteFrom b l \<in> set (job_program p c)"
    using target_has_writer [OF _ _ job_program_main] by (auto simp: p job_ok_def)
qed

end
