(* ===== verification/StatePoolProgram.thy ===== *)
theory StatePoolProgram
  imports StatePoolCopy ProgramSpec
begin

text \<open>
  state_pool_copy from its call to the pool it leaves (\<open>state_pool_copy/state_pool_copy.cpp\<close>): its
  checks, the program descriptor with the arguments of every core, and what every run of that
  program does to the memory. A tensor is what ttnn answers of it; the grid of cores and the
  accessor arguments of a buffer are ttnn's.
\<close>

section \<open>Validation\<close>

record copy_tensor =
  ct_on_device :: bool
  ct_allocated :: bool
  ct_tile_layout :: bool
  ct_sharded :: bool
  ct_int32 :: bool
  ct_format :: string
  ct_shape :: "nat list"
  ct_num_pages :: nat
  ct_page_size :: nat

record copy_inputs =
  state_pool :: copy_tensor
  sources :: copy_tensor
  targets :: copy_tensor

datatype copy_error =
    CopyNotOnDevice string | CopyNotAllocated string | CopyNotTiled string | CopySharded string
  | CopyNotInt32 | CopyNotVector | CopyShapes | CopyPoolRank

definition validate_tensor :: "copy_tensor \<Rightarrow> string \<Rightarrow> copy_error + unit" where
  "validate_tensor t name =
     (if \<not> ct_on_device t then Inl (CopyNotOnDevice name)
      else if \<not> ct_allocated t then Inl (CopyNotAllocated name)
      else if \<not> ct_tile_layout t then Inl (CopyNotTiled name)
      else if ct_sharded t then Inl (CopySharded name)
      else Inr ())"

definition validate_copy :: "copy_inputs \<Rightarrow> copy_error + unit" where
  "validate_copy i =
     (case validate_tensor (state_pool i) ''state pool'' of Inl e \<Rightarrow> Inl e | Inr _ \<Rightarrow>
     (case validate_tensor (sources i) ''sources'' of Inl e \<Rightarrow> Inl e | Inr _ \<Rightarrow>
     (case validate_tensor (targets i) ''targets'' of Inl e \<Rightarrow> Inl e | Inr _ \<Rightarrow>
      if \<not> (ct_int32 (sources i) \<and> ct_int32 (targets i)) then Inl CopyNotInt32
      else let shape = ct_shape (sources i) in
        if \<not> (length shape = 1 \<and> shape ! 0 > 0 \<and> shape ! 0 \<le> 32) then Inl CopyNotVector
        else if ct_shape (targets i) \<noteq> shape then Inl CopyShapes
        else if \<not> 3 \<le> length (ct_shape (state_pool i)) then Inl CopyPoolRank
        else Inr ())))"

section \<open>The program\<close>

record cb_descriptor =
  cb_total_size :: nat
  cb_cores :: "core list"
  cb_buffer_index :: nat
  cb_data_format :: string
  cb_page_size :: nat

record 't copy_descriptor =
  cd_cbs :: "cb_descriptor list"
  cd_kernel_source :: string
  cd_cores :: "core list"
  cd_compile_args :: "nat list"
  cd_runtime_args :: "(core \<times> nat \<times> 't \<times> 't \<times> 't) list"

definition pages_per_slot :: "copy_inputs \<Rightarrow> nat" where
  "pages_per_slot i = w32 (ct_num_pages (state_pool i) div ct_shape (state_pool i) ! 0)"

definition total_pages :: "copy_inputs \<Rightarrow> nat" where
  "total_pages i = w32 (ct_shape (sources i) ! 0 * pages_per_slot i)"

definition num_workers :: "copy_inputs \<Rightarrow> nat \<times> nat \<Rightarrow> nat" where
  "num_workers i grid = min (total_pages i) (w32 (fst grid * snd grid))"

definition buffered_pages :: nat where "buffered_pages = 2"

definition worker_core :: "nat \<times> nat \<Rightarrow> nat \<Rightarrow> core" where
  "worker_core grid worker = (worker div snd grid, worker mod snd grid)"

definition copy_program_of ::
  "copy_inputs \<Rightarrow> nat \<times> nat \<Rightarrow> (nat \<Rightarrow> nat \<times> nat \<Rightarrow> core list) \<Rightarrow> ('t \<Rightarrow> nat list) \<Rightarrow> 't \<Rightarrow> 't \<Rightarrow> 't \<Rightarrow> 't copy_descriptor" where
  "copy_program_of i grid corerange accessor_args pool srcs tgts =
     (let page_bytes = w32 (ct_page_size (state_pool i)); n = num_workers i grid; cores = corerange n grid in
      \<lparr>cd_cbs = [\<lparr>cb_total_size = w32 (buffered_pages * page_bytes), cb_cores = cores, cb_buffer_index = 0,
                  cb_data_format = ct_format (state_pool i), cb_page_size = page_bytes\<rparr>,
                \<lparr>cb_total_size = 2 * 4096, cb_cores = cores, cb_buffer_index = 1, cb_data_format = ''Int32'', cb_page_size = 4096\<rparr>],
       cd_kernel_source = ''ttnn/cpp/ttnn/operations/transformer/state_pool_copy/device/kernels/dataflow/state_pool_copy.cpp'',
       cd_cores = cores,
       cd_compile_args = [ct_shape (sources i) ! 0, pages_per_slot i, n, page_bytes, buffered_pages] @
         accessor_args pool @ accessor_args srcs @ accessor_args tgts,
       cd_runtime_args = map (\<lambda>worker. (worker_core grid worker, worker, pool, srcs, tgts)) [0..<n]\<rparr>)"

definition state_pool_copy ::
  "copy_inputs \<Rightarrow> nat \<times> nat \<Rightarrow> (nat \<Rightarrow> nat \<times> nat \<Rightarrow> core list) \<Rightarrow> ('t \<Rightarrow> nat list) \<Rightarrow> 't \<Rightarrow> 't \<Rightarrow> 't \<Rightarrow> copy_error + 't copy_descriptor" where
  "state_pool_copy i grid corerange accessor_args pool srcs tgts =
     (case validate_copy i of Inl e \<Rightarrow> Inl e
      | Inr _ \<Rightarrow> Inr (copy_program_of i grid corerange accessor_args pool srcs tgts))"

text \<open>The arguments the kernel reads, and the program of each core.\<close>

definition kernel_args :: "nat list \<Rightarrow> copy_args" where
  "kernel_args compile = \<lparr>ca_count = compile ! 0, ca_pages_per_slot = compile ! 1, ca_num_workers = compile ! 2,
     ca_page_bytes = compile ! 3, ca_buffered_pages = compile ! 4\<rparr>"

definition copy_programs :: "'t copy_descriptor \<Rightarrow> (pool_loc \<Rightarrow> nat) \<Rightarrow> nat \<Rightarrow> copy_instr list option" where
  "copy_programs d m c =
     (let a = kernel_args (cd_compile_args d) in
      if c < length (cd_runtime_args d) then copy_main (job_fuel a) a (pool_slots m) (fst (snd (cd_runtime_args d ! c)))
      else Some [])"

section \<open>What a call needs\<close>

text \<open>The pages of a tiled tensor: 32 by 32 tiles over the last two dimensions.\<close>

definition tile_pages :: "nat list \<Rightarrow> nat" where
  "tile_pages shape = prod_list (take (length shape - 2) shape) * div_up (dim_back shape 2) 32 * div_up (dim_back shape 1) 32"

definition pool_args :: "copy_inputs \<Rightarrow> nat \<times> nat \<Rightarrow> copy_args" where
  "pool_args i grid = \<lparr>ca_count = ct_shape (sources i) ! 0, ca_pages_per_slot = pages_per_slot i,
     ca_num_workers = num_workers i grid, ca_page_bytes = w32 (ct_page_size (state_pool i)), ca_buffered_pages = 2\<rparr>"

text \<open>
  A pool with a page, pages as ttnn counts them, sizes within \<open>uint32_t\<close>, cores, and pairs of
  slots of the pool that do not depend on their order.
\<close>

definition copy_fits :: "copy_inputs \<Rightarrow> nat \<times> nat \<Rightarrow> (pool_loc \<Rightarrow> nat) \<Rightarrow> bool" where
  "copy_fits i grid m \<longleftrightarrow>
     ct_num_pages (state_pool i) = tile_pages (ct_shape (state_pool i)) \<and> 0 < ct_num_pages (state_pool i) \<and>
     ct_num_pages (state_pool i) < 2 ^ 32 \<and> 2 * ct_page_size (state_pool i) < 2 ^ 32 \<and>
     0 < fst grid * snd grid \<and> fst grid * snd grid < 2 ^ 16 \<and>
     ct_shape (sources i) ! 0 * ct_num_pages (state_pool i) + 2 ^ 16 < 2 ^ 32 \<and>
     slots_in (pool_args i grid) m (ct_shape (state_pool i) ! 0) \<and> independent (pool_args i grid) m"

section \<open>A call's program\<close>

lemma state_pool_copy_call:
  assumes "state_pool_copy i grid corerange acc pool srcs tgts = Inr d"
  shows "d = copy_program_of i grid corerange acc pool srcs tgts" "0 < ct_shape (sources i) ! 0" "ct_shape (sources i) ! 0 \<le> 32"
    "3 \<le> length (ct_shape (state_pool i))"
  using assms unfolding state_pool_copy_def validate_copy_def
  by (auto simp: Let_def split: sum.splits if_splits)

text \<open>A slot is whole pages: the pool's pages are its slots' pages.\<close>

lemma tile_pages_slots:
  assumes "3 \<le> length shape"
  shows "tile_pages shape = shape ! 0 * (tile_pages shape div shape ! 0)"
proof -
  from assms obtain s rest where s: "shape = s # rest" "2 \<le> length rest" by (cases shape) auto
  then have "length shape - 2 = Suc (length rest - 2)" by simp
  then have "take (length shape - 2) shape = s # take (length rest - 2) rest" by (simp add: s(1))
  then have "tile_pages shape = s * (prod_list (take (length rest - 2) rest) * div_up (dim_back shape 2) 32 * div_up (dim_back shape 1) 32)"
    by (simp add: tile_pages_def mult.assoc)
  then have "s dvd tile_pages shape" by simp
  then show ?thesis by (simp add: s(1))
qed

lemma pages_of_slots:
  assumes "copy_fits i grid m" "3 \<le> length (ct_shape (state_pool i))"
  shows "ct_shape (state_pool i) ! 0 * pages_per_slot i = ct_num_pages (state_pool i)" "0 < pages_per_slot i"
proof -
  have fits: "ct_num_pages (state_pool i) = tile_pages (ct_shape (state_pool i))" "0 < ct_num_pages (state_pool i)"
    "ct_num_pages (state_pool i) < 4294967296" using assms(1) by (simp_all add: copy_fits_def)
  have "ct_num_pages (state_pool i) div ct_shape (state_pool i) ! 0 \<le> ct_num_pages (state_pool i)" by (rule div_le_dividend)
  with fits(3) have "pages_per_slot i = ct_num_pages (state_pool i) div ct_shape (state_pool i) ! 0"
    unfolding pages_per_slot_def by (intro w32_id) linarith
  then show whole: "ct_shape (state_pool i) ! 0 * pages_per_slot i = ct_num_pages (state_pool i)"
    using tile_pages_slots [OF assms(2)] fits(1) by simp
  show "0 < pages_per_slot i" using whole fits(2) by (cases "pages_per_slot i") simp_all
qed

lemma copy_call_ok:
  assumes fits: "copy_fits i grid m" and call: "state_pool_copy i grid corerange acc pool srcs tgts = Inr d"
  shows "copy_ok (pool_args i grid) m (ct_shape (state_pool i) ! 0)"
proof -
  note c = state_pool_copy_call [OF call] and slots = pages_of_slots [OF fits c(4)]
  let ?count = "ct_shape (sources i) ! 0"
  have num: "fst grid * snd grid < 65536" "0 < fst grid * snd grid" using fits by (simp_all add: copy_fits_def)
  have "0 < ct_shape (state_pool i) ! 0" using slots(1) fits by (auto simp: copy_fits_def intro: Nat.gr0I)
  then have pps: "pages_per_slot i \<le> ct_num_pages (state_pool i)" using slots(1)
    by (metis Suc_leI mult.commute mult_le_mono2 nat_mult_1_right One_nat_def)
  have "?count * pages_per_slot i \<le> ?count * ct_num_pages (state_pool i)" using pps by simp
  moreover have "?count * ct_num_pages (state_pool i) + 2 ^ 16 < 2 ^ 32" using fits unfolding copy_fits_def by blast
  then have "?count * ct_num_pages (state_pool i) + 65536 < 4294967296" by simp
  ultimately have bound: "?count * pages_per_slot i + 65536 < 4294967296" by linarith
  then have total: "total_pages i = ?count * pages_per_slot i" unfolding total_pages_def by (intro w32_id) linarith
  have cores: "w32 (fst grid * snd grid) = fst grid * snd grid" by (rule w32_id) (use num(1) in linarith)
  then have "0 < num_workers i grid" "num_workers i grid < 65536"
    using num c(2) slots(2) unfolding num_workers_def total cores by auto
  moreover have "w32 (ct_page_size (state_pool i)) = ct_page_size (state_pool i)"
    using fits by (intro w32_id) (simp add: copy_fits_def)
  ultimately show ?thesis
    using fits slots bound c(3) by (simp add: copy_ok_def pool_args_def copy_fits_def)
qed

lemma copy_descriptor_args:
  "kernel_args (cd_compile_args (copy_program_of i grid corerange acc pool srcs tgts)) = pool_args i grid"
  "length (cd_runtime_args (copy_program_of i grid corerange acc pool srcs tgts)) = ca_num_workers (pool_args i grid)"
  "c < ca_num_workers (pool_args i grid) \<Longrightarrow>
     cd_runtime_args (copy_program_of i grid corerange acc pool srcs tgts) ! c = (worker_core grid c, c, pool, srcs, tgts)"
  by (simp_all add: kernel_args_def copy_program_of_def Let_def pool_args_def buffered_pages_def)

lemma copy_programs_main:
  assumes fits: "copy_fits i grid m" and call: "state_pool_copy i grid corerange acc pool srcs tgts = Inr d"
  shows "copy_programs d m c = Some (job_program (pool_args i grid, m, ct_shape (state_pool i) ! 0) c)"
proof -
  note d = state_pool_copy_call(1) [OF call]
  show ?thesis
  proof (cases "c < ca_num_workers (pool_args i grid)")
    case True
    then show ?thesis using job_program_main [OF copy_call_ok [OF fits call] True]
      by (simp add: copy_programs_def Let_def d copy_descriptor_args)
  next
    case False
    then show ?thesis by (simp add: copy_programs_def Let_def d copy_descriptor_args job_program_def)
  qed
qed

text \<open>Each worker has a core of its own, and the core's worker is its place in the grid.\<close>

lemma worker_cores:
  assumes "0 < snd grid"
  shows "distinct (map fst (cd_runtime_args (copy_program_of i grid corerange acc pool srcs tgts)))"
    and "core \<in> fst ` set (cd_runtime_args (copy_program_of i grid corerange acc pool srcs tgts)) \<Longrightarrow>
      fst core < fst grid \<and> snd core < snd grid"
proof -
  have "inj (worker_core grid)" unfolding worker_core_def by (rule injI) (metis div_mult_mod_eq prod.inject)
  then show "distinct (map fst (cd_runtime_args (copy_program_of i grid corerange acc pool srcs tgts)))"
    by (simp add: copy_program_of_def Let_def comp_def distinct_map inj_on_subset [OF _ subset_UNIV])
  assume "core \<in> fst ` set (cd_runtime_args (copy_program_of i grid corerange acc pool srcs tgts))"
  then obtain w where w: "w < num_workers i grid" "core = worker_core grid w" by (auto simp: copy_program_of_def Let_def)
  have "w < fst grid * snd grid" using w(1) w32_le [of "fst grid * snd grid"] unfolding num_workers_def by linarith
  then show "fst core < fst grid \<and> snd core < snd grid" using assms by (simp add: w(2) worker_core_def less_mult_imp_div_less)
qed

section \<open>The pool after the call\<close>

text \<open>
  C37: Whatever the interleaving of the workers and the order of their transfers, a finished
  state_pool_copy has put into every page of a target slot what the source slot of its pair held
  in that page at the call, for the pairs with no null slot, and has changed nothing else.
\<close>

theorem state_pool_copied:
  assumes fits: "copy_fits i grid m" and call: "state_pool_copy i grid corerange acc pool srcs tgts = Inr d"
    and run: "dma_run (length (cd_runtime_args d)) n (dma_init m junk (\<lambda>c. the (copy_programs d m c))) s"
    and finished: "dma_finished (length (cd_runtime_args d)) s"
  shows "(\<forall>p page k. live (pool_args i grid) m p \<and> page < pages_per_slot i \<and> k < ct_page_size (state_pool i) \<longrightarrow>
      memory s (PoolByte (target_of m p * pages_per_slot i + page) k) = m (PoolByte (source_of m p * pages_per_slot i + page) k)) \<and>
    (\<forall>page k. (\<forall>p. live (pool_args i grid) m p \<longrightarrow> target_of m p \<noteq> page div pages_per_slot i) \<longrightarrow>
      memory s (PoolByte page k) = m (PoolByte page k)) \<and>
    (\<forall>w. memory s (SourceWord w) = m (SourceWord w) \<and> memory s (TargetWord w) = m (TargetWord w))"
proof -
  define a where "a = pool_args i grid"
  define job :: copy_job where "job = (a, m, ct_shape (state_pool i) ! 0)"
  have ok: "copy_ok a m (ct_shape (state_pool i) ! 0)" unfolding a_def by (rule copy_call_ok [OF fits call])
  have size: "w32 (ct_page_size (state_pool i)) = ct_page_size (state_pool i)"
    using fits by (intro w32_id) (simp add: copy_fits_def)
  have args: "ca_pages_per_slot a = pages_per_slot i" "ca_page_bytes a = ct_page_size (state_pool i)"
    "length (cd_runtime_args d) = ca_num_workers a"
    by (simp_all add: a_def pool_args_def size state_pool_copy_call(1) [OF call] copy_descriptor_args)
  have "memory s l = (if pool_target a m l then copied a m l else m l)" for l
    using pool.final_memory [of job n junk s l] run finished ok copy_programs_main [OF fits call]
    by (simp add: job_ok_def job_def args(3) a_def)
  then have final: "memory s l = (if pool_target a m l then copied a m l else m l)" for l .
  have "memory s (PoolByte (target_of m p * pages_per_slot i + page) k) = m (PoolByte (source_of m p * pages_per_slot i + page) k)"
    if p: "live a m p" "page < pages_per_slot i" "k < ct_page_size (state_pool i)" for p page k
  proof -
    have "p \<in> set (writers a m (target_of m p))" using p(1) by (simp add: writers_mem)
    then have "pool_target a m (PoolByte (target_of m p * pages_per_slot i + page) k)" using p(2,3) by (auto simp: args)
    then show ?thesis using final copied_live [of a m p page k] ok p by (simp add: args copy_ok_def)
  qed
  moreover have "memory s (PoolByte page k) = m (PoolByte page k)"
    if "\<forall>p. live a m p \<longrightarrow> target_of m p \<noteq> page div pages_per_slot i" for page k
  proof -
    have "writers a m (page div pages_per_slot i) = []" using that by (auto simp: writers_def)
    then show ?thesis by (simp add: final args)
  qed
  ultimately show ?thesis using final by (simp add: a_def)
qed

text \<open>A call has a run that finishes.\<close>

lemma state_pool_runs:
  assumes fits: "copy_fits i grid m" and call: "state_pool_copy i grid corerange acc pool srcs tgts = Inr d"
  shows "\<exists>n s. dma_run (length (cd_runtime_args d)) n (dma_init m junk (\<lambda>c. the (copy_programs d m c))) s \<and>
    dma_finished (length (cd_runtime_args d)) s"
proof -
  define job :: copy_job where "job = (pool_args i grid, m, ct_shape (state_pool i) ! 0)"
  have ok: "job_ok job" using copy_call_ok [OF fits call] by (simp add: job_ok_def job_def)
  have len: "length (cd_runtime_args d) = ca_num_workers (pool_args i grid)"
    by (simp add: state_pool_copy_call(1) [OF call] copy_descriptor_args)
  show ?thesis using pool.run_finishes [OF ok, of junk] by (simp add: len job_def copy_programs_main [OF fits call])
qed

text \<open>
  C38: Every core's kernel of a launched state_pool_copy comes to its end: its loop issues a
  finite text, a run has a bounded number of steps, and a run that can go no further has finished.
\<close>

theorem state_pool_copy_ends:
  assumes fits: "copy_fits i grid m" and call: "state_pool_copy i grid corerange acc pool srcs tgts = Inr d"
    and run: "dma_run (length (cd_runtime_args d)) n (dma_init m junk (\<lambda>c. the (copy_programs d m c))) s"
  shows "(\<forall>c. \<exists>p. copy_programs d m c = Some p) \<and>
    n \<le> 3 * (\<Sum>c < length (cd_runtime_args d). length (the (copy_programs d m c))) \<and>
    ((\<nexists>s'. dma_step (length (cd_runtime_args d)) s s') \<longrightarrow> dma_finished (length (cd_runtime_args d)) s)"
proof -
  define job :: copy_job where "job = (pool_args i grid, m, ct_shape (state_pool i) ! 0)"
  have ok: "job_ok job" using copy_call_ok [OF fits call] by (simp add: job_ok_def job_def)
  have len: "length (cd_runtime_args d) = ca_num_workers (pool_args i grid)"
    by (simp add: state_pool_copy_call(1) [OF call] copy_descriptor_args)
  note progs = copy_programs_main [OF fits call]
  show ?thesis
    using pool.runs_bounded [of job n junk s] pool.never_stuck [of job n junk s, OF ok] run
    by (auto simp: progs len job_def)
qed

section \<open>A copy\<close>

text \<open>Slot 2 of a pool of four slots of one tile is copied over slot 3, slot 1 over the null slot.\<close>

definition example_pool :: copy_tensor where
  "example_pool = \<lparr>ct_on_device = True, ct_allocated = True, ct_tile_layout = True, ct_sharded = False, ct_int32 = False,
     ct_format = ''Float16_b'', ct_shape = [4, 32, 32], ct_num_pages = 4, ct_page_size = 2048\<rparr>"

definition example_slots :: copy_tensor where
  "example_slots = \<lparr>ct_on_device = True, ct_allocated = True, ct_tile_layout = True, ct_sharded = False, ct_int32 = True,
     ct_format = ''Int32'', ct_shape = [2], ct_num_pages = 1, ct_page_size = 4096\<rparr>"

definition example_copy :: copy_inputs where
  "example_copy = \<lparr>state_pool = example_pool, sources = example_slots, targets = example_slots\<rparr>"

fun example_memory :: "pool_loc \<Rightarrow> nat" where
  "example_memory (PoolByte page k) = 100 * page + k mod 100"
| "example_memory (SourceWord w) = (if w = 0 then 2 else 1)"
| "example_memory (TargetWord w) = (if w = 0 then 3 else 0)"

abbreviation example_descriptor :: "string copy_descriptor" where
  "example_descriptor \<equiv> copy_program_of example_copy (8, 8) (\<lambda>n _. map (worker_core (8, 8)) [0..<n]) (\<lambda>_. [1]) ''pool'' ''sources'' ''targets''"

lemma example_copy_call:
  "state_pool_copy example_copy (8, 8) (\<lambda>n _. map (worker_core (8, 8)) [0..<n]) (\<lambda>_. [1]) ''pool'' ''sources'' ''targets'' = Inr example_descriptor"
  by (simp add: state_pool_copy_def validate_copy_def validate_tensor_def example_copy_def example_pool_def example_slots_def)

lemma example_copy_args: "pages_per_slot example_copy = 1" "num_workers example_copy (8, 8) = 2"
  "pool_args example_copy (8, 8) = \<lparr>ca_count = 2, ca_pages_per_slot = 1, ca_num_workers = 2, ca_page_bytes = 2048, ca_buffered_pages = 2\<rparr>"
  by (simp_all add: pages_per_slot_def num_workers_def total_pages_def pool_args_def example_copy_def example_pool_def example_slots_def w32_def)

lemma example_live: "live (pool_args example_copy (8, 8)) example_memory p \<longleftrightarrow> p = 0"
  by (auto simp: live_def example_copy_args source_of_def target_of_def slot_offset_def)

lemma example_copy_fits: "copy_fits example_copy (8, 8) example_memory"
proof -
  have "tile_pages [4, 32, 32] = 4" by (simp add: tile_pages_def dim_back_def div_up_def)
  then show ?thesis
    unfolding copy_fits_def slots_in_def independent_def example_live
    by (simp add: source_of_def target_of_def slot_offset_def) (simp add: example_copy_def example_pool_def example_slots_def)
qed

lemma state_pool_copied_witness:
  "\<exists>n s. dma_run 2 n (dma_init example_memory (\<lambda>_ _. 0) (\<lambda>c. the (copy_programs example_descriptor example_memory c))) s \<and>
     dma_finished 2 s \<and> memory s (PoolByte 3 7) = 207 \<and> memory s (PoolByte 0 7) = 7"
proof -
  have len: "length (cd_runtime_args example_descriptor) = 2"
    by (simp only: copy_descriptor_args example_copy_args copy_args.simps)
  obtain n s where run: "dma_run 2 n (dma_init example_memory (\<lambda>_ _. 0) (\<lambda>c. the (copy_programs example_descriptor example_memory c))) s"
    and fin: "dma_finished 2 s"
    using state_pool_runs [OF example_copy_fits example_copy_call, of "\<lambda>_ _. 0"] unfolding len by blast
  note copied = state_pool_copied [OF example_copy_fits example_copy_call, unfolded len, OF run fin, unfolded example_live example_copy_args]
  have "target_of example_memory 0 = 3" "source_of example_memory 0 = 2" by (simp_all add: source_of_def target_of_def slot_offset_def)
  moreover have "7 < ct_page_size (state_pool example_copy)" by (simp add: example_copy_def example_pool_def)
  ultimately have "memory s (PoolByte 3 7) = example_memory (PoolByte 2 7)" "memory s (PoolByte 0 7) = example_memory (PoolByte 0 7)"
    using conjunct1 [OF copied, rule_format, of 0 0 7] conjunct1 [OF conjunct2 [OF copied], rule_format, of 0 7]
      example_live [unfolded example_copy_args] by simp_all
  with run fin show ?thesis by auto
qed

lemma state_pool_copy_ends_witness:
  "\<exists>p. copy_programs example_descriptor example_memory 1 = Some p"
  using state_pool_copy_ends [OF example_copy_fits example_copy_call dma_run.stay] by blast

end
