(* ===== verification/QuantizeSfpu.thy ===== *)
theory QuantizeSfpu
  imports DstTiles
begin

text \<open>
  Per-row float8 quantization on the vector unit (\<open>quantize_rows/device/kernels/compute/quantize_rows_sfpu.h\<close>)
  over Dst: the running maxima of a row's magnitudes, their exchange format, the divisor tile and
  the quotients with their conversion. A float load of a lane, the divide and the float8 conversion
  are ttnn's, as are the widening of an unpacked element and the byte of a packed code.
\<close>

section \<open>What the platform provides\<close>

record quant_env =
  qe_fload :: "u32 \<Rightarrow> u32"
  qe_divide :: "u32 \<Rightarrow> u32 \<Rightarrow> u32"
  qe_convert :: "bool \<Rightarrow> u32 \<Rightarrow> u32"
  qe_unpack :: "u32 \<Rightarrow> u32"
  qe_pack8 :: "u32 \<Rightarrow> u8"

text \<open>A float load flushes subnormals to zero and keeps the other bits.\<close>

definition exponent :: "u32 \<Rightarrow> u32" where
  "exponent x = x AND 0x7F800000"

definition magnitude :: "u32 \<Rightarrow> u32" where
  "magnitude x = x AND 0x7FFFFFFF"

definition quant_env_ok :: "quant_env \<Rightarrow> bool" where
  "quant_env_ok e \<longleftrightarrow> (\<forall>x. if exponent x = 0 then magnitude (qe_fload e x) = 0 else qe_fload e x = x) \<and> qe_fload e 0 = 0"

section \<open>Lanes\<close>

definition acc_vec :: "nat \<Rightarrow> nat \<Rightarrow> nat" where
  "acc_vec t q = vec t (if q < 4 then 0 else 2) (q mod 4) 0"

definition load_bits :: "quant_env \<Rightarrow> dst_mem \<Rightarrow> nat \<Rightarrow> lanes" where
  "load_bits e d i l = qe_fload e (vec_at d i l)"

definition store_bits :: "nat \<Rightarrow> lanes \<Rightarrow> dst_mem \<Rightarrow> dst_mem" where
  "store_bits i v d = vec_set d i v"

definition abs_bits :: "quant_env \<Rightarrow> dst_mem \<Rightarrow> nat \<Rightarrow> lanes" where
  "abs_bits e d i l = magnitude (load_bits e d i l)"

definition imax :: "u32 \<Rightarrow> u32 \<Rightarrow> u32" where
  "imax a b = (if a <s b then b else a)"

definition vmax :: "lanes \<Rightarrow> lanes \<Rightarrow> lanes" where
  "vmax a b l = imax (a l) (b l)"

definition lanes8_max :: "lanes \<Rightarrow> lanes" where
  "lanes8_max v =
     (let v = vmax v (ror1 v); v = vmax v (ror1 (ror1 v)) in vmax v (ror1 (ror1 (ror1 (ror1 v)))))"

section \<open>The maxima\<close>

definition zero_acc :: "nat \<Rightarrow> nat \<Rightarrow> dst_mem \<Rightarrow> dst_mem" where
  "zero_acc groups acc d = fold (\<lambda>q. store_bits (acc_vec acc q) (\<lambda>_. 0)) [0..<groups] d"

definition absmax_band :: "quant_env \<Rightarrow> nat \<Rightarrow> nat \<Rightarrow> nat \<Rightarrow> nat \<Rightarrow> dst_mem \<Rightarrow> dst_mem" where
  "absmax_band e groups x acc g d =
     (let f = (if g < 4 then 0 else 2); b = g mod 4;
          m = vmax (abs_bits e d (vec x f b 0)) (abs_bits e d (vec x f b 1));
          m = vmax m (vmax (abs_bits e d (vec x (f + 1) b 0)) (abs_bits e d (vec x (f + 1) b 1)));
          a = acc_vec acc (g mod groups)
      in store_bits a (vmax (load_bits e d a) m) d)"

definition fold_absmax :: "quant_env \<Rightarrow> nat \<Rightarrow> nat \<Rightarrow> nat \<Rightarrow> nat \<Rightarrow> dst_mem \<Rightarrow> dst_mem" where
  "fold_absmax e groups x acc bands d = fold (\<lambda>g d. if g < bands then absmax_band e groups x acc g d else d) [0..<8] d"

definition finish_partial :: "quant_env \<Rightarrow> nat \<Rightarrow> nat \<Rightarrow> dst_mem \<Rightarrow> dst_mem" where
  "finish_partial e groups acc d = fold (\<lambda>q d.
     let a = acc_vec acc q; m = lanes8_max (load_bits e d a)
     in store_bits (a + 1) m (store_bits a m d)) [0..<groups] d"

definition gather_band :: "quant_env \<Rightarrow> nat \<Rightarrow> nat \<Rightarrow> nat \<Rightarrow> nat \<Rightarrow> dst_mem \<Rightarrow> dst_mem" where
  "gather_band e groups src acc k d =
     (let a = acc_vec acc (k mod groups)
      in store_bits a (vmax (load_bits e d a) (load_bits e d (vec src (k div 4) (k mod 4) 0))) d)"

definition fold_gather :: "quant_env \<Rightarrow> nat \<Rightarrow> nat \<Rightarrow> nat \<Rightarrow> nat \<Rightarrow> dst_mem \<Rightarrow> dst_mem" where
  "fold_gather e groups src acc valid d = fold (\<lambda>k d. if k < valid then gather_band e groups src acc k d else d) [0..<16] d"

section \<open>The divisor\<close>

definition stage_scale :: "quant_env \<Rightarrow> nat \<Rightarrow> nat \<Rightarrow> nat \<Rightarrow> nat \<Rightarrow> u32 \<Rightarrow> dst_mem \<Rightarrow> dst_mem" where
  "stage_scale e groups acc t c fp8_max_bits d = fold (\<lambda>q d.
     store_bits (c * 32 + q) (\<lambda>_. fp8_max_bits) (store_bits (t * 32 + q) (load_bits e d (acc_vec acc q)) d)) [0..<groups] d"

text \<open>The platform's divide on the first \<open>n\<close> vectors of three tiles, and its conversion on those of one.\<close>

definition binary_div :: "quant_env \<Rightarrow> nat \<Rightarrow> nat \<Rightarrow> nat \<Rightarrow> nat \<Rightarrow> dst_mem \<Rightarrow> dst_mem" where
  "binary_div e n in0 in1 out d = fold (\<lambda>i d.
     vec_set d (out * 32 + i) (\<lambda>l. qe_divide e (vec_at d (in0 * 32 + i) l) (vec_at d (in1 * 32 + i) l))) [0..<n] d"

definition fp32_to_fp8 :: "quant_env \<Rightarrow> bool \<Rightarrow> nat \<Rightarrow> nat \<Rightarrow> dst_mem \<Rightarrow> dst_mem" where
  "fp32_to_fp8 e e5m2 n x d = fold (\<lambda>i d. vec_set d (x * 32 + i) (\<lambda>l. qe_convert e e5m2 (vec_at d (x * 32 + i) l))) [0..<n] d"

definition divide_staged :: "quant_env \<Rightarrow> nat \<Rightarrow> nat \<Rightarrow> nat \<Rightarrow> dst_mem \<Rightarrow> dst_mem" where
  "divide_staged e groups t c = binary_div e groups t c c"

definition store_band :: "nat \<Rightarrow> nat \<Rightarrow> lanes \<Rightarrow> dst_mem \<Rightarrow> dst_mem" where
  "store_band d g v m =
     (let f = (if g < 4 then 0 else 2); b = g mod 4
      in store_bits (vec d (f + 1) b 1) v (store_bits (vec d (f + 1) b 0) v
           (store_bits (vec d f b 1) v (store_bits (vec d f b 0) v m))))"

definition store_bands :: "nat \<Rightarrow> nat \<Rightarrow> nat \<Rightarrow> lanes \<Rightarrow> dst_mem \<Rightarrow> dst_mem" where
  "store_bands groups q d v m = fold (\<lambda>j. store_band d (j * groups + q) v) [0..<8 div groups] m"

definition scale_bits :: "u32 \<Rightarrow> u32 \<Rightarrow> u32 \<Rightarrow> u32" where
  "scale_bits lo_bits ratio amax = (if 0x7F800000 <s amax then 0x7FC00000 else imax ratio lo_bits)"

definition spread_scale :: "quant_env \<Rightarrow> nat \<Rightarrow> nat \<Rightarrow> nat \<Rightarrow> nat \<Rightarrow> u32 \<Rightarrow> dst_mem \<Rightarrow> dst_mem" where
  "spread_scale e groups t c d lo_bits m = fold (\<lambda>q m.
     store_bands groups q d (\<lambda>l. scale_bits lo_bits (load_bits e m (c * 32 + q) l) (load_bits e m (t * 32 + q) l)) m) [0..<groups] m"

definition divisor_step :: "quant_env \<Rightarrow> nat \<Rightarrow> nat \<Rightarrow> nat \<Rightarrow> nat \<Rightarrow> nat \<Rightarrow> dst_mem \<Rightarrow> dst_mem" where
  "divisor_step e groups d t total_bands i m =
     (let left = w32 (total_bands + 2 ^ 32 - 16 * i); valid = (if left < 16 then left else 16) in fold_gather e groups t d valid m)"

definition divide_gathered :: "quant_env \<Rightarrow> nat \<Rightarrow> nat \<Rightarrow> nat \<Rightarrow> nat \<Rightarrow> u32 \<Rightarrow> u32 \<Rightarrow> dst_mem \<Rightarrow> dst_mem" where
  "divide_gathered e groups d t c fp8_max_bits min_scale_bits m =
     spread_scale e groups t c d min_scale_bits (divide_staged e groups t c (stage_scale e groups d t c fp8_max_bits m))"

definition make_divisor :: "quant_env \<Rightarrow> nat \<Rightarrow> nat \<Rightarrow> nat \<Rightarrow> nat \<Rightarrow> (nat \<Rightarrow> tile_words) \<Rightarrow> nat \<Rightarrow> nat \<Rightarrow> u32 \<Rightarrow> u32 \<Rightarrow> dst_mem \<Rightarrow> dst_mem" where
  "make_divisor e groups d t c gather gather_tiles total_bands fp8_max_bits min_scale_bits m =
     divide_gathered e groups d t c fp8_max_bits min_scale_bits
       (fold (\<lambda>i m. divisor_step e groups d t total_bands i (copy_tile (gather i) t m)) [0..<gather_tiles] (zero_acc groups d m))"

section \<open>The quotients\<close>

text \<open>Subvectors (the eight lanes of a row) of four vectors transposed.\<close>

definition subvec_transp :: "(nat \<Rightarrow> lanes) \<Rightarrow> nat \<Rightarrow> lanes" where
  "subvec_transp v i l = v (l div 8) (8 * i + l mod 8)"

text \<open>The four vectors of a band.\<close>

definition band_vec :: "nat \<Rightarrow> nat \<Rightarrow> nat \<Rightarrow> nat" where
  "band_vec t b i = vec t ((if b < 4 then 0 else 2) + i div 2) (b mod 4) (i mod 2)"

definition gather_rows :: "nat \<Rightarrow> nat \<Rightarrow> nat \<Rightarrow> dst_mem \<Rightarrow> dst_mem" where
  "gather_rows t bands real d = fold (\<lambda>b d.
     let v = subvec_transp (\<lambda>i. vec_at d (band_vec t b i))
     in fold (\<lambda>i d. vec_set d (t * 32 + b * real + i) (v i)) [0..<min real 3] d) [0..<bands] d"

definition scatter_rows :: "nat \<Rightarrow> nat \<Rightarrow> nat \<Rightarrow> dst_mem \<Rightarrow> dst_mem" where
  "scatter_rows t bands real d = fold (\<lambda>bc d.
     let b = bands - 1 - bc;
         v = subvec_transp (\<lambda>i. vec_at d (t * 32 + b * real + (if i < min real 3 then i else 0)))
     in fold (\<lambda>i d. vec_set d (band_vec t b i) (v i)) [0..<4] d) [0..<bands] d"

definition divide_vectors :: "quant_env \<Rightarrow> nat \<Rightarrow> nat \<Rightarrow> nat \<Rightarrow> dst_mem \<Rightarrow> dst_mem" where
  "divide_vectors e d x n = binary_div e n x d x"

definition convert_vectors :: "quant_env \<Rightarrow> bool \<Rightarrow> nat \<Rightarrow> nat \<Rightarrow> dst_mem \<Rightarrow> dst_mem" where
  "convert_vectors e e5m2 x n = fp32_to_fp8 e e5m2 n x"

text \<open>Tiles of at most 16 rows have their data in the top faces, the first vectors of a tile.\<close>

definition face_vectors :: "nat \<Rightarrow> nat list" where
  "face_vectors rows =
     concat (map (\<lambda>f. map (\<lambda>i. f * 8 + i) [0..<if rows \<le> 16 then rows div 2 else 8]) [0..<if rows \<le> 16 then 2 else 4])"

definition quantize_loaded :: "quant_env \<Rightarrow> bool \<Rightarrow> nat \<Rightarrow> nat \<Rightarrow> nat \<Rightarrow> nat \<Rightarrow> nat \<Rightarrow> dst_mem \<Rightarrow> dst_mem" where
  "quantize_loaded e e5m2 d x0 rows tensor_rows n m =
     (let bands = rows div 4; real = (if tensor_rows < 4 then tensor_rows else 4)
      in if real < 4 \<and> (real \<le> 2 \<or> bands = 1) then
           let vectors = bands * real;
               m = fold (\<lambda>j. gather_rows (x0 + j) bands real) [0..<min n 3] (gather_rows d bands real m);
               m = fold (\<lambda>j. divide_vectors e d (x0 + j) vectors) [0..<min n 3] m;
               m = fold (\<lambda>j. convert_vectors e e5m2 (x0 + j) vectors) [0..<min n 3] m
           in fold (\<lambda>j. scatter_rows (x0 + j) bands real) [0..<min n 3] (scatter_rows d bands real m)
         else
           let m = fold (\<lambda>j m. fold (\<lambda>i m. vec_set m ((x0 + j) * 32 + i) (\<lambda>l. qe_divide e (vec_at m ((x0 + j) * 32 + i) l) (vec_at m (d * 32 + i) l)))
                 (face_vectors rows) m) [0..<n] m
           in fold (\<lambda>j m. fold (\<lambda>i m. vec_set m ((x0 + j) * 32 + i) (\<lambda>l. qe_convert e e5m2 (vec_at m ((x0 + j) * 32 + i) l)))
                 (face_vectors rows) m) [0..<n] m)"

definition load_tile :: "quant_env \<Rightarrow> tile_words \<Rightarrow> nat \<Rightarrow> dst_mem \<Rightarrow> dst_mem" where
  "load_tile e p t = copy_tile (\<lambda>i. qe_unpack e (p i)) t"

definition quantize_tiles ::
  "quant_env \<Rightarrow> bool \<Rightarrow> nat \<Rightarrow> nat \<Rightarrow> nat \<Rightarrow> nat \<Rightarrow> (nat \<Rightarrow> tile_words) \<Rightarrow> nat \<Rightarrow> nat \<Rightarrow> dst_mem \<Rightarrow> dst_mem" where
  "quantize_tiles e e5m2 d x0 rows tensor_rows cb first n m =
     quantize_loaded e e5m2 d x0 rows tensor_rows n (fold (\<lambda>j. load_tile e (cb (first + j)) (x0 + j)) [0..<n] m)"

end
