(* ===== verification/QuantizeMaxima.thy ===== *)
theory QuantizeMaxima
  imports QuantizeSfpu
begin

text \<open>
  The maxima of the quantization: what the accumulator bands hold after the folds over dense
  tiles and over gathered ones, as the greatest of the magnitudes of a row.
\<close>

section \<open>The greatest of a set of bit patterns\<close>

definition greatest :: "u32 set \<Rightarrow> u32" where
  "greatest S = Max (Set.insert 0 S)"

lemma greatest_empty [simp]: "greatest {} = 0"
  by (simp add: greatest_def)

lemma greatest_union:
  assumes "finite S" "finite T"
  shows "greatest (S \<union> T) = max (greatest S) (greatest T)"
proof -
  have "greatest (S \<union> T) = Max (Set.insert 0 S \<union> Set.insert 0 T)" by (simp add: greatest_def)
  also have "\<dots> = max (greatest S) (greatest T)" unfolding greatest_def using assms by (intro Max_Un) auto
  finally show ?thesis .
qed

lemma greatest_insert: "finite S \<Longrightarrow> greatest (Set.insert x S) = max x (greatest S)"
proof -
  assume "finite S"
  then have "greatest ({x} \<union> S) = max (greatest {x}) (greatest S)" by (intro greatest_union) simp
  moreover have "greatest {x} = x" by (simp add: greatest_def max_def)
  ultimately show ?thesis by simp
qed

lemma greatest_mem: "finite S \<Longrightarrow> greatest S = 0 \<or> greatest S \<in> S"
  using Max_in [of "Set.insert 0 S"] by (auto simp: greatest_def)

lemma greatest_ge: "finite S \<Longrightarrow> x \<in> S \<Longrightarrow> x \<le> greatest S"
  by (simp add: greatest_def)

section \<open>Magnitudes\<close>

text \<open>What a float load and a comparison as integers leave alone.\<close>

definition clean :: "quant_env \<Rightarrow> u32 \<Rightarrow> bool" where
  "clean e x \<longleftrightarrow> x < 0x80000000 \<and> qe_fload e x = x"

definition row_bits :: "quant_env \<Rightarrow> u32 \<Rightarrow> u32" where
  "row_bits e x = magnitude (qe_fload e x)"

lemma magnitude_less: "magnitude x < 0x80000000"
proof -
  have "magnitude x \<le> 0x7FFFFFFF" unfolding magnitude_def by (rule word_and_le1)
  then show ?thesis by (simp add: le_less_trans)
qed

lemma exponent_magnitude: "exponent (magnitude x) = exponent x"
  by (simp add: exponent_def magnitude_def and.assoc)

lemma row_bits_clean: "quant_env_ok e \<Longrightarrow> clean e (row_bits e x)"
proof -
  assume ok: "quant_env_ok e"
  show ?thesis
  proof (cases "exponent x = 0")
    case True
    then have "row_bits e x = 0" using ok unfolding quant_env_ok_def row_bits_def by metis
    then show ?thesis using ok by (simp add: clean_def quant_env_ok_def)
  next
    case False
    then have x: "row_bits e x = magnitude x" using ok unfolding quant_env_ok_def row_bits_def by metis
    have "qe_fload e (magnitude x) = magnitude x" using ok False exponent_magnitude unfolding quant_env_ok_def by metis
    then show ?thesis by (simp add: x clean_def magnitude_less)
  qed
qed

lemma clean_zero: "quant_env_ok e \<Longrightarrow> clean e 0"
  by (simp add: clean_def quant_env_ok_def)

lemma imax_clean: "clean e a \<Longrightarrow> clean e b \<Longrightarrow> imax a b = max a b"
proof -
  have "sint x = uint x" if "x < 0x80000000" for x :: u32
  proof -
    have "uint x < 2 ^ 31" using that by (simp add: word_less_def)
    then show ?thesis by (simp add: sint_uint signed_take_bit_int_eq_self_iff) (simp add: order.trans [of _ 0])
  qed
  then show "clean e a \<Longrightarrow> clean e b \<Longrightarrow> imax a b = max a b"
    by (auto simp: imax_def word_sless_alt clean_def word_less_def word_le_def max_def intro: word_uint_eqI)
qed

lemma max_clean: "clean e a \<Longrightarrow> clean e b \<Longrightarrow> clean e (max a b)"
  by (simp add: max_def)

lemma greatest_clean:
  assumes "quant_env_ok e" "finite S" "\<And>x. x \<in> S \<Longrightarrow> clean e x"
  shows "clean e (greatest S)"
  using greatest_mem [OF assms(2)] assms(3) clean_zero [OF assms(1)] by auto

section \<open>The maximum of a row's lanes\<close>

definition clean_lanes :: "quant_env \<Rightarrow> lanes \<Rightarrow> bool" where
  "clean_lanes e v \<longleftrightarrow> (\<forall>l < 32. clean e (v l))"

lemma vmax_max: "clean_lanes e a \<Longrightarrow> clean_lanes e b \<Longrightarrow> l < 32 \<Longrightarrow> vmax a b l = max (a l) (b l)"
  unfolding vmax_def clean_lanes_def by (blast intro: imax_clean)

lemma vmax_clean: "clean_lanes e a \<Longrightarrow> clean_lanes e b \<Longrightarrow> clean_lanes e (vmax a b)"
  using vmax_max [of e a b] by (auto simp: clean_lanes_def intro: max_clean)

lemma ror1_lane: "b < 8 \<Longrightarrow> ror1 v (8 * a + b) = v (8 * a + (b + 7) mod 8)"
  by (simp add: ror1_def)

lemma ror1_clean: "clean_lanes e v \<Longrightarrow> clean_lanes e (ror1 v)"
  unfolding clean_lanes_def
proof (intro allI impI)
  fix l :: nat assume v: "\<forall>l < 32. clean e (v l)" and l: "l < 32"
  have "l div 8 < 4" "(l mod 8 + 7) mod 8 < 8" using l by auto
  then have "8 * (l div 8) + (l mod 8 + 7) mod 8 < 32" by linarith
  with v show "clean e (ror1 v l)" by (simp add: ror1_def)
qed

lemma rotations:
  fixes b :: nat
  assumes "b < 8"
  shows "((b + 7) mod 8 + 7) mod 8 = (b + 6) mod 8" "(((b + 6) mod 8 + 7) mod 8 + 7) mod 8 = (b + 4) mod 8"
proof -
  have "b \<in> {0, 1, 2, 3, 4, 5, 6, 7}" using assms by auto
  then show "((b + 7) mod 8 + 7) mod 8 = (b + 6) mod 8" "(((b + 6) mod 8 + 7) mod 8 + 7) mod 8 = (b + 4) mod 8"
    by (elim insertE emptyE, simp_all)+
qed

lemma lanes8_max_row:
  assumes v: "clean_lanes e v" and l: "l < 32"
  shows "lanes8_max v l = greatest ((\<lambda>j. v (8 * (l div 8) + j)) ` {..<8})"
proof -
  define a where "a = l div 8"
  define v1 where "v1 = vmax v (ror1 v)"
  define v2 where "v2 = vmax v1 (ror1 (ror1 v1))"
  have c1: "clean_lanes e v1" unfolding v1_def by (intro vmax_clean ror1_clean v)
  have c2: "clean_lanes e v2" unfolding v2_def by (intro vmax_clean ror1_clean c1)
  have a: "8 * a + b < 32" if "b < 8" for b
  proof -
    have "a < 4" using l by (auto simp: a_def)
    then show ?thesis using that by linarith
  qed
  have m8: "(b + k) mod 8 < 8" for b k :: nat by simp
  have s1: "v1 (8 * a + b) = max (v (8 * a + b)) (v (8 * a + (b + 7) mod 8))" if "b < 8" for b
    unfolding v1_def vmax_max [OF v ror1_clean [OF v] a [OF that]] ror1_lane [OF that] ..
  have s2: "v2 (8 * a + b) = max (v1 (8 * a + b)) (v1 (8 * a + (b + 6) mod 8))" if "b < 8" for b
    unfolding v2_def vmax_max [OF c1 ror1_clean [OF ror1_clean [OF c1]] a [OF that]] ror1_lane [OF that] ror1_lane [OF m8] rotations(1) [OF that] ..
  have s3: "lanes8_max v (8 * a + b) = max (v2 (8 * a + b)) (v2 (8 * a + (b + 4) mod 8))" if "b < 8" for b
    unfolding lanes8_max_def Let_def v1_def [symmetric] v2_def [symmetric]
      vmax_max [OF c2 ror1_clean [OF ror1_clean [OF ror1_clean [OF ror1_clean [OF c2]]]] a [OF that]]
      ror1_lane [OF that] ror1_lane [OF m8] rotations(1) [OF that] rotations(2) [OF that] ..
  have set: "(\<lambda>j. v (8 * a + j)) ` {..<8} = {v (8 * a), v (8 * a + 1), v (8 * a + 2), v (8 * a + 3), v (8 * a + 4), v (8 * a + 5), v (8 * a + 6), v (8 * a + 7)}"
  proof -
    have "{..<8} = {0, 1, 2, 3, 4, 5, 6, 7 :: nat}" by auto
    then show ?thesis by simp
  qed
  define S where "S b = {v (8 * a + b), v (8 * a + (b + 7) mod 8)}" for b
  have pair: "v1 (8 * a + b) = greatest (S b)" if "b < 8" for b
    by (simp add: s1 [OF that] S_def greatest_insert)
  have four: "v2 (8 * a + b) = greatest (S b \<union> S ((b + 6) mod 8))" if "b < 8" for b
    unfolding s2 [OF that] pair [OF that] pair [OF m8] by (rule greatest_union [symmetric]) (simp_all add: S_def)
  have eight: "lanes8_max v (8 * a + b) = greatest ((S b \<union> S ((b + 6) mod 8)) \<union> (S ((b + 4) mod 8) \<union> S (((b + 4) mod 8 + 6) mod 8)))"
    if "b < 8" for b
    unfolding s3 [OF that] four [OF that] four [OF m8] by (rule greatest_union [symmetric]) (simp_all add: S_def)
  have "lanes8_max v (8 * a + b) = greatest ((\<lambda>j. v (8 * a + j)) ` {..<8})" if "b < 8" for b
  proof -
    have "b \<in> {0, 1, 2, 3, 4, 5, 6, 7}" using that by auto
    then have "(S b \<union> S ((b + 6) mod 8)) \<union> (S ((b + 4) mod 8) \<union> S (((b + 4) mod 8 + 6) mod 8)) = (\<lambda>j. v (8 * a + j)) ` {..<8}"
      unfolding set S_def by (elim insertE emptyE) (simp_all add: insert_commute)
    then show ?thesis by (simp only: eight [OF that])
  qed
  from this [of "l mod 8"] show ?thesis by (simp add: a_def)
qed

section \<open>The folds\<close>

lemma acc_vec_tile: "q < 8 \<Longrightarrow> acc_vec t q div 32 = t"
  unfolding acc_vec_def by (rule vec_parts(1)) auto

lemma acc_vec_same: "q < 8 \<Longrightarrow> q' < 8 \<Longrightarrow> acc_vec t q = acc_vec t q' \<longleftrightarrow> q = q'"
proof -
  assume q: "q < 8" "q' < 8"
  have "q \<in> {0, 1, 2, 3, 4, 5, 6, 7}" "q' \<in> {0, 1, 2, 3, 4, 5, 6, 7}" using q by auto
  then show ?thesis unfolding acc_vec_def vec_def by (elim insertE emptyE) simp_all
qed

lemma band_vec_tile: "g < 8 \<Longrightarrow> i < 4 \<Longrightarrow> band_vec t g i div 32 = t"
  unfolding band_vec_def by (rule vec_parts(1)) auto

lemma vec_at_zeroed:
  assumes "groups \<le> 8" "l < 32"
  shows "vec_at (zero_acc groups acc d) j l = (if \<exists>q < groups. j = acc_vec acc q then 0 else vec_at d j l)"
  using assms(1)
proof (induction groups)
  case (Suc n)
  then have "vec_at (zero_acc (Suc n) acc d) j l = (if j = acc_vec acc n then 0 else vec_at (zero_acc n acc d) j l)"
    by (simp add: zero_acc_def store_bits_def vec_at_set [OF assms(2)])
  with Suc show ?case by (auto simp: less_Suc_eq)
qed (simp add: zero_acc_def)

text \<open>The magnitudes in the bands \<open>gs\<close> of a tile at a lane.\<close>

definition mags :: "quant_env \<Rightarrow> dst_mem \<Rightarrow> nat \<Rightarrow> nat set \<Rightarrow> nat \<Rightarrow> u32 set" where
  "mags e d x gs l = (\<Union>g \<in> gs. (\<lambda>i. row_bits e (vec_at d (band_vec x g i) l)) ` {..<4})"

lemma finite_mags: "finite gs \<Longrightarrow> finite (mags e d x gs l)"
  by (simp add: mags_def)

lemma mags_clean: "quant_env_ok e \<Longrightarrow> m \<in> mags e d x gs l \<Longrightarrow> clean e m"
  by (auto simp: mags_def row_bits_clean)

lemma mags_tile: "(\<And>j. j div 32 = x \<Longrightarrow> vec_at d j l = vec_at d' j l) \<Longrightarrow> gs \<subseteq> {..<8} \<Longrightarrow> mags e d x gs l = mags e d' x gs l"
proof -
  assume same: "\<And>j. j div 32 = x \<Longrightarrow> vec_at d j l = vec_at d' j l" and gs: "gs \<subseteq> {..<8}"
  have "(\<lambda>i. row_bits e (vec_at d (band_vec x g i) l)) ` {..<4} = (\<lambda>i. row_bits e (vec_at d' (band_vec x g i) l)) ` {..<4}"
    if "g \<in> gs" for g
    by (rule image_cong) (use that gs same [OF band_vec_tile] in auto)
  then show ?thesis unfolding mags_def by simp
qed

lemma absmax_band_at:
  assumes ok: "quant_env_ok e" and x: "x \<noteq> acc" and g: "g < 8" and groups: "0 < groups" "groups \<le> 8" and l: "l < 32"
    and acc: "clean e (vec_at d (acc_vec acc (g mod groups)) l)"
  shows "vec_at (absmax_band e groups x acc g d) j l =
    (if j = acc_vec acc (g mod groups) then max (vec_at d j l) (greatest (mags e d x {g} l)) else vec_at d j l)"
proof -
  let ?v = "\<lambda>i. row_bits e (vec_at d (band_vec x g i) l)"
  have c: "clean e (?v i)" for i by (rule row_bits_clean [OF ok])
  have "mags e d x {g} l = {?v 0, ?v 1, ?v 2, ?v 3}"
  proof -
    have "{..<4} = {0, 1, 2, 3 :: nat}" by auto
    then show ?thesis by (simp add: mags_def)
  qed
  then have m: "greatest (mags e d x {g} l) = max (max (?v 0) (?v 1)) (max (?v 2) (?v 3))"
    by (simp add: greatest_insert max.assoc)
  have v: "magnitude (qe_fload e (vec_at d (vec x F (g mod 4) p) l)) = ?v i"
    if "vec x F (g mod 4) p = band_vec x g i" for F p i using that by (simp add: row_bits_def)
  have b: "band_vec x g 0 = vec x (if g < 4 then 0 else 2) (g mod 4) 0" "band_vec x g 1 = vec x (if g < 4 then 0 else 2) (g mod 4) 1"
    "band_vec x g 2 = vec x ((if g < 4 then 0 else 2) + 1) (g mod 4) 0" "band_vec x g 3 = vec x ((if g < 4 then 0 else 2) + 1) (g mod 4) 1"
    by (simp_all add: band_vec_def)
  have "imax (vec_at d (acc_vec acc (g mod groups)) l) (imax (imax (?v 0) (?v 1)) (imax (?v 2) (?v 3))) =
      max (vec_at d (acc_vec acc (g mod groups)) l) (greatest (mags e d x {g} l))"
    unfolding m by (simp add: imax_clean [of e] max_clean c acc)
  then show ?thesis
    using acc unfolding absmax_band_def Let_def store_bits_def vec_at_set [OF l] b [symmetric]
    by (simp add: vmax_def abs_bits_def load_bits_def clean_def row_bits_def)
qed

lemma fold_absmax_prefix:
  assumes ok: "quant_env_ok e" and x: "x \<noteq> acc" and groups: "0 < groups" "groups \<le> 8" and l: "l < 32"
    and acc: "\<And>q. q < groups \<Longrightarrow> clean e (vec_at d (acc_vec acc q) l)" and "n \<le> 8"
    and D: "D = fold (\<lambda>g d. if g < bands then absmax_band e groups x acc g d else d)"
  shows "(\<forall>q < groups. vec_at (D [0..<n] d) (acc_vec acc q) l =
      max (vec_at d (acc_vec acc q) l) (greatest (mags e d x {g. g < n \<and> g < bands \<and> g mod groups = q} l))) \<and>
    (\<forall>j. j div 32 \<noteq> acc \<longrightarrow> vec_at (D [0..<n] d) j l = vec_at d j l)"
  using \<open>n \<le> 8\<close>
proof (induction n)
  case 0
  then show ?case by (simp add: D mags_def)
next
  case (Suc n)
  let ?d = "D [0..<n] d" and ?G = "\<lambda>n q. {g. g < n \<and> g < bands \<and> g mod groups = q}"
  from Suc have IH: "\<And>q. q < groups \<Longrightarrow> vec_at ?d (acc_vec acc q) l = max (vec_at d (acc_vec acc q) l) (greatest (mags e d x (?G n q) l))"
    "\<And>j. j div 32 \<noteq> acc \<Longrightarrow> vec_at ?d j l = vec_at d j l" by simp_all
  have D_Suc: "D [0..<Suc n] d = (if n < bands then absmax_band e groups x acc n ?d else ?d)" by (simp add: D)
  have fin: "finite (?G n q)" for q by simp
  have clean: "clean e (vec_at ?d (acc_vec acc q) l)" if "q < groups" for q
    unfolding IH(1) [OF that] by (intro max_clean acc that greatest_clean ok finite_mags fin mags_clean)
  have n: "n < 8" "n mod groups < groups" using Suc.prems groups by simp_all
  have "mags e ?d x {n} l = mags e d x {n} l" by (rule mags_tile) (use IH(2) x n in auto)
  note step = absmax_band_at [OF ok x n(1) groups l clean [OF n(2)], unfolded this]
  have new: "?G (Suc n) q = (if n < bands \<and> n mod groups = q then {n} else {}) \<union> ?G n q" for q by (auto simp: less_Suc_eq)
  have mags_new: "mags e d x (?G (Suc n) q) l = (if n < bands \<and> n mod groups = q then mags e d x {n} l else {}) \<union> mags e d x (?G n q) l" for q
    unfolding new by (auto simp: mags_def)
  show ?case
  proof (intro conjI allI impI)
    fix q assume q: "q < groups"
    then have same: "acc_vec acc q = acc_vec acc (n mod groups) \<longleftrightarrow> q = n mod groups"
      using acc_vec_same [of q "n mod groups" acc] n groups by simp
    show "vec_at (D [0..<Suc n] d) (acc_vec acc q) l = max (vec_at d (acc_vec acc q) l) (greatest (mags e d x (?G (Suc n) q) l))"
      unfolding D_Suc mags_new using IH(1) [OF q] same step [of "acc_vec acc q"]
      by (auto simp: greatest_union finite_mags max.assoc max.commute max.left_commute)
  next
    fix j assume j: "j div 32 \<noteq> acc"
    then have "j \<noteq> acc_vec acc (n mod groups)" using acc_vec_tile [of "n mod groups" acc] n groups by auto
    then show "vec_at (D [0..<Suc n] d) j l = vec_at d j l" unfolding D_Suc using step [of j] IH(2) [OF j] by simp
  qed
qed

lemma fold_absmax_at:
  assumes ok: "quant_env_ok e" and x: "x \<noteq> acc" and groups: "0 < groups" "groups \<le> 8" and l: "l < 32"
    and acc: "\<And>q. q < groups \<Longrightarrow> clean e (vec_at d (acc_vec acc q) l)"
  shows "q < groups \<Longrightarrow> vec_at (fold_absmax e groups x acc bands d) (acc_vec acc q) l =
      max (vec_at d (acc_vec acc q) l) (greatest (mags e d x {g. g < 8 \<and> g < bands \<and> g mod groups = q} l))"
    and "j div 32 \<noteq> acc \<Longrightarrow> vec_at (fold_absmax e groups x acc bands d) j l = vec_at d j l"
  using fold_absmax_prefix [OF ok x groups l acc order_refl refl, of bands] by (simp_all add: fold_absmax_def)

section \<open>The rows of a tile\<close>

text \<open>The magnitudes in the bands \<open>gs\<close> of a page, as it is unpacked, at a lane.\<close>

definition page_mags :: "quant_env \<Rightarrow> tile_words \<Rightarrow> nat set \<Rightarrow> nat \<Rightarrow> u32 set" where
  "page_mags e p gs l = (\<Union>g \<in> gs. (\<lambda>i. row_bits e (p (lane_word (band_vec 0 g i) l))) ` {..<4})"

lemma finite_page_mags: "finite gs \<Longrightarrow> finite (page_mags e p gs l)"
  by (simp add: page_mags_def)

lemma band_vec_mod: "g < 8 \<Longrightarrow> i < 4 \<Longrightarrow> band_vec t g i mod 32 = band_vec 0 g i"
proof -
  assume "g < 8" "i < 4"
  then have "band_vec 0 g i < 32" using band_vec_tile [of g i 0] by simp
  moreover have "band_vec t g i = t * 32 + band_vec 0 g i" by (simp add: band_vec_def vec_def)
  ultimately show ?thesis by simp
qed

lemma mags_copied: "gs \<subseteq> {..<8} \<Longrightarrow> l < 32 \<Longrightarrow> mags e (copy_tile p x d) x gs l = page_mags e p gs l"
proof -
  assume gs: "gs \<subseteq> {..<8}" and l: "l < 32"
  have "vec_at (copy_tile p x d) (band_vec x g i) l = p (lane_word (band_vec 0 g i) l)" if "g \<in> gs" "i < 4" for g i
    using that gs by (auto simp: vec_at_copied [OF l] band_vec_tile band_vec_mod)
  then show ?thesis unfolding mags_def page_mags_def by (intro SUP_cong image_cong refl) (auto cong: image_cong)
qed

lemma elem_band:
  assumes "r < 32" "c < 32"
  shows "elem_vec t r c = band_vec t (r div 4) (2 * (c div 16) + c mod 2)"
proof -
  have "r div 4 < 8" "r div 16 = r div 4 div 4" using assms(1) by (auto simp: div_mult2_eq [symmetric])
  moreover have "2 * (x div 4) = (if x < 4 then 0 else 2)" if "x < 8" for x :: nat using that by auto
  ultimately have r1: "2 * (r div 16) = (if r div 4 < 4 then 0 else 2)" by metis
  have "r mod 16 = 4 * (r div 4 mod 4) + r mod 4" using mod_mult2_eq [of r 4 4] by simp
  then have r: "2 * (r div 16) = (if r div 4 < 4 then 0 else 2)" "r mod 16 div 4 = r div 4 mod 4" using r1 by simp_all
  have c: "(2 * (c div 16) + c mod 2) div 2 = c div 16" "(2 * (c div 16) + c mod 2) mod 2 = c mod 2" by simp_all
  show ?thesis unfolding elem_vec_def band_vec_def c r(2) [symmetric] r(1) [symmetric] by (simp add: mult.commute)
qed

text \<open>The lanes of a row hold the elements of that row in the bands.\<close>

lemma row_lanes:
  assumes gs: "gs \<subseteq> {..<8}" and r0: "r0 < 4"
  shows "(\<Union>j \<in> {..<8}. page_mags e p gs (8 * r0 + j)) =
    {row_bits e (page_elem p r c) | r c. r < 32 \<and> c < 32 \<and> r div 4 \<in> gs \<and> r mod 4 = r0}" (is "?L = ?R")
proof
  show "?L \<subseteq> ?R"
  proof
    fix v assume "v \<in> ?L"
    then obtain g i j where gij: "g \<in> gs" "i < 4" "j < 8" and v: "v = row_bits e (p (lane_word (band_vec 0 g i) (8 * r0 + j)))"
      by (auto simp: page_mags_def)
    define r where "r = 4 * g + r0"
    define c where "c = 16 * (i div 2) + (2 * j + i mod 2)"
    have g: "g < 8" using gij(1) gs by auto
    have low: "2 * j + i mod 2 < 16" "i div 2 < 2"
    proof -
      have "i mod 2 < 2" by simp
      then show "2 * j + i mod 2 < 16" using gij(3) by linarith
    qed (use gij(2) in auto)
    have rc: "r < 32" "c < 32" using g r0 low by (auto simp: r_def c_def)
    have rs: "r div 4 = g" "r mod 4 = r0" using r0 by (simp_all add: r_def)
    have cs: "c div 16 = i div 2" "c mod 16 = 2 * j + i mod 2" using low by (simp_all add: c_def)
    have "c mod 2 = c mod 16 mod 2" by (simp add: mod_mod_cancel)
    then have c2: "c mod 2 = i mod 2" "c mod 16 div 2 = j" by (simp_all add: cs)
    have "page_elem p r c = p (lane_word (band_vec 0 g i) (8 * r0 + j))"
      unfolding elem_word elem_band [OF rc] elem_lane_def rs c2 cs(1) by simp
    then have "v = row_bits e (page_elem p r c)" by (simp only: v)
    with rc rs gij(1) show "v \<in> ?R" by blast
  qed
  show "?R \<subseteq> ?L"
  proof
    fix v assume "v \<in> ?R"
    then obtain r c where rc: "r < 32" "c < 32" "r div 4 \<in> gs" "r mod 4 = r0" and v: "v = row_bits e (page_elem p r c)" by auto
    have "2 * (c div 16) + c mod 2 < 4" "c mod 16 div 2 < 8"
    proof -
      have "c div 16 < 2" "c mod 2 < 2" using rc(2) by auto
      then show "2 * (c div 16) + c mod 2 < 4" by linarith
    qed auto
    moreover have "v = row_bits e (p (lane_word (band_vec 0 (r div 4) (2 * (c div 16) + c mod 2)) (8 * r0 + c mod 16 div 2)))"
      unfolding v elem_word elem_band [OF rc(1,2)] elem_lane_def rc(4) ..
    ultimately show "v \<in> ?L" using rc(3) unfolding page_mags_def by blast
  qed
qed

section \<open>The maxima of one core\<close>

definition absmax_tiles :: "quant_env \<Rightarrow> nat \<Rightarrow> nat \<Rightarrow> nat \<Rightarrow> (nat \<Rightarrow> tile_words) \<Rightarrow> (nat \<Rightarrow> nat) \<Rightarrow> nat \<Rightarrow> dst_mem \<Rightarrow> dst_mem" where
  "absmax_tiles e groups x acc tiles bands n d =
     fold (\<lambda>i d. fold_absmax e groups x acc (bands i) (copy_tile (tiles i) x d)) [0..<n] d"

definition tile_set :: "quant_env \<Rightarrow> nat \<Rightarrow> (nat \<Rightarrow> tile_words) \<Rightarrow> (nat \<Rightarrow> nat) \<Rightarrow> nat \<Rightarrow> nat \<Rightarrow> nat \<Rightarrow> u32 set" where
  "tile_set e groups tiles bands n q l = (\<Union>i < n. page_mags e (tiles i) {g. g < 8 \<and> g < bands i \<and> g mod groups = q} l)"

lemma finite_tile_set: "finite (tile_set e groups tiles bands n q l)"
  by (auto simp: tile_set_def intro: finite_page_mags)

lemma tile_set_clean: "quant_env_ok e \<Longrightarrow> v \<in> tile_set e groups tiles bands n q l \<Longrightarrow> clean e v"
  by (auto simp: tile_set_def page_mags_def row_bits_clean)

lemma acc_other_tile: "q < 8 \<Longrightarrow> x \<noteq> acc \<Longrightarrow> l < 32 \<Longrightarrow> vec_at (copy_tile p x d) (acc_vec acc q) l = vec_at d (acc_vec acc q) l"
  by (simp add: vec_at_copied acc_vec_tile)

lemma absmax_tiles_at:
  assumes ok: "quant_env_ok e" and x: "x \<noteq> acc" and groups: "0 < groups" "groups \<le> 8" and l: "l < 32" and q: "q < groups"
    and zero: "\<And>q. q < groups \<Longrightarrow> vec_at d (acc_vec acc q) l = 0"
  shows "vec_at (absmax_tiles e groups x acc tiles bands n d) (acc_vec acc q) l = greatest (tile_set e groups tiles bands n q l)"
  using q
proof (induction n arbitrary: q)
  case 0
  then show ?case using zero by (simp add: absmax_tiles_def tile_set_def)
next
  case (Suc n)
  let ?d = "copy_tile (tiles n) x (absmax_tiles e groups x acc tiles bands n d)"
  let ?G = "{g. g < 8 \<and> g < bands n \<and> g mod groups = q}"
  have old: "vec_at ?d (acc_vec acc q) l = greatest (tile_set e groups tiles bands n q l)" if "q < groups" for q
    using Suc.IH [OF that] acc_other_tile [OF _ x l] that groups(2) by simp
  have "clean e (vec_at ?d (acc_vec acc q) l)" if "q < groups" for q
    unfolding old [OF that] by (intro greatest_clean ok finite_tile_set tile_set_clean)
  note step = fold_absmax_at(1) [OF ok x groups l this Suc.prems, of "bands n"]
  have "absmax_tiles e groups x acc tiles bands (Suc n) d = fold_absmax e groups x acc (bands n) ?d"
    by (simp add: absmax_tiles_def)
  moreover have "mags e ?d x ?G l = page_mags e (tiles n) ?G l" by (rule mags_copied [OF _ l]) auto
  moreover have "tile_set e groups tiles bands (Suc n) q l = tile_set e groups tiles bands n q l \<union> page_mags e (tiles n) ?G l"
    by (auto simp: tile_set_def lessThan_Suc)
  moreover have "finite (page_mags e (tiles n) ?G l)" by (rule finite_page_mags) simp
  ultimately show ?case using step by (simp add: old [OF Suc.prems] greatest_union finite_tile_set)
qed

lemma acc_pairs:
  assumes "q < 8" "q' < 8" "p < 2" "p' < 2"
  shows "acc_vec acc q + p = acc_vec acc q' + p' \<longleftrightarrow> q = q' \<and> p = p'"
proof
  assume same: "acc_vec acc q + p = acc_vec acc q' + p'"
  have even: "acc_vec acc q mod 2 = 0" if "q < 8" for q
    using that unfolding acc_vec_def by (intro vec_parts(4)) auto
  have "acc_vec acc q + p = acc_vec acc q div 2 * 2 + p" "acc_vec acc q' + p' = acc_vec acc q' div 2 * 2 + p'"
    using even assms(1,2) by (simp_all add: minus_mod_eq_div_mult [symmetric])
  with same assms(3,4) have "p = p'" by (metis mod_less mod_mult_self3)
  with same show "q = q' \<and> p = p'" using acc_vec_same assms by simp
qed simp

lemma row_of_lanes:
  assumes v: "clean_lanes e v" and u: "\<And>l. l < 32 \<Longrightarrow> load_bits e d a l = v l" and l: "l < 32"
  shows "lanes8_max (load_bits e d a) l = greatest ((\<lambda>j. v (8 * (l div 8) + j)) ` {..<8})"
proof -
  have "8 * (l div 8) + j < 32" if "j < 8" for j
  proof -
    have "l div 8 < 4" using l by auto
    then show ?thesis using that by linarith
  qed
  then have "(\<lambda>j. load_bits e d a (8 * (l div 8) + j)) ` {..<8} = (\<lambda>j. v (8 * (l div 8) + j)) ` {..<8}"
    by (intro image_cong refl u) simp
  moreover have "clean_lanes e (load_bits e d a)" using v u by (simp add: clean_lanes_def)
  ultimately show ?thesis using lanes8_max_row [OF _ l] by metis
qed

text \<open>The maxima spread over the columns of the left faces.\<close>

lemma finish_partial_at:
  assumes ok: "quant_env_ok e" and groups: "groups \<le> 8" and l: "l < 32"
    and clean: "\<And>q. q < groups \<Longrightarrow> clean_lanes e (vec_at d (acc_vec acc q))"
  shows "q < groups \<Longrightarrow> p < 2 \<Longrightarrow> vec_at (finish_partial e groups acc d) (acc_vec acc q + p) l =
    greatest ((\<lambda>j. vec_at d (acc_vec acc q) (8 * (l div 8) + j)) ` {..<8})"
proof -
  define S where "S = fold (\<lambda>q d. let a = acc_vec acc q; m = lanes8_max (load_bits e d a) in store_bits (a + 1) m (store_bits a m d))"
  have "(\<forall>q < n. \<forall>p < 2. \<forall>l < 32. vec_at (S [0..<n] d) (acc_vec acc q + p) l =
      greatest ((\<lambda>j. vec_at d (acc_vec acc q) (8 * (l div 8) + j)) ` {..<8})) \<and>
    (\<forall>q. n \<le> q \<longrightarrow> q < groups \<longrightarrow> (\<forall>l < 32. vec_at (S [0..<n] d) (acc_vec acc q) l = vec_at d (acc_vec acc q) l))"
    if "n \<le> groups" for n
    using that
  proof (induction n)
    case 0
    then show ?case by (simp add: S_def)
  next
    case (Suc n)
    let ?d = "S [0..<n] d" and ?a = "acc_vec acc n"
    from Suc have IH: "\<And>q p l. q < n \<Longrightarrow> p < 2 \<Longrightarrow> l < 32 \<Longrightarrow> vec_at ?d (acc_vec acc q + p) l =
        greatest ((\<lambda>j. vec_at d (acc_vec acc q) (8 * (l div 8) + j)) ` {..<8})"
      "\<And>q l. n \<le> q \<Longrightarrow> q < groups \<Longrightarrow> l < 32 \<Longrightarrow> vec_at ?d (acc_vec acc q) l = vec_at d (acc_vec acc q) l" by auto
    have n: "n < groups" using Suc.prems by simp
    have same: "load_bits e ?d ?a l = vec_at d ?a l" if "l < 32" for l
      using clean [OF n] IH(2) [OF order_refl n that] that by (simp add: load_bits_def clean_lanes_def clean_def)
    have max: "lanes8_max (load_bits e ?d ?a) l = greatest ((\<lambda>j. vec_at d ?a (8 * (l div 8) + j)) ` {..<8})" if "l < 32" for l
      by (rule row_of_lanes [OF clean [OF n] same that])
    have step: "vec_at (S [0..<Suc n] d) j l = (if j = ?a + 1 \<or> j = ?a then lanes8_max (load_bits e ?d ?a) l else vec_at ?d j l)"
      if "l < 32" for j l
      using that by (simp add: S_def Let_def store_bits_def vec_at_set)
    show ?case
    proof (intro conjI allI impI)
      fix q p l :: nat assume q: "q < Suc n" "p < 2" "l < 32"
      then have p: "p = 0 \<or> p = 1" by auto
      show "vec_at (S [0..<Suc n] d) (acc_vec acc q + p) l = greatest ((\<lambda>j. vec_at d (acc_vec acc q) (8 * (l div 8) + j)) ` {..<8})"
      proof (cases "q = n")
        case True
        then show ?thesis using p max [OF q(3)] by (auto simp: step [OF q(3)] simp del: upt_Suc)
      next
        case False
        then have "acc_vec acc q + p \<noteq> ?a + 1" "acc_vec acc q + p \<noteq> ?a + 0"
          using acc_pairs [of q n p 1] acc_pairs [of q n p 0] q n groups by simp_all
        then show ?thesis using IH(1) [of q p l] q False by (simp add: step [OF q(3)] del: upt_Suc)
      qed
    next
      fix q l :: nat assume q: "Suc n \<le> q" "q < groups" "l < 32"
      then have "acc_vec acc q + 0 \<noteq> ?a + 1" "acc_vec acc q + 0 \<noteq> ?a + 0"
        using acc_pairs [of q n 0 1] acc_pairs [of q n 0 0] n groups by simp_all
      then show "vec_at (S [0..<Suc n] d) (acc_vec acc q) l = vec_at d (acc_vec acc q) l"
        using IH(2) [of q l] q by (simp add: step [OF q(3)] del: upt_Suc)
    qed
  qed
  from this [OF order_refl] show "q < groups \<Longrightarrow> p < 2 \<Longrightarrow> vec_at (finish_partial e groups acc d) (acc_vec acc q + p) l =
      greatest ((\<lambda>j. vec_at d (acc_vec acc q) (8 * (l div 8) + j)) ` {..<8})"
    using l by (simp add: finish_partial_def S_def)
qed

lemma greatest_UN:
  assumes "finite J" "\<And>j. j \<in> J \<Longrightarrow> finite (S j)"
  shows "greatest ((\<lambda>j. greatest (S j)) ` J) = greatest (\<Union>j \<in> J. S j)"
  using assms
proof (induction J rule: finite_induct)
  case (insert x F)
  then have "greatest ((\<lambda>j. greatest (S j)) ` F) = greatest (\<Union>j \<in> F. S j)" by simp
  with insert show ?case by (simp add: greatest_insert greatest_union)
qed simp

lemma elem_acc:
  assumes "m < 32" "c < 16"
  shows "elem_vec t m c = acc_vec t (m div 4) + c mod 2" "elem_lane m c div 8 = m mod 4"
proof -
  have "elem_vec t m c = band_vec t (m div 4) (2 * (c div 16) + c mod 2)" by (rule elem_band) (use assms in simp_all)
  also have "\<dots> = acc_vec t (m div 4) + c mod 2" using assms(2) by (simp add: band_vec_def acc_vec_def vec_def)
  finally show "elem_vec t m c = acc_vec t (m div 4) + c mod 2" .
  have "c mod 16 div 2 < 8" by auto
  then show "elem_lane m c div 8 = m mod 4" by (simp add: elem_lane_def)
qed

text \<open>The magnitudes of row \<open>m\<close>, every row \<open>stride\<close> rows on, in the first bands of the tiles.\<close>

definition row_set :: "quant_env \<Rightarrow> nat \<Rightarrow> (nat \<Rightarrow> tile_words) \<Rightarrow> (nat \<Rightarrow> nat) \<Rightarrow> nat \<Rightarrow> nat \<Rightarrow> u32 set" where
  "row_set e groups tiles bands n m = {row_bits e (page_elem (tiles i) r c) | i r c.
     i < n \<and> r < 32 \<and> c < 32 \<and> r div 4 < bands i \<and> r mod (4 * groups) = m}"

lemma row_set_lanes:
  assumes "m < 4 * groups"
  shows "(\<Union>j \<in> {..<8}. tile_set e groups tiles bands n (m div 4) (8 * (m mod 4) + j)) = row_set e groups tiles bands n m"
proof -
  have m: "r div 4 mod groups = m div 4 \<and> r mod 4 = m mod 4 \<longleftrightarrow> r mod (4 * groups) = m" for r
  proof -
    have "r mod (4 * groups) = 4 * (r div 4 mod groups) + r mod 4" by (rule mod_mult2_eq)
    moreover have "m = 4 * (m div 4) + m mod 4" by simp
    moreover have "4 * a + b = 4 * a' + b' \<longleftrightarrow> a = a' \<and> b = b'" if "b < 4" "b' < 4" for a a' b b' :: nat using that by presburger
    ultimately show ?thesis by (metis mod_less_divisor zero_less_numeral)
  qed
  let ?G = "\<lambda>i. {g. g < 8 \<and> g < bands i \<and> g mod groups = m div 4}"
  have "(\<Union>j \<in> {..<8}. tile_set e groups tiles bands n (m div 4) (8 * (m mod 4) + j)) =
      (\<Union>i < n. \<Union>j \<in> {..<8}. page_mags e (tiles i) (?G i) (8 * (m mod 4) + j))"
    unfolding tile_set_def by blast
  also have "\<dots> = (\<Union>i < n. {row_bits e (page_elem (tiles i) r c) | r c. r < 32 \<and> c < 32 \<and> r div 4 \<in> ?G i \<and> r mod 4 = m mod 4})"
  proof (rule SUP_cong [OF refl])
    fix i
    have "?G i \<subseteq> {..<8}" by auto
    from row_lanes [OF this, of "m mod 4" e "tiles i"]
    show "(\<Union>j \<in> {..<8}. page_mags e (tiles i) (?G i) (8 * (m mod 4) + j)) =
        {row_bits e (page_elem (tiles i) r c) | r c. r < 32 \<and> c < 32 \<and> r div 4 \<in> ?G i \<and> r mod 4 = m mod 4}" by simp
  qed
  also have "\<dots> = row_set e groups tiles bands n m"
  proof -
    have "r div 4 \<in> ?G i \<and> r mod 4 = m mod 4 \<longleftrightarrow> r div 4 < bands i \<and> r mod (4 * groups) = m" if "r < 32" for i r
      using m [of r] that by auto
    then show ?thesis unfolding row_set_def by blast
  qed
  finally show ?thesis .
qed

theorem partial_row:
  assumes ok: "quant_env_ok e" and x: "x \<noteq> acc" and groups: "0 < groups" "groups \<le> 8" and m: "m < 4 * groups" and c: "c < 16"
  shows "page_elem (pack_tile acc (finish_partial e groups acc (absmax_tiles e groups x acc tiles bands n (zero_acc groups acc d)))) m c =
    greatest (row_set e groups tiles bands n m)"
proof -
  let ?d = "absmax_tiles e groups x acc tiles bands n (zero_acc groups acc d)"
  have q: "m div 4 < groups" using m by (simp add: less_mult_imp_div_less mult.commute)
  have m32: "m < 32" using m groups by linarith
  have at: "vec_at ?d (acc_vec acc q) l = greatest (tile_set e groups tiles bands n q l)" if "q < groups" "l < 32" for q l
  proof (rule absmax_tiles_at [OF ok x groups that(2,1)])
    show "vec_at (zero_acc groups acc d) (acc_vec acc q) l = 0" if "q < groups" for q
      using vec_at_zeroed [OF groups(2) \<open>l < 32\<close>] that by auto
  qed
  have clean: "clean_lanes e (vec_at ?d (acc_vec acc q))" if "q < groups" for q
    unfolding clean_lanes_def by (simp add: at [OF that] greatest_clean [OF ok finite_tile_set tile_set_clean [OF ok]])
  have row: "8 * (m mod 4) + j < 32" if "j < 8" for j
  proof -
    have "m mod 4 < 4" by simp
    then show ?thesis using that by linarith
  qed
  have "page_elem (pack_tile acc (finish_partial e groups acc ?d)) m c =
      greatest ((\<lambda>j. vec_at ?d (acc_vec acc (m div 4)) (8 * (m mod 4) + j)) ` {..<8})"
    unfolding packed_tile tile_at_vec elem_acc(1) [OF m32 c]
    by (subst finish_partial_at [OF ok groups(2) elem_lane_less clean q]) (simp_all add: elem_acc(2) [OF m32 c])
  also have "\<dots> = greatest ((\<lambda>j. greatest (tile_set e groups tiles bands n (m div 4) (8 * (m mod 4) + j))) ` {..<8})"
    by (rule arg_cong [where f = greatest], rule image_cong [OF refl], rule at [OF q row]) simp
  also have "\<dots> = greatest (row_set e groups tiles bands n m)"
    unfolding row_set_lanes [OF m, symmetric] by (rule greatest_UN) (simp_all add: finite_tile_set)
  finally show ?thesis .
qed

end
