(* ===== verification/QuantizeTiles.thy ===== *)
theory QuantizeTiles
  imports QuantizeMaxima
begin

text \<open>
  The divisor tile and the quotients of the quantization: every element of the divisor tile is the
  scale of its row, made of the gathered maxima, and every data element of a quantized tile is the
  converted quotient of the element and its row's scale, on both ways of \<open>quantize_tiles\<close>.
\<close>

section \<open>The gathered maxima\<close>

text \<open>The word of gathered band \<open>K\<close> at a lane.\<close>

definition gather_word :: "(nat \<Rightarrow> tile_words) \<Rightarrow> nat \<Rightarrow> nat \<Rightarrow> u32" where
  "gather_word gather K l = gather (K div 16) (64 * (K mod 16) + 16 * (l div 8) + 2 * (l mod 8))"

lemma gathered_vec:
  assumes "k < 16" "l < 32"
  shows "vec_at (copy_tile p t d) (vec t (k div 4) (k mod 4) 0) l = p (64 * k + 16 * (l div 8) + 2 * (l mod 8))"
proof -
  have k: "k div 4 < 4" "k mod 4 < 4" using assms(1) by auto
  have v: "vec t (k div 4) (k mod 4) 0 = t * 32 + 2 * k"
  proof -
    have "k div 4 * 8 + k mod 4 * 2 = 2 * k" using div_mult_mod_eq [of k 4] by linarith
    then show ?thesis by (simp add: vec_def)
  qed
  have "(t * 32 + 2 * k) div 32 = t" "(t * 32 + 2 * k) mod 32 = 2 * k" using assms(1) by simp_all
  moreover have "lane_word (2 * k) l = 64 * k + 16 * (l div 8) + 2 * (l mod 8)" by (simp add: lane_word_def)
  ultimately show ?thesis unfolding v vec_at_copied [OF assms(2)] by simp
qed

definition gather_set :: "(nat \<Rightarrow> tile_words) \<Rightarrow> nat \<Rightarrow> nat \<Rightarrow> nat \<Rightarrow> nat \<Rightarrow> u32 set" where
  "gather_set gather groups n q l = (\<lambda>K. gather_word gather K l) ` {K. K < n \<and> K mod groups = q}"

lemma finite_gather_set: "finite (gather_set gather groups n q l)"
  by (simp add: gather_set_def)

lemma gather_band_at:
  assumes ok: "quant_env_ok e" and l: "l < 32" and a: "clean e (vec_at d (acc_vec acc (k mod groups)) l)"
    and b: "clean e (vec_at d (vec src (k div 4) (k mod 4) 0) l)"
  shows "vec_at (gather_band e groups src acc k d) j l =
    (if j = acc_vec acc (k mod groups) then max (vec_at d j l) (vec_at d (vec src (k div 4) (k mod 4) 0) l) else vec_at d j l)"
  using a b imax_clean [OF a b] unfolding gather_band_def Let_def store_bits_def vec_at_set [OF l]
  by (simp add: vmax_def load_bits_def clean_def)

lemma fold_gather_at:
  assumes ok: "quant_env_ok e" and src: "src \<noteq> acc" and groups: "0 < groups" "groups \<le> 8" "groups dvd 16" and l: "l < 32"
    and valid: "valid \<le> 16" and acc: "\<And>q. q < groups \<Longrightarrow> vec_at d (acc_vec acc q) l = greatest (gather_set gather groups (16 * i) q l)"
    and clean: "\<And>K. K < 16 * i + valid \<Longrightarrow> clean e (gather_word gather K l)"
    and q: "q < groups"
  shows "vec_at (fold_gather e groups src acc valid (copy_tile (gather i) src d)) (acc_vec acc q) l =
    greatest (gather_set gather groups (16 * i + valid) q l)"
proof -
  let ?d = "copy_tile (gather i) src d"
  define D where "D = fold (\<lambda>k d. if k < valid then gather_band e groups src acc k d else d)"
  have word: "gather_word gather (16 * i + k) l' = gather i (64 * k + 16 * (l' div 8) + 2 * (l' mod 8))" if "k < 16" for k l'
    using that by (simp add: gather_word_def)
  have here: "vec_at ?d (vec src (k div 4) (k mod 4) 0) l = gather_word gather (16 * i + k) l" if "k < 16" for k
    using gathered_vec [OF that l] word [OF that] by simp
  have mod: "(16 * i + k) mod groups = k mod groups" for k
    using groups(3) by (metis dvd_imp_mod_0 dvd_mult2 mod_add_left_eq add_0)
  have fin: "finite (gather_set gather groups k q l)" for k q by (rule finite_gather_set)
  have clean_set: "clean e (greatest (gather_set gather groups (16 * i + k) q l))" if "k \<le> valid" for k q
    by (intro greatest_clean ok fin) (use clean that in \<open>auto simp: gather_set_def\<close>)
  have next_set: "gather_set gather groups (16 * i + Suc k) q l =
      (if k mod groups = q then {gather_word gather (16 * i + k) l} else {}) \<union> gather_set gather groups (16 * i + k) q l" for k q
  proof -
    have "{K. K < 16 * i + Suc k \<and> K mod groups = q} =
        (if k mod groups = q then {16 * i + k} else {}) \<union> {K. K < 16 * i + k \<and> K mod groups = q}"
      using mod [of k] by (auto simp: less_Suc_eq)
    then show ?thesis unfolding gather_set_def by auto
  qed
  have "(\<forall>q < groups. vec_at (D [0..<n] ?d) (acc_vec acc q) l = greatest (gather_set gather groups (16 * i + min n valid) q l)) \<and>
    (\<forall>j. j div 32 \<noteq> acc \<longrightarrow> vec_at (D [0..<n] ?d) j l = vec_at ?d j l)" if "n \<le> 16" for n
    using that
  proof (induction n)
    case 0
    then show ?case using acc acc_other_tile [OF _ src l] groups by (simp add: D_def)
  next
    case (Suc n)
    let ?m = "D [0..<n] ?d"
    from Suc have IH: "\<And>q. q < groups \<Longrightarrow> vec_at ?m (acc_vec acc q) l = greatest (gather_set gather groups (16 * i + min n valid) q l)"
      "\<And>j. j div 32 \<noteq> acc \<Longrightarrow> vec_at ?m j l = vec_at ?d j l" by simp_all
    have D: "D [0..<Suc n] ?d = (if n < valid then gather_band e groups src acc n ?m else ?m)" by (simp add: D_def)
    show ?case
    proof (cases "n < valid")
      case True
      have n: "n < 16" "n mod groups < groups" using Suc.prems groups by simp_all
      have v: "vec_at ?m (vec src (n div 4) (n mod 4) 0) l = gather_word gather (16 * i + n) l"
        using IH(2) here [OF n(1)] src vec_parts(1) [of "n div 4" "n mod 4" 0 src] n(1) by simp
      have cv: "clean e (vec_at ?m (vec src (n div 4) (n mod 4) 0) l)" unfolding v using clean True by simp
      have ca: "clean e (vec_at ?m (acc_vec acc (n mod groups)) l)"
        unfolding IH(1) [OF n(2)] by (rule clean_set) simp
      note step = gather_band_at [OF ok l ca cv, unfolded v]
      show ?thesis
      proof (intro conjI allI impI)
        fix q assume q: "q < groups"
        then have same: "acc_vec acc q = acc_vec acc (n mod groups) \<longleftrightarrow> n mod groups = q"
          using acc_vec_same [of q "n mod groups" acc] n groups by auto
        show "vec_at (D [0..<Suc n] ?d) (acc_vec acc q) l = greatest (gather_set gather groups (16 * i + min (Suc n) valid) q l)"
          using True IH(1) [OF q] same step [of "acc_vec acc q"] next_set [of n q]
          by (auto simp: D greatest_insert fin min_def max.commute simp del: upt_Suc)
      next
        fix j assume "j div 32 \<noteq> acc"
        moreover from this have "j \<noteq> acc_vec acc (n mod groups)" using acc_vec_tile [of "n mod groups" acc] n groups by auto
        ultimately show "vec_at (D [0..<Suc n] ?d) j l = vec_at ?d j l" using True step [of j] IH(2) by (simp add: D del: upt_Suc)
      qed
    next
      case False
      then show ?thesis using IH by (simp add: D min_def del: upt_Suc)
    qed
  qed
  from conjunct1 [OF this [OF order_refl]] q valid show ?thesis by (simp add: fold_gather_def D_def min_def del: upt_Suc)
qed

lemma bands_left:
  assumes "16 * i < nb" "nb < 4294967296"
  shows "w32 (nb + 4294967296 - 16 * i) = nb - 16 * i"
proof -
  have "w32 (k + 4294967296) = w32 k" for k unfolding w32_def using mod_add_self2 [of k "2 ^ 32"] by simp
  moreover have "nb + 4294967296 - 16 * i = nb - 16 * i + 4294967296" using assms(1) by linarith
  moreover have "w32 (nb - 16 * i) = nb - 16 * i" by (rule w32_id) (use assms(2) in linarith)
  ultimately show ?thesis by metis
qed

definition gather_all :: "quant_env \<Rightarrow> nat \<Rightarrow> nat \<Rightarrow> nat \<Rightarrow> (nat \<Rightarrow> tile_words) \<Rightarrow> nat \<Rightarrow> nat \<Rightarrow> dst_mem \<Rightarrow> dst_mem" where
  "gather_all e groups d t gather n total_bands m =
     fold (\<lambda>i m. divisor_step e groups d t total_bands i (copy_tile (gather i) t m)) [0..<n] (zero_acc groups d m)"

lemma gather_all_at:
  assumes ok: "quant_env_ok e" and t: "t \<noteq> d" and groups: "0 < groups" "groups \<le> 8" "groups dvd 16" and l: "l < 32" and q: "q < groups"
    and nb: "nb < 4294967296" "\<And>i. i < n \<Longrightarrow> 16 * i < nb" and clean: "\<And>K. K < nb \<Longrightarrow> clean e (gather_word gather K l)"
  shows "vec_at (gather_all e groups d t gather n nb m) (acc_vec d q) l = greatest (gather_set gather groups (min nb (16 * n)) q l)"
  using q nb(2)
proof (induction n arbitrary: q)
  case 0
  then have "vec_at (zero_acc groups d m) (acc_vec d q) l = 0" using vec_at_zeroed [OF groups(2) l] by auto
  then show ?case by (simp add: gather_all_def gather_set_def)
next
  case (Suc n)
  let ?m = "gather_all e groups d t gather n nb m"
  define valid where "valid = (if nb - 16 * n < 16 then nb - 16 * n else 16)"
  have n: "16 * n < nb" using Suc.prems(2) by simp
  have step: "gather_all e groups d t gather (Suc n) nb m = fold_gather e groups t d valid (copy_tile (gather n) t ?m)"
    by (simp add: gather_all_def divisor_step_def valid_def Let_def bands_left [OF n nb(1)])
  have old: "vec_at ?m (acc_vec d q) l = greatest (gather_set gather groups (16 * n) q l)" if "q < groups" for q
    using Suc.IH [OF that] Suc.prems(2) n by (simp add: min_def)
  have "valid \<le> 16" "16 * n + valid = min nb (16 * Suc n)" using n by (auto simp: valid_def)
  then show ?case unfolding step
    using fold_gather_at [where gather = gather and i = n, OF ok t groups l _ old _ Suc.prems(1), of valid] clean by simp
qed

section \<open>The divide and the conversion\<close>

lemma tile_vec: "i < 32 \<Longrightarrow> i' < 32 \<Longrightarrow> t * 32 + i = t' * 32 + i' \<longleftrightarrow> t = t' \<and> i = (i' :: nat)"
  by (metis div_mult_self3 mod_mult_self3 div_less mod_less add_0_right zero_neq_numeral)

lemma binary_div_at:
  assumes "n \<le> 32" "l < 32"
  shows "vec_at (binary_div e n in0 in1 out d) j l =
    (if \<exists>i < n. j = out * 32 + i then qe_divide e (vec_at d (in0 * 32 + j mod 32) l) (vec_at d (in1 * 32 + j mod 32) l) else vec_at d j l)"
  using assms(1)
proof (induction n arbitrary: j)
  case (Suc n)
  have IH: "vec_at (binary_div e n in0 in1 out d) j l =
    (if \<exists>i < n. j = out * 32 + i then qe_divide e (vec_at d (in0 * 32 + j mod 32) l) (vec_at d (in1 * 32 + j mod 32) l) else vec_at d j l)" for j
    using Suc by simp
  have fresh: "\<not> (\<exists>i < n. t * 32 + n = out * 32 + i)" for t
  proof
    assume "\<exists>i < n. t * 32 + n = out * 32 + i"
    then obtain i where "i < n" "t * 32 + n = out * 32 + i" by blast
    then show False using tile_vec [of n i t out] Suc.prems by simp
  qed
  have "binary_div e (Suc n) in0 in1 out d = (let m = binary_div e n in0 in1 out d in
      vec_set m (out * 32 + n) (\<lambda>l. qe_divide e (vec_at m (in0 * 32 + n) l) (vec_at m (in1 * 32 + n) l)))"
    by (simp add: binary_div_def Let_def)
  moreover have "(out * 32 + n) mod 32 = n" using Suc.prems by simp
  ultimately show ?case
    using IH [of j] IH [of "in0 * 32 + n"] IH [of "in1 * 32 + n"] fresh
    by (auto simp: Let_def vec_at_set [OF assms(2)] less_Suc_eq)
qed (simp add: binary_div_def)

lemma fp32_to_fp8_at:
  assumes "n \<le> 32" "l < 32"
  shows "vec_at (fp32_to_fp8 e e5m2 n x d) j l =
    (if \<exists>i < n. j = x * 32 + i then qe_convert e e5m2 (vec_at d j l) else vec_at d j l)"
  using assms(1)
proof (induction n arbitrary: j)
  case (Suc n)
  have "fp32_to_fp8 e e5m2 (Suc n) x d = (let m = fp32_to_fp8 e e5m2 n x d in
      vec_set m (x * 32 + n) (\<lambda>l. qe_convert e e5m2 (vec_at m (x * 32 + n) l)))"
    by (simp add: fp32_to_fp8_def Let_def)
  then show ?case using Suc by (auto simp: Let_def vec_at_set [OF assms(2)] less_Suc_eq)
qed (simp add: fp32_to_fp8_def)

section \<open>The divisor tile\<close>

lemma staged_at:
  assumes ok: "quant_env_ok e" and tiles: "t \<noteq> d" "c \<noteq> d" "t \<noteq> c" and groups: "groups \<le> 8" and l: "l < 32"
    and clean: "\<And>q. q < groups \<Longrightarrow> clean e (vec_at m (acc_vec d q) l)" and q: "q < groups"
  shows "vec_at (stage_scale e groups d t c bits m) (t * 32 + q) l = vec_at m (acc_vec d q) l"
    "vec_at (stage_scale e groups d t c bits m) (c * 32 + q) l = bits"
proof -
  have "n \<le> groups \<Longrightarrow> (\<forall>q < n. vec_at (stage_scale e n d t c bits m) (t * 32 + q) l = vec_at m (acc_vec d q) l \<and>
      vec_at (stage_scale e n d t c bits m) (c * 32 + q) l = bits) \<and>
    (\<forall>j. j div 32 = d \<longrightarrow> vec_at (stage_scale e n d t c bits m) j l = vec_at m j l)" for n
  proof (induction n)
    case (Suc n)
    let ?m = "stage_scale e n d t c bits m"
    have step: "stage_scale e (Suc n) d t c bits m =
        vec_set (vec_set ?m (t * 32 + n) (load_bits e ?m (acc_vec d n))) (c * 32 + n) (\<lambda>_. bits)"
      by (simp add: stage_scale_def store_bits_def)
    have n: "n < 8" "n < groups" using Suc.prems groups by simp_all
    from Suc have IH: "\<And>q. q < n \<Longrightarrow> vec_at ?m (t * 32 + q) l = vec_at m (acc_vec d q) l \<and> vec_at ?m (c * 32 + q) l = bits"
      "\<And>j. j div 32 = d \<Longrightarrow> vec_at ?m j l = vec_at m j l" by simp_all
    have acc: "load_bits e ?m (acc_vec d n) l = vec_at m (acc_vec d n) l"
      using IH(2) [OF acc_vec_tile [OF n(1)]] clean [OF n(2)] by (simp add: load_bits_def clean_def)
    show ?case
    proof (intro conjI allI impI)
      fix q assume "q < Suc n"
      then show "vec_at (stage_scale e (Suc n) d t c bits m) (t * 32 + q) l = vec_at m (acc_vec d q) l"
        "vec_at (stage_scale e (Suc n) d t c bits m) (c * 32 + q) l = bits"
        using IH(1) [of q] acc n tiles tile_vec [of q n t t] tile_vec [of q n t c] tile_vec [of q n c t] tile_vec [of q n c c]
        by (auto simp: step vec_at_set [OF l] less_Suc_eq)
    next
      fix j assume "j div 32 = d"
      moreover from this have "j \<noteq> t * 32 + n" "j \<noteq> c * 32 + n" using tiles n(1) by auto
      ultimately show "vec_at (stage_scale e (Suc n) d t c bits m) j l = vec_at m j l"
        using IH(2) by (simp add: step vec_at_set [OF l])
    qed
  qed (simp add: stage_scale_def)
  from this [OF order_refl] q show "vec_at (stage_scale e groups d t c bits m) (t * 32 + q) l = vec_at m (acc_vec d q) l"
    "vec_at (stage_scale e groups d t c bits m) (c * 32 + q) l = bits" by simp_all
qed

lemma store_band_at:
  assumes "g < 8" "l < 32"
  shows "vec_at (store_band d g v m) j l = (if \<exists>i < 4. j = band_vec d g i then v l else vec_at m j l)"
proof -
  have "(\<exists>i < 4. j = band_vec d g i) \<longleftrightarrow> j = band_vec d g 0 \<or> j = band_vec d g 1 \<or> j = band_vec d g 2 \<or> j = band_vec d g 3"
    by (auto simp: less_Suc_eq numeral_eq_Suc)
  then show ?thesis by (simp add: store_band_def Let_def store_bits_def vec_at_set [OF assms(2)] band_vec_def)
qed

lemma band_vec_same:
  assumes "g < 8" "g' < 8" "i < 4" "i' < 4"
  shows "band_vec d g i = band_vec d g' i' \<longleftrightarrow> g = g' \<and> i = i'"
proof -
  have "band_vec d g i = band_vec d g' i' \<longleftrightarrow> (if g < 4 then 0 else 2) + i div 2 = (if g' < 4 then 0 else 2) + i' div 2 \<and> g mod 4 = g' mod 4 \<and> i mod 2 = i' mod 2"
    using vec_same [of "(if g < 4 then 0 else 2) + i div 2" "g mod 4" "i mod 2" "(if g' < 4 then 0 else 2) + i' div 2" "g' mod 4" "i' mod 2" d d] assms
    unfolding band_vec_def by auto
  moreover have "g \<in> {0, 1, 2, 3, 4, 5, 6, 7}" "g' \<in> {0, 1, 2, 3, 4, 5, 6, 7}" "i \<in> {0, 1, 2, 3}" "i' \<in> {0, 1, 2, 3}" using assms by auto
  ultimately show ?thesis by (elim insertE emptyE) simp_all
qed

lemma store_bands_at:
  assumes groups: "0 < groups" "groups dvd 8" and q: "q < groups" and l: "l < 32"
  shows "vec_at (store_bands groups q d v m) j l =
    (if \<exists>g < 8. \<exists>i < 4. g mod groups = q \<and> j = band_vec d g i then v l else vec_at m j l)"
proof -
  have g8: "n \<le> 8 div groups \<Longrightarrow> k < n \<Longrightarrow> k * groups + q < 8" for n k
  proof -
    assume "n \<le> 8 div groups" "k < n"
    then have "(k + 1) * groups \<le> 8 div groups * groups" by (intro mult_le_mono1) simp
    then show "k * groups + q < 8" using groups(2) q by simp
  qed
  have "n \<le> 8 div groups \<Longrightarrow> vec_at (fold (\<lambda>j. store_band d (j * groups + q) v) [0..<n] m) j l =
      (if \<exists>k < n. \<exists>i < 4. j = band_vec d (k * groups + q) i then v l else vec_at m j l)" for n
  proof (induction n)
    case (Suc n)
    have "n * groups + q < 8" using g8 [OF Suc.prems] by simp
    with Suc show ?case by (auto simp: store_band_at [OF _ l] less_Suc_eq)
  qed simp
  from this [OF order_refl] have at: "vec_at (store_bands groups q d v m) j l =
      (if \<exists>k < 8 div groups. \<exists>i < 4. j = band_vec d (k * groups + q) i then v l else vec_at m j l)"
    by (simp add: store_bands_def)
  have "(\<exists>k < 8 div groups. P (k * groups + q)) \<longleftrightarrow> (\<exists>g < 8. g mod groups = q \<and> P g)" for P
  proof
    assume "\<exists>k < 8 div groups. P (k * groups + q)"
    then obtain k where "k < 8 div groups" "P (k * groups + q)" by blast
    moreover from this have "k * groups + q < 8" using g8 [OF order_refl] by blast
    ultimately show "\<exists>g < 8. g mod groups = q \<and> P g" using q by (intro exI [of _ "k * groups + q"]) simp
  next
    assume "\<exists>g < 8. g mod groups = q \<and> P g"
    then obtain g where g: "g < 8" "g mod groups = q" "P g" by blast
    have "g div groups < 8 div groups" using g(1) groups
      by (metis dvd_div_mult_self less_mult_imp_div_less)
    moreover have "g div groups * groups + q = g" using g(2) by auto
    ultimately show "\<exists>k < 8 div groups. P (k * groups + q)" using g(3) by metis
  qed
  from this [of "\<lambda>g. \<exists>i < 4. j = band_vec d g i"]
  have "(\<exists>k < 8 div groups. \<exists>i < 4. j = band_vec d (k * groups + q) i) \<longleftrightarrow> (\<exists>g < 8. \<exists>i < 4. g mod groups = q \<and> j = band_vec d g i)"
    by blast
  with at show ?thesis by (simp only:)
qed

lemma spread_scale_at:
  assumes groups: "0 < groups" "groups dvd 8" and tiles: "t \<noteq> d" "c \<noteq> d" and l: "l < 32" and g: "g < 8" "i < 4"
  shows "vec_at (spread_scale e groups t c d lo m) (band_vec d g i) l =
    scale_bits lo (load_bits e m (c * 32 + g mod groups) l) (load_bits e m (t * 32 + g mod groups) l)"
proof -
  have groups8: "groups \<le> 8" using groups(2) by (auto dest: dvd_imp_le)
  let ?f = "\<lambda>q m. store_bands groups q d (\<lambda>l. scale_bits lo (load_bits e m (c * 32 + q) l) (load_bits e m (t * 32 + q) l)) m"
  have "n \<le> groups \<Longrightarrow> (\<forall>g < 8. \<forall>i < 4. g mod groups < n \<longrightarrow> vec_at (fold ?f [0..<n] m) (band_vec d g i) l =
      scale_bits lo (load_bits e m (c * 32 + g mod groups) l) (load_bits e m (t * 32 + g mod groups) l)) \<and>
    (\<forall>j. j div 32 \<noteq> d \<longrightarrow> vec_at (fold ?f [0..<n] m) j l = vec_at m j l)" for n
  proof (induction n)
    case (Suc n)
    let ?m = "fold ?f [0..<n] m"
    from Suc have IH: "\<And>g i. g < 8 \<Longrightarrow> i < 4 \<Longrightarrow> g mod groups < n \<Longrightarrow> vec_at ?m (band_vec d g i) l =
        scale_bits lo (load_bits e m (c * 32 + g mod groups) l) (load_bits e m (t * 32 + g mod groups) l)"
      "\<And>j. j div 32 \<noteq> d \<Longrightarrow> vec_at ?m j l = vec_at m j l" by simp_all
    have n: "n < groups" "n < 32" using Suc.prems groups8 by simp_all
    have same: "load_bits e ?m (x * 32 + n) l = load_bits e m (x * 32 + n) l" if "x \<noteq> d" for x
      using IH(2) [of "x * 32 + n"] that n(2) by (simp add: load_bits_def)
    have step: "vec_at (fold ?f [0..<Suc n] m) j l =
        (if \<exists>g < 8. \<exists>i < 4. g mod groups = n \<and> j = band_vec d g i
         then scale_bits lo (load_bits e m (c * 32 + n) l) (load_bits e m (t * 32 + n) l) else vec_at ?m j l)" for j
    proof -
      have "fold ?f [0..<Suc n] m = ?f n ?m" by simp
      then show ?thesis by (simp only: store_bands_at [OF groups n(1) l] same [OF tiles(1)] same [OF tiles(2)])
    qed
    show ?case
    proof (intro conjI allI impI)
      fix g i :: nat assume g: "g < 8" "i < 4" "g mod groups < Suc n"
      have "(\<exists>g' < 8. \<exists>i' < 4. g' mod groups = n \<and> band_vec d g i = band_vec d g' i') \<longleftrightarrow> g mod groups = n"
        using band_vec_same [OF g(1) _ g(2)] g(1,2) by blast
      then show "vec_at (fold ?f [0..<Suc n] m) (band_vec d g i) l =
          scale_bits lo (load_bits e m (c * 32 + g mod groups) l) (load_bits e m (t * 32 + g mod groups) l)"
        unfolding step using IH(1) [OF g(1,2)] g(3) by auto
    next
      fix j assume j: "j div 32 \<noteq> d"
      then have "\<not> (\<exists>g < 8. \<exists>i < 4. g mod groups = n \<and> j = band_vec d g i)" using band_vec_tile by blast
      then show "vec_at (fold ?f [0..<Suc n] m) j l = vec_at m j l" by (simp only: step IH(2) [OF j] if_False)
    qed
  qed simp
  from conjunct1 [OF this [OF order_refl]] g groups(1) show ?thesis by (simp add: spread_scale_def)
qed

text \<open>The scale of a row's maximum.\<close>

definition scale_of :: "quant_env \<Rightarrow> u32 \<Rightarrow> u32 \<Rightarrow> u32 \<Rightarrow> u32" where
  "scale_of e fp8_max lo amax = scale_bits lo (qe_fload e (qe_divide e amax fp8_max)) amax"

lemma make_divisor_at:
  assumes ok: "quant_env_ok e" and tiles: "t \<noteq> d" "c \<noteq> d" "t \<noteq> c" and groups: "0 < groups" "groups dvd 8" and rc: "r < 32" "cl < 32"
    and nb: "nb < 4294967296" "\<And>i. i < n \<Longrightarrow> 16 * i < nb" "nb \<le> 16 * n"
    and clean: "\<And>K l. K < nb \<Longrightarrow> l < 32 \<Longrightarrow> clean e (gather_word gather K l)"
  shows "tile_at (make_divisor e groups d t c gather n nb fp8_max lo m) d r cl =
    scale_of e fp8_max lo (greatest (gather_set gather groups nb (r div 4 mod groups) (elem_lane r cl)))"
proof -
  let ?l = "elem_lane r cl" and ?q = "r div 4 mod groups"
  let ?a = "gather_all e groups d t gather n nb m"
  have groups8: "groups \<le> 8" using groups(2) by (auto dest: dvd_imp_le)
  have groups16: "groups dvd 16" using groups(2) by (rule dvd_trans) simp
  have l: "?l < 32" by (rule elem_lane_less)
  have q: "?q < groups" using groups(1) by simp
  have acc: "vec_at ?a (acc_vec d q) ?l = greatest (gather_set gather groups nb q ?l)" if "q < groups" for q
    using gather_all_at [OF ok tiles(1) groups(1) groups8 groups16 l that nb(1,2) clean [OF _ l]] nb(3) by simp
  have clg: "clean e (greatest (gather_set gather groups nb q ?l))" for q
    by (intro greatest_clean ok finite_gather_set) (use clean l in \<open>auto simp: gather_set_def\<close>)
  have "clean e (vec_at ?a (acc_vec d q) ?l)" if "q < groups" for q unfolding acc [OF that] by (rule clg)
  note staged = staged_at [OF ok tiles groups8 l this q, where bits = fp8_max]
  let ?s = "stage_scale e groups d t c fp8_max ?a"
  have "vec_at (divide_staged e groups t c ?s) (c * 32 + ?q) ?l = qe_divide e (greatest (gather_set gather groups nb ?q ?l)) fp8_max"
    "vec_at (divide_staged e groups t c ?s) (t * 32 + ?q) ?l = greatest (gather_set gather groups nb ?q ?l)"
  proof -
    have q32: "?q < 32" "groups \<le> 32" using q groups8 by simp_all
    have "\<not> (\<exists>i < groups. t * 32 + ?q = c * 32 + i)"
      using tile_vec [OF q32(1), of _ t c] tiles(3) q32(2) by (metis less_le_trans)
    then show "vec_at (divide_staged e groups t c ?s) (t * 32 + ?q) ?l = greatest (gather_set gather groups nb ?q ?l)"
      by (simp only: divide_staged_def binary_div_at [OF q32(2) l] staged acc [OF q] if_False)
    have "(c * 32 + ?q) mod 32 = ?q" "\<exists>i < groups. c * 32 + ?q = c * 32 + i" using q q32 by simp_all
    then show "vec_at (divide_staged e groups t c ?s) (c * 32 + ?q) ?l = qe_divide e (greatest (gather_set gather groups nb ?q ?l)) fp8_max"
      by (simp only: divide_staged_def binary_div_at [OF q32(2) l] staged acc [OF q] if_True)
  qed
  moreover have "make_divisor e groups d t c gather n nb fp8_max lo m = spread_scale e groups t c d lo (divide_staged e groups t c ?s)"
    by (simp add: make_divisor_def divide_gathered_def gather_all_def)
  moreover have "elem_vec d r cl = band_vec d (r div 4) (2 * (cl div 16) + cl mod 2)" by (rule elem_band [OF rc])
  moreover have "2 * (cl div 16) + cl mod 2 < 4"
  proof -
    have "cl div 16 < 2" "cl mod 2 < 2" using rc(2) by auto
    then show ?thesis by linarith
  qed
  moreover have "r div 4 < 8" using rc(1) by auto
  ultimately show ?thesis
    using spread_scale_at [OF groups tiles(1,2) l, of "r div 4" "2 * (cl div 16) + cl mod 2" e lo] clg [of ?q]
    by (simp add: tile_at_vec scale_of_def load_bits_def clean_def)
qed

section \<open>Tile by tile\<close>

text \<open>Vectors and lanes \<open>I\<close> of tile \<open>t\<close>.\<close>

definition tile_holds :: "nat \<Rightarrow> (nat \<times> nat) set \<Rightarrow> (nat \<Rightarrow> lanes) \<Rightarrow> dst_mem \<Rightarrow> bool" where
  "tile_holds t I X m \<longleftrightarrow> (\<forall>(i, l) \<in> I. vec_at m (t * 32 + i) l = X i l)"

definition lanes_of :: "nat \<Rightarrow> (nat \<times> nat) set" where
  "lanes_of n = {..<n} \<times> {..<32}"

definition only_tile :: "nat \<Rightarrow> dst_mem \<Rightarrow> dst_mem \<Rightarrow> bool" where
  "only_tile t m m' \<longleftrightarrow> (\<forall>i l. l < 32 \<longrightarrow> i div 32 \<noteq> t \<longrightarrow> vec_at m' i l = vec_at m i l)"

lemma lanes_of_mono: "n \<le> 32 \<Longrightarrow> lanes_of n \<subseteq> lanes_of 32"
  by (auto simp: lanes_of_def)

lemma holds_other: "only_tile t m m' \<Longrightarrow> x \<noteq> t \<Longrightarrow> I \<subseteq> lanes_of 32 \<Longrightarrow> tile_holds x I X m' = tile_holds x I X m"
proof -
  assume only: "only_tile t m m'" and x: "x \<noteq> t" and I: "I \<subseteq> lanes_of 32"
  have "vec_at m' (x * 32 + i) l = vec_at m (x * 32 + i) l" if "(i, l) \<in> I" for i l
  proof -
    have il: "i < 32" "l < 32" using that I by (auto simp: lanes_of_def)
    then have "(x * 32 + i) div 32 \<noteq> t" using x by simp
    then show ?thesis using only il(2) unfolding only_tile_def by blast
  qed
  then show "tile_holds x I X m' = tile_holds x I X m" unfolding tile_holds_def by (metis (mono_tags, lifting) case_prodD case_prodI2)
qed

lemma only_tile_refl [simp]: "only_tile t m m"
  by (simp add: only_tile_def)

lemma only_tile_trans: "only_tile t m m' \<Longrightarrow> only_tile t m' m'' \<Longrightarrow> only_tile t m m''"
  by (simp add: only_tile_def)

text \<open>An operation on each of the tiles, with the divisor in tile \<open>d\<close> before them.\<close>

lemma fold_tiles:
  assumes own: "\<And>j m. j < n \<Longrightarrow> only_tile (x0 + j) m (op j m)"
    and step: "\<And>j m. j < n \<Longrightarrow> tile_holds d J D m \<Longrightarrow> tile_holds (x0 + j) I (X j) m \<Longrightarrow> tile_holds (x0 + j) I' (Y j) (op j m)"
    and start: "tile_holds d J D m" "\<And>j. j < n \<Longrightarrow> tile_holds (x0 + j) I (X j) m"
    and sizes: "d < x0" "I \<subseteq> lanes_of 32" "I' \<subseteq> lanes_of 32" "J \<subseteq> lanes_of 32"
  shows "tile_holds d J D (fold op [0..<n] m) \<and> (\<forall>j < n. tile_holds (x0 + j) I' (Y j) (fold op [0..<n] m))"
proof -
  have "k \<le> n \<Longrightarrow> tile_holds d J D (fold op [0..<k] m) \<and> (\<forall>j < k. tile_holds (x0 + j) I' (Y j) (fold op [0..<k] m)) \<and>
      (\<forall>j < n. k \<le> j \<longrightarrow> tile_holds (x0 + j) I (X j) (fold op [0..<k] m))" for k
  proof (induction k)
    case 0
    then show ?case using start by simp
  next
    case (Suc k)
    let ?m = "fold op [0..<k] m"
    have IH: "tile_holds d J D ?m" "\<And>j. j < k \<Longrightarrow> tile_holds (x0 + j) I' (Y j) ?m"
      "\<And>j. j < n \<Longrightarrow> k \<le> j \<Longrightarrow> tile_holds (x0 + j) I (X j) ?m" using Suc by simp_all
    have k: "k < n" using Suc.prems by simp
    have next_m: "fold op [0..<Suc k] m = op k ?m" by simp
    have "tile_holds d J D (op k ?m)" using IH(1) holds_other [OF own [OF k], of d J] sizes by simp
    moreover have "tile_holds (x0 + j) I' (Y j) (op k ?m)" if "j < Suc k" for j
    proof (cases "j = k")
      case True
      then show ?thesis using step [OF k IH(1) IH(3) [OF k order_refl]] by simp
    next
      case False
      then show ?thesis using IH(2) [of j] that holds_other [OF own [OF k], of "x0 + j" I'] sizes by simp
    qed
    moreover have "tile_holds (x0 + j) I (X j) (op k ?m)" if "j < n" "Suc k \<le> j" for j
      using IH(3) [of j] that holds_other [OF own [OF k], of "x0 + j" I] sizes by simp
    ultimately show ?case unfolding next_m by blast
  qed
  from this [OF order_refl] show ?thesis by blast
qed

lemma copied_holds:
  "tile_holds t (lanes_of 32) (\<lambda>i l. p (lane_word i l)) (copy_tile p t m)"
  by (auto simp: tile_holds_def lanes_of_def vec_at_copied)

lemma copy_only: "only_tile t m (copy_tile p t m)"
  by (simp add: only_tile_def vec_at_copied)

lemma divide_vectors_holds:
  assumes "n \<le> 32" "x \<noteq> d" "tile_holds d (lanes_of n) D m" "tile_holds x (lanes_of n) X m"
  shows "tile_holds x (lanes_of n) (\<lambda>i l. qe_divide e (X i l) (D i l)) (divide_vectors e d x n m)"
  using assms unfolding tile_holds_def lanes_of_def divide_vectors_def by (auto simp: binary_div_at [OF assms(1)])

lemma divide_vectors_only: "n \<le> 32 \<Longrightarrow> only_tile x m (divide_vectors e d x n m)"
  unfolding only_tile_def divide_vectors_def by (auto simp: binary_div_at)

lemma convert_vectors_holds:
  assumes "n \<le> 32" "tile_holds x (lanes_of n) X m"
  shows "tile_holds x (lanes_of n) (\<lambda>i l. qe_convert e e5m2 (X i l)) (convert_vectors e e5m2 x n m)"
  using assms unfolding tile_holds_def lanes_of_def convert_vectors_def by (auto simp: fp32_to_fp8_at [OF assms(1)])

lemma convert_vectors_only: "n \<le> 32 \<Longrightarrow> only_tile x m (convert_vectors e e5m2 x n m)"
  unfolding only_tile_def convert_vectors_def by (auto simp: fp32_to_fp8_at)

section \<open>Rows gathered and scattered\<close>

lemma band_vec_offset: "band_vec t b i = t * 32 + band_vec 0 b i"
  by (simp add: band_vec_def vec_def)

lemma band_vec_low: "b < 8 \<Longrightarrow> 2 * b \<le> band_vec 0 b i"
proof -
  assume "b < 8"
  then have "b \<in> {0, 1, 2, 3, 4, 5, 6, 7}" by auto
  then show ?thesis unfolding band_vec_def vec_def by (elim insertE emptyE) simp_all
qed

lemma band_vec_less: "b < 8 \<Longrightarrow> i < 4 \<Longrightarrow> band_vec 0 b i < 32"
  using band_vec_tile [of b i 0] by simp

lemma set_run:
  assumes "l < 32"
  shows "vec_at (fold (\<lambda>i d. vec_set d (p + i) (v i)) [0..<k] d) j l = (if p \<le> j \<and> j < p + k then v (j - p) l else vec_at d j l)"
  by (induction k) (auto simp: vec_at_set [OF assms] less_Suc_eq)

lemma gather_rows_prefix:
  assumes real: "0 < real" "real \<le> 2" and "n \<le> 8"
  shows "(\<forall>b < n. \<forall>i < real. \<forall>l < 32. vec_at (gather_rows t n real d) (t * 32 + b * real + i) l = vec_at d (band_vec t b (l div 8)) (8 * i + l mod 8)) \<and>
    (\<forall>j l. l < 32 \<longrightarrow> j < t * 32 \<or> t * 32 + n * real \<le> j \<longrightarrow> vec_at (gather_rows t n real d) j l = vec_at d j l)"
  using assms(3)
proof (induction n)
  case (Suc n)
  let ?m = "gather_rows t n real d"
  let ?v = "subvec_transp (\<lambda>i. vec_at ?m (band_vec t n i))"
  have n8: "n \<le> 8" using Suc.prems by simp
  note ih = Suc.IH [OF n8]
  have IH: "\<And>b i l. b < n \<Longrightarrow> i < real \<Longrightarrow> l < 32 \<Longrightarrow> vec_at ?m (t * 32 + b * real + i) l = vec_at d (band_vec t b (l div 8)) (8 * i + l mod 8)"
    "\<And>j l. l < 32 \<Longrightarrow> j < t * 32 \<or> t * 32 + n * real \<le> j \<Longrightarrow> vec_at ?m j l = vec_at d j l"
    using conjunct1 [OF ih] conjunct2 [OF ih] by blast+
  have r: "min real 3 = real" using real by simp
  have step: "gather_rows t (Suc n) real d = fold (\<lambda>i d. vec_set d (t * 32 + n * real + i) (?v i)) [0..<real] ?m"
    by (simp add: gather_rows_def Let_def r)
  have n2: "n * real \<le> 2 * n" using real(2) by (simp add: mult.commute)
  have v: "?v i l = vec_at d (band_vec t n (l div 8)) (8 * i + l mod 8)" if "i < real" "l < 32" for i l
  proof -
    have "i < 2" "l mod 8 < 8" using that(1) real(2) by simp_all
    then have "8 * i + l mod 8 < 32" by linarith
    moreover have "t * 32 + n * real \<le> band_vec t n (l div 8)"
      using band_vec_low [of n "l div 8"] n2 Suc.prems unfolding band_vec_offset [of t] by linarith
    ultimately show ?thesis by (simp add: subvec_transp_def IH(2))
  qed
  show ?case
  proof (intro conjI allI impI)
    fix b i l :: nat assume b: "b < Suc n" "i < real" "l < 32"
    show "vec_at (gather_rows t (Suc n) real d) (t * 32 + b * real + i) l = vec_at d (band_vec t b (l div 8)) (8 * i + l mod 8)"
    proof (cases "b = n")
      case True
      then show ?thesis using v [OF b(2,3)] b by (simp add: step set_run)
    next
      case False
      then have "b < n" using b(1) by simp
      then have "b * real + i < n * real" using b(2) by (rule index_less_product)
      then show ?thesis using IH(1) [OF \<open>b < n\<close> b(2,3)] b(3) by (simp add: step set_run)
    qed
  next
    fix j l :: nat assume "l < 32" "j < t * 32 \<or> t * 32 + Suc n * real \<le> j"
    then show "vec_at (gather_rows t (Suc n) real d) j l = vec_at d j l" using IH(2) [of l j] by (auto simp: step set_run)
  qed
qed (simp add: gather_rows_def)

lemma set_band:
  assumes "b < 8" "l < 32"
  shows "vec_at (fold (\<lambda>i d. vec_set d (band_vec t b i) (v i)) [0..<4] d) j l =
    (if \<exists>i < 4. j = band_vec t b i then v (THE i. i < 4 \<and> j = band_vec t b i) l else vec_at d j l)"
proof -
  have "k \<le> 4 \<Longrightarrow> vec_at (fold (\<lambda>i d. vec_set d (band_vec t b i) (v i)) [0..<k] d) j l =
      (if \<exists>i < k. j = band_vec t b i then v (THE i. i < 4 \<and> j = band_vec t b i) l else vec_at d j l)" for k
  proof (induction k)
    case (Suc k)
    have the: "(THE i. i < 4 \<and> band_vec t b k = band_vec t b i) = k"
      using band_vec_same [OF assms(1,1)] Suc.prems by (intro the_equality) auto
    show ?case using Suc by (auto simp: vec_at_set [OF assms(2)] less_Suc_eq the)
  qed simp
  from this [OF order_refl] show ?thesis .
qed

lemma set_band_at:
  assumes "b < 8" "k < 4" "l < 32"
  shows "vec_at (fold (\<lambda>i d. vec_set d (band_vec t b i) (v i)) [0..<4] d) (band_vec t b k) l = v k l"
proof -
  have "(THE i. i < 4 \<and> band_vec t b k = band_vec t b i) = k"
    using band_vec_same [OF assms(1,1)] assms(2) by (intro the_equality) auto
  then show ?thesis using assms(2) by (auto simp: set_band [OF assms(1,3)])
qed

lemma scatter_rows_prefix:
  assumes real: "0 < real" "real \<le> 2" and "n \<le> 8"
    and D: "D = fold (\<lambda>bc d. let b = 8 - 1 - bc;
         v = subvec_transp (\<lambda>i. vec_at d (t * 32 + b * real + (if i < min real 3 then i else 0)))
     in fold (\<lambda>i d. vec_set d (band_vec t b i) (v i)) [0..<4] d)"
  shows "(\<forall>b < 8. \<forall>k < 4. \<forall>l < 32. 8 - n \<le> b \<longrightarrow> l div 8 < real \<longrightarrow>
      vec_at (D [0..<n] d) (band_vec t b k) l = vec_at d (t * 32 + b * real + l div 8) (8 * k + l mod 8)) \<and>
    (\<forall>j l. l < 32 \<longrightarrow> j < t * 32 + 2 * (8 - n) \<or> t \<noteq> j div 32 \<longrightarrow> vec_at (D [0..<n] d) j l = vec_at d j l)"
  using assms(3)
proof (induction n)
  case 0
  then show ?case by (simp add: D)
next
  case (Suc n)
  let ?m = "D [0..<n] d" and ?b = "7 - n"
  let ?v = "subvec_transp (\<lambda>i. vec_at ?m (t * 32 + ?b * real + (if i < min real 3 then i else 0)))"
  have n8: "n \<le> 8" using Suc.prems by simp
  note ih = Suc.IH [OF n8]
  have IH: "\<And>b k l. b < 8 \<Longrightarrow> k < 4 \<Longrightarrow> l < 32 \<Longrightarrow> 8 - n \<le> b \<Longrightarrow> l div 8 < real \<Longrightarrow>
      vec_at ?m (band_vec t b k) l = vec_at d (t * 32 + b * real + l div 8) (8 * k + l mod 8)"
    "\<And>j l. l < 32 \<Longrightarrow> j < t * 32 + 2 * (8 - n) \<or> t \<noteq> j div 32 \<Longrightarrow> vec_at ?m j l = vec_at d j l"
    using conjunct1 [OF ih] conjunct2 [OF ih] by blast+
  have b: "?b < 8" "8 - Suc n = ?b" using Suc.prems by simp_all
  have step: "D [0..<Suc n] d = fold (\<lambda>i d. vec_set d (band_vec t ?b i) (?v i)) [0..<4] ?m"
    using Suc.prems by (simp add: D Let_def)
  have b2: "?b * real \<le> 2 * ?b" using real(2) by (simp add: mult.commute)
  have v: "?v k l = vec_at d (t * 32 + ?b * real + l div 8) (8 * k + l mod 8)" if "k < 4" "l < 32" "l div 8 < real" for k l
  proof -
    have "8 * k + l mod 8 < 32" using that(1) by (simp add: index_less_product [of k 4 "l mod 8" 8, simplified] mult.commute)
    moreover have "t * 32 + ?b * real + l div 8 < t * 32 + 2 * (8 - n)" using b2 that(3) real(2) Suc.prems by linarith
    ultimately show ?thesis using that(3) real by (simp add: subvec_transp_def IH(2))
  qed
  show ?case
  proof (intro conjI allI impI)
    fix b k l :: nat assume bk: "b < 8" "k < 4" "l < 32" "8 - Suc n \<le> b" "l div 8 < real"
    show "vec_at (D [0..<Suc n] d) (band_vec t b k) l = vec_at d (t * 32 + b * real + l div 8) (8 * k + l mod 8)"
    proof (cases "b = ?b")
      case True
      then show ?thesis using set_band_at [OF b(1) bk(2,3)] v [OF bk(2,3,5)] by (simp only: step)
    next
      case False
      then have "\<not> (\<exists>i < 4. band_vec t b k = band_vec t ?b i)" using band_vec_same [OF bk(1) b(1) bk(2)] by blast
      moreover have "8 - n \<le> b" using False bk(4) b(2) by simp
      ultimately show ?thesis using IH(1) [OF bk(1-3) _ bk(5)] by (simp only: step set_band [OF b(1) bk(3)] if_False)
    qed
  next
    fix j l :: nat assume l: "l < 32" and j: "j < t * 32 + 2 * (8 - Suc n) \<or> t \<noteq> j div 32"
    have "j \<noteq> band_vec t ?b i" if "i < 4" for i
      using j band_vec_low [OF b(1), of i] band_vec_tile [OF b(1) that, of t] b(2) unfolding band_vec_offset [of t] by auto
    moreover have "j < t * 32 + 2 * (8 - n) \<or> t \<noteq> j div 32" using j by auto
    ultimately show "vec_at (D [0..<Suc n] d) j l = vec_at d j l"
      using IH(2) [OF l] by (auto simp: step set_band [OF b(1) l] simp del: upt_Suc)
  qed
qed

text \<open>The rows of a tile in whole vectors, and back.\<close>

definition gathered :: "nat \<Rightarrow> (nat \<Rightarrow> lanes) \<Rightarrow> nat \<Rightarrow> lanes" where
  "gathered real X i l = X (band_vec 0 (i div real) (l div 8)) (8 * (i mod real) + l mod 8)"

definition row_lanes_of :: "nat \<Rightarrow> (nat \<times> nat) set" where
  "row_lanes_of real = {(band_vec 0 b k, l) | b k l. b < 8 \<and> k < 4 \<and> l < 32 \<and> l div 8 < real}"

lemma row_lanes_mono: "row_lanes_of real \<subseteq> lanes_of 32"
  by (auto simp: row_lanes_of_def lanes_of_def band_vec_less)

lemma gather_rows_holds:
  assumes real: "0 < real" "real \<le> 2" and X: "tile_holds t (lanes_of 32) X m"
  shows "tile_holds t (lanes_of (8 * real)) (gathered real X) (gather_rows t 8 real m)"
proof -
  have "vec_at (gather_rows t 8 real m) (t * 32 + i) l = gathered real X i l" if "i < 8 * real" "l < 32" for i l
  proof -
    have b: "i div real < 8" "i mod real < real" using that(1) real by (simp_all add: less_mult_imp_div_less)
    have "i mod real < 2" "l mod 8 < 8" using b(2) real(2) by simp_all
    then have lane: "8 * (i mod real) + l mod 8 < 32" by linarith
    have "l div 8 < 4" using that(2) by auto
    then have "(band_vec 0 (i div real) (l div 8), 8 * (i mod real) + l mod 8) \<in> lanes_of 32"
      using lane band_vec_less [OF b(1)] by (simp add: lanes_of_def)
    with X have "vec_at m (band_vec t (i div real) (l div 8)) (8 * (i mod real) + l mod 8) = gathered real X i l"
      unfolding tile_holds_def gathered_def band_vec_offset [of t] by blast
    moreover have "t * 32 + i = t * 32 + i div real * real + i mod real" by simp
    ultimately show ?thesis
      using conjunct1 [OF gather_rows_prefix [OF real order_refl, of t m]] b that(2) by metis
  qed
  then show ?thesis by (auto simp: tile_holds_def lanes_of_def)
qed

lemma gather_rows_only:
  assumes "0 < real" "real \<le> 2"
  shows "only_tile t m (gather_rows t 8 real m)"
  unfolding only_tile_def
proof (intro allI impI)
  fix i l :: nat assume l: "l < 32" and i: "i div 32 \<noteq> t"
  have "i < t * 32 \<or> t * 32 + 8 * real \<le> i"
  proof (rule ccontr)
    assume "\<not> ?thesis"
    then have "t * 32 \<le> i" "i < t * 32 + 32" using assms(2) by auto
    then have "i = t * 32 + (i - t * 32)" "i - t * 32 < 32" by auto
    then have "i div 32 = t" by (metis index_div)
    with i show False by blast
  qed
  then show "vec_at (gather_rows t 8 real m) i l = vec_at m i l"
    using conjunct2 [OF gather_rows_prefix [OF assms order_refl, of t m]] l by blast
qed

lemma scatter_rows_eq:
  "scatter_rows t 8 real m = fold (\<lambda>bc d. let b = 8 - 1 - bc;
         v = subvec_transp (\<lambda>i. vec_at d (t * 32 + b * real + (if i < min real 3 then i else 0)))
     in fold (\<lambda>i d. vec_set d (band_vec t b i) (v i)) [0..<4] d) [0..<8] m"
  by (simp add: scatter_rows_def)

lemma scatter_rows_holds:
  assumes real: "0 < real" "real \<le> 2" and Y: "tile_holds t (lanes_of (8 * real)) (\<lambda>i l. f (gathered real X i l) (gathered real D i l)) m"
  shows "tile_holds t (row_lanes_of real) (\<lambda>i l. f (X i l) (D i l)) (scatter_rows t 8 real m)"
proof -
  have "vec_at (scatter_rows t 8 real m) (t * 32 + band_vec 0 b k) l = f (X (band_vec 0 b k) l) (D (band_vec 0 b k) l)"
    if bk: "b < 8" "k < 4" "l < 32" "l div 8 < real" for b k l
  proof -
    define i l' where "i = b * real + l div 8" and "l' = 8 * k + l mod 8"
    have i: "i < 8 * real" "i div real = b" "i mod real = l div 8"
      unfolding i_def using index_less_product [OF bk(1,4)] bk(4) by simp_all
    have l': "l' < 32" "l' div 8 = k" "l' mod 8 = l mod 8"
      unfolding l'_def using index_less_product [OF bk(2), of "l mod 8" 8] by (simp_all add: mult.commute)
    have "vec_at (scatter_rows t 8 real m) (band_vec t b k) l = vec_at m (t * 32 + i) l'"
      using conjunct1 [OF scatter_rows_prefix [OF real order_refl refl, of t m, folded scatter_rows_eq]] bk
      unfolding i_def l'_def by (simp add: add.assoc)
    also have "\<dots> = f (gathered real X i l') (gathered real D i l')"
      using Y i(1) l'(1) unfolding tile_holds_def lanes_of_def by blast
    also have "\<dots> = f (X (band_vec 0 b k) l) (D (band_vec 0 b k) l)"
      by (simp add: gathered_def i l')
    finally show ?thesis by (simp only: band_vec_offset [of t])
  qed
  then show ?thesis by (auto simp: tile_holds_def row_lanes_of_def)
qed

lemma scatter_rows_only:
  assumes "0 < real" "real \<le> 2"
  shows "only_tile t m (scatter_rows t 8 real m)"
  using conjunct2 [OF scatter_rows_prefix [OF assms order_refl refl, of t m, folded scatter_rows_eq]]
  unfolding only_tile_def by auto

section \<open>The quotients\<close>

text \<open>The loaded tiles, by vectors.\<close>

definition loaded :: "quant_env \<Rightarrow> (nat \<Rightarrow> tile_words) \<Rightarrow> nat \<Rightarrow> nat \<Rightarrow> lanes" where
  "loaded e cb i k l = qe_unpack e (cb i (lane_word k l))"

lemma load_tiles:
  assumes "d < x0" "tile_holds d J D m" "J \<subseteq> lanes_of 32"
    and m': "m' = fold (\<lambda>j m. copy_tile (\<lambda>i. qe_unpack e (cb (first + j) i)) (x0 + j) m) [0..<n] m"
  shows "tile_holds d J D m' \<and> (\<forall>j < n. tile_holds (x0 + j) (lanes_of 32) (loaded e cb (first + j)) m')"
  unfolding m'
proof (rule fold_tiles [where I = "{}" and X = "\<lambda>_ _ _. 0"])
  show "tile_holds (x0 + j) (lanes_of 32) (loaded e cb (first + j)) (copy_tile (\<lambda>i. qe_unpack e (cb (first + j) i)) (x0 + j) m)" for j m
    using copied_holds [of "x0 + j" "\<lambda>i. qe_unpack e (cb (first + j) i)" m] by (simp add: loaded_def [abs_def])
qed (use assms(1-3) in \<open>simp_all add: copy_only tile_holds_def\<close>)

text \<open>The rows alone, in whole vectors.\<close>

lemma quantize_rows_alone:
  assumes real: "0 < real" "real \<le> 2" and n: "n \<le> 3" and d: "d < x0"
    and D: "tile_holds d (lanes_of 32) D m" and X: "\<And>j. j < n \<Longrightarrow> tile_holds (x0 + j) (lanes_of 32) (X j) m"
    and m1: "m1 = fold (\<lambda>j. gather_rows (x0 + j) 8 real) [0..<n] (gather_rows d 8 real m)"
    and m2: "m2 = fold (\<lambda>j. divide_vectors e d (x0 + j) (8 * real)) [0..<n] m1"
    and m3: "m3 = fold (\<lambda>j. convert_vectors e e5m2 (x0 + j) (8 * real)) [0..<n] m2"
    and m4: "m4 = fold (\<lambda>j. scatter_rows (x0 + j) 8 real) [0..<n] (scatter_rows d 8 real m3)"
  shows "tile_holds d (row_lanes_of real) D m4 \<and>
    (\<forall>j < n. tile_holds (x0 + j) (row_lanes_of real) (\<lambda>i l. qe_convert e e5m2 (qe_divide e (X j i l) (D i l))) m4)"
proof -
  let ?V = "lanes_of (8 * real)" and ?G = "gathered real"
  have v: "8 * real \<le> 32" using real(2) by simp
  have V: "?V \<subseteq> lanes_of 32" by (rule lanes_of_mono [OF v])
  have "tile_holds d ?V (?G D) (gather_rows d 8 real m)" by (rule gather_rows_holds [OF real D])
  moreover have "tile_holds (x0 + j) (lanes_of 32) (X j) (gather_rows d 8 real m)" if "j < n" for j
    using X [OF that] holds_other [OF gather_rows_only [OF real]] d by simp
  ultimately have s1: "tile_holds d ?V (?G D) m1 \<and> (\<forall>j < n. tile_holds (x0 + j) ?V (?G (X j)) m1)"
    unfolding m1 using d V
    by (intro fold_tiles [where I = "lanes_of 32" and X = X]) (auto intro: gather_rows_only real gather_rows_holds)
  have s2: "tile_holds d ?V (?G D) m2 \<and> (\<forall>j < n. tile_holds (x0 + j) ?V (\<lambda>i l. qe_divide e (?G (X j) i l) (?G D i l)) m2)"
    unfolding m2 using d V s1
    by (intro fold_tiles [where I = ?V and X = "\<lambda>j. ?G (X j)"]) (auto intro: divide_vectors_only v divide_vectors_holds)
  have s3: "tile_holds d ?V (?G D) m3 \<and> (\<forall>j < n. tile_holds (x0 + j) ?V (\<lambda>i l. qe_convert e e5m2 (qe_divide e (?G (X j) i l) (?G D i l))) m3)"
    unfolding m3 using d V s2
    by (intro fold_tiles [where I = ?V and X = "\<lambda>j i l. qe_divide e (?G (X j) i l) (?G D i l)"])
      (auto intro: convert_vectors_only v convert_vectors_holds)
  let ?W = "\<lambda>j i l. qe_convert e e5m2 (qe_divide e (?G (X j) i l) (?G D i l))"
  have "tile_holds d (row_lanes_of real) D (scatter_rows d 8 real m3)"
    using scatter_rows_holds [OF real, of d "\<lambda>x y. y" D D m3] s3 by simp
  moreover have "tile_holds (x0 + j) ?V (?W j) (scatter_rows d 8 real m3)" if "j < n" for j
    using s3 that holds_other [OF scatter_rows_only [OF real]] d V by simp
  ultimately show ?thesis
    unfolding m4 using d V row_lanes_mono [of real]
    by (intro fold_tiles [where I = ?V and X = ?W])
      (auto intro: scatter_rows_only real scatter_rows_holds [where f = "\<lambda>x y. qe_convert e e5m2 (qe_divide e x y)"])
qed

text \<open>The whole tiles.\<close>

lemma face_vectors_all: "face_vectors 32 = [0..<32]"
  by (simp add: face_vectors_def upt_rec)

lemma whole_vectors:
  "fold (\<lambda>i m. vec_set m (x * 32 + i) (\<lambda>l. qe_divide e (vec_at m (x * 32 + i) l) (vec_at m (d * 32 + i) l))) (face_vectors 32) =
    divide_vectors e d x 32"
  "fold (\<lambda>i m. vec_set m (x * 32 + i) (\<lambda>l. qe_convert e e5m2 (vec_at m (x * 32 + i) l))) (face_vectors 32) = convert_vectors e e5m2 x 32"
  unfolding face_vectors_all divide_vectors_def binary_div_def [abs_def] convert_vectors_def fp32_to_fp8_def [abs_def] by (rule refl)+

lemma quantize_whole:
  assumes d: "d < x0" and D: "tile_holds d (lanes_of 32) D m"
    and X: "\<And>j. j < n \<Longrightarrow> tile_holds (x0 + j) (lanes_of 32) (X j) m"
    and m1: "m1 = fold (\<lambda>j. divide_vectors e d (x0 + j) 32) [0..<n] m"
    and m2: "m2 = fold (\<lambda>j. convert_vectors e fmt (x0 + j) 32) [0..<n] m1"
  shows "tile_holds d (lanes_of 32) D m2 \<and>
    (\<forall>j < n. tile_holds (x0 + j) (lanes_of 32) (\<lambda>i l. qe_convert e fmt (qe_divide e (X j i l) (D i l))) m2)"
proof -
  have s1: "tile_holds d (lanes_of 32) D m1 \<and> (\<forall>j < n. tile_holds (x0 + j) (lanes_of 32) (\<lambda>i l. qe_divide e (X j i l) (D i l)) m1)"
    unfolding m1 using d D X
    by (intro fold_tiles [where I = "lanes_of 32" and X = X]) (auto intro: divide_vectors_only divide_vectors_holds)
  then show ?thesis
    unfolding m2 using d
    by (intro fold_tiles [where I = "lanes_of 32" and X = "\<lambda>j i l. qe_divide e (X j i l) (D i l)"])
      (auto intro: convert_vectors_only convert_vectors_holds)
qed

text \<open>Every data element of a quantized tile, and of the divisor tile that the scale is packed from.\<close>

lemma elem_of_tile: "elem_vec t r c = t * 32 + elem_vec 0 r c"
  by (simp add: elem_vec_def vec_def)

lemma elem_row_lane:
  assumes "r < 32" "c < 32" "r mod 4 < real"
  shows "(elem_vec 0 r c, elem_lane r c) \<in> row_lanes_of real"
proof -
  have k: "2 * (c div 16) + c mod 2 < 4"
  proof -
    have "c div 16 < 2" "c mod 2 < 2" using assms(2) by auto
    then show ?thesis by linarith
  qed
  have "c mod 16 div 2 < 8" by auto
  then have "elem_lane r c div 8 = r mod 4" by (simp add: elem_lane_def)
  moreover have "r div 4 < 8" using assms(1) by auto
  ultimately show ?thesis
    unfolding row_lanes_of_def elem_band [OF assms(1,2)] using k elem_lane_less [of r c] assms(3) by auto
qed

theorem quantize_tiles_elem:
  assumes n: "n \<le> 3" "j < n" and d: "d < x0" and rc: "r < 32" "c < 32" and row: "r mod 4 < tensor_rows"
    and m': "m' = quantize_tiles e e5m2 d x0 32 tensor_rows cb first n m"
  shows "tile_at m' (x0 + j) r c = qe_convert e e5m2 (qe_divide e (qe_unpack e (page_elem (cb (first + j)) r c)) (tile_at m d r c))"
    and "tile_at m' d r c = tile_at m d r c"
proof -
  define D where "D i l = vec_at m (d * 32 + i) l" for i l
  let ?m = "fold (\<lambda>j m. copy_tile (\<lambda>i. qe_unpack e (cb (first + j) i)) (x0 + j) m) [0..<n] m"
  let ?W = "\<lambda>j i l. qe_convert e e5m2 (qe_divide e (loaded e cb (first + j) i l) (D i l))"
  define I where "I = (if tensor_rows \<le> 2 then row_lanes_of tensor_rows else lanes_of 32)"
  have min3: "min n 3 = n" using n(1) by simp
  have load: "tile_holds d (lanes_of 32) D ?m \<and> (\<forall>j < n. tile_holds (x0 + j) (lanes_of 32) (loaded e cb (first + j)) ?m)"
    by (rule load_tiles [OF d]) (simp_all add: tile_holds_def D_def)
  have holds: "tile_holds d I D m' \<and> (\<forall>j < n. tile_holds (x0 + j) I (?W j) m')"
  proof (cases "tensor_rows \<le> 2")
    case True
    have "0 < tensor_rows" using row by simp
    from quantize_rows_alone [OF this True n(1) d conjunct1 [OF load] conjunct2 [OF load, rule_format] refl refl refl refl, of e e5m2]
    show ?thesis using True unfolding m' quantize_tiles_def quantize_loaded_def load_tile_def I_def Let_def min3 by simp
  next
    case False
    from quantize_whole [OF d conjunct1 [OF load] conjunct2 [OF load, rule_format] refl refl, where e = e and fmt = e5m2]
    show ?thesis using False unfolding m' quantize_tiles_def quantize_loaded_def load_tile_def I_def Let_def whole_vectors by simp
  qed
  have in_I: "(elem_vec 0 r c, elem_lane r c) \<in> I"
    using elem_row_lane [OF rc row] elem_row_lane [OF rc, of 4] row_lanes_mono [of 4] by (auto simp: I_def)
  then show "tile_at m' d r c = tile_at m d r c"
    using holds unfolding tile_holds_def tile_at_vec elem_of_tile [of d] D_def by blast
  from holds n(2) have "tile_holds (x0 + j) I (?W j) m'" by blast
  with in_I have "vec_at m' ((x0 + j) * 32 + elem_vec 0 r c) (elem_lane r c) = ?W j (elem_vec 0 r c) (elem_lane r c)"
    unfolding tile_holds_def by blast
  then show "tile_at m' (x0 + j) r c = qe_convert e e5m2 (qe_divide e (qe_unpack e (page_elem (cb (first + j)) r c)) (tile_at m d r c))"
    unfolding tile_at_vec elem_of_tile [of "x0 + j"] elem_of_tile [of d] elem_word [of "cb (first + j)"] D_def loaded_def .
qed

end
