(* ===== verification/QuantizePlan.thy ===== *)
theory QuantizePlan
  imports ProgramSpec
begin

text \<open>
  quantize_rows from its call to its program: the checks, the plan and the specs of
  \<open>quantize_rows/device/quantize_rows_device_operation.cpp\<close>, the program of
  \<open>quantize_rows_program_factory.cpp\<close>, and what the plan promises: a rectangle of cores within the
  grid, with every tile of the row on one of them.
\<close>

section \<open>The plan\<close>

record quantize_plan =
  qp_rows :: nat
  qp_tiles :: nat
  qp_stride :: nat
  qp_pack :: nat
  qp_dense :: nat
  qp_width :: nat
  qp_height :: nat

definition quantize_cores :: "quantize_plan \<Rightarrow> nat" where
  "quantize_cores p = w32 (qp_width p * qp_height p)"

definition slot_bytes :: "quantize_plan \<Rightarrow> nat" where
  "slot_bytes p = w32 (qp_stride p * 64)"

definition gather_tiles :: "quantize_plan \<Rightarrow> nat" where
  "gather_tiles p = w32 (quantize_cores p * slot_bytes p + 4095) div 4096"

definition stride_of :: "nat \<Rightarrow> nat" where
  "stride_of rows = (if rows \<le> 4 then 4 else if rows \<le> 8 then 8 else if rows \<le> 16 then 16 else 32)"

definition ceil_div :: "nat \<Rightarrow> nat \<Rightarrow> nat" where
  "ceil_div a b = w32 (a + b - 1) div b"

text \<open>The smallest rectangle with a core for every share, widest first.\<close>

definition rectangle :: "nat \<Rightarrow> nat \<Rightarrow> nat \<Rightarrow> nat \<times> nat" where
  "rectangle shares grid_x grid_y = fold (\<lambda>h (width, height).
     let w = ceil_div shares h in if w \<le> grid_x \<and> w32 (w * h) < w32 (width * height) then (w, h) else (width, height))
     [1..<Suc grid_y] (grid_x, grid_y)"

definition quantize_rows_plan :: "nat list \<Rightarrow> nat list \<Rightarrow> nat \<Rightarrow> nat \<Rightarrow> quantize_plan" where
  "quantize_rows_plan logical padded grid_x grid_y =
     (let rows = dim_back logical 2; tiles = dim_back padded 1 div 32; stride = stride_of rows; pack = 32 div stride;
          dense = ceil_div tiles pack; max_cores = (if stride \<le> 8 then 48 else 32);
          limit = max 1 (min dense (min max_cores (w32 (grid_x * grid_y))));
          per_core = ceil_div dense limit; shares = ceil_div dense per_core;
          (width, height) = rectangle shares grid_x grid_y
      in \<lparr>qp_rows = rows, qp_tiles = tiles, qp_stride = stride, qp_pack = pack, qp_dense = dense, qp_width = width, qp_height = height\<rparr>)"

section \<open>Validation\<close>

datatype quant_dtype = BFLOAT16 | FLOAT32 | FP8_E4M3 | FP8_E5M2 | OtherDtype string

record quantize_tensor =
  qt_allocated :: bool
  qt_tile_layout :: bool
  qt_interleaved :: bool
  qt_dtype :: quant_dtype
  qt_tile_shape :: "nat \<times> nat"
  qt_logical :: "nat list"
  qt_padded :: "nat list"

text \<open>The least scale by its bits: finite, and not below zero (minus zero is not).\<close>

record quantize_params =
  qq_dtype :: quant_dtype
  qq_min_scale :: u32

datatype quantize_error =
    QuantizeNotAllocated | QuantizeNotTiled | QuantizeNotInterleaved | QuantizeDtype | QuantizeTile | QuantizeRank
  | QuantizeDimension nat nat | QuantizeRows nat | QuantizeColumns nat | QuantizeResult | QuantizeMinScale

definition finite_bits :: "u32 \<Rightarrow> bool" where
  "finite_bits x \<longleftrightarrow> x AND 0x7F800000 \<noteq> 0x7F800000"

definition not_negative_bits :: "u32 \<Rightarrow> bool" where
  "not_negative_bits x \<longleftrightarrow> x < 0x80000000 \<or> x = 0x80000000"

definition validate_quantize :: "quantize_params \<Rightarrow> quantize_tensor \<Rightarrow> quantize_error + unit" where
  "validate_quantize p t =
     (let shape = qt_logical t; padded = qt_padded t in
      if \<not> qt_allocated t then Inl QuantizeNotAllocated
      else if \<not> qt_tile_layout t then Inl QuantizeNotTiled
      else if \<not> qt_interleaved t then Inl QuantizeNotInterleaved
      else if \<not> (qt_dtype t = BFLOAT16 \<or> qt_dtype t = FLOAT32) then Inl QuantizeDtype
      else if qt_tile_shape t \<noteq> (32, 32) then Inl QuantizeTile
      else if length shape < 2 then Inl QuantizeRank
      else case filter (\<lambda>d. shape ! d \<noteq> 1) [0..<length shape - 2] of d # _ \<Rightarrow> Inl (QuantizeDimension d (shape ! d))
      | [] \<Rightarrow>
        if \<not> (1 \<le> dim_back shape 2 \<and> dim_back padded 2 = 32) then Inl (QuantizeRows (dim_back shape 2))
        else if \<not> (32 \<le> dim_back shape 1 \<and> dim_back shape 1 = dim_back padded 1) then Inl (QuantizeColumns (dim_back shape 1))
        else if \<not> (qq_dtype p = FP8_E4M3 \<or> qq_dtype p = FP8_E5M2) then Inl QuantizeResult
        else if \<not> (finite_bits (qq_min_scale p) \<and> not_negative_bits (qq_min_scale p)) then Inl QuantizeMinScale
        else Inr ())"

text \<open>The outputs: the codes, shaped like the input, and the scales, one column.\<close>

definition quantize_output_shapes :: "quantize_tensor \<Rightarrow> nat list \<times> nat list" where
  "quantize_output_shapes t = (qt_logical t, (qt_logical t)[length (qt_logical t) - 1 := 1])"

section \<open>The cores\<close>

text \<open>The first run of NoC-adjacent columns and rows of the grid.\<close>

definition run_of :: "nat \<Rightarrow> (nat \<Rightarrow> bool) \<Rightarrow> nat" where
  "run_of n adjacent = 1 + length (takeWhile adjacent [1..<n])"

definition adjacent_grid :: "nat \<times> nat \<Rightarrow> (core \<Rightarrow> core) \<Rightarrow> nat \<times> nat" where
  "adjacent_grid grid noc_of =
     (run_of (fst grid) (\<lambda>x. fst (noc_of (x, 0)) = fst (noc_of (0, 0)) + x),
      run_of (snd grid) (\<lambda>y. snd (noc_of (0, y)) = snd (noc_of (0, 0)) + y))"

text \<open>Dense tiles split evenly over the cores, the first ones one longer.\<close>

record quantize_share =
  qs_core :: core
  qs_first_dense :: nat
  qs_num_dense :: nat
  qs_last_count :: nat
  qs_index :: nat
  qs_noc :: core
  qs_writes_scale :: bool

definition share_of :: "quantize_plan \<Rightarrow> (core \<Rightarrow> core) \<Rightarrow> nat \<Rightarrow> quantize_share" where
  "share_of p noc_of i =
     (let base = qp_dense p div quantize_cores p; extra = qp_dense p mod quantize_cores p;
          core = (i mod qp_width p, i div qp_width p);
          num_dense = base + (if i < extra then 1 else 0); first_dense = w32 (i * base + min i extra);
          last_first_tile = w32 (w32 (first_dense + num_dense + 2 ^ 32 - 1) * qp_pack p);
          last_count = min (qp_pack p) (w32 (qp_tiles p + 2 ^ 32 - last_first_tile))
      in \<lparr>qs_core = core, qs_first_dense = first_dense, qs_num_dense = num_dense, qs_last_count = last_count, qs_index = i,
          qs_noc = noc_of core, qs_writes_scale = (i = 0)\<rparr>)"

definition max_dense :: "quantize_plan \<Rightarrow> nat" where
  "max_dense p = qp_dense p div quantize_cores p + (if qp_dense p mod quantize_cores p \<noteq> 0 then 1 else 0)"

section \<open>The program\<close>

definition chunk_tiles :: nat where "chunk_tiles = 3"

definition quantize_runtime_names :: "string list" where
  "quantize_runtime_names = [''first_dense'', ''num_dense'', ''last_count'', ''core'', ''self_x'', ''self_y'', ''writes_scale'']"

definition quantize_kernel_dir :: string where
  "quantize_kernel_dir = ''ttnn/cpp/ttnn/operations/experimental/quantize_rows/device/kernels/''"

definition quantize_buffer :: "string \<Rightarrow> nat \<Rightarrow> nat \<Rightarrow> string \<Rightarrow> dfb_spec" where
  "quantize_buffer name bytes entries format =
     \<lparr>dfb_id = name, entry_size = bytes, num_entries = entries, data_format = format, tile_format = None\<rparr>"

text \<open>The bytes of a tile: a BF16, an FP32 and a UInt8 one.\<close>

definition in_format :: "quantize_tensor \<Rightarrow> string" where
  "in_format t = (if qt_dtype t = FLOAT32 then ''Float32'' else ''Float16_b'')"

definition in_tile_bytes :: "quantize_tensor \<Rightarrow> nat" where
  "in_tile_bytes t = (if qt_dtype t = FLOAT32 then 4096 else 2048)"

definition quantize_buffers :: "quantize_plan \<Rightarrow> quantize_tensor \<Rightarrow> dfb_spec list" where
  "quantize_buffers p t =
     [quantize_buffer ''in'' (in_tile_bytes t) (max_dense p) (in_format t), quantize_buffer ''part'' 4096 1 ''Float32'',
      quantize_buffer ''gather'' 4096 (gather_tiles p) ''Float32'', quantize_buffer ''out'' 1024 (2 * chunk_tiles) ''UInt8'',
      quantize_buffer ''scale'' 4096 1 ''Float32'']"

definition quantize_reader_spec :: "quantize_plan \<Rightarrow> quantize_tensor \<Rightarrow> (core \<Rightarrow> core) \<Rightarrow> kernel_spec" where
  "quantize_reader_spec p t noc_of =
     (let first = noc_of (0, 0); last_core = noc_of (qp_width p - 1, qp_height p - 1) in
      \<lparr>kernel_id = ''reader'', kernel_source = quantize_kernel_dir @ ''dataflow/reader_quantize_rows.cpp'', kernel_defines = [],
       dfb_bindings = [dfb_binding_of ''in'' ''in'' Producer, dfb_binding_of ''part'' ''part'' Consumer, dfb_binding_of ''gather'' ''gather'' Producer],
       tensor_bindings = [(''input'', ''input'')],
       compile_time_args = [(''stride'', qp_stride p), (''pack'', qp_pack p), (''elem_bytes'', in_tile_bytes t div (32 * 32)),
         (''cores'', quantize_cores p), (''slot_bytes'', slot_bytes p), (''gather_tiles'', gather_tiles p),
         (''x0'', fst first), (''y0'', snd first), (''x1'', fst last_core), (''y1'', snd last_core)],
       runtime_arg_names = quantize_runtime_names, common_runtime_arg_names = [], kernel_hw = ReaderConfig\<rparr>)"

definition quantize_writer_spec :: "quantize_plan \<Rightarrow> kernel_spec" where
  "quantize_writer_spec p =
     \<lparr>kernel_id = ''writer'', kernel_source = quantize_kernel_dir @ ''dataflow/writer_quantize_rows.cpp'', kernel_defines = [],
      dfb_bindings = [dfb_binding_of ''out'' ''out'' Consumer, dfb_binding_of ''scale'' ''scale'' Consumer],
      tensor_bindings = [(''q'', ''q''), (''scale'', ''scale'')],
      compile_time_args = [(''stride'', qp_stride p), (''pack'', qp_pack p), (''chunk_tiles'', chunk_tiles)],
      runtime_arg_names = quantize_runtime_names, common_runtime_arg_names = [], kernel_hw = WriterConfig\<rparr>"

definition quantize_compute_config :: "quantize_tensor \<Rightarrow> compute_config" where
  "quantize_compute_config t = \<lparr>math_fidelity = ''HiFi4'', math_approx_mode = False, fp32_dest_acc_en = True, packer_l1_acc = False,
     dst_full_sync_en = False,
     unpack_modes = (if qt_dtype t = FLOAT32 then [(''gather'', ''UnpackToDest''), (''in'', ''UnpackToDest'')] else [(''gather'', ''UnpackToDest'')])\<rparr>"

text \<open>The largest finite value of the format, by its bits: 57344 and 448.\<close>

definition fp8_max_bits :: "quantize_params \<Rightarrow> u32" where
  "fp8_max_bits q = (if qq_dtype q = FP8_E5M2 then 0x47600000 else 0x43E00000)"

definition quantize_compute_spec :: "quantize_params \<Rightarrow> quantize_plan \<Rightarrow> quantize_tensor \<Rightarrow> kernel_spec" where
  "quantize_compute_spec q p t =
     \<lparr>kernel_id = ''compute'', kernel_source = quantize_kernel_dir @ ''compute/quantize_rows.cpp'', kernel_defines = [],
      dfb_bindings = [dfb_binding_of ''in'' ''in'' Consumer, dfb_binding_of ''part'' ''part'' Producer, dfb_binding_of ''gather'' ''gather'' Consumer,
        dfb_binding_of ''out'' ''out'' Producer, dfb_binding_of ''scale'' ''scale'' Producer],
      tensor_bindings = [],
      compile_time_args = [(''stride'', qp_stride p), (''rows'', qp_rows p), (''pack'', qp_pack p), (''cores'', quantize_cores p),
        (''gather_tiles'', gather_tiles p), (''chunk_tiles'', chunk_tiles), (''e5m2'', of_bool (qq_dtype q = FP8_E5M2)),
        (''fp8_max_bits'', unat (fp8_max_bits q)), (''min_scale_bits'', unat (qq_min_scale q))],
      runtime_arg_names = quantize_runtime_names, common_runtime_arg_names = [], kernel_hw = ComputeConfig (quantize_compute_config t)\<rparr>"

definition share_args :: "quantize_share \<Rightarrow> (string \<times> nat) list" where
  "share_args s = [(''first_dense'', qs_first_dense s), (''num_dense'', qs_num_dense s), (''last_count'', qs_last_count s), (''core'', qs_index s),
     (''self_x'', fst (qs_noc s)), (''self_y'', snd (qs_noc s)), (''writes_scale'', of_bool (qs_writes_scale s))]"

definition quantize_shares :: "quantize_plan \<Rightarrow> (core \<Rightarrow> core) \<Rightarrow> quantize_share list" where
  "quantize_shares p noc_of = map (share_of p noc_of) [0..<quantize_cores p]"

definition quantize_run_args :: "quantize_plan \<Rightarrow> (core \<Rightarrow> core) \<Rightarrow> kernel_run_args list" where
  "quantize_run_args p noc_of = map (\<lambda>name. \<lparr>run_kernel = name,
     node_args = map (\<lambda>s. (qs_core s, share_args s)) (quantize_shares p noc_of), common_args = []\<rparr>) [''reader'', ''writer'', ''compute'']"

text \<open>The rectangle, with its rows outermost.\<close>

definition rect_cores :: "quantize_plan \<Rightarrow> core list" where
  "rect_cores p = map (\<lambda>i. (i mod qp_width p, i div qp_width p)) [0..<qp_width p * qp_height p]"

definition quantize_artifacts ::
  "quantize_params \<Rightarrow> quantize_tensor \<Rightarrow> nat \<times> nat \<Rightarrow> (core \<Rightarrow> core) \<Rightarrow> 't \<Rightarrow> 't \<Rightarrow> 't \<Rightarrow> 't program_artifacts" where
  "quantize_artifacts q t grid noc_of input codes scale =
     (let (grid_x, grid_y) = adjacent_grid grid noc_of; p = quantize_rows_plan (qt_logical t) (qt_padded t) grid_x grid_y in
      \<lparr>artifact_spec =
         \<lparr>spec_name = ''quantize_rows'', spec_kernels = [quantize_reader_spec p t noc_of, quantize_writer_spec p, quantize_compute_spec q p t],
          dataflow_buffers = quantize_buffers p t, tensor_parameters = [(''input'', input), (''q'', codes), (''scale'', scale)],
          work_units = [\<lparr>unit_name = ''main'', unit_kernels = [''reader'', ''writer'', ''compute''], unit_nodes = rect_cores p\<rparr>]\<rparr>,
       run_args = quantize_run_args p noc_of,
       tensor_args = [(''input'', input), (''q'', codes), (''scale'', scale)]\<rparr>)"

text \<open>One semaphore, on every core, and the operation.\<close>

definition quantize_semaphores :: "quantize_plan \<Rightarrow> (string \<times> core list) list" where
  "quantize_semaphores p = [(''done'', rect_cores p)]"

definition quantize_rows ::
  "quantize_params \<Rightarrow> quantize_tensor \<Rightarrow> nat \<times> nat \<Rightarrow> (core \<Rightarrow> core) \<Rightarrow> 't \<Rightarrow> 't \<Rightarrow> 't \<Rightarrow>
     quantize_error + (nat list \<times> nat list) \<times> 't program_artifacts" where
  "quantize_rows q t grid noc_of input codes scale =
     (case validate_quantize q t of Inl e \<Rightarrow> Inl e
      | Inr _ \<Rightarrow> Inr (quantize_output_shapes t, quantize_artifacts q t grid noc_of input codes scale))"

section \<open>What the plan promises\<close>

text \<open>Shapes as ttnn keeps them, a grid with its coordinates, and sizes within \<open>uint32_t\<close>.\<close>

definition quantize_fits :: "quantize_tensor \<Rightarrow> nat \<times> nat \<Rightarrow> (core \<Rightarrow> core) \<Rightarrow> bool" where
  "quantize_fits t grid noc_of \<longleftrightarrow> dim_back (qt_logical t) 2 \<le> dim_back (qt_padded t) 2 \<and> 32 dvd dim_back (qt_padded t) 1 \<and>
     dim_back (qt_padded t) 1 < 2 ^ 32 \<and> 0 < fst grid \<and> fst grid < 2 ^ 8 \<and> 0 < snd grid \<and> snd grid < 2 ^ 8 \<and>
     (\<forall>x y. noc_of (x, y) = (fst (noc_of (x, 0)), snd (noc_of (0, y))))"

lemma run_of_bound: "0 < n \<Longrightarrow> 0 < run_of n P \<and> run_of n P \<le> n"
  using length_takeWhile_le [of P "[1..<n]"] by (simp add: run_of_def)

lemma run_of_adjacent: "x < run_of n P \<Longrightarrow> 0 < x \<Longrightarrow> P x"
proof -
  assume x: "x < run_of n P" "0 < x"
  then have l: "x - 1 < length (takeWhile P [1..<n])" by (simp add: run_of_def)
  then have "takeWhile P [1..<n] ! (x - 1) = [1..<n] ! (x - 1)" by (rule takeWhile_nth)
  moreover have "x - 1 < length [1..<n]" using l length_takeWhile_le [of P "[1..<n]"] by simp
  ultimately have "takeWhile P [1..<n] ! (x - 1) = x" using x(2) by simp
  then show "P x" using nth_mem [OF l] by (metis set_takeWhileD)
qed

lemma ceil_div_up: "a + b < 2 ^ 32 \<Longrightarrow> ceil_div a b = div_up a b"
proof -
  assume "a + b < 2 ^ 32"
  then have "w32 (a + b - 1) = a + b - 1" by (intro w32_id) simp
  then show ?thesis by (simp add: ceil_div_def div_up_def)
qed

lemma rectangle_ok:
  assumes "0 < shares" "shares \<le> grid_x * grid_y" "shares < 2 ^ 16" "0 < grid_x" "grid_x < 2 ^ 8" "0 < grid_y" "grid_y < 2 ^ 8"
  shows "case rectangle shares grid_x grid_y of (w, h) \<Rightarrow> 0 < w \<and> w \<le> grid_x \<and> 0 < h \<and> h \<le> grid_y \<and> shares \<le> w * h"
proof -
  let ?step = "\<lambda>h (width, height). let w = ceil_div shares h in if w \<le> grid_x \<and> w32 (w * h) < w32 (width * height) then (w, h) else (width, height)"
  let ?ok = "\<lambda>(w, h). 0 < w \<and> w \<le> grid_x \<and> 0 < h \<and> h \<le> grid_y \<and> shares \<le> w * h"
  have "n \<le> grid_y \<Longrightarrow> ?ok (fold ?step [1..<Suc n] (grid_x, grid_y))" for n
  proof (induction n)
    case 0
    then show ?case using assms by simp
  next
    case (Suc n)
    obtain w h where wh: "fold ?step [1..<Suc n] (grid_x, grid_y) = (w, h)" by fastforce
    then have old: "?ok (w, h)" using Suc by simp
    have c: "ceil_div shares (Suc n) = div_up shares (Suc n)" by (rule ceil_div_up) (use assms Suc.prems in simp)
    have "0 < div_up shares (Suc n)" "shares \<le> div_up shares (Suc n) * Suc n" using assms(1) div_up_mult_ge [of "Suc n" shares] by simp_all
    moreover have "fold ?step [1..<Suc (Suc n)] (grid_x, grid_y) = ?step (Suc n) (w, h)" using wh by simp
    ultimately show ?case using old c Suc.prems by (auto simp: Let_def)
  qed
  from this [OF order_refl] show ?thesis by (simp add: rectangle_def)
qed

definition plan_good :: "quantize_plan \<Rightarrow> bool" where
  "plan_good p \<longleftrightarrow> qp_stride p \<in> {4, 8, 16, 32} \<and> qp_pack p = 32 div qp_stride p \<and> 0 < qp_rows p \<and> qp_rows p \<le> qp_stride p \<and>
     0 < qp_tiles p \<and> qp_tiles p < 2 ^ 27 \<and> qp_dense p = div_up (qp_tiles p) (qp_pack p) \<and>
     0 < qp_width p \<and> qp_width p < 2 ^ 8 \<and> 0 < qp_height p \<and> qp_height p < 2 ^ 8"

definition plan_of :: "quantize_tensor \<Rightarrow> nat \<times> nat \<Rightarrow> (core \<Rightarrow> core) \<Rightarrow> quantize_plan" where
  "plan_of t grid noc_of = (case adjacent_grid grid noc_of of (grid_x, grid_y) \<Rightarrow> quantize_rows_plan (qt_logical t) (qt_padded t) grid_x grid_y)"

lemma validated_quantize:
  assumes "validate_quantize q t = Inr ()"
  shows "0 < dim_back (qt_logical t) 2" "dim_back (qt_padded t) 2 = 32" "32 \<le> dim_back (qt_padded t) 1" "2 \<le> length (qt_logical t)"
  using assms by (auto simp: validate_quantize_def Let_def split: if_splits list.splits)

lemma adjacent_grid_bound:
  assumes "quantize_fits t grid noc_of"
  shows "case adjacent_grid grid noc_of of (x, y) \<Rightarrow> 0 < x \<and> x \<le> fst grid \<and> x < 2 ^ 8 \<and> 0 < y \<and> y \<le> snd grid \<and> y < 2 ^ 8"
proof -
  have "0 < fst grid" "0 < snd grid" "fst grid < 2 ^ 8" "snd grid < 2 ^ 8" using assms by (simp_all add: quantize_fits_def)
  then show ?thesis
    using run_of_bound [of "fst grid" "\<lambda>x. fst (noc_of (x, 0)) = fst (noc_of (0, 0)) + x"]
      run_of_bound [of "snd grid" "\<lambda>y. snd (noc_of (0, y)) = snd (noc_of (0, 0)) + y"]
    by (auto simp: adjacent_grid_def)
qed

text \<open>The dense tiles per core that the core limit allows.\<close>

definition core_limit :: "nat \<Rightarrow> nat \<Rightarrow> nat \<Rightarrow> nat \<Rightarrow> nat" where
  "core_limit stride dense grid_x grid_y = min dense (min (if stride \<le> 8 then 48 else 32) (grid_x * grid_y))"

lemma div_up_inverse:
  assumes "0 < a" "0 < n"
  shows "div_up a (div_up a n) \<le> n"
proof -
  have up: "0 < div_up a n" using assms by simp
  have "a \<le> n * div_up a n" using div_up_mult_ge [OF assms(2), of a] by (simp add: mult.commute)
  moreover have "n * div_up a n < a" if "n < div_up a (div_up a n)"
    using that less_div_up_iff [OF up, of n a] by simp
  ultimately show ?thesis using not_le by fastforce
qed

lemma plan_rectangle:
  assumes dense: "0 < dense" "dense < 2 ^ 27" and grid: "0 < grid_x" "grid_x < 2 ^ 8" "0 < grid_y" "grid_y < 2 ^ 8"
    and per: "per_core = ceil_div dense (max 1 (min dense (min (if stride \<le> 8 then 48 else 32) (w32 (grid_x * grid_y)))))"
    and wh: "rectangle (ceil_div dense per_core) grid_x grid_y = (w, h)"
  shows "0 < w" "w \<le> grid_x" "0 < h" "h \<le> grid_y" "div_up dense (core_limit stride dense grid_x grid_y) = per_core" "dense \<le> per_core * (w * h)"
proof -
  have "grid_x * grid_y < 2 ^ 16" using mult_strict_mono [OF grid(2,4)] by simp
  then have xy: "w32 (grid_x * grid_y) = grid_x * grid_y" by (intro w32_id) simp
  let ?limit = "core_limit stride dense grid_x grid_y"
  have limit: "0 < ?limit" "?limit \<le> 48" "?limit \<le> grid_x * grid_y" using dense grid by (auto simp: core_limit_def)
  then have same: "max 1 (min dense (min (if stride \<le> 8 then 48 else 32) (w32 (grid_x * grid_y)))) = ?limit"
    by (simp add: core_limit_def xy)
  have "ceil_div dense ?limit = div_up dense ?limit" by (rule ceil_div_up) (use dense limit in simp)
  then show p: "div_up dense ?limit = per_core" by (simp only: per same)
  have up: "0 < per_core" using dense(1) limit(1) p by (metis div_up_pos_iff)
  have "per_core \<le> dense" unfolding p [symmetric] by (rule div_up_le) (rule limit(1))
  then have shares: "ceil_div dense per_core = div_up dense per_core" by (intro ceil_div_up) (use dense in simp)
  have s: "0 < div_up dense per_core" "div_up dense per_core \<le> ?limit"
    using dense(1) up div_up_inverse [OF dense(1) limit(1)] by (simp_all add: p)
  then have "case rectangle (div_up dense per_core) grid_x grid_y of (w, h) \<Rightarrow> 0 < w \<and> w \<le> grid_x \<and> 0 < h \<and> h \<le> grid_y \<and> div_up dense per_core \<le> w * h"
    by (intro rectangle_ok grid s(1) le_trans [OF s(2) limit(3)] le_less_trans [OF le_trans [OF s(2) limit(2)]]) simp
  then have r: "0 < w" "w \<le> grid_x" "0 < h" "h \<le> grid_y" "div_up dense per_core \<le> w * h"
    using wh by (simp_all add: shares)
  then show "0 < w" "w \<le> grid_x" "0 < h" "h \<le> grid_y" by simp_all
  have "dense \<le> div_up dense per_core * per_core" by (rule div_up_mult_ge [OF up])
  also have "\<dots> \<le> w * h * per_core" by (rule mult_le_mono1 [OF r(5)])
  finally show "dense \<le> per_core * (w * h)" by (simp add: mult.commute)
qed

lemma plan_fields:
  assumes v: "validate_quantize q t = Inr ()" and fits: "quantize_fits t grid noc_of"
    and p: "p = plan_of t grid noc_of" and g: "adjacent_grid grid noc_of = (grid_x, grid_y)"
  shows "plan_good p" "qp_rows p = dim_back (qt_logical t) 2" "32 * qp_tiles p = dim_back (qt_padded t) 1"
    "qp_width p \<le> grid_x" "qp_height p \<le> grid_y"
    "qp_dense p \<le> div_up (qp_dense p) (core_limit (qp_stride p) (qp_dense p) grid_x grid_y) * (qp_width p * qp_height p)"
proof -
  note val = validated_quantize [OF v]
  let ?rows = "dim_back (qt_logical t) 2" and ?tiles = "dim_back (qt_padded t) 1 div 32"
  have rows: "?rows \<le> 32" using fits val(2) by (simp add: quantize_fits_def)
  have tiles: "0 < ?tiles" "?tiles < 2 ^ 27" "32 * ?tiles = dim_back (qt_padded t) 1"
    using fits val(3) by (auto simp: quantize_fits_def div_greater_zero_iff less_mult_imp_div_less)
  let ?stride = "stride_of ?rows" and ?pack = "32 div stride_of ?rows"
  have stride: "?stride \<in> {4, 8, 16, 32}" "?rows \<le> ?stride" using rows by (simp_all add: stride_of_def)
  then have pack: "0 < ?pack" "?pack \<le> 8" by auto
  have up: "ceil_div ?tiles ?pack = div_up ?tiles ?pack" by (rule ceil_div_up) (use tiles pack in simp)
  have dense: "0 < div_up ?tiles ?pack" "div_up ?tiles ?pack < 2 ^ 27"
    using tiles pack div_up_le [OF pack(1), of ?tiles] by simp_all
  have grid: "0 < grid_x" "grid_x < 2 ^ 8" "0 < grid_y" "grid_y < 2 ^ 8" using adjacent_grid_bound [OF fits] by (simp_all add: g)
  define per_core where "per_core = ceil_div (div_up ?tiles ?pack) (max 1 (min (div_up ?tiles ?pack) (min (if ?stride \<le> 8 then 48 else 32) (w32 (grid_x * grid_y)))))"
  obtain w h where wh: "rectangle (ceil_div (div_up ?tiles ?pack) per_core) grid_x grid_y = (w, h)" by fastforce
  have p': "p = \<lparr>qp_rows = ?rows, qp_tiles = ?tiles, qp_stride = ?stride, qp_pack = ?pack, qp_dense = div_up ?tiles ?pack, qp_width = w, qp_height = h\<rparr>"
    unfolding p plan_of_def g prod.case quantize_rows_plan_def Let_def up per_core_def [symmetric] wh by (rule refl)
  note r = plan_rectangle [OF dense grid per_core_def wh]
  show "plan_good p" unfolding plan_good_def p' using stride val(1) tiles r(1-4) grid by simp
  show "qp_rows p = ?rows" "32 * qp_tiles p = dim_back (qt_padded t) 1" "qp_width p \<le> grid_x" "qp_height p \<le> grid_y"
    using tiles(3) r(2,4) by (simp_all add: p')
  show "qp_dense p \<le> div_up (qp_dense p) (core_limit (qp_stride p) (qp_dense p) grid_x grid_y) * (qp_width p * qp_height p)"
    using r(5,6) by (simp add: p')
qed

section \<open>The shares\<close>

text \<open>A good plan keeps everything within \<open>uint32_t\<close>.\<close>

lemma plan_cores:
  assumes "plan_good p"
  shows "quantize_cores p = qp_width p * qp_height p" "0 < quantize_cores p" "quantize_cores p < 65536"
proof -
  have "qp_width p * qp_height p < 2 ^ 8 * 2 ^ 8" using assms by (intro mult_strict_mono) (simp_all add: plan_good_def)
  then have "qp_width p * qp_height p < 65536" by simp
  moreover from this have "quantize_cores p = qp_width p * qp_height p" unfolding quantize_cores_def by (intro w32_id) simp
  ultimately show "quantize_cores p = qp_width p * qp_height p" "0 < quantize_cores p" "quantize_cores p < 65536"
    using assms by (simp_all add: plan_good_def)
qed

lemma plan_dense:
  assumes "plan_good p"
  shows "0 < qp_dense p" "qp_dense p < 134217728" "D < qp_dense p \<longleftrightarrow> D * qp_pack p < qp_tiles p" "0 < qp_pack p" "qp_pack p \<le> 8"
    "qp_pack p * qp_stride p = 32"
proof -
  have pack: "0 < qp_pack p" "qp_pack p \<le> 8" "qp_pack p * qp_stride p = 32" using assms by (auto simp: plan_good_def)
  then show "0 < qp_pack p" "qp_pack p \<le> 8" "qp_pack p * qp_stride p = 32" by simp_all
  show "0 < qp_dense p" using assms pack by (simp add: plan_good_def)
  show "qp_dense p < 134217728" using assms div_up_le [OF pack(1), of "qp_tiles p"] by (simp add: plan_good_def)
  show "D < qp_dense p \<longleftrightarrow> D * qp_pack p < qp_tiles p" using assms less_div_up_iff [OF pack(1), of D "qp_tiles p"] by (simp add: plan_good_def)
qed

text \<open>Core \<open>i\<close>'s dense tiles start where those of core \<open>i - 1\<close> end.\<close>

definition share_start :: "quantize_plan \<Rightarrow> nat \<Rightarrow> nat" where
  "share_start p i = i * (qp_dense p div quantize_cores p) + min i (qp_dense p mod quantize_cores p)"

lemma share_start_Suc:
  "share_start p (Suc i) = share_start p i + (qp_dense p div quantize_cores p + (if i < qp_dense p mod quantize_cores p then 1 else 0))"
  by (simp add: share_start_def)

lemma share_start_end:
  assumes "plan_good p"
  shows "share_start p 0 = 0" "share_start p (quantize_cores p) = qp_dense p"
proof -
  have "qp_dense p mod quantize_cores p < quantize_cores p" using plan_cores(2) [OF assms] by simp
  then show "share_start p (quantize_cores p) = qp_dense p" by (simp add: share_start_def min_def)
qed (simp add: share_start_def)

lemma share_start_mono: "i \<le> j \<Longrightarrow> share_start p i \<le> share_start p j"
  unfolding share_start_def by (intro add_mono mult_le_mono1 min.mono order_refl)

text \<open>The tiles of the row in a dense tile.\<close>

definition tile_count :: "quantize_plan \<Rightarrow> nat \<Rightarrow> nat" where
  "tile_count p D = min (qp_pack p) (qp_tiles p - D * qp_pack p)"

lemma share_fields:
  assumes good: "plan_good p" and i: "i < quantize_cores p"
  shows "qs_first_dense (share_of p noc_of i) = share_start p i"
    "share_start p i + qs_num_dense (share_of p noc_of i) = share_start p (Suc i)"
    "qs_num_dense (share_of p noc_of i) \<le> max_dense p"
    "0 < qs_num_dense (share_of p noc_of i) \<Longrightarrow> qs_last_count (share_of p noc_of i) = tile_count p (share_start p (Suc i) - 1)"
proof -
  let ?s = "share_of p noc_of i"
  have le: "share_start p i \<le> qp_dense p" "share_start p (Suc i) \<le> qp_dense p"
    using share_start_mono [of i "quantize_cores p" p] share_start_mono [of "Suc i" "quantize_cores p" p] i share_start_end(2) [OF good] by simp_all
  have "w32 (share_start p i) = share_start p i" using le plan_dense(2) [OF good] by (intro w32_id) simp
  then show first: "qs_first_dense ?s = share_start p i" by (simp add: share_of_def Let_def share_start_def)
  show num: "share_start p i + qs_num_dense ?s = share_start p (Suc i)" unfolding share_start_Suc by (simp add: share_of_def Let_def)
  show "qs_num_dense ?s \<le> max_dense p" by (auto simp: share_of_def Let_def max_dense_def)
  assume pos: "0 < qs_num_dense ?s"
  let ?D = "share_start p (Suc i) - 1"
  have D: "?D < qp_dense p" using pos num le(2) by simp
  note dense = plan_dense [OF good]
  have "?D * qp_pack p \<le> 134217728 * 8" using D dense(2,5) by (intro mult_le_mono) simp_all
  then have small: "?D * qp_pack p < 4294967296" by simp
  have "w32 (share_start p i + qs_num_dense ?s + 2 ^ 32 - 1) = w32 (?D + 2 ^ 32)" using pos num by (simp add: algebra_simps)
  also have "\<dots> = ?D" using D dense(2) by (simp add: w32_def)
  finally have last_dense: "w32 (share_start p i + qs_num_dense ?s + 2 ^ 32 - 1) = ?D" .
  have "w32 (?D * qp_pack p) = ?D * qp_pack p" using small by (intro w32_id) simp
  note at = this
  have "?D * qp_pack p < qp_tiles p" using D dense(3) by blast
  then have "qp_tiles p + 2 ^ 32 - ?D * qp_pack p = (qp_tiles p - ?D * qp_pack p) + 2 ^ 32" by simp
  moreover have "w32 (x + 2 ^ 32) = x" if "x < 134217728" for x using that by (simp add: w32_def)
  moreover have "qp_tiles p - ?D * qp_pack p < 134217728" using good by (simp add: plan_good_def less_imp_diff_less)
  ultimately have left: "w32 (qp_tiles p + 2 ^ 32 - ?D * qp_pack p) = qp_tiles p - ?D * qp_pack p" by (simp only:)
  have "qs_last_count ?s = min (qp_pack p) (w32 (qp_tiles p + 2 ^ 32 - w32 (w32 (qs_first_dense ?s + qs_num_dense ?s + 2 ^ 32 - 1) * qp_pack p)))"
    by (simp add: share_of_def Let_def)
  also have "\<dots> = tile_count p ?D" unfolding first last_dense at left tile_count_def ..
  finally show "qs_last_count ?s = tile_count p ?D" .
qed

text \<open>Every dense tile is on exactly the core whose share it is in.\<close>

lemma share_of_dense:
  assumes "plan_good p" "D < qp_dense p"
  shows "\<exists>i < quantize_cores p. share_start p i \<le> D \<and> D < share_start p (Suc i)"
proof -
  have "\<exists>i < n. share_start p i \<le> D \<and> D < share_start p (Suc i)" if "D < share_start p n" for n
    using that
  proof (induction n)
    case (Suc n)
    show ?case
    proof (cases "D < share_start p n")
      case True
      then show ?thesis using Suc.IH less_SucI by blast
    next
      case False
      then show ?thesis using Suc.prems not_less lessI by blast
    qed
  qed (simp add: share_start_end(1) [OF assms(1)])
  with share_start_end(2) [OF assms(1)] assms(2) show ?thesis by metis
qed

lemma full_count:
  assumes "plan_good p" "Suc D < qp_dense p"
  shows "tile_count p D = qp_pack p"
proof -
  have "Suc D * qp_pack p < qp_tiles p" using assms plan_dense(3) by blast
  then show ?thesis by (simp add: tile_count_def)
qed

text \<open>The gather buffer holds every core's slot, and no more tiles than it takes.\<close>

lemma gather_tiles_count:
  assumes "plan_good p"
  shows "slot_bytes p = qp_stride p * 64" "gather_tiles p = div_up (quantize_cores p * (qp_stride p div 4)) 16"
proof -
  have stride: "qp_stride p \<in> {4, 8, 16, 32}" using assms by (simp add: plan_good_def)
  then show slot: "slot_bytes p = qp_stride p * 64" by (auto simp: slot_bytes_def w32_def)
  have "quantize_cores p * (qp_stride p * 64) < 65536 * (32 * 64 + 1)"
    using plan_cores(3) [OF assms] stride by (intro mult_less_le_imp_less) auto
  then have "w32 (quantize_cores p * slot_bytes p + 4095) = quantize_cores p * slot_bytes p + 4095" unfolding slot by (intro w32_id) simp
  moreover have "quantize_cores p * slot_bytes p + 4095 = 256 * (quantize_cores p * (qp_stride p div 4) + 15) + 255" unfolding slot using stride by auto
  moreover have "(256 * n + 255) div 4096 = n div 16" for n :: nat
    using div_mult2_eq [of "256 * n + 255" 256 16] by simp
  ultimately have "gather_tiles p = (quantize_cores p * (qp_stride p div 4) + 15) div 16" by (simp only: gather_tiles_def)
  then show "gather_tiles p = div_up (quantize_cores p * (qp_stride p div 4)) 16" by (simp add: div_up_def)
qed

end
