(* ===== verification/QuantizeRows.thy ===== *)
theory QuantizeRows
  imports QuantizeTiles QuantizePlan DataflowBuffer DramPages
begin

text \<open>
  The kernels of quantize_rows on one core (\<open>quantize_rows/device/kernels\<close>): the reader packs the
  data rows of the core's tiles into dense tiles and hands the core's row maxima to the exchange,
  the compute kernel makes the maxima, the divisor and the codes, the writer puts the codes back to
  the tiles they came from. Offsets into a tile are counted in elements: \<open>row_bytes\<close> and
  \<open>face_bytes\<close> of the sources are 16 and 256 elements. What the exchange brings is an argument here.
\<close>

section \<open>Arguments and memories\<close>

record quant_args =
  qa_stride :: nat
  qa_rows :: nat
  qa_pack :: nat
  qa_cores :: nat
  qa_gather_tiles :: nat
  qa_e5m2 :: bool
  qa_fp8_max :: u32
  qa_min_scale :: u32
  qa_first_dense :: nat
  qa_num_dense :: nat
  qa_last_count :: nat
  qa_writes_scale :: bool

text \<open>The pages of the input, what the buffers and Dst held before, and what the exchange brings.\<close>

record quant_memory =
  qm_input :: "nat \<Rightarrow> tile_words"
  qm_stale :: "nat \<Rightarrow> tile_words"
  qm_acquired :: "nat \<Rightarrow> dst_mem"
  qm_received :: "nat \<Rightarrow> tile_words"

datatype quant_dfb = QIn | QPart | QGather | QOut | QScale

record quant_store =
  qs_dst :: dst_mem
  qs_part :: tile_words
  qs_puts :: "put list"
  qs_scale :: "tile_words list"

type_synonym quant_instr = "(quant_dfb, tile_words, quant_store) dfb_instr"

section \<open>The reader\<close>

definition face_rows :: nat where "face_rows = 16"
definition face_elems :: nat where "face_elems = 256"

definition copy_piece :: "nat \<Rightarrow> nat \<Rightarrow> nat \<Rightarrow> tile_words \<Rightarrow> tile_words \<Rightarrow> tile_words" where
  "copy_piece at off n from p i = (if at \<le> i \<and> i < at + n then from (off + (i - at)) else p i)"

definition dense_count :: "quant_args \<Rightarrow> nat \<Rightarrow> nat" where
  "dense_count a d = (if d + 1 = qa_num_dense a then qa_last_count a else qa_pack a)"

definition dense_page :: "quant_args \<Rightarrow> nat \<Rightarrow> nat \<Rightarrow> nat" where
  "dense_page a d jj = w32 ((qa_first_dense a + d) * qa_pack a + jj)"

text \<open>Where tile \<open>jj\<close> of a dense tile has its rows: the start of its run in the left face.\<close>

definition dense_at :: "quant_args \<Rightarrow> nat \<Rightarrow> nat" where
  "dense_at a jj = (let r0 = jj * qa_stride a; face = (if r0 < face_rows then 0 else 2) in face * face_elems + r0 mod face_rows * 16)"

definition read_piece :: "quant_args \<Rightarrow> quant_memory \<Rightarrow> nat \<Rightarrow> nat \<Rightarrow> tile_words \<Rightarrow> tile_words" where
  "read_piece a m d jj p =
     (let page = qm_input m (dense_page a d jj)
      in if qa_pack a = 1 then copy_piece 0 0 (4 * face_elems) page p
         else fold (\<lambda>f. copy_piece (dense_at a jj + f * face_elems) (f * face_elems) (qa_stride a * 16) page) [0..<2] p)"

definition dense_tile :: "quant_args \<Rightarrow> quant_memory \<Rightarrow> nat \<Rightarrow> tile_words" where
  "dense_tile a m d = fold (read_piece a m d) [0..<dense_count a d] (qm_stale m d)"

definition take_part :: "tile_words \<Rightarrow> quant_store \<Rightarrow> quant_store" where
  "take_part p s = s\<lparr>qs_part := p\<rparr>"

definition quant_reader_main :: "quant_args \<Rightarrow> quant_memory \<Rightarrow> quant_instr list" where
  "quant_reader_main a m =
     Reserve QIn (qa_num_dense a) # fills QIn 0 (map (dense_tile a m) [0..<qa_num_dense a]) @
     [Push QIn (qa_num_dense a), Reserve QGather (qa_gather_tiles a), Await QPart 1, Take QPart 0 take_part, Pop QPart 1] @
     fills QGather 0 (map (qm_received m) [0..<qa_gather_tiles a]) @ [Push QGather (qa_gather_tiles a)]"

section \<open>The compute kernel\<close>

definition on_dest :: "(dst_mem \<Rightarrow> dst_mem) \<Rightarrow> quant_store \<Rightarrow> quant_store" where
  "on_dest f s = s\<lparr>qs_dst := f (qs_dst s)\<rparr>"

definition acc_tile :: nat where "acc_tile = 0"
definition x_tile :: nat where "x_tile = 1"
definition divisor_tile :: nat where "divisor_tile = 0"
definition gathered_tile :: nat where "gathered_tile = 1"
definition max_tile :: nat where "max_tile = 2"
definition codes_dst :: nat where "codes_dst = 1"

lemmas tile_indices = acc_tile_def x_tile_def divisor_tile_def gathered_tile_def max_tile_def codes_dst_def

definition groups_of :: "quant_args \<Rightarrow> nat" where
  "groups_of a = qa_stride a div 4"

definition bands_of :: "quant_args \<Rightarrow> nat \<Rightarrow> nat" where
  "bands_of a i = dense_count a i * qa_stride a div 4"

definition total_bands :: "quant_args \<Rightarrow> nat" where
  "total_bands a = w32 (qa_cores a * groups_of a)"

definition absmax_step :: "quant_env \<Rightarrow> quant_args \<Rightarrow> nat \<Rightarrow> quant_instr list" where
  "absmax_step e a i =
     [Take QIn i (\<lambda>p. on_dest (load_tile e p x_tile)), Do (on_dest (fold_absmax e (groups_of a) x_tile acc_tile (bands_of a i)))]"

definition maxima_phase :: "quant_env \<Rightarrow> quant_args \<Rightarrow> quant_memory \<Rightarrow> quant_instr list" where
  "maxima_phase e a m =
     [Do (on_dest (\<lambda>_. qm_acquired m 0)), Do (on_dest (zero_acc (groups_of a) acc_tile))] @
     concat (map (absmax_step e a) [0..<qa_num_dense a]) @
     [Do (on_dest (finish_partial e (groups_of a) acc_tile)),
      Reserve QPart 1, Fill QPart 0 (\<lambda>s. pack_tile acc_tile (qs_dst s)), Push QPart 1]"

text \<open>The starts of the chunks, and the tiles of one.\<close>

function chunk_starts :: "nat \<Rightarrow> nat \<Rightarrow> nat list" where
  "chunk_starts first num = (if first < num then first # chunk_starts (first + chunk_tiles) num else [])"
  by pat_completeness auto
termination by (relation "measure (\<lambda>(first, num). num - first)") (auto simp: chunk_tiles_def)

declare chunk_starts.simps [simp del]

definition chunk_len :: "quant_args \<Rightarrow> nat \<Rightarrow> nat" where
  "chunk_len a first = (if qa_num_dense a - first < chunk_tiles then qa_num_dense a - first else chunk_tiles)"

definition gather_step :: "quant_env \<Rightarrow> quant_args \<Rightarrow> nat \<Rightarrow> quant_instr list" where
  "gather_step e a i =
     [Take QGather i (\<lambda>p. on_dest (copy_tile p gathered_tile)),
      Do (on_dest (divisor_step e (groups_of a) divisor_tile gathered_tile (total_bands a) i))]"

definition code_tile :: "quant_env \<Rightarrow> nat \<Rightarrow> dst_mem \<Rightarrow> tile_words" where
  "code_tile e t d i = ucast (qe_pack8 e (pack_tile t d i))"

definition divisor_phase :: "quant_env \<Rightarrow> quant_args \<Rightarrow> quant_memory \<Rightarrow> nat \<Rightarrow> quant_instr list" where
  "divisor_phase e a m first =
     [Do (on_dest (\<lambda>_. qm_acquired m (Suc first))), Do (on_dest (zero_acc (groups_of a) divisor_tile))] @
     concat (map (gather_step e a) [0..<qa_gather_tiles a]) @
     [Do (on_dest (divide_gathered e (groups_of a) divisor_tile gathered_tile max_tile (qa_fp8_max a) (qa_min_scale a)))]"

definition codes_phase :: "quant_env \<Rightarrow> quant_args \<Rightarrow> nat \<Rightarrow> quant_instr list" where
  "codes_phase e a first =
     map (\<lambda>j. Take QIn (first + j) (\<lambda>p. on_dest (load_tile e p (codes_dst + j)))) [0..<chunk_len a first] @
     [Do (on_dest (quantize_loaded e (qa_e5m2 a) divisor_tile codes_dst 32 (qa_rows a) (chunk_len a first)))]"

definition pack_phase :: "quant_env \<Rightarrow> quant_args \<Rightarrow> nat \<Rightarrow> quant_instr list" where
  "pack_phase e a first =
     (if first = 0 \<and> qa_writes_scale a
      then [Reserve QScale 1, Fill QScale 0 (\<lambda>s. pack_tile divisor_tile (qs_dst s)), Push QScale 1] else []) @
     Reserve QOut (chunk_len a first) #
     map (\<lambda>j. Fill QOut j (\<lambda>s. code_tile e (codes_dst + j) (qs_dst s))) [0..<chunk_len a first] @
     [Push QOut (chunk_len a first)]"

definition compute_chunk :: "quant_env \<Rightarrow> quant_args \<Rightarrow> quant_memory \<Rightarrow> nat \<Rightarrow> quant_instr list" where
  "compute_chunk e a m first = divisor_phase e a m first @ codes_phase e a first @ pack_phase e a first"

definition quant_compute_main :: "quant_env \<Rightarrow> quant_args \<Rightarrow> quant_memory \<Rightarrow> quant_instr list" where
  "quant_compute_main e a m =
     Await QIn (qa_num_dense a) # maxima_phase e a m @ Await QGather (qa_gather_tiles a) #
     concat (map (compute_chunk e a m) (chunk_starts 0 (qa_num_dense a))) @
     [Pop QGather (qa_gather_tiles a), Pop QIn (qa_num_dense a)]"

section \<open>The writer\<close>

text \<open>A piece of a dense tile of codes: bytes, from an element on.\<close>

definition code_bytes :: "tile_words \<Rightarrow> nat \<Rightarrow> nat \<Rightarrow> u8 list" where
  "code_bytes p at n = map (\<lambda>i. ucast (p (at + i))) [0..<n]"

definition write_pieces :: "quant_args \<Rightarrow> nat \<Rightarrow> nat \<Rightarrow> tile_words \<Rightarrow> put list" where
  "write_pieces a d jj p =
     (let page = dense_page a d jj
      in if qa_pack a = 1 then [(page, 0, code_bytes p 0 (4 * face_elems))]
         else map (\<lambda>f. (page, f * face_elems, code_bytes p (dense_at a jj + f * face_elems) (qa_stride a * 16))) [0..<2])"

definition write_dense :: "quant_args \<Rightarrow> nat \<Rightarrow> tile_words \<Rightarrow> quant_store \<Rightarrow> quant_store" where
  "write_dense a d p s = s\<lparr>qs_puts := qs_puts s @ concat (map (\<lambda>jj. write_pieces a d jj p) [0..<dense_count a d])\<rparr>"

definition write_chunk :: "quant_args \<Rightarrow> nat \<Rightarrow> quant_instr list" where
  "write_chunk a first =
     Await QOut (chunk_len a first) # map (\<lambda>j. Take QOut j (write_dense a (first + j))) [0..<chunk_len a first] @
     [Pop QOut (chunk_len a first)]"

definition write_scale :: "tile_words \<Rightarrow> quant_store \<Rightarrow> quant_store" where
  "write_scale p s = s\<lparr>qs_scale := qs_scale s @ [p]\<rparr>"

definition quant_writer_main :: "quant_args \<Rightarrow> quant_instr list" where
  "quant_writer_main a =
     concat (map (write_chunk a) (chunk_starts 0 (qa_num_dense a))) @
     (if qa_writes_scale a then [Await QScale 1, Take QScale 0 write_scale, Pop QScale 1] else [])"

definition quant_progs :: "quant_env \<Rightarrow> quant_args \<Rightarrow> quant_memory \<Rightarrow> nat \<Rightarrow> quant_instr list" where
  "quant_progs e a m k =
     (if k = 0 then quant_reader_main a m else if k = 1 then quant_compute_main e a m else if k = 2 then quant_writer_main a else [])"

text \<open>The entries of the buffers, and a core's kernels at their start.\<close>

fun quant_entries :: "nat \<Rightarrow> nat \<Rightarrow> quant_dfb \<Rightarrow> nat" where
  "quant_entries dense gather QIn = dense"
| "quant_entries dense gather QPart = 1"
| "quant_entries dense gather QGather = gather"
| "quant_entries dense gather QOut = 2 * chunk_tiles"
| "quant_entries dense gather QScale = 1"

definition store_empty :: quant_store where
  "store_empty = \<lparr>qs_dst = (\<lambda>_ _. 0), qs_part = (\<lambda>_. 0), qs_puts = [], qs_scale = []\<rparr>"

definition quant_start :: "quant_env \<Rightarrow> quant_args \<Rightarrow> quant_memory \<Rightarrow> (quant_dfb, tile_words, quant_store) net" where
  "quant_start e a m = net_start (quant_progs e a m) (\<lambda>_. store_empty)"

end
