(* ===== verification/QuantizeRun.thy ===== *)
theory QuantizeRun
  imports QuantizeRows
begin

text \<open>
  Runs of the kernels of quantize_rows on a core: one complete schedule, in which the reader loads
  the dense tiles, the compute kernel makes the maxima, the reader brings what the other cores sent
  and the codes pass chunk by chunk to the writer. As the buffers have one producer and one consumer,
  every run ends so: with the core's maxima, its codes' writes and, on the first core, the scales.
\<close>

section \<open>Instructions in groups\<close>

lemma exec_fill_each:
  assumes "dfb_at N r d q xs [] k h" "n \<le> k" "(q + length xs) mod N d + k \<le> N d"
  shows "\<exists>r'. exec_list N (map (\<lambda>j. Fill d j (f j)) [0..<n]) (r, l) = Some (r', l) \<and>
    dfb_at N r' d q xs (map (\<lambda>j. f j l) [0..<n]) k h \<and> only_ring d r r'"
  using assms(2)
proof (induction n)
  case 0
  then show ?case using assms(1) by simp
next
  case (Suc n)
  then obtain r1 where r1: "exec_list N (map (\<lambda>j. Fill d j (f j)) [0..<n]) (r, l) = Some (r1, l)"
      "dfb_at N r1 d q xs (map (\<lambda>j. f j l) [0..<n]) k h" "only_ring d r r1" by auto
  have "n < k" "(q + length xs) mod N d + n < N d" using Suc.prems assms(3) by simp_all
  from exec_fill [where f = "f n" and l = l and i = n, OF r1(2) _ this] obtain r2 where
    r2: "exec N (Fill d n (f n)) (r1, l) = Some (r2, l)" "dfb_at N r2 d q xs (map (\<lambda>j. f j l) [0..<n] @ [f n l]) k h" "only_ring d r1 r2"
    by auto
  then show ?case using r1(1) only_ring_trans [OF r1(3) r2(3)] by (auto simp: exec_list_append)
qed

lemma exec_list_seq: "exec_list N xs rl = Some rl' \<Longrightarrow> exec_list N (xs @ ys) rl = exec_list N ys rl'"
  by (simp add: exec_list_append)

lemma exec_take_each:
  assumes "dfb_at N r d q xs vs k h" "i + n \<le> h" "h \<le> length xs" "q mod N d + h \<le> N d"
  shows "exec_list N (map (\<lambda>j. Take d (i + j) (g j)) [0..<n]) (r, l) = Some (r, fold (\<lambda>j. g j (xs ! (i + j))) [0..<n] l)"
  using assms(2)
proof (induction n)
  case (Suc n)
  let ?l = "fold (\<lambda>j. g j (xs ! (i + j))) [0..<n] l"
  have "exec N (Take d (i + n) (g n)) (r, ?l) = Some (r, g n (xs ! (i + n)) ?l)"
    by (rule exec_take [OF assms(1)]) (use Suc.prems assms(3,4) in linarith)+
  then show ?case using Suc by (simp add: exec_list_append)
qed simp

lemma exec_take_do:
  assumes "dfb_at N r d q xs vs k h" "n \<le> h" "h \<le> length xs" "q mod N d + h \<le> N d"
  shows "exec_list N (concat (map (\<lambda>i. [Take d i (g i), Do (w i)]) [0..<n])) (r, l) = Some (r, fold (\<lambda>i l. w i (g i (xs ! i) l)) [0..<n] l)"
  using assms(2)
proof (induction n)
  case (Suc n)
  let ?l = "fold (\<lambda>i l. w i (g i (xs ! i) l)) [0..<n] l"
  have "exec N (Take d n (g n)) (r, ?l) = Some (r, g n (xs ! n) ?l)"
    by (rule exec_take [OF assms(1)]) (use Suc.prems assms(3,4) in linarith)+
  then show ?case using Suc by (simp add: exec_list_append)
qed simp

text \<open>One entry, or a group, put into a buffer that is empty.\<close>

lemma exec_produce:
  assumes "dfb_at N r d q [] [] 0 0" "n \<le> N d" "q mod N d + n \<le> N d"
  shows "\<exists>r'. exec_list N (Reserve d n # map (\<lambda>j. Fill d j (f j)) [0..<n] @ [Push d n]) (r, l) = Some (r', l) \<and>
    dfb_at N r' d q (map (\<lambda>j. f j l) [0..<n]) [] 0 0 \<and> only_ring d r r'"
proof -
  from exec_reserve [OF assms(1), of n l] assms(2) obtain r1 where
    r1: "exec N (Reserve d n) (r, l) = Some (r1, l)" "dfb_at N r1 d q [] [] n 0" "only_ring d r r1" by auto
  from exec_fill_each [where f = f and l = l, OF r1(2) order_refl] assms(3) obtain r2 where
    r2: "exec_list N (map (\<lambda>j. Fill d j (f j)) [0..<n]) (r1, l) = Some (r2, l)" "dfb_at N r2 d q [] (map (\<lambda>j. f j l) [0..<n]) n 0" "only_ring d r1 r2"
    by auto
  from exec_push [OF r2(2) refl, of l] obtain r3 where
    r3: "exec N (Push d n) (r2, l) = Some (r3, l)" "dfb_at N r3 d q (map (\<lambda>j. f j l) [0..<n]) [] 0 0" "only_ring d r2 r3" by auto
  have "only_ring d r r3" by (rule only_ring_trans [OF r1(3) only_ring_trans [OF r2(3) r3(3)]])
  then show ?thesis by (intro exI [of _ r3]) (simp add: exec_list_append r1(1) r2(1) r3(1,2))
qed

lemma exec_consume:
  assumes "dfb_at N r d q xs [] 0 0" "q mod N d + length xs \<le> N d" "n = length xs"
  shows "\<exists>r'. exec_list N (Await d n # map (\<lambda>j. Take d j (g j)) [0..<n] @ [Pop d n]) (r, l) =
      Some (r', fold (\<lambda>j. g j (xs ! j)) [0..<n] l) \<and> dfb_at N r' d (q + n) [] [] 0 0 \<and> only_ring d r r'"
proof -
  let ?l = "fold (\<lambda>j. g j (xs ! j)) [0..<n] l"
  from exec_await [OF assms(1), of n l] assms(3) obtain r1 where
    r1: "exec N (Await d n) (r, l) = Some (r1, l)" "dfb_at N r1 d q xs [] 0 n" "only_ring d r r1" by auto
  have t: "exec_list N (map (\<lambda>j. Take d j (g j)) [0..<n]) (r1, l) = Some (r1, ?l)"
    using exec_take_each [OF r1(2), of 0 n g l] assms(2,3) by simp
  from exec_pop [OF r1(2), of n ?l] assms(3) obtain r2 where
    r2: "exec N (Pop d n) (r1, ?l) = Some (r2, ?l)" "dfb_at N r2 d (q + n) [] [] 0 0" "only_ring d r1 r2" by auto
  have "only_ring d r r2" by (rule only_ring_trans [OF r1(3) r2(3)])
  then show ?thesis by (intro exI [of _ r2]) (simp add: exec_list_append r1(1) t r2(1,2))
qed

lemma on_dest_simps [simp]:
  "qs_dst (on_dest f s) = f (qs_dst s)" "qs_part (on_dest f s) = qs_part s" "qs_puts (on_dest f s) = qs_puts s"
  "qs_scale (on_dest f s) = qs_scale s" "on_dest f (on_dest g s) = on_dest (\<lambda>d. f (g d)) s"
  by (simp_all add: on_dest_def)

lemma on_dest_fold: "fold (\<lambda>i. on_dest (f i)) xs s = on_dest (fold f xs) s"
  by (induction xs arbitrary: s) (simp_all add: on_dest_def)

section \<open>What the kernels compute\<close>

definition loaded_tile :: "quant_env \<Rightarrow> quant_args \<Rightarrow> quant_memory \<Rightarrow> nat \<Rightarrow> tile_words" where
  "loaded_tile e a m d i = qe_unpack e (dense_tile a m d i)"

definition part_of :: "quant_env \<Rightarrow> quant_args \<Rightarrow> quant_memory \<Rightarrow> tile_words" where
  "part_of e a m = pack_tile 0 (finish_partial e (groups_of a) 0
     (absmax_tiles e (groups_of a) 1 0 (loaded_tile e a m) (bands_of a) (qa_num_dense a) (zero_acc (groups_of a) 0 (qm_acquired m 0))))"

definition divisor_of :: "quant_env \<Rightarrow> quant_args \<Rightarrow> quant_memory \<Rightarrow> nat \<Rightarrow> dst_mem" where
  "divisor_of e a m first = make_divisor e (groups_of a) 0 1 2 (qm_received m) (qa_gather_tiles a) (total_bands a)
     (qa_fp8_max a) (qa_min_scale a) (qm_acquired m (Suc first))"

definition chunk_dest :: "quant_env \<Rightarrow> quant_args \<Rightarrow> quant_memory \<Rightarrow> nat \<Rightarrow> dst_mem" where
  "chunk_dest e a m first = quantize_tiles e (qa_e5m2 a) 0 1 32 (qa_rows a) (dense_tile a m) first (chunk_len a first) (divisor_of e a m first)"

definition codes_of :: "quant_env \<Rightarrow> quant_args \<Rightarrow> quant_memory \<Rightarrow> nat \<Rightarrow> tile_words" where
  "codes_of e a m d = code_tile e (1 + d mod 3) (chunk_dest e a m (d - d mod 3))"

definition dense_puts :: "quant_env \<Rightarrow> quant_args \<Rightarrow> quant_memory \<Rightarrow> nat \<Rightarrow> put list" where
  "dense_puts e a m d = concat (map (\<lambda>jj. write_pieces a d jj (codes_of e a m d)) [0..<dense_count a d])"

section \<open>The phases\<close>

lemma exec_maxima:
  assumes "dfb_at N r QIn 0 (map (dense_tile a m) [0..<qa_num_dense a]) [] 0 (qa_num_dense a)" "qa_num_dense a \<le> N QIn"
    and "dfb_at N r QPart 0 [] [] 0 0" "N QPart = 1"
  shows "\<exists>r' s'. exec_list N (maxima_phase e a m) (r, s) = Some (r', s') \<and> dfb_at N r' QPart 0 [part_of e a m] [] 0 0 \<and> only_ring QPart r r' \<and>
    qs_puts s' = qs_puts s \<and> qs_scale s' = qs_scale s"
proof -
  let ?n = "qa_num_dense a" and ?z = "\<lambda>d. zero_acc (groups_of a) acc_tile (qm_acquired m 0)"
  let ?f = "\<lambda>i d. fold_absmax e (groups_of a) x_tile acc_tile (bands_of a i) (load_tile e (dense_tile a m i) x_tile d)"
  let ?s1 = "on_dest ?z s"
  have c: "concat (map (absmax_step e a) [0..<?n]) = concat (map (\<lambda>i. [Take QIn i (\<lambda>p. on_dest (load_tile e p x_tile)),
      Do (on_dest (fold_absmax e (groups_of a) x_tile acc_tile (bands_of a i)))]) [0..<?n])" by (simp only: absmax_step_def [abs_def])
  have "fold (\<lambda>i l. on_dest (fold_absmax e (groups_of a) x_tile acc_tile (bands_of a i)) (on_dest (load_tile e (map (dense_tile a m) [0..<?n] ! i) x_tile) l)) [0..<?n] ?s1 =
      fold (\<lambda>i. on_dest (?f i)) [0..<?n] ?s1"
    by (rule fold_cong) simp_all
  with exec_take_do [OF assms(1), of ?n "\<lambda>_ p. on_dest (load_tile e p x_tile)" "\<lambda>i. on_dest (fold_absmax e (groups_of a) x_tile acc_tile (bands_of a i))" ?s1] assms(2)
  have loop: "exec_list N (concat (map (absmax_step e a) [0..<?n])) (r, ?s1) = Some (r, on_dest (fold ?f [0..<?n]) ?s1)"
    by (simp add: c on_dest_fold)
  let ?s2 = "on_dest (finish_partial e (groups_of a) acc_tile) (on_dest (fold ?f [0..<?n]) ?s1)"
  from exec_produce [OF assms(3), of 1 "\<lambda>_ s. pack_tile acc_tile (qs_dst s)" ?s2] assms(4) obtain r' where
    r': "exec_list N [Reserve QPart 1, Fill QPart 0 (\<lambda>s. pack_tile acc_tile (qs_dst s)), Push QPart 1] (r, ?s2) = Some (r', ?s2)"
      "dfb_at N r' QPart 0 [pack_tile acc_tile (qs_dst ?s2)] [] 0 0" "only_ring QPart r r'" by auto
  have p: "pack_tile acc_tile (qs_dst ?s2) = part_of e a m"
    by (simp add: part_of_def absmax_tiles_def load_tile_def tile_indices loaded_tile_def [abs_def])
  have "exec_list N (maxima_phase e a m) (r, s) = Some (r', ?s2)"
    using loop r'(1) by (simp add: maxima_phase_def exec_list_append del: exec_list.simps(2) on_dest_simps(5)) (simp add: exec_list_append)
  with r' p show ?thesis by auto
qed

text \<open>Between two chunks: the tiles and the gathered maxima are there, the buffer of codes is empty.\<close>

definition between_chunks ::
  "quant_args \<Rightarrow> quant_memory \<Rightarrow> (quant_dfb \<Rightarrow> nat) \<Rightarrow> nat \<Rightarrow> tile_words list \<Rightarrow> (quant_dfb \<Rightarrow> tile_words ring) \<Rightarrow> bool" where
  "between_chunks a m N q scale r \<longleftrightarrow> dfb_at N r QIn 0 (map (dense_tile a m) [0..<qa_num_dense a]) [] 0 (qa_num_dense a) \<and>
     dfb_at N r QGather 0 (map (qm_received m) [0..<qa_gather_tiles a]) [] 0 (qa_gather_tiles a) \<and>
     dfb_at N r QOut q [] [] 0 0 \<and> dfb_at N r QScale 0 scale [] 0 0"

definition sizes_ok :: "quant_args \<Rightarrow> (quant_dfb \<Rightarrow> nat) \<Rightarrow> bool" where
  "sizes_ok a N \<longleftrightarrow> qa_num_dense a \<le> N QIn \<and> N QGather = qa_gather_tiles a \<and> N QPart = 1 \<and> N QOut = 6 \<and> N QScale = 1"

lemma exec_divisor:
  assumes "dfb_at N r QGather 0 (map (qm_received m) [0..<qa_gather_tiles a]) [] 0 (qa_gather_tiles a)" "N QGather = qa_gather_tiles a"
  shows "exec_list N (divisor_phase e a m first) (r, s) = Some (r, on_dest (\<lambda>_. divisor_of e a m first) s)"
proof -
  let ?n = "qa_gather_tiles a" and ?s = "on_dest (\<lambda>_. zero_acc (groups_of a) divisor_tile (qm_acquired m (Suc first))) s"
  let ?w = "\<lambda>i. divisor_step e (groups_of a) divisor_tile gathered_tile (total_bands a) i"
  let ?f = "\<lambda>i d. ?w i (copy_tile (qm_received m i) gathered_tile d)"
  have c: "concat (map (gather_step e a) [0..<?n]) = concat (map (\<lambda>i. [Take QGather i (\<lambda>p. on_dest (copy_tile p gathered_tile)), Do (on_dest (?w i))]) [0..<?n])"
    by (simp only: gather_step_def [abs_def])
  have "fold (\<lambda>i l. on_dest (?w i) (on_dest (copy_tile (map (qm_received m) [0..<?n] ! i) gathered_tile) l)) [0..<?n] ?s = fold (\<lambda>i. on_dest (?f i)) [0..<?n] ?s"
    by (rule fold_cong) simp_all
  with exec_take_do [OF assms(1), of ?n "\<lambda>_ p. on_dest (copy_tile p gathered_tile)" "\<lambda>i. on_dest (?w i)" ?s] assms(2)
  have loop: "exec_list N (concat (map (gather_step e a) [0..<?n])) (r, ?s) = Some (r, on_dest (fold ?f [0..<?n]) ?s)"
    by (simp add: c on_dest_fold)
  show ?thesis
    unfolding divisor_phase_def exec_list_append
    using loop by (simp add: divisor_of_def make_divisor_def tile_indices)
qed

lemma exec_codes:
  assumes "dfb_at N r QIn 0 (map (dense_tile a m) [0..<qa_num_dense a]) [] 0 (qa_num_dense a)" "qa_num_dense a \<le> N QIn"
    and first: "first < qa_num_dense a" and s: "qs_dst s = divisor_of e a m first"
  shows "exec_list N (codes_phase e a first) (r, s) = Some (r, on_dest (\<lambda>_. chunk_dest e a m first) s)"
proof -
  let ?n = "chunk_len a first" and ?load = "\<lambda>j. load_tile e (dense_tile a m (first + j)) (codes_dst + j)"
  have n: "first + ?n \<le> qa_num_dense a" using first by (auto simp: chunk_len_def not_less)
  have "fold (\<lambda>j. on_dest (load_tile e (map (dense_tile a m) [0..<qa_num_dense a] ! (first + j)) (codes_dst + j))) [0..<?n] s = fold (\<lambda>j. on_dest (?load j)) [0..<?n] s"
    by (rule fold_cong) (use n in simp_all)
  with exec_take_each [OF assms(1), of first ?n "\<lambda>j p. on_dest (load_tile e p (codes_dst + j))" s] assms(2) n
  have "exec_list N (map (\<lambda>j. Take QIn (first + j) (\<lambda>p. on_dest (load_tile e p (codes_dst + j)))) [0..<?n]) (r, s) = Some (r, on_dest (fold ?load [0..<?n]) s)"
    by (simp add: on_dest_fold)
  then show ?thesis
    unfolding codes_phase_def exec_list_append using s
    by (simp add: chunk_dest_def quantize_tiles_def tile_indices)
qed

lemma exec_codes_out:
  assumes "dfb_at N r QOut q [] [] 0 0" "N QOut = 6" "q mod 3 = 0" "chunk_len a first \<le> 3"
  shows "\<exists>r'. exec_list N (Reserve QOut (chunk_len a first) # map (\<lambda>j. Fill QOut j (\<lambda>s. code_tile e (codes_dst + j) (qs_dst s))) [0..<chunk_len a first] @
      [Push QOut (chunk_len a first)]) (r, s) = Some (r', s) \<and>
    dfb_at N r' QOut q (map (\<lambda>j. code_tile e (1 + j) (qs_dst s)) [0..<chunk_len a first]) [] 0 0 \<and> only_ring QOut r r'"
proof -
  have "q mod 6 = 3 * (q div 3 mod 2)" using mod_mult2_eq [of q 3 2] assms(3) by simp
  then have "q mod 6 \<in> {0, 3}" by (cases "q div 3 mod 2 = 0") auto
  then have "q mod N QOut + chunk_len a first \<le> N QOut" using assms(2,4) by auto
  from exec_produce [OF assms(1) _ this, of "\<lambda>j s. code_tile e (codes_dst + j) (qs_dst s)" s] assms(2,4)
  show ?thesis by (simp add: codes_dst_def)
qed

section \<open>The chunks\<close>

text \<open>The states that the runs pass: the compute kernel and the writer go on, the others stand.\<close>

definition kernels_are ::
  "(quant_dfb, tile_words, quant_store) net \<Rightarrow> quant_instr list \<Rightarrow> quant_instr list \<Rightarrow> quant_instr list \<Rightarrow> bool" where
  "kernels_are st R C W \<longleftrightarrow> progs st 0 = R \<and> progs st 1 = C \<and> progs st 2 = W \<and> (\<forall>k > 2. progs st k = [])"

lemma run_kernel:
  assumes "exec_list N xs (rings st, stores st k) = Some (r, l)" "progs st k = xs @ p"
  shows "\<exists>n st'. net_run N n st st' \<and> rings st' = r \<and> progs st' = (progs st)(k := p) \<and> stores st' = (stores st)(k := l)"
  using run_prefix [OF assms] by fastforce

lemma fold_write_dense:
  "fold (\<lambda>j. write_dense a (first + j) (p j)) [0..<n] s =
     s\<lparr>qs_puts := qs_puts s @ concat (map (\<lambda>j. concat (map (\<lambda>jj. write_pieces a (first + j) jj (p j)) [0..<dense_count a (first + j)])) [0..<n])\<rparr>"
  by (induction n) (simp_all add: write_dense_def)

lemma chunk_puts:
  assumes "first mod 3 = 0" "n \<le> 3"
  shows "concat (map (\<lambda>j. concat (map (\<lambda>jj. write_pieces a (first + j) jj (code_tile e (1 + j) (chunk_dest e a m first))) [0..<dense_count a (first + j)])) [0..<n]) =
    concat (map (dense_puts e a m) [first..<first + n])"
proof -
  have "[first..<first + n] = map (\<lambda>j. first + j) [0..<n]" by (simp add: map_add_upt add.commute [of first])
  moreover have "dense_puts e a m (first + j) =
      concat (map (\<lambda>jj. write_pieces a (first + j) jj (code_tile e (1 + j) (chunk_dest e a m first))) [0..<dense_count a (first + j)])" if "j < n" for j
  proof -
    have "(first + j) mod 3 = j" using assms that mod_add_left_eq [of first 3 j] by simp
    then show ?thesis by (simp add: dense_puts_def codes_of_def)
  qed
  ultimately show ?thesis by (auto simp: comp_def intro!: arg_cong [of _ _ concat] map_cong)
qed

lemma run_chunk:
  assumes N: "sizes_ok a N" and first: "first < qa_num_dense a" "first mod 3 = 0" and between: "between_chunks a m N q scale (rings st)" "q mod 3 = 0"
    and scale: "first = 0 \<Longrightarrow> scale = []" and progs: "kernels_are st [] (compute_chunk e a m first @ C) (write_chunk a first @ W)"
  shows "\<exists>n st'. net_run N n st st' \<and> kernels_are st' [] C W \<and> stores st' 0 = stores st 0 \<and> qs_scale (stores st' 2) = qs_scale (stores st 2) \<and>
    between_chunks a m N (q + chunk_len a first) (if first = 0 \<and> qa_writes_scale a then [pack_tile 0 (chunk_dest e a m 0)] else scale) (rings st') \<and>
    qs_puts (stores st' 2) = qs_puts (stores st 2) @ concat (map (dense_puts e a m) [first..<first + chunk_len a first])"
proof -
  let ?n = "chunk_len a first" and ?d = "chunk_dest e a m first" and ?w = "first = 0 \<and> qa_writes_scale a"
  note b = between(1) [unfolded between_chunks_def] and N = N [unfolded sizes_ok_def]
  have n: "?n \<le> 3" by (auto simp: chunk_len_def chunk_tiles_def)
  let ?s = "on_dest (\<lambda>_. ?d) (stores st 1)"
  have div: "exec_list N (divisor_phase e a m first) (rings st, stores st 1) = Some (rings st, on_dest (\<lambda>_. divisor_of e a m first) (stores st 1))"
    by (rule exec_divisor) (use b N in auto)
  have codes: "exec_list N (codes_phase e a first) (rings st, on_dest (\<lambda>_. divisor_of e a m first) (stores st 1)) = Some (rings st, ?s)"
    using exec_codes [of N "rings st" a m first "on_dest (\<lambda>_. divisor_of e a m first) (stores st 1)" e] b N first by simp
  let ?S = "if ?w then [Reserve QScale 1, Fill QScale 0 (\<lambda>s. pack_tile divisor_tile (qs_dst s)), Push QScale 1] else []"
  have "\<exists>r1. exec_list N ?S (rings st, ?s) = Some (r1, ?s) \<and> dfb_at N r1 QScale 0 (if ?w then [pack_tile 0 (chunk_dest e a m 0)] else scale) [] 0 0 \<and>
      only_ring QScale (rings st) r1"
  proof (cases ?w)
    case True
    then have "dfb_at N (rings st) QScale 0 [] [] 0 0" using b scale by simp
    from exec_produce [OF this, of 1 "\<lambda>_ s. pack_tile divisor_tile (qs_dst s)" ?s] N True show ?thesis by (auto simp: tile_indices)
  qed (use b in auto)
  then obtain r1 where r1: "exec_list N ?S (rings st, ?s) = Some (r1, ?s)" "dfb_at N r1 QScale 0 (if ?w then [pack_tile 0 (chunk_dest e a m 0)] else scale) [] 0 0"
    "only_ring QScale (rings st) r1" by blast
  have "dfb_at N r1 QOut q [] [] 0 0" using dfb_at_only [OF r1(3)] b by simp
  from exec_codes_out [OF this _ between(2) n, of e ?s] N obtain r2 where
    r2: "exec_list N (Reserve QOut ?n # map (\<lambda>j. Fill QOut j (\<lambda>s. code_tile e (codes_dst + j) (qs_dst s))) [0..<?n] @ [Push QOut ?n]) (r1, ?s) = Some (r2, ?s)"
      "dfb_at N r2 QOut q (map (\<lambda>j. code_tile e (1 + j) ?d) [0..<?n]) [] 0 0" "only_ring QOut r1 r2" by auto
  have "exec_list N (compute_chunk e a m first) (rings st, stores st 1) = Some (r2, ?s)"
    unfolding compute_chunk_def pack_phase_def exec_list_append div option.case codes r1(1) r2(1) ..
  moreover have "progs st 1 = compute_chunk e a m first @ C" using progs by (simp add: kernels_are_def)
  ultimately obtain n1 st1 where st1: "net_run N n1 st st1" "rings st1 = r2" "progs st1 = (progs st)(1 := C)" "stores st1 = (stores st)(1 := ?s)"
    by (rule run_kernel [THEN exE]) blast
  let ?xs = "map (\<lambda>j. code_tile e (1 + j) ?d) [0..<?n]"
  have "q mod 6 = 3 * (q div 3 mod 2)" using mod_mult2_eq [of q 3 2] between(2) by simp
  then have "q mod 6 \<in> {0, 3}" by (cases "q div 3 mod 2 = 0") auto
  then have "q mod N QOut + length ?xs \<le> N QOut" using N n by auto
  from exec_consume [OF r2(2) this, of ?n "\<lambda>j. write_dense a (first + j)" "stores st 2"] obtain r3 where
    r3: "exec_list N (write_chunk a first) (r2, stores st 2) = Some (r3, fold (\<lambda>j. write_dense a (first + j) (?xs ! j)) [0..<?n] (stores st 2))"
      "dfb_at N r3 QOut (q + ?n) [] [] 0 0" "only_ring QOut r2 r3" by (auto simp: write_chunk_def)
  let ?t = "(stores st 2)\<lparr>qs_puts := qs_puts (stores st 2) @ concat (map (dense_puts e a m) [first..<first + ?n])\<rparr>"
  have "fold (\<lambda>j. write_dense a (first + j) (?xs ! j)) [0..<?n] (stores st 2) = fold (\<lambda>j. write_dense a (first + j) (code_tile e (1 + j) ?d)) [0..<?n] (stores st 2)"
    by (rule fold_cong) simp_all
  also have "\<dots> = ?t" unfolding fold_write_dense chunk_puts [OF first(2) n] ..
  finally have "exec_list N (write_chunk a first) (rings st1, stores st1 2) = Some (r3, ?t)" using r3(1) st1(2,4) by simp
  moreover have "progs st1 2 = write_chunk a first @ W" using progs st1(3) by (simp add: kernels_are_def)
  ultimately obtain n2 st2 where st2: "net_run N n2 st1 st2" "rings st2 = r3" "progs st2 = (progs st1)(2 := W)" "stores st2 = (stores st1)(2 := ?t)"
    by (rule run_kernel [THEN exE]) blast
  have same: "dfb_at N r3 d q' xs vs k h = dfb_at N (rings st) d q' xs vs k h" if "d \<noteq> QOut" "d \<noteq> QScale" for d q' xs vs k h
    using dfb_at_only [OF r1(3) that(2)] dfb_at_only [OF r2(3) that(1)] dfb_at_only [OF r3(3) that(1)] by metis
  have "dfb_at N r3 QScale 0 (if ?w then [pack_tile 0 (chunk_dest e a m 0)] else scale) [] 0 0"
    using r1(2) dfb_at_only [OF r2(3)] dfb_at_only [OF r3(3)] by (metis quant_dfb.distinct(19))
  then have "between_chunks a m N (q + ?n) (if ?w then [pack_tile 0 (chunk_dest e a m 0)] else scale) r3"
    using b r3(2) same by (simp add: between_chunks_def)
  moreover have "kernels_are st2 [] C W" using progs st1(3) st2(3) by (simp add: kernels_are_def)
  ultimately show ?thesis using net_run_trans [OF st1(1) st2(1)] st1(4) st2(2,4)
    by (intro exI [of _ "n1 + n2"] exI [of _ st2]) (simp del: fun_upd_apply, simp)
qed

definition scale_out :: "quant_env \<Rightarrow> quant_args \<Rightarrow> quant_memory \<Rightarrow> tile_words list" where
  "scale_out e a m = (if qa_writes_scale a then [pack_tile 0 (chunk_dest e a m 0)] else [])"

lemma run_chunks:
  assumes N: "sizes_ok a N" and "first mod 3 = 0" "between_chunks a m N q scale (rings st)" "q mod 3 = 0"
    and "scale = (if first = 0 then [] else scale_out e a m)" "first = 0 \<Longrightarrow> 0 < qa_num_dense a \<or> \<not> qa_writes_scale a"
    and "kernels_are st [] (concat (map (compute_chunk e a m) (chunk_starts first (qa_num_dense a))) @ C)
      (concat (map (write_chunk a) (chunk_starts first (qa_num_dense a))) @ W)"
  shows "\<exists>n st' q'. net_run N n st st' \<and> kernels_are st' [] C W \<and> stores st' 0 = stores st 0 \<and> qs_scale (stores st' 2) = qs_scale (stores st 2) \<and>
    between_chunks a m N q' (scale_out e a m) (rings st') \<and>
    qs_puts (stores st' 2) = qs_puts (stores st 2) @ concat (map (dense_puts e a m) [first..<qa_num_dense a])"
  using assms(2-)
proof (induction "qa_num_dense a - first" arbitrary: first st q scale rule: less_induct)
  case less
  show ?case
  proof (cases "first < qa_num_dense a")
    case False
    then have "chunk_starts first (qa_num_dense a) = []" by (simp add: chunk_starts.simps)
    moreover have "scale = scale_out e a m" using less.prems(4,5) False by (auto simp: scale_out_def)
    ultimately show ?thesis using False less.prems net_run.stop [of N st]
      by (intro exI [of _ 0] exI [of _ st] exI [of _ q]) simp
  next
    case True
    let ?len = "chunk_len a first"
    have starts: "chunk_starts first (qa_num_dense a) = first # chunk_starts (first + 3) (qa_num_dense a)"
      using True by (subst chunk_starts.simps) (simp add: chunk_tiles_def)
    let ?C = "concat (map (compute_chunk e a m) (chunk_starts (first + 3) (qa_num_dense a))) @ C"
    let ?W = "concat (map (write_chunk a) (chunk_starts (first + 3) (qa_num_dense a))) @ W"
    have progs: "kernels_are st [] (compute_chunk e a m first @ ?C) (write_chunk a first @ ?W)" using less.prems(6) by (simp add: starts)
    have new: "(if first = 0 \<and> qa_writes_scale a then [pack_tile 0 (chunk_dest e a m 0)] else scale) = scale_out e a m"
      using less.prems(4) by (auto simp: scale_out_def)
    from run_chunk [OF N True less.prems(1-3) _ progs] less.prems(4) obtain n st1 where st1:
      "net_run N n st st1" "kernels_are st1 [] ?C ?W" "stores st1 0 = stores st 0" "qs_scale (stores st1 2) = qs_scale (stores st 2)"
      "between_chunks a m N (q + ?len) (scale_out e a m) (rings st1)"
      "qs_puts (stores st1 2) = qs_puts (stores st 2) @ concat (map (dense_puts e a m) [first..<first + ?len])"
      unfolding new by auto
    show ?thesis
    proof (cases "first + 3 < qa_num_dense a")
      case True
      then have len: "?len = 3" by (auto simp: chunk_len_def chunk_tiles_def)
      have "[first..<qa_num_dense a] = [first..<first + 3] @ [first + 3..<qa_num_dense a]"
        using upt_add_eq_append [of first "first + 3" "qa_num_dense a - (first + 3)"] True by simp
      note upt = this
      have hyps: "qa_num_dense a - (first + 3) < qa_num_dense a - first" "(first + 3) mod 3 = 0" "(q + 3) mod 3 = 0"
        "scale_out e a m = (if first + 3 = 0 then [] else scale_out e a m)" using True less.prems(1,3) by simp_all
      have "first + 3 = 0 \<Longrightarrow> 0 < qa_num_dense a \<or> \<not> qa_writes_scale a" by simp
      from less.hyps [OF hyps(1,2) st1(5) [unfolded len] hyps(3,4) this st1(2)] obtain n' st' q' where
        "net_run N n' st1 st'" "kernels_are st' [] C W" "stores st' 0 = stores st1 0" "qs_scale (stores st' 2) = qs_scale (stores st1 2)"
        "between_chunks a m N q' (scale_out e a m) (rings st')"
        "qs_puts (stores st' 2) = qs_puts (stores st1 2) @ concat (map (dense_puts e a m) [first + 3..<qa_num_dense a])" by blast
      then show ?thesis using net_run_trans [OF st1(1)] st1(3,4,6) len upt by (metis append.assoc concat_append map_append)
    next
      case False
      then have "first + ?len = qa_num_dense a" "chunk_starts (first + 3) (qa_num_dense a) = []"
        using True by (auto simp: chunk_len_def chunk_tiles_def chunk_starts.simps)
      then show ?thesis using st1 by (intro exI [of _ n] exI [of _ st1] exI [of _ "q + ?len"]) simp
    qed
  qed
qed

section \<open>A core\<close>

text \<open>The reader up to the maxima it waits for, and from there on.\<close>

definition reader_before :: "quant_args \<Rightarrow> quant_memory \<Rightarrow> quant_instr list" where
  "reader_before a m = (Reserve QIn (qa_num_dense a) # fills QIn 0 (map (dense_tile a m) [0..<qa_num_dense a]) @ [Push QIn (qa_num_dense a)]) @
     [Reserve QGather (qa_gather_tiles a)]"

definition reader_after :: "quant_args \<Rightarrow> quant_memory \<Rightarrow> quant_instr list" where
  "reader_after a m = (Await QPart 1 # map (\<lambda>j. Take QPart j take_part) [0..<1] @ [Pop QPart 1]) @
     fills QGather 0 (map (qm_received m) [0..<qa_gather_tiles a]) @ [Push QGather (qa_gather_tiles a)]"

lemma reader_parts: "quant_reader_main a m = reader_before a m @ reader_after a m"
  by (simp add: quant_reader_main_def reader_before_def reader_after_def)

lemma exec_reader_before:
  assumes "sizes_ok a N" "\<And>d. r d = ring_init"
  shows "\<exists>r'. exec_list N (reader_before a m) (r, s) = Some (r', s) \<and> dfb_at N r' QIn 0 (map (dense_tile a m) [0..<qa_num_dense a]) [] 0 0 \<and>
    dfb_at N r' QGather 0 [] [] (qa_gather_tiles a) 0 \<and> (\<forall>d. d \<noteq> QIn \<longrightarrow> d \<noteq> QGather \<longrightarrow> r' d = ring_init)"
proof -
  note N = assms(1) [unfolded sizes_ok_def]
  have empty: "dfb_at N r d 0 [] [] 0 0" for d using dfb_at_init [of N d] assms(2) by (simp add: dfb_at_def)
  from exec_push_group [OF empty, of "map (dense_tile a m) [0..<qa_num_dense a]" QIn s] N obtain r1 where
    r1: "exec_list N (Reserve QIn (qa_num_dense a) # fills QIn 0 (map (dense_tile a m) [0..<qa_num_dense a]) @ [Push QIn (qa_num_dense a)]) (r, s) = Some (r1, s)"
      "dfb_at N r1 QIn 0 (map (dense_tile a m) [0..<qa_num_dense a]) [] 0 0" "only_ring QIn r r1" by auto
  have "dfb_at N r1 QGather 0 [] [] 0 0" using dfb_at_only [OF r1(3)] empty by simp
  from exec_reserve [OF this, of "qa_gather_tiles a" s] N obtain r2 where
    r2: "exec N (Reserve QGather (qa_gather_tiles a)) (r1, s) = Some (r2, s)" "dfb_at N r2 QGather 0 [] [] (qa_gather_tiles a) 0" "only_ring QGather r1 r2" by auto
  have "exec_list N (reader_before a m) (r, s) = Some (r2, s)" by (simp only: reader_before_def exec_list_seq [OF r1(1)] option.case exec_list.simps r2(1))
  moreover have "dfb_at N r2 QIn 0 (map (dense_tile a m) [0..<qa_num_dense a]) [] 0 0" using dfb_at_only [OF r2(3)] r1(2) by simp
  moreover have "\<forall>d. d \<noteq> QIn \<longrightarrow> d \<noteq> QGather \<longrightarrow> r2 d = ring_init" using r1(3) r2(3) assms(2) by (simp add: only_ring_def)
  ultimately show ?thesis using r2(2) by blast
qed

lemma exec_reader_after:
  assumes "sizes_ok a N" "dfb_at N r QPart 0 [p] [] 0 0" "dfb_at N r QGather 0 [] [] (qa_gather_tiles a) 0"
  shows "\<exists>r'. exec_list N (reader_after a m) (r, s) = Some (r', take_part p s) \<and>
    dfb_at N r' QGather 0 (map (qm_received m) [0..<qa_gather_tiles a]) [] 0 0 \<and> (\<forall>d. d \<noteq> QPart \<longrightarrow> d \<noteq> QGather \<longrightarrow> r' d = r d)"
proof -
  note N = assms(1) [unfolded sizes_ok_def]
  from exec_consume [OF assms(2), of 1 "\<lambda>_. take_part" s] N obtain r1 where
    r1: "exec_list N (Await QPart 1 # map (\<lambda>j. Take QPart j take_part) [0..<1] @ [Pop QPart 1]) (r, s) = Some (r1, take_part p s)" "only_ring QPart r r1"
    by auto
  have g: "dfb_at N r1 QGather 0 [] [] (qa_gather_tiles a) 0" using dfb_at_only [OF r1(2)] assms(3) by simp
  from exec_fills [OF g, of "map (qm_received m) [0..<qa_gather_tiles a]" "take_part p s"] N obtain r2 where
    r2: "exec_list N (fills QGather 0 (map (qm_received m) [0..<qa_gather_tiles a])) (r1, take_part p s) = Some (r2, take_part p s)"
      "dfb_at N r2 QGather 0 [] (map (qm_received m) [0..<qa_gather_tiles a]) (qa_gather_tiles a) 0" "only_ring QGather r1 r2" by auto
  from exec_push [OF r2(2) refl, of "take_part p s"] obtain r3 where
    r3: "exec N (Push QGather (qa_gather_tiles a)) (r2, take_part p s) = Some (r3, take_part p s)"
      "dfb_at N r3 QGather 0 (map (qm_received m) [0..<qa_gather_tiles a]) [] 0 0" "only_ring QGather r2 r3" by auto
  have "exec_list N (reader_after a m) (r, s) = Some (r3, take_part p s)"
    by (simp only: reader_after_def exec_list_seq [OF r1(1)] exec_list_seq [OF r2(1)] option.case exec_list.simps r3(1))
  moreover have "\<forall>d. d \<noteq> QPart \<longrightarrow> d \<noteq> QGather \<longrightarrow> r3 d = r d" using r1(2) r2(3) r3(3) by (simp add: only_ring_def)
  ultimately show ?thesis using r3(2) by blast
qed

lemma net_done_three: "kernels_are st [] [] [] \<Longrightarrow> net_done st"
  unfolding net_done_def kernels_are_def
proof
  fix k :: nat
  assume "progs st 0 = [] \<and> progs st 1 = [] \<and> progs st 2 = [] \<and> (\<forall>k > 2. progs st k = [])"
  moreover have "k = 0 \<or> k = 1 \<or> k = 2 \<or> 2 < k" by linarith
  ultimately show "progs st k = []" by metis
qed

text \<open>Up to the first chunk.\<close>

lemma run_opening:
  assumes N: "sizes_ok a N"
    and C: "C = concat (map (compute_chunk e a m) (chunk_starts 0 (qa_num_dense a))) @ [Pop QGather (qa_gather_tiles a), Pop QIn (qa_num_dense a)]"
  shows "\<exists>n st. net_run N n (quant_start e a m) st \<and> kernels_are st [] C (quant_writer_main a) \<and> between_chunks a m N 0 [] (rings st) \<and>
    qs_part (stores st 0) = part_of e a m \<and> stores st 2 = store_empty"
proof -
  let ?st = "quant_start e a m" and ?num = "qa_num_dense a" and ?gt = "qa_gather_tiles a"
  have start: "rings ?st = (\<lambda>_. ring_init)" "stores ?st = (\<lambda>_. store_empty)" "progs ?st = quant_progs e a m" by (simp_all add: quant_start_def net_start_def)
  note sizes = N [unfolded sizes_ok_def]
  from exec_reader_before [OF N, of "\<lambda>_. ring_init" m store_empty] obtain r1 where
    r1: "exec_list N (reader_before a m) (\<lambda>_. ring_init, store_empty) = Some (r1, store_empty)" "dfb_at N r1 QIn 0 (map (dense_tile a m) [0..<?num]) [] 0 0"
      "dfb_at N r1 QGather 0 [] [] ?gt 0" "\<forall>d. d \<noteq> QIn \<longrightarrow> d \<noteq> QGather \<longrightarrow> r1 d = ring_init" by auto
  have "exec_list N (reader_before a m) (rings ?st, stores ?st 0) = Some (r1, store_empty)" "progs ?st 0 = reader_before a m @ reader_after a m"
    using r1(1) by (simp_all add: start quant_progs_def reader_parts)
  from run_kernel [OF this] obtain n1 st1 where st1: "net_run N n1 ?st st1" "rings st1 = r1" "progs st1 = (progs ?st)(0 := reader_after a m)"
    "stores st1 = (stores ?st)(0 := store_empty)" by blast
  from exec_await [OF r1(2), of ?num store_empty] obtain r2 where
    r2: "exec N (Await QIn ?num) (r1, store_empty) = Some (r2, store_empty)" "dfb_at N r2 QIn 0 (map (dense_tile a m) [0..<?num]) [] 0 ?num" "only_ring QIn r1 r2" by auto
  have "dfb_at N r2 QPart 0 [] [] 0 0" using dfb_at_only [OF r2(3), of QPart] r1(4) dfb_at_init [of N QPart] by (simp add: dfb_at_def)
  from exec_maxima [OF r2(2) _ this, of e store_empty] sizes obtain r3 s3 where
    r3: "exec_list N (maxima_phase e a m) (r2, store_empty) = Some (r3, s3)" "dfb_at N r3 QPart 0 [part_of e a m] [] 0 0" "only_ring QPart r2 r3" by auto
  let ?C1 = "Await QGather ?gt # C"
  have "exec_list N (Await QIn ?num # maxima_phase e a m) (rings st1, stores st1 1) = Some (r3, s3)" "progs st1 1 = (Await QIn ?num # maxima_phase e a m) @ ?C1"
    using r2(1) r3(1) by (simp_all add: st1(2,3,4) start quant_progs_def quant_compute_main_def C)
  from run_kernel [OF this] obtain n2 st2 where st2: "net_run N n2 st1 st2" "rings st2 = r3" "progs st2 = (progs st1)(1 := ?C1)"
    "stores st2 = (stores st1)(1 := s3)" by blast
  have "dfb_at N r3 QGather 0 [] [] ?gt 0" using dfb_at_only [OF r2(3)] dfb_at_only [OF r3(3)] r1(3) by simp
  from exec_reader_after [OF N r3(2) this, of m store_empty] obtain r4 where
    r4: "exec_list N (reader_after a m) (r3, store_empty) = Some (r4, take_part (part_of e a m) store_empty)"
      "dfb_at N r4 QGather 0 (map (qm_received m) [0..<?gt]) [] 0 0" "\<forall>d. d \<noteq> QPart \<longrightarrow> d \<noteq> QGather \<longrightarrow> r4 d = r3 d" by auto
  have "exec_list N (reader_after a m) (rings st2, stores st2 0) = Some (r4, take_part (part_of e a m) store_empty)" "progs st2 0 = reader_after a m @ []"
    using r4(1) by (simp_all add: st2(2,3,4) st1(3,4) start)
  from run_kernel [OF this] obtain n3 st3 where st3: "net_run N n3 st2 st3" "rings st3 = r4" "progs st3 = (progs st2)(0 := [])"
    "stores st3 = (stores st2)(0 := take_part (part_of e a m) store_empty)" by blast
  from exec_await [OF r4(2), of ?gt s3] obtain r5 where
    r5: "exec N (Await QGather ?gt) (r4, s3) = Some (r5, s3)" "dfb_at N r5 QGather 0 (map (qm_received m) [0..<?gt]) [] 0 ?gt" "only_ring QGather r4 r5" by auto
  have "exec_list N [Await QGather ?gt] (rings st3, stores st3 1) = Some (r5, s3)" "progs st3 1 = [Await QGather ?gt] @ C"
    using r5(1) by (simp_all add: st3(2,3,4) st2(3,4))
  from run_kernel [OF this] obtain n4 st4 where st4: "net_run N n4 st3 st4" "rings st4 = r5" "progs st4 = (progs st3)(1 := C)"
    "stores st4 = (stores st3)(1 := s3)" by blast
  have in_ring: "r5 QIn = r2 QIn" using r5(3) r4(3) r3(3) by (simp add: only_ring_def)
  have init: "r5 d = ring_init" if "d = QOut \<or> d = QScale" for d
    using r5(3) r4(3) r3(3) r2(3) r1(4) that by (auto simp: only_ring_def)
  have "dfb_at N r5 QIn 0 (map (dense_tile a m) [0..<?num]) [] 0 ?num" using r2(2) in_ring by (simp add: dfb_at_def)
  moreover have "dfb_at N r5 QOut 0 [] [] 0 0" "dfb_at N r5 QScale 0 [] [] 0 0"
    using init dfb_at_init [of N QOut] dfb_at_init [of N QScale] by (simp_all add: dfb_at_def)
  ultimately have "between_chunks a m N 0 [] (rings st4)" using r5(2) by (simp add: between_chunks_def st4(2))
  moreover have "kernels_are st4 [] C (quant_writer_main a)"
    by (simp add: kernels_are_def st4(3) st3(3) st2(3) st1(3) start quant_progs_def)
  moreover have "qs_part (stores st4 0) = part_of e a m" "stores st4 2 = store_empty" by (simp_all add: st4(4) st3(4) st2(4) st1(4) start take_part_def)
  ultimately show ?thesis using net_run_trans [OF st1(1) net_run_trans [OF st2(1) net_run_trans [OF st3(1) st4(1)]]] by blast
qed

lemma quant_complete:
  assumes N: "sizes_ok a N" and scale: "qa_writes_scale a \<Longrightarrow> 0 < qa_num_dense a"
  shows "\<exists>n f. net_run N n (quant_start e a m) f \<and> net_done f \<and> qs_part (stores f 0) = part_of e a m \<and>
    qs_puts (stores f 2) = concat (map (dense_puts e a m) [0..<qa_num_dense a]) \<and> qs_scale (stores f 2) = scale_out e a m"
proof -
  let ?num = "qa_num_dense a" and ?gt = "qa_gather_tiles a"
  let ?W = "if qa_writes_scale a then [Await QScale 1, Take QScale 0 write_scale, Pop QScale 1] else []"
  from run_opening [OF N refl] obtain n1 st1 where st1: "net_run N n1 (quant_start e a m) st1"
    "kernels_are st1 [] (concat (map (compute_chunk e a m) (chunk_starts 0 ?num)) @ [Pop QGather ?gt, Pop QIn ?num]) (quant_writer_main a)"
    "between_chunks a m N 0 [] (rings st1)" "qs_part (stores st1 0) = part_of e a m" "stores st1 2 = store_empty" by blast
  have "0 < ?num \<or> \<not> qa_writes_scale a" using scale by blast
  note some = this
  have "kernels_are st1 [] (concat (map (compute_chunk e a m) (chunk_starts 0 ?num)) @ [Pop QGather ?gt, Pop QIn ?num])
      (concat (map (write_chunk a) (chunk_starts 0 ?num)) @ ?W)" using st1(2) by (simp only: quant_writer_main_def)
  note begin_chunks = this
  have "(0 :: nat) mod 3 = 0" "[] = (if (0 :: nat) = 0 then [] else scale_out e a m)" by simp_all
  from run_chunks [OF N this(1) st1(3) this(1,2) some begin_chunks] obtain n2 st2 q where st2: "net_run N n2 st1 st2"
    "kernels_are st2 [] [Pop QGather ?gt, Pop QIn ?num] ?W" "stores st2 0 = stores st1 0" "qs_scale (stores st2 2) = qs_scale (stores st1 2)"
    "between_chunks a m N q (scale_out e a m) (rings st2)"
    "qs_puts (stores st2 2) = qs_puts (stores st1 2) @ concat (map (dense_puts e a m) [0..<?num])" by blast
  note b = st2(5) [unfolded between_chunks_def] and k2 = st2(2) [unfolded kernels_are_def]
  obtain s where s: "stores st2 1 = s" by simp
  from b exec_pop [of N "rings st2" QGather 0 "map (qm_received m) [0..<?gt]" "[]" 0 ?gt ?gt s] obtain r1 where
    r1: "exec N (Pop QGather ?gt) (rings st2, s) = Some (r1, s)" "only_ring QGather (rings st2) r1" by auto
  have "dfb_at N r1 QIn 0 (map (dense_tile a m) [0..<?num]) [] 0 ?num" using dfb_at_only [OF r1(2)] b by simp
  from exec_pop [OF this, of ?num s] obtain r2 where r2: "exec N (Pop QIn ?num) (r1, s) = Some (r2, s)" "only_ring QIn r1 r2" by auto
  have "exec_list N [Pop QGather ?gt, Pop QIn ?num] (rings st2, stores st2 1) = Some (r2, s)" "progs st2 1 = [Pop QGather ?gt, Pop QIn ?num] @ []"
    using r1(1) r2(1) k2 s by simp_all
  from run_kernel [OF this] obtain n3 st3 where st3: "net_run N n3 st2 st3" "rings st3 = r2" "progs st3 = (progs st2)(1 := [])"
    "stores st3 = (stores st2)(1 := s)" by blast
  have "dfb_at N r2 QScale 0 (scale_out e a m) [] 0 0" using dfb_at_only [OF r1(2)] dfb_at_only [OF r2(2)] b by simp
  note out = this
  let ?t = "(stores st2 2)\<lparr>qs_scale := scale_out e a m\<rparr>"
  have empty: "qs_scale (stores st2 2) = []" using st2(4) st1(5) by (simp add: store_empty_def)
  have "\<exists>r3. exec_list N ?W (r2, stores st2 2) = Some (r3, ?t)"
  proof (cases "qa_writes_scale a")
    case True
    then obtain p where p: "scale_out e a m = [p]" by (simp add: scale_out_def)
    from exec_consume [OF out [unfolded p], of 1 "\<lambda>_. write_scale" "stores st2 2"] N True show ?thesis
      by (auto simp: p sizes_ok_def write_scale_def empty)
  next
    case False
    then have "scale_out e a m = qs_scale (stores st2 2)" by (simp add: scale_out_def empty)
    then show ?thesis using False by simp
  qed
  then obtain r3 where "exec_list N ?W (rings st3, stores st3 2) = Some (r3, ?t)" by (auto simp: st3(2,4))
  moreover have "progs st3 2 = ?W @ []" using k2 st3(3) by simp
  ultimately obtain n4 st4 where st4: "net_run N n4 st3 st4" "progs st4 = (progs st3)(2 := [])" "stores st4 = (stores st3)(2 := ?t)"
    by (rule run_kernel [THEN exE]) blast
  have "kernels_are st4 [] [] []" using k2 by (simp add: kernels_are_def st4(2) st3(3))
  note fin = net_done_three [OF this]
  have "qs_part (stores st4 0) = part_of e a m" "qs_puts (stores st4 2) = concat (map (dense_puts e a m) [0..<?num])" "qs_scale (stores st4 2) = scale_out e a m"
    using st1(4,5) st2(3,6) by (simp_all add: st4(3) st3(4) store_empty_def)
  then show ?thesis using fin net_run_trans [OF st1(1) net_run_trans [OF st2(1) net_run_trans [OF st3(1) st4(1)]]] by blast
qed

section \<open>Every run of a core\<close>

text \<open>Kernel and role of every instruction: each buffer has one producer and one consumer.\<close>

fun producer :: "quant_dfb \<Rightarrow> nat" where
  "producer QIn = 0" | "producer QGather = 0" | "producer QPart = 1" | "producer QOut = 1" | "producer QScale = 1"

fun consumer :: "quant_dfb \<Rightarrow> nat" where
  "consumer QIn = 1" | "consumer QGather = 1" | "consumer QPart = 0" | "consumer QOut = 2" | "consumer QScale = 2"

definition in_role :: "nat \<Rightarrow> quant_instr \<Rightarrow> bool" where
  "in_role k x \<longleftrightarrow> (\<forall>d. (produces d x \<longrightarrow> producer d = k) \<and> (consumes d x \<longrightarrow> consumer d = k))"

lemma in_role_simps [simp]:
  "in_role k (Reserve d n) \<longleftrightarrow> producer d = k" "in_role k (Fill d i f) \<longleftrightarrow> producer d = k" "in_role k (Push d n) \<longleftrightarrow> producer d = k"
  "in_role k (Await d n) \<longleftrightarrow> consumer d = k" "in_role k (Take d i g) \<longleftrightarrow> consumer d = k" "in_role k (Pop d n) \<longleftrightarrow> consumer d = k"
  "in_role k (Do h)"
  by (auto simp: in_role_def)

lemma in_role_fills: "x \<in> set (fills d i es) \<Longrightarrow> producer d = k \<Longrightarrow> in_role k x"
  by (induction d i es rule: fills.induct) auto

lemma compute_roles: "x \<in> set (compute_chunk e a m first) \<Longrightarrow> in_role 1 x"
  by (auto simp: compute_chunk_def divisor_phase_def codes_phase_def pack_phase_def gather_step_def split: if_splits)

lemma quant_roles: "x \<in> set (quant_progs e a m k) \<Longrightarrow> in_role k x"
proof -
  assume x: "x \<in> set (quant_progs e a m k)"
  consider "k = 0" | "k = 1" | "k = 2" | "2 < k" by linarith
  then show "in_role k x"
  proof cases
    case 1
    then show ?thesis using x by (auto simp: quant_progs_def quant_reader_main_def intro: in_role_fills)
  next
    case 2
    have "in_role 1 x" if "x \<in> set (maxima_phase e a m)" using that by (auto simp: maxima_phase_def absmax_step_def)
    then show ?thesis using x 2 compute_roles by (auto simp: quant_progs_def quant_compute_main_def)
  next
    case 3
    then show ?thesis using x by (auto simp: quant_progs_def quant_writer_main_def write_chunk_def split: if_splits)
  next
    case 4
    then show ?thesis using x by (simp add: quant_progs_def)
  qed
qed

lemma quant_owned: "owned (quant_progs e a m)"
  unfolding owned_def using quant_roles [of _ e a m] unfolding in_role_def by metis

theorem quant_core:
  assumes N: "sizes_ok a N" and scale: "qa_writes_scale a \<Longrightarrow> 0 < qa_num_dense a"
  shows "\<exists>bound. \<forall>n f. net_run N n (quant_start e a m) f \<longrightarrow> n \<le> bound \<and> (net_stuck N f \<longrightarrow> net_done f \<and> qs_part (stores f 0) = part_of e a m \<and>
    qs_puts (stores f 2) = concat (map (dense_puts e a m) [0..<qa_num_dense a]) \<and> qs_scale (stores f 2) = scale_out e a m)"
proof -
  from quant_complete [OF N scale] obtain n g where g: "net_run N n (quant_start e a m) g" "net_done g" "qs_part (stores g 0) = part_of e a m"
    "qs_puts (stores g 2) = concat (map (dense_puts e a m) [0..<qa_num_dense a])" "qs_scale (stores g 2) = scale_out e a m" by blast
  from g(1) have run: "net_run N n (net_start (quant_progs e a m) (\<lambda>_. store_empty)) g" by (simp add: quant_start_def)
  have "k \<le> n \<and> (net_stuck N f \<longrightarrow> f = g)" if "net_run N k (quant_start e a m) f" for k f
    using one_run_decides [OF run g(2) net_start_ok [OF quant_owned] that [unfolded quant_start_def]] by blast
  with g(2-) show ?thesis by blast
qed

end
