(* ===== verification/QuantizeExchange.thy ===== *)
theory QuantizeExchange
  imports QuantizeRows NocMachine
begin

text \<open>
  The exchange of quantize_rows (\<open>reader_quantize_rows.cpp\<close>, between the core's row maxima and the
  gather buffer it hands on): every core writes its maxima into its slot on every core, waits for
  the writes to land, counts itself on the other cores' semaphores and waits for their counts. The
  machine is that of \<open>NocMachine\<close>; a location is a core, by its NoC coordinates, and a word of its
  gather buffer. Every run ends, and a core that has come to the end of its own program, wherever the
  others are, has every core's maxima in its buffer.
\<close>

section \<open>The programs\<close>

record exchange =
  ex_stride :: nat
  ex_cores :: nat
  ex_slot_bytes :: nat
  ex_first :: core
  ex_last :: core
  ex_self :: "nat \<Rightarrow> core"
  ex_part :: "nat \<Rightarrow> tile_words"

type_synonym exchange_instr = "(core \<times> nat, core, u32) instr"

definition pieces :: "exchange \<Rightarrow> nat" where
  "pieces K = (if ex_stride K \<le> face_rows then 1 else 2)"

definition piece_bytes :: "exchange \<Rightarrow> nat" where
  "piece_bytes K = (if ex_stride K \<le> face_rows then ex_stride K else face_rows) * 64"

text \<open>Words of four bytes: the offsets of the source are multiples of 64.\<close>

definition piece_words :: "exchange \<Rightarrow> nat" where
  "piece_words K = piece_bytes K div 4"

definition slot_words :: "exchange \<Rightarrow> nat" where
  "slot_words K = ex_slot_bytes K div 4"

text \<open>The cores of the rectangle in the order of the two loops.\<close>

definition targets :: "exchange \<Rightarrow> core list" where
  "targets K = concat (map (\<lambda>y. map (\<lambda>x. (x, y)) [fst (ex_first K)..<Suc (fst (ex_last K))]) [snd (ex_first K)..<Suc (snd (ex_last K))])"

definition send_piece :: "exchange \<Rightarrow> nat \<Rightarrow> core \<Rightarrow> nat \<Rightarrow> exchange_instr list" where
  "send_piece K c target p =
     (let slot = c * slot_words K
      in map (\<lambda>i. Put (target, slot + p * piece_words K + i) (\<lambda>_. ex_part K c (p * 2 * face_elems + i))) [0..<piece_words K])"

definition send_part :: "exchange \<Rightarrow> nat \<Rightarrow> exchange_instr list" where
  "send_part K c = concat (map (\<lambda>target. concat (map (send_piece K c target) [0..<pieces K])) (targets K))"

definition tell_others :: "exchange \<Rightarrow> nat \<Rightarrow> exchange_instr list" where
  "tell_others K c = concat (map (\<lambda>target. if target \<noteq> ex_self K c then [Inc target] else []) (targets K))"

definition exchange_main :: "exchange \<Rightarrow> nat \<Rightarrow> exchange_instr list" where
  "exchange_main K c = send_part K c @ [Barrier] @
     (if 1 < ex_cores K then tell_others K c @ [Wait (ex_self K c) (ex_cores K - 1), Reset (ex_self K c)] else [])"

text \<open>The cores are the rectangle, and a slot holds its pieces.\<close>

definition exchange_ok :: "exchange \<Rightarrow> bool" where
  "exchange_ok K \<longleftrightarrow> ex_stride K \<in> {4, 8, 16, 32} \<and> ex_slot_bytes K = ex_stride K * 64 \<and>
     inj_on (ex_self K) {..<ex_cores K} \<and> ex_self K ` {..<ex_cores K} = set (targets K)"

definition exchange_word :: "exchange \<Rightarrow> core \<times> nat \<Rightarrow> u32" where
  "exchange_word K l =
     (let c = snd l div slot_words K; w = snd l mod slot_words K in ex_part K c (w div piece_words K * 2 * face_elems + w mod piece_words K))"

section \<open>The texts\<close>

lemma slot_pieces:
  assumes "exchange_ok K"
  shows "0 < piece_words K" "slot_words K = pieces K * piece_words K"
  using assms by (auto simp: exchange_ok_def piece_words_def piece_bytes_def slot_words_def pieces_def face_rows_def)

lemma distinct_targets: "distinct (targets K)"
proof -
  have "distinct (concat (map (\<lambda>y. map (\<lambda>x. (x, y)) xs) ys))" if "distinct xs" "distinct ys" for xs ys :: "nat list"
    using that(2) by (induction ys) (use that(1) in \<open>auto simp: distinct_map inj_on_def\<close>)
  then show ?thesis by (simp add: targets_def)
qed

definition others :: "exchange \<Rightarrow> nat \<Rightarrow> core list" where
  "others K c = filter (\<lambda>t. t \<noteq> ex_self K c) (targets K)"

lemma tell_others_map: "tell_others K c = map Inc (others K c)"
proof -
  have "concat (map (\<lambda>t. if t \<noteq> s then [Inc t] else []) ts) = map Inc (filter (\<lambda>t. t \<noteq> s) ts)" for s and ts :: "core list"
    by (induction ts) auto
  then show ?thesis by (simp add: tell_others_def others_def)
qed

definition sending :: "exchange \<Rightarrow> nat \<Rightarrow> exchange_instr list" where
  "sending K c = send_part K c @ [Barrier]"

lemma main_parts:
  "exchange_main K c = sending K c @
     (if 1 < ex_cores K then map Inc (others K c) @ [Wait (ex_self K c) (ex_cores K - 1), Reset (ex_self K c)] else [])"
  by (simp add: exchange_main_def sending_def tell_others_map)

lemma send_part_instr: "x \<in> set (send_part K c) \<longleftrightarrow>
    (\<exists>t p i. t \<in> set (targets K) \<and> p < pieces K \<and> i < piece_words K \<and>
      x = Put (t, c * slot_words K + p * piece_words K + i) (\<lambda>_. ex_part K c (p * 2 * face_elems + i)))"
proof -
  have "x \<in> set (concat (map f ts)) \<longleftrightarrow> (\<exists>t \<in> set ts. x \<in> set (f t))" for f :: "'b \<Rightarrow> exchange_instr list" and ts by simp
  note in_concat = this
  show ?thesis unfolding send_part_def send_piece_def Let_def in_concat by (simp add: image_iff Bex_def)
qed

lemma sending_instr: "x \<in> set (sending K c) \<Longrightarrow> x = Barrier \<or> (\<exists>l f. x = Put l f)"
  by (auto simp: sending_def send_part_instr)

text \<open>Where the other instructions of a program stand.\<close>

lemma main_cases:
  assumes "i < length (exchange_main K c)"
  obtains (send) l f where "exchange_main K c ! i = Put l f \<or> exchange_main K c ! i = Barrier"
  | (tell) s where "i < length (sending K c) + length (others K c)" "exchange_main K c ! i = Inc s"
  | (wait) "1 < ex_cores K" "i = length (sending K c) + length (others K c)" "exchange_main K c ! i = Wait (ex_self K c) (ex_cores K - 1)"
  | (reset) "1 < ex_cores K" "i = Suc (length (sending K c) + length (others K c))" "exchange_main K c ! i = Reset (ex_self K c)"
proof -
  let ?a = "length (sending K c)" and ?b = "length (others K c)"
  consider "i < ?a" | "\<not> i < ?a" "i < ?a + ?b" "1 < ex_cores K" | "1 < ex_cores K" "i = ?a + ?b" | "1 < ex_cores K" "i = Suc (?a + ?b)"
    using assms by (auto simp: main_parts less_Suc_eq split: if_splits)
  then show thesis
  proof cases
    case 1
    then show thesis using send sending_instr [OF nth_mem [OF 1]] by (auto simp: main_parts nth_append)
  next
    case 2
    then show thesis by (intro tell [of "others K c ! (i - ?a)"]) (auto simp: main_parts nth_append)
  next
    case 3
    then show thesis by (intro wait) (auto simp: main_parts nth_append)
  next
    case 4
    then show thesis by (intro reset) (auto simp: main_parts nth_append)
  qed
qed

lemma main_at:
  assumes "i < length (exchange_main K c)"
  shows "exchange_main K c ! i = Wait s v \<Longrightarrow> 1 < ex_cores K \<and> i = length (sending K c) + length (others K c) \<and> s = ex_self K c \<and> v = ex_cores K - 1"
    and "exchange_main K c ! i = Reset s \<Longrightarrow> 1 < ex_cores K \<and> i = Suc (length (sending K c) + length (others K c)) \<and> s = ex_self K c"
  by (rule main_cases [OF assms]; auto)+

lemma inc_at:
  assumes "i < length (exchange_main K c)" "exchange_main K c ! i = Inc s"
  shows "i < length (sending K c) + length (others K c)"
  by (rule main_cases [OF assms(1)]) (use assms(2) in auto)

text \<open>Every other core counts itself once on a core's semaphore.\<close>

lemma count_incs:
  assumes "1 < ex_cores K"
  shows "card {e. e < length (exchange_main K d) \<and> exchange_main K d ! e = Inc s} = (if s \<in> set (others K d) then 1 else 0)"
proof -
  have none: "filter (\<lambda>x. x = Inc s) (sending K d) = []"
    using sending_instr [of _ K d] by (auto simp: filter_empty_conv)
  have "distinct (others K d)" using distinct_targets by (simp add: others_def)
  then have "length (filter (\<lambda>t. t = s) (others K d)) = card ({t. t = s} \<inter> set (others K d))" by (rule distinct_length_filter)
  moreover have "{t. t = s} \<inter> set (others K d) = (if s \<in> set (others K d) then {s} else {})" by auto
  ultimately have "length (filter (\<lambda>x. x = Inc s) (exchange_main K d)) = (if s \<in> set (others K d) then 1 else 0)"
    using assms none by (simp add: main_parts comp_def)
  then show ?thesis by (simp add: length_filter_conv_card)
qed

lemma incs_total:
  assumes ok: "exchange_ok K" and c: "c < ex_cores K" and more: "1 < ex_cores K"
  shows "card (incs (ex_cores K) (exchange_main K) (ex_self K c)) = ex_cores K - 1"
proof -
  let ?e = "\<lambda>d. {e. e < length (exchange_main K d) \<and> exchange_main K d ! e = Inc (ex_self K c)}"
  have "incs (ex_cores K) (exchange_main K) (ex_self K c) = (SIGMA d:{..<ex_cores K}. ?e d)" by (auto simp: incs_def)
  then have "card (incs (ex_cores K) (exchange_main K) (ex_self K c)) = (\<Sum>d<ex_cores K. card (?e d))" by (simp add: card_SigmaI)
  also have "\<dots> = (\<Sum>d<ex_cores K. if d = c then 0 else 1)"
  proof (rule sum.cong [OF refl])
    fix d assume d: "d \<in> {..<ex_cores K}"
    have "ex_self K c \<in> set (targets K)" using ok c unfolding exchange_ok_def by blast
    moreover have "ex_self K c = ex_self K d \<longleftrightarrow> d = c" using ok c d unfolding exchange_ok_def by (auto dest: inj_onD)
    ultimately have "ex_self K c \<in> set (others K d) \<longleftrightarrow> d \<noteq> c" by (simp add: others_def)
    then show "card (?e d) = (if d = c then 0 else 1)" using count_incs [OF more, of d "ex_self K c"] by simp
  qed
  also have "\<dots> = (\<Sum>d\<in>{..<ex_cores K} - {c}. 1)" by (rule sum.mono_neutral_cong_right) auto
  also have "\<dots> = ex_cores K - 1" using c by (simp add: card_Diff_singleton)
  finally show ?thesis .
qed

section \<open>The contract\<close>

lemma put_word:
  assumes "exchange_ok K" "Put l f \<in> set (exchange_main K c)"
  shows "f m = exchange_word K l"
proof -
  note sizes = slot_pieces [OF assms(1)]
  have "Put l f \<in> set (send_part K c)" using assms(2) by (auto simp: main_parts sending_def split: if_splits)
  then obtain t p i where p: "p < pieces K" "i < piece_words K" "l = (t, c * slot_words K + p * piece_words K + i)"
    "f = (\<lambda>_. ex_part K c (p * 2 * face_elems + i))" unfolding send_part_instr by blast
  have w: "p * piece_words K + i < slot_words K"
  proof -
    have "p * piece_words K + i < Suc p * piece_words K" using p(2) by simp
    also have "\<dots> \<le> pieces K * piece_words K" using p(1) by (intro mult_le_mono1) simp
    finally show ?thesis by (simp add: sizes(2))
  qed
  then have "snd l div slot_words K = c" "snd l mod slot_words K = p * piece_words K + i"
    using index_div [OF w, of c] index_mod [OF w, of c] by (simp_all add: p(3) add.assoc)
  then show ?thesis using p(2,4) by (simp add: exchange_word_def Let_def)
qed

interpretation row_maxima: noc_protocol exchange_ok ex_cores exchange_main exchange_word "\<lambda>_ _ _. 0"
proof
  fix K c i l f and m :: "core \<times> nat \<Rightarrow> u32 option"
  assume "exchange_ok K" "i < length (exchange_main K c)" "exchange_main K c ! i = Put l f"
  then show "f m = exchange_word K l" by (metis nth_mem put_word)
next
  fix K c i s v
  assume "exchange_ok K" "c < ex_cores K" "i < length (exchange_main K c)" "exchange_main K c ! i = Wait s v"
  then show "v = card (incs (ex_cores K) (exchange_main K) s)" using main_at(1) incs_total by metis
next
  fix K c i s v d e
  assume "exchange_ok K" and c: "c < ex_cores K" and d: "d < ex_cores K"
    and w: "i < length (exchange_main K c)" "exchange_main K c ! i = Wait s v" "e < length (exchange_main K d)" "exchange_main K d ! e = Reset s"
  then have "ex_self K d = ex_self K c" using main_at(1) main_at(2) by metis
  then have "d = c" using \<open>exchange_ok K\<close> c d unfolding exchange_ok_def by (auto dest: inj_onD)
  then show "d = c \<and> i < e" using main_at(1) [OF w(1,2)] main_at(2) [OF w(3,4)] by simp
next
  fix K c i s v d e j s' v'
  assume "(d, e) \<in> incs (ex_cores K) (exchange_main K) s" "j < e" "exchange_main K d ! j = Wait s' v'"
  then have "e < length (exchange_main K d)" "exchange_main K d ! e = Inc s" "j < length (exchange_main K d)" by (auto simp: incs_def)
  then have False using inc_at [of e K d s] main_at(1) [of j K d s' v'] \<open>exchange_main K d ! j = Wait s' v'\<close> \<open>j < e\<close> by simp
  then show "(0 :: nat) < 0" ..
qed

section \<open>What the exchange leaves\<close>

text \<open>Word \<open>w\<close> of a core's gather buffer, over what it held before.\<close>

definition gather_buffer :: "(core \<times> nat \<Rightarrow> u32 option) \<Rightarrow> core \<Rightarrow> tile_words \<Rightarrow> nat \<Rightarrow> tile_words" where
  "gather_buffer M target stale i w = (case M (target, 1024 * i + w) of Some v \<Rightarrow> v | None \<Rightarrow> stale (1024 * i + w))"

text \<open>A core's writes have landed on every core when it comes to tell the others.\<close>

lemma sent_settled:
  assumes ok: "exchange_ok K" and t: "t \<in> set (targets K)" and k: "k < slot_words K" and i: "length (sending K d) \<le> i"
  shows "settled (exchange_main K d) i (t, d * slot_words K + k)"
proof -
  note sizes = slot_pieces [OF ok]
  have "k div piece_words K < pieces K" using k sizes by (simp add: less_mult_imp_div_less)
  moreover have "k mod piece_words K < piece_words K" using sizes(1) by simp
  moreover have "d * slot_words K + k div piece_words K * piece_words K + k mod piece_words K = d * slot_words K + k" by simp
  ultimately have "\<exists>f. Put (t, d * slot_words K + k) f \<in> set (send_part K d)" unfolding send_part_instr using t by metis
  then obtain f j where j: "j < length (send_part K d)" "send_part K d ! j = Put (t, d * slot_words K + k) f" by (auto simp: in_set_conv_nth)
  let ?b = "length (send_part K d)"
  have "?b < i" "?b < length (exchange_main K d)" using i by (simp_all add: sending_def main_parts)
  moreover have "exchange_main K d ! j = Put (t, d * slot_words K + k) f" "exchange_main K d ! ?b = Barrier"
    using j by (simp_all add: main_parts sending_def nth_append)
  ultimately show ?thesis unfolding settled_def using j(1) by blast
qed

text \<open>
  What a core knows at the end of its program: the others told it when their writes had landed, and
  its wait was for all of them.
\<close>

lemma exchange_known:
  assumes ok: "exchange_ok K" and t: "t \<in> set (targets K)" and c: "c < ex_cores K" and d: "d < ex_cores K" and k: "k < slot_words K"
  shows "known (ex_cores K) (exchange_main K) c (length (exchange_main K c)) (t, d * slot_words K + k)"
proof (cases "d = c")
  case True
  have "length (sending K c) \<le> length (exchange_main K c)" by (simp add: main_parts)
  from sent_settled [OF ok t k this] show ?thesis unfolding known_def True by blast
next
  case False
  then have more: "1 < ex_cores K" using c d by simp
  let ?j = "length (sending K c) + length (others K c)"
  have wait: "?j < length (exchange_main K c)" "exchange_main K c ! ?j = Wait (ex_self K c) (ex_cores K - 1)"
    using more by (simp_all add: main_parts nth_append)
  have "ex_self K c \<in> set (others K d)"
    using ok c d False unfolding exchange_ok_def others_def by (auto dest: inj_onD)
  then have "Inc (ex_self K c) \<in> set (exchange_main K d)" using more by (simp add: main_parts)
  then obtain e where e: "e < length (exchange_main K d)" "exchange_main K d ! e = Inc (ex_self K c)" by (auto simp: in_set_conv_nth)
  then have told: "(d, e) \<in> incs (ex_cores K) (exchange_main K) (ex_self K c)" using d by (simp add: incs_def)
  have "length (sending K d) \<le> e"
  proof (rule ccontr)
    assume "\<not> length (sending K d) \<le> e"
    then have "e < length (sending K d)" by simp
    then have "Inc (ex_self K c) \<in> set (sending K d)" using e(2) by (metis main_parts nth_append nth_mem)
    then show False using sending_instr by blast
  qed
  from wait told sent_settled [OF ok t k this] show ?thesis unfolding known_def by blast
qed

lemma exchange_received:
  assumes ok: "exchange_ok K" and run: "noc_run (ex_cores K) (exchange_main K) n noc_init w"
    and c: "c < ex_cores K" "length (exchange_main K c) \<le> pc w c"
    and t: "t \<in> set (targets K)" and d: "d < ex_cores K" and k: "k < slot_words K"
  shows "mem w (t, d * slot_words K + k) = Some (ex_part K d (k div piece_words K * 2 * face_elems + k mod piece_words K))"
proof -
  have "mem w (t, d * slot_words K + k) = Some (exchange_word K (t, d * slot_words K + k))"
    by (rule row_maxima.run_known [OF ok run c exchange_known [OF ok t c(1) d k]])
  then show ?thesis using index_div [OF k, of d] index_mod [OF k, of d] by (simp add: exchange_word_def)
qed

end
