(* ===== verification/QuantizeProgram.thy ===== *)
theory QuantizeProgram
  imports QuantizeRun QuantizeExchange
begin

text \<open>
  quantize_rows from its call to its outputs: the arguments of every core, the dense tiles against
  the pages of the input, the maxima that cross the cores against the rows, and what every run of
  the program leaves: the codes of the quotients by the rows' scales, and the scales.
\<close>

section \<open>Dense tiles\<close>

text \<open>The word of an element of a page.\<close>

definition elem_word :: "nat \<Rightarrow> nat \<Rightarrow> nat" where
  "elem_word r c = 16 * (16 * (2 * (r div 16) + c div 16) + r mod 16) + c mod 16"

lemma page_elem_word: "page_elem p r c = p (elem_word r c)"
  by (simp add: page_elem_def elem_word_def)

definition strided :: "quant_args \<Rightarrow> bool" where
  "strided a \<longleftrightarrow> qa_stride a \<in> {4, 8, 16, 32} \<and> qa_pack a = 32 div qa_stride a"

lemma split_256:
  fixes A B x y :: nat
  assumes "256 * A + x = 256 * B + y" "x < 256" "y < 256"
  shows "A = B" "x = y"
proof -
  have "A = (256 * A + x) div 256" "B = (256 * B + y) div 256" using assms(2,3) by simp_all
  then show "A = B" using assms(1) by simp
  then show "x = y" using assms(1) by simp
qed

lemma piece_covers:
  fixes stride jj n k m c f :: nat
  assumes k: "k * stride = 16" and bounds: "m < stride" "c < 32" "f < 2"
    and at: "at = (if n * stride < 16 then 0 else 2) * 256 + n * stride mod 16 * 16 + f * 256" "n < 2 * k" "jj < 2 * k"
  shows "at \<le> elem_word (jj * stride + m) c \<and> elem_word (jj * stride + m) c < at + stride * 16 \<longleftrightarrow> n = jj \<and> f = c div 16"
    and "n = jj \<Longrightarrow> f = c div 16 \<Longrightarrow> elem_word (jj * stride + m) c = at + (16 * m + c mod 16)"
    and "elem_word m c = c div 16 * 256 + (16 * m + c mod 16)"
proof -
  have pos: "0 < k" "0 < stride" using k by (auto intro: Nat.gr0I)
  have parts: "x * stride div 16 = x div k" "x * stride mod 16 = x mod k * stride" for x
    using pos k div_mult_mult2 [of stride x k] mult_mod_left [of x k stride] by (simp_all add: k [symmetric])
  have step: "x mod k * stride + stride \<le> 16" for x
  proof -
    have "Suc (x mod k) * stride \<le> k * stride" using pos(1) by (intro mult_le_mono1) (simp add: Suc_leI)
    then show ?thesis using k by simp
  qed
  have row: "(jj * stride + m) div 16 = jj div k" "(jj * stride + m) mod 16 = jj mod k * stride + m"
  proof -
    have e: "jj * stride + m = 16 * (jj div k) + (jj mod k * stride + m)"
      using mult_div_mod_eq [of 16 "jj * stride"] by (simp only: parts add.assoc)
    have "jj mod k * stride + m < 16" using step [of jj] bounds(1) by simp
    then show "(jj * stride + m) div 16 = jj div k" "(jj * stride + m) mod 16 = jj mod k * stride + m" unfolding e by simp_all
  qed
  have half: "c div 16 < 2" "c mod 16 < 16" using bounds(2) by (simp_all add: less_mult_imp_div_less)
  have face: "(if n * stride < 16 then 0 else 2) = 2 * (n div k)"
  proof -
    have "n div k < 2" using at(2) by (simp add: less_mult_imp_div_less)
    moreover have "n * stride < 16 \<longleftrightarrow> n div k = 0" using pos by (simp add: k [symmetric] div_eq_0_iff)
    ultimately show ?thesis by auto
  qed
  let ?x = "16 * (jj mod k * stride + m) + c mod 16" and ?y = "16 * (n mod k * stride)"
  have w: "elem_word (jj * stride + m) c = 256 * (2 * (jj div k) + c div 16) + ?x" unfolding elem_word_def row by simp
  have a: "at = 256 * (2 * (n div k) + f) + ?y" unfolding at(1) face parts by simp
  have sixteen: "16 * u + v < 256" if "u < 16" "v < 16" for u v :: nat using that by linarith
  have x: "?x < 256" by (rule sixteen) (use step [of jj] bounds(1) half(2) in simp_all)
  have y: "?y + 16 * stride \<le> 256" using step [of n] by simp
  have "n = jj \<and> f = c div 16" if in_piece: "at \<le> elem_word (jj * stride + m) c" "elem_word (jj * stride + m) c < at + stride * 16"
  proof -
    obtain u where u: "elem_word (jj * stride + m) c = at + u" "u < stride * 16" using in_piece by (metis le_Suc_ex nat_add_left_cancel_less)
    then have eq: "256 * (2 * (jj div k) + c div 16) + ?x = 256 * (2 * (n div k) + f) + (?y + u)" unfolding w a by simp
    have "?y + u < 256" using u(2) y by linarith
    note same = split_256 [OF eq x this]
    have "A = B \<and> x = y" if "2 * A + x = 2 * B + y" "x < 2" "y < 2" for A B x y :: nat using that by presburger
    from this [OF same(1) half(1) bounds(3)] have "jj div k = n div k" "c div 16 = f" by simp_all
    moreover have "jj mod k = n mod k"
    proof -
      have "16 * (jj mod k * stride) + 16 * m + c mod 16 = 16 * (n mod k * stride) + u" "u < 16 * stride" using same(2) u(2) by (simp_all add: distrib_left)
      then have "jj mod k * stride + m < n mod k * stride + stride" "n mod k * stride < jj mod k * stride + stride"
        using half(2) bounds(1) by linarith+
      then have "jj mod k * stride < Suc (n mod k) * stride" "n mod k * stride < Suc (jj mod k) * stride" by simp_all
      then have "jj mod k < Suc (n mod k)" "n mod k < Suc (jj mod k)" by (simp_all only: mult_less_cancel2)
      then show ?thesis by simp
    qed
    ultimately show ?thesis by (metis div_mult_mod_eq)
  qed
  moreover have offset: "elem_word (jj * stride + m) c = at + (16 * m + c mod 16)" if "n = jj" "f = c div 16"
    unfolding w a that by simp
  moreover have "16 * m + c mod 16 < stride * 16" using bounds(1) half(2) by linarith
  ultimately show "at \<le> elem_word (jj * stride + m) c \<and> elem_word (jj * stride + m) c < at + stride * 16 \<longleftrightarrow> n = jj \<and> f = c div 16" by auto
  show "n = jj \<Longrightarrow> f = c div 16 \<Longrightarrow> elem_word (jj * stride + m) c = at + (16 * m + c mod 16)" by (rule offset)
  have "m < 16" using bounds(1) k pos by (metis dvd_imp_le dvd_triv_right less_le_trans zero_less_numeral)
  then show "elem_word m c = c div 16 * 256 + (16 * m + c mod 16)" by (simp add: elem_word_def)
qed

lemma strided_parts:
  assumes "strided a"
  shows "0 < qa_pack a" "qa_pack a * qa_stride a = 32" "qa_stride a \<le> 32" "0 < qa_stride a"
    "qa_pack a = 1 \<longleftrightarrow> qa_stride a = 32" "qa_pack a \<noteq> 1 \<Longrightarrow> \<exists>k. k * qa_stride a = 16 \<and> qa_pack a = 2 * k"
  using assms by (auto simp: strided_def)

lemma element_less: "r < 32 \<Longrightarrow> c < 32 \<Longrightarrow> elem_word r c < 1024"
  using element_word [of r c] by (simp add: elem_word_def)

lemma read_piece_at:
  assumes a: "strided a" and n: "n < qa_pack a" "jj < qa_pack a" and mc: "m < qa_stride a" "c < 32"
  shows "page_elem (read_piece a M d n p) (jj * qa_stride a + m) c =
    (if n = jj then page_elem (qm_input M (dense_page a d n)) m c else page_elem p (jj * qa_stride a + m) c)"
proof (cases "qa_pack a = 1")
  case True
  then have "m < 32" "n = 0" "jj = 0" using strided_parts(5) [OF a] n mc by simp_all
  then show ?thesis using True element_less [OF _ mc(2), of m]
    by (simp add: page_elem_word read_piece_def copy_piece_def face_elems_def)
next
  case False
  then obtain k where k: "k * qa_stride a = 16" "qa_pack a = 2 * k" using strided_parts(6) [OF a] by blast
  have at: "dense_at a n + f * 256 = (if n * qa_stride a < 16 then 0 else 2) * 256 + n * qa_stride a mod 16 * 16 + f * 256" for f
    by (simp add: dense_at_def Let_def face_rows_def face_elems_def)
  have n': "n < 2 * k" "jj < 2 * k" using n k(2) by simp_all
  note covers = piece_covers [OF k(1) mc _ at n']
  let ?page = "qm_input M (dense_page a d n)" and ?w = "elem_word (jj * qa_stride a + m) c"
  have one: "copy_piece (dense_at a n + f * 256) (f * 256) (qa_stride a * 16) ?page q ?w =
      (if n = jj \<and> f = c div 16 then ?page (elem_word m c) else q ?w)" if "f < 2" for f q
    using covers(1,2) [OF that] covers(3) [of 0] unfolding copy_piece_def by auto
  have "read_piece a M d n p = copy_piece (dense_at a n + 1 * 256) (1 * 256) (qa_stride a * 16) ?page
      (copy_piece (dense_at a n + 0 * 256) (0 * 256) (qa_stride a * 16) ?page p)"
    using False by (simp add: read_piece_def Let_def face_elems_def upt_rec)
  moreover have "c div 16 = 0 \<or> c div 16 = 1" using mc(2) by auto
  ultimately show ?thesis unfolding page_elem_word using one [of 0] one [of 1] by auto
qed

lemma dense_elem:
  assumes a: "strided a" and jj: "jj < dense_count a d" "dense_count a d \<le> qa_pack a" and mc: "m < qa_stride a" "c < 32"
  shows "page_elem (dense_tile a M d) (jj * qa_stride a + m) c = page_elem (qm_input M (dense_page a d jj)) m c"
proof -
  have "page_elem (fold (read_piece a M d) [0..<n] p) (jj * qa_stride a + m) c =
      (if jj < n then page_elem (qm_input M (dense_page a d jj)) m c else page_elem p (jj * qa_stride a + m) c)" if "n \<le> qa_pack a" for n p
    using that
  proof (induction n)
    case (Suc n)
    then show ?case using read_piece_at [OF a _ _ mc, of n jj] jj by (auto simp: less_Suc_eq)
  qed simp
  then show ?thesis using jj by (simp add: dense_tile_def)
qed

section \<open>The cores' arguments\<close>

definition quant_core_args :: "quantize_params \<Rightarrow> quantize_plan \<Rightarrow> quantize_share \<Rightarrow> quant_args" where
  "quant_core_args q p s = \<lparr>qa_stride = qp_stride p, qa_rows = qp_rows p, qa_pack = qp_pack p, qa_cores = quantize_cores p,
     qa_gather_tiles = gather_tiles p, qa_e5m2 = (qq_dtype q = FP8_E5M2), qa_fp8_max = fp8_max_bits q, qa_min_scale = qq_min_scale q,
     qa_first_dense = qs_first_dense s, qa_num_dense = qs_num_dense s, qa_last_count = qs_last_count s, qa_writes_scale = qs_writes_scale s\<rparr>"

definition args_at :: "quantize_params \<Rightarrow> quantize_plan \<Rightarrow> (core \<Rightarrow> core) \<Rightarrow> nat \<Rightarrow> quant_args" where
  "args_at q p noc_of i = quant_core_args q p (share_of p noc_of i)"

lemma args_fields [simp]:
  "qa_stride (args_at q p noc_of i) = qp_stride p" "qa_rows (args_at q p noc_of i) = qp_rows p" "qa_pack (args_at q p noc_of i) = qp_pack p"
  "qa_cores (args_at q p noc_of i) = quantize_cores p" "qa_gather_tiles (args_at q p noc_of i) = gather_tiles p"
  "qa_e5m2 (args_at q p noc_of i) = (qq_dtype q = FP8_E5M2)" "qa_fp8_max (args_at q p noc_of i) = fp8_max_bits q"
  "qa_min_scale (args_at q p noc_of i) = qq_min_scale q" "qa_writes_scale (args_at q p noc_of i) = (i = 0)"
  by (simp_all add: args_at_def quant_core_args_def share_of_def Let_def)

lemma args_strided: "plan_good p \<Longrightarrow> strided (args_at q p noc_of i)"
  by (simp add: strided_def plan_good_def)

lemma args_share:
  assumes "plan_good p" "i < quantize_cores p" "a = args_at q p noc_of i"
  shows "qa_first_dense a = share_start p i" "share_start p i + qa_num_dense a = share_start p (Suc i)" "share_start p (Suc i) \<le> qp_dense p"
  using share_fields(1,2) [OF assms(1,2), of noc_of] share_start_mono [of "Suc i" "quantize_cores p" p] share_start_end(2) [OF assms(1)] assms(2)
  by (simp_all add: assms(3) args_at_def quant_core_args_def)

lemma args_count:
  assumes good: "plan_good p" and i: "i < quantize_cores p" and a: "a = args_at q p noc_of i" and d: "d < qa_num_dense a"
  shows "dense_count a d = tile_count p (share_start p i + d)"
proof (cases "d + 1 = qa_num_dense a")
  case True
  have "0 < qs_num_dense (share_of p noc_of i)" using d by (simp add: a args_at_def quant_core_args_def)
  from share_fields(4) [OF good i this] have "qa_last_count a = tile_count p (share_start p (Suc i) - 1)" by (simp add: a args_at_def quant_core_args_def)
  moreover have "share_start p (Suc i) - 1 = share_start p i + d" using args_share(2) [OF good i a] True by simp
  ultimately show ?thesis using True by (simp add: dense_count_def)
next
  case False
  then have "Suc (share_start p i + d) < qp_dense p" using args_share(2,3) [OF good i a] d by simp
  with full_count [OF good this] False show ?thesis by (simp add: dense_count_def a)
qed

lemma args_page:
  assumes good: "plan_good p" and i: "i < quantize_cores p" and a: "a = args_at q p noc_of i" and jj: "jj < tile_count p (share_start p i + d)"
  shows "dense_page a d jj = (share_start p i + d) * qp_pack p + jj" "(share_start p i + d) * qp_pack p + jj < qp_tiles p" "jj < qp_pack p"
proof -
  show lt: "(share_start p i + d) * qp_pack p + jj < qp_tiles p" and "jj < qp_pack p"
    using jj by (simp_all add: tile_count_def less_diff_conv add.commute)
  moreover have "qp_tiles p < 134217728" using good by (simp add: plan_good_def)
  ultimately show "dense_page a d jj = (share_start p i + d) * qp_pack p + jj"
    unfolding dense_page_def args_share(1) [OF good i a] by (simp add: a w32_id)
qed

section \<open>The rows' maxima\<close>

text \<open>The magnitudes of row \<open>m\<close> in the tiles of a core, and in all tiles.\<close>

definition row_mags :: "quant_env \<Rightarrow> (nat \<Rightarrow> tile_words) \<Rightarrow> nat set \<Rightarrow> nat \<Rightarrow> u32 set" where
  "row_mags e pages tiles m = {row_bits e (qe_unpack e (page_elem (pages P) m c)) | P c. P \<in> tiles \<and> c < 32}"

definition share_tiles :: "quantize_plan \<Rightarrow> nat \<Rightarrow> nat set" where
  "share_tiles p i = {P. P < qp_tiles p \<and> share_start p i \<le> P div qp_pack p \<and> P div qp_pack p < share_start p (Suc i)}"

lemma finite_row_mags: "finite tiles \<Longrightarrow> finite (row_mags e pages tiles m)"
proof -
  assume "finite tiles"
  then have "finite ((\<lambda>(P, c). row_bits e (qe_unpack e (page_elem (pages P) m c))) ` (tiles \<times> {..<32}))" by simp
  then show ?thesis by (rule finite_subset [rotated]) (auto simp: row_mags_def)
qed

lemma all_shares:
  assumes "plan_good p"
  shows "(\<Union>i < quantize_cores p. share_tiles p i) = {..<qp_tiles p}"
proof
  show "{..<qp_tiles p} \<subseteq> (\<Union>i < quantize_cores p. share_tiles p i)"
  proof
    fix P assume P: "P \<in> {..<qp_tiles p}"
    have "P div qp_pack p * qp_pack p \<le> P" by simp
    then have "P div qp_pack p < qp_dense p" using P plan_dense(3) [OF assms] by (metis le_less_trans lessThan_iff)
    from share_of_dense [OF assms this] show "P \<in> (\<Union>i < quantize_cores p. share_tiles p i)" using P by (auto simp: share_tiles_def)
  qed
qed (auto simp: share_tiles_def)

lemma row_mags_UN: "(\<Union>i \<in> I. row_mags e pages (T i) m) = row_mags e pages (\<Union>i \<in> I. T i) m"
  by (auto simp: row_mags_def)

lemma loaded_elem: "page_elem (loaded_tile e a M d) r c = qe_unpack e (page_elem (dense_tile a M d) r c)"
  by (simp add: page_elem_def loaded_tile_def)

lemma core_row_set:
  assumes good: "plan_good p" and i: "i < quantize_cores p" and a: "a = args_at q p noc_of i" and m: "m < qp_stride p"
  shows "row_set e (groups_of a) (loaded_tile e a M) (bands_of a) (qa_num_dense a) m = row_mags e (qm_input M) (share_tiles p i) m"
proof -
  have st: "strided a" using args_strided [OF good] by (simp add: a)
  have stride: "4 * groups_of a = qp_stride p" "0 < qp_stride p" "qp_pack p * qp_stride p = 32"
    using good by (auto simp: groups_of_def a plan_good_def)
  note share = args_share [OF good i a]
  have pages: "page_elem (dense_tile a M d) (jj * qp_stride p + m) c = page_elem (qm_input M ((share_start p i + d) * qp_pack p + jj)) m c"
    if "d < qa_num_dense a" "jj < tile_count p (share_start p i + d)" "c < 32" for d jj c
    using dense_elem [OF st, of jj d m c M] args_count [OF good i a that(1)] args_page [OF good i a that(2)] that m
    by (simp add: a tile_count_def)
  have bands: "r div 4 < bands_of a d \<longleftrightarrow> r div qp_stride p < dense_count a d" for r d
  proof -
    have "bands_of a d = dense_count a d * groups_of a" using good by (auto simp: bands_of_def groups_of_def a plan_good_def)
    moreover have "r div qp_stride p = r div 4 div groups_of a" by (simp add: div_mult2_eq [symmetric] stride(1))
    moreover have "0 < groups_of a" using stride by simp
    ultimately show ?thesis by (simp add: div_less_iff_less_mult)
  qed
  show ?thesis
  proof (intro subset_antisym subsetI)
    fix v assume "v \<in> row_set e (groups_of a) (loaded_tile e a M) (bands_of a) (qa_num_dense a) m"
    then obtain d r c where v: "v = row_bits e (page_elem (loaded_tile e a M d) r c)" "d < qa_num_dense a" "c < 32"
      "r div qp_stride p < dense_count a d" "r mod qp_stride p = m" unfolding row_set_def stride(1) bands by blast
    let ?jj = "r div qp_stride p" and ?D = "share_start p i + d"
    have r: "r = ?jj * qp_stride p + m" using v(5) by (metis div_mult_mod_eq)
    have jj: "?jj < tile_count p ?D" using v(4) args_count [OF good i a v(2)] by simp
    note P = args_page(2,3) [OF good i a jj]
    have "v = row_bits e (qe_unpack e (page_elem (qm_input M (?D * qp_pack p + ?jj)) m c))"
      using v(1) pages [OF v(2) jj v(3)] r by (simp add: loaded_elem)
    moreover have "(?D * qp_pack p + ?jj) div qp_pack p = ?D" using P(2) by (rule index_div)
    then have "?D * qp_pack p + ?jj \<in> share_tiles p i" using P(1) v(2) share(2) by (simp add: share_tiles_def)
    ultimately show "v \<in> row_mags e (qm_input M) (share_tiles p i) m" using v(3) unfolding row_mags_def by blast
  next
    fix v assume "v \<in> row_mags e (qm_input M) (share_tiles p i) m"
    then obtain P c where v: "v = row_bits e (qe_unpack e (page_elem (qm_input M P) m c))" "P \<in> share_tiles p i" "c < 32"
      unfolding row_mags_def by blast
    let ?d = "P div qp_pack p - share_start p i" and ?jj = "P mod qp_pack p"
    have D: "share_start p i + ?d = P div qp_pack p" "?d < qa_num_dense a" "P < qp_tiles p"
      using v(2) share(2) by (auto simp: share_tiles_def)
    have P: "(share_start p i + ?d) * qp_pack p + ?jj = P" by (simp add: D(1))
    have pack: "0 < qp_pack p" by (rule plan_dense(4) [OF good])
    then have jj: "?jj < tile_count p (share_start p i + ?d)" using D(3) P by (simp add: tile_count_def)
    let ?r = "?jj * qp_stride p + m"
    have "Suc ?jj * qp_stride p \<le> qp_pack p * qp_stride p" using pack by (intro mult_le_mono1) (simp add: Suc_leI)
    then have r32: "?r < 32" using m stride(3) by simp
    have r: "?r div qp_stride p = ?jj" "?r mod qp_stride p = m" using index_div [OF m] index_mod [OF m] by simp_all
    have "v = row_bits e (page_elem (loaded_tile e a M ?d) ?r c)" using v(1) pages [OF D(2) jj v(3)] unfolding P by (simp add: loaded_elem)
    moreover have "?r div 4 < bands_of a ?d" unfolding bands r using jj args_count [OF good i a D(2)] by simp
    ultimately show "v \<in> row_set e (groups_of a) (loaded_tile e a M) (bands_of a) (qa_num_dense a) m"
      unfolding row_set_def stride(1) using D(2) r32 v(3) r(2) by blast
  qed
qed

section \<open>The exchange\<close>

definition core_noc :: "quantize_plan \<Rightarrow> (core \<Rightarrow> core) \<Rightarrow> nat \<Rightarrow> core" where
  "core_noc p noc_of i = noc_of (i mod qp_width p, i div qp_width p)"

definition exchange_of :: "quantize_plan \<Rightarrow> (core \<Rightarrow> core) \<Rightarrow> (nat \<Rightarrow> tile_words) \<Rightarrow> exchange" where
  "exchange_of p noc_of parts = \<lparr>ex_stride = qp_stride p, ex_cores = quantize_cores p, ex_slot_bytes = slot_bytes p,
     ex_first = noc_of (0, 0), ex_last = noc_of (qp_width p - 1, qp_height p - 1), ex_self = core_noc p noc_of, ex_part = parts\<rparr>"

text \<open>The rectangle's cores are adjacent on the NoC.\<close>

definition adjacent_cores :: "quantize_plan \<Rightarrow> (core \<Rightarrow> core) \<Rightarrow> bool" where
  "adjacent_cores p noc_of \<longleftrightarrow> (\<forall>x < qp_width p. \<forall>y < qp_height p. noc_of (x, y) = (fst (noc_of (0, 0)) + x, snd (noc_of (0, 0)) + y))"

lemma core_of_index: "i < w * h \<Longrightarrow> i mod w < w \<and> i div w < (h :: nat)"
  by (metis gr_implies_not0 less_mult_imp_div_less mod_less_divisor mult.commute mult_is_0 neq0_conv)

lemma exchange_fits:
  assumes good: "plan_good p" and adj: "adjacent_cores p noc_of"
  shows "exchange_ok (exchange_of p noc_of parts)"
proof -
  let ?w = "qp_width p" and ?h = "qp_height p" and ?K = "exchange_of p noc_of parts"
  obtain x0 y0 where origin: "noc_of (0, 0) = (x0, y0)" by fastforce
  have wh: "0 < ?w" "0 < ?h" using good by (simp_all add: plan_good_def)
  have noc: "noc_of (x, y) = (x0 + x, y0 + y)" if "x < ?w" "y < ?h" for x y using adj that by (simp add: adjacent_cores_def origin)
  have self: "core_noc p noc_of i = (x0 + i mod ?w, y0 + i div ?w)" if "i < quantize_cores p" for i
    using core_of_index [of i ?w ?h] that noc by (simp add: core_noc_def plan_cores(1) [OF good])
  have "inj_on (core_noc p noc_of) {..<quantize_cores p}"
  proof (rule inj_onI)
    fix i j assume "i \<in> {..<quantize_cores p}" "j \<in> {..<quantize_cores p}" "core_noc p noc_of i = core_noc p noc_of j"
    then have "i mod ?w = j mod ?w" "i div ?w = j div ?w" using self by simp_all
    then show "i = j" by (metis div_mult_mod_eq)
  qed
  moreover have "core_noc p noc_of ` {..<quantize_cores p} = set (targets ?K)"
  proof -
    have t: "set (targets ?K) = {x0..<x0 + ?w} \<times> {y0..<y0 + ?h}"
      using noc [of "?w - 1" "?h - 1"] wh by (auto simp: targets_def exchange_of_def origin)
    show ?thesis
    proof (intro subset_antisym subsetI)
      fix s assume "s \<in> core_noc p noc_of ` {..<quantize_cores p}"
      then obtain i where "i < quantize_cores p" "s = core_noc p noc_of i" by auto
      then show "s \<in> set (targets ?K)" unfolding t using self core_of_index [of i ?w ?h] by (simp add: plan_cores(1) [OF good])
    next
      fix s assume "s \<in> set (targets ?K)"
      then obtain x y where s: "s = (x0 + x, y0 + y)" "x < ?w" "y < ?h" unfolding t
        by (metis (no_types, lifting) SigmaE atLeastLessThan_iff le_Suc_ex nat_add_left_cancel_less)
      have "y * ?w + x < Suc y * ?w" using s(2) by simp
      also have "\<dots> \<le> ?h * ?w" using s(3) by (intro mult_le_mono1) simp
      finally have i: "y * ?w + x < quantize_cores p" by (simp add: plan_cores(1) [OF good] mult.commute)
      have "core_noc p noc_of (y * ?w + x) = s" using self [OF i] index_div [OF s(2), of y] index_mod [OF s(2), of y] s(1) by simp
      then show "s \<in> core_noc p noc_of ` {..<quantize_cores p}" using i by blast
    qed
  qed
  ultimately show ?thesis using good gather_tiles_count(1) [OF good] by (simp add: exchange_ok_def exchange_of_def plan_good_def)
qed

text \<open>
  A word of the gather buffer of a core that has come to the end of its exchange is the row maximum
  that its core sent.
\<close>

lemma gathered_part:
  assumes good: "plan_good p" and X: "X = exchange_of p noc_of parts" and ok: "exchange_ok X"
    and run: "noc_run (ex_cores X) (exchange_main X) n noc_init w" "length (exchange_main X i) \<le> pc w i"
    and i: "i < quantize_cores p" and d: "d < quantize_cores p" and q: "q < qp_stride p div 4" and l: "l < 32"
  shows "gather_word (gather_buffer (mem w) (core_noc p noc_of i) stale) (d * (qp_stride p div 4) + q) l =
    page_elem (parts d) (4 * q + l div 8) (2 * (l mod 8))"
proof -
  let ?g = "qp_stride p div 4" and ?t = "core_noc p noc_of i" and ?c = "2 * (l mod 8)" and ?r = "4 * q + l div 8"
  let ?K = "d * ?g + q" and ?k = "16 * ?r + ?c"
  have stride: "qp_stride p \<in> {4, 8, 16, 32}" using good by (simp add: plan_good_def)
  then have g: "4 * ?g = qp_stride p" by auto
  have slot: "slot_words X = 64 * ?g" using stride gather_tiles_count(1) [OF good] by (auto simp: slot_words_def X exchange_of_def)
  have l8: "l div 8 < 4" "?c < 16" using l by auto
  have r: "?r < qp_stride p"
  proof -
    have "4 * q + 4 \<le> 4 * ?g" using q by linarith
    then show ?thesis using l8(1) g by linarith
  qed
  have "16 * u + v < 16 * s" if "u < s" "v < 16" for u v s :: nat using that by linarith
  from this [OF r l8(2)] have off: "?k < slot_words X" using g unfolding slot by linarith
  have t: "?t \<in> set (targets X)" using ok i unfolding exchange_ok_def by (auto simp: X exchange_of_def)
  have "gather_word (gather_buffer (mem w) ?t stale) ?K l =
      (case mem w (?t, 1024 * (?K div 16) + (64 * (?K mod 16) + 16 * (l div 8) + ?c)) of Some v \<Rightarrow> v
       | None \<Rightarrow> stale (1024 * (?K div 16) + (64 * (?K mod 16) + 16 * (l div 8) + ?c)))"
    by (simp add: gather_word_def gather_buffer_def)
  moreover have "1024 * (?K div 16) + (64 * (?K mod 16) + 16 * (l div 8) + ?c) = d * slot_words X + ?k"
  proof -
    have "64 * ?K = 64 * (16 * (?K div 16) + ?K mod 16)" by simp
    then have "1024 * (?K div 16) + 64 * (?K mod 16) = 64 * ?K" by (simp only: distrib_left mult.assoc [symmetric])
    then show ?thesis unfolding slot by (simp add: algebra_simps)
  qed
  moreover have "mem w (?t, d * slot_words X + ?k) = Some (ex_part X d (?k div piece_words X * 2 * face_elems + ?k mod piece_words X))"
    by (rule exchange_received [OF ok run(1) _ run(2) t _ off]) (use i d in \<open>simp_all add: X exchange_of_def\<close>)
  ultimately have word: "gather_word (gather_buffer (mem w) ?t stale) ?K l = parts d (?k div piece_words X * 2 * face_elems + ?k mod piece_words X)"
    by (simp add: X exchange_of_def)
  have "?k div piece_words X * 2 * face_elems + ?k mod piece_words X = elem_word ?r ?c"
  proof (cases "qp_stride p = 32")
    case True
    then have "piece_words X = 256" by (simp add: piece_words_def piece_bytes_def X exchange_of_def face_rows_def)
    moreover have "(16 * u + v) div 16 = u" "(16 * u + v) mod 16 = v" if "v < 16" for u v :: nat using that by simp_all
    note low = this [OF l8(2), of ?r]
    have wide: "(256 :: nat) = 16 * 16" by simp
    have "?k div 256 = ?r div 16" unfolding wide div_mult2_eq low(1) ..
    moreover have "?k mod 256 = 16 * (?r mod 16) + ?c" unfolding wide mod_mult2_eq low ..
    ultimately show ?thesis using l8(2) by (simp add: elem_word_def face_elems_def)
  next
    case False
    then have s: "qp_stride p \<le> 16" using stride by auto
    then have "piece_words X = 64 * ?g" using g by (simp add: piece_words_def piece_bytes_def X exchange_of_def face_rows_def)
    then have "?k div piece_words X = 0" "?k mod piece_words X = ?k" using off unfolding slot by simp_all
    moreover have "?r < 16" using r s by simp
    ultimately show ?thesis using l8(2) by (simp add: elem_word_def)
  qed
  then show ?thesis by (simp only: word page_elem_word)
qed

section \<open>The scales\<close>

definition row_scale :: "quant_env \<Rightarrow> quantize_params \<Rightarrow> nat \<Rightarrow> (nat \<Rightarrow> tile_words) \<Rightarrow> nat \<Rightarrow> u32" where
  "row_scale e q tiles pages m = scale_of e (fp8_max_bits q) (qq_min_scale q) (greatest (row_mags e pages {..<tiles} m))"

lemma part_rows:
  assumes env: "quant_env_ok e" and good: "plan_good p" and i: "i < quantize_cores p" and a: "a = args_at q p noc_of i"
    and m: "m < qp_stride p" and c: "c < 16"
  shows "page_elem (part_of e a M) m c = greatest (row_mags e (qm_input M) (share_tiles p i) m)"
proof -
  have g: "0 < groups_of a" "groups_of a \<le> 8" "m < 4 * groups_of a" using good m by (auto simp: groups_of_def a plan_good_def)
  show ?thesis
    unfolding part_of_def partial_row [OF env one_neq_zero g c] core_row_set [OF good i a m] ..
qed

text \<open>The divisor tile of a core whose gather buffer holds what the exchange leaves.\<close>

lemma divisor_rows:
  assumes env: "quant_env_ok e" and good: "plan_good p" and adj: "adjacent_cores p noc_of" and i: "i < quantize_cores p" and rc: "r < 32" "c < 32"
    and parts: "\<And>d. d < quantize_cores p \<Longrightarrow> qm_input (M d) = pages \<and> parts d = part_of e (args_at q p noc_of d) (M d)"
    and X: "X = exchange_of p noc_of parts"
    and run: "noc_run (ex_cores X) (exchange_main X) n noc_init w" "length (exchange_main X i) \<le> pc w i"
    and received: "qm_received (M i) = gather_buffer (mem w) (core_noc p noc_of i) stale"
  shows "tile_at (divisor_of e (args_at q p noc_of i) (M i) first) 0 r c = row_scale e q (qp_tiles p) pages (r mod qp_stride p)"
proof -
  let ?a = "args_at q p noc_of i" and ?g = "qp_stride p div 4" and ?G = "gather_buffer (mem w) (core_noc p noc_of i) stale"
  let ?nb = "quantize_cores p * ?g" and ?m = "r mod qp_stride p" and ?l = "elem_lane r c" and ?q = "r div 4 mod ?g"
  have ok: "exchange_ok X" unfolding X by (rule exchange_fits [OF good adj])
  have stride: "qp_stride p \<in> {4, 8, 16, 32}" using good by (simp add: plan_good_def)
  then have g: "0 < ?g" "?g dvd 8" "4 * ?g = qp_stride p" "?g \<le> 8" by auto
  have "?nb \<le> 65535 * 8" using plan_cores(3) [OF good] g(4) by (intro mult_le_mono) simp_all
  then have nb: "?nb < 4294967296" by simp
  then have bands: "total_bands ?a = ?nb" by (simp add: total_bands_def groups_of_def w32_id)
  have tiles: "gather_tiles p = div_up ?nb 16" by (rule gather_tiles_count(2) [OF good])
  have whole: "?nb \<le> 16 * gather_tiles p" using div_up_mult_ge [of 16 ?nb] by (simp add: tiles mult.commute)
  have within: "16 * k < ?nb" if "k < gather_tiles p" for k using that less_div_up_iff [of 16 k ?nb] by (simp add: tiles mult.commute)
  have word: "gather_word ?G (d * ?g + q') l = greatest (row_mags e pages (share_tiles p d) (4 * q' + l div 8))"
    if "d < quantize_cores p" "q' < ?g" "l < 32" for d q' l
  proof -
    have "4 * q' + 4 \<le> 4 * ?g" using that(2) by linarith
    moreover have "l div 8 < 4" using that(3) by auto
    ultimately have row: "4 * q' + l div 8 < qp_stride p" using g(3) by linarith
    have "2 * (l mod 8) < 16" by simp
    from part_rows [OF env good that(1) refl row this] show ?thesis
      using gathered_part [OF good X ok run i that] parts [OF that(1)] by simp
  qed
  have clean: "clean e (gather_word ?G K l)" if "K < ?nb" "l < 32" for K l
  proof -
    have "K div ?g < quantize_cores p" "K mod ?g < ?g" using that(1) g(1) by (simp_all add: less_mult_imp_div_less)
    from word [OF this that(2)] have "gather_word ?G K l = greatest (row_mags e pages (share_tiles p (K div ?g)) (4 * (K mod ?g) + l div 8))"
      by (simp only: div_mult_mod_eq)
    moreover have "clean e (greatest (row_mags e pages (share_tiles p d) m))" for d m
      by (rule greatest_clean [OF env finite_row_mags]) (auto simp: share_tiles_def row_mags_def row_bits_clean [OF env])
    ultimately show ?thesis by simp
  qed
  have q: "?q < ?g" using g(1) by simp
  have "qp_stride p = 4 * ?g" by (simp add: g(3))
  then have m: "4 * ?q + r mod 4 = ?m" using mod_mult2_eq [of r 4 ?g] by simp
  have lane: "?l < 32" "?l div 8 = r mod 4" using elem_lane_less [of r c] by (simp_all add: elem_lane_def)
  have "gather_set ?G ?g ?nb ?q ?l = (\<lambda>d. greatest (row_mags e pages (share_tiles p d) ?m)) ` {..<quantize_cores p}"
  proof -
    have "{K. K < ?nb \<and> K mod ?g = ?q} = (\<lambda>d. d * ?g + ?q) ` {..<quantize_cores p}"
    proof (intro subset_antisym subsetI)
      fix K assume "K \<in> {K. K < ?nb \<and> K mod ?g = ?q}"
      then have "K = K div ?g * ?g + ?q" "K div ?g < quantize_cores p" using g(1) by (auto simp: less_mult_imp_div_less) (metis div_mult_mod_eq)
      then show "K \<in> (\<lambda>d. d * ?g + ?q) ` {..<quantize_cores p}" by blast
    next
      fix K assume "K \<in> (\<lambda>d. d * ?g + ?q) ` {..<quantize_cores p}"
      then obtain d where d: "K = d * ?g + ?q" "d < quantize_cores p" by blast
      have "d * ?g + ?q < Suc d * ?g" using q by simp
      also have "\<dots> \<le> ?nb" using d(2) by (intro mult_le_mono1) simp
      finally show "K \<in> {K. K < ?nb \<and> K mod ?g = ?q}" using index_mod [OF q, of d] d(1) by simp
    qed
    then have "gather_set ?G ?g ?nb ?q ?l = (\<lambda>d. gather_word ?G (d * ?g + ?q) ?l) ` {..<quantize_cores p}" by (simp add: gather_set_def image_image)
    also have "\<dots> = (\<lambda>d. greatest (row_mags e pages (share_tiles p d) ?m)) ` {..<quantize_cores p}"
      by (rule image_cong [OF refl]) (use word [OF _ q lane(1)] in \<open>simp add: lane(2) m\<close>)
    finally show ?thesis .
  qed
  moreover have "finite (share_tiles p d)" for d by (simp add: share_tiles_def)
  then have "greatest ((\<lambda>d. greatest (row_mags e pages (share_tiles p d) ?m)) ` {..<quantize_cores p}) = greatest (row_mags e pages {..<qp_tiles p} ?m)"
    using greatest_UN [of "{..<quantize_cores p}" "\<lambda>d. row_mags e pages (share_tiles p d) ?m"] by (simp add: finite_row_mags row_mags_UN all_shares [OF good])
  moreover have "tile_at (divisor_of e ?a (M i) first) 0 r c = scale_of e (fp8_max_bits q) (qq_min_scale q) (greatest (gather_set ?G ?g ?nb ?q ?l))"
    unfolding divisor_of_def received args_fields bands
    using make_divisor_at [where gather = ?G, OF env _ _ _ g(1,2) rc nb within whole clean, of 1 0 2] by (simp add: groups_of_def)
  ultimately show ?thesis by (simp add: row_scale_def)
qed

section \<open>The codes\<close>

definition row_code :: "quant_env \<Rightarrow> quantize_params \<Rightarrow> u32 \<Rightarrow> u32 \<Rightarrow> u8" where
  "row_code e q scale x = qe_pack8 e (qe_convert e (qq_dtype q = FP8_E5M2) (qe_divide e (qe_unpack e x) scale))"

lemma row_parity: "plan_good p \<Longrightarrow> r mod qp_stride p < qp_rows p \<Longrightarrow> r mod 4 < qp_rows p"
proof -
  assume good: "plan_good p" and r: "r mod qp_stride p < qp_rows p"
  have "4 dvd qp_stride p" using good by (auto simp: plan_good_def)
  then have "r mod 4 = r mod qp_stride p mod 4" by (simp add: mod_mod_cancel)
  also have "\<dots> \<le> r mod qp_stride p" by simp
  finally show "r mod 4 < qp_rows p" using r by simp
qed

lemma quantized_elem:
  assumes a: "a = args_at q p noc_of i" and d: "d < qa_num_dense a" and rc: "r < 32" "c < 32" and row: "r mod 4 < qp_rows p"
  shows "page_elem (codes_of e a M d) r c =
      ucast (row_code e q (tile_at (divisor_of e a M (d - d mod 3)) 0 r c) (page_elem (dense_tile a M d) r c))"
    and "page_elem (pack_tile 0 (chunk_dest e a M (d - d mod 3))) r c = tile_at (divisor_of e a M (d - d mod 3)) 0 r c"
proof -
  let ?first = "d - d mod 3" and ?j = "d mod 3"
  have n: "chunk_len a ?first \<le> 3" "?j < chunk_len a ?first" "?first + ?j = d"
    using d by (auto simp: chunk_len_def chunk_tiles_def)
  have "r mod 4 < qa_rows a" using row by (simp add: a)
  note elem = quantize_tiles_elem [OF n(1,2) _ rc this refl, of 0 1 e "qa_e5m2 a" "dense_tile a M" ?first "divisor_of e a M ?first"]
  have "page_elem (codes_of e a M d) r c = ucast (qe_pack8 e (page_elem (pack_tile (1 + ?j) (chunk_dest e a M ?first)) r c))"
    by (simp add: codes_of_def code_tile_def page_elem_def)
  then show "page_elem (codes_of e a M d) r c =
      ucast (row_code e q (tile_at (divisor_of e a M ?first) 0 r c) (page_elem (dense_tile a M d) r c))"
    using elem(1) n(3) by (simp add: packed_tile chunk_dest_def row_code_def a)
  show "page_elem (pack_tile 0 (chunk_dest e a M ?first)) r c = tile_at (divisor_of e a M ?first) 0 r c"
    using elem(2) by (simp add: packed_tile chunk_dest_def a)
qed

text \<open>The bytes that the writes carry, by page.\<close>

definition code_spec :: "quant_args \<Rightarrow> (nat \<Rightarrow> tile_words) \<Rightarrow> pages" where
  "code_spec a codes P k = ucast (codes (P div qa_pack a) (dense_at a (P mod qa_pack a) + k))"

lemma dense_at_args: "dense_at (args_at q p noc_of i) = dense_at (args_at q p noc_of 0)"
  by (simp add: dense_at_def fun_eq_iff)

lemma puts_agree:
  assumes good: "plan_good p" and i: "i < quantize_cores p" and a: "a = args_at q p noc_of i" and d: "d < qa_num_dense a"
    and codes: "codes (share_start p i + d) = codes_of e a M d" and w: "put \<in> set (dense_puts e a M d)"
  shows "put_agrees (code_spec (args_at q p noc_of 0) codes) put"
proof -
  from w obtain jj where jj: "jj < dense_count a d" "put \<in> set (write_pieces a d jj (codes_of e a M d))" by (auto simp: dense_puts_def)
  then have "jj < tile_count p (share_start p i + d)" using args_count [OF good i a d] by simp
  note page = args_page [OF good i a this]
  let ?P = "dense_page a d jj"
  have P: "?P div qp_pack p = share_start p i + d" "?P mod qp_pack p = jj" unfolding page(1) by (rule index_div [OF page(3)], rule index_mod [OF page(3)])
  have spec: "code_spec (args_at q p noc_of 0) codes ?P k = ucast (codes_of e a M d (dense_at a jj + k))" for k
    by (simp add: code_spec_def P codes dense_at_args [of q p noc_of i, symmetric] flip: a)
  show ?thesis
  proof (cases "qp_pack p = 1")
    case True
    then have "jj = 0" using page(3) by simp
    then have "dense_at a jj = 0" by (simp add: dense_at_def face_rows_def)
    moreover have "put = (?P, 0, code_bytes (codes_of e a M d) 0 (4 * face_elems))" using jj(2) True by (simp add: write_pieces_def a Let_def)
    ultimately show ?thesis using spec by (simp add: put_agrees_def code_bytes_def)
  next
    case False
    then obtain f where "put = (?P, f * face_elems, code_bytes (codes_of e a M d) (dense_at a jj + f * face_elems) (qa_stride a * 16))"
      using jj(2) by (auto simp: write_pieces_def a Let_def)
    then show ?thesis using spec by (simp add: put_agrees_def code_bytes_def add.assoc)
  qed
qed

lemma puts_cover:
  assumes good: "plan_good p" and i: "i < quantize_cores p" and a: "a = args_at q p noc_of i" and d: "d < qa_num_dense a"
    and P: "P div qp_pack p = share_start p i + d" "P < qp_tiles p" and mc: "m < qp_stride p" "c < 32"
  shows "\<exists>put \<in> set (dense_puts e a M d). put_covers P (elem_word m c) put"
    and "dense_at a (P mod qp_pack p) + elem_word m c = elem_word (P mod qp_pack p * qp_stride p + m) c"
    and "P mod qp_pack p < dense_count a d" "dense_page a d (P mod qp_pack p) = P"
proof -
  let ?jj = "P mod qp_pack p"
  have e: "(share_start p i + d) * qp_pack p + ?jj = P" unfolding P(1) [symmetric] by (rule div_mult_mod_eq)
  have pack: "0 < qp_pack p" "qp_pack p * qp_stride p = 32" using plan_dense(4,6) [OF good] by simp_all
  then have jj: "?jj < tile_count p (share_start p i + d)" using P(2) e by (simp add: tile_count_def)
  then show count: "?jj < dense_count a d" using args_count [OF good i a d] by simp
  show page: "dense_page a d ?jj = P" using args_page(1) [OF good i a jj] e by simp
  have st: "strided (args_at q p noc_of i)" by (rule args_strided [OF good])
  have "\<exists>put \<in> set (write_pieces a d ?jj (codes_of e a M d)). put_covers P (elem_word m c) put"
    and at: "dense_at a ?jj + elem_word m c = elem_word (?jj * qp_stride p + m) c"
  proof -
    show "\<exists>put \<in> set (write_pieces a d ?jj (codes_of e a M d)). put_covers P (elem_word m c) put"
    proof (cases "qp_pack p = 1")
      case True
      then have "m < 32" using mc(1) pack(2) by simp
      from element_less [OF this mc(2)] show ?thesis using True page
        by (simp add: write_pieces_def a Let_def put_covers_def code_bytes_def face_elems_def)
    next
      case False
      then obtain k where k: "k * qp_stride p = 16" "qp_pack p = 2 * k" using strided_parts(6) [OF st] by auto
      have half: "c div 16 < 2" using mc(2) by (simp add: less_mult_imp_div_less)
      have "0 < 2 * k" using k(2) pack(1) by simp
      from piece_covers(3) [OF k(1) mc half refl this this]
      have w: "elem_word m c = c div 16 * 256 + (16 * m + c mod 16)" .
      have "16 * u + v < s * 16" if "u < s" "v < 16" for u v s :: nat using that by linarith
      from this [OF mc(1), of "c mod 16"] have lt: "16 * m + c mod 16 < qp_stride p * 16" by simp
      have "c div 16 \<in> set [0..<2]" using half by simp
      then have "(P, c div 16 * face_elems, code_bytes (codes_of e a M d) (dense_at a ?jj + c div 16 * face_elems) (qp_stride p * 16)) \<in>
          set (write_pieces a d ?jj (codes_of e a M d))" using False page by (auto simp: write_pieces_def a Let_def)
      then show ?thesis by (rule bexI [rotated]) (use lt in \<open>simp add: put_covers_def code_bytes_def face_elems_def w\<close>)
    qed
    show "dense_at a ?jj + elem_word m c = elem_word (?jj * qp_stride p + m) c"
    proof (cases "qp_pack p = 1")
      case True
      then show ?thesis by (simp add: dense_at_def face_rows_def)
    next
      case False
      then obtain k where k: "k * qp_stride p = 16" "qp_pack p = 2 * k" using strided_parts(6) [OF st] by auto
      have half: "c div 16 < 2" using mc(2) by (simp add: less_mult_imp_div_less)
      have jj2: "?jj < 2 * k" using pack(1) by (simp add: k(2) [symmetric])
      note covers = piece_covers [OF k(1) mc half refl jj2 jj2]
      show ?thesis using covers(2) [OF refl refl] covers(3) by (simp add: dense_at_def Let_def a face_rows_def face_elems_def)
    qed
  qed
  then show "\<exists>put \<in> set (dense_puts e a M d). put_covers P (elem_word m c) put" using count by (auto simp: dense_puts_def)
  show "dense_at a ?jj + elem_word m c = elem_word (?jj * qp_stride p + m) c" by (rule at)
qed

section \<open>The program\<close>

definition core_entries :: "quantize_plan \<Rightarrow> quant_dfb \<Rightarrow> nat" where
  "core_entries p = quant_entries (max_dense p) (gather_tiles p)"

text \<open>
  A complete run of the program: of the kernels of every core, and of the exchange of what they sent.
  A core's compute kernel gets its gather buffer as it is in a state \<open>w\<close> of the exchange in which the
  core itself has come to its \<open>push_back\<close>; the others may be anywhere in their programs.
\<close>

definition quantize_ran ::
  "quant_env \<Rightarrow> quantize_params \<Rightarrow> quantize_plan \<Rightarrow> (core \<Rightarrow> core) \<Rightarrow> (nat \<Rightarrow> tile_words) \<Rightarrow> (nat \<Rightarrow> quant_memory) \<Rightarrow>
     (nat \<Rightarrow> (quant_dfb, tile_words, quant_store) net) \<Rightarrow> (core \<times> nat, core, u32) noc list \<Rightarrow> bool" where
  "quantize_ran e q p noc_of pages M f ws \<longleftrightarrow>
     (let X = exchange_of p noc_of (\<lambda>i. qs_part (stores (f i) 0)) in
      noc_path (ex_cores X) (exchange_main X) ws \<and> (\<nexists>w'. noc_step (ex_cores X) (exchange_main X) (last ws) w') \<and>
      (\<forall>i < quantize_cores p. qm_input (M i) = pages \<and>
        (\<exists>w \<in> set ws. length (exchange_main X i) \<le> pc w i \<and> (\<exists>stale. qm_received (M i) = gather_buffer (mem w) (core_noc p noc_of i) stale)) \<and>
        (\<exists>n. net_run (core_entries p) n (quant_start e (args_at q p noc_of i) (M i)) (f i)) \<and> net_stuck (core_entries p) (f i)))"

lemma core_sizes:
  assumes "plan_good p" "i < quantize_cores p"
  shows "sizes_ok (args_at q p noc_of i) (core_entries p)" "qa_writes_scale (args_at q p noc_of i) \<Longrightarrow> 0 < qa_num_dense (args_at q p noc_of i)"
proof -
  show "sizes_ok (args_at q p noc_of i) (core_entries p)"
    using share_fields(3) [OF assms, of noc_of] by (simp add: sizes_ok_def core_entries_def chunk_tiles_def args_at_def quant_core_args_def)
  assume "qa_writes_scale (args_at q p noc_of i)"
  then have "i = 0" by simp
  have "0 < share_start p 1"
  proof (cases "qp_dense p div quantize_cores p = 0")
    case True
    then have "0 < qp_dense p mod quantize_cores p" using plan_dense(1) [OF assms(1)] by (metis mult_div_mod_eq mult_zero_right add_0 neq0_conv)
    then show ?thesis by (simp add: share_start_def)
  qed (simp add: share_start_def)
  then show "0 < qa_num_dense (args_at q p noc_of i)"
    using args_share(2) [OF assms refl, of q noc_of] share_start_end(1) [OF assms(1)] \<open>i = 0\<close> by simp
qed

lemma core_ran:
  assumes good: "plan_good p" and ran: "quantize_ran e q p noc_of pages M f ws" and i: "i < quantize_cores p" and a: "a = args_at q p noc_of i"
  shows "qs_part (stores (f i) 0) = part_of e a (M i)" "qs_puts (stores (f i) 2) = concat (map (dense_puts e a (M i)) [0..<qa_num_dense a])"
    "qs_scale (stores (f i) 2) = scale_out e a (M i)"
proof -
  from ran i obtain n where run: "net_run (core_entries p) n (quant_start e a (M i)) (f i)" "net_stuck (core_entries p) (f i)"
    unfolding quantize_ran_def Let_def a by blast
  from quant_core [OF core_sizes(1) [OF good i] core_sizes(2) [OF good i], of q noc_of e "M i"] run
  show "qs_part (stores (f i) 0) = part_of e a (M i)" "qs_puts (stores (f i) 2) = concat (map (dense_puts e a (M i)) [0..<qa_num_dense a])"
    "qs_scale (stores (f i) 2) = scale_out e a (M i)" by (auto simp: a)
qed

lemma core_divisor:
  assumes env: "quant_env_ok e" and good: "plan_good p" and adj: "adjacent_cores p noc_of" and ran: "quantize_ran e q p noc_of pages M f ws"
    and i: "i < quantize_cores p" and rc: "r < 32" "c < 32"
  shows "tile_at (divisor_of e (args_at q p noc_of i) (M i) first) 0 r c = row_scale e q (qp_tiles p) pages (r mod qp_stride p)"
proof -
  let ?X = "exchange_of p noc_of (\<lambda>i. qs_part (stores (f i) 0))"
  from ran i obtain w stale where w: "noc_path (ex_cores ?X) (exchange_main ?X) ws" "w \<in> set ws" "length (exchange_main ?X i) \<le> pc w i"
    and received: "qm_received (M i) = gather_buffer (mem w) (core_noc p noc_of i) stale" unfolding quantize_ran_def Let_def by blast
  from w(2) obtain k where "k < length ws" "w = ws ! k" by (auto simp: in_set_conv_nth)
  then have run: "noc_run (ex_cores ?X) (exchange_main ?X) k noc_init w" using path_run [OF w(1)] by blast
  have parts: "qm_input (M d) = pages \<and> qs_part (stores (f d) 0) = part_of e (args_at q p noc_of d) (M d)" if "d < quantize_cores p" for d
    using core_ran(1) [OF good ran that refl] ran that unfolding quantize_ran_def Let_def by blast
  show ?thesis by (rule divisor_rows [OF env good adj i rc parts refl run w(3) received])
qed

text \<open>The code of an element, in the writes of all cores.\<close>

lemma code_landed:
  assumes env: "quant_env_ok e" and good: "plan_good p" and adj: "adjacent_cores p noc_of" and ran: "quantize_ran e q p noc_of pages M f ws"
    and land: "landed (concat (map (\<lambda>i. qs_puts (stores (f i) 2)) [0..<quantize_cores p])) m0 m1"
    and P: "P < qp_tiles p" and m: "m < qp_rows p" and c: "c < 32"
  shows "m1 P (elem_word m c) = row_code e q (row_scale e q (qp_tiles p) pages m) (page_elem (pages P) m c)"
proof -
  have rows: "qp_rows p \<le> qp_stride p" "qp_stride p \<le> 32" "0 < qp_stride p" using good by (auto simp: plan_good_def)
  have ms: "m < qp_stride p" using m rows by simp
  note share = share_of_dense [OF good]
  define core_of where "core_of D = (SOME i. i < quantize_cores p \<and> share_start p i \<le> D \<and> D < share_start p (Suc i))" for D
  have core: "core_of D = i" if "i < quantize_cores p" "share_start p i \<le> D" "D < share_start p (Suc i)" for D i
    unfolding core_of_def
  proof (rule some_equality)
    fix j assume j: "j < quantize_cores p \<and> share_start p j \<le> D \<and> D < share_start p (Suc j)"
    have "\<not> Suc j \<le> i" "\<not> Suc i \<le> j" using share_start_mono [of "Suc j" i p] share_start_mono [of "Suc i" j p] that j by linarith+
    then show "j = i" by simp
  qed (use that in simp)
  define codes where "codes D = codes_of e (args_at q p noc_of (core_of D)) (M (core_of D)) (D - share_start p (core_of D))" for D
  have at: "codes (share_start p i + d) = codes_of e (args_at q p noc_of i) (M i) d" if "i < quantize_cores p" "d < qa_num_dense (args_at q p noc_of i)" for i d
  proof -
    have "share_start p i + d < share_start p (Suc i)" using args_share(2) [OF good that(1) refl, of q noc_of] that(2) by linarith
    then have "core_of (share_start p i + d) = i" by (intro core that(1)) simp_all
    then show ?thesis by (simp add: codes_def)
  qed
  let ?spec = "code_spec (args_at q p noc_of 0) codes"
  have agree: "put_agrees ?spec put" if put: "put \<in> set (concat (map (\<lambda>i. qs_puts (stores (f i) 2)) [0..<quantize_cores p]))" for put
  proof -
    from put obtain i where i: "i < quantize_cores p" "put \<in> set (qs_puts (stores (f i) 2))" by auto
    with core_ran(2) [OF good ran i(1) refl] obtain d where d: "d < qa_num_dense (args_at q p noc_of i)" "put \<in> set (dense_puts e (args_at q p noc_of i) (M i) d)"
      by auto
    show ?thesis by (rule puts_agree [where codes = codes, OF good i(1) refl d(1) at [OF i(1) d(1)] d(2)])
  qed
  have "P div qp_pack p * qp_pack p \<le> P" by simp
  then have "P div qp_pack p < qp_dense p" using P plan_dense(3) [OF good] by (metis le_less_trans)
  from share [OF this] obtain i where i: "i < quantize_cores p" "share_start p i \<le> P div qp_pack p" "P div qp_pack p < share_start p (Suc i)" by blast
  let ?a = "args_at q p noc_of i"
  define d where "d = P div qp_pack p - share_start p i"
  have d: "d < qa_num_dense ?a" "P div qp_pack p = share_start p i + d" using i args_share(2) [OF good i(1) refl, of q noc_of] by (auto simp: d_def)
  note covers = puts_cover [OF good i(1) refl d P ms c]
  from covers(1) obtain put where put: "put \<in> set (dense_puts e ?a (M i) d)" "put_covers P (elem_word m c) put" by blast
  have "put \<in> set (qs_puts (stores (f i) 2))" using core_ran(2) [OF good ran i(1) refl] put(1) d(1) by auto
  then have "put \<in> set (concat (map (\<lambda>i. qs_puts (stores (f i) 2)) [0..<quantize_cores p]))" using i(1) by auto
  from landed_at [OF land agree this put(2)]
  have "m1 P (elem_word m c) = ?spec P (elem_word m c)" by simp
  also have "\<dots> = ucast (page_elem (codes_of e ?a (M i) d) (P mod qp_pack p * qp_stride p + m) c)"
    using covers(2) at [OF i(1) d(1)] dense_at_args [of q p noc_of i] by (simp add: code_spec_def d(2) page_elem_word)
  finally have written: "m1 P (elem_word m c) = ucast (page_elem (codes_of e ?a (M i) d) (P mod qp_pack p * qp_stride p + m) c)" .
  let ?r = "P mod qp_pack p * qp_stride p + m"
  have mod: "?r mod qp_stride p = m" by (rule index_mod [OF ms])
  have "Suc (P mod qp_pack p) * qp_stride p \<le> qp_pack p * qp_stride p" using plan_dense(4) [OF good] by (intro mult_le_mono1) (simp add: Suc_leI)
  then have r: "?r < 32" using ms plan_dense(6) [OF good] by simp
  have parity: "?r mod 4 < qp_rows p" by (rule row_parity [OF good]) (simp only: mod m)
  have input: "qm_input (M i) = pages" using ran i(1) unfolding quantize_ran_def Let_def by blast
  have "dense_count ?a d \<le> qa_pack ?a" using args_count [OF good i(1) refl d(1)] by (simp add: tile_count_def)
  from dense_elem [OF args_strided [OF good] covers(3) this] ms c
  have "page_elem (dense_tile ?a (M i) d) ?r c = page_elem (pages P) m c" by (simp add: input covers(4))
  moreover have "(ucast (ucast b :: u32) :: u8) = b" for b by (rule bit_word_eqI) (simp add: bit_simps)
  ultimately show ?thesis
    unfolding written quantized_elem(1) [OF refl d(1) r c parity] core_divisor [OF env good adj ran i(1) r c] mod by simp
qed

lemma scale_landed:
  assumes env: "quant_env_ok e" and good: "plan_good p" and adj: "adjacent_cores p noc_of" and ran: "quantize_ran e q p noc_of pages M f ws"
    and m: "m < qp_rows p" and c: "c < 32"
  shows "\<exists>s. qs_scale (stores (f 0) 2) = [s] \<and> page_elem s m c = row_scale e q (qp_tiles p) pages m"
proof -
  have i: "0 < quantize_cores p" by (rule plan_cores(2) [OF good])
  have rows: "qp_rows p \<le> qp_stride p" "qp_stride p \<le> 32" using good by (auto simp: plan_good_def)
  then have mod: "m mod qp_stride p = m" and m32: "m < 32" using m by simp_all
  have parity: "m mod 4 < qp_rows p" by (rule row_parity [OF good]) (simp only: mod m)
  have num: "0 < qa_num_dense (args_at q p noc_of 0)" using core_sizes(2) [OF good i, of q noc_of] by simp
  from quantized_elem(2) [OF refl num m32 c parity, of e "M 0"] core_divisor [OF env good adj ran i m32 c]
  show ?thesis by (simp add: core_ran(3) [OF good ran i refl] scale_out_def mod)
qed

section \<open>From the call to the outputs\<close>

lemma quantize_call:
  assumes "quantize_rows q t grid noc_of input codes scale = Inr (shapes, launch)"
  shows "validate_quantize q t = Inr ()" "shapes = quantize_output_shapes t" "launch = quantize_artifacts q t grid noc_of input codes scale"
  using assms by (auto simp: quantize_rows_def split: sum.splits)

lemma plan_adjacent:
  assumes v: "validate_quantize q t = Inr ()" and fits: "quantize_fits t grid noc_of" and p: "p = plan_of t grid noc_of"
  shows "adjacent_cores p noc_of"
proof -
  obtain grid_x grid_y where g: "adjacent_grid grid noc_of = (grid_x, grid_y)" by fastforce
  note plan = plan_fields [OF v fits p g]
  have x: "fst (noc_of (x, 0)) = fst (noc_of (0, 0)) + x" if "x < qp_width p" for x
    using run_of_adjacent [of x "fst grid" "\<lambda>x. fst (noc_of (x, 0)) = fst (noc_of (0, 0)) + x"] plan(4) g that
    by (cases "x = 0") (simp_all add: adjacent_grid_def)
  have y: "snd (noc_of (0, y)) = snd (noc_of (0, 0)) + y" if "y < qp_height p" for y
    using run_of_adjacent [of y "snd grid" "\<lambda>y. snd (noc_of (0, y)) = snd (noc_of (0, 0)) + y"] plan(5) g that
    by (cases "y = 0") (simp_all add: adjacent_grid_def)
  have "noc_of (x, y) = (fst (noc_of (x, 0)), snd (noc_of (0, y)))" for x y using fits unfolding quantize_fits_def by blast
  note apart = this
  show ?thesis
    unfolding adjacent_cores_def
  proof (intro allI impI)
    fix i j assume "i < qp_width p" "j < qp_height p"
    from apart [of i j] x [OF this(1)] y [OF this(2)] show "noc_of (i, j) = (fst (noc_of (0, 0)) + i, snd (noc_of (0, 0)) + j)" by simp
  qed
qed

text \<open>There is a complete run: what a core sends does not depend on what it receives.\<close>

lemma part_received: "part_of e a (m\<lparr>qm_received := G\<rparr>) = part_of e a m"
proof -
  have "dense_tile a (m\<lparr>qm_received := G\<rparr>) = dense_tile a m" by (simp add: dense_tile_def [abs_def] read_piece_def [abs_def])
  then show ?thesis by (simp add: part_of_def loaded_tile_def [abs_def])
qed

lemma run_complete:
  assumes good: "plan_good p" and adj: "adjacent_cores p noc_of"
  shows "\<exists>M f ws. quantize_ran e q p noc_of pages M f ws"
proof -
  let ?a = "args_at q p noc_of" and ?N = "core_entries p" and ?m = "\<lparr>qm_input = pages, qm_stale = (\<lambda>_ _. 0), qm_acquired = (\<lambda>_ _ _. 0), qm_received = (\<lambda>_ _. 0)\<rparr>"
  let ?X = "exchange_of p noc_of (\<lambda>i. part_of e (?a i) ?m)"
  obtain k w where w: "noc_run (ex_cores ?X) (exchange_main ?X) k noc_init w" "\<nexists>w'. noc_step (ex_cores ?X) (exchange_main ?X) w w'"
    using row_maxima.run_exists by blast
  from run_path [OF w(1)] obtain ws where ws: "noc_path (ex_cores ?X) (exchange_main ?X) ws" "last ws = w" by blast
  then have "w \<in> set ws" by (metis noc_path_def last_in_set)
  have "finished (ex_cores ?X) (exchange_main ?X) w" by (rule row_maxima.run_result(1) [OF exchange_fits [OF good adj] w])
  then have ends: "length (exchange_main ?X i) \<le> pc w i" if "i < quantize_cores p" for i using that by (simp add: finished_def exchange_of_def)
  define M where "M i = ?m\<lparr>qm_received := gather_buffer (mem w) (core_noc p noc_of i) (\<lambda>_. 0)\<rparr>" for i
  have part: "part_of e (?a i) (M i) = part_of e (?a i) ?m" for i unfolding M_def by (rule part_received)
  have "\<exists>g. (i < quantize_cores p \<longrightarrow> (\<exists>n. net_run ?N n (quant_start e (?a i) (M i)) g) \<and> net_stuck ?N g) \<and> qs_part (stores g 0) = part_of e (?a i) ?m" for i
  proof (cases "i < quantize_cores p")
    case True
    from quant_complete [OF core_sizes(1) [OF good True] core_sizes(2) [OF good True], of q noc_of e "M i"] obtain n g where
      "net_run ?N n (quant_start e (?a i) (M i)) g" "net_done g" "qs_part (stores g 0) = part_of e (?a i) (M i)" by blast
    then show ?thesis using net_done_stuck unfolding part by blast
  next
    case False
    then show ?thesis by (intro exI [of _ "net_start (\<lambda>_. []) (\<lambda>_. store_empty\<lparr>qs_part := part_of e (?a i) ?m\<rparr>)"]) (simp add: net_start_def)
  qed
  then obtain f where f: "\<And>i. (i < quantize_cores p \<longrightarrow> (\<exists>n. net_run ?N n (quant_start e (?a i) (M i)) (f i)) \<and> net_stuck ?N (f i)) \<and>
      qs_part (stores (f i) 0) = part_of e (?a i) ?m" by metis
  then have X: "exchange_of p noc_of (\<lambda>i. qs_part (stores (f i) 0)) = ?X" by simp
  have "qm_input (M i) = pages" "\<exists>stale. qm_received (M i) = gather_buffer (mem w) (core_noc p noc_of i) stale" for i by (auto simp: M_def)
  with ends \<open>w \<in> set ws\<close> have "\<forall>i < quantize_cores p. qm_input (M i) = pages \<and>
      (\<exists>w \<in> set ws. length (exchange_main ?X i) \<le> pc w i \<and> (\<exists>stale. qm_received (M i) = gather_buffer (mem w) (core_noc p noc_of i) stale))" by blast
  then have "quantize_ran e q p noc_of pages M f ws" unfolding quantize_ran_def Let_def X using ws w(2) f by (auto simp: ws(2))
  then show ?thesis by blast
qed

section \<open>The program is well formed\<close>

text \<open>The names that the kernels' sources read.\<close>

definition quant_reader_interface :: kernel_interface where
  "quant_reader_interface = \<lparr>
     reads_compile = [''stride'', ''pack'', ''elem_bytes'', ''cores'', ''slot_bytes'', ''gather_tiles'', ''x0'', ''y0'', ''x1'', ''y1''],
     reads_runtime = [''first_dense'', ''num_dense'', ''last_count'', ''core'', ''self_x'', ''self_y''],
     reads_dfbs = [''in'', ''part'', ''gather''], reads_tensors = [''input''], reads_defines = []\<rparr>"

definition quant_compute_interface :: kernel_interface where
  "quant_compute_interface = \<lparr>
     reads_compile = [''stride'', ''rows'', ''pack'', ''cores'', ''gather_tiles'', ''chunk_tiles'', ''e5m2'', ''fp8_max_bits'', ''min_scale_bits''],
     reads_runtime = [''num_dense'', ''last_count'', ''writes_scale''],
     reads_dfbs = [''in'', ''part'', ''gather'', ''out'', ''scale''], reads_tensors = [], reads_defines = []\<rparr>"

definition quant_writer_interface :: kernel_interface where
  "quant_writer_interface = \<lparr>
     reads_compile = [''stride'', ''pack'', ''chunk_tiles''], reads_runtime = [''first_dense'', ''num_dense'', ''last_count'', ''writes_scale''],
     reads_dfbs = [''out'', ''scale''], reads_tensors = [''q'', ''scale''], reads_defines = []\<rparr>"

lemma rect_cores_distinct: "distinct (rect_cores p)"
proof -
  have "inj_on (\<lambda>i. (i mod qp_width p, i div qp_width p)) {0..<qp_width p * qp_height p}"
    by (rule inj_onI) (metis div_mult_mod_eq prod.inject)
  then show ?thesis by (simp add: rect_cores_def distinct_map)
qed

text \<open>A core's arguments are those that the kernels read from the program.\<close>

lemma quantize_args_read:
  assumes "i < quantize_cores p" and "reader = quantize_reader_spec p t noc_of" and "compute = quantize_compute_spec q p t"
    and "given = share_args (share_of p noc_of i)" and "a = args_at q p noc_of i" and "X = exchange_of p noc_of parts"
  shows "qa_stride a = get_arg (compile_time_args reader) ''stride''" "qa_pack a = get_arg (compile_time_args reader) ''pack''"
    "qa_rows a = get_arg (compile_time_args compute) ''rows''" "qa_cores a = get_arg (compile_time_args reader) ''cores''"
    "qa_gather_tiles a = get_arg (compile_time_args reader) ''gather_tiles''" "of_bool (qa_e5m2 a) = get_arg (compile_time_args compute) ''e5m2''"
    "unat (qa_fp8_max a) = get_arg (compile_time_args compute) ''fp8_max_bits''" "unat (qa_min_scale a) = get_arg (compile_time_args compute) ''min_scale_bits''"
    "qa_first_dense a = get_arg given ''first_dense''" "qa_num_dense a = get_arg given ''num_dense''" "qa_last_count a = get_arg given ''last_count''"
    "of_bool (qa_writes_scale a) = get_arg given ''writes_scale''" "ex_slot_bytes X = get_arg (compile_time_args reader) ''slot_bytes''"
    "ex_first X = (get_arg (compile_time_args reader) ''x0'', get_arg (compile_time_args reader) ''y0'')"
    "ex_last X = (get_arg (compile_time_args reader) ''x1'', get_arg (compile_time_args reader) ''y1'')"
    "ex_self X i = (get_arg given ''self_x'', get_arg given ''self_y'')" "get_arg given ''core'' = i"
  by (simp_all add: assms(2-6) quantize_reader_spec_def quantize_compute_spec_def share_args_def args_at_def quant_core_args_def exchange_of_def core_noc_def
      share_of_def Let_def get_arg_def)

lemma quantize_program_wf:
  assumes "quantize_rows q t grid noc_of input codes scale = Inr (shapes, prog)" and "quantize_fits t grid noc_of"
  shows "wf_program prog" "list_all2 links [quant_reader_interface, quant_writer_interface, quant_compute_interface] (spec_kernels (artifact_spec prog))"
proof -
  note call = quantize_call [OF assms(1)]
  obtain grid_x grid_y where g: "adjacent_grid grid noc_of = (grid_x, grid_y)" by fastforce
  define p where "p = plan_of t grid noc_of"
  have plan: "quantize_rows_plan (qt_logical t) (qt_padded t) grid_x grid_y = p" by (simp add: p_def plan_of_def g)
  note good = plan_fields(1) [OF call(1) assms(2) p_def g]
  have "0 < qa_num_dense (args_at q p noc_of 0)" by (rule core_sizes(2) [OF good plan_cores(2) [OF good]]) simp
  then have "0 < max_dense p" using share_fields(3) [OF good plan_cores(2) [OF good], of noc_of] by (simp add: args_at_def quant_core_args_def)
  moreover have "0 < gather_tiles p" using gather_tiles_count(2) [OF good] plan_cores(2) [OF good] good by (auto simp: plan_good_def)
  moreover have "map (fst \<circ> (\<lambda>s. (qs_core s, share_args s))) (quantize_shares p noc_of) = rect_cores p"
    by (simp add: quantize_shares_def rect_cores_def share_of_def Let_def comp_def plan_cores(1) [OF good])
  moreover have "list_all (\<lambda>s. map fst (share_args s) = quantize_runtime_names) (quantize_shares p noc_of)"
    by (simp add: list_all_iff share_args_def quantize_runtime_names_def)
  ultimately show "wf_program prog"
    using rect_cores_distinct [of p]
    by (simp add: call(3) quantize_artifacts_def g plan wf_program_simps quantize_reader_spec_def quantize_writer_spec_def quantize_compute_spec_def
        quantize_buffers_def quantize_buffer_def quantize_run_args_def in_tile_bytes_def chunk_tiles_def list_all_iff case_prod_unfold comp_def Let_def)
  have "links quant_reader_interface (quantize_reader_spec p t noc_of)" "links quant_writer_interface (quantize_writer_spec p)"
    "links quant_compute_interface (quantize_compute_spec q p t)"
    by (simp_all add: links_def quant_reader_interface_def quantize_reader_spec_def quant_writer_interface_def quantize_writer_spec_def
        quant_compute_interface_def quantize_compute_spec_def dfb_binding_of_def quantize_runtime_names_def Let_def)
  then show "list_all2 links [quant_reader_interface, quant_writer_interface, quant_compute_interface] (spec_kernels (artifact_spec prog))"
    by (simp add: call(3) quantize_artifacts_def g plan)
qed

section \<open>Results\<close>

text \<open>
  An example: two tiles of ones on two cores. The quotient of two numbers is that of their logarithms
  (exact where one of them is a power of two), which makes the scale 1/448 and every quotient 448.
\<close>

definition ones_env :: quant_env where
  "ones_env = \<lparr>qe_fload = (\<lambda>x. if exponent x = 0 then 0 else x), qe_divide = (\<lambda>a b. a - b + 0x3F800000),
     qe_convert = (\<lambda>_ x. x), qe_unpack = id, qe_pack8 = (\<lambda>x. ucast (drop_bit 20 x - 0x3C0))\<rparr>"

definition ones_tensor :: quantize_tensor where
  "ones_tensor = \<lparr>qt_allocated = True, qt_tile_layout = True, qt_interleaved = True, qt_dtype = FLOAT32, qt_tile_shape = (32, 32),
     qt_logical = [1, 1, 2, 64], qt_padded = [1, 1, 32, 64]\<rparr>"

definition ones_params :: quantize_params where
  "ones_params = \<lparr>qq_dtype = FP8_E4M3, qq_min_scale = 0\<rparr>"

definition ones_noc :: "core \<Rightarrow> core" where
  "ones_noc c = (fst c + 1, snd c + 1)"

definition ones_page :: tile_words where
  "ones_page k = 0x3F800000"

lemma ones_ready:
  "quantize_rows ones_params ones_tensor (2, 1) ones_noc ''i'' ''q'' ''s'' =
    Inr (([1, 1, 2, 64], [1, 1, 2, 1]), quantize_artifacts ones_params ones_tensor (2, 1) ones_noc ''i'' ''q'' ''s'')"
  "quantize_fits ones_tensor (2, 1) ones_noc" "quant_env_ok ones_env" "dim_back (qt_logical ones_tensor) (Suc 0) = 64" "dim_back (qt_logical ones_tensor) 2 = 2"
  by (simp_all add: quantize_rows_def validate_quantize_def quantize_output_shapes_def ones_tensor_def ones_params_def dim_back_def finite_bits_def
      not_negative_bits_def quantize_fits_def ones_noc_def quant_env_ok_def ones_env_def magnitude_def exponent_def)

lemma ones_run:
  shows "\<exists>M f ws. quantize_ran ones_env ones_params (plan_of ones_tensor (2, 1) ones_noc) ones_noc (\<lambda>_. ones_page) M f ws"
proof -
  note v = quantize_call(1) [OF ones_ready(1)]
  obtain x y where "adjacent_grid (2, 1) ones_noc = (x, y)" by fastforce
  from plan_fields(1) [OF v ones_ready(2) refl this] plan_adjacent [OF v ones_ready(2) refl] show ?thesis by (rule run_complete)
qed

lemma ones_scale: "row_scale ones_env ones_params 2 (\<lambda>_. ones_page) m = 0x3B200000"
proof -
  have "row_bits ones_env (qe_unpack ones_env (page_elem ones_page r c)) = 0x3F800000" for r c
    by (simp add: row_bits_def ones_env_def page_elem_def ones_page_def exponent_def magnitude_def)
  moreover have "(\<exists>P c. P \<in> {..<2 :: nat} \<and> c < (32 :: nat)) = True" by (auto intro: exI [of _ 0])
  ultimately have "row_mags ones_env (\<lambda>_. ones_page) {..<2} m = {0x3F800000}" by (simp add: row_mags_def)
  then show ?thesis
    by (simp add: row_scale_def scale_of_def greatest_def scale_bits_def imax_def) (simp add: ones_env_def ones_params_def fp8_max_bits_def exponent_def word_sless_alt)
qed

lemma ones_code: "row_code ones_env ones_params 0x3B200000 (page_elem ones_page r c) = 0x7E"
  by (simp add: row_code_def ones_env_def page_elem_def ones_page_def)

text \<open>
  C29: Whatever the interleaving of the cores' kernels and of the exchange, the order the writes
  land in, and the moment after its own wait at which a core hands on its gather buffer (the others
  may still be anywhere in theirs), a launched quantize_rows leaves for every element of the input its float8 code: the
  conversion of its quotient by its row's scale. The scale is the greatest magnitude of the row, over
  all cores, divided by the format's largest value, no less than the least scale asked for, and
  not a number where the row has one; the first core alone writes the scales.
\<close>

theorem quantize_result:
  assumes "quantize_rows q t grid noc_of input codes scale = Inr (shapes, launch)" and "quantize_fits t grid noc_of" and "quant_env_ok e"
    and "quantize_ran e q (plan_of t grid noc_of) noc_of pages M f ws"
    and "landed (concat (map (\<lambda>i. qs_puts (stores (f i) 2)) [0..<quantize_cores (plan_of t grid noc_of)])) before codes_after"
    and "y < dim_back (qt_logical t) 2" and "x < dim_back (qt_logical t) 1"
  shows "codes_after (x div 32) (elem_word y (x mod 32)) =
      row_code e q (row_scale e q (dim_back (qt_logical t) 1 div 32) pages y) (page_elem (pages (x div 32)) y (x mod 32)) \<and>
    (\<exists>s. qs_scale (stores (f 0) 2) = [s] \<and> page_elem s y (x mod 32) = row_scale e q (dim_back (qt_logical t) 1 div 32) pages y) \<and>
    (\<forall>i. 0 < i \<and> i < quantize_cores (plan_of t grid noc_of) \<longrightarrow> qs_scale (stores (f i) 2) = [])"
proof -
  let ?p = "plan_of t grid noc_of"
  note v = quantize_call(1) [OF assms(1)]
  obtain grid_x grid_y where g: "adjacent_grid grid noc_of = (grid_x, grid_y)" by fastforce
  note plan = plan_fields [OF v assms(2) refl g]
  note good = plan(1)
  note adj = plan_adjacent [OF v assms(2) refl]
  have "dim_back (qt_logical t) 1 = 32 * qp_tiles ?p" using plan(3) v by (auto simp: validate_quantize_def Let_def split: if_splits list.splits)
  then have tiles: "dim_back (qt_logical t) 1 div 32 = qp_tiles ?p" "x div 32 < qp_tiles ?p" using assms(7) by (simp_all add: less_mult_imp_div_less mult.commute)
  have y: "y < qp_rows ?p" using assms(6) by (simp add: plan(2))
  have "x mod 32 < 32" by simp
  note elem = code_landed [OF assms(3) good adj assms(4,5) tiles(2) y this] scale_landed [OF assms(3) good adj assms(4) y this]
  have "qs_scale (stores (f i) 2) = []" if "0 < i" "i < quantize_cores ?p" for i
    using core_ran(3) [OF good assms(4) that(2) refl] that(1) by (simp add: scale_out_def)
  then show ?thesis unfolding tiles(1) using elem by blast
qed

lemma quantize_result_witness:
  "\<exists>M f ws (codes :: pages) s. quantize_ran ones_env ones_params (plan_of ones_tensor (2, 1) ones_noc) ones_noc (\<lambda>_. ones_page) M f ws \<and>
    codes 1 (elem_word 1 8) = 0x7E \<and> qs_scale (stores (f 0) 2) = [s] \<and> page_elem s 1 8 = 0x3B200000"
proof -
  obtain M f ws where ran: "quantize_ran ones_env ones_params (plan_of ones_tensor (2, 1) ones_noc) ones_noc (\<lambda>_. ones_page) M f ws"
    using ones_run by blast
  let ?puts = "concat (map (\<lambda>i. qs_puts (stores (f i) 2)) [0..<quantize_cores (plan_of ones_tensor (2, 1) ones_noc)])"
  have "landed ?puts (\<lambda>_ _. 0) (fold apply_put ?puts (\<lambda>_ _. 0))" unfolding landed_def by blast
  from quantize_result [OF ones_ready(1-3) ran this, of 1 40]
  have "fold apply_put ?puts (\<lambda>_ _. 0) 1 (elem_word 1 8) = 0x7E" "\<exists>s. qs_scale (stores (f 0) 2) = [s] \<and> page_elem s 1 8 = 0x3B200000"
    by (simp_all add: ones_ready(4,5) ones_scale ones_code)
  with ran show ?thesis by blast
qed

text \<open>
  C30: No core of a launched quantize_rows waits for ever: the runs of its kernels and those of the
  exchange are bounded, where none can step all have come to their ends, and there is a complete
  run in which every core gets what the others sent.
\<close>

theorem quantize_ends:
  assumes "quantize_rows q t grid noc_of input codes scale = Inr (shapes, launch)" and "quantize_fits t grid noc_of"
    and "p = plan_of t grid noc_of" and "X = exchange_of p noc_of parts"
  shows "(\<forall>i < quantize_cores p. \<exists>bound. \<forall>n f. net_run (core_entries p) n (quant_start e (args_at q p noc_of i) m) f \<longrightarrow>
      n \<le> bound \<and> (net_stuck (core_entries p) f \<longrightarrow> net_done f)) \<and>
    (\<forall>n w. noc_run (ex_cores X) (exchange_main X) n noc_init w \<longrightarrow> n \<le> (\<Sum>c<ex_cores X. 2 * length (exchange_main X c)) \<and>
      (finished (ex_cores X) (exchange_main X) w \<or> (\<exists>w'. noc_step (ex_cores X) (exchange_main X) w w'))) \<and>
    (\<exists>M f ws. quantize_ran e q p noc_of pages M f ws)"
proof -
  note v = quantize_call(1) [OF assms(1)]
  obtain grid_x grid_y where g: "adjacent_grid grid noc_of = (grid_x, grid_y)" by fastforce
  note good = plan_fields(1) [OF v assms(2,3) g] and adj = plan_adjacent [OF v assms(2,3)]
  have ok: "exchange_ok X" unfolding assms(4) by (rule exchange_fits [OF good adj])
  have "\<exists>bound. \<forall>n f. net_run (core_entries p) n (quant_start e (args_at q p noc_of i) m) f \<longrightarrow>
      n \<le> bound \<and> (net_stuck (core_entries p) f \<longrightarrow> net_done f)" if "i < quantize_cores p" for i
    using quant_core [OF core_sizes(1) [OF good that] core_sizes(2) [OF good that], of q noc_of e m] by blast
  moreover have "n \<le> (\<Sum>c<ex_cores X. 2 * length (exchange_main X c)) \<and>
      (finished (ex_cores X) (exchange_main X) w \<or> (\<exists>w'. noc_step (ex_cores X) (exchange_main X) w w'))"
    if "noc_run (ex_cores X) (exchange_main X) n noc_init w" for n w
    using row_maxima.run_bound [OF that] row_maxima.progress [OF ok row_maxima.run_inv [OF that ok noc_inv_init]] by blast
  ultimately show ?thesis using run_complete [OF good adj] by blast
qed

lemma quantize_ends_witness:
  "\<exists>M f ws. quantize_ran ones_env ones_params (plan_of ones_tensor (2, 1) ones_noc) ones_noc (\<lambda>_. ones_page) M f ws"
  using quantize_ends [OF ones_ready(1,2) refl refl] by blast

end
