(* ===== verification/Spec2Isabelle.thy ===== *)
theory Spec2Isabelle
  imports ContextSplit ContextSync Processes RuntimeRoot TopkBounds RngProgram RowsGatherProgram ElementReduce RowsRoundTrip RowsPrograms MatmulFp32Program StatePoolProgram QuantizeProgram
begin

text \<open>
  A verification library of libtt, a PJRT plugin for Tenstorrent devices: the coordination of its
  processes (\<open>cpp\<close>) and the device operations that it adds to TTNN (\<open>ttnn/cpp/ttnn/operations\<close>), each
  from the call on the host to what its kernels leave in memory.

  The parts and how they meet. A process reads its group from libtpu's environment variables
  (\<open>Processes\<close>), extracts the embedded runtime once per machine (\<open>RuntimeRoot\<close>) and coordinates with
  the others through a context (\<open>KeyValueContext\<close>) whose messages and collectives are puts and gets
  of a key-value store over TCP (\<open>TcpStore\<close>). A device operation validates its operands, plans its
  work over the cores and hands the runtime a program (\<open>ProgramSpec\<close>) of kernels, which meet at
  dataflow buffers on a core, at semaphores between cores, or only in DRAM.

  What each theory models, by the files under \<open>src/\<close>.

  \<^item> Shared: \<open>Prelude\<close> has the machine types, the wrap-around of \<open>uint32_t\<close> (\<open>w32\<close>), decimal
    numbers, paths and blocks of lists. \<open>Effects\<close> has programs over a shared store, their interleavings
    and a rely/guarantee rule; \<open>Sessions\<close> the locale \<open>session\<close>, of lists of calls that cannot deadlock.
  \<^item> Coordination, \<open>cpp/key_value_context.{h,cc}\<close>: \<open>KeyValueContext\<close> has one definition per method
    of the context, as operations on its state that put, get and throw. \<open>ContextKeys\<close> shows that the
    strings of its keys read back to call and channel (locale \<open>keyspace\<close>); \<open>ContextLogic\<close> is a program
    logic for operations; \<open>ContextCalls\<close> collects the calls. \<open>ContextFamily\<close> has the contexts that a
    group can derive and what two of them share; \<open>ContextScripts\<close> what members receive in any
    interleaving; \<open>ContextSplit\<close> the subgroups; \<open>ContextProgress\<close> and \<open>ContextSync\<close> that collectives and
    synchronous sends end and what their return says of the others.
  \<^item> Store, \<open>cpp/tcp_key_value_store.cc\<close>: \<open>TcpStore\<close> has the connection, the server and the client over
    sockets that fragment, interrupt, fail and end as they like; making a string may throw (a parameter
    of each process, \<open>allocator\<close>), and so may each of the server's writes (\<open>outcomes\<close>). \<open>StoreProvider\<close> is the interface that the
    context uses, as a locale; \<open>TcpTransport\<close> shows that the TCP store provides it.
  \<^item> \<open>Processes\<close> (\<open>cpp/libtpu_processes.cc\<close>): the environment of a group, the mesh files, when exactly a group
    is configured, and that nothing already set is overwritten; the record \<open>machine\<close> has the answers of the
    system, those that the source ignores included. \<open>RuntimeRoot\<close> (\<open>cpp/tt_metal_runtime_root.cc\<close>): each call that
    another process sees, or that can fail, is a step of a process, which succeeds, fails or is killed
    there; mutual exclusion, what the marker promises, what a process keeps where \<open>fchdir\<close> or \<open>setenv\<close> fail
    unseen, and that an undisturbed process ends.
  \<^item> Machines: \<open>DataflowBuffer\<close> runs the kernels of one core over their buffers; its steps commute, so
    one complete schedule decides every run. \<open>NocMachine\<close> runs cores that write to each other's memory and
    count on semaphores, with writes in flight (locale \<open>noc_protocol\<close>). \<open>DmaMachine\<close> runs workers whose reads
    and writes complete in any order (locale \<open>dma_protocol\<close>). \<open>DramPages\<close> has writes that land in any order,
    \<open>DstTiles\<close> the tile registers as the vector unit addresses them.
  \<^item> TopK selection (\<open>reduction/topk/device\<close>): \<open>TopkPlan\<close> has the plan and the factory's arguments,
    \<open>TopkSelect\<close> the keys, the scan and the merge of candidate lists, \<open>TopkKernel\<close> the kernel's program for
    every core, \<open>TopkKernelRun\<close> what every complete run leaves, \<open>TopkBounds\<close> the buffers it stays in.
  \<^item> Random bits (\<open>experimental/rng_bits\<close>): \<open>RngBits\<close> and \<open>RngWords\<close> have the two generators on the vector
    unit against their definitions, \<open>RngDevice\<close> the checks, the data movement and the state tensor,
    \<open>RngProgram\<close> the program.
  \<^item> Rows gather and scatter (\<open>experimental/indexed_rows\<close>): \<open>IndexedRows\<close> has the shared kernel header,
    \<open>IndexedRowsPlan\<close> the checks, the geometry and the programs. \<open>RowsGather\<close>, \<open>RowsGatherRun\<close>,
    \<open>RowsGatherTensor\<close> and \<open>RowsGatherProgram\<close> go from the gather's kernels to its output tensor;
    \<open>RowsScatter\<close>, \<open>RowsScatterApply\<close>, \<open>RowsScatterRun\<close>, \<open>RowsScatterTensor\<close>, \<open>RowsScatterProgram\<close> do so
    for the scatter, with the reductions of \<open>ElementReduce\<close>. \<open>RowsRoundTrip\<close> composes the two;
    \<open>RowsPrograms\<close> has their programs well formed.
  \<^item> FP32 matmul (\<open>experimental/matmul_fp32\<close> and \<open>cpp/tt_metal/.../ckernel_sfpu_matmul_fp32.h\<close>): \<open>SfpuMatmul\<close> runs
    the vector unit's instructions for one pair of tiles; \<open>TileMultiplier\<close> is the contract of such a unit,
    as a locale, and that this one meets it; \<open>MatmulFp32\<close>, \<open>MatmulFp32Run\<close> and \<open>MatmulFp32Program\<close> have
    the kernels, their runs, and the operation from its call to the elements of its output.
  \<^item> State pool copy (\<open>transformer/state_pool_copy\<close>): \<open>StatePoolCopy\<close> has the kernel on \<open>DmaMachine\<close>,
    \<open>StatePoolProgram\<close> the checks, the program and the pool it leaves.
  \<^item> Row quantization to float8 (\<open>experimental/quantize_rows\<close>): \<open>QuantizeSfpu\<close> has the vector unit's
    programs, \<open>QuantizeMaxima\<close> and \<open>QuantizeTiles\<close> what they compute, \<open>QuantizePlan\<close> the checks, the plan and
    the program, \<open>QuantizeRows\<close> and \<open>QuantizeRun\<close> the kernels of a core and all their runs,
    \<open>QuantizeExchange\<close> the exchange of the row maxima on \<open>NocMachine\<close>, and \<open>QuantizeProgram\<close> the operation
    from its call to the codes and scales.

  What the lemmas show. For an operation: validated operands give a plan within bounds; no
  32-bit product or sum on the way to an address wraps, under the stated sizes; the program is
  well formed and binds every name its kernels read; every interleaving of the kernels is bounded
  and stops only where all have ended; and what they leave, in whatever order the writes land, is the
  operation's result, given by a definition that knows nothing of cores, tiles or buffers. For the
  coordination: which calls can meet on a key, what every member receives in every interleaving and
  under every failure, and that without failures collectives end.

  How the code is translated. A class or struct is a record, an enumeration a datatype; an exception
  and a failed check are an \<open>Inl\<close>; \<open>uint32_t\<close> values that are data are words of 32 bits, those that
  count or address are natural numbers with \<open>w32\<close> where the source's arithmetic can wrap. A kernel is
  a list of its instructions, or its function of the arguments that it gets at run time. Loops over a
  range are folds or concatenations over it; a loop with another end is a function with its measure.
  Fuel appears twice: the normalisation of a half-precision subnormal has at most ten turns, one per
  bit of the mantissa, and the state pool's loop gets more turns than the worker has pages, which is
  proved to be enough. A send loop that gets no answer has the value \<open>None\<close>, and it is proved when it does return.

  What is a parameter. Code that the repository only calls: what TTNN answers of a tensor, how work is
  split over cores (with the law that the parts are disjoint and whole), the coordinates of the grid,
  the sockets, the file system, archive and environment, and from the hardware the lanes' fused multiply-add and division,
  the 23-bit multiplier, the unpacking and padding of tiles, the conversion to float8 and what
  registers and buffers hold before they are written. Laws are assumed of them only where their
  documentation gives them, each by name: \<open>env_ok\<close>, \<open>quant_env_ok\<close>, \<open>split_ok\<close> and the like. Floating-point
  sums keep the order in which the device makes them.

  Where the model is coarser than the code.
  \<^item> Kernels of quantize_rows exchange maxima and fill buffers on two machines that meet in one
    statement, \<open>quantize_ran\<close>: a core's share in the exchange is a program of its own, fed by what its
    compute kernel left. The compute kernel gets the gather buffer as it is in some state of the
    exchange in which the core's own program has ended, wherever the other cores are.
  \<^item> The calls of a script (\<open>exec\<close>) are those that one thread of a member makes and waits for. The
    thread that \<open>irecv\<close> starts is not one of them; a split, which makes contexts, is treated on its own in
    \<open>ContextSplit\<close>.
  \<^item> A sequence number of a context does not wrap at \<open>2 ^ 64\<close>.
  \<^item> A transfer of the rows kernels captures its bytes when it is issued: the barriers and flushes
    between the transfers of one kernel are not steps (the writes of a program land in any order
    all the same). So does a send of the topk kernel, whose staging buffer is not a component of the state.
    The barriers of \<open>NocMachine\<close> and \<open>DmaMachine\<close> are steps.
  \<^item> The two kernels of rng_bits on a core are composed as functions, the mover's pages from the state that it read;
    its barriers are not steps.
  \<^item> A load macro of the vector unit is one step, its load, its multiply-add and its store together, without the
    delays of the pipeline.
  \<^item> The product of two \<open>uint16_t\<close> values in \<open>reduce_int\<close> is taken modulo \<open>2 ^ 16\<close>, as the comment there asks;
    in C++ it is computed in \<open>int\<close>, where it can overflow.

  What is not modelled. The passes over MLIR and StableHLO (\<open>tt_mlir\<close>, control flow of
  \<open>third_party/tt_xla\<close>) and the runtime's glue, whose meaning is that of MLIR's operations and rewriter;
  the two fused decoding operations \<open>split_qkv_norm_rope_decode\<close> and \<open>qkv_heads_norm_rope_decode\<close>, which
  chain tile operations of the platform; the link stubs; the Python packages, tests, build files and
  patches.
\<close>

section \<open>The device programs\<close>

text \<open>
  C36: The programs of rows_gather, rows_scatter, matmul_fp32, quantize_rows and rng_bits are well
  formed: every buffer has entries and exactly one producing and one consuming kernel, every kernel's runtime
  arguments are given on exactly the cores of its work unit, every tensor binding names a tensor
  parameter with its argument, and the specs bind every name the kernels' sources read.
\<close>

theorem device_programs_wf:
  assumes "\<forall>work. split_ok work (split work)"
    and "rows_gather p i table indices output split = Inr (Launch gather)" and "rows_fit p i"
    and "rows_scatter p' i' table' indices' source output' split = Inr (Launch scatter)" and "scatter_fit p' i'"
    and "matmul_fp32 operands a b c split = Inr (shape, matmul)" and "matmul_fits operands"
    and "quantize_rows q t grid noc_of input codes scale = Inr (shapes, quantize)" and "quantize_fits t grid noc_of"
    and "0 < state_page_bytes" and "0 < tile_bytes"
    and rng: "rng = rng_artifacts philox rng_shape padded physical_volume state_page_bytes half_tile tile_bytes state bits new_state split"
  shows "wf_program gather \<and> list_all2 links [gather_reader_interface, gather_writer_interface] (spec_kernels (artifact_spec gather)) \<and>
    wf_program scatter \<and> list_all2 links [scatter_reader_interface, scatter_writer_interface] (spec_kernels (artifact_spec scatter)) \<and>
    wf_program matmul \<and> list_all2 links [matmul_reader_interface, matmul_writer_interface, matmul_compute_interface]
      (spec_kernels (artifact_spec matmul)) \<and>
    wf_program quantize \<and> list_all2 links [quant_reader_interface, quant_writer_interface, quant_compute_interface]
      (spec_kernels (artifact_spec quantize)) \<and>
    wf_program rng \<and> list_all2 links [rng_mover_interface, rng_compute_interface] (spec_kernels (artifact_spec rng))"
proof -
  note g = rows_gather_launch [OF assms(2,3)] and s = rows_scatter_launch [OF assms(4,5)]
  have "wf_program gather" "wf_program scatter"
    unfolding g(2) s(2) using assms(1) by (auto intro!: gather_wf [OF g(1)] scatter_wf [OF s(1) assms(5)])
  moreover have "wf_program rng" unfolding rng using assms(1) by (intro rng_program_wf assms(10,11)) blast
  moreover have "list_all2 links [rng_mover_interface, rng_compute_interface] (spec_kernels (artifact_spec rng))"
    using rng_kernels_link by (simp add: rng rng_artifacts_def Let_def)
  ultimately show ?thesis
    using matmul_program_wf [OF assms(6,7,1)] quantize_program_wf [OF assms(8,9)] unfolding g(2) s(2)
    by (intro conjI) (assumption | rule rows_kernels_link)+
qed

lemma device_programs_wf_witness:
  "wf_program (gather_artifacts example_params example_operands ''t'' ''i'' ''o'' one_core) \<and>
   wf_program (scatter_artifacts example_params example_update ''t'' ''i'' ''s'' ''o'' one_core) \<and>
   wf_program (matmul_artifacts example_product ''a'' ''b'' ''c'' one_core) \<and>
   wf_program (quantize_artifacts ones_params ones_tensor (2, 1) ones_noc ''i'' ''q'' ''s'') \<and>
   wf_program (rng_artifacts True [2, 33, 40] [2, 64, 64] 8192 4096 None 4096 ''s'' ''b'' ''n'' one_core)"
  using device_programs_wf [OF _ example_call example_scatter example_product_call ones_ready(1,2) _ _ refl, where state_page_bytes = 4096
    and tile_bytes = 4096 and philox = True and rng_shape = "[2, 33, 40]" and padded = "[2, 64, 64]" and physical_volume = 8192
    and half_tile = None and state = "''s''" and bits = "''b''" and new_state = "''n''"] one_core_ok
  by simp

end
